(* ===== verification/Lk_Prelude.thy ===== *)
theory Lk_Prelude
  imports Main "HOL-Library.Word"
begin

unbundle bit_operations_syntax

text \<open>
  Shared vocabulary of the development: the machine types and status codes of
  \<^verbatim>\<open>include/lk/err.h\<close>, unsigned arithmetic that wraps at 32 and 64 bits, and the two
  views of C memory that every component uses, reading a range of a byte array
  (\<open>slice_at\<close>, what \<^verbatim>\<open>memcpy\<close> out of a buffer yields) and overwriting one
  (\<open>splice\<close>, what \<^verbatim>\<open>memcpy\<close> into a buffer does).
  The collections \<open>wrap_simps\<close> and \<open>mem_simps\<close> carry most component proofs.
\<close>

named_theorems wrap_simps \<open>wrap-around arithmetic that stays in range\<close>
named_theorems mem_simps \<open>ranges of byte arrays\<close>

section \<open>Machine types and status codes\<close>

type_synonym byte = "8 word"
type_synonym u32 = "32 word"
type_synonym u64 = "64 word"

text \<open>A \<^verbatim>\<open>status_t\<close> or \<^verbatim>\<open>ssize_t\<close> is an integer; negative values are errors.\<close>

type_synonym status = int

abbreviation NO_ERROR :: status where "NO_ERROR \<equiv> 0"
abbreviation ERR_GENERIC :: status where "ERR_GENERIC \<equiv> -1"
abbreviation ERR_NOT_FOUND :: status where "ERR_NOT_FOUND \<equiv> -2"
abbreviation ERR_NOT_READY :: status where "ERR_NOT_READY \<equiv> -3"
abbreviation ERR_NO_MSG :: status where "ERR_NO_MSG \<equiv> -4"
abbreviation ERR_NO_MEMORY :: status where "ERR_NO_MEMORY \<equiv> -5"
abbreviation ERR_NOT_VALID :: status where "ERR_NOT_VALID \<equiv> -7"
abbreviation ERR_INVALID_ARGS :: status where "ERR_INVALID_ARGS \<equiv> -8"
abbreviation ERR_NOT_ENOUGH_BUFFER :: status where "ERR_NOT_ENOUGH_BUFFER \<equiv> -9"
abbreviation ERR_NOT_SUSPENDED :: status where "ERR_NOT_SUSPENDED \<equiv> -10"
abbreviation ERR_OBJECT_DESTROYED :: status where "ERR_OBJECT_DESTROYED \<equiv> -11"
abbreviation ERR_NOT_BLOCKED :: status where "ERR_NOT_BLOCKED \<equiv> -12"
abbreviation ERR_TIMED_OUT :: status where "ERR_TIMED_OUT \<equiv> -13"
abbreviation ERR_ALREADY_EXISTS :: status where "ERR_ALREADY_EXISTS \<equiv> -14"
abbreviation ERR_NOT_ALLOWED :: status where "ERR_NOT_ALLOWED \<equiv> -17"
abbreviation ERR_IO :: status where "ERR_IO \<equiv> -20"
abbreviation ERR_NOT_SUPPORTED :: status where "ERR_NOT_SUPPORTED \<equiv> -24"
abbreviation ERR_TOO_BIG :: status where "ERR_TOO_BIG \<equiv> -25"
abbreviation ERR_CANCELLED :: status where "ERR_CANCELLED \<equiv> -26"
abbreviation ERR_BUSY :: status where "ERR_BUSY \<equiv> -33"
abbreviation ERR_THREAD_DETACHED :: status where "ERR_THREAD_DETACHED \<equiv> -34"
abbreviation ERR_NOT_CONFIGURED :: status where "ERR_NOT_CONFIGURED \<equiv> -38"
abbreviation ERR_BAD_HANDLE :: status where "ERR_BAD_HANDLE \<equiv> -42"
abbreviation ERR_ACCESS_DENIED :: status where "ERR_ACCESS_DENIED \<equiv> -43"
abbreviation ERR_PARTIAL_WRITE :: status where "ERR_PARTIAL_WRITE \<equiv> -44"

text \<open>
  \<open>outcome\<close> adds to a result the ways a call may not return one: a fault (null pointer,
  panic, index out of bounds) or a loop that never ends.
\<close>

datatype 'a outcome = Ret 'a | Fault | Hang

section \<open>Unsigned arithmetic that wraps\<close>

text \<open>
  C's \<^verbatim>\<open>uint\<close> (32 bits) and \<^verbatim>\<open>size_t\<close> / \<^verbatim>\<open>u64\<close> (64 bits) as natural
  numbers with the wrap-around written out.
\<close>

definition add32 :: "nat \<Rightarrow> nat \<Rightarrow> nat" where
  "add32 a b = (a + b) mod 2 ^ 32"

definition sub32 :: "nat \<Rightarrow> nat \<Rightarrow> nat" where
  "sub32 a b = (a + (2 ^ 32 - b mod 2 ^ 32)) mod 2 ^ 32"

definition mul32 :: "nat \<Rightarrow> nat \<Rightarrow> nat" where
  "mul32 a b = (a * b) mod 2 ^ 32"

definition add64 :: "nat \<Rightarrow> nat \<Rightarrow> nat" where
  "add64 a b = (a + b) mod 2 ^ 64"

definition sub64 :: "nat \<Rightarrow> nat \<Rightarrow> nat" where
  "sub64 a b = (a + (2 ^ 64 - b mod 2 ^ 64)) mod 2 ^ 64"

definition mul64 :: "nat \<Rightarrow> nat \<Rightarrow> nat" where
  "mul64 a b = (a * b) mod 2 ^ 64"

lemma add32_id [wrap_simps]: "a + b < 2 ^ 32 \<Longrightarrow> add32 a b = a + b"
  by (simp add: add32_def)

lemma wrapped_diff:
  fixes a b m :: nat
  assumes "b \<le> a" and "a < m"
  shows "(a + (m - b mod m)) mod m = a - b"
proof -
  have "a + (m - b mod m) = (a - b) + m" using assms by simp
  then have "(a + (m - b mod m)) mod m = (a - b) mod m" by (simp only: mod_add_self2)
  then show ?thesis using assms by simp
qed

lemma sub32_id [wrap_simps]: "b \<le> a \<Longrightarrow> a < 2 ^ 32 \<Longrightarrow> sub32 a b = a - b"
  unfolding sub32_def by (rule wrapped_diff)

lemma mul32_id [wrap_simps]: "a * b < 2 ^ 32 \<Longrightarrow> mul32 a b = a * b"
  by (simp add: mul32_def)

lemma add64_id [wrap_simps]: "a + b < 2 ^ 64 \<Longrightarrow> add64 a b = a + b"
  by (simp add: add64_def)

lemma sub64_id [wrap_simps]: "b \<le> a \<Longrightarrow> a < 2 ^ 64 \<Longrightarrow> sub64 a b = a - b"
  unfolding sub64_def by (rule wrapped_diff)

lemma mul64_id [wrap_simps]: "a * b < 2 ^ 64 \<Longrightarrow> mul64 a b = a * b"
  by (simp add: mul64_def)

lemma wrap32_less [simp]:
  "add32 a b < 4294967296" "sub32 a b < 4294967296" "mul32 a b < 4294967296"
  by (simp_all add: add32_def sub32_def mul32_def)

text \<open>\<^verbatim>\<open>ROUNDUP\<close> and \<^verbatim>\<open>ROUNDDOWN\<close> on sizes that do not wrap.\<close>

definition roundup :: "nat \<Rightarrow> nat \<Rightarrow> nat" where
  "roundup a b = ((a + (b - 1)) div b) * b"

definition rounddown :: "nat \<Rightarrow> nat \<Rightarrow> nat" where
  "rounddown a b = a - a mod b"

lemma roundup_ge: "0 < b \<Longrightarrow> a \<le> roundup a b"
proof -
  assume b: "0 < b"
  have "a + (b - 1) < b + ((a + (b - 1)) div b) * b"
    using b by (rule dividend_less_div_times)
  then show ?thesis using b unfolding roundup_def by linarith
qed

lemma roundup_less: "0 < b \<Longrightarrow> roundup a b < a + b"
proof -
  assume b: "0 < b"
  have "((a + (b - 1)) div b) * b \<le> a + (b - 1)"
    by (rule div_times_less_eq_dividend)
  then show ?thesis using b unfolding roundup_def by linarith
qed

lemma roundup_dvd [simp]: "b dvd roundup a b"
  by (simp add: roundup_def)

lemma roundup_le: "0 < b \<Longrightarrow> b dvd c \<Longrightarrow> a \<le> c \<Longrightarrow> roundup a b \<le> c"
proof -
  assume b: "0 < b" and d: "b dvd c" and ac: "a \<le> c"
  obtain k where k: "c = b * k" using d by (rule dvdE)
  have "roundup a b < b * k + b"
    using roundup_less [OF b, of a] ac k by simp
  then have "(a + (b - 1)) div b * b < (k + 1) * b"
    by (simp only: roundup_def) (simp add: algebra_simps)
  then have "(a + (b - 1)) div b < k + 1"
    by (rule mult_less_cancel2 [THEN iffD1, THEN conjunct2])
  then have "(a + (b - 1)) div b * b \<le> k * b"
    by (intro mult_le_mono1) simp
  then show ?thesis by (simp only: roundup_def k mult.commute)
qed

lemma roundup_id: "0 < b \<Longrightarrow> b dvd a \<Longrightarrow> roundup a b = a"
  by (intro antisym roundup_le roundup_ge) simp_all

lemma rounddown_le [simp]: "rounddown a b \<le> a"
  by (simp add: rounddown_def)

lemma rounddown_dvd [simp]: "b dvd rounddown a b"
  by (simp add: rounddown_def dvd_minus_mod)

section \<open>Ranges of byte arrays\<close>

definition slice_at :: "nat \<Rightarrow> nat \<Rightarrow> 'a list \<Rightarrow> 'a list" where
  "slice_at off n xs = take n (drop off xs)"

definition splice_at :: "'a list \<Rightarrow> nat \<Rightarrow> 'a list \<Rightarrow> 'a list" where
  "splice_at xs off ys = take off xs @ ys @ drop (off + length ys) xs"

lemma length_slice [simp]: "length (slice_at off n xs) = min n (length xs - off)"
  by (simp add: slice_at_def)

lemma length_splice [mem_simps]:
  "off + length ys \<le> length xs \<Longrightarrow> length (splice_at xs off ys) = length xs"
  by (simp add: splice_at_def)

lemma slice_0 [simp]: "slice_at off 0 xs = []"
  by (simp add: slice_at_def)

lemma slice_all [simp]: "slice_at 0 (length xs) xs = xs"
  by (simp add: slice_at_def)

lemma splice_nil [simp]: "splice_at xs off [] = xs"
  by (simp add: splice_at_def)

lemma slice_add: "slice_at off (m + n) xs = slice_at off m xs @ slice_at (off + m) n xs"
  by (simp add: slice_at_def take_add add.commute)

lemma slice_slice: "p + m \<le> n \<Longrightarrow> slice_at p m (slice_at off n xs) = slice_at (off + p) m xs"
  by (simp add: slice_at_def drop_take min_absorb1 add.commute)

lemma slice_splice_same [mem_simps]:
  "off + length ys \<le> length xs \<Longrightarrow> slice_at off (length ys) (splice_at xs off ys) = ys"
  by (simp add: slice_at_def splice_at_def)

lemma nth_splice [mem_simps]:
  "off + length ys \<le> length xs \<Longrightarrow> i < length xs \<Longrightarrow>
   splice_at xs off ys ! i =
     (if i < off then xs ! i else if i < off + length ys then ys ! (i - off) else xs ! i)"
  by (auto simp: splice_at_def nth_append)

lemma nth_slice [mem_simps]:
  "i < n \<Longrightarrow> off + n \<le> length xs \<Longrightarrow> slice_at off n xs ! i = xs ! (off + i)"
  by (simp add: slice_at_def)

lemma slice_splice_disjoint [mem_simps]:
  assumes "off + length ys \<le> length xs" and "p + n \<le> length xs"
    and "p + n \<le> off \<or> off + length ys \<le> p"
  shows "slice_at p n (splice_at xs off ys) = slice_at p n xs"
proof (rule nth_equalityI)
  show "length (slice_at p n (splice_at xs off ys)) = length (slice_at p n xs)"
    using assms by (simp add: length_splice)
  fix i assume "i < length (slice_at p n (splice_at xs off ys))"
  then have "i < n" by simp
  with assms show "slice_at p n (splice_at xs off ys) ! i = slice_at p n xs ! i"
    by (auto simp: nth_slice nth_splice length_splice)
qed

lemma splice_append:
  assumes "off + length ys + length zs \<le> length xs"
  shows "splice_at (splice_at xs off ys) (off + length ys) zs = splice_at xs off (ys @ zs)"
proof (rule nth_equalityI)
  show "length (splice_at (splice_at xs off ys) (off + length ys) zs)
      = length (splice_at xs off (ys @ zs))"
    using assms by (simp add: length_splice)
  fix i assume "i < length (splice_at (splice_at xs off ys) (off + length ys) zs)"
  then have "i < length xs" using assms by (simp add: length_splice)
  with assms show "splice_at (splice_at xs off ys) (off + length ys) zs ! i
      = splice_at xs off (ys @ zs) ! i"
    by (auto simp: nth_splice length_splice nth_append)
qed

text \<open>Read, modify, write of an enclosing range changes just the modified part.\<close>

lemma splice_rmw:
  assumes "p + length ys \<le> n" and "off + n \<le> length xs"
  shows "splice_at xs off (splice_at (slice_at off n xs) p ys) = splice_at xs (off + p) ys"
proof (rule nth_equalityI)
  have l: "length (splice_at (slice_at off n xs) p ys) = n"
    using assms by (simp add: length_splice)
  then show "length (splice_at xs off (splice_at (slice_at off n xs) p ys))
      = length (splice_at xs (off + p) ys)"
    using assms by (simp add: length_splice)
  fix i assume "i < length (splice_at xs off (splice_at (slice_at off n xs) p ys))"
  then have "i < length xs" using assms l by (simp add: length_splice)
  with assms l show "splice_at xs off (splice_at (slice_at off n xs) p ys) ! i
      = splice_at xs (off + p) ys ! i"
    by (auto simp: nth_splice nth_slice length_splice)
qed

lemma slice_splice_inside:
  assumes "p + length ys \<le> n" and "off + n \<le> length xs"
  shows "slice_at off n (splice_at xs (off + p) ys) = splice_at (slice_at off n xs) p ys"
proof (rule nth_equalityI)
  show "length (slice_at off n (splice_at xs (off + p) ys)) = length (splice_at (slice_at off n xs) p ys)"
    using assms by (simp add: length_splice)
  fix i assume "i < length (slice_at off n (splice_at xs (off + p) ys))"
  then have "i < n" using assms by simp
  with assms show "slice_at off n (splice_at xs (off + p) ys) ! i = splice_at (slice_at off n xs) p ys ! i"
    by (auto simp: nth_slice nth_splice length_splice)
qed

lemma slice_splice_sub:
  assumes "off + length ys \<le> length xs" and "p + n \<le> length ys"
  shows "slice_at (off + p) n (splice_at xs off ys) = slice_at p n ys"
proof (rule nth_equalityI)
  show "length (slice_at (off + p) n (splice_at xs off ys)) = length (slice_at p n ys)"
    using assms by (simp add: length_splice)
  fix i assume "i < length (slice_at (off + p) n (splice_at xs off ys))"
  then have "i < n" by simp
  with assms show "slice_at (off + p) n (splice_at xs off ys) ! i = slice_at p n ys ! i"
    by (auto simp: nth_splice nth_slice length_splice)
qed

section \<open>Little-endian fields\<close>

text \<open>A packed C structure in memory is read field by field.\<close>

definition le16_at :: "byte list \<Rightarrow> nat \<Rightarrow> nat" where
  "le16_at m i = unat (m ! i) + unat (m ! (i + 1)) * 2 ^ 8"

definition le32_at :: "byte list \<Rightarrow> nat \<Rightarrow> nat" where
  "le32_at m i = unat (m ! i) + unat (m ! (i + 1)) * 2 ^ 8
     + unat (m ! (i + 2)) * 2 ^ 16 + unat (m ! (i + 3)) * 2 ^ 24"

definition le16 :: "nat \<Rightarrow> byte list" where
  "le16 v = [word_of_nat v, word_of_nat (v div 2 ^ 8)]"

definition le32 :: "nat \<Rightarrow> byte list" where
  "le32 v = [word_of_nat v, word_of_nat (v div 2 ^ 8), word_of_nat (v div 2 ^ 16),
             word_of_nat (v div 2 ^ 24)]"

lemma unat_byte [simp]: "unat (word_of_nat v :: byte) = v mod 256"
  by (simp add: unat_of_nat)

lemma bytes_of_u32:
  fixes v :: nat
  assumes "v < 2 ^ 32"
  shows "v div 16777216 mod 256 * 16777216 + v div 65536 mod 256 * 65536
       + v div 256 mod 256 * 256 + v mod 256 = v"
proof -
  have a: "v = v div 256 * 256 + v mod 256" by simp
  have b: "v div 256 = v div 65536 * 256 + v div 256 mod 256"
    using div_mult_mod_eq [of "v div 256" 256] by (simp add: div_mult2_eq [of v 256 256, simplified])
  have c: "v div 65536 = v div 16777216 * 256 + v div 65536 mod 256"
    using div_mult_mod_eq [of "v div 65536" 256]
    by (simp add: div_mult2_eq [of v 65536 256, simplified])
  have d: "v div 16777216 mod 256 = v div 16777216" using assms by simp
  from a b c d show ?thesis by linarith
qed

lemma length_le [simp]: "length (le16 v) = 2" "length (le32 v) = 4"
  by (simp_all add: le16_def le32_def)

lemma le16_at_0 [simp]: "v < 65536 \<Longrightarrow> le16_at (le16 v @ xs) 0 = v"
  by (simp add: le16_at_def le16_def)

lemma le32_at_0 [simp]: "v < 4294967296 \<Longrightarrow> le32_at (le32 v @ xs) 0 = v"
  using bytes_of_u32 [of v] by (simp add: le32_at_def le32_def)

text \<open>Skipping a field of known length in front.\<close>

lemma nth_skip: "length xs \<le> i \<Longrightarrow> (xs @ ys) ! (i + k) = ys ! (i - length xs + k)"
  by (simp add: nth_append)

lemma le16_at_skip: "length xs \<le> i \<Longrightarrow> le16_at (xs @ ys) i = le16_at ys (i - length xs)"
  using nth_skip [of xs i ys 0] nth_skip [of xs i ys 1] by (simp add: le16_at_def)

lemma le32_at_skip: "length xs \<le> i \<Longrightarrow> le32_at (xs @ ys) i = le32_at ys (i - length xs)"
  using nth_skip [of xs i ys 0] nth_skip [of xs i ys 1] nth_skip [of xs i ys 2]
    nth_skip [of xs i ys 3]
  by (simp add: le32_at_def)

end
