(* ===== verification/Pow2.thy ===== *)
theory Pow2
  imports Lk_Prelude
begin

unbundle bit_operations_syntax

text \<open>
  The power-of-two helpers of \<^verbatim>\<open>include/lk/pow2.h\<close>, which the ring buffers, the
  event log, the ports and the block layer are built on. They are defined on 32-bit words
  with the bit operations of the source, and related to natural-number arithmetic by the
  lemmas the components use (collection \<open>pow2_simps\<close>).
\<close>

named_theorems pow2_simps \<open>power-of-two helpers as arithmetic on natural numbers\<close>

section \<open>The helpers\<close>

definition ispow2 :: "u32 \<Rightarrow> bool" where
  "ispow2 val \<longleftrightarrow> (val - 1) AND val = 0"

text \<open>\<^verbatim>\<open>__builtin_clz\<close>: the number of leading zero bits, scanning from the top bit.\<close>

fun clz_scan :: "nat \<Rightarrow> u32 \<Rightarrow> nat" where
  "clz_scan 0 v = 32"
| "clz_scan (Suc n) v = (if bit v n then 31 - n else clz_scan n v)"

definition builtin_clz :: "u32 \<Rightarrow> nat" where
  "builtin_clz v = clz_scan 32 v"

definition log2_uint :: "u32 \<Rightarrow> nat" where
  "log2_uint val = (if val = 0 then 0 else 32 - 1 - builtin_clz val)"

definition valpow2 :: "nat \<Rightarrow> u32" where
  "valpow2 valp2 = push_bit valp2 1"

definition divpow2 :: "u32 \<Rightarrow> nat \<Rightarrow> u32" where
  "divpow2 val divp2 = drop_bit divp2 val"

definition modpow2 :: "u32 \<Rightarrow> nat \<Rightarrow> u32" where
  "modpow2 val modp2 = ucast ((ucast val :: u64) AND (push_bit modp2 1 - 1))"

definition round_up_pow2_u32 :: "u32 \<Rightarrow> u32" where
  "round_up_pow2_u32 v0 =
     (let v = v0 - 1;
          v = v OR drop_bit 1 v;
          v = v OR drop_bit 2 v;
          v = v OR drop_bit 4 v;
          v = v OR drop_bit 8 v;
          v = v OR drop_bit 16 v
      in v + 1)"

section \<open>Arithmetic meaning\<close>

lemma modpow2_take_bit: "k < 64 \<Longrightarrow> modpow2 v k = take_bit k v"
proof -
  assume "k < 64"
  have "(push_bit k 1 - 1 :: u64) = mask k"
    by (simp add: mask_eq_exp_minus_1 push_bit_eq_mult)
  then have "modpow2 v k = ucast (take_bit k (ucast v :: u64))"
    by (simp add: modpow2_def take_bit_eq_mask)
  also have "\<dots> = take_bit k v"
    by (rule bit_word_eqI) (auto simp: bit_simps)
  finally show ?thesis .
qed

lemma unat_modpow2 [pow2_simps]: "k < 64 \<Longrightarrow> unat (modpow2 v k) = unat v mod 2 ^ k"
  by (simp only: modpow2_take_bit unsigned_take_bit_eq) (rule take_bit_eq_mod)

lemma unat_divpow2 [pow2_simps]: "unat (divpow2 v k) = unat v div 2 ^ k"
  by (simp only: divpow2_def unat_drop_bit_eq) (rule drop_bit_eq_div)

lemma unat_valpow2 [pow2_simps]: "k < 32 \<Longrightarrow> unat (valpow2 k) = 2 ^ k"
proof -
  assume "k < 32"
  then have "(2::nat) ^ k < 2 ^ 32" by (intro power_strict_increasing) auto
  moreover have "valpow2 k = word_of_nat (2 ^ k)"
    by (simp add: valpow2_def push_bit_eq_mult)
  ultimately show ?thesis by (simp only: unat_of_nat) simp
qed

lemma clz_scan_top:
  assumes "\<And>m. m < 32 \<Longrightarrow> bit v m \<Longrightarrow> m \<le> k" and "bit v k" and "k < n" and "n \<le> 32"
  shows "clz_scan n v = 31 - k"
  using assms(3,4)
proof (induction n)
  case 0
  then show ?case by simp
next
  case (Suc n)
  show ?case
  proof (cases "n = k")
    case True
    then show ?thesis using assms(2) by simp
  next
    case False
    then have "\<not> bit v n" using assms(1) [of n] Suc.prems by auto
    then show ?thesis using Suc False by simp
  qed
qed

lemma ex_top_bit:
  assumes "v \<noteq> (0 :: u32)"
  obtains k where "k < 32" "bit v k" "\<And>m. bit v m \<Longrightarrow> m \<le> k"
proof -
  let ?S = "{m. m < 32 \<and> bit v m}"
  have "\<exists>m. bit v m" 
  proof (rule ccontr)
    assume "\<not> (\<exists>m. bit v m)"
    then have "v = 0" by (intro bit_word_eqI) auto
    with assms show False by simp
  qed
  then have ne: "?S \<noteq> {}" using bit_imp_le_length by fastforce
  have fin: "finite ?S" by simp
  show thesis
  proof (rule that)
    show "Max ?S < 32" "bit v (Max ?S)" using Max_in [OF fin ne] by auto
    fix m assume "bit v m"
    then have "m \<in> ?S" using bit_imp_le_length by fastforce
    then show "m \<le> Max ?S" using fin by (rule Max_ge [rotated])
  qed
qed

lemma top_bit_bounds:
  assumes "bit v k" and "\<And>m. bit v m \<Longrightarrow> m \<le> k"
  shows "2 ^ k \<le> unat (v :: u32)" and "unat v < 2 ^ (k + 1)"
proof -
  have "bit (unat v) k" using assms(1) by (simp add: bit_unsigned_iff)
  then have "odd (unat v div 2 ^ k)" by (rule bit_iff_odd [THEN iffD1])
  then show "2 ^ k \<le> unat v" 
    by (cases "unat v < 2 ^ k") (simp_all add: not_less)
  have "take_bit (k + 1) v = v"
    using assms(2) by (intro bit_word_eqI) (auto simp: bit_simps less_Suc_eq_le)
  then have "take_bit (k + 1) (unat v) = unat v"
    by (metis unsigned_take_bit_eq)
  then show "unat v < 2 ^ (k + 1)" by (simp add: take_bit_nat_eq_self_iff)
qed

lemma log2_uint_top:
  assumes "k < 32" and "bit v k" and "\<And>m. bit v m \<Longrightarrow> m \<le> k"
  shows "log2_uint v = k"
proof -
  have "v \<noteq> 0" using assms(2) by auto
  moreover have "builtin_clz v = 31 - k"
    unfolding builtin_clz_def by (rule clz_scan_top) (use assms in auto)
  ultimately show ?thesis using assms(1) by (simp add: log2_uint_def)
qed

lemma log2_uint_bounds:
  "v \<noteq> 0 \<Longrightarrow> 2 ^ log2_uint v \<le> unat v \<and> unat v < 2 ^ (log2_uint v + 1) \<and> log2_uint v < 32"
  by (metis ex_top_bit log2_uint_top top_bit_bounds)

lemma log2_uint_pow2 [pow2_simps]:
  assumes "unat v = 2 ^ k" and "k < 32"
  shows "log2_uint v = k"
proof -
  have "v \<noteq> 0" using assms by auto
  then have "(2::nat) ^ log2_uint v \<le> 2 ^ k" "(2::nat) ^ k < 2 ^ (log2_uint v + 1)"
    using log2_uint_bounds [of v] assms by auto
  then have "log2_uint v \<le> k" "k < log2_uint v + 1"
    by (simp_all only: power_increasing_iff power_strict_increasing_iff one_less_numeral_iff
        semiring_norm)
  then show ?thesis by simp
qed

section \<open>Rounding up to a power of two\<close>

text \<open>
  The bit-smearing trick: after the step with shift \<open>n\<close>, a bit is set iff one of the
  \<open>2 * n\<close> bits starting there was set.
\<close>

lemma smear_step:
  assumes "\<And>i. bit v i \<longleftrightarrow> (\<exists>d<n. bit w (i + d))"
  shows "bit (v OR drop_bit n v) i \<longleftrightarrow> (\<exists>d<2 * n. bit (w :: u32) (i + d))"
proof -
  have "bit (v OR drop_bit n v) i \<longleftrightarrow> (\<exists>d<n. bit w (i + d)) \<or> (\<exists>d<n. bit w (i + n + d))"
    by (simp only: bit_or_iff bit_drop_bit_eq comp_def assms add.commute [of n i])
  also have "\<dots> \<longleftrightarrow> (\<exists>d<2 * n. bit w (i + d))"
  proof (intro iffI; elim exE conjE disjE)
    fix d assume "d < n" "bit w (i + d)"
    then show "\<exists>d<2 * n. bit w (i + d)" by (intro exI [of _ d]) simp
  next
    fix d assume "d < n" "bit w (i + n + d)"
    then show "\<exists>d<2 * n. bit w (i + d)" by (intro exI [of _ "n + d"]) (simp add: add.assoc)
  next
    fix d assume d: "d < 2 * n" "bit w (i + d)"
    show "(\<exists>d<n. bit w (i + d)) \<or> (\<exists>d<n. bit w (i + n + d))"
    proof (cases "d < n")
      case True
      with d show ?thesis by blast
    next
      case False
      with d have "d - n < n" "bit w (i + n + (d - n))" by simp_all
      then show ?thesis by blast
    qed
  qed
  finally show ?thesis .
qed

definition smear :: "u32 \<Rightarrow> u32" where
  "smear v0 =
     (let v = v0 OR drop_bit 1 v0;
          v = v OR drop_bit 2 v;
          v = v OR drop_bit 4 v;
          v = v OR drop_bit 8 v
      in v OR drop_bit 16 v)"

lemma bit_smear: "bit (smear w) i \<longleftrightarrow> (\<exists>d<32. bit w (i + d))"
proof -
  have "bit w i \<longleftrightarrow> (\<exists>d<1. bit w (i + d))" for i by simp
  from smear_step [OF smear_step [OF smear_step [OF smear_step [OF smear_step [OF this]]]]]
  show ?thesis by (simp add: smear_def Let_def)
qed

lemma smear_top:
  assumes "k < 32" and "bit w k" and top: "\<And>m. bit w m \<Longrightarrow> m \<le> k"
  shows "smear w = mask (k + 1)"
proof (rule bit_word_eqI)
  fix i assume "i < LENGTH(32)"
  have "bit (smear w) i \<longleftrightarrow> i \<le> k"
  proof
    assume "bit (smear w) i"
    then obtain d where "bit w (i + d)" by (auto simp: bit_smear)
    then show "i \<le> k" using top [of "i + d"] by simp
  next
    assume "i \<le> k"
    then show "bit (smear w) i"
      using assms(1,2) by (auto simp: bit_smear intro!: exI [of _ "k - i"])
  qed
  then show "bit (smear w) i = bit (mask (k + 1) :: u32) i"
    using \<open>i < LENGTH(32)\<close> by (simp add: bit_mask_iff less_Suc_eq_le)
qed

lemma round_up_pow2_smear: "round_up_pow2_u32 v = smear (v - 1) + 1"
  by (simp add: round_up_pow2_u32_def smear_def Let_def)

lemma round_up_pow2_bounds:
  assumes "0 < unat v" and "unat v \<le> 2 ^ 31"
  shows "\<exists>k<32. unat (round_up_pow2_u32 v) = 2 ^ k \<and> unat v \<le> 2 ^ k \<and> 2 ^ k < 2 * unat v"
proof (cases "v = 1")
  case True
  have "smear 0 = 0" by (simp add: smear_def)
  with True show ?thesis by (intro exI [of _ 0]) (simp add: round_up_pow2_smear)
next
  case False
  let ?w = "v - 1"
  have w: "unat ?w = unat v - 1"
    using assms(1) by (simp add: unat_minus_one unat_gt_0)
  have "?w \<noteq> 0" using False by simp
  then obtain k where k: "k < 32" "bit ?w k" "\<And>m. bit ?w m \<Longrightarrow> m \<le> k"
    by (rule ex_top_bit) blast
  have b: "2 ^ k \<le> unat v - 1" "unat v - 1 < 2 ^ (k + 1)"
    using top_bit_bounds [OF k(2,3)] w by simp_all
  have "(2::nat) ^ k < 2 ^ 31" using b assms by linarith
  then have k31: "k < 31" by (simp only: power_strict_increasing_iff one_less_numeral_iff semiring_norm)
  have "round_up_pow2_u32 v = valpow2 (k + 1)"
    using smear_top [OF k] by (simp add: round_up_pow2_smear valpow2_def mask_eq_exp_minus_1 push_bit_eq_mult)
  then have "unat (round_up_pow2_u32 v) = 2 ^ (k + 1)"
    using unat_valpow2 [of "k + 1"] k31 by simp
  then show ?thesis
    using b assms(1) k31 by (intro exI [of _ "k + 1"]) auto
qed

text \<open>Rounding up to a power of two by bit smearing gives the least power of two
that is not below the argument, for every argument from 1 to the largest 32-bit power.\<close>

theorem round_up_pow2_least:
  assumes "0 < unat v" and "unat v \<le> 2 ^ 31"
  shows "\<exists>k<32. unat (round_up_pow2_u32 v) = 2 ^ k \<and> unat v \<le> 2 ^ k \<and> 2 ^ k < 2 * unat v"
  using assms by (rule round_up_pow2_bounds)

theorem round_up_pow2_least_witness:
  "\<exists>k<32. unat (round_up_pow2_u32 1000) = 2 ^ k \<and> unat (1000 :: u32) \<le> 2 ^ k
     \<and> 2 ^ k < 2 * unat (1000 :: u32)"
  by (rule round_up_pow2_least) simp_all

end
