(* ===== verification/Bio.thy ===== *)
theory Bio
  imports Pow2
begin

text \<open>
  The block-device layer of \<^verbatim>\<open>lib/bio/bio.c\<close> (and its header): the device object,
  range trimming, the byte-granular default hooks that deblock a device through its
  \<^verbatim>\<open>read_block\<close> and \<^verbatim>\<open>write_block\<close> hooks, the public entry points, and the
  reference-counted device list.

  A device object \<open>'d bdev\<close> is the C \<^verbatim>\<open>struct bdev\<close>; the state behind it (the C
  structure that embeds the \<^verbatim>\<open>bdev_t\<close>, or what \<^verbatim>\<open>dev->private\<close> points to) is a value
  of type \<open>'d\<close> that every operation takes and returns. A hook is \<open>Default\<close> when
  \<^verbatim>\<open>bio_initialize_bdev\<close> left its own function there and \<open>Custom f\<close> when the driver
  replaced it. A block read hook returns the status, the bytes it stored at the start of the
  caller's buffer and the new device state.
\<close>

section \<open>Device objects\<close>

datatype 'f hook = Default | Custom 'f

type_synonym 'd read_fn = "'d \<Rightarrow> nat \<Rightarrow> nat \<Rightarrow> status \<times> byte list \<times> 'd"
type_synonym 'd write_fn = "'d \<Rightarrow> byte list \<Rightarrow> nat \<Rightarrow> nat \<Rightarrow> status \<times> 'd"
type_synonym 'd erase_fn = "'d \<Rightarrow> nat \<Rightarrow> nat \<Rightarrow> status \<times> 'd"

text \<open>
  The byte-granular hooks may call back into the block layer (a sub-device forwards to its
  parent), so they also get the address of the buffer, which decides about alignment, and the
  read hook gets and returns the whole buffer. An erase may not end.
\<close>

type_synonym 'd byte_read_fn =
  "nat \<Rightarrow> byte list \<Rightarrow> 'd \<Rightarrow> nat \<Rightarrow> nat \<Rightarrow> status \<times> byte list \<times> 'd"
type_synonym 'd byte_write_fn = "nat \<Rightarrow> 'd \<Rightarrow> byte list \<Rightarrow> nat \<Rightarrow> nat \<Rightarrow> status \<times> 'd"
type_synonym 'd byte_erase_fn = "nat \<Rightarrow> 'd \<Rightarrow> nat \<Rightarrow> nat \<Rightarrow> (status \<times> 'd) option"

record geometry_info =
  geo_start :: int
  geo_size :: int
  geo_erase_size :: nat
  geo_erase_shift :: nat

record 'd bdev =
  ref :: int
  bname :: "string option"
  total_size :: int
  block_size :: nat
  block_shift :: nat
  block_count :: nat
  max_blkcnt_per_cmd :: nat
  geometry :: "geometry_info list"
  erase_byte :: byte
  erase_size :: nat
  flags :: u32
  read_hook :: "'d byte_read_fn hook"
  read_block_hook :: "'d read_fn hook"
  write_hook :: "'d byte_write_fn hook"
  write_block_hook :: "'d write_fn hook"
  erase_hook :: "'d byte_erase_fn hook"
  new_read_native :: "'d read_fn"
  new_write_native :: "'d write_fn"
  new_erase_native :: "'d erase_fn"
  new_set_wp_native :: "('d \<Rightarrow> int \<Rightarrow> int \<Rightarrow> nat \<Rightarrow> nat \<Rightarrow> status \<times> 'd) option"
  ioctl_hook :: "('d \<Rightarrow> int \<Rightarrow> status \<times> 'd) option"
  close_hook :: "('d \<Rightarrow> 'd) option"

text \<open>A zeroed structure, as static or cleared memory gives it.\<close>

definition blank_bdev :: "'d bdev" where
  "blank_bdev =
     \<lparr>ref = 0, bname = None, total_size = 0, block_size = 0, block_shift = 0, block_count = 0,
      max_blkcnt_per_cmd = 0, geometry = [], erase_byte = 0, erase_size = 0, flags = 0,
      read_hook = Default, read_block_hook = Default, write_hook = Default,
      write_block_hook = Default, erase_hook = Default,
      new_read_native = (\<lambda>d b n. (ERR_GENERIC, [], d)), new_write_native = (\<lambda>d s b n. (ERR_GENERIC, d)),
      new_erase_native = (\<lambda>d b n. (ERR_GENERIC, d)), new_set_wp_native = None,
      ioctl_hook = None, close_hook = None\<rparr>"

definition BIO_FLAG_CACHE_ALIGNED_READS :: u32 where
  "BIO_FLAG_CACHE_ALIGNED_READS = 1"

definition BIO_FLAG_CACHE_ALIGNED_WRITES :: u32 where
  "BIO_FLAG_CACHE_ALIGNED_WRITES = 2"

text \<open>\<^verbatim>\<open>CACHE_LINE\<close> of the 64-bit ARM target.\<close>

definition CACHE_LINE :: nat where
  "CACHE_LINE = 64"

definition is_aligned :: "nat \<Rightarrow> nat \<Rightarrow> bool" where
  "is_aligned a b \<longleftrightarrow> a mod b = 0"

definition bio_initialize_bdev ::
    "'d bdev \<Rightarrow> string \<Rightarrow> nat \<Rightarrow> nat \<Rightarrow> geometry_info list \<Rightarrow> u32 \<Rightarrow> 'd bdev" where
  "bio_initialize_bdev dev nm bs cnt geo fl =
     dev\<lparr>bname := Some nm, block_size := bs, block_count := cnt,
         block_shift := log2_uint (word_of_nat bs),
         total_size := int cnt * 2 ^ log2_uint (word_of_nat bs),
         geometry := geo, erase_byte := 0, erase_size := 0, ref := 0, flags := fl,
         read_hook := Default, read_block_hook := Default,
         write_hook := Default, write_block_hook := Default,
         erase_hook := Default, close_hook := None\<rparr>"

section \<open>Range trimming\<close>

text \<open>
  The sum \<^verbatim>\<open>(off_t)(offset + len)\<close> is computed in 64 unsigned bits and read back as a
  signed value; the block sum is a 32-bit one.
\<close>

definition bio_trim_range :: "'d bdev \<Rightarrow> int \<Rightarrow> nat \<Rightarrow> nat" where
  "bio_trim_range dev offset len =
     (if offset < 0 then 0
      else if total_size dev \<le> offset then 0
      else if len = 0 then 0
      else if total_size dev < signed_take_bit 63 (offset + int len)
        then nat (total_size dev - offset)
      else len)"

definition bio_trim_block_range :: "'d bdev \<Rightarrow> nat \<Rightarrow> nat \<Rightarrow> nat" where
  "bio_trim_block_range dev block count =
     (if block_count dev < block then 0
      else if count = 0 then 0
      else if block_count dev < add32 block count then sub32 (block_count dev) block
      else count)"

section \<open>Block entry points\<close>

definition bio_default_read_block :: "'d read_fn" where
  "bio_default_read_block d block count = (ERR_NOT_SUPPORTED, [], d)"

definition bio_default_write_block :: "'d write_fn" where
  "bio_default_write_block d buf block count = (ERR_NOT_SUPPORTED, d)"

definition bio_read_block :: "'d bdev \<Rightarrow> 'd read_fn" where
  "bio_read_block dev d block count =
     (let count = bio_trim_block_range dev block count in
      if count = 0 then (0, [], d)
      else case read_block_hook dev of
        Default \<Rightarrow> bio_default_read_block d block count
      | Custom f \<Rightarrow> f d block count)"

definition bio_write_block :: "'d bdev \<Rightarrow> 'd write_fn" where
  "bio_write_block dev d buf block count =
     (let count = bio_trim_block_range dev block count in
      if count = 0 then (0, d)
      else case write_block_hook dev of
        Default \<Rightarrow> bio_default_write_block d buf block count
      | Custom f \<Rightarrow> f d buf block count)"

section \<open>The default byte hooks\<close>

text \<open>
  Every block transfer of the default hooks is followed by the same test: a negative
  status is returned as it is, a short count becomes \<^verbatim>\<open>ERR_IO\<close>.
\<close>

definition check_full :: "nat \<Rightarrow> status \<Rightarrow> status" where
  "check_full want err = (if err < 0 then err else if nat err \<noteq> want then ERR_IO else err)"

text \<open>
  \<open>bio_default_read\<close> and \<open>bio_default_write\<close> have three phases each: a partial first
  block, the whole blocks in the middle (one at a time through an aligned temporary when
  the device wants cache-aligned buffers and the caller's is not, otherwise in one
  transfer), and a partial last block. A phase maps \<open>(buf, pos, len, block, d)\<close>, where
  \<open>pos\<close> counts the bytes done so far, to a status and the same tuple; a negative
  status is the \<^verbatim>\<open>goto err\<close>.
\<close>

type_synonym 'd rd_state = "byte list \<times> nat \<times> nat \<times> nat \<times> 'd"

definition read_first_block ::
    "'d bdev \<Rightarrow> nat \<Rightarrow> 'd rd_state \<Rightarrow> status \<times> 'd rd_state" where
  "read_first_block dev offset st = (case st of (buf, pos, len, block, d) \<Rightarrow>
     (if offset mod block_size dev \<noteq> 0 then
        (case bio_read_block dev d block 1 of (err, temp, d') \<Rightarrow>
          (let err = check_full (block_size dev) err in
           if err < 0 then (err, (buf, pos, len, block, d'))
           else
             (let block_offset = offset mod block_size dev;
                  tocopy = min (block_size dev - block_offset) len
              in (err, (splice_at buf pos (slice_at block_offset tocopy temp),
                        pos + tocopy, len - tocopy, add32 block 1, d')))))
      else (0, st)))"

function read_middle_temp :: "'d bdev \<Rightarrow> status \<Rightarrow> 'd rd_state \<Rightarrow> status \<times> 'd rd_state" where
  "read_middle_temp dev err (buf, pos, len, block, d) =
     (if 0 < block_size dev \<and> block_size dev \<le> len then
        (case bio_read_block dev d block 1 of (err, temp, d') \<Rightarrow>
          (let err = check_full (block_size dev) err in
           if err < 0 then (err, (buf, pos, len, block, d'))
           else read_middle_temp dev err
                  (splice_at buf pos (slice_at 0 (block_size dev) temp),
                   pos + block_size dev, len - block_size dev, add32 block 1, d')))
      else (err, (buf, pos, len, block, d)))"
  by pat_completeness auto
termination
  by (relation "measure (\<lambda>(dev, err, (buf, pos, len, block, d)). len)") auto

definition read_middle_direct :: "'d bdev \<Rightarrow> 'd rd_state \<Rightarrow> status \<times> 'd rd_state" where
  "read_middle_direct dev st = (case st of (buf, pos, len, block, d) \<Rightarrow>
     (let num_blocks = unat (divpow2 (word_of_nat len) (block_shift dev)) in
      case bio_read_block dev d block num_blocks of (err, bytes, d') \<Rightarrow>
        (let err = check_full (block_size dev * num_blocks) err;
             buf = splice_at buf pos bytes in
         if err < 0 then (err, (buf, pos, len, block, d'))
         else (err, (buf, pos + nat err, len - nat err, add32 block num_blocks, d')))))"

definition read_last_block :: "'d bdev \<Rightarrow> status \<Rightarrow> 'd rd_state \<Rightarrow> status \<times> 'd rd_state" where
  "read_last_block dev err st = (case st of (buf, pos, len, block, d) \<Rightarrow>
     (if 0 < len then
        (case bio_read_block dev d block 1 of (err, temp, d') \<Rightarrow>
          (let err = check_full (block_size dev) err in
           if err < 0 then (err, (buf, pos, len, block, d'))
           else (err, (splice_at buf pos (slice_at 0 len temp), pos + len, len, block, d'))))
      else (err, st)))"

definition bio_default_read ::
    "'d bdev \<Rightarrow> nat \<Rightarrow> byte list \<Rightarrow> 'd \<Rightarrow> nat \<Rightarrow> nat \<Rightarrow> status \<times> byte list \<times> 'd" where
  "bio_default_read dev addr buf d offset len =
     (let block = unat (divpow2 (word_of_nat offset) (block_shift dev)) in
      case read_first_block dev offset (buf, 0, len, block, d) of
        (err, (buf, pos, len, block, d)) \<Rightarrow>
        if err < 0 then (err, buf, d)
        else
          (let requires_alignment =
                 (flags dev AND BIO_FLAG_CACHE_ALIGNED_READS \<noteq> 0
                  \<and> \<not> is_aligned (addr + pos) CACHE_LINE)
           in
           case (if requires_alignment
                 then read_middle_temp dev err (buf, pos, len, block, d)
                 else read_middle_direct dev (buf, pos, len, block, d)) of
             (err, st) \<Rightarrow>
             if err < 0 then (case st of (buf, pos, len, block, d) \<Rightarrow> (err, buf, d))
             else
               case read_last_block dev err st of
                 (err, (buf, pos, len, block, d)) \<Rightarrow>
                 (if 0 \<le> err then int pos else err, buf, d)))"

text \<open>The write side; the caller's buffer \<open>src\<close> is only read.\<close>

type_synonym 'd wr_state = "nat \<times> nat \<times> nat \<times> 'd"

definition write_first_block ::
    "'d bdev \<Rightarrow> byte list \<Rightarrow> nat \<Rightarrow> 'd wr_state \<Rightarrow> status \<times> 'd wr_state" where
  "write_first_block dev src offset st = (case st of (pos, len, block, d) \<Rightarrow>
     (if offset mod block_size dev \<noteq> 0 then
        (case bio_read_block dev d block 1 of (err, temp, d') \<Rightarrow>
          (let err = check_full (block_size dev) err in
           if err < 0 then (err, (pos, len, block, d'))
           else
             (let block_offset = offset mod block_size dev;
                  tocopy = min (block_size dev - block_offset) len;
                  temp = splice_at temp block_offset (slice_at pos tocopy src)
              in case bio_write_block dev d' temp block 1 of (err, d'') \<Rightarrow>
                (let err = check_full (block_size dev) err in
                 if err < 0 then (err, (pos, len, block, d''))
                 else (err, (pos + tocopy, len - tocopy, add32 block 1, d''))))))
      else (0, st)))"

function write_middle_temp ::
    "'d bdev \<Rightarrow> byte list \<Rightarrow> status \<Rightarrow> 'd wr_state \<Rightarrow> status \<times> 'd wr_state" where
  "write_middle_temp dev src err (pos, len, block, d) =
     (if 0 < block_size dev \<and> block_size dev \<le> len then
        (case bio_write_block dev d (slice_at pos (block_size dev) src) block 1 of (err, d') \<Rightarrow>
          (let err = check_full (block_size dev) err in
           if err < 0 then (err, (pos, len, block, d'))
           else write_middle_temp dev src err
                  (pos + block_size dev, len - block_size dev, add32 block 1, d')))
      else (err, (pos, len, block, d)))"
  by pat_completeness auto
termination
  by (relation "measure (\<lambda>(dev, src, err, (pos, len, block, d)). len)") auto

definition write_middle_direct ::
    "'d bdev \<Rightarrow> byte list \<Rightarrow> 'd wr_state \<Rightarrow> status \<times> 'd wr_state" where
  "write_middle_direct dev src st = (case st of (pos, len, block, d) \<Rightarrow>
     (let cnt = unat (divpow2 (word_of_nat len) (block_shift dev)) in
      case bio_write_block dev d (drop pos src) block cnt of (err, d') \<Rightarrow>
        (let err = check_full (block_size dev * cnt) err in
         if err < 0 then (err, (pos, len, block, d'))
         else (err, (pos + nat err, len - nat err, add32 block cnt, d')))))"

definition write_last_block ::
    "'d bdev \<Rightarrow> byte list \<Rightarrow> status \<Rightarrow> 'd wr_state \<Rightarrow> status \<times> 'd wr_state" where
  "write_last_block dev src err st = (case st of (pos, len, block, d) \<Rightarrow>
     (if 0 < len then
        (case bio_read_block dev d block 1 of (err, temp, d') \<Rightarrow>
          (let err = check_full (block_size dev) err in
           if err < 0 then (err, (pos, len, block, d'))
           else
             (case bio_write_block dev d' (splice_at temp 0 (slice_at pos len src)) block 1 of
                (err, d'') \<Rightarrow>
                (let err = check_full (block_size dev) err in
                 if err < 0 then (err, (pos, len, block, d''))
                 else (err, (pos + len, len, block, d''))))))
      else (err, st)))"

definition bio_default_write ::
    "'d bdev \<Rightarrow> nat \<Rightarrow> 'd \<Rightarrow> byte list \<Rightarrow> nat \<Rightarrow> nat \<Rightarrow> status \<times> 'd" where
  "bio_default_write dev addr d src offset len =
     (let block = unat (divpow2 (word_of_nat offset) (block_shift dev)) in
      case write_first_block dev src offset (0, len, block, d) of
        (err, (pos, len, block, d)) \<Rightarrow>
        if err < 0 then (err, d)
        else
          (let requires_alignment =
                 (flags dev AND BIO_FLAG_CACHE_ALIGNED_WRITES \<noteq> 0
                  \<and> \<not> is_aligned (addr + pos) CACHE_LINE)
           in
           case (if requires_alignment
                 then write_middle_temp dev src err (pos, len, block, d)
                 else write_middle_direct dev src (pos, len, block, d)) of
             (err, st) \<Rightarrow>
             if err < 0 then (case st of (pos, len, block, d) \<Rightarrow> (err, d))
             else
               case write_last_block dev src err st of
                 (err, (pos, len, block, d)) \<Rightarrow>
                 (if 0 \<le> err then int pos else err, d)))"

section \<open>Byte entry points\<close>

definition bio_read ::
    "'d bdev \<Rightarrow> nat \<Rightarrow> byte list \<Rightarrow> 'd \<Rightarrow> int \<Rightarrow> nat \<Rightarrow> status \<times> byte list \<times> 'd" where
  "bio_read dev addr buf d offset len =
     (let len = bio_trim_range dev offset len in
      if len = 0 then (0, buf, d)
      else case read_hook dev of
        Default \<Rightarrow> bio_default_read dev addr buf d (nat offset) len
      | Custom f \<Rightarrow> f addr buf d (nat offset) len)"

definition bio_write ::
    "'d bdev \<Rightarrow> nat \<Rightarrow> 'd \<Rightarrow> byte list \<Rightarrow> int \<Rightarrow> nat \<Rightarrow> status \<times> 'd" where
  "bio_write dev addr d src offset len =
     (let len = bio_trim_range dev offset len in
      if len = 0 then (0, d)
      else case write_hook dev of
        Default \<Rightarrow> bio_default_write dev addr d src (nat offset) len
      | Custom f \<Rightarrow> f addr d src (nat offset) len)"

text \<open>
  The erase loop subtracts what the write hook reports, in 64 bits; whether it ends
  depends on the hook, so it is a partial function, with \<open>None\<close> for not ending.
\<close>

partial_function (option) bio_erase_loop ::
    "'d bdev \<Rightarrow> nat \<Rightarrow> byte list \<Rightarrow> 'd \<Rightarrow> int \<Rightarrow> int \<Rightarrow> nat \<Rightarrow> (status \<times> 'd) option" where
  "bio_erase_loop dev addr erase_buf d erased pos remaining =
     (if 0 < remaining then
        (let towrite = min remaining (block_size dev) in
         case bio_write dev addr d erase_buf pos towrite of (written, d') \<Rightarrow>
           (if written < 0 then Some (written, d')
            else if nat written < towrite then Some (erased + written, d')
            else bio_erase_loop dev addr erase_buf d' (erased + written) (pos + written)
                   (sub64 remaining (nat written))))
      else Some (erased, d))"

definition bio_default_erase ::
    "'d bdev \<Rightarrow> nat \<Rightarrow> 'd \<Rightarrow> int \<Rightarrow> nat \<Rightarrow> (status \<times> 'd) option" where
  "bio_default_erase dev addr d offset len =
     bio_erase_loop dev addr (replicate (block_size dev) (erase_byte dev)) d 0 offset len"

definition bio_erase ::
    "'d bdev \<Rightarrow> nat \<Rightarrow> 'd \<Rightarrow> int \<Rightarrow> nat \<Rightarrow> (status \<times> 'd) option" where
  "bio_erase dev addr d offset len =
     (let len = bio_trim_range dev offset len in
      if len = 0 then Some (0, d)
      else case erase_hook dev of
        Default \<Rightarrow> bio_default_erase dev addr d offset len
      | Custom f \<Rightarrow> f addr d (nat offset) len)"

definition bio_ioctl :: "'d bdev \<Rightarrow> 'd \<Rightarrow> int \<Rightarrow> status \<times> 'd" where
  "bio_ioctl dev d request =
     (case ioctl_hook dev of None \<Rightarrow> (ERR_NOT_SUPPORTED, d) | Some f \<Rightarrow> f d request)"

definition bio_new_set_wp ::
    "'d bdev \<Rightarrow> 'd \<Rightarrow> int \<Rightarrow> int \<Rightarrow> nat \<Rightarrow> nat \<Rightarrow> status \<times> 'd" where
  "bio_new_set_wp dev d select enable start sz =
     (case new_set_wp_native dev of
        None \<Rightarrow> (ERR_NOT_SUPPORTED mod 2 ^ 32, d)
      | Some f \<Rightarrow> (case f d select enable start sz of (err, d') \<Rightarrow> (err mod 2 ^ 32, d')))"

end
