(* ===== verification/Bio_New.thy ===== *)
theory Bio_New
  imports Bio
begin

text \<open>
  The sector-granular path of \<^verbatim>\<open>lib/bio/bio.c\<close>, the one every partition access of the
  boot loader takes: \<^verbatim>\<open>bio_new_read\<close>, \<^verbatim>\<open>bio_new_write\<close> and \<^verbatim>\<open>bio_new_erase\<close>
  serve requests in 512-byte user blocks from a device whose native blocks are larger,
  reading and rewriting partial native blocks at both ends and splitting the middle by
  \<^verbatim>\<open>max_blkcnt_per_cmd\<close>. All counters are 32-bit, so sums, differences and products
  are the wrapping ones of the prelude. \<open>new_read_native\<close> and its companions return 0 on
  success; any other value is the \<^verbatim>\<open>goto end\<close>, which returns the count done so far.
\<close>

definition USER_BLOCK_SIZE :: nat where
  "USER_BLOCK_SIZE = 512"

definition native_blocks :: "'d bdev \<Rightarrow> nat" where
  "native_blocks dev = block_size dev div USER_BLOCK_SIZE"

definition max_blkcnt :: "'d bdev \<Rightarrow> nat" where
  "max_blkcnt dev = (if max_blkcnt_per_cmd dev \<noteq> 0 then max_blkcnt_per_cmd dev else 32)"

text \<open>Subtracting a sum, in 32 bits; this is what makes the transfer loops end.\<close>

lemma sub32_int: "int (sub32 a b) = (int a - int b) mod 2 ^ 32"
proof -
  have "int (sub32 a b) = (int a + (2 ^ 32 - int b mod 2 ^ 32)) mod 2 ^ 32"
    by (simp add: sub32_def zmod_int of_nat_diff add_diff_eq)
  also have "\<dots> = (int a - int b mod 2 ^ 32 + 2 ^ 32) mod 2 ^ 32" by (simp add: algebra_simps)
  also have "\<dots> = (int a - int b) mod 2 ^ 32" by (simp only: mod_add_self2 mod_diff_right_eq)
  finally show ?thesis .
qed

lemma sub32_self: "sub32 a a = 0"
  using sub32_int [of a a] by simp

lemma sub32_add32:
  assumes "t \<le> sub32 c b"
  shows "sub32 c (add32 b t) = sub32 c b - t"
proof -
  have "int (sub32 c (add32 b t)) = (int c - (int b + int t)) mod 2 ^ 32"
    by (simp add: sub32_int add32_def zmod_int mod_diff_right_eq)
  also have "\<dots> = ((int c - int b) mod 2 ^ 32 - int t) mod 2 ^ 32"
    by (simp add: mod_diff_left_eq algebra_simps)
  also have "\<dots> = (int (sub32 c b) - int t) mod 2 ^ 32" by (simp add: sub32_int)
  also have "\<dots> = int (sub32 c b - t)"
  proof -
    have "int (sub32 c b) < 4294967296"
      using wrap32_less(2) [of c b] by linarith
    then have "int (sub32 c b) - int t < 4294967296" by linarith
    then show ?thesis using assms by (simp add: of_nat_diff)
  qed
  finally show ?thesis by simp
qed

text \<open>
  How many user blocks the next command moves, \<^verbatim>\<open>block_per_time\<close> of the read and write
  loops: the whole native blocks left, at most \<^verbatim>\<open>max_blkcnt_per_cmd\<close>.
\<close>

definition block_per_time :: "'d bdev \<Rightarrow> nat \<Rightarrow> nat" where
  "block_per_time dev rest =
     (let n = (rest div native_blocks dev) * native_blocks dev in
      if max_blkcnt dev \<le> n then max_blkcnt dev else n)"

lemma block_per_time_bounds:
  assumes "0 < native_blocks dev" and "native_blocks dev \<le> rest"
  shows "0 < block_per_time dev rest \<and> block_per_time dev rest \<le> rest"
proof -
  have "0 < rest div native_blocks dev * native_blocks dev"
    using assms by (simp add: div_greater_zero_iff)
  moreover have "rest div native_blocks dev * native_blocks dev \<le> rest" by simp
  ultimately show ?thesis
    unfolding block_per_time_def Let_def by (auto simp: max_blkcnt_def intro: order_trans)
qed

section \<open>Reading\<close>

text \<open>
  The state of a read: \<open>(block, block_read, pos, buf, d)\<close>; \<open>pos\<close> is how far the
  \<^verbatim>\<open>buf\<close> pointer has moved. A phase returns \<open>False\<close> for \<^verbatim>\<open>goto end\<close>.
\<close>

type_synonym 'd nr_state = "nat \<times> nat \<times> nat \<times> byte list \<times> 'd"

definition new_read_first ::
    "'d bdev \<Rightarrow> nat \<Rightarrow> nat \<Rightarrow> byte list \<Rightarrow> 'd \<Rightarrow> bool \<times> 'd nr_state" where
  "new_read_first dev blk count buf d =
     (let nb = native_blocks dev in
      if blk mod nb \<noteq> 0 \<or> count < nb then
        (let block = mul32 (blk div nb) nb in
         case new_read_native dev d (block div nb) 1 of (err, temp, d') \<Rightarrow>
           if err \<noteq> 0 then (False, (block, 0, 0, buf, d'))
           else
             (let byte_offset = mul32 (sub32 blk block) USER_BLOCK_SIZE;
                  p_cnt = min count (sub32 (add32 block nb) blk);
                  byte_size = mul32 p_cnt USER_BLOCK_SIZE
              in (True, (add32 block nb, p_cnt, byte_size,
                         splice_at buf 0 (slice_at byte_offset byte_size temp), d'))))
      else (True, (blk, 0, 0, buf, d)))"

function new_read_loop :: "'d bdev \<Rightarrow> nat \<Rightarrow> 'd nr_state \<Rightarrow> bool \<times> 'd nr_state" where
  "new_read_loop dev count (block, block_read, pos, buf, d) =
     (let nb = native_blocks dev; rest = sub32 count block_read in
      if 0 < nb \<and> nb \<le> rest then
        (let n = block_per_time dev rest in
         case new_read_native dev d (block div nb) (n div nb) of
             (err, bytes, d') \<Rightarrow>
               if err \<noteq> 0 then (False, (block, block_read, pos, splice_at buf pos bytes, d'))
               else new_read_loop dev count
                      (add32 block n, add32 block_read n,
                       pos + mul32 n USER_BLOCK_SIZE, splice_at buf pos bytes, d'))
      else (True, (block, block_read, pos, buf, d)))"
  by pat_completeness auto
termination
  by (relation "measure (\<lambda>(dev, count, (block, block_read, pos, buf, d)). sub32 count block_read)")
     (auto simp: sub32_add32 block_per_time_bounds Let_def diff_less dest: block_per_time_bounds)

declare new_read_loop.simps [simp del]

definition new_read_last ::
    "'d bdev \<Rightarrow> nat \<Rightarrow> 'd nr_state \<Rightarrow> 'd nr_state" where
  "new_read_last dev count st = (case st of (block, block_read, pos, buf, d) \<Rightarrow>
     (let nb = native_blocks dev; rest = sub32 count block_read in
      if rest mod nb \<noteq> 0 then
        (case new_read_native dev d (block div nb) 1 of (err, temp, d') \<Rightarrow>
           if err \<noteq> 0 then (block, block_read, pos, buf, d')
           else (block, add32 block_read rest, pos,
                 splice_at buf pos (slice_at 0 (mul32 rest USER_BLOCK_SIZE) temp), d'))
      else st))"

definition bio_new_read ::
    "'d bdev \<Rightarrow> nat \<Rightarrow> byte list \<Rightarrow> 'd \<Rightarrow> nat \<Rightarrow> nat \<Rightarrow> nat \<times> byte list \<times> 'd" where
  "bio_new_read dev addr buf d blk count =
     (if flags dev AND BIO_FLAG_CACHE_ALIGNED_READS \<noteq> 0 \<and> \<not> is_aligned addr CACHE_LINE
      then (0, buf, d)
      else
        (case new_read_first dev blk count buf d of (go, st) \<Rightarrow>
          (case (if go then new_read_loop dev count st else (False, st)) of (go, st) \<Rightarrow>
            (case (if go then new_read_last dev count st else st) of
               (block, block_read, pos, buf, d) \<Rightarrow> (block_read, buf, d)))))"

section \<open>Writing\<close>

type_synonym 'd nw_state = "nat \<times> nat \<times> nat \<times> 'd"

definition new_write_first ::
    "'d bdev \<Rightarrow> byte list \<Rightarrow> nat \<Rightarrow> nat \<Rightarrow> 'd \<Rightarrow> bool \<times> 'd nw_state" where
  "new_write_first dev src blk count d =
     (let nb = native_blocks dev in
      if blk mod nb \<noteq> 0 then
        (let block = mul32 (blk div nb) nb in
         case new_read_native dev d (block div nb) 1 of (err, temp, d') \<Rightarrow>
           if err \<noteq> 0 then (False, (block, 0, 0, d'))
           else
             (let byte_offset = mul32 (sub32 blk block) USER_BLOCK_SIZE;
                  p_cnt = min count (sub32 (add32 block nb) blk);
                  byte_size = mul32 p_cnt USER_BLOCK_SIZE;
                  temp = splice_at temp byte_offset (slice_at 0 byte_size src)
              in case new_write_native dev d' temp (block div nb) 1 of (err, d'') \<Rightarrow>
                   if err \<noteq> 0 then (False, (block, 0, 0, d''))
                   else (True, (add32 block nb, p_cnt, byte_size, d''))))
      else (True, (blk, 0, 0, d)))"

function new_write_loop ::
    "'d bdev \<Rightarrow> byte list \<Rightarrow> nat \<Rightarrow> 'd nw_state \<Rightarrow> bool \<times> 'd nw_state" where
  "new_write_loop dev src count (block, block_written, pos, d) =
     (let nb = native_blocks dev; rest = sub32 count block_written in
      if 0 < nb \<and> nb \<le> rest then
        (let n = block_per_time dev rest in
         case new_write_native dev d (drop pos src) (block div nb) (n div nb) of
             (err, d') \<Rightarrow>
               if err \<noteq> 0 then (False, (block, block_written, pos, d'))
               else new_write_loop dev src count
                      (add32 block n, add32 block_written n, pos + mul32 n USER_BLOCK_SIZE, d'))
      else (True, (block, block_written, pos, d)))"
  by pat_completeness auto
termination
  by (relation "measure (\<lambda>(dev, src, count, (block, block_written, pos, d)). sub32 count block_written)")
     (auto simp: sub32_add32 block_per_time_bounds Let_def diff_less dest: block_per_time_bounds)

declare new_write_loop.simps [simp del]

definition new_write_last ::
    "'d bdev \<Rightarrow> byte list \<Rightarrow> nat \<Rightarrow> 'd nw_state \<Rightarrow> 'd nw_state" where
  "new_write_last dev src count st = (case st of (block, block_written, pos, d) \<Rightarrow>
     (let nb = native_blocks dev; rest = sub32 count block_written in
      if rest mod nb \<noteq> 0 then
        (case new_read_native dev d (block div nb) 1 of (err, temp, d') \<Rightarrow>
           if err \<noteq> 0 then (block, block_written, pos, d')
           else
             (let temp = splice_at temp 0 (slice_at pos (mul32 rest USER_BLOCK_SIZE) src)
              in case new_write_native dev d' temp (block div nb) 1 of (err, d'') \<Rightarrow>
                   if err \<noteq> 0 then (block, block_written, pos, d'')
                   else (block, add32 block_written rest, pos, d'')))
      else st))"

definition bio_new_write ::
    "'d bdev \<Rightarrow> nat \<Rightarrow> 'd \<Rightarrow> byte list \<Rightarrow> nat \<Rightarrow> nat \<Rightarrow> nat \<times> 'd" where
  "bio_new_write dev addr d src blk count =
     (if flags dev AND BIO_FLAG_CACHE_ALIGNED_WRITES \<noteq> 0 \<and> \<not> is_aligned addr CACHE_LINE
      then (0, d)
      else
        (case new_write_first dev src blk count d of (go, st) \<Rightarrow>
          (case (if go then new_write_loop dev src count st else (False, st)) of (go, st) \<Rightarrow>
            (case (if go then new_write_last dev src count st else st) of
               (block, block_written, pos, d) \<Rightarrow> (block_written, d)))))"

section \<open>Erasing\<close>

text \<open>
  The two zero-filling loops ignore the status of the write, as the source does. Their
  guard \<^verbatim>\<open>block_erased + native_block_size <= count\<close> is a 32-bit sum; with a count close
  to the top of the range it can wrap and the loop need not end, so they are partial
  functions and \<open>bio_new_erase\<close> returns an option.
\<close>

type_synonym 'd ne_state = "nat \<times> nat \<times> 'd"

definition erase_unit :: "'d bdev \<Rightarrow> nat" where
  "erase_unit dev =
     (if erase_size dev \<noteq> 0 \<and> native_blocks dev < erase_size dev
         \<and> erase_size dev mod native_blocks dev = 0
      then erase_size dev else native_blocks dev)"

definition new_erase_first :: "'d bdev \<Rightarrow> nat \<Rightarrow> nat \<Rightarrow> 'd \<Rightarrow> bool \<times> 'd ne_state" where
  "new_erase_first dev blk count d =
     (let nb = native_blocks dev in
      if blk mod nb \<noteq> 0 then
        (let block = mul32 (blk div nb) nb in
         case new_read_native dev d (block div nb) 1 of (err, temp, d') \<Rightarrow>
           if err \<noteq> 0 then (False, (block, 0, d'))
           else
             (let byte_offset = mul32 (sub32 blk block) USER_BLOCK_SIZE;
                  p_cnt = min count (sub32 (add32 block nb) blk);
                  byte_size = mul32 p_cnt USER_BLOCK_SIZE;
                  temp = splice_at temp byte_offset (replicate byte_size 0)
              in case new_write_native dev d' temp (block div nb) 1 of (err, d'') \<Rightarrow>
                   if err \<noteq> 0 then (False, (block, 0, d''))
                   else (True, (add32 block nb, p_cnt, d''))))
      else (True, (blk, 0, d)))"

partial_function (option) zero_to_unit ::
    "'d bdev \<Rightarrow> nat \<Rightarrow> 'd ne_state \<Rightarrow> 'd ne_state option" where
  "zero_to_unit dev count st = (case st of (block, block_erased, d) \<Rightarrow>
     (if block mod erase_unit dev \<noteq> 0 \<and> add32 block_erased (native_blocks dev) \<le> count then
        (case new_write_native dev d (replicate (block_size dev) 0) (block div native_blocks dev) 1 of
           (err, d') \<Rightarrow> zero_to_unit dev count
             (add32 block (native_blocks dev), add32 block_erased (native_blocks dev), d'))
      else Some st))"

partial_function (option) zero_rest ::
    "'d bdev \<Rightarrow> nat \<Rightarrow> 'd ne_state \<Rightarrow> 'd ne_state option" where
  "zero_rest dev count st = (case st of (block, block_erased, d) \<Rightarrow>
     (if add32 block_erased (native_blocks dev) \<le> count then
        (case new_write_native dev d (replicate (block_size dev) 0) (block div native_blocks dev) 1 of
           (err, d') \<Rightarrow> zero_rest dev count
             (add32 block (native_blocks dev), add32 block_erased (native_blocks dev), d'))
      else Some st))"

definition new_erase_units :: "'d bdev \<Rightarrow> nat \<Rightarrow> 'd ne_state \<Rightarrow> bool \<times> 'd ne_state" where
  "new_erase_units dev count st = (case st of (block, block_erased, d) \<Rightarrow>
     (let nb = native_blocks dev;
          n = (sub32 count block_erased div erase_unit dev) * erase_unit dev in
      if n \<noteq> 0 then
        (case new_erase_native dev d (block div nb) (n div nb) of (err, d') \<Rightarrow>
           if err \<noteq> 0 then (False, (block, block_erased, d'))
           else (True, (add32 block n, add32 block_erased n, d')))
      else (True, st)))"

definition new_erase_last :: "'d bdev \<Rightarrow> nat \<Rightarrow> 'd ne_state \<Rightarrow> 'd ne_state" where
  "new_erase_last dev count st = (case st of (block, block_erased, d) \<Rightarrow>
     (let nb = native_blocks dev; rest = sub32 count block_erased in
      if rest mod nb \<noteq> 0 then
        (case new_read_native dev d (block div nb) 1 of (err, temp, d') \<Rightarrow>
           if err \<noteq> 0 then (block, block_erased, d')
           else
             (let temp = splice_at temp 0 (replicate (mul32 rest USER_BLOCK_SIZE) 0)
              in case new_write_native dev d' temp (block div nb) 1 of (err, d'') \<Rightarrow>
                   if err \<noteq> 0 then (block, block_erased, d'')
                   else (block, add32 block_erased rest, d'')))
      else st))"

definition bio_new_erase :: "'d bdev \<Rightarrow> 'd \<Rightarrow> nat \<Rightarrow> nat \<Rightarrow> (nat \<times> 'd) option" where
  "bio_new_erase dev d blk count =
     (case new_erase_first dev blk count d of (go, st) \<Rightarrow>
        if \<not> go then (case st of (block, block_erased, d) \<Rightarrow> Some (block_erased, d))
        else
          (case zero_to_unit dev count st of
             None \<Rightarrow> None
           | Some st \<Rightarrow>
             (case new_erase_units dev count st of (go, (block, block_erased, d)) \<Rightarrow>
                if \<not> go \<or> add32 blk count = block then Some (block_erased, d)
                else
                  (case zero_rest dev count (block, block_erased, d) of
                     None \<Rightarrow> None
                   | Some st \<Rightarrow>
                     (case new_erase_last dev count st of
                        (block, block_erased, d) \<Rightarrow> Some (block_erased, d))))))"

end
