(* ===== verification/Bio_Registry.thy ===== *)
theory Bio_Registry
  imports Bio "HOL-Library.Multiset" "HOL-Library.Sublist"
begin

text \<open>
  The device list of \<^verbatim>\<open>lib/bio/bio.c\<close>: registration, lookup by name and the
  reference counts that decide when a device is closed and its name freed. Device objects
  live in a store indexed by address; the list \<^verbatim>\<open>bdevs\<close> holds addresses in registration
  order. A freed name is \<open>None\<close>. The step relation \<open>bio_step\<close> is a client that opens,
  closes, registers and unregisters devices; it keeps the references it holds in a
  multiset that the code does not have.
\<close>

record 'd bio_state =
  bdev_at :: "nat \<Rightarrow> 'd bdev"
  bdev_priv :: "nat \<Rightarrow> 'd"
  bdevs :: "nat list"

definition bdev_inc_ref :: "'d bio_state \<Rightarrow> nat \<Rightarrow> 'd bio_state" where
  "bdev_inc_ref st a =
     st\<lparr>bdev_at := (bdev_at st)(a := (bdev_at st a)\<lparr>ref := ref (bdev_at st a) + 1\<rparr>)\<rparr>"

definition bdev_dec_ref :: "'d bio_state \<Rightarrow> nat \<Rightarrow> 'd bio_state" where
  "bdev_dec_ref st a =
     (let oldval = ref (bdev_at st a);
          dev = (bdev_at st a)\<lparr>ref := oldval - 1\<rparr> in
      if oldval = 1 then
        st\<lparr>bdev_at := (bdev_at st)(a := dev\<lparr>bname := None\<rparr>),
           bdev_priv := (case close_hook dev of
                           None \<Rightarrow> bdev_priv st
                         | Some f \<Rightarrow> (bdev_priv st)(a := f (bdev_priv st a)))\<rparr>
      else st\<lparr>bdev_at := (bdev_at st)(a := dev)\<rparr>)"

definition bio_open :: "'d bio_state \<Rightarrow> string \<Rightarrow> nat option \<times> 'd bio_state" where
  "bio_open st nm =
     (case find (\<lambda>a. bname (bdev_at st a) = Some nm) (bdevs st) of
        None \<Rightarrow> (None, st)
      | Some a \<Rightarrow> (Some a, bdev_inc_ref st a))"

definition has_prefix :: "string \<Rightarrow> string option \<Rightarrow> bool" where
  "has_prefix nm s = (case s of None \<Rightarrow> False | Some s \<Rightarrow> prefix nm s)"

definition bio_get_with_prefix :: "'d bio_state \<Rightarrow> string \<Rightarrow> nat option" where
  "bio_get_with_prefix st nm = find (\<lambda>a. has_prefix nm (bname (bdev_at st a))) (bdevs st)"

definition bio_close :: "'d bio_state \<Rightarrow> nat \<Rightarrow> 'd bio_state" where
  "bio_close st a = bdev_dec_ref st a"

definition bio_register_device :: "'d bio_state \<Rightarrow> nat \<Rightarrow> 'd bio_state" where
  "bio_register_device st a =
     (let st = bdev_inc_ref st a in st\<lparr>bdevs := bdevs st @ [a]\<rparr>)"

definition bio_unregister_device :: "'d bio_state \<Rightarrow> nat \<Rightarrow> 'd bio_state" where
  "bio_unregister_device st a =
     (let st = st\<lparr>bdevs := remove1 a (bdevs st)\<rparr> in bdev_dec_ref st a)"

section \<open>Reference counts\<close>

text \<open>
  \<open>refs_ok st m\<close>: every device that is listed or held has exactly one reference per
  holder and one for the list, and its name is still there.
\<close>

definition refs_ok :: "'d bio_state \<Rightarrow> nat multiset \<Rightarrow> bool" where
  "refs_ok st m \<longleftrightarrow> distinct (bdevs st) \<and>
     (\<forall>a. a \<in> set (bdevs st) \<or> a \<in># m \<longrightarrow>
        ref (bdev_at st a) = int (count m a) + (if a \<in> set (bdevs st) then 1 else 0)
        \<and> bname (bdev_at st a) \<noteq> None)"

inductive bio_step ::
    "'d bio_state \<times> nat multiset \<Rightarrow> 'd bio_state \<times> nat multiset \<Rightarrow> bool" where
  step_open: "bio_open st nm = (Some a, st') \<Longrightarrow> bio_step (st, m) (st', add_mset a m)"
| step_open_fail: "bio_open st nm = (None, st') \<Longrightarrow> bio_step (st, m) (st', m)"
| step_close: "a \<in># m \<Longrightarrow> bio_step (st, m) (bio_close st a, m - {#a#})"
| step_register: "a \<notin> set (bdevs st) \<Longrightarrow> a \<notin># m \<Longrightarrow>
    bio_step (st, m)
      (bio_register_device
        (st\<lparr>bdev_at := (bdev_at st)(a := bio_initialize_bdev dev nm bs cnt geo fl)\<rparr>) a, m)"
| step_unregister: "a \<in> set (bdevs st) \<Longrightarrow> bio_step (st, m) (bio_unregister_device st a, m)"

lemma find_SomeD: "find P xs = Some x \<Longrightarrow> x \<in> set xs \<and> P x"
  by (auto simp: find_Some_iff)

lemma refs_ok_close:
  assumes "refs_ok st m" and "a \<in># m"
  shows "refs_ok (bio_close st a) (m - {#a#})"
proof -
  have r: "ref (bdev_at st a) = int (count m a) + (if a \<in> set (bdevs st) then 1 else 0)"
    using assms by (auto simp: refs_ok_def)
  have c: "0 < count m a" using assms(2) by simp
  show ?thesis
    using assms r c
    by (auto simp: refs_ok_def bio_close_def bdev_dec_ref_def Let_def in_diff_count
        count_eq_zero_iff split: if_splits)
qed

lemma refs_ok_unregister:
  assumes "refs_ok st m" and "a \<in> set (bdevs st)"
  shows "refs_ok (bio_unregister_device st a) m"
proof -
  have d: "distinct (bdevs st)" and r: "ref (bdev_at st a) = int (count m a) + 1"
    using assms by (auto simp: refs_ok_def)
  have "a \<in># m \<longleftrightarrow> 0 < count m a" by simp
  then show ?thesis
    using assms d r
    by (auto simp: refs_ok_def bio_unregister_device_def bdev_dec_ref_def Let_def
        count_eq_zero_iff split: if_splits)
qed

lemma refs_ok_step:
  assumes "bio_step (st, m) (st', m')" and "refs_ok st m"
  shows "refs_ok st' m'"
  using assms(1)
proof cases
  case (step_open nm a)
  then have "a \<in> set (bdevs st)" "st' = bdev_inc_ref st a"
    by (auto simp: bio_open_def dest: find_SomeD split: option.splits)
  then show ?thesis using assms(2) step_open(1)
    by (auto simp: refs_ok_def bdev_inc_ref_def)
next
  case (step_open_fail nm)
  then have "st' = st" by (auto simp: bio_open_def split: option.splits)
  then show ?thesis using assms(2) step_open_fail by simp
next
  case (step_close a)
  then show ?thesis using refs_ok_close [OF assms(2)] by simp
next
  case (step_register a dev nm bs cnt geo fl)
  then have "count m a = 0" by (simp add: not_in_iff)
  then show ?thesis using assms(2) step_register
    by (auto simp: refs_ok_def bio_register_device_def bdev_inc_ref_def bio_initialize_bdev_def
        Let_def)
next
  case (step_unregister a)
  then show ?thesis using refs_ok_unregister [OF assms(2)] by simp
qed

lemma refs_ok_reachable:
  assumes "bio_step\<^sup>*\<^sup>* (st, m) (st', m')" and "refs_ok st m"
  shows "refs_ok st' m'"
  using assms
  by (induction "(st', m')" arbitrary: st' m' rule: rtranclp_induct)
     (auto intro: refs_ok_step)

text \<open>In every state a client can reach by opening, closing, registering and
unregistering devices, a device that is listed or held has exactly one reference per
holder plus one for the list, and its name has not been freed.\<close>

theorem bio_refcounts_exact:
  assumes "bio_step\<^sup>*\<^sup>* (st, m) (st', m')" and "bdevs st = []" and "m = {#}"
    and "a \<in> set (bdevs st') \<or> a \<in># m'"
  shows "ref (bdev_at st' a) = int (count m' a) + (if a \<in> set (bdevs st') then 1 else 0)
    \<and> bname (bdev_at st' a) \<noteq> None"
proof -
  have "refs_ok st m" using assms(2,3) by (simp add: refs_ok_def)
  with assms(1) have "refs_ok st' m'" by (rule refs_ok_reachable)
  with assms(4) show ?thesis unfolding refs_ok_def by blast
qed

definition empty_bio :: "unit bio_state" where
  "empty_bio = \<lparr>bdev_at = (\<lambda>_. blank_bdev), bdev_priv = (\<lambda>_. ()), bdevs = []\<rparr>"

definition one_bio :: "unit bio_state" where
  "one_bio = bio_register_device
     (empty_bio\<lparr>bdev_at := (bdev_at empty_bio)(5 := bio_initialize_bdev blank_bdev ''d'' 512 8 [] 0)\<rparr>) 5"

theorem bio_refcounts_exact_witness:
  "ref (bdev_at one_bio 5) = int (count {#} (5::nat)) + (if 5 \<in> set (bdevs one_bio) then 1 else 0)
    \<and> bname (bdev_at one_bio 5) \<noteq> None"
proof (rule bio_refcounts_exact [of empty_bio "{#}"])
  have "bio_step (empty_bio, {#}) (one_bio, {#})"
    unfolding one_bio_def by (rule step_register) (simp_all add: empty_bio_def)
  then show "bio_step\<^sup>*\<^sup>* (empty_bio, {#}) (one_bio, {#})" by blast
qed (simp_all add: empty_bio_def one_bio_def bio_register_device_def bdev_inc_ref_def Let_def)

end
