(* ===== verification/Scsi.thy ===== *)
theory Scsi
  imports Bio_New Bio_Registry
begin

text \<open>
  The SCSI layer \<^verbatim>\<open>dev/scsi/scsi.c\<close>: the command descriptor blocks, the commands, and
  the enumeration that turns logical units into block devices. The transport is the
  function pointer \<^verbatim>\<open>exec\<close>: it takes the command meta structure and the state of the
  target and returns its own status, the SCSI status byte, the data-in bytes and the new
  target state. For a data-out command \<open>scm_buf\<close> is what \<^verbatim>\<open>buf\<close> points to.
\<close>

record scm =
  cdb :: "byte list"
  datalen :: nat
  scm_buf :: "byte list"
  scm_lun :: nat

type_synonym 't exec_fn = "scm \<Rightarrow> 't \<Rightarrow> status \<times> byte \<times> byte list \<times> 't"

section \<open>Big-endian fields\<close>

text \<open>
  The macros are called \<^verbatim>\<open>set_dword_le\<close> and so on, but store the most significant byte
  first.
\<close>

definition set_dword_le :: "byte list \<Rightarrow> nat \<Rightarrow> nat \<Rightarrow> byte list" where
  "set_dword_le p i v =
     p[i := word_of_nat (v div 2 ^ 24), i + 1 := word_of_nat (v div 2 ^ 16),
       i + 2 := word_of_nat (v div 2 ^ 8), i + 3 := word_of_nat v]"

definition set_tbyte_be :: "byte list \<Rightarrow> nat \<Rightarrow> nat \<Rightarrow> byte list" where
  "set_tbyte_be p i v =
     p[i := word_of_nat (v div 2 ^ 16), i + 1 := word_of_nat (v div 2 ^ 8), i + 2 := word_of_nat v]"

definition set_word_le :: "byte list \<Rightarrow> nat \<Rightarrow> nat \<Rightarrow> byte list" where
  "set_word_le p i v = p[i := word_of_nat (v div 2 ^ 8), i + 1 := word_of_nat v]"

text \<open>
  \<^verbatim>\<open>get_dword_le\<close> shifts promoted bytes, so its value is a signed 32-bit integer.
\<close>

definition get_dword_le :: "byte list \<Rightarrow> nat \<Rightarrow> int" where
  "get_dword_le p i =
     signed_take_bit 31 (uint (p ! i) * 2 ^ 24 + uint (p ! (i + 1)) * 2 ^ 16
       + uint (p ! (i + 2)) * 2 ^ 8 + uint (p ! (i + 3)))"

section \<open>Commands\<close>

definition scsi_parse_status :: "byte \<Rightarrow> status" where
  "scsi_parse_status s = (if s = 0 then NO_ERROR else ERR_ACCESS_DENIED)"

definition cdb_zero :: "byte list" where
  "cdb_zero = replicate 16 0"

text \<open>
  \<open>issue\<close> is the common tail of every command: run it, and translate the SCSI status
  when the transport itself succeeded.
\<close>

definition issue :: "'t exec_fn \<Rightarrow> scm \<Rightarrow> 't \<Rightarrow> status \<times> byte list \<times> 't" where
  "issue exec m t =
     (case exec m t of (ret, st, data, t') \<Rightarrow>
        ((if ret = 0 then scsi_parse_status st else ret), data, t'))"

definition scsi_read_10 :: "'t exec_fn \<Rightarrow> nat \<Rightarrow> nat \<Rightarrow> 't read_fn" where
  "scsi_read_10 exec lun bs t block cnt =
     issue exec \<lparr>cdb = set_word_le (set_dword_le (cdb_zero[0 := 0x28]) 2 block) 7 (cnt mod 2 ^ 16),
                 datalen = mul32 cnt bs, scm_buf = [], scm_lun = lun\<rparr> t"

definition scsi_write_10 :: "'t exec_fn \<Rightarrow> nat \<Rightarrow> nat \<Rightarrow> 't write_fn" where
  "scsi_write_10 exec lun bs t buf block cnt =
     (case issue exec
        \<lparr>cdb = set_word_le (set_dword_le (cdb_zero[0 := 0x2A]) 2 block) 7 (cnt mod 2 ^ 16),
         datalen = mul32 cnt bs, scm_buf = buf, scm_lun = lun\<rparr> t of
      (ret, data, t') \<Rightarrow> (ret, t'))"

definition scsi_write_buffer ::
    "'t exec_fn \<Rightarrow> nat \<Rightarrow> 't \<Rightarrow> byte list \<Rightarrow> byte \<Rightarrow> byte \<Rightarrow> nat \<Rightarrow> nat \<Rightarrow> status \<times> 't" where
  "scsi_write_buffer exec lun t buf md buf_id buf_ofs len =
     (case issue exec
        \<lparr>cdb = (set_tbyte_be (set_tbyte_be
                  (cdb_zero[0 := 0x3B, 1 := md AND 0x1F, 2 := buf_id]) 3 buf_ofs) 6 len)[9 := 0],
         datalen = len, scm_buf = buf, scm_lun = lun\<rparr> t of
      (ret, data, t') \<Rightarrow> (ret, t'))"

text \<open>
  UNMAP sends one block descriptor; \<open>SCSI_UNMAP_DATA_LEN\<close> does not cnt its own two
  bytes.
\<close>

definition SCSI_UNMAP_BLOCK_DESC_DATA_LEN :: nat where
  "SCSI_UNMAP_BLOCK_DESC_DATA_LEN = 16"

definition SCSI_UNMAP_DATA_LEN :: nat where
  "SCSI_UNMAP_DATA_LEN = SCSI_UNMAP_BLOCK_DESC_DATA_LEN + 6"

definition unmap_data :: "nat \<Rightarrow> nat \<Rightarrow> byte list" where
  "unmap_data block cnt =
     set_dword_le (set_dword_le
       (set_word_le (set_word_le (replicate (SCSI_UNMAP_DATA_LEN + 2) 0)
          0 SCSI_UNMAP_DATA_LEN) 2 SCSI_UNMAP_BLOCK_DESC_DATA_LEN)
       12 block) 16 cnt"

definition scsi_unmap :: "'t exec_fn \<Rightarrow> nat \<Rightarrow> 't erase_fn" where
  "scsi_unmap exec lun t block cnt =
     (case issue exec
        \<lparr>cdb = set_word_le (cdb_zero[0 := 0x42]) 7 (SCSI_UNMAP_DATA_LEN + 2),
         datalen = SCSI_UNMAP_DATA_LEN + 2, scm_buf = unmap_data block cnt, scm_lun = lun\<rparr> t of
      (ret, data, t') \<Rightarrow> (ret, t'))"

definition scsi_start_stop_unit :: "'t exec_fn \<Rightarrow> nat \<Rightarrow> 't \<Rightarrow> status \<times> 't" where
  "scsi_start_stop_unit exec lun t =
     (case issue exec
        \<lparr>cdb = cdb_zero[0 := 0x1B, 4 := 0x30], datalen = 0, scm_buf = [], scm_lun = lun\<rparr> t of
      (ret, data, t') \<Rightarrow> (ret, t'))"

definition scsi_inquiry :: "'t exec_fn \<Rightarrow> nat \<Rightarrow> 't \<Rightarrow> status \<times> byte list \<times> 't" where
  "scsi_inquiry exec lun t =
     issue exec \<lparr>cdb = set_word_le (cdb_zero[0 := 0x12]) 3 255, datalen = 255, scm_buf = [],
                 scm_lun = lun\<rparr> t"

definition scsi_mode_sense :: "'t exec_fn \<Rightarrow> nat \<Rightarrow> 't \<Rightarrow> status \<times> byte list \<times> 't" where
  "scsi_mode_sense exec lun t =
     issue exec \<lparr>cdb = cdb_zero[0 := 0x03, 4 := 18], datalen = 18, scm_buf = [], scm_lun = lun\<rparr> t"

definition scsi_read_capacity_10 :: "'t exec_fn \<Rightarrow> nat \<Rightarrow> 't \<Rightarrow> status \<times> byte list \<times> 't" where
  "scsi_read_capacity_10 exec lun t =
     issue exec \<lparr>cdb = cdb_zero[0 := 0x25], datalen = 8, scm_buf = [], scm_lun = lun\<rparr> t"

definition scsi_format_unit :: "'t exec_fn \<Rightarrow> nat \<Rightarrow> 't \<Rightarrow> status \<times> 't" where
  "scsi_format_unit exec lun t =
     (case issue exec \<lparr>cdb = cdb_zero[0 := 0x04], datalen = 0, scm_buf = [], scm_lun = lun\<rparr> t of
      (ret, data, t') \<Rightarrow> (ret, t'))"

definition RPMB_MSG_DATA_SIZE :: nat where
  "RPMB_MSG_DATA_SIZE = 512"

definition scsi_secu_prot_in :: "'t exec_fn \<Rightarrow> nat \<Rightarrow> nat \<Rightarrow> 't read_fn" where
  "scsi_secu_prot_in exec lun bs t block cnt =
     issue exec \<lparr>cdb = set_dword_le (set_word_le (cdb_zero[0 := 0xA2, 1 := 0xEC]) 2 1)
                        6 (mul32 cnt RPMB_MSG_DATA_SIZE),
                 datalen = mul32 cnt bs, scm_buf = [], scm_lun = lun\<rparr> t"

definition scsi_secu_prot_out :: "'t exec_fn \<Rightarrow> nat \<Rightarrow> nat \<Rightarrow> 't write_fn" where
  "scsi_secu_prot_out exec lun bs t buf block cnt =
     (case issue exec
        \<lparr>cdb = set_dword_le (set_word_le (cdb_zero[0 := 0xB5, 1 := 0xEC]) 2 1)
                 6 (mul32 cnt RPMB_MSG_DATA_SIZE),
         datalen = mul32 cnt bs, scm_buf = buf, scm_lun = lun\<rparr> t of
      (ret, data, t') \<Rightarrow> (ret, t'))"

section \<open>Enumeration\<close>

text \<open>
  The state of \<^verbatim>\<open>scsi_scan\<close>: the target, the shared buffer \<^verbatim>\<open>g_buf\<close>, the device list, the
  nodes that a walk from the head \<^verbatim>\<open>lu_list\<close> visits, the address of the next \<^verbatim>\<open>sdev\<close> and the
  identification strings stored in each \<^verbatim>\<open>sdev\<close>, and the \<^verbatim>\<open>ufs_info\<close> fields. A block device
  of this layer keeps the target as its private state.
\<close>

record sdev_info =
  vendor :: "byte list"
  product :: "byte list"
  revision :: "byte list"

record 't scan_state =
  target :: 't
  g_buf :: "byte list"
  bio :: "'t bio_state"
  lu_list :: "nat list"
  sdev :: nat
  sdev_ids :: "nat \<Rightarrow> sdev_info"
  ufs_size :: nat
  ufs_manufacturer :: "byte list"

fun dec_digits :: "nat \<Rightarrow> string" where
  "dec_digits n =
     (if n < 10 then [char_of (48 + n)] else dec_digits (n div 10) @ [char_of (48 + n mod 10)])"

declare dec_digits.simps [simp del]

text \<open>
  The arguments of \<^verbatim>\<open>list_add_tail\<close> are swapped in \<^verbatim>\<open>scsi_scan_common\<close>: it is the head
  \<^verbatim>\<open>lu_list\<close> that is inserted into the list of the new node, which holds nothing else, so that the
  head forgets the units it had before. Nobody walks the list.
\<close>

definition scsi_scan_common ::
    "'t exec_fn \<Rightarrow> nat \<Rightarrow> 't scan_state \<Rightarrow> status \<times> 't scan_state" where
  "scsi_scan_common exec lun s =
     (case scsi_inquiry exec lun (target s) of (ret, data, t1) \<Rightarrow>
        let gb = splice_at (g_buf s) 0 data; s1 = s\<lparr>target := t1, g_buf := gb\<rparr> in
        if ret < 0 then (ERR_NOT_FOUND, s1)
        else
          let ids = \<lparr>vendor = slice_at 8 40 gb, product = slice_at 16 20 gb,
                     revision = slice_at 32 8 gb\<rparr>;
              s2 = s1\<lparr>sdev_ids := (sdev_ids s1)(sdev s := ids)\<rparr> in
          case scsi_mode_sense exec lun (target s2) of (ret, data, t2) \<Rightarrow>
            let s3 = s2\<lparr>target := t2, g_buf := splice_at (g_buf s2) 0 data\<rparr> in
            if ret < 0 then (ret, s3) else (ret, s3\<lparr>lu_list := [sdev s]\<rparr>))"

text \<open>The block device published for a logical unit.\<close>

definition scsi_lu_bdev ::
    "'t exec_fn \<Rightarrow> nat \<Rightarrow> bool \<Rightarrow> string \<Rightarrow> nat \<Rightarrow> nat \<Rightarrow> nat \<Rightarrow> 't bdev \<Rightarrow> 't bdev" where
  "scsi_lu_bdev exec lun wlun nm bs cnt max_seg dev =
     (let dev = bio_initialize_bdev dev nm bs cnt [] 0;
          dev = (if \<not> wlun then dev\<lparr>new_read_native := scsi_read_10 exec lun bs,
                                    new_write_native := scsi_write_10 exec lun bs,
                                    new_erase_native := scsi_unmap exec lun\<rparr>
                 else dev\<lparr>new_read_native := scsi_secu_prot_in exec lun bs,
                          new_write_native := scsi_secu_prot_out exec lun bs\<rparr>)
      in dev\<lparr>max_blkcnt_per_cmd := (mul64 max_seg bs div USER_BLOCK_SIZE) mod 2 ^ 32\<rparr>)"

definition scsi_publish ::
    "'t exec_fn \<Rightarrow> nat \<Rightarrow> bool \<Rightarrow> string \<Rightarrow> nat \<Rightarrow> nat \<Rightarrow> nat \<Rightarrow> 't scan_state \<Rightarrow> 't scan_state" where
  "scsi_publish exec lun wlun nm bs cnt max_seg s =
     (let a = sdev s; b = bio s;
          b = b\<lparr>bdev_at := (bdev_at b)(a := scsi_lu_bdev exec lun wlun nm bs cnt max_seg (bdev_at b a))\<rparr>
      in s\<lparr>bio := bio_register_device b a, sdev := a + 1\<rparr>)"

text \<open>
  One logical unit of the loop; the boolean tells whether the loop goes on. A unit that
  does not answer INQUIRY is skipped, any other failure ends the loop.
\<close>

definition scsi_scan_lu ::
    "'t exec_fn \<Rightarrow> nat \<Rightarrow> nat \<Rightarrow> string \<Rightarrow> nat \<Rightarrow> 't scan_state \<Rightarrow> bool \<times> status \<times> 't scan_state" where
  "scsi_scan_lu exec wlun i name_s max_seg s =
     (let nm = take 15 (if wlun \<noteq> 0 then ''scsi'' @ name_s else ''scsi'' @ dec_digits i) in
      case scsi_scan_common exec i s of (ret, s1) \<Rightarrow>
        if ret = ERR_NOT_FOUND then (True, ret, s1)
        else if ret < 0 then (False, ret, s1)
        else if wlun = 0 then
          (case scsi_read_capacity_10 exec i (target s1) of (ret, data, t2) \<Rightarrow>
             let gb = splice_at (g_buf s1) 0 data; s2 = s1\<lparr>target := t2, g_buf := gb\<rparr> in
             if ret < 0 then (False, ret, s2)
             else
               let bs = nat (get_dword_le gb 4 mod 2 ^ 64);
                   cnt = nat ((get_dword_le gb 0 + 1) mod 2 ^ 32);
                   s3 = (if i = 0
                         then s2\<lparr>ufs_size := add64 (mul64 bs cnt) 999999999 div 1000 div 1000 div 1000,
                                 ufs_manufacturer := takeWhile (\<lambda>c. c \<noteq> 0) (vendor (sdev_ids s2 (sdev s2)))\<rparr>
                         else s2)
               in (True, ret, scsi_publish exec i False nm bs cnt max_seg s3))
        else (True, ret, scsi_publish exec i True nm
                (if name_s = ''rpmb'' then RPMB_MSG_DATA_SIZE else 4096) 0xFFFFFFFF max_seg s1))"

fun scsi_scan_loop ::
    "'t exec_fn \<Rightarrow> nat \<Rightarrow> nat list \<Rightarrow> string \<Rightarrow> nat \<Rightarrow> status \<Rightarrow> 't scan_state \<Rightarrow> status \<times> 't scan_state" where
  "scsi_scan_loop exec wlun [] name_s max_seg ret s = (ret, s)"
| "scsi_scan_loop exec wlun (i # is) name_s max_seg ret s =
     (case scsi_scan_lu exec wlun i name_s max_seg s of (go, ret', s') \<Rightarrow>
        if go then scsi_scan_loop exec wlun is name_s max_seg ret' s' else (ret', s'))"

definition scsi_scan ::
    "'t exec_fn \<Rightarrow> nat \<Rightarrow> nat \<Rightarrow> string \<Rightarrow> nat \<Rightarrow> 't scan_state \<Rightarrow> status \<times> 't scan_state" where
  "scsi_scan exec wlun dev_num name_s max_seg s =
     scsi_scan_loop exec wlun (if wlun \<noteq> 0 then [wlun] else [0..<dev_num]) name_s max_seg NO_ERROR s"

definition scsi_scan_ssu :: "'t exec_fn \<Rightarrow> nat \<Rightarrow> 't scan_state \<Rightarrow> status \<times> 't scan_state" where
  "scsi_scan_ssu exec wlun s =
     (case scsi_scan_common exec wlun s of (ret, s) \<Rightarrow>
        if ret = 0 then
          (let a = sdev s; b = bio s;
               b = b\<lparr>bdev_at := (bdev_at b)(a :=
                       bio_initialize_bdev (bdev_at b a) ''scsissu'' 4096 1 [] 0)\<rparr>
           in (ret, s\<lparr>bio := bio_register_device b a\<rparr>))
        else (ret, s))"

definition scsi_do_ssu ::
    "'t exec_fn \<Rightarrow> (nat \<Rightarrow> nat) \<Rightarrow> 't bio_state \<Rightarrow> 't \<Rightarrow> status \<times> 't bio_state \<times> 't" where
  "scsi_do_ssu exec lun_of b t =
     (case bio_open b ''scsissu'' of
        (None, b) \<Rightarrow> (ERR_GENERIC, b, t)
      | (Some a, b) \<Rightarrow>
          (case scsi_start_stop_unit exec (lun_of a) t of (ret, t') \<Rightarrow> (ret, bio_close b a, t')))"

definition scsi_ufs_ffu ::
    "'t exec_fn \<Rightarrow> (nat \<Rightarrow> nat) \<Rightarrow> 't bio_state \<Rightarrow> 't \<Rightarrow> byte list \<Rightarrow> nat \<Rightarrow> status \<times> 't bio_state \<times> 't" where
  "scsi_ufs_ffu exec lun_of b t buf len =
     (case bio_open b ''scsi0'' of
        (None, b) \<Rightarrow> (-15, b, t)
      | (Some a, b) \<Rightarrow>
          (case scsi_write_buffer exec (lun_of a) t buf 0x0E 0 0 len of
             (ret, t') \<Rightarrow> (ret, bio_close b a, t')))"

text \<open>\<^verbatim>\<open>scsi_exit\<close> unregisters every listed device whose name starts with the prefix.\<close>

function scsi_exit :: "string \<Rightarrow> 't bio_state \<Rightarrow> 't bio_state" where
  "scsi_exit pre b =
     (case bio_get_with_prefix b pre of
        None \<Rightarrow> b
      | Some a \<Rightarrow> scsi_exit pre (bio_unregister_device b a))"
  by pat_completeness auto
termination
proof (relation "measure (\<lambda>(pre, b). length (bdevs b))")
  fix pre and b :: "'t bio_state" and a
  assume "bio_get_with_prefix b pre = Some a"
  then have "a \<in> set (bdevs b)" by (auto simp: bio_get_with_prefix_def dest: find_SomeD)
  then have "0 < length (bdevs b)" and "length (remove1 a (bdevs b)) = length (bdevs b) - 1"
    by (auto simp: length_remove1)
  then show "((pre, bio_unregister_device b a), (pre, b)) \<in> measure (\<lambda>(pre, b). length (bdevs b))"
    by (simp add: bio_unregister_device_def bdev_dec_ref_def Let_def)
qed simp

end
