(* ===== verification/Bio_Correct.thy ===== *)
theory Bio_Correct
  imports Bio
begin

text \<open>
  Correctness of the byte-granular path of the block layer. The interface to a driver is
  the locale \<open>block_device\<close>: its \<^verbatim>\<open>read_block\<close> and \<^verbatim>\<open>write_block\<close> hooks move whole
  blocks of an image. The lemmas of the locale show that the default hooks turn these
  into exact byte ranges: a read returns the range, a write replaces it and nothing else.
  Offsets are bounded by 4 GiB because \<^verbatim>\<open>divpow2\<close> takes a 32-bit argument.
\<close>

section \<open>Trimming\<close>

lemma trim_range_in:
  assumes "0 \<le> offset" and "0 < len" and "offset + int len \<le> total_size dev"
    and "total_size dev < 2 ^ 63"
  shows "bio_trim_range dev offset len = len"
proof -
  have "signed_take_bit 63 (offset + int len) = offset + int len"
    using assms by (intro signed_take_bit_int_eq_self) auto
  then show ?thesis using assms by (simp add: bio_trim_range_def)
qed

lemma trim_range_bound:
  assumes "total_size dev < 2 ^ 63" and "offset + int len < 2 ^ 63"
  shows "bio_trim_range dev offset len = 0 \<or>
    0 \<le> offset \<and> offset + int (bio_trim_range dev offset len) \<le> total_size dev"
proof (cases "0 \<le> offset")
  case True
  then have "signed_take_bit 63 (offset + int len) = offset + int len"
    using assms by (intro signed_take_bit_int_eq_self) auto
  then show ?thesis using True by (auto simp: bio_trim_range_def)
next
  case False
  then show ?thesis by (simp add: bio_trim_range_def)
qed

lemma trim_block_range_in:
  "block + n \<le> block_count dev \<Longrightarrow> block_count dev < 2 ^ 32 \<Longrightarrow>
   bio_trim_block_range dev block n = n"
  by (auto simp: bio_trim_block_range_def wrap_simps)

lemma trim_block_range_0 [simp]: "bio_trim_block_range dev block 0 = 0"
  by (simp add: bio_trim_block_range_def)

lemma check_full_ok [simp]: "check_full n (int n) = int n"
  by (simp add: check_full_def)

section \<open>Progress of a transfer\<close>

text \<open>
  The state of a read after \<open>pos\<close> bytes: the buffer holds the first \<open>pos\<close> bytes of the
  requested range, the device image is unchanged, and the next block starts where the
  transfer stands. The write side is the same with the image in place of the buffer.
\<close>

definition read_inv :: "nat \<Rightarrow> ('d \<Rightarrow> byte list) \<Rightarrow> ('d \<Rightarrow> bool) \<Rightarrow> byte list \<Rightarrow> byte list
    \<Rightarrow> nat \<Rightarrow> nat \<Rightarrow> 'd rd_state \<Rightarrow> bool" where
  "read_inv b img ok I buf off len st \<longleftrightarrow>
     (case st of (buf', pos, rest, block, d) \<Rightarrow>
        pos + rest = len \<and> buf' = splice_at buf 0 (slice_at off pos I)
        \<and> ok d \<and> img d = I \<and> (0 < rest \<longrightarrow> block * b = off + pos))"

definition write_inv :: "nat \<Rightarrow> ('d \<Rightarrow> byte list) \<Rightarrow> ('d \<Rightarrow> bool) \<Rightarrow> byte list \<Rightarrow> byte list
    \<Rightarrow> nat \<Rightarrow> nat \<Rightarrow> 'd wr_state \<Rightarrow> bool" where
  "write_inv b img ok I src off len st \<longleftrightarrow>
     (case st of (pos, rest, block, d) \<Rightarrow>
        pos + rest = len \<and> ok d \<and> img d = splice_at I off (slice_at 0 pos src)
        \<and> (0 < rest \<longrightarrow> block * b = off + pos))"

lemma advance_read:
  assumes "pos + t \<le> length buf" and "off + pos + t \<le> length I"
  shows "splice_at (splice_at buf 0 (slice_at off pos I)) pos (slice_at (off + pos) t I)
       = splice_at buf 0 (slice_at off (pos + t) I)"
  using assms splice_append [of 0 "slice_at off pos I" "slice_at (off + pos) t I" buf]
  by (simp add: slice_add)

lemma advance_write:
  assumes "pos + t \<le> length src" and "off + pos + t \<le> length I"
  shows "splice_at (splice_at I off (slice_at 0 pos src)) (off + pos) (slice_at pos t src)
       = splice_at I off (slice_at 0 (pos + t) src)"
  using assms splice_append [of off "slice_at 0 pos src" "slice_at pos t src" I]
  by (simp add: slice_add)

section \<open>The driver interface\<close>

locale block_device =
  fixes dev :: "'d bdev"
    and rdb :: "'d read_fn"
    and wrb :: "'d write_fn"
    and img :: "'d \<Rightarrow> byte list"
    and ok :: "'d \<Rightarrow> bool"
  assumes rdb_hook: "read_block_hook dev = Custom rdb"
    and wrb_hook: "write_block_hook dev = Custom wrb"
    and bs_pow2: "block_size dev = 2 ^ block_shift dev"
    and total: "total_size dev = int (block_count dev * block_size dev)"
    and img_length: "ok d \<Longrightarrow> length (img d) = block_count dev * block_size dev"
    and rdb_law: "ok d \<Longrightarrow> 0 < n \<Longrightarrow> b + n \<le> block_count dev \<Longrightarrow>
      (b + n) * block_size dev < 2 ^ 32 \<Longrightarrow>
      \<exists>d'. rdb d b n = (int (block_size dev * n),
                slice_at (b * block_size dev) (block_size dev * n) (img d), d')
         \<and> ok d' \<and> img d' = img d"
    and wrb_law: "ok d \<Longrightarrow> 0 < n \<Longrightarrow> b + n \<le> block_count dev \<Longrightarrow>
      (b + n) * block_size dev < 2 ^ 32 \<Longrightarrow> block_size dev * n \<le> length src \<Longrightarrow>
      \<exists>d'. wrb d src b n = (int (block_size dev * n), d')
         \<and> ok d' \<and> img d' = splice_at (img d) (b * block_size dev) (take (block_size dev * n) src)"
begin

abbreviation bs :: nat where "bs \<equiv> block_size dev"

lemma bs_pos: "0 < bs"
  by (simp add: bs_pow2)

lemma blocks_small: "block_count dev * bs < 2 ^ 32 \<Longrightarrow> block_count dev < 2 ^ 32"
  using bs_pos by (cases bs) auto

lemma in_blocks:
  assumes "b * bs + m \<le> block_count dev * bs" and "bs * n \<le> m"
  shows "b + n \<le> block_count dev"
proof -
  have "(b + n) * bs \<le> b * bs + m" using assms(2) by (simp add: algebra_simps)
  then have "(b + n) * bs \<le> block_count dev * bs" using assms(1) by (rule order_trans)
  then show ?thesis using bs_pos by simp
qed

lemma read_block_ok:
  assumes "ok d" and "n = 0 \<or> b + n \<le> block_count dev" and "block_count dev * bs < 2 ^ 32"
  shows "\<exists>d'. bio_read_block dev d b n
      = (int (bs * n), slice_at (b * bs) (bs * n) (img d), d') \<and> ok d' \<and> img d' = img d"
proof (cases "n = 0")
  case True
  with assms show ?thesis by (simp add: bio_read_block_def)
next
  case False
  then have bn: "b + n \<le> block_count dev" using assms by simp
  then have "(b + n) * bs < 2 ^ 32"
    using assms(3) by (meson le_less_trans mult_le_mono1)
  with rdb_law [OF assms(1) _ bn] show ?thesis
    using False bn blocks_small [OF assms(3)]
    by (simp add: bio_read_block_def trim_block_range_in rdb_hook)
qed

lemma write_block_ok:
  assumes "ok d" and "n = 0 \<or> b + n \<le> block_count dev" and "block_count dev * bs < 2 ^ 32"
    and "bs * n \<le> length src"
  shows "\<exists>d'. bio_write_block dev d src b n = (int (bs * n), d') \<and> ok d'
      \<and> img d' = splice_at (img d) (b * bs) (take (bs * n) src)"
proof (cases "n = 0")
  case True
  with assms show ?thesis by (simp add: bio_write_block_def)
next
  case False
  then have bn: "b + n \<le> block_count dev" using assms by simp
  then have "(b + n) * bs < 2 ^ 32"
    using assms(3) by (meson le_less_trans mult_le_mono1)
  with wrb_law [OF assms(1) _ bn _ assms(4)] show ?thesis
    using False bn blocks_small [OF assms(3)]
    by (simp add: bio_write_block_def trim_block_range_in wrb_hook)
qed

lemma next_block:
  assumes "block_count dev * bs < 2 ^ 32" and "b * bs < block_count dev * bs"
  shows "add32 b 1 = b + 1" and "b + 1 \<le> block_count dev"
proof -
  show "b + 1 \<le> block_count dev" using assms(2) by simp
  then show "add32 b 1 = b + 1" using blocks_small [OF assms(1)] by (simp add: wrap_simps)
qed

lemma first_block_index:
  assumes "off < 2 ^ 32"
  shows "unat (divpow2 (word_of_nat off) (block_shift dev)) = off div bs"
  using assms by (simp add: unat_divpow2 unat_of_nat bs_pow2)

lemma read_first_ok:
  assumes "ok d" and small: "block_count dev * bs < 2 ^ 32"
    and rng: "off + len \<le> length (img d)" and buf: "len \<le> length buf" and "0 < len"
  shows "case read_first_block dev off (buf, 0, len, off div bs, d) of (err, st) \<Rightarrow>
    0 \<le> err \<and> read_inv bs img ok (img d) buf off len st"
proof (cases "off mod bs = 0")
  case True
  then show ?thesis
    using assms by (auto simp: read_first_block_def read_inv_def)
next
  case False
  let ?b = "off div bs"
  have ob: "off = ?b * bs + off mod bs" by simp
  have lim: "off < block_count dev * bs" using rng img_length [OF \<open>ok d\<close>] \<open>0 < len\<close> by simp
  have b1: "?b * bs < block_count dev * bs" using lim ob by linarith
  note nb = next_block [OF small b1]
  obtain d' where d': "bio_read_block dev d ?b 1 = (int bs, slice_at (?b * bs) bs (img d), d')"
      "ok d'" "img d' = img d"
    using read_block_ok [OF \<open>ok d\<close> _ small, of 1 ?b] nb by auto
  define t where "t = min (bs - off mod bs) len"
  have t: "off mod bs + t \<le> bs" "t \<le> len"
    using mod_less_divisor [OF bs_pos, of off] by (auto simp: t_def)
  have "slice_at (off mod bs) t (slice_at (?b * bs) bs (img d)) = slice_at off t (img d)"
    using slice_slice [OF t(1), of "?b * bs" "img d"] by simp
  moreover have "0 < len - t \<longrightarrow> (?b + 1) * bs = off + t"
  proof -
    have "(?b + 1) * bs = ?b * bs + bs" by simp
    then have "(?b + 1) * bs = off + (bs - off mod bs)"
      using ob mod_less_divisor [OF bs_pos, of off] by linarith
    then show ?thesis by (auto simp: t_def min_def)
  qed
  ultimately show ?thesis
    using False d' t(2) nb(1)
    by (simp add: read_first_block_def read_inv_def Let_def t_def [symmetric])
qed

lemma read_middle_temp_ok:
  assumes "read_inv bs img ok I buf off len st" and "0 \<le> err"
    and small: "block_count dev * bs < 2 ^ 32" and I: "length I = block_count dev * bs"
    and rng: "off + len \<le> length I" and buf: "len \<le> length buf"
  shows "case read_middle_temp dev err st of (err', (buf', pos, rest, block, d)) \<Rightarrow>
    0 \<le> err' \<and> rest < bs \<and> read_inv bs img ok I buf off len (buf', pos, rest, block, d)"
  using assms(1,2)
proof (induction dev' \<equiv> dev err st rule: read_middle_temp.induct)
  case (1 err buf' pos rest block d)
  show ?case
  proof (cases "bs \<le> rest")
    case False
    with 1(2,3) show ?thesis by (simp add: not_le)
  next
    case True
    have st: "pos + rest = len" "buf' = splice_at buf 0 (slice_at off pos I)" "ok d" "img d = I"
        "block * bs = off + pos"
      using 1(2) True bs_pos by (auto simp: read_inv_def)
    have "block * bs < block_count dev * bs" using st(1,5) True rng I bs_pos by linarith
    note nb = next_block [OF small this]
    obtain d' where d': "bio_read_block dev d block 1 = (int bs, slice_at (off + pos) bs I, d')"
        "ok d'" "img d' = I"
      using read_block_ok [OF st(3) _ small, of 1 block] nb st(4,5) by auto
    have s0: "slice_at 0 bs (slice_at (off + pos) bs I) = slice_at (off + pos) bs I"
      by (simp add: slice_slice)
    have inv: "read_inv bs img ok I buf off len
        (splice_at buf' pos (slice_at 0 bs (slice_at (off + pos) bs I)),
         pos + bs, rest - bs, add32 block 1, d')"
      using st d' True rng buf nb(1)
      by (simp add: read_inv_def s0 advance_read algebra_simps)
    show ?thesis
      using 1(1) [OF _ d'(1) [symmetric] refl refl _ inv] True bs_pos d'(1) by simp
  qed
qed

lemma read_middle_direct_ok:
  assumes "read_inv bs img ok I buf off len st"
    and small: "block_count dev * bs < 2 ^ 32" and I: "length I = block_count dev * bs"
    and rng: "off + len \<le> length I" and buf: "len \<le> length buf"
  shows "case read_middle_direct dev st of (err', (buf', pos, rest, block, d)) \<Rightarrow>
    0 \<le> err' \<and> rest < bs \<and> read_inv bs img ok I buf off len (buf', pos, rest, block, d)"
proof -
  obtain buf' pos rest block d where st: "st = (buf', pos, rest, block, d)"
    by (cases st)
  have inv: "pos + rest = len" "buf' = splice_at buf 0 (slice_at off pos I)" "ok d" "img d = I"
      "0 < rest \<longrightarrow> block * bs = off + pos"
    using assms(1) by (auto simp: read_inv_def st)
  let ?n = "rest div bs"
  have "rest < 2 ^ 32" using inv(1) rng I small by linarith
  then have n: "unat (divpow2 (word_of_nat rest) (block_shift dev)) = ?n"
    by (rule first_block_index)
  have nr: "bs * ?n \<le> rest" by simp
  have bn: "?n = 0 \<or> (block * bs = off + pos \<and> block + ?n \<le> block_count dev)"
  proof (cases "rest = 0")
    case False
    then have "block * bs = off + pos" using inv by simp
    moreover have "block * bs + rest \<le> block_count dev * bs" using calculation inv(1) rng I by linarith
    ultimately show ?thesis using in_blocks [OF _ nr] by blast
  qed simp
  obtain d' where d': "bio_read_block dev d block ?n
      = (int (bs * ?n), slice_at (block * bs) (bs * ?n) I, d')" "ok d'" "img d' = I"
    using read_block_ok [OF inv(3) _ small, of ?n block] bn inv(4) by auto
  have ad: "splice_at buf' pos (slice_at (block * bs) (bs * ?n) I)
      = splice_at buf 0 (slice_at off (pos + bs * ?n) I)"
  proof (cases "?n = 0")
    case False
    then have "block * bs = off + pos" using bn by simp
    moreover have "pos + bs * ?n \<le> length buf" "off + pos + bs * ?n \<le> length I"
      using nr inv(1) rng buf by linarith+
    ultimately show ?thesis by (simp only: inv(2) advance_read)
  qed (simp add: inv)
  have nx: "0 < rest - bs * ?n \<longrightarrow> add32 block ?n * bs = off + (pos + bs * ?n)"
  proof (cases "rest = 0")
    case False
    then have "block * bs = off + pos" using inv by simp
    moreover have "block + ?n \<le> block_count dev"
      using in_blocks [OF _ nr, of block] calculation inv(1) rng I by linarith
    ultimately show ?thesis using blocks_small [OF small]
      by (simp add: wrap_simps algebra_simps)
  qed simp
  have rm: "rest - bs * ?n < bs"
    using bs_pos by (simp add: minus_mult_div_eq_mod)
  show ?thesis
    using inv(1) nr d' ad nx rm
    by (simp add: st read_middle_direct_def n Let_def read_inv_def del: of_nat_mult)
qed

lemma read_last_ok:
  assumes "read_inv bs img ok I buf off len (buf', pos, rest, block, d)" and "rest < bs"
    and "0 \<le> err" and small: "block_count dev * bs < 2 ^ 32"
    and I: "length I = block_count dev * bs"
    and rng: "off + len \<le> length I" and buf: "len \<le> length buf"
  shows "case read_last_block dev err (buf', pos, rest, block, d) of
      (err', (buf'', pos'', rest'', block'', d'')) \<Rightarrow>
    0 \<le> err' \<and> pos'' = len \<and> buf'' = splice_at buf 0 (slice_at off len I) \<and> ok d'' \<and> img d'' = I"
proof (cases "rest = 0")
  case True
  with assms(1,3) show ?thesis by (auto simp: read_last_block_def read_inv_def)
next
  case False
  have st: "pos + rest = len" "buf' = splice_at buf 0 (slice_at off pos I)" "ok d" "img d = I"
      "block * bs = off + pos"
    using assms(1) False by (auto simp: read_inv_def)
  have "block * bs < block_count dev * bs" using st(1,5) False rng I by linarith
  note nb = next_block [OF small this]
  obtain d' where d': "bio_read_block dev d block 1 = (int bs, slice_at (off + pos) bs I, d')"
      "ok d'" "img d' = I"
    using read_block_ok [OF st(3) _ small, of 1 block] nb st(4,5) by auto
  have "slice_at 0 rest (slice_at (off + pos) bs I) = slice_at (off + pos) rest I"
    using slice_slice [of 0 rest bs "off + pos" I] assms(2) by simp
  then show ?thesis
    using False st d' rng buf by (simp add: read_last_block_def Let_def advance_read)
qed

lemma default_read_ok:
  assumes "ok d" and small: "block_count dev * bs < 2 ^ 32"
    and rng: "off + len \<le> length (img d)" and buf: "len \<le> length buf" and "0 < len"
  shows "\<exists>d'. bio_default_read dev addr buf d off len
      = (int len, splice_at buf 0 (slice_at off len (img d)), d') \<and> ok d' \<and> img d' = img d"
proof -
  let ?I = "img d"
  have I: "length ?I = block_count dev * bs" using img_length [OF \<open>ok d\<close>] .
  have "off < 2 ^ 32" using rng I small \<open>0 < len\<close> by linarith
  note b0 = first_block_index [OF this]
  obtain e1 buf1 pos1 len1 blk1 d1
    where p1: "read_first_block dev off (buf, 0, len, off div bs, d) = (e1, (buf1, pos1, len1, blk1, d1))"
    by (metis prod_cases5)
  have i1: "0 \<le> e1" "read_inv bs img ok ?I buf off len (buf1, pos1, len1, blk1, d1)"
    using read_first_ok [OF assms] p1 by auto
  define mid where "mid = (if flags dev AND BIO_FLAG_CACHE_ALIGNED_READS \<noteq> 0
      \<and> \<not> is_aligned (addr + pos1) CACHE_LINE
    then read_middle_temp dev e1 (buf1, pos1, len1, blk1, d1)
    else read_middle_direct dev (buf1, pos1, len1, blk1, d1))"
  obtain e2 buf2 pos2 len2 blk2 d2 where p2: "mid = (e2, (buf2, pos2, len2, blk2, d2))"
    by (metis prod_cases5 prod.exhaust)
  have i2: "0 \<le> e2" "len2 < bs" "read_inv bs img ok ?I buf off len (buf2, pos2, len2, blk2, d2)"
    using read_middle_temp_ok [OF i1(2,1) small I rng buf]
      read_middle_direct_ok [OF i1(2) small I rng buf] p2
    by (auto simp: mid_def split: if_splits)
  show ?thesis
    using read_last_ok [OF i2(3,2,1) small I rng buf] i1(1) i2(1)
    by (auto simp: bio_default_read_def b0 p1 Let_def mid_def [symmetric] p2 split: prod.splits)
qed

lemma bio_read_ok:
  assumes "ok d" and dflt: "read_hook dev = Default" and small: "block_count dev * bs < 2 ^ 32"
    and rng: "off + len \<le> length (img d)" and buf: "len \<le> length buf"
  shows "\<exists>d'. bio_read dev addr buf d (int off) len
      = (int len, splice_at buf 0 (slice_at off len (img d)), d') \<and> ok d' \<and> img d' = img d"
proof (cases "len = 0")
  case True
  then show ?thesis using \<open>ok d\<close> by (simp add: bio_read_def bio_trim_range_def)
next
  case False
  have "int off + int len \<le> total_size dev"
    using rng img_length [OF \<open>ok d\<close>] by (simp add: total flip: of_nat_add of_nat_mult)
  moreover have "total_size dev < 2 ^ 63" using small by (simp add: total flip: of_nat_mult)
  ultimately have "bio_trim_range dev (int off) len = len"
    using False by (intro trim_range_in) simp_all
  then show ?thesis
    using default_read_ok [OF \<open>ok d\<close> small rng buf] False by (simp add: bio_read_def dflt)
qed

lemma write_back_ok:
  assumes "ok d" and small: "block_count dev * bs < 2 ^ 32"
    and b: "b * bs < block_count dev * bs" and p: "p + length ys \<le> bs"
  shows "\<exists>d'. bio_write_block dev d (splice_at (slice_at (b * bs) bs (img d)) p ys) b 1
      = (int bs, d') \<and> ok d' \<and> img d' = splice_at (img d) (b * bs + p) ys"
proof -
  have I: "length (img d) = block_count dev * bs" using img_length [OF \<open>ok d\<close>] .
  note nb = next_block [OF small b]
  have "(b + 1) * bs \<le> block_count dev * bs" using nb(2) by (rule mult_le_mono1)
  then have bI: "b * bs + bs \<le> length (img d)" using I by simp
  let ?t = "splice_at (slice_at (b * bs) bs (img d)) p ys"
  have lt: "length ?t = bs" using p bI by (simp add: length_splice)
  show ?thesis
    using write_block_ok [OF \<open>ok d\<close> _ small, of 1 b ?t] nb(2) lt splice_rmw [OF p bI] by auto
qed

lemma write_first_ok:
  assumes "ok d" and small: "block_count dev * bs < 2 ^ 32"
    and rng: "off + len \<le> length (img d)" and src: "len \<le> length src" and "0 < len"
  shows "case write_first_block dev src off (0, len, off div bs, d) of (err, st) \<Rightarrow>
    0 \<le> err \<and> write_inv bs img ok (img d) src off len st"
proof (cases "off mod bs = 0")
  case True
  then show ?thesis
    using assms by (auto simp: write_first_block_def write_inv_def)
next
  case False
  let ?b = "off div bs"
  have ob: "off = ?b * bs + off mod bs" by simp
  have lim: "off < block_count dev * bs" using rng img_length [OF \<open>ok d\<close>] \<open>0 < len\<close> by simp
  have b1: "?b * bs < block_count dev * bs" using lim ob by linarith
  note nb = next_block [OF small b1]
  obtain d' where d': "bio_read_block dev d ?b 1 = (int bs, slice_at (?b * bs) bs (img d), d')"
      "ok d'" "img d' = img d"
    using read_block_ok [OF \<open>ok d\<close> _ small, of 1 ?b] nb by auto
  define t where "t = min (bs - off mod bs) len"
  have t: "off mod bs + t \<le> bs" "t \<le> len"
    using mod_less_divisor [OF bs_pos, of off] by (auto simp: t_def)
  have "length (slice_at 0 t src) = t" using t(2) src by simp
  then obtain d'' where d'': "bio_write_block dev d'
        (splice_at (slice_at (?b * bs) bs (img d)) (off mod bs) (slice_at 0 t src)) ?b 1 = (int bs, d'')"
      "ok d''" "img d'' = splice_at (img d) off (slice_at 0 t src)"
    using write_back_ok [OF d'(2) small b1, of "off mod bs" "slice_at 0 t src"] t(1) d'(3) by auto
  have "0 < len - t \<longrightarrow> (?b + 1) * bs = off + t"
  proof -
    have "(?b + 1) * bs = ?b * bs + bs" by simp
    then have "(?b + 1) * bs = off + (bs - off mod bs)"
      using ob mod_less_divisor [OF bs_pos, of off] by linarith
    then show ?thesis by (auto simp: t_def min_def)
  qed
  then show ?thesis
    using False d' d'' t(2) nb(1)
    by (simp add: write_first_block_def write_inv_def Let_def t_def [symmetric])
qed

lemma write_inv_length:
  "write_inv bs img ok I src off len (pos, rest, block, d) \<Longrightarrow> len \<le> length src \<Longrightarrow>
   off + len \<le> length I \<Longrightarrow> length (img d) = length I"
  by (auto simp: write_inv_def length_splice)

lemma write_middle_temp_ok:
  assumes "write_inv bs img ok I src off len st" and "0 \<le> err"
    and small: "block_count dev * bs < 2 ^ 32" and I: "length I = block_count dev * bs"
    and rng: "off + len \<le> length I" and src: "len \<le> length src"
  shows "case write_middle_temp dev src err st of (err', (pos, rest, block, d)) \<Rightarrow>
    0 \<le> err' \<and> rest < bs \<and> write_inv bs img ok I src off len (pos, rest, block, d)"
  using assms(1,2)
proof (induction dev' \<equiv> dev src' \<equiv> src err st rule: write_middle_temp.induct)
  case (1 err pos rest block d)
  show ?case
  proof (cases "bs \<le> rest")
    case False
    with 1(2,3) show ?thesis by (simp add: not_le)
  next
    case True
    have st: "pos + rest = len" "ok d" "img d = splice_at I off (slice_at 0 pos src)"
        "block * bs = off + pos"
      using 1(2) True bs_pos by (auto simp: write_inv_def)
    have "block * bs < block_count dev * bs" using st(1,4) True rng I bs_pos by linarith
    note nb = next_block [OF small this]
    have l: "bs \<le> length src - pos" using st(1) True src by linarith
    have "splice_at (img d) (off + pos) (slice_at pos bs src)
        = splice_at I off (slice_at 0 (pos + bs) src)"
      using st(1,3) True rng src by (simp add: advance_write)
    then obtain d' where d': "bio_write_block dev d (slice_at pos bs src) block 1 = (int bs, d')"
        "ok d'" "img d' = splice_at I off (slice_at 0 (pos + bs) src)"
      using write_block_ok [OF st(2) _ small, of 1 block "slice_at pos bs src"] nb(2) l st(4) by auto
    have inv: "write_inv bs img ok I src off len (pos + bs, rest - bs, add32 block 1, d')"
      using st(1,4) d'(2,3) True nb(1) by (simp add: write_inv_def algebra_simps)
    show ?thesis
      using 1(1) [OF _ d'(1) [symmetric] refl _ inv] True bs_pos d'(1) by simp
  qed
qed

lemma write_middle_direct_ok:
  assumes "write_inv bs img ok I src off len st"
    and small: "block_count dev * bs < 2 ^ 32" and I: "length I = block_count dev * bs"
    and rng: "off + len \<le> length I" and src: "len \<le> length src"
  shows "case write_middle_direct dev src st of (err', (pos, rest, block, d)) \<Rightarrow>
    0 \<le> err' \<and> rest < bs \<and> write_inv bs img ok I src off len (pos, rest, block, d)"
proof -
  obtain pos rest block d where st: "st = (pos, rest, block, d)" by (cases st)
  have inv: "pos + rest = len" "ok d" "img d = splice_at I off (slice_at 0 pos src)"
      "0 < rest \<longrightarrow> block * bs = off + pos"
    using assms(1) by (auto simp: write_inv_def st)
  let ?n = "rest div bs"
  have "rest < 2 ^ 32" using inv(1) rng I small by linarith
  then have n: "unat (divpow2 (word_of_nat rest) (block_shift dev)) = ?n"
    by (rule first_block_index)
  have nr: "bs * ?n \<le> rest" by simp
  have blk: "rest = 0 \<or> (block * bs = off + pos \<and> block + ?n \<le> block_count dev)"
    using inv(1,4) rng I in_blocks [OF _ nr, of block] by fastforce
  have "bs * ?n \<le> length (drop pos src)"
    using nr inv(1) src unfolding length_drop by linarith
  from write_block_ok [OF inv(2) _ small this, of block]
  obtain d' where d': "bio_write_block dev d (drop pos src) block ?n = (int (bs * ?n), d')" "ok d'"
      "img d' = splice_at (img d) (block * bs) (slice_at pos (bs * ?n) src)"
    using blk by (auto simp: slice_at_def)
  have ad: "img d' = splice_at I off (slice_at 0 (pos + bs * ?n) src)"
  proof (cases "rest = 0")
    case True
    then show ?thesis using d'(3) inv(3) by simp
  next
    case False
    then have "img d' = splice_at (img d) (off + pos) (slice_at pos (bs * ?n) src)"
      using blk d'(3) by simp
    moreover have "pos + bs * ?n \<le> length src" "off + pos + bs * ?n \<le> length I"
      using nr inv(1) rng src by linarith+
    ultimately show ?thesis by (simp only: inv(3) advance_write)
  qed
  have nx: "0 < rest - bs * ?n \<longrightarrow> add32 block ?n * bs = off + (pos + bs * ?n)"
    using blk blocks_small [OF small] by (auto simp: wrap_simps algebra_simps)
  have rm: "rest - bs * ?n < bs"
    using bs_pos by (simp add: minus_mult_div_eq_mod)
  show ?thesis
    using inv(1) nr d'(1,2) ad nx rm
    by (simp add: st write_middle_direct_def n Let_def write_inv_def del: of_nat_mult)
qed

lemma write_last_ok:
  assumes "write_inv bs img ok I src off len (pos, rest, block, d)" and "rest < bs"
    and "0 \<le> err" and small: "block_count dev * bs < 2 ^ 32"
    and I: "length I = block_count dev * bs"
    and rng: "off + len \<le> length I" and src: "len \<le> length src"
  shows "case write_last_block dev src err (pos, rest, block, d) of
      (err', (pos'', rest'', block'', d'')) \<Rightarrow>
    0 \<le> err' \<and> pos'' = len \<and> ok d'' \<and> img d'' = splice_at I off (slice_at 0 len src)"
proof (cases "rest = 0")
  case True
  with assms(1,3) show ?thesis by (auto simp: write_last_block_def write_inv_def)
next
  case False
  have st: "pos + rest = len" "ok d" "img d = splice_at I off (slice_at 0 pos src)"
      "block * bs = off + pos"
    using assms(1) False by (auto simp: write_inv_def)
  have b: "block * bs < block_count dev * bs" using st(1,4) False rng I by linarith
  note nb = next_block [OF small b]
  obtain d' where d': "bio_read_block dev d block 1 = (int bs, slice_at (block * bs) bs (img d), d')"
      "ok d'" "img d' = img d"
    using read_block_ok [OF st(2) _ small, of 1 block] nb by auto
  have "length (slice_at pos rest src) = rest" using st(1) src by simp
  then obtain d'' where d'': "bio_write_block dev d'
        (splice_at (slice_at (block * bs) bs (img d)) 0 (slice_at pos rest src)) block 1 = (int bs, d'')"
      "ok d''" "img d'' = splice_at (img d) (off + pos) (slice_at pos rest src)"
    using write_back_ok [OF d'(2) small b, of 0 "slice_at pos rest src"] assms(2) d'(3) st(4) by auto
  have "img d'' = splice_at I off (slice_at 0 len src)"
    using d''(3) st(1) rng src advance_write [of pos rest src off I] by (simp add: st(3))
  then show ?thesis
    using False st(1) d' d'' by (simp add: write_last_block_def Let_def)
qed

lemma default_write_ok:
  assumes "ok d" and small: "block_count dev * bs < 2 ^ 32"
    and rng: "off + len \<le> length (img d)" and src: "len \<le> length src" and "0 < len"
  shows "\<exists>d'. bio_default_write dev addr d src off len = (int len, d') \<and> ok d'
      \<and> img d' = splice_at (img d) off (take len src)"
proof -
  let ?I = "img d"
  have I: "length ?I = block_count dev * bs" using img_length [OF \<open>ok d\<close>] .
  have "off < 2 ^ 32" using rng I small \<open>0 < len\<close> by linarith
  note b0 = first_block_index [OF this]
  obtain e1 pos1 len1 blk1 d1
    where p1: "write_first_block dev src off (0, len, off div bs, d) = (e1, (pos1, len1, blk1, d1))"
    by (rule prod_cases5)
  have i1: "0 \<le> e1" "write_inv bs img ok ?I src off len (pos1, len1, blk1, d1)"
    using write_first_ok [OF assms] p1 by auto
  define mid where "mid = (if flags dev AND BIO_FLAG_CACHE_ALIGNED_WRITES \<noteq> 0
      \<and> \<not> is_aligned (addr + pos1) CACHE_LINE
    then write_middle_temp dev src e1 (pos1, len1, blk1, d1)
    else write_middle_direct dev src (pos1, len1, blk1, d1))"
  obtain e2 pos2 len2 blk2 d2 where p2: "mid = (e2, (pos2, len2, blk2, d2))"
    by (rule prod_cases5)
  have i2: "0 \<le> e2" "len2 < bs" "write_inv bs img ok ?I src off len (pos2, len2, blk2, d2)"
    using write_middle_temp_ok [OF i1(2,1) small I rng src]
      write_middle_direct_ok [OF i1(2) small I rng src] p2
    by (auto simp: mid_def split: if_splits)
  show ?thesis
    using write_last_ok [OF i2(3,2,1) small I rng src] i1(1) i2(1)
    by (auto simp: bio_default_write_def b0 p1 Let_def mid_def [symmetric] p2 slice_at_def
        split: prod.splits)
qed

lemma bio_write_ok:
  assumes "ok d" and dflt: "write_hook dev = Default" and small: "block_count dev * bs < 2 ^ 32"
    and rng: "off + len \<le> length (img d)" and src: "len \<le> length src"
  shows "\<exists>d'. bio_write dev addr d src (int off) len = (int len, d') \<and> ok d'
      \<and> img d' = splice_at (img d) off (take len src)"
proof (cases "len = 0")
  case True
  then show ?thesis using \<open>ok d\<close> by (simp add: bio_write_def bio_trim_range_def)
next
  case False
  have "int off + int len \<le> total_size dev"
    using rng img_length [OF \<open>ok d\<close>] by (simp add: total flip: of_nat_add of_nat_mult)
  moreover have "total_size dev < 2 ^ 63" using small by (simp add: total flip: of_nat_mult)
  ultimately have "bio_trim_range dev (int off) len = len"
    using False by (intro trim_range_in) simp_all
  then show ?thesis
    using default_write_ok [OF \<open>ok d\<close> small rng src] False by (simp add: bio_write_def dflt)
qed

lemma erase_loop_ok:
  assumes "ok d" and "write_hook dev = Default" and "block_count dev * bs < 2 ^ 32"
    and "off + rem \<le> length (img d)"
  shows "\<exists>d'. bio_erase_loop dev addr (replicate bs v) d erased (int off) rem
      = Some (erased + int rem, d') \<and> ok d' \<and> img d' = splice_at (img d) off (replicate rem v)"
  using assms(1,4)
proof (induction rem arbitrary: d off erased rule: less_induct)
  case (less rem)
  show ?case
  proof (cases "rem = 0")
    case True
    with less.prems show ?thesis by (simp add: bio_erase_loop.simps)
  next
    case False
    define t where "t = min rem bs"
    have t: "0 < t" "t \<le> rem" "t \<le> bs" using False bs_pos by (auto simp: t_def)
    obtain d1 where d1: "bio_write dev addr d (replicate bs v) (int off) t = (int t, d1)" "ok d1"
        "img d1 = splice_at (img d) off (replicate t v)"
      using bio_write_ok [OF less.prems(1) assms(2,3), of off t "replicate bs v"] less.prems(2) t
      by (auto simp: min_def)
    have len1: "length (img d1) = length (img d)"
      using d1(3) less.prems(2) t(2) by (simp add: length_splice)
    then have "off + t + (rem - t) \<le> length (img d1)" using less.prems(2) t(2) by simp
    from less.IH [OF _ d1(2) this, of "erased + int t"] t
    obtain d' where d': "bio_erase_loop dev addr (replicate bs v) d1 (erased + int t)
          (int (off + t)) (rem - t) = Some (erased + int t + int (rem - t), d')" "ok d'"
        "img d' = splice_at (img d1) (off + t) (replicate (rem - t) v)"
      by auto
    have "img d' = splice_at (img d) off (replicate t v @ replicate (rem - t) v)"
      using d'(3) d1(3) less.prems(2) t(2) splice_append [of off "replicate t v" _ "img d"] by simp
    then have img: "img d' = splice_at (img d) off (replicate rem v)"
      using t(2) by (simp flip: replicate_add)
    have "rem < 2 ^ 64" using less.prems(2) img_length [OF less.prems(1)] assms(3) by simp
    then have "sub64 rem t = rem - t" using t(2) by (simp add: wrap_simps)
    then show ?thesis
      using False d1(1) d'(1,2) img t
      by (simp add: bio_erase_loop.simps [of dev addr _ d] t_def [symmetric])
  qed
qed

lemma bio_erase_ok:
  assumes "ok d" and "write_hook dev = Default" and "erase_hook dev = Default"
    and small: "block_count dev * bs < 2 ^ 32" and rng: "off + len \<le> length (img d)"
  shows "\<exists>d'. bio_erase dev addr d (int off) len = Some (int len, d') \<and> ok d'
      \<and> img d' = splice_at (img d) off (replicate len (erase_byte dev))"
proof (cases "len = 0")
  case True
  then show ?thesis using \<open>ok d\<close> by (simp add: bio_erase_def bio_trim_range_def)
next
  case False
  have "int off + int len \<le> total_size dev"
    using rng img_length [OF \<open>ok d\<close>] by (simp add: total flip: of_nat_add of_nat_mult)
  moreover have "total_size dev < 2 ^ 63" using small by (simp add: total flip: of_nat_mult)
  ultimately have "bio_trim_range dev (int off) len = len"
    using False by (intro trim_range_in) simp_all
  then show ?thesis
    using erase_loop_ok [OF assms(1,2,4,5), of addr "erase_byte dev" 0] False
    by (simp add: bio_erase_def assms(3) bio_default_erase_def)
qed

end

end
