(* ===== verification/Bio_New_Correct.thy ===== *)
theory Bio_New_Correct
  imports Bio_New Bio_Correct
begin

text \<open>
  Correctness of the sector-granular path. The interface to a driver is the locale
  \<open>native_device\<close>: its native hooks move, or erase, whole native blocks of an image. The
  lemmas of the locale show that a read of \<open>count\<close> 512-byte blocks returns exactly that
  range, that a write replaces exactly that range, and that an erase touches nothing
  outside it, whatever the alignment of the request.
\<close>

locale native_device =
  fixes dev :: "'d bdev"
    and img :: "'d \<Rightarrow> byte list"
    and ok :: "'d \<Rightarrow> bool"
  assumes nb_pos: "0 < native_blocks dev"
    and bs_user: "block_size dev = native_blocks dev * 512"
    and max_dvd: "native_blocks dev dvd max_blkcnt dev"
    and max_small: "max_blkcnt dev * 512 < 2 ^ 32"
    and size_small: "block_count dev * native_blocks dev < 2 ^ 32"
    and img_len: "ok d \<Longrightarrow> length (img d) = block_count dev * block_size dev"
    and read_law: "ok d \<Longrightarrow> 0 < n \<Longrightarrow> b + n \<le> block_count dev \<Longrightarrow>
      n * native_blocks dev \<le> max_blkcnt dev \<Longrightarrow>
      \<exists>d'. new_read_native dev d b n
          = (0, slice_at (b * block_size dev) (n * block_size dev) (img d), d')
        \<and> ok d' \<and> img d' = img d"
    and write_law: "ok d \<Longrightarrow> 0 < n \<Longrightarrow> b + n \<le> block_count dev \<Longrightarrow>
      n * native_blocks dev \<le> max_blkcnt dev \<Longrightarrow> n * block_size dev \<le> length src \<Longrightarrow>
      \<exists>d'. new_write_native dev d src b n = (0, d') \<and> ok d'
        \<and> img d' = splice_at (img d) (b * block_size dev) (take (n * block_size dev) src)"
    and erase_law: "ok d \<Longrightarrow> 0 < n \<Longrightarrow> b + n \<le> block_count dev \<Longrightarrow>
      \<exists>d' es. new_erase_native dev d b n = (0, d') \<and> ok d'
        \<and> length es = n * block_size dev
        \<and> img d' = splice_at (img d) (b * block_size dev) es"
begin

abbreviation nb :: nat where "nb \<equiv> native_blocks dev"

abbreviation user_blocks :: nat where "user_blocks \<equiv> block_count dev * nb"

lemma img_user: "ok d \<Longrightarrow> length (img d) = user_blocks * 512"
  by (simp add: img_len bs_user)

lemma nb_le_max: "nb \<le> max_blkcnt dev"
  by (rule dvd_imp_le [OF max_dvd]) (simp add: max_blkcnt_def)

lemma nb_small: "nb * 512 < 2 ^ 32"
  using nb_le_max max_small by (meson le_less_trans mult_le_mono1)

text \<open>The native hooks in user blocks, for requests aligned to native blocks.\<close>

lemma native_blocks_in:
  assumes "nb dvd block" and "nb dvd n" and "block + n \<le> user_blocks"
  shows "block div nb + n div nb \<le> block_count dev"
    and "block div nb * block_size dev = block * 512"
    and "n div nb * block_size dev = n * 512"
    and "n div nb * nb = n"
proof -
  obtain b m where b: "block = nb * b" and m: "n = nb * m" using assms(1,2) by (auto elim!: dvdE)
  have "nb * (b + m) \<le> nb * block_count dev" using assms(3) b m by (simp add: algebra_simps)
  then have "b + m \<le> block_count dev" using nb_pos by simp
  then show "block div nb + n div nb \<le> block_count dev" using b m nb_pos by simp
qed (use assms nb_pos in \<open>simp_all add: bs_user flip: mult.assoc\<close>)

lemma native_read:
  assumes "ok d" and "nb dvd block" and "nb dvd n" and "0 < n" and "block + n \<le> user_blocks"
    and "n \<le> max_blkcnt dev"
  shows "\<exists>d'. new_read_native dev d (block div nb) (n div nb)
      = (0, slice_at (block * 512) (n * 512) (img d), d') \<and> ok d' \<and> img d' = img d"
proof -
  have "0 < n div nb" using assms(3,4) nb_pos by (auto simp: div_greater_zero_iff dvd_imp_le)
  with read_law [OF assms(1), of "n div nb" "block div nb"] show ?thesis
    using native_blocks_in [OF assms(2,3,5)] assms(6) by simp
qed

lemma native_write:
  assumes "ok d" and "nb dvd block" and "nb dvd n" and "0 < n" and "block + n \<le> user_blocks"
    and "n \<le> max_blkcnt dev" and "n * 512 \<le> length src"
  shows "\<exists>d'. new_write_native dev d src (block div nb) (n div nb) = (0, d') \<and> ok d'
      \<and> img d' = splice_at (img d) (block * 512) (take (n * 512) src)"
proof -
  have "0 < n div nb" using assms(3,4) nb_pos by (auto simp: div_greater_zero_iff dvd_imp_le)
  with write_law [OF assms(1), of "n div nb" "block div nb" src] show ?thesis
    using native_blocks_in [OF assms(2,3,5)] assms(6,7) by simp
qed

lemma native_erase:
  assumes "ok d" and "nb dvd block" and "nb dvd n" and "0 < n" and "block + n \<le> user_blocks"
  shows "\<exists>d' es. new_erase_native dev d (block div nb) (n div nb) = (0, d') \<and> ok d'
      \<and> length es = n * 512 \<and> img d' = splice_at (img d) (block * 512) es"
proof -
  have "0 < n div nb" using assms(3,4) nb_pos by (auto simp: div_greater_zero_iff dvd_imp_le)
  with erase_law [OF assms(1), of "n div nb" "block div nb"] show ?thesis
    using native_blocks_in [OF assms(2,3,5)] by simp
qed

lemma native_read1:
  assumes "ok d" and "nb dvd block" and "block + nb \<le> user_blocks"
  shows "\<exists>d'. new_read_native dev d (block div nb) 1
      = (0, slice_at (block * 512) (nb * 512) (img d), d') \<and> ok d' \<and> img d' = img d"
  using native_read [OF assms(1,2) dvd_refl nb_pos assms(3) nb_le_max] nb_pos by simp

lemma native_write1:
  assumes "ok d" and "nb dvd block" and "block + nb \<le> user_blocks" and "length src = nb * 512"
  shows "\<exists>d'. new_write_native dev d src (block div nb) 1 = (0, d') \<and> ok d'
      \<and> img d' = splice_at (img d) (block * 512) src"
  using native_write [OF assms(1,2) dvd_refl nb_pos assms(3) nb_le_max, of src] assms(4) nb_pos
  by simp

text \<open>The arithmetic of a partial first block.\<close>

lemma partial_first:
  assumes "blk < user_blocks"
  shows "mul32 (blk div nb) nb = blk div nb * nb" and "blk div nb * nb \<le> blk"
    and "blk < blk div nb * nb + nb" and "blk div nb * nb + nb \<le> user_blocks"
    and "add32 (blk div nb * nb) nb = blk div nb * nb + nb"
    and "sub32 blk (blk div nb * nb) = blk - blk div nb * nb"
    and "sub32 (blk div nb * nb + nb) blk = blk div nb * nb + nb - blk"
proof -
  show le: "blk div nb * nb \<le> blk" by simp
  show "blk < blk div nb * nb + nb" using dividend_less_div_times [OF nb_pos] by (simp add: add.commute)
  have "blk div nb < block_count dev" using assms nb_pos by (simp add: div_less_iff_less_mult)
  then have "(blk div nb + 1) * nb \<le> user_blocks" by (intro mult_le_mono1) simp
  then show up: "blk div nb * nb + nb \<le> user_blocks" by simp
  show "mul32 (blk div nb) nb = blk div nb * nb" using up size_small by (intro mul32_id) linarith
  show "add32 (blk div nb * nb) nb = blk div nb * nb + nb"
    using up size_small by (intro add32_id) linarith
  show "sub32 blk (blk div nb * nb) = blk - blk div nb * nb"
    using le assms size_small by (intro sub32_id) linarith+
  show "sub32 (blk div nb * nb + nb) blk = blk div nb * nb + nb - blk"
    using \<open>blk < blk div nb * nb + nb\<close> up size_small by (intro sub32_id) linarith+
qed

lemma block_per_time_ok:
  assumes "nb \<le> rest"
  shows "0 < block_per_time dev rest" and "block_per_time dev rest \<le> rest"
    and "nb dvd block_per_time dev rest" and "block_per_time dev rest \<le> max_blkcnt dev"
    and "mul32 (block_per_time dev rest) 512 = block_per_time dev rest * 512"
proof -
  show "0 < block_per_time dev rest" "block_per_time dev rest \<le> rest"
    using block_per_time_bounds [OF nb_pos assms] by auto
  show "nb dvd block_per_time dev rest" using max_dvd by (simp add: block_per_time_def Let_def)
  show le: "block_per_time dev rest \<le> max_blkcnt dev" by (simp add: block_per_time_def Let_def)
  show "mul32 (block_per_time dev rest) 512 = block_per_time dev rest * 512"
    using le max_small by (intro mul32_id) linarith
qed

end

section \<open>Reading\<close>

definition nr_inv :: "nat \<Rightarrow> ('d \<Rightarrow> byte list) \<Rightarrow> ('d \<Rightarrow> bool) \<Rightarrow> byte list \<Rightarrow> byte list
    \<Rightarrow> nat \<Rightarrow> nat \<Rightarrow> 'd nr_state \<Rightarrow> bool" where
  "nr_inv nb img ok I buf blk count st \<longleftrightarrow>
     (case st of (block, br, pos, buf', d) \<Rightarrow>
        br \<le> count \<and> pos = br * 512 \<and> buf' = splice_at buf 0 (slice_at (blk * 512) pos I)
        \<and> ok d \<and> img d = I \<and> (br < count \<longrightarrow> block = blk + br \<and> nb dvd block))"

context native_device
begin

lemma read_first_ok:
  assumes "ok d" and "0 < count" and "blk + count \<le> user_blocks" and "count * 512 \<le> length buf"
  shows "\<exists>st. new_read_first dev blk count buf d = (True, st)
      \<and> nr_inv nb img ok (img d) buf blk count st"
proof (cases "blk mod nb \<noteq> 0 \<or> count < nb")
  case True
  let ?b = "blk div nb * nb"
  let ?p = "min count (?b + nb - blk)"
  have blk: "blk < user_blocks" using assms(2,3) by simp
  note pf = partial_first [OF blk]
  obtain d' where rd: "new_read_native dev d (?b div nb) 1
      = (0, slice_at (?b * 512) (nb * 512) (img d), d')" "ok d'" "img d' = img d"
    using native_read1 [OF assms(1) _ pf(4)] by auto
  have m: "mul32 (blk - ?b) 512 = (blk - ?b) * 512" "mul32 ?p 512 = ?p * 512"
    using pf(2,3) nb_small by (intro mul32_id; linarith)+
  have sl: "slice_at ((blk - ?b) * 512) (?p * 512) (slice_at (?b * 512) (nb * 512) (img d))
      = slice_at (blk * 512) (?p * 512) (img d)"
  proof -
    have "?b * 512 + (blk - ?b) * 512 = blk * 512" using pf(2) by (simp flip: distrib_right)
    then show ?thesis using pf(2,3) by (subst slice_slice) auto
  qed
  have "new_read_first dev blk count buf d
      = (True, (?b + nb, ?p, ?p * 512, splice_at buf 0 (slice_at (blk * 512) (?p * 512) (img d)), d'))"
    using True rd(1) by (simp add: new_read_first_def pf m sl USER_BLOCK_SIZE_def Let_def)
  then show ?thesis using rd(2,3) pf by (auto simp: nr_inv_def)
next
  case False
  then show ?thesis using assms(1)
    by (auto simp: new_read_first_def nr_inv_def Let_def)
qed

lemma read_loop_ok:
  assumes "nr_inv nb img ok I buf blk count st" and "blk + count \<le> user_blocks"
    and "count * 512 \<le> length buf"
  shows "\<exists>st'. new_read_loop dev count st = (True, st')
      \<and> nr_inv nb img ok I buf blk count st'
      \<and> (case st' of (block, br, pos, buf', d) \<Rightarrow> count - br < nb)"
  using assms(1)
proof (induction "count - fst (snd st)" arbitrary: st rule: less_induct)
  case less
  obtain block br pos buf' d where st: "st = (block, br, pos, buf', d)" by (cases st) auto
  from less.prems have inv: "br \<le> count" "pos = br * 512" "ok d" "img d = I"
      "buf' = splice_at buf 0 (slice_at (blk * 512) pos I)"
      "br < count \<longrightarrow> block = blk + br \<and> nb dvd block"
    by (auto simp: nr_inv_def st)
  have rest: "sub32 count br = count - br"
    using inv(1) assms(2) size_small by (intro sub32_id) linarith+
  show ?case
  proof (cases "nb \<le> count - br")
    case True
    let ?n = "block_per_time dev (count - br)"
    note n = block_per_time_ok [OF True]
    have blk: "block = blk + br" "nb dvd block" using inv(6) n by auto
    have in_dev: "block + ?n \<le> user_blocks" using n(2) inv(1) blk(1) assms(2) by linarith
    obtain d' where rd: "new_read_native dev d (block div nb) (?n div nb)
        = (0, slice_at (block * 512) (?n * 512) I, d')" "ok d'" "img d' = I"
      using native_read [OF inv(3) blk(2) n(3,1) in_dev n(4)] inv(4) by auto
    have lenI: "length I = user_blocks * 512" using img_user [OF inv(3)] inv(4) by simp
    have buf: "splice_at buf' (br * 512) (slice_at (block * 512) (?n * 512) I)
        = splice_at buf 0 (slice_at (blk * 512) (br * 512 + ?n * 512) I)"
      using advance_read [of pos "?n * 512" buf "blk * 512" I] n(2) inv(1,2,5) blk(1) assms(2,3) lenI
      by (simp add: algebra_simps)
    let ?st = "(block + ?n, br + ?n, br * 512 + ?n * 512,
        splice_at buf 0 (slice_at (blk * 512) (br * 512 + ?n * 512) I), d')"
    have a: "add32 block ?n = block + ?n" "add32 br ?n = br + ?n"
      using n(2) inv(1) blk(1) assms(2) size_small by (intro add32_id; linarith)+
    have step: "new_read_loop dev count st = new_read_loop dev count ?st"
      unfolding st by (subst new_read_loop.simps)
        (use True rd(1) nb_pos in \<open>simp add: rest n(5) a buf inv(2) USER_BLOCK_SIZE_def
          Let_def\<close>)
    have "nr_inv nb img ok I buf blk count ?st"
      using n(2,3) inv(1) blk rd(2,3) by (auto simp: nr_inv_def)
    moreover have "count - (br + ?n) < count - br" using n(1,2) by simp
    ultimately show ?thesis using less.hyps [of ?st] by (simp only: step) (simp add: st)
  next
    case False
    then have "new_read_loop dev count st = (True, st)" by (simp add: st rest new_read_loop.simps)
    then show ?thesis using less.prems False by (auto simp: st)
  qed
qed

lemma read_last_ok:
  assumes "nr_inv nb img ok I buf blk count (block, br, pos, buf', d)" and "count - br < nb"
    and "blk + count \<le> user_blocks" and "count * 512 \<le> length buf"
  shows "\<exists>block' pos' d'. new_read_last dev count (block, br, pos, buf', d)
      = (block', count, pos', splice_at buf 0 (slice_at (blk * 512) (count * 512) I), d')
      \<and> ok d' \<and> img d' = I"
proof (cases "br = count")
  case True
  then have "sub32 count br = 0" by (simp add: sub32_self)
  with True show ?thesis using assms(1) by (simp add: nr_inv_def new_read_last_def)
next
  case False
  from assms(1) False have inv: "br < count" "pos = br * 512" "ok d" "img d = I"
      "buf' = splice_at buf 0 (slice_at (blk * 512) pos I)" "block = blk + br" "nb dvd block"
    by (auto simp: nr_inv_def)
  have rest: "sub32 count br = count - br"
    using inv(1) assms(3) size_small by (intro sub32_id) linarith+
  have blk: "block < user_blocks" using inv(1,6) assms(3) by simp
  have up: "block + nb \<le> user_blocks" using partial_first(4) [OF blk] inv(7) by simp
  obtain d' where rd: "new_read_native dev d (block div nb) 1
      = (0, slice_at (block * 512) (nb * 512) I, d')" "ok d'" "img d' = I"
    using native_read1 [OF inv(3,7) up] inv(4) by auto
  have m: "mul32 (count - br) 512 = (count - br) * 512"
    using assms(2) nb_small by (intro mul32_id) linarith
  have lenI: "length I = user_blocks * 512" using img_user [OF inv(3)] inv(4) by simp
  have buf: "splice_at buf' pos (slice_at 0 ((count - br) * 512) (slice_at (block * 512) (nb * 512) I))
      = splice_at buf 0 (slice_at (blk * 512) (count * 512) I)"
  proof -
    have "slice_at 0 ((count - br) * 512) (slice_at (block * 512) (nb * 512) I)
        = slice_at (blk * 512 + pos) ((count - br) * 512) I"
      using assms(2) inv(2,6) by (subst slice_slice) (auto simp: algebra_simps)
    moreover have "pos + (count - br) * 512 = count * 512" using inv(1,2) by simp
    ultimately show ?thesis
      using advance_read [of pos "(count - br) * 512" buf "blk * 512" I] assms(3,4) lenI inv(5)
      by simp
  qed
  have "add32 br (count - br) = count"
    using inv(1) assms(3) size_small by (subst add32_id) linarith+
  then show ?thesis
    using rd assms(2) inv(1)
    by (simp add: new_read_last_def rest m buf USER_BLOCK_SIZE_def Let_def)
qed

theorem new_read_ok:
  assumes "ok d" and "0 < count" and "blk + count \<le> user_blocks" and "count * 512 \<le> length buf"
    and "flags dev AND BIO_FLAG_CACHE_ALIGNED_READS = 0 \<or> is_aligned addr CACHE_LINE"
  shows "\<exists>d'. bio_new_read dev addr buf d blk count
      = (count, splice_at buf 0 (slice_at (blk * 512) (count * 512) (img d)), d')
      \<and> ok d' \<and> img d' = img d"
proof -
  obtain st where st: "new_read_first dev blk count buf d = (True, st)"
      "nr_inv nb img ok (img d) buf blk count st"
    using read_first_ok [OF assms(1-4)] by auto
  obtain block br pos buf' d1 where lp: "new_read_loop dev count st = (True, (block, br, pos, buf', d1))"
      "nr_inv nb img ok (img d) buf blk count (block, br, pos, buf', d1)" "count - br < nb"
    using read_loop_ok [OF st(2) assms(3,4)] by auto
  obtain block' pos' d' where "new_read_last dev count (block, br, pos, buf', d1)
      = (block', count, pos', splice_at buf 0 (slice_at (blk * 512) (count * 512) (img d)), d')"
      "ok d'" "img d' = img d"
    using read_last_ok [OF lp(2,3) assms(3,4)] by auto
  then show ?thesis using assms(5) by (auto simp: bio_new_read_def st lp)
qed

end

section \<open>Writing\<close>

definition nw_inv :: "nat \<Rightarrow> ('d \<Rightarrow> byte list) \<Rightarrow> ('d \<Rightarrow> bool) \<Rightarrow> byte list \<Rightarrow> byte list
    \<Rightarrow> nat \<Rightarrow> nat \<Rightarrow> 'd nw_state \<Rightarrow> bool" where
  "nw_inv nb img ok I src blk count st \<longleftrightarrow>
     (case st of (block, bw, pos, d) \<Rightarrow>
        bw \<le> count \<and> pos = bw * 512 \<and> ok d
        \<and> img d = splice_at I (blk * 512) (slice_at 0 pos src)
        \<and> (bw < count \<longrightarrow> block = blk + bw \<and> nb dvd block))"

context native_device
begin

text \<open>
  Read, modify, write of the native block at \<open>b\<close>: what the partial first and last blocks
  of a write and of an erase do.
\<close>

lemma native_rmw:
  assumes "ok d" and "nb dvd b" and "b + nb \<le> user_blocks" and "b \<le> blk"
    and "(blk - b) * 512 + length ys \<le> nb * 512"
  shows "\<exists>d'. new_read_native dev d (b div nb) 1
        = (0, slice_at (b * 512) (nb * 512) (img d), d') \<and>
      (\<exists>d''. new_write_native dev d'
          (splice_at (slice_at (b * 512) (nb * 512) (img d)) ((blk - b) * 512) ys) (b div nb) 1
          = (0, d'') \<and> ok d'' \<and> img d'' = splice_at (img d) (blk * 512) ys)"
proof -
  have len: "length (img d) = user_blocks * 512" by (rule img_user [OF assms(1)])
  obtain d' where rd: "new_read_native dev d (b div nb) 1
      = (0, slice_at (b * 512) (nb * 512) (img d), d')" "ok d'" "img d' = img d"
    using native_read1 [OF assms(1-3)] by auto
  let ?t = "splice_at (slice_at (b * 512) (nb * 512) (img d)) ((blk - b) * 512) ys"
  have sl: "length (slice_at (b * 512) (nb * 512) (img d)) = nb * 512"
    using assms(3) len by (simp add: min_def)
  then have "length ?t = nb * 512" using assms(5) by (subst length_splice) auto
  then obtain d'' where wr: "new_write_native dev d' ?t (b div nb) 1 = (0, d'')" "ok d''"
      "img d'' = splice_at (img d) (b * 512) ?t"
    using native_write1 [OF rd(2) assms(2,3)] rd(3) by auto
  have "splice_at (img d) (b * 512) ?t = splice_at (img d) (b * 512 + (blk - b) * 512) ys"
    using assms(3,5) len by (intro splice_rmw) auto
  moreover have "b * 512 + (blk - b) * 512 = blk * 512" using assms(4) by simp
  ultimately show ?thesis using rd wr by auto
qed

lemma write_first_ok:
  assumes "ok d" and "blk + count \<le> user_blocks" and "count * 512 \<le> length src"
  shows "\<exists>st. new_write_first dev src blk count d = (True, st)
      \<and> nw_inv nb img ok (img d) src blk count st"
proof (cases "blk mod nb \<noteq> 0")
  case True
  let ?b = "blk div nb * nb"
  let ?p = "min count (?b + nb - blk)"
  have "blk \<noteq> user_blocks" using True by auto
  then have blk: "blk < user_blocks" using assms(2) by simp
  note pf = partial_first [OF blk]
  have m: "mul32 (blk - ?b) 512 = (blk - ?b) * 512" "mul32 ?p 512 = ?p * 512"
    using pf(2,3) nb_small by (intro mul32_id; linarith)+
  have "blk - ?b + ?p \<le> nb" using pf(2,3) by linarith
  moreover have "length (slice_at 0 (?p * 512) src) \<le> ?p * 512" by simp
  ultimately have "(blk - ?b) * 512 + length (slice_at 0 (?p * 512) src) \<le> nb * 512"
    by linarith
  then obtain d' d'' where rd: "new_read_native dev d (?b div nb) 1
        = (0, slice_at (?b * 512) (nb * 512) (img d), d')"
    and wr: "new_write_native dev d' (splice_at (slice_at (?b * 512) (nb * 512) (img d))
          ((blk - ?b) * 512) (slice_at 0 (?p * 512) src)) (?b div nb) 1 = (0, d'')"
      "ok d''" "img d'' = splice_at (img d) (blk * 512) (slice_at 0 (?p * 512) src)"
    using native_rmw [OF assms(1) dvd_triv_right pf(4,2)] by blast
  have "new_write_first dev src blk count d = (True, (?b + nb, ?p, ?p * 512, d''))"
    using True rd wr(1) by (simp add: new_write_first_def pf m USER_BLOCK_SIZE_def Let_def)
  then show ?thesis using wr(2,3) pf by (auto simp: nw_inv_def)
next
  case False
  then show ?thesis using assms(1) by (auto simp: new_write_first_def nw_inv_def Let_def)
qed

lemma write_loop_ok:
  assumes "nw_inv nb img ok I src blk count st" and "blk + count \<le> user_blocks"
    and "count * 512 \<le> length src" and lenI: "length I = user_blocks * 512"
  shows "\<exists>st'. new_write_loop dev src count st = (True, st')
      \<and> nw_inv nb img ok I src blk count st'
      \<and> (case st' of (block, bw, pos, d) \<Rightarrow> count - bw < nb)"
  using assms(1)
proof (induction "count - fst (snd st)" arbitrary: st rule: less_induct)
  case less
  obtain block bw pos d where st: "st = (block, bw, pos, d)" by (cases st) auto
  from less.prems have inv: "bw \<le> count" "pos = bw * 512" "ok d"
      "img d = splice_at I (blk * 512) (slice_at 0 pos src)"
      "bw < count \<longrightarrow> block = blk + bw \<and> nb dvd block"
    by (auto simp: nw_inv_def st)
  have rest: "sub32 count bw = count - bw"
    using inv(1) assms(2) size_small by (intro sub32_id) linarith+
  show ?case
  proof (cases "nb \<le> count - bw")
    case True
    let ?n = "block_per_time dev (count - bw)"
    note n = block_per_time_ok [OF True]
    have blk: "block = blk + bw" "nb dvd block" using inv(5) n by auto
    have in_dev: "block + ?n \<le> user_blocks" using n(2) inv(1) blk(1) assms(2) by linarith
    have "?n * 512 \<le> length (drop (bw * 512) src)" using n(2) inv(1) assms(3) by simp
    then obtain d' where wr: "new_write_native dev d (drop (bw * 512) src) (block div nb) (?n div nb)
        = (0, d')" "ok d'" "img d' = splice_at (img d) (block * 512) (slice_at (bw * 512) (?n * 512) src)"
      using native_write [OF inv(3) blk(2) n(3,1) in_dev n(4), of "drop (bw * 512) src"]
      unfolding slice_at_def by blast
    have img: "img d' = splice_at I (blk * 512) (slice_at 0 (bw * 512 + ?n * 512) src)"
      using advance_write [of "bw * 512" "?n * 512" src "blk * 512" I] n(2) inv(1,2,4) blk(1)
        assms(2,3) lenI wr(3)
      by simp
    let ?st = "(block + ?n, bw + ?n, bw * 512 + ?n * 512, d')"
    have a: "add32 block ?n = block + ?n" "add32 bw ?n = bw + ?n"
      using n(2) inv(1) blk(1) assms(2) size_small by (intro add32_id; linarith)+
    have step: "new_write_loop dev src count st = new_write_loop dev src count ?st"
      unfolding st by (subst new_write_loop.simps)
        (use True wr(1) nb_pos in \<open>simp add: rest n(5) a inv(2) USER_BLOCK_SIZE_def Let_def\<close>)
    have "nw_inv nb img ok I src blk count ?st"
      using n(2,3) inv(1) blk wr(2) img by (auto simp: nw_inv_def)
    moreover have "count - (bw + ?n) < count - bw" using n(1,2) by simp
    ultimately show ?thesis using less.hyps [of ?st] by (simp only: step) (simp add: st)
  next
    case False
    then have "new_write_loop dev src count st = (True, st)"
      by (simp add: st rest new_write_loop.simps)
    then show ?thesis using less.prems False by (auto simp: st)
  qed
qed

lemma write_last_ok:
  assumes "nw_inv nb img ok I src blk count (block, bw, pos, d)" and "count - bw < nb"
    and "blk + count \<le> user_blocks" and "count * 512 \<le> length src"
    and lenI: "length I = user_blocks * 512"
  shows "\<exists>block' pos' d'. new_write_last dev src count (block, bw, pos, d) = (block', count, pos', d')
      \<and> ok d' \<and> img d' = splice_at I (blk * 512) (slice_at 0 (count * 512) src)"
proof (cases "bw = count")
  case True
  then have "sub32 count bw = 0" by (simp add: sub32_self)
  with True show ?thesis using assms(1) by (simp add: nw_inv_def new_write_last_def)
next
  case False
  from assms(1) False have inv: "bw < count" "pos = bw * 512" "ok d"
      "img d = splice_at I (blk * 512) (slice_at 0 pos src)" "block = blk + bw" "nb dvd block"
    by (auto simp: nw_inv_def)
  have rest: "sub32 count bw = count - bw"
    using inv(1) assms(3) size_small by (intro sub32_id) linarith+
  have blk: "block < user_blocks" using inv(1,5) assms(3) by simp
  have up: "block + nb \<le> user_blocks" using partial_first(4) [OF blk] inv(6) by simp
  have m: "mul32 (count - bw) 512 = (count - bw) * 512"
    using assms(2) nb_small by (intro mul32_id) linarith
  have "(block - block) * 512 + length (slice_at pos ((count - bw) * 512) src) \<le> nb * 512"
    using assms(2) by auto
  then obtain d' d'' where rd: "new_read_native dev d (block div nb) 1
        = (0, slice_at (block * 512) (nb * 512) (img d), d')"
    and wr: "new_write_native dev d' (splice_at (slice_at (block * 512) (nb * 512) (img d))
          0 (slice_at pos ((count - bw) * 512) src)) (block div nb) 1 = (0, d'')"
      "ok d''" "img d'' = splice_at (img d) (block * 512) (slice_at pos ((count - bw) * 512) src)"
    using native_rmw [OF inv(3,6) up order_refl] by force
  have "pos + (count - bw) * 512 = count * 512" using inv(1,2) by simp
  then have img: "img d'' = splice_at I (blk * 512) (slice_at 0 (count * 512) src)"
    using advance_write [of pos "(count - bw) * 512" src "blk * 512" I] assms(3,4) lenI
      inv(2,4,5) wr(3)
    by simp
  have "add32 bw (count - bw) = count"
    using inv(1) assms(3) size_small by (subst add32_id) linarith+
  then show ?thesis
    using rd wr(1,2) img assms(2) inv(1)
    by (simp add: new_write_last_def rest m USER_BLOCK_SIZE_def Let_def)
qed

theorem new_write_ok:
  assumes "ok d" and "blk + count \<le> user_blocks" and "count * 512 \<le> length src"
    and "flags dev AND BIO_FLAG_CACHE_ALIGNED_WRITES = 0 \<or> is_aligned addr CACHE_LINE"
  shows "\<exists>d'. bio_new_write dev addr d src blk count = (count, d') \<and> ok d'
      \<and> img d' = splice_at (img d) (blk * 512) (slice_at 0 (count * 512) src)"
proof -
  note lenI = img_user [OF assms(1)]
  obtain st where st: "new_write_first dev src blk count d = (True, st)"
      "nw_inv nb img ok (img d) src blk count st"
    using write_first_ok [OF assms(1-3)] by auto
  obtain block bw pos d1 where lp: "new_write_loop dev src count st = (True, (block, bw, pos, d1))"
      "nw_inv nb img ok (img d) src blk count (block, bw, pos, d1)" "count - bw < nb"
    using write_loop_ok [OF st(2) assms(2,3) lenI] by auto
  obtain block' pos' d' where "new_write_last dev src count (block, bw, pos, d1) = (block', count, pos', d')"
      "ok d'" "img d' = splice_at (img d) (blk * 512) (slice_at 0 (count * 512) src)"
    using write_last_ok [OF lp(2,3) assms(2,3) lenI] by auto
  then show ?thesis using assms(4) by (auto simp: bio_new_write_def st lp)
qed

end

section \<open>Erasing\<close>

text \<open>
  An erase leaves the erased range with some content of the right length (the medium
  decides what an erased native block reads as) and everything else as it was.
\<close>

definition ne_inv :: "nat \<Rightarrow> ('d \<Rightarrow> byte list) \<Rightarrow> ('d \<Rightarrow> bool) \<Rightarrow> byte list
    \<Rightarrow> nat \<Rightarrow> nat \<Rightarrow> 'd ne_state \<Rightarrow> bool" where
  "ne_inv nb img ok I blk count st \<longleftrightarrow>
     (case st of (block, be, d) \<Rightarrow>
        be \<le> count \<and> ok d \<and> (\<exists>es. length es = be * 512 \<and> img d = splice_at I (blk * 512) es)
        \<and> (be < count \<longrightarrow> block = blk + be \<and> nb dvd block))"

lemma erased_further:
  assumes "length es = be * 512" and "length zs = n * 512" and "(blk + be + n) * 512 \<le> length I"
  shows "\<exists>es'. length es' = (be + n) * 512 \<and>
    splice_at (splice_at I (blk * 512) es) ((blk + be) * 512) zs = splice_at I (blk * 512) es'"
  using assms splice_append [of "blk * 512" es zs I]
  by (intro exI [of _ "es @ zs"]) (simp add: algebra_simps)

context native_device
begin

lemma erase_unit_dvd: "nb dvd erase_unit dev"
  by (auto simp: erase_unit_def dvd_eq_mod_eq_0)

lemma erase_unit_pos: "0 < erase_unit dev"
  using nb_pos by (simp add: erase_unit_def)

lemma erase_first_ok:
  assumes "ok d" and "blk + count \<le> user_blocks"
  shows "\<exists>st. new_erase_first dev blk count d = (True, st) \<and> ne_inv nb img ok (img d) blk count st"
proof (cases "blk mod nb \<noteq> 0")
  case True
  let ?b = "blk div nb * nb"
  let ?p = "min count (?b + nb - blk)"
  have "blk \<noteq> user_blocks" using True by auto
  then have blk: "blk < user_blocks" using assms(2) by simp
  note pf = partial_first [OF blk]
  have m: "mul32 (blk - ?b) 512 = (blk - ?b) * 512" "mul32 ?p 512 = ?p * 512"
    using pf(2,3) nb_small by (intro mul32_id; linarith)+
  have "blk - ?b + ?p \<le> nb" using pf(2,3) by linarith
  then have "(blk - ?b) * 512 + length (replicate (?p * 512) (0 :: byte)) \<le> nb * 512"
    unfolding length_replicate by linarith
  from native_rmw [OF assms(1) dvd_triv_right pf(4,2) this]
  obtain d' d'' where rd: "new_read_native dev d (?b div nb) 1
        = (0, slice_at (?b * 512) (nb * 512) (img d), d')"
    and wr: "new_write_native dev d' (splice_at (slice_at (?b * 512) (nb * 512) (img d))
          ((blk - ?b) * 512) (replicate (?p * 512) 0)) (?b div nb) 1 = (0, d'')"
      "ok d''" "img d'' = splice_at (img d) (blk * 512) (replicate (?p * 512) 0)"
    by blast
  have "new_erase_first dev blk count d = (True, (?b + nb, ?p, d''))"
    using True rd wr(1) by (simp add: new_erase_first_def pf m USER_BLOCK_SIZE_def Let_def)
  moreover have "\<exists>es. length es = ?p * 512 \<and> img d'' = splice_at (img d) (blk * 512) es"
    using wr(3) by (intro exI [of _ "replicate (?p * 512) 0"] conjI length_replicate)
  moreover have "?p \<le> count" "?p < count \<longrightarrow> ?b + nb = blk + ?p" "nb dvd ?b + nb"
    using pf(3) by (simp_all add: min_def)
  ultimately show ?thesis using wr(2) unfolding ne_inv_def by blast
next
  case False
  then show ?thesis using assms(1)
    by (auto simp: new_erase_first_def ne_inv_def Let_def)
qed

lemma zero_step:
  assumes "ne_inv nb img ok I blk count (block, be, d)" and "be + nb \<le> count"
    and "blk + count \<le> user_blocks" and "length I = user_blocks * 512"
  shows "\<exists>d'. new_write_native dev d (replicate (block_size dev) 0) (block div nb) 1 = (0, d')
      \<and> ne_inv nb img ok I blk count (add32 block nb, add32 be nb, d')"
proof -
  from assms(1,2) nb_pos obtain es where inv: "ok d" "block = blk + be" "nb dvd block"
      "length es = be * 512" "img d = splice_at I (blk * 512) es"
    by (auto simp: ne_inv_def)
  have up: "block + nb \<le> user_blocks" using inv(2) assms(2,3) by linarith
  have a: "add32 block nb = block + nb" "add32 be nb = be + nb"
    using up inv(2) size_small by (intro add32_id; linarith)+
  obtain d' where wr: "new_write_native dev d (replicate (block_size dev) 0) (block div nb) 1 = (0, d')"
      "ok d'" "img d' = splice_at (img d) ((blk + be) * 512) (replicate (nb * 512) 0)"
    using native_write1 [OF inv(1,3) up, of "replicate (block_size dev) 0"] inv(2)
    by (auto simp: bs_user)
  have "(blk + be + nb) * 512 \<le> length I" using up inv(2) assms(4) by simp
  then have "\<exists>es'. length es' = (be + nb) * 512 \<and> img d' = splice_at I (blk * 512) es'"
    using erased_further [OF inv(4), of "replicate (nb * 512) 0" nb blk I] wr(3) inv(5) by simp
  then have "ne_inv nb img ok I blk count (block + nb, be + nb, d')"
    using wr(2) inv(2,3) assms(2) by (auto simp: ne_inv_def)
  then show ?thesis using wr(1) by (simp add: a)
qed

lemma zero_to_unit_ok:
  assumes "ne_inv nb img ok I blk count st" and "blk + count \<le> user_blocks"
    and "length I = user_blocks * 512" and "count + nb < 2 ^ 32"
  shows "\<exists>st'. zero_to_unit dev count st = Some st' \<and> ne_inv nb img ok I blk count st'"
  using assms(1)
proof (induction "count - fst (snd st)" arbitrary: st rule: less_induct)
  case less
  obtain block be d where st: "st = (block, be, d)" by (cases st) auto
  have be: "add32 be nb = be + nb"
    using less.prems assms(4) by (intro add32_id) (auto simp: ne_inv_def st)
  show ?case
  proof (cases "block mod erase_unit dev \<noteq> 0 \<and> be + nb \<le> count")
    case True
    then obtain d' where wr:
        "new_write_native dev d (replicate (block_size dev) 0) (block div nb) 1 = (0, d')"
        "ne_inv nb img ok I blk count (add32 block nb, add32 be nb, d')"
      using zero_step [OF less.prems [unfolded st] _ assms(2,3)] by blast
    have "zero_to_unit dev count st = zero_to_unit dev count (add32 block nb, add32 be nb, d')"
      by (subst zero_to_unit.simps) (use True wr(1) be in \<open>simp add: st\<close>)
    moreover have "count - (be + nb) < count - be" using True nb_pos by linarith
    ultimately show ?thesis using less.hyps [OF _ wr(2)] be by (simp add: st)
  next
    case False
    then have "zero_to_unit dev count st = Some st"
      by (subst zero_to_unit.simps) (auto simp: st be)
    then show ?thesis using less.prems by simp
  qed
qed

lemma zero_rest_ok:
  assumes "ne_inv nb img ok I blk count st" and "blk + count \<le> user_blocks"
    and "length I = user_blocks * 512" and "count + nb < 2 ^ 32"
  shows "\<exists>block be d. zero_rest dev count st = Some (block, be, d)
      \<and> ne_inv nb img ok I blk count (block, be, d) \<and> count < be + nb"
  using assms(1)
proof (induction "count - fst (snd st)" arbitrary: st rule: less_induct)
  case less
  obtain block be d where st: "st = (block, be, d)" by (cases st) auto
  have be: "add32 be nb = be + nb"
    using less.prems assms(4) by (intro add32_id) (auto simp: ne_inv_def st)
  show ?case
  proof (cases "be + nb \<le> count")
    case True
    then obtain d' where wr:
        "new_write_native dev d (replicate (block_size dev) 0) (block div nb) 1 = (0, d')"
        "ne_inv nb img ok I blk count (add32 block nb, add32 be nb, d')"
      using zero_step [OF less.prems [unfolded st] _ assms(2,3)] by blast
    have "zero_rest dev count st = zero_rest dev count (add32 block nb, add32 be nb, d')"
      by (subst zero_rest.simps) (use True wr(1) be in \<open>simp add: st\<close>)
    moreover have "count - (be + nb) < count - be" using True nb_pos by linarith
    ultimately show ?thesis using less.hyps [OF _ wr(2)] be by (simp add: st)
  next
    case False
    then have "zero_rest dev count st = Some st"
      by (subst zero_rest.simps) (simp add: st be)
    then show ?thesis using less.prems False by (simp add: st)
  qed
qed

lemma erase_units_ok:
  assumes "ne_inv nb img ok I blk count (block, be, d)" and "blk + count \<le> user_blocks"
    and "length I = user_blocks * 512"
  shows "\<exists>st'. new_erase_units dev count (block, be, d) = (True, st')
      \<and> ne_inv nb img ok I blk count st'"
proof -
  let ?n = "(count - be) div erase_unit dev * erase_unit dev"
  from assms(1) obtain es where inv: "ok d" "be \<le> count" "length es = be * 512"
      "img d = splice_at I (blk * 512) es" "be < count \<longrightarrow> block = blk + be \<and> nb dvd block"
    by (auto simp: ne_inv_def)
  have rest: "sub32 count be = count - be"
    using inv(2) assms(2) size_small by (intro sub32_id) linarith+
  show ?thesis
  proof (cases "?n = 0")
    case True
    then show ?thesis using assms(1) rest by (auto simp: new_erase_units_def Let_def)
  next
    case False
    have n: "nb dvd ?n" "?n \<le> count - be" using erase_unit_dvd by (auto intro: dvd_mult)
    then have blk: "block = blk + be" "nb dvd block" using inv(5) False by auto
    have up: "block + ?n \<le> user_blocks" using n(2) blk(1) inv(2) assms(2) by linarith
    have a: "add32 block ?n = block + ?n" "add32 be ?n = be + ?n"
      using up blk(1) size_small by (intro add32_id; linarith)+
    obtain d' zs where er: "new_erase_native dev d (block div nb) (?n div nb) = (0, d')" "ok d'"
        "length zs = ?n * 512" "img d' = splice_at (img d) ((blk + be) * 512) zs"
      using native_erase [OF inv(1) blk(2) n(1) _ up] False blk(1) by blast
    have "(blk + be + ?n) * 512 \<le> length I"
      using up unfolding blk(1) assms(3) by (rule mult_le_mono1)
    then have "\<exists>es'. length es' = (be + ?n) * 512 \<and> img d' = splice_at I (blk * 512) es'"
      using erased_further [OF inv(3) er(3), of blk I] er(4) inv(4) by simp
    moreover have "be + ?n \<le> count" using n(2) inv(2) by linarith
    moreover have "nb dvd block + ?n" using blk(2) n(1) by (rule dvd_add)
    ultimately have "ne_inv nb img ok I blk count (block + ?n, be + ?n, d')"
      using er(2) blk(1) unfolding ne_inv_def by (simp add: add.assoc)
    moreover have "new_erase_units dev count (block, be, d) = (True, (block + ?n, be + ?n, d'))"
      using False er(1) a by (simp add: new_erase_units_def rest Let_def)
    ultimately show ?thesis by blast
  qed
qed

lemma erase_last_ok:
  assumes "ne_inv nb img ok I blk count (block, be, d)" and "count < be + nb"
    and "blk + count \<le> user_blocks" and lenI: "length I = user_blocks * 512"
  shows "\<exists>block' d' es. new_erase_last dev count (block, be, d) = (block', count, d')
      \<and> ok d' \<and> length es = count * 512 \<and> img d' = splice_at I (blk * 512) es"
proof (cases "be = count")
  case True
  then have "sub32 count be = 0" by (simp add: sub32_self)
  with True show ?thesis using assms(1) by (auto simp: ne_inv_def new_erase_last_def)
next
  case False
  from assms(1) False obtain es where inv: "ok d" "be < count" "length es = be * 512"
      "img d = splice_at I (blk * 512) es" "block = blk + be" "nb dvd block"
    by (auto simp: ne_inv_def)
  have rest: "sub32 count be = count - be"
    using inv(2) assms(3) size_small by (intro sub32_id) linarith+
  have blk: "block < user_blocks" using inv(2,5) assms(3) by simp
  have up: "block + nb \<le> user_blocks" using partial_first(4) [OF blk] inv(6) by simp
  have m: "mul32 (count - be) 512 = (count - be) * 512"
    using assms(2) nb_small by (intro mul32_id) linarith
  let ?z = "replicate ((count - be) * 512) (0 :: byte)"
  have "(block - block) * 512 + length ?z \<le> nb * 512"
    using assms(2) unfolding length_replicate by linarith
  then obtain d' d'' where rd: "new_read_native dev d (block div nb) 1
        = (0, slice_at (block * 512) (nb * 512) (img d), d')"
    and wr: "new_write_native dev d' (splice_at (slice_at (block * 512) (nb * 512) (img d)) 0 ?z)
          (block div nb) 1 = (0, d'')"
      "ok d''" "img d'' = splice_at (img d) ((blk + be) * 512) ?z"
    using native_rmw [OF inv(1,6) up order_refl, of ?z] inv(5) by auto
  have "(blk + be + (count - be)) * 512 \<le> length I" using inv(2) assms(3) lenI by simp
  then have "\<exists>es'. length es' = count * 512 \<and> img d'' = splice_at I (blk * 512) es'"
    using erased_further [OF inv(3), of ?z "count - be" blk I] wr(3) inv(2,4) by simp
  moreover have "add32 be (count - be) = count"
    using inv(2) assms(3) size_small by (subst add32_id) linarith+
  ultimately show ?thesis
    using rd wr(1,2) assms(2) inv(2)
    by (simp add: new_erase_last_def rest m USER_BLOCK_SIZE_def Let_def)
qed

theorem new_erase_ok:
  assumes "ok d" and "blk + count \<le> user_blocks" and "count + nb < 2 ^ 32"
  shows "\<exists>d' es. bio_new_erase dev d blk count = Some (count, d') \<and> ok d'
      \<and> length es = count * 512 \<and> img d' = splice_at (img d) (blk * 512) es"
proof -
  note lenI = img_user [OF assms(1)]
  obtain st where st: "new_erase_first dev blk count d = (True, st)"
      "ne_inv nb img ok (img d) blk count st"
    using erase_first_ok [OF assms(1,2)] by auto
  obtain b1 be1 d1 where z: "zero_to_unit dev count st = Some (b1, be1, d1)"
      "ne_inv nb img ok (img d) blk count (b1, be1, d1)"
    using zero_to_unit_ok [OF st(2) assms(2) lenI assms(3)] by auto
  obtain b2 be2 d2 where u: "new_erase_units dev count (b1, be1, d1) = (True, (b2, be2, d2))"
      "ne_inv nb img ok (img d) blk count (b2, be2, d2)"
    using erase_units_ok [OF z(2) assms(2) lenI] by auto
  have bc: "add32 blk count = blk + count" using assms(2) size_small by (intro add32_id) linarith
  show ?thesis
  proof (cases "blk + count = b2")
    case True
    then have "be2 = count" using u(2) by (auto simp: ne_inv_def)
    then show ?thesis using True u by (auto simp: bio_new_erase_def st z bc ne_inv_def)
  next
    case False
    obtain b3 be3 d3 where r: "zero_rest dev count (b2, be2, d2) = Some (b3, be3, d3)"
        "ne_inv nb img ok (img d) blk count (b3, be3, d3)" "count < be3 + nb"
      using zero_rest_ok [OF u(2) assms(2) lenI assms(3)] by auto
    then show ?thesis using erase_last_ok [OF r(2,3) assms(2) lenI] False
      by (auto simp: bio_new_erase_def st z u bc)
  qed
qed

end

end
