(* ===== verification/Scsi_Correct.thy ===== *)
theory Scsi_Correct
  imports Scsi Bio_New_Correct
begin

text \<open>
  A logical unit published by \<^verbatim>\<open>scsi_scan\<close> is a \<open>native_device\<close> of the block layer. What
  the transport promises is the predicate \<open>scsi_disk\<close>, stated on the bytes of the command
  descriptor block the way the SCSI block commands define READ(10), WRITE(10) and UNMAP;
  that the commands of the code fill in these bytes correctly is what is proved. A disk
  kept in memory, with a command interpreter, shows that the promise can be kept and
  gives the interpretation of the interface.
\<close>

section \<open>Fields of a command\<close>

definition be16_at :: "byte list \<Rightarrow> nat \<Rightarrow> nat" where
  "be16_at p i = unat (p ! i) * 2 ^ 8 + unat (p ! (i + 1))"

definition be32_at :: "byte list \<Rightarrow> nat \<Rightarrow> nat" where
  "be32_at p i = unat (p ! i) * 2 ^ 24 + unat (p ! (i + 1)) * 2 ^ 16
     + unat (p ! (i + 2)) * 2 ^ 8 + unat (p ! (i + 3))"

lemma length_set_fields [simp]:
  "length (set_dword_le p i v) = length p" "length (set_word_le p i v) = length p"
  "length (set_tbyte_be p i v) = length p"
  by (simp_all add: set_dword_le_def set_word_le_def set_tbyte_be_def)

lemma nth_set_dword_other: "j < i \<or> i + 3 < j \<Longrightarrow> set_dword_le p i v ! j = p ! j"
  by (auto simp: set_dword_le_def)

lemma nth_set_word_other: "j < i \<or> i + 1 < j \<Longrightarrow> set_word_le p i v ! j = p ! j"
  by (auto simp: set_word_le_def)

lemma be32_set_dword:
  "i + 3 < length p \<Longrightarrow> v < 2 ^ 32 \<Longrightarrow> be32_at (set_dword_le p i v) i = v"
  using bytes_of_u32 [of v] by (simp add: be32_at_def set_dword_le_def)

lemma be16_set_word:
  "i + 1 < length p \<Longrightarrow> v < 2 ^ 16 \<Longrightarrow> be16_at (set_word_le p i v) i = v"
proof -
  assume a: "i + 1 < length p" "v < 2 ^ 16"
  have "v div 256 mod 256 = v div 256" using a(2) by simp
  then show ?thesis using a(1) by (simp add: be16_at_def set_word_le_def)
qed

lemma be32_other_word:
  "i + 3 < j \<or> j + 1 < i \<Longrightarrow> be32_at (set_word_le p j v) i = be32_at p i"
  by (auto simp: be32_at_def nth_set_word_other)

lemma be32_other_dword:
  "i + 3 < j \<or> j + 3 < i \<Longrightarrow> be32_at (set_dword_le p j v) i = be32_at p i"
  by (auto simp: be32_at_def nth_set_dword_other)

lemma be16_other_dword:
  "i + 1 < j \<or> j + 3 < i \<Longrightarrow> be16_at (set_dword_le p j v) i = be16_at p i"
  by (auto simp: be16_at_def nth_set_dword_other)

lemma be16_other_word:
  "i + 1 < j \<or> j + 1 < i \<Longrightarrow> be16_at (set_word_le p j v) i = be16_at p i"
  by (auto simp: be16_at_def nth_set_word_other)

lemma be32_zero: "i + 3 < n \<Longrightarrow> be32_at (replicate n 0) i = 0"
  by (simp add: be32_at_def)

lemmas cdb_fields = be32_set_dword be16_set_word be32_other_word be32_other_dword
  be16_other_dword be16_other_word nth_set_dword_other nth_set_word_other be32_zero

lemma get_dword_set_dword:
  assumes "i + 3 < length p" and "v < 2 ^ 31"
  shows "get_dword_le (set_dword_le p i v) i = int v"
proof -
  have "int (be32_at (set_dword_le p i v) i) = int v"
    using assms be32_set_dword [of i p v] by simp
  then have "get_dword_le (set_dword_le p i v) i = signed_take_bit 31 (int v)"
    by (simp add: get_dword_le_def be32_at_def)
  also have "\<dots> = int v" using assms(2) by (intro signed_take_bit_int_eq_self) auto
  finally show ?thesis .
qed

section \<open>The promise of the transport\<close>

definition read_10_ok :: "'t exec_fn \<Rightarrow> nat \<Rightarrow> nat \<Rightarrow> nat \<Rightarrow> ('t \<Rightarrow> byte list) \<Rightarrow> ('t \<Rightarrow> bool) \<Rightarrow> bool" where
  "read_10_ok exec lun bs cnt img ok \<longleftrightarrow>
     (\<forall>t m lba n. ok t \<and> scm_lun m = lun \<and> length (cdb m) = 16 \<and> cdb m ! 0 = 0x28
        \<and> be32_at (cdb m) 2 = lba \<and> be16_at (cdb m) 7 = n \<and> 0 < n \<and> lba + n \<le> cnt
        \<and> datalen m = n * bs \<longrightarrow>
        (\<exists>t'. exec m t = (0, 0, slice_at (lba * bs) (n * bs) (img t), t') \<and> ok t' \<and> img t' = img t))"

definition write_10_ok :: "'t exec_fn \<Rightarrow> nat \<Rightarrow> nat \<Rightarrow> nat \<Rightarrow> ('t \<Rightarrow> byte list) \<Rightarrow> ('t \<Rightarrow> bool) \<Rightarrow> bool" where
  "write_10_ok exec lun bs cnt img ok \<longleftrightarrow>
     (\<forall>t m lba n. ok t \<and> scm_lun m = lun \<and> length (cdb m) = 16 \<and> cdb m ! 0 = 0x2A
        \<and> be32_at (cdb m) 2 = lba \<and> be16_at (cdb m) 7 = n \<and> 0 < n \<and> lba + n \<le> cnt
        \<and> datalen m = n * bs \<and> n * bs \<le> length (scm_buf m) \<longrightarrow>
        (\<exists>data t'. exec m t = (0, 0, data, t') \<and> ok t'
           \<and> img t' = splice_at (img t) (lba * bs) (take (n * bs) (scm_buf m))))"

definition unmap_ok :: "'t exec_fn \<Rightarrow> nat \<Rightarrow> nat \<Rightarrow> nat \<Rightarrow> ('t \<Rightarrow> byte list) \<Rightarrow> ('t \<Rightarrow> bool) \<Rightarrow> bool" where
  "unmap_ok exec lun bs cnt img ok \<longleftrightarrow>
     (\<forall>t m lba n. ok t \<and> scm_lun m = lun \<and> length (cdb m) = 16 \<and> cdb m ! 0 = 0x42
        \<and> be16_at (cdb m) 7 = 24 \<and> datalen m = 24 \<and> length (scm_buf m) = 24
        \<and> be16_at (scm_buf m) 0 = 22 \<and> be16_at (scm_buf m) 2 = 16
        \<and> be32_at (scm_buf m) 8 = 0 \<and> be32_at (scm_buf m) 12 = lba \<and> be32_at (scm_buf m) 16 = n
        \<and> 0 < n \<and> lba + n \<le> cnt \<longrightarrow>
        (\<exists>data t' es. exec m t = (0, 0, data, t') \<and> ok t' \<and> length es = n * bs
           \<and> img t' = splice_at (img t) (lba * bs) es))"

definition scsi_disk :: "'t exec_fn \<Rightarrow> nat \<Rightarrow> nat \<Rightarrow> nat \<Rightarrow> ('t \<Rightarrow> byte list) \<Rightarrow> ('t \<Rightarrow> bool) \<Rightarrow> bool" where
  "scsi_disk exec lun bs cnt img ok \<longleftrightarrow>
     (\<forall>t. ok t \<longrightarrow> length (img t) = cnt * bs)
     \<and> read_10_ok exec lun bs cnt img ok \<and> write_10_ok exec lun bs cnt img ok
     \<and> unmap_ok exec lun bs cnt img ok"

section \<open>The commands of the code\<close>

lemma scsi_read_10_law:
  assumes "read_10_ok exec lun bs cnt img ok" and "ok t" and "0 < n" and "b + n \<le> cnt"
    and "cnt < 2 ^ 32" and "n < 2 ^ 16" and "n * bs < 2 ^ 32"
  shows "\<exists>t'. scsi_read_10 exec lun bs t b n = (0, slice_at (b * bs) (n * bs) (img t), t')
      \<and> ok t' \<and> img t' = img t"
proof -
  let ?m = "\<lparr>cdb = set_word_le (set_dword_le (cdb_zero[0 := 0x28]) 2 b) 7 (n mod 2 ^ 16),
                 datalen = mul32 n bs, scm_buf = [], scm_lun = lun\<rparr>"
  have "be32_at (cdb ?m) 2 = b" "be16_at (cdb ?m) 7 = n" "cdb ?m ! 0 = 0x28" "length (cdb ?m) = 16"
    "datalen ?m = n * bs" "scm_lun ?m = lun"
    using assms(4-7) by (simp_all add: cdb_fields cdb_zero_def mul32_id)
  then obtain t' where "exec ?m t = (0, 0, slice_at (b * bs) (n * bs) (img t), t')" "ok t'"
      "img t' = img t"
    using assms(1-4) unfolding read_10_ok_def by blast
  then show ?thesis by (simp add: scsi_read_10_def issue_def scsi_parse_status_def)
qed

lemma scsi_write_10_law:
  assumes "write_10_ok exec lun bs cnt img ok" and "ok t" and "0 < n" and "b + n \<le> cnt"
    and "cnt < 2 ^ 32" and "n < 2 ^ 16" and "n * bs < 2 ^ 32" and "n * bs \<le> length src"
  shows "\<exists>t'. scsi_write_10 exec lun bs t src b n = (0, t') \<and> ok t'
      \<and> img t' = splice_at (img t) (b * bs) (take (n * bs) src)"
proof -
  let ?m = "\<lparr>cdb = set_word_le (set_dword_le (cdb_zero[0 := 0x2A]) 2 b) 7 (n mod 2 ^ 16),
                 datalen = mul32 n bs, scm_buf = src, scm_lun = lun\<rparr>"
  have "be32_at (cdb ?m) 2 = b" "be16_at (cdb ?m) 7 = n" "cdb ?m ! 0 = 0x2A" "length (cdb ?m) = 16"
    "datalen ?m = n * bs" "scm_lun ?m = lun" "scm_buf ?m = src"
    using assms(4-7) by (simp_all add: cdb_fields cdb_zero_def mul32_id)
  then obtain data t' where "exec ?m t = (0, 0, data, t')" "ok t'"
      "img t' = splice_at (img t) (b * bs) (take (n * bs) src)"
    using assms(1-4,8) unfolding write_10_ok_def by metis
  then show ?thesis by (simp add: scsi_write_10_def issue_def scsi_parse_status_def)
qed

lemma unmap_data_fields:
  assumes "b < 2 ^ 32" and "n < 2 ^ 32"
  shows "length (unmap_data b n) = 24" "be16_at (unmap_data b n) 0 = 22"
    "be16_at (unmap_data b n) 2 = 16" "be32_at (unmap_data b n) 8 = 0"
    "be32_at (unmap_data b n) 12 = b" "be32_at (unmap_data b n) 16 = n"
  using assms
  by (simp_all add: unmap_data_def SCSI_UNMAP_DATA_LEN_def SCSI_UNMAP_BLOCK_DESC_DATA_LEN_def
      cdb_fields)

lemma scsi_unmap_law:
  assumes "unmap_ok exec lun bs cnt img ok" and "ok t" and "0 < n" and "b + n \<le> cnt"
    and "cnt < 2 ^ 32"
  shows "\<exists>t' es. scsi_unmap exec lun t b n = (0, t') \<and> ok t' \<and> length es = n * bs
      \<and> img t' = splice_at (img t) (b * bs) es"
proof -
  let ?m = "\<lparr>cdb = set_word_le (cdb_zero[0 := 0x42]) 7 (SCSI_UNMAP_DATA_LEN + 2),
         datalen = SCSI_UNMAP_DATA_LEN + 2, scm_buf = unmap_data b n, scm_lun = lun\<rparr>"
  have "be16_at (cdb ?m) 7 = 24" "cdb ?m ! 0 = 0x42" "length (cdb ?m) = 16" "datalen ?m = 24"
    "scm_lun ?m = lun" "scm_buf ?m = unmap_data b n"
    by (simp_all add: cdb_fields cdb_zero_def SCSI_UNMAP_DATA_LEN_def
        SCSI_UNMAP_BLOCK_DESC_DATA_LEN_def)
  moreover have "b < 2 ^ 32" "n < 2 ^ 32" using assms(4,5) by linarith+
  note unmap_data_fields [OF this]
  ultimately obtain data t' es where "exec ?m t = (0, 0, data, t')" "ok t'" "length es = n * bs"
      "img t' = splice_at (img t) (b * bs) es"
    using assms(1-4) unfolding unmap_ok_def by metis
  then show ?thesis by (auto simp: scsi_unmap_def issue_def scsi_parse_status_def)
qed

section \<open>A published unit is a native device\<close>

lemma scsi_lu_fields [simp]:
  "block_size (scsi_lu_bdev exec lun w nm bs cnt max_seg dev) = bs"
  "block_count (scsi_lu_bdev exec lun w nm bs cnt max_seg dev) = cnt"
  "flags (scsi_lu_bdev exec lun w nm bs cnt max_seg dev) = 0"
  "max_blkcnt_per_cmd (scsi_lu_bdev exec lun w nm bs cnt max_seg dev)
     = (mul64 max_seg bs div USER_BLOCK_SIZE) mod 2 ^ 32"
  by (simp_all add: scsi_lu_bdev_def bio_initialize_bdev_def Let_def)

lemma scsi_lu_hooks [simp]:
  "new_read_native (scsi_lu_bdev exec lun False nm bs cnt max_seg dev) = scsi_read_10 exec lun bs"
  "new_write_native (scsi_lu_bdev exec lun False nm bs cnt max_seg dev) = scsi_write_10 exec lun bs"
  "new_erase_native (scsi_lu_bdev exec lun False nm bs cnt max_seg dev) = scsi_unmap exec lun"
  by (simp_all add: scsi_lu_bdev_def Let_def)

text \<open>The bound is on the medium (2 TiB) and on \<^verbatim>\<open>max_seg\<close>, which the UFS driver sets to 128.\<close>

lemma scsi_native:
  assumes "scsi_disk exec lun (nb * 512) cnt img ok" and "0 < nb" and "0 < max_seg"
    and "max_seg < 2 ^ 16" and "max_seg * (nb * 512) < 2 ^ 32" and "cnt * nb < 2 ^ 32"
  shows "native_device (scsi_lu_bdev exec lun False nm (nb * 512) cnt max_seg dev) img ok"
proof -
  let ?dev = "scsi_lu_bdev exec lun False nm (nb * 512) cnt max_seg dev"
  have nb: "native_blocks ?dev = nb" by (simp add: native_blocks_def USER_BLOCK_SIZE_def)
  have "mul64 max_seg (nb * 512) = max_seg * (nb * 512)" using assms(5) by (intro mul64_id) simp
  then have "mul64 max_seg (nb * 512) div 512 = max_seg * nb" by simp
  moreover have "max_seg * nb < 2 ^ 32" using assms(5) by simp
  ultimately have mx: "max_blkcnt ?dev = max_seg * nb"
    using assms(2,3) by (simp add: max_blkcnt_def USER_BLOCK_SIZE_def)
  have cnt: "cnt < 2 ^ 32" using assms(2,6) by (cases nb) auto
  have n: "n < 2 ^ 16" "n * (nb * 512) < 2 ^ 32" if "n * nb \<le> max_seg * nb" for n
  proof -
    have "n \<le> max_seg" using that assms(2) by simp
    then show "n < 2 ^ 16" using assms(4) by simp
    have "n * (nb * 512) \<le> max_seg * (nb * 512)" using \<open>n \<le> max_seg\<close> by (rule mult_le_mono1)
    then show "n * (nb * 512) < 2 ^ 32" using assms(5) by linarith
  qed
  from assms(1) have laws: "read_10_ok exec lun (nb * 512) cnt img ok"
      "write_10_ok exec lun (nb * 512) cnt img ok" "unmap_ok exec lun (nb * 512) cnt img ok"
    and len: "\<And>t. ok t \<Longrightarrow> length (img t) = cnt * (nb * 512)"
    by (auto simp: scsi_disk_def)
  show ?thesis
  proof (unfold_locales, goal_cases)
    case (7 d n b)
    then show ?case using scsi_read_10_law [OF laws(1), of d n b] cnt n by (simp add: nb mx)
  next
    case (8 d n b src)
    then show ?case using scsi_write_10_law [OF laws(2), of d n b src] cnt n by (simp add: nb mx)
  next
    case (9 d n b)
    then show ?case using scsi_unmap_law [OF laws(3), of d n b] cnt by simp
  qed (use assms nb mx len in \<open>simp_all add: algebra_simps\<close>)
qed

section \<open>A disk kept in memory\<close>

text \<open>
  The target is its image; the command interpreter decodes the command descriptor block.
  An unmapped block reads as zeros.
\<close>

definition ram_exec :: "nat \<Rightarrow> nat \<Rightarrow> byte list exec_fn" where
  "ram_exec bs cnt m t =
     (let op = cdb m ! 0; lba = be32_at (cdb m) 2; n = be16_at (cdb m) 7 in
      if op = 0x28 \<and> lba + n \<le> cnt then (0, 0, slice_at (lba * bs) (n * bs) t, t)
      else if op = 0x2A \<and> lba + n \<le> cnt then
        (0, 0, [], splice_at t (lba * bs) (take (n * bs) (scm_buf m)))
      else if op = 0x42 \<and> be32_at (scm_buf m) 12 + be32_at (scm_buf m) 16 \<le> cnt then
        (0, 0, [], splice_at t (be32_at (scm_buf m) 12 * bs)
                     (replicate (be32_at (scm_buf m) 16 * bs) 0))
      else (0, 2, [], t))"

definition ram_ok :: "nat \<Rightarrow> nat \<Rightarrow> byte list \<Rightarrow> bool" where
  "ram_ok bs cnt t \<longleftrightarrow> length t = cnt * bs"

lemma ram_in: "lba + n \<le> cnt \<Longrightarrow> lba * bs + n * bs \<le> cnt * (bs :: nat)"
  by (metis add_mult_distrib mult_le_mono1)

lemma ram_scsi_disk: "scsi_disk (ram_exec bs cnt) lun bs cnt (\<lambda>t. t) (ram_ok bs cnt)"
proof -
  have "read_10_ok (ram_exec bs cnt) lun bs cnt (\<lambda>t. t) (ram_ok bs cnt)"
    by (auto simp: read_10_ok_def ram_exec_def Let_def)
  moreover have "write_10_ok (ram_exec bs cnt) lun bs cnt (\<lambda>t. t) (ram_ok bs cnt)"
    by (auto simp: write_10_ok_def ram_exec_def Let_def ram_ok_def length_splice min_absorb2 ram_in)
  moreover have "unmap_ok (ram_exec bs cnt) lun bs cnt (\<lambda>t. t) (ram_ok bs cnt)"
    unfolding unmap_ok_def
  proof (intro allI impI, elim conjE, goal_cases)
    case (1 t m lba n)
    then show ?case
      by (intro exI [of _ "[]"] exI [of _ "splice_at t (lba * bs) (replicate (n * bs) 0)"]
          exI [of _ "replicate (n * bs) 0"])
         (auto simp: ram_exec_def Let_def ram_ok_def length_splice ram_in)
  qed
  ultimately show ?thesis by (simp add: scsi_disk_def ram_ok_def)
qed

text \<open>A unit of 2048 blocks of 4096 bytes, with the \<^verbatim>\<open>max_seg\<close> of the UFS driver.\<close>

definition ram_bdev :: "byte list bdev" where
  "ram_bdev = scsi_lu_bdev (ram_exec 4096 2048) 0 False ''scsi0'' 4096 2048 128 blank_bdev"

interpretation ram: native_device ram_bdev "\<lambda>t. t" "ram_ok 4096 2048"
  unfolding ram_bdev_def
  using scsi_native [of "ram_exec 4096 2048" 0 8 2048 "\<lambda>t. t" "ram_ok 4096 2048" 128 "''scsi0''"
      blank_bdev] ram_scsi_disk [of 4096 2048 0]
  by simp

lemma ram_bdev_fields [simp]:
  "block_count ram_bdev = 2048" "native_blocks ram_bdev = 8" "flags ram_bdev = 0"
  "bname ram_bdev = Some ''scsi0''"
  by (simp_all add: ram_bdev_def native_blocks_def USER_BLOCK_SIZE_def)
     (simp add: scsi_lu_bdev_def bio_initialize_bdev_def Let_def)

definition ram_disk :: "byte list" where
  "ram_disk = replicate (2048 * 4096) 0"

lemma ram_disk_ok [simp]: "ram_ok 4096 2048 ram_disk" "length ram_disk = 8388608"
  by (simp_all add: ram_ok_def ram_disk_def)

section \<open>Properties of the sector-granular path\<close>

text \<open>Claim C15: the block device that \<^verbatim>\<open>scsi_scan\<close> publishes for a logical unit meets the
driver contract of the block layer, as soon as the transport executes READ(10), WRITE(10)
and UNMAP as the SCSI block commands define them on the bytes of the command: the command
descriptor blocks and the UNMAP parameter list carry the right address, length and size.\<close>

theorem scsi_lu_is_native_device:
  assumes "scsi_disk exec lun (nb * 512) cnt img ok" and "0 < nb" and "0 < max_seg"
    and "max_seg < 2 ^ 16" and "max_seg * (nb * 512) < 2 ^ 32" and "cnt * nb < 2 ^ 32"
  shows "native_device (scsi_lu_bdev exec lun False nm (nb * 512) cnt max_seg dev) img ok"
  using assms by (rule scsi_native)

theorem scsi_lu_is_native_device_witness:
  "native_device (scsi_lu_bdev (ram_exec (8 * 512) 2048) 0 False ''scsi0'' (8 * 512) 2048 128 blank_bdev)
     (\<lambda>t. t) (ram_ok (8 * 512) 2048)"
  by (rule scsi_lu_is_native_device [OF ram_scsi_disk]) simp_all

text \<open>Claim C13: reading 512-byte sectors from a device with larger native blocks through
\<^verbatim>\<open>bio_new_read\<close> returns the count asked for and stores exactly those sectors, for every
alignment of the request and every split by \<^verbatim>\<open>max_blkcnt_per_cmd\<close>; the medium is
unchanged.\<close>

theorem bio_new_read_exact:
  assumes "native_device dev img ok" and "ok d" and "0 < n"
    and "blk + n \<le> block_count dev * native_blocks dev" and "n * 512 \<le> length buf"
    and "flags dev AND BIO_FLAG_CACHE_ALIGNED_READS = 0 \<or> is_aligned addr CACHE_LINE"
  shows "\<exists>d'. bio_new_read dev addr buf d blk n
      = (n, splice_at buf 0 (slice_at (blk * 512) (n * 512) (img d)), d')
      \<and> ok d' \<and> img d' = img d"
  using assms by (rule native_device.new_read_ok)

theorem bio_new_read_exact_witness:
  "\<exists>d'. bio_new_read ram_bdev 0 (replicate 10240 1) ram_disk 13 20
      = (20, splice_at (replicate 10240 1) 0 (slice_at (13 * 512) (20 * 512) ram_disk), d')
      \<and> ram_ok 4096 2048 d' \<and> d' = ram_disk"
  by (rule bio_new_read_exact [OF ram.native_device_axioms]) simp_all

text \<open>Claim C12: writing 512-byte sectors through \<^verbatim>\<open>bio_new_write\<close> returns the count asked
for and replaces exactly those sectors of the medium, preserving the rest of the native
blocks at both ends.\<close>

theorem bio_new_write_exact:
  assumes "native_device dev img ok" and "ok d"
    and "blk + n \<le> block_count dev * native_blocks dev" and "n * 512 \<le> length src"
    and "flags dev AND BIO_FLAG_CACHE_ALIGNED_WRITES = 0 \<or> is_aligned addr CACHE_LINE"
  shows "\<exists>d'. bio_new_write dev addr d src blk n = (n, d') \<and> ok d'
      \<and> img d' = splice_at (img d) (blk * 512) (slice_at 0 (n * 512) src)"
  using assms by (rule native_device.new_write_ok)

theorem bio_new_write_exact_witness:
  "\<exists>d'. bio_new_write ram_bdev 0 ram_disk (replicate 10240 1) 13 20 = (20, d')
      \<and> ram_ok 4096 2048 d'
      \<and> d' = splice_at ram_disk (13 * 512) (slice_at 0 (20 * 512) (replicate 10240 1))"
  by (rule bio_new_write_exact [OF ram.native_device_axioms]) simp_all

text \<open>Claim C14: erasing 512-byte sectors through \<^verbatim>\<open>bio_new_erase\<close> terminates, returns the
count asked for, and changes nothing outside those sectors, although it erases in native
or larger units.\<close>

theorem bio_new_erase_confined:
  assumes "native_device dev img ok" and "ok d"
    and "blk + n \<le> block_count dev * native_blocks dev" and "n + native_blocks dev < 2 ^ 32"
  shows "\<exists>d' es. bio_new_erase dev d blk n = Some (n, d') \<and> ok d'
      \<and> length es = n * 512 \<and> img d' = splice_at (img d) (blk * 512) es"
  using assms by (rule native_device.new_erase_ok)

theorem bio_new_erase_confined_witness:
  "\<exists>d' es. bio_new_erase ram_bdev ram_disk 13 20 = Some (20, d') \<and> ram_ok 4096 2048 d'
      \<and> length es = 20 * 512 \<and> d' = splice_at ram_disk (13 * 512) es"
  by (rule bio_new_erase_confined [OF ram.native_device_axioms]) simp_all

end
