(* ===== verification/Cstr.thy ===== *)
theory Cstr
  imports Lk_Prelude
begin

text \<open>
  C strings and the case-insensitive comparisons of \<^verbatim>\<open>lib/libc/strcicmp.c\<close> and
  \<^verbatim>\<open>lib/libc/string/stricmp.c\<close>. A C string is the list of its characters before the
  terminating NUL; a character is its unsigned code.
\<close>

definition tolower :: "int \<Rightarrow> int" where
  "tolower c = (if 65 \<le> c \<and> c \<le> 90 then c + (97 - 65) else c)"

definition code :: "char \<Rightarrow> int" where
  "code c = int (of_char c)"

fun strcicmp :: "string \<Rightarrow> string \<Rightarrow> int" where
  "strcicmp [] [] = tolower 0 - tolower 0"
| "strcicmp [] (b # bs) = tolower 0 - tolower (code b)"
| "strcicmp (a # as) [] =
     (let d = tolower (code a) - tolower 0 in d)"
| "strcicmp (a # as) (b # bs) =
     (let d = tolower (code a) - tolower (code b) in if d \<noteq> 0 then d else strcicmp as bs)"

fun stricmp :: "string \<Rightarrow> string \<Rightarrow> int" where
  "stricmp [] [] = 0"
| "stricmp [] (b # bs) = 0 - tolower (code b)"
| "stricmp (a # as) [] = tolower (code a) - 0"
| "stricmp (a # as) (b # bs) =
     (if tolower (code a) \<noteq> tolower (code b) then tolower (code a) - tolower (code b)
      else stricmp as bs)"

text \<open>A NUL-free string, and the string read from memory up to its NUL.\<close>

definition c_string :: "string \<Rightarrow> bool" where
  "c_string s \<longleftrightarrow> (\<forall>c \<in> set s. code c \<noteq> 0)"

definition cstr_at :: "byte list \<Rightarrow> string" where
  "cstr_at m = map (\<lambda>w. char_of (unat w)) (takeWhile (\<lambda>w. w \<noteq> 0) m)"

lemma tolower_0 [simp]: "tolower 0 = 0"
  by (simp add: tolower_def)

lemma tolower_pos: "0 < c \<Longrightarrow> tolower c \<noteq> 0"
  by (auto simp: tolower_def)

lemma code_nonneg [simp]: "0 \<le> code c"
  by (simp add: code_def)

text \<open>Both comparisons decide equality up to case.\<close>

lemma strcicmp_eq_0:
  "c_string a \<Longrightarrow> c_string b \<Longrightarrow>
   strcicmp a b = 0 \<longleftrightarrow> map (tolower \<circ> code) a = map (tolower \<circ> code) b"
proof (induction a b rule: strcicmp.induct)
  case (2 b bs)
  then have "0 < code b" using code_nonneg [of b] by (auto simp: c_string_def order_less_le)
  then show ?case using tolower_pos by simp
next
  case (3 a as)
  then have "0 < code a" using code_nonneg [of a] by (auto simp: c_string_def order_less_le)
  then show ?case using tolower_pos by simp
qed (auto simp: c_string_def)

lemma stricmp_eq_strcicmp: "stricmp a b = strcicmp a b"
  by (induction a b rule: stricmp.induct) (auto simp: Let_def)

lemma cstr_at_c_string: "c_string (cstr_at m)"
proof -
  have "w \<noteq> 0 \<Longrightarrow> code (char_of (unat w)) \<noteq> 0" for w :: byte
    using unsigned_less [of w, where 'a=nat] by (auto simp: code_def unsigned_eq_0_iff)
  then show ?thesis by (auto simp: c_string_def cstr_at_def dest: set_takeWhileD)
qed

end
