(* ===== verification/Storage.thy ===== *)
theory Storage
  imports Scsi_Correct Cstr
begin

text \<open>
  The storage stack as the partition code sees it: the device list and the SCSI target
  behind all its devices. \<open>dev_new_read\<close> and its companions are the calls through the
  \<^verbatim>\<open>new_read\<close>, \<^verbatim>\<open>new_write\<close> and \<^verbatim>\<open>new_erase\<close> hooks, which \<^verbatim>\<open>bio_initialize_bdev\<close> sets and
  no driver of this stack replaces.
\<close>

record 't storage =
  sbio :: "'t bio_state"
  starget :: 't

definition dev_new_read ::
    "'t storage \<Rightarrow> nat \<Rightarrow> nat \<Rightarrow> byte list \<Rightarrow> nat \<Rightarrow> nat \<Rightarrow> nat \<times> byte list \<times> 't storage" where
  "dev_new_read st a addr buf blk cnt =
     (case bio_new_read (bdev_at (sbio st) a) addr buf (starget st) blk cnt of
        (n, buf, t) \<Rightarrow> (n, buf, st\<lparr>starget := t\<rparr>))"

definition dev_new_write ::
    "'t storage \<Rightarrow> nat \<Rightarrow> nat \<Rightarrow> byte list \<Rightarrow> nat \<Rightarrow> nat \<Rightarrow> nat \<times> 't storage" where
  "dev_new_write st a addr src blk cnt =
     (case bio_new_write (bdev_at (sbio st) a) addr (starget st) src blk cnt of
        (n, t) \<Rightarrow> (n, st\<lparr>starget := t\<rparr>))"

definition dev_new_erase :: "'t storage \<Rightarrow> nat \<Rightarrow> nat \<Rightarrow> nat \<Rightarrow> (nat \<times> 't storage) outcome" where
  "dev_new_erase st a blk cnt =
     (case bio_new_erase (bdev_at (sbio st) a) (starget st) blk cnt of
        None \<Rightarrow> Hang
      | Some (n, t) \<Rightarrow> Ret (n, st\<lparr>starget := t\<rparr>))"

definition st_open :: "'t storage \<Rightarrow> string \<Rightarrow> nat option \<times> 't storage" where
  "st_open st nm = (case bio_open (sbio st) nm of (r, b) \<Rightarrow> (r, st\<lparr>sbio := b\<rparr>))"

definition st_close :: "'t storage \<Rightarrow> nat \<Rightarrow> 't storage" where
  "st_close st a = st\<lparr>sbio := bio_close (sbio st) a\<rparr>"

text \<open>A listed device of that name, with the reference the list holds.\<close>

definition listed :: "'t storage \<Rightarrow> string \<Rightarrow> nat \<Rightarrow> bool" where
  "listed st nm a \<longleftrightarrow>
     find (\<lambda>a. bname (bdev_at (sbio st) a) = Some nm) (bdevs (sbio st)) = Some a
     \<and> 0 < ref (bdev_at (sbio st) a)"

lemma dec_inc_ref: "0 < ref (bdev_at b a) \<Longrightarrow> bdev_dec_ref (bdev_inc_ref b a) a = b"
  by (simp add: bdev_dec_ref_def bdev_inc_ref_def Let_def)

lemma open_listed:
  assumes "listed st nm a"
  shows "st_open st nm = (Some a, st\<lparr>sbio := bdev_inc_ref (sbio st) a\<rparr>)"
  using assms by (simp add: listed_def st_open_def bio_open_def)

section \<open>Requests on an opened device\<close>

text \<open>
  \<open>lu_at st nm a img ok\<close>: the name is listed and its device is a native device over the
  image of the target. The reference taken by \<^verbatim>\<open>bio_open\<close> does not change what it does,
  and \<^verbatim>\<open>bio_close\<close> gives it back.
\<close>

definition lu_at ::
    "'t storage \<Rightarrow> string \<Rightarrow> nat \<Rightarrow> ('t \<Rightarrow> byte list) \<Rightarrow> ('t \<Rightarrow> bool) \<Rightarrow> bool" where
  "lu_at st nm a img ok \<longleftrightarrow> listed st nm a
     \<and> native_device (bdev_at (sbio st) a) img ok \<and> flags (bdev_at (sbio st) a) = 0
     \<and> ok (starget st)"

definition lu_sectors :: "'t storage \<Rightarrow> nat \<Rightarrow> nat" where
  "lu_sectors st a = block_count (bdev_at (sbio st) a) * native_blocks (bdev_at (sbio st) a)"

definition opened :: "'t storage \<Rightarrow> nat \<Rightarrow> 't storage" where
  "opened st a = st\<lparr>sbio := bdev_inc_ref (sbio st) a\<rparr>"

lemma native_device_ref: "native_device (dev\<lparr>ref := r\<rparr>) img ok = native_device dev img ok"
  by (simp add: native_device_def native_blocks_def max_blkcnt_def)

lemma native_fields_ref [simp]:
  "native_blocks (dev\<lparr>ref := r\<rparr>) = native_blocks dev"
  by (simp add: native_blocks_def)

lemma lu_open: "lu_at st nm a img ok \<Longrightarrow> st_open st nm = (Some a, opened st a)"
  by (simp add: lu_at_def opened_def open_listed)

lemma lu_close:
  "lu_at st nm a img ok \<Longrightarrow> st_close ((opened st a)\<lparr>starget := t\<rparr>) a = st\<lparr>starget := t\<rparr>"
  by (simp add: lu_at_def listed_def opened_def st_close_def bio_close_def dec_inc_ref)

lemma lu_target: "lu_at st nm a img ok \<Longrightarrow> ok t \<Longrightarrow> lu_at (st\<lparr>starget := t\<rparr>) nm a img ok"
  by (simp add: lu_at_def listed_def)

lemma lu_sectors_target [simp]: "lu_sectors (st\<lparr>starget := t\<rparr>) a = lu_sectors st a"
  by (simp add: lu_sectors_def)

lemma lu_opened:
  assumes "lu_at st nm a img ok"
  shows "native_device (bdev_at (sbio (opened st a)) a) img ok"
    and "flags (bdev_at (sbio (opened st a)) a) = 0" and "ok (starget (opened st a))"
    and "block_count (bdev_at (sbio (opened st a)) a) * native_blocks (bdev_at (sbio (opened st a)) a)
       = lu_sectors st a"
  using assms
  by (simp_all add: lu_at_def opened_def bdev_inc_ref_def native_device_ref lu_sectors_def)

lemma starget_opened [simp]: "starget (opened st a) = starget st"
  by (simp add: opened_def)

lemma lu_length: "lu_at st nm a img ok \<Longrightarrow> length (img (starget st)) = lu_sectors st a * 512"
  by (auto simp: lu_at_def lu_sectors_def native_device.img_user)

lemma lu_small: "lu_at st nm a img ok \<Longrightarrow> lu_sectors st a < 2 ^ 32"
  by (auto simp: lu_at_def lu_sectors_def dest: native_device.size_small)

lemma lu_read:
  assumes lu: "lu_at st nm a img ok" and "0 < n" and "blk + n \<le> lu_sectors st a"
    and "n * 512 \<le> length buf"
  shows "\<exists>t. dev_new_read (opened st a) a addr buf blk n
      = (n, splice_at buf 0 (slice_at (blk * 512) (n * 512) (img (starget st))),
         (opened st a)\<lparr>starget := t\<rparr>)
      \<and> ok t \<and> img t = img (starget st)"
proof -
  note o = lu_opened [OF lu]
  show ?thesis
    using native_device.new_read_ok [OF o(1) o(3) assms(2), of blk buf addr] assms(3,4) o(2,4)
    by (auto simp: dev_new_read_def)
qed

lemma lu_write:
  assumes lu: "lu_at st nm a img ok" and "blk + n \<le> lu_sectors st a" and "n * 512 \<le> length src"
  shows "\<exists>t. dev_new_write (opened st a) a addr src blk n = (n, (opened st a)\<lparr>starget := t\<rparr>)
      \<and> ok t \<and> img t = splice_at (img (starget st)) (blk * 512) (slice_at 0 (n * 512) src)"
proof -
  note o = lu_opened [OF lu]
  show ?thesis
    using native_device.new_write_ok [OF o(1) o(3), of blk n src addr] assms(2,3) o(2,4)
    by (auto simp: dev_new_write_def)
qed

lemma lu_erase:
  assumes lu: "lu_at st nm a img ok" and "blk + n \<le> lu_sectors st a"
    and "n + native_blocks (bdev_at (sbio st) a) < 2 ^ 32"
  shows "\<exists>t es. dev_new_erase (opened st a) a blk n = Ret (n, (opened st a)\<lparr>starget := t\<rparr>)
      \<and> ok t \<and> length es = n * 512 \<and> img t = splice_at (img (starget st)) (blk * 512) es"
proof -
  note o = lu_opened [OF lu]
  have "native_blocks (bdev_at (sbio (opened st a)) a) = native_blocks (bdev_at (sbio st) a)"
    by (simp add: opened_def bdev_inc_ref_def)
  then show ?thesis
    using native_device.new_erase_ok [OF o(1) o(3), of blk n] assms(2,3) o(4)
    by (auto simp: dev_new_erase_def)
qed

section \<open>A concrete stack\<close>

text \<open>The memory disk, listed as \<^verbatim>\<open>scsi0\<close>.\<close>

definition ram_storage :: "byte list storage" where
  "ram_storage =
     \<lparr>sbio = \<lparr>bdev_at = (\<lambda>_. ram_bdev\<lparr>ref := 1\<rparr>), bdev_priv = (\<lambda>_. []), bdevs = [0]\<rparr>,
      starget = ram_disk\<rparr>"

lemma ram_lu: "lu_at ram_storage ''scsi0'' 0 (\<lambda>t. t) (ram_ok 4096 2048)"
  using ram.native_device_axioms
  by (simp add: lu_at_def ram_storage_def listed_def native_device_ref)

lemma ram_sectors [simp]: "lu_sectors ram_storage 0 = 16384"
  by (simp add: lu_sectors_def ram_storage_def)

lemma ram_target [simp]: "starget ram_storage = ram_disk"
  by (simp add: ram_storage_def)

end
