(* ===== verification/Sparse.thy ===== *)
theory Sparse
  imports Storage
begin

text \<open>
  The sparse-image writer \<^verbatim>\<open>lib/fastboot/decompress_ext4.c\<close>: the header check and the
  loop that expands RAW, FILL and NONE chunks onto the boot device. The specification is
  a list of chunks, its encoding as a file, and its meaning as a sequence of overwrites;
  \<open>write_compressed_ok\<close> is the refinement.
\<close>

definition EXT4_FILE_HEADER_MAGIC :: nat where "EXT4_FILE_HEADER_MAGIC = 0xED26FF3A"
definition EXT4_FILE_HEADER_MAJOR :: nat where "EXT4_FILE_HEADER_MAJOR = 1"
definition EXT4_FILE_BLOCK_SIZE :: nat where "EXT4_FILE_BLOCK_SIZE = 4096"
definition EXT4_FILE_HEADER_SIZE :: nat where "EXT4_FILE_HEADER_SIZE = 28"
definition EXT4_CHUNK_HEADER_SIZE :: nat where "EXT4_CHUNK_HEADER_SIZE = 12"
definition EXT4_CHUNK_TYPE_RAW :: nat where "EXT4_CHUNK_TYPE_RAW = 0xCAC1"
definition EXT4_CHUNK_TYPE_FILL :: nat where "EXT4_CHUNK_TYPE_FILL = 0xCAC2"
definition EXT4_CHUNK_TYPE_NONE :: nat where "EXT4_CHUNK_TYPE_NONE = 0xCAC3"

lemmas ext4_consts = EXT4_FILE_HEADER_MAGIC_def EXT4_FILE_HEADER_MAJOR_def
  EXT4_FILE_BLOCK_SIZE_def EXT4_FILE_HEADER_SIZE_def EXT4_CHUNK_HEADER_SIZE_def
  EXT4_CHUNK_TYPE_RAW_def EXT4_CHUNK_TYPE_FILL_def EXT4_CHUNK_TYPE_NONE_def

text \<open>The two packed headers.\<close>

record ext4_file_header =
  fh_magic :: nat
  fh_major :: nat
  fh_file_header_size :: nat
  fh_chunk_header_size :: nat
  fh_block_size :: nat
  fh_total_blocks :: nat
  fh_total_chunks :: nat

record ext4_chunk_header =
  ch_type :: nat
  ch_chunk_size :: nat
  ch_total_size :: nat

definition file_header :: "byte list \<Rightarrow> ext4_file_header" where
  "file_header m =
     \<lparr>fh_magic = le32_at m 0, fh_major = le16_at m 4, fh_file_header_size = le16_at m 8,
      fh_chunk_header_size = le16_at m 10, fh_block_size = le32_at m 12,
      fh_total_blocks = le32_at m 16, fh_total_chunks = le32_at m 20\<rparr>"

definition chunk_header :: "byte list \<Rightarrow> ext4_chunk_header" where
  "chunk_header m =
     \<lparr>ch_type = le16_at m 0, ch_chunk_size = le32_at m 4, ch_total_size = le32_at m 8\<rparr>"

text \<open>An image larger than the partition ends in \<^verbatim>\<open>while(1);\<close>.\<close>

definition check_compress_ext4 :: "byte list \<Rightarrow> nat \<Rightarrow> status outcome" where
  "check_compress_ext4 img_base parti_size =
     (let h = file_header img_base in
      if fh_magic h \<noteq> EXT4_FILE_HEADER_MAGIC then Ret (-1)
      else if fh_major h \<noteq> EXT4_FILE_HEADER_MAJOR then Ret (-1)
      else if fh_file_header_size h \<noteq> EXT4_FILE_HEADER_SIZE then Ret (-1)
      else if fh_chunk_header_size h \<noteq> EXT4_CHUNK_HEADER_SIZE then Ret (-1)
      else if fh_block_size h \<noteq> EXT4_FILE_BLOCK_SIZE then Ret (-1)
      else if parti_size div fh_block_size h < fh_total_blocks h then Hang
      else Ret 0)"

datatype boot_device = BOOT_UFS | BOOT_EMMC | BOOT_OTHER

text \<open>The open result is not checked: an unlisted device is a null dereference.\<close>

definition write_raw_chunk ::
    "boot_device \<Rightarrow> 't storage \<Rightarrow> nat \<Rightarrow> byte list \<Rightarrow> nat \<Rightarrow> nat \<Rightarrow> (status \<times> 't storage) outcome" where
  "write_raw_chunk boot_dev st addr data sector sector_size =
     (if boot_dev = BOOT_OTHER then Ret (0, st)
      else
        case st_open st (if boot_dev = BOOT_UFS then ''scsi0'' else ''mmc0'') of
          (None, st) \<Rightarrow> Fault
        | (Some a, st) \<Rightarrow>
            (case dev_new_write st a addr data sector sector_size of (blks, st) \<Rightarrow>
               let st = st_close st a in
               Ret (if blks \<noteq> sector_size then -1 else 0, st)))"

text \<open>
  The buffer in which a FILL chunk is laid out, and to which an unaligned RAW chunk is copied on
  eMMC, is at the fixed address \<^verbatim>\<open>CFG_FASTBOOT_MMC_BUFFER\<close>. Nothing limits what is written there;
  \<^verbatim>\<open>MEMBASE\<close>, where the boot loader itself lies, is 505 MiB further up.
\<close>

definition CFG_FASTBOOT_MMC_BUFFER :: nat where "CFG_FASTBOOT_MMC_BUFFER = 0xC2000000"
definition MEMBASE :: nat where "MEMBASE = 0xE1900000"

definition i_buf_room :: nat where
  "i_buf_room = MEMBASE - CFG_FASTBOOT_MMC_BUFFER"

lemma i_buf_room_eq: "i_buf_room = 0x1F900000"
  by (simp add: i_buf_room_def MEMBASE_def CFG_FASTBOOT_MMC_BUFFER_def)

text \<open>
  One chunk, at the head of \<open>img\<close>; the result of the write is ignored. A chunk that does not fit
  into the buffer overwrites the boot loader. (A fill loop whose 32-bit counter could wrap would do
  so long before.)
\<close>

definition write_chunk ::
    "boot_device \<Rightarrow> nat \<Rightarrow> byte list \<Rightarrow> nat \<Rightarrow> nat \<Rightarrow> 't storage \<Rightarrow> 't storage outcome" where
  "write_chunk boot_dev addr img sector_base sector_size st =
     (let ty = ch_type (chunk_header img) in
      if ty = EXT4_CHUNK_TYPE_RAW then
        (if boot_dev \<noteq> BOOT_UFS \<and> addr mod 8 \<noteq> 0 \<and> i_buf_room < sector_size * 512 then Fault
         else
           case write_raw_chunk boot_dev st addr (drop EXT4_CHUNK_HEADER_SIZE img) sector_base
                  sector_size of
             Ret (r, st) \<Rightarrow> Ret st | Fault \<Rightarrow> Fault | Hang \<Rightarrow> Hang)
      else if ty = EXT4_CHUNK_TYPE_FILL then
        (if i_buf_room < sector_size * 512 then Fault
         else
           case write_raw_chunk boot_dev st CFG_FASTBOOT_MMC_BUFFER
                  (concat (replicate (sector_size * 512 div 4)
                     (slice_at EXT4_CHUNK_HEADER_SIZE 4 img))) sector_base sector_size of
             Ret (r, st) \<Rightarrow> Ret st | Fault \<Rightarrow> Fault | Hang \<Rightarrow> Hang)
      else Ret st)"

fun write_chunk_loop ::
    "boot_device \<Rightarrow> nat \<Rightarrow> nat \<Rightarrow> nat \<Rightarrow> byte list \<Rightarrow> nat \<Rightarrow> 't storage \<Rightarrow> 't storage outcome" where
  "write_chunk_loop boot_dev bsz 0 addr img sector_base st = Ret st"
| "write_chunk_loop boot_dev bsz (Suc n) addr img sector_base st =
     (let h = chunk_header img;
          sector_size = (mul64 (ch_chunk_size h) bsz div 512) mod 2 ^ 32 in
      case write_chunk boot_dev (addr + 12) img sector_base sector_size st of
        Ret st \<Rightarrow> write_chunk_loop boot_dev bsz n (addr + ch_total_size h)
                   (drop (ch_total_size h) img) (add32 sector_base sector_size) st
      | Fault \<Rightarrow> Fault | Hang \<Rightarrow> Hang)"

definition write_compressed_ext4 ::
    "boot_device \<Rightarrow> nat \<Rightarrow> byte list \<Rightarrow> nat \<Rightarrow> 't storage \<Rightarrow> (status \<times> 't storage) outcome" where
  "write_compressed_ext4 boot_dev addr img_base sector_base st =
     (let h = file_header img_base in
      case write_chunk_loop boot_dev (fh_block_size h) (fh_total_chunks h)
             (addr + EXT4_FILE_HEADER_SIZE) (drop EXT4_FILE_HEADER_SIZE img_base) sector_base st of
        Ret st \<Rightarrow> Ret (0, st) | Fault \<Rightarrow> Fault | Hang \<Rightarrow> Hang)"

section \<open>Specification: chunks and their meaning\<close>

datatype chunk = Raw "byte list" | Fill "byte list" nat | Skip nat

fun chunk_blocks :: "chunk \<Rightarrow> nat" where
  "chunk_blocks (Raw d) = length d div 4096"
| "chunk_blocks (Fill p n) = n"
| "chunk_blocks (Skip n) = n"

fun chunk_wf :: "chunk \<Rightarrow> bool" where
  "chunk_wf (Raw d) \<longleftrightarrow> 4096 dvd length d \<and> length d + 12 < 2 ^ 32"
| "chunk_wf (Fill p n) \<longleftrightarrow> length p = 4 \<and> n * 4096 \<le> i_buf_room"
| "chunk_wf (Skip n) \<longleftrightarrow> n < 2 ^ 29"

fun encode_chunk :: "chunk \<Rightarrow> byte list" where
  "encode_chunk (Raw d) =
     le16 0xCAC1 @ le16 0 @ le32 (length d div 4096) @ le32 (12 + length d) @ d"
| "encode_chunk (Fill p n) = le16 0xCAC2 @ le16 0 @ le32 n @ le32 16 @ p"
| "encode_chunk (Skip n) = le16 0xCAC3 @ le16 0 @ le32 n @ le32 12"

text \<open>\<open>tb\<close> is the size the header declares, in blocks.\<close>

definition encode_image :: "nat \<Rightarrow> chunk list \<Rightarrow> byte list" where
  "encode_image tb cs =
     le32 0xED26FF3A @ le16 1 @ le16 0 @ le16 28 @ le16 12 @ le32 4096
     @ le32 tb @ le32 (length cs) @ le32 0 @ concat (map encode_chunk cs)"

fun apply_chunk :: "byte list \<Rightarrow> nat \<Rightarrow> chunk \<Rightarrow> byte list" where
  "apply_chunk I pos (Raw d) = splice_at I pos d"
| "apply_chunk I pos (Fill p n) = splice_at I pos (concat (replicate (n * 1024) p))"
| "apply_chunk I pos (Skip n) = I"

fun apply_chunks :: "byte list \<Rightarrow> nat \<Rightarrow> chunk list \<Rightarrow> byte list" where
  "apply_chunks I pos [] = I"
| "apply_chunks I pos (c # cs) =
     apply_chunks (apply_chunk I pos c) (pos + chunk_blocks c * 4096) cs"

section \<open>The loop implements the specification\<close>

lemma length_concat_replicate [simp]: "length (concat (replicate n p)) = n * length p"
  by (induction n) auto

lemma length_encode_chunk: "length (encode_chunk c) = (case c of Raw d \<Rightarrow> 12 + length d
    | Fill p n \<Rightarrow> 12 + length p | Skip n \<Rightarrow> 12)"
  by (cases c) auto

lemma chunk_header_encode:
  assumes "chunk_wf c"
  shows "chunk_header (encode_chunk c @ rest) =
    \<lparr>ch_type = (case c of Raw d \<Rightarrow> 0xCAC1 | Fill p n \<Rightarrow> 0xCAC2 | Skip n \<Rightarrow> 0xCAC3),
     ch_chunk_size = chunk_blocks c, ch_total_size = length (encode_chunk c)\<rparr>"
  using assms by (cases c) (auto simp: chunk_header_def le16_at_skip le32_at_skip i_buf_room_eq elim!: dvdE)

lemma chunk_sectors:
  assumes "chunk_wf c"
  shows "(mul64 (chunk_blocks c) 4096 div 512) mod 4294967296 = chunk_blocks c * 8"
proof -
  have "chunk_blocks c * 8 < 2 ^ 32" using assms by (cases c) (auto simp: i_buf_room_eq elim!: dvdE)
  then have "mul64 (chunk_blocks c) 4096 = chunk_blocks c * 4096" by (intro mul64_id) simp
  moreover have "chunk_blocks c * 4096 div 512 = chunk_blocks c * 8" by simp
  ultimately show ?thesis using \<open>chunk_blocks c * 8 < 2 ^ 32\<close> by simp
qed

lemma write_raw_chunk_ok:
  assumes lu: "lu_at st ''scsi0'' a img ok" and "sec + n \<le> lu_sectors st a"
    and "n * 512 \<le> length data"
  shows "\<exists>t. write_raw_chunk BOOT_UFS st addr data sec n = Ret (0, st\<lparr>starget := t\<rparr>) \<and> ok t
      \<and> img t = splice_at (img (starget st)) (sec * 512) (slice_at 0 (n * 512) data)"
proof -
  obtain t where "dev_new_write (opened st a) a addr data sec n = (n, (opened st a)\<lparr>starget := t\<rparr>)"
      "ok t" "img t = splice_at (img (starget st)) (sec * 512) (slice_at 0 (n * 512) data)"
    using lu_write [OF assms] by blast
  then show ?thesis by (auto simp: write_raw_chunk_def lu_open [OF lu] lu_close [OF lu] Let_def)
qed

lemma slice_append_same: "n = length xs \<Longrightarrow> slice_at 0 n (xs @ ys) = xs"
  by (simp add: slice_at_def)

lemma write_chunk_ok:
  assumes lu: "lu_at st ''scsi0'' a img ok" and wf: "chunk_wf c"
    and "sec + chunk_blocks c * 8 \<le> lu_sectors st a"
  shows "\<exists>t. write_chunk BOOT_UFS addr (encode_chunk c @ rest) sec (chunk_blocks c * 8) st
        = Ret (st\<lparr>starget := t\<rparr>) \<and> ok t
      \<and> img t = apply_chunk (img (starget st)) (sec * 512) c"
proof (cases c)
  case (Raw d)
  have len: "chunk_blocks c * 8 * 512 = length d" using wf Raw by (auto elim!: dvdE)
  have dr: "drop 12 (encode_chunk c @ rest) = d @ rest" using Raw by simp
  obtain t where "write_raw_chunk BOOT_UFS st addr (d @ rest) sec (chunk_blocks c * 8)
      = Ret (0, st\<lparr>starget := t\<rparr>)" "ok t" "img t = splice_at (img (starget st)) (sec * 512) d"
    using write_raw_chunk_ok [OF lu assms(3), of "d @ rest" addr] len
    by (auto simp: slice_append_same)
  then show ?thesis using Raw wf dr
    by (auto simp: write_chunk_def chunk_header_encode ext4_consts simp del: encode_chunk.simps)
next
  case (Fill p n)
  let ?f = "concat (replicate (n * 1024) p)"
  have sl: "slice_at 12 4 (encode_chunk c @ rest) = p" using Fill wf by (simp add: slice_at_def)
  have len: "length ?f = n * 8 * 512" using Fill wf by simp
  obtain t where "write_raw_chunk BOOT_UFS st CFG_FASTBOOT_MMC_BUFFER ?f sec (n * 8)
      = Ret (0, st\<lparr>starget := t\<rparr>)" "ok t" "img t = splice_at (img (starget st)) (sec * 512) ?f"
    using write_raw_chunk_ok [OF lu, of sec "n * 8" ?f CFG_FASTBOOT_MMC_BUFFER] assms(3) len Fill
      slice_all [of ?f] by auto
  then show ?thesis using Fill wf sl
    by (auto simp: write_chunk_def chunk_header_encode ext4_consts mult.commute [of 1024 n]
        simp del: encode_chunk.simps)
next
  case (Skip n)
  then show ?thesis using wf lu
    by (intro exI [of _ "starget st"])
       (auto simp: write_chunk_def chunk_header_encode ext4_consts lu_at_def
         simp del: encode_chunk.simps)
qed

lemma write_chunk_loop_ok:
  assumes "lu_at st ''scsi0'' a img ok" and "\<forall>c \<in> set cs. chunk_wf c"
    and "sec + sum_list (map chunk_blocks cs) * 8 \<le> lu_sectors st a"
  shows "\<exists>t. write_chunk_loop BOOT_UFS 4096 (length cs) addr
          (concat (map encode_chunk cs) @ rest) sec st = Ret (st\<lparr>starget := t\<rparr>) \<and> ok t
      \<and> img t = apply_chunks (img (starget st)) (sec * 512) cs"
  using assms
proof (induction cs arbitrary: addr sec st)
  case Nil
  then show ?case by (intro exI [of _ "starget st"]) (auto simp: lu_at_def)
next
  case (Cons c cs)
  let ?more = "concat (map encode_chunk cs) @ rest"
  have wf: "chunk_wf c" using Cons.prems(2) by simp
  have fit: "sec + chunk_blocks c * 8 \<le> lu_sectors st a" using Cons.prems(3) by simp
  obtain t where w: "write_chunk BOOT_UFS (addr + 12) (encode_chunk c @ ?more) sec
        (chunk_blocks c * 8) st = Ret (st\<lparr>starget := t\<rparr>)" "ok t"
      "img t = apply_chunk (img (starget st)) (sec * 512) c"
    using write_chunk_ok [OF Cons.prems(1) wf fit] by blast
  have lu: "lu_at (st\<lparr>starget := t\<rparr>) ''scsi0'' a img ok" by (rule lu_target [OF Cons.prems(1) w(2)])
  have add: "add32 sec (chunk_blocks c * 8) = sec + chunk_blocks c * 8"
    using fit lu_small [OF Cons.prems(1)] by (intro add32_id) linarith
  obtain t' where "write_chunk_loop BOOT_UFS 4096 (length cs) (addr + length (encode_chunk c)) ?more
        (sec + chunk_blocks c * 8) (st\<lparr>starget := t\<rparr>) = Ret (st\<lparr>starget := t'\<rparr>)" "ok t'"
      "img t' = apply_chunks (img t) ((sec + chunk_blocks c * 8) * 512) cs"
    using Cons.IH [OF lu, of "sec + chunk_blocks c * 8" "addr + length (encode_chunk c)"]
      Cons.prems(2,3) by auto
  then show ?case
    using w by (auto simp: chunk_header_encode [OF wf] chunk_sectors [OF wf] add Let_def
        algebra_simps)
qed

lemma file_header_encode:
  assumes "tb < 2 ^ 32" and "length cs < 2 ^ 32"
  shows "file_header (encode_image tb cs @ rest) =
    \<lparr>fh_magic = 0xED26FF3A, fh_major = 1, fh_file_header_size = 28, fh_chunk_header_size = 12,
     fh_block_size = 4096, fh_total_blocks = tb, fh_total_chunks = length cs\<rparr>"
  using assms by (simp add: file_header_def encode_image_def le16_at_skip le32_at_skip)

lemma check_compress_ok:
  assumes "tb < 2 ^ 32" and "length cs < 2 ^ 32"
  shows "check_compress_ext4 (encode_image tb cs @ rest) parti_size
    = (if tb \<le> parti_size div 4096 then Ret 0 else Hang)"
  by (simp add: check_compress_ext4_def file_header_encode [OF assms] ext4_consts)

lemma write_compressed_ok:
  assumes "lu_at st ''scsi0'' a img ok" and "\<forall>c \<in> set cs. chunk_wf c"
    and "sec + sum_list (map chunk_blocks cs) * 8 \<le> lu_sectors st a" and "length cs < 2 ^ 32"
    and "tb < 2 ^ 32"
  shows "\<exists>t. write_compressed_ext4 BOOT_UFS addr (encode_image tb cs @ rest) sec st
        = Ret (0, st\<lparr>starget := t\<rparr>) \<and> ok t
      \<and> img t = apply_chunks (img (starget st)) (sec * 512) cs"
proof -
  note h = file_header_encode [OF assms(5,4), of rest]
  have "drop 28 (encode_image tb cs @ rest) = concat (map encode_chunk cs) @ rest"
    by (simp add: encode_image_def)
  then show ?thesis
    using write_chunk_loop_ok [OF assms(1-3), of "addr + 28" rest]
    by (auto simp: write_compressed_ext4_def h ext4_consts)
qed

text \<open>A FILL chunk that is longer than the buffer runs into the boot loader, whatever else the image
holds; the size check of the header does not see it.\<close>

lemma long_fill_overwrites_loader:
  assumes "i_buf_room < n * 4096" and "n < 2 ^ 29" and "length p = 4" and "length cs + 1 < 2 ^ 32" and "tb < 2 ^ 32"
  shows "write_compressed_ext4 bd addr (encode_image tb (Fill p n # cs) @ rest) sec st = Fault"
proof -
  let ?m = "encode_chunk (Fill p n) @ concat (map encode_chunk cs) @ rest"
  note h = file_header_encode [of tb "Fill p n # cs" rest]
  have d: "drop 28 (encode_image tb (Fill p n # cs) @ rest) = ?m" by (simp add: encode_image_def)
  have c: "chunk_header ?m = \<lparr>ch_type = 0xCAC2, ch_chunk_size = n, ch_total_size = 16\<rparr>"
    using assms(2,3) by (simp add: chunk_header_def le16_at_skip le32_at_skip)
  have "mul64 n 4096 = n * 4096" using assms(2) by (intro mul64_id) simp
  then have n: "(mul64 n 4096 div 512) mod 2 ^ 32 = n * 8" using assms(2) by simp
  have "write_chunk bd a ?m sec (n * 8) st = Fault" for a
    using assms(1) by (simp add: write_chunk_def c ext4_consts del: encode_chunk.simps)
  then show ?thesis using assms(4,5) n
    by (simp add: write_compressed_ext4_def h d c ext4_consts Let_def del: encode_chunk.simps drop_append)
qed

section \<open>Properties\<close>

text \<open>Claim C11: flashing the encoding of a list of well-formed chunks returns and leaves on
the boot device exactly what the chunks mean: RAW data and FILL patterns replace their
blocks, NONE blocks and everything outside the image keep their content. A FILL chunk is well
formed when it has at most 505 MiB: the buffer it is laid out in is followed by the boot loader,
and the writer, which does not look at the size, overwrites that with a longer one.\<close>

theorem sparse_image_expanded:
  assumes "lu_at st ''scsi0'' a img ok" and "list_all chunk_wf cs"
    and "sec + sum_list (map chunk_blocks cs) * 8 \<le> lu_sectors st a" and "length cs < 2 ^ 32"
    and "tb < 2 ^ 32"
  shows "\<exists>t. write_compressed_ext4 BOOT_UFS addr (encode_image tb cs @ rest) sec st
        = Ret (0, st\<lparr>starget := t\<rparr>) \<and> ok t
      \<and> img t = apply_chunks (img (starget st)) (sec * 512) cs"
  using write_compressed_ok [of st a img ok cs sec tb addr rest] assms by (simp add: list_all_iff)

theorem sparse_image_expanded_witness:
  "\<exists>t. write_compressed_ext4 BOOT_UFS 0
        (encode_image 6 [Raw (replicate 4096 9), Skip 3, Fill [1, 2, 3, 4] 2] @ []) 64 ram_storage
      = Ret (0, ram_storage\<lparr>starget := t\<rparr>) \<and> ram_ok 4096 2048 t
      \<and> t = apply_chunks (starget ram_storage) (64 * 512)
          [Raw (replicate 4096 9), Skip 3, Fill [1, 2, 3, 4] 2]"
  by (rule sparse_image_expanded [OF ram_lu]) (simp_all add: i_buf_room_eq)

text \<open>Claim C23: the size check of the sparse writer looks at the header only. An image whose
header declares one block passes the check against a partition of one block, and its
single FILL chunk of two blocks is then written past the end of that partition.\<close>

theorem sparse_size_check_insufficient:
  "check_compress_ext4 (encode_image 1 [Fill [1, 1, 1, 1] 2]) 4096 = Ret 0 \<and>
   (\<exists>t. write_compressed_ext4 BOOT_UFS 0 (encode_image 1 [Fill [1, 1, 1, 1] 2]) 64 ram_storage
      = Ret (0, ram_storage\<lparr>starget := t\<rparr>)
      \<and> slice_at (64 * 512 + 4096) 4096 t = replicate 4096 1)"
proof -
  let ?cs = "[Fill [1, 1, 1, 1] 2]"
  have ch: "check_compress_ext4 (encode_image 1 ?cs) 4096 = Ret 0"
    using check_compress_ok [of 1 ?cs "[]" 4096] by simp
  obtain t where t: "write_compressed_ext4 BOOT_UFS 0 (encode_image 1 ?cs) 64 ram_storage
      = Ret (0, ram_storage\<lparr>starget := t\<rparr>)" "t = apply_chunks ram_disk (64 * 512) ?cs"
    using write_compressed_ok [OF ram_lu, of ?cs 64 1 0 "[]"] by (auto simp: i_buf_room_eq)
  have rep: "concat (replicate n [1, 1, 1, 1 :: byte]) = replicate (4 * n) 1" for n
    by (induction n) (simp_all add: replicate_add numeral_eq_Suc)
  have "t = splice_at ram_disk 32768 (replicate 8192 1)"
    using t(2) rep [of 2048] by simp
  then have "slice_at (64 * 512 + 4096) 4096 t = slice_at 4096 4096 (replicate 8192 1)"
    using slice_splice_sub [of 32768 "replicate 8192 1" ram_disk 4096 4096] by simp
  then show ?thesis using ch t(1) by (auto simp: slice_at_def)
qed

end
