(* ===== verification/Pit.thy ===== *)
theory Pit
  imports Sparse
begin

text \<open>
  The partition table \<^verbatim>\<open>lib/gpt/pit.c\<close>: reading the table from the boot disk, lookup by
  name with the two virtual partitions that split the raw boot partition (the first 2 MiB
  hold this boot loader, \<open>LK3RD\<close>, the rest is \<open>BOOT\<close>), and whole-partition and partial
  access. Positions on disk are counted in 4096-byte blocks in the table and in 512-byte
  sectors in requests. \<^verbatim>\<open>malloc\<close> is taken to succeed.
\<close>

definition PIT_UFS_BLK_SIZE :: nat where "PIT_UFS_BLK_SIZE = 4096"
definition PIT_UFS_FMP_USE_SIZE :: nat where "PIT_UFS_FMP_USE_SIZE = 40"
definition PIT_SECTOR_SIZE :: nat where "PIT_SECTOR_SIZE = 512"
definition PIT_MAGIC :: nat where "PIT_MAGIC = 0x12349876"
definition PIT_MAX_PART_NUM :: nat where "PIT_MAX_PART_NUM = 60"
definition PIT_SIZE_LIMIT :: nat where "PIT_SIZE_LIMIT = 64 * 512"
definition PIT_DISK_LOC :: nat where "PIT_DISK_LOC = 48"
definition FS_TYPE_SPARSE_EXT4 :: nat where "FS_TYPE_SPARSE_EXT4 = 5"
definition FS_TYPE_SPARSE_F2FS :: nat where "FS_TYPE_SPARSE_F2FS = 6"

lemmas pit_consts = PIT_UFS_BLK_SIZE_def PIT_UFS_FMP_USE_SIZE_def PIT_SECTOR_SIZE_def
  PIT_MAGIC_def PIT_MAX_PART_NUM_def PIT_SIZE_LIMIT_def PIT_DISK_LOC_def
  FS_TYPE_SPARSE_EXT4_def FS_TYPE_SPARSE_F2FS_def

record pit_entry =
  filesys :: nat
  blkstart :: nat
  blknum :: nat
  lun :: nat
  ename :: string

record pit_info =
  pit_magic :: nat
  pit_count :: nat
  pte :: "pit_entry list"

record pit_state =
  table :: pit_info
  pit_blk_count :: nat
  pit_available :: bool

text \<open>The packed structures: 28 bytes of header, then 132 bytes per entry.\<close>

definition pit_entry_at :: "byte list \<Rightarrow> nat \<Rightarrow> pit_entry" where
  "pit_entry_at m i =
     (let o' = 28 + 132 * i in
      \<lparr>filesys = le32_at m (o' + 16), blkstart = le32_at m (o' + 20), blknum = le32_at m (o' + 24),
       lun = le32_at m (o' + 28), ename = cstr_at (drop (o' + 36) m)\<rparr>)"

definition pit_info_of :: "byte list \<Rightarrow> pit_info" where
  "pit_info_of m =
     \<lparr>pit_magic = le32_at m 0, pit_count = le32_at m 4,
      pte = map (pit_entry_at m) [0..<PIT_MAX_PART_NUM]\<rparr>"

definition sizeof_pit_info :: nat where
  "sizeof_pit_info = 28 + 132 * PIT_MAX_PART_NUM"

section \<open>Lookup\<close>

definition pit_scan :: "pit_state \<Rightarrow> string \<Rightarrow> pit_entry option" where
  "pit_scan p nm = find (\<lambda>e. strcicmp nm (ename e) = 0) (take (pit_count (table p)) (pte (table p)))"

text \<open>
  The raw lookup of \<^verbatim>\<open>boot\<close> runs with \<^verbatim>\<open>read_raw_boot_partition\<close> set, so it is the
  plain scan. A missing boot entry is copied from a null pointer.
\<close>

definition pit_get_virtual_partition_entry :: "pit_state \<Rightarrow> nat \<Rightarrow> pit_entry outcome" where
  "pit_get_virtual_partition_entry p which =
     (case (if pit_available p then pit_scan p ''boot'' else None) of
        None \<Rightarrow> Fault
      | Some pet \<Rightarrow>
          if which = 1 then
            Ret (pet\<lparr>blkstart := add32 (blkstart pet) (0x200000 div PIT_UFS_BLK_SIZE),
                     blknum := sub32 (blknum pet) (0x200000 div PIT_UFS_BLK_SIZE),
                     ename := ''BOOT''\<rparr>)
          else if which = 2 then
            Ret (pet\<lparr>blknum := 0x200000 div PIT_UFS_BLK_SIZE, ename := ''LK3RD''\<rparr>)
          else Ret pet)"

definition need_to_lie :: "string \<Rightarrow> nat" where
  "need_to_lie nm =
     (if strcicmp nm ''boot'' = 0 then 1 else if strcicmp nm ''lk3rd'' = 0 then 2 else 0)"

definition pit_get_part_info :: "pit_state \<Rightarrow> string \<Rightarrow> pit_entry option outcome" where
  "pit_get_part_info p nm =
     (if \<not> pit_available p then Ret None
      else if pit_count (table p) = 0 then Ret None
      else if need_to_lie nm \<noteq> 0 then
        (case pit_get_virtual_partition_entry p (need_to_lie nm) of
           Ret e \<Rightarrow> Ret (Some e) | Fault \<Rightarrow> Fault | Hang \<Rightarrow> Hang)
      else Ret (pit_scan p nm))"

section \<open>Initialisation\<close>

definition pit_set_final_block_count :: "pit_state \<Rightarrow> (status \<times> pit_state) outcome" where
  "pit_set_final_block_count p =
     (case pit_get_part_info p ''PIT'' of
        Ret None \<Rightarrow> Ret (ERR_NOT_VALID, p)
      | Ret (Some ptn) \<Rightarrow> Ret (NO_ERROR, p\<lparr>pit_blk_count := blknum ptn\<rparr>)
      | Fault \<Rightarrow> Fault | Hang \<Rightarrow> Hang)"

definition pit_check_header :: "pit_state \<Rightarrow> status \<times> pit_state" where
  "pit_check_header p =
     (if pit_magic (table p) \<noteq> PIT_MAGIC then (ERR_NOT_VALID, p)
      else if PIT_MAX_PART_NUM < pit_count (table p) then (ERR_TOO_BIG, p)
      else (NO_ERROR, p\<lparr>pit_available := True\<rparr>))"

definition pit_load_blocks ::
    "pit_state \<Rightarrow> 't storage \<Rightarrow> nat \<Rightarrow> nat \<Rightarrow> byte list \<Rightarrow> status \<times> byte list \<times> 't storage" where
  "pit_load_blocks p st dev addr buf =
     (case dev_new_read st dev addr buf PIT_DISK_LOC (pit_blk_count p) of
        (blks, buf, st) \<Rightarrow> (if blks \<noteq> pit_blk_count p then ERR_IO else NO_ERROR, buf, st))"

text \<open>\<open>buf\<close> is the fresh table buffer; the panic at the end of the function is \<open>Fault\<close>.\<close>

definition pit_init ::
    "bool \<Rightarrow> pit_state \<Rightarrow> 't storage \<Rightarrow> nat \<Rightarrow> byte list \<Rightarrow> (pit_state \<times> 't storage) outcome" where
  "pit_init is_ufs p st addr buf =
     (if \<not> is_ufs then Fault
      else case st_open st ''scsi0'' of
        (None, st) \<Rightarrow> Fault
      | (Some dev, st) \<Rightarrow>
          (case pit_load_blocks p st dev addr buf of (ret, buf, st) \<Rightarrow>
             if ret \<noteq> NO_ERROR then Fault
             else
               let st = st_close st dev;
                   p = p\<lparr>table := pit_info_of (take sizeof_pit_info buf)\<rparr> in
               case pit_check_header p of (ret, p) \<Rightarrow>
                 if ret \<noteq> NO_ERROR then Fault
                 else
                   (case pit_set_final_block_count p of
                      Ret (ret, p) \<Rightarrow> if ret \<noteq> NO_ERROR then Fault else Ret (p, st)
                    | Fault \<Rightarrow> Fault | Hang \<Rightarrow> Hang)))"

section \<open>Geometry\<close>

definition pit_get_length :: "pit_state \<Rightarrow> pit_entry \<Rightarrow> nat" where
  "pit_get_length p ptn =
     (if \<not> pit_available p then 0
      else if stricmp ''userdata'' (ename ptn) = 0 then
        mul64 (sub32 (blknum ptn) PIT_UFS_FMP_USE_SIZE) PIT_UFS_BLK_SIZE
      else mul64 (blknum ptn) PIT_UFS_BLK_SIZE)"

text \<open>A range is the first sector and the number of sectors.\<close>

definition pit_get_partial_range ::
    "pit_state \<Rightarrow> pit_entry option \<Rightarrow> nat \<Rightarrow> nat \<Rightarrow> status + nat \<times> nat" where
  "pit_get_partial_range p ptn offset sz =
     (case ptn of None \<Rightarrow> Inl ERR_NOT_VALID
      | Some ptn \<Rightarrow>
        if \<not> pit_available p then Inl ERR_NOT_CONFIGURED
        else if offset mod PIT_SECTOR_SIZE \<noteq> 0 then Inl ERR_NOT_VALID
        else
          let part_size = pit_get_length p ptn in
          if part_size < offset then Inl ERR_NOT_VALID
          else if sz \<noteq> 0 \<and> sub64 part_size offset < sz then Inl ERR_NOT_VALID
          else
            let io_size = (if sz \<noteq> 0 then sz else sub64 part_size offset);
                io_size = roundup io_size PIT_SECTOR_SIZE in
            if io_size = 0 then Inl ERR_NOT_VALID
            else Inr (add64 (blkstart ptn * 8) (offset div PIT_SECTOR_SIZE),
                      io_size div PIT_SECTOR_SIZE))"

definition scsi_name :: "nat \<Rightarrow> string" where
  "scsi_name n = take 6 (''scsi'' @ dec_digits n)"

section \<open>Access\<close>

datatype pit_op = PIT_OP_FLASH | PIT_OP_ERASE | PIT_OP_LOAD | PIT_OP_UNKNOWN

text \<open>The device stays open, with its own reference, while the chunks are written.\<close>

definition pit_flash_sparse ::
    "boot_device \<Rightarrow> pit_state \<Rightarrow> 't storage \<Rightarrow> pit_entry \<Rightarrow> nat \<Rightarrow> byte list \<Rightarrow> (status \<times> 't storage) outcome" where
  "pit_flash_sparse boot_dev p st ptn addr mem =
     (case st_open st ''scsi0'' of (dev, st) \<Rightarrow>
        (case check_compress_ext4 mem (pit_get_length p ptn) of
           Ret r \<Rightarrow>
             (case (if r = 0 then write_compressed_ext4 boot_dev addr mem (mul32 (blkstart ptn) 8) st
                    else Ret (1, st)) of
                Ret (res, st) \<Rightarrow>
                  (case dev of None \<Rightarrow> Fault | Some a \<Rightarrow> Ret (res, st_close st a))
              | Fault \<Rightarrow> Fault | Hang \<Rightarrow> Hang)
         | Fault \<Rightarrow> Fault | Hang \<Rightarrow> Hang))"

definition is_sparse_fs :: "pit_entry \<Rightarrow> bool" where
  "is_sparse_fs ptn \<longleftrightarrow> filesys ptn = FS_TYPE_SPARSE_EXT4 \<or> filesys ptn = FS_TYPE_SPARSE_F2FS"

text \<open>
  The result is the status, the memory at \<open>addr\<close> and the storage. An unknown operation
  returns with the device still open.
\<close>

definition pit_access ::
    "boot_device \<Rightarrow> pit_state \<Rightarrow> 't storage \<Rightarrow> pit_entry \<Rightarrow> pit_op \<Rightarrow> nat \<Rightarrow> byte list
      \<Rightarrow> (status \<times> byte list \<times> 't storage) outcome" where
  "pit_access boot_dev p st ptn op addr mem =
     (if \<not> pit_available p then Ret (ERR_NOT_CONFIGURED, mem, st)
      else if op = PIT_OP_FLASH \<and> is_sparse_fs ptn then
        (case pit_flash_sparse boot_dev p st ptn addr mem of
           Ret (r, st) \<Rightarrow> Ret (r, mem, st) | Fault \<Rightarrow> Fault | Hang \<Rightarrow> Hang)
      else case st_open st (scsi_name (lun ptn)) of
        (None, st) \<Rightarrow> Ret (ERR_IO, mem, st)
      | (Some dev, st) \<Rightarrow>
          let start = mul32 (blkstart ptn) 8; num = mul32 (blknum ptn) 8;
              finish = (\<lambda>(r, mem, st). Ret (if r \<noteq> num then ERR_IO else NO_ERROR, mem, st_close st dev))
          in case op of
              PIT_OP_FLASH \<Rightarrow>
                (case dev_new_write st dev addr mem start num of (r, st) \<Rightarrow> finish (r, mem, st))
            | PIT_OP_ERASE \<Rightarrow>
                (case dev_new_erase st dev start num of
                   Ret (r, st) \<Rightarrow> finish (r, mem, st) | Fault \<Rightarrow> Fault | Hang \<Rightarrow> Hang)
            | PIT_OP_LOAD \<Rightarrow>
                (case dev_new_read st dev addr mem start num of (r, mem, st) \<Rightarrow> finish (r, mem, st))
            | PIT_OP_UNKNOWN \<Rightarrow> Ret (ERR_NOT_VALID, mem, st))"

text \<open>Sector numbers and counts are passed to the hooks as 32-bit values.\<close>

definition pit_entry_write ::
    "boot_device \<Rightarrow> pit_state \<Rightarrow> 't storage \<Rightarrow> pit_entry option \<Rightarrow> nat \<Rightarrow> byte list \<Rightarrow> nat \<Rightarrow> nat
      \<Rightarrow> (status \<times> 't storage) outcome" where
  "pit_entry_write boot_dev p st ptn addr buf offset sz =
     (case ptn of None \<Rightarrow> Ret (ERR_NOT_VALID, st)
      | Some e \<Rightarrow>
        if \<not> pit_available p then Ret (ERR_NOT_CONFIGURED, st)
        else if is_sparse_fs e then pit_flash_sparse boot_dev p st e addr buf
        else case pit_get_partial_range p ptn offset sz of
          Inl err \<Rightarrow> Ret (err, st)
        | Inr (start, num) \<Rightarrow>
            (case st_open st (scsi_name (lun e)) of
               (None, st) \<Rightarrow> Ret (ERR_IO, st)
             | (Some dev, st) \<Rightarrow>
                 (case dev_new_write st dev addr buf (start mod 2 ^ 32) (num mod 2 ^ 32) of (r, st) \<Rightarrow>
                    Ret (if r \<noteq> num then ERR_IO else NO_ERROR, st_close st dev))))"

definition pit_entry_read ::
    "pit_state \<Rightarrow> 't storage \<Rightarrow> pit_entry option \<Rightarrow> nat \<Rightarrow> byte list \<Rightarrow> nat \<Rightarrow> nat
      \<Rightarrow> status \<times> byte list \<times> 't storage" where
  "pit_entry_read p st ptn addr buf offset sz =
     (case ptn of None \<Rightarrow> (ERR_NOT_VALID, buf, st)
      | Some e \<Rightarrow>
        if \<not> pit_available p then (ERR_NOT_CONFIGURED, buf, st)
        else case pit_get_partial_range p ptn offset sz of
          Inl err \<Rightarrow> (err, buf, st)
        | Inr (start, num) \<Rightarrow>
            (case st_open st (scsi_name (lun e)) of
               (None, st) \<Rightarrow> (ERR_IO, buf, st)
             | (Some dev, st) \<Rightarrow>
                 (case dev_new_read st dev addr buf (start mod 2 ^ 32) (num mod 2 ^ 32) of
                    (r, buf, st) \<Rightarrow>
                      (if r \<noteq> num then ERR_IO else NO_ERROR, buf, st_close st dev))))"

definition pit_entry_erase ::
    "pit_state \<Rightarrow> 't storage \<Rightarrow> pit_entry option \<Rightarrow> nat \<Rightarrow> nat \<Rightarrow> (status \<times> 't storage) outcome" where
  "pit_entry_erase p st ptn offset sz =
     (case ptn of None \<Rightarrow> Ret (ERR_NOT_VALID, st)
      | Some e \<Rightarrow>
        if \<not> pit_available p then Ret (ERR_NOT_CONFIGURED, st)
        else case pit_get_partial_range p ptn offset sz of
          Inl err \<Rightarrow> Ret (err, st)
        | Inr (start, num) \<Rightarrow>
            (case st_open st (scsi_name (lun e)) of
               (None, st) \<Rightarrow> Ret (ERR_IO, st)
             | (Some dev, st) \<Rightarrow>
                 (case dev_new_erase st dev (start mod 2 ^ 32) (num mod 2 ^ 32) of
                    Ret (r, st) \<Rightarrow> Ret (if r \<noteq> num then ERR_IO else NO_ERROR, st_close st dev)
                  | Fault \<Rightarrow> Fault | Hang \<Rightarrow> Hang)))"

definition pit_update :: "byte list \<Rightarrow> nat \<Rightarrow> status" where
  "pit_update buf sz = 0"

end
