(* ===== verification/Pit_Correct.thy ===== *)
theory Pit_Correct
  imports Pit
begin

text \<open>
  Correctness of the partition layer over the storage stack: partial ranges stay inside
  the partition, a write followed by a read returns the data, an access to one partition
  leaves every disjoint one alone, and the virtual partitions \<open>LK3RD\<close> and \<open>BOOT\<close> tile the
  raw boot partition, so that flashing a boot image cannot overwrite the boot loader.
\<close>

section \<open>Ranges\<close>

text \<open>
  An entry read from the table has 32-bit fields. The length of \<^verbatim>\<open>userdata\<close> excludes 40
  blocks, so it is only meaningful when the partition has them.
\<close>

definition entry_wf :: "pit_entry \<Rightarrow> bool" where
  "entry_wf e \<longleftrightarrow> blkstart e < 2 ^ 32 \<and> blknum e < 2 ^ 32
     \<and> (stricmp ''userdata'' (ename e) = 0 \<longrightarrow> 40 \<le> blknum e)"

lemma length_in_entry:
  assumes "entry_wf e"
  shows "\<exists>k \<le> blknum e. pit_get_length p e = k * 4096"
proof -
  have b: "blknum e < 2 ^ 32" using assms by (simp add: entry_wf_def)
  have m: "mul64 k 4096 = k * 4096" if "k < 2 ^ 32" for k
    using that by (intro mul64_id) simp
  show ?thesis
  proof (cases "stricmp ''userdata'' (ename e) = 0")
    case True
    then have "sub32 (blknum e) 40 = blknum e - 40"
      using assms b by (intro sub32_id) (auto simp: entry_wf_def)
    then show ?thesis using True b m [of "blknum e - 40"]
      by (auto simp: pit_get_length_def pit_consts)
  next
    case False
    then show ?thesis using b m [of "blknum e"] by (auto simp: pit_get_length_def pit_consts)
  qed
qed

text \<open>With fewer blocks the subtraction wraps and the length is close to 16 TiB.\<close>

definition short_userdata :: "pit_entry \<Rightarrow> bool" where
  "short_userdata e \<longleftrightarrow> stricmp ''userdata'' (ename e) = 0 \<and> blknum e < 40"

lemma short_userdata_wraps:
  assumes "short_userdata e" and "pit_available p" and "blkstart e < 2 ^ 32"
  shows "pit_get_partial_range p (Some e) 0 (40 * 4096) = Inr (blkstart e * 8, 320)"
proof -
  have "sub32 (blknum e) 40 = blknum e + (2 ^ 32 - 40)" using assms(1) by (simp add: sub32_def short_userdata_def)
  then have "pit_get_length p e = (blknum e + (2 ^ 32 - 40)) * 4096"
    using assms(1,2) mul64_id [of "blknum e + (2 ^ 32 - 40)" 4096]
    by (simp add: pit_get_length_def pit_consts short_userdata_def)
  then show ?thesis using assms
    by (simp add: pit_get_partial_range_def pit_consts sub64_id add64_id roundup_def short_userdata_def)
qed

lemma partial_range_ok:
  assumes wf: "entry_wf e" and r: "pit_get_partial_range p (Some e) off sz = Inr (s, n)"
  shows "s = blkstart e * 8 + off div 512" and "0 < n" and "off mod 512 = 0"
    and "s + n \<le> (blkstart e + blknum e) * 8"
    and "n * 512 = roundup (if sz = 0 then pit_get_length p e - off else sz) 512"
proof -
  obtain k where k: "k \<le> blknum e" "pit_get_length p e = k * 4096"
    using length_in_entry [OF wf] by blast
  have b: "blkstart e < 2 ^ 32" "blknum e < 2 ^ 32" using wf by (auto simp: entry_wf_def)
  let ?io = "if sz = 0 then pit_get_length p e - off else sz"
  from r k have off: "off mod 512 = 0" "off \<le> k * 4096"
    by (auto simp: pit_get_partial_range_def pit_consts Let_def split: if_splits)
  have sub: "sub64 (k * 4096) off = k * 4096 - off" using off(2) k(1) b(2) by (intro sub64_id) auto
  have io: "?io \<le> k * 4096 - off" "roundup ?io 512 \<noteq> 0" and n: "n = roundup ?io 512 div 512"
    and s: "s = add64 (blkstart e * 8) (off div 512)"
    using r k sub
    by (auto simp: pit_get_partial_range_def pit_consts Let_def split: if_splits)
  obtain q where q: "off = q * 512" using off(1) by (auto simp: mod_eq_0_iff_dvd elim!: dvdE)
  have "512 dvd k * 4096 - off"
    unfolding q by (rule dvd_diff_nat) (simp_all add: dvd_mult)
  then have up: "roundup ?io 512 \<le> k * 4096 - off" using io(1) by (intro roundup_le) auto
  have nn: "n * 512 = roundup ?io 512" using n roundup_dvd [of 512 ?io] by (simp add: dvd_div_mult_self)
  then show "n * 512 = roundup ?io 512" .
  show "0 < n" using nn io(2) by (cases n) auto
  show "off mod 512 = 0" by (rule off(1))
  have "off div 512 + n \<le> k * 8" using up nn off(2) q by linarith
  moreover have "k * 8 < 2 ^ 35" using k(1) b(2) by simp
  ultimately show s': "s = blkstart e * 8 + off div 512"
    unfolding s using b(1) by (intro add64_id) simp
  then show "s + n \<le> (blkstart e + blknum e) * 8"
    using \<open>off div 512 + n \<le> k * 8\<close> k(1) by (simp add: algebra_simps)
qed

section \<open>Partial access\<close>

definition entry_fits :: "'t storage \<Rightarrow> nat \<Rightarrow> pit_entry \<Rightarrow> bool" where
  "entry_fits st a e \<longleftrightarrow> entry_wf e \<and> (blkstart e + blknum e) * 8 \<le> lu_sectors st a"

lemma fits_range:
  assumes lu: "lu_at st nm a img ok" and fits: "entry_fits st a e"
    and r: "pit_get_partial_range p (Some e) off sz = Inr (s, n)"
  shows "s + n \<le> lu_sectors st a" and "s mod 2 ^ 32 = s" and "n mod 2 ^ 32 = n"
proof -
  have "s + n \<le> (blkstart e + blknum e) * 8"
    using partial_range_ok(4) [OF _ r] fits by (simp add: entry_fits_def)
  then show *: "s + n \<le> lu_sectors st a" using fits by (simp add: entry_fits_def)
  show "s mod 2 ^ 32 = s" "n mod 2 ^ 32 = n"
    using * lu_small [OF lu] by (intro mod_less; linarith)+
qed

lemma entry_write_ok:
  assumes lu: "lu_at st (scsi_name (lun e)) a img ok" and fits: "entry_fits st a e"
    and av: "pit_available p" and ns: "\<not> is_sparse_fs e"
    and r: "pit_get_partial_range p (Some e) off sz = Inr (s, n)" and "n * 512 \<le> length buf"
  shows "\<exists>t. pit_entry_write bd p st (Some e) addr buf off sz = Ret (0, st\<lparr>starget := t\<rparr>) \<and> ok t
      \<and> img t = splice_at (img (starget st)) (s * 512) (slice_at 0 (n * 512) buf)"
proof -
  note f = fits_range [OF lu fits r]
  obtain t where "dev_new_write (opened st a) a addr buf s n = (n, (opened st a)\<lparr>starget := t\<rparr>)"
      "ok t" "img t = splice_at (img (starget st)) (s * 512) (slice_at 0 (n * 512) buf)"
    using lu_write [OF lu f(1) assms(6)] by blast
  then show ?thesis using av ns r f(2,3)
    by (auto simp: pit_entry_write_def lu_open [OF lu] lu_close [OF lu])
qed

lemma entry_read_ok:
  assumes lu: "lu_at st (scsi_name (lun e)) a img ok" and fits: "entry_fits st a e"
    and av: "pit_available p"
    and r: "pit_get_partial_range p (Some e) off sz = Inr (s, n)" and "n * 512 \<le> length buf"
  shows "\<exists>t. pit_entry_read p st (Some e) addr buf off sz
      = (0, splice_at buf 0 (slice_at (s * 512) (n * 512) (img (starget st))), st\<lparr>starget := t\<rparr>)
      \<and> ok t \<and> img t = img (starget st)"
proof -
  note f = fits_range [OF lu fits r]
  have "0 < n" using partial_range_ok(2) [OF _ r] fits by (simp add: entry_fits_def)
  then obtain t where "dev_new_read (opened st a) a addr buf s n
      = (n, splice_at buf 0 (slice_at (s * 512) (n * 512) (img (starget st))),
         (opened st a)\<lparr>starget := t\<rparr>)"
      "ok t" "img t = img (starget st)"
    using lu_read [OF lu _ f(1) assms(5)] by blast
  then show ?thesis using av r f(2,3)
    by (auto simp: pit_entry_read_def lu_open [OF lu] lu_close [OF lu])
qed

lemma entry_erase_ok:
  assumes lu: "lu_at st (scsi_name (lun e)) a img ok" and fits: "entry_fits st a e"
    and av: "pit_available p"
    and r: "pit_get_partial_range p (Some e) off sz = Inr (s, n)"
    and "n + native_blocks (bdev_at (sbio st) a) < 2 ^ 32"
  shows "\<exists>t es. pit_entry_erase p st (Some e) off sz = Ret (0, st\<lparr>starget := t\<rparr>) \<and> ok t
      \<and> length es = n * 512 \<and> img t = splice_at (img (starget st)) (s * 512) es"
proof -
  note f = fits_range [OF lu fits r]
  obtain t es where "dev_new_erase (opened st a) a s n = Ret (n, (opened st a)\<lparr>starget := t\<rparr>)"
      "ok t" "length es = n * 512" "img t = splice_at (img (starget st)) (s * 512) es"
    using lu_erase [OF lu f(1) assms(5)] by blast
  then show ?thesis using av r f(2,3)
    by (auto simp: pit_entry_erase_def lu_open [OF lu] lu_close [OF lu])
qed

section \<open>Whole partitions\<close>

lemma fits_whole:
  assumes lu: "lu_at st nm a img ok" and fits: "entry_fits st a e"
  shows "mul32 (blkstart e) 8 = blkstart e * 8" and "mul32 (blknum e) 8 = blknum e * 8"
    and "blkstart e * 8 + blknum e * 8 \<le> lu_sectors st a"
proof -
  show *: "blkstart e * 8 + blknum e * 8 \<le> lu_sectors st a"
    using fits by (simp add: entry_fits_def)
  show "mul32 (blkstart e) 8 = blkstart e * 8" "mul32 (blknum e) 8 = blknum e * 8"
    using * lu_small [OF lu] by (intro mul32_id; linarith)+
qed

lemma access_flash_ok:
  assumes lu: "lu_at st (scsi_name (lun e)) a img ok" and fits: "entry_fits st a e"
    and av: "pit_available p" and ns: "\<not> is_sparse_fs e" and "blknum e * 4096 \<le> length mem"
  shows "\<exists>t. pit_access bd p st e PIT_OP_FLASH addr mem = Ret (0, mem, st\<lparr>starget := t\<rparr>) \<and> ok t
      \<and> img t = splice_at (img (starget st)) (blkstart e * 4096) (take (blknum e * 4096) mem)"
proof -
  note f = fits_whole [OF lu fits]
  obtain t where "dev_new_write (opened st a) a addr mem (blkstart e * 8) (blknum e * 8)
      = (blknum e * 8, (opened st a)\<lparr>starget := t\<rparr>)" "ok t"
      "img t = splice_at (img (starget st)) (blkstart e * 4096) (take (blknum e * 4096) mem)"
    using lu_write [OF lu f(3), of mem addr] assms(5)
    by (auto simp: slice_at_def mult.commute [of 4096])
  then show ?thesis using av ns f(1,2)
    by (auto simp: pit_access_def lu_open [OF lu] lu_close [OF lu] Let_def)
qed

lemma access_load_ok:
  assumes lu: "lu_at st (scsi_name (lun e)) a img ok" and fits: "entry_fits st a e"
    and av: "pit_available p" and "0 < blknum e" and "blknum e * 4096 \<le> length mem"
  shows "\<exists>t. pit_access bd p st e PIT_OP_LOAD addr mem
      = Ret (0, splice_at mem 0 (slice_at (blkstart e * 4096) (blknum e * 4096) (img (starget st))),
             st\<lparr>starget := t\<rparr>)
      \<and> ok t \<and> img t = img (starget st)"
proof -
  note f = fits_whole [OF lu fits]
  obtain t where "dev_new_read (opened st a) a addr mem (blkstart e * 8) (blknum e * 8)
      = (blknum e * 8, splice_at mem 0 (slice_at (blkstart e * 4096) (blknum e * 4096)
           (img (starget st))), (opened st a)\<lparr>starget := t\<rparr>)"
      "ok t" "img t = img (starget st)"
    using lu_read [OF lu _ f(3), of mem addr] assms(4,5)
    by (auto simp: mult.commute [of 4096])
  then show ?thesis using av f(1,2)
    by (auto simp: pit_access_def lu_open [OF lu] lu_close [OF lu] Let_def)
qed

section \<open>Virtual partitions\<close>

lemma lie_cases:
  "need_to_lie ''boot'' = 1" "need_to_lie ''BOOT'' = 1" "need_to_lie ''lk3rd'' = 2"
  "need_to_lie ''LK3RD'' = 2" "need_to_lie ''PIT'' = 0"
  by code_simp+

lemma virtual_split:
  assumes "pit_available p" and "pit_count (table p) \<noteq> 0" and "pit_scan p ''boot'' = Some e"
    and "blkstart e + blknum e < 2 ^ 32" and "512 \<le> blknum e"
  shows "pit_get_part_info p ''lk3rd''
      = Ret (Some (e\<lparr>blknum := 512, ename := ''LK3RD''\<rparr>))"
    and "pit_get_part_info p ''boot''
      = Ret (Some (e\<lparr>blkstart := blkstart e + 512, blknum := blknum e - 512, ename := ''BOOT''\<rparr>))"
  using assms
  by (simp_all add: pit_get_part_info_def lie_cases pit_get_virtual_partition_entry_def pit_consts
      wrap_simps)

section \<open>Initialisation\<close>

text \<open>What \<^verbatim>\<open>pit_init\<close> reads: the table at sector 48 of the boot disk.\<close>

definition disk_pit :: "byte list \<Rightarrow> pit_info" where
  "disk_pit I = pit_info_of (slice_at (48 * 512) sizeof_pit_info I)"

lemma load_blocks_ok:
  assumes lu: "lu_at st ''scsi0'' a img ok" and "pit_blk_count p = 64" and "length buf = PIT_SIZE_LIMIT"
    and "112 \<le> lu_sectors st a"
  shows "\<exists>t. pit_load_blocks p (opened st a) a addr buf
      = (0, slice_at (48 * 512) (64 * 512) (img (starget st)), (opened st a)\<lparr>starget := t\<rparr>)
      \<and> ok t \<and> img t = img (starget st)"
proof -
  let ?d = "slice_at (48 * 512) (64 * 512) (img (starget st))"
  have "length ?d = 64 * 512" using lu_length [OF lu] assms(4) by simp
  then have "splice_at buf 0 ?d = ?d" using assms(3) by (simp add: splice_at_def pit_consts)
  then show ?thesis
    using lu_read [OF lu, of 64 48 buf addr] assms(2-4)
    by (auto simp: pit_load_blocks_def pit_consts)
qed

lemma pit_init_ok:
  assumes lu: "lu_at st ''scsi0'' a img ok" and "pit_blk_count p = 64" and "length buf = PIT_SIZE_LIMIT"
    and "112 \<le> lu_sectors st a"
    and hdr: "pit_magic (disk_pit (img (starget st))) = PIT_MAGIC"
      "pit_count (disk_pit (img (starget st))) \<le> PIT_MAX_PART_NUM"
    and ptn: "pit_scan (p\<lparr>table := disk_pit (img (starget st))\<rparr>) ''PIT'' = Some e"
  shows "\<exists>t. pit_init True p st addr buf
      = Ret (p\<lparr>table := disk_pit (img (starget st)), pit_available := True, pit_blk_count := blknum e\<rparr>,
             st\<lparr>starget := t\<rparr>)
      \<and> ok t \<and> img t = img (starget st)"
proof -
  let ?I = "img (starget st)"
  obtain t where ld: "pit_load_blocks p (opened st a) a addr buf
      = (0, slice_at (48 * 512) (64 * 512) ?I, (opened st a)\<lparr>starget := t\<rparr>)" "ok t" "img t = ?I"
    using load_blocks_ok [OF assms(1-4)] by blast
  have tk: "pit_info_of (take sizeof_pit_info (slice_at 24576 32768 ?I)) = disk_pit ?I"
    by (simp add: disk_pit_def slice_at_def sizeof_pit_info_def pit_consts)
  have c: "pit_count (disk_pit ?I) \<noteq> 0" using ptn by (intro notI) (simp add: pit_scan_def)
  let ?p = "p\<lparr>table := disk_pit ?I, pit_available := True\<rparr>"
  have "pit_scan ?p ''PIT'' = Some e" using ptn by (simp add: pit_scan_def)
  then have fin: "pit_set_final_block_count ?p = Ret (0, ?p\<lparr>pit_blk_count := blknum e\<rparr>)"
    using c by (simp add: pit_set_final_block_count_def pit_get_part_info_def lie_cases)
  have chk: "pit_check_header (p\<lparr>table := disk_pit ?I\<rparr>) = (0, ?p)"
    using hdr by (simp add: pit_check_header_def)
  show ?thesis
    using ld by (auto simp: pit_init_def lu_open [OF lu] lu_close [OF lu] tk chk fin Let_def)
qed

text \<open>Whenever initialisation returns, the table it leaves is a checked one.\<close>

lemma pit_init_checked:
  assumes "pit_init u p st addr buf = Ret (p', st')"
  shows "pit_available p'" and "pit_magic (table p') = PIT_MAGIC"
    and "pit_count (table p') \<le> PIT_MAX_PART_NUM" and "length (pte (table p')) = PIT_MAX_PART_NUM"
  using assms
  by (auto simp: pit_init_def pit_check_header_def pit_set_final_block_count_def Let_def
      pit_info_of_def split: prod.splits option.splits if_splits outcome.splits)

section \<open>A concrete table\<close>

definition ram_boot :: pit_entry where
  "ram_boot = \<lparr>filesys = 0, blkstart = 100, blknum = 1024, lun = 0, ename = ''BOOT''\<rparr>"

definition ram_pit :: pit_state where
  "ram_pit =
     \<lparr>table = \<lparr>pit_magic = PIT_MAGIC, pit_count = 2,
        pte = [\<lparr>filesys = 0, blkstart = 6, blknum = 8, lun = 0, ename = ''PIT''\<rparr>, ram_boot]\<rparr>,
      pit_blk_count = 8, pit_available = True\<rparr>"

lemma boot_names: "strcicmp ''boot'' ''PIT'' \<noteq> 0" "strcicmp ''boot'' ''BOOT'' = 0"
  by code_simp+

lemma ram_pit_scan: "pit_scan ram_pit ''boot'' = Some ram_boot"
  using boot_names by (simp add: pit_scan_def ram_pit_def ram_boot_def)

lemma scsi_name_0 [simp]: "scsi_name 0 = ''scsi0''"
  by code_simp

lemma ram_boot_name: "stricmp ''userdata'' ''BOOT'' \<noteq> 0"
  by code_simp

lemma ram_boot_fits: "entry_fits ram_storage 0 ram_boot"
  using ram_boot_name by (simp add: entry_fits_def entry_wf_def ram_boot_def)

lemma ram_boot_lu: "lu_at ram_storage (scsi_name (lun ram_boot)) 0 (\<lambda>t. t) (ram_ok 4096 2048)"
  using ram_lu by (simp add: ram_boot_def)

lemma ram_range: "pit_get_partial_range ram_pit (Some ram_boot) 1024 700 = Inr (802, 2)"
  using ram_boot_name
  by (simp add: pit_get_partial_range_def ram_pit_def ram_boot_def pit_get_length_def pit_consts
      mul64_def sub64_def add64_def roundup_def)

definition tiny_userdata :: pit_entry where
  "tiny_userdata = \<lparr>filesys = 0, blkstart = 100, blknum = 8, lun = 0, ename = ''USERDATA''\<rparr>"

lemma tiny_userdata_short: "short_userdata tiny_userdata"
  by code_simp

section \<open>Properties\<close>

text \<open>Claim C22: a partial range that is accepted starts inside the partition at the requested
offset, is not empty, is the requested size rounded up to whole sectors (or the remainder
of the partition for size 0), and ends inside the partition. This holds for every entry with
32-bit fields but one: the partition \<^verbatim>\<open>userdata\<close> with fewer than 40 blocks. For it the length,
from which 40 blocks are subtracted in 32 bits, wraps, and a request for 40 blocks from its start
is accepted although it ends behind the partition.\<close>

theorem partial_range_in_partition:
  assumes "blkstart e < 2 ^ 32" and "blknum e < 2 ^ 32"
  shows "(\<not> short_userdata e \<and> pit_get_partial_range p (Some e) off sz = Inr (s, n) \<longrightarrow>
      s * 512 = blkstart e * 4096 + off \<and> 0 < n \<and> s + n \<le> (blkstart e + blknum e) * 8
      \<and> n * 512 = roundup (if sz = 0 then pit_get_length p e - off else sz) 512)
    \<and> (short_userdata e \<and> pit_available p \<longrightarrow>
      pit_get_partial_range p (Some e) 0 (40 * 4096) = Inr (blkstart e * 8, 320)
      \<and> (blkstart e + blknum e) * 8 < blkstart e * 8 + 320)"
proof (intro conjI impI)
  assume a: "\<not> short_userdata e \<and> pit_get_partial_range p (Some e) off sz = Inr (s, n)"
  then have wf: "entry_wf e" using assms by (auto simp: entry_wf_def short_userdata_def)
  note r = partial_range_ok [OF wf conjunct2 [OF a]]
  show "s * 512 = blkstart e * 4096 + off" using r(1,3) by (simp add: mod_eq_0_iff_dvd)
  show "0 < n" "s + n \<le> (blkstart e + blknum e) * 8"
    "n * 512 = roundup (if sz = 0 then pit_get_length p e - off else sz) 512"
    using r(2,4,5) by blast+
next
  assume "short_userdata e \<and> pit_available p"
  then show "pit_get_partial_range p (Some e) 0 (40 * 4096) = Inr (blkstart e * 8, 320)"
    using short_userdata_wraps assms(1) by blast
  show "(blkstart e + blknum e) * 8 < blkstart e * 8 + 320"
    using \<open>short_userdata e \<and> pit_available p\<close> by (simp add: short_userdata_def)
qed

theorem partial_range_in_partition_witness:
  "(802 :: nat) * 512 = blkstart ram_boot * 4096 + 1024 \<and> (0::nat) < 2
    \<and> 802 + 2 \<le> (blkstart ram_boot + blknum ram_boot) * 8
    \<and> 2 * 512 = roundup (if (700::nat) = 0 then pit_get_length ram_pit ram_boot - 1024 else 700) 512
    \<and> pit_get_partial_range ram_pit (Some tiny_userdata) 0 163840 = Inr (800, 320)
    \<and> blkstart tiny_userdata + blknum tiny_userdata = 108"
proof -
  have "\<not> short_userdata ram_boot" using ram_boot_name by (simp add: short_userdata_def ram_boot_def)
  then show ?thesis
    using partial_range_in_partition [of ram_boot ram_pit 1024 700 802 2] ram_range
      partial_range_in_partition [of tiny_userdata ram_pit] tiny_userdata_short
    by (simp add: ram_boot_def tiny_userdata_def ram_pit_def)
qed

text \<open>Claim C10: a write of part of a partition followed by a read of the same part returns
the data written, both calls succeed, the references on the device are given back, and
every byte of the medium outside the range is unchanged. This holds for the entries whose file
system type is not a sparse one and whose blocks are on the unit (and at least 40 in number, if
the entry is \<^verbatim>\<open>userdata\<close>). For a sparse one the write takes the buffer for a sparse image
and ignores offset and size, so that it does the same for every part of the partition.\<close>

theorem entry_write_read_roundtrip:
  assumes "lu_at st (scsi_name (lun e)) a img ok" and "entry_fits st a e" and "pit_available p"
    and "pit_get_partial_range p (Some e) off sz = Inr (s, n)"
    and "length buf = n * 512" and "length buf' = n * 512"
  shows "(\<not> is_sparse_fs e \<longrightarrow>
      (\<exists>t t'. pit_entry_write bd p st (Some e) addr buf off sz = Ret (0, st\<lparr>starget := t\<rparr>)
        \<and> img t = splice_at (img (starget st)) (blkstart e * 4096 + off) buf
        \<and> pit_entry_read p (st\<lparr>starget := t\<rparr>) (Some e) addr' buf' off sz = (0, buf, st\<lparr>starget := t'\<rparr>)
        \<and> img t' = img t))
    \<and> (is_sparse_fs e \<longrightarrow>
      pit_entry_write bd p st (Some e) addr buf off sz = pit_entry_write bd p st (Some e) addr buf off' sz')"
proof (intro conjI impI)
  assume ns: "\<not> is_sparse_fs e"
  have wf: "entry_wf e" using assms(2) by (simp add: entry_fits_def)
  note r = partial_range_ok [OF wf assms(4)]
  have so: "s * 512 = blkstart e * 4096 + off"
    using r(1,3) by (simp add: mod_eq_0_iff_dvd)
  obtain t where w: "pit_entry_write bd p st (Some e) addr buf off sz = Ret (0, st\<lparr>starget := t\<rparr>)"
      "ok t" "img t = splice_at (img (starget st)) (s * 512) (slice_at 0 (n * 512) buf)"
    using entry_write_ok [OF assms(1-3) ns assms(4), of buf bd addr] assms(5) by auto
  have it: "img t = splice_at (img (starget st)) (s * 512) buf"
    using w(3) assms(5) slice_all [of buf] by simp
  have lu: "lu_at (st\<lparr>starget := t\<rparr>) (scsi_name (lun e)) a img ok"
    by (rule lu_target [OF assms(1) w(2)])
  have fits: "entry_fits (st\<lparr>starget := t\<rparr>) a e" using assms(2) by (simp add: entry_fits_def)
  have in_img: "s * 512 + length buf \<le> length (img (starget st))"
    using fits_range(1) [OF assms(1,2,4)] lu_length [OF assms(1)] assms(5) by simp
  have again: "slice_at (s * 512) (n * 512) (img t) = buf"
    using slice_splice_same [OF in_img] assms(5) by (simp add: it)
  obtain t' where "pit_entry_read p (st\<lparr>starget := t\<rparr>) (Some e) addr' buf' off sz
      = (0, splice_at buf' 0 buf, st\<lparr>starget := t'\<rparr>)" "img t' = img t"
    using entry_read_ok [OF lu fits assms(3,4), of buf' addr'] assms(6) again by auto
  moreover have "splice_at buf' 0 buf = buf" using assms(5,6) by (simp add: splice_at_def)
  ultimately show "\<exists>t t'. pit_entry_write bd p st (Some e) addr buf off sz = Ret (0, st\<lparr>starget := t\<rparr>)
        \<and> img t = splice_at (img (starget st)) (blkstart e * 4096 + off) buf
        \<and> pit_entry_read p (st\<lparr>starget := t\<rparr>) (Some e) addr' buf' off sz = (0, buf, st\<lparr>starget := t'\<rparr>)
        \<and> img t' = img t"
    using w(1) it so by (intro exI [of _ t] exI [of _ t']) simp
qed (simp add: pit_entry_write_def)

theorem entry_write_read_roundtrip_witness:
  "\<exists>t t'. pit_entry_write BOOT_UFS ram_pit ram_storage (Some ram_boot) 0 (replicate 1024 7) 1024 700
      = Ret (0, ram_storage\<lparr>starget := t\<rparr>)
    \<and> t = splice_at (starget ram_storage) (blkstart ram_boot * 4096 + 1024) (replicate 1024 7)
    \<and> pit_entry_read ram_pit (ram_storage\<lparr>starget := t\<rparr>) (Some ram_boot) 0 (replicate 1024 0) 1024 700
      = (0, replicate 1024 7, ram_storage\<lparr>starget := t'\<rparr>)
    \<and> t' = t"
  by (rule mp [OF conjunct1 [OF entry_write_read_roundtrip [OF ram_boot_lu ram_boot_fits _ ram_range]]])
     (simp_all add: ram_pit_def ram_boot_def is_sparse_fs_def pit_consts)

definition pit_disk :: "byte list" where
  "pit_disk = splice_at ram_disk 24576
     (le32 0x12349876 @ le32 1 @ replicate 20 0
      @ replicate 16 0 @ le32 0 @ le32 6 @ le32 8 @ le32 0 @ le32 0 @ [80, 73, 84, 0] @ replicate 92 0
      @ replicate 7788 0)"

lemma pit_disk_table:
  "pit_magic (disk_pit pit_disk) = PIT_MAGIC" "pit_count (disk_pit pit_disk) = 1"
  "take 1 (pte (disk_pit pit_disk))
     = [\<lparr>filesys = 0, blkstart = 6, blknum = 8, lun = 0, ename = ''PIT''\<rparr>]"
proof -
  let ?t = "le32 0x12349876 @ le32 1 @ replicate 20 0
      @ replicate 16 0 @ le32 0 @ le32 6 @ le32 8 @ le32 0 @ le32 0 @ [80, 73, 84, 0] @ replicate 92 0
      @ replicate 7788 (0 :: byte)"
  have "length ?t = 7948" by simp
  then have s: "slice_at 24576 7948 pit_disk = ?t"
    unfolding pit_disk_def using slice_splice_same [of 24576 ?t ram_disk] by simp
  have "slice_at (48 * 512) sizeof_pit_info pit_disk = ?t"
    using s by (simp add: sizeof_pit_info_def pit_consts)
  then have d: "disk_pit pit_disk = pit_info_of ?t" by (simp only: disk_pit_def)
  show "pit_magic (disk_pit pit_disk) = PIT_MAGIC" "pit_count (disk_pit pit_disk) = 1"
    by (simp_all add: d pit_info_of_def le32_at_skip pit_consts)
  have first: "take 1 (pte (pit_info_of ?t)) = [pit_entry_at ?t 0]"
    by (simp add: pit_info_of_def pit_consts upt_rec)
  have "takeWhile (\<lambda>w. w \<noteq> 0) ([80, 73, 84, 0] @ xs) = [80, 73, 84 :: byte]" for xs
    by simp
  moreover have "map (\<lambda>w. char_of (unat w)) [80, 73, 84 :: byte] = ''PIT''" by code_simp
  ultimately have "ename (pit_entry_at ?t 0) = ''PIT''"
    by (simp add: pit_entry_at_def cstr_at_def del: list.map)
  with first show "take 1 (pte (disk_pit pit_disk))
     = [\<lparr>filesys = 0, blkstart = 6, blknum = 8, lun = 0, ename = ''PIT''\<rparr>]"
    by (simp add: d pit_entry_at_def le32_at_skip)
qed

definition pit_storage :: "byte list storage" where
  "pit_storage = ram_storage\<lparr>starget := pit_disk\<rparr>"

definition blank_pit :: pit_state where
  "blank_pit = \<lparr>table = \<lparr>pit_magic = 0, pit_count = 0, pte = []\<rparr>, pit_blk_count = 64,
     pit_available = False\<rparr>"

lemma pit_storage_lu: "lu_at pit_storage ''scsi0'' 0 (\<lambda>t. t) (ram_ok 4096 2048)"
  unfolding pit_storage_def
  by (rule lu_target [OF ram_lu]) (simp add: ram_ok_def pit_disk_def length_splice)

lemma pit_disk_scan: "pit_scan (blank_pit\<lparr>table := disk_pit pit_disk\<rparr>) ''PIT''
    = Some \<lparr>filesys = 0, blkstart = 6, blknum = 8, lun = 0, ename = ''PIT''\<rparr>"
proof -
  have "strcicmp ''PIT'' ''PIT'' = 0" by code_simp
  then show ?thesis using pit_disk_table(2,3) by (simp add: pit_scan_def)
qed

lemma pit_storage_target [simp]: "starget pit_storage = pit_disk" "lu_sectors pit_storage 0 = 16384"
  by (simp_all add: pit_storage_def)

text \<open>Claim C21: on a boot disk that carries a valid table with an entry named PIT at sector
48, initialisation returns with exactly that table loaded and available, the block count
taken from the PIT entry, and the medium and the device list unchanged.\<close>

theorem pit_init_loads_table:
  assumes "lu_at st ''scsi0'' a img ok" and "pit_blk_count p = 64" and "length buf = PIT_SIZE_LIMIT"
    and "112 \<le> lu_sectors st a"
    and "pit_magic (disk_pit (img (starget st))) = PIT_MAGIC"
    and "pit_count (disk_pit (img (starget st))) \<le> PIT_MAX_PART_NUM"
    and "pit_scan (p\<lparr>table := disk_pit (img (starget st))\<rparr>) ''PIT'' = Some e"
  shows "\<exists>t. pit_init True p st addr buf
      = Ret (p\<lparr>table := disk_pit (img (starget st)), pit_available := True, pit_blk_count := blknum e\<rparr>,
             st\<lparr>starget := t\<rparr>)
      \<and> ok t \<and> img t = img (starget st)"
  using assms by (rule pit_init_ok)

theorem pit_init_loads_table_witness:
  "\<exists>t. pit_init True blank_pit pit_storage 0 (replicate 32768 0)
      = Ret (blank_pit\<lparr>table := disk_pit (starget pit_storage), pit_available := True,
               pit_blk_count := blknum \<lparr>filesys = 0, blkstart = 6, blknum = 8, lun = 0, ename = ''PIT''\<rparr>\<rparr>,
             pit_storage\<lparr>starget := t\<rparr>)
      \<and> ram_ok 4096 2048 t \<and> t = starget pit_storage"
  by (rule pit_init_loads_table [OF pit_storage_lu])
     (use pit_disk_table pit_disk_scan in \<open>simp_all add: blank_pit_def pit_consts\<close>)

text \<open>Whenever the table is initialised (instead of panicking), it is marked
available, carries the magic number, and its entry count stays within the 60 slots the
table has, so that every lookup reads inside the table.\<close>

theorem pit_init_table_valid:
  assumes "pit_init u p st addr buf = Ret (p', st')"
  shows "pit_available p' \<and> pit_magic (table p') = PIT_MAGIC
    \<and> pit_count (table p') \<le> length (pte (table p'))"
  using pit_init_checked [OF assms] by simp

theorem pit_init_table_valid_witness:
  "\<exists>p' st'. pit_init True blank_pit pit_storage 0 (replicate 32768 0) = Ret (p', st')
    \<and> pit_available p' \<and> pit_magic (table p') = PIT_MAGIC
    \<and> pit_count (table p') \<le> length (pte (table p'))"
proof -
  have "\<exists>p' st'. pit_init True blank_pit pit_storage 0 (replicate 32768 0) = Ret (p', st')"
    using pit_init_ok [OF pit_storage_lu, of blank_pit "replicate 32768 0"] pit_disk_table
      pit_disk_scan
    by (fastforce simp: blank_pit_def pit_consts)
  then show ?thesis using pit_init_table_valid by blast
qed

end
