(* ===== verification/Part.thy ===== *)
theory Part
  imports Pit_Correct
begin

text \<open>
  The partition interface \<^verbatim>\<open>lib/gpt/part.c\<close>, in its PIT configuration, and its client
  \<^verbatim>\<open>lib/lk3rd/persistent_storage.c\<close> with the two settings kept there
  (\<^verbatim>\<open>kaslr_status.c\<close>, \<^verbatim>\<open>mainline_quirks.c\<close>). A partition handle is the entry pointer, so
  \<open>None\<close> is the null pointer and using it is a fault.
\<close>

section \<open>Handles\<close>

definition part_get :: "pit_state \<Rightarrow> string \<Rightarrow> pit_entry option outcome" where
  "part_get p nm = pit_get_part_info p nm"

definition part_get_size_in_bytes :: "pit_state \<Rightarrow> pit_entry option \<Rightarrow> nat outcome" where
  "part_get_size_in_bytes p part =
     (case part of None \<Rightarrow> if pit_available p then Fault else Ret 0
      | Some e \<Rightarrow> Ret (pit_get_length p e))"

definition part_get_start_in_blks :: "pit_entry \<Rightarrow> nat" where
  "part_get_start_in_blks e = blkstart e div (4096 div 512)"

definition part_get_start_in_secs :: "pit_entry \<Rightarrow> nat" where
  "part_get_start_in_secs e = blkstart e"

definition pit_fs_type_tokens :: "string list" where
  "pit_fs_type_tokens = ['''', '''', '''', '''', '''', ''ext4'', ''f2fs'']"

definition part_get_fs_type :: "pit_entry \<Rightarrow> string outcome" where
  "part_get_fs_type e =
     (if filesys e < length pit_fs_type_tokens then Ret (pit_fs_type_tokens ! filesys e) else Fault)"

section \<open>Access\<close>

definition part_write ::
    "boot_device \<Rightarrow> pit_state \<Rightarrow> 't storage \<Rightarrow> pit_entry option \<Rightarrow> nat \<Rightarrow> byte list \<Rightarrow> 't storage outcome" where
  "part_write bd p st part addr mem =
     (case part of None \<Rightarrow> Fault
      | Some e \<Rightarrow> (case pit_access bd p st e PIT_OP_FLASH addr mem of
          Ret (r, mem, st) \<Rightarrow> Ret st | Fault \<Rightarrow> Fault | Hang \<Rightarrow> Hang))"

definition part_write_partial ::
    "boot_device \<Rightarrow> pit_state \<Rightarrow> 't storage \<Rightarrow> pit_entry option \<Rightarrow> nat \<Rightarrow> byte list \<Rightarrow> nat \<Rightarrow> nat
      \<Rightarrow> (status \<times> 't storage) outcome" where
  "part_write_partial bd p st part addr buf offset sz =
     pit_entry_write bd p st part addr buf offset sz"

definition part_read ::
    "boot_device \<Rightarrow> pit_state \<Rightarrow> 't storage \<Rightarrow> pit_entry option \<Rightarrow> nat \<Rightarrow> byte list
      \<Rightarrow> (status \<times> byte list \<times> 't storage) outcome" where
  "part_read bd p st part addr mem =
     (case part of None \<Rightarrow> Fault | Some e \<Rightarrow> pit_access bd p st e PIT_OP_LOAD addr mem)"

definition part_read_partial ::
    "pit_state \<Rightarrow> 't storage \<Rightarrow> pit_entry option \<Rightarrow> nat \<Rightarrow> byte list \<Rightarrow> nat \<Rightarrow> nat
      \<Rightarrow> status \<times> byte list \<times> 't storage" where
  "part_read_partial p st part addr buf offset sz = pit_entry_read p st part addr buf offset sz"

definition part_erase ::
    "boot_device \<Rightarrow> pit_state \<Rightarrow> 't storage \<Rightarrow> pit_entry option \<Rightarrow> (status \<times> 't storage) outcome" where
  "part_erase bd p st part =
     (case part of None \<Rightarrow> Fault
      | Some e \<Rightarrow> (case pit_access bd p st e PIT_OP_ERASE 0 [] of
          Ret (r, mem, st) \<Rightarrow> Ret (r, st) | Fault \<Rightarrow> Fault | Hang \<Rightarrow> Hang))"

definition part_get_pt_type :: "string \<Rightarrow> bool" where
  "part_get_pt_type nm = (nm = ''pit'')"

section \<open>The boot device\<close>

definition DEV_MMC :: nat where "DEV_MMC = 0"
definition DEV_UFS :: nat where "DEV_UFS = 4"
definition DEV_NONE :: nat where "DEV_NONE = 5"

record part_state =
  s_def_boot_dev_id :: nat
  s_boot_dev_id :: nat
  s_bdev :: "nat option"

definition part_dev_tokens :: "string list" where
  "part_dev_tokens = [''mmc'', ''scsi'', ''unknown'']"

text \<open>Reading the token table past its end is a fault.\<close>

definition part_dev_name :: "nat \<Rightarrow> char \<Rightarrow> string outcome" where
  "part_dev_name k digit =
     (if k < length part_dev_tokens then Ret (part_dev_tokens ! k @ [digit]) else Fault)"

definition part_set_def_dev :: "part_state \<Rightarrow> nat \<Rightarrow> part_state" where
  "part_set_def_dev ps k = ps\<lparr>s_def_boot_dev_id := k\<rparr>"

definition part_get_dev :: "part_state \<Rightarrow> nat" where
  "part_get_dev ps = (if s_def_boot_dev_id ps \<noteq> 0xFFFFFFFF then s_boot_dev_id ps else 0xFFFFFFFF)"

definition part_open_dev_once ::
    "part_state \<Rightarrow> 't storage \<Rightarrow> (status \<times> part_state \<times> 't storage) outcome" where
  "part_open_dev_once ps st =
     (if s_boot_dev_id ps = DEV_NONE then Ret (-1, ps, st)
      else case part_dev_name (s_boot_dev_id ps) (CHR ''0'') of
        Ret str \<Rightarrow>
          (case st_open st str of
             (None, st) \<Rightarrow> Ret (-1, ps\<lparr>s_bdev := None\<rparr>, st)
           | (Some a, st) \<Rightarrow> Ret (0, ps\<lparr>s_bdev := Some a\<rparr>, st_close st a))
      | Fault \<Rightarrow> Fault | Hang \<Rightarrow> Hang)"

definition part_init ::
    "part_state \<Rightarrow> pit_state \<Rightarrow> 't storage \<Rightarrow> nat \<Rightarrow> byte list
      \<Rightarrow> (part_state \<times> pit_state \<times> 't storage) outcome" where
  "part_init ps p st addr buf =
     (let ps = (if s_def_boot_dev_id ps = 0xFFFFFFFF then ps\<lparr>s_def_boot_dev_id := DEV_UFS\<rparr> else ps);
          ps = ps\<lparr>s_boot_dev_id := DEV_UFS\<rparr> in
      case part_open_dev_once ps st of
        Ret (r, ps, st) \<Rightarrow>
          (case pit_init True p st addr buf of
             Ret (p, st) \<Rightarrow> Ret (ps, p, st) | Fault \<Rightarrow> Fault | Hang \<Rightarrow> Hang)
      | Fault \<Rightarrow> Fault | Hang \<Rightarrow> Hang)"

definition wipe_dev ::
    "'t storage \<Rightarrow> string \<Rightarrow> ('t bdev \<Rightarrow> nat) \<Rightarrow> status \<Rightarrow> status \<times> 't storage" where
  "wipe_dev st str cnt res =
     (case st_open st str of
        (None, st) \<Rightarrow> (res, st)
      | (Some a, st) \<Rightarrow>
          let dev = bdev_at (sbio st) a in
          (case new_erase_native dev (starget st) 0 (cnt dev) of
             (res, t) \<Rightarrow> (res, st_close (st\<lparr>starget := t\<rparr>) a)))"

definition part_wipe_boot :: "part_state \<Rightarrow> 't storage \<Rightarrow> (status \<times> 't storage) outcome" where
  "part_wipe_boot ps st =
     (if s_boot_dev_id ps = DEV_NONE then Ret (-1, st)
      else case part_dev_name (s_boot_dev_id ps) (CHR ''1'') of
        Ret str1 \<Rightarrow>
          (case wipe_dev st str1 (\<lambda>_. 1) (-1) of (res, st) \<Rightarrow>
             (case part_dev_name (s_boot_dev_id ps) (CHR ''0'') of
                Ret str0 \<Rightarrow> Ret (wipe_dev st str0 (\<lambda>dev. 48 * PIT_SECTOR_SIZE div block_size dev) res)
              | Fault \<Rightarrow> Fault | Hang \<Rightarrow> Hang))
      | Fault \<Rightarrow> Fault | Hang \<Rightarrow> Hang)"

definition part_get_block_size :: "part_state \<Rightarrow> 't storage \<Rightarrow> nat outcome" where
  "part_get_block_size ps st =
     (case s_bdev ps of None \<Rightarrow> Fault | Some a \<Rightarrow> Ret (block_size (bdev_at (sbio st) a) mod 2 ^ 32))"

definition part_get_erase_size :: "part_state \<Rightarrow> 't storage \<Rightarrow> nat outcome" where
  "part_get_erase_size ps st =
     (case s_bdev ps of None \<Rightarrow> Fault | Some a \<Rightarrow> Ret (erase_size (bdev_at (sbio st) a)))"

section \<open>Persistent settings\<close>

text \<open>
  The settings live at offset 0x175000 of the boot loader's own partition. \<open>mem\<close> is the
  memory at the fixed buffer address; the results of the reads and writes are ignored.
\<close>

definition PERSISTENT_STORAGE_OFFSET :: nat where "PERSISTENT_STORAGE_OFFSET = 0x175000"
definition TEMP_BUFFER_OFFSET :: nat where "TEMP_BUFFER_OFFSET = 0x94000000"
definition LK3RD_MAINLINE_QUIRKS :: nat where "LK3RD_MAINLINE_QUIRKS = 0"
definition LK3RD_KASLR_STATUS :: nat where "LK3RD_KASLR_STATUS = 1"

definition setting_pos :: "nat \<Rightarrow> nat" where
  "setting_pos entry = (PERSISTENT_STORAGE_OFFSET div 4 + entry) * 4"

definition int_at :: "byte list \<Rightarrow> nat \<Rightarrow> int" where
  "int_at m i = signed_take_bit 31 (int (le32_at m i))"

definition int_bytes :: "int \<Rightarrow> byte list" where
  "int_bytes v = le32 (nat (v mod 2 ^ 32))"

definition persistent_storage_read ::
    "boot_device \<Rightarrow> pit_state \<Rightarrow> 't storage \<Rightarrow> byte list \<Rightarrow> nat \<Rightarrow> (int \<times> byte list \<times> 't storage) outcome" where
  "persistent_storage_read bd p st mem entry =
     (case part_get p ''lk3rd'' of
        Ret part \<Rightarrow>
          (case part_read bd p st part TEMP_BUFFER_OFFSET mem of
             Ret (r, mem, st) \<Rightarrow> Ret (int_at mem (setting_pos entry), mem, st)
           | Fault \<Rightarrow> Fault | Hang \<Rightarrow> Hang)
      | Fault \<Rightarrow> Fault | Hang \<Rightarrow> Hang)"

definition persistent_storage_write ::
    "boot_device \<Rightarrow> pit_state \<Rightarrow> 't storage \<Rightarrow> byte list \<Rightarrow> nat \<Rightarrow> int \<Rightarrow> (int \<times> byte list \<times> 't storage) outcome" where
  "persistent_storage_write bd p st mem entry v =
     (case part_get p ''lk3rd'' of
        Ret part \<Rightarrow>
          (case part_read bd p st part TEMP_BUFFER_OFFSET mem of
             Ret (r, mem, st) \<Rightarrow>
               let mem = splice_at mem (setting_pos entry) (int_bytes v) in
               (case part_write bd p st part TEMP_BUFFER_OFFSET mem of
                  Ret st \<Rightarrow> Ret (0, mem, st) | Fault \<Rightarrow> Fault | Hang \<Rightarrow> Hang)
           | Fault \<Rightarrow> Fault | Hang \<Rightarrow> Hang)
      | Fault \<Rightarrow> Fault | Hang \<Rightarrow> Hang)"

definition switch_setting ::
    "nat \<Rightarrow> boot_device \<Rightarrow> pit_state \<Rightarrow> 't storage \<Rightarrow> byte list \<Rightarrow> bool \<Rightarrow> (int \<times> byte list \<times> 't storage) outcome" where
  "switch_setting entry bd p st mem enable =
     (case persistent_storage_write bd p st mem entry (if enable then 1 else 0) of
        Ret (r, mem, st) \<Rightarrow> persistent_storage_read bd p st mem entry
      | Fault \<Rightarrow> Fault | Hang \<Rightarrow> Hang)"

definition lk3rd_switch_kaslr_status ::
    "boot_device \<Rightarrow> pit_state \<Rightarrow> 't storage \<Rightarrow> byte list \<Rightarrow> bool \<Rightarrow> (int \<times> byte list \<times> 't storage) outcome" where
  "lk3rd_switch_kaslr_status = switch_setting LK3RD_KASLR_STATUS"

definition lk3rd_get_kaslr_status ::
    "boot_device \<Rightarrow> pit_state \<Rightarrow> 't storage \<Rightarrow> byte list \<Rightarrow> (int \<times> byte list \<times> 't storage) outcome" where
  "lk3rd_get_kaslr_status bd p st mem = persistent_storage_read bd p st mem LK3RD_KASLR_STATUS"

definition lk3rd_switch_mainline_quirks ::
    "boot_device \<Rightarrow> pit_state \<Rightarrow> 't storage \<Rightarrow> byte list \<Rightarrow> bool \<Rightarrow> (int \<times> byte list \<times> 't storage) outcome" where
  "lk3rd_switch_mainline_quirks = switch_setting LK3RD_MAINLINE_QUIRKS"

definition lk3rd_get_mainline_quirks ::
    "boot_device \<Rightarrow> pit_state \<Rightarrow> 't storage \<Rightarrow> byte list \<Rightarrow> (int \<times> byte list \<times> 't storage) outcome" where
  "lk3rd_get_mainline_quirks bd p st mem = persistent_storage_read bd p st mem LK3RD_MAINLINE_QUIRKS"

section \<open>Settings survive\<close>

lemma le32_at_slice: "i + 4 \<le> length m \<Longrightarrow> le32_at m i = le32_at (slice_at i 4 m) 0"
  by (simp add: le32_at_def nth_slice add.commute)

lemma int_at_splice:
  assumes "i + 4 \<le> length m" and "- (2 ^ 31) \<le> v" and "v < 2 ^ 31"
  shows "int_at (splice_at m i (int_bytes v)) i = v"
proof -
  let ?n = "nat (v mod 2 ^ 32)"
  have n: "?n < 4294967296" by (simp add: nat_less_iff)
  have "le32_at (splice_at m i (int_bytes v)) i = le32_at (slice_at i 4 (splice_at m i (int_bytes v))) 0"
    using assms(1) by (intro le32_at_slice) (simp add: length_splice int_bytes_def)
  also have "slice_at i 4 (splice_at m i (int_bytes v)) = int_bytes v"
    using slice_splice_same [of i "int_bytes v" m] assms(1) by (simp add: int_bytes_def)
  also have "le32_at (int_bytes v) 0 = ?n"
    using le32_at_0 [OF n, of "[]"] by (simp add: int_bytes_def)
  finally have "int_at (splice_at m i (int_bytes v)) i = signed_take_bit 31 (v mod 2 ^ 32)"
    by (simp add: int_at_def)
  also have "\<dots> = signed_take_bit 31 v"
    using signed_take_bit_take_bit [of 31 32 v] by (simp add: take_bit_eq_mod)
  also have "\<dots> = v" using assms(2,3) by (intro signed_take_bit_int_eq_self) auto
  finally show ?thesis .
qed

text \<open>
  The boot loader's partition: listed in the table with at least 2 MiB, on a device that
  holds it.
\<close>

definition lk3rd_ready ::
    "pit_state \<Rightarrow> 't storage \<Rightarrow> pit_entry \<Rightarrow> nat \<Rightarrow> ('t \<Rightarrow> byte list) \<Rightarrow> ('t \<Rightarrow> bool) \<Rightarrow> bool" where
  "lk3rd_ready p st e a img ok \<longleftrightarrow>
     pit_available p \<and> pit_count (table p) \<noteq> 0 \<and> pit_scan p ''boot'' = Some e
     \<and> 512 \<le> blknum e \<and> blkstart e + blknum e < 2 ^ 32 \<and> \<not> is_sparse_fs e
     \<and> lu_at st (scsi_name (lun e)) a img ok \<and> (blkstart e + blknum e) * 8 \<le> lu_sectors st a"

definition lk3rd_of :: "pit_entry \<Rightarrow> pit_entry" where
  "lk3rd_of e = e\<lparr>blknum := 512, ename := ''LK3RD''\<rparr>"

lemma lk3rd_not_userdata: "stricmp ''userdata'' ''LK3RD'' \<noteq> 0"
  by code_simp

lemma lk3rd_ready_fits:
  assumes "lk3rd_ready p st e a img ok"
  shows "part_get p ''lk3rd'' = Ret (Some (lk3rd_of e))"
    and "entry_fits st a (lk3rd_of e)" and "lu_at st (scsi_name (lun (lk3rd_of e))) a img ok"
    and "\<not> is_sparse_fs (lk3rd_of e)" and "pit_available p"
  using assms virtual_split(1) [of p e] lk3rd_not_userdata
  by (auto simp: lk3rd_ready_def part_get_def lk3rd_of_def entry_fits_def entry_wf_def
      is_sparse_fs_def)

lemma lk3rd_ready_target:
  "lk3rd_ready p st e a img ok \<Longrightarrow> ok t \<Longrightarrow> lk3rd_ready p (st\<lparr>starget := t\<rparr>) e a img ok"
  by (simp add: lk3rd_ready_def lu_target)

lemma storage_read_ok:
  assumes "lk3rd_ready p st e a img ok" and "length mem = 0x200000" and "n < 64"
  shows "\<exists>t. persistent_storage_read bd p st mem n
      = Ret (int_at (slice_at (blkstart e * 4096) 0x200000 (img (starget st))) (setting_pos n),
             slice_at (blkstart e * 4096) 0x200000 (img (starget st)), st\<lparr>starget := t\<rparr>)
      \<and> ok t \<and> img t = img (starget st)"
proof -
  note r = lk3rd_ready_fits [OF assms(1)]
  let ?d = "slice_at (blkstart e * 4096) 0x200000 (img (starget st))"
  have "length ?d = 0x200000"
    using lu_length [OF r(3)] r(2) by (auto simp: entry_fits_def lk3rd_of_def)
  then have "splice_at mem 0 ?d = ?d" using assms(2) by (simp add: splice_at_def)
  then obtain t where "pit_access bd p st (lk3rd_of e) PIT_OP_LOAD TEMP_BUFFER_OFFSET mem
      = Ret (0, ?d, st\<lparr>starget := t\<rparr>)" "ok t" "img t = img (starget st)"
    using access_load_ok [OF r(3,2,5), of mem bd TEMP_BUFFER_OFFSET] assms(2)
    by (auto simp: lk3rd_of_def)
  then show ?thesis by (auto simp: persistent_storage_read_def r(1) part_read_def)
qed

lemma storage_write_ok:
  assumes "lk3rd_ready p st e a img ok" and "length mem = 0x200000" and "n < 64"
  shows "\<exists>t mem'. persistent_storage_write bd p st mem n v = Ret (0, mem', st\<lparr>starget := t\<rparr>)
      \<and> ok t \<and> length mem' = 0x200000
      \<and> img t = splice_at (img (starget st)) (blkstart e * 4096 + setting_pos n) (int_bytes v)"
proof -
  note r = lk3rd_ready_fits [OF assms(1)]
  let ?I = "img (starget st)"
  let ?d = "slice_at (blkstart e * 4096) 0x200000 ?I"
  let ?m = "splice_at ?d (setting_pos n) (int_bytes v)"
  have pos: "setting_pos n + 4 \<le> 0x200000"
    using assms(3) by (simp add: setting_pos_def PERSISTENT_STORAGE_OFFSET_def)
  have inI: "blkstart e * 4096 + 0x200000 \<le> length ?I"
    using lu_length [OF r(3)] r(2) by (auto simp: entry_fits_def lk3rd_of_def)
  then have d: "length ?d = 0x200000" by simp
  then have "splice_at mem 0 ?d = ?d" using assms(2) by (simp add: splice_at_def)
  then obtain t where rd: "pit_access bd p st (lk3rd_of e) PIT_OP_LOAD TEMP_BUFFER_OFFSET mem
      = Ret (0, ?d, st\<lparr>starget := t\<rparr>)" "ok t" "img t = ?I"
    using access_load_ok [OF r(3,2,5), of mem bd TEMP_BUFFER_OFFSET] assms(2)
    by (auto simp: lk3rd_of_def)
  note r' = lk3rd_ready_fits [OF lk3rd_ready_target [OF assms(1) rd(2)]]
  have m: "length ?m = 0x200000" using pos d by (simp add: length_splice int_bytes_def)
  then obtain t' where wr: "pit_access bd p (st\<lparr>starget := t\<rparr>) (lk3rd_of e) PIT_OP_FLASH
        TEMP_BUFFER_OFFSET ?m = Ret (0, ?m, st\<lparr>starget := t'\<rparr>)" "ok t'"
      "img t' = splice_at ?I (blkstart e * 4096) ?m"
    using access_flash_ok [OF r'(3,2,5,4), of ?m bd TEMP_BUFFER_OFFSET] rd(3)
    by (auto simp: lk3rd_of_def)
  have "splice_at ?I (blkstart e * 4096) ?m
      = splice_at ?I (blkstart e * 4096 + setting_pos n) (int_bytes v)"
    using pos inI by (intro splice_rmw) (simp_all add: int_bytes_def)
  then show ?thesis using rd wr m
    by (auto simp: persistent_storage_write_def r(1) part_read_def part_write_def Let_def)
qed

definition boot_of :: "pit_entry \<Rightarrow> pit_entry" where
  "boot_of e = e\<lparr>blkstart := blkstart e + 512, blknum := blknum e - 512, ename := ''BOOT''\<rparr>"

lemma boot_ready_fits:
  assumes "lk3rd_ready p st e a img ok"
  shows "part_get p ''boot'' = Ret (Some (boot_of e))"
    and "entry_fits st a (boot_of e)" and "lu_at st (scsi_name (lun (boot_of e))) a img ok"
    and "\<not> is_sparse_fs (boot_of e)" and "pit_available p"
  using assms virtual_split(2) [of p e] ram_boot_name
  by (auto simp: lk3rd_ready_def part_get_def boot_of_def entry_fits_def entry_wf_def
      is_sparse_fs_def)

lemma ram_lk3rd_ready: "lk3rd_ready ram_pit ram_storage ram_boot 0 (\<lambda>t. t) (ram_ok 4096 2048)"
  using ram_pit_scan ram_boot_lu
  by (simp add: lk3rd_ready_def) (simp add: ram_pit_def ram_boot_def is_sparse_fs_def pit_consts)

lemma int_at_slice:
  assumes "i + 4 \<le> n" and "off + n \<le> length m"
  shows "int_at (slice_at off n m) i = int_at (slice_at (off + i) 4 m) 0"
proof -
  have "le32_at (slice_at off n m) i = le32_at (slice_at i 4 (slice_at off n m)) 0"
    using assms by (intro le32_at_slice) simp
  then show ?thesis using assms(1) by (simp add: int_at_def slice_slice)
qed

lemma setting_pos_bound: "n < 64 \<Longrightarrow> setting_pos n + 4 \<le> 0x200000"
  by (simp add: setting_pos_def PERSISTENT_STORAGE_OFFSET_def)

section \<open>Properties\<close>

text \<open>Flashing the partition that the name \<^verbatim>\<open>boot\<close> resolves to succeeds, stores
the image in it, and leaves the first 2 MiB of the raw boot partition, where this boot
loader lives, byte for byte as they were.\<close>

theorem boot_flash_keeps_lk3rd:
  assumes "lk3rd_ready p st e a img ok" and "length mem = (blknum e - 512) * 4096"
  shows "\<exists>b t. part_get p ''boot'' = Ret (Some b)
    \<and> pit_access bd p st b PIT_OP_FLASH addr mem = Ret (0, mem, st\<lparr>starget := t\<rparr>)
    \<and> slice_at (blkstart e * 4096) 0x200000 (img t)
        = slice_at (blkstart e * 4096) 0x200000 (img (starget st))
    \<and> slice_at (blkstart e * 4096 + 0x200000) (length mem) (img t) = mem"
proof -
  note r = boot_ready_fits [OF assms(1)]
  let ?I = "img (starget st)" and ?o = "blkstart e * 4096 + 0x200000"
  have len: "?o + length mem \<le> length ?I"
    using lu_length [OF r(3)] assms by (auto simp: lk3rd_ready_def)
  obtain t where t: "pit_access bd p st (boot_of e) PIT_OP_FLASH addr mem
      = Ret (0, mem, st\<lparr>starget := t\<rparr>)" "img t = splice_at ?I ?o mem"
    using access_flash_ok [OF r(3,2,5,4), of mem bd addr] assms(2)
    by (auto simp: boot_of_def algebra_simps)
  have "slice_at (blkstart e * 4096) 0x200000 (img t) = slice_at (blkstart e * 4096) 0x200000 ?I"
    using len t(2) by (simp add: slice_splice_disjoint)
  moreover have "slice_at ?o (length mem) (img t) = mem"
    using len t(2) by (simp add: slice_splice_same)
  ultimately show ?thesis using r(1) t(1) by blast
qed

theorem boot_flash_keeps_lk3rd_witness:
  "\<exists>b t. part_get ram_pit ''boot'' = Ret (Some b)
    \<and> pit_access BOOT_UFS ram_pit ram_storage b PIT_OP_FLASH 0 (replicate (512 * 4096) 3)
        = Ret (0, replicate (512 * 4096) 3, ram_storage\<lparr>starget := t\<rparr>)
    \<and> slice_at (blkstart ram_boot * 4096) 0x200000 t
        = slice_at (blkstart ram_boot * 4096) 0x200000 (starget ram_storage)
    \<and> slice_at (blkstart ram_boot * 4096 + 0x200000) (length (replicate (512 * 4096) (3 :: byte))) t
        = replicate (512 * 4096) 3"
  by (rule boot_flash_keeps_lk3rd [OF ram_lk3rd_ready]) (simp add: ram_boot_def)

text \<open>Claim C9: a persistent setting reads back with the value last written to it, for every
32-bit value; the write changes only the four bytes of that setting on the medium, so the
boot loader around it and every other setting stay as they are.\<close>

theorem persistent_setting_roundtrip:
  assumes "lk3rd_ready p st e a img ok" and "length mem = 0x200000" and "n < 64"
    and "- (2 ^ 31) \<le> v" and "v < 2 ^ 31"
  shows "\<exists>mem1 mem2 t t'. persistent_storage_write bd p st mem n v = Ret (0, mem1, st\<lparr>starget := t\<rparr>)
    \<and> img t = splice_at (img (starget st)) (blkstart e * 4096 + setting_pos n) (int_bytes v)
    \<and> persistent_storage_read bd p (st\<lparr>starget := t\<rparr>) mem1 n = Ret (v, mem2, st\<lparr>starget := t'\<rparr>)"
proof -
  note r = lk3rd_ready_fits [OF assms(1)]
  obtain t mem1 where w: "persistent_storage_write bd p st mem n v = Ret (0, mem1, st\<lparr>starget := t\<rparr>)"
      "ok t" "length mem1 = 0x200000"
      "img t = splice_at (img (starget st)) (blkstart e * 4096 + setting_pos n) (int_bytes v)"
    using storage_write_ok [OF assms(1-3)] by blast
  let ?d = "slice_at (blkstart e * 4096) 0x200000 (img t)" and ?o = "blkstart e * 4096 + setting_pos n"
  obtain t' where rd: "persistent_storage_read bd p (st\<lparr>starget := t\<rparr>) mem1 n
      = Ret (int_at ?d (setting_pos n), ?d, st\<lparr>starget := t'\<rparr>)"
    using storage_read_ok [OF lk3rd_ready_target [OF assms(1) w(2)] w(3) assms(3)] by auto
  have inI: "blkstart e * 4096 + 0x200000 \<le> length (img (starget st))"
    using lu_length [OF r(3)] r(2) by (auto simp: entry_fits_def lk3rd_of_def)
  note pos = setting_pos_bound [OF assms(3)]
  have fit: "?o + 4 \<le> length (img (starget st))" using pos inI by linarith
  then have lt: "length (img t) = length (img (starget st))"
    using w(4) by (simp add: length_splice int_bytes_def)
  have "int_at ?d (setting_pos n) = int_at (slice_at ?o 4 (img t)) 0"
    using pos inI lt by (intro int_at_slice) simp_all
  also have "\<dots> = int_at (img t) ?o" using le32_at_slice [of ?o "img t"] fit lt by (simp add: int_at_def)
  also have "\<dots> = v" unfolding w(4) using fit assms(4,5) by (rule int_at_splice)
  finally show ?thesis using w(1,4) rd by auto
qed

theorem persistent_setting_roundtrip_witness:
  "\<exists>mem1 mem2 t t'. persistent_storage_write BOOT_UFS ram_pit ram_storage (replicate 0x200000 0) 1 (-5)
      = Ret (0, mem1, ram_storage\<lparr>starget := t\<rparr>)
    \<and> t = splice_at (starget ram_storage) (blkstart ram_boot * 4096 + setting_pos 1) (int_bytes (-5))
    \<and> persistent_storage_read BOOT_UFS ram_pit (ram_storage\<lparr>starget := t\<rparr>) mem1 1
        = Ret (-5, mem2, ram_storage\<lparr>starget := t'\<rparr>)"
  by (rule persistent_setting_roundtrip [OF ram_lk3rd_ready]) simp_all

text \<open>With the boot device id of UFS, initialising the partition layer indexes the
table of device names past its three entries before it ever reaches the partition table.\<close>

theorem part_init_token_out_of_bounds:
  "part_init ps p st addr buf = Fault"
  by (simp add: part_init_def part_open_dev_once_def part_dev_name_def part_dev_tokens_def
      DEV_UFS_def DEV_NONE_def Let_def)

end
