(* ===== verification/Libc_String.thy ===== *)
theory Libc_String
  imports Lk_Prelude
begin

text \<open>
  String functions of \<^verbatim>\<open>lib/libc/string\<close>. A pointer to a source is the list of bytes from there
  to the end of its object, a pointer to a destination a position in the list of bytes of its object;
  an access outside the object is a fault. \<^verbatim>\<open>char\<close> is unsigned on this target.
\<close>

abbreviation NUL :: byte where "NUL \<equiv> 0"

fun map_ret :: "('a \<Rightarrow> 'b) \<Rightarrow> 'a outcome \<Rightarrow> 'b outcome" where
  "map_ret f (Ret x) = Ret (f x)"
| "map_ret f Fault = Fault"
| "map_ret f Hang = Hang"

fun strlen :: "byte list \<Rightarrow> nat outcome" where
  "strlen [] = Fault"
| "strlen (c # s) = (if c = NUL then Ret 0 else map_ret Suc (strlen s))"

fun strnlen :: "byte list \<Rightarrow> nat \<Rightarrow> nat outcome" where
  "strnlen s 0 = Ret 0"
| "strnlen [] (Suc count) = Fault"
| "strnlen (c # s) (Suc count) = (if c = NUL then Ret 0 else map_ret Suc (strnlen s count))"

section \<open>Comparison\<close>

text \<open>The difference of two characters is stored in a \<^verbatim>\<open>signed char\<close>.\<close>

definition schar_diff :: "byte \<Rightarrow> byte \<Rightarrow> int" where
  "schar_diff a b = signed_take_bit 7 (int (unat a) - int (unat b))"

fun strcmp :: "byte list \<Rightarrow> byte list \<Rightarrow> int outcome" where
  "strcmp (a # cs) (b # ct) =
     (if schar_diff a b \<noteq> 0 \<or> a = NUL then Ret (schar_diff a b) else strcmp cs ct)"
| "strcmp cs ct = Fault"

fun strncmp :: "byte list \<Rightarrow> byte list \<Rightarrow> nat \<Rightarrow> int \<Rightarrow> int outcome" where
  "strncmp cs ct 0 res = Ret res"
| "strncmp (a # cs) (b # ct) (Suc count) res =
     (if schar_diff a b \<noteq> 0 \<or> a = NUL then Ret (schar_diff a b)
      else strncmp cs ct count (schar_diff a b))"
| "strncmp cs ct (Suc count) res = Fault"

fun memcmp :: "byte list \<Rightarrow> byte list \<Rightarrow> nat \<Rightarrow> int outcome" where
  "memcmp cs ct 0 = Ret 0"
| "memcmp (a # cs) (b # ct) (Suc count) =
     (if schar_diff a b \<noteq> 0 then Ret (schar_diff a b) else memcmp cs ct count)"
| "memcmp cs ct (Suc count) = Fault"

section \<open>Searching\<close>

text \<open>A found position is its distance from the start.\<close>

fun memchr :: "byte list \<Rightarrow> byte \<Rightarrow> nat \<Rightarrow> nat option outcome" where
  "memchr b x 0 = Ret None"
| "memchr [] x (Suc len) = Fault"
| "memchr (c # b) x (Suc len) = (if c = x then Ret (Some 0) else map_ret (map_option Suc) (memchr b x len))"

fun strchr :: "byte list \<Rightarrow> byte \<Rightarrow> nat option outcome" where
  "strchr [] c = Fault"
| "strchr (x # s) c =
     (if x = c then Ret (Some 0) else if x = NUL then Ret None else map_ret (map_option Suc) (strchr s c))"

fun strrchr_loop :: "byte list \<Rightarrow> byte \<Rightarrow> nat \<Rightarrow> nat option \<Rightarrow> nat option outcome" where
  "strrchr_loop [] c pos found = Fault"
| "strrchr_loop (x # s) c pos found =
     (if x = NUL then Ret found else strrchr_loop s c (Suc pos) (if x = c then Some pos else found))"

definition strrchr :: "byte list \<Rightarrow> byte \<Rightarrow> nat option outcome" where
  "strrchr s c = strrchr_loop s c 0 (if c \<noteq> NUL then None else Some 0)"

fun strstr_loop :: "byte list \<Rightarrow> byte list \<Rightarrow> nat \<Rightarrow> nat \<Rightarrow> nat \<Rightarrow> nat option outcome" where
  "strstr_loop s1 s2 l1 l2 pos =
     (if 0 < l2 \<and> l2 \<le> l1 then
        (case memcmp s1 s2 l2 of
           Ret r \<Rightarrow> if r = 0 then Ret (Some pos)
                    else strstr_loop (drop 1 s1) s2 (l1 - 1) l2 (Suc pos)
         | Fault \<Rightarrow> Fault | Hang \<Rightarrow> Hang)
      else Ret None)"

definition strstr :: "byte list \<Rightarrow> byte list \<Rightarrow> nat option outcome" where
  "strstr s1 s2 =
     (case strlen s2 of
        Ret l2 \<Rightarrow> if l2 = 0 then Ret (Some 0)
                  else (case strlen s1 of Ret l1 \<Rightarrow> strstr_loop s1 s2 l1 l2 0 | Fault \<Rightarrow> Fault | Hang \<Rightarrow> Hang)
      | Fault \<Rightarrow> Fault | Hang \<Rightarrow> Hang)"

declare strstr_loop.simps [simp del]

section \<open>Copying\<close>

definition put :: "byte list \<Rightarrow> nat \<Rightarrow> byte \<Rightarrow> byte list outcome" where
  "put dst i c = (if i < length dst then Ret (dst[i := c]) else Fault)"

text \<open>The loop of \<^verbatim>\<open>strlcpy\<close> and \<^verbatim>\<open>strlcat\<close>, with the terminator; \<open>j\<close> is how far \<^verbatim>\<open>dst\<close> was moved.\<close>

function bounded_copy :: "nat \<Rightarrow> byte list \<Rightarrow> byte list \<Rightarrow> nat \<Rightarrow> nat \<Rightarrow> (nat \<times> byte list) outcome" where
  "bounded_copy lim src dst j i =
     (if i < lim then
        if i < length src then
          if src ! i \<noteq> NUL then
            (case put dst (j + i) (src ! i) of
               Ret dst \<Rightarrow> bounded_copy lim src dst j (Suc i) | Fault \<Rightarrow> Fault | Hang \<Rightarrow> Hang)
          else map_ret (Pair i) (put dst (j + i) NUL)
        else Fault
      else map_ret (Pair i) (put dst (j + i) NUL))"
  by pat_completeness auto
termination by (relation "measure (\<lambda>(lim, src, dst, j, i). lim - i)") auto

declare bounded_copy.simps [simp del]

definition strlcpy :: "byte list \<Rightarrow> byte list \<Rightarrow> nat \<Rightarrow> (nat \<times> byte list) outcome" where
  "strlcpy dst src s =
     (if s = 0 then map_ret (\<lambda>n. (n, dst)) (strlen src)
      else (case bounded_copy (s - 1) src dst 0 0 of
              Ret (i, dst) \<Rightarrow> map_ret (\<lambda>n. (i + n, dst)) (strlen (drop i src))
            | Fault \<Rightarrow> Fault | Hang \<Rightarrow> Hang))"

definition strlcat :: "byte list \<Rightarrow> byte list \<Rightarrow> nat \<Rightarrow> (nat \<times> byte list) outcome" where
  "strlcat dst src s =
     (case strnlen dst s of
        Ret j \<Rightarrow>
          if s = 0 then map_ret (\<lambda>n. (j + n, dst)) (strlen src)
          else (case bounded_copy (s - 1) src dst j 0 of
                  Ret (i, dst) \<Rightarrow> map_ret (\<lambda>n. (j + i + n, dst)) (strlen (drop i src))
                | Fault \<Rightarrow> Fault | Hang \<Rightarrow> Hang)
      | Fault \<Rightarrow> Fault | Hang \<Rightarrow> Hang)"

fun strcpy_loop :: "byte list \<Rightarrow> byte list \<Rightarrow> nat \<Rightarrow> byte list outcome" where
  "strcpy_loop dst [] i = Fault"
| "strcpy_loop dst (c # src) i =
     (case put dst i c of
        Ret dst \<Rightarrow> if c = NUL then Ret dst else strcpy_loop dst src (Suc i)
      | Fault \<Rightarrow> Fault | Hang \<Rightarrow> Hang)"

definition strcpy :: "byte list \<Rightarrow> byte list \<Rightarrow> byte list outcome" where
  "strcpy dst src = strcpy_loop dst src 0"

definition strcat :: "byte list \<Rightarrow> byte list \<Rightarrow> byte list outcome" where
  "strcat dst src =
     (case strlen dst of Ret j \<Rightarrow> strcpy_loop dst src j | Fault \<Rightarrow> Fault | Hang \<Rightarrow> Hang)"

section \<open>Properties\<close>

definition nul_free :: "byte list \<Rightarrow> bool" where
  "nul_free cs \<longleftrightarrow> NUL \<notin> set cs"

lemma strlen_of: "nul_free cs \<Longrightarrow> strlen (cs @ NUL # rest) = Ret (length cs)"
  by (induction cs) (auto simp: nul_free_def)

lemma strnlen_of: "nul_free cs \<Longrightarrow> length cs < s \<Longrightarrow> strnlen (cs @ NUL # rest) s = Ret (length cs)"
proof (induction cs arbitrary: s)
  case Nil
  then show ?case by (cases s) auto
next
  case (Cons c cs)
  then show ?case by (cases s) (auto simp: nul_free_def)
qed

lemma schar_diff_0 [simp]: "schar_diff a b = 0 \<longleftrightarrow> a = b"
proof -
  have r: "- 256 < int (unat a) - int (unat b)" "int (unat a) - int (unat b) < 256"
  proof -
    have "unat a < 256" "unat b < 256"
      using unsigned_less [of a, where 'a = nat] unsigned_less [of b, where 'a = nat] by simp_all
    then show "- 256 < int (unat a) - int (unat b)" "int (unat a) - int (unat b) < 256" by linarith+
  qed
  have "schar_diff a b = 0 \<longleftrightarrow> (int (unat a) - int (unat b)) mod 256 = 0"
    using signed_take_bit_eq_iff_take_bit_eq [of 7 "int (unat a) - int (unat b)" 0]
    by (simp add: schar_diff_def take_bit_eq_mod)
  also have "\<dots> \<longleftrightarrow> int (unat a) - int (unat b) = 0"
    using r by presburger
  also have "\<dots> \<longleftrightarrow> a = b" by (metis eq_iff_diff_eq_0 nat_int word_unat_eq_iff)
  finally show ?thesis .
qed

lemma bounded_copy_of:
  assumes "nul_free cs" and "i \<le> min (length cs) lim"
  shows "bounded_copy lim (cs @ NUL # rest) dst j i =
    (if j + min (length cs) lim < length dst
     then Ret (min (length cs) lim,
               take (j + i) dst @ take (min (length cs) lim - i) (drop i cs) @ NUL # drop (j + min (length cs) lim + 1) dst)
     else Fault)"
  using assms(2)
proof (induction "min (length cs) lim - i" arbitrary: i dst)
  case 0
  then have i: "i = min (length cs) lim" by simp
  have "bounded_copy lim (cs @ NUL # rest) dst j i = map_ret (Pair i) (put dst (j + i) NUL)"
  proof (cases "i < lim")
    case True
    then have "i = length cs" using i by simp
    then show ?thesis using True by (subst bounded_copy.simps) simp
  qed (subst bounded_copy.simps, simp)
  then show ?case using i by (simp add: put_def upd_conv_take_nth_drop)
next
  case (Suc n)
  let ?m = "min (length cs) lim"
  have i: "i < ?m" "i < length cs" "i < lim" using Suc.hyps(2) by auto
  have "cs ! i \<in> set cs" using i(2) by simp
  then have c: "(cs @ NUL # rest) ! i = cs ! i" "cs ! i \<noteq> NUL"
    using i(2) assms(1) unfolding nul_free_def by (simp add: nth_append, metis)
  show ?case
  proof (cases "j + i < length dst")
    case True
    let ?dst = "dst[j + i := cs ! i]"
    have "bounded_copy lim (cs @ NUL # rest) dst j i = bounded_copy lim (cs @ NUL # rest) ?dst j (Suc i)"
      using i c True by (subst bounded_copy.simps) (simp add: put_def)
    also have "\<dots> = (if j + ?m < length ?dst
        then Ret (?m, take (j + Suc i) ?dst @ take (?m - Suc i) (drop (Suc i) cs) @ NUL # drop (j + ?m + 1) ?dst)
        else Fault)"
      using Suc.hyps(2) i by (intro Suc.hyps(1)) auto
    also have "take (j + Suc i) ?dst = take (j + i) dst @ [cs ! i]"
      using True by (simp add: take_Suc_conv_app_nth)
    finally have eq: "bounded_copy lim (cs @ NUL # rest) dst j i = (if j + ?m < length ?dst
        then Ret (?m, (take (j + i) dst @ [cs ! i]) @ take (?m - Suc i) (drop (Suc i) cs)
          @ NUL # drop (j + ?m + 1) ?dst) else Fault)" .
    have "take (?m - i) (drop i cs) = cs ! i # take (?m - Suc i) (drop (Suc i) cs)"
      using i by (metis Cons_nth_drop_Suc Suc_diff_Suc take_Suc_Cons)
    then show ?thesis using i by (simp add: eq)
  next
    case False
    then have "bounded_copy lim (cs @ NUL # rest) dst j i = Fault"
      using i c by (subst bounded_copy.simps) (simp add: put_def)
    then show ?thesis using False i by simp
  qed
qed

lemma strlen_drop:
  "nul_free cs \<Longrightarrow> i \<le> length cs \<Longrightarrow> strlen (drop i (cs @ NUL # rest)) = Ret (length cs - i)"
  using strlen_of [of "drop i cs" rest] by (auto simp: nul_free_def dest: in_set_dropD)

text \<open>\<^verbatim>\<open>strlcpy\<close> copies as much of a string as fits and always terminates it, never writes more than
the \<open>s\<close> bytes it was given, and returns the length of the source.\<close>

theorem strlcpy_bounded:
  assumes "nul_free cs" and "0 < s" and "s \<le> length dst"
  shows "strlcpy dst (cs @ NUL # rest) s =
    Ret (length cs, take (s - 1) cs @ NUL # drop (min (length cs) (s - 1) + 1) dst)"
proof -
  let ?m = "min (length cs) (s - 1)"
  have "bounded_copy (s - 1) (cs @ NUL # rest) dst 0 0 = Ret (?m, take ?m cs @ NUL # drop (?m + 1) dst)"
    using bounded_copy_of [OF assms(1), of 0 "s - 1" rest dst 0] assms(2,3) by simp
  moreover have "strlen (drop ?m (cs @ NUL # rest)) = Ret (length cs - ?m)"
    by (rule strlen_drop [OF assms(1)]) simp
  moreover have "take ?m cs = take (s - 1) cs" by (simp add: min_def)
  ultimately show ?thesis using assms(2) by (simp add: strlcpy_def)
qed

text \<open>
  \<^verbatim>\<open>strlcat\<close> limits the copy by the size of the whole buffer, not by the room left in it. It is
  right when everything fits; when the result must be cut and the buffer was not empty, it always
  writes behind the end of a buffer of the given size.
\<close>

text \<open>\<^verbatim>\<open>strlcat\<close> with the size of its buffer appends a string that fits and returns the
length of the result. When the string does not fit, which is the case the call exists for, and the
buffer is not empty, it writes behind the end of the buffer.\<close>

theorem strlcat_overruns:
  assumes "nul_free ds" and "nul_free cs" and "length dst = s" and "dst = ds @ NUL # room"
  shows "(length ds + length cs < s \<longrightarrow>
      strlcat dst (cs @ NUL # rest) s
        = Ret (length ds + length cs, ds @ cs @ NUL # drop (length ds + length cs + 1) dst))
    \<and> (s \<le> length ds + length cs \<and> ds \<noteq> [] \<longrightarrow> strlcat dst (cs @ NUL # rest) s = Fault)"
proof -
  let ?j = "length ds" and ?m = "min (length cs) (s - 1)"
  have j: "?j < s" "0 < s" using assms(3,4) by auto
  have n: "strnlen dst s = Ret ?j" using strnlen_of [OF assms(1) j(1)] assms(4) by simp
  note b = bounded_copy_of [OF assms(2), of 0 "s - 1" rest dst ?j]
  have "strlcat dst (cs @ NUL # rest) s
      = Ret (?j + length cs, ds @ cs @ NUL # drop (?j + length cs + 1) dst)" if "?j + length cs < s"
  proof -
    have m: "?m = length cs" using that by simp
    have "take ?j dst = ds" using assms(4) by simp
    then have "bounded_copy (s - 1) (cs @ NUL # rest) dst ?j 0
        = Ret (length cs, ds @ cs @ NUL # drop (?j + length cs + 1) dst)"
      using b assms(3) that by (simp add: m)
    then show ?thesis
      using strlen_drop [OF assms(2) order_refl, of rest] j(2) by (simp add: strlcat_def n)
  qed
  moreover have "strlcat dst (cs @ NUL # rest) s = Fault" if "s \<le> ?j + length cs" "ds \<noteq> []"
  proof -
    have "0 < ?j" using that(2) by simp
    then have "\<not> ?j + ?m < length dst" using that(1) assms(3) j(2) by linarith
    then have "bounded_copy (s - 1) (cs @ NUL # rest) dst ?j 0 = Fault" using b by simp
    then show ?thesis using j(2) by (simp add: strlcat_def n)
  qed
  ultimately show ?thesis by blast
qed

theorem strlcat_overruns_witness:
  "strlcat [65, 0, 0, 0] [66, 67, 0] 4 = Ret (3, [65, 66, 67, 0]) \<and> strlcat [65, 0, 0] [66, 67, 0] 3 = Fault"
proof -
  have nf: "nul_free [65]" "nul_free [66, 67]" by (simp_all add: nul_free_def)
  have l4: "length [65 :: byte, 0, 0, 0] = 4" "[65, 0, 0, 0] = [65] @ NUL # [0, 0]"
    and l3: "length [65 :: byte, 0, 0] = 3" "[65, 0, 0] = [65] @ NUL # [0]" by simp_all
  have fits: "length [65 :: byte] + length [66 :: byte, 67] < 4" "3 \<le> length [65 :: byte] + length [66 :: byte, 67]"
    by simp_all
  show ?thesis
    using strlcat_overruns [OF nf l4, of "[]", THEN conjunct1, THEN mp, OF fits(1)]
      strlcat_overruns [OF nf l3, of "[]", THEN conjunct2, THEN mp] fits(2) by simp
qed

text \<open>The comparisons decide equality, but the cut to a signed character spoils the order.\<close>

lemma memcmp_eq:
  "n \<le> length a \<Longrightarrow> n \<le> length b \<Longrightarrow> \<exists>r. memcmp a b n = Ret r \<and> (r = 0 \<longleftrightarrow> take n a = take n b)"
proof (induction a b n rule: memcmp.induct)
  case (2 a cs b ct count)
  then show ?case by (cases "a = b") auto
qed auto

lemma strcmp_eq:
  assumes "nul_free a" and "nul_free b"
  shows "\<exists>r. strcmp (a @ NUL # x) (b @ NUL # y) = Ret r \<and> (r = 0 \<longleftrightarrow> a = b)"
  using assms
proof (induction a arbitrary: b)
  case Nil
  then show ?case by (cases b) (auto simp: nul_free_def)
next
  case (Cons c a)
  then show ?case
  proof (cases b)
    case (Cons d b')
    then show ?thesis using Cons.prems Cons.IH [of b'] \<open>nul_free (c # a)\<close>
      by (cases "c = d") (auto simp: nul_free_def)
  qed (auto simp: nul_free_def)
qed

lemma memcmp_no_order: "memcmp [128] [0] 1 = Ret (- 128)" "memcmp [0] [128] 1 = Ret (- 128)"
  by code_simp+

text \<open>\<^verbatim>\<open>strstr\<close> finds the first occurrence.\<close>

lemma find_map: "find P (map f xs) = map_option f (find (\<lambda>x. P (f x)) xs)"
  by (induction xs) auto

lemma strstr_loop_ok:
  assumes "0 < l2" and "l2 \<le> length s2" and "l1 \<le> length s1"
  shows "strstr_loop s1 s2 l1 l2 pos = Ret (case find (\<lambda>i. take l2 (drop i s1) = take l2 s2) [0 ..< l1 + 1 - l2] of
      None \<Rightarrow> None | Some i \<Rightarrow> Some (pos + i))"
  using assms(3)
proof (induction l1 arbitrary: s1 pos)
  case 0
  then show ?case using assms(1) by (subst strstr_loop.simps) simp
next
  case (Suc l1)
  show ?case
  proof (cases "l2 \<le> Suc l1")
    case True
    have r: "[0 ..< Suc l1 + 1 - l2] = 0 # map Suc [0 ..< l1 + 1 - l2]"
      using True by (simp add: Suc_diff_le map_Suc_upt upt_conv_Cons)
    obtain r where m: "memcmp s1 s2 l2 = Ret r" "r = 0 \<longleftrightarrow> take l2 s1 = take l2 s2"
      using memcmp_eq [of l2 s1 s2] True Suc.prems assms(2) by auto
    have "find (\<lambda>i. take l2 (drop i s1) = take l2 s2) (map Suc [0 ..< l1 + 1 - l2])
        = map_option Suc (find (\<lambda>i. take l2 (drop i (drop 1 s1)) = take l2 s2) [0 ..< l1 + 1 - l2])"
      by (simp add: find_map comp_def)
    moreover have "strstr_loop s1 s2 (Suc l1) l2 pos =
        (if r = 0 then Ret (Some pos) else strstr_loop (drop 1 s1) s2 l1 l2 (Suc pos))"
      using True assms(1) m(1) by (subst strstr_loop.simps) simp
    ultimately show ?thesis unfolding r using Suc.IH [of "drop 1 s1" "Suc pos"] Suc.prems m(2)
      by (auto split: option.splits)
  next
    case False
    then show ?thesis by (subst strstr_loop.simps) simp
  qed
qed

theorem strstr_first:
  assumes "nul_free a" and "nul_free b"
  shows "strstr (a @ NUL # x) (b @ NUL # y)
    = Ret (find (\<lambda>i. take (length b) (drop i a) = b) [0 ..< length a + 1 - length b])"
proof (cases "b = []")
  case True
  then show ?thesis by (simp add: strstr_def strlen_of [of "[]", simplified] nul_free_def upt_conv_Cons del: upt_Suc)
next
  case False
  have "take (length b) (drop i (a @ NUL # x)) = take (length b) (drop i a)"
    if "i \<in> set [0 ..< length a + 1 - length b]" for i
    using that by simp
  then have "find (\<lambda>i. take (length b) (drop i (a @ NUL # x)) = take (length b) (b @ NUL # y))
        [0 ..< length a + 1 - length b]
      = find (\<lambda>i. take (length b) (drop i a) = b) [0 ..< length a + 1 - length b]"
    by (intro find_cong refl) simp
  then show ?thesis
    using strstr_loop_ok [of "length b" "b @ NUL # y" "length a" "a @ NUL # x" 0] False
    by (simp add: strstr_def strlen_of assms option.case_eq_if split: option.splits)
qed

end
