(* ===== verification/Ab_Update.thy ===== *)
theory Ab_Update
  imports Pit_Correct Libc_String
begin

unbundle bit_operations_syntax

text \<open>
  The A/B slots of \<^verbatim>\<open>lib/ab_update/ab_update.c\<close>. The partition \<^verbatim>\<open>misc\<close> holds a
  \<^verbatim>\<open>bootloader_message_ab\<close>; its field \<^verbatim>\<open>slot_suffix\<close>, at byte 2048, is an \<^verbatim>\<open>ExynosBootInfo\<close> with four
  bytes for each of the two slots behind a four-byte header. The first byte of a slot has the flags
  \<^verbatim>\<open>bootable\<close> (bit 0) and \<^verbatim>\<open>boot_successful\<close> (bit 1), the second is the priority, the third the
  number of tries left. \<open>raw n\<close> is the memory that \<^verbatim>\<open>memalign\<close> returned for \<open>n\<close> bytes, at \<open>addr\<close>. The
  code uses a missing entry and a buffer that is too short without a check; both are faults.
\<close>

definition SLOT_INFO_POS :: int where "SLOT_INFO_POS = 2048 + 4"

definition slot_pos :: "int \<Rightarrow> nat" where
  "slot_pos slot = nat (SLOT_INFO_POS + 4 * slot)"

definition slot_mapped :: "byte list \<Rightarrow> int \<Rightarrow> bool" where
  "slot_mapped mem slot \<longleftrightarrow> 0 \<le> SLOT_INFO_POS + 4 * slot \<and> slot_pos slot + 4 \<le> length mem"

definition si_bootable :: "byte list \<Rightarrow> int \<Rightarrow> bool" where
  "si_bootable mem slot \<longleftrightarrow> bit (mem ! slot_pos slot) 0"

definition si_boot_successful :: "byte list \<Rightarrow> int \<Rightarrow> bool" where
  "si_boot_successful mem slot \<longleftrightarrow> bit (mem ! slot_pos slot) 1"

definition si_priority :: "byte list \<Rightarrow> int \<Rightarrow> nat" where
  "si_priority mem slot = unat (mem ! (slot_pos slot + 1))"

definition si_tries_remaining :: "byte list \<Rightarrow> int \<Rightarrow> nat" where
  "si_tries_remaining mem slot = unat (mem ! (slot_pos slot + 2))"

text \<open>The common start of all functions.\<close>

definition load_misc ::
    "boot_device \<Rightarrow> pit_state \<Rightarrow> 't storage \<Rightarrow> nat \<Rightarrow> (nat \<Rightarrow> byte list)
      \<Rightarrow> (pit_entry \<times> byte list \<times> 't storage) outcome" where
  "load_misc bd p st addr raw =
     (case pit_get_part_info p ''misc'' of
        Ret (Some ptn) \<Rightarrow>
          (case pit_access bd p st ptn PIT_OP_LOAD addr (raw (pit_get_length p ptn)) of
             Ret (r, mem, st) \<Rightarrow> Ret (ptn, mem, st) | Fault \<Rightarrow> Fault | Hang \<Rightarrow> Hang)
      | Ret None \<Rightarrow> Fault | Fault \<Rightarrow> Fault | Hang \<Rightarrow> Hang)"

definition activate :: "int \<Rightarrow> byte list \<Rightarrow> byte list" where
  "activate slot mem =
     (let other = 1 - slot;
          mem = (if si_priority mem other = 15 then mem[slot_pos other + 1 := 14] else mem);
          mem = mem[slot_pos slot := mem ! slot_pos slot OR 1];
          mem = mem[slot_pos slot + 1 := 15];
          mem = mem[slot_pos slot + 2 := 7]
      in mem[slot_pos slot := mem ! slot_pos slot AND NOT 2])"

definition ab_set_active ::
    "boot_device \<Rightarrow> pit_state \<Rightarrow> 't storage \<Rightarrow> nat \<Rightarrow> (nat \<Rightarrow> byte list) \<Rightarrow> int \<Rightarrow> (status \<times> 't storage) outcome" where
  "ab_set_active bd p st addr raw slot =
     (case load_misc bd p st addr raw of
        Ret (ptn, mem, st) \<Rightarrow>
          if slot_mapped mem slot \<and> slot_mapped mem (1 - slot) \<and> slot_mapped mem 0 \<and> slot_mapped mem 1 then
            (case pit_access bd p st ptn PIT_OP_FLASH addr (activate slot mem) of
               Ret (r, mem, st) \<Rightarrow> Ret (0, st) | Fault \<Rightarrow> Fault | Hang \<Rightarrow> Hang)
          else Fault
      | Fault \<Rightarrow> Fault | Hang \<Rightarrow> Hang)"

definition ask_misc ::
    "boot_device \<Rightarrow> pit_state \<Rightarrow> 't storage \<Rightarrow> nat \<Rightarrow> (nat \<Rightarrow> byte list) \<Rightarrow> int \<Rightarrow> (byte list \<Rightarrow> int)
      \<Rightarrow> (int \<times> 't storage) outcome" where
  "ask_misc bd p st addr raw slot f =
     (case load_misc bd p st addr raw of
        Ret (ptn, mem, st) \<Rightarrow> if slot_mapped mem slot then Ret (f mem, st) else Fault
      | Fault \<Rightarrow> Fault | Hang \<Rightarrow> Hang)"

definition ab_current_slot ::
    "boot_device \<Rightarrow> pit_state \<Rightarrow> 't storage \<Rightarrow> nat \<Rightarrow> (nat \<Rightarrow> byte list) \<Rightarrow> (int \<times> 't storage) outcome" where
  "ab_current_slot bd p st addr raw =
     ask_misc bd p st addr raw 1 (\<lambda>mem. if si_priority mem 0 > si_priority mem 1 then 0 else 1)"

definition ab_slot_successful ::
    "boot_device \<Rightarrow> pit_state \<Rightarrow> 't storage \<Rightarrow> nat \<Rightarrow> (nat \<Rightarrow> byte list) \<Rightarrow> int \<Rightarrow> (int \<times> 't storage) outcome" where
  "ab_slot_successful bd p st addr raw slot =
     ask_misc bd p st addr raw slot (\<lambda>mem. if si_boot_successful mem slot then 1 else 0)"

definition ab_slot_unbootable ::
    "boot_device \<Rightarrow> pit_state \<Rightarrow> 't storage \<Rightarrow> nat \<Rightarrow> (nat \<Rightarrow> byte list) \<Rightarrow> int \<Rightarrow> (int \<times> 't storage) outcome" where
  "ab_slot_unbootable bd p st addr raw slot =
     ask_misc bd p st addr raw slot (\<lambda>mem. if si_bootable mem slot then 0 else 1)"

definition ab_slot_retry_count ::
    "boot_device \<Rightarrow> pit_state \<Rightarrow> 't storage \<Rightarrow> nat \<Rightarrow> (nat \<Rightarrow> byte list) \<Rightarrow> int \<Rightarrow> (int \<times> 't storage) outcome" where
  "ab_slot_retry_count bd p st addr raw slot =
     ask_misc bd p st addr raw slot (\<lambda>mem. int (si_tries_remaining mem slot))"

text \<open>The fastboot command \<^verbatim>\<open>set_active:\<close>. The result is the response sent to the host.\<close>

definition fb_do_set_active ::
    "boot_device \<Rightarrow> pit_state \<Rightarrow> 't storage \<Rightarrow> nat \<Rightarrow> (nat \<Rightarrow> byte list) \<Rightarrow> byte list \<Rightarrow> (string \<times> 't storage) outcome" where
  "fb_do_set_active bd p st addr raw cmd_buffer =
     (case strcmp (drop 11 cmd_buffer) [97, NUL] of
        Ret r \<Rightarrow>
          if r = 0 then map_ret (\<lambda>(s, st). (''OKAY'', st)) (ab_set_active bd p st addr raw 0)
          else (case strcmp (drop 11 cmd_buffer) [98, NUL] of
                  Ret r \<Rightarrow>
                    if r = 0 then map_ret (\<lambda>(s, st). (''OKAY'', st)) (ab_set_active bd p st addr raw 1)
                    else Ret (''FAILinvalid slot'', st)
                | Fault \<Rightarrow> Fault | Hang \<Rightarrow> Hang)
      | Fault \<Rightarrow> Fault | Hang \<Rightarrow> Hang)"

section \<open>The effect on the buffer\<close>

lemma slot_pos_01 [simp]: "slot_pos 0 = 2052" "slot_pos 1 = 2056"
  by (simp_all add: slot_pos_def SLOT_INFO_POS_def)

lemma slot_mapped_01: "2060 \<le> length mem \<Longrightarrow> slot = 0 \<or> slot = 1 \<Longrightarrow> slot_mapped mem slot"
  by (auto simp: slot_mapped_def SLOT_INFO_POS_def)

lemma length_activate [simp]: "length (activate slot mem) = length mem"
  by (simp add: activate_def Let_def)

lemma activate_outside:
  assumes "slot = 0 \<or> slot = 1" and "i < 2052 \<or> 2060 \<le> i"
  shows "activate slot mem ! i = mem ! i"
  using assms by (auto simp: activate_def Let_def)

lemma activate_slot:
  assumes "slot = 0 \<or> slot = 1" and "2060 \<le> length mem"
  shows "si_bootable (activate slot mem) slot" "\<not> si_boot_successful (activate slot mem) slot"
    "si_tries_remaining (activate slot mem) slot = 7" "si_priority (activate slot mem) slot = 15"
    "si_priority (activate slot mem) (1 - slot)
       = (if si_priority mem (1 - slot) = 15 then 14 else si_priority mem (1 - slot))"
  using assms
  by (auto simp: activate_def Let_def si_bootable_def si_boot_successful_def si_tries_remaining_def
      si_priority_def bit_simps)

lemma activate_other:
  assumes "slot = 0 \<or> slot = 1" and "2060 \<le> length mem"
  shows "si_bootable (activate slot mem) (1 - slot) = si_bootable mem (1 - slot)"
    "si_boot_successful (activate slot mem) (1 - slot) = si_boot_successful mem (1 - slot)"
    "si_tries_remaining (activate slot mem) (1 - slot) = si_tries_remaining mem (1 - slot)"
  using assms
  by (auto simp: activate_def Let_def si_bootable_def si_boot_successful_def si_tries_remaining_def)

section \<open>The effect on the disk\<close>

definition misc_ready :: "pit_state \<Rightarrow> 't storage \<Rightarrow> pit_entry \<Rightarrow> nat \<Rightarrow> ('t \<Rightarrow> byte list) \<Rightarrow> ('t \<Rightarrow> bool) \<Rightarrow> bool" where
  "misc_ready p st e a img ok \<longleftrightarrow> pit_available p \<and> pit_count (table p) \<noteq> 0 \<and> pit_scan p ''misc'' = Some e
     \<and> lu_at st (scsi_name (lun e)) a img ok \<and> entry_fits st a e \<and> \<not> is_sparse_fs e \<and> 0 < blknum e
     \<and> c_string (ename e)"

text \<open>The contents of the partition.\<close>

definition misc_of :: "pit_entry \<Rightarrow> byte list \<Rightarrow> byte list" where
  "misc_of e disk = slice_at (blkstart e * 4096) (blknum e * 4096) disk"

lemma misc_facts:
  assumes "misc_ready p st e a img ok"
  shows "pit_get_part_info p ''misc'' = Ret (Some e)" and "pit_get_length p e = blknum e * 4096"
    and "length (misc_of e (img (starget st))) = blknum e * 4096"
    and "blkstart e * 4096 + blknum e * 4096 \<le> length (img (starget st))"
proof -
  have nl: "need_to_lie ''misc'' = 0" by code_simp
  then show "pit_get_part_info p ''misc'' = Ret (Some e)"
    using assms by (simp add: misc_ready_def pit_get_part_info_def)
  have cs: "c_string (ename e)" "strcicmp ''misc'' (ename e) = 0"
    using assms by (auto simp: misc_ready_def pit_scan_def find_Some_iff)
  have lit: "c_string ''misc''" "c_string ''userdata''" by code_simp+
  have "map (tolower \<circ> code) ''misc'' \<noteq> map (tolower \<circ> code) ''userdata''" by code_simp
  then have "stricmp ''userdata'' (ename e) \<noteq> 0"
    using cs(2) strcicmp_eq_0 [OF lit(1) cs(1)] strcicmp_eq_0 [OF lit(2) cs(1)] unfolding stricmp_eq_strcicmp by metis
  moreover have "blknum e < 2 ^ 32" using assms by (simp add: misc_ready_def entry_fits_def entry_wf_def)
  then have "mul64 (blknum e) 4096 = blknum e * 4096" by (intro mul64_id) simp
  ultimately show "pit_get_length p e = blknum e * 4096"
    using assms by (simp add: pit_get_length_def misc_ready_def pit_consts)
  show "blkstart e * 4096 + blknum e * 4096 \<le> length (img (starget st))"
    using assms lu_length [of st "scsi_name (lun e)" a img ok] by (simp add: misc_ready_def entry_fits_def)
  then show "length (misc_of e (img (starget st))) = blknum e * 4096" by (simp add: misc_of_def)
qed

lemma load_misc_ok:
  assumes "misc_ready p st e a img ok" and "\<And>n. length (raw n) = n"
  shows "\<exists>t. load_misc bd p st addr raw = Ret (e, misc_of e (img (starget st)), st\<lparr>starget := t\<rparr>)
    \<and> misc_ready p (st\<lparr>starget := t\<rparr>) e a img ok \<and> img t = img (starget st)"
proof -
  note f = misc_facts [OF assms(1)]
  obtain t where t: "pit_access bd p st e PIT_OP_LOAD addr (raw (blknum e * 4096))
      = Ret (0, splice_at (raw (blknum e * 4096)) 0 (misc_of e (img (starget st))), st\<lparr>starget := t\<rparr>)"
      "ok t" "img t = img (starget st)"
    using access_load_ok [of st e a img ok p "raw (blknum e * 4096)" bd addr] assms
    by (auto simp: misc_ready_def misc_of_def)
  have "splice_at (raw (blknum e * 4096)) 0 (misc_of e (img (starget st))) = misc_of e (img (starget st))"
    using f(3) assms(2) by (simp add: splice_at_def)
  moreover have "misc_ready p (st\<lparr>starget := t\<rparr>) e a img ok"
    using assms(1) t(2) by (simp add: misc_ready_def lu_target entry_fits_def)
  ultimately show ?thesis using t f(1,2) by (auto simp: load_misc_def)
qed

lemma ask_misc_ok:
  assumes "misc_ready p st e a img ok" and "\<And>n. length (raw n) = n" and "slot = 0 \<or> slot = 1"
  shows "\<exists>t. ask_misc bd p st addr raw slot f = Ret (f (misc_of e (img (starget st))), st\<lparr>starget := t\<rparr>)
    \<and> img t = img (starget st)"
proof -
  have "2060 \<le> length (misc_of e (img (starget st)))"
    using misc_facts(3) [OF assms(1)] assms(1) by (simp add: misc_ready_def)
  then show ?thesis using load_misc_ok [OF assms(1,2), of bd addr] slot_mapped_01 assms(3)
    by (auto simp: ask_misc_def)
qed

lemma set_active_ok:
  assumes "misc_ready p st e a img ok" and "\<And>n. length (raw n) = n" and "slot = 0 \<or> slot = 1"
  shows "\<exists>t. ab_set_active bd p st addr raw slot = Ret (0, st\<lparr>starget := t\<rparr>)
    \<and> misc_ready p (st\<lparr>starget := t\<rparr>) e a img ok
    \<and> img t = splice_at (img (starget st)) (blkstart e * 4096) (activate slot (misc_of e (img (starget st))))"
proof -
  let ?m = "misc_of e (img (starget st))"
  note f = misc_facts [OF assms(1)]
  obtain t where l: "load_misc bd p st addr raw = Ret (e, ?m, st\<lparr>starget := t\<rparr>)"
      "misc_ready p (st\<lparr>starget := t\<rparr>) e a img ok" "img t = img (starget st)"
    using load_misc_ok [OF assms(1,2)] by blast
  obtain t' where w: "pit_access bd p (st\<lparr>starget := t\<rparr>) e PIT_OP_FLASH addr (activate slot ?m)
      = Ret (0, activate slot ?m, st\<lparr>starget := t'\<rparr>)" "ok t'"
      "img t' = splice_at (img t) (blkstart e * 4096) (activate slot ?m)"
    using access_flash_ok [of "st\<lparr>starget := t\<rparr>" e a img ok p "activate slot ?m" bd addr] l(2) f(3)
    by (auto simp: misc_ready_def)
  have "2060 \<le> length ?m" using f(3) assms(1) by (simp add: misc_ready_def)
  then have "slot_mapped ?m slot \<and> slot_mapped ?m (1 - slot) \<and> slot_mapped ?m 0 \<and> slot_mapped ?m 1"
    using assms(3) by (auto intro!: slot_mapped_01)
  moreover have "misc_ready p (st\<lparr>starget := t'\<rparr>) e a img ok"
    using assms(1) w(2) by (simp add: misc_ready_def lu_target entry_fits_def)
  ultimately show ?thesis using l w by (auto simp: ab_set_active_def)
qed

text \<open>Claim C8: making a slot active. The call writes the \<^verbatim>\<open>misc\<close> partition, on the whole medium it
changes nothing but the eight bytes of slot information, and leaves the attributes of the other
slot alone except that a priority of 15 becomes 14. Afterwards the slot is bootable, not marked
successful and has seven tries, and it is the current slot, unless the other slot had a priority
above 15, which a byte can hold: then the other slot stays current.\<close>

theorem ab_set_active_selects:
  assumes "misc_ready p st e a img ok" and "\<And>n. length (raw n) = n" and "slot = 0 \<or> slot = 1"
  shows "\<exists>t t1 t2 t3 t4. ab_set_active bd p st addr raw slot = Ret (0, st\<lparr>starget := t\<rparr>)
    \<and> length (img t) = length (img (starget st))
    \<and> (\<forall>i. i < blkstart e * 4096 + 2052 \<or> blkstart e * 4096 + 2060 \<le> i \<longrightarrow> img t ! i = img (starget st) ! i)
    \<and> (let old = misc_of e (img (starget st)); new = misc_of e (img t); other = 1 - slot in
        si_bootable new other = si_bootable old other
        \<and> si_boot_successful new other = si_boot_successful old other
        \<and> si_tries_remaining new other = si_tries_remaining old other
        \<and> ab_current_slot bd p (st\<lparr>starget := t\<rparr>) addr raw
            = Ret (if si_priority old other \<le> 15 then slot else other, st\<lparr>starget := t1\<rparr>))
    \<and> ab_slot_unbootable bd p (st\<lparr>starget := t\<rparr>) addr raw slot = Ret (0, st\<lparr>starget := t2\<rparr>)
    \<and> ab_slot_successful bd p (st\<lparr>starget := t\<rparr>) addr raw slot = Ret (0, st\<lparr>starget := t3\<rparr>)
    \<and> ab_slot_retry_count bd p (st\<lparr>starget := t\<rparr>) addr raw slot = Ret (7, st\<lparr>starget := t4\<rparr>)"
proof -
  let ?d = "img (starget st)" and ?m = "misc_of e (img (starget st))" and ?b = "blkstart e * 4096"
  note f = misc_facts [OF assms(1)]
  have lm: "2060 \<le> length ?m" using f(3) assms(1) by (simp add: misc_ready_def)
  obtain t where t: "ab_set_active bd p st addr raw slot = Ret (0, st\<lparr>starget := t\<rparr>)"
      "misc_ready p (st\<lparr>starget := t\<rparr>) e a img ok" "img t = splice_at ?d ?b (activate slot ?m)"
    using set_active_ok [OF assms] by blast
  have fit: "?b + length (activate slot ?m) \<le> length ?d" using f(3,4) by simp
  have new: "misc_of e (img t) = activate slot ?m"
    using slice_splice_same [OF fit] f(3) by (simp add: misc_of_def t(3))
  have out: "img t ! i = ?d ! i" if "i < ?b + 2052 \<or> ?b + 2060 \<le> i" for i
  proof (cases "?b \<le> i \<and> i < ?b + length ?m")
    case True
    then have "img t ! i = activate slot ?m ! (i - ?b)" using fit by (simp add: t(3) nth_splice)
    also have "\<dots> = ?m ! (i - ?b)" using that True assms(3) by (intro activate_outside) auto
    also have "\<dots> = ?d ! i"
      using True f(3,4) nth_slice [of "i - ?b" "blknum e * 4096" ?b ?d] by (simp add: misc_of_def less_diff_conv2)
    finally show ?thesis .
  next
    case False
    then show ?thesis using fit by (auto simp: t(3) splice_at_def nth_append)
  qed
  note ask = ask_misc_ok [OF t(2) assms(2)]
  obtain t1 where t1: "ab_current_slot bd p (st\<lparr>starget := t\<rparr>) addr raw
      = Ret (if si_priority ?m (1 - slot) \<le> 15 then slot else 1 - slot, st\<lparr>starget := t1\<rparr>)"
    using ask [of 1 bd addr "\<lambda>mem. if si_priority mem 0 > si_priority mem 1 then 0 else 1"]
      activate_slot(4,5) [OF assms(3) lm] assms(3)
    by (auto simp: ab_current_slot_def new split: if_splits)
  obtain t2 where t2: "ab_slot_unbootable bd p (st\<lparr>starget := t\<rparr>) addr raw slot = Ret (0, st\<lparr>starget := t2\<rparr>)"
    using ask [OF assms(3), of bd addr "\<lambda>mem. if si_bootable mem slot then 0 else 1"] activate_slot(1) [OF assms(3) lm]
    by (auto simp: ab_slot_unbootable_def new)
  obtain t3 where t3: "ab_slot_successful bd p (st\<lparr>starget := t\<rparr>) addr raw slot = Ret (0, st\<lparr>starget := t3\<rparr>)"
    using ask [OF assms(3), of bd addr "\<lambda>mem. if si_boot_successful mem slot then 1 else 0"] activate_slot(2) [OF assms(3) lm]
    by (auto simp: ab_slot_successful_def new)
  obtain t4 where t4: "ab_slot_retry_count bd p (st\<lparr>starget := t\<rparr>) addr raw slot = Ret (7, st\<lparr>starget := t4\<rparr>)"
    using ask [OF assms(3), of bd addr "\<lambda>mem. int (si_tries_remaining mem slot)"] activate_slot(3) [OF assms(3) lm]
    by (auto simp: ab_slot_retry_count_def new)
  have "length (img t) = length ?d" using fit by (simp add: t(3) length_splice)
  then show ?thesis using t(1) out t1 t2 t3 t4 activate_other [OF assms(3) lm]
    by (intro exI [of _ t] exI [of _ t1] exI [of _ t2] exI [of _ t3] exI [of _ t4]) (simp add: new Let_def)
qed

text \<open>The fastboot command accepts exactly the arguments \<^verbatim>\<open>a\<close> and \<^verbatim>\<open>b\<close>; any other leaves the disk alone.
It answers \<^verbatim>\<open>OKAY\<close> whether or not the slot information could be read and written.\<close>

theorem fb_set_active_dispatch:
  assumes "length pre = 11" and "nul_free arg"
  shows "fb_do_set_active bd p st addr raw (pre @ arg @ NUL # rest) =
    (if arg = [97] then map_ret (\<lambda>(s, st). (''OKAY'', st)) (ab_set_active bd p st addr raw 0)
     else if arg = [98] then map_ret (\<lambda>(s, st). (''OKAY'', st)) (ab_set_active bd p st addr raw 1)
     else Ret (''FAILinvalid slot'', st))"
proof -
  have nf: "nul_free [97]" "nul_free [98]" by (simp_all add: nul_free_def)
  obtain r r' where "strcmp (arg @ NUL # rest) ([97] @ NUL # []) = Ret r" "r = 0 \<longleftrightarrow> arg = [97]"
      "strcmp (arg @ NUL # rest) ([98] @ NUL # []) = Ret r'" "r' = 0 \<longleftrightarrow> arg = [98]"
    using strcmp_eq [OF assms(2) nf(1)] strcmp_eq [OF assms(2) nf(2)] by metis
  then show ?thesis using assms(1) by (simp add: fb_do_set_active_def)
qed

definition ram_misc :: pit_entry where
  "ram_misc = \<lparr>filesys = 0, blkstart = 100, blknum = 1, lun = 0, ename = ''MISC''\<rparr>"

definition misc_pit :: pit_state where
  "misc_pit =
     \<lparr>table = \<lparr>pit_magic = PIT_MAGIC, pit_count = 1, pte = [ram_misc]\<rparr>, pit_blk_count = 8, pit_available = True\<rparr>"

lemma ram_misc_ready: "misc_ready misc_pit ram_storage ram_misc 0 (\<lambda>t. t) (ram_ok 4096 2048)"
proof -
  have "strcicmp ''misc'' ''MISC'' = 0" "c_string ''MISC''" "stricmp ''userdata'' ''MISC'' \<noteq> 0" by code_simp+
  then show ?thesis using ram_lu
    by (simp add: misc_ready_def misc_pit_def ram_misc_def pit_scan_def entry_fits_def entry_wf_def is_sparse_fs_def
        pit_consts)
qed

theorem ab_set_active_selects_witness:
  "\<exists>t t1 t4. ab_set_active BOOT_UFS misc_pit ram_storage 0 (\<lambda>n. replicate n 9) 1 = Ret (0, ram_storage\<lparr>starget := t\<rparr>)
    \<and> ab_current_slot BOOT_UFS misc_pit (ram_storage\<lparr>starget := t\<rparr>) 0 (\<lambda>n. replicate n 9)
        = Ret (1, ram_storage\<lparr>starget := t1\<rparr>)
    \<and> ab_slot_retry_count BOOT_UFS misc_pit (ram_storage\<lparr>starget := t\<rparr>) 0 (\<lambda>n. replicate n 9) 1
        = Ret (7, ram_storage\<lparr>starget := t4\<rparr>)"
proof -
  have "si_priority (misc_of ram_misc ram_disk) 0 \<le> 15"
    by (simp add: si_priority_def misc_of_def ram_misc_def ram_disk_def slice_at_def)
  then show ?thesis
    using ab_set_active_selects [OF ram_misc_ready, of "\<lambda>n. replicate n 9" 1 BOOT_UFS 0]
    by (auto simp: Let_def)
qed

end
