(* ===== verification/Strtol.thy ===== *)
theory Strtol
  imports Cstr
begin

text \<open>
  Number parsing of \<^verbatim>\<open>lib/libc/strtol.c\<close>, with the character classes of \<^verbatim>\<open>lib/libc/ctype.c\<close>. A C
  string is the list of its characters; reading behind the last one gives the terminator. The base is
  0 or at least 2; \<^verbatim>\<open>errno\<close> is left out. Division and remainder of a negative number truncate, as in C.
\<close>

definition isspace :: "int \<Rightarrow> bool" where
  "isspace c \<longleftrightarrow> c = 32 \<or> c = 12 \<or> c = 10 \<or> c = 13 \<or> c = 9 \<or> c = 11"

definition islower :: "int \<Rightarrow> bool" where "islower c \<longleftrightarrow> 97 \<le> c \<and> c \<le> 122"
definition isupper :: "int \<Rightarrow> bool" where "isupper c \<longleftrightarrow> 65 \<le> c \<and> c \<le> 90"
definition isdigit :: "int \<Rightarrow> bool" where "isdigit c \<longleftrightarrow> 48 \<le> c \<and> c \<le> 57"
definition isalpha :: "int \<Rightarrow> bool" where "isalpha c \<longleftrightarrow> isupper c \<or> islower c"

definition LONG_MAX :: int where "LONG_MAX = 2 ^ 63 - 1"
definition LONG_MIN :: int where "LONG_MIN = - (2 ^ 63)"

definition at :: "string \<Rightarrow> int" where
  "at s = (case s of [] \<Rightarrow> 0 | c # s \<Rightarrow> code c)"

fun skip_space :: "string \<Rightarrow> string" where
  "skip_space [] = []"
| "skip_space (c # s) = (if isspace (code c) then skip_space s else c # s)"

definition char_value :: "int \<Rightarrow> int option" where
  "char_value c =
     (if isdigit c then Some (c - 48)
      else if isalpha c then Some (c - (if isupper c then 65 - 10 else 97 - 10)) else None)"

fun strtol_loop :: "bool \<Rightarrow> int \<Rightarrow> int \<Rightarrow> int \<Rightarrow> string \<Rightarrow> int \<Rightarrow> int \<Rightarrow> int \<times> int \<times> string" where
  "strtol_loop neg base cutoff cutlim [] acc any = (acc, any, [])"
| "strtol_loop neg base cutoff cutlim (ch # s) acc any =
     (case char_value (code ch) of
        None \<Rightarrow> (acc, any, ch # s)
      | Some c \<Rightarrow>
          if base \<le> c then (acc, any, ch # s)
          else if any < 0 then strtol_loop neg base cutoff cutlim s acc any
          else if neg then
            (if acc < cutoff \<or> acc = cutoff \<and> cutlim < c
             then strtol_loop neg base cutoff cutlim s LONG_MIN (-1)
             else strtol_loop neg base cutoff cutlim s (acc * base - c) 1)
          else
            (if cutoff < acc \<or> acc = cutoff \<and> cutlim < c
             then strtol_loop neg base cutoff cutlim s LONG_MAX (-1)
             else strtol_loop neg base cutoff cutlim s (acc * base + c) 1))"

text \<open>The result is the number and where \<^verbatim>\<open>*endptr\<close> points, as the rest of the string.\<close>

definition cut_limits :: "bool \<Rightarrow> int \<Rightarrow> int \<times> int" where
  "cut_limits neg base =
     (let cutlim = (if neg then - (- LONG_MIN mod base) else LONG_MAX mod base);
          cutoff = (if neg then - (- LONG_MIN div base) else LONG_MAX div base)
      in if neg then (if 0 < cutlim then (- (cutlim - base), cutoff + 1) else (- cutlim, cutoff))
         else (cutlim, cutoff))"

definition strtol_digits :: "bool \<Rightarrow> int \<Rightarrow> string \<Rightarrow> string \<Rightarrow> int \<times> string" where
  "strtol_digits neg base s nptr =
     (let (cutlim, cutoff) = cut_limits neg base;
          (acc, any, rest) = strtol_loop neg base cutoff cutlim s 0 0
      in (acc, if any \<noteq> 0 then rest else nptr))"

definition strtol_number :: "bool \<Rightarrow> int \<Rightarrow> string \<Rightarrow> string \<Rightarrow> int \<times> string" where
  "strtol_number neg base s nptr =
     (if (base = 0 \<or> base = 16) \<and> at s = 48 \<and> (at (tl s) = 120 \<or> at (tl s) = 88)
      then strtol_digits neg 16 (drop 2 s) nptr
      else strtol_digits neg (if base = 0 then (if at s = 48 then 8 else 10) else base) s nptr)"

definition strtol :: "string \<Rightarrow> int \<Rightarrow> int \<times> string" where
  "strtol nptr base =
     (let s = skip_space nptr in
      strtol_number (at s = 45) base (if at s = 45 \<or> at s = 43 then tl s else s) nptr)"

section \<open>Values\<close>

definition digit_in :: "int \<Rightarrow> char \<Rightarrow> bool" where
  "digit_in base c \<longleftrightarrow> (case char_value (code c) of None \<Rightarrow> False | Some v \<Rightarrow> v < base)"

definition digit_of :: "char \<Rightarrow> int" where
  "digit_of c = the (char_value (code c))"

definition value_of :: "int \<Rightarrow> string \<Rightarrow> int" where
  "value_of base ds = foldl (\<lambda>v c. v * base + digit_of c) 0 ds"

text \<open>The string ends or goes on with something that is not a digit.\<close>

definition ends_number :: "int \<Rightarrow> string \<Rightarrow> bool" where
  "ends_number base s \<longleftrightarrow> s = [] \<or> \<not> digit_in base (hd s)"

definition clamp_long :: "int \<Rightarrow> int" where
  "clamp_long v = max LONG_MIN (min LONG_MAX v)"

lemma char_value_nonneg: "char_value c = Some v \<Longrightarrow> 0 \<le> v"
  by (auto simp: char_value_def isdigit_def isalpha_def isupper_def islower_def split: if_splits)

lemma loop_stops:
  "ends_number base s \<Longrightarrow> strtol_loop neg base cutoff cutlim s acc any = (acc, any, s)"
  by (cases s) (auto simp: ends_number_def digit_in_def split: option.splits)

text \<open>Saturation is final.\<close>

lemma loop_saturated:
  "list_all (digit_in base) ds \<Longrightarrow> ends_number base rest \<Longrightarrow> any < 0 \<Longrightarrow>
   strtol_loop neg base cutoff cutlim (ds @ rest) acc any = (acc, any, rest)"
  by (induction ds) (auto simp: loop_stops digit_in_def split: option.splits)

lemma value_of_step: "foldl (\<lambda>v c. v * base + digit_of c) a (c # ds)
    = foldl (\<lambda>v c. v * base + digit_of c) (a * base + digit_of c) ds"
  by simp

lemma value_grows:
  "list_all (digit_in base) ds \<Longrightarrow> 1 \<le> base \<Longrightarrow> 0 \<le> a \<Longrightarrow>
   a \<le> foldl (\<lambda>v c. v * base + digit_of c) a ds"
proof (induction ds arbitrary: a)
  case (Cons c ds)
  have d: "0 \<le> digit_of c" using Cons.prems(1) char_value_nonneg
    by (auto simp: digit_in_def digit_of_def split: option.splits)
  have "a * 1 \<le> a * base" using Cons.prems by (intro mult_left_mono) auto
  then have "a \<le> a * base + digit_of c" using d by simp
  also have "\<dots> \<le> foldl (\<lambda>v c. v * base + digit_of c) (a * base + digit_of c) ds"
    using Cons.prems d by (intro Cons.IH) auto
  finally show ?case by simp
qed simp

text \<open>The cut-off tells exactly when the next digit would leave the range.\<close>

lemma cut_off_exact:
  fixes a base M c :: int
  assumes "0 < base" and "0 \<le> a" and "0 \<le> c" and "c < base" and "0 \<le> M"
  shows "M div base < a \<or> a = M div base \<and> M mod base < c \<longleftrightarrow> M < a * base + c"
proof -
  have M: "M = M div base * base + M mod base" by simp
  have m: "0 \<le> M mod base" "M mod base < base" using assms(1) by simp_all
  consider "M div base < a" | "a = M div base" | "a < M div base" by linarith
  then show ?thesis
  proof cases
    case 1
    then have "M div base * base + base \<le> a * base"
      using mult_right_mono [of "M div base + 1" a base] assms(1) by (simp add: distrib_right)
    then have "M < a * base + c" using M m assms(3) by linarith
    then show ?thesis using 1 by blast
  next
    case 2
    have "M mod base < c \<longleftrightarrow> a * base + M mod base < a * base + c" by simp
    then have "M mod base < c \<longleftrightarrow> M < a * base + c" using 2 by simp
    then show ?thesis using 2 by blast
  next
    case 3
    then have "a * base + base \<le> M div base * base"
      using mult_right_mono [of "a + 1" "M div base" base] assms(1) by (simp add: distrib_right)
    then have "\<not> M < a * base + c" using M m assms(4) by linarith
    then show ?thesis using 3 by linarith
  qed
qed

text \<open>One loop for each sign: \<open>M\<close> is the largest magnitude.\<close>

lemma loop_value:
  fixes M base acc :: int
  assumes "list_all (digit_in base) ds" and "ends_number base rest" and "2 \<le> base" and "0 \<le> acc" and "acc \<le> M"
    and "0 \<le> any" and neg: "neg \<longleftrightarrow> sg = -1" "sg = 1 \<or> sg = -1"
    and M: "M = (if neg then 2 ^ 63 else 2 ^ 63 - 1)"
  shows "\<exists>any'. strtol_loop neg base (sg * (M div base)) (M mod base) (ds @ rest) (sg * acc) any
      = (sg * min M (foldl (\<lambda>v c. v * base + digit_of c) acc ds), any', rest) \<and> (any' = 0 \<longrightarrow> ds = [] \<and> any = 0)"
  using assms(1,4-6)
proof (induction ds arbitrary: acc any)
  case Nil
  then show ?case using assms(2) by (simp add: loop_stops)
next
  case (Cons ch ds)
  let ?c = "digit_of ch"
  have cv: "char_value (code ch) = Some ?c" "?c < base" "0 \<le> ?c"
    using Cons.prems(1) char_value_nonneg by (auto simp: digit_in_def digit_of_def split: option.splits)
  have exact: "M div base < acc \<or> acc = M div base \<and> M mod base < ?c \<longleftrightarrow> M < acc * base + ?c"
    using assms(3) Cons.prems cv by (intro cut_off_exact) auto
  show ?case
  proof (cases "M < acc * base + ?c")
    case True
    have "list_all (digit_in base) ds" using Cons.prems by simp
    moreover have "acc * base + ?c \<le> foldl (\<lambda>v c. v * base + digit_of c) (acc * base + ?c) ds"
      using Cons.prems assms(3) cv by (intro value_grows) auto
    moreover have "sg * M = (if neg then LONG_MIN else LONG_MAX)"
      using M neg by (auto simp: LONG_MIN_def LONG_MAX_def)
    ultimately show ?thesis using True exact neg cv Cons.prems(4) assms(2)
      by (auto simp: loop_saturated min_def)
  next
    case False
    have "\<exists>any'. strtol_loop neg base (sg * (M div base)) (M mod base) (ds @ rest) (sg * (acc * base + ?c)) 1
      = (sg * min M (foldl (\<lambda>v c. v * base + digit_of c) (acc * base + ?c) ds), any', rest) \<and> (any' = 0 \<longrightarrow> ds = [] \<and> (1 :: int) = 0)"
      using Cons.prems False cv assms(3) by (intro Cons.IH) auto
    then show ?thesis using False exact neg cv Cons.prems(4) by auto
  qed
qed

lemma skip_spaces: "list_all (\<lambda>c. isspace (code c)) sp \<Longrightarrow> skip_space (sp @ s) = skip_space s"
  by (induction sp) auto

lemma digit_not_special:
  assumes "digit_in base c"
  shows "\<not> isspace (code c)" "code c \<noteq> 45" "code c \<noteq> 43"
  using assms
  by (auto simp: digit_in_def char_value_def isspace_def isdigit_def isalpha_def isupper_def islower_def
      split: if_splits)

definition sign_of :: "string \<Rightarrow> int" where
  "sign_of sign = (if sign = ''-'' then -1 else 1)"

definition hex_prefix :: "int \<Rightarrow> string \<Rightarrow> bool" where
  "hex_prefix base pre \<longleftrightarrow> pre = [] \<or> base = 16 \<and> (pre = ''0x'' \<or> pre = ''0X'')"

lemma special_codes [simp]:
  "code (CHR ''-'') = 45" "code (CHR ''+'') = 43" "code (CHR ''0'') = 48" "code (CHR ''x'') = 120" "code (CHR ''X'') = 88"
  by (simp_all add: code_def)

lemma code_inject: "code a = code b \<longleftrightarrow> a = b"
  by (simp add: code_def)

lemma x_is_no_hex_digit: "code c = 120 \<or> code c = 88 \<Longrightarrow> \<not> digit_in 16 c"
  by (auto simp: digit_in_def char_value_def isdigit_def isalpha_def isupper_def islower_def)

text \<open>A number without prefix that is not read as one: the digit 0 followed by x.\<close>

lemma no_hex_prefix:
  assumes "list_all (digit_in base) ds" and "ds \<noteq> []" and "ends_number base rest"
    and "\<not> (ds = ''0'' \<and> (at rest = 120 \<or> at rest = 88))" and "2 \<le> base"
  shows "\<not> ((base = 0 \<or> base = 16) \<and> at (ds @ rest) = 48 \<and> (at (tl (ds @ rest)) = 120 \<or> at (tl (ds @ rest)) = 88))"
proof
  assume h: "(base = 0 \<or> base = 16) \<and> at (ds @ rest) = 48 \<and> (at (tl (ds @ rest)) = 120 \<or> at (tl (ds @ rest)) = 88)"
  then have b: "base = 16" using assms(5) by auto
  obtain c cs where ds: "ds = c # cs" using assms(2) by (cases ds) auto
  have "code c = code (CHR ''0'')" using h ds by (simp add: at_def)
  then have "c = CHR ''0''" by (simp only: code_inject)
  show False
  proof (cases cs)
    case Nil
    then show False using h ds assms(4) \<open>c = CHR ''0''\<close> by simp
  next
    case (Cons c' cs')
    then have "code c' = 120 \<or> code c' = 88" using h ds by (simp add: at_def)
    then show False using x_is_no_hex_digit assms(1) b ds Cons by simp
  qed
qed

lemma strtol_digits_value:
  assumes "2 \<le> base" and "list_all (digit_in base) ds" and "ends_number base rest" and "sg = sign_of sign"
  shows "strtol_digits (sign = ''-'') base (ds @ rest) nptr
    = (if ds = [] then (0, nptr) else (clamp_long (sg * value_of base ds), rest))"
proof (cases "ds = []")
  case True
  then show ?thesis using loop_stops [OF assms(3)] by (simp add: strtol_digits_def split: prod.split)
next
  case False
  let ?neg = "sign = ''-''"
  define M :: int where "M = (if ?neg then 2 ^ 63 else 2 ^ 63 - 1)"
  have bnd: "- LONG_MIN = 2 ^ 63" "LONG_MAX = 2 ^ 63 - 1" by (simp_all add: LONG_MIN_def LONG_MAX_def)
  have "\<exists>any. strtol_loop ?neg base (sg * (M div base)) (M mod base) (ds @ rest) (sg * 0) 0
      = (sg * min M (value_of base ds), any, rest) \<and> (any = 0 \<longrightarrow> ds = [] \<and> (0 :: int) = 0)"
    unfolding value_of_def by (rule loop_value [OF assms(2,3,1)]) (auto simp: M_def sign_of_def assms(4))
  then obtain any where lp: "strtol_loop ?neg base (sg * (M div base)) (M mod base) (ds @ rest) 0 0
      = (sg * min M (value_of base ds), any, rest)" "any \<noteq> 0"
    using False by auto
  have nn: "0 \<le> M mod base" "0 \<le> value_of base ds"
    using assms(1) value_grows [OF assms(2), of 0] by (simp_all add: value_of_def)
  have "sg * min M (value_of base ds) = clamp_long (sg * value_of base ds)"
    using nn(2) by (auto simp: M_def sign_of_def assms(4) clamp_long_def LONG_MIN_def LONG_MAX_def min_def max_def)
  moreover have "cut_limits ?neg base = (M mod base, sg * (M div base))"
    using nn(1) by (auto simp: cut_limits_def Let_def bnd M_def sign_of_def assms(4))
  ultimately show ?thesis using lp False by (simp add: strtol_digits_def)
qed

text \<open>White space and sign, in front of something that starts with neither.\<close>

definition no_sign_or_space :: "string \<Rightarrow> bool" where
  "no_sign_or_space s \<longleftrightarrow> s = [] \<or> \<not> isspace (code (hd s)) \<and> hd s \<noteq> CHR ''-'' \<and> hd s \<noteq> CHR ''+''"

lemma code_sign: "code c = 45 \<longleftrightarrow> c = CHR ''-''" "code c = 43 \<longleftrightarrow> c = CHR ''+''"
  using code_inject [of c "CHR ''-''"] code_inject [of c "CHR ''+''"] by simp_all

lemma strtol_body:
  assumes "list_all (\<lambda>c. isspace (code c)) sp" and "sign \<in> {[], ''+'', ''-''}"
    and "sign = [] \<longrightarrow> no_sign_or_space body"
  shows "strtol (sp @ sign @ body) base = strtol_number (sign = ''-'') base body (sp @ sign @ body)"
proof -
  let ?s = "sign @ body"
  have s1: "skip_space (sp @ ?s) = ?s"
    using assms by (cases body) (auto simp: skip_spaces isspace_def no_sign_or_space_def)
  have s2: "(at ?s = 45) = (sign = ''-'')" "(if at ?s = 45 \<or> at ?s = 43 then tl ?s else ?s) = body"
    using assms(2,3) by (cases body; auto simp: at_def no_sign_or_space_def code_sign)+
  show ?thesis unfolding strtol_def Let_def s1 s2(2) unfolding s2(1) ..
qed

lemma strtol_reads:
  assumes "2 \<le> base" and "list_all (\<lambda>c. isspace (code c)) sp" and "sign \<in> {[], ''+'', ''-''}"
    and "hex_prefix base pre" and "ds \<noteq> []" and "list_all (digit_in base) ds" and "ends_number base rest"
    and "\<not> (pre = [] \<and> ds = ''0'' \<and> (at rest = 120 \<or> at rest = 88))"
  shows "strtol (sp @ sign @ pre @ ds @ rest) base = (clamp_long (sign_of sign * value_of base ds), rest)"
proof -
  obtain c cs where ds: "ds = c # cs" using assms(5) by (cases ds) auto
  have dc: "digit_in base c" using assms(6) ds by simp
  have "no_sign_or_space (pre @ ds @ rest)"
    using assms(4) digit_not_special [OF dc] ds by (auto simp: no_sign_or_space_def hex_prefix_def isspace_def)
  then have "strtol (sp @ sign @ pre @ ds @ rest) base
      = strtol_number (sign = ''-'') base (pre @ ds @ rest) (sp @ sign @ pre @ ds @ rest)"
    using strtol_body [OF assms(2,3)] by blast
  also have "\<dots> = strtol_digits (sign = ''-'') base (ds @ rest) (sp @ sign @ pre @ ds @ rest)"
  proof (cases "pre = []")
    case True
    then show ?thesis using no_hex_prefix [OF assms(6,5,7) _ assms(1)] assms(1,8) by (auto simp: strtol_number_def)
  next
    case False
    then show ?thesis using assms(4) by (auto simp: strtol_number_def hex_prefix_def at_def)
  qed
  finally show ?thesis using strtol_digits_value [OF assms(1,6,7) refl] assms(5) by simp
qed

text \<open>The base that is used, and where its digits are expected.\<close>

definition reads_hex :: "int \<Rightarrow> string \<Rightarrow> bool" where
  "reads_hex base body \<longleftrightarrow> (base = 0 \<or> base = 16) \<and> (take 2 body = ''0x'' \<or> take 2 body = ''0X'')"

definition base_used :: "int \<Rightarrow> string \<Rightarrow> int" where
  "base_used base body =
     (if reads_hex base body then 16
      else if base = 0 then (if take 1 body = ''0'' then 8 else 10) else base)"

lemma at_hex:
  "at body = 48 \<and> (at (tl body) = 120 \<or> at (tl body) = 88) \<longleftrightarrow> take 2 body = ''0x'' \<or> take 2 body = ''0X''"
  "at body = 48 \<longleftrightarrow> take 1 body = ''0''"
proof -
  have c: "code x = 48 \<longleftrightarrow> x = CHR ''0''" "code x = 120 \<longleftrightarrow> x = CHR ''x''" "code x = 88 \<longleftrightarrow> x = CHR ''X''" for x
    using code_inject [of x "CHR ''0''"] code_inject [of x "CHR ''x''"] code_inject [of x "CHR ''X''"] by simp_all
  show "at body = 48 \<and> (at (tl body) = 120 \<or> at (tl body) = 88) \<longleftrightarrow> take 2 body = ''0x'' \<or> take 2 body = ''0X''"
    by (cases body; cases "tl body") (auto simp: at_def c numeral_2_eq_2)
  show "at body = 48 \<longleftrightarrow> take 1 body = ''0''" by (cases body) (auto simp: at_def c)
qed

lemma strtol_number_eq:
  "strtol_number neg base body nptr
     = strtol_digits neg (base_used base body) (if reads_hex base body then drop 2 body else body) nptr"
  unfolding strtol_number_def base_used_def reads_hex_def using at_hex [of body] by auto

section \<open>Property\<close>

text \<open>Claim C39: what \<^verbatim>\<open>strtol\<close> returns for any string and any base that is 0 or at least 2. White space
and a sign are skipped; then, for base 0 and 16, a prefix \<^verbatim>\<open>0x\<close>, after which the digits are
hexadecimal; for base 0 without that prefix they are octal if the first one is 0 and decimal
otherwise. If there are digits, the result is their value with the sign, cut to the range of a
\<^verbatim>\<open>long\<close>, and the end pointer is behind the last digit. If there are none, the result is 0
and the end pointer is the start of the string. The latter is also what happens to \<^verbatim>\<open>0x\<close> without a
hexadecimal digit behind it, although its 0 is a number.\<close>

theorem strtol_value:
  assumes "base = 0 \<or> 2 \<le> base" and "list_all (\<lambda>c. isspace (code c)) sp" and "sign \<in> {[], ''+'', ''-''}"
    and "sign = [] \<longrightarrow> no_sign_or_space body"
    and "(if reads_hex base body then drop 2 body else body) = ds @ rest"
    and "list_all (digit_in (base_used base body)) ds" and "ends_number (base_used base body) rest"
  shows "strtol (sp @ sign @ body) base
    = (if ds = [] then (0, sp @ sign @ body)
       else (clamp_long (sign_of sign * value_of (base_used base body) ds), rest))"
proof -
  have "2 \<le> base_used base body" using assms(1) by (auto simp: base_used_def)
  then show ?thesis
    using strtol_body [OF assms(2-4), of base] strtol_digits_value [OF _ assms(6,7) refl, of sign] assms(5)
    by (simp add: strtol_number_eq)
qed

theorem strtol_value_witness: "strtol '' -0x1F,'' 0 = (-31, '','') \<and> strtol ''0xg'' 16 = (0, ''0xg'')"
proof -
  note d = isspace_def code_def reads_hex_def base_used_def no_sign_or_space_def digit_in_def char_value_def
    isdigit_def isalpha_def isupper_def islower_def ends_number_def
  have "strtol ('' '' @ ''-'' @ ''0x1F,'') 0
      = (if ''1F'' = [] then (0, '' '' @ ''-'' @ ''0x1F,'')
         else (clamp_long (sign_of ''-'' * value_of (base_used 0 ''0x1F,'') ''1F''), '',''))"
    by (rule strtol_value) (simp_all add: d)
  moreover have "clamp_long (sign_of ''-'' * value_of (base_used 0 ''0x1F,'') ''1F'') = -31"
    by (simp add: clamp_long_def sign_of_def value_of_def digit_of_def LONG_MIN_def LONG_MAX_def d)
  moreover have "strtol ([] @ [] @ ''0xg'') 16 = (if ([] :: string) = [] then (0, [] @ [] @ ''0xg'')
      else (clamp_long (sign_of [] * value_of (base_used 16 ''0xg'') []), ''g''))"
    by (rule strtol_value) (simp_all add: d)
  ultimately show ?thesis by simp
qed

text \<open>Numbers beyond the range saturate.\<close>

lemma strtol_saturates: "strtol ''FFFFFFFFFFFFFFFFFF'' 16 = (2 ^ 63 - 1, [])"
  by code_simp

end
