(* ===== verification/Fastboot.thy ===== *)
theory Fastboot
  imports Part Ab_Update Strtol
begin

text \<open>
  The commands of \<^verbatim>\<open>lib/fastboot/fastboot_cmd.c\<close> that write to the storage: download, flash and erase. A
  command is the C string received from the host; the receive buffer is zero behind it. What a
  command does towards the outside, its answers first of all, is the list \<open>acts\<close>, in order.

  The transfer buffer starts at \<^verbatim>\<open>0x8B000000\<close> and is \<^verbatim>\<open>0x30000000\<close> bytes long. The buffer at
  \<^verbatim>\<open>0x94000000\<close>, through which settings are read and written and the boot loader is patched, lies
  inside it, so both are one list of bytes here. The keys of the device are given as a sequence of
  samples, one for each pass of a polling loop; when it ends the code is still waiting. Text on the
  display is left out, and so is the flag \<^verbatim>\<open>block_keys\<close>, which keeps the menu from reading the keys
  while a command runs. \<open>raw n\<close> is fresh memory of \<open>n\<close> bytes at \<open>addr\<close>.
\<close>

definition CFG_FASTBOOT_TRANSFER_BUFFER :: nat where "CFG_FASTBOOT_TRANSFER_BUFFER = 0x8B000000"
definition CFG_FASTBOOT_TRANSFER_BUFFER_SIZE :: nat where "CFG_FASTBOOT_TRANSFER_BUFFER_SIZE = 0x30000000"
definition BOOT_BASE :: nat where "BOOT_BASE = 0x94000000"
definition BOOT_MAGIC :: "byte list" where "BOOT_MAGIC = [65, 78, 68, 82, 79, 73, 68, 33]"
definition OS_VERSION_POS :: nat where "OS_VERSION_POS = 44"

lemmas fb_consts = CFG_FASTBOOT_TRANSFER_BUFFER_def CFG_FASTBOOT_TRANSFER_BUFFER_SIZE_def BOOT_BASE_def

type_synonym keys = "(bool \<times> bool \<times> bool) list"

text \<open>The ways out of a command: information and final answers, which may wait for the end of their
transmission, a block of memory, and calls that do not come back: boot and reset.\<close>

datatype fb_call =
    Reboot string
  | Continue_Boot
  | Boot_Image nat nat
  | Mainline_Boot nat nat

datatype act =
    Info string
  | Status string
  | Sync_Status string
  | Event_Init
  | Payload nat nat
  | Leave fb_call

datatype payload_phase = PAYLOAD_NONE | PAYLOAD_IN_PROGRESS | PAYLOAD_START_MARK
datatype usb_dir = USBDIR_OUT | USBDIR_IN

record 't fb_state =
  storage_of :: "'t storage"
  xfer :: "byte list"
  download_size :: nat
  downloaded_data_size :: nat
  phase :: payload_phase
  payload_dir :: usb_dir
  payload_buf :: nat
  payload_req_len :: nat
  prot_req_rx_sz :: nat
  is_ramdump :: bool
  update_seen :: bool
  update_confirmed :: bool
  key_samples :: keys
  acts :: "act list"

text \<open>What does not change: the kind of boot device, the partition table, the partition state.\<close>

record fb_env =
  boot_dev :: boot_device
  pits :: pit_state
  parts :: part_state
  raw_mem :: "nat \<Rightarrow> byte list"
  raw_addr :: nat

definition emit :: "act \<Rightarrow> 't fb_state \<Rightarrow> 't fb_state" where
  "emit a s = s\<lparr>acts := acts s @ [a]\<rparr>"

lemma emit_simps [simp]:
  "storage_of (emit a s) = storage_of s" "xfer (emit a s) = xfer s" "acts (emit a s) = acts s @ [a]"
  "download_size (emit a s) = download_size s" "downloaded_data_size (emit a s) = downloaded_data_size s"
  "phase (emit a s) = phase s" "payload_dir (emit a s) = payload_dir s" "payload_buf (emit a s) = payload_buf s"
  "payload_req_len (emit a s) = payload_req_len s" "prot_req_rx_sz (emit a s) = prot_req_rx_sz s"
  "is_ramdump (emit a s) = is_ramdump s"
  by (simp_all add: emit_def)

abbreviation send :: "string \<Rightarrow> 't fb_state \<Rightarrow> 't fb_state" where
  "send r \<equiv> emit (Status r)"

section \<open>Download\<close>

definition hex_char :: "nat \<Rightarrow> char" where
  "hex_char d = char_of (if d < 10 then 48 + d else 87 + d)"

definition hex8 :: "nat \<Rightarrow> string" where
  "hex8 n = map (\<lambda>i. hex_char (n div 16 ^ i mod 16)) [7, 6, 5, 4, 3, 2, 1, 0]"

definition fastboot_set_payload_data :: "usb_dir \<Rightarrow> nat \<Rightarrow> nat \<Rightarrow> 't fb_state \<Rightarrow> 't fb_state" where
  "fastboot_set_payload_data d buf len s =
     s\<lparr>phase := PAYLOAD_START_MARK, payload_dir := d, payload_buf := buf, payload_req_len := len\<rparr>"

definition fb_do_download :: "string \<Rightarrow> 't fb_state \<Rightarrow> 't fb_state" where
  "fb_do_download cmd s =
     (let n = nat (fst (strtol (drop 9 cmd) 16) mod 2 ^ 32);
          s = s\<lparr>download_size := n, downloaded_data_size := 0\<rparr>;
          s = fastboot_set_payload_data USBDIR_OUT CFG_FASTBOOT_TRANSFER_BUFFER n s
      in send (''DATA'' @ hex8 n) s)"

definition fb_cmd_set_downloaded_sz :: "nat \<Rightarrow> 't fb_state \<Rightarrow> 't fb_state" where
  "fb_cmd_set_downloaded_sz sz s = s\<lparr>downloaded_data_size := add32 (downloaded_data_size s) sz\<rparr>"

section \<open>Confirmation\<close>

definition blocked_partitions :: "string list" where
  "blocked_partitions =
     [''bootloader'', ''efs'', ''blcmd'', ''bota'', ''cp_debug'', ''cpefs'', ''dqmdbg'', ''efs'', ''harx'',
      ''keyrefuge'', ''nad_refer'', ''omr'', ''param'', ''persistent'', ''radio'', ''sec_efs'', ''spu'',
      ''steady'', ''uh'', ''uhcfg'']"

definition partition_is_blocked :: "string \<Rightarrow> bool" where
  "partition_is_blocked nm \<longleftrightarrow> list_ex (\<lambda>b. stricmp nm b = 0) blocked_partitions"

fun fastboot_wait_for_key_release :: "keys \<Rightarrow> keys outcome" where
  "fastboot_wait_for_key_release [] = Hang"
| "fastboot_wait_for_key_release ((up, down, pw) # ks) =
     (if up \<or> down \<or> pw then fastboot_wait_for_key_release ks else Ret ks)"

fun confirm_loop :: "keys \<Rightarrow> (bool \<times> keys) outcome" where
  "confirm_loop [] = Hang"
| "confirm_loop ((up, down, pw) # ks) =
     (if up then Ret (True, ks) else if down \<or> pw then Ret (False, ks) else confirm_loop ks)"

definition fastboot_confirm_update :: "'t fb_state \<Rightarrow> (status \<times> 't fb_state) outcome" where
  "fastboot_confirm_update s =
     (if \<not> update_seen s \<or> update_confirmed s then Ret (0, s)
      else
        let s = emit (Info ''INFOConfirm fastboot update on device'') s in
        case fastboot_wait_for_key_release (key_samples s) of
          Ret ks \<Rightarrow>
            (case confirm_loop ks of
               Ret (True, ks) \<Rightarrow> Ret (0, s\<lparr>key_samples := ks, update_confirmed := True\<rparr>)
             | Ret (False, ks) \<Rightarrow> Ret (-1, s\<lparr>key_samples := ks\<rparr>)
             | Fault \<Rightarrow> Fault | Hang \<Rightarrow> Hang)
        | Fault \<Rightarrow> Fault | Hang \<Rightarrow> Hang)"

section \<open>Erasing\<close>

definition fb_do_erase :: "fb_env \<Rightarrow> string \<Rightarrow> 't fb_state \<Rightarrow> 't fb_state outcome" where
  "fb_do_erase v cmd s =
     (let key = drop 6 cmd;
          finish = (\<lambda>s r. case r of
             Ret (status, st) \<Rightarrow>
               Ret (send (if status \<noteq> 0 then ''FAILfailed to erase partition'' else ''OKAY'') (s\<lparr>storage_of := st\<rparr>))
           | Fault \<Rightarrow> Fault | Hang \<Rightarrow> Hang)
      in if key = ''wipe'' then
        (case fastboot_confirm_update s of
           Ret (c, s) \<Rightarrow>
             if c \<noteq> 0 then Ret (send ''FAILUser canceled fastboot update'' s)
             else finish s (part_wipe_boot (parts v) (storage_of s))
         | Fault \<Rightarrow> Fault | Hang \<Rightarrow> Hang)
      else
        (case part_get (pits v) key of
           Ret part \<Rightarrow>
             if \<not> part_get_pt_type key \<and> part = None then Ret (send ''FAILpartition does not exist'' s)
             else if partition_is_blocked key then Ret (send ''FAILPartition is blocked from being erased!'' s)
             else
               (case fastboot_confirm_update s of
                  Ret (c, s) \<Rightarrow>
                    if c \<noteq> 0 then Ret (send ''FAILUser canceled fastboot update'' s)
                    else finish s (part_erase (boot_dev v) (pits v) (storage_of s) part)
                | Fault \<Rightarrow> Fault | Hang \<Rightarrow> Hang)
         | Fault \<Rightarrow> Fault | Hang \<Rightarrow> Hang))"

section \<open>Flashing\<close>

text \<open>\<^verbatim>\<open>ROUNDUP(size, PART_SECTOR_SIZE)\<close> in 32 bits.\<close>

definition sector_size_up :: "nat \<Rightarrow> nat" where
  "sector_size_up sz = add32 sz 511 div 512 * 512"

text \<open>The length of the ramdisk is stored in the first word of the partition \<^verbatim>\<open>env\<close>.\<close>

definition note_ramdisk_size :: "fb_env \<Rightarrow> 't storage \<Rightarrow> nat \<Rightarrow> 't storage outcome" where
  "note_ramdisk_size v st sz =
     (case part_get (pits v) ''env'' of
        Ret part \<Rightarrow>
          (case part_get_size_in_bytes (pits v) part of
             Ret n \<Rightarrow>
               (case part_read (boot_dev v) (pits v) st part (raw_addr v) (raw_mem v n) of
                  Ret (r, mem, st) \<Rightarrow>
                    if 4 \<le> length mem
                    then part_write (boot_dev v) (pits v) st part (raw_addr v) (splice_at mem 0 (le32 sz))
                    else Fault
                | Fault \<Rightarrow> Fault | Hang \<Rightarrow> Hang)
           | Fault \<Rightarrow> Fault | Hang \<Rightarrow> Hang)
      | Fault \<Rightarrow> Fault | Hang \<Rightarrow> Hang)"

text \<open>\<open>buf\<close> is the memory from \<open>addr\<close> on.\<close>

definition flash_using_part ::
    "fb_env \<Rightarrow> 't storage \<Rightarrow> string \<Rightarrow> nat \<Rightarrow> nat \<Rightarrow> byte list \<Rightarrow> (string \<times> 't storage) outcome" where
  "flash_using_part v st key sz addr buf =
     (let sz = sector_size_up sz in
      if part_get_pt_type key then (let r = pit_update buf sz in Ret (''OKAY'', st))
      else
        (case part_get (pits v) key of
           Ret part \<Rightarrow>
             (case (case part of None \<Rightarrow> Ret (''FAILpartition does not exist'', st)
                    | Some e \<Rightarrow>
                        (case part_get_size_in_bytes (pits v) part of
                           Ret len \<Rightarrow>
                             if len < sz \<and> len \<noteq> 0 then Ret (''FAILimage too large for partition'', st)
                             else (case part_write_partial (boot_dev v) (pits v) st part addr buf 0 sz of
                                     Ret (r, st) \<Rightarrow>
                                       Ret (if r \<noteq> 0 then ''FAILfailed to flash partition'' else ''OKAY'', st)
                                   | Fault \<Rightarrow> Fault | Hang \<Rightarrow> Hang)
                         | Fault \<Rightarrow> Fault | Hang \<Rightarrow> Hang)) of
                Ret (resp, st) \<Rightarrow>
                  if key = ''ramdisk''
                  then map_ret (Pair resp) (note_ramdisk_size v st sz)
                  else Ret (resp, st)
              | Fault \<Rightarrow> Fault | Hang \<Rightarrow> Hang)
         | Fault \<Rightarrow> Fault | Hang \<Rightarrow> Hang))"

text \<open>The buffer at \<^verbatim>\<open>BOOT_BASE\<close> inside the transfer buffer.\<close>

definition boot_gap :: nat where
  "boot_gap = BOOT_BASE - CFG_FASTBOOT_TRANSFER_BUFFER"

definition boot_buf :: "byte list \<Rightarrow> byte list" where
  "boot_buf m = drop boot_gap m"

definition set_boot_buf :: "byte list \<Rightarrow> byte list \<Rightarrow> byte list" where
  "set_boot_buf m b = take boot_gap m @ b"

text \<open>\<^verbatim>\<open>sizeof(enum persistent_storage_entries)\<close> is 4, the size of the enumeration type.\<close>

fun read_settings ::
    "fb_env \<Rightarrow> nat list \<Rightarrow> byte list \<Rightarrow> 't storage \<Rightarrow> (int list \<times> byte list \<times> 't storage) outcome" where
  "read_settings v [] m st = Ret ([], m, st)"
| "read_settings v (i # is) m st =
     (case persistent_storage_read (boot_dev v) (pits v) st (boot_buf m) i of
        Ret (x, b, st) \<Rightarrow>
          (case read_settings v is (set_boot_buf m b) st of
             Ret (xs, m, st) \<Rightarrow> Ret (x # xs, m, st) | Fault \<Rightarrow> Fault | Hang \<Rightarrow> Hang)
      | Fault \<Rightarrow> Fault | Hang \<Rightarrow> Hang)"

fun write_settings ::
    "fb_env \<Rightarrow> (nat \<times> int) list \<Rightarrow> byte list \<Rightarrow> 't storage \<Rightarrow> (byte list \<times> 't storage) outcome" where
  "write_settings v [] m st = Ret (m, st)"
| "write_settings v ((i, x) # ps) m st =
     (case persistent_storage_write (boot_dev v) (pits v) st (boot_buf m) i x of
        Ret (r, b, st) \<Rightarrow> write_settings v ps (set_boot_buf m b) st
      | Fault \<Rightarrow> Fault | Hang \<Rightarrow> Hang)"

text \<open>The last step of both ways through \<^verbatim>\<open>fb_do_flash\<close>, at the label \<^verbatim>\<open>flash\<close>.\<close>

definition flash_and_report :: "fb_env \<Rightarrow> string \<Rightarrow> 't fb_state \<Rightarrow> 't fb_state outcome" where
  "flash_and_report v dest s =
     (case flash_using_part v (storage_of s) dest (downloaded_data_size s) CFG_FASTBOOT_TRANSFER_BUFFER (xfer s) of
        Ret (resp, st) \<Rightarrow> Ret (send resp (s\<lparr>storage_of := st\<rparr>)) | Fault \<Rightarrow> Fault | Hang \<Rightarrow> Hang)"

text \<open>Reading the settings and then the boot loader itself to \<^verbatim>\<open>BOOT_BASE\<close>.\<close>

definition load_lk3rd :: "fb_env \<Rightarrow> 't fb_state \<Rightarrow> (int list \<times> pit_entry \<times> 't fb_state) outcome" where
  "load_lk3rd v s =
     (case read_settings v [0..<4] (xfer s) (storage_of s) of
        Ret (xs, m, st) \<Rightarrow>
          (case part_get (pits v) ''lk3rd'' of
             Ret None \<Rightarrow> Fault
           | Ret (Some e) \<Rightarrow>
               (case part_read (boot_dev v) (pits v) st (Some e) BOOT_BASE (boot_buf m) of
                  Ret (r, b, st) \<Rightarrow> Ret (xs, e, s\<lparr>xfer := set_boot_buf m b, storage_of := st\<rparr>)
                | Fault \<Rightarrow> Fault | Hang \<Rightarrow> Hang)
           | Fault \<Rightarrow> Fault | Hang \<Rightarrow> Hang)
      | Fault \<Rightarrow> Fault | Hang \<Rightarrow> Hang)"

definition has_magic :: "byte list \<Rightarrow> bool" where
  "has_magic m \<longleftrightarrow> take 8 m = BOOT_MAGIC"

definition patch_os_version :: "byte list \<Rightarrow> byte list \<Rightarrow> byte list" where
  "patch_os_version m from = splice_at m OS_VERSION_POS (slice_at OS_VERSION_POS 4 from)"

definition restore_settings :: "fb_env \<Rightarrow> int list \<Rightarrow> 't fb_state \<Rightarrow> 't fb_state outcome" where
  "restore_settings v xs s =
     (case write_settings v (zip [0..<4] xs) (xfer s) (storage_of s) of
        Ret (m, st) \<Rightarrow> Ret (s\<lparr>xfer := m, storage_of := st\<rparr>) | Fault \<Rightarrow> Fault | Hang \<Rightarrow> Hang)"

definition flash_boot :: "fb_env \<Rightarrow> 't fb_state \<Rightarrow> 't fb_state outcome" where
  "flash_boot v s =
     (case load_lk3rd v s of
        Ret (xs, e, s) \<Rightarrow>
          if \<not> has_magic (xfer s) \<or> \<not> has_magic (boot_buf (xfer s)) then flash_and_report v ''boot'' s
          else
            let s = s\<lparr>xfer := set_boot_buf (xfer s) (patch_os_version (boot_buf (xfer s)) (xfer s))\<rparr> in
            (case flash_using_part v (storage_of s) ''lk3rd'' (mul32 (blknum e) PIT_UFS_BLK_SIZE) BOOT_BASE
                    (boot_buf (xfer s)) of
               Ret (resp, st) \<Rightarrow>
                 (case restore_settings v xs (s\<lparr>storage_of := st\<rparr>) of
                    Ret s \<Rightarrow>
                      (case part_get (pits v) ''boot'' of
                         Ret None \<Rightarrow> Fault
                       | Ret (Some b) \<Rightarrow>
                           flash_and_report v ''boot''
                             (if downloaded_data_size s = add32 (mul32 (blknum b) PIT_UFS_BLK_SIZE) (512 * PIT_UFS_BLK_SIZE)
                              then s\<lparr>downloaded_data_size := sub32 (downloaded_data_size s) (512 * PIT_UFS_BLK_SIZE)\<rparr>
                              else s)
                       | Fault \<Rightarrow> Fault | Hang \<Rightarrow> Hang)
                  | Fault \<Rightarrow> Fault | Hang \<Rightarrow> Hang)
             | Fault \<Rightarrow> Fault | Hang \<Rightarrow> Hang)
      | Fault \<Rightarrow> Fault | Hang \<Rightarrow> Hang)"

definition flash_lk3rd :: "fb_env \<Rightarrow> 't fb_state \<Rightarrow> 't fb_state outcome" where
  "flash_lk3rd v s =
     (case load_lk3rd v s of
        Ret (xs, e, s) \<Rightarrow>
          if \<not> has_magic (xfer s) then Ret (send ''FAILInvalid lk3rd Image'' s)
          else if \<not> has_magic (boot_buf (xfer s)) then flash_and_report v ''lk3rd'' s
          else
            let s = s\<lparr>xfer := patch_os_version (xfer s) (boot_buf (xfer s))\<rparr> in
            (case flash_using_part v (storage_of s) ''lk3rd'' (downloaded_data_size s) CFG_FASTBOOT_TRANSFER_BUFFER
                    (xfer s) of
               Ret (resp, st) \<Rightarrow>
                 (case restore_settings v xs (s\<lparr>storage_of := st\<rparr>) of
                    Ret s \<Rightarrow> Ret (send resp s) | Fault \<Rightarrow> Fault | Hang \<Rightarrow> Hang)
             | Fault \<Rightarrow> Fault | Hang \<Rightarrow> Hang)
      | Fault \<Rightarrow> Fault | Hang \<Rightarrow> Hang)"

definition fb_do_flash :: "fb_env \<Rightarrow> string \<Rightarrow> 't fb_state \<Rightarrow> 't fb_state outcome" where
  "fb_do_flash v cmd s =
     (let dest = drop 6 cmd in
      if partition_is_blocked dest then Ret (send ''FAILPartition is blocked from being flashed!'' s)
      else
        (case fastboot_confirm_update s of
           Ret (c, s) \<Rightarrow>
             if c \<noteq> 0 then Ret (send ''FAILUser canceled fastboot update'' s)
             else if dest = ''boot'' then flash_boot v s
             else if dest = ''lk3rd'' then flash_lk3rd v s
             else flash_and_report v dest s
         | Fault \<Rightarrow> Fault | Hang \<Rightarrow> Hang))"

end
