(* ===== verification/Fastboot_Correct.thy ===== *)
theory Fastboot_Correct
  imports Fastboot
begin

text \<open>
  What the flash and erase commands do to the disk. Blocked partitions and updates that the user
  declines leave it alone; an image goes to its partition and nowhere else; flashing the boot image
  or the boot loader keeps the settings of the boot loader and the version that the other one carries.
\<close>

abbreviation lk_size :: nat where "lk_size \<equiv> 0x200000"

section \<open>The buffer inside the buffer\<close>

lemma boot_gap_eq: "boot_gap = 0x9000000"
  by (simp add: boot_gap_def fb_consts)

lemma set_boot_splice:
  assumes "boot_gap + length d \<le> length m"
  shows "set_boot_buf m (splice_at (boot_buf m) 0 d) = splice_at m boot_gap d"
  using assms by (simp add: set_boot_buf_def boot_buf_def splice_at_def add.commute)

lemma length_boot_buf [simp]: "length (boot_buf m) = length m - boot_gap"
  by (simp add: boot_buf_def)

lemma boot_buf_splice:
  assumes "boot_gap + length d \<le> length m"
  shows "boot_buf (splice_at m boot_gap d) = splice_at (boot_buf m) 0 d"
  using assms by (simp add: boot_buf_def splice_at_def add.commute)

lemma splice_again:
  "off + length d \<le> length m \<Longrightarrow> length d' = length d \<Longrightarrow> splice_at (splice_at m off d) off d' = splice_at m off d'"
  by (simp add: splice_at_def)

lemma splice_same: "off + n \<le> length m \<Longrightarrow> splice_at m off (slice_at off n m) = m"
proof -
  assume "off + n \<le> length m"
  then have "take off m @ take n (drop off m) @ drop (off + n) m = m"
    by (metis append_take_drop_id drop_drop add.commute)
  then show ?thesis using \<open>off + n \<le> length m\<close> by (simp add: splice_at_def slice_at_def)
qed

section \<open>Settings through a larger buffer\<close>

text \<open>The boot loader as it is on the disk.\<close>

definition lk_of :: "pit_entry \<Rightarrow> byte list \<Rightarrow> byte list" where
  "lk_of e disk = slice_at (blkstart e * 4096) lk_size disk"

lemma lk_fits:
  assumes "lk3rd_ready p st e a img ok"
  shows "blkstart e * 4096 + lk_size \<le> length (img (starget st))" and "length (lk_of e (img (starget st))) = lk_size"
proof -
  show "blkstart e * 4096 + lk_size \<le> length (img (starget st))"
    using lu_length [OF lk3rd_ready_fits(3) [OF assms]] lk3rd_ready_fits(2) [OF assms]
    by (auto simp: entry_fits_def lk3rd_of_def)
  then show "length (lk_of e (img (starget st))) = lk_size" by (simp add: lk_of_def)
qed

lemma load_lk:
  assumes "lk3rd_ready p st e a img ok" and "lk_size \<le> length mem"
  shows "\<exists>t. pit_access bd p st (lk3rd_of e) PIT_OP_LOAD addr mem
      = Ret (0, splice_at mem 0 (lk_of e (img (starget st))), st\<lparr>starget := t\<rparr>) \<and> ok t \<and> img t = img (starget st)"
  using access_load_ok [OF lk3rd_ready_fits(3,2,5) [OF assms(1)], of mem bd addr] assms(2)
  by (auto simp: lk3rd_of_def lk_of_def)

lemma store_lk:
  assumes "lk3rd_ready p st e a img ok" and "lk_size \<le> length mem"
  shows "\<exists>t. pit_access bd p st (lk3rd_of e) PIT_OP_FLASH addr mem = Ret (0, mem, st\<lparr>starget := t\<rparr>) \<and> ok t
      \<and> img t = splice_at (img (starget st)) (blkstart e * 4096) (take lk_size mem)"
  using access_flash_ok [OF lk3rd_ready_fits(3,2,5,4) [OF assms(1)], of mem bd addr] assms(2)
  by (auto simp: lk3rd_of_def)

definition setting :: "byte list \<Rightarrow> nat \<Rightarrow> int" where
  "setting d n = int_at d (setting_pos n)"

definition with_setting :: "nat \<Rightarrow> int \<Rightarrow> byte list \<Rightarrow> byte list" where
  "with_setting n x d = splice_at d (setting_pos n) (int_bytes x)"

lemma length_with_setting [simp]: "n < 64 \<Longrightarrow> lk_size \<le> length d \<Longrightarrow> length (with_setting n x d) = length d"
  using setting_pos_bound [of n] by (simp add: with_setting_def length_splice int_bytes_def)

lemma int_at_prefix: "i + 4 \<le> length d \<Longrightarrow> length d \<le> length m \<Longrightarrow> int_at (splice_at m 0 d) i = int_at d i"
  by (simp add: int_at_def le32_at_def nth_splice)

lemma read_setting:
  assumes "lk3rd_ready p st e a img ok" and "lk_size \<le> length mem" and "n < 64"
  shows "\<exists>t. persistent_storage_read bd p st mem n
      = Ret (setting (lk_of e (img (starget st))) n, splice_at mem 0 (lk_of e (img (starget st))), st\<lparr>starget := t\<rparr>)
      \<and> ok t \<and> img t = img (starget st)"
proof -
  let ?d = "lk_of e (img (starget st))"
  obtain t where "pit_access bd p st (lk3rd_of e) PIT_OP_LOAD TEMP_BUFFER_OFFSET mem
      = Ret (0, splice_at mem 0 ?d, st\<lparr>starget := t\<rparr>)" "ok t" "img t = img (starget st)"
    using load_lk [OF assms(1,2)] by blast
  moreover have "int_at (splice_at mem 0 ?d) (setting_pos n) = setting ?d n"
    unfolding setting_def using lk_fits(2) [OF assms(1)] setting_pos_bound [OF assms(3)] assms(2)
    by (intro int_at_prefix) auto
  ultimately show ?thesis
    by (auto simp: persistent_storage_read_def lk3rd_ready_fits(1) [OF assms(1)] part_read_def)
qed

lemma splice_prefix:
  assumes "off + length x \<le> length d" and "length d \<le> length m"
  shows "splice_at (splice_at m 0 d) off x = splice_at m 0 (splice_at d off x)"
  using assms by (simp add: splice_at_def)

lemma write_setting:
  assumes "lk3rd_ready p st e a img ok" and "lk_size \<le> length mem" and "n < 64"
  shows "\<exists>t. persistent_storage_write bd p st mem n x
      = Ret (0, splice_at mem 0 (with_setting n x (lk_of e (img (starget st)))), st\<lparr>starget := t\<rparr>)
      \<and> ok t \<and> img t = splice_at (img (starget st)) (blkstart e * 4096) (with_setting n x (lk_of e (img (starget st))))"
proof -
  let ?d = "lk_of e (img (starget st))" and ?m = "splice_at mem 0 (with_setting n x (lk_of e (img (starget st))))"
  note l = lk_fits [OF assms(1)]
  obtain t where t: "pit_access bd p st (lk3rd_of e) PIT_OP_LOAD TEMP_BUFFER_OFFSET mem
      = Ret (0, splice_at mem 0 ?d, st\<lparr>starget := t\<rparr>)" "ok t" "img t = img (starget st)"
    using load_lk [OF assms(1,2)] by blast
  have lw: "length (with_setting n x ?d) = lk_size" using l assms(3) by simp
  have m: "splice_at (splice_at mem 0 ?d) (setting_pos n) (int_bytes x) = ?m"
    unfolding with_setting_def using l setting_pos_bound [OF assms(3)] assms(2)
    by (intro splice_prefix) (simp_all add: int_bytes_def)
  have tk: "take lk_size ?m = with_setting n x ?d" "lk_size \<le> length ?m"
    using lw assms(2) by (simp_all add: splice_at_def)
  obtain t' where t': "pit_access bd p (st\<lparr>starget := t\<rparr>) (lk3rd_of e) PIT_OP_FLASH TEMP_BUFFER_OFFSET ?m
      = Ret (0, ?m, st\<lparr>starget := t'\<rparr>)" "ok t'"
      "img t' = splice_at (img (starget st)) (blkstart e * 4096) (with_setting n x ?d)"
    using store_lk [OF lk3rd_ready_target [OF assms(1) t(2)] tk(2), of bd TEMP_BUFFER_OFFSET] t(3) tk(1) by auto
  then show ?thesis using t(1) m
    by (auto simp: persistent_storage_write_def lk3rd_ready_fits(1) [OF assms(1)] part_read_def part_write_def Let_def)
qed

section \<open>Saving and restoring the settings\<close>

lemma read_settings_ok:
  "lk3rd_ready (pits v) st e a img ok \<Longrightarrow> boot_gap + lk_size \<le> length m \<Longrightarrow> list_all (\<lambda>i. i < 64) is \<Longrightarrow> is \<noteq> [] \<Longrightarrow>
   \<exists>t. read_settings v is m st
     = Ret (map (setting (lk_of e (img (starget st)))) is, splice_at m boot_gap (lk_of e (img (starget st))), st\<lparr>starget := t\<rparr>)
     \<and> ok t \<and> img t = img (starget st)"
proof (induction "is" arbitrary: m st)
  case (Cons i "is")
  let ?d = "lk_of e (img (starget st))"
  have ld: "length ?d = lk_size" using lk_fits(2) [OF Cons.prems(1)] .
  have bb: "lk_size \<le> length (boot_buf m)" using Cons.prems(2) by simp
  obtain t where t: "persistent_storage_read (boot_dev v) (pits v) st (boot_buf m) i
      = Ret (setting ?d i, splice_at (boot_buf m) 0 ?d, st\<lparr>starget := t\<rparr>)" "ok t" "img t = img (starget st)"
    using read_setting [OF Cons.prems(1) bb, of i] Cons.prems(3) by auto
  let ?m = "splice_at m boot_gap ?d"
  have m: "set_boot_buf m (splice_at (boot_buf m) 0 ?d) = ?m" "length ?m = length m"
    using ld Cons.prems(2) by (simp_all add: set_boot_splice length_splice)
  note r = lk3rd_ready_target [OF Cons.prems(1) t(2)]
  show ?case
  proof (cases "is = []")
    case True
    then show ?thesis using t m by auto
  next
    case False
    then obtain t' where "read_settings v is ?m (st\<lparr>starget := t\<rparr>)
        = Ret (map (setting ?d) is, splice_at ?m boot_gap ?d, st\<lparr>starget := t'\<rparr>)" "ok t'" "img t' = img t"
      using Cons.IH [OF r, of ?m] Cons.prems(2,3) m t(3) by auto
    then show ?thesis using t m ld Cons.prems(2) by (auto simp: splice_again)
  qed
qed simp

definition with_settings :: "(nat \<times> int) list \<Rightarrow> byte list \<Rightarrow> byte list" where
  "with_settings ps d = foldl (\<lambda>d (n, x). with_setting n x d) d ps"

lemma length_with_settings:
  "list_all (\<lambda>(i, x). i < 64) ps \<Longrightarrow> length d = lk_size \<Longrightarrow> length (with_settings ps d) = lk_size"
  unfolding with_settings_def by (induction ps arbitrary: d) auto

lemma lk_of_splice:
  "blkstart e * 4096 + lk_size \<le> length I \<Longrightarrow> length d = lk_size \<Longrightarrow> lk_of e (splice_at I (blkstart e * 4096) d) = d"
  unfolding lk_of_def by (metis slice_splice_same)

lemma write_settings_ok:
  "lk3rd_ready (pits v) st e a img ok \<Longrightarrow> boot_gap + lk_size \<le> length m \<Longrightarrow> list_all (\<lambda>(i, x). i < 64) ps \<Longrightarrow>
   \<exists>t m'. write_settings v ps m st = Ret (m', st\<lparr>starget := t\<rparr>) \<and> ok t \<and> length m' = length m
     \<and> take boot_gap m' = take boot_gap m
     \<and> img t = splice_at (img (starget st)) (blkstart e * 4096) (with_settings ps (lk_of e (img (starget st))))"
proof (induction ps arbitrary: m st)
  case Nil
  have "splice_at (img (starget st)) (blkstart e * 4096) (lk_of e (img (starget st))) = img (starget st)"
    unfolding lk_of_def using lk_fits(1) [OF Nil(1)] by (rule splice_same)
  then show ?case using Nil(1)
    by (intro exI [of _ "starget st"] exI [of _ m]) (simp add: with_settings_def lk3rd_ready_def lu_at_def)
next
  case (Cons q ps)
  obtain i x where q: "q = (i, x)" by (cases q)
  let ?I = "img (starget st)" and ?b = "blkstart e * 4096" and ?d = "with_setting i x (lk_of e (img (starget st)))"
  note l = lk_fits [OF Cons.prems(1)]
  have i: "i < 64" using Cons.prems(3) q by simp
  then have ld: "length ?d = lk_size" using l by simp
  have bb: "lk_size \<le> length (boot_buf m)" using Cons.prems(2) by simp
  obtain t where t: "persistent_storage_write (boot_dev v) (pits v) st (boot_buf m) i x
      = Ret (0, splice_at (boot_buf m) 0 ?d, st\<lparr>starget := t\<rparr>)" "ok t" "img t = splice_at ?I ?b ?d"
    using write_setting [OF Cons.prems(1) bb i] by blast
  let ?m = "splice_at m boot_gap ?d"
  have m: "set_boot_buf m (splice_at (boot_buf m) 0 ?d) = ?m" "length ?m = length m"
    using ld Cons.prems(2) by (simp_all add: set_boot_splice length_splice)
  have mt: "take boot_gap ?m = take boot_gap m" using Cons.prems(2) by (simp add: splice_at_def)
  note r = lk3rd_ready_target [OF Cons.prems(1) t(2)]
  obtain t' m' where w: "write_settings v ps ?m (st\<lparr>starget := t\<rparr>) = Ret (m', st\<lparr>starget := t'\<rparr>)" "ok t'"
      "length m' = length m" "take boot_gap m' = take boot_gap m"
      "img t' = splice_at (img t) ?b (with_settings ps (lk_of e (img t)))"
    using Cons.IH [OF r, of ?m] Cons.prems(2,3) m mt by auto
  have "lk_of e (img t) = ?d" using lk_of_splice [OF l(1) ld] t(3) by simp
  moreover have "length (with_settings ps ?d) = lk_size" using Cons.prems(3) ld by (simp add: length_with_settings)
  ultimately have "img t' = splice_at ?I ?b (with_settings ps ?d)"
    using w(5) t(3) l(1) ld by (simp add: splice_again)
  then show ?case using w t m q by (auto simp: with_settings_def)
qed

text \<open>Writing back what was read changes nothing.\<close>

lemma le32_of_bytes: "le32 (unat b0 + unat b1 * 2 ^ 8 + unat b2 * 2 ^ 16 + unat b3 * 2 ^ 24) = [b0, b1, b2, b3]"
proof -
  define v where "v = unat b0 + unat b1 * 2 ^ 8 + unat b2 * 2 ^ 16 + unat b3 * 2 ^ 24"
  have b: "unat b < 256" for b :: byte using unsigned_less [of b, where 'a = nat] by simp
  define w2 where "w2 = unat b2 + 256 * unat b3"
  define w1 where "w1 = unat b1 + 256 * w2"
  have v: "v = unat b0 + 256 * w1" by (simp add: v_def w1_def w2_def)
  have dm: "(x + 256 * y) mod 256 = x" "(x + 256 * y) div 256 = y" if "x < 256" for x y :: nat
    using that by simp_all
  have d: "v div 256 = w1" "w1 div 256 = w2" "w2 div 256 = unat b3"
    using dm(2) [OF b] by (simp_all only: v w1_def w2_def)
  have "v mod 256 = unat b0" "w1 mod 256 = unat b1" "w2 mod 256 = unat b2" "unat b3 mod 256 = unat b3"
    using dm(1) [OF b] b by (simp_all only: v w1_def w2_def mod_less)
  then have 1: "v mod 256 = unat b0" "v div 256 mod 256 = unat b1" "v div 256 div 256 mod 256 = unat b2"
    "v div 256 div 256 div 256 mod 256 = unat b3" unfolding d by simp_all
  have "v div 65536 = v div 256 div 256" "v div 16777216 = v div 256 div 256 div 256"
    by (simp_all flip: div_mult2_eq)
  then show ?thesis using 1 unfolding v_def [symmetric] le32_def
    by (simp add: word_unat_eq_iff)
qed

lemma int_bytes_at:
  assumes "i + 4 \<le> length m"
  shows "int_bytes (int_at m i) = slice_at i 4 m"
proof -
  have b: "unat x < 256" for x :: byte using unsigned_less [of x, where 'a = nat] by simp
  have lt: "le32_at m i < 2 ^ 32"
    using b [of "m ! i"] b [of "m ! (i + 1)"] b [of "m ! (i + 2)"] b [of "m ! (i + 3)"] by (simp add: le32_at_def)
  have "int_at m i mod 2 ^ 32 = int (le32_at m i) mod 2 ^ 32"
    unfolding int_at_def using take_bit_signed_take_bit [of 32 31 "int (le32_at m i)"]
    by (simp add: take_bit_eq_mod)
  then have "nat (int_at m i mod 2 ^ 32) = le32_at m i" using lt by (simp add: nat_mod_distrib)
  moreover have "slice_at i 4 m = [m ! i, m ! (i + 1), m ! (i + 2), m ! (i + 3)]"
    using assms by (intro nth_equalityI) (auto simp: nth_slice less_Suc_eq numeral_eq_Suc)
  ultimately show ?thesis by (simp add: int_bytes_def le32_at_def le32_of_bytes [simplified])
qed

lemma setting_range: "- (2 ^ 31) \<le> setting d n" "setting d n < 2 ^ 31"
  unfolding setting_def int_at_def
  using signed_take_bit_int_greater_eq_minus_exp [of 31 "int (le32_at d (setting_pos n))"]
    signed_take_bit_int_less_exp [of 31 "int (le32_at d (setting_pos n))"] by simp_all

lemma with_own_setting: "n < 64 \<Longrightarrow> lk_size \<le> length d \<Longrightarrow> with_setting n (setting d n) d = d"
  using setting_pos_bound [of n] by (simp add: with_setting_def setting_def int_bytes_at splice_same)

lemma with_own_settings:
  "list_all (\<lambda>i. i < 64) is \<Longrightarrow> lk_size \<le> length d \<Longrightarrow> with_settings (zip is (map (setting d) is)) d = d"
  unfolding with_settings_def by (induction "is") (auto simp: with_own_setting)

lemma setting_with:
  assumes "n < 64" "k < 64" "lk_size \<le> length d" "- (2 ^ 31) \<le> x" "x < 2 ^ 31"
  shows "setting (with_setting n x d) k = (if k = n then x else setting d k)"
proof (cases "k = n")
  case True
  then show ?thesis unfolding setting_def with_setting_def
    using int_at_splice [of "setting_pos n" d x] setting_pos_bound [OF assms(1)] assms by simp
next
  case False
  then have "setting_pos k + 4 \<le> setting_pos n \<or> setting_pos n + 4 \<le> setting_pos k"
    by (auto simp: setting_pos_def)
  moreover have "setting_pos k + 4 \<le> length d" "setting_pos n + 4 \<le> length d"
    using setting_pos_bound [OF assms(1)] setting_pos_bound [OF assms(2)] assms(3) by simp_all
  ultimately show ?thesis using False unfolding setting_def with_setting_def int_at_def le32_at_def
    by (auto simp: nth_splice int_bytes_def)
qed

lemma settings_restored:
  assumes "list_all (\<lambda>i. i < 64) is" and "distinct is" and "length d = lk_size" and "k < 64"
  shows "setting (with_settings (zip is (map (setting f) is)) d) k
    = (if k \<in> set is then setting f k else setting d k)"
  using assms
proof (induction "is" arbitrary: d)
  case Nil
  then show ?case by (simp add: with_settings_def)
next
  case (Cons i "is")
  have "with_settings (zip (i # is) (map (setting f) (i # is))) d
      = with_settings (zip is (map (setting f) is)) (with_setting i (setting f i) d)"
    by (simp add: with_settings_def)
  then show ?case using Cons setting_with [of i k d "setting f i"] setting_range by auto
qed

section \<open>Flashing one partition\<close>

lemma sector_size_up_id: "512 dvd n \<Longrightarrow> n < 2 ^ 32 - 512 \<Longrightarrow> sector_size_up n = n"
  unfolding sector_size_up_def by (auto simp: wrap_simps elim!: dvdE)

lemma sector_size_up_dvd: "512 dvd sector_size_up n"
  by (simp add: sector_size_up_def)

text \<open>A partition that is not sparse and fits its unit.\<close>

definition flashable ::
    "fb_env \<Rightarrow> 't storage \<Rightarrow> string \<Rightarrow> pit_entry \<Rightarrow> nat \<Rightarrow> ('t \<Rightarrow> byte list) \<Rightarrow> ('t \<Rightarrow> bool) \<Rightarrow> bool" where
  "flashable v st key e a img ok \<longleftrightarrow>
     part_get (pits v) key = Ret (Some e) \<and> pit_available (pits v) \<and> lu_at st (scsi_name (lun e)) a img ok
     \<and> entry_fits st a e \<and> \<not> is_sparse_fs e \<and> key \<noteq> ''pit''"

definition part_bytes :: "fb_env \<Rightarrow> pit_entry \<Rightarrow> nat" where
  "part_bytes v e = pit_get_length (pits v) e"

lemma whole_range:
  assumes "pit_available p" and "512 dvd k" and "0 < k" and "k \<le> pit_get_length p e" and "pit_get_length p e < 2 ^ 64"
    and "sz = k \<or> sz = 0 \<and> k = pit_get_length p e" and "blkstart e < 2 ^ 32"
  shows "pit_get_partial_range p (Some e) 0 sz = Inr (blkstart e * 8, k div 512)"
proof -
  have "roundup k 512 = k" using assms(2) by (intro roundup_id) simp_all
  then show ?thesis using assms by (auto simp: pit_get_partial_range_def pit_consts Let_def sub64_id add64_id)
qed

lemma length_small: "entry_wf e \<Longrightarrow> pit_get_length p e < 2 ^ 64"
  using length_in_entry [of e p] by (fastforce simp: entry_wf_def)

lemma flash_part_ok:
  assumes "flashable v st key e a img ok" and "k = (if sector_size_up n = 0 then part_bytes v e else sector_size_up n)"
    and "0 < k" "k \<le> part_bytes v e" "k \<le> length buf"
  shows "\<exists>t. flash_using_part v st key n addr buf
        = (if key = ''ramdisk'' then map_ret (Pair ''OKAY'') (note_ramdisk_size v (st\<lparr>starget := t\<rparr>) (sector_size_up n))
           else Ret (''OKAY'', st\<lparr>starget := t\<rparr>))
      \<and> ok t \<and> img t = splice_at (img (starget st)) (blkstart e * 4096) (take k buf)"
proof -
  have fl: "part_get (pits v) key = Ret (Some e)" "pit_available (pits v)" "lu_at st (scsi_name (lun e)) a img ok"
      "entry_fits st a e" "\<not> is_sparse_fs e" "key \<noteq> ''pit''"
    using assms(1) by (simp_all add: flashable_def)
  have wf: "entry_wf e" using fl(4) by (simp add: entry_fits_def)
  have dv: "512 dvd k"
    using assms(2) sector_size_up_dvd [of n] length_in_entry [OF wf, of "pits v"]
    by (auto simp: part_bytes_def split: if_splits)
  have r: "pit_get_partial_range (pits v) (Some e) 0 (sector_size_up n) = Inr (blkstart e * 8, k div 512)"
    using assms(2-4) fl(2) dv wf length_small [OF wf]
    by (intro whole_range) (auto simp: part_bytes_def entry_wf_def split: if_splits)
  have k: "k div 512 * 512 = k" using dv by simp
  obtain t where "pit_entry_write (boot_dev v) (pits v) st (Some e) addr buf 0 (sector_size_up n) = Ret (0, st\<lparr>starget := t\<rparr>)"
      "ok t" "img t = splice_at (img (starget st)) (blkstart e * 4096) (take k buf)"
    using entry_write_ok [OF fl(3,4,2,5) r, of buf "boot_dev v" addr] assms(5) k by (auto simp: slice_at_def mult.commute)
  moreover have "\<not> (part_bytes v e < sector_size_up n \<and> part_bytes v e \<noteq> 0)" using assms(2,4) by auto
  ultimately show ?thesis
    using fl by (auto simp: flash_using_part_def part_get_pt_type_def Let_def part_get_size_in_bytes_def part_bytes_def
        part_write_partial_def)
qed





section \<open>The boot loader and the boot image\<close>

lemma lk_flashable:
  assumes "lk3rd_ready (pits v) st e a img ok"
  shows "flashable v st ''lk3rd'' (lk3rd_of e) a img ok" "part_bytes v (lk3rd_of e) = lk_size"
    and "flashable v st ''boot'' (boot_of e) a img ok" "part_bytes v (boot_of e) = (blknum e - 512) * 4096"
proof -
  note l = lk3rd_ready_fits [OF assms] and b = boot_ready_fits [OF assms]
  show "flashable v st ''lk3rd'' (lk3rd_of e) a img ok" "flashable v st ''boot'' (boot_of e) a img ok"
    using l b by (simp_all add: flashable_def)
  show "part_bytes v (lk3rd_of e) = lk_size"
    using l(5) lk3rd_not_userdata by (simp add: part_bytes_def pit_get_length_def lk3rd_of_def pit_consts mul64_def)
  have "blknum e - 512 < 2 ^ 32" using assms by (auto simp: lk3rd_ready_def)
  then have "mul64 (blknum e - 512) 4096 = (blknum e - 512) * 4096" by (intro mul64_id) simp
  then show "part_bytes v (boot_of e) = (blknum e - 512) * 4096"
    using b(5) ram_boot_name by (simp add: part_bytes_def pit_get_length_def boot_of_def pit_consts)
qed

lemma load_lk3rd_ok:
  assumes "lk3rd_ready (pits v) (storage_of s) e a img ok" and "boot_gap + lk_size \<le> length (xfer s)"
    and "d = lk_of e (img (starget (storage_of s)))"
  shows "\<exists>t. load_lk3rd v s = Ret (map (setting d) [0..<4], lk3rd_of e,
        s\<lparr>xfer := splice_at (xfer s) boot_gap d, storage_of := (storage_of s)\<lparr>starget := t\<rparr>\<rparr>)
      \<and> ok t \<and> img t = img (starget (storage_of s))"
proof -
  let ?st = "storage_of s" and ?m = "splice_at (xfer s) boot_gap d"
  have ld: "length d = lk_size" using lk_fits(2) [OF assms(1)] assms(3) by simp
  obtain t where t: "read_settings v [0..<4] (xfer s) ?st = Ret (map (setting d) [0..<4], ?m, ?st\<lparr>starget := t\<rparr>)"
      "ok t" "img t = img (starget ?st)"
    using read_settings_ok [OF assms(1,2), of "[0..<4]"] assms(3) by (auto simp: list_all_iff)
  note r = lk3rd_ready_target [OF assms(1) t(2)]
  have m: "length ?m = length (xfer s)" using ld assms(2) by (simp add: length_splice)
  have bb: "lk_size \<le> length (boot_buf ?m)" using m assms(2) by simp
  obtain t' where "pit_access (boot_dev v) (pits v) (?st\<lparr>starget := t\<rparr>) (lk3rd_of e) PIT_OP_LOAD BOOT_BASE (boot_buf ?m)
      = Ret (0, splice_at (boot_buf ?m) 0 d, ?st\<lparr>starget := t'\<rparr>)" "ok t'" "img t' = img t"
    using load_lk [OF r bb, of "boot_dev v" BOOT_BASE] t(3) assms(3) by auto
  moreover have "set_boot_buf ?m (splice_at (boot_buf ?m) 0 d) = ?m"
    using m ld assms(2) by (simp add: set_boot_splice splice_again)
  ultimately show ?thesis
    using t lk3rd_ready_fits(1) [OF assms(1)] by (auto simp: load_lk3rd_def part_read_def)
qed

lemma restore_settings_ok:
  assumes "lk3rd_ready (pits v) (storage_of s) e a img ok" and "boot_gap + lk_size \<le> length (xfer s)"
    and "length xs = 4"
  shows "\<exists>t m. restore_settings v xs s = Ret (s\<lparr>xfer := m, storage_of := (storage_of s)\<lparr>starget := t\<rparr>\<rparr>) \<and> ok t
    \<and> length m = length (xfer s) \<and> take boot_gap m = take boot_gap (xfer s)
    \<and> img t = splice_at (img (starget (storage_of s))) (blkstart e * 4096)
        (with_settings (zip [0..<4] xs) (lk_of e (img (starget (storage_of s)))))"
proof -
  have "list_all (\<lambda>(i, x). i < 64) (zip [0..<4] xs)" by (auto simp: list_all_iff dest: set_zip_leftD)
  then show ?thesis using write_settings_ok [OF assms(1,2)] by (fastforce simp: restore_settings_def)
qed

lemma patch_os_version_splice:
  assumes "length d = lk_size" and "lk_size \<le> length m"
  shows "patch_os_version (splice_at m 0 d) from = splice_at m 0 (patch_os_version d from)"
  unfolding patch_os_version_def using assms by (intro splice_prefix) (simp_all add: OS_VERSION_POS_def)

lemma length_patch [simp]: "lk_size \<le> length d \<Longrightarrow> length (patch_os_version d from) = length d"
  by (simp add: patch_os_version_def length_splice OS_VERSION_POS_def)

lemma setting_patch: "lk_size \<le> length d \<Longrightarrow> n < 64 \<Longrightarrow> setting (patch_os_version d from) n = setting d n"
  using setting_pos_bound [of n]
  by (auto simp: setting_def int_at_def le32_at_def patch_os_version_def nth_splice OS_VERSION_POS_def setting_pos_def
      PERSISTENT_STORAGE_OFFSET_def)

lemma slice_prefix: "take g m' = take g m \<Longrightarrow> off + n \<le> g \<Longrightarrow> slice_at off n m' = slice_at off n m"
proof -
  assume t: "take g m' = take g m" and g: "off + n \<le> g"
  have "slice_at off n (take g x) = slice_at off n x" for x :: "'a list"
    using g by (simp add: slice_at_def drop_take min_absorb1)
  then show ?thesis using t by metis
qed

lemma prefix_splice:
  "off + length x \<le> g \<Longrightarrow> g \<le> length m \<Longrightarrow> take g (splice_at m off x) = splice_at (take g m) off x"
  by (simp add: splice_at_def min_absorb1 drop_take)

text \<open>The boot loader with the version of the new boot image, and where it is in memory.\<close>

lemma patched_buffer:
  assumes "boot_gap + lk_size \<le> length m" and "length d = lk_size"
    and "m1 = splice_at m boot_gap d" and "d' = patch_os_version d m"
  shows "set_boot_buf m1 (patch_os_version (boot_buf m1) m1) = splice_at m boot_gap d'"
    and "boot_buf m1 = splice_at (boot_buf m) 0 d" and "take boot_gap m1 = take boot_gap m"
    and "slice_at OS_VERSION_POS 4 m1 = slice_at OS_VERSION_POS 4 m"
proof -
  show t: "take boot_gap m1 = take boot_gap m" using assms(1,3) by (simp add: splice_at_def)
  show v: "slice_at OS_VERSION_POS 4 m1 = slice_at OS_VERSION_POS 4 m"
    using t by (rule slice_prefix) (simp add: OS_VERSION_POS_def boot_gap_eq)
  show b: "boot_buf m1 = splice_at (boot_buf m) 0 d" using assms(1-3) by (simp add: boot_buf_splice)
  have ld: "length d' = lk_size" using assms(2,4) by simp
  have "patch_os_version (boot_buf m1) m1 = splice_at (boot_buf m) 0 (patch_os_version d m1)"
    unfolding b using assms(1,2) by (intro patch_os_version_splice) simp_all
  also have "patch_os_version d m1 = d'" by (simp add: assms(4) patch_os_version_def v)
  finally have "patch_os_version (boot_buf m1) m1 = splice_at (boot_buf m) 0 d'" .
  moreover have "set_boot_buf m1 x = set_boot_buf m x" for x using t by (simp add: set_boot_buf_def)
  ultimately show "set_boot_buf m1 (patch_os_version (boot_buf m1) m1) = splice_at m boot_gap d'"
    using assms(1) ld by (simp add: set_boot_splice)
qed

text \<open>Writing the patched boot loader back changes its four bytes of version.\<close>

lemma patch_on_disk:
  assumes "blkstart e * 4096 + lk_size \<le> length I"
  shows "splice_at I (blkstart e * 4096) (patch_os_version (lk_of e I) m)
    = splice_at I (blkstart e * 4096 + OS_VERSION_POS) (slice_at OS_VERSION_POS 4 m)"
  unfolding patch_os_version_def lk_of_def using assms
  by (intro splice_rmw) (simp_all add: OS_VERSION_POS_def)

lemma patch_lk3rd_ok:
  assumes rdy: "lk3rd_ready (pits v) (storage_of s) e a img ok" and len: "boot_gap + lk_size \<le> length (xfer s)"
    and I: "I = img (starget (storage_of s))" and d': "d' = patch_os_version (lk_of e I) m"
    and x: "xfer s = splice_at m boot_gap d'" and ml: "length m = length (xfer s)" and xs: "xs = map (setting (lk_of e I)) [0..<4]"
  shows "\<exists>t m' st'. flash_using_part v (storage_of s) ''lk3rd'' (mul32 (blknum (lk3rd_of e)) PIT_UFS_BLK_SIZE) BOOT_BASE
        (boot_buf (xfer s)) = Ret (''OKAY'', st')
    \<and> restore_settings v xs (s\<lparr>storage_of := st'\<rparr>) = Ret (s\<lparr>xfer := m', storage_of := (storage_of s)\<lparr>starget := t\<rparr>\<rparr>) \<and> ok t
    \<and> length m' = length (xfer s) \<and> take boot_gap m' = take boot_gap (xfer s)
    \<and> img t = splice_at I (blkstart e * 4096) d'"
proof -
  let ?st = "storage_of s" and ?b = "blkstart e * 4096"
  note l = lk_fits [OF rdy, folded I]
  have ld: "length d' = lk_size" using l(2) by (simp add: d')
  have bb: "boot_buf (xfer s) = splice_at (boot_buf m) 0 d'" using x len ld ml by (simp add: boot_buf_splice)
  have tk: "take lk_size (boot_buf (xfer s)) = d'" "lk_size \<le> length (boot_buf (xfer s))"
    using len ld by (simp add: bb splice_at_def) (use len in simp)
  have sz: "sector_size_up (mul32 (blknum (lk3rd_of e)) PIT_UFS_BLK_SIZE) = lk_size"
    by (simp add: lk3rd_of_def pit_consts mul32_def sector_size_up_def add32_def)
  obtain t where t: "flash_using_part v ?st ''lk3rd'' (mul32 (blknum (lk3rd_of e)) PIT_UFS_BLK_SIZE) BOOT_BASE
      (boot_buf (xfer s)) = Ret (''OKAY'', ?st\<lparr>starget := t\<rparr>)" "ok t" "img t = splice_at I ?b d'"
    using flash_part_ok [OF lk_flashable(1) [OF rdy] refl, of "mul32 (blknum (lk3rd_of e)) PIT_UFS_BLK_SIZE"
        "boot_buf (xfer s)" BOOT_BASE] sz tk lk_flashable(2) [OF rdy] I
    by (auto simp: lk3rd_of_def)
  note r = lk3rd_ready_target [OF rdy t(2)]
  have lk: "lk_of e (img t) = d'" using lk_of_splice [OF l(1) ld] t(3) by simp
  obtain t' m' where w: "restore_settings v xs (s\<lparr>storage_of := ?st\<lparr>starget := t\<rparr>\<rparr>)
        = Ret (s\<lparr>xfer := m', storage_of := ?st\<lparr>starget := t'\<rparr>\<rparr>)" "ok t'"
      "length m' = length (xfer s)" "take boot_gap m' = take boot_gap (xfer s)"
      "img t' = splice_at (img t) ?b (with_settings (zip [0..<4] xs) d')"
    using restore_settings_ok [of v "s\<lparr>storage_of := ?st\<lparr>starget := t\<rparr>\<rparr>" e a img ok xs] r len xs lk by auto
  have "xs = map (setting d') [0..<4]" using l(2) by (auto simp: xs d' setting_patch)
  then have "with_settings (zip [0..<4] xs) d' = d'"
    using with_own_settings [of "[0..<4]" d'] ld by (simp add: list_all_iff)
  then have "img t' = splice_at I ?b d'" using w(5) t(3) l(1) ld by (simp add: splice_again)
  then show ?thesis using t(1) w by auto
qed

text \<open>The number of bytes of the download that go to the boot partition: a dump of the whole raw
partition loses as much as the boot loader takes.\<close>

definition boot_image_size :: "pit_entry \<Rightarrow> nat \<Rightarrow> nat" where
  "boot_image_size e n = (if n = blknum e * 4096 then n - lk_size else n)"

lemma raw_dump_size:
  assumes "512 \<le> blknum e" and "blknum e * 4096 < 2 ^ 32"
  shows "add32 (mul32 (blknum (boot_of e)) PIT_UFS_BLK_SIZE) (512 * PIT_UFS_BLK_SIZE) = blknum e * 4096"
    and "sub32 (blknum e * 4096) (512 * PIT_UFS_BLK_SIZE) = blknum e * 4096 - lk_size"
proof -
  have "(blknum e - 512) * 4096 + 512 * 4096 = blknum e * 4096" using assms(1) by (metis add_mult_distrib le_add_diff_inverse2)
  then show "add32 (mul32 (blknum (boot_of e)) PIT_UFS_BLK_SIZE) (512 * PIT_UFS_BLK_SIZE) = blknum e * 4096"
    using assms(2) by (simp add: boot_of_def pit_consts mul32_id add32_id)
  show "sub32 (blknum e * 4096) (512 * PIT_UFS_BLK_SIZE) = blknum e * 4096 - lk_size"
    using assms by (simp add: pit_consts sub32_id)
qed

lemma flash_boot_ok:
  assumes rdy: "lk3rd_ready (pits v) (storage_of s) e a img ok" and len: "boot_gap + lk_size \<le> length (xfer s)"
    and I: "I = img (starget (storage_of s))" and magic: "has_magic (xfer s)" "has_magic (lk_of e I)"
    and n: "n = boot_image_size e (downloaded_data_size s)" and small: "blknum e * 4096 < 2 ^ 32"
    and k: "k = sector_size_up n" "0 < k" "k \<le> (blknum e - 512) * 4096" "k \<le> boot_gap"
  shows "\<exists>t m. flash_boot v s = Ret (send ''OKAY'' (s\<lparr>xfer := m, downloaded_data_size := n,
        storage_of := (storage_of s)\<lparr>starget := t\<rparr>\<rparr>))
    \<and> ok t \<and> img t = splice_at (splice_at I (blkstart e * 4096 + OS_VERSION_POS) (slice_at OS_VERSION_POS 4 (xfer s)))
        (blkstart e * 4096 + lk_size) (take k (xfer s))"
proof -
  let ?st = "storage_of s" and ?b = "blkstart e * 4096" and ?m = "xfer s" and ?d = "lk_of e I"
  let ?m1 = "splice_at (xfer s) boot_gap (lk_of e I)" and ?d' = "patch_os_version (lk_of e I) (xfer s)"
  let ?m2 = "splice_at (xfer s) boot_gap (patch_os_version (lk_of e I) (xfer s))"
  note l = lk_fits [OF rdy, folded I]
  note pb = patched_buffer [OF len l(2) refl refl]
  have ld': "length ?d' = lk_size" using l(2) by simp
  obtain t1 where t1: "load_lk3rd v s = Ret (map (setting ?d) [0..<4], lk3rd_of e,
        s\<lparr>xfer := ?m1, storage_of := ?st\<lparr>starget := t1\<rparr>\<rparr>)" "ok t1" "img t1 = I"
    using load_lk3rd_ok [OF rdy len] I by blast
  have mg: "has_magic ?m1" "has_magic (boot_buf ?m1)"
    using magic slice_prefix [OF pb(3), of 0 8] len l(2)
    by (simp_all add: has_magic_def pb(2)) (simp_all add: slice_at_def boot_gap_eq splice_at_def)
  define s2 where "s2 = s\<lparr>xfer := ?m2, storage_of := ?st\<lparr>starget := t1\<rparr>\<rparr>"
  have r2: "lk3rd_ready (pits v) (storage_of s2) e a img ok" using lk3rd_ready_target [OF rdy t1(2)] by (simp add: s2_def)
  have l2: "length ?m2 = length ?m" using len ld' by (simp add: length_splice)
  have x2: "xfer s2 = ?m2" "length ?m = length (xfer s2)" "boot_gap + lk_size \<le> length (xfer s2)"
    "I = img (starget (storage_of s2))" using l2 len t1(3) by (simp_all add: s2_def)
  obtain t3 m3 st' where fl: "flash_using_part v (storage_of s2) ''lk3rd'' (mul32 (blknum (lk3rd_of e)) PIT_UFS_BLK_SIZE)
         BOOT_BASE (boot_buf (xfer s2)) = Ret (''OKAY'', st')"
    and t3: "restore_settings v (map (setting ?d) [0..<4]) (s2\<lparr>storage_of := st'\<rparr>)
       = Ret (s2\<lparr>xfer := m3, storage_of := (storage_of s2)\<lparr>starget := t3\<rparr>\<rparr>)" "ok t3"
      "length m3 = length ?m2" "take boot_gap m3 = take boot_gap ?m2" "img t3 = splice_at I ?b ?d'"
    using patch_lk3rd_ok [OF r2 x2(3,4) refl x2(1,2) refl] unfolding x2(1) by blast
  define s3 where "s3 = s\<lparr>xfer := m3, storage_of := ?st\<lparr>starget := t3\<rparr>, downloaded_data_size := n\<rparr>"
  have r3: "lk3rd_ready (pits v) (storage_of s3) e a img ok" using lk3rd_ready_target [OF rdy t3(2)] by (simp add: s3_def)
  have nn: "(if downloaded_data_size s = blknum e * 4096 then sub32 (downloaded_data_size s) (512 * PIT_UFS_BLK_SIZE)
      else downloaded_data_size s) = n"
    using raw_dump_size [OF _ small] rdy by (simp add: n boot_image_size_def lk3rd_ready_def)
  have tm: "take boot_gap m3 = take boot_gap ?m" using t3(4) len by (simp add: splice_at_def)
  have tk: "take k m3 = take k ?m" "k \<le> length m3"
    using k(4) tm t3(3) l2 len by (metis min.absorb1 take_take) (use k(4) t3(3) l2 len in simp)
  obtain t where t: "flash_using_part v (storage_of s3) ''boot'' n CFG_FASTBOOT_TRANSFER_BUFFER m3
      = Ret (''OKAY'', (storage_of s3)\<lparr>starget := t\<rparr>)" "ok t" "img t = splice_at (img t3) ((blkstart e + 512) * 4096) (take k ?m)"
    using flash_part_ok [OF lk_flashable(3) [OF r3], of k n m3 CFG_FASTBOOT_TRANSFER_BUFFER] k tk
      lk_flashable(4) [OF r3] by (auto simp: s3_def boot_of_def)
  have "(blkstart e + 512) * 4096 = ?b + lk_size" by simp
  then have "img t = splice_at (splice_at I (?b + OS_VERSION_POS) (slice_at OS_VERSION_POS 4 ?m)) (?b + lk_size) (take k ?m)"
    using t(3) t3(5) patch_on_disk [OF l(1), of ?m] by simp
  moreover have "flash_boot v s = flash_and_report v ''boot'' s3"
    using t1(1) mg fl t3(1) nn boot_ready_fits(1) [OF rdy] raw_dump_size(1) [OF _ small] rdy
    by (auto simp: flash_boot_def Let_def pb(1) s2_def s3_def lk3rd_ready_def)
  ultimately show ?thesis using t by (auto simp: flash_and_report_def s3_def intro!: exI [of _ t] exI [of _ m3])
qed

lemma flash_lk3rd_ok:
  assumes rdy: "lk3rd_ready (pits v) (storage_of s) e a img ok" and len: "boot_gap + lk_size \<le> length (xfer s)"
    and d: "d = lk_of e (img (starget (storage_of s)))" and magic: "has_magic (xfer s)" "has_magic d"
    and k: "k = sector_size_up (downloaded_data_size s)" "0 < k" "k \<le> lk_size"
  shows "\<exists>t m. flash_lk3rd v s = Ret (send ''OKAY'' (s\<lparr>xfer := m, storage_of := (storage_of s)\<lparr>starget := t\<rparr>\<rparr>))
    \<and> ok t \<and> img t = splice_at (img (starget (storage_of s))) (blkstart e * 4096)
        (with_settings (zip [0..<4] (map (setting d) [0..<4])) (take k (patch_os_version (xfer s) d) @ drop k d))"
proof -
  let ?st = "storage_of s" and ?b = "blkstart e * 4096" and ?m = "xfer s" and ?I = "img (starget (storage_of s))"
  let ?m1 = "splice_at (xfer s) boot_gap d" and ?xs = "map (setting d) [0..<4]"
  note l = lk_fits [OF rdy, folded d]
  note pb = patched_buffer [OF len l(2) refl refl]
  obtain t1 where t1: "load_lk3rd v s = Ret (?xs, lk3rd_of e, s\<lparr>xfer := ?m1, storage_of := ?st\<lparr>starget := t1\<rparr>\<rparr>)"
      "ok t1" "img t1 = ?I"
    using load_lk3rd_ok [OF rdy len d] by blast
  have mg: "has_magic ?m1" "has_magic (boot_buf ?m1)"
    using magic slice_prefix [OF pb(3), of 0 8] len l(2)
    by (simp_all add: has_magic_def pb(2)) (simp_all add: slice_at_def boot_gap_eq splice_at_def)
  define m2 where "m2 = patch_os_version ?m1 (boot_buf ?m1)"
  have "take lk_size (boot_buf ?m1) = take lk_size d" unfolding pb(2) using l(2) by (simp add: splice_at_def)
  then have "slice_at OS_VERSION_POS 4 (boot_buf ?m1) = slice_at OS_VERSION_POS 4 d"
    by (rule slice_prefix) (simp add: OS_VERSION_POS_def)
  then have m2: "m2 = splice_at ?m1 OS_VERSION_POS (slice_at OS_VERSION_POS 4 d)"
    by (simp add: m2_def patch_os_version_def)
  have l1: "length ?m1 = length ?m" using len l(2) by (simp add: length_splice)
  have l2: "length m2 = length ?m" using l1 l(2) len by (simp add: m2 length_splice OS_VERSION_POS_def)
  have "take lk_size ?m1 = take lk_size ?m" using len by (simp add: splice_at_def boot_gap_eq)
  then have eq: "take lk_size m2 = take lk_size (patch_os_version ?m d)"
    using l(2) len l1 by (simp add: m2 patch_os_version_def prefix_splice OS_VERSION_POS_def)
  have tkx: "take k x = take k (take lk_size x)" for x :: "byte list" using k(3) by (simp add: min_absorb1)
  have tk: "take k m2 = take k (patch_os_version ?m d)"
    by (rule trans [OF tkx trans [OF arg_cong [OF eq, of "take k"] tkx [symmetric]]])
  define s2 where "s2 = s\<lparr>xfer := m2, storage_of := ?st\<lparr>starget := t1\<rparr>\<rparr>"
  have r2: "lk3rd_ready (pits v) (storage_of s2) e a img ok" using lk3rd_ready_target [OF rdy t1(2)] by (simp add: s2_def)
  obtain t3 where t3: "flash_using_part v (storage_of s2) ''lk3rd'' (downloaded_data_size s) CFG_FASTBOOT_TRANSFER_BUFFER m2
      = Ret (''OKAY'', ?st\<lparr>starget := t3\<rparr>)" "ok t3" "img t3 = splice_at ?I ?b (take k m2)"
    using flash_part_ok [OF lk_flashable(1) [OF r2], of k "downloaded_data_size s" m2 CFG_FASTBOOT_TRANSFER_BUFFER] k
      lk_flashable(2) [OF r2] l2 len t1(3) by (auto simp: s2_def lk3rd_of_def)
  let ?D = "take k m2 @ drop k d"
  have lD: "length ?D = lk_size" using l2 len k(3) l(2) by simp
  have "splice_at d 0 (take k m2) = ?D" using l2 len k(3) by (simp add: splice_at_def)
  then have I3: "img t3 = splice_at ?I ?b ?D"
    using splice_rmw [of 0 "take k m2" lk_size ?b ?I] t3(3) l(1) k(3) by (simp add: d lk_of_def)
  have lk3: "lk_of e (img t3) = ?D" using lk_of_splice [OF l(1) lD] I3 by simp
  define s3 where "s3 = s\<lparr>xfer := m2, storage_of := ?st\<lparr>starget := t3\<rparr>\<rparr>"
  have r3: "lk3rd_ready (pits v) (storage_of s3) e a img ok" using lk3rd_ready_target [OF rdy t3(2)] by (simp add: s3_def)
  obtain t m where t: "restore_settings v ?xs s3 = Ret (s3\<lparr>xfer := m, storage_of := (storage_of s3)\<lparr>starget := t\<rparr>\<rparr>)" "ok t"
      "img t = splice_at (img t3) ?b (with_settings (zip [0..<4] ?xs) ?D)"
    using restore_settings_ok [OF r3, of ?xs] l2 len lk3 by (auto simp: s3_def)
  have "length (with_settings (zip [0..<4] ?xs) ?D) = lk_size"
    using lD by (intro length_with_settings) (auto simp: list_all_iff dest: set_zip_leftD)
  then have "img t = splice_at ?I ?b (with_settings (zip [0..<4] ?xs) ?D)"
    using t(3) I3 l(1) lD by (simp add: splice_again)
  moreover have "flash_lk3rd v s = Ret (send ''OKAY'' (s\<lparr>xfer := m, storage_of := ?st\<lparr>starget := t\<rparr>\<rparr>))"
    using t1(1) mg t3(1) t(1) by (simp add: flash_lk3rd_def Let_def m2_def [symmetric] s2_def s3_def)
  ultimately show ?thesis using t(2) tk by auto
qed

section \<open>Guards\<close>

lemma confirm_keeps:
  assumes "fastboot_confirm_update s = Ret (c, s')"
  shows "storage_of s' = storage_of s \<and> xfer s' = xfer s \<and> downloaded_data_size s' = downloaded_data_size s"
  using assms
  by (auto simp: fastboot_confirm_update_def Let_def emit_def split: if_splits outcome.splits prod.splits bool.splits)

lemma confirm_not_needed: "\<not> update_seen s \<or> update_confirmed s \<Longrightarrow> fastboot_confirm_update s = Ret (0, s)"
  by (simp add: fastboot_confirm_update_def)

text \<open>A final answer that reports a failure.\<close>

definition failed :: "act \<Rightarrow> bool" where
  "failed a \<longleftrightarrow> (case a of Status r \<Rightarrow> take 4 r = ''FAIL'' | _ \<Rightarrow> False)"

lemma failed_status [simp]: "failed (Status r) \<longleftrightarrow> take 4 r = ''FAIL''"
  by (simp add: failed_def)

text \<open>The command returned, wrote nothing and answered with a failure.\<close>

definition refused :: "'t fb_state \<Rightarrow> 't fb_state outcome \<Rightarrow> bool" where
  "refused s out \<longleftrightarrow> (case out of
     Ret s' \<Rightarrow> storage_of s' = storage_of s \<and> xfer s' = xfer s \<and> failed (last (acts s')) | _ \<Rightarrow> False)"

lemma part_get_not_hang: "part_get p key \<noteq> Hang"
  by (simp add: part_get_def pit_get_part_info_def pit_get_virtual_partition_entry_def Let_def
      split: option.split prod.split)

text \<open>A blocked name has no virtual partition.\<close>

lemma blocked_no_lie:
  assumes "c_string key" and "partition_is_blocked key"
  shows "need_to_lie key = 0"
proof -
  let ?lo = "map (tolower \<circ> code)"
  obtain b where b: "b \<in> set blocked_partitions" "stricmp key b = 0"
    using assms(2) by (auto simp: partition_is_blocked_def list_ex_iff)
  have cs: "list_all c_string blocked_partitions" "c_string ''boot''" "c_string ''lk3rd''" by code_simp+
  then have cb: "c_string b" using b(1) by (simp add: list_all_iff)
  have "list_all (\<lambda>b. ?lo b \<noteq> ?lo ''boot'' \<and> ?lo b \<noteq> ?lo ''lk3rd'') blocked_partitions" by code_simp
  then have nb: "?lo b \<noteq> ?lo ''boot''" "?lo b \<noteq> ?lo ''lk3rd''" using b(1) unfolding list_all_iff by blast+
  have "?lo key = ?lo b" using b(2) strcicmp_eq_0 [OF assms(1) cb] by (simp add: stricmp_eq_strcicmp)
  then show ?thesis using nb strcicmp_eq_0 [OF assms(1) cs(2)] strcicmp_eq_0 [OF assms(1) cs(3)]
    by (simp add: need_to_lie_def del: list.map)
qed

lemma blocked_part_get:
  assumes "c_string key" and "partition_is_blocked key"
  shows "\<exists>part. part_get p key = Ret part"
  using blocked_no_lie [OF assms] by (simp add: part_get_def pit_get_part_info_def)

section \<open>A device to try it on\<close>

definition demo_part_entry :: pit_entry where
  "demo_part_entry = \<lparr>filesys = 0, blkstart = 6, blknum = 8, lun = 0, ename = ''PIT2''\<rparr>"

definition demo_pit :: pit_state where
  "demo_pit = ram_pit\<lparr>table := \<lparr>pit_magic = PIT_MAGIC, pit_count = 2, pte = [demo_part_entry, ram_boot]\<rparr>\<rparr>"

definition demo_env :: fb_env where
  "demo_env = \<lparr>boot_dev = BOOT_UFS, pits = demo_pit,
     parts = \<lparr>s_def_boot_dev_id = 4, s_boot_dev_id = 4, s_bdev = Some 0\<rparr>, raw_mem = (\<lambda>n. replicate n 0), raw_addr = 0\<rparr>"

definition demo_disk :: "byte list" where
  "demo_disk = splice_at ram_disk (100 * 4096) BOOT_MAGIC"

definition demo_state :: "nat \<Rightarrow> byte list fb_state" where
  "demo_state n =
     \<lparr>storage_of = ram_storage\<lparr>starget := demo_disk\<rparr>, xfer = BOOT_MAGIC @ replicate 0x30000000 5, download_size = n,
      downloaded_data_size = n, phase = PAYLOAD_NONE,
      payload_dir = USBDIR_OUT, payload_buf = 0, payload_req_len = 0, prot_req_rx_sz = 0, is_ramdump = False, update_seen = False, update_confirmed = False,
      key_samples = [], acts = []\<rparr>"

text \<open>The user presses the power key when asked.\<close>

definition declining_state :: "byte list fb_state" where
  "declining_state = (demo_state 0)\<lparr>update_seen := True, key_samples := [(False, False, False), (False, False, True)]\<rparr>"

lemma demo_state_simps [simp]:
  "storage_of (demo_state n) = ram_storage\<lparr>starget := demo_disk\<rparr>" "downloaded_data_size (demo_state n) = n"
  "update_seen (demo_state n) = False" "pits demo_env = demo_pit"
  by (simp_all add: demo_state_def demo_env_def)

lemma demo_names: "strcicmp ''boot'' ''PIT2'' \<noteq> 0" "strcicmp ''pit2'' ''PIT2'' = 0" "need_to_lie ''pit2'' = 0"
  "stricmp ''userdata'' ''PIT2'' \<noteq> 0"
  by code_simp+

lemma demo_target: "ram_ok 4096 2048 demo_disk"
  by (simp add: ram_ok_def demo_disk_def length_splice BOOT_MAGIC_def)

lemma demo_ready: "lk3rd_ready (pits demo_env) (storage_of (demo_state n)) ram_boot 0 (\<lambda>t. t) (ram_ok 4096 2048)"
proof -
  have "pit_scan demo_pit ''boot'' = Some ram_boot"
    using demo_names boot_names(2) by (simp add: demo_pit_def pit_scan_def demo_part_entry_def ram_boot_def)
  then have "lk3rd_ready demo_pit ram_storage ram_boot 0 (\<lambda>t. t) (ram_ok 4096 2048)"
    using ram_lk3rd_ready by (simp add: lk3rd_ready_def demo_pit_def)
  then show ?thesis using lk3rd_ready_target demo_target by simp
qed

lemma demo_buffer:
  "boot_gap + lk_size \<le> length (xfer (demo_state n))" "has_magic (xfer (demo_state n))"
  "has_magic (lk_of ram_boot (starget (storage_of (demo_state n))))"
  by (simp_all add: boot_gap_eq demo_state_def has_magic_def BOOT_MAGIC_def lk_of_def ram_boot_def demo_disk_def
      slice_at_def splice_at_def)


lemma demo_flashable: "flashable demo_env (storage_of (demo_state n)) ''pit2'' demo_part_entry 0 (\<lambda>t. t) (ram_ok 4096 2048)"
proof -
  have "part_get demo_pit ''pit2'' = Ret (Some demo_part_entry)"
    using demo_names by (simp add: part_get_def pit_get_part_info_def demo_pit_def ram_pit_def pit_scan_def demo_part_entry_def)
  moreover have "lu_at (storage_of (demo_state n)) ''scsi0'' 0 (\<lambda>t. t) (ram_ok 4096 2048)"
    using lu_target [OF ram_lu demo_target] by simp
  ultimately show ?thesis using demo_names
    by (simp add: flashable_def demo_part_entry_def entry_fits_def entry_wf_def is_sparse_fs_def pit_consts)
      (simp add: demo_pit_def ram_pit_def)
qed







section \<open>Properties\<close>

text \<open>Claim C4: blocked partitions are out of reach of fastboot. Whatever the upper or lower case of its
name, a flash or an erase command for a blocked partition returns, leaves storage and memory
alone and answers with a failure. The same holds for every flash command when the user, asked on
the device, declines the update, and for every erase command then, \<^verbatim>\<open>erase:wipe\<close> included. The
one exception is an erase whose partition cannot even be looked up: for \<^verbatim>\<open>boot\<close> and \<^verbatim>\<open>lk3rd\<close>, on
a device without a boot partition, the lookup itself crashes.\<close>

theorem fastboot_guards:
  assumes "c_string key"
  shows "(partition_is_blocked key \<longrightarrow>
      refused s (fb_do_flash v (''flash:'' @ key) s) \<and> refused s (fb_do_erase v (''erase:'' @ key) s))
    \<and> (fastboot_confirm_update s = Ret (-1, s1) \<longrightarrow>
      refused s (fb_do_flash v (''flash:'' @ key) s)
      \<and> (key = ''wipe'' \<or> part_get (pits v) key \<noteq> Fault \<longrightarrow> refused s (fb_do_erase v (''erase:'' @ key) s)))"
proof (intro conjI impI)
  assume b: "partition_is_blocked key"
  then show "refused s (fb_do_flash v (''flash:'' @ key) s)" by (simp add: fb_do_flash_def refused_def)
  have "\<not> partition_is_blocked ''wipe''" by code_simp
  then have "key \<noteq> ''wipe''" using b by metis
  moreover obtain part where "part_get (pits v) key = Ret part" using blocked_part_get [OF assms b] by blast
  ultimately show "refused s (fb_do_erase v (''erase:'' @ key) s)"
    using b by (simp add: fb_do_erase_def refused_def Let_def)
next
  assume c: "fastboot_confirm_update s = Ret (-1, s1)"
  note k = confirm_keeps [OF c]
  show "refused s (fb_do_flash v (''flash:'' @ key) s)" using c k by (simp add: fb_do_flash_def refused_def)
  assume l: "key = ''wipe'' \<or> part_get (pits v) key \<noteq> Fault"
  show "refused s (fb_do_erase v (''erase:'' @ key) s)"
  proof (cases "key = ''wipe''")
    case True
    then show ?thesis using c k by (simp add: fb_do_erase_def refused_def Let_def)
  next
    case False
    then obtain part where "part_get (pits v) key = Ret part" using l part_get_not_hang by (cases "part_get (pits v) key") auto
    then show ?thesis using c k False by (simp add: fb_do_erase_def refused_def Let_def)
  qed
qed

theorem fastboot_guards_witness:
  "refused (demo_state 0) (fb_do_erase demo_env ''erase:EFS'' (demo_state 0))
   \<and> refused declining_state (fb_do_erase demo_env ''erase:pit2'' declining_state)
   \<and> refused declining_state (fb_do_erase demo_env ''erase:wipe'' declining_state)"
proof -
  have "c_string ''EFS''" "c_string ''pit2''" "c_string ''wipe''" "partition_is_blocked ''EFS''" by code_simp+
  moreover obtain s1 where "fastboot_confirm_update declining_state = Ret (-1, s1)"
    by (auto simp: declining_state_def fastboot_confirm_update_def demo_state_def emit_def)
  moreover have "part_get (pits demo_env) ''pit2'' \<noteq> Fault"
    using demo_flashable [of 0] by (simp add: flashable_def)
  ultimately show ?thesis
    using fastboot_guards [where key="''EFS''" and v=demo_env and s="demo_state 0"]
      fastboot_guards [where key="''pit2''" and v=demo_env and s=declining_state and ?s1.0=s1]
      fastboot_guards [where key="''wipe''" and v=demo_env and s=declining_state and ?s1.0=s1] by simp
qed

text \<open>Claim C1: flashing a boot image. The command writes the image, in whole sectors, to the part of the raw
boot partition behind the boot loader; of the boot loader it changes the four bytes of the version,
which it takes from the image; every other byte of the medium, the settings included, stays as it
was. This holds for images of at most 144 MiB: a longer one reaches into the buffer through which
the boot loader is patched.\<close>

theorem fastboot_flash_boot:
  assumes "lk3rd_ready (pits v) (storage_of s) e a img ok" and "boot_gap + lk_size \<le> length (xfer s)"
    and "has_magic (xfer s)" and "has_magic (lk_of e (img (starget (storage_of s))))"
    and "k = sector_size_up (boot_image_size e (downloaded_data_size s))" and "blknum e * 4096 < 2 ^ 32"
    and "0 < k" and "k \<le> (blknum e - 512) * 4096" and "k \<le> 0x9000000"
    and "\<not> update_seen s \<or> update_confirmed s"
  shows "\<exists>s' t. fb_do_flash v ''flash:boot'' s = Ret s' \<and> last (acts s') = Status ''OKAY''
    \<and> storage_of s' = (storage_of s)\<lparr>starget := t\<rparr>
    \<and> img t = splice_at (splice_at (img (starget (storage_of s)))
          (blkstart e * 4096 + 44) (slice_at 44 4 (xfer s)))
        (blkstart e * 4096 + 0x200000) (take k (xfer s))"
proof -
  have "\<not> partition_is_blocked ''boot''" by code_simp
  then have "fb_do_flash v ''flash:boot'' s = flash_boot v s"
    using assms(10) by (simp add: fb_do_flash_def confirm_not_needed)
  then show ?thesis
    using flash_boot_ok [OF assms(1,2) refl assms(3,4) refl assms(6,5,7,8)] assms(9)
    by (fastforce simp: boot_gap_eq OS_VERSION_POS_def)
qed

theorem fastboot_flash_boot_witness:
  "\<exists>s' t. fb_do_flash demo_env ''flash:boot'' (demo_state 4000) = Ret s' \<and> last (acts s') = Status ''OKAY''
    \<and> storage_of s' = (storage_of (demo_state 4000))\<lparr>starget := t\<rparr>
    \<and> t = splice_at (splice_at demo_disk (100 * 4096 + 44) (slice_at 44 4 (xfer (demo_state 4000))))
        (100 * 4096 + 0x200000) (take 4096 (xfer (demo_state 4000)))"
  using fastboot_flash_boot [OF demo_ready demo_buffer(1,2) demo_buffer(3), of 4096]
  by (simp add: boot_image_size_def sector_size_up_def add32_def ram_boot_def)

text \<open>Claim C2: updating the boot loader through fastboot keeps its settings. The new image, in whole sectors,
replaces the start of the boot loader's partition, with the version field of the old one; the
four stored settings read as before, and nothing outside the partition changes.\<close>

theorem fastboot_update_keeps_settings:
  assumes "lk3rd_ready (pits v) (storage_of s) e a img ok" and "boot_gap + lk_size \<le> length (xfer s)"
    and "d = lk_of e (img (starget (storage_of s)))" and "has_magic (xfer s)" and "has_magic d"
    and "k = sector_size_up (downloaded_data_size s)" and "0 < k" and "k \<le> 0x200000"
    and "\<not> update_seen s \<or> update_confirmed s"
  shows "\<exists>s' t d'. fb_do_flash v ''flash:lk3rd'' s = Ret s' \<and> last (acts s') = Status ''OKAY''
    \<and> storage_of s' = (storage_of s)\<lparr>starget := t\<rparr>
    \<and> img t = splice_at (img (starget (storage_of s))) (blkstart e * 4096) d'
    \<and> d' = with_settings (zip [0..<4] (map (setting d) [0..<4])) (take k (patch_os_version (xfer s) d) @ drop k d)
    \<and> length d' = 0x200000 \<and> (\<forall>i < 4. setting d' i = setting d i)"
proof -
  let ?D = "take k (patch_os_version (xfer s) d) @ drop k d"
  let ?d' = "with_settings (zip [0..<4] (map (setting d) [0..<4])) ?D"
  have "\<not> partition_is_blocked ''lk3rd''" by code_simp
  then have run: "fb_do_flash v ''flash:lk3rd'' s = flash_lk3rd v s"
    using assms(9) by (simp add: fb_do_flash_def confirm_not_needed)
  have ld: "length d = lk_size" using lk_fits(2) [OF assms(1)] assms(3) by simp
  have lD: "length ?D = lk_size" using ld assms(2,8) by simp
  have sets: "setting ?d' i = setting d i" if "i < 4" for i
    using settings_restored [of "[0..<4]" ?D i d] lD that by (auto simp: list_all_iff)
  have "length ?d' = lk_size"
    using lD by (intro length_with_settings) (auto simp: list_all_iff dest: set_zip_leftD)
  then show ?thesis
    using flash_lk3rd_ok [OF assms(1,2,3,4,5,6,7)] assms(8) sets run by fastforce
qed

theorem fastboot_update_keeps_settings_witness:
  "\<exists>s' t d'. fb_do_flash demo_env ''flash:lk3rd'' (demo_state 4000) = Ret s' \<and> last (acts s') = Status ''OKAY''
    \<and> storage_of s' = (storage_of (demo_state 4000))\<lparr>starget := t\<rparr>
    \<and> t = splice_at demo_disk (100 * 4096) d'
    \<and> setting d' 0 = setting (lk_of ram_boot demo_disk) 0 \<and> setting d' 3 = setting (lk_of ram_boot demo_disk) 3"
proof -
  have k: "4096 = sector_size_up (downloaded_data_size (demo_state 4000))"
    by (simp add: sector_size_up_def add32_def)
  obtain s' t d' where h: "fb_do_flash demo_env ''flash:lk3rd'' (demo_state 4000) = Ret s'" "last (acts s') = Status ''OKAY''"
      "storage_of s' = (storage_of (demo_state 4000))\<lparr>starget := t\<rparr>" "t = splice_at demo_disk (blkstart ram_boot * 4096) d'"
      "\<forall>i < 4. setting d' i = setting (lk_of ram_boot demo_disk) i"
    using fastboot_update_keeps_settings [OF demo_ready demo_buffer(1) refl demo_buffer(2,3) k]
    by (elim exE conjE meta_impE) simp_all
  show ?thesis using h by (intro exI [of _ s'] exI [of _ t] exI [of _ d']) (simp add: ram_boot_def)
qed



text \<open>The special treatment of the boot loader depends on the spelling of its name: in capitals it is
flashed without a look at the image, and the settings are lost.\<close>

theorem flash_lk3rd_in_capitals:
  assumes "\<not> update_seen s \<or> update_confirmed s"
  shows "fb_do_flash v ''flash:LK3RD'' s = flash_and_report v ''LK3RD'' s"
    and "part_get (pits v) ''LK3RD'' = part_get (pits v) ''lk3rd''"
proof -
  have "\<not> partition_is_blocked ''LK3RD''" by code_simp
  then show "fb_do_flash v ''flash:LK3RD'' s = flash_and_report v ''LK3RD'' s"
    using assms by (simp add: fb_do_flash_def confirm_not_needed)
  show "part_get (pits v) ''LK3RD'' = part_get (pits v) ''lk3rd''"
    by (simp add: part_get_def pit_get_part_info_def lie_cases)
qed

end
