(* ===== verification/Fastboot_Cmds.thy ===== *)
theory Fastboot_Cmds
  imports Fastboot_Correct
begin

text \<open>
  The remaining commands of \<^verbatim>\<open>lib/fastboot/fastboot_cmd.c\<close> and their dispatch in \<^verbatim>\<open>rx_handler\<close>. What the
  hardware and the parts around fastboot contribute is a record of arguments: the strings of the
  platform, the lock state, the debug stores. The functions for raw ranges of the disk do
  nothing with a PIT table, so a range asked for by name is what the stack holds.
\<close>

record 't fb_ext =
  product_string :: "string option"
  serialno_string :: "string option"
  chip_id :: "nat \<times> nat"
  ldfw_loaded :: bool
  lock_state :: int
  var_list :: "(string \<times> string) list option"
  dss_getvar_item :: "string \<Rightarrow> string option"
  ramdump_getvar :: "string \<Rightarrow> 't storage \<Rightarrow> (string \<times> 't storage) outcome"
  ramdump_oem :: "string \<Rightarrow> 't storage \<Rightarrow> (int \<times> 't storage) outcome"
  stack_words :: "nat \<times> nat"

definition and_then :: "'a outcome \<Rightarrow> ('a \<Rightarrow> 'b outcome) \<Rightarrow> 'b outcome" where
  "and_then x f = (case x of Ret a \<Rightarrow> f a | Fault \<Rightarrow> Fault | Hang \<Rightarrow> Hang)"

lemma and_then_simps [simp]: "and_then (Ret a) f = f a" "and_then Fault f = Fault" "and_then Hang f = Hang"
  by (simp_all add: and_then_def)

lemma and_then_Ret: "and_then x f = Ret y \<longleftrightarrow> (\<exists>a. x = Ret a \<and> f a = Ret y)"
  by (cases x) auto

section \<open>Printing\<close>

text \<open>\<^verbatim>\<open>%d\<close> and \<^verbatim>\<open>%x\<close> of the numbers that occur.\<close>

fun digits :: "nat \<Rightarrow> nat \<Rightarrow> string" where
  "digits b n = (if n < b \<or> b < 2 then [hex_char n] else digits b (n div b) @ [hex_char (n mod b)])"

definition print_d :: "int \<Rightarrow> string" where
  "print_d i = (if i < 0 then CHR ''-'' # digits 10 (nat (- i)) else digits 10 (nat i))"

definition print_x :: "nat \<Rightarrow> string" where
  "print_x n = ''0x'' @ digits 16 n"

definition starts :: "string \<Rightarrow> string \<Rightarrow> bool" where
  "starts name s \<longleftrightarrow> take (length name) s = name"

definition simple_byte_hextostr :: "nat \<Rightarrow> string" where
  "simple_byte_hextostr b = [hex_char (b div 16 mod 16), hex_char (b mod 16)]"

definition hex2str :: "nat list \<Rightarrow> string" where
  "hex2str bs = concat (map simple_byte_hextostr bs)"

text \<open>The bytes of \<^verbatim>\<open>ntohl(v)\<close> in memory.\<close>

definition ntohl_bytes :: "nat \<Rightarrow> nat list" where
  "ntohl_bytes v = map (\<lambda>i. v div 256 ^ i mod 256) [3, 2, 1, 0]"

section \<open>Variables\<close>

datatype fastboot_variable_id =
    VERSION | PRODUCT | SERIALNO | DOWNLOAD_SIZE | MAX_DOWNLOAD_SIZE | PARTITION_TYPE | PARTITION_SIZE
  | ERASE_BLOCK_SIZE | LOGICAL_BLOCK_SIZE | SLOT_COUNT | CURRENT_SLOT | SLOT_SUCCESSFUL | SLOT_UNBOOTABLE
  | SLOT_RETRY_COUNT | HAS_SLOT | BL_UNLOCKED | UID | STR_RAM | ALL_VARIABLES

definition fastboot_variables :: "(string \<times> fastboot_variable_id) list" where
  "fastboot_variables =
     [(''version'', VERSION), (''product'', PRODUCT), (''serialno'', SERIALNO), (''downloadsize'', DOWNLOAD_SIZE),
      (''max-download-size'', MAX_DOWNLOAD_SIZE), (''partition-type'', PARTITION_TYPE),
      (''partition-size'', PARTITION_SIZE), (''erase-block-size'', ERASE_BLOCK_SIZE),
      (''logical-block-size'', LOGICAL_BLOCK_SIZE), (''slot-count'', SLOT_COUNT), (''current-slot'', CURRENT_SLOT),
      (''slot-successful'', SLOT_SUCCESSFUL), (''slot-unbootable'', SLOT_UNBOOTABLE),
      (''slot-retry-count'', SLOT_RETRY_COUNT), (''has-slot'', HAS_SLOT), (''unlocked'', BL_UNLOCKED), (''uid'', UID),
      (''str_ram'', STR_RAM)]"

fun variable_loop :: "(string \<times> fastboot_variable_id) list \<Rightarrow> string \<Rightarrow> fastboot_variable_id option" where
  "variable_loop [] v = None"
| "variable_loop ((name, i) # rest) v =
     (if starts name v then Some i else if v = ''all'' then Some ALL_VARIABLES else variable_loop rest v)"

definition fastboot_variable_to_id :: "string \<Rightarrow> fastboot_variable_id option" where
  "fastboot_variable_to_id v = variable_loop fastboot_variables v"

definition partition_has_slots :: "fb_env \<Rightarrow> string \<Rightarrow> bool outcome" where
  "partition_has_slots v name =
     (if 64 \<le> length (name @ ''_a'') \<or> 64 \<le> length (name @ ''_b'') then Ret False
      else and_then (part_get (pits v) (name @ ''_a'')) (\<lambda>a.
        if a = None then Ret False
        else and_then (part_get (pits v) (name @ ''_b'')) (\<lambda>b. Ret (b \<noteq> None))))"

text \<open>The slot a variable asks for, and the question put to the \<^verbatim>\<open>misc\<close> partition.\<close>

definition slot_arg :: "string \<Rightarrow> int option" where
  "slot_arg arg = (if arg = ''_a'' then Some 0 else if arg = ''_b'' then Some 1 else None)"

definition ask_slot ::
    "fb_env \<Rightarrow> (boot_device \<Rightarrow> pit_state \<Rightarrow> 't storage \<Rightarrow> nat \<Rightarrow> (nat \<Rightarrow> byte list) \<Rightarrow> int \<Rightarrow> (int \<times> 't storage) outcome)
      \<Rightarrow> (int \<Rightarrow> string) \<Rightarrow> string \<Rightarrow> 't fb_state \<Rightarrow> 't fb_state outcome" where
  "ask_slot v ask show arg s =
     (case slot_arg arg of
        None \<Rightarrow> Ret (send ''FAILinvalid slot'' s)
      | Some slot \<Rightarrow>
          and_then (ask (boot_dev v) (pits v) (storage_of s) (raw_addr v) (raw_mem v) slot) (\<lambda>(r, st).
            Ret (send (''OKAY'' @ show r) (s\<lparr>storage_of := st\<rparr>))))"

definition yes_no :: "bool \<Rightarrow> string" where
  "yes_no b = (if b then ''yes'' else ''no'')"

definition getvar_partition_size :: "fb_env \<Rightarrow> string \<Rightarrow> 't fb_state \<Rightarrow> 't fb_state outcome" where
  "getvar_partition_size v cmd s =
     (let key = drop (7 + length ''partition-size:'') cmd in
      and_then (part_get (pits v) key) (\<lambda>part.
        if part = None then Ret (send ''OKAY'' s)
        else and_then (part_get_size_in_bytes (pits v) part) (\<lambda>size. Ret (send (''OKAY'' @ print_x size) s))))"

text \<open>For the table itself and for \<^verbatim>\<open>wipe\<close> the case of the type ends in the case of the size.\<close>

definition getvar_partition_type :: "fb_env \<Rightarrow> string \<Rightarrow> 't fb_state \<Rightarrow> 't fb_state outcome" where
  "getvar_partition_type v cmd s =
     (let key = drop (7 + length ''partition-type:'') cmd in
      if \<not> part_get_pt_type key \<and> key \<noteq> ''wipe'' then
        and_then (part_get (pits v) key) (\<lambda>part.
          case part of
            None \<Rightarrow> Ret (send ''FAILpartition does not exist'' s)
          | Some e \<Rightarrow>
              and_then (part_get_fs_type e) (\<lambda>type.
                Ret (send (''OKAY'' @ (if key = ''userdata'' then ''f2fs'' else type)) s)))
      else getvar_partition_size v cmd s)"

definition getvar_has_slot :: "fb_env \<Rightarrow> string \<Rightarrow> 't fb_state \<Rightarrow> 't fb_state outcome" where
  "getvar_has_slot v variable s =
     (let key = dropWhile (\<lambda>c. c \<noteq> CHR '':'') variable in
      if length key \<le> 1 then Ret (send ''FAILinvalid partition'' s)
      else and_then (partition_has_slots v (tl key)) (\<lambda>b. Ret (send (''OKAY'' @ yes_no b) s)))"

definition getvar_all :: "(string \<times> string) list option \<Rightarrow> 't fb_state \<Rightarrow> 't fb_state" where
  "getvar_all vars s =
     (case vars of
        None \<Rightarrow> send ''FAIL'' s
      | Some vs \<Rightarrow>
          send ''OKAYDone!''
            (fold (\<lambda>(name, val). emit (Info (''INFO'' @ name @ '':'' @ val))) vs s))"

definition FASTBOOT_VERSION :: string where "FASTBOOT_VERSION = ''0.4''"

definition fb_do_getvar :: "fb_env \<Rightarrow> 't fb_ext \<Rightarrow> string \<Rightarrow> 't fb_state \<Rightarrow> 't fb_state outcome" where
  "fb_do_getvar v x cmd s =
     (let variable = drop 7 cmd;
          s = (if variable = ''version-bootloader'' then s\<lparr>update_seen := True\<rparr> else s);
          okay = (\<lambda>r. Ret (send (''OKAY'' @ r) s))
      in case fastboot_variable_to_id variable of
        Some VERSION \<Rightarrow> okay FASTBOOT_VERSION
      | Some PRODUCT \<Rightarrow> okay (case product_string x of None \<Rightarrow> [] | Some t \<Rightarrow> t)
      | Some SERIALNO \<Rightarrow> okay (case serialno_string x of None \<Rightarrow> [] | Some t \<Rightarrow> t)
      | Some DOWNLOAD_SIZE \<Rightarrow> okay (hex8 CFG_FASTBOOT_TRANSFER_BUFFER_SIZE)
      | Some MAX_DOWNLOAD_SIZE \<Rightarrow> okay (print_d (int CFG_FASTBOOT_TRANSFER_BUFFER_SIZE))
      | Some ERASE_BLOCK_SIZE \<Rightarrow> and_then (part_get_block_size (parts v) (storage_of s)) (\<lambda>n. okay (print_x n))
      | Some LOGICAL_BLOCK_SIZE \<Rightarrow> and_then (part_get_erase_size (parts v) (storage_of s)) (\<lambda>n. okay (print_x n))
      | Some SLOT_COUNT \<Rightarrow> and_then (partition_has_slots v ''boot'') (\<lambda>b. okay (print_d (if b then 2 else 0)))
      | Some CURRENT_SLOT \<Rightarrow>
          and_then (partition_has_slots v ''boot'') (\<lambda>b.
            if b then
              and_then (ab_current_slot (boot_dev v) (pits v) (storage_of s) (raw_addr v) (raw_mem v)) (\<lambda>(r, st).
                Ret (send (''OKAY'' @ (if r \<noteq> 0 then ''_b'' else ''_a'')) (s\<lparr>storage_of := st\<rparr>)))
            else okay '' '')
      | Some SLOT_SUCCESSFUL \<Rightarrow>
          ask_slot v ab_slot_successful (\<lambda>r. yes_no (r \<noteq> 0)) (drop (7 + length ''slot-successful:'') cmd) s
      | Some SLOT_UNBOOTABLE \<Rightarrow>
          ask_slot v ab_slot_unbootable (\<lambda>r. yes_no (r \<noteq> 0)) (drop (7 + length ''slot-unbootable:'') cmd) s
      | Some SLOT_RETRY_COUNT \<Rightarrow>
          ask_slot v ab_slot_retry_count print_d (drop (7 + length ''slot-retry-count:'') cmd) s
      | Some HAS_SLOT \<Rightarrow> getvar_has_slot v variable s
      | Some BL_UNLOCKED \<Rightarrow> okay (if ldfw_loaded x then yes_no (lock_state x = 0) else ''ignore'')
      | Some UID \<Rightarrow>
          okay (hex2str (ntohl_bytes (snd (chip_id x)) @ ntohl_bytes (fst (chip_id x)) @ replicate 8 0))
      | Some STR_RAM \<Rightarrow>
          and_then (ramdump_getvar x (drop 15 cmd) (storage_of s)) (\<lambda>(r, st).
            Ret (send (''OKAY'' @ r) (s\<lparr>storage_of := st\<rparr>)))
      | Some PARTITION_TYPE \<Rightarrow> getvar_partition_type v cmd s
      | Some PARTITION_SIZE \<Rightarrow> getvar_partition_size v cmd s
      | Some ALL_VARIABLES \<Rightarrow> Ret (getvar_all (var_list x) s)
      | None \<Rightarrow>
          (case dss_getvar_item x variable of
             None \<Rightarrow> Ret (send ''FAIL'' s)
           | Some r \<Rightarrow> okay r))"

section \<open>Other commands\<close>

definition fb_do_reboot :: "string \<Rightarrow> 't fb_state \<Rightarrow> 't fb_state" where
  "fb_do_reboot cmd s = emit (Leave (Reboot cmd)) (emit (Sync_Status ''OKAY'') s)"

definition fb_do_continue :: "'t fb_state \<Rightarrow> 't fb_state" where
  "fb_do_continue s = emit (Leave Continue_Boot) (emit (Sync_Status ''OKAY'') s)"

definition fb_do_boot :: "fb_env \<Rightarrow> 't fb_state \<Rightarrow> 't fb_state outcome" where
  "fb_do_boot v s =
     (let s = emit (Sync_Status ''OKAY'') s in
      and_then (lk3rd_get_mainline_quirks (boot_dev v) (pits v) (storage_of s) (boot_buf (xfer s))) (\<lambda>(r, b, st).
        let s = s\<lparr>storage_of := st, xfer := set_boot_buf (xfer s) b\<rparr> in
        Ret (emit (Leave ((if r = 0 then Boot_Image else Mainline_Boot) CFG_FASTBOOT_TRANSFER_BUFFER (download_size s))) s)))"

definition fasboot_set_rx_sz :: "nat \<Rightarrow> 't fb_state \<Rightarrow> 't fb_state" where
  "fasboot_set_rx_sz n s = s\<lparr>prot_req_rx_sz := n\<rparr>"

definition fb_do_ramdump :: "string \<Rightarrow> 't fb_state \<Rightarrow> 't fb_state" where
  "fb_do_ramdump cmd s =
     (let n = nat (fst (strtol (drop 8 cmd) 16) mod 2 ^ 32);
          s = s\<lparr>is_ramdump := True, downloaded_data_size := 0\<rparr>
      in if CFG_FASTBOOT_TRANSFER_BUFFER_SIZE < n
         then emit (Sync_Status ''FAILdownload data size is bigger than buffer size'')
                (fasboot_set_rx_sz 0 (s\<lparr>download_size := 0\<rparr>))
         else emit (Sync_Status (''DATA'' @ hex8 n)) (fasboot_set_rx_sz n (s\<lparr>download_size := n\<rparr>)))"

definition fb_do_flashing :: "string \<Rightarrow> 't fb_state \<Rightarrow> 't fb_state" where
  "fb_do_flashing cmd s =
     (let arg = drop 9 cmd in
      send (if arg = ''lock'' then ''FAILAre you serious? Why did you want to do this???''
            else if arg = ''unlock'' then ''FAILThere is no way you thought this would work.''
            else if arg = ''lock_critical'' \<or> arg = ''unlock_critical'' then ''OKAY''
            else if arg = ''get_unlock_ability'' then ''OKAY1''
            else ''FAILunsupported command'') s)"

text \<open>The commands for the settings; the buffer for the boot loader is used.\<close>

datatype oem_commands_id =
    OEM_STR_RAM | OEM_REBOOT_DOWNLOAD | OEM_ENABLE_MAINLINE_QUIRKS | OEM_DISABLE_MAINLINE_QUIRKS
  | OEM_ENABLE_KASLR | OEM_DISABLE_KASLR

definition oem_commands :: "(string \<times> oem_commands_id) list" where
  "oem_commands =
     [(''str_ram'', OEM_STR_RAM), (''reboot-download'', OEM_REBOOT_DOWNLOAD),
      (''enable-mainline-quirks'', OEM_ENABLE_MAINLINE_QUIRKS),
      (''disable-mainline-quirks'', OEM_DISABLE_MAINLINE_QUIRKS),
      (''enable-kaslr'', OEM_ENABLE_KASLR), (''disable-kaslr'', OEM_DISABLE_KASLR)]"

fun oem_command_loop :: "(string \<times> oem_commands_id) list \<Rightarrow> string \<Rightarrow> oem_commands_id option" where
  "oem_command_loop [] c = None"
| "oem_command_loop ((name, i) # rest) c = (if starts name c then Some i else oem_command_loop rest c)"

definition oem_command_to_id :: "string \<Rightarrow> oem_commands_id option" where
  "oem_command_to_id c = oem_command_loop oem_commands c"

definition oem_switch ::
    "fb_env \<Rightarrow> (boot_device \<Rightarrow> pit_state \<Rightarrow> 't storage \<Rightarrow> byte list \<Rightarrow> bool \<Rightarrow> (int \<times> byte list \<times> 't storage) outcome)
      \<Rightarrow> bool \<Rightarrow> 't fb_state \<Rightarrow> 't fb_state outcome" where
  "oem_switch v switch on s =
     and_then (switch (boot_dev v) (pits v) (storage_of s) (boot_buf (xfer s)) on) (\<lambda>(r, b, st).
       Ret (send (if r \<noteq> (if on then 1 else 0) then ''FAIL'' else ''OKAY'')
              (s\<lparr>storage_of := st, xfer := set_boot_buf (xfer s) b\<rparr>)))"

definition fb_do_oem :: "fb_env \<Rightarrow> 't fb_ext \<Rightarrow> string \<Rightarrow> 't fb_state \<Rightarrow> 't fb_state outcome" where
  "fb_do_oem v x cmd s =
     (case oem_command_to_id (drop 4 cmd) of
        Some OEM_STR_RAM \<Rightarrow>
          and_then (ramdump_oem x (drop 12 cmd) (storage_of s)) (\<lambda>(r, st).
            Ret (send (if r = 0 then ''OKAY'' else ''FAILunsupported command'') (s\<lparr>storage_of := st\<rparr>)))
      | Some OEM_REBOOT_DOWNLOAD \<Rightarrow> Ret (send ''OKAY'' (emit (Leave (Reboot ''reboot-download'')) (send ''OKAY'' s)))
      | Some OEM_ENABLE_MAINLINE_QUIRKS \<Rightarrow> oem_switch v lk3rd_switch_mainline_quirks True s
      | Some OEM_DISABLE_MAINLINE_QUIRKS \<Rightarrow> oem_switch v lk3rd_switch_mainline_quirks False s
      | Some OEM_ENABLE_KASLR \<Rightarrow> oem_switch v lk3rd_switch_kaslr_status True s
      | Some OEM_DISABLE_KASLR \<Rightarrow> oem_switch v lk3rd_switch_kaslr_status False s
      | None \<Rightarrow> Ret (send ''FAILunsupported command'' s))"

text \<open>The hexadecimal number in eight characters of a command.\<close>

definition hex_field :: "nat \<Rightarrow> string \<Rightarrow> nat" where
  "hex_field pos cmd = nat (fst (strtol (take 8 (drop pos cmd)) 16) mod 2 ^ 32)"

definition fb_do_diskinfo :: "string \<Rightarrow> 't fb_state \<Rightarrow> 't fb_state" where
  "fb_do_diskinfo cmd s = emit (Sync_Status (''BLKRANGE'' @ hex8 (hex_field 9 cmd) @ hex8 (hex_field 17 cmd))) s"

definition fb_do_partinfo :: "'t fb_ext \<Rightarrow> string \<Rightarrow> 't fb_state \<Rightarrow> 't fb_state" where
  "fb_do_partinfo x cmd s =
     emit (Sync_Status (''BLKRANGE'' @ hex8 (fst (stack_words x)) @ hex8 (snd (stack_words x)))) s"

text \<open>\<^verbatim>\<open>part_read_raw\<close> returns 0 and reads nothing.\<close>

definition start_diskdump :: "nat \<Rightarrow> nat \<Rightarrow> 't fb_state \<Rightarrow> nat \<times> 't fb_state" where
  "start_diskdump buf size_in_bytes s =
     (let size_in_secs = size_in_bytes div 512 in (size_in_secs, emit (Payload buf (mul32 size_in_secs 512)) s))"

definition fb_do_diskdump :: "string \<Rightarrow> 't fb_state \<Rightarrow> 't fb_state" where
  "fb_do_diskdump cmd s =
     (let n = hex_field 17 cmd; bytes = mul32 n 512; s = emit Event_Init s in
      if n = 0 then emit (Info ''FAILdata invalid size'') s
      else if CFG_FASTBOOT_TRANSFER_BUFFER_SIZE < bytes then
        emit (Info (''FAILdata too large: '' @ print_d (int bytes) @ '' > '' @
              print_d (int CFG_FASTBOOT_TRANSFER_BUFFER_SIZE))) s
      else
        let (done, s) = start_diskdump CFG_FASTBOOT_TRANSFER_BUFFER bytes (emit (Info ''OKAY'') s)
        in emit (Sync_Status (''BLKCOUNT'' @ hex8 done)) s)"

text \<open>Slots and the memory dump; the command is a string of bytes for these.\<close>

definition c_bytes :: "string \<Rightarrow> byte list" where
  "c_bytes cmd = map of_char cmd @ replicate (4096 - length cmd) 0"

definition set_active :: "fb_env \<Rightarrow> string \<Rightarrow> 't fb_state \<Rightarrow> 't fb_state outcome" where
  "set_active v cmd s =
     and_then (fb_do_set_active (boot_dev v) (pits v) (storage_of s) (raw_addr v) (raw_mem v) (c_bytes cmd))
       (\<lambda>(r, st). Ret (send r (s\<lparr>storage_of := st\<rparr>)))"

definition le64_at :: "byte list \<Rightarrow> nat \<Rightarrow> nat" where
  "le64_at m i = le32_at m i + le32_at m (i + 4) * 2 ^ 32"

definition start_ramdump :: "string \<Rightarrow> 't fb_state \<Rightarrow> 't fb_state" where
  "start_ramdump cmd s =
     (let hdr = c_bytes cmd in
      emit (Sync_Status ''OKAY'') (fastboot_set_payload_data USBDIR_IN (le64_at hdr 0) (le64_at hdr 8 mod 2 ^ 32) s))"

section \<open>Dispatch\<close>

definition cmd_list :: "fb_env \<Rightarrow> 't fb_ext \<Rightarrow> (string \<times> (string \<Rightarrow> 't fb_state \<Rightarrow> 't fb_state outcome)) list" where
  "cmd_list v x =
     [(''reboot'', \<lambda>cmd s. Ret (fb_do_reboot cmd s)),
      (''flash:'', fb_do_flash v),
      (''boot'', \<lambda>cmd. fb_do_boot v),
      (''continue'', \<lambda>cmd s. Ret (fb_do_continue s)),
      (''erase:'', fb_do_erase v),
      (''download:'', \<lambda>cmd s. Ret (fb_do_download cmd s)),
      (''ramdump:'', \<lambda>cmd s. Ret (fb_do_ramdump cmd s)),
      (''getvar:'', fb_do_getvar v x),
      (''set_active:'', set_active v),
      (''flashing'', \<lambda>cmd s. Ret (fb_do_flashing cmd s)),
      (''oem'', fb_do_oem v x),
      (''diskinfo:'', \<lambda>cmd s. Ret (fb_do_diskinfo cmd s)),
      (''partinfo:'', \<lambda>cmd s. Ret (fb_do_partinfo x cmd s)),
      (''diskdump:'', \<lambda>cmd s. Ret (fb_do_diskdump cmd s))]"

text \<open>The loop goes on after a command that matches.\<close>

fun run_matching ::
    "(string \<times> (string \<Rightarrow> 't fb_state \<Rightarrow> 't fb_state outcome)) list \<Rightarrow> string \<Rightarrow> 't fb_state \<Rightarrow> 't fb_state outcome" where
  "run_matching [] cmd s = Ret s"
| "run_matching ((name, handler) # rest) cmd s =
     (if starts name cmd then and_then (handler cmd s) (run_matching rest cmd) else run_matching rest cmd s)"

definition rx_handler :: "fb_env \<Rightarrow> 't fb_ext \<Rightarrow> string \<Rightarrow> 't fb_state \<Rightarrow> 't fb_state outcome" where
  "rx_handler v x buffer s =
     (if is_ramdump s then Ret (start_ramdump buffer (s\<lparr>is_ramdump := False\<rparr>))
      else run_matching (cmd_list v x) (takeWhile (\<lambda>c. code c \<noteq> 0) buffer) s)"

section \<open>One handler for each command\<close>

lemma starts_append [simp]: "starts name (name @ rest)"
  by (simp add: starts_def)

lemma starts_both: "starts a s \<Longrightarrow> starts b s \<Longrightarrow> starts a b \<or> starts b a"
  by (metis starts_def append_eq_append_conv2 append_eq_conv_conj append_take_drop_id)

lemma run_matching_none:
  "list_all (\<lambda>(n, h). \<not> starts n cmd) hs \<Longrightarrow> run_matching hs cmd s = Ret s"
  by (induction hs) auto

text \<open>Where no name begins another, the loop over the names runs at most one handler.\<close>

lemma run_matching_one:
  assumes "(n, h) \<in> set hs" and "starts n cmd" and "distinct (map fst hs)"
    and "\<forall>a \<in> set (map fst hs). \<forall>b \<in> set (map fst hs). starts a b \<longrightarrow> a = b"
  shows "run_matching hs cmd s = h cmd s"
  using assms
proof (induction hs)
  case Nil
  then show ?case by simp
next
  case (Cons e hs)
  obtain n' h' where e: "e = (n', h')" by (cases e)
  have free: "starts a b \<Longrightarrow> a = b" if "a \<in> set (map fst (e # hs))" and "b \<in> set (map fst (e # hs))" for a b
    using Cons.prems(4) that by blast
  have new: "n' \<notin> set (map fst hs)" using Cons.prems(3) e by simp
  have n: "n \<in> set (map fst (e # hs))" using image_eqI [OF _ Cons.prems(1), of n fst] by simp
  show ?case
  proof (cases "starts n' cmd")
    case True
    have same: "m = n'" if "m \<in> set (map fst (e # hs))" and "starts m cmd" for m
      using starts_both [OF that(2) True] free [OF that(1), of n'] free [of n' m] that(1) e by auto
    have nn: "n = n'" using same [OF n Cons.prems(2)] .
    have "(n, h) \<notin> set hs" using new nn image_eqI [of n fst "(n, h)" "set hs"] by auto
    then have h: "h = h'" using Cons.prems(1) e by auto
    have "\<not> starts m cmd" if "(m, k) \<in> set hs" for m k
      using same [of m] new image_eqI [OF _ that, of m fst] by auto
    then have "list_all (\<lambda>(n, h). \<not> starts n cmd) hs" by (auto simp: list_all_iff)
    then show ?thesis using True e h by (cases "h' cmd s") (simp_all add: run_matching_none)
  next
    case False
    then have "(n, h) \<in> set hs" using Cons.prems(1,2) e by auto
    moreover have "\<forall>a \<in> set (map fst hs). \<forall>b \<in> set (map fst hs). starts a b \<longrightarrow> a = b"
      by (intro ballI impI, rule free) simp_all
    ultimately have "run_matching hs cmd s = h cmd s"
      using Cons.IH Cons.prems(2,3) by (simp only: list.map distinct.simps)
    then show ?thesis using False e by simp
  qed
qed

definition command_names :: "string list" where
  "command_names = [''reboot'', ''flash:'', ''boot'', ''continue'', ''erase:'', ''download:'', ''ramdump:'', ''getvar:'',
     ''set_active:'', ''flashing'', ''oem'', ''diskinfo:'', ''partinfo:'', ''diskdump:'']"

lemma names_of_cmd_list [simp]: "map fst (cmd_list v x) = command_names"
  by (simp add: cmd_list_def command_names_def)

lemma command_names_prefix_free:
  "distinct command_names" "\<forall>a \<in> set command_names. \<forall>b \<in> set command_names. starts a b \<longrightarrow> a = b"
proof -
  show "distinct command_names" by code_simp
  have "list_all (\<lambda>a. list_all (\<lambda>b. starts a b \<longrightarrow> a = b) command_names) command_names" by code_simp
  then show "\<forall>a \<in> set command_names. \<forall>b \<in> set command_names. starts a b \<longrightarrow> a = b"
    unfolding list_all_iff .
qed

lemma run_command:
  assumes "(n, h) \<in> set (cmd_list v x)" and "starts n cmd"
  shows "run_matching (cmd_list v x) cmd s = h cmd s"
  using run_matching_one [OF assms, of s] command_names_prefix_free by (simp del: set_map)

lemma run_unknown:
  assumes "list_all (\<lambda>n. \<not> starts n cmd) command_names"
  shows "run_matching (cmd_list v x) cmd s = Ret s"
proof -
  have "list_all (\<lambda>n. \<not> starts n cmd) (map fst (cmd_list v x))" using assms by simp
  then have "list_all (\<lambda>(n, h). \<not> starts n cmd) (cmd_list v x)"
    by (simp only: list.pred_map o_def case_prod_unfold)
  then show ?thesis by (rule run_matching_none)
qed

lemma cut_c_string: "c_string cmd \<Longrightarrow> takeWhile (\<lambda>c. code c \<noteq> 0) cmd = cmd"
  by (auto simp: c_string_def takeWhile_eq_all_conv)

theorem rx_handler_dispatch:
  assumes "\<not> is_ramdump s" and "c_string cmd"
  shows "((n, h) \<in> set (cmd_list v x) \<and> starts n cmd \<longrightarrow> rx_handler v x cmd s = h cmd s)
    \<and> (list_all (\<lambda>n. \<not> starts n cmd) command_names \<longrightarrow> rx_handler v x cmd s = Ret s)"
  using assms run_command [of n h v x cmd s] run_unknown [of cmd v x s] by (simp add: rx_handler_def cut_c_string)

end
