(* ===== verification/Fastboot_Answers.thy ===== *)
theory Fastboot_Answers
  imports Fastboot_Cmds
begin

text \<open>
  Every fastboot command that is recognised answers the host: after any information messages it
  ends with exactly one final answer, or it leaves for good. The exceptions are a disk dump whose
  size is refused, which sends information only, and a command that is not recognised, which
  sends nothing.
\<close>

section \<open>Shapes of an answer\<close>

fun proper :: "act list \<Rightarrow> bool" where
  "proper [Status r] = True"
| "proper [Sync_Status r] = True"
| "proper (Status r # Leave c # as) = True"
| "proper (Sync_Status r # Leave c # as) = True"
| "proper (Info r # as) = proper as"
| "proper _ = False"

definition dump_shape :: "act list \<Rightarrow> bool" where
  "dump_shape as \<longleftrightarrow> (\<exists>i b n r. as = [Event_Init, Info i, Payload b n, Sync_Status r])"

text \<open>What a handler adds to the list of acts, and what it does to the phase of a transfer.\<close>

definition answers :: "'t fb_state \<Rightarrow> 't fb_state \<Rightarrow> bool" where
  "answers s s' \<longleftrightarrow>
     (\<exists>as. acts s' = acts s @ as \<and> proper as) \<and> (phase s' = phase s \<or> phase s' = PAYLOAD_START_MARK)"

text \<open>States that differ in neither.\<close>

definition silent :: "'t fb_state \<Rightarrow> 't fb_state \<Rightarrow> bool" where
  "silent s s' \<longleftrightarrow> acts s' = acts s \<and> phase s' = phase s"

lemma silent_refl [simp]: "silent s s"
  by (simp add: silent_def)

lemma answers_send [intro]: "silent s s' \<Longrightarrow> answers s (send r s')"
  by (auto simp: answers_def silent_def)

lemma answers_send_same [simp]: "answers s (send r s)"
  by (rule answers_send) simp

lemma answers_sync [intro]: "silent s s' \<Longrightarrow> answers s (emit (Sync_Status r) s')"
  by (auto simp: answers_def silent_def)

lemma answers_trans_quiet: "silent s s1 \<Longrightarrow> answers s1 s' \<Longrightarrow> answers s s'"
  by (auto simp: answers_def silent_def)

lemma proper_Info [simp]: "proper (map (Info \<circ> f) xs @ as) = proper as"
  by (induction xs) auto

lemma proper_not_Nil [simp]: "\<not> proper []"
  by simp

lemma silent_updates [simp]:
  "silent s (s'\<lparr>storage_of := st\<rparr>) = silent s s'" "silent s (s'\<lparr>xfer := m\<rparr>) = silent s s'"
  "silent s (s'\<lparr>update_seen := b\<rparr>) = silent s s'" "silent s (s'\<lparr>downloaded_data_size := n\<rparr>) = silent s s'"
  "silent s (s'\<lparr>download_size := n\<rparr>) = silent s s'" "silent s (s'\<lparr>is_ramdump := b\<rparr>) = silent s s'"
  "silent s (s'\<lparr>prot_req_rx_sz := n\<rparr>) = silent s s'"
  by (simp_all add: silent_def)

section \<open>Confirmation, erasing, flashing\<close>

lemma confirm_answers:
  assumes "fastboot_confirm_update s = Ret (c, s1)" and "answers s1 s'"
  shows "answers s s'"
proof -
  have "phase s1 = phase s \<and> (acts s1 = acts s \<or> (\<exists>r. acts s1 = acts s @ [Info r]))"
    using assms(1)
    by (auto simp: fastboot_confirm_update_def Let_def split: if_splits outcome.splits prod.splits bool.splits)
  then show ?thesis using assms(2) by (auto simp: answers_def)
qed

lemma confirm_send: "fastboot_confirm_update s = Ret (c, s1) \<Longrightarrow> silent s1 s2 \<Longrightarrow> answers s (send r s2)"
  by (rule confirm_answers) auto

lemma erase_answers:
  assumes "fb_do_erase v cmd s = Ret s'"
  shows "answers s s'"
  using assms unfolding fb_do_erase_def Let_def
  by (auto split: if_splits outcome.splits prod.splits intro: confirm_send)

lemma flash_and_report_answers:
  assumes "flash_and_report v dest s = Ret s'"
  shows "answers s s'"
  using assms unfolding flash_and_report_def by (auto split: outcome.splits prod.splits)

lemma load_lk3rd_quiet:
  assumes "load_lk3rd v s = Ret (xs, e, s')"
  shows "silent s s'"
  using assms unfolding load_lk3rd_def by (auto split: outcome.splits prod.splits option.splits simp: silent_def)

lemma restore_settings_quiet:
  assumes "restore_settings v xs s = Ret s'"
  shows "silent s s'"
  using assms unfolding restore_settings_def by (auto split: outcome.splits prod.splits simp: silent_def)

lemma silent_trans: "silent a b \<Longrightarrow> silent b c \<Longrightarrow> silent a c"
  by (simp add: silent_def)

lemma flash_boot_answers:
  assumes "flash_boot v s = Ret s'"
  shows "answers s s'"
proof -
  obtain xs e s1 where l: "load_lk3rd v s = Ret (xs, e, s1)"
    using assms by (auto simp: flash_boot_def split: outcome.splits)
  have q: "silent s s1" using load_lk3rd_quiet [OF l] .
  have "answers s1 s'"
  proof (cases "\<not> has_magic (xfer s1) \<or> \<not> has_magic (boot_buf (xfer s1))")
    case True
    then show ?thesis using assms l flash_and_report_answers by (simp add: flash_boot_def)
  next
    case False
    let ?s2 = "s1\<lparr>xfer := set_boot_buf (xfer s1) (patch_os_version (boot_buf (xfer s1)) (xfer s1))\<rparr>"
    obtain st s3 s4 where r: "restore_settings v xs (?s2\<lparr>storage_of := st\<rparr>) = Ret s3"
      and s4: "silent s3 s4" "flash_and_report v ''boot'' s4 = Ret s'"
      using assms l False
      by (auto simp: flash_boot_def Let_def split: outcome.splits prod.splits option.splits if_splits)
        (metis silent_refl silent_updates(4))+
    have "silent ?s2 s3" using restore_settings_quiet [OF r] by (simp add: silent_def)
    then have "silent s1 s4" using s4(1) by (simp add: silent_def)
    then show ?thesis using flash_and_report_answers [OF s4(2)] answers_trans_quiet by blast
  qed
  then show ?thesis using answers_trans_quiet [OF q] by blast
qed

lemma flash_lk3rd_answers:
  assumes "flash_lk3rd v s = Ret s'"
  shows "answers s s'"
proof -
  obtain xs e s1 where l: "load_lk3rd v s = Ret (xs, e, s1)"
    using assms by (auto simp: flash_lk3rd_def split: outcome.splits)
  have q: "silent s s1" using load_lk3rd_quiet [OF l] .
  have "answers s1 s'"
    using assms l
    by (auto simp: flash_lk3rd_def Let_def silent_def split: outcome.splits prod.splits if_splits
        intro!: answers_send dest!: restore_settings_quiet intro: flash_and_report_answers)
  then show ?thesis using answers_trans_quiet [OF q] by blast
qed

lemma flash_answers:
  assumes "fb_do_flash v cmd s = Ret s'"
  shows "answers s s'"
  using assms unfolding fb_do_flash_def Let_def
  by (auto split: if_splits outcome.splits prod.splits
      intro: confirm_answers confirm_send flash_boot_answers flash_lk3rd_answers flash_and_report_answers)

section \<open>The other commands\<close>

lemma ask_slot_answers:
  assumes "ask_slot v ask f arg s = Ret s'"
  shows "answers s s'"
  using assms by (auto simp: ask_slot_def and_then_Ret split: option.splits prod.splits)

lemma partition_size_answers:
  assumes "getvar_partition_size v cmd s = Ret s'"
  shows "answers s s'"
  using assms by (auto simp: getvar_partition_size_def Let_def and_then_Ret split: if_splits)

lemma partition_type_answers:
  assumes "getvar_partition_type v cmd s = Ret s'"
  shows "answers s s'"
  using assms
  by (auto simp: getvar_partition_type_def Let_def and_then_Ret split: if_splits option.splits
      intro: partition_size_answers)

lemma has_slot_answers:
  assumes "getvar_has_slot v name s = Ret s'"
  shows "answers s s'"
  using assms by (auto simp: getvar_has_slot_def Let_def and_then_Ret split: if_splits)

lemma all_answers: "answers s (getvar_all vars s)"
proof (cases vars)
  case None
  then show ?thesis by (auto simp: getvar_all_def)
next
  case (Some vs)
  let ?f = "\<lambda>(name, val). emit (Info (''INFO'' @ name @ '':'' @ val))"
  let ?line = "\<lambda>(name, val). ''INFO'' @ name @ '':'' @ val"
  have "acts (fold ?f vs s) = acts s @ map Info (map ?line vs) \<and> phase (fold ?f vs s) = phase s"
    by (induction vs arbitrary: s) (auto simp: split_beta)
  then show ?thesis using Some by (auto simp: getvar_all_def answers_def)
qed

lemma getvar_answers:
  assumes "fb_do_getvar v x cmd s = Ret s'"
  shows "answers s s'"
proof -
  let ?s = "if drop 7 cmd = ''version-bootloader'' then s\<lparr>update_seen := True\<rparr> else s"
  have q: "silent s ?s" by simp
  have "answers ?s s'"
    using assms
    by (cases "fastboot_variable_to_id (drop 7 cmd)" rule: option.exhaust)
      (auto simp: fb_do_getvar_def Let_def and_then_Ret
        split: fastboot_variable_id.splits option.splits prod.splits if_splits
        intro: ask_slot_answers partition_size_answers partition_type_answers has_slot_answers all_answers)
  then show ?thesis using answers_trans_quiet [OF q] by blast
qed

lemma oem_switch_answers:
  assumes "oem_switch v sw on s = Ret s'"
  shows "answers s s'"
  using assms by (auto simp: oem_switch_def and_then_Ret split: prod.splits)

lemma oem_answers:
  assumes "fb_do_oem v x cmd s = Ret s'"
  shows "answers s s'"
proof -
  have reboot: "answers s (send r (emit (Leave c) (send r' s)))" for r c r'
    by (simp add: answers_def)
  show ?thesis
    using assms
    by (auto simp: fb_do_oem_def and_then_Ret split: option.splits oem_commands_id.splits prod.splits
        intro: oem_switch_answers reboot)
qed

lemma boot_answers:
  assumes "fb_do_boot v s = Ret s'"
  shows "answers s s'"
  using assms by (auto simp: fb_do_boot_def Let_def and_then_Ret answers_def)

lemma simple_answers:
  "answers s (fb_do_reboot cmd s)" "answers s (fb_do_continue s)" "answers s (fb_do_ramdump cmd s)"
  "answers s (fb_do_flashing cmd s)" "answers s (fb_do_diskinfo cmd s)" "answers s (fb_do_partinfo x cmd s)"
  "answers s (fb_do_download cmd s)" "answers s (start_ramdump cmd s)"
  by (auto simp: fb_do_reboot_def fb_do_continue_def fb_do_ramdump_def fb_do_flashing_def fb_do_diskinfo_def
      fb_do_partinfo_def fb_do_download_def start_ramdump_def fastboot_set_payload_data_def fasboot_set_rx_sz_def
      answers_def Let_def)

lemma set_active_answers:
  assumes "set_active v cmd s = Ret s'"
  shows "answers s s'"
  using assms by (auto simp: set_active_def and_then_Ret split: prod.splits)

text \<open>A dump of the disk whose size is accepted.\<close>

definition dump_accepted :: "string \<Rightarrow> bool" where
  "dump_accepted cmd \<longleftrightarrow> hex_field 17 cmd \<noteq> 0 \<and> mul32 (hex_field 17 cmd) 512 \<le> CFG_FASTBOOT_TRANSFER_BUFFER_SIZE"

lemma diskdump_acts:
  assumes "dump_accepted cmd"
  shows "\<exists>as. acts (fb_do_diskdump cmd s) = acts s @ as \<and> dump_shape as" and "phase (fb_do_diskdump cmd s) = phase s"
  using assms by (auto simp: fb_do_diskdump_def start_diskdump_def dump_accepted_def dump_shape_def Let_def)

section \<open>All commands\<close>

text \<open>A command the dispatcher knows, other than a dump that is refused.\<close>

definition answerable :: "string \<Rightarrow> bool" where
  "answerable cmd \<longleftrightarrow>
     list_ex (\<lambda>n. starts n cmd) command_names \<and> (starts ''diskdump:'' cmd \<longrightarrow> dump_accepted cmd)"

lemma rx_handler_answers:
  assumes "rx_handler v x buffer s = Ret s'" and "acts s = []"
    and "is_ramdump s \<or> answerable (takeWhile (\<lambda>c. code c \<noteq> 0) buffer)"
  shows "(proper (acts s') \<or> dump_shape (acts s')) \<and> (phase s' = phase s \<or> phase s' = PAYLOAD_START_MARK)"
proof -
  have fin: ?thesis if "answers s s'"
    using that assms(2) by (auto simp: answers_def)
  let ?cmd = "takeWhile (\<lambda>c. code c \<noteq> 0) buffer"
  show ?thesis
  proof (cases "is_ramdump s")
    case True
    then have "answers (s\<lparr>is_ramdump := False\<rparr>) s'"
      using assms(1) simple_answers(8) [of "s\<lparr>is_ramdump := False\<rparr>" buffer] by (simp add: rx_handler_def)
    then show ?thesis using fin by (simp add: answers_def)
  next
    case False
    then have a: "answerable ?cmd" using assms(3) by simp
    then obtain n where n: "n \<in> set command_names" "starts n ?cmd" by (auto simp: answerable_def list_ex_iff)
    then have "n \<in> set (map fst (cmd_list v x))" by simp
    then obtain h where h: "(n, h) \<in> set (cmd_list v x)" unfolding set_map by force
    then have r: "h ?cmd s = Ret s'"
      using assms(1) False run_command [OF h n(2), of s] by (simp add: rx_handler_def)
    show ?thesis
    proof (cases "n = ''diskdump:''")
      case True
      then have "dump_accepted ?cmd" using a n(2) by (simp add: answerable_def)
      moreover have "s' = fb_do_diskdump ?cmd s" using h r True by (auto simp: cmd_list_def)
      ultimately show ?thesis using diskdump_acts [of ?cmd s] assms(2) by auto
    next
      case False
      then have "answers s s'"
        using h r
        by (auto simp: cmd_list_def intro: simple_answers flash_answers erase_answers boot_answers getvar_answers set_active_answers
            oem_answers)
      then show ?thesis by (rule fin)
    qed
  qed
qed

section \<open>The host that announces an update\<close>

lemma release_keys: "fastboot_wait_for_key_release ks = Ret ks' \<Longrightarrow> set ks' \<subseteq> set ks"
  by (induction ks rule: fastboot_wait_for_key_release.induct) (auto split: if_splits)

lemma confirm_key: "confirm_loop ks = Ret (True, ks') \<Longrightarrow> \<exists>d p. (True, d, p) \<in> set ks"
  by (induction ks rule: confirm_loop.induct) (auto split: if_splits)

lemma confirmed_by_key:
  assumes "fastboot_confirm_update s = Ret (0, s')" and "update_seen s" and "\<not> update_confirmed s"
  shows "\<exists>d p. (True, d, p) \<in> set (key_samples s)"
proof -
  obtain ks ks' where "fastboot_wait_for_key_release (key_samples s) = Ret ks" "confirm_loop ks = Ret (True, ks')"
    using assms
    by (auto simp: fastboot_confirm_update_def Let_def emit_def split: outcome.splits prod.splits bool.splits)
  then show ?thesis using release_keys confirm_key by blast
qed

text \<open>The update tool of the host asks for the version of the boot loader first. After that nothing is
flashed unless the volume key is pressed on the device.\<close>

theorem update_needs_key:
  assumes "fb_do_getvar v x ''getvar:version-bootloader'' s = Ret s1" and "\<not> update_confirmed s"
    and "fb_do_flash v cmd s1 = Ret s2" and "storage_of s2 \<noteq> storage_of s1"
  shows "\<exists>d p. (True, d, p) \<in> set (key_samples s1)"
proof -
  have "fastboot_variable_to_id ''version-bootloader'' = Some VERSION" by code_simp
  then have seen: "update_seen s1" "\<not> update_confirmed s1"
    using assms(1,2) by (auto simp: fb_do_getvar_def Let_def emit_def)
  obtain c s' where c: "fastboot_confirm_update s1 = Ret (c, s')"
    using assms(3,4) by (auto simp: fb_do_flash_def Let_def split: if_splits outcome.splits)
  have "c = 0"
    using assms(3,4) c confirm_keeps [OF c] by (auto simp: fb_do_flash_def Let_def split: if_splits)
  then show ?thesis using confirmed_by_key c seen by blast
qed

end
