(* ===== verification/Fastboot_Usb.thy ===== *)
theory Fastboot_Usb
  imports Fastboot_Answers
begin

text \<open>
  The USB function of fastboot, \<^verbatim>\<open>dev/usb/device/fastboot/fastboot-device.c\<close>: a thread that executes
  the commands received and sends their answers, and the interrupts of the two bulk endpoints. An
  endpoint is given a buffer and reports when the transfer is over; sending waits for the
  event that the interrupt signals. The answers a command still has to send are the list
  \<open>thread\<close>; \<open>waiting\<close> says that the first of them is under way and its call waits for the event.
\<close>

datatype rx_buffer = Cmd_Buf | Data_Buf nat

definition RX_CMD_BUF_SIZE :: nat where "RX_CMD_BUF_SIZE = 4096"

record 't usb =
  core :: "'t fb_state"
  tx_sts_done :: bool
  just_info :: bool
  tx_done_event :: bool
  rx_done_event :: bool
  bulk_in :: "act option"
  bulk_out :: "(rx_buffer \<times> nat) option"
  rx_cmd_buf :: string
  rx_sz :: nat
  thread :: "act list"
  waiting :: bool

section \<open>The code\<close>

definition ready_to_rx_cmd :: "'t usb \<Rightarrow> 't usb" where
  "ready_to_rx_cmd u =
     (let n = prot_req_rx_sz (core u) in u\<lparr>bulk_out := Some (Cmd_Buf, if n \<noteq> 0 then n else 64)\<rparr>)"

definition do_payload :: "'t usb \<Rightarrow> 't usb" where
  "do_payload u =
     (let s = (core u)\<lparr>phase := PAYLOAD_IN_PROGRESS\<rparr>; u = u\<lparr>core := s\<rparr> in
      if payload_dir s = USBDIR_IN
      then u\<lparr>tx_sts_done := True, bulk_in := Some (Payload (payload_buf s) (payload_req_len s))\<rparr>
      else u\<lparr>bulk_out := Some (Data_Buf (payload_buf s), payload_req_len s)\<rparr>)"

definition check_payload_done :: "nat \<Rightarrow> 't usb \<Rightarrow> 't usb" where
  "check_payload_done xfer_sz u =
     (let s = fb_cmd_set_downloaded_sz xfer_sz (core u);
          s = s\<lparr>payload_req_len := payload_req_len s - xfer_sz\<rparr>
      in if payload_req_len s = 0 then
           let u = u\<lparr>core := s\<lparr>phase := PAYLOAD_NONE\<rparr>\<rparr> in
           if payload_dir s = USBDIR_OUT then u\<lparr>thread := thread u @ [Status ''OKAY'']\<rparr> else ready_to_rx_cmd u
         else do_payload (u\<lparr>core := s\<lparr>payload_buf := add64 (payload_buf s) xfer_sz\<rparr>\<rparr>))"

text \<open>The interrupt at the end of a transfer to the host; \<open>sz\<close> is what the endpoint reports.\<close>

definition tx_status_callback :: "nat \<Rightarrow> 't usb \<Rightarrow> 't usb" where
  "tx_status_callback sz u =
     (let u = u\<lparr>bulk_in := None, tx_sts_done := False, tx_done_event := True\<rparr> in
      if just_info u then u\<lparr>just_info := False\<rparr>
      else if phase (core u) = PAYLOAD_NONE then ready_to_rx_cmd u
      else if phase (core u) = PAYLOAD_START_MARK then do_payload u
      else check_payload_done sz u)"

text \<open>Sending: the wait for the last transmission, then the start of the new one. Nothing means
that the thread has to wait.\<close>

definition await_last_tx :: "'t usb \<Rightarrow> 't usb option" where
  "await_last_tx u =
     (if \<not> tx_sts_done u then Some u else if tx_done_event u then Some (u\<lparr>tx_done_event := False\<rparr>) else None)"

definition await_tx_done :: "'t usb \<Rightarrow> 't usb option" where
  "await_tx_done u =
     (if tx_done_event u then Some (u\<lparr>tx_done_event := False, waiting := False, thread := tl (thread u)\<rparr>) else None)"

definition fastboot_send_info :: "act \<Rightarrow> 't usb \<Rightarrow> 't usb option" where
  "fastboot_send_info a u =
     map_option (\<lambda>u. u\<lparr>tx_sts_done := True, just_info := True, bulk_in := Some a, waiting := True\<rparr>) (await_last_tx u)"

definition fastboot_send_payload :: "act \<Rightarrow> 't usb \<Rightarrow> 't usb option" where
  "fastboot_send_payload a u = Some (u\<lparr>just_info := True, bulk_in := Some a, waiting := True\<rparr>)"

definition fastboot_send_status :: "bool \<Rightarrow> act \<Rightarrow> 't usb \<Rightarrow> 't usb option" where
  "fastboot_send_status sync a u =
     map_option (\<lambda>u. if sync then u\<lparr>tx_sts_done := True, bulk_in := Some a, waiting := True\<rparr>
                     else u\<lparr>tx_sts_done := True, bulk_in := Some a, thread := tl (thread u)\<rparr>) (await_last_tx u)"

definition fastboot_tx_event_init :: "'t usb \<Rightarrow> 't usb" where
  "fastboot_tx_event_init u = u\<lparr>tx_done_event := False, thread := tl (thread u)\<rparr>"

text \<open>The next step of the thread inside a command. A call that leaves fastboot is its last.\<close>

definition thread_step :: "'t usb \<Rightarrow> 't usb option" where
  "thread_step u =
     (case thread u of
        [] \<Rightarrow> None
      | a # as \<Rightarrow>
          if waiting u then await_tx_done u
          else (case a of
                  Info r \<Rightarrow> fastboot_send_info a u
                | Status r \<Rightarrow> fastboot_send_status False a u
                | Sync_Status r \<Rightarrow> fastboot_send_status True a u
                | Payload b n \<Rightarrow> fastboot_send_payload a u
                | Event_Init \<Rightarrow> Some (fastboot_tx_event_init u)
                | Leave c \<Rightarrow> None))"

text \<open>One round of the thread's loop, for a transfer that has been received.\<close>

definition wait_rx_done :: "fb_env \<Rightarrow> 't fb_ext \<Rightarrow> 't usb \<Rightarrow> 't usb outcome" where
  "wait_rx_done v x u =
     (let u = u\<lparr>rx_done_event := False\<rparr> in
      if phase (core u) = PAYLOAD_IN_PROGRESS then Ret (check_payload_done (rx_sz u) u)
      else and_then (rx_handler v x (rx_cmd_buf u) ((core u)\<lparr>prot_req_rx_sz := 0\<rparr>)) (\<lambda>s.
        Ret (u\<lparr>core := s\<lparr>acts := []\<rparr>, thread := acts s, rx_cmd_buf := []\<rparr>)))"

text \<open>The end of a transfer from the host. Data for the command buffer, which has 4096 bytes, or for
the transfer buffer that does not fit there destroys other memory.\<close>

definition rx_callback :: "string \<Rightarrow> 't usb \<Rightarrow> 't usb outcome" where
  "rx_callback data u =
     (let n = length data; u' = u\<lparr>bulk_out := None, rx_done_event := True, rx_sz := n\<rparr> in
      case bulk_out u of
        None \<Rightarrow> Fault
      | Some (Cmd_Buf, len) \<Rightarrow> if n \<le> RX_CMD_BUF_SIZE then Ret (u'\<lparr>rx_cmd_buf := data\<rparr>) else Fault
      | Some (Data_Buf addr, len) \<Rightarrow>
          let s = core u; pos = addr - CFG_FASTBOOT_TRANSFER_BUFFER in
          if CFG_FASTBOOT_TRANSFER_BUFFER \<le> addr \<and> pos + n \<le> length (xfer s)
          then Ret (u'\<lparr>core := s\<lparr>xfer := splice_at (xfer s) pos (map of_char data)\<rparr>\<rparr>) else Fault)"

definition fastboot_config :: "'t usb \<Rightarrow> 't usb" where
  "fastboot_config u = ready_to_rx_cmd (u\<lparr>tx_sts_done := False\<rparr>)"

text \<open>The state after \<^verbatim>\<open>fasboot_probe\<close>.\<close>

definition fasboot_probe :: "'t fb_state \<Rightarrow> 't usb" where
  "fasboot_probe s =
     \<lparr>core = s\<lparr>phase := PAYLOAD_NONE, prot_req_rx_sz := 0, acts := [], is_ramdump := False\<rparr>,
      tx_sts_done = False, just_info = False, tx_done_event = False, rx_done_event = False, bulk_in = None,
      bulk_out = None, rx_cmd_buf = [], rx_sz = 0, thread = [], waiting = False\<rparr>"

section \<open>Runs\<close>

text \<open>
  Steps of the device on its own: the thread inside a command, and the end of a transfer to the
  host, which takes some bytes of a block of memory, unless it is empty.
\<close>

inductive device_step :: "'t usb \<Rightarrow> 't usb \<Rightarrow> bool" where
  run: "thread_step u = Some u' \<Longrightarrow> device_step u u'"
| tx: "bulk_in u \<noteq> None \<Longrightarrow> payload_req_len (core u) = 0 \<or> 0 < sz \<Longrightarrow> device_step u (tx_status_callback sz u)"

inductive_cases device_stepE: "device_step u u'"

text \<open>What the host may send: with the command buffer in place, a command that gets an answer.\<close>

definition host_ok :: "'t usb \<Rightarrow> string \<Rightarrow> bool" where
  "host_ok u data \<longleftrightarrow>
     (case bulk_out u of
        Some (Cmd_Buf, len) \<Rightarrow>
          length data \<le> len \<and> (is_ramdump (core u) \<or> answerable (takeWhile (\<lambda>c. code c \<noteq> 0) data))
      | Some (Data_Buf addr, len) \<Rightarrow> length data \<le> len
      | None \<Rightarrow> False)"

inductive reach :: "fb_env \<Rightarrow> 't fb_ext \<Rightarrow> 't usb \<Rightarrow> bool" for v x where
  start: "reach v x (fastboot_config (fasboot_probe s))"
| device: "reach v x u \<Longrightarrow> device_step u u' \<Longrightarrow> reach v x u'"
| host: "reach v x u \<Longrightarrow> host_ok u data \<Longrightarrow> rx_callback data u = Ret u' \<Longrightarrow> reach v x u'"
| exec: "reach v x u \<Longrightarrow> rx_done_event u \<Longrightarrow> thread u = [] \<Longrightarrow> wait_rx_done v x u = Ret u' \<Longrightarrow> reach v x u'"

end
