(* ===== verification/Fastboot_Ready.thy ===== *)
theory Fastboot_Ready
  imports Fastboot_Usb
begin

text \<open>
  The fastboot function listens again after every command. The invariant says in which of five
  situations the function is: sending a command's answers, waiting for the end of the final
  answer, sending a block of memory, listening, or with something received that the thread has
  yet to look at.
\<close>

section \<open>Situations\<close>

definition after_answer :: "act list \<Rightarrow> bool" where
  "after_answer as \<longleftrightarrow> (case as of [] \<Rightarrow> True | Leave c # _ \<Rightarrow> True | _ \<Rightarrow> False)"

definition winding_down :: "'t usb \<Rightarrow> bool" where
  "winding_down u \<longleftrightarrow>
     (if waiting u then (\<exists>r as. thread u = Sync_Status r # as \<and> after_answer as) else after_answer (thread u))"

definition dump_rest :: "act list \<Rightarrow> bool" where
  "dump_rest as \<longleftrightarrow> (\<exists>i b n r. as = [Info i, Payload b n, Sync_Status r] \<or> as = [Payload b n, Sync_Status r])"

definition sending :: "'t usb \<Rightarrow> bool" where
  "sending u \<longleftrightarrow>
     bulk_out u = None \<and> \<not> rx_done_event u \<and> phase (core u) \<noteq> PAYLOAD_IN_PROGRESS
     \<and> (tx_sts_done u \<longrightarrow> bulk_in u \<noteq> None) \<and> (just_info u \<longleftrightarrow> bulk_in u \<noteq> None)
     \<and> (if waiting u
        then (\<exists>r as. thread u = Info r # as \<and> proper as) \<and> (tx_done_event u \<or> bulk_in u \<noteq> None)
               \<and> (bulk_in u \<noteq> None \<longrightarrow> tx_sts_done u)
           \<or> dump_rest (thread u) \<and> (tx_done_event u \<longleftrightarrow> bulk_in u = None)
        else proper (thread u) \<and> (bulk_in u \<noteq> None \<longrightarrow> tx_sts_done u \<and> \<not> tx_done_event u)
           \<or> dump_shape (thread u) \<and> bulk_in u = None
           \<or> dump_rest (thread u) \<and> bulk_in u = None \<and> \<not> tx_done_event u)"

definition answering :: "'t usb \<Rightarrow> bool" where
  "answering u \<longleftrightarrow>
     bulk_in u \<noteq> None \<and> \<not> just_info u \<and> winding_down u \<and> bulk_out u = None \<and> \<not> rx_done_event u
     \<and> phase (core u) \<noteq> PAYLOAD_IN_PROGRESS"

definition dumping :: "'t usb \<Rightarrow> bool" where
  "dumping u \<longleftrightarrow>
     bulk_in u \<noteq> None \<and> \<not> just_info u \<and> winding_down u \<and> (waiting u \<longrightarrow> tx_done_event u)
     \<and> bulk_out u = None \<and> \<not> rx_done_event u \<and> phase (core u) = PAYLOAD_IN_PROGRESS \<and> payload_dir (core u) = USBDIR_IN"

definition at_rest :: "'t usb \<Rightarrow> bool" where
  "at_rest u \<longleftrightarrow>
     bulk_in u = None \<and> \<not> just_info u \<and> \<not> tx_sts_done u \<and> winding_down u \<and> (waiting u \<longrightarrow> tx_done_event u)"

definition listening :: "'t usb \<Rightarrow> bool" where
  "listening u \<longleftrightarrow>
     at_rest u \<and> \<not> rx_done_event u
     \<and> ((\<exists>len. bulk_out u = Some (Cmd_Buf, len)) \<and> phase (core u) = PAYLOAD_NONE
        \<or> (\<exists>a len. bulk_out u = Some (Data_Buf a, len)) \<and> phase (core u) = PAYLOAD_IN_PROGRESS
            \<and> payload_dir (core u) = USBDIR_OUT)"

definition received :: "'t usb \<Rightarrow> bool" where
  "received u \<longleftrightarrow>
     at_rest u \<and> rx_done_event u \<and> bulk_out u = None
     \<and> (phase (core u) = PAYLOAD_NONE
          \<and> (is_ramdump (core u) \<or> answerable (takeWhile (\<lambda>c. code c \<noteq> 0) (rx_cmd_buf u)))
        \<or> phase (core u) = PAYLOAD_IN_PROGRESS \<and> payload_dir (core u) = USBDIR_OUT)"

definition usb_inv :: "'t usb \<Rightarrow> bool" where
  "usb_inv u \<longleftrightarrow>
     acts (core u) = [] \<and> (sending u \<or> answering u \<or> dumping u \<or> listening u \<or> received u)"

lemmas usb_defs = ready_to_rx_cmd_def do_payload_def check_payload_done_def tx_status_callback_def
  fb_cmd_set_downloaded_sz_def Let_def

lemmas send_defs = thread_step_def await_tx_done_def await_last_tx_def fastboot_send_info_def
  fastboot_send_payload_def fastboot_send_status_def fastboot_tx_event_init_def

text \<open>How much the device has to do on its own before it rests.\<close>

definition work :: "'t usb \<Rightarrow> nat" where
  "work u =
     4 * length (thread u) + (if bulk_in u = None then 0 else 1)
     + (if phase (core u) = PAYLOAD_START_MARK then 2 else 0)
     + (if payload_dir (core u) = USBDIR_IN \<and> phase (core u) \<noteq> PAYLOAD_NONE then payload_req_len (core u) else 0)
     - (if waiting u then 2 else 0)"

section \<open>Steps of the device\<close>

lemma usb_dir_not [simp]: "d \<noteq> USBDIR_IN \<longleftrightarrow> d = USBDIR_OUT"
  by (cases d) auto

lemma after_answer_simps [simp]: "after_answer []" "after_answer (Leave c # as)"
  "\<not> after_answer (Sync_Status r # as)"
  by (simp_all add: after_answer_def)

lemma after_answer_stuck: "after_answer (thread u) \<Longrightarrow> \<not> waiting u \<Longrightarrow> thread_step u = None"
  by (auto simp: after_answer_def thread_step_def split: list.splits act.splits)

lemma winding_step:
  assumes "winding_down u" and "thread_step u = Some u'"
  shows "waiting u \<and> tx_done_event u \<and> winding_down u' \<and> work u' < work u
    \<and> u' = u\<lparr>tx_done_event := False, waiting := False, thread := tl (thread u)\<rparr>"
proof (cases "waiting u")
  case True
  then obtain r as where t: "thread u = Sync_Status r # as" "after_answer as"
    using assms(1) by (auto simp: winding_down_def)
  have "tx_done_event u" and u': "u' = u\<lparr>tx_done_event := False, waiting := False, thread := tl (thread u)\<rparr>"
    using assms(2) True t(1) by (simp_all add: thread_step_def await_tx_done_def split: if_splits)
  moreover have "winding_down u'" using t by (simp add: winding_down_def u')
  moreover have "work u' < work u" using True t(1) by (simp add: work_def u')
  ultimately show ?thesis using True by blast
next
  case False
  then show ?thesis using assms after_answer_stuck [of u] by (simp add: winding_down_def)
qed

lemma rest_step:
  assumes "listening u \<or> received u" and "device_step u u'"
  shows "(listening u \<longrightarrow> listening u') \<and> (received u \<longrightarrow> received u') \<and> work u' < work u \<and> acts (core u') = acts (core u)"
proof -
  have r: "at_rest u" using assms(1) by (auto simp: listening_def received_def)
  have s: "thread_step u = Some u'"
    using assms(2) r by (cases rule: device_stepE) (auto simp: at_rest_def)
  have "winding_down u" using r by (simp add: at_rest_def)
  from winding_step [OF this s] show ?thesis using r by (auto simp: listening_def received_def at_rest_def)
qed

lemma dumping_step:
  assumes "dumping u" and "device_step u u'" and "acts (core u) = []"
  shows "usb_inv u' \<and> work u' < work u"
  using assms(2)
proof cases
  case run
  have "winding_down u" using assms(1) by (simp add: dumping_def)
  from winding_step [OF this run] show ?thesis using assms(1,3) by (auto simp: usb_inv_def dumping_def)
next
  case (tx sz)
  then show ?thesis
    using assms(1,3)
    by (auto simp: usb_inv_def dumping_def listening_def at_rest_def winding_down_def work_def usb_defs)
qed

lemma answering_step:
  assumes "answering u" and "device_step u u'" and "acts (core u) = []"
  shows "usb_inv u' \<and> work u' < work u"
  using assms(2)
proof cases
  case run
  have "winding_down u" using assms(1) by (simp add: answering_def)
  from winding_step [OF this run] show ?thesis using assms(1,3) by (auto simp: usb_inv_def answering_def)
next
  case (tx sz)
  then show ?thesis
    using assms(1,3)
    by (cases "phase (core u)")
      (auto simp: usb_inv_def answering_def dumping_def listening_def at_rest_def winding_down_def work_def usb_defs)
qed

text \<open>The first act of a command that will be answered.\<close>

lemma proper_first:
  assumes "proper as"
  shows "(\<exists>r rest. as = Status r # rest \<and> after_answer rest) \<or> (\<exists>r rest. as = Sync_Status r # rest \<and> after_answer rest)
    \<or> (\<exists>r rest. as = Info r # rest \<and> proper rest)"
  using assms by (cases as rule: proper.cases) auto

lemma sending_tx:
  assumes "sending u" and "bulk_in u \<noteq> None"
  shows "sending (tx_status_callback sz u)" and "work (tx_status_callback sz u) < work u"
    and "core (tx_status_callback sz u) = core u"
proof -
  have j: "just_info u" using assms by (simp add: sending_def)
  then have c: "tx_status_callback sz u = u\<lparr>bulk_in := None, tx_sts_done := False, tx_done_event := True, just_info := False\<rparr>"
    by (simp add: tx_status_callback_def)
  then show "core (tx_status_callback sz u) = core u" by simp
  have "waiting u \<Longrightarrow> 0 < length (thread u)" using assms(1) by (auto simp: sending_def dump_rest_def)
  moreover obtain a where "bulk_in u = Some a" using assms(2) by blast
  ultimately show "work (tx_status_callback sz u) < work u"
    by (cases "waiting u"; cases "thread u") (simp_all add: c work_def)
  show "sending (tx_status_callback sz u)" using assms unfolding c sending_def by (cases "waiting u") (simp_all, blast)
qed

lemma sending_wait:
  assumes "sending u" and "waiting u" and "thread_step u = Some u'"
  shows "sending u' \<and> work u' < work u \<and> core u' = core u"
proof -
  have ne: "thread u \<noteq> []" using assms(1,2) by (auto simp: sending_def dump_rest_def)
  have d: "tx_done_event u" and u': "u' = u\<lparr>tx_done_event := False, waiting := False, thread := tl (thread u)\<rparr>"
    using assms(2,3) ne by (simp_all add: thread_step_def await_tx_done_def split: list.splits if_splits)
  have "work u' < work u" using ne assms(2) by (cases "thread u") (simp_all add: work_def u')
  moreover have "sending u'"
  proof (cases "dump_rest (thread u) \<and> (tx_done_event u \<longleftrightarrow> bulk_in u = None)")
    case True
    then have "proper (tl (thread u)) \<or> dump_rest (tl (thread u))" by (auto simp: dump_rest_def)
    then show ?thesis using assms(1,2) True d by (auto simp: sending_def u')
  next
    case False
    then obtain r as where "thread u = Info r # as" "proper as" "bulk_in u \<noteq> None \<longrightarrow> tx_sts_done u"
      using assms(1,2) by (auto simp: sending_def)
    then show ?thesis using assms(1,2) by (simp add: sending_def u')
  qed
  ultimately show ?thesis by (simp add: u')
qed

lemma sending_proper:
  assumes "sending u" and "\<not> waiting u" and "proper (thread u)"
    and "bulk_in u \<noteq> None \<longrightarrow> tx_sts_done u \<and> \<not> tx_done_event u" and "thread_step u = Some u'"
  shows "(sending u' \<or> answering u') \<and> work u' < work u \<and> core u' = core u"
proof -
  have free: "bulk_in u = None" if "await_last_tx u \<noteq> None" using that assms(4) by (auto simp: await_last_tx_def)
  have idle: "await_last_tx u = Some u" "\<not> just_info u" if "bulk_in u = None"
    using that assms(1) by (auto simp: sending_def await_last_tx_def)
  have "await_last_tx u \<noteq> None"
    using proper_first [OF assms(3)] assms(2,5)
    by (auto simp: thread_step_def fastboot_send_info_def fastboot_send_status_def)
  note b = free [OF this] and i = idle [OF free [OF this]]
  show ?thesis
    using proper_first [OF assms(3)]
  proof (elim disjE exE conjE)
    fix r rest assume t: "thread u = Status r # rest" "after_answer rest"
    then have u': "u' = u\<lparr>tx_sts_done := True, bulk_in := Some (Status r), thread := rest\<rparr>"
      using assms(2,5) i by (simp add: thread_step_def fastboot_send_status_def)
    then show ?thesis using t assms(1,2) b i by (simp add: answering_def sending_def winding_down_def work_def)
  next
    fix r rest assume t: "thread u = Sync_Status r # rest" "after_answer rest"
    then have u': "u' = u\<lparr>tx_sts_done := True, bulk_in := Some (Sync_Status r), waiting := True\<rparr>"
      using assms(2,5) i by (simp add: thread_step_def fastboot_send_status_def)
    then show ?thesis using t assms(1,2) b i by (simp add: answering_def sending_def winding_down_def work_def)
  next
    fix r rest assume t: "thread u = Info r # rest" "proper rest"
    then have u': "u' = u\<lparr>tx_sts_done := True, just_info := True, bulk_in := Some (Info r), waiting := True\<rparr>"
      using assms(2,5) i by (simp add: thread_step_def fastboot_send_info_def)
    then show ?thesis using t assms(1,2) b i by (simp add: sending_def work_def)
  qed
qed

lemma sending_dump:
  assumes "sending u" and "\<not> waiting u" and "\<not> proper (thread u)" and "thread_step u = Some u'"
  shows "sending u' \<and> work u' < work u \<and> core u' = core u"
proof -
  have b: "bulk_in u = None" "\<not> just_info u" "\<not> tx_sts_done u" using assms(1-3) by (auto simp: sending_def)
  from assms(1-3) consider i c n r where "thread u = [Event_Init, Info i, Payload c n, Sync_Status r]"
    | i c n r where "thread u = [Info i, Payload c n, Sync_Status r]" "\<not> tx_done_event u"
    | c n r where "thread u = [Payload c n, Sync_Status r]" "\<not> tx_done_event u"
    by (auto simp: sending_def dump_shape_def dump_rest_def)
  then show ?thesis
  proof cases
    case (1 i c n r)
    then have "u' = u\<lparr>tx_done_event := False, thread := [Info i, Payload c n, Sync_Status r]\<rparr>"
      using assms(2,4) by (simp add: thread_step_def fastboot_tx_event_init_def)
    then show ?thesis using 1 assms(1,2) b by (simp add: sending_def dump_rest_def work_def)
  next
    case (2 i c n r)
    then have "u' = u\<lparr>tx_sts_done := True, just_info := True, bulk_in := Some (Info i), waiting := True\<rparr>"
      using assms(2,4) b by (simp add: thread_step_def fastboot_send_info_def await_last_tx_def)
    then show ?thesis using 2 assms(1,2) b by (simp add: sending_def dump_rest_def work_def)
  next
    case (3 c n r)
    then have "u' = u\<lparr>just_info := True, bulk_in := Some (Payload c n), waiting := True\<rparr>"
      using assms(2,4) by (simp add: thread_step_def fastboot_send_payload_def)
    then show ?thesis using 3 assms(1,2) b by (simp add: sending_def dump_rest_def work_def)
  qed
qed

lemma device_step_inv:
  assumes "usb_inv u" and "device_step u u'"
  shows "usb_inv u' \<and> work u' < work u"
proof -
  have a: "acts (core u) = []" using assms(1) by (simp add: usb_inv_def)
  consider "sending u" | "answering u" | "dumping u" | "listening u \<or> received u"
    using assms(1) by (auto simp: usb_inv_def)
  then show ?thesis
  proof cases
    case 1
    from assms(2) show ?thesis
    proof cases
      case run
      have "(sending u' \<or> answering u') \<and> work u' < work u \<and> core u' = core u"
      proof (cases "waiting u \<or> \<not> proper (thread u)")
        case True
        then show ?thesis using sending_wait [OF 1 _ run] sending_dump [OF 1 _ _ run] by blast
      next
        case False
        then have "bulk_in u \<noteq> None \<longrightarrow> tx_sts_done u \<and> \<not> tx_done_event u" using 1 by (auto simp: sending_def)
        then show ?thesis using False sending_proper [OF 1 _ _ _ run] by blast
      qed
      then show ?thesis using a by (auto simp: usb_inv_def)
    next
      case (tx sz)
      then show ?thesis using sending_tx [OF 1, of sz] a by (auto simp: usb_inv_def)
    qed
  next
    case 4
    then show ?thesis using rest_step [OF 4 assms(2)] a by (auto simp: usb_inv_def)
  qed (use answering_step dumping_step assms(2) a in blast)+
qed

section \<open>Commands\<close>

lemma start_inv: "usb_inv (fastboot_config (fasboot_probe s))"
  by (simp add: usb_inv_def listening_def at_rest_def winding_down_def fastboot_config_def fasboot_probe_def
      ready_to_rx_cmd_def Let_def)

lemma host_inv:
  assumes "usb_inv u" and "host_ok u data" and "rx_callback data u = Ret u'"
  shows "usb_inv u'"
proof -
  obtain b len where b: "bulk_out u = Some (b, len)"
    using assms(2) by (auto simp: host_ok_def split: option.splits)
  then have l: "listening u" and a: "acts (core u) = []"
    using assms(1) by (auto simp: usb_inv_def sending_def answering_def dumping_def received_def)
  show ?thesis
  proof (cases b)
    case Cmd_Buf
    then have "u' = u\<lparr>bulk_out := None, rx_done_event := True, rx_sz := length data, rx_cmd_buf := data\<rparr>"
      using assms(3) b by (simp add: rx_callback_def Let_def split: if_splits)
    then have "received u'"
      using l b Cmd_Buf assms(2) by (simp add: received_def listening_def at_rest_def winding_down_def host_ok_def)
    then show ?thesis using a l \<open>u' = _\<close> by (simp add: usb_inv_def)
  next
    case (Data_Buf addr)
    then obtain m where "u' = u\<lparr>bulk_out := None, rx_done_event := True, rx_sz := length data, core := (core u)\<lparr>xfer := m\<rparr>\<rparr>"
      using assms(3) b by (auto simp: rx_callback_def Let_def split: if_splits)
    then have "received u' \<and> acts (core u') = []"
      using l a b Data_Buf by (simp add: received_def listening_def at_rest_def winding_down_def)
    then show ?thesis by (simp add: usb_inv_def)
  qed
qed

lemma exec_inv:
  assumes "usb_inv u" and "rx_done_event u" and "thread u = []" and "wait_rx_done v x u = Ret u'"
  shows "usb_inv u'"
proof -
  have r: "received u" and a: "acts (core u) = []"
    using assms(1,2) by (auto simp: usb_inv_def sending_def answering_def dumping_def listening_def)
  have w: "\<not> waiting u" using r assms(3) by (auto simp: received_def at_rest_def winding_down_def)
  show ?thesis
  proof (cases "phase (core u) = PAYLOAD_IN_PROGRESS")
    case True
    then have "u' = check_payload_done (rx_sz u) (u\<lparr>rx_done_event := False\<rparr>)"
      using assms(4) by (simp add: wait_rx_done_def Let_def)
    then show ?thesis
      using r a w True assms(3)
      by (auto simp: usb_inv_def received_def at_rest_def sending_def listening_def winding_down_def usb_defs)
  next
    case False
    let ?c = "(core u)\<lparr>prot_req_rx_sz := 0\<rparr>"
    obtain s where s: "rx_handler v x (rx_cmd_buf u) ?c = Ret s"
      and u': "u' = u\<lparr>rx_done_event := False, core := s\<lparr>acts := []\<rparr>, thread := acts s, rx_cmd_buf := []\<rparr>"
      using assms(4) False by (auto simp: wait_rx_done_def Let_def and_then_Ret)
    have "(proper (acts s) \<or> dump_shape (acts s)) \<and> (phase s = PAYLOAD_NONE \<or> phase s = PAYLOAD_START_MARK)"
      using rx_handler_answers [OF s] r a False by (auto simp: received_def)
    then have "sending u'"
      using r w by (auto simp: sending_def received_def at_rest_def u')
    then show ?thesis by (simp add: usb_inv_def u')
  qed
qed

lemma reach_inv: "reach v x u \<Longrightarrow> usb_inv u"
proof (induction rule: reach.induct)
  case (device u u')
  then show ?case using device_step_inv by blast
qed (auto intro: start_inv host_inv exec_inv)

text \<open>When the device has nothing more to do it listens, or a call has left fastboot, or something
received is waiting for the thread.\<close>

definition hears :: "'t usb \<Rightarrow> bool" where
  "hears u \<longleftrightarrow>
     bulk_out u \<noteq> None \<or> rx_done_event u \<and> thread u = [] \<or> (case thread u of Leave c # _ \<Rightarrow> True | _ \<Rightarrow> False)"

lemma sending_moves:
  assumes "sending u" and "bulk_in u = None"
  shows "thread_step u \<noteq> None"
proof (cases "waiting u")
  case True
  then have "thread u \<noteq> [] \<and> tx_done_event u" using assms by (auto simp: sending_def dump_rest_def)
  then show ?thesis using True by (auto simp: thread_step_def await_tx_done_def split: list.splits)
next
  case False
  have w: "await_last_tx u = Some u" using assms by (auto simp: sending_def await_last_tx_def)
  have "proper (thread u) \<or> dump_shape (thread u) \<or> dump_rest (thread u)"
    using assms(1) False by (auto simp: sending_def)
  then obtain a as where "thread u = a # as" "\<nexists>c. a = Leave c"
    using proper_first [of "thread u"] by (auto simp: dump_shape_def dump_rest_def)
  then show ?thesis using False w
    by (simp add: thread_step_def fastboot_send_info_def fastboot_send_status_def fastboot_send_payload_def
        split: act.splits)
qed

lemma stuck_hears:
  assumes "usb_inv u" and "\<And>u'. \<not> device_step u u'"
  shows "hears u"
proof -
  have b: "bulk_in u = None"
  proof (rule ccontr)
    assume "bulk_in u \<noteq> None"
    then have "device_step u (tx_status_callback 1 u)" by (auto intro: device_step.tx)
    then show False using assms(2) by blast
  qed
  have t: "thread_step u = None"
    using assms(2) device_step.run by (cases "thread_step u") blast+
  consider "sending u" | "listening u" | "received u" using assms(1) b by (auto simp: usb_inv_def answering_def dumping_def)
  then show ?thesis
  proof cases
    case 1
    then show ?thesis using sending_moves [OF _ b] t by simp
  next
    case 2
    then show ?thesis by (auto simp: listening_def hears_def)
  next
    case 3
    then have "\<not> waiting u" using t by (auto simp: received_def at_rest_def winding_down_def send_defs)
    then show ?thesis using 3
      by (auto simp: received_def at_rest_def winding_down_def after_answer_def hears_def split: list.splits act.splits)
  qed
qed

end
