(* ===== verification/Fastboot_Runs.thy ===== *)
theory Fastboot_Runs
  imports Fastboot_Ready
begin

text \<open>
  Runs of the fastboot function: a download delivers the data, a command that is not known makes the
  device deaf, the header of a memory dump may overrun the command buffer, and an answer that is
  sent synchronously may still be under way when the device resets.
\<close>

section \<open>Transfers from the host\<close>

text \<open>Transfers that are executed one after the other.\<close>

fun receive_all :: "fb_env \<Rightarrow> 't fb_ext \<Rightarrow> string list \<Rightarrow> 't usb \<Rightarrow> 't usb outcome" where
  "receive_all v x [] u = Ret u"
| "receive_all v x (d # ds) u =
     and_then (rx_callback d u) (\<lambda>u. and_then (wait_rx_done v x u) (receive_all v x ds))"

text \<open>Ready for a command, with no other work left.\<close>

definition idle :: "'t usb \<Rightarrow> bool" where
  "idle u \<longleftrightarrow> listening u \<and> (\<exists>len. bulk_out u = Some (Cmd_Buf, len)) \<and> thread u = [] \<and> \<not> is_ramdump (core u)
     \<and> acts (core u) = []"

lemma idle_simps:
  assumes "idle u"
  shows "phase (core u) = PAYLOAD_NONE" "bulk_in u = None" "\<not> just_info u" "\<not> tx_sts_done u" "\<not> waiting u"
    "\<not> rx_done_event u" "thread u = []" "acts (core u) = []" "\<not> is_ramdump (core u)"
  using assms by (auto simp: idle_def listening_def at_rest_def winding_down_def)

lemma idle_start: "idle (fastboot_config (fasboot_probe s))"
  using start_inv [of s]
  by (auto simp: idle_def usb_inv_def sending_def answering_def dumping_def received_def listening_def at_rest_def
      winding_down_def fastboot_config_def fasboot_probe_def ready_to_rx_cmd_def Let_def)

lemma idle_command:
  assumes "idle u" and "c_string cmd" and "length cmd \<le> RX_CMD_BUF_SIZE"
  shows "receive_all v x [cmd] u =
    and_then (run_matching (cmd_list v x) cmd ((core u)\<lparr>prot_req_rx_sz := 0\<rparr>)) (\<lambda>s.
      Ret (u\<lparr>bulk_out := None, rx_done_event := False, rx_sz := length cmd, rx_cmd_buf := [],
             core := s\<lparr>acts := []\<rparr>, thread := acts s\<rparr>))"
proof -
  obtain len where "bulk_out u = Some (Cmd_Buf, len)" using assms(1) by (auto simp: idle_def)
  then show ?thesis
    using assms(2,3) idle_simps [OF assms(1)]
    by (simp add: rx_callback_def wait_rx_done_def rx_handler_def cut_c_string Let_def
        and_then_def split: outcome.splits)
qed

section \<open>Commands without an answer\<close>

lemma refused_dump_acts:
  assumes "\<not> dump_accepted cmd"
  shows "\<exists>r. acts (fb_do_diskdump cmd s) = acts s @ [Event_Init, Info r]" "phase (fb_do_diskdump cmd s) = phase s"
  using assms by (auto simp: fb_do_diskdump_def dump_accepted_def Let_def)

text \<open>The command has sent information at most, and nothing will make the device listen again.\<close>

definition deaf :: "'t usb \<Rightarrow> bool" where
  "deaf u \<longleftrightarrow> bulk_out u = None \<and> \<not> rx_done_event u \<and> (just_info u \<longleftrightarrow> bulk_in u \<noteq> None)
     \<and> (thread u = [] \<and> \<not> waiting u \<or> (\<exists>r. thread u = [Event_Init, Info r]) \<and> \<not> waiting u \<or> (\<exists>r. thread u = [Info r]))"

lemma deaf_step:
  assumes "deaf u" and "device_step u u'"
  shows "deaf u'"
  using assms(2)
proof cases
  case run
  then show ?thesis using assms(1)
    by (auto simp: deaf_def send_defs split: if_splits)
next
  case (tx sz)
  then show ?thesis using assms(1) by (auto simp: deaf_def tx_status_callback_def Let_def)
qed

lemma deaf_steps: "device_step\<^sup>*\<^sup>* u u' \<Longrightarrow> deaf u \<Longrightarrow> deaf u'"
  by (induction rule: rtranclp_induct) (auto intro: deaf_step)

lemma deaf_hears: "deaf u \<Longrightarrow> \<not> hears u"
  by (auto simp: deaf_def hears_def)

lemma unanswered_acts:
  assumes "\<not> answerable cmd" and "acts s = []"
  shows "\<exists>s'. run_matching (cmd_list v x) cmd s = Ret s' \<and> phase s' = phase s
    \<and> (acts s' = [] \<or> (\<exists>r. acts s' = [Event_Init, Info r]))"
proof (cases "starts ''diskdump:'' cmd")
  case True
  have "(''diskdump:'', \<lambda>cmd s. Ret (fb_do_diskdump cmd s)) \<in> set (cmd_list v x)" by (simp add: cmd_list_def)
  then have "run_matching (cmd_list v x) cmd s = Ret (fb_do_diskdump cmd s)"
    using run_command [OF _ True] by fastforce
  moreover have "''diskdump:'' \<in> set command_names" by code_simp
  then have "\<not> dump_accepted cmd" using assms(1) True by (auto simp: answerable_def list_ex_iff)
  ultimately show ?thesis using refused_dump_acts [of cmd s] assms(2) by simp
next
  case False
  then have "list_all (\<lambda>n. \<not> starts n cmd) command_names"
    using assms(1) by (auto simp: answerable_def list_ex_iff list_all_iff)
  then show ?thesis using assms(2) by (simp add: run_unknown)
qed

text \<open>Claim C7: a command that fastboot does not know, or a disk dump whose size it refuses, is the last one:
it is executed, but after it no step of the device makes it ready for a transfer from the host
again.\<close>

theorem fastboot_goes_deaf:
  assumes "idle u" and "c_string cmd" and "length cmd \<le> RX_CMD_BUF_SIZE" and "\<not> answerable cmd"
  shows "\<exists>u'. receive_all v x [cmd] u = Ret u' \<and> (\<forall>u''. device_step\<^sup>*\<^sup>* u' u'' \<longrightarrow> \<not> hears u'')"
proof -
  let ?c = "(core u)\<lparr>prot_req_rx_sz := 0\<rparr>"
  obtain s where s: "run_matching (cmd_list v x) cmd ?c = Ret s" "acts s = [] \<or> (\<exists>r. acts s = [Event_Init, Info r])"
    using unanswered_acts [OF assms(4), of ?c v x] idle_simps(8) [OF assms(1)] by auto
  let ?u = "u\<lparr>bulk_out := None, rx_done_event := False, rx_sz := length cmd, rx_cmd_buf := [],
             core := s\<lparr>acts := []\<rparr>, thread := acts s\<rparr>"
  have "receive_all v x [cmd] u = Ret ?u" using idle_command [OF assms(1-3), of v x] s(1) by simp
  moreover have "deaf ?u" using s(2) idle_simps [OF assms(1)] by (auto simp: deaf_def)
  ultimately show ?thesis using deaf_steps deaf_hears by blast
qed

section \<open>Downloads\<close>

lemma code_hex_char: "d < 16 \<Longrightarrow> code (hex_char d) = int (if d < 10 then 48 + d else 87 + d)"
  by (simp add: hex_char_def code_def)

lemma hex_char_value: "d < 16 \<Longrightarrow> char_value (code (hex_char d)) = Some (int d)"
  by (simp add: code_hex_char char_value_def isdigit_def isalpha_def isupper_def islower_def)

lemma hex8_digits: "list_all (digit_in 16) (hex8 n)"
  by (simp add: hex8_def digit_in_def hex_char_value)

lemma horner_16:
  fixes n :: nat
  assumes "n = c * 16 + b0" "c = d * 16 + b1" "d = e * 16 + b2" "e = f * 16 + b3" "f = g * 16 + b4"
    "g = h * 16 + b5" "h = k * 16 + b6" "k = b7"
  shows "n = ((((((b7 * 16 + b6) * 16 + b5) * 16 + b4) * 16 + b3) * 16 + b2) * 16 + b1) * 16 + b0"
  using assms by simp

lemma hex8_value:
  assumes "n < 2 ^ 32"
  shows "value_of 16 (hex8 n) = int n"
proof -
  define q where "q i = n div 16 ^ i" for i
  have step: "q i = q j * 16 + q i mod 16" if "j = Suc i" for i j
    unfolding q_def that by (metis div_mult_mod_eq div_mult2_eq power_Suc2)
  have "q 7 = q 7 mod 16" using assms by (simp add: q_def)
  moreover have "n = q 1 * 16 + q 0 mod 16" using step [of 1 0] by (simp add: q_def)
  ultimately have "n = ((((((q 7 mod 16 * 16 + q 6 mod 16) * 16 + q 5 mod 16) * 16 + q 4 mod 16) * 16 + q 3 mod 16) * 16
      + q 2 mod 16) * 16 + q 1 mod 16) * 16 + q 0 mod 16"
    by (intro horner_16 [where c = "q 1" and d = "q 2" and e = "q 3" and f = "q 4" and g = "q 5" and h = "q 6"
          and k = "q 7"]) (assumption | rule step, simp)+
  then have "int n = int (((((((q 7 mod 16 * 16 + q 6 mod 16) * 16 + q 5 mod 16) * 16 + q 4 mod 16) * 16 + q 3 mod 16) * 16
      + q 2 mod 16) * 16 + q 1 mod 16) * 16 + q 0 mod 16)"
    by (rule arg_cong)
  moreover have "digit_of (hex_char (m mod 16)) = int (m mod 16)" for m
    by (simp add: digit_of_def hex_char_value)
  ultimately show ?thesis unfolding value_of_def hex8_def q_def list.map foldl.simps by simp
qed

lemma strtol_hex8:
  assumes "n < 2 ^ 32"
  shows "nat (fst (strtol (hex8 n) 16) mod 2 ^ 32) = n"
proof -
  have "strtol ([] @ [] @ [] @ hex8 n @ []) 16 = (clamp_long (sign_of [] * value_of 16 (hex8 n)), [])"
    by (rule strtol_reads) (simp_all add: hex_prefix_def hex8_digits ends_number_def, simp_all add: hex8_def)
  then show ?thesis using assms by (simp add: hex8_value sign_of_def clamp_long_def LONG_MAX_def LONG_MIN_def)
qed

lemma hex8_c_string: "c_string (hex8 n)"
  by (simp add: c_string_def hex8_def code_hex_char)

text \<open>In the middle of a download: \<open>pos\<close> bytes have been received and \<open>left\<close> are missing.\<close>

definition taking :: "nat \<Rightarrow> nat \<Rightarrow> 't usb \<Rightarrow> bool" where
  "taking pos left u \<longleftrightarrow>
     bulk_out u = Some (Data_Buf (CFG_FASTBOOT_TRANSFER_BUFFER + pos), left) \<and> thread u = []
     \<and> phase (core u) = PAYLOAD_IN_PROGRESS \<and> payload_dir (core u) = USBDIR_OUT
     \<and> payload_buf (core u) = CFG_FASTBOOT_TRANSFER_BUFFER + pos \<and> payload_req_len (core u) = left
     \<and> downloaded_data_size (core u) = pos \<and> pos + left < 2 ^ 32 \<and> pos + left \<le> length (xfer (core u))"

definition put_data :: "string \<Rightarrow> nat \<Rightarrow> 't fb_state \<Rightarrow> byte list" where
  "put_data d pos s = splice_at (xfer s) pos (map of_char d)"

lemma take_part:
  assumes "taking pos left u" and "length d \<le> left"
  shows "\<exists>u'. receive_all v x [d] u = Ret u' \<and> xfer (core u') = put_data d pos (core u)
    \<and> downloaded_data_size (core u') = pos + length d \<and> storage_of (core u') = storage_of (core u)
    \<and> (if length d = left then thread u' = [Status ''OKAY''] else taking (pos + length d) (left - length d) u')"
proof -
  let ?s = "(core u)\<lparr>xfer := put_data d pos (core u)\<rparr>"
  let ?u = "u\<lparr>bulk_out := None, rx_sz := length d, core := ?s, rx_done_event := False\<rparr>"
  have t: "bulk_out u = Some (Data_Buf (CFG_FASTBOOT_TRANSFER_BUFFER + pos), left)" "thread u = []"
    "phase (core u) = PAYLOAD_IN_PROGRESS" "payload_dir (core u) = USBDIR_OUT"
    "payload_buf (core u) = CFG_FASTBOOT_TRANSFER_BUFFER + pos" "payload_req_len (core u) = left"
    "downloaded_data_size (core u) = pos" "pos + left < 2 ^ 32" "pos + left \<le> length (xfer (core u))"
    using assms(1) by (simp_all add: taking_def)
  have "receive_all v x [d] u = Ret (check_payload_done (length d) ?u)"
    using t assms(2) by (simp add: rx_callback_def wait_rx_done_def put_data_def Let_def)
  moreover have "length (put_data d pos (core u)) = length (xfer (core u))"
    using t(9) assms(2) by (simp add: put_data_def length_splice)
  moreover have "add32 pos (length d) = pos + length d" using t(8) assms(2) by (simp add: add32_id)
  moreover have "add64 (CFG_FASTBOOT_TRANSFER_BUFFER + pos) (length d) = CFG_FASTBOOT_TRANSFER_BUFFER + (pos + length d)"
    using t(8) assms(2) by (simp add: add64_id fb_consts)
  ultimately show ?thesis using t assms(2)
    by (auto simp: check_payload_done_def fb_cmd_set_downloaded_sz_def do_payload_def taking_def Let_def)
qed

lemma take_chunks:
  assumes "taking pos left u" and "length (concat ds) = left" and "ds \<noteq> []" and "list_all (\<lambda>d. d \<noteq> []) ds"
  shows "\<exists>u'. receive_all v x ds u = Ret u' \<and> xfer (core u') = put_data (concat ds) pos (core u)
    \<and> downloaded_data_size (core u') = pos + left \<and> storage_of (core u') = storage_of (core u)
    \<and> thread u' = [Status ''OKAY'']"
  using assms
proof (induction ds arbitrary: pos left u)
  case (Cons d ds)
  obtain u1 where u1: "receive_all v x [d] u = Ret u1" "xfer (core u1) = put_data d pos (core u)"
    "downloaded_data_size (core u1) = pos + length d" "storage_of (core u1) = storage_of (core u)"
    "if length d = left then thread u1 = [Status ''OKAY''] else taking (pos + length d) (left - length d) u1"
    using take_part [OF Cons.prems(1), of d v x] Cons.prems(2) by auto
  have run: "receive_all v x (d # ds) u = receive_all v x ds u1"
    using u1(1) by (auto simp: and_then_def split: outcome.splits)
  show ?case
  proof (cases "ds = []")
    case True
    then show ?thesis using u1 run Cons.prems(2) by simp
  next
    case False
    then have "0 < length (concat ds)" using Cons.prems(4) by (cases ds) auto
    then have "length d \<noteq> left" using Cons.prems(2) unfolding concat.simps length_append by linarith
    then have "taking (pos + length d) (left - length d) u1" using u1(5) by simp
    from Cons.IH [OF this _ False] obtain u' where u': "receive_all v x ds u1 = Ret u'"
      "xfer (core u') = put_data (concat ds) (pos + length d) (core u1)" "downloaded_data_size (core u') = pos + left"
      "storage_of (core u') = storage_of (core u1)" "thread u' = [Status ''OKAY'']"
      using Cons.prems(2,4) by auto
    have "pos + left \<le> length (xfer (core u))" using Cons.prems(1) by (simp add: taking_def)
    then have "put_data (concat ds) (pos + length d) (core u1) = put_data (d @ concat ds) pos (core u)"
      using splice_append [of pos "map of_char d" "map of_char (concat ds)" "xfer (core u)"] Cons.prems(2)
      by (simp add: put_data_def u1(2))
    then show ?thesis using u' run u1(4) by auto
  qed
qed simp

lemma start_status:
  assumes "thread u = Status r # as" and "\<not> waiting u" and "\<not> tx_sts_done u"
  shows "device_step u (u\<lparr>tx_sts_done := True, bulk_in := Some (Status r), thread := as\<rparr>)"
  using assms by (intro device_step.run) (simp add: thread_step_def fastboot_send_status_def await_last_tx_def)

text \<open>The two steps of the device that send the answer to a command.\<close>

lemma send_answer:
  assumes "thread u = [Status r]" and "\<not> waiting u" and "\<not> tx_sts_done u"
  shows "device_step\<^sup>*\<^sup>* u (tx_status_callback 1 (u\<lparr>tx_sts_done := True, bulk_in := Some (Status r), thread := []\<rparr>))"
proof -
  let ?u = "u\<lparr>tx_sts_done := True, bulk_in := Some (Status r), thread := []\<rparr>"
  have "device_step u ?u" using start_status [OF assms] .
  moreover have "device_step ?u (tx_status_callback 1 ?u)" by (intro device_step.tx) simp_all
  ultimately show ?thesis by (meson rtranclp.rtrancl_into_rtrancl rtranclp.rtrancl_refl)
qed

lemma download_command:
  assumes "idle u" and "n < 2 ^ 32"
  shows "receive_all v x [''download:'' @ hex8 n] u =
    Ret (u\<lparr>bulk_out := None, rx_done_event := False, rx_sz := 17, rx_cmd_buf := [],
           core := (core u)\<lparr>prot_req_rx_sz := 0, download_size := n, downloaded_data_size := 0, phase := PAYLOAD_START_MARK,
             payload_dir := USBDIR_OUT, payload_buf := CFG_FASTBOOT_TRANSFER_BUFFER, payload_req_len := n, acts := []\<rparr>,
           thread := [Status (''DATA'' @ hex8 n)]\<rparr>)"
proof -
  let ?cmd = "''download:'' @ hex8 n"
  have "c_string ''download:''" by code_simp
  then have c: "c_string ?cmd" using hex8_c_string [of n] by (auto simp: c_string_def)
  have l: "length ?cmd = 17" by (simp add: hex8_def)
  have "(''download:'', \<lambda>cmd s. Ret (fb_do_download cmd s)) \<in> set (cmd_list v x)" by (simp add: cmd_list_def)
  from run_command [OF this starts_append]
  have "run_matching (cmd_list v x) ?cmd s = Ret (fb_do_download ?cmd s)" for s .
  moreover have "drop 9 ?cmd = hex8 n" by simp
  ultimately show ?thesis
    using idle_command [OF assms(1) c, of v x] l idle_simps(8) [OF assms(1)] strtol_hex8 [OF assms(2)]
    by (simp add: RX_CMD_BUF_SIZE_def fb_do_download_def fastboot_set_payload_data_def emit_def Let_def)
qed

text \<open>Claim C6: a download delivers the data. The command with the size in hexadecimal is answered with
\<^verbatim>\<open>DATA\<close> and the same size; the device then takes that many bytes, in any number of transfers, to the
start of the transfer buffer, counts them, touches neither the rest of the buffer nor the
storage, and answers \<^verbatim>\<open>OKAY\<close>.\<close>

theorem fastboot_download:
  assumes "idle u" and "0 < n" and "n < 2 ^ 32" and "n \<le> length (xfer (core u))"
    and "length (concat ds) = n" and "list_all (\<lambda>d. d \<noteq> []) ds"
  shows "\<exists>u1 u2 u3. receive_all v x [''download:'' @ hex8 n] u = Ret u1 \<and> thread u1 = [Status (''DATA'' @ hex8 n)]
    \<and> device_step\<^sup>*\<^sup>* u1 u2 \<and> receive_all v x ds u2 = Ret u3 \<and> thread u3 = [Status ''OKAY'']
    \<and> xfer (core u3) = map of_char (concat ds) @ drop n (xfer (core u)) \<and> downloaded_data_size (core u3) = n
    \<and> storage_of (core u3) = storage_of (core u)"
proof -
  obtain u1 where u1: "receive_all v x [''download:'' @ hex8 n] u = Ret u1"
    and u1_def: "u1 = u\<lparr>bulk_out := None, rx_done_event := False, rx_sz := 17, rx_cmd_buf := [],
           core := (core u)\<lparr>prot_req_rx_sz := 0, download_size := n, downloaded_data_size := 0, phase := PAYLOAD_START_MARK,
             payload_dir := USBDIR_OUT, payload_buf := CFG_FASTBOOT_TRANSFER_BUFFER, payload_req_len := n, acts := []\<rparr>,
           thread := [Status (''DATA'' @ hex8 n)]\<rparr>"
    using download_command [OF assms(1,3), of v x] by blast
  have th: "thread u1 = [Status (''DATA'' @ hex8 n)]" by (simp add: u1_def)
  let ?u2 = "tx_status_callback 1 (u1\<lparr>tx_sts_done := True, bulk_in := Some (Status (''DATA'' @ hex8 n)), thread := []\<rparr>)"
  have s: "device_step\<^sup>*\<^sup>* u1 ?u2"
    using idle_simps [OF assms(1)] by (intro send_answer [OF th]) (simp_all add: u1_def)
  have "taking 0 n ?u2"
    using idle_simps [OF assms(1)] assms(3,4)
    by (simp add: u1_def taking_def tx_status_callback_def do_payload_def Let_def)
  moreover have "xfer (core ?u2) = xfer (core u)" "storage_of (core ?u2) = storage_of (core u)"
    using idle_simps(3) [OF assms(1)] by (simp_all add: u1_def tx_status_callback_def do_payload_def Let_def)
  moreover have "ds \<noteq> []" using assms(2,5) by auto
  ultimately obtain u3 where "receive_all v x ds ?u2 = Ret u3" "thread u3 = [Status ''OKAY'']"
    "xfer (core u3) = map of_char (concat ds) @ drop n (xfer (core u))" "downloaded_data_size (core u3) = n"
    "storage_of (core u3) = storage_of (core u)"
    using take_chunks [of 0 n ?u2 ds v x] assms(5,6) by (auto simp: put_data_def splice_at_def)
  then show ?thesis using u1 th s by blast
qed

section \<open>Other runs\<close>

lemma start_sync:
  assumes "thread u = Sync_Status r # as" and "\<not> waiting u" and "\<not> tx_sts_done u"
  shows "device_step u (u\<lparr>tx_sts_done := True, bulk_in := Some (Sync_Status r), waiting := True\<rparr>)"
  using assms by (intro device_step.run) (simp add: thread_step_def fastboot_send_status_def await_last_tx_def)

text \<open>The command that announces the header of a memory dump accepts every size up to that of the
transfer buffer, but the header goes to the command buffer of 4096 bytes.\<close>

theorem ramdump_header_overruns:
  assumes "idle u" and "0 < n" and "n \<le> CFG_FASTBOOT_TRANSFER_BUFFER_SIZE"
  shows "\<exists>u1 u2. receive_all v x [''ramdump:'' @ hex8 n] u = Ret u1 \<and> device_step\<^sup>*\<^sup>* u1 u2
    \<and> bulk_out u2 = Some (Cmd_Buf, n) \<and> (\<forall>data. RX_CMD_BUF_SIZE < length data \<longrightarrow> rx_callback data u2 = Fault)"
proof -
  let ?cmd = "''ramdump:'' @ hex8 n"
  have "c_string ''ramdump:''" by code_simp
  then have c: "c_string ?cmd" using hex8_c_string [of n] by (auto simp: c_string_def)
  have l: "length ?cmd \<le> RX_CMD_BUF_SIZE" by (simp add: hex8_def RX_CMD_BUF_SIZE_def)
  have "(''ramdump:'', \<lambda>cmd s. Ret (fb_do_ramdump cmd s)) \<in> set (cmd_list v x)" by (simp add: cmd_list_def)
  from run_command [OF this starts_append]
  have run: "run_matching (cmd_list v x) ?cmd s = Ret (fb_do_ramdump ?cmd s)" for s .
  have n: "n < 2 ^ 32" using assms(3) by (simp add: fb_consts)
  define u1 where "u1 = u\<lparr>bulk_out := None, rx_done_event := False, rx_sz := length ?cmd, rx_cmd_buf := [],
      core := (fb_do_ramdump ?cmd ((core u)\<lparr>prot_req_rx_sz := 0\<rparr>))\<lparr>acts := []\<rparr>,
      thread := acts (fb_do_ramdump ?cmd ((core u)\<lparr>prot_req_rx_sz := 0\<rparr>))\<rparr>"
  have u1: "receive_all v x [?cmd] u = Ret u1" using idle_command [OF assms(1) c l, of v x] run by (simp add: u1_def)
  have d: "drop 8 ?cmd = hex8 n" by simp
  have f: "acts (fb_do_ramdump ?cmd s) = acts s @ [Sync_Status (''DATA'' @ hex8 n)]"
    "prot_req_rx_sz (fb_do_ramdump ?cmd s) = n" "phase (fb_do_ramdump ?cmd s) = phase s" for s
    using strtol_hex8 [OF n] assms(3) unfolding fb_do_ramdump_def d Let_def by (simp_all add: fasboot_set_rx_sz_def)
  let ?u = "u1\<lparr>tx_sts_done := True, bulk_in := Some (Sync_Status (''DATA'' @ hex8 n)), waiting := True\<rparr>"
  have "device_step u1 ?u"
    using idle_simps [OF assms(1)] f(1) [of "(core u)\<lparr>prot_req_rx_sz := 0\<rparr>"] by (intro start_sync) (simp_all add: u1_def)
  moreover have "device_step ?u (tx_status_callback 1 ?u)" by (intro device_step.tx) simp_all
  ultimately have "device_step\<^sup>*\<^sup>* u1 (tx_status_callback 1 ?u)"
    by (meson rtranclp.rtrancl_into_rtrancl rtranclp.rtrancl_refl)
  moreover have "bulk_out (tx_status_callback 1 ?u) = Some (Cmd_Buf, n)"
    using idle_simps [OF assms(1)] f(2,3) [of "(core u)\<lparr>prot_req_rx_sz := 0\<rparr>"] assms(2)
    by (simp add: u1_def tx_status_callback_def ready_to_rx_cmd_def Let_def)
  ultimately show ?thesis using u1 by (auto simp: rx_callback_def Let_def)
qed

text \<open>An answer that is not waited for leaves the event signalled, so the next answer that is to be
waited for is not: the reset may cut it off.\<close>

lemma idle_again:
  assumes "idle u" and "c_string cmd" and "length cmd \<le> RX_CMD_BUF_SIZE"
    and "run_matching (cmd_list v x) cmd ((core u)\<lparr>prot_req_rx_sz := 0\<rparr>) = Ret (send r s)"
    and "acts s = []" and "phase s = PAYLOAD_NONE" and "\<not> is_ramdump s"
  shows "\<exists>u1 u2. receive_all v x [cmd] u = Ret u1 \<and> device_step\<^sup>*\<^sup>* u1 u2 \<and> idle u2 \<and> tx_done_event u2"
proof -
  let ?u1 = "u\<lparr>bulk_out := None, rx_done_event := False, rx_sz := length cmd, rx_cmd_buf := [],
      core := (send r s)\<lparr>acts := []\<rparr>, thread := [Status r]\<rparr>"
  have "receive_all v x [cmd] u = Ret ?u1" using idle_command [OF assms(1-3), of v x] assms(4,5) by simp
  moreover have "device_step\<^sup>*\<^sup>* ?u1 (tx_status_callback 1 (?u1\<lparr>tx_sts_done := True, bulk_in := Some (Status r), thread := []\<rparr>))"
    using idle_simps [OF assms(1)] by (intro send_answer) simp_all
  moreover have "idle (tx_status_callback 1 (?u1\<lparr>tx_sts_done := True, bulk_in := Some (Status r), thread := []\<rparr>))
      \<and> tx_done_event (tx_status_callback 1 (?u1\<lparr>tx_sts_done := True, bulk_in := Some (Status r), thread := []\<rparr>))"
    using idle_simps [OF assms(1)] assms(6,7)
    by (simp add: idle_def listening_def at_rest_def winding_down_def tx_status_callback_def ready_to_rx_cmd_def Let_def)
  ultimately show ?thesis by blast
qed

theorem reboot_overtakes_answer:
  assumes "idle u" and "tx_done_event u"
  shows "\<exists>u1 u2. receive_all v x [''reboot''] u = Ret u1 \<and> device_step\<^sup>*\<^sup>* u1 u2
    \<and> thread u2 = [Leave (Reboot ''reboot'')] \<and> bulk_in u2 = Some (Sync_Status ''OKAY'')"
proof -
  have "(''reboot'', \<lambda>cmd s. Ret (fb_do_reboot cmd s)) \<in> set (cmd_list v x)" by (simp add: cmd_list_def)
  from run_command [OF this starts_append, of "[]"]
  have run: "run_matching (cmd_list v x) ''reboot'' s = Ret (fb_do_reboot ''reboot'' s)" for s by simp
  have c: "c_string ''reboot''" by code_simp
  let ?u1 = "u\<lparr>bulk_out := None, rx_done_event := False, rx_sz := 6, rx_cmd_buf := [],
      core := (core u)\<lparr>prot_req_rx_sz := 0, acts := []\<rparr>, thread := [Sync_Status ''OKAY'', Leave (Reboot ''reboot'')]\<rparr>"
  let ?u = "?u1\<lparr>tx_sts_done := True, bulk_in := Some (Sync_Status ''OKAY''), waiting := True\<rparr>"
  let ?u2 = "?u\<lparr>tx_done_event := False, waiting := False, thread := [Leave (Reboot ''reboot'')]\<rparr>"
  have u1: "receive_all v x [''reboot''] u = Ret ?u1"
    using idle_command [OF assms(1) c, of v x] run idle_simps(8) [OF assms(1)]
    by (simp add: RX_CMD_BUF_SIZE_def fb_do_reboot_def emit_def)
  have "device_step ?u1 ?u" using idle_simps [OF assms(1)] by (intro start_sync) simp_all
  moreover have "device_step ?u ?u2"
    using assms(2) by (intro device_step.run) (simp add: thread_step_def await_tx_done_def)
  ultimately have "device_step\<^sup>*\<^sup>* ?u1 ?u2" by (meson rtranclp.rtrancl_into_rtrancl rtranclp.rtrancl_refl)
  then show ?thesis using u1 by (intro exI [of _ ?u1] exI [of _ ?u2]) simp
qed

section \<open>Examples\<close>

definition demo_ext :: "byte list fb_ext" where
  "demo_ext = \<lparr>product_string = Some ''x1s'', serialno_string = None, chip_id = (1, 2), ldfw_loaded = False, lock_state = 0,
     var_list = None, dss_getvar_item = (\<lambda>n. None), ramdump_getvar = (\<lambda>n st. Ret ([], st)),
     ramdump_oem = (\<lambda>n st. Ret (0, st)), stack_words = (0, 0)\<rparr>"

definition demo_usb :: "byte list usb" where
  "demo_usb = fastboot_config (fasboot_probe (demo_state 0))"

lemma demo_idle: "idle demo_usb"
  by (simp add: demo_usb_def idle_start)

theorem fastboot_goes_deaf_witness:
  "\<exists>u'. receive_all demo_env demo_ext [''hello''] demo_usb = Ret u' \<and> \<not> hears u'"
proof -
  have "c_string ''hello''" "\<not> answerable ''hello''" by code_simp+
  then show ?thesis
    using fastboot_goes_deaf [OF demo_idle, of "''hello''" demo_env demo_ext] by (auto simp: RX_CMD_BUF_SIZE_def)
qed

theorem fastboot_download_witness:
  "\<exists>u1 u2 u3. receive_all demo_env demo_ext [''download:00000005''] demo_usb = Ret u1 \<and> device_step\<^sup>*\<^sup>* u1 u2
    \<and> receive_all demo_env demo_ext [''AN'', ''DRO''] u2 = Ret u3 \<and> take 5 (xfer (core u3)) = [65, 78, 68, 82, 79]
    \<and> downloaded_data_size (core u3) = 5"
proof -
  have n: "length (concat [''AN'', ''DRO'']) = 5" "list_all (\<lambda>d. d \<noteq> []) [''AN'', ''DRO'']" by simp_all
  have l: "5 \<le> length (xfer (core demo_usb))"
    by (simp add: demo_usb_def fastboot_config_def fasboot_probe_def ready_to_rx_cmd_def demo_state_def Let_def)
  have "hex_char 0 = CHR ''0''" "hex_char 5 = CHR ''5''" by code_simp+
  then have h: "''download:'' @ hex8 5 = ''download:00000005''" by (simp add: hex8_def)
  have "map of_char (concat [''AN'', ''DRO'']) = ([65, 78, 68, 82, 79] :: byte list)" by simp
  then show ?thesis
    using fastboot_download [OF demo_idle _ _ l n, of demo_env demo_ext] unfolding h by fastforce
qed

text \<open>Claim C5: fastboot listens again after every command it answers. In every state that can be reached by
commands that are known, with the data they ask for, the device cannot go on for ever on its
own: each step, of the thread inside a command or at the end of a transfer to the host, lessens
the work that is left. And when it comes to rest it is ready for the next transfer from the
host, unless it has left fastboot or has something received still to look at.\<close>

theorem fastboot_listens_again:
  assumes "reach v x u"
  shows "(\<forall>u'. device_step u u' \<longrightarrow> work u' < work u) \<and> ((\<nexists>u'. device_step u u') \<longrightarrow> hears u)"
  using device_step_inv [OF reach_inv [OF assms]] stuck_hears [OF reach_inv [OF assms]] by blast

theorem fastboot_listens_again_witness:
  "\<exists>u u'. receive_all demo_env demo_ext [''flashing lock''] demo_usb = Ret u \<and> device_step u u' \<and> work u' < work u"
proof -
  have c: "c_string ''flashing lock''" "answerable ''flashing lock''" by code_simp+
  have b: "bulk_out demo_usb = Some (Cmd_Buf, 64)"
    by (simp add: demo_usb_def fastboot_config_def fasboot_probe_def ready_to_rx_cmd_def Let_def)
  have "(''flashing'', \<lambda>cmd s. Ret (fb_do_flashing cmd s)) \<in> set (cmd_list demo_env demo_ext)" by (simp add: cmd_list_def)
  from run_command [OF this starts_append, of "'' lock''"]
  have run: "run_matching (cmd_list demo_env demo_ext) ''flashing lock'' s = Ret (fb_do_flashing ''flashing lock'' s)" for s
    by simp
  obtain u0 where u0: "rx_callback ''flashing lock'' demo_usb = Ret u0" "thread u0 = []" "rx_done_event u0"
    using b idle_simps(7) [OF demo_idle] by (simp add: rx_callback_def RX_CMD_BUF_SIZE_def Let_def)
  obtain u r where u: "receive_all demo_env demo_ext [''flashing lock''] demo_usb = Ret u" "thread u = [Status r]"
    "\<not> waiting u" "\<not> tx_sts_done u"
    using idle_command [OF demo_idle c(1), of demo_env demo_ext] run idle_simps [OF demo_idle]
    by (simp add: RX_CMD_BUF_SIZE_def fb_do_flashing_def Let_def)
  have w: "wait_rx_done demo_env demo_ext u0 = Ret u" using u(1) u0(1) by (simp add: and_then_Ret)
  have r: "reach demo_env demo_ext demo_usb" unfolding demo_usb_def by (rule reach.start)
  have "host_ok demo_usb ''flashing lock''" unfolding host_ok_def cut_c_string [OF c(1)] b by (simp add: c(2))
  from reach.exec [OF reach.host [OF r this u0(1)] u0(3,2) w] have "reach demo_env demo_ext u" .
  then show ?thesis using fastboot_listens_again [of demo_env demo_ext u] start_status [OF u(2-4)] u(1) by blast
qed

end
