(* ===== verification/Bio_Byte.thy ===== *)
theory Bio_Byte
  imports Bio_New
begin

text \<open>
  The byte-sized requests of \<^verbatim>\<open>lib/bio/bio.c\<close>: \<^verbatim>\<open>bio_new_byte_read\<close>,
  \<^verbatim>\<open>bio_new_byte_write\<close> and \<^verbatim>\<open>bio_new_byte_erase\<close> start at a 512-byte sector and take a
  size in bytes. They count the sectors still to do downwards and keep the bytes still to do
  beside it, both in 32 bits. The transfer loops round the next command down to whole native
  blocks after limiting it to \<^verbatim>\<open>max_blkcnt_per_cmd\<close>; where that limit is below one native
  block the command is empty and the loop does not end, so these loops are partial functions
  and \<open>None\<close> means that the call does not return.
\<close>

text \<open>\<^verbatim>\<open>BYTE_TO_BLOCK\<close>, in 32-bit arithmetic.\<close>

definition BYTE_TO_BLOCK :: "nat \<Rightarrow> nat" where
  "BYTE_TO_BLOCK x = add32 (sub32 x 1 div 2 ^ 9) 1"

definition byte_per_time :: "'d bdev \<Rightarrow> nat \<Rightarrow> nat" where
  "byte_per_time dev left =
     (if max_blkcnt dev < left then max_blkcnt dev else left) div native_blocks dev * native_blocks dev"

section \<open>Reading\<close>

text \<open>The state of a read: \<open>(block, block_read, rsize, pos, buf, d)\<close>.\<close>

type_synonym 'd br_state = "nat \<times> nat \<times> nat \<times> nat \<times> byte list \<times> 'd"

definition byte_read_first ::
    "'d bdev \<Rightarrow> nat \<Rightarrow> nat \<Rightarrow> byte list \<Rightarrow> 'd \<Rightarrow> bool \<times> 'd br_state" where
  "byte_read_first dev blk sz buf d =
     (let nb = native_blocks dev; count = BYTE_TO_BLOCK sz in
      if blk mod nb \<noteq> 0 \<or> count < nb then
        (let block = mul32 (blk div nb) nb in
         case new_read_native dev d (block div nb) 1 of (err, temp, d') \<Rightarrow>
           if err \<noteq> 0 then (False, (block, count, sz, 0, buf, d'))
           else
             (let byte_offset = mul32 (sub32 blk block) USER_BLOCK_SIZE;
                  p_cnt = min count (sub32 (add32 block nb) blk);
                  byte_size = min sz (mul32 p_cnt USER_BLOCK_SIZE)
              in (True, (add32 blk p_cnt, sub32 count p_cnt, sub32 sz byte_size, byte_size,
                         splice_at buf 0 (slice_at byte_offset byte_size temp), d'))))
      else (True, (blk, count, sz, 0, buf, d)))"

partial_function (option) byte_read_loop ::
    "'d bdev \<Rightarrow> 'd br_state \<Rightarrow> (bool \<times> 'd br_state) option" where
  "byte_read_loop dev st = (case st of (block, block_read, rsize, pos, buf, d) \<Rightarrow>
     (if native_blocks dev \<le> block_read then
        (let n = byte_per_time dev block_read in
         case new_read_native dev d (block div native_blocks dev) (n div native_blocks dev) of
             (err, bytes, d') \<Rightarrow>
               if err \<noteq> 0 then Some (False, (block, block_read, rsize, pos, splice_at buf pos bytes, d'))
               else byte_read_loop dev
                      (add32 block n, sub32 block_read n, sub32 rsize (mul32 n USER_BLOCK_SIZE),
                       pos + mul32 n USER_BLOCK_SIZE, splice_at buf pos bytes, d'))
      else Some (True, st)))"

definition byte_read_last :: "'d bdev \<Rightarrow> 'd br_state \<Rightarrow> 'd br_state" where
  "byte_read_last dev st = (case st of (block, block_read, rsize, pos, buf, d) \<Rightarrow>
     (if block_read \<noteq> 0 then
        (case new_read_native dev d (block div native_blocks dev) 1 of (err, temp, d') \<Rightarrow>
           if err \<noteq> 0 then (block, block_read, rsize, pos, buf, d')
           else (block, sub32 block_read 1, 0, pos, splice_at buf pos (slice_at 0 rsize temp), d'))
      else st))"

definition bio_new_byte_read ::
    "'d bdev \<Rightarrow> nat \<Rightarrow> byte list \<Rightarrow> 'd \<Rightarrow> nat \<Rightarrow> nat \<Rightarrow> (nat \<times> byte list \<times> 'd) option" where
  "bio_new_byte_read dev addr buf d blk sz =
     (let count = BYTE_TO_BLOCK sz in
      if flags dev AND BIO_FLAG_CACHE_ALIGNED_READS \<noteq> 0 \<and> \<not> is_aligned addr CACHE_LINE
      then Some (sub32 count count, buf, d)
      else
        (case byte_read_first dev blk sz buf d of (go, st) \<Rightarrow>
          (case (if go then byte_read_loop dev st else Some (False, st)) of
             None \<Rightarrow> None
           | Some (go, st) \<Rightarrow>
              (case (if go then byte_read_last dev st else st) of
                 (block, block_read, rsize, pos, buf, d) \<Rightarrow>
                   Some (sub32 count block_read, buf, d)))))"

section \<open>Writing\<close>

text \<open>The state of a write: \<open>(block, block_written, wsize, pos, d)\<close>.\<close>

type_synonym 'd bw_state = "nat \<times> nat \<times> nat \<times> nat \<times> 'd"

definition byte_write_first ::
    "'d bdev \<Rightarrow> byte list \<Rightarrow> nat \<Rightarrow> nat \<Rightarrow> 'd \<Rightarrow> bool \<times> 'd bw_state" where
  "byte_write_first dev src blk sz d =
     (let nb = native_blocks dev; count = BYTE_TO_BLOCK sz in
      if blk mod nb \<noteq> 0 then
        (let block = mul32 (blk div nb) nb in
         case new_read_native dev d (block div nb) 1 of (err, temp, d') \<Rightarrow>
           if err \<noteq> 0 then (False, (block, count, sz, 0, d'))
           else
             (let byte_offset = mul32 (sub32 blk block) USER_BLOCK_SIZE;
                  p_cnt = min count (sub32 (add32 block nb) blk);
                  byte_size = min sz (mul32 p_cnt USER_BLOCK_SIZE);
                  temp = splice_at temp byte_offset (slice_at 0 byte_size src)
              in case new_write_native dev d' temp (block div nb) 1 of (err, d'') \<Rightarrow>
                   if err \<noteq> 0 then (False, (block, count, sz, 0, d''))
                   else (True, (add32 blk p_cnt, sub32 count p_cnt, sub32 sz byte_size,
                                byte_size, d''))))
      else (True, (blk, count, sz, 0, d)))"

partial_function (option) byte_write_loop ::
    "'d bdev \<Rightarrow> byte list \<Rightarrow> 'd bw_state \<Rightarrow> (bool \<times> 'd bw_state) option" where
  "byte_write_loop dev src st = (case st of (block, block_written, wsize, pos, d) \<Rightarrow>
     (if native_blocks dev \<le> block_written then
        (let n = byte_per_time dev block_written in
         case new_write_native dev d (drop pos src) (block div native_blocks dev)
                (n div native_blocks dev) of
             (err, d') \<Rightarrow>
               if err \<noteq> 0 then Some (False, (block, block_written, wsize, pos, d'))
               else byte_write_loop dev src
                      (add32 block n, sub32 block_written n, sub32 wsize (mul32 n USER_BLOCK_SIZE),
                       pos + mul32 n USER_BLOCK_SIZE, d'))
      else Some (True, st)))"

definition byte_write_last :: "'d bdev \<Rightarrow> byte list \<Rightarrow> 'd bw_state \<Rightarrow> 'd bw_state" where
  "byte_write_last dev src st = (case st of (block, block_written, wsize, pos, d) \<Rightarrow>
     (if block_written \<noteq> 0 then
        (case new_read_native dev d (block div native_blocks dev) 1 of (err, temp, d') \<Rightarrow>
           if err \<noteq> 0 then (block, block_written, wsize, pos, d')
           else
             (case new_write_native dev d' (splice_at temp 0 (slice_at pos wsize src))
                     (block div native_blocks dev) 1 of (err, d'') \<Rightarrow>
                if err \<noteq> 0 then (block, block_written, wsize, pos, d'')
                else (block, sub32 block_written 1, 0, pos, d'')))
      else st))"

definition bio_new_byte_write ::
    "'d bdev \<Rightarrow> nat \<Rightarrow> 'd \<Rightarrow> byte list \<Rightarrow> nat \<Rightarrow> nat \<Rightarrow> (nat \<times> 'd) option" where
  "bio_new_byte_write dev addr d src blk sz =
     (let count = BYTE_TO_BLOCK sz in
      if flags dev AND BIO_FLAG_CACHE_ALIGNED_WRITES \<noteq> 0 \<and> \<not> is_aligned addr CACHE_LINE
      then Some (sub32 count count, d)
      else
        (case byte_write_first dev src blk sz d of (go, st) \<Rightarrow>
          (case (if go then byte_write_loop dev src st else Some (False, st)) of
             None \<Rightarrow> None
           | Some (go, st) \<Rightarrow>
              (case (if go then byte_write_last dev src st else st) of
                 (block, block_written, wsize, pos, d) \<Rightarrow> Some (sub32 count block_written, d)))))"

section \<open>Erasing\<close>

text \<open>
  The state of an erase: \<open>(block, block_erased, esize, d)\<close>. Other than \<^verbatim>\<open>bio_new_erase\<close> this
  variant takes \<^verbatim>\<open>erase_size\<close> in bytes, after a check that compares it with a number of
  sectors; an \<^verbatim>\<open>erase_size\<close> below 512 gives the unit 0, and \<^verbatim>\<open>block % erase_size\<close> is then a
  division by zero, for which the call has no result. The zero-filling loops count down by whole native blocks
  and always end.
\<close>

type_synonym 'd be_state = "nat \<times> nat \<times> nat \<times> 'd"

definition byte_erase_unit :: "'d bdev \<Rightarrow> nat" where
  "byte_erase_unit dev =
     (if erase_size dev \<noteq> 0 \<and> native_blocks dev < erase_size dev
         \<and> erase_size dev mod native_blocks dev = 0
      then erase_size dev div USER_BLOCK_SIZE else native_blocks dev)"

definition byte_erase_first :: "'d bdev \<Rightarrow> nat \<Rightarrow> nat \<Rightarrow> 'd \<Rightarrow> bool \<times> 'd be_state" where
  "byte_erase_first dev blk sz d =
     (let nb = native_blocks dev; count = BYTE_TO_BLOCK sz in
      if blk mod nb \<noteq> 0 then
        (let block = mul32 (blk div nb) nb in
         case new_read_native dev d (block div nb) 1 of (err, temp, d') \<Rightarrow>
           if err \<noteq> 0 then (False, (block, count, sz, d'))
           else
             (let byte_offset = mul32 (sub32 blk block) USER_BLOCK_SIZE;
                  p_cnt = min count (sub32 (add32 block nb) blk);
                  byte_size = min sz (mul32 p_cnt USER_BLOCK_SIZE);
                  temp = splice_at temp byte_offset (replicate byte_size 0)
              in case new_write_native dev d' temp (block div nb) 1 of (err, d'') \<Rightarrow>
                   if err \<noteq> 0 then (False, (block, count, sz, d''))
                   else (True, (add32 block nb, sub32 count p_cnt, sub32 sz byte_size, d''))))
      else (True, (blk, count, sz, d)))"

lemma sub32_decreases: "0 < b \<Longrightarrow> b \<le> a \<Longrightarrow> sub32 a b < a"
proof -
  assume "0 < b" "b \<le> a"
  moreover have "int (sub32 a b) = int (a - b) mod 2 ^ 32"
    using \<open>b \<le> a\<close> by (simp add: sub32_int of_nat_diff)
  moreover have "int (a - b) mod 2 ^ 32 \<le> int (a - b)" by (intro zmod_le_nonneg_dividend) simp
  ultimately show ?thesis by linarith
qed

text \<open>One zero-filled native block; the status of the write is ignored.\<close>

definition zero_native :: "'d bdev \<Rightarrow> 'd be_state \<Rightarrow> 'd be_state" where
  "zero_native dev st = (case st of (block, block_erased, esize, d) \<Rightarrow>
     (case new_write_native dev d (replicate (block_size dev) 0) (block div native_blocks dev) 1 of
        (err, d') \<Rightarrow>
          (add32 block (native_blocks dev), sub32 block_erased (native_blocks dev),
           sub32 esize (mul32 (native_blocks dev) USER_BLOCK_SIZE), d')))"

lemma zero_native_left [simp]:
  "fst (snd (zero_native dev st)) = sub32 (fst (snd st)) (native_blocks dev)"
  by (simp add: zero_native_def split: prod.split)

function byte_zero_to_unit :: "'d bdev \<Rightarrow> 'd be_state \<Rightarrow> 'd be_state" where
  "byte_zero_to_unit dev st =
     (if 0 < native_blocks dev \<and> fst st mod byte_erase_unit dev \<noteq> 0
         \<and> native_blocks dev \<le> fst (snd st)
      then byte_zero_to_unit dev (zero_native dev st) else st)"
  by pat_completeness auto
termination
  by (relation "measure (\<lambda>(dev, st). fst (snd st))") (simp_all add: sub32_decreases)

function byte_zero_rest :: "'d bdev \<Rightarrow> 'd be_state \<Rightarrow> 'd be_state" where
  "byte_zero_rest dev st =
     (if 0 < native_blocks dev \<and> native_blocks dev \<le> fst (snd st)
      then byte_zero_rest dev (zero_native dev st) else st)"
  by pat_completeness auto
termination
  by (relation "measure (\<lambda>(dev, st). fst (snd st))") (simp_all add: sub32_decreases)

declare byte_zero_to_unit.simps [simp del] byte_zero_rest.simps [simp del]

definition byte_erase_units :: "'d bdev \<Rightarrow> 'd be_state \<Rightarrow> bool \<times> 'd be_state" where
  "byte_erase_units dev st = (case st of (block, block_erased, esize, d) \<Rightarrow>
     (let n = block_erased div byte_erase_unit dev * byte_erase_unit dev in
      if n \<noteq> 0 then
        (case new_erase_native dev d (block div native_blocks dev) (n div native_blocks dev) of
           (err, d') \<Rightarrow>
             if err \<noteq> 0 then (False, (block, block_erased, esize, d'))
             else (True, (add32 block n, sub32 block_erased n,
                          sub32 esize (mul32 n USER_BLOCK_SIZE), d')))
      else (True, st)))"

definition byte_erase_last :: "'d bdev \<Rightarrow> 'd be_state \<Rightarrow> 'd be_state" where
  "byte_erase_last dev st = (case st of (block, block_erased, esize, d) \<Rightarrow>
     (if block_erased \<noteq> 0 then
        (case new_read_native dev d (block div native_blocks dev) 1 of (err, temp, d') \<Rightarrow>
           if err \<noteq> 0 then (block, block_erased, esize, d')
           else
             (case new_write_native dev d' (splice_at temp 0 (replicate esize 0))
                     (block div native_blocks dev) 1 of (err, d'') \<Rightarrow>
                if err \<noteq> 0 then (block, block_erased, esize, d'')
                else (block, sub32 block_erased 1, 0, d'')))
      else st))"

definition bio_new_byte_erase :: "'d bdev \<Rightarrow> 'd \<Rightarrow> nat \<Rightarrow> nat \<Rightarrow> (nat \<times> 'd) option" where
  "bio_new_byte_erase dev d blk sz =
     (let count = BYTE_TO_BLOCK sz in
      case byte_erase_first dev blk sz d of (go, st) \<Rightarrow>
        if \<not> go then (case st of (block, block_erased, esize, d) \<Rightarrow> Some (sub32 count block_erased, d))
        else if byte_erase_unit dev = 0 then None
        else
          (case byte_erase_units dev (byte_zero_to_unit dev st) of
             (go, (block, block_erased, esize, d)) \<Rightarrow>
               if \<not> go \<or> add32 blk count = block then Some (sub32 count block_erased, d)
               else
                 (case byte_erase_last dev (byte_zero_rest dev (block, block_erased, esize, d)) of
                    (block, block_erased, esize, d) \<Rightarrow> Some (sub32 count block_erased, d))))"

end
