(* ===== verification/Bio_Byte_Correct.thy ===== *)
theory Bio_Byte_Correct
  imports Bio_Byte Scsi_Correct
begin

text \<open>
  Correctness of the byte-sized requests on any driver that meets \<open>native_device\<close>. A request
  for \<open>sz\<close> bytes covers \<open>BYTE_TO_BLOCK sz\<close> sectors; the calls move all \<open>sz\<close> bytes and never
  touch a byte behind the last of these sectors, but when the request ends inside the last
  native block they report fewer sectors than they have moved.
\<close>

section \<open>Progress of a request\<close>

lemma BYTE_TO_BLOCK_eq:
  assumes "0 < sz" and "sz < 2 ^ 32"
  shows "BYTE_TO_BLOCK sz = (sz - 1) div 512 + 1"
proof -
  have "sub32 sz 1 = sz - 1" using assms by (intro sub32_id) auto
  moreover have "(sz - 1) div 512 + 1 < 2 ^ 32" using assms by linarith
  ultimately show ?thesis by (simp add: BYTE_TO_BLOCK_def add32_id)
qed

lemma BYTE_TO_BLOCK_bounds:
  assumes "0 < sz" and "sz < 2 ^ 32"
  shows "0 < BYTE_TO_BLOCK sz" and "(BYTE_TO_BLOCK sz - 1) * 512 < sz"
    and "sz \<le> BYTE_TO_BLOCK sz * 512"
proof -
  have "(sz - 1) div 512 * 512 \<le> sz - 1" "sz - 1 < (sz - 1) div 512 * 512 + 512"
    using dividend_less_div_times [of 512 "sz - 1"] by simp_all
  then show "0 < BYTE_TO_BLOCK sz" "(BYTE_TO_BLOCK sz - 1) * 512 < sz"
      "sz \<le> BYTE_TO_BLOCK sz * 512"
    using assms(1) by (simp_all add: BYTE_TO_BLOCK_eq [OF assms]; linarith)+
qed

text \<open>
  \<open>todo nb blk sz r (block, left, rest, pos)\<close>: of a request for \<open>sz\<close> bytes at sector \<open>blk\<close>
  the first \<open>pos\<close> bytes are done and \<open>left\<close> sectors with \<open>rest\<close> bytes remain; \<open>r\<close> of them will
  remain when the whole native blocks are done.
\<close>

definition todo :: "nat \<Rightarrow> nat \<Rightarrow> nat \<Rightarrow> nat \<Rightarrow> nat \<times> nat \<times> nat \<times> nat \<Rightarrow> bool" where
  "todo nb blk sz r st \<longleftrightarrow> (case st of (block, left, rest, pos) \<Rightarrow>
     left \<le> BYTE_TO_BLOCK sz \<and> left mod nb = r \<and>
     (if left = 0 then sz \<le> pos \<and> pos \<le> BYTE_TO_BLOCK sz * 512
      else pos = (BYTE_TO_BLOCK sz - left) * 512 \<and> rest = sz - pos
        \<and> block = blk + (BYTE_TO_BLOCK sz - left) \<and> nb dvd block))"

lemma todo_start:
  assumes "0 < sz" and "sz < 2 ^ 32" and "blk mod nb = 0"
  shows "todo nb blk sz (BYTE_TO_BLOCK sz mod nb) (blk, BYTE_TO_BLOCK sz, sz, 0)"
  using BYTE_TO_BLOCK_bounds [OF assms(1,2)] assms(3) by (auto simp: todo_def)

lemma todo_first:
  assumes "0 < sz" and "sz < 2 ^ 32" and "p \<le> BYTE_TO_BLOCK sz"
    and "p < BYTE_TO_BLOCK sz \<Longrightarrow> block = blk + p \<and> nb dvd block"
  shows "todo nb blk sz ((BYTE_TO_BLOCK sz - p) mod nb)
     (block, BYTE_TO_BLOCK sz - p, sz - min sz (p * 512), min sz (p * 512))"
proof (cases "p = BYTE_TO_BLOCK sz")
  case True
  then show ?thesis using BYTE_TO_BLOCK_bounds(3) [OF assms(1,2)] by (simp add: todo_def)
next
  case False
  then have "p < BYTE_TO_BLOCK sz" using assms(3) by simp
  moreover from this have "p * 512 < sz" using BYTE_TO_BLOCK_bounds(2) [OF assms(1,2)] by linarith
  ultimately show ?thesis using assms(4) by (auto simp: todo_def)
qed

lemma todo_step:
  assumes "todo nb blk sz r (block, left, rest, pos)" and "0 < sz" and "sz < 2 ^ 32"
    and "0 < n" and "n \<le> left" and "nb dvd n" and "blk + BYTE_TO_BLOCK sz < 2 ^ 32"
  shows "todo nb blk sz r (add32 block n, sub32 left n, sub32 rest (mul32 n 512), pos + n * 512)"
proof -
  let ?c = "BYTE_TO_BLOCK sz"
  note c = BYTE_TO_BLOCK_bounds [OF assms(2,3)]
  from assms(1,4,5) have t: "left \<le> ?c" "left mod nb = r" "pos = (?c - left) * 512"
      "rest = sz - pos" "block = blk + (?c - left)" "nb dvd block"
    by (auto simp: todo_def)
  have a: "add32 block n = block + n" "sub32 left n = left - n"
    using t(1,5) assms(5,7) by (simp_all add: add32_id sub32_id)
  have r: "(left - n) mod nb = r"
    using mod_add_eq [of "left - n" nb n] t(2) assms(5,6) by (simp add: dvd_imp_mod_0)
  show ?thesis
  proof (cases "n = left")
    case True
    then have "pos + n * 512 = ?c * 512" using t(1,3) by linarith
    then show ?thesis using True c(3) r by (simp add: todo_def sub32_self)
  next
    case False
    have le: "pos + n * 512 < sz" using t(1,3) False assms(5) c(2) by linarith
    then have "n * 512 < 2 ^ 32" "n * 512 \<le> rest" "rest < 2 ^ 32" using t(4) assms(3) by linarith+
    then have "sub32 rest (mul32 n 512) = sz - (pos + n * 512)"
      using t(4) by (simp add: mul32_id sub32_id)
    moreover have "pos + n * 512 = (?c - (left - n)) * 512" "block + n = blk + (?c - (left - n))"
        "left - n \<le> ?c" "left - n \<noteq> 0"
      using t(1,3,5) False assms(5) by linarith+
    moreover have "nb dvd block + n" using t(6) assms(6) by (rule dvd_add)
    ultimately show ?thesis using r by (simp only: todo_def a) simp
  qed
qed

lemma todo_last:
  assumes "todo nb blk sz r (block, left, rest, pos)" and "0 < sz" and "sz < 2 ^ 32"
    and "left < nb" and "left \<noteq> 0"
  shows "pos + rest = sz" and "rest \<le> left * 512" and "left = r" and "block * 512 = blk * 512 + pos"
    and "nb dvd block" and "block < blk + BYTE_TO_BLOCK sz" and "r \<le> BYTE_TO_BLOCK sz"
proof -
  note c = BYTE_TO_BLOCK_bounds [OF assms(2,3)]
  from assms(1,5) have t: "left \<le> BYTE_TO_BLOCK sz" "left mod nb = r" "rest = sz - pos"
      "pos = (BYTE_TO_BLOCK sz - left) * 512" "block = blk + (BYTE_TO_BLOCK sz - left)" "nb dvd block"
    by (auto simp: todo_def)
  have "pos < sz" using t(1,4) c(2) assms(5) by linarith
  then show "pos + rest = sz" "rest \<le> left * 512" "left = r" "block * 512 = blk * 512 + pos"
      "nb dvd block" "block < blk + BYTE_TO_BLOCK sz" "r \<le> BYTE_TO_BLOCK sz"
    using t c(3) assms(4,5) by (simp_all; linarith)+
qed

lemma todo_native:
  assumes "todo nb blk sz r (block, left, rest, pos)" and "0 < n" and "n \<le> left"
    and "blk + BYTE_TO_BLOCK sz \<le> u"
  shows "block + n \<le> u" and "block * 512 = blk * 512 + pos"
    and "pos + n * 512 \<le> BYTE_TO_BLOCK sz * 512" and "nb dvd block"
proof -
  from assms(1-3) have t: "left \<le> BYTE_TO_BLOCK sz" "pos = (BYTE_TO_BLOCK sz - left) * 512"
      "block = blk + (BYTE_TO_BLOCK sz - left)" "nb dvd block"
    by (auto simp: todo_def)
  show "nb dvd block" by (rule t(4))
  show "block + n \<le> u" "block * 512 = blk * 512 + pos" "pos + n * 512 \<le> BYTE_TO_BLOCK sz * 512"
    using t(1,2,3) assms(3,4) by linarith+
qed

text \<open>
  The sectors left when the whole native blocks are done; a read that fits into one native
  block takes the path of a partial first block.
\<close>

definition write_tail :: "nat \<Rightarrow> nat \<Rightarrow> nat \<Rightarrow> nat" where
  "write_tail nb blk cnt =
     (cnt - (if blk mod nb \<noteq> 0 then min cnt (nb - blk mod nb) else 0)) mod nb"

definition read_tail :: "nat \<Rightarrow> nat \<Rightarrow> nat \<Rightarrow> nat" where
  "read_tail nb blk cnt =
     (cnt - (if blk mod nb \<noteq> 0 \<or> cnt < nb then min cnt (nb - blk mod nb) else 0)) mod nb"

context native_device
begin

lemma byte_per_time_ok:
  assumes "nb \<le> left"
  shows "0 < byte_per_time dev left" and "byte_per_time dev left \<le> left"
    and "nb dvd byte_per_time dev left" and "byte_per_time dev left \<le> max_blkcnt dev"
    and "mul32 (byte_per_time dev left) 512 = byte_per_time dev left * 512"
proof -
  let ?m = "if max_blkcnt dev < left then max_blkcnt dev else left"
  have eq: "byte_per_time dev left = ?m div nb * nb" by (simp add: byte_per_time_def)
  have "nb \<le> ?m" using assms nb_le_max by simp
  then show "0 < byte_per_time dev left" using nb_pos by (simp only: eq) (simp add: div_greater_zero_iff)
  have "byte_per_time dev left \<le> ?m" unfolding eq by simp
  then show "byte_per_time dev left \<le> left" and le: "byte_per_time dev left \<le> max_blkcnt dev"
    by (simp_all split: if_splits)
  show "nb dvd byte_per_time dev left" unfolding eq by simp
  show "mul32 (byte_per_time dev left) 512 = byte_per_time dev left * 512"
    using le max_small by (intro mul32_id) linarith
qed

text \<open>The arithmetic of a partial first block, for a request of \<open>sz\<close> bytes.\<close>

lemma byte_first:
  assumes "0 < sz" and "sz < 2 ^ 32" and "blk + BYTE_TO_BLOCK sz \<le> user_blocks"
  defines "b \<equiv> blk div nb * nb" and "p \<equiv> min (BYTE_TO_BLOCK sz) (nb - blk mod nb)"
  shows "mul32 (sub32 blk b) 512 = (blk - b) * 512"
    and "min (BYTE_TO_BLOCK sz) (sub32 (b + nb) blk) = p"
    and "mul32 p 512 = p * 512" and "blk - b + p \<le> nb"
    and "add32 blk p = blk + p" and "sub32 (BYTE_TO_BLOCK sz) p = BYTE_TO_BLOCK sz - p"
    and "sub32 sz (min sz (p * 512)) = sz - min sz (p * 512)"
    and "p < BYTE_TO_BLOCK sz \<Longrightarrow> blk + p = b + nb \<and> nb dvd blk + p"
proof -
  have blk: "blk < user_blocks" using assms(3) BYTE_TO_BLOCK_bounds(1) [OF assms(1,2)] by linarith
  note pf = partial_first [OF blk, folded b_def]
  have bm: "b + nb - blk = nb - blk mod nb"
    using div_mult_mod_eq [of blk nb] unfolding b_def by linarith
  show "mul32 (sub32 blk b) 512 = (blk - b) * 512"
    unfolding pf(6) using pf(2,3) nb_small by (intro mul32_id) linarith
  show "min (BYTE_TO_BLOCK sz) (sub32 (b + nb) blk) = p" by (simp only: pf(7) bm p_def)
  have p: "p \<le> b + nb - blk" "p \<le> BYTE_TO_BLOCK sz" unfolding bm p_def by simp_all
  then show "mul32 p 512 = p * 512" using pf(2) nb_small by (intro mul32_id) linarith
  show "blk - b + p \<le> nb" using p(1) pf(2,3) by linarith
  show "add32 blk p = blk + p" using p(2) assms(3) size_small by (intro add32_id) linarith
  show "sub32 (BYTE_TO_BLOCK sz) p = BYTE_TO_BLOCK sz - p"
    using p(2) assms(3) size_small by (intro sub32_id) linarith+
  show "sub32 sz (min sz (p * 512)) = sz - min sz (p * 512)"
    using assms(2) by (intro sub32_id) linarith+
  assume "p < BYTE_TO_BLOCK sz"
  then have "p = b + nb - blk" unfolding bm p_def by simp
  then have "blk + p = b + nb" using pf(3) by simp
  then show "blk + p = b + nb \<and> nb dvd blk + p" unfolding b_def by simp
qed

end

section \<open>Reading\<close>

definition br_inv :: "nat \<Rightarrow> ('d \<Rightarrow> byte list) \<Rightarrow> ('d \<Rightarrow> bool) \<Rightarrow> byte list \<Rightarrow> byte list
    \<Rightarrow> nat \<Rightarrow> nat \<Rightarrow> nat \<Rightarrow> 'd br_state \<Rightarrow> bool" where
  "br_inv nb img ok I buf blk sz r st \<longleftrightarrow> (case st of (block, left, rest, pos, buf', d) \<Rightarrow>
     todo nb blk sz r (block, left, rest, pos) \<and> ok d \<and> img d = I
     \<and> buf' = splice_at buf 0 (slice_at (blk * 512) pos I))"

context native_device
begin

lemma byte_read_first_ok:
  assumes "0 < sz" and "sz < 2 ^ 32" and "blk + BYTE_TO_BLOCK sz \<le> user_blocks" and "ok d"
  shows "\<exists>st. byte_read_first dev blk sz buf d = (True, st)
      \<and> br_inv nb img ok (img d) buf blk sz (read_tail nb blk (BYTE_TO_BLOCK sz)) st"
proof (cases "blk mod nb \<noteq> 0 \<or> BYTE_TO_BLOCK sz < nb")
  case True
  let ?b = "blk div nb * nb"
  let ?p = "min (BYTE_TO_BLOCK sz) (nb - blk mod nb)"
  have blk: "blk < user_blocks" using assms(3) BYTE_TO_BLOCK_bounds(1) [OF assms(1,2)] by linarith
  note pf = partial_first [OF blk] and bf = byte_first [OF assms(1-3)]
  obtain d' where rd: "new_read_native dev d (?b div nb) 1
      = (0, slice_at (?b * 512) (nb * 512) (img d), d')" "ok d'" "img d' = img d"
    using native_read1 [OF assms(4) _ pf(4)] by auto
  have sl: "slice_at ((blk - ?b) * 512) (min sz (?p * 512)) (slice_at (?b * 512) (nb * 512) (img d))
      = slice_at (blk * 512) (min sz (?p * 512)) (img d)"
  proof -
    have "?b * 512 + (blk - ?b) * 512 = blk * 512" using pf(2) by (simp flip: distrib_right)
    moreover have "(blk - ?b) * 512 + min sz (?p * 512) \<le> nb * 512" using bf(4) by linarith
    ultimately show ?thesis by (simp add: slice_slice)
  qed
  have "byte_read_first dev blk sz buf d = (True, (blk + ?p, BYTE_TO_BLOCK sz - ?p,
      sz - min sz (?p * 512), min sz (?p * 512),
      splice_at buf 0 (slice_at (blk * 512) (min sz (?p * 512)) (img d)), d'))"
    using True rd(1)
    by (simp only: byte_read_first_def Let_def pf(1,5) USER_BLOCK_SIZE_def bf(1,2,3,5,6,7)) (simp add: sl)
  moreover have "todo nb blk sz (read_tail nb blk (BYTE_TO_BLOCK sz))
      (blk + ?p, BYTE_TO_BLOCK sz - ?p, sz - min sz (?p * 512), min sz (?p * 512))"
    using todo_first [OF assms(1,2) min.cobounded1, of "nb - blk mod nb" "blk + ?p" blk nb] bf(8) True
    by (simp add: read_tail_def)
  ultimately show ?thesis using rd(2,3) by (auto simp: br_inv_def)
next
  case False
  then show ?thesis using assms(4) todo_start [OF assms(1,2), of blk nb]
    by (auto simp: byte_read_first_def br_inv_def read_tail_def Let_def)
qed

lemma byte_read_loop_ok:
  assumes "br_inv nb img ok I buf blk sz r st" and "0 < sz" and "sz < 2 ^ 32"
    and "blk + BYTE_TO_BLOCK sz \<le> user_blocks" and "BYTE_TO_BLOCK sz * 512 \<le> length buf"
  shows "\<exists>st'. byte_read_loop dev st = Some (True, st')
      \<and> br_inv nb img ok I buf blk sz r st' \<and> fst (snd st') < nb"
  using assms(1)
proof (induction "fst (snd st)" arbitrary: st rule: less_induct)
  case less
  obtain block left rest pos buf' d where st: "st = (block, left, rest, pos, buf', d)"
    by (cases st) auto
  from less.prems have inv: "todo nb blk sz r (block, left, rest, pos)" "ok d" "img d = I"
      "buf' = splice_at buf 0 (slice_at (blk * 512) pos I)"
    by (auto simp: br_inv_def st)
  show ?case
  proof (cases "nb \<le> left")
    case True
    let ?n = "byte_per_time dev left"
    note n = byte_per_time_ok [OF True]
    note t = todo_native [OF inv(1) n(1,2) assms(4)]
    obtain d' where rd: "new_read_native dev d (block div nb) (?n div nb)
        = (0, slice_at (block * 512) (?n * 512) I, d')" "ok d'" "img d' = I"
      using native_read [OF inv(2) t(4) n(3,1) t(1) n(4)] inv(3) by auto
    have lenI: "length I = user_blocks * 512" using img_user [OF inv(2)] inv(3) by simp
    have "pos + ?n * 512 \<le> length buf" "block * 512 + ?n * 512 \<le> length I"
      using t(1,3) assms(5) lenI by linarith+
    then have buf: "splice_at buf' pos (slice_at (block * 512) (?n * 512) I)
        = splice_at buf 0 (slice_at (blk * 512) (pos + ?n * 512) I)"
      using advance_read [of pos "?n * 512" buf "blk * 512" I] inv(4) t(2) by simp
    let ?st = "(add32 block ?n, sub32 left ?n, sub32 rest (mul32 ?n 512), pos + ?n * 512,
        splice_at buf 0 (slice_at (blk * 512) (pos + ?n * 512) I), d')"
    have step: "byte_read_loop dev st = byte_read_loop dev ?st"
      by (subst byte_read_loop.simps)
        (use True rd(1) in \<open>simp add: st n(5) buf USER_BLOCK_SIZE_def Let_def\<close>)
    have "br_inv nb img ok I buf blk sz r ?st"
      using todo_step [OF inv(1) assms(2,3) n(1,2,3)] assms(4) size_small rd(2,3)
      by (simp add: br_inv_def)
    moreover have "sub32 left ?n < left" using n(1,2) by (rule sub32_decreases)
    ultimately show ?thesis using less.hyps [of ?st] by (simp only: step) (simp add: st)
  next
    case False
    then have "byte_read_loop dev st = Some (True, st)"
      by (subst byte_read_loop.simps) (simp add: st)
    then show ?thesis using less.prems False by (simp add: st)
  qed
qed

lemma byte_read_last_ok:
  assumes "br_inv nb img ok I buf blk sz r st" and "fst (snd st) < nb" and "0 < sz" and "sz < 2 ^ 32"
    and "blk + BYTE_TO_BLOCK sz \<le> user_blocks" and "BYTE_TO_BLOCK sz * 512 \<le> length buf"
  shows "\<exists>block rest pos d' m. byte_read_last dev st
      = (block, r - 1, rest, pos, splice_at buf 0 (slice_at (blk * 512) m I), d')
      \<and> ok d' \<and> img d' = I \<and> sz \<le> m \<and> m \<le> BYTE_TO_BLOCK sz * 512 \<and> r \<le> BYTE_TO_BLOCK sz"
proof -
  obtain block left rest pos buf' d where st: "st = (block, left, rest, pos, buf', d)"
    by (cases st) auto
  from assms(1) have inv: "todo nb blk sz r (block, left, rest, pos)" "ok d" "img d = I"
      "buf' = splice_at buf 0 (slice_at (blk * 512) pos I)"
    by (auto simp: br_inv_def st)
  show ?thesis
  proof (cases "left = 0")
    case True
    then show ?thesis using inv by (auto simp: byte_read_last_def st todo_def)
  next
    case False
    have left: "left < nb" using assms(2) st by simp
    note t = todo_last [OF inv(1) assms(3,4) left False]
    have blk: "block < user_blocks" using t(6) assms(5) by linarith
    have up: "block + nb \<le> user_blocks" using partial_first(4) [OF blk] t(5) by simp
    obtain d' where rd: "new_read_native dev d (block div nb) 1
        = (0, slice_at (block * 512) (nb * 512) I, d')" "ok d'" "img d' = I"
      using native_read1 [OF inv(2) t(5) up] inv(3) by auto
    note c = BYTE_TO_BLOCK_bounds [OF assms(3,4)]
    have "rest \<le> nb * 512" using t(2) left by linarith
    then have sl: "slice_at 0 rest (slice_at (block * 512) (nb * 512) I)
        = slice_at (blk * 512 + pos) rest I"
      by (subst slice_slice) (simp_all add: t(4))
    have lenI: "length I = user_blocks * 512" using img_user [OF inv(2)] inv(3) by simp
    have "blk * 512 + sz \<le> length I" using c(3) assms(5) lenI by linarith
    then have "splice_at buf' pos (slice_at (blk * 512 + pos) rest I)
        = splice_at buf 0 (slice_at (blk * 512) sz I)"
      using advance_read [of pos rest buf "blk * 512" I] t(1) c(3) assms(6) inv(4)
      by (simp add: add.assoc)
    moreover have "sub32 left 1 = r - 1"
      using False t(3,7) assms(5) size_small by (subst sub32_id) linarith+
    ultimately show ?thesis using False rd sl c(3) t(7)
      by (auto simp: byte_read_last_def st intro!: exI [of _ sz])
  qed
qed

theorem byte_read_ok:
  assumes "ok d" and "0 < sz" and "sz < 2 ^ 32" and "blk + BYTE_TO_BLOCK sz \<le> user_blocks"
    and "BYTE_TO_BLOCK sz * 512 \<le> length buf"
    and "flags dev AND BIO_FLAG_CACHE_ALIGNED_READS = 0 \<or> is_aligned addr CACHE_LINE"
  shows "\<exists>m d'. bio_new_byte_read dev addr buf d blk sz
      = Some (BYTE_TO_BLOCK sz - (read_tail nb blk (BYTE_TO_BLOCK sz) - 1),
              splice_at buf 0 (slice_at (blk * 512) m (img d)), d')
      \<and> sz \<le> m \<and> m \<le> BYTE_TO_BLOCK sz * 512 \<and> ok d' \<and> img d' = img d"
proof -
  let ?r = "read_tail nb blk (BYTE_TO_BLOCK sz)"
  obtain st where st: "byte_read_first dev blk sz buf d = (True, st)"
      "br_inv nb img ok (img d) buf blk sz ?r st"
    using byte_read_first_ok [OF assms(2-4,1)] by blast
  obtain st' where lp: "byte_read_loop dev st = Some (True, st')"
      "br_inv nb img ok (img d) buf blk sz ?r st'" "fst (snd st') < nb"
    using byte_read_loop_ok [OF st(2) assms(2-5)] by auto
  obtain block rest pos d' m where la: "byte_read_last dev st'
      = (block, ?r - 1, rest, pos, splice_at buf 0 (slice_at (blk * 512) m (img d)), d')"
      "ok d'" "img d' = img d" "sz \<le> m" "m \<le> BYTE_TO_BLOCK sz * 512" "?r \<le> BYTE_TO_BLOCK sz"
    using byte_read_last_ok [OF lp(2,3) assms(2-5)] by auto
  have "sub32 (BYTE_TO_BLOCK sz) (?r - 1) = BYTE_TO_BLOCK sz - (?r - 1)"
    using la(6) assms(4) size_small by (intro sub32_id) linarith+
  then show ?thesis using la assms(6) by (auto simp: bio_new_byte_read_def st(1) lp(1) Let_def)
qed

end

section \<open>Writing\<close>

definition bw_inv :: "nat \<Rightarrow> ('d \<Rightarrow> byte list) \<Rightarrow> ('d \<Rightarrow> bool) \<Rightarrow> byte list \<Rightarrow> byte list
    \<Rightarrow> nat \<Rightarrow> nat \<Rightarrow> nat \<Rightarrow> 'd bw_state \<Rightarrow> bool" where
  "bw_inv nb img ok I src blk sz r st \<longleftrightarrow> (case st of (block, left, rest, pos, d) \<Rightarrow>
     todo nb blk sz r (block, left, rest, pos) \<and> ok d
     \<and> img d = splice_at I (blk * 512) (slice_at 0 pos src))"

context native_device
begin

lemma byte_write_first_ok:
  assumes "0 < sz" and "sz < 2 ^ 32" and "blk + BYTE_TO_BLOCK sz \<le> user_blocks" and "ok d"
  shows "\<exists>st. byte_write_first dev src blk sz d = (True, st)
      \<and> bw_inv nb img ok (img d) src blk sz (write_tail nb blk (BYTE_TO_BLOCK sz)) st"
proof (cases "blk mod nb \<noteq> 0")
  case True
  let ?b = "blk div nb * nb"
  let ?p = "min (BYTE_TO_BLOCK sz) (nb - blk mod nb)"
  let ?s = "min sz (?p * 512)"
  have blk: "blk < user_blocks" using assms(3) BYTE_TO_BLOCK_bounds(1) [OF assms(1,2)] by linarith
  note pf = partial_first [OF blk] and bf = byte_first [OF assms(1-3)]
  have "(blk - ?b) * 512 + length (slice_at 0 ?s src) \<le> nb * 512"
    unfolding length_slice using bf(4) by linarith
  then obtain d' d'' where rd: "new_read_native dev d (?b div nb) 1
        = (0, slice_at (?b * 512) (nb * 512) (img d), d')"
    and wr: "new_write_native dev d' (splice_at (slice_at (?b * 512) (nb * 512) (img d))
          ((blk - ?b) * 512) (slice_at 0 ?s src)) (?b div nb) 1 = (0, d'')"
      "ok d''" "img d'' = splice_at (img d) (blk * 512) (slice_at 0 ?s src)"
    using native_rmw [OF assms(4) dvd_triv_right pf(4,2)] by blast
  have "byte_write_first dev src blk sz d
      = (True, (blk + ?p, BYTE_TO_BLOCK sz - ?p, sz - ?s, ?s, d''))"
    using True rd wr(1)
    by (simp only: byte_write_first_def Let_def pf(1,5) USER_BLOCK_SIZE_def bf(1,2,3,5,6,7)) simp
  moreover have "todo nb blk sz (write_tail nb blk (BYTE_TO_BLOCK sz))
      (blk + ?p, BYTE_TO_BLOCK sz - ?p, sz - ?s, ?s)"
    using todo_first [OF assms(1,2) min.cobounded1, of "nb - blk mod nb" "blk + ?p" blk nb] bf(8) True
    by (simp add: write_tail_def)
  ultimately show ?thesis using wr(2,3) by (auto simp: bw_inv_def)
next
  case False
  then show ?thesis using assms(4) todo_start [OF assms(1,2), of blk nb]
    by (auto simp: byte_write_first_def bw_inv_def write_tail_def Let_def)
qed

lemma byte_write_loop_ok:
  assumes "bw_inv nb img ok I src blk sz r st" and "0 < sz" and "sz < 2 ^ 32"
    and "blk + BYTE_TO_BLOCK sz \<le> user_blocks" and "BYTE_TO_BLOCK sz * 512 \<le> length src"
    and lenI: "length I = user_blocks * 512"
  shows "\<exists>st'. byte_write_loop dev src st = Some (True, st')
      \<and> bw_inv nb img ok I src blk sz r st' \<and> fst (snd st') < nb"
  using assms(1)
proof (induction "fst (snd st)" arbitrary: st rule: less_induct)
  case less
  obtain block left rest pos d where st: "st = (block, left, rest, pos, d)" by (cases st) auto
  from less.prems have inv: "todo nb blk sz r (block, left, rest, pos)" "ok d"
      "img d = splice_at I (blk * 512) (slice_at 0 pos src)"
    by (auto simp: bw_inv_def st)
  show ?case
  proof (cases "nb \<le> left")
    case True
    let ?n = "byte_per_time dev left"
    note n = byte_per_time_ok [OF True]
    note t = todo_native [OF inv(1) n(1,2) assms(4)]
    have "?n * 512 \<le> length (drop pos src)" unfolding length_drop using t(3) assms(5) by linarith
    then obtain d' where wr: "new_write_native dev d (drop pos src) (block div nb) (?n div nb)
        = (0, d')" "ok d'" "img d' = splice_at (img d) (block * 512) (slice_at pos (?n * 512) src)"
      using native_write [OF inv(2) t(4) n(3,1) t(1) n(4), of "drop pos src"]
      unfolding slice_at_def by blast
    have "pos + ?n * 512 \<le> length src" "block * 512 + ?n * 512 \<le> length I"
      using t(1,3) assms(5) lenI by linarith+
    then have img: "img d' = splice_at I (blk * 512) (slice_at 0 (pos + ?n * 512) src)"
      using advance_write [of pos "?n * 512" src "blk * 512" I] wr(3) inv(3) t(2) by simp
    let ?st = "(add32 block ?n, sub32 left ?n, sub32 rest (mul32 ?n 512), pos + ?n * 512, d')"
    have step: "byte_write_loop dev src st = byte_write_loop dev src ?st"
      by (subst byte_write_loop.simps)
        (use True wr(1) in \<open>simp add: st n(5) USER_BLOCK_SIZE_def Let_def\<close>)
    have "bw_inv nb img ok I src blk sz r ?st"
      using todo_step [OF inv(1) assms(2,3) n(1,2,3)] assms(4) size_small wr(2) img
      by (simp add: bw_inv_def)
    moreover have "sub32 left ?n < left" using n(1,2) by (rule sub32_decreases)
    ultimately show ?thesis using less.hyps [of ?st] by (simp only: step) (simp add: st)
  next
    case False
    then have "byte_write_loop dev src st = Some (True, st)"
      by (subst byte_write_loop.simps) (simp add: st)
    then show ?thesis using less.prems False by (simp add: st)
  qed
qed

text \<open>Read, modify, write of a partial last block, for a write and for an erase.\<close>

lemma todo_rmw:
  assumes "todo nb blk sz r (block, left, rest, pos)" and "0 < sz" and "sz < 2 ^ 32"
    and "left < nb" and "left \<noteq> 0" and "blk + BYTE_TO_BLOCK sz \<le> user_blocks" and "ok d"
    and "length ys \<le> rest"
  shows "\<exists>d'. new_read_native dev d (block div nb) 1
        = (0, slice_at (block * 512) (nb * 512) (img d), d') \<and>
      (\<exists>d''. new_write_native dev d' (splice_at (slice_at (block * 512) (nb * 512) (img d)) 0 ys)
          (block div nb) 1 = (0, d'') \<and> ok d'' \<and> img d'' = splice_at (img d) (blk * 512 + pos) ys)"
    and "sub32 left 1 = r - 1"
proof -
  note t = todo_last [OF assms(1-5)]
  have blk: "block < user_blocks" using t(6) assms(6) by linarith
  have up: "block + nb \<le> user_blocks" using partial_first(4) [OF blk] t(5) by simp
  have "(block - block) * 512 + length ys \<le> nb * 512" using t(2) assms(4,8) by linarith
  from native_rmw [OF assms(7) t(5) up order_refl this]
  show "\<exists>d'. new_read_native dev d (block div nb) 1
        = (0, slice_at (block * 512) (nb * 512) (img d), d') \<and>
      (\<exists>d''. new_write_native dev d' (splice_at (slice_at (block * 512) (nb * 512) (img d)) 0 ys)
          (block div nb) 1 = (0, d'') \<and> ok d'' \<and> img d'' = splice_at (img d) (blk * 512 + pos) ys)"
    by (simp add: t(4))
  show "sub32 left 1 = r - 1"
    using assms(5,6) t(3,7) size_small by (subst sub32_id) linarith+
qed

lemma byte_write_last_ok:
  assumes "bw_inv nb img ok I src blk sz r st" and "fst (snd st) < nb" and "0 < sz" and "sz < 2 ^ 32"
    and "blk + BYTE_TO_BLOCK sz \<le> user_blocks" and "BYTE_TO_BLOCK sz * 512 \<le> length src"
    and lenI: "length I = user_blocks * 512"
  shows "\<exists>block rest pos d' m. byte_write_last dev src st = (block, r - 1, rest, pos, d')
      \<and> ok d' \<and> img d' = splice_at I (blk * 512) (slice_at 0 m src)
      \<and> sz \<le> m \<and> m \<le> BYTE_TO_BLOCK sz * 512 \<and> r \<le> BYTE_TO_BLOCK sz"
proof -
  obtain block left rest pos d where st: "st = (block, left, rest, pos, d)" by (cases st) auto
  from assms(1) have inv: "todo nb blk sz r (block, left, rest, pos)" "ok d"
      "img d = splice_at I (blk * 512) (slice_at 0 pos src)"
    by (auto simp: bw_inv_def st)
  show ?thesis
  proof (cases "left = 0")
    case True
    then show ?thesis using inv by (auto simp: byte_write_last_def st todo_def)
  next
    case False
    have left: "left < nb" using assms(2) st by simp
    note t = todo_last [OF inv(1) assms(3,4) left False]
    note c = BYTE_TO_BLOCK_bounds [OF assms(3,4)]
    have len: "length (slice_at pos rest src) \<le> rest" by simp
    note rmw = todo_rmw [OF inv(1) assms(3,4) left False assms(5) inv(2) len]
    then obtain d' d'' where rd: "new_read_native dev d (block div nb) 1
          = (0, slice_at (block * 512) (nb * 512) (img d), d')"
      and wr: "new_write_native dev d' (splice_at (slice_at (block * 512) (nb * 512) (img d))
            0 (slice_at pos rest src)) (block div nb) 1 = (0, d'')"
        "ok d''" "img d'' = splice_at (img d) (blk * 512 + pos) (slice_at pos rest src)"
      by blast
    have "pos + rest \<le> length src" "blk * 512 + pos + rest \<le> length I"
      using t(1) c(3) assms(5,6) lenI by linarith+
    then have "img d'' = splice_at I (blk * 512) (slice_at 0 sz src)"
      using advance_write [of pos rest src "blk * 512" I] wr(3) inv(3) t(1) by simp
    then show ?thesis using False rd wr(1,2) rmw(2) c(3) t(7)
      by (auto simp: byte_write_last_def st intro!: exI [of _ sz])
  qed
qed

theorem byte_write_ok:
  assumes "ok d" and "0 < sz" and "sz < 2 ^ 32" and "blk + BYTE_TO_BLOCK sz \<le> user_blocks"
    and "BYTE_TO_BLOCK sz * 512 \<le> length src"
    and "flags dev AND BIO_FLAG_CACHE_ALIGNED_WRITES = 0 \<or> is_aligned addr CACHE_LINE"
  shows "\<exists>m d'. bio_new_byte_write dev addr d src blk sz
      = Some (BYTE_TO_BLOCK sz - (write_tail nb blk (BYTE_TO_BLOCK sz) - 1), d')
      \<and> sz \<le> m \<and> m \<le> BYTE_TO_BLOCK sz * 512 \<and> ok d'
      \<and> img d' = splice_at (img d) (blk * 512) (slice_at 0 m src)"
proof -
  let ?r = "write_tail nb blk (BYTE_TO_BLOCK sz)"
  note lenI = img_user [OF assms(1)]
  obtain st where st: "byte_write_first dev src blk sz d = (True, st)"
      "bw_inv nb img ok (img d) src blk sz ?r st"
    using byte_write_first_ok [OF assms(2-4,1)] by blast
  obtain st' where lp: "byte_write_loop dev src st = Some (True, st')"
      "bw_inv nb img ok (img d) src blk sz ?r st'" "fst (snd st') < nb"
    using byte_write_loop_ok [OF st(2) assms(2-5) lenI] by auto
  obtain block rest pos d' m where la: "byte_write_last dev src st' = (block, ?r - 1, rest, pos, d')"
      "ok d'" "img d' = splice_at (img d) (blk * 512) (slice_at 0 m src)"
      "sz \<le> m" "m \<le> BYTE_TO_BLOCK sz * 512" "?r \<le> BYTE_TO_BLOCK sz"
    using byte_write_last_ok [OF lp(2,3) assms(2-5) lenI] by auto
  have "sub32 (BYTE_TO_BLOCK sz) (?r - 1) = BYTE_TO_BLOCK sz - (?r - 1)"
    using la(6) assms(4) size_small by (intro sub32_id) linarith+
  then show ?thesis using la assms(6) by (auto simp: bio_new_byte_write_def st(1) lp(1) Let_def)
qed

end

section \<open>Erasing\<close>

definition be_inv :: "nat \<Rightarrow> ('d \<Rightarrow> byte list) \<Rightarrow> ('d \<Rightarrow> bool) \<Rightarrow> byte list
    \<Rightarrow> nat \<Rightarrow> nat \<Rightarrow> nat \<Rightarrow> 'd be_state \<Rightarrow> bool" where
  "be_inv nb img ok I blk sz r st \<longleftrightarrow> (case st of (block, left, rest, d) \<Rightarrow>
     ok d \<and> (\<exists>es. todo nb blk sz r (block, left, rest, length es)
               \<and> img d = splice_at I (blk * 512) es))"

lemma be_invI:
  "ok d \<Longrightarrow> todo nb blk sz r (block, left, rest, length es) \<Longrightarrow> img d = splice_at I (blk * 512) es
   \<Longrightarrow> be_inv nb img ok I blk sz r (block, left, rest, d)"
  by (auto simp: be_inv_def)

lemma be_invE:
  assumes "be_inv nb img ok I blk sz r (block, left, rest, d)"
  obtains es where "ok d" and "todo nb blk sz r (block, left, rest, length es)"
    and "img d = splice_at I (blk * 512) es"
  using assms unfolding be_inv_def by blast

text \<open>A step that replaces the next \<open>n\<close> sectors, whatever it puts there.\<close>

lemma be_inv_step:
  assumes "be_inv nb img ok I blk sz r (block, left, rest, d)" and "0 < sz" and "sz < 2 ^ 32"
    and "0 < n" and "n \<le> left" and "nb dvd n" and "blk + BYTE_TO_BLOCK sz \<le> u"
    and "u < 2 ^ 32" and "length I = u * 512"
    and "ok d'" and "length zs = n * 512" and "img d' = splice_at (img d) (block * 512) zs"
  shows "be_inv nb img ok I blk sz r
    (add32 block n, sub32 left n, sub32 rest (mul32 n 512), d')"
proof -
  from assms(1) obtain es where inv: "todo nb blk sz r (block, left, rest, length es)"
      "img d = splice_at I (blk * 512) es"
    by (rule be_invE)
  note t = todo_native [OF inv(1) assms(4,5,7)]
  have "blk * 512 + length es + length zs \<le> length I" using t(1,2) assms(9,11) by linarith
  then have "img d' = splice_at I (blk * 512) (es @ zs)"
    using splice_append [of "blk * 512" es zs I] assms(12) inv(2) t(2) by simp
  moreover have "todo nb blk sz r (add32 block n, sub32 left n, sub32 rest (mul32 n 512),
      length (es @ zs))"
    using todo_step [OF inv(1) assms(2-6)] assms(7,8,11) by simp
  ultimately show ?thesis using assms(10) by (blast intro: be_invI)
qed

context native_device
begin

lemma byte_erase_first_ok:
  assumes "0 < sz" and "sz < 2 ^ 32" and "blk + BYTE_TO_BLOCK sz \<le> user_blocks" and "ok d"
  shows "\<exists>st. byte_erase_first dev blk sz d = (True, st)
      \<and> be_inv nb img ok (img d) blk sz (write_tail nb blk (BYTE_TO_BLOCK sz)) st"
proof (cases "blk mod nb \<noteq> 0")
  case True
  let ?b = "blk div nb * nb"
  let ?p = "min (BYTE_TO_BLOCK sz) (nb - blk mod nb)"
  let ?z = "replicate (min sz (?p * 512)) (0 :: byte)"
  have blk: "blk < user_blocks" using assms(3) BYTE_TO_BLOCK_bounds(1) [OF assms(1,2)] by linarith
  note pf = partial_first [OF blk] and bf = byte_first [OF assms(1-3)]
  have "(blk - ?b) * 512 + length ?z \<le> nb * 512"
    unfolding length_replicate using bf(4) by linarith
  then obtain d' d'' where rd: "new_read_native dev d (?b div nb) 1
        = (0, slice_at (?b * 512) (nb * 512) (img d), d')"
    and wr: "new_write_native dev d' (splice_at (slice_at (?b * 512) (nb * 512) (img d))
          ((blk - ?b) * 512) ?z) (?b div nb) 1 = (0, d'')"
      "ok d''" "img d'' = splice_at (img d) (blk * 512) ?z"
    using native_rmw [OF assms(4) dvd_triv_right pf(4,2)] by blast
  have "byte_erase_first dev blk sz d
      = (True, (?b + nb, BYTE_TO_BLOCK sz - ?p, sz - min sz (?p * 512), d''))"
    using True rd wr(1)
    by (simp only: byte_erase_first_def Let_def pf(1,5) USER_BLOCK_SIZE_def bf(1,2,3,6,7)) simp
  moreover have "todo nb blk sz (write_tail nb blk (BYTE_TO_BLOCK sz))
      (?b + nb, BYTE_TO_BLOCK sz - ?p, sz - min sz (?p * 512), length ?z)"
    using todo_first [OF assms(1,2) min.cobounded1, of "nb - blk mod nb" "?b + nb" blk nb] bf(8) True
    by (simp add: write_tail_def)
  ultimately show ?thesis using wr(2,3) be_invI by metis
next
  case False
  then show ?thesis using assms(4) todo_start [OF assms(1,2), of blk nb]
    by (auto simp: byte_erase_first_def be_inv_def write_tail_def Let_def intro!: exI [of _ "[]"])
qed

lemma zero_native_ok:
  assumes "be_inv nb img ok I blk sz r st" and "nb \<le> fst (snd st)" and "0 < sz" and "sz < 2 ^ 32"
    and "blk + BYTE_TO_BLOCK sz \<le> user_blocks" and "length I = user_blocks * 512"
  shows "be_inv nb img ok I blk sz r (zero_native dev st)"
proof -
  obtain block left rest d where st: "st = (block, left, rest, d)" by (cases st) auto
  have left: "nb \<le> left" using assms(2) st by simp
  obtain es :: "byte list" where inv: "ok d" "todo nb blk sz r (block, left, rest, length es)"
    using assms(1) unfolding st by (rule be_invE)
  note t = todo_native [OF inv(2) nb_pos left assms(5)]
  obtain d' where wr: "new_write_native dev d (replicate (block_size dev) 0) (block div nb) 1 = (0, d')"
      "ok d'" "img d' = splice_at (img d) (block * 512) (replicate (nb * 512) 0)"
    using native_write1 [OF inv(1) t(4,1), of "replicate (block_size dev) 0"] by (auto simp: bs_user)
  show ?thesis
    using be_inv_step [OF assms(1) [unfolded st] assms(3,4) nb_pos left dvd_refl assms(5) size_small
        assms(6) wr(2) _ wr(3)] wr(1)
    by (simp add: st zero_native_def USER_BLOCK_SIZE_def)
qed

lemma byte_zero_to_unit_ok:
  assumes "be_inv nb img ok I blk sz r st" and "0 < sz" and "sz < 2 ^ 32"
    and "blk + BYTE_TO_BLOCK sz \<le> user_blocks" and "length I = user_blocks * 512"
  shows "be_inv nb img ok I blk sz r (byte_zero_to_unit dev st)"
  using assms(1)
proof (induction "fst (snd st)" arbitrary: st rule: less_induct)
  case less
  show ?case
  proof (cases "fst st mod byte_erase_unit dev \<noteq> 0 \<and> nb \<le> fst (snd st)")
    case True
    then have "be_inv nb img ok I blk sz r (zero_native dev st)"
      using zero_native_ok [OF less.prems _ assms(2-5)] by blast
    then have "be_inv nb img ok I blk sz r (byte_zero_to_unit dev (zero_native dev st))"
      using True nb_pos by (intro less.hyps) (simp_all add: sub32_decreases)
    then show ?thesis using True nb_pos by (subst byte_zero_to_unit.simps) simp
  next
    case False
    then show ?thesis using less.prems by (subst byte_zero_to_unit.simps) auto
  qed
qed

lemma byte_zero_rest_ok:
  assumes "be_inv nb img ok I blk sz r st" and "0 < sz" and "sz < 2 ^ 32"
    and "blk + BYTE_TO_BLOCK sz \<le> user_blocks" and "length I = user_blocks * 512"
  shows "be_inv nb img ok I blk sz r (byte_zero_rest dev st)
    \<and> fst (snd (byte_zero_rest dev st)) < nb"
  using assms(1)
proof (induction "fst (snd st)" arbitrary: st rule: less_induct)
  case less
  show ?case
  proof (cases "nb \<le> fst (snd st)")
    case True
    then have "be_inv nb img ok I blk sz r (zero_native dev st)"
      using zero_native_ok [OF less.prems _ assms(2-5)] by blast
    then have "be_inv nb img ok I blk sz r (byte_zero_rest dev (zero_native dev st))
        \<and> fst (snd (byte_zero_rest dev (zero_native dev st))) < nb"
      using True nb_pos by (intro less.hyps) (simp_all add: sub32_decreases)
    then show ?thesis using True nb_pos by (subst (1 2) byte_zero_rest.simps) simp
  next
    case False
    then show ?thesis using less.prems by (subst (1 2) byte_zero_rest.simps) simp
  qed
qed

lemma byte_erase_units_ok:
  assumes "be_inv nb img ok I blk sz r st" and "0 < sz" and "sz < 2 ^ 32"
    and "blk + BYTE_TO_BLOCK sz \<le> user_blocks" and "length I = user_blocks * 512"
    and "nb dvd byte_erase_unit dev"
  shows "\<exists>st'. byte_erase_units dev st = (True, st') \<and> be_inv nb img ok I blk sz r st'"
proof -
  obtain block left rest d where st: "st = (block, left, rest, d)" by (cases st) auto
  let ?n = "left div byte_erase_unit dev * byte_erase_unit dev"
  obtain es :: "byte list" where inv: "ok d" "todo nb blk sz r (block, left, rest, length es)"
    using assms(1) unfolding st by (rule be_invE)
  show ?thesis
  proof (cases "?n = 0")
    case True
    then show ?thesis using assms(1) by (auto simp: byte_erase_units_def st Let_def)
  next
    case False
    then have n: "0 < ?n" "?n \<le> left" "nb dvd ?n" using assms(6) by (auto intro: dvd_mult)
    note t = todo_native [OF inv(2) n(1,2) assms(4)]
    obtain d' zs where er: "new_erase_native dev d (block div nb) (?n div nb) = (0, d')" "ok d'"
        "length zs = ?n * 512" "img d' = splice_at (img d) (block * 512) zs"
      using native_erase [OF inv(1) t(4) n(3,1) t(1)] by blast
    have "be_inv nb img ok I blk sz r (add32 block ?n, sub32 left ?n, sub32 rest (mul32 ?n 512), d')"
      by (rule be_inv_step [OF assms(1) [unfolded st] assms(2,3) n assms(4) size_small assms(5) er(2-4)])
    moreover have "byte_erase_units dev st
        = (True, (add32 block ?n, sub32 left ?n, sub32 rest (mul32 ?n 512), d'))"
      using False er(1) by (simp add: byte_erase_units_def st USER_BLOCK_SIZE_def Let_def)
    ultimately show ?thesis by blast
  qed
qed

lemma byte_erase_last_ok:
  assumes "be_inv nb img ok I blk sz r st" and "fst (snd st) < nb" and "0 < sz" and "sz < 2 ^ 32"
    and "blk + BYTE_TO_BLOCK sz \<le> user_blocks" and lenI: "length I = user_blocks * 512"
  shows "\<exists>block rest d' es. byte_erase_last dev st = (block, r - 1, rest, d')
      \<and> ok d' \<and> img d' = splice_at I (blk * 512) es
      \<and> sz \<le> length es \<and> length es \<le> BYTE_TO_BLOCK sz * 512 \<and> r \<le> BYTE_TO_BLOCK sz"
proof -
  obtain block left rest d where st: "st = (block, left, rest, d)" by (cases st) auto
  obtain es where inv: "ok d" "todo nb blk sz r (block, left, rest, length es)"
      "img d = splice_at I (blk * 512) es"
    using assms(1) unfolding st by (rule be_invE)
  show ?thesis
  proof (cases "left = 0")
    case True
    then show ?thesis using inv by (auto simp: byte_erase_last_def st todo_def)
  next
    case False
    have left: "left < nb" using assms(2) st by simp
    note t = todo_last [OF inv(2) assms(3,4) left False]
    note c = BYTE_TO_BLOCK_bounds [OF assms(3,4)]
    let ?z = "replicate rest (0 :: byte)"
    have "length ?z \<le> rest" by simp
    note rmw = todo_rmw [OF inv(2) assms(3,4) left False assms(5) inv(1) this]
    then obtain d' d'' where rd: "new_read_native dev d (block div nb) 1
          = (0, slice_at (block * 512) (nb * 512) (img d), d')"
      and wr: "new_write_native dev d' (splice_at (slice_at (block * 512) (nb * 512) (img d)) 0 ?z)
            (block div nb) 1 = (0, d'')"
        "ok d''" "img d'' = splice_at (img d) (blk * 512 + length es) ?z"
      by blast
    have "blk * 512 + length es + length ?z \<le> length I"
      unfolding length_replicate using t(1) c(3) assms(5) lenI by linarith
    then have "img d'' = splice_at I (blk * 512) (es @ ?z)"
      using splice_append [of "blk * 512" es ?z I] wr(3) inv(3) by simp
    moreover have "length (es @ ?z) = sz" using t(1) by simp
    ultimately show ?thesis using False rd wr(1,2) rmw(2) c(3) t(7)
      by (auto simp: byte_erase_last_def st intro!: exI [of _ "es @ ?z"])
  qed
qed

theorem byte_erase_ok:
  assumes "ok d" and "0 < sz" and "sz < 2 ^ 32" and "blk + BYTE_TO_BLOCK sz \<le> user_blocks"
    and "nb dvd byte_erase_unit dev" and "0 < byte_erase_unit dev"
  shows "\<exists>es d'. bio_new_byte_erase dev d blk sz
      = Some (BYTE_TO_BLOCK sz - (write_tail nb blk (BYTE_TO_BLOCK sz) - 1), d')
      \<and> sz \<le> length es \<and> length es \<le> BYTE_TO_BLOCK sz * 512 \<and> ok d'
      \<and> img d' = splice_at (img d) (blk * 512) es"
proof -
  let ?r = "write_tail nb blk (BYTE_TO_BLOCK sz)" and ?c = "BYTE_TO_BLOCK sz"
  note lenI = img_user [OF assms(1)]
  obtain st where st: "byte_erase_first dev blk sz d = (True, st)"
      "be_inv nb img ok (img d) blk sz ?r st"
    using byte_erase_first_ok [OF assms(2-4,1)] by blast
  obtain b2 l2 r2 d2 where u: "byte_erase_units dev (byte_zero_to_unit dev st)
      = (True, (b2, l2, r2, d2))" "be_inv nb img ok (img d) blk sz ?r (b2, l2, r2, d2)"
    using byte_erase_units_ok [OF byte_zero_to_unit_ok [OF st(2) assms(2-4) lenI] assms(2-4) lenI assms(5)]
    by auto
  have s32: "sub32 ?c (?r - 1) = ?c - (?r - 1)" if "?r \<le> ?c"
    using that assms(4) size_small by (intro sub32_id) linarith+
  have bc: "add32 blk ?c = blk + ?c" using assms(4) size_small by (intro add32_id) linarith
  show ?thesis
  proof (cases "blk + ?c = b2")
    case True
    from u(2) obtain es where e: "ok d2" "todo nb blk sz ?r (b2, l2, r2, length es)"
        "img d2 = splice_at (img d) (blk * 512) es"
      by (rule be_invE)
    with True have "l2 = 0" by (auto simp: todo_def split: if_splits)
    then show ?thesis using e True assms(6) s32
      by (auto simp: bio_new_byte_erase_def st(1) u(1) bc todo_def Let_def)
  next
    case False
    note z = byte_zero_rest_ok [OF u(2) assms(2-4) lenI]
    show ?thesis
      using byte_erase_last_ok [OF conjunct1 [OF z] conjunct2 [OF z] assms(2-4) lenI] False assms(6) s32
      by (auto simp: bio_new_byte_erase_def st(1) u(1) bc Let_def)
  qed
qed

end

section \<open>Requests that go wrong\<close>

text \<open>
  A request that ends inside its last sector while its sectors end with a native block stores
  the whole last sector: a buffer of exactly the requested size is overrun. In the model the
  buffer grows.
\<close>

context native_device
begin

lemma byte_read_overruns:
  assumes "ok d" and "blk mod nb = 0" and "BYTE_TO_BLOCK sz = nb" and "0 < sz" and "sz < nb * 512"
    and "blk + nb \<le> user_blocks" and "length buf = sz"
    and "flags dev AND BIO_FLAG_CACHE_ALIGNED_READS = 0 \<or> is_aligned addr CACHE_LINE"
  shows "\<exists>buf' d'. bio_new_byte_read dev addr buf d blk sz = Some (nb, buf', d')
      \<and> length buf' = nb * 512 \<and> length buf < length buf'"
proof -
  have n: "byte_per_time dev nb = nb" using nb_le_max nb_pos by (simp add: byte_per_time_def)
  have dvd: "nb dvd blk" using assms(2) by auto
  obtain d' where rd: "new_read_native dev d (blk div nb) (nb div nb)
      = (0, slice_at (blk * 512) (nb * 512) (img d), d')" "ok d'"
    using native_read [OF assms(1) dvd dvd_refl nb_pos assms(6) nb_le_max] by auto
  let ?x = "slice_at (blk * 512) (nb * 512) (img d)"
  have len: "length ?x = nb * 512"
    using assms(6) img_user [OF assms(1)] unfolding length_slice by linarith
  have first: "byte_read_first dev blk sz buf d = (True, (blk, nb, sz, 0, buf, d))"
    using assms(2,3) by (simp add: byte_read_first_def Let_def)
  have "sub32 nb nb = 0" by (rule sub32_self)
  then have "byte_read_loop dev (blk, nb, sz, 0, buf, d) = Some (True, (add32 blk nb, 0,
      sub32 sz (mul32 nb 512), mul32 nb 512, splice_at buf 0 ?x, d'))"
    using rd(1) n nb_pos by (subst byte_read_loop.simps, subst byte_read_loop.simps) (simp add: USER_BLOCK_SIZE_def Let_def)
  moreover have "sub32 nb 0 = nb" using nb_small by (subst sub32_id) simp_all
  moreover have "length (splice_at buf 0 ?x) = nb * 512"
    using len assms(5,7) by (simp add: splice_at_def)
  ultimately show ?thesis using assms(3,5,7,8)
    by (auto simp: bio_new_byte_read_def first byte_read_last_def Let_def)
qed

end

text \<open>A size of 0 is taken for \<open>2 ^ 23\<close> sectors, 4 GiB.\<close>

lemma byte_to_block_zero: "BYTE_TO_BLOCK 0 = 2 ^ 23"
  by (simp add: BYTE_TO_BLOCK_def sub32_def add32_def)

text \<open>
  With a command limit below one native block the loop reads nothing over and over and does
  not return.
\<close>

lemma byte_read_no_progress:
  assumes "byte_read_loop dev st = Some y" and "\<forall>d b. \<exists>d'. new_read_native dev d b 0 = (0, [], d')"
    and "max_blkcnt dev < native_blocks dev" and "fst (snd st) < 2 ^ 32"
  shows "fst (snd st) < native_blocks dev"
  using assms
proof (induction rule: byte_read_loop.raw_induct [rotated, consumes 1, case_names step])
  case (step loop dev st y)
  obtain block left rest pos buf d where st: "st = (block, left, rest, pos, buf, d)"
    by (cases st) auto
  show ?case
  proof (rule ccontr)
    assume "\<not> fst (snd st) < native_blocks dev"
    then have le: "native_blocks dev \<le> left" by (simp add: st)
    have n: "byte_per_time dev left = 0" using step.prems(2) le by (simp add: byte_per_time_def)
    obtain d' where rd: "new_read_native dev d (block div native_blocks dev) 0 = (0, [], d')"
      using step.prems(1) by blast
    have l: "sub32 left 0 = left" using step.prems(3) by (subst sub32_id) (simp_all add: st)
    have "loop dev (add32 block 0, left, sub32 rest (mul32 0 512), pos + mul32 0 512,
        splice_at buf pos [], d') = Some y"
      using step.hyps le rd by (simp add: st n l USER_BLOCK_SIZE_def Let_def)
    from step.IH [OF this step.prems(1,2)] step.prems(3) le show False by (simp add: st)
  qed
qed

theorem byte_read_hangs:
  assumes "\<forall>d b. \<exists>d'. new_read_native dev d b 0 = (0, [], d')"
    and "max_blkcnt dev < native_blocks dev" and "blk mod native_blocks dev = 0"
    and "native_blocks dev \<le> BYTE_TO_BLOCK sz"
    and "flags dev AND BIO_FLAG_CACHE_ALIGNED_READS = 0 \<or> is_aligned addr CACHE_LINE"
  shows "bio_new_byte_read dev addr buf d blk sz = None"
proof -
  have "BYTE_TO_BLOCK sz < 2 ^ 32" by (simp add: BYTE_TO_BLOCK_def add32_def)
  then have "byte_read_loop dev (blk, BYTE_TO_BLOCK sz, sz, 0, buf, d) = None"
    using byte_read_no_progress [of dev "(blk, BYTE_TO_BLOCK sz, sz, 0, buf, d)"] assms(1,2,4)
    by (cases "byte_read_loop dev (blk, BYTE_TO_BLOCK sz, sz, 0, buf, d)") auto
  then show ?thesis using assms(3,4,5)
    by (auto simp: bio_new_byte_read_def byte_read_first_def Let_def)
qed

section \<open>Agreement with the sector requests\<close>

lemma BYTE_TO_BLOCK_sectors: "0 < n \<Longrightarrow> n * 512 < 2 ^ 32 \<Longrightarrow> BYTE_TO_BLOCK (n * 512) = n"
proof -
  assume n: "0 < n" "n * 512 < 2 ^ 32"
  then have "0 < n * 512" by simp
  from BYTE_TO_BLOCK_bounds [OF this n(2)] show ?thesis by linarith
qed

text \<open>Claim C16: a byte-sized write or read of whole sectors does what the sector-granular
one does: it returns, a write leaves the same medium, a read the same buffer. Only the
count differs: if the request ends inside a native block and \<open>t\<close> sectors of it are in that
block, the byte-sized call reports \<open>t - 1\<close> sectors less than it has moved.\<close>

theorem byte_requests_agree:
  assumes "native_device dev img ok" and "ok d" and "0 < n" and "n * 512 < 2 ^ 32"
    and "blk + n \<le> block_count dev * native_blocks dev"
    and "n * 512 \<le> length src" and "n * 512 \<le> length buf"
    and "flags dev AND BIO_FLAG_CACHE_ALIGNED_WRITES = 0 \<or> is_aligned addr CACHE_LINE"
    and "flags dev AND BIO_FLAG_CACHE_ALIGNED_READS = 0 \<or> is_aligned addr CACHE_LINE"
  shows "(\<exists>d1 d2. bio_new_byte_write dev addr d src blk (n * 512)
            = Some (n - (write_tail (native_blocks dev) blk n - 1), d1)
        \<and> bio_new_write dev addr d src blk n = (n, d2) \<and> ok d1 \<and> img d1 = img d2)
    \<and> (\<exists>buf' d1 d2. bio_new_byte_read dev addr buf d blk (n * 512)
            = Some (n - (read_tail (native_blocks dev) blk n - 1), buf', d1)
        \<and> bio_new_read dev addr buf d blk n = (n, buf', d2)
        \<and> ok d1 \<and> img d1 = img d \<and> img d2 = img d)"
proof -
  have sz: "0 < n * 512" using assms(3) by simp
  note c = BYTE_TO_BLOCK_sectors [OF assms(3,4)]
  note w = native_device.new_write_ok [OF assms(1,2,5,6,8)]
    native_device.byte_write_ok [OF assms(1,2) sz assms(4), unfolded c, OF assms(5,6,8)]
  note r = native_device.new_read_ok [OF assms(1,2,3,5,7,9)]
    native_device.byte_read_ok [OF assms(1,2) sz assms(4), unfolded c, OF assms(5,7,9)]
  from w r show ?thesis by (metis antisym)
qed

theorem byte_requests_agree_witness:
  "(\<exists>d1 d2. bio_new_byte_write ram_bdev 0 ram_disk (replicate 11264 1) 13 (22 * 512)
        = Some (20, d1)
      \<and> bio_new_write ram_bdev 0 ram_disk (replicate 11264 1) 13 22 = (22, d2) \<and> d1 = d2)
   \<and> (\<exists>buf' d1. bio_new_byte_read ram_bdev 0 (replicate 11264 1) ram_disk 13 (22 * 512)
        = Some (20, buf', d1)
      \<and> bio_new_read ram_bdev 0 (replicate 11264 1) ram_disk 13 22 = (22, buf', ram_disk))"
  using byte_requests_agree [OF ram.native_device_axioms, of ram_disk 22 13 "replicate 11264 1"
      "replicate 11264 1" 0]
  by (simp add: write_tail_def read_tail_def) blast

text \<open>An erase returns and changes nothing outside the sectors of the request, as long as the
erase unit, which it takes in bytes, is a multiple of the native block.\<close>

theorem byte_erase_confined:
  assumes "native_device dev img ok" and "ok d" and "0 < sz" and "sz < 2 ^ 32"
    and "blk + BYTE_TO_BLOCK sz \<le> block_count dev * native_blocks dev"
    and "native_blocks dev dvd byte_erase_unit dev" and "0 < byte_erase_unit dev"
  shows "\<exists>es d'. bio_new_byte_erase dev d blk sz
      = Some (BYTE_TO_BLOCK sz - (write_tail (native_blocks dev) blk (BYTE_TO_BLOCK sz) - 1), d')
      \<and> sz \<le> length es \<and> length es \<le> BYTE_TO_BLOCK sz * 512 \<and> ok d'
      \<and> img d' = splice_at (img d) (blk * 512) es"
  using assms by (rule native_device.byte_erase_ok)

end
