(* ===== verification/Bio_Mem.thy ===== *)
theory Bio_Mem
  imports Bio_Correct Bio_Registry
begin

text \<open>
  The memory-backed block device of \<^verbatim>\<open>lib/bio/mem.c\<close>. Its state is the memory region
  \<^verbatim>\<open>mem->ptr\<close>. It provides the \<open>block_device\<close> contract, and its own byte hooks
  agree with what the default hooks would do through its block hooks.
\<close>

definition BLOCKSIZE :: nat where
  "BLOCKSIZE = 512"

definition mem_bdev_read :: "byte list byte_read_fn" where
  "mem_bdev_read addr buf mem offset len =
     (int len, splice_at buf 0 (slice_at offset len mem), mem)"

text \<open>\<^verbatim>\<open>block * BLOCKSIZE\<close> and \<^verbatim>\<open>count * BLOCKSIZE\<close> are 32-bit products.\<close>

definition mem_bdev_read_block :: "byte list read_fn" where
  "mem_bdev_read_block mem block cnt =
     (int (mul32 cnt BLOCKSIZE),
      slice_at (mul32 block BLOCKSIZE) (mul32 cnt BLOCKSIZE) mem, mem)"

definition mem_bdev_write :: "byte list byte_write_fn" where
  "mem_bdev_write addr mem buf offset len = (int len, splice_at mem offset (take len buf))"

definition mem_bdev_write_block :: "byte list write_fn" where
  "mem_bdev_write_block mem buf block cnt =
     (int (mul32 cnt BLOCKSIZE),
      splice_at mem (mul32 block BLOCKSIZE) (take (mul32 cnt BLOCKSIZE) buf))"

text \<open>The device object that \<^verbatim>\<open>create_membdev\<close> builds from the allocated \<open>raw\<close> one and registers.\<close>

definition membdev_object :: "byte list bdev \<Rightarrow> string \<Rightarrow> nat \<Rightarrow> byte list bdev" where
  "membdev_object raw nm len =
     (bio_initialize_bdev raw nm BLOCKSIZE (len div BLOCKSIZE mod 2 ^ 32) [] 0)
       \<lparr>read_hook := Custom mem_bdev_read, read_block_hook := Custom mem_bdev_read_block,
        write_hook := Custom mem_bdev_write, write_block_hook := Custom mem_bdev_write_block\<rparr>"

definition create_membdev ::
    "byte list bio_state \<Rightarrow> nat \<Rightarrow> string \<Rightarrow> byte list \<Rightarrow> nat \<Rightarrow> int \<times> byte list bio_state" where
  "create_membdev b a nm mem len =
     (let b = b\<lparr>bdev_at := (bdev_at b)(a := membdev_object (bdev_at b a) nm len),
                bdev_priv := (bdev_priv b)(a := mem)\<rparr>
      in (0, bio_register_device b a))"

lemma membdev_object_simps [simp]:
  "block_size (membdev_object raw nm len) = 512"
  "block_shift (membdev_object raw nm len) = 9"
  "block_count (membdev_object raw nm len) = len div 512 mod 2 ^ 32"
  "total_size (membdev_object raw nm len) = int (len div 512 mod 2 ^ 32) * 512"
  "read_block_hook (membdev_object raw nm len) = Custom mem_bdev_read_block"
  "write_block_hook (membdev_object raw nm len) = Custom mem_bdev_write_block"
  "read_hook (membdev_object raw nm len) = Custom mem_bdev_read"
  "write_hook (membdev_object raw nm len) = Custom mem_bdev_write"
  "erase_hook (membdev_object raw nm len) = Default"
  "erase_byte (membdev_object raw nm len) = 0"
  using log2_uint_pow2 [of 512 9]
  by (simp_all add: membdev_object_def bio_initialize_bdev_def BLOCKSIZE_def)

text \<open>A memory device seen through the default byte hooks.\<close>

definition membdev_default :: "byte list bdev \<Rightarrow> string \<Rightarrow> nat \<Rightarrow> byte list bdev" where
  "membdev_default raw nm len =
     (membdev_object raw nm len)\<lparr>read_hook := Default, write_hook := Default\<rparr>"

definition mem_img :: "nat \<Rightarrow> byte list \<Rightarrow> byte list" where
  "mem_img len mem = take (len div 512 mod 2 ^ 32 * 512) mem"

lemma mem_blocks_le: "len div 512 mod 2 ^ 32 * 512 \<le> (len::nat)"
proof -
  have "len div 512 mod 2 ^ 32 * 512 \<le> len div 512 * 512"
    by (intro mult_le_mono1) simp
  also have "\<dots> \<le> len" by simp
  finally show ?thesis .
qed

lemma take_slice_at: "a + n \<le> m \<Longrightarrow> slice_at a n (take m xs) = slice_at a n xs"
  by (simp add: slice_at_def drop_take min_absorb1)

lemma take_splice_at:
  "a + length ys \<le> m \<Longrightarrow> m \<le> length xs \<Longrightarrow> take m (splice_at xs a ys) = splice_at (take m xs) a ys"
  by (simp add: splice_at_def min_absorb1 drop_take)

interpretation mem: block_device "membdev_default raw nm len" mem_bdev_read_block
    mem_bdev_write_block "mem_img len" "\<lambda>mem. length mem = len"
  for raw nm len
proof (unfold_locales, goal_cases)
  case (5 d)
  then show ?case using mem_blocks_le [of len] by (simp add: membdev_default_def mem_img_def)
next
  case (6 d n b)
  let ?c = "len div 512 mod 2 ^ 32"
  have c: "b + n \<le> ?c" and s: "(b + n) * 512 < 2 ^ 32"
    using 6 by (simp_all add: membdev_default_def)
  have "b * 512 + n * 512 \<le> ?c * 512" using c by (metis add_mult_distrib mult_le_mono1)
  then have "slice_at (b * 512) (n * 512) (mem_img len d) = slice_at (b * 512) (n * 512) d"
    unfolding mem_img_def by (rule take_slice_at)
  moreover have "mul32 b 512 = b * 512" "mul32 n 512 = n * 512"
    using s by (simp_all add: wrap_simps)
  ultimately show ?case
    using 6(1) by (simp add: membdev_default_def mem_bdev_read_block_def BLOCKSIZE_def mult.commute)
next
  case (7 d n b src)
  let ?c = "len div 512 mod 2 ^ 32"
  have c: "b + n \<le> ?c" and s: "(b + n) * 512 < 2 ^ 32" and l: "n * 512 \<le> length src"
    using 7 by (simp_all add: membdev_default_def)
  have fit: "b * 512 + n * 512 \<le> ?c * 512" using c by (metis add_mult_distrib mult_le_mono1)
  have m: "mul32 b 512 = b * 512" "mul32 n 512 = n * 512"
    using s by (simp_all add: wrap_simps)
  have lt: "length (take (n * 512) src) = n * 512" using l by simp
  have "mem_img len (splice_at d (b * 512) (take (n * 512) src))
      = splice_at (mem_img len d) (b * 512) (take (n * 512) src)"
    unfolding mem_img_def
    by (rule take_splice_at) (use fit lt 7(1) mem_blocks_le [of len] in simp_all)
  moreover have "length (splice_at d (b * 512) (take (n * 512) src)) = len"
    using fit lt 7(1) mem_blocks_le [of len] by (simp add: length_splice)
  ultimately show ?case
    by (simp add: membdev_default_def mem_bdev_write_block_def BLOCKSIZE_def m mult.commute)
qed (simp_all add: membdev_default_def)

section \<open>Properties of the byte-granular path\<close>

text \<open>For a driver whose block hooks move whole blocks of an image of less than
4 GiB, a byte-granular \<^verbatim>\<open>bio_read\<close> inside the device returns the length asked for, stores
exactly that byte range at the start of the buffer and nothing after it, and leaves the
medium as it was, whatever the alignment of offset and length.\<close>

theorem bio_read_exact:
  assumes "block_device dev rdb wrb img ok" and "ok d" and "read_hook dev = Default"
    and "block_count dev * block_size dev < 2 ^ 32"
    and "off + len \<le> length (img d)" and "len \<le> length buf"
  shows "\<exists>d'. bio_read dev addr buf d (int off) len
      = (int len, splice_at buf 0 (slice_at off len (img d)), d') \<and> ok d' \<and> img d' = img d"
  using assms by (rule block_device.bio_read_ok)

theorem bio_read_exact_witness:
  "\<exists>d'. bio_read (membdev_default blank_bdev ''m'' 2048) 0 (replicate 700 1)
      (replicate 2048 7) (int 300) 700
    = (int 700, splice_at (replicate 700 1) 0 (slice_at 300 700 (mem_img 2048 (replicate 2048 7))), d')
    \<and> length d' = 2048 \<and> mem_img 2048 d' = mem_img 2048 (replicate 2048 7)"
  by (rule bio_read_exact [OF mem.block_device_axioms])
     (simp_all add: membdev_default_def mem_img_def)

text \<open>Claim C17: under the same contract a byte-granular \<^verbatim>\<open>bio_write\<close> inside the device
returns the length asked for and replaces exactly that byte range of the medium by the
first bytes of the buffer; the bytes of partially written blocks outside the range are
preserved.\<close>

theorem bio_write_exact:
  assumes "block_device dev rdb wrb img ok" and "ok d" and "write_hook dev = Default"
    and "block_count dev * block_size dev < 2 ^ 32"
    and "off + len \<le> length (img d)" and "len \<le> length src"
  shows "\<exists>d'. bio_write dev addr d src (int off) len = (int len, d') \<and> ok d'
      \<and> img d' = splice_at (img d) off (take len src)"
  using assms by (rule block_device.bio_write_ok)

theorem bio_write_exact_witness:
  "\<exists>d'. bio_write (membdev_default blank_bdev ''m'' 2048) 0 (replicate 2048 7) (replicate 700 1)
      (int 300) 700 = (int 700, d') \<and> length d' = 2048
    \<and> mem_img 2048 d' = splice_at (mem_img 2048 (replicate 2048 7)) 300 (take 700 (replicate 700 1))"
  by (rule bio_write_exact [OF mem.block_device_axioms])
     (simp_all add: membdev_default_def mem_img_def)

text \<open>Under the same contract the default erase terminates, returns the length
asked for and fills exactly that byte range with the erase byte of the device.\<close>

theorem bio_erase_exact:
  assumes "block_device dev rdb wrb img ok" and "ok d" and "write_hook dev = Default"
    and "erase_hook dev = Default" and "block_count dev * block_size dev < 2 ^ 32"
    and "off + len \<le> length (img d)"
  shows "\<exists>d'. bio_erase dev addr d (int off) len = Some (int len, d') \<and> ok d'
      \<and> img d' = splice_at (img d) off (replicate len (erase_byte dev))"
  using assms by (rule block_device.bio_erase_ok)

theorem bio_erase_exact_witness:
  "\<exists>d'. bio_erase (membdev_default blank_bdev ''m'' 2048) 0 (replicate 2048 7) (int 300) 700
      = Some (int 700, d') \<and> length d' = 2048
    \<and> mem_img 2048 d' = splice_at (mem_img 2048 (replicate 2048 7)) 300
        (replicate 700 (erase_byte (membdev_default blank_bdev ''m'' 2048)))"
  by (rule bio_erase_exact [OF mem.block_device_axioms])
     (simp_all add: membdev_default_def mem_img_def)

text \<open>The memory device's own byte-granular read hook, a single copy, gives the same
result as the default hook that deblocks through its block hook: same status, same buffer,
same memory.\<close>

theorem membdev_read_equiv:
  assumes "length mem = len" and "len < 2 ^ 32" and "off + n \<le> len div 512 * 512"
    and "n \<le> length buf"
  shows "bio_read (membdev_object raw nm len) addr buf mem (int off) n
    = (case bio_read (membdev_default raw nm len) addr buf mem (int off) n of
         (r, b, d) \<Rightarrow> (r, b, mem))"
proof -
  let ?c = "len div 512 mod 2 ^ 32"
  have c: "?c = len div 512" using assms(2) by simp
  have l: "length (mem_img len mem) = len div 512 * 512" using assms(1) c by (simp add: mem_img_def)
  obtain d where d: "bio_read (membdev_default raw nm len) addr buf mem (int off) n
      = (int n, splice_at buf 0 (slice_at off n (mem_img len mem)), d)"
    using mem.bio_read_ok [of mem len raw nm off n buf addr] assms l
      div_less_iff_less_mult [of 512 len 8388608]
    by (auto simp: membdev_default_def)
  have sl: "slice_at off n (mem_img len mem) = slice_at off n mem"
    using assms(3) c by (simp add: mem_img_def take_slice_at)
  have sz: "total_size (membdev_object raw nm len) = int (len div 512 * 512)"
    using c by simp
  have "0 < n \<Longrightarrow> bio_trim_range (membdev_object raw nm len) (int off) n = n"
    using assms(2,3) sz by (intro trim_range_in) auto
  then have "bio_read (membdev_object raw nm len) addr buf mem (int off) n
      = (int n, splice_at buf 0 (slice_at off n mem), mem)"
    by (cases "n = 0")
       (simp_all add: bio_read_def mem_bdev_read_def bio_trim_range_def Let_def)
  then show ?thesis by (simp add: d sl)
qed

theorem membdev_read_equiv_witness:
  "bio_read (membdev_object blank_bdev ''m'' 2048) 0 (replicate 700 1) (replicate 2048 7) (int 300) 700
    = (case bio_read (membdev_default blank_bdev ''m'' 2048) 0 (replicate 700 1) (replicate 2048 7)
         (int 300) 700 of (r, b, d) \<Rightarrow> (r, b, replicate 2048 7))"
  by (rule membdev_read_equiv) simp_all

end
