(* ===== verification/Bio_Subdev.thy ===== *)
theory Bio_Subdev
  imports Bio_Mem
begin

text \<open>
  Sub-devices (\<^verbatim>\<open>lib/bio/subdev.c\<close>): a range of blocks of a registered device published
  under its own name. The hooks of a sub-device forward to the entry points of its parent with
  the position shifted, so the state they work on is the parent's. The sub-device holds a
  reference to the parent until it is closed itself; \<open>subs\<close> lists the live sub-devices with
  their \<^verbatim>\<open>parent\<close> pointers, and closing a sub-device for the last time closes the parent once.
\<close>

section \<open>Forwarding hooks\<close>

text \<open>\<^verbatim>\<open>offset + subdev->offset * block_size\<close> is an unsigned 64-bit sum passed as an \<^verbatim>\<open>off_t\<close>.\<close>

definition sub_offset :: "'d bdev \<Rightarrow> nat \<Rightarrow> nat \<Rightarrow> int" where
  "sub_offset parent start offset =
     signed_take_bit 63 (int offset + int start * int (block_size parent))"

definition subdev_read :: "'d bdev \<Rightarrow> nat \<Rightarrow> 'd byte_read_fn" where
  "subdev_read parent start addr buf d offset len =
     bio_read parent addr buf d (sub_offset parent start offset) len"

definition subdev_read_block :: "'d bdev \<Rightarrow> nat \<Rightarrow> 'd read_fn" where
  "subdev_read_block parent start d block n = bio_read_block parent d (add32 block start) n"

definition subdev_write :: "'d bdev \<Rightarrow> nat \<Rightarrow> 'd byte_write_fn" where
  "subdev_write parent start addr d buf offset len =
     bio_write parent addr d buf (sub_offset parent start offset) len"

definition subdev_write_block :: "'d bdev \<Rightarrow> nat \<Rightarrow> 'd write_fn" where
  "subdev_write_block parent start d buf block n = bio_write_block parent d buf (add32 block start) n"

definition subdev_erase :: "'d bdev \<Rightarrow> nat \<Rightarrow> 'd byte_erase_fn" where
  "subdev_erase parent start addr d offset len =
     bio_erase parent addr d (sub_offset parent start offset) len"

section \<open>Publishing\<close>

text \<open>
  \<^verbatim>\<open>bio_contains_range\<close> asserts that neither range wraps. The search keeps the last region
  looked at in \<^verbatim>\<open>geo\<close> when none contains the range.
\<close>

definition bio_contains_range :: "u64 \<Rightarrow> u64 \<Rightarrow> u64 \<Rightarrow> u64 \<Rightarrow> bool outcome" where
  "bio_contains_range container_start container_len contained_start contained_len =
     (let container_end = container_start + container_len;
          contained_end = contained_start + contained_len in
      if container_end < container_start \<or> contained_end < contained_start then Fault
      else Ret (container_start \<le> contained_start \<and> contained_end \<le> container_end))"

fun find_geometry ::
    "geometry_info list \<Rightarrow> u64 \<Rightarrow> u64 \<Rightarrow> geometry_info option \<Rightarrow> geometry_info option outcome" where
  "find_geometry [] byte_start byte_size geo = Ret geo"
| "find_geometry (g # gs) byte_start byte_size geo =
     (case bio_contains_range (word_of_int (geo_start g)) (word_of_int (geo_size g)) byte_start byte_size of
        Ret True \<Rightarrow> Ret (Some g)
      | Ret False \<Rightarrow> find_geometry gs byte_start byte_size (Some g)
      | Fault \<Rightarrow> Fault | Hang \<Rightarrow> Hang)"

text \<open>The geometry of the new device, \<open>None\<close> when the range is refused.\<close>

definition sub_geometry :: "'d bdev \<Rightarrow> nat \<Rightarrow> nat \<Rightarrow> geometry_info list option outcome" where
  "sub_geometry parent start cnt =
     (if geometry parent \<noteq> [] then
        let byte_start = push_bit (block_shift parent) (word_of_nat start);
            byte_size = push_bit (block_shift parent) (word_of_nat cnt) in
        (case find_geometry (geometry parent) byte_start byte_size None of
           Ret None \<Rightarrow> Ret None
         | Ret (Some geo) \<Rightarrow>
             (let erase_mask = push_bit (geo_erase_shift geo) 1 - 1 in
              if byte_start AND erase_mask \<noteq> 0 \<or> byte_size AND erase_mask \<noteq> 0 then Ret None
              else Ret (Some [\<lparr>geo_start = 0, geo_size = sint byte_size,
                               geo_erase_size = geo_erase_size geo,
                               geo_erase_shift = geo_erase_shift geo\<rparr>]))
         | Fault \<Rightarrow> Fault | Hang \<Rightarrow> Hang)
      else
        let endblock = add32 start cnt in
        if endblock < start \<or> block_count parent < endblock then Ret None else Ret (Some []))"

definition subdev_object ::
    "'d bdev \<Rightarrow> 'd bdev \<Rightarrow> string \<Rightarrow> nat \<Rightarrow> nat \<Rightarrow> geometry_info list \<Rightarrow> 'd bdev" where
  "subdev_object parent raw nm start cnt geo =
     (bio_initialize_bdev raw nm (block_size parent) cnt geo 0)
       \<lparr>erase_byte := erase_byte parent,
        read_hook := Custom (subdev_read parent start),
        read_block_hook := Custom (subdev_read_block parent start),
        write_hook := Custom (subdev_write parent start),
        write_block_hook := Custom (subdev_write_block parent start),
        erase_hook := Custom (subdev_erase parent start)\<rparr>"

record 'd sub_state =
  bio :: "'d bio_state"
  subs :: "(nat \<times> nat) list"

text \<open>
  \<^verbatim>\<open>bio_close\<close> on a list with sub-devices: when the last reference to a sub-device goes,
  \<^verbatim>\<open>subdev_close\<close> closes the parent and clears the pointer.
\<close>

definition sub_dec_ref :: "'d sub_state \<Rightarrow> nat \<Rightarrow> 'd sub_state" where
  "sub_dec_ref st a = st\<lparr>bio := bdev_dec_ref (bio st) a\<rparr>"

definition drop_sub :: "nat \<Rightarrow> (nat \<times> nat) list \<Rightarrow> (nat \<times> nat) list" where
  "drop_sub a xs = filter (\<lambda>(x, p). x \<noteq> a) xs"

lemma drop_sub_shorter: "map_of xs a = Some p \<Longrightarrow> length (drop_sub a xs) < length xs"
  by (induction xs) (auto simp: drop_sub_def less_Suc_eq_le split: if_splits)

function subdev_close :: "'d sub_state \<Rightarrow> nat \<Rightarrow> 'd sub_state" where
  "subdev_close st a =
     (if ref (bdev_at (bio st) a) = 1 then
        (case map_of (subs st) a of
           Some p \<Rightarrow> subdev_close ((sub_dec_ref st a)\<lparr>subs := drop_sub a (subs st)\<rparr>) p
         | None \<Rightarrow> sub_dec_ref st a)
      else sub_dec_ref st a)"
  by pat_completeness auto
termination
  by (relation "measure (\<lambda>(st, a). length (subs st))")
     (auto simp: sub_dec_ref_def drop_sub_shorter)

declare subdev_close.simps [simp del]

definition sub_unregister :: "'d sub_state \<Rightarrow> nat \<Rightarrow> 'd sub_state" where
  "sub_unregister st a =
     subdev_close (st\<lparr>bio := (bio st)\<lparr>bdevs := remove1 a (bdevs (bio st))\<rparr>\<rparr>) a"

text \<open>\<open>mem\<close> is the result of \<^verbatim>\<open>malloc\<close> for the sub-device object.\<close>

definition bio_publish_subdevice ::
    "nat option \<Rightarrow> string \<Rightarrow> string \<Rightarrow> nat \<Rightarrow> nat \<Rightarrow> 'd sub_state \<Rightarrow> (status \<times> 'd sub_state) outcome" where
  "bio_publish_subdevice mem parent_dev subdev start cnt st =
     (case bio_open (bio st) parent_dev of
        (None, b) \<Rightarrow> Ret (ERR_NOT_FOUND, st\<lparr>bio := b\<rparr>)
      | (Some p, b) \<Rightarrow>
          (let st = st\<lparr>bio := b\<rparr>; parent = bdev_at b p in
           case mem of
             None \<Rightarrow> Ret (ERR_NO_MEMORY, subdev_close st p)
           | Some a \<Rightarrow>
               (case sub_geometry parent start cnt of
                  Ret None \<Rightarrow> Ret (ERR_INVALID_ARGS, subdev_close st p)
                | Ret (Some geo) \<Rightarrow>
                    (let sub = subdev_object parent (bdev_at b a) subdev start cnt geo in
                     Ret (NO_ERROR,
                          st\<lparr>bio := bio_register_device (b\<lparr>bdev_at := (bdev_at b)(a := sub)\<rparr>) a,
                             subs := (a, p) # subs st\<rparr>))
                | Fault \<Rightarrow> Fault | Hang \<Rightarrow> Hang)))"

section \<open>A sub-device is a block device on its slice\<close>

lemma subdev_object_simps [simp]:
  "block_size (subdev_object parent raw nm start cnt geo) = block_size parent"
  "block_count (subdev_object parent raw nm start cnt geo) = cnt"
  "read_block_hook (subdev_object parent raw nm start cnt geo) = Custom (subdev_read_block parent start)"
  "write_block_hook (subdev_object parent raw nm start cnt geo) = Custom (subdev_write_block parent start)"
  "read_hook (subdev_object parent raw nm start cnt geo) = Custom (subdev_read parent start)"
  "write_hook (subdev_object parent raw nm start cnt geo) = Custom (subdev_write parent start)"
  "erase_hook (subdev_object parent raw nm start cnt geo) = Custom (subdev_erase parent start)"
  "erase_byte (subdev_object parent raw nm start cnt geo) = erase_byte parent"
  by (simp_all add: subdev_object_def bio_initialize_bdev_def)

definition sub_img :: "'d bdev \<Rightarrow> nat \<Rightarrow> nat \<Rightarrow> ('d \<Rightarrow> byte list) \<Rightarrow> 'd \<Rightarrow> byte list" where
  "sub_img parent start cnt img d = slice_at (start * block_size parent) (cnt * block_size parent) (img d)"

lemma sub_geometry_plain:
  assumes "geometry parent = []" and "start < 2 ^ 32" and "cnt < 2 ^ 32"
  shows "sub_geometry parent start cnt
    = Ret (if start + cnt < 2 ^ 32 \<and> start + cnt \<le> block_count parent then Some [] else None)"
proof (cases "start + cnt < 2 ^ 32")
  case True
  then show ?thesis using assms by (simp add: sub_geometry_def wrap_simps Let_def not_less)
next
  case False
  then have "add32 start cnt = start + cnt - 2 ^ 32"
    using assms(2,3) by (simp add: add32_def mod_if)
  moreover have "start + cnt - 2 ^ 32 < start" using False assms(2,3) by linarith
  ultimately show ?thesis using False assms(1) by (simp add: sub_geometry_def Let_def)
qed

lemma signed_small: "x < 2 ^ 63 \<Longrightarrow> signed_take_bit 63 (int x) = int x"
  by (intro signed_take_bit_int_eq_self) auto

context block_device
begin

lemma block_shift_small:
  assumes "block_count dev * bs < 2 ^ 32" and "0 < block_count dev"
  shows "log2_uint (word_of_nat bs) = block_shift dev"
proof -
  have "1 * bs \<le> block_count dev * bs" using assms(2) by (intro mult_le_mono1) simp
  then have "bs < 2 ^ 32" using assms(1) by linarith
  moreover from this have "block_shift dev < 32" unfolding bs_pow2 by (rule power_less_imp_less_exp [rotated]) simp
  ultimately show ?thesis
    by (intro log2_uint_pow2) (simp_all only: unat_of_nat, simp_all add: bs_pow2)
qed

lemma sub_blocks:
  assumes "start + cnt \<le> block_count dev" and "b + n \<le> cnt" and "ok d"
  shows "start * bs + cnt * bs \<le> length (img d)" and "b * bs + bs * n \<le> cnt * bs"
    and "b + start + n \<le> block_count dev"
proof -
  have "(start + cnt) * bs \<le> block_count dev * bs" using assms(1) by (rule mult_le_mono1)
  then show "start * bs + cnt * bs \<le> length (img d)" using img_length [OF assms(3)] by (simp add: algebra_simps)
  have "(b + n) * bs \<le> cnt * bs" using assms(2) by (rule mult_le_mono1)
  then show "b * bs + bs * n \<le> cnt * bs" by (simp add: algebra_simps)
  show "b + start + n \<le> block_count dev" using assms by simp
qed

lemma subdev_block_device:
  assumes small: "block_count dev * bs < 2 ^ 32" and fit: "start + cnt \<le> block_count dev" and "0 < cnt"
  shows "block_device (subdev_object dev raw nm start cnt geo) (subdev_read_block dev start)
    (subdev_write_block dev start) (sub_img dev start cnt img) ok"
proof (unfold_locales, goal_cases)
  case 3
  show ?case using block_shift_small [OF small] fit \<open>0 < cnt\<close>
    by (simp add: subdev_object_def bio_initialize_bdev_def bs_pow2)
next
  case 4
  show ?case using block_shift_small [OF small] fit \<open>0 < cnt\<close>
    by (simp add: subdev_object_def bio_initialize_bdev_def bs_pow2)
next
  case (5 d)
  then show ?case using sub_blocks(1) [OF fit, of 0 0 d] by (simp add: sub_img_def)
next
  case (6 d n b)
  then have bn: "b + n \<le> cnt" by simp
  note s = sub_blocks [OF fit bn 6(1)]
  have "add32 b start = b + start" using s(3) blocks_small [OF small] by (simp add: wrap_simps)
  then show ?case
    using read_block_ok [OF 6(1) _ small, of n "b + start"] s slice_slice [OF s(2), of "start * bs" "img d"]
    by (auto simp: subdev_read_block_def sub_img_def algebra_simps)
next
  case (7 d n b src)
  then have bn: "b + n \<le> cnt" and l: "bs * n \<le> length src" by simp_all
  note s = sub_blocks [OF fit bn 7(1)]
  have "add32 b start = b + start" using s(3) blocks_small [OF small] by (simp add: wrap_simps)
  then show ?case
    using write_block_ok [OF 7(1) _ small, of n "b + start" src] s l
      slice_splice_inside [of "b * bs" "take (bs * n) src" "cnt * bs" "start * bs" "img d"]
    by (auto simp: subdev_write_block_def sub_img_def algebra_simps)
qed simp_all

lemma subdev_total: 
  assumes "block_count dev * bs < 2 ^ 32" and "start + cnt \<le> block_count dev" and "0 < cnt"
  shows "total_size (subdev_object dev raw nm start cnt geo) = int (cnt * bs)"
  using block_device.total [OF subdev_block_device [OF assms, of raw nm geo]] by simp

lemma sub_trim:
  assumes "block_count dev * bs < 2 ^ 32" and "start + cnt \<le> block_count dev"
    and "off + len \<le> cnt * bs" and "0 < len"
  shows "bio_trim_range (subdev_object dev raw nm start cnt geo) (int off) len = len"
    and "sub_offset dev start off = int (start * bs + off)"
    and "start * bs + off + len \<le> block_count dev * bs"
proof -
  have "0 < cnt" using assms(3,4) by (cases cnt) auto
  have "(start + cnt) * bs \<le> block_count dev * bs" using assms(2) by (rule mult_le_mono1)
  then show fit: "start * bs + off + len \<le> block_count dev * bs"
    using assms(3) by (simp add: algebra_simps)
  have "cnt * bs < 2 ^ 32" using assms(1,2) by (meson add_leD2 le_less_trans mult_le_mono1)
  then show "bio_trim_range (subdev_object dev raw nm start cnt geo) (int off) len = len"
    using subdev_total [OF assms(1,2) \<open>0 < cnt\<close>, of raw nm geo] assms(3,4)
    by (intro trim_range_in) (simp_all flip: of_nat_add of_nat_mult)
  have "int off + int start * int bs = int (start * bs + off)" by simp
  moreover have "start * bs + off < 2 ^ 63" using order_le_less_trans [OF fit assms(1)] by simp
  then have "signed_take_bit 63 (int (start * bs + off)) = int (start * bs + off)"
    by (rule signed_small)
  ultimately show "sub_offset dev start off = int (start * bs + off)" unfolding sub_offset_def by (simp add: add.commute)
qed

lemma subdev_read_ok:
  assumes "ok d" and "read_hook dev = Default" and "block_count dev * bs < 2 ^ 32"
    and "start + cnt \<le> block_count dev" and "off + len \<le> cnt * bs" and "len \<le> length buf"
  shows "\<exists>d'. bio_read (subdev_object dev raw nm start cnt geo) addr buf d (int off) len
      = (int len, splice_at buf 0 (slice_at (start * bs + off) len (img d)), d') \<and> ok d' \<and> img d' = img d"
proof (cases "len = 0")
  case True
  then show ?thesis using \<open>ok d\<close> by (simp add: bio_read_def bio_trim_range_def)
next
  case False
  then have "0 < len" by simp
  note t = sub_trim [OF assms(3,4,5) this]
  then show ?thesis
    using bio_read_ok [OF assms(1,2,3) _ assms(6), of "start * bs + off" addr] img_length [OF \<open>ok d\<close>] False
    unfolding bio_read_def [of "subdev_object dev raw nm start cnt geo"]
    by (simp add: Let_def subdev_read_def)
qed

lemma subdev_write_ok:
  assumes "ok d" and "write_hook dev = Default" and "block_count dev * bs < 2 ^ 32"
    and "start + cnt \<le> block_count dev" and "off + len \<le> cnt * bs" and "len \<le> length src"
  shows "\<exists>d'. bio_write (subdev_object dev raw nm start cnt geo) addr d src (int off) len = (int len, d')
      \<and> ok d' \<and> img d' = splice_at (img d) (start * bs + off) (take len src)"
proof (cases "len = 0")
  case True
  then show ?thesis using \<open>ok d\<close> by (simp add: bio_write_def bio_trim_range_def)
next
  case False
  then have "0 < len" by simp
  note t = sub_trim [OF assms(3,4,5) this]
  then show ?thesis
    using bio_write_ok [OF assms(1,2,3) _ assms(6), of "start * bs + off" addr] img_length [OF \<open>ok d\<close>] False
    unfolding bio_write_def [of "subdev_object dev raw nm start cnt geo"]
    by (simp add: Let_def subdev_write_def)
qed

end

section \<open>References between devices\<close>

text \<open>
  \<open>sub_ok st m\<close>: counting the references the sub-devices hold to their parents together with
  those of the client (\<open>m\<close>), all counts are exact, and every sub-device in \<open>subs\<close> is alive.
\<close>

definition all_refs :: "'d sub_state \<Rightarrow> nat multiset \<Rightarrow> nat multiset" where
  "all_refs st m = m + mset (map snd (subs st))"

definition sub_ok :: "'d sub_state \<Rightarrow> nat multiset \<Rightarrow> bool" where
  "sub_ok st m \<longleftrightarrow> refs_ok (bio st) (all_refs st m) \<and> distinct (map fst (subs st))
     \<and> (\<forall>a \<in> fst ` set (subs st). a \<in> set (bdevs (bio st)) \<or> a \<in># all_refs st m)"

inductive sub_step ::
    "'d sub_state \<times> nat multiset \<Rightarrow> 'd sub_state \<times> nat multiset \<Rightarrow> bool" where
  sub_open: "bio_open (bio st) nm = (Some a, b) \<Longrightarrow> sub_step (st, m) (st\<lparr>bio := b\<rparr>, add_mset a m)"
| sub_close: "a \<in># m \<Longrightarrow> sub_step (st, m) (subdev_close st a, m - {#a#})"
| sub_register: "a \<notin> set (bdevs (bio st)) \<Longrightarrow> a \<notin># all_refs st m \<Longrightarrow> a \<notin> fst ` set (subs st) \<Longrightarrow>
    sub_step (st, m)
      (st\<lparr>bio := bio_register_device
        ((bio st)\<lparr>bdev_at := (bdev_at (bio st))(a := bio_initialize_bdev dev nm bs cnt geo fl)\<rparr>) a\<rparr>, m)"
| sub_unreg: "a \<in> set (bdevs (bio st)) \<Longrightarrow> sub_step (st, m) (sub_unregister st a, m)"
| sub_publish: "bio_publish_subdevice mem pn nm start cnt st = Ret (r, st') \<Longrightarrow>
    (\<And>a. mem = Some a \<Longrightarrow> a \<notin> set (bdevs (bio st)) \<and> a \<notin># all_refs st m \<and> a \<notin> fst ` set (subs st)) \<Longrightarrow>
    sub_step (st, m) (st', m)"

lemma mset_drop_sub:
  assumes "map_of xs a = Some p" and "distinct (map fst xs)"
  shows "mset (map snd xs) = add_mset p (mset (map snd (drop_sub a xs)))"
  using assms
proof (induction xs)
  case (Cons x xs)
  obtain y q where x: "x = (y, q)" by (cases x)
  show ?case
  proof (cases "y = a")
    case True
    then have "a \<notin> fst ` set xs" "q = p" using Cons.prems x by auto
    then have "filter (\<lambda>(x, p). x \<noteq> a) xs = xs" by (force simp: filter_id_conv)
    then show ?thesis using x True \<open>q = p\<close> by (simp add: drop_sub_def)
  next
    case False
    then show ?thesis using Cons x by (auto simp: drop_sub_def)
  qed
qed simp

lemma count_mset_snd: "count (image_mset snd (mset xs)) a = length (filter (\<lambda>(s, p). p = a) xs)"
  by (induction xs) auto

lemma drop_sub_keys:
  "distinct (map fst xs) \<Longrightarrow> distinct (map fst (drop_sub a xs))"
  "fst ` set (drop_sub a xs) = fst ` set xs - {a}"
  by (force simp: drop_sub_def distinct_map_filter)+

text \<open>One reference fewer: the state before the sub-device's own reference is handed on.\<close>

lemma sub_close_ok:
  assumes "refs_ok (bio st) (add_mset a M)" and "M = all_refs st m" and "distinct (map fst (subs st))"
    and "\<forall>x \<in> fst ` set (subs st). x \<in> set (bdevs (bio st)) \<or> x \<in># add_mset a M"
  shows "sub_ok (subdev_close st a) m"
  using assms
proof (induction st a arbitrary: M rule: subdev_close.induct)
  case (1 st a)
  let ?st = "sub_dec_ref st a"
  have r: "refs_ok (bio ?st) M"
    using refs_ok_close [OF 1(2), of a] by (simp add: sub_dec_ref_def bio_close_def)
  have cnt: "ref (bdev_at (bio st) a) = int (count M a) + 1 + (if a \<in> set (bdevs (bio st)) then 1 else 0)"
    using 1(2) unfolding refs_ok_def by simp
  have bd: "bdevs (bio ?st) = bdevs (bio st)"
    by (simp add: sub_dec_ref_def bdev_dec_ref_def Let_def)
  have alive: "\<forall>x \<in> fst ` set (subs st). x \<noteq> a \<longrightarrow> x \<in> set (bdevs (bio st)) \<or> x \<in># M"
    using 1(5) by auto
  show ?case
  proof (cases "ref (bdev_at (bio st) a) = 1")
    case True
    show ?thesis
    proof (cases "map_of (subs st) a")
      case None
      then have "a \<notin> fst ` set (subs st)" by (simp add: map_of_eq_None_iff)
      then have "sub_ok ?st m" using r 1(3,4) alive bd
        unfolding sub_ok_def all_refs_def by (auto simp: sub_dec_ref_def)
      then show ?thesis using True None by (simp add: subdev_close.simps [of st a])
    next
      case (Some p)
      let ?st' = "?st\<lparr>subs := drop_sub a (subs st)\<rparr>"
      have M: "M = add_mset p (all_refs ?st' m)"
        using 1(3) mset_drop_sub [OF Some 1(4)] by (simp add: all_refs_def)
      have "refs_ok (bio ?st') (add_mset p (all_refs ?st' m))" using r M by simp
      moreover have "distinct (map fst (subs ?st'))" using drop_sub_keys(1) [OF 1(4)] by simp
      moreover have "\<forall>x \<in> fst ` set (subs ?st'). x \<in> set (bdevs (bio ?st'))
          \<or> x \<in># add_mset p (all_refs ?st' m)"
        using alive bd unfolding M [symmetric] by (auto simp: drop_sub_def)
      ultimately have "sub_ok (subdev_close ?st' p) m"
        using 1(1) [OF True Some] by blast
      then show ?thesis using True Some by (simp add: subdev_close.simps [of st a])
    qed
  next
    case False
    then have "a \<in> set (bdevs (bio st)) \<or> 0 < count M a" using cnt by (simp split: if_splits)
    then have "a \<in> set (bdevs (bio st)) \<or> a \<in># M" by simp
    then have "sub_ok ?st m" using r 1(3,4) alive bd
      unfolding sub_ok_def all_refs_def by (auto simp: sub_dec_ref_def)
    then show ?thesis using False by (simp add: subdev_close.simps [of st a])
  qed
qed

lemma open_ok:
  assumes "bio_open (bio st) nm = (Some p, b)" and "sub_ok st m"
  shows "refs_ok b (add_mset p (all_refs st m))" and "p \<in> set (bdevs (bio st))" and "bdevs b = bdevs (bio st)"
    and "b = bdev_inc_ref (bio st) p"
proof -
  show "p \<in> set (bdevs (bio st))" "b = bdev_inc_ref (bio st) p"
    using assms(1) by (auto simp: bio_open_def dest: find_SomeD split: option.splits)
  then show "refs_ok b (add_mset p (all_refs st m))" "bdevs b = bdevs (bio st)"
    using assms(2) by (auto simp: sub_ok_def refs_ok_def bdev_inc_ref_def)
qed

lemma open_close_ok:
  assumes "bio_open (bio st) nm = (Some p, b)" and "sub_ok st m"
  shows "sub_ok (subdev_close (st\<lparr>bio := b\<rparr>) p) m"
proof (rule sub_close_ok [OF _ refl])
  note o = open_ok [OF assms]
  show "refs_ok (bio (st\<lparr>bio := b\<rparr>)) (add_mset p (all_refs (st\<lparr>bio := b\<rparr>) m))"
    using o(1) by (simp add: all_refs_def)
  show "distinct (map fst (subs (st\<lparr>bio := b\<rparr>)))"
    and "\<forall>x \<in> fst ` set (subs (st\<lparr>bio := b\<rparr>)). x \<in> set (bdevs (bio (st\<lparr>bio := b\<rparr>)))
      \<or> x \<in># add_mset p (all_refs (st\<lparr>bio := b\<rparr>) m)"
    using assms(2) o(3) by (auto simp: sub_ok_def all_refs_def)
qed

lemma register_sub_ok:
  assumes o: "bio_open (bio st) nm = (Some p, b)" and i: "sub_ok st m" and "ref sub = 0" and "bname sub \<noteq> None"
    and a: "a \<notin> set (bdevs (bio st))" "a \<notin># all_refs st m" "a \<notin> fst ` set (subs st)"
  shows "sub_ok (st\<lparr>bio := bio_register_device (b\<lparr>bdev_at := (bdev_at b)(a := sub)\<rparr>) a,
    subs := (a, p) # subs st\<rparr>) m"
proof -
  note o' = open_ok [OF o i]
  have "a \<noteq> p" using o'(2) a(1) by auto
  moreover have "count (all_refs st m) a = 0" using a(2) by (simp add: not_in_iff)
  ultimately show ?thesis
    using i o'(1,3) assms(3,4) a
    by (auto simp: sub_ok_def refs_ok_def bio_register_device_def bdev_inc_ref_def Let_def all_refs_def)
qed

lemma publish_ok:
  assumes r: "bio_publish_subdevice mem pn nm start cnt st = Ret (r, st')" and i: "sub_ok st m"
    and a: "\<And>a. mem = Some a \<Longrightarrow> a \<notin> set (bdevs (bio st)) \<and> a \<notin># all_refs st m \<and> a \<notin> fst ` set (subs st)"
  shows "sub_ok st' m"
proof (cases "bio_open (bio st) pn")
  case (Pair q b)
  have "ref (subdev_object parent raw nm start cnt geo) = 0"
      "bname (subdev_object parent raw nm start cnt geo) \<noteq> None" for parent raw :: "'a bdev" and geo
    by (simp_all add: subdev_object_def bio_initialize_bdev_def)
  note reg = register_sub_ok [OF _ i this]
  show ?thesis
  proof (cases q)
    case None
    then have "b = bio st" using Pair by (auto simp: bio_open_def split: option.splits)
    then show ?thesis using r i Pair None by (simp add: bio_publish_subdevice_def)
  next
    case (Some p)
    then show ?thesis
      using r Pair a open_close_ok [of st pn p b, OF _ i] reg [of pn p b]
      by (auto simp: bio_publish_subdevice_def Let_def split: option.splits outcome.splits)
  qed
qed

lemma sub_step_ok:
  assumes "sub_step (st, m) (st', m')" and "sub_ok st m"
  shows "sub_ok st' m'"
  using assms(1)
proof cases
  case (sub_open nm a b)
  then have "a \<in> set (bdevs (bio st))" "b = bdev_inc_ref (bio st) a"
    by (auto simp: bio_open_def dest: find_SomeD split: option.splits)
  then show ?thesis using assms(2) sub_open
    by (auto simp: sub_ok_def refs_ok_def bdev_inc_ref_def all_refs_def)
next
  case (sub_close a)
  then have m: "add_mset a (all_refs st (m - {#a#})) = all_refs st m" by (simp add: all_refs_def)
  show ?thesis unfolding sub_close
    by (rule sub_close_ok [OF _ refl]) (use assms(2) in \<open>auto simp only: m sub_ok_def\<close>)
next
  case (sub_register a dev nm bs cnt geo fl)
  then have "count (all_refs st m) a = 0" by (simp add: not_in_iff)
  then show ?thesis using assms(2) sub_register
    by (auto simp: sub_ok_def refs_ok_def bio_register_device_def bdev_inc_ref_def
        bio_initialize_bdev_def Let_def all_refs_def)
next
  case (sub_unreg a)
  let ?st = "st\<lparr>bio := (bio st)\<lparr>bdevs := remove1 a (bdevs (bio st))\<rparr>\<rparr>"
  have "refs_ok (bio ?st) (add_mset a (all_refs ?st m))"
    using assms(2) sub_unreg(3) by (auto simp: sub_ok_def refs_ok_def all_refs_def)
  moreover have "\<forall>x \<in> fst ` set (subs ?st). x \<in> set (bdevs (bio ?st)) \<or> x \<in># add_mset a (all_refs ?st m)"
    using assms(2) by (auto simp: sub_ok_def refs_ok_def all_refs_def)
  ultimately show ?thesis
    using sub_close_ok [of ?st a _ m] assms(2) sub_unreg by (simp add: sub_unregister_def sub_ok_def)
next
  case (sub_publish mem pn nm start cnt r)
  then show ?thesis using publish_ok [OF sub_publish(2) assms(2)] by auto
qed

lemma sub_reachable_ok:
  assumes "sub_step\<^sup>*\<^sup>* (st, m) (st', m')" and "sub_ok st m"
  shows "sub_ok st' m'"
  using assms
  by (induction "(st', m')" arbitrary: st' m' rule: rtranclp_induct)
     (auto intro: sub_step_ok)

text \<open>Claim C19: whatever a client does with open, close, register, unregister and the
publication of sub-devices, starting from an empty list, every device that is listed, held by the
client or parent of a live sub-device has exactly one reference for the list, one per holder and
one per live sub-device of it, and its name has not been freed: a parent is never closed under a
sub-device.\<close>

theorem subdev_refcounts_exact:
  assumes "sub_step\<^sup>*\<^sup>* (st, {#}) (st', m)" and "bdevs (bio st) = []" and "subs st = []"
    and "a \<in> set (bdevs (bio st')) \<or> a \<in># m \<or> a \<in> snd ` set (subs st')"
  shows "ref (bdev_at (bio st') a) = int (count m a) + int (length (filter (\<lambda>(s, p). p = a) (subs st')))
      + (if a \<in> set (bdevs (bio st')) then 1 else 0)
    \<and> bname (bdev_at (bio st') a) \<noteq> None"
proof -
  have "sub_ok st {#}" using assms(2,3) by (simp add: sub_ok_def refs_ok_def all_refs_def)
  with assms(1) have "sub_ok st' m" by (rule sub_reachable_ok)
  moreover have "a \<in> set (bdevs (bio st')) \<or> a \<in># all_refs st' m"
    using assms(4) by (auto simp: all_refs_def)
  moreover have "count (all_refs st' m) a = count m a + length (filter (\<lambda>(s, p). p = a) (subs st'))"
    by (simp add: all_refs_def count_mset_snd)
  ultimately show ?thesis unfolding sub_ok_def refs_ok_def by (cases "a \<in> set (bdevs (bio st'))") auto
qed

definition empty_sub :: "byte list sub_state" where
  "empty_sub = \<lparr>bio = \<lparr>bdev_at = (\<lambda>_. blank_bdev), bdev_priv = (\<lambda>_. []), bdevs = []\<rparr>, subs = []\<rparr>"

definition disk_sub :: "byte list sub_state" where
  "disk_sub = empty_sub\<lparr>bio := bio_register_device ((bio empty_sub)
     \<lparr>bdev_at := (bdev_at (bio empty_sub))(5 := bio_initialize_bdev blank_bdev ''d'' 512 8 [] 0)\<rparr>) 5\<rparr>"

definition part_sub :: "byte list sub_state" where
  "part_sub = (case bio_publish_subdevice (Some 6) ''d'' ''p'' 2 4 disk_sub of Ret (r, st) \<Rightarrow> st | _ \<Rightarrow> disk_sub)"

lemma publish_part: "bio_publish_subdevice (Some 6) ''d'' ''p'' 2 4 disk_sub = Ret (NO_ERROR, part_sub)"
  by (simp add: part_sub_def bio_publish_subdevice_def disk_sub_def bio_open_def bio_register_device_def
      bdev_inc_ref_def bio_initialize_bdev_def sub_geometry_def wrap_simps Let_def empty_sub_def)

lemma part_sub_lists: "bdevs (bio part_sub) = [5, 6]" "subs part_sub = [(6, 5)]"
  using publish_part
  by (simp_all add: bio_publish_subdevice_def disk_sub_def bio_open_def bio_register_device_def
      bdev_inc_ref_def bio_initialize_bdev_def sub_geometry_def wrap_simps Let_def empty_sub_def part_sub_def)

theorem subdev_refcounts_exact_witness:
  "ref (bdev_at (bio part_sub) 5) = int (count {#} (5::nat))
      + int (length (filter (\<lambda>(s, p). p = 5) (subs part_sub)))
      + (if 5 \<in> set (bdevs (bio part_sub)) then 1 else 0)
    \<and> bname (bdev_at (bio part_sub) 5) \<noteq> None"
proof (rule subdev_refcounts_exact [of empty_sub])
  have "sub_step (empty_sub, {#}) (disk_sub, {#})"
    unfolding disk_sub_def by (rule sub_register) (simp_all add: empty_sub_def all_refs_def)
  moreover have "sub_step (disk_sub, {#}) (part_sub, {#})"
    by (rule sub_publish [OF publish_part])
       (simp_all add: disk_sub_def empty_sub_def all_refs_def bio_register_device_def bdev_inc_ref_def Let_def)
  ultimately show "sub_step\<^sup>*\<^sup>* (empty_sub, {#}) (part_sub, {#})" by simp
qed (simp_all add: part_sub_lists empty_sub_def)

section \<open>Properties of the forwarded transfers\<close>

text \<open>A sub-device made of blocks that its parent has is itself a device that meets the
driver contract, on the slice of the parent's image it was given, so that everything proved from
the contract (exact byte-granular reads, writes and erases, and sub-devices of its own) holds for
it.\<close>

theorem subdev_is_block_device:
  assumes "block_device dev rdb wrb img ok" and "block_count dev * block_size dev < 2 ^ 32"
    and "start + cnt \<le> block_count dev" and "0 < cnt"
  shows "block_device (subdev_object dev raw nm start cnt geo) (subdev_read_block dev start)
    (subdev_write_block dev start)
    (\<lambda>d. slice_at (start * block_size dev) (cnt * block_size dev) (img d)) ok"
  using block_device.subdev_block_device [OF assms] by (simp add: sub_img_def [abs_def])

theorem subdev_is_block_device_witness:
  "block_device (subdev_object (membdev_default blank_bdev ''m'' 4096) blank_bdev ''s'' 2 4 [])
     (subdev_read_block (membdev_default blank_bdev ''m'' 4096) 2)
     (subdev_write_block (membdev_default blank_bdev ''m'' 4096) 2)
     (\<lambda>d. slice_at (2 * block_size (membdev_default blank_bdev ''m'' 4096))
        (4 * block_size (membdev_default blank_bdev ''m'' 4096)) (mem_img 4096 d))
     (\<lambda>mem. length mem = 4096)"
  by (rule subdev_is_block_device [OF mem.block_device_axioms]) (simp_all add: membdev_default_def)

text \<open>Claim C20: once a range of blocks has been accepted for a sub-device of a parent without
erase geometry, a byte-granular write through the sub-device, at any alignment, changes exactly
the bytes it names inside the range, returns the length, and leaves every byte of the parent
before and after the range as it was.\<close>

theorem subdev_write_confined:
  assumes "block_device dev rdb wrb img ok" and "ok d" and "write_hook dev = Default"
    and "block_count dev * block_size dev < 2 ^ 32" and "geometry dev = []"
    and "start < 2 ^ 32" and "cnt < 2 ^ 32" and "sub_geometry dev start cnt = Ret (Some geo)"
    and "off + len \<le> cnt * block_size dev" and "len \<le> length src"
  shows "\<exists>d'. bio_write (subdev_object dev raw nm start cnt geo) addr d src (int off) len = (int len, d')
    \<and> ok d'
    \<and> slice_at (start * block_size dev) (cnt * block_size dev) (img d')
      = splice_at (slice_at (start * block_size dev) (cnt * block_size dev) (img d)) off (take len src)
    \<and> take (start * block_size dev) (img d') = take (start * block_size dev) (img d)
    \<and> drop ((start + cnt) * block_size dev) (img d') = drop ((start + cnt) * block_size dev) (img d)"
proof -
  let ?b = "block_size dev"
  have fit: "start + cnt \<le> block_count dev"
    using sub_geometry_plain [OF assms(5,6,7)] assms(8) by (simp split: if_splits)
  obtain d' where d': "bio_write (subdev_object dev raw nm start cnt geo) addr d src (int off) len = (int len, d')"
      "ok d'" "img d' = splice_at (img d) (start * ?b + off) (take len src)"
    using block_device.subdev_write_ok [OF assms(1-4) fit assms(9,10)] by blast
  have I: "start * ?b + cnt * ?b \<le> length (img d)"
    using block_device.sub_blocks(1) [OF assms(1) fit, of 0 0 d] assms(2) by simp
  have l: "off + length (take len src) \<le> cnt * ?b" using assms(9,10) by simp
  have "take (start * ?b) (img d') = take (start * ?b) (img d)"
    using l I by (simp add: d'(3) splice_at_def)
  moreover have "drop ((start + cnt) * ?b) (img d') = drop ((start + cnt) * ?b) (img d)"
    using l I by (simp add: d'(3) splice_at_def add_mult_distrib add.commute)
  ultimately show ?thesis using d' slice_splice_inside [OF l I] by simp
qed

theorem subdev_write_confined_witness:
  "\<exists>d'. bio_write (subdev_object (membdev_default blank_bdev ''m'' 4096) blank_bdev ''s'' 2 4 []) 0
      (replicate 4096 7) (replicate 700 1) (int 300) 700 = (int 700, d')
    \<and> length d' = 4096
    \<and> slice_at (2 * block_size (membdev_default blank_bdev ''m'' 4096))
        (4 * block_size (membdev_default blank_bdev ''m'' 4096)) (mem_img 4096 d')
      = splice_at (slice_at (2 * block_size (membdev_default blank_bdev ''m'' 4096))
          (4 * block_size (membdev_default blank_bdev ''m'' 4096)) (mem_img 4096 (replicate 4096 7)))
          300 (take 700 (replicate 700 1))
    \<and> take (2 * block_size (membdev_default blank_bdev ''m'' 4096)) (mem_img 4096 d')
      = take (2 * block_size (membdev_default blank_bdev ''m'' 4096)) (mem_img 4096 (replicate 4096 7))
    \<and> drop ((2 + 4) * block_size (membdev_default blank_bdev ''m'' 4096)) (mem_img 4096 d')
      = drop ((2 + 4) * block_size (membdev_default blank_bdev ''m'' 4096)) (mem_img 4096 (replicate 4096 7))"
  by (rule subdev_write_confined [OF mem.block_device_axioms])
     (simp_all add: membdev_default_def membdev_object_def bio_initialize_bdev_def sub_geometry_def
       BLOCKSIZE_def wrap_simps)

text \<open>
  With an erase geometry the search never rejects: a range that lies in no erase region of the
  parent, here past its end, is accepted when it is aligned to the last region.
\<close>

lemma geometry_search_accepts_outside:
  "sub_geometry (bio_initialize_bdev (blank_bdev :: unit bdev) ''d'' 512 8
      [\<lparr>geo_start = 0, geo_size = 4096, geo_erase_size = 512, geo_erase_shift = 9\<rparr>] 0) 100 4
    = Ret (Some [\<lparr>geo_start = 0, geo_size = 2048, geo_erase_size = 512, geo_erase_shift = 9\<rparr>])"
  using log2_uint_pow2 [of 512 9]
  by (simp add: sub_geometry_def bio_initialize_bdev_def bio_contains_range_def Let_def push_bit_eq_mult)

end
