(* ===== verification/Block.thy ===== *)
theory Block
  imports Sparse Bio_Byte_Correct Bio_Subdev
begin

text \<open>
  The \<^verbatim>\<open>blk_*\<close> calls of \<^verbatim>\<open>lib/block/block.c\<close>: they find the device of a logical unit by its
  name and pass byte-sized requests to it. \<^verbatim>\<open>get_boot_device\<close> is the one of this platform; the
  calls take its result as an argument. The status of an erase, read or write is the count the
  block layer returns. A null device pointer is dereferenced. In a mode other than UFS and eMMC
  the name is an uninitialised array, the argument \<open>junk\<close>.
\<close>

definition get_boot_device :: boot_device where
  "get_boot_device = BOOT_UFS"

definition MMC_PARTITION_MMC_RPMB :: nat where
  "MMC_PARTITION_MMC_RPMB = 3"

text \<open>The unit number is added to the character 0 and stored in a \<^verbatim>\<open>char\<close>; a zero ends the name.\<close>

definition lun_name :: "string \<Rightarrow> nat \<Rightarrow> string" where
  "lun_name pre lun =
     takeWhile (\<lambda>c. c \<noteq> CHR 0x00) (pre @ [char_of ((48 + lun) mod 2 ^ 8 :: nat)])"

definition blk_get_dev ::
    "boot_device \<Rightarrow> string \<Rightarrow> nat \<Rightarrow> 't storage \<Rightarrow> nat option \<times> 't storage" where
  "blk_get_dev bMode junk lun st =
     st_open st (case bMode of
         BOOT_UFS \<Rightarrow> lun_name ''scsi'' lun
       | BOOT_EMMC \<Rightarrow> if lun = MMC_PARTITION_MMC_RPMB then ''mmcrpmb'' else lun_name ''mmc'' lun
       | BOOT_OTHER \<Rightarrow> junk)"

definition BLKCNT_UFS_TO_MMC :: "nat \<Rightarrow> nat" where
  "BLKCNT_UFS_TO_MMC x = mul32 x (2 ^ 3)"

definition blk_card_total_sector ::
    "boot_device \<Rightarrow> string \<Rightarrow> nat \<Rightarrow> 't storage \<Rightarrow> (nat \<times> 't storage) outcome" where
  "blk_card_total_sector bMode junk lun st =
     (case blk_get_dev bMode junk lun st of
        (None, st) \<Rightarrow> Fault
      | (Some a, st) \<Rightarrow>
          (let ret = block_count (bdev_at (sbio st) a) in
           Ret (if bMode = BOOT_UFS then BLKCNT_UFS_TO_MMC ret else ret, st)))"

definition blk_bread ::
    "boot_device \<Rightarrow> string \<Rightarrow> nat \<Rightarrow> byte list \<Rightarrow> nat \<Rightarrow> nat \<Rightarrow> nat \<Rightarrow> 't storage
      \<Rightarrow> (nat \<times> byte list \<times> 't storage) outcome" where
  "blk_bread bMode junk addr p lun from sz st =
     (case blk_get_dev bMode junk lun st of
        (None, st) \<Rightarrow> Fault
      | (Some a, st) \<Rightarrow>
          (case bio_new_byte_read (bdev_at (sbio st) a) addr p (starget st) from sz of
             None \<Rightarrow> Hang
           | Some (cnt, p, t) \<Rightarrow> Ret (cnt, p, st\<lparr>starget := t\<rparr>)))"

definition blk_bwrite ::
    "boot_device \<Rightarrow> string \<Rightarrow> nat \<Rightarrow> byte list \<Rightarrow> nat \<Rightarrow> nat \<Rightarrow> nat \<Rightarrow> 't storage
      \<Rightarrow> (nat \<times> 't storage) outcome" where
  "blk_bwrite bMode junk addr p lun from sz st =
     (case blk_get_dev bMode junk lun st of
        (None, st) \<Rightarrow> Fault
      | (Some a, st) \<Rightarrow>
          (case bio_new_byte_write (bdev_at (sbio st) a) addr (starget st) p from sz of
             None \<Rightarrow> Hang
           | Some (cnt, t) \<Rightarrow> Ret (cnt, st\<lparr>starget := t\<rparr>)))"

text \<open>A division by zero in the erase is a fault.\<close>

definition blk_berase ::
    "boot_device \<Rightarrow> string \<Rightarrow> nat \<Rightarrow> nat \<Rightarrow> nat \<Rightarrow> 't storage \<Rightarrow> (nat \<times> 't storage) outcome" where
  "blk_berase bMode junk lun from sz st =
     (case blk_get_dev bMode junk lun st of
        (None, st) \<Rightarrow> Fault
      | (Some a, st) \<Rightarrow>
          (case bio_new_byte_erase (bdev_at (sbio st) a) (starget st) from sz of
             None \<Rightarrow> Fault
           | Some (cnt, t) \<Rightarrow> Ret (cnt, st\<lparr>starget := t\<rparr>)))"

text \<open>In UFS mode the write-protect calls do nothing in this configuration.\<close>

definition blk_set_wp ::
    "boot_device \<Rightarrow> string \<Rightarrow> int \<Rightarrow> int \<Rightarrow> nat \<Rightarrow> nat \<Rightarrow> 't storage \<Rightarrow> (status \<times> 't storage) outcome" where
  "blk_set_wp bMode junk select enable start sz st =
     (if bMode = BOOT_UFS then Ret (0, st)
      else
        (case blk_get_dev bMode junk 0 st of
           (None, st) \<Rightarrow> Fault
         | (Some a, st) \<Rightarrow>
             (case bio_new_set_wp (bdev_at (sbio st) a) (starget st) select enable start sz of
                (err, t) \<Rightarrow> Ret (0, st\<lparr>starget := t\<rparr>))))"

definition blk_set_boot_wp ::
    "boot_device \<Rightarrow> string \<Rightarrow> int \<Rightarrow> 't storage \<Rightarrow> (status \<times> 't storage) outcome" where
  "blk_set_boot_wp bMode junk enable st = blk_set_wp bMode junk 1 enable 0 0 st"

definition blk_set_user_wp ::
    "boot_device \<Rightarrow> string \<Rightarrow> nat \<Rightarrow> nat \<Rightarrow> 't storage \<Rightarrow> (status \<times> 't storage) outcome" where
  "blk_set_user_wp bMode junk start sz st = blk_set_wp bMode junk 0 1 start sz st"

definition blk_close :: "boot_device \<Rightarrow> string \<Rightarrow> 't storage \<Rightarrow> status \<times> 't storage" where
  "blk_close bMode junk st =
     (case blk_get_dev bMode junk 0 st of
        (None, st) \<Rightarrow> (0, st)
      | (Some a, st) \<Rightarrow> (0, st_close st a))"

section \<open>What the calls do to a unit and to its references\<close>

text \<open>For the first ten units this is the name under which \<^verbatim>\<open>scsi_scan\<close> publishes them.\<close>

lemma lun_name_published: "lun < 10 \<Longrightarrow> lun_name ''scsi'' lun = ''scsi'' @ dec_digits lun"
proof -
  have "\<forall>l \<in> set [0 ..< 10]. lun_name ''scsi'' l = ''scsi'' @ dec_digits l" by code_simp
  then show "lun < 10 \<Longrightarrow> ?thesis" by simp
qed

lemma listed_opened: "listed st nm a \<Longrightarrow> listed (opened st a) nm a"
proof -
  assume l: "listed st nm a"
  have "(\<lambda>x. bname (bdev_at (sbio (opened st a)) x) = Some nm)
      = (\<lambda>x. bname (bdev_at (sbio st) x) = Some nm)"
    by (auto simp: opened_def bdev_inc_ref_def)
  then show ?thesis using l by (simp add: listed_def) (simp add: opened_def bdev_inc_ref_def)
qed

lemma lu_at_opened: "lu_at st nm a img ok \<Longrightarrow> lu_at (opened st a) nm a img ok"
  using lu_opened [of st nm a img ok] listed_opened [of st nm a] by (simp add: lu_at_def)

lemma opened_facts [simp]:
  "lu_sectors (opened st a) a = lu_sectors st a"
  "ref (bdev_at (sbio (opened st a)) a) = ref (bdev_at (sbio st) a) + 1"
  "sbio (opened (st\<lparr>starget := t\<rparr>) a) = sbio (opened st a)"
  by (simp_all add: opened_def bdev_inc_ref_def lu_sectors_def)

lemma blk_get_dev_ufs:
  "lu_at st (lun_name ''scsi'' lun) a img ok
   \<Longrightarrow> blk_get_dev BOOT_UFS junk lun st = (Some a, opened st a)"
  by (simp add: blk_get_dev_def lu_open)

lemma blk_bwrite_ok:
  assumes lu: "lu_at st (lun_name ''scsi'' lun) a img ok" and sz: "0 < sz" "sz < 2 ^ 32"
    and "from + BYTE_TO_BLOCK sz \<le> lu_sectors st a" and "BYTE_TO_BLOCK sz * 512 \<le> length p"
  shows "\<exists>c m t. blk_bwrite BOOT_UFS junk addr p lun from sz st = Ret (c, (opened st a)\<lparr>starget := t\<rparr>)
      \<and> sz \<le> m \<and> m \<le> BYTE_TO_BLOCK sz * 512 \<and> ok t
      \<and> img t = splice_at (img (starget st)) (from * 512) (slice_at 0 m p)"
proof -
  have w: "from + BYTE_TO_BLOCK sz \<le> block_count (bdev_at (sbio (opened st a)) a)
      * native_blocks (bdev_at (sbio (opened st a)) a)"
    using assms(4) lu_opened(4) [OF lu] by simp
  have "flags (bdev_at (sbio (opened st a)) a) AND BIO_FLAG_CACHE_ALIGNED_WRITES = 0
      \<or> is_aligned addr CACHE_LINE"
    using lu_opened(2) [OF lu] by simp
  from native_device.byte_write_ok [OF lu_opened(1,3) [OF lu] sz w assms(5) this]
  show ?thesis using blk_get_dev_ufs [OF lu, of junk]
    by (elim exE conjE) (intro exI conjI, simp add: blk_bwrite_def, simp_all)
qed

lemma blk_bread_ok:
  assumes lu: "lu_at st (lun_name ''scsi'' lun) a img ok" and sz: "0 < sz" "sz < 2 ^ 32"
    and "from + BYTE_TO_BLOCK sz \<le> lu_sectors st a" and "BYTE_TO_BLOCK sz * 512 \<le> length q"
  shows "\<exists>c m t. blk_bread BOOT_UFS junk addr q lun from sz st
        = Ret (c, splice_at q 0 (slice_at (from * 512) m (img (starget st))), (opened st a)\<lparr>starget := t\<rparr>)
      \<and> sz \<le> m \<and> m \<le> BYTE_TO_BLOCK sz * 512 \<and> ok t \<and> img t = img (starget st)"
proof -
  have w: "from + BYTE_TO_BLOCK sz \<le> block_count (bdev_at (sbio (opened st a)) a)
      * native_blocks (bdev_at (sbio (opened st a)) a)"
    using assms(4) lu_opened(4) [OF lu] by simp
  have "flags (bdev_at (sbio (opened st a)) a) AND BIO_FLAG_CACHE_ALIGNED_READS = 0
      \<or> is_aligned addr CACHE_LINE"
    using lu_opened(2) [OF lu] by simp
  from native_device.byte_read_ok [OF lu_opened(1,3) [OF lu] sz w assms(5) this]
  show ?thesis using blk_get_dev_ufs [OF lu, of junk]
    by (elim exE conjE) (intro exI conjI, simp add: blk_bread_def, simp_all)
qed

text \<open>
  Data written to a unit is read back, in any number of bytes and at any sector, and the rest
  of the medium stays as it was up to the end of the last sector. Both calls leave the
  reference they took, so the unit has two more afterwards.
\<close>

theorem blk_write_read:
  assumes lu: "lu_at st (lun_name ''scsi'' lun) a img ok" and sz: "0 < sz" "sz < 2 ^ 32"
    and sec: "from + BYTE_TO_BLOCK sz \<le> lu_sectors st a"
    and p: "BYTE_TO_BLOCK sz * 512 \<le> length p" and q: "BYTE_TO_BLOCK sz * 512 \<le> length q"
  shows "\<exists>c1 st1 c2 q' st2. blk_bwrite BOOT_UFS junk addr p lun from sz st = Ret (c1, st1)
      \<and> blk_bread BOOT_UFS junk addr' q lun from sz st1 = Ret (c2, q', st2)
      \<and> take sz q' = take sz p
      \<and> (\<exists>m. sz \<le> m \<and> m \<le> BYTE_TO_BLOCK sz * 512
           \<and> img (starget st2) = splice_at (img (starget st)) (from * 512) (slice_at 0 m p))
      \<and> ref (bdev_at (sbio st2) a) = ref (bdev_at (sbio st) a) + 2"
proof -
  obtain c1 m t where w: "blk_bwrite BOOT_UFS junk addr p lun from sz st
        = Ret (c1, (opened st a)\<lparr>starget := t\<rparr>)" "sz \<le> m" "m \<le> BYTE_TO_BLOCK sz * 512" "ok t"
      "img t = splice_at (img (starget st)) (from * 512) (slice_at 0 m p)"
    using blk_bwrite_ok [OF lu sz sec p] by blast
  let ?st1 = "(opened st a)\<lparr>starget := t\<rparr>"
  have lu1: "lu_at ?st1 (lun_name ''scsi'' lun) a img ok"
    using lu_target [OF lu_at_opened [OF lu] w(4)] .
  have sec1: "from + BYTE_TO_BLOCK sz \<le> lu_sectors ?st1 a" using sec by simp
  obtain c2 m' t' where r: "blk_bread BOOT_UFS junk addr' q lun from sz ?st1
        = Ret (c2, splice_at q 0 (slice_at (from * 512) m' (img t)), (opened ?st1 a)\<lparr>starget := t'\<rparr>)"
      "sz \<le> m'" "m' \<le> BYTE_TO_BLOCK sz * 512" "img t' = img t"
    using blk_bread_ok [OF lu1 sz sec1 q, of junk addr'] by auto
  let ?q' = "splice_at q 0 (slice_at (from * 512) m' (img t))"
  have len: "length (img (starget st)) = lu_sectors st a * 512" by (rule lu_length [OF lu])
  have fit: "from * 512 + m \<le> length (img (starget st))" "from * 512 + m' \<le> length (img (starget st))"
    using sec w(3) r(3) len by linarith+
  have l: "length (slice_at 0 m p) = m" using w(3) p by simp
  then have lt: "length (img t) = length (img (starget st))"
    using fit(1) by (simp add: w(5) length_splice)
  have "take sz ?q' = take sz (slice_at (from * 512) m' (img t))"
    using r(2) fit(2) lt by (simp add: splice_at_def)
  also have "\<dots> = slice_at (from * 512) sz (img t)" using r(2) by (simp add: slice_at_def min_absorb1)
  also have "\<dots> = slice_at 0 sz (slice_at 0 m p)"
    unfolding w(5) using slice_splice_sub [of "from * 512" "slice_at 0 m p" _ 0 sz] fit(1) l w(2) by simp
  also have "\<dots> = take sz p" using w(2) by (simp add: slice_at_def min_absorb1)
  finally have "take sz ?q' = take sz p" .
  then show ?thesis using w r by auto
qed

text \<open>
  \<^verbatim>\<open>blk_close\<close> opens the device itself and gives back only that reference: it changes nothing.
\<close>

theorem blk_close_is_no_op:
  assumes "lu_at st (lun_name ''scsi'' 0) a img ok"
  shows "blk_close BOOT_UFS junk st = (0, st)"
  using blk_get_dev_ufs [OF assms] lu_close [OF assms, of "starget st"]
  by (simp add: blk_close_def opened_def)

end
