(* ===== verification/Bcache.thy ===== *)
theory Bcache
  imports Bio_Mem
begin

text \<open>
  The block cache of \<^verbatim>\<open>lib/bcache/bcache.c\<close>: a fixed set of buffers for blocks of a device, kept in
  order of use, with reference counts for blocks that are in use and write-back of changed ones.

  A buffer is named by its index in the array \<^verbatim>\<open>blocks\<close>; the two lists hold indices. After a
  failed read \<^verbatim>\<open>find_or_fill_block\<close> puts a buffer on the free list without taking it off the
  other one. From then on its links belong to the free list: whoever comes across it while
  following the other list leaves that list, and taking it from the free list makes it its own
  neighbour on the other one. Both are faults of the model. The counters are 32-bit, the result
  of a transfer is narrowed to \<^verbatim>\<open>int\<close>, a failed assertion is a fault, and allocation succeeds.
\<close>

record bcache_block =
  blocknum :: nat
  ref_count :: int
  is_dirty :: bool
  ptr :: "byte list"
  ptr_addr :: nat

record bcache =
  bc_block_size :: nat
  bc_count :: nat
  bc_hits :: nat
  bc_depth :: nat
  bc_misses :: nat
  bc_reads :: nat
  bc_writes :: nat
  bc_free :: "nat list"
  bc_lru :: "nat list"
  bc_blocks :: "nat \<Rightarrow> bcache_block"

text \<open>\<open>raw i\<close> is what the memory allocator returned for buffer \<open>i\<close>.\<close>

definition bcache_create :: "(nat \<Rightarrow> bcache_block) \<Rightarrow> nat \<Rightarrow> nat \<Rightarrow> bcache" where
  "bcache_create raw bsz cnt =
     \<lparr>bc_block_size = bsz, bc_count = cnt, bc_hits = 0, bc_depth = 0, bc_misses = 0, bc_reads = 0,
      bc_writes = 0, bc_free = fold (#) [0 ..< cnt] [], bc_lru = [],
      bc_blocks = (\<lambda>i. (raw i)\<lparr>ref_count := 0, is_dirty := False\<rparr>)\<rparr>"

definition upd_block :: "nat \<Rightarrow> (bcache_block \<Rightarrow> bcache_block) \<Rightarrow> bcache \<Rightarrow> bcache" where
  "upd_block i f c = c\<lparr>bc_blocks := (bc_blocks c)(i := f (bc_blocks c i))\<rparr>"

text \<open>\<^verbatim>\<open>(off_t)blocknum * block_size\<close>, and \<^verbatim>\<open>int rc = ...\<close>.\<close>

definition block_off :: "bcache \<Rightarrow> nat \<Rightarrow> int" where
  "block_off c num = signed_take_bit 63 (int (num * bc_block_size c))"

definition to_int :: "status \<Rightarrow> status" where
  "to_int rc = signed_take_bit 31 rc"

definition flush_block :: "'d bdev \<Rightarrow> bcache \<Rightarrow> nat \<Rightarrow> 'd \<Rightarrow> status \<times> bcache \<times> 'd" where
  "flush_block dev c i d =
     (let b = bc_blocks c i in
      case bio_write dev (ptr_addr b) d (ptr b) (block_off c (blocknum b)) (bc_block_size c) of
        (rc, d') \<Rightarrow>
          if to_int rc < 0 then (to_int rc, c, d')
          else (0, (upd_block i (\<lambda>b. b\<lparr>is_dirty := False\<rparr>) c)\<lparr>bc_writes := add32 (bc_writes c) 1\<rparr>, d'))"

definition bcache_destroy :: "bcache \<Rightarrow> unit outcome" where
  "bcache_destroy c =
     (if \<forall>i < bc_count c. ref_count (bc_blocks c i) = 0 then Ret () else Fault)"

text \<open>\<^verbatim>\<open>list_for_every_entry\<close> over the list in use, up to the first entry that satisfies \<open>P\<close>.\<close>

fun walk :: "(nat \<Rightarrow> bool) \<Rightarrow> nat list \<Rightarrow> nat list \<Rightarrow> nat \<Rightarrow> (nat option \<times> nat) outcome" where
  "walk P fl [] depth = Ret (None, depth)"
| "walk P fl (i # is) depth =
     (if i \<in> set fl then Fault
      else if P i then Ret (Some i, Suc depth) else walk P fl is (Suc depth))"

definition to_tail :: "nat \<Rightarrow> bcache \<Rightarrow> bcache" where
  "to_tail i c = c\<lparr>bc_lru := remove1 i (bc_lru c) @ [i]\<rparr>"

definition find_block :: "bcache \<Rightarrow> nat \<Rightarrow> (nat option \<times> bcache) outcome" where
  "find_block c num =
     (case walk (\<lambda>i. blocknum (bc_blocks c i) = num) (bc_free c) (bc_lru c) 0 of
        Ret (Some i, depth) \<Rightarrow>
          Ret (Some i, (to_tail i c)\<lparr>bc_hits := add32 (bc_hits c) 1, bc_depth := add32 (bc_depth c) depth\<rparr>)
      | Ret (None, depth) \<Rightarrow> Ret (None, c\<lparr>bc_misses := add32 (bc_misses c) 1\<rparr>)
      | Fault \<Rightarrow> Fault | Hang \<Rightarrow> Hang)"

definition alloc_block :: "'d bdev \<Rightarrow> bcache \<Rightarrow> 'd \<Rightarrow> (nat option \<times> bcache \<times> 'd) outcome" where
  "alloc_block dev c d =
     (case bc_free c of
        i # fl \<Rightarrow>
          if i \<in> set (bc_lru c) then Fault
          else Ret (Some i,
                 (upd_block i (\<lambda>b. b\<lparr>ref_count := 0\<rparr>) c)\<lparr>bc_free := fl, bc_lru := bc_lru c @ [i]\<rparr>, d)
      | [] \<Rightarrow>
          (case walk (\<lambda>i. ref_count (bc_blocks c i) = 0) (bc_free c) (bc_lru c) 0 of
             Ret (Some i, depth) \<Rightarrow>
               (case (if is_dirty (bc_blocks c i) then flush_block dev c i d else (0, c, d)) of
                  (err, c, d) \<Rightarrow> if err \<noteq> 0 then Ret (None, c, d) else Ret (Some i, to_tail i c, d))
           | Ret (None, depth) \<Rightarrow> Ret (None, c, d)
           | Fault \<Rightarrow> Fault | Hang \<Rightarrow> Hang))"

definition find_or_fill_block ::
    "'d bdev \<Rightarrow> bcache \<Rightarrow> nat \<Rightarrow> 'd \<Rightarrow> (nat option \<times> bcache \<times> 'd) outcome" where
  "find_or_fill_block dev c num d =
     (case find_block c num of
        Ret (Some i, c) \<Rightarrow> Ret (Some i, c, d)
      | Ret (None, c) \<Rightarrow>
          (case alloc_block dev c d of
             Ret (Some i, c, d) \<Rightarrow>
               (let c = upd_block i (\<lambda>b. b\<lparr>blocknum := num\<rparr>) c; b = bc_blocks c i in
                case bio_read dev (ptr_addr b) (ptr b) d (block_off c num) (bc_block_size c) of
                  (err, buf, d) \<Rightarrow>
                    (let c = upd_block i (\<lambda>b. b\<lparr>ptr := buf\<rparr>) c in
                     if to_int err < 0 then Ret (None, c\<lparr>bc_free := bc_free c @ [i]\<rparr>, d)
                     else Ret (Some i, c\<lparr>bc_reads := add32 (bc_reads c) 1\<rparr>, d)))
           | Ret (None, c, d) \<Rightarrow> Fault
           | Fault \<Rightarrow> Fault | Hang \<Rightarrow> Hang)
      | Fault \<Rightarrow> Fault | Hang \<Rightarrow> Hang)"

definition bcache_read_block ::
    "'d bdev \<Rightarrow> bcache \<Rightarrow> byte list \<Rightarrow> nat \<Rightarrow> 'd \<Rightarrow> (status \<times> byte list \<times> bcache \<times> 'd) outcome" where
  "bcache_read_block dev c buf num d =
     (case find_or_fill_block dev c num d of
        Ret (Some i, c, d) \<Rightarrow>
          Ret (0, splice_at buf 0 (take (bc_block_size c) (ptr (bc_blocks c i))), c, d)
      | Ret (None, c, d) \<Rightarrow> Ret (-1, buf, c, d)
      | Fault \<Rightarrow> Fault | Hang \<Rightarrow> Hang)"

text \<open>The pointer handed out is the index of the buffer.\<close>

definition bcache_get_block ::
    "'d bdev \<Rightarrow> bcache \<Rightarrow> nat \<Rightarrow> 'd \<Rightarrow> (status \<times> nat option \<times> bcache \<times> 'd) outcome" where
  "bcache_get_block dev c num d =
     (case find_or_fill_block dev c num d of
        Ret (Some i, c, d) \<Rightarrow>
          Ret (0, Some i, upd_block i (\<lambda>b. b\<lparr>ref_count := ref_count b + 1\<rparr>) c, d)
      | Ret (None, c, d) \<Rightarrow> Ret (-1, None, c, d)
      | Fault \<Rightarrow> Fault | Hang \<Rightarrow> Hang)"

definition bcache_put_block :: "bcache \<Rightarrow> nat \<Rightarrow> (status \<times> bcache) outcome" where
  "bcache_put_block c num =
     (case find_block c num of
        Ret (Some i, c) \<Rightarrow>
          if 0 < ref_count (bc_blocks c i)
          then Ret (0, upd_block i (\<lambda>b. b\<lparr>ref_count := ref_count b - 1\<rparr>) c) else Fault
      | Ret (None, c) \<Rightarrow> Fault
      | Fault \<Rightarrow> Fault | Hang \<Rightarrow> Hang)"

definition bcache_mark_block_dirty :: "bcache \<Rightarrow> nat \<Rightarrow> (status \<times> bcache) outcome" where
  "bcache_mark_block_dirty c num =
     (case find_block c num of
        Ret (Some i, c) \<Rightarrow> Ret (0, upd_block i (\<lambda>b. b\<lparr>is_dirty := True\<rparr>) c)
      | Ret (None, c) \<Rightarrow> Ret (-1, c)
      | Fault \<Rightarrow> Fault | Hang \<Rightarrow> Hang)"

definition zero_fill :: "nat \<Rightarrow> bcache \<Rightarrow> bcache" where
  "zero_fill i c = upd_block i (\<lambda>b. b\<lparr>ptr := splice_at (ptr b) 0 (replicate (bc_block_size c) 0), is_dirty := True\<rparr>) c"

definition bcache_zero_block :: "'d bdev \<Rightarrow> bcache \<Rightarrow> nat \<Rightarrow> 'd \<Rightarrow> (status \<times> bcache \<times> 'd) outcome" where
  "bcache_zero_block dev c num d =
     (case find_block c num of
        Ret (Some i, c) \<Rightarrow> Ret (0, zero_fill i c, d)
      | Ret (None, c) \<Rightarrow>
          (case alloc_block dev c d of
             Ret (Some i, c, d) \<Rightarrow> Ret (0, zero_fill i (upd_block i (\<lambda>b. b\<lparr>blocknum := num\<rparr>) c), d)
           | Ret (None, c, d) \<Rightarrow> Ret (-1, c, d)
           | Fault \<Rightarrow> Fault | Hang \<Rightarrow> Hang)
      | Fault \<Rightarrow> Fault | Hang \<Rightarrow> Hang)"

fun flush_list :: "'d bdev \<Rightarrow> nat list \<Rightarrow> bcache \<Rightarrow> 'd \<Rightarrow> (status \<times> bcache \<times> 'd) outcome" where
  "flush_list dev [] c d = Ret (0, c, d)"
| "flush_list dev (i # is) c d =
     (if i \<in> set (bc_free c) then Fault
      else case (if is_dirty (bc_blocks c i) then flush_block dev c i d else (0, c, d)) of
        (err, c, d) \<Rightarrow> if err \<noteq> 0 then Ret (err, c, d) else flush_list dev is c d)"

definition bcache_flush :: "'d bdev \<Rightarrow> bcache \<Rightarrow> 'd \<Rightarrow> (status \<times> bcache \<times> 'd) outcome" where
  "bcache_flush dev c d = flush_list dev (bc_lru c) c d"

section \<open>The device below\<close>

text \<open>What a client of the byte path relies on: reads and writes within the device are exact.\<close>

locale byte_medium =
  fixes dev :: "'d bdev"
    and img :: "'d \<Rightarrow> byte list"
    and ok :: "'d \<Rightarrow> bool"
    and msize :: nat
  assumes img_size: "ok d \<Longrightarrow> length (img d) = msize"
    and msize_off: "msize < 2 ^ 63"
    and read_exact: "ok d \<Longrightarrow> off + len \<le> msize \<Longrightarrow> len \<le> length buf \<Longrightarrow>
      \<exists>d'. bio_read dev addr buf d (int off) len
        = (int len, splice_at buf 0 (slice_at off len (img d)), d') \<and> ok d' \<and> img d' = img d"
    and write_exact: "ok d \<Longrightarrow> off + len \<le> msize \<Longrightarrow> len \<le> length src \<Longrightarrow>
      \<exists>d'. bio_write dev addr d src (int off) len = (int len, d') \<and> ok d'
        \<and> img d' = splice_at (img d) off (take len src)"

text \<open>The memory device meets it through its own byte hooks.\<close>

lemma membdev_trim:
  "0 < n \<Longrightarrow> off + n \<le> len div 512 mod 2 ^ 32 * 512 \<Longrightarrow>
   bio_trim_range (membdev_object raw nm len) (int off) n = n"
proof (rule trim_range_in)
  have "len div 512 mod 2 ^ 32 < (2 ^ 32 :: nat)" by simp
  then show "total_size (membdev_object raw nm len) < 2 ^ 63" by simp
qed simp_all

interpretation ram: byte_medium "membdev_object raw nm len" "mem_img len"
    "\<lambda>mem. length mem = len" "len div 512 mod 2 ^ 32 * 512" for raw nm len
proof (unfold_locales, goal_cases)
  case (1 d)
  then show ?case using mem_blocks_le [of len] by (simp add: mem_img_def)
next
  case 2
  have "len div 512 mod 2 ^ 32 < (2 ^ 32 :: nat)" by simp
  then show ?case by simp
next
  case (3 d off n buf addr)
  then show ?case
    by (cases "n = 0") (simp_all add: bio_read_def bio_trim_range_def [of _ _ 0] membdev_trim mem_bdev_read_def mem_img_def take_slice_at)
next
  case (4 d off n src addr)
  then show ?case using mem_blocks_le [of len]
    by (cases "n = 0")
       (simp_all add: bio_write_def bio_trim_range_def [of _ _ 0] membdev_trim mem_bdev_write_def mem_img_def take_splice_at
         length_splice)
qed

end
