(* ===== verification/Bcache_Correct.thy ===== *)
theory Bcache_Correct
  imports Bcache
begin

text \<open>
  The block cache refines a store of blocks: to its client the blocks of the device are an
  array of contents \<open>A\<close> with a number of users \<open>P\<close> each. The relation \<open>bc_rel\<close> ties the buffers
  and the medium to this store; every operation within the device and the capacity of the cache
  returns, answers from the store and keeps the relation, and a flush brings the medium in line.
\<close>

section \<open>The store and the relation\<close>

type_synonym contents = "nat \<Rightarrow> byte list"
type_synonym users = "nat \<Rightarrow> nat"

definition medium :: "('d \<Rightarrow> byte list) \<Rightarrow> nat \<Rightarrow> 'd \<Rightarrow> contents" where
  "medium img bs d num = slice_at (num * bs) bs (img d)"

definition nums :: "bcache \<Rightarrow> nat set" where
  "nums c = (\<lambda>i. blocknum (bc_blocks c i)) ` set (bc_lru c)"

definition cached_ok :: "('d \<Rightarrow> byte list) \<Rightarrow> nat \<Rightarrow> nat \<Rightarrow> contents \<Rightarrow> users \<Rightarrow> 'd \<Rightarrow> bcache_block \<Rightarrow> bool" where
  "cached_ok img msize bs A P d b \<longleftrightarrow>
     Suc (blocknum b) * bs \<le> msize \<and> length (ptr b) = bs \<and> A (blocknum b) = ptr b
     \<and> (is_dirty b \<or> ptr b = medium img bs d (blocknum b)) \<and> ref_count b = int (P (blocknum b))"

definition bc_rel ::
    "('d \<Rightarrow> byte list) \<Rightarrow> ('d \<Rightarrow> bool) \<Rightarrow> nat \<Rightarrow> nat \<Rightarrow> contents \<Rightarrow> users \<Rightarrow> bcache \<Rightarrow> 'd \<Rightarrow> bool" where
  "bc_rel img ok msize bs A P c d \<longleftrightarrow>
     ok d \<and> bc_block_size c = bs \<and> distinct (bc_free c @ bc_lru c)
     \<and> inj_on (\<lambda>i. blocknum (bc_blocks c i)) (set (bc_lru c))
     \<and> (\<forall>i \<in> set (bc_free c). length (ptr (bc_blocks c i)) = bs \<and> \<not> is_dirty (bc_blocks c i))
     \<and> (\<forall>i \<in> set (bc_lru c). cached_ok img msize bs A P d (bc_blocks c i))
     \<and> (\<forall>num. num \<notin> nums c \<longrightarrow> P num = 0 \<and> (Suc num * bs \<le> msize \<longrightarrow> A num = medium img bs d num))"

definition capacity :: "bcache \<Rightarrow> nat" where
  "capacity c = length (bc_free c) + length (bc_lru c)"

definition room :: "users \<Rightarrow> nat \<Rightarrow> nat \<Rightarrow> bool" where
  "room P cap num \<longleftrightarrow> 0 < P num \<or> card {m. 0 < P m} < cap"

text \<open>Which buffer holds a block; buffers that are in use by a client stay where they are.\<close>

definition holds :: "bcache \<Rightarrow> nat \<Rightarrow> nat \<Rightarrow> bool" where
  "holds c num i \<longleftrightarrow> i \<in> set (bc_lru c) \<and> blocknum (bc_blocks c i) = num"

definition keeps :: "bcache \<Rightarrow> bcache \<Rightarrow> bool" where
  "keeps c c' \<longleftrightarrow> (\<forall>num i. holds c num i \<longrightarrow> ref_count (bc_blocks c i) \<noteq> 0 \<longrightarrow> holds c' num i)"

section \<open>Lists and buffers\<close>

lemma walk_find:
  "set is \<inter> set fl = {} \<Longrightarrow> \<exists>depth. walk Q fl is k = Ret (List.find Q is, depth)"
  by (induction "is" arbitrary: k) auto

lemma find_first: "List.find Q xs = Some i \<Longrightarrow> i \<in> set xs \<and> Q i"
  by (metis find_Some_iff nth_mem)

lemma upd_block_simps [simp]:
  "bc_block_size (upd_block i f c) = bc_block_size c" "bc_free (upd_block i f c) = bc_free c"
  "bc_lru (upd_block i f c) = bc_lru c" "bc_blocks (upd_block i f c) = (bc_blocks c)(i := f (bc_blocks c i))"
  by (simp_all add: upd_block_def)

lemma to_tail_simps [simp]:
  "bc_block_size (to_tail i c) = bc_block_size c" "bc_free (to_tail i c) = bc_free c"
  "bc_blocks (to_tail i c) = bc_blocks c" "bc_lru (to_tail i c) = remove1 i (bc_lru c) @ [i]"
  by (simp_all add: to_tail_def)

text \<open>The relation sees neither counters nor the order of use nor a buffer on neither list.\<close>

lemma bc_rel_cong:
  assumes "bc_block_size c' = bc_block_size c" "bc_free c' = bc_free c"
    and "set (bc_lru c') = set (bc_lru c)" "distinct (bc_lru c') = distinct (bc_lru c)"
    and same: "\<And>i. i \<in> set (bc_free c) \<union> set (bc_lru c) \<Longrightarrow> bc_blocks c' i = bc_blocks c i"
  shows "bc_rel img ok msize bs A P c' d = bc_rel img ok msize bs A P c d"
proof -
  have "nums c' = nums c" using assms(3) same by (simp add: nums_def)
  moreover have "inj_on (\<lambda>i. blocknum (bc_blocks c' i)) (set (bc_lru c))
      = inj_on (\<lambda>i. blocknum (bc_blocks c i)) (set (bc_lru c))"
    using same by (intro inj_on_cong) simp
  ultimately show ?thesis using assms(1-4) same by (simp add: bc_rel_def)
qed

lemma bc_relD:
  assumes "bc_rel img ok msize bs A P c d"
  shows "ok d" "bc_block_size c = bs" "distinct (bc_free c)" "distinct (bc_lru c)"
    "set (bc_free c) \<inter> set (bc_lru c) = {}" "inj_on (\<lambda>i. blocknum (bc_blocks c i)) (set (bc_lru c))"
    "i \<in> set (bc_free c) \<Longrightarrow> length (ptr (bc_blocks c i)) = bs \<and> \<not> is_dirty (bc_blocks c i)"
    "i \<in> set (bc_lru c) \<Longrightarrow> cached_ok img msize bs A P d (bc_blocks c i)"
    "num \<notin> nums c \<Longrightarrow> P num = 0"
    "num \<notin> nums c \<Longrightarrow> Suc num * bs \<le> msize \<Longrightarrow> A num = medium img bs d num"
  using assms by (simp_all add: bc_rel_def)

lemma bc_relI:
  assumes "ok d" "bc_block_size c = bs" "distinct (bc_free c)" "distinct (bc_lru c)"
    "set (bc_free c) \<inter> set (bc_lru c) = {}" "inj_on (\<lambda>i. blocknum (bc_blocks c i)) (set (bc_lru c))"
    "\<And>i. i \<in> set (bc_free c) \<Longrightarrow> length (ptr (bc_blocks c i)) = bs \<and> \<not> is_dirty (bc_blocks c i)"
    "\<And>i. i \<in> set (bc_lru c) \<Longrightarrow> cached_ok img msize bs A P d (bc_blocks c i)"
    "\<And>num. num \<notin> nums c \<Longrightarrow> P num = 0"
    "\<And>num. num \<notin> nums c \<Longrightarrow> Suc num * bs \<le> msize \<Longrightarrow> A num = medium img bs d num"
  shows "bc_rel img ok msize bs A P c d"
  using assms by (simp add: bc_rel_def)

text \<open>Distinct buffers in use hold distinct blocks.\<close>

lemma blocknum_neq:
  "bc_rel img ok msize bs A P c d \<Longrightarrow> i \<in> set (bc_lru c) \<Longrightarrow> j \<in> set (bc_lru c) \<Longrightarrow> j \<noteq> i \<Longrightarrow>
   blocknum (bc_blocks c j) \<noteq> blocknum (bc_blocks c i)"
  by (auto simp: bc_rel_def dest: inj_onD)

lemma find_block_miss:
  assumes "bc_rel img ok msize bs A P c d" and "num \<notin> nums c"
  shows "find_block c num = Ret (None, c\<lparr>bc_misses := add32 (bc_misses c) 1\<rparr>)"
proof -
  have "set (bc_lru c) \<inter> set (bc_free c) = {}" using assms(1) by (auto simp: bc_rel_def)
  then obtain k where k: "walk (\<lambda>i. blocknum (bc_blocks c i) = num) (bc_free c) (bc_lru c) 0
      = Ret (List.find (\<lambda>i. blocknum (bc_blocks c i) = num) (bc_lru c), k)"
    using walk_find by blast
  moreover have "List.find (\<lambda>i. blocknum (bc_blocks c i) = num) (bc_lru c) = None"
    using assms(2) by (auto simp: find_None_iff nums_def)
  ultimately show ?thesis by (simp add: find_block_def)
qed

lemma find_block_hit:
  assumes "bc_rel img ok msize bs A P c d" and "num \<in> nums c"
  shows "\<exists>i c'. find_block c num = Ret (Some i, c') \<and> bc_rel img ok msize bs A P c' d
    \<and> i \<in> set (bc_lru c') \<and> blocknum (bc_blocks c' i) = num \<and> bc_blocks c' = bc_blocks c
    \<and> set (bc_lru c') = set (bc_lru c) \<and> capacity c' = capacity c"
proof -
  let ?Q = "\<lambda>i. blocknum (bc_blocks c i) = num"
  have dj: "set (bc_lru c) \<inter> set (bc_free c) = {}" and dl: "distinct (bc_lru c)"
    using assms(1) by (auto simp: bc_rel_def)
  obtain k where k: "walk ?Q (bc_free c) (bc_lru c) 0 = Ret (List.find ?Q (bc_lru c), k)"
    using walk_find [OF dj] by blast
  obtain i where i: "List.find ?Q (bc_lru c) = Some i"
    using assms(2) by (cases "List.find ?Q (bc_lru c)") (auto simp: find_None_iff nums_def)
  then have il: "i \<in> set (bc_lru c)" "?Q i" using find_first [OF i] by auto
  let ?c = "(to_tail i c)\<lparr>bc_hits := add32 (bc_hits c) 1, bc_depth := add32 (bc_depth c) k\<rparr>"
  have "find_block c num = Ret (Some i, ?c)" using k i by (simp add: find_block_def)
  moreover have "bc_rel img ok msize bs A P ?c d"
    using assms(1) il dl by (subst bc_rel_cong [where c = c]) (auto simp: set_remove1_eq)
  moreover have "capacity ?c = capacity c"
    using il length_pos_if_in_set [OF il(1)] by (simp add: capacity_def length_remove1)
  moreover have "set (bc_lru ?c) = set (bc_lru c)" using il dl by auto
  ultimately show ?thesis using il by (intro exI [of _ i] exI [of _ ?c]) simp
qed


lemma nums_other:
  "i \<notin> set xs \<Longrightarrow> nums ((upd_block i f c)\<lparr>bc_lru := xs\<rparr>) = nums (c\<lparr>bc_lru := xs\<rparr>)"
  unfolding nums_def by (rule image_cong) auto

text \<open>The last buffer of the list in use may be taken off and put back with new contents.\<close>

lemma bc_rel_install:
  assumes "bc_rel img ok msize bs A P (c\<lparr>bc_lru := xs\<rparr>) d" and "bc_lru c = xs @ [i]"
    and "i \<notin> set (bc_free c)" "i \<notin> set xs"
    and "blocknum (bc_blocks c i) = num" "num \<notin> nums (c\<lparr>bc_lru := xs\<rparr>)"
    and "Suc num * bs \<le> msize" "length (ptr (bc_blocks c i)) = bs"
    and "is_dirty (bc_blocks c i) \<or> ptr (bc_blocks c i) = medium img bs d num"
    and "ref_count (bc_blocks c i) = 0"
  shows "bc_rel img ok msize bs (A(num := ptr (bc_blocks c i))) P c d"
proof -
  note r = bc_relD [OF assms(1), simplified]
  have P: "P num = 0" using r(9) assms(6) .
  have nm: "nums c = insert num (nums (c\<lparr>bc_lru := xs\<rparr>))" using assms(2,5) by (simp add: nums_def)
  have ne: "blocknum (bc_blocks c j) \<noteq> num" if "j \<in> set xs" for j
    using assms(6) that by (auto simp: nums_def)
  show ?thesis
  proof (rule bc_relI)
    show "inj_on (\<lambda>i. blocknum (bc_blocks c i)) (set (bc_lru c))"
      using r(6) ne assms(2,4,5) by (simp add: inj_on_insert) blast
    show "cached_ok img msize bs (A(num := ptr (bc_blocks c i))) P d (bc_blocks c j)"
      if "j \<in> set (bc_lru c)" for j
    proof (cases "j = i")
      case True
      then show ?thesis using assms(5,7-10) P by (simp add: cached_ok_def)
    next
      case False
      then have "j \<in> set xs" using that assms(2) by simp
      then show ?thesis using r(8) ne by (simp add: cached_ok_def)
    qed
  qed (use r assms(2-4) nm in auto)
qed

lemma bc_rel_evict:
  assumes "bc_rel img ok msize bs A P c d" and "i \<in> set (bc_lru c)"
    and "ref_count (bc_blocks c i) = 0" "\<not> is_dirty (bc_blocks c i)"
  shows "bc_rel img ok msize bs A P (c\<lparr>bc_lru := remove1 i (bc_lru c)\<rparr>) d"
proof -
  note r = bc_relD [OF assms(1)]
  let ?n = "blocknum (bc_blocks c i)" and ?c = "c\<lparr>bc_lru := remove1 i (bc_lru c)\<rparr>"
  have nm: "nums c = insert ?n (nums ?c)" using assms(2) r(4) by (auto simp: nums_def)
  have P: "P ?n = 0" "A ?n = medium img bs d ?n"
    using r(8) [OF assms(2)] assms(3,4) by (auto simp: cached_ok_def)
  show ?thesis
  proof (rule bc_relI)
    show "inj_on (\<lambda>i. blocknum (bc_blocks ?c i)) (set (bc_lru ?c))"
      using r(4,6) by (auto intro: inj_on_subset)
    show "P m = 0" if "m \<notin> nums ?c" for m using that nm P r(9) by (cases "m = ?n") auto
    show "A m = medium img bs d m" if "m \<notin> nums ?c" "Suc m * bs \<le> msize" for m
      using that nm P r(10) by (cases "m = ?n") auto
  qed (use r in auto)
qed

lemma bc_rel_upd:
  assumes "bc_rel img ok msize bs A P c d" and "i \<in> set (bc_lru c)"
    and "\<And>b. blocknum (f b) = blocknum b" and "length (ptr (f (bc_blocks c i))) = bs"
    and "is_dirty (f (bc_blocks c i)) \<or> ptr (f (bc_blocks c i)) = medium img bs d (blocknum (bc_blocks c i))"
    and "ref_count (f (bc_blocks c i)) = int p"
  shows "bc_rel img ok msize bs (A(blocknum (bc_blocks c i) := ptr (f (bc_blocks c i))))
    (P(blocknum (bc_blocks c i) := p)) (upd_block i f c) d"
proof -
  note r = bc_relD [OF assms(1)]
  let ?n = "blocknum (bc_blocks c i)"
  have bn: "(\<lambda>j. blocknum (bc_blocks (upd_block i f c) j)) = (\<lambda>j. blocknum (bc_blocks c j))"
    using assms(3) by auto
  have nm: "nums (upd_block i f c) = nums c" unfolding nums_def bn by simp
  have n: "?n \<in> nums c" using assms(2) by (simp add: nums_def)
  show ?thesis
  proof (rule bc_relI)
    show "inj_on (\<lambda>j. blocknum (bc_blocks (upd_block i f c) j)) (set (bc_lru (upd_block i f c)))"
      unfolding bn using r(6) by simp
    show "cached_ok img msize bs (A(?n := ptr (f (bc_blocks c i)))) (P(?n := p)) d (bc_blocks (upd_block i f c) j)"
      if "j \<in> set (bc_lru (upd_block i f c))" for j
      using that r(8) [of j] r(8) [OF assms(2)] assms(3-6) blocknum_neq [OF assms(1,2), of j]
      by (cases "j = i") (simp_all add: cached_ok_def)
  qed (use r nm n assms(2) in auto)
qed

lemma bc_rel_pop:
  assumes "bc_rel img ok msize bs A P c d" and "bc_free c = i # fl"
  shows "bc_rel img ok msize bs A P (c\<lparr>bc_free := fl\<rparr>) d"
  using assms by (simp add: bc_rel_def nums_def)

lemma unpinned_exists:
  assumes "bc_rel img ok msize bs A P c d" and "bc_free c = []" and "num \<notin> nums c"
    and "room P (capacity c) num"
  shows "\<exists>i \<in> set (bc_lru c). ref_count (bc_blocks c i) = 0"
proof (rule ccontr)
  assume no: "\<not> ?thesis"
  have "nums c \<subseteq> {m. 0 < P m}"
  proof
    fix m assume "m \<in> nums c"
    then obtain i where i: "i \<in> set (bc_lru c)" "m = blocknum (bc_blocks c i)" by (auto simp: nums_def)
    then have "ref_count (bc_blocks c i) = int (P m)" using assms(1) by (auto simp: bc_rel_def cached_ok_def)
    then show "m \<in> {m. 0 < P m}" using no i by auto
  qed
  moreover have "{m. 0 < P m} \<subseteq> nums c" using assms(1) by (auto simp: bc_rel_def)
  moreover have "card (nums c) = length (bc_lru c)"
    using assms(1) by (auto simp: nums_def bc_rel_def card_image distinct_card)
  moreover have "P num = 0" using assms(1,3) by (auto simp: bc_rel_def)
  ultimately show False using assms(2,4) by (auto simp: room_def capacity_def)
qed

section \<open>Over an exact medium\<close>

locale cached_medium = byte_medium dev img ok msize
  for dev :: "'d bdev" and img :: "'d \<Rightarrow> byte list" and ok :: "'d \<Rightarrow> bool" and msize :: nat +
  fixes bs :: nat
  assumes bs_pos: "0 < bs" and bs_int: "bs < 2 ^ 31"
begin

lemma to_int_bs [simp]: "to_int (int bs) = int bs"
  using bs_int by (simp add: to_int_def signed_take_bit_int_eq_self)

lemma block_off_in:
  assumes "bc_block_size c = bs" and "Suc num * bs \<le> msize"
  shows "block_off c num = int (num * bs)"
proof -
  have "num * bs < 2 ^ 63" using assms(2) msize_off by simp
  then have "int (num * bs) < 2 ^ 63" by (metis of_nat_less_numeral_power_cancel_iff)
  moreover have "- (2 ^ 63) \<le> int (num * bs)" by (rule order_trans [of _ 0]) simp_all
  ultimately show ?thesis unfolding block_off_def assms(1) by (rule signed_take_bit_int_eq_self [rotated])
qed

lemma flush_block_ok:
  assumes "bc_rel img ok msize bs A P c d" and "i \<in> set (bc_lru c)"
  shows "\<exists>c' d'. flush_block dev c i d = (0, c', d') \<and> bc_rel img ok msize bs A P c' d'
    \<and> bc_free c' = bc_free c \<and> bc_lru c' = bc_lru c
    \<and> bc_blocks c' = (bc_blocks c)(i := (bc_blocks c i)\<lparr>is_dirty := False\<rparr>)
    \<and> (\<forall>m. m \<noteq> blocknum (bc_blocks c i) \<longrightarrow> Suc m * bs \<le> msize \<longrightarrow> medium img bs d' m = medium img bs d m)"
proof -
  let ?b = "bc_blocks c i" and ?n = "blocknum (bc_blocks c i)"
  have okd: "ok d" and sz: "bc_block_size c = bs" and co: "cached_ok img msize bs A P d ?b"
    using assms by (auto simp: bc_rel_def)
  have fit: "?n * bs + bs \<le> msize" and lp: "length (ptr ?b) = bs"
    using co unfolding cached_ok_def by auto
  obtain d' where d': "bio_write dev (ptr_addr ?b) d (ptr ?b) (int (?n * bs)) bs = (int bs, d')" "ok d'"
      "img d' = splice_at (img d) (?n * bs) (ptr ?b)"
    using write_exact [OF okd fit, of "ptr ?b" "ptr_addr ?b"] lp by auto
  have same: "medium img bs d' ?n = ptr ?b"
    unfolding medium_def d'(3) using slice_splice_same [of "?n * bs" "ptr ?b" "img d"] fit lp img_size [OF okd]
    by simp
  have other: "medium img bs d' m = medium img bs d m" if m: "m \<noteq> ?n" "Suc m * bs \<le> msize" for m
  proof -
    have "Suc m * bs \<le> ?n * bs \<or> Suc ?n * bs \<le> m * bs"
      using m(1) by (metis Suc_leI linorder_neqE_nat mult_le_mono1)
    then show ?thesis unfolding medium_def d'(3)
      using fit lp img_size [OF okd] m(2) by (intro slice_splice_disjoint) auto
  qed
  let ?c = "(upd_block i (\<lambda>b. b\<lparr>is_dirty := False\<rparr>) c)\<lparr>bc_writes := add32 (bc_writes c) 1\<rparr>"
  have f: "flush_block dev c i d = (0, ?c, d')"
    using d'(1) sz fit by (simp add: flush_block_def Let_def block_off_in)
  have nm: "nums ?c = nums c" by (auto simp: nums_def)
  have ne: "blocknum (bc_blocks c j) \<noteq> ?n" if "j \<in> set (bc_lru c)" "j \<noteq> i" for j
    using blocknum_neq [OF assms(1,2) that] .
  have co': "cached_ok img msize bs A P d' (bc_blocks ?c j)" if j: "j \<in> set (bc_lru c)" for j
  proof (cases "j = i")
    case True
    then show ?thesis using co same by (simp add: cached_ok_def)
  next
    case False
    have "cached_ok img msize bs A P d (bc_blocks c j)" using assms(1) j by (simp add: bc_rel_def)
    then show ?thesis using False other ne [OF j] by (simp add: cached_ok_def)
  qed
  note r = bc_relD [OF assms(1)]
  have "bc_rel img ok msize bs A P ?c d'"
  proof (rule bc_relI)
    have "(\<lambda>i. blocknum (bc_blocks ?c i)) = (\<lambda>i. blocknum (bc_blocks c i))" by auto
    then show "inj_on (\<lambda>i. blocknum (bc_blocks ?c i)) (set (bc_lru ?c))" using r(6) by simp
    show "A m = medium img bs d' m" if "m \<notin> nums ?c" "Suc m * bs \<le> msize" for m
    proof -
      have "m \<noteq> ?n" using that(1) nm assms(2) by (auto simp: nums_def)
      then show ?thesis using r(10) other that nm by simp
    qed
  qed (use r d'(2) co' nm in auto)
  then show ?thesis using f other by (intro exI [of _ ?c] exI [of _ d']) simp
qed

lemma alloc_block_ok:
  assumes rel: "bc_rel img ok msize bs A P c d" and new: "num \<notin> nums c"
    and room: "room P (capacity c) num"
  shows "\<exists>i xs c' d'. alloc_block dev c d = Ret (Some i, c', d') \<and> bc_lru c' = xs @ [i]
    \<and> i \<notin> set (bc_free c') \<and> i \<notin> set xs \<and> bc_rel img ok msize bs A P (c'\<lparr>bc_lru := xs\<rparr>) d'
    \<and> num \<notin> nums (c'\<lparr>bc_lru := xs\<rparr>) \<and> length (ptr (bc_blocks c' i)) = bs
    \<and> \<not> is_dirty (bc_blocks c' i) \<and> ref_count (bc_blocks c' i) = 0 \<and> capacity c' = capacity c
    \<and> keeps c (c'\<lparr>bc_lru := xs\<rparr>)"
proof (cases "bc_free c")
  case (Cons i fl)
  note r = bc_relD [OF rel]
  let ?c = "(upd_block i (\<lambda>b. b\<lparr>ref_count := 0\<rparr>) c)\<lparr>bc_free := fl, bc_lru := bc_lru c @ [i]\<rparr>"
  have i: "i \<notin> set (bc_lru c)" "i \<notin> set fl" using r(3,5) Cons by auto
  have "bc_rel img ok msize bs A P (?c\<lparr>bc_lru := bc_lru c\<rparr>) d"
    using bc_rel_pop [OF rel Cons] i by (subst bc_rel_cong [where c = "c\<lparr>bc_free := fl\<rparr>"]) auto
  moreover have "nums (?c\<lparr>bc_lru := bc_lru c\<rparr>) = nums c" using i by (auto simp: nums_def)
  moreover have "alloc_block dev c d = Ret (Some i, ?c, d)" using Cons i by (simp add: alloc_block_def)
  ultimately show ?thesis using i new r(7) [of i] Cons
    by (intro exI [of _ i] exI [of _ "bc_lru c"] exI [of _ ?c] exI [of _ d])
       (simp add: capacity_def keeps_def holds_def)
next
  case Nil
  let ?Q = "\<lambda>i. ref_count (bc_blocks c i) = 0"
  obtain k where k: "walk ?Q (bc_free c) (bc_lru c) 0 = Ret (List.find ?Q (bc_lru c), k)"
    using walk_find [of "bc_lru c" "bc_free c"] Nil by fastforce
  obtain i where i: "List.find ?Q (bc_lru c) = Some i"
    using unpinned_exists [OF rel Nil new room] by (cases "List.find ?Q (bc_lru c)") (auto simp: find_None_iff)
  have il: "i \<in> set (bc_lru c)" "?Q i" using find_first [OF i] by auto
  obtain c' d' where f: "(if is_dirty (bc_blocks c i) then flush_block dev c i d else (0, c, d)) = (0, c', d')"
    and c': "bc_rel img ok msize bs A P c' d'" "bc_free c' = bc_free c" "bc_lru c' = bc_lru c"
      "bc_blocks c' = (bc_blocks c)(i := (bc_blocks c i)\<lparr>is_dirty := False\<rparr>)"
  proof (cases "is_dirty (bc_blocks c i)")
    case True
    then show ?thesis using flush_block_ok [OF rel il(1)] that by auto
  next
    case False
    then have "(bc_blocks c i)\<lparr>is_dirty := False\<rparr> = bc_blocks c i" by simp
    then have "bc_blocks c = (bc_blocks c)(i := (bc_blocks c i)\<lparr>is_dirty := False\<rparr>)" by (metis fun_upd_triv)
    then show ?thesis using False rel by (intro that [of c d]) simp_all
  qed
  let ?xs = "remove1 i (bc_lru c)" and ?c = "to_tail i c'"
  have dl: "distinct (bc_lru c)" using bc_relD(4) [OF rel] .
  have "bc_rel img ok msize bs A P (c'\<lparr>bc_lru := remove1 i (bc_lru c')\<rparr>) d'"
    using c' il by (intro bc_rel_evict) simp_all
  then have "bc_rel img ok msize bs A P (?c\<lparr>bc_lru := ?xs\<rparr>) d'"
    using c'(3) by (simp add: to_tail_def)
  moreover have "nums (?c\<lparr>bc_lru := ?xs\<rparr>) \<subseteq> nums c" using c' dl by (auto simp: nums_def)
  moreover have "length (ptr (bc_blocks c i)) = bs" using bc_relD(8) [OF rel il(1)] by (simp add: cached_ok_def)
  moreover have "alloc_block dev c d = Ret (Some i, ?c, d')" using Nil k i f by (simp add: alloc_block_def)
  moreover have "capacity ?c = capacity c"
    using il(1) c' length_pos_if_in_set [OF il(1)] by (simp add: capacity_def length_remove1)
  moreover have "keeps c (?c\<lparr>bc_lru := ?xs\<rparr>)" using c'(4) il(2) dl by (auto simp: keeps_def holds_def)
  ultimately show ?thesis using il c' new dl Nil
    by (intro exI [of _ i] exI [of _ ?xs] exI [of _ ?c] exI [of _ d']) auto
qed

lemma find_or_fill_ok:
  assumes rel: "bc_rel img ok msize bs A P c d" and fit: "Suc num * bs \<le> msize"
    and room: "room P (capacity c) num"
  shows "\<exists>i c' d'. find_or_fill_block dev c num d = Ret (Some i, c', d')
    \<and> bc_rel img ok msize bs A P c' d' \<and> i \<in> set (bc_lru c') \<and> blocknum (bc_blocks c' i) = num
    \<and> capacity c' = capacity c \<and> keeps c c'"
proof (cases "num \<in> nums c")
  case True
  then show ?thesis using find_block_hit [OF rel True]
    by (auto simp: find_or_fill_block_def keeps_def holds_def)
next
  case False
  let ?c = "c\<lparr>bc_misses := add32 (bc_misses c) 1\<rparr>"
  have cm: "bc_rel img ok msize bs A P ?c d" "num \<notin> nums ?c" "capacity ?c = capacity c"
    using rel False by (simp_all add: bc_rel_def nums_def capacity_def)
  obtain i xs c' d' where a: "alloc_block dev ?c d = Ret (Some i, c', d')" "bc_lru c' = xs @ [i]"
      "i \<notin> set (bc_free c')" "i \<notin> set xs" "bc_rel img ok msize bs A P (c'\<lparr>bc_lru := xs\<rparr>) d'"
      "num \<notin> nums (c'\<lparr>bc_lru := xs\<rparr>)" "length (ptr (bc_blocks c' i)) = bs"
      "\<not> is_dirty (bc_blocks c' i)" "ref_count (bc_blocks c' i) = 0" "capacity c' = capacity c"
      "keeps c (c'\<lparr>bc_lru := xs\<rparr>)"
    using alloc_block_ok [OF cm(1,2)] room cm(3) by (auto simp: keeps_def holds_def)
  have okd: "ok d'" and sz: "bc_block_size c' = bs" and An: "A num = medium img bs d' num"
    using bc_relD(1,2) [OF a(5)] bc_relD(10) [OF a(5,6) fit] by simp_all
  obtain d'' where rd: "bio_read dev (ptr_addr (bc_blocks c' i)) (ptr (bc_blocks c' i)) d' (int (num * bs)) bs
      = (int bs, splice_at (ptr (bc_blocks c' i)) 0 (medium img bs d' num), d'')" "ok d''" "img d'' = img d'"
    using read_exact [OF okd, of "num * bs" bs "ptr (bc_blocks c' i)"] fit a(7) by (auto simp: medium_def)
  have lm: "length (medium img bs d' num) = bs" using fit img_size [OF okd] by (simp add: medium_def)
  have sp: "splice_at (ptr (bc_blocks c' i)) 0 (medium img bs d' num) = medium img bs d' num"
    using lm a(7) by (simp add: splice_at_def)
  let ?f = "\<lambda>b. b\<lparr>blocknum := num, ptr := medium img bs d' num\<rparr>"
  let ?c' = "(upd_block i ?f c')\<lparr>bc_reads := add32 (bc_reads c') 1\<rparr>"
  have md: "medium img bs d'' = medium img bs d'" using rd(3) by (auto simp: medium_def)
  have "find_or_fill_block dev c num d = Ret (Some i, ?c', d'')"
    using a(1) rd(1) sz fit sp
    by (simp add: find_or_fill_block_def find_block_miss [OF rel False] Let_def block_off_in upd_block_def)
  note run = this
  have "bc_rel img ok msize bs A P ((upd_block i ?f c')\<lparr>bc_lru := xs\<rparr>) d''"
    using a(3-5) rd(2) md
    by (subst bc_rel_cong [where c = "c'\<lparr>bc_lru := xs\<rparr>"]) (auto simp: bc_rel_def cached_ok_def)
  then have "bc_rel img ok msize bs (A(num := ptr (bc_blocks (upd_block i ?f c') i))) P (upd_block i ?f c') d''"
    using a fit lm md by (intro bc_rel_install [where xs = xs]) (simp_all add: nums_other)
  moreover have "A(num := ptr (bc_blocks (upd_block i ?f c') i)) = A" using An by (simp add: fun_upd_idem)
  ultimately have "bc_rel img ok msize bs A P (upd_block i ?f c') d''" by simp
  then have "bc_rel img ok msize bs A P ?c' d''"
    by (subst bc_rel_cong [where c = "upd_block i ?f c'"]) simp_all
  moreover have "keeps c ?c'" using a(2,4,11) by (auto simp: keeps_def holds_def)
  ultimately show ?thesis using run a(2,10)
    by (intro exI [of _ i] exI [of _ ?c'] exI [of _ d'']) (simp add: capacity_def)
qed

end

section \<open>A client of the cache\<close>

text \<open>
  A client reads blocks, or takes a pointer to a block, changes the block through the pointer,
  reports the change and gives the pointer back. It remembers the last pointer it got for each
  block. The store that it believes in has contents and users.
\<close>

datatype bc_op = Read_Block nat | Get_Block nat | Put_Block nat | Modify nat "byte list"
  | Zero_Block nat | Flush

type_synonym 'd session = "(nat \<Rightarrow> nat) \<times> bcache \<times> 'd"

fun run_op :: "'d bdev \<Rightarrow> bc_op \<Rightarrow> 'd session \<Rightarrow> (status \<times> byte list \<times> 'd session) outcome" where
  "run_op dev (Read_Block num) (pt, c, d) =
     (case bcache_read_block dev c (replicate (bc_block_size c) 0) num d of
        Ret (rc, buf, c, d) \<Rightarrow> Ret (rc, buf, pt, c, d) | Fault \<Rightarrow> Fault | Hang \<Rightarrow> Hang)"
| "run_op dev (Get_Block num) (pt, c, d) =
     (case bcache_get_block dev c num d of
        Ret (rc, Some i, c, d) \<Rightarrow> Ret (rc, [], pt(num := i), c, d)
      | Ret (rc, None, c, d) \<Rightarrow> Ret (rc, [], pt, c, d) | Fault \<Rightarrow> Fault | Hang \<Rightarrow> Hang)"
| "run_op dev (Put_Block num) (pt, c, d) =
     (case bcache_put_block c num of
        Ret (rc, c) \<Rightarrow> Ret (rc, [], pt, c, d) | Fault \<Rightarrow> Fault | Hang \<Rightarrow> Hang)"
| "run_op dev (Modify num data) (pt, c, d) =
     (case bcache_mark_block_dirty (upd_block (pt num) (\<lambda>b. b\<lparr>ptr := splice_at (ptr b) 0 data\<rparr>) c) num of
        Ret (rc, c) \<Rightarrow> Ret (rc, [], pt, c, d) | Fault \<Rightarrow> Fault | Hang \<Rightarrow> Hang)"
| "run_op dev (Zero_Block num) (pt, c, d) =
     (case bcache_zero_block dev c num d of
        Ret (rc, c, d) \<Rightarrow> Ret (rc, [], pt, c, d) | Fault \<Rightarrow> Fault | Hang \<Rightarrow> Hang)"
| "run_op dev Flush (pt, c, d) =
     (case bcache_flush dev c d of
        Ret (rc, c, d) \<Rightarrow> Ret (rc, [], pt, c, d) | Fault \<Rightarrow> Fault | Hang \<Rightarrow> Hang)"

fun run_ops :: "'d bdev \<Rightarrow> bc_op list \<Rightarrow> 'd session \<Rightarrow> ((status \<times> byte list) list \<times> 'd session) outcome" where
  "run_ops dev [] s = Ret ([], s)"
| "run_ops dev (op # ops) s =
     (case run_op dev op s of
        Ret (rc, buf, s) \<Rightarrow>
          (case run_ops dev ops s of
             Ret (rs, s) \<Rightarrow> Ret ((rc, buf) # rs, s) | Fault \<Rightarrow> Fault | Hang \<Rightarrow> Hang)
      | Fault \<Rightarrow> Fault | Hang \<Rightarrow> Hang)"

fun store_op :: "nat \<Rightarrow> bc_op \<Rightarrow> contents \<times> users \<Rightarrow> byte list \<times> contents \<times> users" where
  "store_op bs (Read_Block num) (A, P) = (A num, A, P)"
| "store_op bs (Get_Block num) (A, P) = ([], A, P(num := P num + 1))"
| "store_op bs (Put_Block num) (A, P) = ([], A, P(num := P num - 1))"
| "store_op bs (Modify num data) (A, P) = ([], A(num := data), P)"
| "store_op bs (Zero_Block num) (A, P) = ([], A(num := replicate bs 0), P)"
| "store_op bs Flush (A, P) = ([], A, P)"

fun store_ops :: "nat \<Rightarrow> bc_op list \<Rightarrow> contents \<times> users \<Rightarrow> byte list list \<times> contents \<times> users" where
  "store_ops bs [] s = ([], s)"
| "store_ops bs (op # ops) s =
     (case store_op bs op s of (buf, s) \<Rightarrow> case store_ops bs ops s of (bufs, s) \<Rightarrow> (buf # bufs, s))"

text \<open>What the client has to respect: blocks of the device, no more blocks in use at a time than
buffers, and changes to whole blocks that it has a pointer to.\<close>

fun legal_op :: "nat \<Rightarrow> nat \<Rightarrow> nat \<Rightarrow> users \<Rightarrow> bc_op \<Rightarrow> bool" where
  "legal_op msize bs cap P (Read_Block num) \<longleftrightarrow> Suc num * bs \<le> msize \<and> room P cap num"
| "legal_op msize bs cap P (Get_Block num) \<longleftrightarrow> Suc num * bs \<le> msize \<and> room P cap num"
| "legal_op msize bs cap P (Put_Block num) \<longleftrightarrow> 0 < P num"
| "legal_op msize bs cap P (Modify num data) \<longleftrightarrow> 0 < P num \<and> length data = bs"
| "legal_op msize bs cap P (Zero_Block num) \<longleftrightarrow> Suc num * bs \<le> msize \<and> room P cap num"
| "legal_op msize bs cap P Flush \<longleftrightarrow> True"

fun legal_ops :: "nat \<Rightarrow> nat \<Rightarrow> nat \<Rightarrow> contents \<times> users \<Rightarrow> bc_op list \<Rightarrow> bool" where
  "legal_ops msize bs cap s [] \<longleftrightarrow> True"
| "legal_ops msize bs cap s (op # ops) \<longleftrightarrow>
     legal_op msize bs cap (snd s) op \<and> legal_ops msize bs cap (snd (store_op bs op s)) ops"

definition ses_rel ::
    "('d \<Rightarrow> byte list) \<Rightarrow> ('d \<Rightarrow> bool) \<Rightarrow> nat \<Rightarrow> nat \<Rightarrow> nat \<Rightarrow> contents \<times> users \<Rightarrow> 'd session \<Rightarrow> bool" where
  "ses_rel img ok msize bs cap s t \<longleftrightarrow>
     (case s of (A, P) \<Rightarrow> case t of (pt, c, d) \<Rightarrow>
        bc_rel img ok msize bs A P c d \<and> capacity c = cap \<and> (\<forall>num. 0 < P num \<longrightarrow> holds c num (pt num)))"

text \<open>A block with users is in the cache, and its pointer survives what keeps buffers in use.\<close>

lemma used_cached: "bc_rel img ok msize bs A P c d \<Longrightarrow> 0 < P num \<Longrightarrow> num \<in> nums c"
  by (rule ccontr) (simp add: bc_relD(9))

lemma holds_unique:
  "bc_rel img ok msize bs A P c d \<Longrightarrow> holds c num i \<Longrightarrow> holds c num j \<Longrightarrow> i = j"
  using blocknum_neq by (fastforce simp: holds_def)

lemma keeps_pointers:
  assumes "bc_rel img ok msize bs A P c d" and "keeps c c'" and "0 < P num" and "holds c num i"
  shows "holds c' num i"
proof -
  have "cached_ok img msize bs A P d (bc_blocks c i)" using assms by (auto simp: holds_def intro: bc_relD(8))
  then have "ref_count (bc_blocks c i) \<noteq> 0" using assms(3,4) by (simp add: cached_ok_def holds_def)
  then show ?thesis using assms(2,4) by (simp add: keeps_def)
qed

lemma find_block_upd:
  assumes "\<And>b. blocknum (f b) = blocknum b"
  shows "find_block (upd_block i f c) num =
    (case find_block c num of Ret (r, c') \<Rightarrow> Ret (r, upd_block i f c') | Fault \<Rightarrow> Fault | Hang \<Rightarrow> Hang)"
proof -
  have "(\<lambda>j. blocknum (bc_blocks (upd_block i f c) j) = num) = (\<lambda>j. blocknum (bc_blocks c j) = num)"
    using assms by auto
  then show ?thesis
    by (simp add: find_block_def to_tail_def upd_block_def split: outcome.split option.split prod.split)
qed

lemma upd_block_twice [simp]: "upd_block i f (upd_block i g c) = upd_block i (\<lambda>b. f (g b)) c"
  by (simp add: upd_block_def)

context cached_medium
begin

lemma read_step:
  assumes "bc_rel img ok msize bs A P c d" and "Suc num * bs \<le> msize" "room P (capacity c) num"
  shows "\<exists>c' d'. bcache_read_block dev c (replicate (bc_block_size c) 0) num d = Ret (0, A num, c', d')
    \<and> bc_rel img ok msize bs A P c' d' \<and> capacity c' = capacity c \<and> keeps c c'"
proof -
  obtain i c' d' where f: "find_or_fill_block dev c num d = Ret (Some i, c', d')"
      "bc_rel img ok msize bs A P c' d'" "i \<in> set (bc_lru c')" "blocknum (bc_blocks c' i) = num"
      "capacity c' = capacity c" "keeps c c'"
    using find_or_fill_ok [OF assms] by blast
  have "cached_ok img msize bs A P d' (bc_blocks c' i)" using bc_relD(8) [OF f(2,3)] .
  then have "ptr (bc_blocks c' i) = A num" "length (A num) = bs" using f(4) by (auto simp: cached_ok_def)
  then show ?thesis
    using f bc_relD(2) [OF assms(1)] bc_relD(2) [OF f(2)] by (simp add: bcache_read_block_def splice_at_def)
qed

lemma get_step:
  assumes "bc_rel img ok msize bs A P c d" and "Suc num * bs \<le> msize" "room P (capacity c) num"
  shows "\<exists>i c' d'. bcache_get_block dev c num d = Ret (0, Some i, c', d')
    \<and> bc_rel img ok msize bs A (P(num := P num + 1)) c' d' \<and> capacity c' = capacity c
    \<and> keeps c c' \<and> holds c' num i"
proof -
  obtain i c' d' where f: "find_or_fill_block dev c num d = Ret (Some i, c', d')"
      "bc_rel img ok msize bs A P c' d'" "i \<in> set (bc_lru c')" "blocknum (bc_blocks c' i) = num"
      "capacity c' = capacity c" "keeps c c'"
    using find_or_fill_ok [OF assms] by blast
  have co: "cached_ok img msize bs A P d' (bc_blocks c' i)" using bc_relD(8) [OF f(2,3)] .
  have "bc_rel img ok msize bs (A(num := ptr (bc_blocks c' i))) (P(num := P num + 1))
      (upd_block i (\<lambda>b. b\<lparr>ref_count := ref_count b + 1\<rparr>) c') d'"
    using bc_rel_upd [OF f(2,3), of "\<lambda>b. b\<lparr>ref_count := ref_count b + 1\<rparr>" "P num + 1"] co f(4)
    by (simp add: cached_ok_def)
  moreover have "A(num := ptr (bc_blocks c' i)) = A" using co f(4) by (simp add: cached_ok_def fun_upd_idem)
  ultimately show ?thesis using f by (auto simp: bcache_get_block_def capacity_def keeps_def holds_def)
qed

lemma put_step:
  assumes "bc_rel img ok msize bs A P c d" and "0 < P num"
  shows "\<exists>c'. bcache_put_block c num = Ret (0, c')
    \<and> bc_rel img ok msize bs A (P(num := P num - 1)) c' d \<and> capacity c' = capacity c \<and> keeps c c'"
proof -
  obtain i c' where f: "find_block c num = Ret (Some i, c')" "bc_rel img ok msize bs A P c' d"
      "i \<in> set (bc_lru c')" "blocknum (bc_blocks c' i) = num" "bc_blocks c' = bc_blocks c"
      "set (bc_lru c') = set (bc_lru c)" "capacity c' = capacity c"
    using find_block_hit [OF assms(1) used_cached [OF assms]] by blast
  have co: "cached_ok img msize bs A P d (bc_blocks c' i)" using bc_relD(8) [OF f(2,3)] .
  then have rc: "ref_count (bc_blocks c' i) = int (P num)" using f(4) by (simp add: cached_ok_def)
  have "bc_rel img ok msize bs (A(num := ptr (bc_blocks c' i))) (P(num := P num - 1))
      (upd_block i (\<lambda>b. b\<lparr>ref_count := ref_count b - 1\<rparr>) c') d"
    using bc_rel_upd [OF f(2,3), of "\<lambda>b. b\<lparr>ref_count := ref_count b - 1\<rparr>" "P num - 1"] co f(4) rc assms(2)
    by (simp add: cached_ok_def of_nat_diff)
  moreover have "A(num := ptr (bc_blocks c' i)) = A" using co f(4) by (simp add: cached_ok_def fun_upd_idem)
  ultimately show ?thesis using f rc assms(2) 
    by (auto simp: bcache_put_block_def capacity_def keeps_def holds_def)
qed

lemma modify_step:
  assumes "bc_rel img ok msize bs A P c d" and "0 < P num" and "holds c num i" and "length data = bs"
  shows "\<exists>c'. bcache_mark_block_dirty (upd_block i (\<lambda>b. b\<lparr>ptr := splice_at (ptr b) 0 data\<rparr>) c) num = Ret (0, c')
    \<and> bc_rel img ok msize bs (A(num := data)) P c' d \<and> capacity c' = capacity c \<and> keeps c c'"
proof -
  obtain j c' where f: "find_block c num = Ret (Some j, c')" "bc_rel img ok msize bs A P c' d"
      "j \<in> set (bc_lru c')" "blocknum (bc_blocks c' j) = num" "bc_blocks c' = bc_blocks c"
      "set (bc_lru c') = set (bc_lru c)" "capacity c' = capacity c"
    using find_block_hit [OF assms(1) used_cached [OF assms(1,2)]] by blast
  have j: "j = i" using holds_unique [OF assms(1) _ assms(3)] f(3-6) by (simp add: holds_def)
  have co: "cached_ok img msize bs A P d (bc_blocks c' i)" using bc_relD(8) [OF f(2,3)] j by simp
  then have sp: "splice_at (ptr (bc_blocks c' i)) 0 data = data" using assms(4)
    by (simp add: cached_ok_def splice_at_def)
  let ?f = "\<lambda>b. b\<lparr>ptr := splice_at (ptr b) 0 data, is_dirty := True\<rparr>"
  have "bc_rel img ok msize bs (A(num := data)) (P(num := P num)) (upd_block i ?f c') d"
    using bc_rel_upd [OF f(2), of i ?f "P num"] f(3,4) j co assms(4) sp by (simp add: cached_ok_def)
  moreover have "bcache_mark_block_dirty (upd_block i (\<lambda>b. b\<lparr>ptr := splice_at (ptr b) 0 data\<rparr>) c) num
      = Ret (0, upd_block i ?f c')"
    using f(1) j by (simp add: bcache_mark_block_dirty_def find_block_upd)
  ultimately show ?thesis using f by (auto simp: capacity_def keeps_def holds_def)
qed

lemma zero_step:
  assumes "bc_rel img ok msize bs A P c d" and "Suc num * bs \<le> msize" "room P (capacity c) num"
  shows "\<exists>c' d'. bcache_zero_block dev c num d = Ret (0, c', d')
    \<and> bc_rel img ok msize bs (A(num := replicate bs 0)) P c' d' \<and> capacity c' = capacity c \<and> keeps c c'"
proof (cases "num \<in> nums c")
  case True
  obtain i c' where f: "find_block c num = Ret (Some i, c')" "bc_rel img ok msize bs A P c' d"
      "i \<in> set (bc_lru c')" "blocknum (bc_blocks c' i) = num" "bc_blocks c' = bc_blocks c"
      "set (bc_lru c') = set (bc_lru c)" "capacity c' = capacity c"
    using find_block_hit [OF assms(1) True] by blast
  have co: "cached_ok img msize bs A P d (bc_blocks c' i)" using bc_relD(8) [OF f(2,3)] .
  have sp: "splice_at (ptr (bc_blocks c' i)) 0 (replicate bs 0) = replicate bs 0"
    using co by (simp add: cached_ok_def splice_at_def)
  let ?f = "\<lambda>b. b\<lparr>ptr := splice_at (ptr b) 0 (replicate bs 0), is_dirty := True\<rparr>"
  have "bc_rel img ok msize bs (A(num := replicate bs 0)) (P(num := P num)) (upd_block i ?f c') d"
    using bc_rel_upd [OF f(2,3), of ?f "P num"] f(4) co sp by (simp add: cached_ok_def)
  moreover have "zero_fill i c' = upd_block i ?f c'"
    using bc_relD(2) [OF f(2)] by (simp add: zero_fill_def)
  ultimately show ?thesis using f
    by (auto simp: bcache_zero_block_def capacity_def keeps_def holds_def)
next
  case False
  let ?c = "c\<lparr>bc_misses := add32 (bc_misses c) 1\<rparr>"
  have cm: "bc_rel img ok msize bs A P ?c d" "num \<notin> nums ?c" "capacity ?c = capacity c"
    using assms(1) False by (simp_all add: bc_rel_def nums_def capacity_def)
  obtain i xs c' d' where a: "alloc_block dev ?c d = Ret (Some i, c', d')" "bc_lru c' = xs @ [i]"
      "i \<notin> set (bc_free c')" "i \<notin> set xs" "bc_rel img ok msize bs A P (c'\<lparr>bc_lru := xs\<rparr>) d'"
      "num \<notin> nums (c'\<lparr>bc_lru := xs\<rparr>)" "length (ptr (bc_blocks c' i)) = bs"
      "ref_count (bc_blocks c' i) = 0" "capacity c' = capacity c" "keeps c (c'\<lparr>bc_lru := xs\<rparr>)"
    using alloc_block_ok [OF cm(1,2)] assms(3) cm(3) by (auto simp: keeps_def holds_def)
  let ?z = "replicate bs (0 :: byte)"
  let ?f = "\<lambda>b. b\<lparr>blocknum := num, ptr := splice_at (ptr b) 0 ?z, is_dirty := True\<rparr>"
  let ?c' = "upd_block i ?f c'"
  have sp: "splice_at (ptr (bc_blocks c' i)) 0 ?z = ?z" using a(7) by (simp add: splice_at_def)
  have sz: "bc_block_size c' = bs" using bc_relD(2) [OF a(5)] by simp
  have "bc_rel img ok msize bs A P (?c'\<lparr>bc_lru := xs\<rparr>) d'"
    using a(3-5) by (subst bc_rel_cong [where c = "c'\<lparr>bc_lru := xs\<rparr>"]) auto
  then have "bc_rel img ok msize bs (A(num := ptr (bc_blocks ?c' i))) P ?c' d'"
    using a assms(2) sp by (intro bc_rel_install [where xs = xs]) (simp_all add: nums_other)
  moreover have "bcache_zero_block dev c num d = Ret (0, ?c', d')"
    using a(1) sz by (simp add: bcache_zero_block_def find_block_miss [OF assms(1) False] zero_fill_def)
  moreover have "keeps c ?c'" using a(2,4,10) by (auto simp: keeps_def holds_def)
  ultimately show ?thesis using a(9) sp by (simp add: capacity_def)
qed

lemma flush_list_ok:
  "bc_rel img ok msize bs A P c d \<Longrightarrow> set is \<subseteq> set (bc_lru c) \<Longrightarrow>
   \<exists>c' d'. flush_list dev is c d = Ret (0, c', d') \<and> bc_rel img ok msize bs A P c' d'
     \<and> bc_free c' = bc_free c \<and> bc_lru c' = bc_lru c
     \<and> (\<forall>j. blocknum (bc_blocks c' j) = blocknum (bc_blocks c j))
     \<and> (\<forall>j. is_dirty (bc_blocks c' j) \<longrightarrow> is_dirty (bc_blocks c j) \<and> j \<notin> set is)"
proof (induction "is" arbitrary: c d)
  case Nil
  then show ?case by simp
next
  case (Cons i "is")
  have i: "i \<in> set (bc_lru c)" "i \<notin> set (bc_free c)" using Cons.prems bc_relD(5) [OF Cons.prems(1)] by auto
  obtain c1 d1 where f: "(if is_dirty (bc_blocks c i) then flush_block dev c i d else (0, c, d)) = (0, c1, d1)"
    and c1: "bc_rel img ok msize bs A P c1 d1" "bc_free c1 = bc_free c" "bc_lru c1 = bc_lru c"
      "\<And>j. blocknum (bc_blocks c1 j) = blocknum (bc_blocks c j)"
      "\<And>j. is_dirty (bc_blocks c1 j) \<Longrightarrow> is_dirty (bc_blocks c j) \<and> j \<noteq> i"
  proof (cases "is_dirty (bc_blocks c i)")
    case True
    obtain c1 d1 where "flush_block dev c i d = (0, c1, d1)" "bc_rel img ok msize bs A P c1 d1"
        "bc_free c1 = bc_free c" "bc_lru c1 = bc_lru c"
        "bc_blocks c1 = (bc_blocks c)(i := (bc_blocks c i)\<lparr>is_dirty := False\<rparr>)"
      using flush_block_ok [OF Cons.prems(1) i(1)] by blast
    then show ?thesis using True by (intro that [of c1 d1]) (simp_all split: if_splits)
  next
    case False
    then show ?thesis using Cons.prems(1) by (intro that [of c d]) auto
  qed
  have "set is \<subseteq> set (bc_lru c1)" using Cons.prems(2) c1(3) by simp
  from Cons.IH [OF c1(1) this] obtain c' d' where "flush_list dev is c1 d1 = Ret (0, c', d')"
      "bc_rel img ok msize bs A P c' d'" "bc_free c' = bc_free c1" "bc_lru c' = bc_lru c1"
      "\<forall>j. blocknum (bc_blocks c' j) = blocknum (bc_blocks c1 j)"
      "\<forall>j. is_dirty (bc_blocks c' j) \<longrightarrow> is_dirty (bc_blocks c1 j) \<and> j \<notin> set is" by blast
  then show ?case using f i(2) c1 by (intro exI [of _ c'] exI [of _ d']) auto
qed

lemma flush_step:
  assumes "bc_rel img ok msize bs A P c d"
  shows "\<exists>c' d'. bcache_flush dev c d = Ret (0, c', d') \<and> bc_rel img ok msize bs A P c' d'
    \<and> capacity c' = capacity c \<and> keeps c c'
    \<and> (\<forall>num. Suc num * bs \<le> msize \<longrightarrow> medium img bs d' num = A num)"
proof -
  obtain c' d' where f: "bcache_flush dev c d = Ret (0, c', d')" "bc_rel img ok msize bs A P c' d'"
      "bc_free c' = bc_free c" "bc_lru c' = bc_lru c"
      "\<forall>j. blocknum (bc_blocks c' j) = blocknum (bc_blocks c j)"
      "\<forall>j. is_dirty (bc_blocks c' j) \<longrightarrow> j \<notin> set (bc_lru c)"
    using flush_list_ok [OF assms, of "bc_lru c"] by (auto simp: bcache_flush_def)
  have "medium img bs d' num = A num" if "Suc num * bs \<le> msize" for num
  proof (cases "num \<in> nums c'")
    case True
    then obtain i where i: "i \<in> set (bc_lru c')" "blocknum (bc_blocks c' i) = num" by (auto simp: nums_def)
    have "\<not> is_dirty (bc_blocks c' i)" using f(4,6) i(1) by auto
    then show ?thesis using bc_relD(8) [OF f(2) i(1)] i(2) by (simp add: cached_ok_def)
  next
    case False
    then show ?thesis using bc_relD(10) [OF f(2) False that] by simp
  qed
  then show ?thesis using f by (auto simp: capacity_def keeps_def holds_def)
qed

text \<open>Each operation of a client, and a run of them.\<close>

lemma ses_step:
  assumes "ses_rel img ok msize bs cap s t" and "legal_op msize bs cap (snd s) op"
  shows "\<exists>t'. run_op dev op t = Ret (0, fst (store_op bs op s), t')
    \<and> ses_rel img ok msize bs cap (snd (store_op bs op s)) t'"
proof -
  obtain A P pt c d where st: "s = (A, P)" "t = (pt, c, d)" by (metis prod.exhaust)
  have rel: "bc_rel img ok msize bs A P c d" and cap: "capacity c = cap"
    and pts: "\<And>num. 0 < P num \<Longrightarrow> holds c num (pt num)" using assms(1) by (simp_all add: st ses_rel_def)
  note kp = keeps_pointers [OF rel]
  show ?thesis
  proof (cases op)
    case (Read_Block num)
    then show ?thesis using read_step [OF rel, of num] assms(2) cap kp pts
      by (fastforce simp: st ses_rel_def)
  next
    case (Get_Block num)
    then obtain i c' d' where g: "bcache_get_block dev c num d = Ret (0, Some i, c', d')"
        "bc_rel img ok msize bs A (P(num := P num + 1)) c' d'" "capacity c' = capacity c" "keeps c c'"
        "holds c' num i"
      using get_step [OF rel, of num] assms(2) cap by (auto simp: st)
    then show ?thesis using Get_Block cap kp [OF g(4)] pts by (auto simp: st ses_rel_def)
  next
    case (Put_Block num)
    then obtain c' where g: "bcache_put_block c num = Ret (0, c')"
        "bc_rel img ok msize bs A (P(num := P num - 1)) c' d" "capacity c' = capacity c" "keeps c c'"
      using put_step [OF rel, of num] assms(2) by (auto simp: st)
    then show ?thesis using Put_Block assms(2) cap kp [OF g(4)] pts by (auto simp: st ses_rel_def)
  next
    case (Modify num data)
    then show ?thesis using modify_step [OF rel, of num "pt num" data] assms(2) cap kp pts
      by (fastforce simp: st ses_rel_def)
  next
    case (Zero_Block num)
    then show ?thesis using zero_step [OF rel, of num] assms(2) cap kp pts
      by (fastforce simp: st ses_rel_def)
  next
    case Flush
    then show ?thesis using flush_step [OF rel] cap kp pts by (fastforce simp: st ses_rel_def)
  qed
qed

lemma ses_run:
  "ses_rel img ok msize bs cap s t \<Longrightarrow> legal_ops msize bs cap s ops \<Longrightarrow>
   \<exists>t'. run_ops dev ops t = Ret (map (Pair 0) (fst (store_ops bs ops s)), t')
     \<and> ses_rel img ok msize bs cap (snd (store_ops bs ops s)) t'"
proof (induction ops arbitrary: s t)
  case Nil
  then show ?case by simp
next
  case (Cons op ops)
  have lop: "legal_op msize bs cap (snd s) op" using Cons.prems(2) by simp
  obtain t1 where t1: "run_op dev op t = Ret (0, fst (store_op bs op s), t1)"
      "ses_rel img ok msize bs cap (snd (store_op bs op s)) t1"
    using ses_step [OF Cons.prems(1) lop] by blast
  then show ?case using Cons.IH [OF t1(2)] Cons.prems(2)
    by (auto simp: case_prod_unfold)
qed

lemma create_rel:
  assumes "ok d" and "\<And>i. length (ptr (raw i)) = bs"
  shows "ses_rel img ok msize bs cap (medium img bs d, \<lambda>_. 0) (pt, bcache_create raw bs cap, d)"
proof -
  have "fold (#) [0 ..< cap] [] = rev [0 ..< cap]" by (simp add: fold_Cons_rev)
  then show ?thesis using assms by (simp add: ses_rel_def bc_rel_def bcache_create_def nums_def capacity_def)
qed

end

text \<open>The memory device with blocks of its own size.\<close>

interpretation ramc: cached_medium "membdev_object raw nm len" "mem_img len"
    "\<lambda>mem. length mem = len" "len div 512 mod 2 ^ 32 * 512" 512 for raw nm len
  by unfold_locales simp_all

section \<open>Properties\<close>

text \<open>Claim C18: a client of the block cache cannot tell it from a plain store of blocks. For any device
whose byte path is exact, and any sequence of reads, zeroings, flushes and of taking, changing and
giving back blocks that stays within the device and never has more blocks in use than the cache
has buffers, no operation faults or fails, every read returns what the store holds, every pointer
handed out keeps pointing to its block until it is given back, and a final flush makes the
medium equal to the store.\<close>

theorem bcache_refines_store:
  assumes "byte_medium dev img ok msize" and "0 < bs" "bs < 2 ^ 31" and "ok d"
    and "\<And>i. length (ptr (raw i)) = bs"
    and "legal_ops msize bs cap (medium img bs d, \<lambda>_. 0) ops"
    and "store_ops bs ops (medium img bs d, \<lambda>_. 0) = (bufs, A, P)"
  shows "\<exists>pt' c' d' c'' d''.
      run_ops dev ops (pt, bcache_create raw bs cap, d) = Ret (map (Pair 0) bufs, pt', c', d')
    \<and> (\<forall>num. 0 < P num \<longrightarrow> holds c' num (pt' num))
    \<and> bcache_flush dev c' d' = Ret (0, c'', d'')
    \<and> (\<forall>num. Suc num * bs \<le> msize \<longrightarrow> slice_at (num * bs) bs (img d'') = A num)"
proof -
  have cm: "cached_medium dev img ok msize bs"
    using assms(1-3) by (simp add: cached_medium_def cached_medium_axioms_def)
  have init: "ses_rel img ok msize bs cap (medium img bs d, \<lambda>_. 0) (pt, bcache_create raw bs cap, d)"
    using assms(4,5) by (rule cached_medium.create_rel [OF cm])
  obtain pt' c' d' where r: "run_ops dev ops (pt, bcache_create raw bs cap, d) = Ret (map (Pair 0) bufs, pt', c', d')"
      "ses_rel img ok msize bs cap (A, P) (pt', c', d')"
    using cached_medium.ses_run [OF cm init assms(6)] assms(7) by auto
  then have "bc_rel img ok msize bs A P c' d'" "\<forall>num. 0 < P num \<longrightarrow> holds c' num (pt' num)"
    by (simp_all add: ses_rel_def)
  then show ?thesis using r(1) cached_medium.flush_step [OF cm, of A P c' d'] by (auto simp: medium_def)
qed

theorem bcache_refines_store_witness:
  "\<exists>pt' c' d' c'' d''.
      run_ops (membdev_object blank_bdev ''m'' 2048)
        [Zero_Block 1, Get_Block 2, Modify 2 (replicate 512 9), Read_Block 2, Put_Block 2, Read_Block 1]
        (\<lambda>_. 0, bcache_create (\<lambda>_. \<lparr>blocknum = 5, ref_count = 3, is_dirty = True, ptr = replicate 512 1, ptr_addr = 0\<rparr>) 512 1,
         replicate 2048 7)
      = Ret (map (Pair 0) [[], [], [], replicate 512 9, [], replicate 512 0], pt', c', d')
    \<and> bcache_flush (membdev_object blank_bdev ''m'' 2048) c' d' = Ret (0, c'', d'')
    \<and> slice_at 512 512 (mem_img 2048 d'') = replicate 512 0
    \<and> slice_at 1024 512 (mem_img 2048 d'') = replicate 512 9"
proof -
  let ?ops = "[Zero_Block 1, Get_Block 2, Modify 2 (replicate 512 9), Read_Block 2, Put_Block 2, Read_Block 1]"
  let ?A = "medium (mem_img 2048) 512 (replicate 2048 7)"
  have legal: "legal_ops (2048 div 512 mod 2 ^ 32 * 512) 512 1 (?A, \<lambda>_. 0) ?ops" by (simp add: room_def)
  have store: "store_ops 512 ?ops (?A, \<lambda>_. 0) = ([[], [], [], replicate 512 9, [], replicate 512 0],
      ?A(1 := replicate 512 0, 2 := replicate 512 9), (\<lambda>_. 0)(2 := 0))" by simp
  have at: "Q 512 (replicate 512 0) \<and> Q 1024 (replicate 512 9)"
    if "\<forall>num. Suc num * 512 \<le> 2048 div 512 mod 2 ^ 32 * 512 \<longrightarrow>
      Q (num * 512) ((?A(1 := replicate 512 0, 2 := replicate 512 9)) num)" for Q
    using spec [OF that, of 1] spec [OF that, of 2] by simp
  have "\<exists>pt' c' d' c'' d''. run_ops (membdev_object blank_bdev ''m'' 2048) ?ops
        (\<lambda>_. 0, bcache_create (\<lambda>_. \<lparr>blocknum = 5, ref_count = 3, is_dirty = True, ptr = replicate 512 1, ptr_addr = 0\<rparr>) 512 1,
         replicate 2048 7)
      = Ret (map (Pair 0) [[], [], [], replicate 512 9, [], replicate 512 0], pt', c', d')
    \<and> (\<forall>num. 0 < ((\<lambda>_. 0 :: nat)(2 := 0)) num \<longrightarrow> holds c' num (pt' num))
    \<and> bcache_flush (membdev_object blank_bdev ''m'' 2048) c' d' = Ret (0, c'', d'')
    \<and> (\<forall>num. Suc num * 512 \<le> 2048 div 512 mod 2 ^ 32 * 512 \<longrightarrow>
         slice_at (num * 512) 512 (mem_img 2048 d'') = (?A(1 := replicate 512 0, 2 := replicate 512 9)) num)"
    by (rule bcache_refines_store [OF ram.byte_medium_axioms _ _ _ _ legal store]) simp_all
  then show ?thesis by (elim exE conjE, drule_tac Q = "\<lambda>off v. slice_at off 512 (mem_img 2048 d'') = v" in at) blast
qed

text \<open>After a failed read the cache is no longer usable: the buffer is on both lists, and the next
search for a block that is not cached runs into it.\<close>

lemma walk_astray:
  "i \<in> set is \<Longrightarrow> i \<in> set fl \<Longrightarrow> \<forall>j \<in> set is. \<not> Q j \<Longrightarrow> walk Q fl is k = Fault"
  by (induction "is" arbitrary: k) auto

lemma alloc_block_tail: "alloc_block dev c d = Ret (Some i, c', d') \<Longrightarrow> i \<in> set (bc_lru c')"
  by (auto simp: alloc_block_def split: list.splits outcome.splits option.splits prod.splits if_splits)

theorem bcache_failed_read:
  assumes "find_or_fill_block dev c num d = Ret (None, c', d')" and "num' \<notin> nums c'"
  shows "find_block c' num' = Fault"
proof -
  obtain i where "i \<in> set (bc_lru c')" "i \<in> set (bc_free c')"
    using assms(1)
    by (auto simp: find_or_fill_block_def Let_def split: outcome.splits option.splits prod.splits if_splits
        dest!: alloc_block_tail)
  moreover have "\<forall>j \<in> set (bc_lru c'). blocknum (bc_blocks c' j) \<noteq> num'"
    using assms(2) by (auto simp: nums_def)
  ultimately have "walk (\<lambda>i. blocknum (bc_blocks c' i) = num') (bc_free c') (bc_lru c') 0 = Fault"
    by (intro walk_astray) auto
  then show ?thesis by (simp add: find_block_def)
qed

text \<open>A block past the end of a memory device is read without an error and without data: the
caller gets whatever the buffer held before.\<close>

theorem bcache_read_past_end:
  assumes "find_block c num = Ret (None, c1)" and "alloc_block (membdev_object raw nm len) c1 d = Ret (Some i, c2, d2)"
    and "bc_block_size c2 = 512" and "len div 512 mod 2 ^ 32 \<le> num" and "num < 2 ^ 32"
  shows "\<exists>c'. bcache_read_block (membdev_object raw nm len) c buf num d
    = Ret (0, splice_at buf 0 (take 512 (ptr (bc_blocks c2 i))), c', d2)"
proof -
  have "int (num * 512) < 2 ^ 63" using assms(5) by simp
  moreover have "- (2 ^ 63) \<le> int (num * 512)" by (rule order_trans [of _ 0]) simp_all
  ultimately have off: "block_off (upd_block i f c2) num = int (num * 512)" for f
    unfolding block_off_def using assms(3) by (simp add: signed_take_bit_int_eq_self)
  have "int (len div 512 mod 2 ^ 32) \<le> int num" using assms(4) by (simp only: of_nat_le_iff)
  then have "total_size (membdev_object raw nm len) \<le> int (num * 512)" by simp
  then show ?thesis using assms(1-3)
    by (simp add: bcache_read_block_def find_or_fill_block_def Let_def off bio_read_def bio_trim_range_def to_int_def)
qed

end
