(* ===== verification/Timer.thy ===== *)
theory Timer
  imports Lk_Prelude "HOL-Library.Multiset"
begin

text \<open>
  The kernel timers of \<^verbatim>\<open>kernel/timer.c\<close>, for one CPU with a dynamic hardware timer
  (\<^verbatim>\<open>PLATFORM_HAS_DYNAMIC_TIMER\<close>). Times are 32-bit milliseconds that wrap; they are
  compared by the sign of their difference. Timers live in a store by address; the queue
  holds addresses. \<open>oneshot\<close> is the time at which the hardware timer will fire
  (\<^verbatim>\<open>platform_set_oneshot_timer\<close> takes the delay from now). A callback is a
  function of the timer, the time and its argument on the whole state, which may itself
  set or cancel timers; \<open>cbs\<close> maps callback pointers to their code. Every timer of the kernel is
  initialised before it is used, so the magic number that \<^verbatim>\<open>DEBUG_ASSERT\<close> looks for is not
  represented, nor are the assertions on disabled interrupts; the one on the next event is.
\<close>

section \<open>Time comparison\<close>

definition TIME_GT :: "u32 \<Rightarrow> u32 \<Rightarrow> bool" where
  "TIME_GT a b \<longleftrightarrow> 0 < sint (a - b)"

definition TIME_LT :: "u32 \<Rightarrow> u32 \<Rightarrow> bool" where
  "TIME_LT a b \<longleftrightarrow> sint (a - b) < 0"

section \<open>State and operations\<close>

record timer =
  scheduled_time :: u32
  periodic_time :: u32
  callback :: "nat option"
  arg :: nat

record 's tstate =
  tmr :: "nat \<Rightarrow> timer"
  timer_queue :: "nat list"
  oneshot :: "u32 option"
  env :: 's

type_synonym 's cb_fn = "nat \<Rightarrow> nat \<Rightarrow> u32 \<Rightarrow> nat \<Rightarrow> 's tstate \<Rightarrow> bool \<times> 's tstate"

definition timer_initialize :: "'s tstate \<Rightarrow> nat \<Rightarrow> 's tstate" where
  "timer_initialize s t =
     s\<lparr>tmr := (tmr s)(t := \<lparr>scheduled_time = 0, periodic_time = 0, callback = None, arg = 0\<rparr>)\<rparr>"

fun insert_before :: "(nat \<Rightarrow> timer) \<Rightarrow> nat \<Rightarrow> nat list \<Rightarrow> nat list" where
  "insert_before tm t [] = [t]"
| "insert_before tm t (e # es) =
     (if TIME_GT (scheduled_time (tm e)) (scheduled_time (tm t)) then t # e # es
      else e # insert_before tm t es)"

definition insert_timer_in_queue :: "'s tstate \<Rightarrow> nat \<Rightarrow> 's tstate" where
  "insert_timer_in_queue s t = s\<lparr>timer_queue := insert_before (tmr s) t (timer_queue s)\<rparr>"

definition timer_set ::
    "'s tstate \<Rightarrow> u32 \<Rightarrow> nat \<Rightarrow> u32 \<Rightarrow> u32 \<Rightarrow> nat \<Rightarrow> nat \<Rightarrow> 's tstate outcome" where
  "timer_set s now t delay period cb a =
     (if t \<in> set (timer_queue s) then Fault
      else
        let s = s\<lparr>tmr := (tmr s)(t := \<lparr>scheduled_time = now + delay, periodic_time = period,
                                        callback = Some cb, arg = a\<rparr>)\<rparr>;
            s = insert_timer_in_queue s t in
        Ret (if hd (timer_queue s) = t then s\<lparr>oneshot := Some (now + delay)\<rparr> else s))"

definition timer_set_oneshot :: "'s tstate \<Rightarrow> u32 \<Rightarrow> nat \<Rightarrow> u32 \<Rightarrow> nat \<Rightarrow> nat \<Rightarrow> 's tstate outcome" where
  "timer_set_oneshot s now t delay cb a =
     timer_set s now t (if delay = 0 then 1 else delay) 0 cb a"

definition timer_set_periodic :: "'s tstate \<Rightarrow> u32 \<Rightarrow> nat \<Rightarrow> u32 \<Rightarrow> nat \<Rightarrow> nat \<Rightarrow> 's tstate outcome" where
  "timer_set_periodic s now t period cb a =
     (let period = (if period = 0 then 1 else period) in timer_set s now t period period cb a)"

definition head_of :: "nat list \<Rightarrow> nat option" where
  "head_of q = (case q of [] \<Rightarrow> None | t # _ \<Rightarrow> Some t)"

definition timer_cancel :: "'s tstate \<Rightarrow> u32 \<Rightarrow> nat \<Rightarrow> 's tstate" where
  "timer_cancel s now t =
     (let oldhead = head_of (timer_queue s);
          s = s\<lparr>timer_queue := remove1 t (timer_queue s),
                tmr := (tmr s)(t := (tmr s t)\<lparr>periodic_time := 0, callback := None, arg := 0\<rparr>)\<rparr> in
      case head_of (timer_queue s) of
        None \<Rightarrow> s\<lparr>oneshot := None\<rparr>
      | Some newhead \<Rightarrow>
          if Some newhead \<noteq> oldhead then
            (let sched = scheduled_time (tmr s newhead) in
             s\<lparr>oneshot := Some (now + (if TIME_LT sched now then 0 else sched - now))\<rparr>)
          else s)"

text \<open>
  One round of the loop of \<^verbatim>\<open>timer_tick\<close>: take the head off the queue, run its callback,
  and put a periodic timer back unless the callback requeued or cancelled it.
\<close>

definition requeue_periodic :: "'s tstate \<Rightarrow> u32 \<Rightarrow> bool \<Rightarrow> nat \<Rightarrow> 's tstate" where
  "requeue_periodic s now periodic t =
     (if periodic \<and> t \<notin> set (timer_queue s) \<and> 0 < periodic_time (tmr s t) then
        (let next' = scheduled_time (tmr s t) + periodic_time (tmr s t);
             next' = (if TIME_LT next' now then now + periodic_time (tmr s t) else next') in
         insert_timer_in_queue (s\<lparr>tmr := (tmr s)(t := (tmr s t)\<lparr>scheduled_time := next'\<rparr>)\<rparr>) t)
      else s)"

definition fire_head :: "'s cb_fn \<Rightarrow> 's tstate \<Rightarrow> u32 \<Rightarrow> nat \<Rightarrow> (bool \<times> 's tstate) outcome" where
  "fire_head cbs s now t =
     (let s = s\<lparr>timer_queue := remove1 t (timer_queue s)\<rparr>;
          periodic = (0 < periodic_time (tmr s t)) in
      case callback (tmr s t) of
        None \<Rightarrow> Fault
      | Some cb \<Rightarrow>
          (case cbs cb t now (arg (tmr s t)) s of (resched, s) \<Rightarrow>
             Ret (resched, requeue_periodic s now periodic t)))"

partial_function (option) tick_loop ::
    "'s cb_fn \<Rightarrow> u32 \<Rightarrow> bool \<Rightarrow> 's tstate \<Rightarrow> (bool \<times> 's tstate) outcome option" where
  "tick_loop cbs now ret s =
     (case timer_queue s of
        [] \<Rightarrow> Some (Ret (ret, s))
      | t # q \<Rightarrow>
          if TIME_LT now (scheduled_time (tmr s t)) then Some (Ret (ret, s))
          else case fire_head cbs s now t of
              Ret (resched, s') \<Rightarrow> tick_loop cbs now (ret \<or> resched) s'
            | Fault \<Rightarrow> Some Fault | Hang \<Rightarrow> Some Hang)"

definition timer_tick ::
    "'s cb_fn \<Rightarrow> u32 \<Rightarrow> 's tstate \<Rightarrow> (bool \<times> 's tstate) outcome option" where
  "timer_tick cbs now s =
     (case tick_loop cbs now False s of
        None \<Rightarrow> None
      | Some (Ret (ret, s)) \<Rightarrow>
          (case timer_queue s of
             [] \<Rightarrow> Some (Ret (ret, s))
           | t # q \<Rightarrow>
               if \<not> TIME_GT (scheduled_time (tmr s t)) now then Some Fault
               else Some (Ret (ret, s\<lparr>oneshot := Some (now + (scheduled_time (tmr s t) - now))\<rparr>)))
      | Some Fault \<Rightarrow> Some Fault | Some Hang \<Rightarrow> Some Hang)"

definition timer_init :: "'s tstate \<Rightarrow> 's tstate" where
  "timer_init s = s\<lparr>timer_queue := []\<rparr>"

section \<open>Times inside half a turn of the clock\<close>

lemma sint_diff:
  fixes x y :: u32
  assumes "unat x < 2 ^ 31" and "unat y < 2 ^ 31"
  shows "sint (x - y) = int (unat x) - int (unat y)"
proof -
  have u: "uint x = int (unat x)" "uint y = int (unat y)" by simp_all
  have "unat x < 2147483648" "unat y < 2147483648" using assms by simp_all
  then have b: "uint x < 2147483648" "uint y < 2147483648" unfolding u by linarith+
  have "sint (x - y) = signed_take_bit 31 (take_bit 32 (uint x - uint y))"
    by (simp add: sint_uint uint_word_arith_bintrs)
  also have "\<dots> = signed_take_bit 31 (uint x - uint y)" by (simp add: signed_take_bit_take_bit)
  also have "\<dots> = uint x - uint y"
  proof (rule signed_take_bit_int_eq_self)
    have "0 \<le> uint x" "0 \<le> uint y" by simp_all
    then have "- 2147483648 \<le> uint x - uint y" "uint x - uint y < 2147483648" using b by linarith+
    then show "- (2 ^ 31) \<le> uint x - uint y" "uint x - uint y < 2 ^ 31" by simp_all
  qed
  finally show ?thesis by simp
qed

definition since :: "u32 \<Rightarrow> u32 \<Rightarrow> nat" where
  "since base a = unat (a - base)"

lemma TIME_GT_since:
  assumes "since base a < 2 ^ 31" and "since base b < 2 ^ 31"
  shows "TIME_GT a b \<longleftrightarrow> since base b < since base a"
    and "TIME_LT a b \<longleftrightarrow> since base a < since base b"
proof -
  have "a - b = (a - base) - (b - base)" by simp
  then have "sint (a - b) = int (since base a) - int (since base b)"
    using sint_diff [of "a - base" "b - base"] assms by (simp add: since_def)
  then show "TIME_GT a b \<longleftrightarrow> since base b < since base a"
    and "TIME_LT a b \<longleftrightarrow> since base a < since base b"
    by (auto simp: TIME_GT_def TIME_LT_def)
qed

lemma since_add:
  assumes "since base a + unat p < 2 ^ 32"
  shows "since base (a + p) = since base a + unat p"
proof -
  have e: "a + p - base = (a - base) + p" by simp
  show ?thesis using assms unfolding since_def e by (simp add: unat_word_ariths)
qed

text \<open>
  The queue invariant: no timer is queued twice, every queued time is within half a turn
  after \<open>base\<close>, and the queue is in the order of these times.
\<close>

definition key :: "u32 \<Rightarrow> (nat \<Rightarrow> timer) \<Rightarrow> nat \<Rightarrow> nat" where
  "key base tm t = since base (scheduled_time (tm t))"

definition queue_ok :: "u32 \<Rightarrow> 's tstate \<Rightarrow> bool" where
  "queue_ok base s \<longleftrightarrow> distinct (timer_queue s) \<and> (\<forall>t \<in> set (timer_queue s). key base (tmr s) t < 2 ^ 31)
     \<and> sorted (map (key base (tmr s)) (timer_queue s))"

lemma set_insert_before [simp]: "set (insert_before tm t q) = insert t (set q)"
  by (induction q) auto

lemma mset_insert_before [simp]: "mset (insert_before tm t q) = add_mset t (mset q)"
  by (induction q) auto

lemma distinct_insert_before [simp]: "distinct (insert_before tm t q) \<longleftrightarrow> t \<notin> set q \<and> distinct q"
  by (induction q) auto

lemma insert_before_not_Nil [simp]: "insert_before tm t q \<noteq> []"
  by (cases q) auto

lemma sorted_insert_before:
  assumes "\<forall>e \<in> insert t (set q). key base tm e < 2 ^ 31" and "sorted (map (key base tm) q)"
  shows "sorted (map (key base tm) (insert_before tm t q))"
  using assms
proof (induction q)
  case (Cons e es)
  then have gt: "TIME_GT (scheduled_time (tm e)) (scheduled_time (tm t))
      \<longleftrightarrow> key base tm t < key base tm e"
    unfolding key_def by (intro TIME_GT_since) auto
  show ?case using Cons gt by (cases "key base tm t < key base tm e") auto
qed simp

lemma queue_ok_insert:
  assumes "queue_ok base s" and "t \<notin> set (timer_queue s)" and "key base (tmr s) t < 2 ^ 31"
  shows "queue_ok base (insert_timer_in_queue s t)"
  using assms sorted_insert_before [of t "timer_queue s" base "tmr s"]
  by (auto simp: queue_ok_def insert_timer_in_queue_def)

lemma queue_ok_remove:
  assumes "queue_ok base s"
  shows "queue_ok base (s\<lparr>timer_queue := remove1 t (timer_queue s)\<rparr>)"
  using assms set_remove1_subset [of t "timer_queue s"] sorted_map_remove1 [of "key base (tmr s)"]
  by (auto simp: queue_ok_def)

text \<open>Changing a timer that is not queued does not matter to the queue.\<close>

lemma queue_ok_upd:
  assumes "queue_ok base s" and "t \<notin> set (timer_queue s)"
  shows "queue_ok base (s\<lparr>tmr := (tmr s)(t := x)\<rparr>)"
proof -
  have k: "key base ((tmr s)(t := x)) e = key base (tmr s) e" if "e \<in> set (timer_queue s)" for e
    using that assms(2) by (auto simp: key_def)
  then have "map (key base ((tmr s)(t := x))) (timer_queue s) = map (key base (tmr s)) (timer_queue s)"
    by (intro map_cong) auto
  then show ?thesis using assms(1) k by (simp add: queue_ok_def del: map_eq_conv)
qed

lemma queue_ok_oneshot [simp]: "queue_ok base (s\<lparr>oneshot := x\<rparr>) = queue_ok base s"
  by (simp add: queue_ok_def)

section \<open>Setting and cancelling\<close>

lemma insert_head_cases: "hd (insert_before tm t q) = t \<or> (\<exists>e es. q = e # es \<and> hd (insert_before tm t q) = e)"
  by (cases q) auto

lemma timer_set_queue_ok:
  assumes "queue_ok base s" and "t \<notin> set (timer_queue s)" and "since base now + unat delay < 2 ^ 31"
  shows "\<exists>s'. timer_set s now t delay period cb a = Ret s' \<and> queue_ok base s'
    \<and> mset (timer_queue s') = add_mset t (mset (timer_queue s))
    \<and> tmr s' t = \<lparr>scheduled_time = now + delay, periodic_time = period, callback = Some cb, arg = a\<rparr>
    \<and> (\<forall>e. e \<noteq> t \<longrightarrow> tmr s' e = tmr s e)"
proof -
  let ?s = "s\<lparr>tmr := (tmr s)(t := \<lparr>scheduled_time = now + delay, periodic_time = period,
                callback = Some cb, arg = a\<rparr>)\<rparr>"
  have "key base (tmr ?s) t < 2 ^ 31"
    using assms(3) since_add [of base now delay] by (simp add: key_def)
  then have "queue_ok base (insert_timer_in_queue ?s t)"
    using queue_ok_upd [OF assms(1,2)] assms(2) by (intro queue_ok_insert) simp_all
  then show ?thesis
    using assms(2) by (auto simp: timer_set_def Let_def) (simp_all add: insert_timer_in_queue_def)
qed

lemma timer_cancel_queue_ok:
  assumes "queue_ok base s"
  shows "queue_ok base (timer_cancel s now t)"
    and "timer_queue (timer_cancel s now t) = remove1 t (timer_queue s)"
    and "callback (tmr (timer_cancel s now t) t) = None" and "periodic_time (tmr (timer_cancel s now t) t) = 0"
proof -
  let ?s = "s\<lparr>timer_queue := remove1 t (timer_queue s)\<rparr>"
  let ?s' = "?s\<lparr>tmr := (tmr ?s)(t := (tmr ?s t)\<lparr>periodic_time := 0, callback := None, arg := 0\<rparr>)\<rparr>"
  have "t \<notin> set (timer_queue ?s)" using assms by (simp add: queue_ok_def)
  then have ok: "queue_ok base ?s'" by (rule queue_ok_upd [OF queue_ok_remove [OF assms]])
  have "\<exists>x. timer_cancel s now t = ?s'\<lparr>oneshot := x\<rparr>"
    by (auto simp: timer_cancel_def Let_def split: option.splits intro: exI [of _ "oneshot s"])
  then obtain x where x: "timer_cancel s now t = ?s'\<lparr>oneshot := x\<rparr>" ..
  show "queue_ok base (timer_cancel s now t)" unfolding x using ok by simp
  show "timer_queue (timer_cancel s now t) = remove1 t (timer_queue s)"
    and "callback (tmr (timer_cancel s now t) t) = None" and "periodic_time (tmr (timer_cancel s now t) t) = 0"
    unfolding x by simp_all
qed

section \<open>The hardware timer covers the head of the queue\<close>

definition armed :: "'s tstate \<Rightarrow> bool" where
  "armed s \<longleftrightarrow> (case timer_queue s of [] \<Rightarrow> True
     | t # _ \<Rightarrow> (\<exists>d. oneshot s = Some d
         \<and> (d = scheduled_time (tmr s t) \<or> TIME_LT (scheduled_time (tmr s t)) d)))"

lemma armed_set:
  assumes "armed s" and "timer_set s now t delay period cb a = Ret s'"
  shows "armed s'"
proof -
  have nin: "t \<notin> set (timer_queue s)" using assms(2) by (auto simp: timer_set_def split: if_splits)
  show ?thesis
  proof (cases "timer_queue s")
    case Nil
    then show ?thesis using assms(2) nin
      by (auto simp: timer_set_def insert_timer_in_queue_def armed_def Let_def)
  next
    case (Cons e es)
    then have "e \<noteq> t" using nin by auto
    then show ?thesis using assms nin Cons
      by (auto simp: timer_set_def insert_timer_in_queue_def armed_def Let_def split: if_splits)
  qed
qed

lemma remove1_head: "head_of (remove1 t q) = Some h \<Longrightarrow> Some h = head_of q \<Longrightarrow> distinct q \<Longrightarrow> h \<noteq> t"
  by (cases q) (auto simp: head_of_def split: if_splits list.splits)

lemma armed_cancel:
  assumes "armed s" and "distinct (timer_queue s)"
  shows "armed (timer_cancel s now t)"
proof (cases "remove1 t (timer_queue s)")
  case Nil
  then show ?thesis by (simp add: timer_cancel_def armed_def head_of_def Let_def)
next
  case (Cons h q)
  have ht: "h \<noteq> t" using Cons assms(2) by (metis distinct_remove1 list.set_intros(1) set_remove1_eq Diff_iff singletonI)
  show ?thesis
  proof (cases "Some h = head_of (timer_queue s)")
    case True
    then obtain q' where q': "timer_queue s = h # q'" by (auto simp: head_of_def split: list.splits)
    then show ?thesis using assms(1) Cons ht
      by (auto simp: timer_cancel_def armed_def head_of_def Let_def)
  next
    case False
    then show ?thesis using Cons ht
      by (auto simp: timer_cancel_def armed_def head_of_def [of "h # q"] Let_def)
  qed
qed

section \<open>The tick\<close>

text \<open>
  Callbacks that leave the timers alone. Under them the tick ends: a timer that is due
  runs and leaves the queue, or, if periodic, moves past \<open>now\<close> in at most two runs.
\<close>

definition quiet :: "'s cb_fn \<Rightarrow> bool" where
  "quiet cbs \<longleftrightarrow> (\<forall>cb t now a s. \<exists>r e. cbs cb t now a s = (r, s\<lparr>env := e\<rparr>))"

definition due :: "u32 \<Rightarrow> (nat \<Rightarrow> timer) \<Rightarrow> nat \<Rightarrow> bool" where
  "due now tm t \<longleftrightarrow> \<not> TIME_LT now (scheduled_time (tm t))"

definition tick_pre :: "u32 \<Rightarrow> u32 \<Rightarrow> 's tstate \<Rightarrow> bool" where
  "tick_pre base now s \<longleftrightarrow> queue_ok base s \<and> (\<forall>t \<in> set (timer_queue s).
     callback (tmr s t) \<noteq> None \<and> since base now + unat (periodic_time (tmr s t)) < 2 ^ 31)"

definition due_weight :: "u32 \<Rightarrow> u32 \<Rightarrow> (nat \<Rightarrow> timer) \<Rightarrow> nat \<Rightarrow> nat" where
  "due_weight base now tm t =
     (if key base tm t < since base now then 2 else if key base tm t = since base now then 1 else 0)"

definition weight :: "u32 \<Rightarrow> u32 \<Rightarrow> 's tstate \<Rightarrow> nat" where
  "weight base now s = (\<Sum>t \<in> set (timer_queue s). due_weight base now (tmr s) t)"

lemma due_key:
  assumes "queue_ok base s" and "since base now < 2 ^ 31" and "t \<in> set (timer_queue s)"
  shows "due now (tmr s) t \<longleftrightarrow> key base (tmr s) t \<le> since base now"
proof -
  have "TIME_LT now (scheduled_time (tmr s t)) \<longleftrightarrow> since base now < key base (tmr s) t"
    using assms TIME_GT_since(2) [of base now "scheduled_time (tmr s t)"]
    by (simp add: queue_ok_def key_def)
  then show ?thesis by (simp add: due_def not_less)
qed

definition next_time :: "u32 \<Rightarrow> timer \<Rightarrow> u32" where
  "next_time now tm = (let n = scheduled_time tm + periodic_time tm in
     if TIME_LT n now then now + periodic_time tm else n)"

lemma next_time_key:
  assumes "since base (scheduled_time tm) \<le> since base now"
    and "since base now + unat (periodic_time tm) < 2 ^ 31"
  shows "since base (next_time now tm) < 2 ^ 31" and "since base now \<le> since base (next_time now tm)"
    and "0 < unat (periodic_time tm) \<Longrightarrow> since base (scheduled_time tm) = since base now
      \<Longrightarrow> since base now < since base (next_time now tm)"
proof -
  have a: "since base (scheduled_time tm + periodic_time tm)
      = since base (scheduled_time tm) + unat (periodic_time tm)"
    "since base (now + periodic_time tm) = since base now + unat (periodic_time tm)"
    using assms by (intro since_add; simp)+
  then have lt: "TIME_LT (scheduled_time tm + periodic_time tm) now
      \<longleftrightarrow> since base (scheduled_time tm) + unat (periodic_time tm) < since base now"
    using TIME_GT_since(2) [of base "scheduled_time tm + periodic_time tm" now] assms by simp
  show "since base (next_time now tm) < 2 ^ 31" "since base now \<le> since base (next_time now tm)"
    using assms a lt by (auto simp: next_time_def Let_def)
  show "0 < unat (periodic_time tm) \<Longrightarrow> since base (scheduled_time tm) = since base now
      \<Longrightarrow> since base now < since base (next_time now tm)"
    using a lt by (auto simp: next_time_def Let_def)
qed

text \<open>What firing the head does to queue and timers.\<close>

lemma fire_callback:
  assumes "timer_queue s = t # q" and "t \<notin> set q" and "callback (tmr s t) = Some cb"
    and "cbs cb t now (arg (tmr s t)) (s\<lparr>timer_queue := q\<rparr>) = (r, s\<lparr>timer_queue := q, env := e\<rparr>)"
  shows "fire_head cbs s now t = Ret (r,
     if periodic_time (tmr s t) = 0 then s\<lparr>timer_queue := q, env := e\<rparr>
     else insert_timer_in_queue (s\<lparr>timer_queue := q, env := e,
       tmr := (tmr s)(t := (tmr s t)\<lparr>scheduled_time := next_time now (tmr s t)\<rparr>)\<rparr>) t)"
  using assms by (auto simp: fire_head_def requeue_periodic_def next_time_def Let_def word_gt_0)

lemma fire_quiet:
  assumes "quiet cbs" and "timer_queue s = t # q" and "t \<notin> set q" and "callback (tmr s t) \<noteq> None"
  shows "\<exists>r e. fire_head cbs s now t = Ret (r,
     if periodic_time (tmr s t) = 0 then s\<lparr>timer_queue := q, env := e\<rparr>
     else insert_timer_in_queue (s\<lparr>timer_queue := q, env := e,
       tmr := (tmr s)(t := (tmr s t)\<lparr>scheduled_time := next_time now (tmr s t)\<rparr>)\<rparr>) t)"
proof -
  obtain cb where cb: "callback (tmr s t) = Some cb" using assms(4) by auto
  obtain r e where "cbs cb t now (arg (tmr s t)) (s\<lparr>timer_queue := q\<rparr>) = (r, s\<lparr>timer_queue := q, env := e\<rparr>)"
    using assms(1) [unfolded quiet_def, rule_format, of cb t now "arg (tmr s t)" "s\<lparr>timer_queue := q\<rparr>"]
    by auto
  from fire_callback [where cbs=cbs, OF assms(2,3) cb this] show ?thesis by blast
qed

lemma queue_ok_env [simp]: "queue_ok base (s\<lparr>env := e\<rparr>) = queue_ok base s"
  by (simp add: queue_ok_def)

lemma queue_ok_tail: "queue_ok base s \<Longrightarrow> timer_queue s = t # q \<Longrightarrow> queue_ok base (s\<lparr>timer_queue := q\<rparr>)"
  by (simp add: queue_ok_def)

lemma fire_step:
  assumes "quiet cbs" and pre: "tick_pre base now s" and "since base now < 2 ^ 31"
    and q: "timer_queue s = t # q" and d: "due now (tmr s) t"
  shows "\<exists>r s'. fire_head cbs s now t = Ret (r, s') \<and> tick_pre base now s'
    \<and> weight base now s' < weight base now s
    \<and> set (timer_queue s') = {u \<in> set (timer_queue s). u \<noteq> t \<or> periodic_time (tmr s u) \<noteq> 0}
    \<and> (\<forall>u. u \<noteq> t \<longrightarrow> tmr s' u = tmr s u) \<and> periodic_time (tmr s' t) = periodic_time (tmr s t)"
proof -
  have ok: "queue_ok base s" and tq: "t \<notin> set q" and cb: "callback (tmr s t) \<noteq> None"
    and per: "since base now + unat (periodic_time (tmr s t)) < 2 ^ 31"
    using pre q by (auto simp: tick_pre_def queue_ok_def)
  have k: "key base (tmr s) t \<le> since base now" using due_key [OF ok assms(3)] q d by simp
  have w: "weight base now s = due_weight base now (tmr s) t + (\<Sum>u \<in> set q. due_weight base now (tmr s) u)"
    using q tq by (simp add: weight_def)
  obtain r e where f: "fire_head cbs s now t = Ret (r,
     if periodic_time (tmr s t) = 0 then s\<lparr>timer_queue := q, env := e\<rparr>
     else insert_timer_in_queue (s\<lparr>timer_queue := q, env := e,
       tmr := (tmr s)(t := (tmr s t)\<lparr>scheduled_time := next_time now (tmr s t)\<rparr>)\<rparr>) t)"
    using fire_quiet [OF assms(1) q tq cb] by blast
  show ?thesis
  proof (cases "periodic_time (tmr s t) = 0")
    case True
    let ?s = "s\<lparr>timer_queue := q, env := e\<rparr>"
    have "tick_pre base now ?s"
      using pre q queue_ok_tail [OF ok q] by (simp add: tick_pre_def)
    moreover have "weight base now ?s < weight base now s"
      using k unfolding w by (simp add: weight_def due_weight_def)
    ultimately show ?thesis using f True q tq by auto
  next
    case False
    let ?tm = "(tmr s)(t := (tmr s t)\<lparr>scheduled_time := next_time now (tmr s t)\<rparr>)"
    let ?s1 = "s\<lparr>timer_queue := q, env := e, tmr := ?tm\<rparr>"
    let ?s = "insert_timer_in_queue ?s1 t"
    note nt = next_time_key [of base "tmr s t" now, OF k [unfolded key_def] per]
    have pos: "0 < unat (periodic_time (tmr s t))" using False by (simp add: unat_gt_0)
    have "queue_ok base ?s1"
      using queue_ok_upd [OF queue_ok_tail [OF ok q], of t] tq by (simp add: queue_ok_def)
    then have "queue_ok base ?s" using nt(1) tq by (intro queue_ok_insert) (simp_all add: key_def)
    moreover have st: "set (timer_queue ?s) = set (timer_queue s)" "tmr ?s = ?tm"
      using q by (simp_all add: insert_timer_in_queue_def)
    ultimately have pre': "tick_pre base now ?s"
      using pre unfolding tick_pre_def st by (auto split: if_splits)
    have "due_weight base now ?tm t < due_weight base now (tmr s) t"
      using nt(2) nt(3) [OF pos] k by (auto simp: due_weight_def key_def)
    moreover have "(\<Sum>u \<in> set q. due_weight base now ?tm u) = (\<Sum>u \<in> set q. due_weight base now (tmr s) u)"
      using tq by (intro sum.cong) (auto simp: due_weight_def key_def)
    moreover have "weight base now ?s = due_weight base now ?tm t + (\<Sum>u \<in> set q. due_weight base now ?tm u)"
      using q tq unfolding weight_def st by simp
    ultimately have "weight base now ?s < weight base now s" unfolding w by linarith
    then show ?thesis using f False pre' st q by auto
  qed
qed

lemma tick_loop_ends:
  assumes "quiet cbs" and "tick_pre base now s" and "since base now < 2 ^ 31"
  shows "\<exists>r s'. tick_loop cbs now ret s = Some (Ret (r, s')) \<and> tick_pre base now s'
    \<and> (\<forall>t \<in> set (timer_queue s'). \<not> due now (tmr s') t)
    \<and> set (timer_queue s') = {t \<in> set (timer_queue s). \<not> due now (tmr s) t \<or> periodic_time (tmr s t) \<noteq> 0}"
  using assms(2)
proof (induction "weight base now s" arbitrary: s ret rule: less_induct)
  case less
  have ok: "queue_ok base s" using less.prems by (simp add: tick_pre_def)
  show ?case
  proof (cases "timer_queue s")
    case Nil
    then show ?thesis using less.prems by (subst tick_loop.simps) auto
  next
    case (Cons t q)
    show ?thesis
    proof (cases "due now (tmr s) t")
      case False
      have "\<not> due now (tmr s) u" if "u \<in> set (timer_queue s)" for u
      proof -
        have "key base (tmr s) t \<le> key base (tmr s) u"
          using ok Cons that by (auto simp: queue_ok_def)
        then show ?thesis
          using False due_key [OF ok assms(3)] Cons that by (metis list.set_intros(1) le_trans)
      qed
      moreover have "tick_loop cbs now ret s = Some (Ret (ret, s))"
        using Cons False by (subst tick_loop.simps) (simp add: due_def)
      ultimately show ?thesis using less.prems by auto
    next
      case True
      obtain r s1 where f: "fire_head cbs s now t = Ret (r, s1)" "tick_pre base now s1"
        "weight base now s1 < weight base now s"
        "set (timer_queue s1) = {u \<in> set (timer_queue s). u \<noteq> t \<or> periodic_time (tmr s u) \<noteq> 0}"
        "\<forall>u. u \<noteq> t \<longrightarrow> tmr s1 u = tmr s u" "periodic_time (tmr s1 t) = periodic_time (tmr s t)"
        using fire_step [OF assms(1) less.prems assms(3) Cons True] by blast
      have step: "tick_loop cbs now ret s = tick_loop cbs now (ret \<or> r) s1"
        using Cons True f(1) by (subst tick_loop.simps) (simp add: due_def)
      obtain r' s2 where l: "tick_loop cbs now (ret \<or> r) s1 = Some (Ret (r', s2))" "tick_pre base now s2"
        "\<forall>u \<in> set (timer_queue s2). \<not> due now (tmr s2) u"
        "set (timer_queue s2) = {u \<in> set (timer_queue s1). \<not> due now (tmr s1) u \<or> periodic_time (tmr s1 u) \<noteq> 0}"
        using less.hyps [OF f(3,2)] by blast
      have "set (timer_queue s2) = {u \<in> set (timer_queue s). \<not> due now (tmr s) u \<or> periodic_time (tmr s u) \<noteq> 0}"
      proof -
        have "u \<in> set (timer_queue s2)
            \<longleftrightarrow> u \<in> {u \<in> set (timer_queue s). \<not> due now (tmr s) u \<or> periodic_time (tmr s u) \<noteq> 0}" for u
          unfolding l(4) f(4) using f(5,6) True by (cases "u = t") (auto simp: due_def)
        then show ?thesis by blast
      qed
      then show ?thesis using step l(1-3) by auto
    qed
  qed
qed

text \<open>A timer that the loop leaves in the queue lies in the future, as \<^verbatim>\<open>timer_tick\<close> asserts:
a timer due exactly now has been run.\<close>

lemma not_due_gt:
  assumes "queue_ok base s" and "since base now < 2 ^ 31" and "t \<in> set (timer_queue s)" and "\<not> due now (tmr s) t"
  shows "TIME_GT (scheduled_time (tmr s t)) now"
proof -
  have k: "since base (scheduled_time (tmr s t)) < 2 ^ 31" using assms(1,3) by (simp add: queue_ok_def key_def)
  show ?thesis using assms(4) TIME_GT_since [OF k assms(2)] TIME_GT_since [OF assms(2) k] by (simp add: due_def)
qed

lemma timer_tick_ends:
  assumes l: "tick_loop cbs now False s = Some (Ret (r, s'))" and ok: "queue_ok base s'" "since base now < 2 ^ 31"
    and nd: "\<forall>t \<in> set (timer_queue s'). \<not> due now (tmr s') t"
  shows "\<exists>x. timer_tick cbs now s = Some (Ret (r, s'\<lparr>oneshot := x\<rparr>))"
proof (cases "timer_queue s'")
  case Nil
  then show ?thesis using l by (auto simp: timer_tick_def intro: exI [of _ "oneshot s'"])
next
  case (Cons t q)
  then have "TIME_GT (scheduled_time (tmr s' t)) now" using not_due_gt [OF ok, of t] nd by simp
  then show ?thesis using l Cons by (auto simp: timer_tick_def)
qed

text \<open>One-shot timers only, with a callback that records the timer: the tick runs the due
timers in the order of their times, each once.\<close>

text \<open>An invariant that every round keeps holds when the loop is over.\<close>

lemma tick_loop_preserves:
  assumes step: "\<And>s t q. I s \<Longrightarrow> timer_queue s = t # q \<Longrightarrow> \<exists>r s'. fire_head cbs s now t = Ret (r, s') \<and> I s'"
    and ends: "tick_loop cbs now ret s = Some out" and "I s"
  shows "\<exists>r s'. out = Ret (r, s') \<and> I s'"
proof -
  have "cbs = cbs \<longrightarrow> now = now \<longrightarrow> I s \<longrightarrow> (\<exists>r s'. out = Ret (r, s') \<and> I s')"
  proof (rule tick_loop.raw_induct [where P="\<lambda>c n ret s out. c = cbs \<longrightarrow> n = now \<longrightarrow> I s
      \<longrightarrow> (\<exists>r s'. out = Ret (r, s') \<and> I s')", OF _ ends], intro impI)
    fix loop c n ret s out
    assume IH: "\<And>c n ret s out. loop c n ret s = Some out \<Longrightarrow> c = cbs \<longrightarrow> n = now \<longrightarrow> I s
        \<longrightarrow> (\<exists>r s'. out = Ret (r, s') \<and> I s')"
      and body: "(case timer_queue s of [] \<Rightarrow> Some (Ret (ret, s))
        | t # q \<Rightarrow> if TIME_LT n (scheduled_time (tmr s t)) then Some (Ret (ret, s))
            else case fire_head c s n t of Ret (resched, s') \<Rightarrow> loop c n (ret \<or> resched) s'
                 | Fault \<Rightarrow> Some Fault | Hang \<Rightarrow> Some Hang) = Some out"
      and eq: "c = cbs" "n = now" and I: "I s"
    show "\<exists>r s'. out = Ret (r, s') \<and> I s'"
    proof (cases "timer_queue s")
      case Nil
      then show ?thesis using body I by auto
    next
      case (Cons t q)
      from step [OF I Cons] obtain r s' where "fire_head cbs s now t = Ret (r, s')" "I s'" by blast
      then show ?thesis using body eq I Cons IH [of cbs now "ret \<or> r" s' out] by (auto split: if_splits)
    qed
  qed
  then show ?thesis using assms(3) by blast
qed

definition logging :: "nat list cb_fn" where
  "logging cb t now a s = (False, s\<lparr>env := env s @ [t]\<rparr>)"

lemma logging_quiet: "quiet logging"
  unfolding quiet_def by (auto simp: logging_def)

lemma tick_loop_logs:
  assumes "queue_ok base s" and "since base now < 2 ^ 31"
    and "\<forall>t \<in> set (timer_queue s). callback (tmr s t) \<noteq> None \<and> periodic_time (tmr s t) = 0"
  shows "tick_loop logging now ret s = Some (Ret (ret,
    s\<lparr>env := env s @ takeWhile (due now (tmr s)) (timer_queue s),
      timer_queue := dropWhile (due now (tmr s)) (timer_queue s)\<rparr>))"
  using assms
proof (induction "timer_queue s" arbitrary: s)
  case Nil
  then show ?case by (subst tick_loop.simps) (simp flip: Nil(1))
next
  case (Cons t q)
  note tq = Cons.hyps(2) [symmetric]
  show ?case
  proof (cases "due now (tmr s) t")
    case False
    then show ?thesis by (subst tick_loop.simps) (simp add: tq due_def)
  next
    case True
    obtain cb where cb: "callback (tmr s t) = Some cb" using Cons.prems(3) tq by auto
    let ?s = "s\<lparr>timer_queue := q, env := env s @ [t]\<rparr>"
    have "periodic_time (tmr s t) = 0" using Cons.prems(3) tq by simp
    then have f: "fire_head logging s now t = Ret (False, ?s)"
      using cb by (simp add: fire_head_def tq logging_def requeue_periodic_def Let_def)
    have "queue_ok base ?s" using queue_ok_tail [OF Cons.prems(1) tq] by simp
    then have "tick_loop logging now ret ?s = Some (Ret (ret,
        ?s\<lparr>env := env ?s @ takeWhile (due now (tmr ?s)) (timer_queue ?s),
          timer_queue := dropWhile (due now (tmr ?s)) (timer_queue ?s)\<rparr>))"
      using Cons.prems(2,3) tq by (intro Cons.hyps(1)) auto
    then show ?thesis using True f
      by (subst tick_loop.simps) (simp add: tq due_def)
  qed
qed

section \<open>Properties\<close>

text \<open>Setting a timer that is not queued succeeds, gives it the requested time,
period, callback and argument, and puts it into the queue so that the queue stays sorted by
expiry time, across the wrap-around of the 32-bit clock, with no timer queued twice.\<close>

theorem timer_set_keeps_order:
  assumes "queue_ok base s" and "t \<notin> set (timer_queue s)" and "since base now + unat delay < 2 ^ 31"
  shows "\<exists>s'. timer_set s now t delay period cb a = Ret s' \<and> queue_ok base s'
    \<and> mset (timer_queue s') = add_mset t (mset (timer_queue s))
    \<and> tmr s' t = \<lparr>scheduled_time = now + delay, periodic_time = period, callback = Some cb, arg = a\<rparr>
    \<and> (\<forall>e. e \<noteq> t \<longrightarrow> tmr s' e = tmr s e)"
  using assms by (rule timer_set_queue_ok)

definition idle_timers :: "nat list tstate" where
  "idle_timers = \<lparr>tmr = (\<lambda>_. \<lparr>scheduled_time = 0, periodic_time = 0, callback = None, arg = 0\<rparr>),
     timer_queue = [], oneshot = None, env = []\<rparr>"

lemma idle_timers_ok: "queue_ok base idle_timers"
  by (simp add: queue_ok_def idle_timers_def)

theorem timer_set_keeps_order_witness:
  "\<exists>s'. timer_set idle_timers 0xFFFFFFF0 3 100 0 7 9 = Ret s' \<and> queue_ok 0xFFFFFFF0 s'
    \<and> mset (timer_queue s') = add_mset 3 (mset (timer_queue idle_timers))
    \<and> tmr s' 3 = \<lparr>scheduled_time = 0xFFFFFFF0 + 100, periodic_time = 0, callback = Some 7, arg = 9\<rparr>
    \<and> (\<forall>e. e \<noteq> 3 \<longrightarrow> tmr s' e = tmr idle_timers e)"
  by (rule timer_set_keeps_order [OF idle_timers_ok]) (simp_all add: idle_timers_def since_def)

text \<open>Claim C28: with callbacks that do not touch timers, the timer interrupt ends; when it does,
no timer that is due is left in the queue, the queue is still sorted, one-shot timers that
were due are gone, and periodic and future timers are still queued.\<close>

theorem timer_tick_runs_all_due:
  assumes "quiet cbs" and "tick_pre base now s" and "since base now < 2 ^ 31"
  shows "\<exists>r s'. timer_tick cbs now s = Some (Ret (r, s')) \<and> queue_ok base s'
    \<and> (\<forall>t \<in> set (timer_queue s'). \<not> due now (tmr s') t)
    \<and> set (timer_queue s') = {t \<in> set (timer_queue s). \<not> due now (tmr s) t \<or> periodic_time (tmr s t) \<noteq> 0}"
proof -
  obtain r s1 where l: "tick_loop cbs now False s = Some (Ret (r, s1))" "tick_pre base now s1"
    "\<forall>t \<in> set (timer_queue s1). \<not> due now (tmr s1) t"
    "set (timer_queue s1) = {t \<in> set (timer_queue s). \<not> due now (tmr s) t \<or> periodic_time (tmr s t) \<noteq> 0}"
    using tick_loop_ends [OF assms] by blast
  have "queue_ok base s1" using l(2) by (simp add: tick_pre_def)
  then obtain x where "timer_tick cbs now s = Some (Ret (r, s1\<lparr>oneshot := x\<rparr>))"
    using timer_tick_ends [OF l(1) _ assms(3) l(3)] by blast
  then show ?thesis using l(2-4) by (intro exI [of _ r] exI [of _ "s1\<lparr>oneshot := x\<rparr>"]) (simp add: tick_pre_def)
qed

definition two_timers :: "nat list tstate" where
  "two_timers = idle_timers\<lparr>timer_queue := [1, 2],
     tmr := (\<lambda>t. \<lparr>scheduled_time = 10 * of_nat t, periodic_time = (if t = 1 then 5 else 0),
                callback = Some 0, arg = 0\<rparr>)\<rparr>"

lemma two_timers_pre: "tick_pre 0 15 two_timers"
  by (simp add: tick_pre_def queue_ok_def two_timers_def key_def since_def)

theorem timer_tick_runs_all_due_witness:
  "\<exists>r s'. timer_tick logging 15 two_timers = Some (Ret (r, s')) \<and> queue_ok 0 s'
    \<and> (\<forall>t \<in> set (timer_queue s'). \<not> due 15 (tmr s') t)
    \<and> set (timer_queue s') = {t \<in> set (timer_queue two_timers). \<not> due 15 (tmr two_timers) t
        \<or> periodic_time (tmr two_timers t) \<noteq> 0}"
  by (rule timer_tick_runs_all_due [OF logging_quiet two_timers_pre]) (simp add: since_def)

text \<open>The timer interrupt runs the callbacks of the one-shot timers that are due in
the order of their expiry times, each exactly once, and leaves the others queued in order.\<close>

theorem timer_tick_fires_in_order:
  assumes "queue_ok base s" and "since base now < 2 ^ 31"
    and "list_all (\<lambda>t. callback (tmr s t) \<noteq> None \<and> periodic_time (tmr s t) = 0) (timer_queue s)"
  shows "\<exists>s'. timer_tick logging now s = Some (Ret (False, s'))
    \<and> env s' = env s @ filter (due now (tmr s)) (timer_queue s)
    \<and> timer_queue s' = filter (\<lambda>t. \<not> due now (tmr s) t) (timer_queue s)"
proof -
  let ?q = "timer_queue s" and ?d = "due now (tmr s)"
  have srt: "sorted (map (key base (tmr s)) ?q)" using assms(1) by (simp add: queue_ok_def)
  have "takeWhile ?d xs = filter ?d xs \<and> dropWhile ?d xs = filter (\<lambda>t. \<not> ?d t) xs"
    if "set xs \<subseteq> set ?q" "sorted (map (key base (tmr s)) xs)" for xs
    using that
  proof (induction xs)
    case (Cons x xs)
    have "\<not> ?d y" if "\<not> ?d x" "y \<in> set xs" for y
      using Cons.prems that due_key [OF assms(1,2)] by (auto intro: le_trans)
    then show ?case using Cons by (auto simp: filter_empty_conv filter_id_conv)
  qed simp
  then have "takeWhile ?d ?q = filter ?d ?q" "dropWhile ?d ?q = filter (\<lambda>t. \<not> ?d t) ?q"
    using srt by auto
  moreover have "tick_loop logging now False s = Some (Ret (False,
      s\<lparr>env := env s @ takeWhile ?d ?q, timer_queue := dropWhile ?d ?q\<rparr>))"
    using tick_loop_logs [OF assms(1,2)] assms(3) by (simp add: list_all_iff)
  ultimately have l: "tick_loop logging now False s = Some (Ret (False,
      s\<lparr>env := env s @ filter ?d ?q, timer_queue := filter (\<lambda>t. \<not> ?d t) ?q\<rparr>))" (is "_ = Some (Ret (_, ?s))")
    by simp
  have "queue_ok base ?s" using assms(1) by (simp add: queue_ok_def sorted_filter)
  then have "\<exists>x. timer_tick logging now s = Some (Ret (False, ?s\<lparr>oneshot := x\<rparr>))"
    by (intro timer_tick_ends [OF l _ assms(2)]) auto
  then show ?thesis by auto
qed

theorem timer_tick_fires_in_order_witness:
  "\<exists>s'. timer_tick logging 15 (two_timers\<lparr>timer_queue := [2]\<rparr>) = Some (Ret (False, s'))
    \<and> env s' = env (two_timers\<lparr>timer_queue := [2]\<rparr>)
        @ filter (due 15 (tmr (two_timers\<lparr>timer_queue := [2]\<rparr>))) (timer_queue (two_timers\<lparr>timer_queue := [2]\<rparr>))
    \<and> timer_queue s' = filter (\<lambda>t. \<not> due 15 (tmr (two_timers\<lparr>timer_queue := [2]\<rparr>)) t)
        (timer_queue (two_timers\<lparr>timer_queue := [2]\<rparr>))"
  by (rule timer_tick_fires_in_order [of 0])
     (simp_all add: two_timers_def queue_ok_def key_def since_def)

text \<open>Setting or cancelling a timer keeps the hardware timer programmed for the head
of the queue: it fires exactly at the head's expiry time, or at once when that time is past.\<close>

theorem hardware_timer_follows_head:
  assumes "armed s" and "distinct (timer_queue s)"
  shows "armed (timer_cancel s now t)
    \<and> (\<forall>s'. timer_set s now t delay period cb a = Ret s' \<longrightarrow> armed s')"
  using armed_cancel [OF assms] armed_set [OF assms(1)] by blast

theorem hardware_timer_follows_head_witness:
  "armed (timer_cancel idle_timers 5 1) \<and> (\<exists>s'. timer_set idle_timers 5 1 10 0 7 9 = Ret s' \<and> armed s')"
  using hardware_timer_follows_head [of idle_timers 5 1 10 0 7 9]
  by (simp add: armed_def idle_timers_def timer_set_def Let_def)

end
