(* ===== verification/Sched.thy ===== *)
theory Sched
  imports Timer Pow2
begin

text \<open>
  The scheduler \<^verbatim>\<open>kernel/thread.c\<close> on one CPU: run queues with their bitmap, wait queues,
  and every operation that moves a thread between them. The whole kernel state is a timer
  state whose client part is the scheduler state (\<open>kst\<close>), so that the timer callbacks of
  the scheduler are callbacks of the timer component. Threads are numbered by address; the
  idle thread is 0. A thread's entry point, stack, name and local storage are not
  represented; freeing a thread clears \<open>magic\<close>.

  \<^verbatim>\<open>LK_DEBUGLEVEL\<close> is 2, so \<^verbatim>\<open>DEBUG_ASSERT\<close> panics. An assertion on which a call
  depends on its caller is a \<open>Fault\<close> of the call. Those inside the helper functions that only change
  the scheduler state, and inside the timer callbacks, set the flag \<open>panicked\<close> (\<open>debug_assert\<close>); the
  kernel invariant says that it is never set. Assertions that a lock is held or interrupts are
  disabled are left out, and so are those on the magic number of a wait queue: the queue of a thread
  is initialised with the thread, and the other queues belong to initialised objects.

  A call that blocks is cut in two at \<^verbatim>\<open>thread_resched\<close>: the first part ends with
  \<open>Blocked\<close> and the processor on another thread; the second (named \<open>..._finish\<close>) runs when
  the thread is switched to again.
\<close>

section \<open>State\<close>

datatype thread_state =
  THREAD_SUSPENDED | THREAD_READY | THREAD_RUNNING | THREAD_BLOCKED | THREAD_SLEEPING | THREAD_DEATH

text \<open>The wait queues: one in every thread for its joiners, one in every other object.\<close>

datatype wqid = RetQ nat | MutexQ nat | EventQ nat | SemQ nat | PortQ nat

record thread =
  magic :: bool
  priority :: nat
  state :: thread_state
  remaining_quantum :: int
  fl_detached :: bool
  fl_real_time :: bool
  fl_idle :: bool
  blocking_wait_queue :: "wqid option"
  wait_queue_block_ret :: status
  retcode :: int

record wait_queue =
  wlist :: "nat list"
  wcount :: int

record sched =
  thr :: "nat \<Rightarrow> thread"
  thread_list :: "nat list"
  run_queue :: "nat \<Rightarrow> nat list"
  run_queue_bitmap :: u32
  wq :: "wqid \<Rightarrow> wait_queue"
  current :: nat
  panicked :: bool

type_synonym kst = "sched tstate"

definition NUM_PRIORITIES :: nat where "NUM_PRIORITIES = 32"
definition HIGHEST_PRIORITY :: nat where "HIGHEST_PRIORITY = NUM_PRIORITIES - 1"
definition IDLE_PRIORITY :: nat where "IDLE_PRIORITY = 0"
definition DEFAULT_PRIORITY :: nat where "DEFAULT_PRIORITY = NUM_PRIORITIES div 2"
definition INFINITE_TIME :: u32 where "INFINITE_TIME = 0xFFFFFFFF"

definition idle_thread :: nat where "idle_thread = 0"

definition upd_thr :: "nat \<Rightarrow> (thread \<Rightarrow> thread) \<Rightarrow> sched \<Rightarrow> sched" where
  "upd_thr t f s = s\<lparr>thr := (thr s)(t := f (thr s t))\<rparr>"

definition upd_wq :: "wqid \<Rightarrow> (wait_queue \<Rightarrow> wait_queue) \<Rightarrow> sched \<Rightarrow> sched" where
  "upd_wq q f s = s\<lparr>wq := (wq s)(q := f (wq s q))\<rparr>"

definition on_sched :: "(sched \<Rightarrow> sched) \<Rightarrow> kst \<Rightarrow> kst" where
  "on_sched f S = S\<lparr>env := f (env S)\<rparr>"

definition debug_assert :: "bool \<Rightarrow> sched \<Rightarrow> sched" where
  "debug_assert x s = s\<lparr>panicked := panicked s \<or> \<not> x\<rparr>"

lemma debug_assert_fields [simp]:
  "thr (debug_assert x s) = thr s" "wq (debug_assert x s) = wq s" "run_queue (debug_assert x s) = run_queue s"
  "run_queue_bitmap (debug_assert x s) = run_queue_bitmap s" "current (debug_assert x s) = current s"
  "thread_list (debug_assert x s) = thread_list s" "panicked (debug_assert x s) \<longleftrightarrow> panicked s \<or> \<not> x"
  by (simp_all add: debug_assert_def)

lemma debug_assert_True [simp]: "debug_assert True s = s"
  by (simp add: debug_assert_def)

section \<open>Run queues\<close>

text \<open>
  \<^verbatim>\<open>list_in_list(&t->queue_node)\<close>: the node is in a run queue, or in the wait queue that
  \<^verbatim>\<open>blocking_wait_queue\<close> names, which is set when the thread enters one and cleared when it leaves.
\<close>

definition in_list :: "nat \<Rightarrow> sched \<Rightarrow> bool" where
  "in_list t s \<longleftrightarrow> list_ex (\<lambda>p. t \<in> set (run_queue s p)) [0..<32] \<or> blocking_wait_queue (thr s t) \<noteq> None"

definition insertable :: "nat \<Rightarrow> sched \<Rightarrow> bool" where
  "insertable t s \<longleftrightarrow> magic (thr s t) \<and> state (thr s t) = THREAD_READY \<and> \<not> in_list t s"

definition insert_in_run_queue_head :: "nat \<Rightarrow> sched \<Rightarrow> sched" where
  "insert_in_run_queue_head t s =
     (let p = priority (thr s t); s = debug_assert (insertable t s) s in
      s\<lparr>run_queue := (run_queue s)(p := t # run_queue s p),
        run_queue_bitmap := run_queue_bitmap s OR push_bit p 1\<rparr>)"

definition insert_in_run_queue_tail :: "nat \<Rightarrow> sched \<Rightarrow> sched" where
  "insert_in_run_queue_tail t s =
     (let p = priority (thr s t); s = debug_assert (insertable t s) s in
      s\<lparr>run_queue := (run_queue s)(p := run_queue s p @ [t]),
        run_queue_bitmap := run_queue_bitmap s OR push_bit p 1\<rparr>)"

text \<open>\<^verbatim>\<open>get_top_thread\<close> walks the bitmap from its highest bit down.\<close>

definition top_queue :: "u32 \<Rightarrow> nat" where
  "top_queue b = 4 * 8 - 1 - builtin_clz b"

lemma clz_scan_bit:
  assumes "v \<noteq> 0" and "n \<le> 32" and "\<forall>m \<ge> n. \<not> bit v m"
  shows "clz_scan n v \<le> 31 \<and> bit v (31 - clz_scan n v) \<and> (\<forall>m > 31 - clz_scan n v. \<not> bit v m)"
  using assms
proof (induction n)
  case 0
  then have "v = 0" by (intro bit_word_eqI) auto
  then show ?case using 0 by simp
next
  case (Suc n)
  show ?case
  proof (cases "bit v n")
    case True
    then show ?thesis using Suc.prems by auto
  next
    case False
    have "\<not> bit v m" if "m \<ge> n" for m using False Suc.prems(3) that by (cases "m = n") auto
    then show ?thesis using Suc.IH Suc.prems False by auto
  qed
qed

lemma top_queue_bit:
  assumes "b \<noteq> 0"
  shows "bit b (top_queue b)" and "\<And>m. top_queue b < m \<Longrightarrow> \<not> bit b m"
proof -
  have "\<not> bit b m" if "32 \<le> m" for m using that by (simp add: bit_word.rep_eq bit_take_bit_iff)
  then show "bit b (top_queue b)" "\<And>m. top_queue b < m \<Longrightarrow> \<not> bit b m"
    using clz_scan_bit [OF assms, of 32] by (auto simp: top_queue_def builtin_clz_def)
qed

lemma bit_clear: "bit (b AND NOT (2 ^ n)) m \<longleftrightarrow> bit b m \<and> m \<noteq> n" for b :: u32
proof -
  have "bit (2 ^ n :: u32) m \<longleftrightarrow> m = n \<and> n < 32" by (auto simp: bit_exp_iff)
  then show ?thesis by (auto simp: bit_and_iff bit_not_iff dest: bit_imp_le_length)
qed

lemma clear_bit_decreases:
  fixes b :: u32
  assumes "bit b n"
  shows "unat (b AND NOT (2 ^ n)) < unat b"
proof -
  have "b AND NOT (2 ^ n) \<le> b" by (rule word_and_le2)
  moreover have "b AND NOT (2 ^ n) \<noteq> b" using assms bit_clear [of b n n] by auto
  ultimately have "b AND NOT (2 ^ n) < b" by (rule order.not_eq_order_implies_strict [rotated])
  then show ?thesis by (simp add: word_less_nat_alt)
qed

function top_of :: "sched \<Rightarrow> u32 \<Rightarrow> nat \<times> sched" where
  "top_of s bm =
     (if bm = 0 then (idle_thread, s)
      else
        let n = top_queue bm in
        case run_queue s n of
          t # ts \<Rightarrow>
            (t, s\<lparr>run_queue := (run_queue s)(n := ts),
                  run_queue_bitmap := (if ts = [] then run_queue_bitmap s AND NOT (push_bit n 1)
                                       else run_queue_bitmap s)\<rparr>)
        | [] \<Rightarrow> top_of s (bm AND NOT (push_bit n 1)))"
  by pat_completeness auto
termination
  by (relation "measure (\<lambda>(s, bm). unat bm)")
     (auto intro: clear_bit_decreases top_queue_bit(1))

declare top_of.simps [simp del]

definition get_top_thread :: "sched \<Rightarrow> nat \<times> sched" where
  "get_top_thread s = top_of s (run_queue_bitmap s)"

section \<open>Switching\<close>

definition thread_is_realtime :: "thread \<Rightarrow> bool" where
  "thread_is_realtime t \<longleftrightarrow> fl_real_time t \<and> DEFAULT_PRIORITY < priority t"

definition thread_is_idle :: "thread \<Rightarrow> bool" where
  "thread_is_idle t \<longleftrightarrow> fl_idle t"

definition thread_is_real_time_or_idle :: "thread \<Rightarrow> bool" where
  "thread_is_real_time_or_idle t \<longleftrightarrow> fl_real_time t \<or> fl_idle t"

text \<open>
  Timer 0 is the preemption timer; timer \<open>Suc t\<close> is the one on the stack of thread \<open>t\<close>
  while it sleeps or waits with a timeout. The callbacks are numbered.
\<close>

definition preempt_timer :: nat where "preempt_timer = 0"
definition CB_THREAD_TIMER_TICK :: nat where "CB_THREAD_TIMER_TICK = 0"
definition CB_THREAD_SLEEP_HANDLER :: nat where "CB_THREAD_SLEEP_HANDLER = 1"
definition CB_WAIT_QUEUE_TIMEOUT :: nat where "CB_WAIT_QUEUE_TIMEOUT = 2"

text \<open>The part of \<^verbatim>\<open>thread_resched\<close> that touches only the scheduler.\<close>

definition pick_next :: "sched \<Rightarrow> nat \<times> sched" where
  "pick_next s =
     (case get_top_thread s of (newthread, s) \<Rightarrow>
        let s = upd_thr newthread (\<lambda>t. t\<lparr>state := THREAD_RUNNING\<rparr>) s in
        if newthread = current s then (newthread, s)
        else
          (newthread,
           (upd_thr newthread (\<lambda>t. if remaining_quantum t \<le> 0 then t\<lparr>remaining_quantum := 5\<rparr> else t) s)
             \<lparr>current := newthread\<rparr>))"

definition thread_resched :: "u32 \<Rightarrow> kst \<Rightarrow> kst outcome" where
  "thread_resched now S =
     (let oldthread = current (env S) in
      if state (thr (env S) oldthread) = THREAD_RUNNING then Fault
      else case pick_next (env S) of (newthread, s) \<Rightarrow>
        let S = S\<lparr>env := s\<rparr> in
        if newthread = oldthread then Ret S
        else if thread_is_real_time_or_idle (thr s newthread) then
          (if \<not> thread_is_real_time_or_idle (thr s oldthread)
           then Ret (timer_cancel S now preempt_timer) else Ret S)
        else if thread_is_real_time_or_idle (thr s oldthread) then
          timer_set_periodic S now preempt_timer 10 CB_THREAD_TIMER_TICK 0
        else Ret S)"

definition set_state :: "nat \<Rightarrow> thread_state \<Rightarrow> sched \<Rightarrow> sched" where
  "set_state t x = upd_thr t (\<lambda>th. th\<lparr>state := x\<rparr>)"

text \<open>The current thread as the calls expect it.\<close>

definition running_ok :: "nat \<Rightarrow> sched \<Rightarrow> bool" where
  "running_ok c s \<longleftrightarrow> magic (thr s c) \<and> state (thr s c) = THREAD_RUNNING"

definition thread_yield :: "u32 \<Rightarrow> kst \<Rightarrow> kst outcome" where
  "thread_yield now S =
     (let c = current (env S) in
      if \<not> running_ok c (env S) then Fault
      else thread_resched now (on_sched (\<lambda>s.
        let s = upd_thr c (\<lambda>t. t\<lparr>state := THREAD_READY, remaining_quantum := 0\<rparr>) s in
        if \<not> thread_is_idle (thr s c) then insert_in_run_queue_tail c s else s) S))"

definition thread_preempt :: "u32 \<Rightarrow> kst \<Rightarrow> kst outcome" where
  "thread_preempt now S =
     (let c = current (env S) in
      if \<not> running_ok c (env S) then Fault
      else thread_resched now (on_sched (\<lambda>s.
        let s = set_state c THREAD_READY s in
        if \<not> thread_is_idle (thr s c) then
          (if 0 < remaining_quantum (thr s c) then insert_in_run_queue_head c s
           else insert_in_run_queue_tail c s)
        else s) S))"

definition thread_block :: "u32 \<Rightarrow> kst \<Rightarrow> kst outcome" where
  "thread_block now S =
     (let c = thr (env S) (current (env S)) in
      if \<not> (magic c \<and> state c = THREAD_BLOCKED \<and> \<not> thread_is_idle c) then Fault else thread_resched now S)"

definition thread_unblock :: "u32 \<Rightarrow> nat \<Rightarrow> bool \<Rightarrow> kst \<Rightarrow> kst outcome" where
  "thread_unblock now t resched S =
     (let th = thr (env S) t in
      if \<not> (magic th \<and> state th = THREAD_BLOCKED \<and> \<not> thread_is_idle th) then Fault
      else
      let S = on_sched (\<lambda>s. insert_in_run_queue_head t (set_state t THREAD_READY s)) S in
      if resched then thread_resched now S else Ret S)"

definition thread_timer_tick :: "kst \<Rightarrow> bool \<times> kst" where
  "thread_timer_tick S =
     (let c = current (env S) in
      if thread_is_real_time_or_idle (thr (env S) c) then (False, S)
      else
        let S = on_sched (upd_thr c (\<lambda>t. t\<lparr>remaining_quantum := remaining_quantum t - 1\<rparr>)) S in
        (remaining_quantum (thr (env S) c) \<le> 0, S))"

definition thread_sleep_handler :: "nat \<Rightarrow> kst \<Rightarrow> bool \<times> kst" where
  "thread_sleep_handler t S =
     (True, on_sched (\<lambda>s.
        let s = debug_assert (magic (thr s t) \<and> state (thr s t) = THREAD_SLEEPING) s in
        insert_in_run_queue_head t (set_state t THREAD_READY s)) S)"

definition thread_sleep :: "u32 \<Rightarrow> u32 \<Rightarrow> kst \<Rightarrow> kst outcome" where
  "thread_sleep now delay S =
     (let c = current (env S) in
      if \<not> running_ok c (env S) \<or> thread_is_idle (thr (env S) c) then Fault
      else
      let S = timer_initialize S (Suc c) in
      case timer_set_oneshot S now (Suc c) delay CB_THREAD_SLEEP_HANDLER c of
        Ret S \<Rightarrow> thread_resched now (on_sched (set_state c THREAD_SLEEPING) S)
      | Fault \<Rightarrow> Fault | Hang \<Rightarrow> Hang)"

section \<open>Wait queues\<close>

definition wait_queue_init :: "wqid \<Rightarrow> sched \<Rightarrow> sched" where
  "wait_queue_init q = upd_wq q (\<lambda>_. \<lparr>wlist = [], wcount = 0\<rparr>)"

datatype progress = Done status | Blocked

definition enqueue_current :: "wqid \<Rightarrow> sched \<Rightarrow> sched" where
  "enqueue_current q s =
     (let c = current s;
          s = upd_wq q (\<lambda>w. w\<lparr>wlist := wlist w @ [c], wcount := wcount w + 1\<rparr>) s in
      upd_thr c (\<lambda>t. t\<lparr>state := THREAD_BLOCKED, blocking_wait_queue := Some q,
                        wait_queue_block_ret := NO_ERROR\<rparr>) s)"

definition wait_queue_block :: "u32 \<Rightarrow> wqid \<Rightarrow> u32 \<Rightarrow> kst \<Rightarrow> (progress \<times> kst) outcome" where
  "wait_queue_block now q timeout S =
     (if state (thr (env S) (current (env S))) \<noteq> THREAD_RUNNING then Fault
      else if timeout = 0 then Ret (Done ERR_TIMED_OUT, S)
      else
        let c = current (env S); S = on_sched (enqueue_current q) S in
        case (if timeout \<noteq> INFINITE_TIME
              then timer_set_oneshot (timer_initialize S (Suc c)) now (Suc c) timeout
                     CB_WAIT_QUEUE_TIMEOUT c
              else Ret S) of
          Ret S \<Rightarrow>
            (case thread_resched now S of
               Ret S \<Rightarrow> Ret (Blocked, S) | Fault \<Rightarrow> Fault | Hang \<Rightarrow> Hang)
        | Fault \<Rightarrow> Fault | Hang \<Rightarrow> Hang)"

definition wait_queue_block_finish :: "u32 \<Rightarrow> u32 \<Rightarrow> kst \<Rightarrow> status \<times> kst" where
  "wait_queue_block_finish now timeout S =
     (let c = current (env S);
          S = (if timeout \<noteq> INFINITE_TIME then timer_cancel S now (Suc c) else S) in
      (wait_queue_block_ret (thr (env S) c), S))"

text \<open>The thread taken off a wait queue, with the result of its wait.\<close>

definition wake_thread :: "nat \<Rightarrow> status \<Rightarrow> sched \<Rightarrow> sched" where
  "wake_thread t err =
     upd_thr t (\<lambda>th. th\<lparr>state := THREAD_READY, wait_queue_block_ret := err, blocking_wait_queue := None\<rparr>)"

definition wait_queue_wake_one :: "u32 \<Rightarrow> wqid \<Rightarrow> bool \<Rightarrow> status \<Rightarrow> kst \<Rightarrow> (int \<times> kst) outcome" where
  "wait_queue_wake_one now q reschedule err S =
     (case wlist (wq (env S) q) of
        [] \<Rightarrow> Ret (0, S)
      | t # ts \<Rightarrow>
          let c = current (env S);
              S = on_sched (\<lambda>s.
                let s = upd_wq q (\<lambda>w. w\<lparr>wlist := ts, wcount := wcount w - 1\<rparr>) s;
                    s = debug_assert (state (thr s t) = THREAD_BLOCKED) s;
                    s = wake_thread t err s;
                    s = (if reschedule
                         then insert_in_run_queue_head c (set_state c THREAD_READY s) else s)
                in insert_in_run_queue_head t s) S in
          if reschedule then
            (case thread_resched now S of
               Ret S \<Rightarrow> Ret (1, S) | Fault \<Rightarrow> Fault | Hang \<Rightarrow> Hang)
          else Ret (1, S))"

fun wake_list :: "nat list \<Rightarrow> status \<Rightarrow> sched \<Rightarrow> sched" where
  "wake_list [] err s = s"
| "wake_list (t # ts) err s =
     wake_list ts err (insert_in_run_queue_head t
       (wake_thread t err (debug_assert (state (thr s t) = THREAD_BLOCKED) s)))"

definition wait_queue_wake_all :: "u32 \<Rightarrow> wqid \<Rightarrow> bool \<Rightarrow> status \<Rightarrow> kst \<Rightarrow> (int \<times> kst) outcome" where
  "wait_queue_wake_all now q reschedule err S =
     (let c = current (env S); ts = wlist (wq (env S) q);
          S = on_sched (\<lambda>s.
            let s = (if reschedule \<and> 0 < wcount (wq s q)
                     then insert_in_run_queue_head c (set_state c THREAD_READY s) else s);
                s = upd_wq q (\<lambda>w. w\<lparr>wlist := [], wcount := wcount w - int (length ts)\<rparr>) s;
                s = wake_list ts err s
            in debug_assert (wcount (wq s q) = 0) s) S in
      if ts \<noteq> [] \<and> reschedule then
        (case thread_resched now S of
           Ret S \<Rightarrow> Ret (int (length ts), S) | Fault \<Rightarrow> Fault | Hang \<Rightarrow> Hang)
      else Ret (int (length ts), S))"

definition wait_queue_destroy :: "u32 \<Rightarrow> wqid \<Rightarrow> bool \<Rightarrow> kst \<Rightarrow> kst outcome" where
  "wait_queue_destroy now q reschedule S =
     (case wait_queue_wake_all now q reschedule ERR_OBJECT_DESTROYED S of
        Ret (n, S) \<Rightarrow> Ret S | Fault \<Rightarrow> Fault | Hang \<Rightarrow> Hang)"

definition thread_unblock_from_wait_queue :: "nat \<Rightarrow> status \<Rightarrow> sched \<Rightarrow> status \<times> sched" where
  "thread_unblock_from_wait_queue t err s =
     (let s = debug_assert (magic (thr s t)) s in
      if state (thr s t) \<noteq> THREAD_BLOCKED then (ERR_NOT_BLOCKED, s)
      else
        let s = debug_assert (blocking_wait_queue (thr s t) \<noteq> None \<and> in_list t s) s;
            q = the (blocking_wait_queue (thr s t));
            s = upd_wq q (\<lambda>w. w\<lparr>wlist := remove1 t (wlist w), wcount := wcount w - 1\<rparr>) s
        in (NO_ERROR, insert_in_run_queue_head t (wake_thread t err s)))"

definition wait_queue_timeout_handler :: "nat \<Rightarrow> kst \<Rightarrow> bool \<times> kst" where
  "wait_queue_timeout_handler t S =
     (case thread_unblock_from_wait_queue t ERR_TIMED_OUT (debug_assert (magic (thr (env S) t)) (env S)) of
        (r, s) \<Rightarrow> (0 \<le> r, S\<lparr>env := s\<rparr>))"

text \<open>The callbacks by number.\<close>

definition kernel_callbacks :: "sched cb_fn" where
  "kernel_callbacks cb timer now a S =
     (if cb = CB_THREAD_TIMER_TICK then thread_timer_tick S
      else if cb = CB_THREAD_SLEEP_HANDLER then thread_sleep_handler a S
      else if cb = CB_WAIT_QUEUE_TIMEOUT then wait_queue_timeout_handler a S
      else (False, S))"

section \<open>Life of a thread\<close>

definition fresh_thread :: "nat \<Rightarrow> thread" where
  "fresh_thread p =
     \<lparr>magic = True, priority = p, state = THREAD_SUSPENDED, remaining_quantum = 0,
      fl_detached = False, fl_real_time = False, fl_idle = False, blocking_wait_queue = None,
      wait_queue_block_ret = NO_ERROR, retcode = 0\<rparr>"

text \<open>\<open>t\<close> is the address of the structure; \<open>mem\<close> tells whether the allocations succeed.\<close>

definition thread_create_etc :: "nat \<Rightarrow> bool \<Rightarrow> nat \<Rightarrow> sched \<Rightarrow> nat option \<times> sched" where
  "thread_create_etc t mem p s =
     (if \<not> mem then (None, s)
      else
        let s = upd_thr t (\<lambda>_. fresh_thread p) s; s = wait_queue_init (RetQ t) s in
        (Some t, s\<lparr>thread_list := t # thread_list s\<rparr>))"

definition thread_set_real_time :: "u32 \<Rightarrow> nat option \<Rightarrow> kst \<Rightarrow> (status \<times> kst) outcome" where
  "thread_set_real_time now t S =
     (case t of None \<Rightarrow> Ret (ERR_INVALID_ARGS, S)
      | Some t \<Rightarrow>
          if \<not> magic (thr (env S) t) then Fault
          else
          let S = (if t = current (env S) then timer_cancel S now preempt_timer else S) in
          Ret (NO_ERROR, on_sched (upd_thr t (\<lambda>th. th\<lparr>fl_real_time := True\<rparr>)) S))"

definition thread_resume :: "u32 \<Rightarrow> bool \<Rightarrow> nat \<Rightarrow> kst \<Rightarrow> (status \<times> kst) outcome" where
  "thread_resume now ints_disabled t S =
     (if \<not> magic (thr (env S) t) \<or> state (thr (env S) t) = THREAD_DEATH then Fault
      else if state (thr (env S) t) = THREAD_SUSPENDED then
        (let S = on_sched (\<lambda>s. insert_in_run_queue_head t (set_state t THREAD_READY s)) S in
         if \<not> ints_disabled then
           (case thread_yield now S of
              Ret S \<Rightarrow> Ret (NO_ERROR, S) | Fault \<Rightarrow> Fault | Hang \<Rightarrow> Hang)
         else Ret (NO_ERROR, S))
      else Ret (NO_ERROR, S))"

text \<open>The end of a join: the dead thread leaves the list and its structure is freed.\<close>

definition reap :: "nat \<Rightarrow> sched \<Rightarrow> (int \<times> sched) outcome" where
  "reap t s =
     (if \<not> (magic (thr s t) \<and> state (thr s t) = THREAD_DEATH \<and> blocking_wait_queue (thr s t) = None \<and> \<not> in_list t s)
      then Fault
      else Ret (retcode (thr s t),
        upd_thr t (\<lambda>th. th\<lparr>magic := False\<rparr>) (s\<lparr>thread_list := remove1 t (thread_list s)\<rparr>)))"

text \<open>The result is the progress, the return code when the join is complete, and the state.\<close>

definition thread_join :: "u32 \<Rightarrow> nat \<Rightarrow> u32 \<Rightarrow> kst \<Rightarrow> (progress \<times> int option \<times> kst) outcome" where
  "thread_join now t timeout S =
     (if \<not> magic (thr (env S) t) then Fault
      else if fl_detached (thr (env S) t) then Ret (Done ERR_THREAD_DETACHED, None, S)
      else if state (thr (env S) t) \<noteq> THREAD_DEATH then
        (case wait_queue_block now (RetQ t) timeout S of
           Ret (p, S) \<Rightarrow> Ret (p, None, S) | Fault \<Rightarrow> Fault | Hang \<Rightarrow> Hang)
      else
        (case reap t (env S) of
           Ret (rc, s) \<Rightarrow> Ret (Done NO_ERROR, Some rc, S\<lparr>env := s\<rparr>) | Fault \<Rightarrow> Fault | Hang \<Rightarrow> Hang))"

definition thread_join_finish :: "u32 \<Rightarrow> nat \<Rightarrow> u32 \<Rightarrow> kst \<Rightarrow> (status \<times> int option \<times> kst) outcome" where
  "thread_join_finish now t timeout S =
     (case wait_queue_block_finish now timeout S of (err, S) \<Rightarrow>
        if err < 0 then Ret (err, None, S)
        else
          (case reap t (env S) of
             Ret (rc, s) \<Rightarrow> Ret (NO_ERROR, Some rc, S\<lparr>env := s\<rparr>) | Fault \<Rightarrow> Fault | Hang \<Rightarrow> Hang))"

definition thread_detach :: "u32 \<Rightarrow> nat \<Rightarrow> kst \<Rightarrow> (status \<times> kst) outcome" where
  "thread_detach now t S =
     (if \<not> magic (thr (env S) t) then Fault
      else case wait_queue_wake_all now (RetQ t) False ERR_THREAD_DETACHED S of
        Ret (n, S) \<Rightarrow>
          if state (thr (env S) t) = THREAD_DEATH then
            (case thread_join now t 0
                    (on_sched (upd_thr t (\<lambda>th. th\<lparr>fl_detached := False\<rparr>)) S) of
               Ret (Done r, rc, S) \<Rightarrow> Ret (r, S)
             | Ret (Blocked, rc, S) \<Rightarrow> Ret (NO_ERROR, S)
             | Fault \<Rightarrow> Fault | Hang \<Rightarrow> Hang)
          else Ret (NO_ERROR, on_sched (upd_thr t (\<lambda>th. th\<lparr>fl_detached := True\<rparr>)) S)
      | Fault \<Rightarrow> Fault | Hang \<Rightarrow> Hang)"

definition thread_detach_and_resume :: "u32 \<Rightarrow> bool \<Rightarrow> nat \<Rightarrow> kst \<Rightarrow> (status \<times> kst) outcome" where
  "thread_detach_and_resume now ints_disabled t S =
     (case thread_detach now t S of
        Ret (err, S) \<Rightarrow> if err < 0 then Ret (err, S) else thread_resume now ints_disabled t S
      | Fault \<Rightarrow> Fault | Hang \<Rightarrow> Hang)"

definition thread_exit :: "u32 \<Rightarrow> int \<Rightarrow> kst \<Rightarrow> kst outcome" where
  "thread_exit now rc S =
     (let c = current (env S) in
      if \<not> running_ok c (env S) \<or> thread_is_idle (thr (env S) c) then Fault
      else
      let S = on_sched (upd_thr c (\<lambda>t. t\<lparr>state := THREAD_DEATH, retcode := rc\<rparr>)) S in
      if fl_detached (thr (env S) c) then
        thread_resched now (on_sched (\<lambda>s.
          upd_thr c (\<lambda>t. t\<lparr>magic := False\<rparr>) (s\<lparr>thread_list := remove1 c (thread_list s)\<rparr>)) S)
      else
        case wait_queue_wake_all now (RetQ c) False 0 S of
          Ret (n, S) \<Rightarrow> thread_resched now S
        | Fault \<Rightarrow> Fault | Hang \<Rightarrow> Hang)"

definition thread_set_priority :: "u32 \<Rightarrow> int \<Rightarrow> kst \<Rightarrow> kst outcome" where
  "thread_set_priority now p S =
     (let c = current (env S);
          p = (if p \<le> int IDLE_PRIORITY then int IDLE_PRIORITY + 1 else p);
          p = (if int HIGHEST_PRIORITY < p then int HIGHEST_PRIORITY else p) in
      thread_resched now (on_sched (\<lambda>s.
        insert_in_run_queue_head c
          (upd_thr c (\<lambda>t. t\<lparr>priority := nat p, state := THREAD_READY\<rparr>) s)) S))"

definition thread_init_early :: "sched \<Rightarrow> sched" where
  "thread_init_early s =
     (let s = s\<lparr>run_queue := (\<lambda>_. []), thread_list := []\<rparr>;
          s = upd_thr idle_thread (\<lambda>_. (fresh_thread HIGHEST_PRIORITY)
                \<lparr>state := THREAD_RUNNING, fl_detached := True\<rparr>) s;
          s = wait_queue_init (RetQ idle_thread) s in
      s\<lparr>thread_list := [idle_thread], current := idle_thread\<rparr>)"

definition thread_become_idle :: "u32 \<Rightarrow> kst \<Rightarrow> kst outcome" where
  "thread_become_idle now S =
     (let c = current (env S) in
      thread_yield now (on_sched (upd_thr c (\<lambda>t. t\<lparr>priority := IDLE_PRIORITY, fl_idle := True\<rparr>)) S))"

definition thread_init :: "kst \<Rightarrow> kst" where
  "thread_init S = timer_initialize S preempt_timer"

text \<open>
  The scheduling part of \<^verbatim>\<open>lk_main\<close> and \<^verbatim>\<open>kernel_init\<close>: from zeroed memory to the moment the
  boot thread has become the idle thread. \<open>t\<close> is the address of the thread
  \<^verbatim>\<open>bootstrap2\<close>; interrupts are still disabled when it is resumed.
\<close>

definition zero_thread :: thread where
  "zero_thread = (fresh_thread 0)\<lparr>magic := False\<rparr>"

definition zero_kernel :: kst where
  "zero_kernel = \<lparr>tmr = (\<lambda>_. \<lparr>scheduled_time = 0, periodic_time = 0, callback = None, arg = 0\<rparr>),
     timer_queue = [], oneshot = None,
     env = \<lparr>thr = (\<lambda>_. zero_thread), thread_list = [], run_queue = (\<lambda>_. []), run_queue_bitmap = 0,
            wq = (\<lambda>_. \<lparr>wlist = [], wcount = 0\<rparr>), current = idle_thread,
            panicked = False\<rparr>\<rparr>"

definition kernel_init :: "kst \<Rightarrow> kst" where
  "kernel_init S = timer_init (thread_init S)"

definition lk_main :: "u32 \<Rightarrow> nat \<Rightarrow> kst outcome" where
  "lk_main now t =
     (let S = kernel_init (on_sched thread_init_early zero_kernel) in
      case thread_create_etc t True DEFAULT_PRIORITY (env S) of (_, s) \<Rightarrow>
        case thread_detach now t (S\<lparr>env := s\<rparr>) of
          Ret (_, S) \<Rightarrow>
            (case thread_resume now True t S of
               Ret (_, S) \<Rightarrow> thread_become_idle now S
             | Fault \<Rightarrow> Fault | Hang \<Rightarrow> Hang)
        | Fault \<Rightarrow> Fault | Hang \<Rightarrow> Hang)"

end
