(* ===== verification/Sync.thy ===== *)
theory Sync
  imports Sched
begin

text \<open>
  The synchronisation objects built on wait queues: mutexes (\<^verbatim>\<open>kernel/mutex.c\<close>), events
  (\<^verbatim>\<open>kernel/event.c\<close>) and counting semaphores (\<^verbatim>\<open>kernel/semaphore.c\<close>), with the panics of
  the configured \<^verbatim>\<open>LK_DEBUGLEVEL\<close> 2. A call that may block is cut in two like the wait queue
  calls: the first half ends \<open>Blocked\<close> with the processor on another thread, the half named
  \<open>..._finish\<close> runs when the caller has the processor again. The counter of a semaphore is a C
  \<^verbatim>\<open>int\<close>: incrementing it beyond \<^verbatim>\<open>INT_MAX\<close> or decrementing it below \<^verbatim>\<open>INT_MIN\<close>
  is undefined and is a \<open>Fault\<close>. The counter of a mutex is at most the number of threads inside an
  acquire plus one, so that it is kept as an unbounded integer.
\<close>

definition INT_MAX :: int where "INT_MAX = 2147483647"
definition INT_MIN :: int where "INT_MIN = - 2147483648"

record mutex =
  mmagic :: bool
  holder :: "nat option"
  mcount :: int

record event =
  emagic :: bool
  signaled :: bool
  autounsignal :: bool

record semaphore =
  scount :: int

record sync =
  ks :: kst
  mtx :: "nat \<Rightarrow> mutex"
  evt :: "nat \<Rightarrow> event"
  sema :: "nat \<Rightarrow> semaphore"

definition cur :: "sync \<Rightarrow> nat" where
  "cur S = current (env (ks S))"

definition upd_mtx :: "nat \<Rightarrow> (mutex \<Rightarrow> mutex) \<Rightarrow> sync \<Rightarrow> sync" where
  "upd_mtx m f S = S\<lparr>mtx := (mtx S)(m := f (mtx S m))\<rparr>"

definition upd_evt :: "nat \<Rightarrow> (event \<Rightarrow> event) \<Rightarrow> sync \<Rightarrow> sync" where
  "upd_evt e f S = S\<lparr>evt := (evt S)(e := f (evt S e))\<rparr>"

definition upd_sem :: "nat \<Rightarrow> (semaphore \<Rightarrow> semaphore) \<Rightarrow> sync \<Rightarrow> sync" where
  "upd_sem q f S = S\<lparr>sema := (sema S)(q := f (sema S q))\<rparr>"

definition init_queue :: "wqid \<Rightarrow> sync \<Rightarrow> sync" where
  "init_queue q S = S\<lparr>ks := on_sched (wait_queue_init q) (ks S)\<rparr>"

section \<open>Mutexes\<close>

definition mutex_init :: "nat \<Rightarrow> sync \<Rightarrow> sync" where
  "mutex_init m S = init_queue (MutexQ m) (upd_mtx m (\<lambda>_. \<lparr>mmagic = True, holder = None, mcount = 0\<rparr>) S)"

definition mutex_destroy :: "u32 \<Rightarrow> nat \<Rightarrow> sync \<Rightarrow> sync outcome" where
  "mutex_destroy now m S =
     (if \<not> mmagic (mtx S m) \<or> holder (mtx S m) \<noteq> None \<and> holder (mtx S m) \<noteq> Some (cur S) then Fault
      else
        let S = upd_mtx m (\<lambda>x. x\<lparr>mmagic := False, mcount := 0\<rparr>) S in
        case wait_queue_destroy now (MutexQ m) True (ks S) of
          Ret K \<Rightarrow> Ret (S\<lparr>ks := K\<rparr>) | Fault \<Rightarrow> Fault | Hang \<Rightarrow> Hang)"

text \<open>What follows the wait: the caller owns the mutex, or backs out after a timeout.\<close>

definition mutex_after_block :: "nat \<Rightarrow> status \<Rightarrow> sync \<Rightarrow> status \<times> sync" where
  "mutex_after_block m ret S =
     (if ret < NO_ERROR then
        (ret, if ret = ERR_TIMED_OUT then upd_mtx m (\<lambda>x. x\<lparr>mcount := mcount x - 1\<rparr>) S else S)
      else (ret, upd_mtx m (\<lambda>x. x\<lparr>holder := Some (cur S)\<rparr>) S))"

definition mutex_acquire_timeout :: "u32 \<Rightarrow> nat \<Rightarrow> u32 \<Rightarrow> sync \<Rightarrow> (progress \<times> sync) outcome" where
  "mutex_acquire_timeout now m timeout S =
     (if \<not> mmagic (mtx S m) \<or> holder (mtx S m) = Some (cur S) then Fault
      else
        let S = upd_mtx m (\<lambda>x. x\<lparr>mcount := mcount x + 1\<rparr>) S in
        if 1 < mcount (mtx S m) then
          (case wait_queue_block now (MutexQ m) timeout (ks S) of
             Ret (Done ret, K) \<Rightarrow>
               (case mutex_after_block m ret (S\<lparr>ks := K\<rparr>) of (r, S) \<Rightarrow> Ret (Done r, S))
           | Ret (Blocked, K) \<Rightarrow> Ret (Blocked, S\<lparr>ks := K\<rparr>)
           | Fault \<Rightarrow> Fault | Hang \<Rightarrow> Hang)
        else Ret (Done NO_ERROR, upd_mtx m (\<lambda>x. x\<lparr>holder := Some (cur S)\<rparr>) S))"

definition mutex_acquire_finish :: "u32 \<Rightarrow> nat \<Rightarrow> u32 \<Rightarrow> sync \<Rightarrow> status \<times> sync" where
  "mutex_acquire_finish now m timeout S =
     (case wait_queue_block_finish now timeout (ks S) of (ret, K) \<Rightarrow> mutex_after_block m ret (S\<lparr>ks := K\<rparr>))"

definition mutex_release :: "u32 \<Rightarrow> nat \<Rightarrow> sync \<Rightarrow> (status \<times> sync) outcome" where
  "mutex_release now m S =
     (if \<not> mmagic (mtx S m) \<or> holder (mtx S m) \<noteq> Some (cur S) then Fault
      else
        let S = upd_mtx m (\<lambda>x. x\<lparr>holder := None, mcount := mcount x - 1\<rparr>) S in
        if 1 \<le> mcount (mtx S m) then
          (case wait_queue_wake_one now (MutexQ m) True NO_ERROR (ks S) of
             Ret (n, K) \<Rightarrow> Ret (NO_ERROR, S\<lparr>ks := K\<rparr>) | Fault \<Rightarrow> Fault | Hang \<Rightarrow> Hang)
        else Ret (NO_ERROR, S))"

definition is_mutex_held :: "nat \<Rightarrow> sync \<Rightarrow> bool" where
  "is_mutex_held m S \<longleftrightarrow> holder (mtx S m) = Some (cur S)"

section \<open>Events\<close>

definition event_init :: "nat \<Rightarrow> bool \<Rightarrow> bool \<Rightarrow> sync \<Rightarrow> sync" where
  "event_init e initial auto S =
     init_queue (EventQ e) (upd_evt e (\<lambda>_. \<lparr>emagic = True, signaled = initial, autounsignal = auto\<rparr>) S)"

definition event_destroy :: "u32 \<Rightarrow> nat \<Rightarrow> sync \<Rightarrow> sync outcome" where
  "event_destroy now e S =
     (if \<not> emagic (evt S e) then Fault
      else
      let S = upd_evt e (\<lambda>_. \<lparr>emagic = False, signaled = False, autounsignal = False\<rparr>) S in
      case wait_queue_destroy now (EventQ e) True (ks S) of
        Ret K \<Rightarrow> Ret (S\<lparr>ks := K\<rparr>) | Fault \<Rightarrow> Fault | Hang \<Rightarrow> Hang)"

definition event_wait_timeout :: "u32 \<Rightarrow> nat \<Rightarrow> u32 \<Rightarrow> sync \<Rightarrow> (progress \<times> sync) outcome" where
  "event_wait_timeout now e timeout S =
     (if \<not> emagic (evt S e) then Fault
      else if signaled (evt S e) then
        Ret (Done NO_ERROR,
             if autounsignal (evt S e) then upd_evt e (\<lambda>x. x\<lparr>signaled := False\<rparr>) S else S)
      else
        case wait_queue_block now (EventQ e) timeout (ks S) of
          Ret (p, K) \<Rightarrow> Ret (p, S\<lparr>ks := K\<rparr>) | Fault \<Rightarrow> Fault | Hang \<Rightarrow> Hang)"

definition event_wait_finish :: "u32 \<Rightarrow> u32 \<Rightarrow> sync \<Rightarrow> status \<times> sync" where
  "event_wait_finish now timeout S =
     (case wait_queue_block_finish now timeout (ks S) of (ret, K) \<Rightarrow> (ret, S\<lparr>ks := K\<rparr>))"

definition event_signal :: "u32 \<Rightarrow> nat \<Rightarrow> bool \<Rightarrow> sync \<Rightarrow> (status \<times> sync) outcome" where
  "event_signal now e reschedule S =
     (if \<not> emagic (evt S e) then Fault
      else if \<not> signaled (evt S e) then
        if autounsignal (evt S e) then
          (case wait_queue_wake_one now (EventQ e) reschedule NO_ERROR (ks S) of
             Ret (n, K) \<Rightarrow>
               (let S = S\<lparr>ks := K\<rparr> in
                Ret (NO_ERROR, if n \<le> 0 then upd_evt e (\<lambda>x. x\<lparr>signaled := True\<rparr>) S else S))
           | Fault \<Rightarrow> Fault | Hang \<Rightarrow> Hang)
        else
          (let S = upd_evt e (\<lambda>x. x\<lparr>signaled := True\<rparr>) S in
           case wait_queue_wake_all now (EventQ e) reschedule NO_ERROR (ks S) of
             Ret (n, K) \<Rightarrow> Ret (NO_ERROR, S\<lparr>ks := K\<rparr>) | Fault \<Rightarrow> Fault | Hang \<Rightarrow> Hang)
      else Ret (NO_ERROR, S))"

definition event_unsignal :: "nat \<Rightarrow> sync \<Rightarrow> (status \<times> sync) outcome" where
  "event_unsignal e S =
     (if \<not> emagic (evt S e) then Fault else Ret (NO_ERROR, upd_evt e (\<lambda>x. x\<lparr>signaled := False\<rparr>) S))"

section \<open>Semaphores\<close>

text \<open>The initial value is unsigned; stored into the counter, one above \<^verbatim>\<open>INT_MAX\<close> is negative.\<close>

definition sem_init :: "nat \<Rightarrow> u32 \<Rightarrow> sync \<Rightarrow> sync" where
  "sem_init q value' S = init_queue (SemQ q) (upd_sem q (\<lambda>_. \<lparr>scount = sint value'\<rparr>) S)"

definition sem_destroy :: "u32 \<Rightarrow> nat \<Rightarrow> sync \<Rightarrow> sync outcome" where
  "sem_destroy now q S =
     (let S = upd_sem q (\<lambda>x. x\<lparr>scount := 0\<rparr>) S in
      case wait_queue_destroy now (SemQ q) True (ks S) of
        Ret K \<Rightarrow> Ret (S\<lparr>ks := K\<rparr>) | Fault \<Rightarrow> Fault | Hang \<Rightarrow> Hang)"

definition sem_post :: "u32 \<Rightarrow> nat \<Rightarrow> bool \<Rightarrow> sync \<Rightarrow> (int \<times> sync) outcome" where
  "sem_post now q resched S =
     (if INT_MAX \<le> scount (sema S q) then Fault
      else
        let S = upd_sem q (\<lambda>x. x\<lparr>scount := scount x + 1\<rparr>) S in
        if scount (sema S q) \<le> 0 then
          (case wait_queue_wake_one now (SemQ q) resched NO_ERROR (ks S) of
             Ret (n, K) \<Rightarrow> Ret (n, S\<lparr>ks := K\<rparr>) | Fault \<Rightarrow> Fault | Hang \<Rightarrow> Hang)
        else Ret (0, S))"

definition sem_trywait :: "nat \<Rightarrow> sync \<Rightarrow> status \<times> sync" where
  "sem_trywait q S =
     (if scount (sema S q) \<le> 0 then (ERR_NOT_READY, S)
      else (NO_ERROR, upd_sem q (\<lambda>x. x\<lparr>scount := scount x - 1\<rparr>) S))"

definition sem_after_block :: "nat \<Rightarrow> status \<Rightarrow> sync \<Rightarrow> (status \<times> sync) outcome" where
  "sem_after_block q ret S =
     (if ret < NO_ERROR \<and> ret = ERR_TIMED_OUT then
        (if INT_MAX \<le> scount (sema S q) then Fault
         else Ret (ret, upd_sem q (\<lambda>x. x\<lparr>scount := scount x + 1\<rparr>) S))
      else Ret (ret, S))"

definition sem_timedwait :: "u32 \<Rightarrow> nat \<Rightarrow> u32 \<Rightarrow> sync \<Rightarrow> (progress \<times> sync) outcome" where
  "sem_timedwait now q timeout S =
     (if scount (sema S q) \<le> INT_MIN then Fault
      else
        let S = upd_sem q (\<lambda>x. x\<lparr>scount := scount x - 1\<rparr>) S in
        if scount (sema S q) < 0 then
          (case wait_queue_block now (SemQ q) timeout (ks S) of
             Ret (Done ret, K) \<Rightarrow>
               (case sem_after_block q ret (S\<lparr>ks := K\<rparr>) of
                  Ret (r, S) \<Rightarrow> Ret (Done r, S) | Fault \<Rightarrow> Fault | Hang \<Rightarrow> Hang)
           | Ret (Blocked, K) \<Rightarrow> Ret (Blocked, S\<lparr>ks := K\<rparr>)
           | Fault \<Rightarrow> Fault | Hang \<Rightarrow> Hang)
        else Ret (Done NO_ERROR, S))"

definition sem_timedwait_finish :: "u32 \<Rightarrow> nat \<Rightarrow> u32 \<Rightarrow> sync \<Rightarrow> (status \<times> sync) outcome" where
  "sem_timedwait_finish now q timeout S =
     (case wait_queue_block_finish now timeout (ks S) of (ret, K) \<Rightarrow> sem_after_block q ret (S\<lparr>ks := K\<rparr>))"

text \<open>\<^verbatim>\<open>sem_wait\<close> waits without limit and has no timeout to back out of.\<close>

definition sem_wait :: "u32 \<Rightarrow> nat \<Rightarrow> sync \<Rightarrow> (progress \<times> sync) outcome" where
  "sem_wait now q S =
     (if scount (sema S q) \<le> INT_MIN then Fault
      else
        let S = upd_sem q (\<lambda>x. x\<lparr>scount := scount x - 1\<rparr>) S in
        if scount (sema S q) < 0 then
          (case wait_queue_block now (SemQ q) INFINITE_TIME (ks S) of
             Ret (p, K) \<Rightarrow> Ret (p, S\<lparr>ks := K\<rparr>) | Fault \<Rightarrow> Fault | Hang \<Rightarrow> Hang)
        else Ret (Done NO_ERROR, S))"

definition sem_wait_finish :: "u32 \<Rightarrow> sync \<Rightarrow> status \<times> sync" where
  "sem_wait_finish now S =
     (case wait_queue_block_finish now INFINITE_TIME (ks S) of (ret, K) \<Rightarrow> (ret, S\<lparr>ks := K\<rparr>))"

end
