(* ===== verification/Sched_Correct.thy ===== *)
theory Sched_Correct
  imports Sched
begin

text \<open>
  The scheduler invariant and its preservation: run queues hold exactly the ready threads,
  at their priority, and the bitmap marks exactly the non-empty queues; wait queues hold
  exactly the threads blocked on them and count them; at most the given thread runs; every
  thread that runs or may run again has a live structure; no assertion has failed. The
  switch picks a thread of highest priority.
\<close>

text \<open>A thread that has been started and is not over.\<close>

definition alive :: "thread_state \<Rightarrow> bool" where
  "alive x \<longleftrightarrow> x \<noteq> THREAD_SUSPENDED \<and> x \<noteq> THREAD_DEATH"

lemma alive_simps [simp]:
  "alive THREAD_READY" "alive THREAD_RUNNING" "alive THREAD_BLOCKED" "alive THREAD_SLEEPING"
  "\<not> alive THREAD_SUSPENDED" "\<not> alive THREAD_DEATH"
  by (simp_all add: alive_def)

definition sched_inv :: "nat option \<Rightarrow> sched \<Rightarrow> bool" where
  "sched_inv r s \<longleftrightarrow>
     (\<forall>p. distinct (run_queue s p))
     \<and> (\<forall>p t. t \<in> set (run_queue s p) \<longleftrightarrow>
          t \<noteq> idle_thread \<and> state (thr s t) = THREAD_READY \<and> priority (thr s t) = p)
     \<and> (\<forall>p. bit (run_queue_bitmap s) p \<longleftrightarrow> run_queue s p \<noteq> [])
     \<and> (\<forall>t. priority (thr s t) < 32)
     \<and> (\<forall>q. distinct (wlist (wq s q)) \<and> wcount (wq s q) = int (length (wlist (wq s q))))
     \<and> (\<forall>q t. t \<in> set (wlist (wq s q)) \<longleftrightarrow>
          state (thr s t) = THREAD_BLOCKED \<and> blocking_wait_queue (thr s t) = Some q)
     \<and> (\<forall>t. state (thr s t) = THREAD_BLOCKED \<longrightarrow> blocking_wait_queue (thr s t) \<noteq> None)
     \<and> (\<forall>t. state (thr s t) = THREAD_RUNNING \<longleftrightarrow> r = Some t)
     \<and> (\<forall>t. fl_idle (thr s t) \<longleftrightarrow> t = idle_thread)
     \<and> state (thr s idle_thread) \<in> {THREAD_READY, THREAD_RUNNING}
     \<and> (\<forall>t. blocking_wait_queue (thr s t) \<noteq> None \<longrightarrow> state (thr s t) = THREAD_BLOCKED)
     \<and> (\<forall>t. alive (state (thr s t)) \<longrightarrow> magic (thr s t))
     \<and> \<not> panicked s"

lemma sched_invD:
  assumes "sched_inv r s"
  shows "\<And>p. distinct (run_queue s p)"
    and "\<And>p t. t \<in> set (run_queue s p) \<longleftrightarrow>
          t \<noteq> idle_thread \<and> state (thr s t) = THREAD_READY \<and> priority (thr s t) = p"
    and "\<And>p. bit (run_queue_bitmap s) p \<longleftrightarrow> run_queue s p \<noteq> []"
    and "\<And>t. priority (thr s t) < 32"
    and "\<And>q. distinct (wlist (wq s q))" and "\<And>q. wcount (wq s q) = int (length (wlist (wq s q)))"
    and "\<And>q t. t \<in> set (wlist (wq s q)) \<longleftrightarrow>
          state (thr s t) = THREAD_BLOCKED \<and> blocking_wait_queue (thr s t) = Some q"
    and "\<And>t. state (thr s t) = THREAD_BLOCKED \<Longrightarrow> blocking_wait_queue (thr s t) \<noteq> None"
    and "\<And>t. state (thr s t) = THREAD_RUNNING \<longleftrightarrow> r = Some t"
    and "\<And>t. fl_idle (thr s t) \<longleftrightarrow> t = idle_thread"
    and "state (thr s idle_thread) \<in> {THREAD_READY, THREAD_RUNNING}"
    and "\<And>t q. blocking_wait_queue (thr s t) = Some q \<Longrightarrow> state (thr s t) = THREAD_BLOCKED"
    and "\<And>t. alive (state (thr s t)) \<Longrightarrow> magic (thr s t)" and "\<not> panicked s"
  using assms unfolding sched_inv_def by blast+

lemma not_waiting:
  assumes "sched_inv r s" and "state (thr s t) \<noteq> THREAD_BLOCKED"
  shows "blocking_wait_queue (thr s t) = None"
  using sched_invD(12) [OF assms(1), of t] assms(2) by (cases "blocking_wait_queue (thr s t)") auto

section \<open>Making a thread ready\<close>

lemma bit_set_or: "bit (b OR push_bit n 1) m \<longleftrightarrow> bit b m \<or> m = n \<and> n < 32" for b :: u32
  by (auto simp: bit_or_iff bit_exp_iff)

definition insert_at :: "bool \<Rightarrow> nat \<Rightarrow> sched \<Rightarrow> sched" where
  "insert_at tail t s = (if tail then insert_in_run_queue_tail t s else insert_in_run_queue_head t s)"

lemma insert_at_fields [simp]:
  "thr (insert_at tail t s) = thr s" "wq (insert_at tail t s) = wq s"
  "current (insert_at tail t s) = current s" "thread_list (insert_at tail t s) = thread_list s"
  by (simp_all add: insert_at_def insert_in_run_queue_head_def insert_in_run_queue_tail_def Let_def)

lemma insert_at_queue:
  "set (run_queue (insert_at tail t s) p)
     = set (run_queue s p) \<union> (if p = priority (thr s t) then {t} else {})"
  "distinct (run_queue (insert_at tail t s) p) \<longleftrightarrow>
     distinct (run_queue s p) \<and> (p = priority (thr s t) \<longrightarrow> t \<notin> set (run_queue s p))"
  "run_queue (insert_at tail t s) p = [] \<longleftrightarrow> run_queue s p = [] \<and> p \<noteq> priority (thr s t)"
  "bit (run_queue_bitmap (insert_at tail t s)) p \<longleftrightarrow>
     bit (run_queue_bitmap s) p \<or> p = priority (thr s t) \<and> priority (thr s t) < 32"
  using bit_set_or [of "run_queue_bitmap s" "priority (thr s t)" p]
  by (auto simp: insert_at_def insert_in_run_queue_head_def insert_in_run_queue_tail_def Let_def
      simp del: push_bit_of_1)

lemma insert_at_panicked [simp]: "panicked (insert_at tail t s) \<longleftrightarrow> panicked s \<or> \<not> insertable t s"
  by (simp add: insert_at_def insert_in_run_queue_head_def insert_in_run_queue_tail_def Let_def)

text \<open>
  A thread in no queue is made ready by any update \<open>f\<close> of its structure that sets its
  state; this is the common step of resume, yield, preempt, sleep and priority changes.
\<close>

lemma make_ready:
  assumes inv: "sched_inv r s" and t: "t \<noteq> idle_thread"
    and free: "state (thr s t) \<notin> {THREAD_READY, THREAD_BLOCKED}"
    and f: "state (f (thr s t)) = THREAD_READY" "priority (f (thr s t)) < 32"
      "fl_idle (f (thr s t)) = fl_idle (thr s t)" "magic (f (thr s t))"
      "blocking_wait_queue (f (thr s t)) = blocking_wait_queue (thr s t)"
  shows "sched_inv (if r = Some t then None else r) (insert_at tail t (upd_thr t f s))"
proof -
  note i = sched_invD [OF inv]
  have nin: "\<And>p. t \<notin> set (run_queue s p)" using free i(2) by auto
  have nw: "\<And>q. t \<notin> set (wlist (wq s q))" using free i(7) by auto
  have b: "blocking_wait_queue (f (thr s t)) = None" using not_waiting [OF inv, of t] free f(5) by auto
  have "insertable t (upd_thr t f s)"
    using nin b f(1,4) by (simp add: insertable_def in_list_def upd_thr_def list_ex_iff)
  then show ?thesis
    unfolding sched_inv_def insert_at_queue insert_at_panicked
    using i(1-7,10,11) i(8,9,12-14) nin nw t f b
    by (auto simp: upd_thr_def)
qed

section \<open>Taking the processor away\<close>

text \<open>The running thread stops running without becoming ready or blocked.\<close>

lemma make_other:
  assumes inv: "sched_inv (Some t) s" and t: "t \<noteq> idle_thread"
    and f: "state (f (thr s t)) \<notin> {THREAD_READY, THREAD_BLOCKED, THREAD_RUNNING}"
      "priority (f (thr s t)) < 32" "fl_idle (f (thr s t)) = fl_idle (thr s t)"
      "magic (f (thr s t)) = magic (thr s t)"
      "blocking_wait_queue (f (thr s t)) = blocking_wait_queue (thr s t)"
  shows "sched_inv None (upd_thr t f s)"
proof -
  note i = sched_invD [OF inv]
  have run: "state (thr s t) = THREAD_RUNNING" using i(9) by simp
  then have nin: "\<And>p. t \<notin> set (run_queue s p)" and nw: "\<And>q. t \<notin> set (wlist (wq s q))"
    and "magic (thr s t)" "blocking_wait_queue (thr s t) = None"
    using i(2,7) i(13) [of t] not_waiting [OF inv, of t] by auto
  then show ?thesis
    unfolding sched_inv_def
    using i(1-7,10,11) i(8,9,12-14) t f
    by (auto simp: upd_thr_def)
qed

text \<open>The idle thread is ready without being queued.\<close>

lemma idle_ready:
  assumes inv: "sched_inv (Some idle_thread) s"
    and f: "state (f (thr s idle_thread)) = THREAD_READY" "priority (f (thr s idle_thread)) < 32"
      "fl_idle (f (thr s idle_thread))" "magic (f (thr s idle_thread)) = magic (thr s idle_thread)"
      "blocking_wait_queue (f (thr s idle_thread)) = blocking_wait_queue (thr s idle_thread)"
  shows "sched_inv None (upd_thr idle_thread f s)"
proof -
  note i = sched_invD [OF inv]
  have "state (thr s idle_thread) = THREAD_RUNNING" using i(9) by simp
  then have "\<And>q. idle_thread \<notin> set (wlist (wq s q))"
    and "magic (thr s idle_thread)" "blocking_wait_queue (thr s idle_thread) = None"
    using i(7) i(13) [of idle_thread] not_waiting [OF inv, of idle_thread] by auto
  then show ?thesis
    unfolding sched_inv_def
    using i(1-7,10,11) i(8,9,12-14) f
    by (auto simp: upd_thr_def)
qed

lemma block_current:
  assumes inv: "sched_inv (Some (current s)) s" and c: "current s \<noteq> idle_thread"
  shows "sched_inv None (enqueue_current q s)"
proof -
  note i = sched_invD [OF inv]
  let ?c = "current s"
  have "state (thr s ?c) = THREAD_RUNNING" using i(9) by simp
  then have nin: "\<And>p. ?c \<notin> set (run_queue s p)" and nw: "\<And>q. ?c \<notin> set (wlist (wq s q))"
    and "magic (thr s ?c)"
    using i(2,7) i(13) [of ?c] by auto
  then show ?thesis
    unfolding sched_inv_def enqueue_current_def
    using i(1-7,10,11) i(8,9,12-14) c
    by (auto simp: upd_thr_def upd_wq_def Let_def)
qed

section \<open>Waking\<close>

definition unqueue :: "wqid \<Rightarrow> nat \<Rightarrow> sched \<Rightarrow> sched" where
  "unqueue q t = upd_wq q (\<lambda>w. w\<lparr>wlist := remove1 t (wlist w), wcount := wcount w - 1\<rparr>)"

definition wake :: "wqid \<Rightarrow> status \<Rightarrow> nat \<Rightarrow> sched \<Rightarrow> sched" where
  "wake q err t s = insert_in_run_queue_head t
     (wake_thread t err (debug_assert (state (thr s t) = THREAD_BLOCKED) (unqueue q t s)))"

lemma wake_inv:
  assumes inv: "sched_inv r s" and t: "t \<in> set (wlist (wq s q))"
  shows "sched_inv r (wake q err t s)"
proof -
  note i = sched_invD [OF inv]
  have b: "state (thr s t) = THREAD_BLOCKED" "blocking_wait_queue (thr s t) = Some q"
    using t i(7) by auto
  then have nin: "\<And>p. t \<notin> set (run_queue s p)" and ti: "t \<noteq> idle_thread"
    using i(2,11) by auto
  have r: "r \<noteq> Some t" using b(1) i(9) [of t] by auto
  let ?s = "wake_thread t err (unqueue q t s)"
  have st: "thr ?s = (thr s)(t := (thr s t)\<lparr>state := THREAD_READY, wait_queue_block_ret := err,
      blocking_wait_queue := None\<rparr>)" "run_queue ?s = run_queue s" "run_queue_bitmap ?s = run_queue_bitmap s"
    "panicked ?s = panicked s"
    by (simp_all add: wake_thread_def unqueue_def upd_thr_def upd_wq_def)
  have len: "int (length (wlist (wq s q)) - Suc 0) = int (length (wlist (wq s q))) - 1"
    using length_pos_if_in_set [OF t] by linarith
  have w: "\<And>q'. set (wlist (wq ?s q')) = set (wlist (wq s q')) - (if q' = q then {t} else {})"
    "\<And>q'. distinct (wlist (wq ?s q'))"
    "\<And>q'. wcount (wq ?s q') = int (length (wlist (wq ?s q')))"
    using i(5,6) t len
    by (auto simp: wake_thread_def unqueue_def upd_thr_def upd_wq_def length_remove1)
  have "magic (thr s t)" using i(13) [of t] b by simp
  moreover from this have "insertable t ?s"
    using nin by (simp add: insertable_def in_list_def st list_ex_iff)
  ultimately have "sched_inv r (insert_at False t ?s)"
    unfolding sched_inv_def insert_at_queue insert_at_fields insert_at_panicked
    using i(1-4,7-14) w b nin ti r st by auto
  then show ?thesis using b by (simp add: wake_def insert_at_def)
qed

text \<open>Waking everybody is waking the waiters one after the other.\<close>

lemma insertable_wq [simp]: "insertable t (upd_wq q f s) = insertable t s"
  by (simp add: insertable_def in_list_def upd_wq_def)

lemma upd_wq_assert: "debug_assert x (upd_wq q f s) = upd_wq q f (debug_assert x s)"
  by (simp add: debug_assert_def upd_wq_def)

lemma upd_wq_insert: "insert_in_run_queue_head t (upd_wq q f s) = upd_wq q f (insert_in_run_queue_head t s)"
  by (simp add: insert_in_run_queue_head_def upd_wq_assert Let_def) (simp add: upd_wq_def)

lemma thr_upd_wq [simp]: "thr (upd_wq q f s) = thr s"
  by (simp add: upd_wq_def)

lemma upd_wq_wake: "wake_thread t err (upd_wq q f s) = upd_wq q f (wake_thread t err s)"
  by (simp add: wake_thread_def upd_thr_def upd_wq_def)

lemma upd_wq_upd_wq: "upd_wq q f (upd_wq q g s) = upd_wq q (f \<circ> g) s"
  by (simp add: upd_wq_def)

lemma wq_wake_insert [simp]:
  "wq (insert_in_run_queue_head t s) = wq s" "wq (wake_thread t err s) = wq s"
  by (simp_all add: insert_in_run_queue_head_def wake_thread_def upd_thr_def Let_def)

lemma wake_list_upd_wq: "wake_list ts err (upd_wq q f s) = upd_wq q f (wake_list ts err s)"
  by (induction ts arbitrary: s) (simp_all add: upd_wq_wake upd_wq_insert upd_wq_assert)

lemma wake_list_fold:
  assumes "wlist (wq s q) = ts"
  shows "wake_list ts err (upd_wq q (\<lambda>w. w\<lparr>wlist := [], wcount := wcount w - int (length ts)\<rparr>) s)
    = fold (wake q err) ts s"
  using assms
proof (induction ts arbitrary: s)
  case Nil
  then have "(wq s q)\<lparr>wlist := []\<rparr> = wq s q" by (cases "wq s q") simp
  then show ?case by (simp add: upd_wq_def)
next
  case (Cons t ts)
  let ?w = "wake q err t s"
  have w: "wlist (wq ?w q) = ts"
    using Cons.prems by (simp add: wake_def unqueue_def upd_wq_def)
  have "upd_wq q (\<lambda>w. w\<lparr>wlist := [], wcount := wcount w - int (length (t # ts))\<rparr>) s
      = upd_wq q (\<lambda>w. w\<lparr>wlist := [], wcount := wcount w - int (length ts)\<rparr>) (unqueue q t s)"
    by (simp add: unqueue_def upd_wq_upd_wq comp_def algebra_simps)
  then show ?case using Cons.IH [OF w]
    by (simp add: wake_def upd_wq_wake upd_wq_insert upd_wq_assert unqueue_def)
qed

lemma wake_others: "t \<noteq> u \<Longrightarrow> u \<in> set (wlist (wq (wake q err t s) q')) \<longleftrightarrow> u \<in> set (wlist (wq s q'))"
  by (auto simp: wake_def unqueue_def upd_wq_def in_set_remove1)

lemma wake_rest:
  assumes "t \<notin> set ts" and "set ts \<subseteq> set (wlist (wq s q))"
  shows "set ts \<subseteq> set (wlist (wq (wake q err t s) q))"
proof
  fix u assume u: "u \<in> set ts"
  then have "t \<noteq> u" using assms(1) by auto
  then show "u \<in> set (wlist (wq (wake q err t s) q))"
    using wake_others [of t u q err s q] assms(2) u by auto
qed

lemma fold_wake_inv:
  assumes "sched_inv r s" and "set ts \<subseteq> set (wlist (wq s q))" and "distinct ts"
  shows "sched_inv r (fold (wake q err) ts s)"
  using assms
proof (induction ts arbitrary: s)
  case (Cons t ts)
  then show ?case using wake_rest [of t ts s q err] wake_inv [of r s t q err] by simp
qed simp

lemma current_wake [simp]:
  "current (wake q err t s) = current s" "current (upd_thr t f s) = current s"
  "current (upd_wq q g s) = current s" "current (insert_in_run_queue_head t s) = current s"
  "current (insert_in_run_queue_tail t s) = current s" "current (enqueue_current q s) = current s"
  by (simp_all add: wake_def wake_thread_def unqueue_def upd_thr_def upd_wq_def enqueue_current_def
      insert_in_run_queue_head_def insert_in_run_queue_tail_def Let_def)

lemma current_fold_wake [simp]: "current (fold (wake q err) ts s) = current s"
  by (induction ts arbitrary: s) auto

section \<open>Choosing the next thread\<close>

lemma get_top_none:
  assumes "sched_inv r s" and "run_queue_bitmap s = 0"
  shows "get_top_thread s = (idle_thread, s)"
    and "t \<noteq> idle_thread \<Longrightarrow> state (thr s t) \<noteq> THREAD_READY"
  using assms sched_invD(2,3) [OF assms(1)]
  by (auto simp: get_top_thread_def top_of.simps)

lemma get_top_some:
  assumes "sched_inv r s" and "run_queue_bitmap s \<noteq> 0"
  obtains t ts p where "run_queue s p = t # ts" and "p = top_queue (run_queue_bitmap s)"
    and "get_top_thread s = (t, s\<lparr>run_queue := (run_queue s)(p := ts),
          run_queue_bitmap := (if ts = [] then run_queue_bitmap s AND NOT (push_bit p 1)
                               else run_queue_bitmap s)\<rparr>)"
    and "\<And>u. u \<noteq> idle_thread \<Longrightarrow> state (thr s u) = THREAD_READY \<Longrightarrow> priority (thr s u) \<le> p"
proof -
  let ?p = "top_queue (run_queue_bitmap s)"
  have ne: "run_queue s ?p \<noteq> []"
    using top_queue_bit(1) [OF assms(2)] sched_invD(3) [OF assms(1)] by simp
  then obtain t ts where q: "run_queue s ?p = t # ts" by (cases "run_queue s ?p") auto
  have "priority (thr s u) \<le> ?p" if "u \<noteq> idle_thread" "state (thr s u) = THREAD_READY" for u
  proof -
    have "u \<in> set (run_queue s (priority (thr s u)))" using that sched_invD(2) [OF assms(1)] by simp
    then have "bit (run_queue_bitmap s) (priority (thr s u))"
      using sched_invD(3) [OF assms(1)] by force
    then show ?thesis using top_queue_bit(2) [OF assms(2)] by (meson not_le_imp_less)
  qed
  moreover have "get_top_thread s = (t, s\<lparr>run_queue := (run_queue s)(?p := ts),
          run_queue_bitmap := (if ts = [] then run_queue_bitmap s AND NOT (push_bit ?p 1)
                               else run_queue_bitmap s)\<rparr>)"
    using q assms(2) by (simp add: get_top_thread_def top_of.simps Let_def)
  ultimately show ?thesis using that q by blast
qed

definition runnable :: "sched \<Rightarrow> nat \<Rightarrow> bool" where
  "runnable s t \<longleftrightarrow> t \<noteq> idle_thread \<and> state (thr s t) = THREAD_READY"

definition best_choice :: "sched \<Rightarrow> nat \<Rightarrow> bool" where
  "best_choice s n \<longleftrightarrow> (if n = idle_thread then \<forall>t. \<not> runnable s t
     else runnable s n \<and> (\<forall>t. runnable s t \<longrightarrow> priority (thr s t) \<le> priority (thr s n)))"

lemma run_thread_inv:
  assumes inv: "sched_inv None s" and n: "state (thr s n) = THREAD_READY"
    and q: "n \<noteq> idle_thread \<Longrightarrow> p = priority (thr s n) \<and> run_queue s p = n # ts
        \<and> rq = (run_queue s)(p := ts)
        \<and> bm = (if ts = [] then run_queue_bitmap s AND NOT (push_bit p 1) else run_queue_bitmap s)"
    and qi: "n = idle_thread \<Longrightarrow> rq = run_queue s \<and> bm = run_queue_bitmap s"
    and f: "state (f (thr s n)) = THREAD_RUNNING" "priority (f (thr s n)) = priority (thr s n)"
      "fl_idle (f (thr s n)) = fl_idle (thr s n)" "magic (f (thr s n)) = magic (thr s n)"
      "blocking_wait_queue (f (thr s n)) = blocking_wait_queue (thr s n)"
  shows "sched_inv (Some n) (upd_thr n f (s\<lparr>run_queue := rq, run_queue_bitmap := bm\<rparr>))"
proof (cases "n = idle_thread")
  case True
  note i = sched_invD [OF inv]
  have "magic (thr s n)" "blocking_wait_queue (thr s n) = None" using i(13) [of n] not_waiting [OF inv, of n] n by auto
  then show ?thesis using i(1-7,8,10,11) i(9,12-14) qi [OF True] True f n unfolding sched_inv_def
    by (auto simp: upd_thr_def)
next
  case False
  note i = sched_invD [OF inv]
  note Q = q [OF False]
  have "run_queue s p = n # ts" using Q by blast
  then have "distinct (n # ts)" using i(1) [of p] by (simp only:)
  then have d: "n \<notin> set ts" "distinct ts" by simp_all
  have mem: "t \<in> set (rq p') \<longleftrightarrow> t \<in> set (run_queue s p') \<and> t \<noteq> n" for t p'
  proof (cases "p' = p")
    case True
    then show ?thesis using Q d by auto
  next
    case neq: False
    have "n \<notin> set (run_queue s p')" using i(2) Q neq by auto
    then show ?thesis using Q neq by auto
  qed
  have dis: "\<And>p'. distinct (rq p')" using i(1) Q d by auto
  have bits: "bit bm p' \<longleftrightarrow> rq p' \<noteq> []" for p'
    using Q i(3) [of p'] bit_clear [of "run_queue_bitmap s" p p'] by auto
  have "magic (thr s n)" "blocking_wait_queue (thr s n) = None" using i(13) [of n] not_waiting [OF inv, of n] n by auto
  then show ?thesis
    unfolding sched_inv_def
    using i(2,4,5,6,7,8,10,11) i(9,12-14) dis mem bits False f n by (auto simp: upd_thr_def)
qed

text \<open>What a switch leaves alone in the structure of the chosen thread.\<close>

definition same_thread :: "thread \<Rightarrow> thread \<Rightarrow> bool" where
  "same_thread a b \<longleftrightarrow> priority a = priority b \<and> magic a = magic b \<and> fl_detached a = fl_detached b
     \<and> fl_real_time a = fl_real_time b \<and> fl_idle a = fl_idle b
     \<and> blocking_wait_queue a = blocking_wait_queue b
     \<and> wait_queue_block_ret a = wait_queue_block_ret b \<and> retcode a = retcode b"

lemma same_thread_refl [simp]: "same_thread a a"
  by (simp add: same_thread_def)

lemma pick_next_ok:
  assumes inv: "sched_inv None s"
  shows "\<exists>n s'. pick_next s = (n, s') \<and> sched_inv (Some n) s' \<and> current s' = n \<and> best_choice s n
    \<and> (\<forall>t. t \<noteq> n \<longrightarrow> thr s' t = thr s t) \<and> same_thread (thr s' n) (thr s n)
    \<and> wq s' = wq s"
proof -
  let ?g = "\<lambda>t. t\<lparr>state := THREAD_RUNNING\<rparr>"
  let ?h = "\<lambda>t. if remaining_quantum t \<le> 0 then t\<lparr>remaining_quantum := 5\<rparr> else t"
  have fin: "?thesis" if g: "get_top_thread s = (n, s\<lparr>run_queue := rq, run_queue_bitmap := bm\<rparr>)"
    and b: "best_choice s n"
    and v: "\<And>f. state (f (thr s n)) = THREAD_RUNNING \<Longrightarrow> priority (f (thr s n)) = priority (thr s n)
      \<Longrightarrow> fl_idle (f (thr s n)) = fl_idle (thr s n) \<Longrightarrow> magic (f (thr s n)) = magic (thr s n)
      \<Longrightarrow> blocking_wait_queue (f (thr s n)) = blocking_wait_queue (thr s n)
      \<Longrightarrow> sched_inv (Some n) (upd_thr n f (s\<lparr>run_queue := rq, run_queue_bitmap := bm\<rparr>))" for n rq bm
  proof (cases "n = current s")
    case True
    then show ?thesis using g b v [of ?g] by (auto simp: pick_next_def upd_thr_def same_thread_def Let_def)
  next
    case False
    have "sched_inv r (x\<lparr>current := c\<rparr>) = sched_inv r x" for r x c by (simp add: sched_inv_def)
    moreover have "sched_inv (Some n) (upd_thr n (\<lambda>t. ?h (?g t)) (s\<lparr>run_queue := rq, run_queue_bitmap := bm\<rparr>))"
      by (rule v) simp_all
    moreover have "upd_thr n ?h (upd_thr n ?g x) = upd_thr n (\<lambda>t. ?h (?g t)) x" for x
      by (simp add: upd_thr_def)
    ultimately have "sched_inv (Some n) ((upd_thr n ?h (upd_thr n ?g
        (s\<lparr>run_queue := rq, run_queue_bitmap := bm\<rparr>)))\<lparr>current := n\<rparr>)"
      by (simp only:)
    then show ?thesis using False g b by (auto simp: pick_next_def upd_thr_def same_thread_def Let_def)
  qed
  show ?thesis
  proof (cases "run_queue_bitmap s = 0")
    case True
    have idle: "state (thr s idle_thread) = THREAD_READY"
      using sched_invD(9,11) [OF inv] by auto
    have "best_choice s idle_thread"
      using get_top_none(2) [OF inv True] by (auto simp: best_choice_def runnable_def)
    moreover have "get_top_thread s = (idle_thread, s\<lparr>run_queue := run_queue s, run_queue_bitmap := run_queue_bitmap s\<rparr>)"
      using get_top_none(1) [OF inv True] by simp
    ultimately show ?thesis
      by (intro fin) (assumption, assumption, rule run_thread_inv [OF inv idle], simp_all)
  next
    case False
    obtain t ts p where q: "run_queue s p = t # ts"
      and g: "get_top_thread s = (t, s\<lparr>run_queue := (run_queue s)(p := ts),
          run_queue_bitmap := (if ts = [] then run_queue_bitmap s AND NOT (push_bit p 1)
                               else run_queue_bitmap s)\<rparr>)"
      and best: "\<And>u. u \<noteq> idle_thread \<Longrightarrow> state (thr s u) = THREAD_READY \<Longrightarrow> priority (thr s u) \<le> p"
      by (rule get_top_some [OF inv False]) blast
    have t: "t \<noteq> idle_thread" "state (thr s t) = THREAD_READY" "priority (thr s t) = p"
      using sched_invD(2) [OF inv, of t p] q by auto
    have "best_choice s t" using t best by (auto simp: best_choice_def runnable_def)
    with g show ?thesis
      by (rule fin) (rule run_thread_inv [OF inv t(2), where p=p and ts=ts], use t q in simp_all)
  qed
qed

section \<open>Timers and the switch\<close>

text \<open>
  What the scheduler relies on about timers. The preemption timer is queued exactly while
  the thread on the processor is neither real-time nor idle, so that setting it never finds
  it queued; a thread's own timer is the one of its sleep or of its wait, and every sleeping
  thread has one; no timer is left of a thread that is over.
\<close>

definition timers_ok :: "kst \<Rightarrow> bool" where
  "timers_ok S \<longleftrightarrow>
     distinct (timer_queue S)
     \<and> (preempt_timer \<in> set (timer_queue S) \<longleftrightarrow>
          \<not> thread_is_real_time_or_idle (thr (env S) (current (env S))))
     \<and> (preempt_timer \<in> set (timer_queue S) \<longrightarrow>
          callback (tmr S preempt_timer) = Some CB_THREAD_TIMER_TICK
          \<and> periodic_time (tmr S preempt_timer) \<noteq> 0)
     \<and> (\<forall>t. Suc t \<in> set (timer_queue S) \<longrightarrow>
          alive (state (thr (env S) t)) \<and> periodic_time (tmr S (Suc t)) = 0 \<and> arg (tmr S (Suc t)) = t
          \<and> (callback (tmr S (Suc t)) = Some CB_WAIT_QUEUE_TIMEOUT
             \<or> callback (tmr S (Suc t)) = Some CB_THREAD_SLEEP_HANDLER
                \<and> state (thr (env S) t) = THREAD_SLEEPING))
     \<and> (\<forall>t. state (thr (env S) t) = THREAD_SLEEPING \<longrightarrow>
          Suc t \<in> set (timer_queue S) \<and> callback (tmr S (Suc t)) = Some CB_THREAD_SLEEP_HANDLER)"

definition kernel_inv :: "kst \<Rightarrow> bool" where
  "kernel_inv S \<longleftrightarrow> sched_inv (Some (current (env S))) (env S) \<and> timers_ok S"

text \<open>Changes of the scheduler state that the timers do not see.\<close>

definition timer_neutral :: "sched \<Rightarrow> sched \<Rightarrow> bool" where
  "timer_neutral s s' \<longleftrightarrow> current s' = current s
     \<and> thread_is_real_time_or_idle (thr s' (current s)) = thread_is_real_time_or_idle (thr s (current s))
     \<and> (\<forall>t. (state (thr s' t) = THREAD_SLEEPING \<longleftrightarrow> state (thr s t) = THREAD_SLEEPING)
          \<and> (alive (state (thr s t)) \<longrightarrow> alive (state (thr s' t))))"

lemma timers_ok_neutral:
  "timers_ok S \<Longrightarrow> timer_neutral (env S) s' \<Longrightarrow> timers_ok (S\<lparr>env := s'\<rparr>)"
  unfolding timers_ok_def timer_neutral_def by simp

lemma timer_neutral_refl: "timer_neutral s s"
  and timer_neutral_trans: "timer_neutral a b \<Longrightarrow> timer_neutral b c \<Longrightarrow> timer_neutral a c"
  by (auto simp: timer_neutral_def)

lemma neutral_insert: "timer_neutral s (insert_at tail t s)"
  by (simp add: timer_neutral_def)

lemma neutral_upd:
  assumes "state (f (thr s t)) = THREAD_SLEEPING \<longleftrightarrow> state (thr s t) = THREAD_SLEEPING"
    and "alive (state (thr s t)) \<longrightarrow> alive (state (f (thr s t)))"
    and "fl_real_time (f (thr s t)) = fl_real_time (thr s t)" "fl_idle (f (thr s t)) = fl_idle (thr s t)"
  shows "timer_neutral s (upd_thr t f s)"
  using assms by (auto simp: timer_neutral_def upd_thr_def thread_is_real_time_or_idle_def)

lemma timers_ok_cancel_preempt:
  assumes "timers_ok S" and "thread_is_real_time_or_idle (thr s' (current s'))"
    and "\<And>t. state (thr s' t) = THREAD_SLEEPING \<longleftrightarrow> state (thr (env S) t) = THREAD_SLEEPING"
    and "\<And>t. alive (state (thr (env S) t)) \<Longrightarrow> alive (state (thr s' t))"
  shows "timers_ok (timer_cancel (S\<lparr>env := s'\<rparr>) now preempt_timer)"
proof -
  let ?S = "S\<lparr>env := s'\<rparr>"
  have "\<exists>x. timer_cancel ?S now preempt_timer = ?S\<lparr>timer_queue := remove1 preempt_timer (timer_queue S),
      tmr := (tmr S)(preempt_timer := (tmr S preempt_timer)\<lparr>periodic_time := 0, callback := None, arg := 0\<rparr>),
      oneshot := x\<rparr>"
    by (auto simp: timer_cancel_def Let_def split: option.splits intro: exI [of _ "oneshot S"])
  then obtain x where x: "timer_cancel ?S now preempt_timer = ?S\<lparr>timer_queue := remove1 preempt_timer (timer_queue S),
      tmr := (tmr S)(preempt_timer := (tmr S preempt_timer)\<lparr>periodic_time := 0, callback := None, arg := 0\<rparr>),
      oneshot := x\<rparr>" ..
  show ?thesis using assms unfolding x timers_ok_def by (simp add: preempt_timer_def)
qed

lemma timer_set_ret:
  assumes "t \<notin> set (timer_queue S)"
  shows "\<exists>q x. timer_set S now t delay period cb a = Ret (S\<lparr>timer_queue := q,
      tmr := (tmr S)(t := \<lparr>scheduled_time = now + delay, periodic_time = period, callback = Some cb, arg = a\<rparr>),
      oneshot := x\<rparr>) \<and> set q = insert t (set (timer_queue S)) \<and> (distinct q \<longleftrightarrow> distinct (timer_queue S))"
proof -
  let ?tm = "(tmr S)(t := \<lparr>scheduled_time = now + delay, periodic_time = period, callback = Some cb, arg = a\<rparr>)"
  let ?q = "insert_before ?tm t (timer_queue S)"
  let ?x = "if hd ?q = t then Some (now + delay) else oneshot S"
  have "timer_set S now t delay period cb a = Ret (S\<lparr>timer_queue := ?q, tmr := ?tm, oneshot := ?x\<rparr>)"
    using assms by (cases S) (simp add: timer_set_def insert_timer_in_queue_def Let_def)
  then show ?thesis using assms by (intro exI [of _ ?q] exI [of _ ?x]) simp
qed

lemma timers_ok_set_preempt:
  assumes "timers_ok S" and "thread_is_real_time_or_idle (thr (env S) (current (env S)))"
    and "\<not> thread_is_real_time_or_idle (thr s' (current s'))"
    and "\<And>t. state (thr s' t) = THREAD_SLEEPING \<longleftrightarrow> state (thr (env S) t) = THREAD_SLEEPING"
    and "\<And>t. alive (state (thr (env S) t)) \<Longrightarrow> alive (state (thr s' t))"
  shows "\<exists>S'. timer_set_periodic (S\<lparr>env := s'\<rparr>) now preempt_timer 10 CB_THREAD_TIMER_TICK 0 = Ret S'
    \<and> env S' = s' \<and> timers_ok S'"
proof -
  let ?S = "S\<lparr>env := s'\<rparr>"
  have "preempt_timer \<notin> set (timer_queue ?S)" using assms(1,2) by (simp add: timers_ok_def)
  from timer_set_ret [OF this, of now 10 10 CB_THREAD_TIMER_TICK 0] obtain q x where
    r: "timer_set ?S now preempt_timer 10 10 CB_THREAD_TIMER_TICK 0 = Ret (?S\<lparr>timer_queue := q,
      tmr := (tmr S)(preempt_timer := \<lparr>scheduled_time = now + 10, periodic_time = 10,
        callback = Some CB_THREAD_TIMER_TICK, arg = 0\<rparr>), oneshot := x\<rparr>)"
    and q: "set q = insert preempt_timer (set (timer_queue S))" "distinct q \<longleftrightarrow> distinct (timer_queue S)"
    by auto
  show ?thesis using r q assms unfolding timers_ok_def timer_set_periodic_def
    by (auto simp: preempt_timer_def)
qed

text \<open>The thread on the processor has the highest priority; the idle thread runs only alone.\<close>

definition highest_running :: "sched \<Rightarrow> bool" where
  "highest_running s \<longleftrightarrow> (\<forall>t. runnable s t \<longrightarrow>
     current s \<noteq> idle_thread \<and> priority (thr s t) \<le> priority (thr s (current s)))"

lemma best_choice_highest:
  assumes "best_choice s (current s')" and "state (thr s' (current s')) = THREAD_RUNNING"
    and "\<forall>t. t \<noteq> current s' \<longrightarrow> thr s' t = thr s t" and "same_thread (thr s' (current s')) (thr s (current s'))"
  shows "highest_running s'"
  unfolding highest_running_def
proof (intro allI impI)
  fix t assume t: "runnable s' t"
  then have "t \<noteq> current s'" using assms(2) by (auto simp: runnable_def)
  then have "runnable s t" "thr s' t = thr s t" using t assms(3) by (auto simp: runnable_def)
  then show "current s' \<noteq> idle_thread \<and> priority (thr s' t) \<le> priority (thr s' (current s'))"
    using assms(1,4) by (auto simp: best_choice_def same_thread_def split: if_splits)
qed

lemma thread_resched_ok:
  assumes inv: "sched_inv None (env S)" and tok: "timers_ok S"
  shows "\<exists>S'. thread_resched now S = Ret S' \<and> kernel_inv S' \<and> best_choice (env S) (current (env S'))
    \<and> wq (env S') = wq (env S) \<and> (\<forall>t. t \<noteq> current (env S') \<longrightarrow> thr (env S') t = thr (env S) t)
    \<and> (\<forall>t. same_thread (thr (env S') t) (thr (env S) t)) \<and> highest_running (env S')"
proof -
  let ?s = "env S" and ?old = "current (env S)"
  obtain n s' where p: "pick_next ?s = (n, s')" "sched_inv (Some n) s'" "current s' = n" "best_choice ?s n"
    "\<forall>t. t \<noteq> n \<longrightarrow> thr s' t = thr ?s t" "same_thread (thr s' n) (thr ?s n)" "wq s' = wq ?s"
    using pick_next_ok [OF inv] by blast
  have "state (thr ?s n) = THREAD_READY"
    using p(4) sched_invD(9,11) [OF inv] by (auto simp: best_choice_def runnable_def split: if_splits)
  then have sl: "state (thr s' t) = THREAD_SLEEPING \<longleftrightarrow> state (thr ?s t) = THREAD_SLEEPING" for t
    using p(5) sched_invD(9) [OF p(2), of n] by (cases "t = n") auto
  have al: "alive (state (thr s' t))" if "alive (state (thr ?s t))" for t
    using p(5) sched_invD(9) [OF p(2), of n] that by (cases "t = n") auto
  have nr: "state (thr ?s ?old) \<noteq> THREAD_RUNNING" using sched_invD(9) [OF inv] by simp
  have fl: "thread_is_real_time_or_idle (thr s' t) = thread_is_real_time_or_idle (thr ?s t)" for t
    using p(5,6) by (cases "t = n") (auto simp: thread_is_real_time_or_idle_def same_thread_def)
  have same: "kernel_inv (S\<lparr>env := s'\<rparr>)"
    if "thread_is_real_time_or_idle (thr s' n) = thread_is_real_time_or_idle (thr s' ?old)"
    using tok p(2,3) that fl sl al by (simp add: kernel_inv_def timers_ok_def)
  have env_cancel: "env (timer_cancel X now t) = env X" for X :: kst and t
    by (simp add: timer_cancel_def Let_def split: option.splits)
  have off: "kernel_inv (timer_cancel (S\<lparr>env := s'\<rparr>) now preempt_timer)"
    if "thread_is_real_time_or_idle (thr s' n)"
    using timers_ok_cancel_preempt [OF tok _ sl al] p(2,3) that by (simp add: kernel_inv_def env_cancel)
  have on: "\<exists>S'. timer_set_periodic (S\<lparr>env := s'\<rparr>) now preempt_timer 10 CB_THREAD_TIMER_TICK 0 = Ret S'
      \<and> env S' = s' \<and> kernel_inv S'"
    if "thread_is_real_time_or_idle (thr s' ?old)" "\<not> thread_is_real_time_or_idle (thr s' n)"
    using timers_ok_set_preempt [OF tok _ _ sl al] p(2,3) that fl by (simp add: kernel_inv_def) blast
  let ?post = "\<lambda>S'. kernel_inv S' \<and> env S' = s'"
  have "\<exists>S'. thread_resched now S = Ret S' \<and> ?post S'"
    using p(1) same off on nr
    by (cases "n = ?old"; cases "thread_is_real_time_or_idle (thr s' n)";
        cases "thread_is_real_time_or_idle (thr s' ?old)")
       (auto simp: thread_resched_def Let_def env_cancel)
  moreover have "same_thread (thr s' t) (thr ?s t)" for t
    using p(5,6) by (cases "t = n") auto
  moreover have "highest_running s'"
    using best_choice_highest [of ?s s'] p sched_invD(9) [OF p(2), of n] by simp
  ultimately show ?thesis using p by auto
qed

end
