(* ===== verification/Sched_Safe.thy ===== *)
theory Sched_Safe
  imports Sched_Correct
begin

text \<open>
  Every scheduler operation keeps the kernel invariant, and none of them panics: yield,
  preempt, resume, sleep, blocking on a wait queue and waking from one, priority and
  real-time changes, exit, and the timer interrupt with the scheduler's callbacks. The step
  relation \<open>kstep\<close> collects the operations with the conditions their callers meet.
\<close>

lemma kernel_invD:
  assumes "kernel_inv S"
  shows "sched_inv (Some (current (env S))) (env S)" and "timers_ok S"
  using assms by (auto simp: kernel_inv_def)

lemma running_state: "kernel_inv S \<Longrightarrow> state (thr (env S) (current (env S))) = THREAD_RUNNING"
  using sched_invD(9) [OF kernel_invD(1)] by blast

lemma alive_magic: "kernel_inv S \<Longrightarrow> alive (state (thr (env S) t)) \<Longrightarrow> magic (thr (env S) t)"
  using sched_invD(13) [OF kernel_invD(1)] by blast

lemma current_ok: "kernel_inv S \<Longrightarrow> running_ok (current (env S)) (env S)"
  using running_state [of S] alive_magic [of S "current (env S)"] by (simp add: running_ok_def)

lemma switch:
  assumes "kernel_inv S" and "sched_inv None s'" and "timer_neutral (env S) s'"
  shows "\<exists>S'. thread_resched now (S\<lparr>env := s'\<rparr>) = Ret S' \<and> kernel_inv S'
    \<and> best_choice s' (current (env S')) \<and> wq (env S') = wq s'
    \<and> (\<forall>t. t \<noteq> current (env S') \<longrightarrow> thr (env S') t = thr s' t)
    \<and> (\<forall>t. same_thread (thr (env S') t) (thr s' t)) \<and> highest_running (env S')"
  using thread_resched_ok [of "S\<lparr>env := s'\<rparr>" now] assms(2)
    timers_ok_neutral [OF kernel_invD(2) [OF assms(1)] assms(3)] by simp

section \<open>The running thread gives up the processor\<close>

definition requeue_current :: "bool \<Rightarrow> (thread \<Rightarrow> thread) \<Rightarrow> sched \<Rightarrow> sched" where
  "requeue_current tail f s =
     (let c = current s; s = upd_thr c f s in if c = idle_thread then s else insert_at tail c s)"

lemma requeue_current_ok:
  assumes "kernel_inv S"
    and f: "state (f (thr (env S) (current (env S)))) = THREAD_READY"
      "priority (f (thr (env S) (current (env S)))) < 32"
      "fl_idle (f (thr (env S) (current (env S)))) = fl_idle (thr (env S) (current (env S)))"
      "fl_real_time (f (thr (env S) (current (env S)))) = fl_real_time (thr (env S) (current (env S)))"
      "magic (f (thr (env S) (current (env S)))) = magic (thr (env S) (current (env S)))"
      "blocking_wait_queue (f (thr (env S) (current (env S)))) = blocking_wait_queue (thr (env S) (current (env S)))"
  shows "sched_inv None (requeue_current tail f (env S)) \<and> timer_neutral (env S) (requeue_current tail f (env S))"
proof -
  let ?s = "env S" and ?c = "current (env S)"
  note inv = kernel_invD(1) [OF assms(1)] and run = running_state [OF assms(1)]
  have mg: "magic (f (thr ?s ?c))" using current_ok [OF assms(1)] f(5) by (simp add: running_ok_def)
  have neu: "timer_neutral ?s (upd_thr ?c f ?s)" using f run by (intro neutral_upd) simp_all
  show ?thesis
  proof (cases "?c = idle_thread")
    case True
    then have "sched_inv None (upd_thr idle_thread f ?s)"
      using inv f sched_invD(10) [OF inv, of idle_thread] by (intro idle_ready) simp_all
    then show ?thesis using neu True by (simp add: requeue_current_def Let_def)
  next
    case False
    have "sched_inv None (insert_at tail ?c (upd_thr ?c f ?s))"
      using make_ready [where f=f, OF inv False _ f(1-3) mg f(6)] run by simp
    then show ?thesis
      using timer_neutral_trans [OF neu neutral_insert] False by (simp add: requeue_current_def Let_def)
  qed
qed

lemma idle_flag: "kernel_inv S \<Longrightarrow> fl_idle (thr (env S) t) \<longleftrightarrow> t = idle_thread"
  using sched_invD(10) [OF kernel_invD(1)] by blast

lemma thread_yield_eq:
  "kernel_inv S \<Longrightarrow> thread_yield now S = thread_resched now
     (S\<lparr>env := requeue_current True (\<lambda>t. t\<lparr>state := THREAD_READY, remaining_quantum := 0\<rparr>) (env S)\<rparr>)"
  by (simp add: thread_yield_def requeue_current_def insert_at_def on_sched_def thread_is_idle_def
      upd_thr_def Let_def idle_flag current_ok)

lemma thread_preempt_eq:
  "kernel_inv S \<Longrightarrow> thread_preempt now S = thread_resched now
     (S\<lparr>env := requeue_current (remaining_quantum (thr (env S) (current (env S))) \<le> 0)
        (\<lambda>t. t\<lparr>state := THREAD_READY\<rparr>) (env S)\<rparr>)"
  by (simp add: thread_preempt_def requeue_current_def insert_at_def on_sched_def thread_is_idle_def
      set_state_def upd_thr_def Let_def idle_flag current_ok)

definition clamp_priority :: "int \<Rightarrow> nat" where
  "clamp_priority p = nat (min 31 (max 1 p))"

lemma thread_set_priority_eq:
  "kernel_inv S \<Longrightarrow> current (env S) \<noteq> idle_thread \<Longrightarrow> thread_set_priority now p S = thread_resched now
     (S\<lparr>env := requeue_current False (\<lambda>t. t\<lparr>priority := clamp_priority p, state := THREAD_READY\<rparr>) (env S)\<rparr>)"
  by (simp add: thread_set_priority_def requeue_current_def insert_at_def on_sched_def clamp_priority_def
      IDLE_PRIORITY_def HIGHEST_PRIORITY_def NUM_PRIORITIES_def Let_def)

lemma priority_lt: "kernel_inv S \<Longrightarrow> priority (thr (env S) t) < 32"
  using sched_invD(4) [OF kernel_invD(1)] by blast

lemma requeue_switch:
  assumes "kernel_inv S"
    and "\<And>t. state (f t) = THREAD_READY" and "\<And>t. priority t < 32 \<Longrightarrow> priority (f t) < 32"
    and "\<And>t. fl_idle (f t) = fl_idle t" and "\<And>t. fl_real_time (f t) = fl_real_time t"
    and "\<And>t. magic (f t) = magic t" and "\<And>t. blocking_wait_queue (f t) = blocking_wait_queue t"
  shows "\<exists>S'. thread_resched now (S\<lparr>env := requeue_current tail f (env S)\<rparr>) = Ret S' \<and> kernel_inv S'
    \<and> best_choice (requeue_current tail f (env S)) (current (env S')) \<and> highest_running (env S')"
  using requeue_current_ok [where f=f, OF assms(1) assms(2) assms(3) [OF priority_lt [OF assms(1)]] assms(4-7)]
    switch [OF assms(1)] by blast

lemma thread_yield_inv: "kernel_inv S \<Longrightarrow> \<exists>S'. thread_yield now S = Ret S' \<and> kernel_inv S' \<and> highest_running (env S')"
  using requeue_switch [of S "\<lambda>t. t\<lparr>state := THREAD_READY, remaining_quantum := 0\<rparr>" now True]
  by (auto simp: thread_yield_eq)

lemma thread_preempt_inv: "kernel_inv S \<Longrightarrow> \<exists>S'. thread_preempt now S = Ret S' \<and> kernel_inv S' \<and> highest_running (env S')"
  using requeue_switch [of S "\<lambda>t. t\<lparr>state := THREAD_READY\<rparr>" now]
  by (simp add: thread_preempt_eq) blast

lemma clamp_lt: "clamp_priority p < 32"
  unfolding clamp_priority_def by linarith

lemma thread_set_priority_inv:
  "kernel_inv S \<Longrightarrow> current (env S) \<noteq> idle_thread \<Longrightarrow>
   \<exists>S'. thread_set_priority now p S = Ret S' \<and> kernel_inv S' \<and> highest_running (env S')"
  using requeue_switch [of S "\<lambda>t. t\<lparr>priority := clamp_priority p, state := THREAD_READY\<rparr>" now False]
  by (auto simp: thread_set_priority_eq clamp_lt)

section \<open>Sleeping and blocking\<close>

lemma thread_sleep_inv:
  assumes inv: "kernel_inv S" and c: "current (env S) \<noteq> idle_thread"
    and q: "Suc (current (env S)) \<notin> set (timer_queue S)"
  shows "\<exists>S'. thread_sleep now delay S = Ret S' \<and> kernel_inv S' \<and> highest_running (env S')"
proof -
  let ?c = "current (env S)" and ?S = "timer_initialize S (Suc (current (env S)))"
  let ?d = "if delay = 0 then 1 else delay" and ?s = "set_state (current (env S)) THREAD_SLEEPING (env S)"
  have S: "timer_queue ?S = timer_queue S" "env ?S = env S" "\<And>t. t \<noteq> Suc ?c \<Longrightarrow> tmr ?S t = tmr S t"
    by (simp_all add: timer_initialize_def)
  obtain qu x where set: "timer_set_oneshot ?S now (Suc ?c) delay CB_THREAD_SLEEP_HANDLER ?c
      = Ret (?S\<lparr>timer_queue := qu, tmr := (tmr ?S)(Suc ?c := \<lparr>scheduled_time = now + ?d, periodic_time = 0,
          callback = Some CB_THREAD_SLEEP_HANDLER, arg = ?c\<rparr>), oneshot := x\<rparr>)" (is "_ = Ret ?S1")
    and qu: "set qu = insert (Suc ?c) (set (timer_queue S))" "distinct qu \<longleftrightarrow> distinct (timer_queue S)"
    using timer_set_ret [of "Suc ?c" ?S now ?d 0 CB_THREAD_SLEEP_HANDLER ?c] q S
    by (auto simp: timer_set_oneshot_def)
  have "sched_inv None ?s"
    unfolding set_state_def
    using make_other [OF kernel_invD(1) [OF inv] c] priority_lt [OF inv] by simp
  moreover have "timers_ok (?S1\<lparr>env := ?s\<rparr>)"
    using kernel_invD(2) [OF inv] qu unfolding timers_ok_def
    by (auto simp: set_state_def upd_thr_def preempt_timer_def timer_initialize_def
        thread_is_real_time_or_idle_def)
  ultimately have "\<exists>S'. thread_resched now (?S1\<lparr>env := ?s\<rparr>) = Ret S' \<and> kernel_inv S' \<and> highest_running (env S')"
    using thread_resched_ok [of "?S1\<lparr>env := ?s\<rparr>" now] by auto
  then show ?thesis using set S current_ok [OF inv] c
    by (simp add: thread_sleep_def on_sched_def Let_def thread_is_idle_def idle_flag [OF inv])
qed

lemma enqueue_neutral:
  "state (thr s (current s)) = THREAD_RUNNING \<Longrightarrow> timer_neutral s (enqueue_current q s)"
  by (auto simp: timer_neutral_def enqueue_current_def upd_thr_def upd_wq_def Let_def
      thread_is_real_time_or_idle_def)

lemma timers_ok_set_wait:
  assumes "timers_ok S" and "Suc c \<notin> set (timer_queue S)" and "state (thr (env S) c) = THREAD_BLOCKED"
  shows "\<exists>S'. timer_set_oneshot (timer_initialize S (Suc c)) now (Suc c) d CB_WAIT_QUEUE_TIMEOUT c = Ret S'
    \<and> env S' = env S \<and> timers_ok S'"
proof -
  let ?S = "timer_initialize S (Suc c)" and ?d = "if d = 0 then 1 else d"
  have S: "timer_queue ?S = timer_queue S" "env ?S = env S" "\<And>t. t \<noteq> Suc c \<Longrightarrow> tmr ?S t = tmr S t"
    by (simp_all add: timer_initialize_def)
  obtain qu x where "timer_set_oneshot ?S now (Suc c) d CB_WAIT_QUEUE_TIMEOUT c
      = Ret (?S\<lparr>timer_queue := qu, tmr := (tmr ?S)(Suc c := \<lparr>scheduled_time = now + ?d, periodic_time = 0,
          callback = Some CB_WAIT_QUEUE_TIMEOUT, arg = c\<rparr>), oneshot := x\<rparr>)"
    and "set qu = insert (Suc c) (set (timer_queue S))" "distinct qu \<longleftrightarrow> distinct (timer_queue S)"
    using timer_set_ret [of "Suc c" ?S now ?d 0 CB_WAIT_QUEUE_TIMEOUT c] assms(2) S
    by (auto simp: timer_set_oneshot_def)
  then show ?thesis using assms S unfolding timers_ok_def
    by (auto simp: preempt_timer_def)
qed

lemma wait_queue_block_inv:
  assumes inv: "kernel_inv S" and c: "current (env S) \<noteq> idle_thread"
    and q: "Suc (current (env S)) \<notin> set (timer_queue S)" and t: "timeout \<noteq> 0"
  shows "\<exists>S'. wait_queue_block now q timeout S = Ret (Blocked, S') \<and> kernel_inv S' \<and> highest_running (env S')
    \<and> best_choice (enqueue_current q (env S)) (current (env S'))
    \<and> wq (env S') = wq (enqueue_current q (env S))
    \<and> (\<forall>t. t \<noteq> current (env S') \<longrightarrow> thr (env S') t = thr (enqueue_current q (env S)) t)"
proof -
  let ?c = "current (env S)" and ?s = "enqueue_current q (env S)"
  let ?S = "S\<lparr>env := ?s\<rparr>"
  note run = running_state [OF inv]
  have tok: "timers_ok ?S"
    by (rule timers_ok_neutral [OF kernel_invD(2) [OF inv] enqueue_neutral [OF run]])
  have ns: "state (thr (env ?S) ?c) = THREAD_BLOCKED"
    by (simp add: enqueue_current_def upd_thr_def Let_def)
  obtain S1 where S1: "(if timeout \<noteq> INFINITE_TIME
        then timer_set_oneshot (timer_initialize ?S (Suc ?c)) now (Suc ?c) timeout CB_WAIT_QUEUE_TIMEOUT ?c
        else Ret ?S) = Ret S1" "env S1 = ?s" "timers_ok S1"
    using timers_ok_set_wait [OF tok _ ns, of now timeout] tok q
    by (cases "timeout = INFINITE_TIME") auto
  have "sched_inv None (env S1)" using block_current [OF kernel_invD(1) [OF inv] c] S1(2) by simp
  from thread_resched_ok [OF this S1(3), of now] S1(2) obtain S' where
    "thread_resched now S1 = Ret S'" "kernel_inv S'" "highest_running (env S')" "best_choice ?s (current (env S'))"
    "wq (env S') = wq ?s" "\<forall>t. t \<noteq> current (env S') \<longrightarrow> thr (env S') t = thr ?s t" by auto
  then show ?thesis using S1(1) t run by (simp add: wait_queue_block_def on_sched_def Let_def)
qed

lemma env_timer_cancel [simp]: "env (timer_cancel X now t) = env X"
  by (simp add: timer_cancel_def Let_def split: option.splits)

lemma wait_queue_block_finish_inv:
  assumes inv: "kernel_inv S" and "wait_queue_block_finish now timeout S = (r, S')"
  shows "kernel_inv S' \<and> env S' = env S \<and> r = wait_queue_block_ret (thr (env S) (current (env S)))
    \<and> (timeout \<noteq> INFINITE_TIME \<longrightarrow> Suc (current (env S)) \<notin> set (timer_queue S'))"
proof -
  let ?t = "Suc (current (env S))"
  have q: "set (timer_queue (timer_cancel S now ?t)) = set (timer_queue S) - {?t}"
    "distinct (timer_queue (timer_cancel S now ?t))" "\<And>e. e \<noteq> ?t \<Longrightarrow> tmr (timer_cancel S now ?t) e = tmr S e"
    using kernel_invD(2) [OF inv] by (auto simp: timers_ok_def timer_cancel_def Let_def split: option.splits)
  have ns: "t \<noteq> current (env S)" if "state (thr (env S) t) = THREAD_SLEEPING" for t
    using that running_state [OF inv] by auto
  have "timers_ok (timer_cancel S now ?t)"
    using kernel_invD(2) [OF inv] q unfolding timers_ok_def
    by (auto simp: preempt_timer_def ns)
  then show ?thesis using assms q
    by (auto simp: wait_queue_block_finish_def kernel_inv_def Let_def split: if_splits)
qed

section \<open>Waking\<close>

lemma wake_neutral: "state (thr s t) = THREAD_BLOCKED \<Longrightarrow> timer_neutral s (wake q err t s)"
  by (auto simp: timer_neutral_def wake_def unqueue_def wake_thread_def upd_thr_def upd_wq_def
      insert_in_run_queue_head_def Let_def thread_is_real_time_or_idle_def)

lemma blocked_waiter: "sched_inv r s \<Longrightarrow> t \<in> set (wlist (wq s q)) \<Longrightarrow> state (thr s t) = THREAD_BLOCKED"
  using sched_invD(7) [of r s] by blast

lemma fold_wake_neutral:
  assumes "sched_inv r s" and "set ts \<subseteq> set (wlist (wq s q))" and "distinct ts"
  shows "timer_neutral s (fold (wake q err) ts s)"
  using assms
proof (induction ts arbitrary: s)
  case (Cons t ts)
  have t: "t \<in> set (wlist (wq s q))" using Cons.prems by simp
  have "set ts \<subseteq> set (wlist (wq (wake q err t s) q))"
    using Cons.prems by (intro wake_rest) auto
  then have "timer_neutral (wake q err t s) (fold (wake q err) ts (wake q err t s))"
    using Cons wake_inv [OF Cons.prems(1) t] by simp
  then show ?case
    using timer_neutral_trans [OF wake_neutral [OF blocked_waiter [OF Cons.prems(1) t]]] by simp
qed (simp add: timer_neutral_refl)

text \<open>With rescheduling, the running thread is put back first, then the sleepers before it.\<close>

definition maybe_requeue :: "bool \<Rightarrow> sched \<Rightarrow> sched" where
  "maybe_requeue b s =
     (if b then insert_in_run_queue_head (current s) (set_state (current s) THREAD_READY s) else s)"

lemma maybe_requeue_ok:
  assumes inv: "kernel_inv S" and c: "b \<Longrightarrow> current (env S) \<noteq> idle_thread"
  shows "sched_inv (if b then None else Some (current (env S))) (maybe_requeue b (env S))
    \<and> timer_neutral (env S) (maybe_requeue b (env S)) \<and> wq (maybe_requeue b (env S)) = wq (env S)"
proof (cases b)
  case True
  have "maybe_requeue True (env S) = requeue_current False (\<lambda>t. t\<lparr>state := THREAD_READY\<rparr>) (env S)"
    using c True by (simp add: maybe_requeue_def requeue_current_def insert_at_def set_state_def Let_def)
  moreover have "wq (maybe_requeue True (env S)) = wq (env S)"
    by (simp add: maybe_requeue_def insert_in_run_queue_head_def set_state_def upd_thr_def Let_def)
  ultimately show ?thesis
    using requeue_current_ok [of S "\<lambda>t. t\<lparr>state := THREAD_READY\<rparr>" False] inv priority_lt [OF inv] True
    by simp
next
  case False
  then show ?thesis using kernel_invD(1) [OF inv] by (simp add: maybe_requeue_def timer_neutral_refl)
qed

lemma insertable_assert [simp]: "insertable c (debug_assert x s) = insertable c s"
  by (simp add: insertable_def in_list_def)

lemma assert_commute:
  "debug_assert x (insert_in_run_queue_head c s) = insert_in_run_queue_head c (debug_assert x s)"
  "debug_assert x (wake_thread t err s) = wake_thread t err (debug_assert x s)"
  "debug_assert x (set_state c y s) = set_state c y (debug_assert x s)"
  by (simp_all add: insert_in_run_queue_head_def Let_def)
     (cases s; auto simp: debug_assert_def wake_thread_def upd_thr_def set_state_def)+

lemma insertable_other:
  "t \<noteq> c \<Longrightarrow> insertable c (wake_thread t err s) = insertable c s"
  by (simp add: insertable_def in_list_def wake_thread_def upd_thr_def)

lemma insert_wake_commute:
  "t \<noteq> c \<Longrightarrow> wake_thread t err (insert_in_run_queue_head c s) = insert_in_run_queue_head c (wake_thread t err s)"
  "t \<noteq> c \<Longrightarrow> wake_thread t err (set_state c x s) = set_state c x (wake_thread t err s)"
  "upd_wq q f (insert_in_run_queue_head c s) = insert_in_run_queue_head c (upd_wq q f s)"
  "upd_wq q f (set_state c x s) = set_state c x (upd_wq q f s)"
  by (simp_all add: insert_in_run_queue_head_def Let_def insertable_other)
     (simp_all add: wake_thread_def upd_thr_def set_state_def upd_wq_def fun_upd_twist debug_assert_def)

lemma thr_set_state: "thr (set_state c x s) t = (if t = c then (thr s c)\<lparr>state := x\<rparr> else thr s t)"
  by (simp add: set_state_def upd_thr_def)

lemma thr_insert [simp]: "thr (insert_in_run_queue_head t s) = thr s"
  by (simp add: insert_in_run_queue_head_def Let_def)

lemma wake_one_state:
  assumes inv: "kernel_inv S" and w: "wlist (wq (env S) q) = t # ts"
  shows "(let s = upd_wq q (\<lambda>w. w\<lparr>wlist := ts, wcount := wcount w - 1\<rparr>) (env S);
              s = debug_assert (state (thr s t) = THREAD_BLOCKED) s;
              s = wake_thread t err s;
              s = (if b then insert_in_run_queue_head (current (env S))
                              (set_state (current (env S)) THREAD_READY s) else s)
          in insert_in_run_queue_head t s) = wake q err t (maybe_requeue b (env S))"
proof -
  have "t \<noteq> current (env S)"
    using blocked_waiter [OF kernel_invD(1) [OF inv], of t q] running_state [OF inv] w by auto
  moreover have "upd_wq q (\<lambda>w. w\<lparr>wlist := ts, wcount := wcount w - 1\<rparr>) (env S) = unqueue q t (env S)"
    using w by (simp add: upd_wq_def unqueue_def)
  ultimately show ?thesis
    by (simp add: maybe_requeue_def wake_def unqueue_def insert_wake_commute assert_commute Let_def thr_set_state)
qed

lemma wait_queue_wake_one_inv:
  assumes inv: "kernel_inv S" and c: "b \<Longrightarrow> current (env S) \<noteq> idle_thread"
    and w: "wlist (wq (env S) q) = t # ts"
  shows "\<exists>S'. wait_queue_wake_one now q b err S = Ret (1, S') \<and> kernel_inv S'
    \<and> wlist (wq (env S') q) = ts \<and> wait_queue_block_ret (thr (env S') t) = err
    \<and> state (thr (env S') t) \<in> {THREAD_READY, THREAD_RUNNING} \<and> (b \<longrightarrow> highest_running (env S'))"
proof -
  let ?r = "maybe_requeue b (env S)" and ?s = "wake q err t (maybe_requeue b (env S))"
  note m = maybe_requeue_ok [OF inv, of b, OF c]
  have t: "t \<in> set (wlist (wq ?r q))" using m w by simp
  have s: "sched_inv (if b then None else Some (current (env S))) ?s"
    using wake_inv m t by blast
  have n: "timer_neutral (env S) ?s"
    using m timer_neutral_trans wake_neutral blocked_waiter [OF _ t] by blast
  have f: "wlist (wq ?s q) = ts" "wait_queue_block_ret (thr ?s t) = err" "state (thr ?s t) = THREAD_READY"
    using m w by (simp_all add: wake_def unqueue_def wake_thread_def upd_wq_def upd_thr_def
        insert_in_run_queue_head_def Let_def)
  show ?thesis
  proof (cases b)
    case False
    have "kernel_inv (S\<lparr>env := ?s\<rparr>)"
      using s False timers_ok_neutral [OF kernel_invD(2) [OF inv] n] n
      by (simp add: kernel_inv_def timer_neutral_def)
    then show ?thesis
      using False f wake_one_state [OF inv w, where err=err and b=b] w by (simp add: wait_queue_wake_one_def on_sched_def)
  next
    case True
    from switch [OF inv _ n, of now] s True obtain S' where S': "thread_resched now (S\<lparr>env := ?s\<rparr>) = Ret S'"
      "kernel_inv S'" "wq (env S') = wq ?s" "\<forall>t. t \<noteq> current (env S') \<longrightarrow> thr (env S') t = thr ?s t"
      "same_thread (thr (env S') t) (thr ?s t)" "highest_running (env S')" by auto
    have "state (thr (env S') t) \<in> {THREAD_READY, THREAD_RUNNING}" using S'(4) f(3) running_state [OF S'(2)]
      by (cases "t = current (env S')") auto
    then show ?thesis
      using True f S' wake_one_state [OF inv w, where err=err and b=b] w
      by (simp add: wait_queue_wake_one_def on_sched_def same_thread_def)
  qed
qed

lemma fold_wake_fields:
  assumes "distinct ts" and "set ts \<subseteq> set (wlist (wq s q))"
  shows "t \<in> set ts \<Longrightarrow> wait_queue_block_ret (thr (fold (wake q err) ts s) t) = err"
    and "t \<in> set ts \<Longrightarrow> state (thr (fold (wake q err) ts s) t) = THREAD_READY"
    and "t \<notin> set ts \<Longrightarrow> thr (fold (wake q err) ts s) t = thr s t"
proof -
  have *: "t \<in> set ts \<Longrightarrow> distinct ts \<Longrightarrow> wait_queue_block_ret (thr (fold (wake q err) ts s) t) = err
        \<and> state (thr (fold (wake q err) ts s) t) = THREAD_READY"
    "t \<notin> set ts \<Longrightarrow> thr (fold (wake q err) ts s) t = thr s t" for s
    by (induction ts arbitrary: s)
       (auto simp: wake_def unqueue_def wake_thread_def upd_wq_def upd_thr_def insert_in_run_queue_head_def Let_def)
  show "t \<in> set ts \<Longrightarrow> wait_queue_block_ret (thr (fold (wake q err) ts s) t) = err"
    and "t \<in> set ts \<Longrightarrow> state (thr (fold (wake q err) ts s) t) = THREAD_READY"
    and "t \<notin> set ts \<Longrightarrow> thr (fold (wake q err) ts s) t = thr s t"
    using * assms(1) by auto
qed

lemma fold_wake_wlist: "wlist (wq s q) = ts @ us \<Longrightarrow> wlist (wq (fold (wake q err) ts s) q) = us"
  by (induction ts arbitrary: s) (simp_all add: wake_def unqueue_def upd_wq_def)

lemma wait_queue_wake_all_inv:
  assumes inv: "kernel_inv S" and c: "b \<Longrightarrow> current (env S) \<noteq> idle_thread"
  shows "\<exists>S'. wait_queue_wake_all now q b err S = Ret (int (length (wlist (wq (env S) q))), S') \<and> kernel_inv S'
    \<and> wlist (wq (env S') q) = []
    \<and> (\<forall>t \<in> set (wlist (wq (env S) q)). wait_queue_block_ret (thr (env S') t) = err
          \<and> state (thr (env S') t) \<in> {THREAD_READY, THREAD_RUNNING})
    \<and> (\<not> b \<longrightarrow> current (env S') = current (env S)
          \<and> (\<forall>t. t \<notin> set (wlist (wq (env S) q)) \<longrightarrow> thr (env S') t = thr (env S) t))
    \<and> (b \<and> wlist (wq (env S) q) \<noteq> [] \<longrightarrow> highest_running (env S'))"
proof -
  let ?ts = "wlist (wq (env S) q)" and ?b = "b \<and> wlist (wq (env S) q) \<noteq> []"
  let ?r = "maybe_requeue ?b (env S)" and ?s = "fold (wake q err) (wlist (wq (env S) q)) (maybe_requeue ?b (env S))"
  have m: "sched_inv (if ?b then None else Some (current (env S))) ?r" "timer_neutral (env S) ?r" "wq ?r = wq (env S)"
    using maybe_requeue_ok [OF inv, of ?b] c by auto
  have d: "distinct ?ts" using sched_invD(5) [OF kernel_invD(1) [OF inv]] by blast
  have s: "sched_inv (if ?b then None else Some (current (env S))) ?s"
    using fold_wake_inv [OF m(1) _ d] m(3) by simp
  have n: "timer_neutral (env S) ?s"
    using fold_wake_neutral [OF m(1) _ d] m(2,3) timer_neutral_trans by simp
  have f: "wlist (wq ?s q) = []" "\<forall>t \<in> set ?ts. wait_queue_block_ret (thr ?s t) = err \<and> state (thr ?s t) = THREAD_READY"
    "\<And>t. t \<notin> set ?ts \<Longrightarrow> thr ?s t = thr ?r t"
    using fold_wake_wlist [of ?r q ?ts "[]"] fold_wake_fields [OF d, of ?r q] m(3) by auto
  have cnt: "0 < wcount (wq (env S) q) \<longleftrightarrow> ?ts \<noteq> []"
    using sched_invD(6) [OF kernel_invD(1) [OF inv], of q] by simp
  have z: "wcount (wq ?s q) = 0" using sched_invD(6) [OF s, of q] f(1) by simp
  have e: "wake_list ?ts err (upd_wq q (\<lambda>w. w\<lparr>wlist := [], wcount := wcount w - int (length ?ts)\<rparr>)
      (if b \<and> 0 < wcount (wq (env S) q) then insert_in_run_queue_head (current (env S))
         (set_state (current (env S)) THREAD_READY (env S)) else env S)) = ?s"
    using wake_list_fold [of ?r q ?ts err] m(3) cnt by (simp add: maybe_requeue_def)
  show ?thesis
  proof (cases ?b)
    case False
    have "kernel_inv (S\<lparr>env := ?s\<rparr>)"
      using s False timers_ok_neutral [OF kernel_invD(2) [OF inv] n] n
      by (auto simp: kernel_inv_def timer_neutral_def)
    moreover have "wait_queue_wake_all now q b err S = Ret (int (length ?ts), S\<lparr>env := ?s\<rparr>)"
      using e z False by (auto simp: wait_queue_wake_all_def on_sched_def Let_def)
    moreover have "?r = env S" using False by (auto simp: maybe_requeue_def)
    ultimately show ?thesis using f False by auto
  next
    case True
    from switch [OF inv _ n, of now] s True obtain S' where S': "thread_resched now (S\<lparr>env := ?s\<rparr>) = Ret S'"
      "kernel_inv S'" "wq (env S') = wq ?s" "\<forall>t. t \<noteq> current (env S') \<longrightarrow> thr (env S') t = thr ?s t"
      "\<forall>t. same_thread (thr (env S') t) (thr ?s t)" "highest_running (env S')" by auto
    have "state (thr (env S') t) \<in> {THREAD_READY, THREAD_RUNNING}" if "t \<in> set ?ts" for t
      using S'(4) f(2) that running_state [OF S'(2)] by (cases "t = current (env S')") auto
    moreover have "wait_queue_wake_all now q b err S = Ret (int (length ?ts), S')"
      using e z True S'(1) by (simp add: wait_queue_wake_all_def on_sched_def Let_def)
    ultimately show ?thesis using True f S' by (simp add: same_thread_def)
  qed
qed

section \<open>Life of a thread\<close>

lemma sched_inv_frame:
  assumes "sched_inv r s"
    and "\<And>t. state (f t) = state t \<and> priority (f t) = priority t \<and> fl_idle (f t) = fl_idle t
      \<and> blocking_wait_queue (f t) = blocking_wait_queue t"
    and "alive (state (thr s t)) \<Longrightarrow> magic (f (thr s t)) = magic (thr s t)"
  shows "sched_inv r (upd_thr t f s)"
proof -
  have e: "state (thr (upd_thr t f s) u) = state (thr s u)" "priority (thr (upd_thr t f s) u) = priority (thr s u)"
    "fl_idle (thr (upd_thr t f s) u) = fl_idle (thr s u)"
    "blocking_wait_queue (thr (upd_thr t f s) u) = blocking_wait_queue (thr s u)" for u
    using assms(2) by (simp_all add: upd_thr_def)
  have g: "run_queue (upd_thr t f s) = run_queue s" "run_queue_bitmap (upd_thr t f s) = run_queue_bitmap s"
    "wq (upd_thr t f s) = wq s" "panicked (upd_thr t f s) = panicked s" by (simp_all add: upd_thr_def)
  have "alive (state (thr s u)) \<longrightarrow> magic (thr (upd_thr t f s) u)" for u
    using assms(3) sched_invD(13) [OF assms(1), of u] by (auto simp: upd_thr_def)
  then show ?thesis using assms(1) unfolding sched_inv_def e g by blast
qed

lemma sched_inv_list [simp]:
  "sched_inv r (s\<lparr>thread_list := l\<rparr>) = sched_inv r s" "sched_inv r (s\<lparr>current := x\<rparr>) = sched_inv r s"
  by (simp_all add: sched_inv_def)

lemma ready_other:
  assumes inv: "kernel_inv S" and t: "t \<noteq> idle_thread" "state (thr (env S) t) = THREAD_SUSPENDED"
    and m: "magic (thr (env S) t)"
  shows "kernel_inv (on_sched (\<lambda>s. insert_in_run_queue_head t (set_state t THREAD_READY s)) S)"
proof -
  let ?s = "insert_at False t (upd_thr t (\<lambda>th. th\<lparr>state := THREAD_READY\<rparr>) (env S))"
  have c: "current (env S) \<noteq> t" using running_state [OF inv] t(2) by auto
  have "sched_inv (Some (current (env S))) ?s"
    using make_ready [where f="\<lambda>th. th\<lparr>state := THREAD_READY\<rparr>", OF kernel_invD(1) [OF inv] t(1)]
      t(2) c m priority_lt [OF inv] by simp
  moreover have n: "timer_neutral (env S) ?s"
    using t(2) by (intro timer_neutral_trans [OF neutral_upd neutral_insert]) simp_all
  ultimately show ?thesis
    using timers_ok_neutral [OF kernel_invD(2) [OF inv] n]
    by (simp add: kernel_inv_def on_sched_def insert_at_def set_state_def)
qed

lemma thread_resume_inv:
  assumes inv: "kernel_inv S" and t: "t \<noteq> idle_thread"
    and m: "magic (thr (env S) t)" "state (thr (env S) t) \<noteq> THREAD_DEATH"
  shows "\<exists>S'. thread_resume now dis t S = Ret (NO_ERROR, S') \<and> kernel_inv S'"
proof (cases "state (thr (env S) t) = THREAD_SUSPENDED")
  case True
  let ?S = "on_sched (\<lambda>s. insert_in_run_queue_head t (set_state t THREAD_READY s)) S"
  have k: "kernel_inv ?S" by (rule ready_other [OF inv t True m(1)])
  then obtain S' where "thread_yield now ?S = Ret S'" "kernel_inv S'" using thread_yield_inv by blast
  then show ?thesis using True k m by (simp add: thread_resume_def Let_def)
qed (use inv m in \<open>simp add: thread_resume_def\<close>)

lemma thread_set_real_time_inv:
  assumes inv: "kernel_inv S" and m: "magic (thr (env S) t)"
  shows "\<exists>S'. thread_set_real_time now (Some t) S = Ret (NO_ERROR, S') \<and> kernel_inv S'"
proof -
  let ?s = "upd_thr t (\<lambda>th. th\<lparr>fl_real_time := True\<rparr>) (env S)"
  have s: "sched_inv (Some (current (env S))) ?s"
    using kernel_invD(1) [OF inv] by (rule sched_inv_frame) simp_all
  have cancel_env: "(timer_cancel S now x)\<lparr>env := e\<rparr> = timer_cancel (S\<lparr>env := e\<rparr>) now x" for x e
    by (simp add: timer_cancel_def Let_def split: option.splits)
  have "timers_ok (if t = current (env S) then timer_cancel (S\<lparr>env := ?s\<rparr>) now preempt_timer else S\<lparr>env := ?s\<rparr>)"
  proof (cases "t = current (env S)")
    case True
    then have "timers_ok (timer_cancel (S\<lparr>env := ?s\<rparr>) now preempt_timer)"
      by (intro timers_ok_cancel_preempt [OF kernel_invD(2) [OF inv]])
         (auto simp: upd_thr_def thread_is_real_time_or_idle_def split: if_splits)
    then show ?thesis using True by simp
  next
    case False
    then have "timer_neutral (env S) ?s" by (auto simp: timer_neutral_def upd_thr_def)
    then show ?thesis using timers_ok_neutral [OF kernel_invD(2) [OF inv]] False by simp
  qed
  then show ?thesis using s m
    by (auto simp: thread_set_real_time_def on_sched_def Let_def kernel_inv_def cancel_env)
qed

text \<open>A thread that exits: dead, freed if detached, its joiners woken otherwise.\<close>

lemma dead_current:
  assumes inv: "kernel_inv S" and c: "current (env S) \<noteq> idle_thread"
  shows "sched_inv None (upd_thr (current (env S)) (\<lambda>t. t\<lparr>state := THREAD_DEATH, retcode := rc\<rparr>) (env S))"
    and "Suc (current (env S)) \<notin> set (timer_queue S) \<Longrightarrow> timers_ok
      (S\<lparr>env := upd_thr (current (env S)) (\<lambda>t. t\<lparr>state := THREAD_DEATH, retcode := rc\<rparr>) (env S)\<rparr>)"
proof -
  show "sched_inv None (upd_thr (current (env S)) (\<lambda>t. t\<lparr>state := THREAD_DEATH, retcode := rc\<rparr>) (env S))"
    using make_other [OF kernel_invD(1) [OF inv] c, of "\<lambda>t. t\<lparr>state := THREAD_DEATH, retcode := rc\<rparr>"]
      priority_lt [OF inv] by simp
  show "timers_ok (S\<lparr>env := upd_thr (current (env S)) (\<lambda>t. t\<lparr>state := THREAD_DEATH, retcode := rc\<rparr>) (env S)\<rparr>)"
    if "Suc (current (env S)) \<notin> set (timer_queue S)"
    using that kernel_invD(2) [OF inv] running_state [OF inv] unfolding timers_ok_def
    by (auto simp: upd_thr_def thread_is_real_time_or_idle_def)
qed

lemma wake_all_no_resched:
  assumes inv: "sched_inv r (env S)"
  shows "wait_queue_wake_all now q False err S
    = Ret (int (length (wlist (wq (env S) q))), S\<lparr>env := fold (wake q err) (wlist (wq (env S) q)) (env S)\<rparr>)"
proof -
  let ?ts = "wlist (wq (env S) q)"
  have "sched_inv r (fold (wake q err) ?ts (env S))"
    by (rule fold_wake_inv [OF inv subset_refl sched_invD(5) [OF inv]])
  then have "wcount (wq (fold (wake q err) ?ts (env S)) q) = 0"
    using sched_invD(6) [of r _ q] fold_wake_wlist [of "env S" q ?ts "[]" err] by simp
  then show ?thesis
    using wake_list_fold [of "env S" q ?ts err] by (simp add: wait_queue_wake_all_def on_sched_def Let_def)
qed

lemma thread_exit_inv:
  assumes inv: "kernel_inv S" and c: "current (env S) \<noteq> idle_thread"
    and q: "Suc (current (env S)) \<notin> set (timer_queue S)"
  shows "\<exists>S'. thread_exit now rc S = Ret S' \<and> kernel_inv S' \<and> highest_running (env S')"
proof -
  let ?c = "current (env S)"
  let ?s = "upd_thr ?c (\<lambda>t. t\<lparr>state := THREAD_DEATH, retcode := rc\<rparr>) (env S)"
  note d = dead_current(1) [OF inv c, of rc] dead_current(2) [OF inv c q, of rc]
  have ok: "running_ok ?c (env S)" "\<not> thread_is_idle (thr (env S) ?c)"
    using current_ok [OF inv] c by (simp_all add: thread_is_idle_def idle_flag [OF inv])
  show ?thesis
  proof (cases "fl_detached (thr (env S) ?c)")
    case True
    let ?s' = "upd_thr ?c (\<lambda>t. t\<lparr>magic := False\<rparr>) (?s\<lparr>thread_list := remove1 ?c (thread_list ?s)\<rparr>)"
    have "sched_inv None ?s'" using d(1) by (intro sched_inv_frame) (simp_all add: upd_thr_def)
    moreover have "timers_ok (S\<lparr>env := ?s'\<rparr>)"
      using timers_ok_neutral [OF d(2), of ?s']
      by (auto simp: timer_neutral_def upd_thr_def thread_is_real_time_or_idle_def)
    ultimately have "\<exists>S'. thread_resched now (S\<lparr>env := ?s'\<rparr>) = Ret S' \<and> kernel_inv S' \<and> highest_running (env S')"
      using thread_resched_ok [of "S\<lparr>env := ?s'\<rparr>" now] by auto
    then show ?thesis using True ok by (simp add: thread_exit_def on_sched_def Let_def upd_thr_def)
  next
    case False
    let ?ts = "wlist (wq ?s (RetQ ?c))"
    let ?s' = "fold (wake (RetQ ?c) 0) ?ts ?s"
    have dis: "distinct ?ts" using sched_invD(5) [OF d(1)] .
    have "sched_inv None ?s'" by (rule fold_wake_inv [OF d(1) subset_refl dis])
    moreover have "timers_ok (S\<lparr>env := ?s'\<rparr>)"
      using timers_ok_neutral [OF d(2)] fold_wake_neutral [OF d(1) subset_refl dis] by simp
    ultimately have "\<exists>S'. thread_resched now (S\<lparr>env := ?s'\<rparr>) = Ret S' \<and> kernel_inv S' \<and> highest_running (env S')"
      using thread_resched_ok [of "S\<lparr>env := ?s'\<rparr>" now] by auto
    moreover have "\<not> fl_detached (thr ?s ?c)" using False by (simp add: upd_thr_def)
    ultimately show ?thesis
      using wake_all_no_resched [of None "S\<lparr>env := ?s\<rparr>" now "RetQ ?c" 0] d(1) ok
      by (simp add: thread_exit_def on_sched_def Let_def)
  qed
qed

section \<open>The timer interrupt\<close>

lemma kernel_callbacks_quiet: "quiet kernel_callbacks"
  unfolding quiet_def
proof (intro allI)
  fix cb t now a and S :: kst
  have "snd (kernel_callbacks cb t now a S) = S\<lparr>env := env (snd (kernel_callbacks cb t now a S))\<rparr>"
    by (simp add: kernel_callbacks_def thread_timer_tick_def thread_sleep_handler_def
        wait_queue_timeout_handler_def on_sched_def Let_def split: prod.split)
  then show "\<exists>r e. kernel_callbacks cb t now a S = (r, S\<lparr>env := e\<rparr>)" by (metis prod.collapse)
qed

lemma fire_preempt:
  assumes inv: "kernel_inv S" and q: "timer_queue S = preempt_timer # q"
  shows "\<exists>r S'. fire_head kernel_callbacks S now preempt_timer = Ret (r, S') \<and> kernel_inv S'"
proof -
  let ?c = "current (env S)" and ?f = "\<lambda>t. t\<lparr>remaining_quantum := remaining_quantum t - 1\<rparr>"
  note tok = kernel_invD(2) [OF inv]
  have p: "callback (tmr S preempt_timer) = Some CB_THREAD_TIMER_TICK" "periodic_time (tmr S preempt_timer) \<noteq> 0"
    "\<not> thread_is_real_time_or_idle (thr (env S) ?c)" "preempt_timer \<notin> set q"
    using tok q by (auto simp: timers_ok_def)
  let ?s = "upd_thr ?c ?f (env S)"
  have s: "sched_inv (Some ?c) ?s" using kernel_invD(1) [OF inv] by (rule sched_inv_frame) simp_all
  have n: "timers_ok (S\<lparr>env := ?s\<rparr>)"
    using tok by (rule timers_ok_neutral) (simp add: neutral_upd)
  let ?tm = "(tmr S)(preempt_timer := (tmr S preempt_timer)\<lparr>scheduled_time := next_time now (tmr S preempt_timer)\<rparr>)"
  let ?q = "insert_before ?tm preempt_timer q"
  have f: "fire_head kernel_callbacks S now preempt_timer
      = Ret (remaining_quantum (thr ?s ?c) \<le> 0, S\<lparr>env := ?s, timer_queue := ?q, tmr := ?tm\<rparr>)"
    using p by (subst fire_callback [OF q p(4,1), of _ _ _ ?s])
      (simp_all add: kernel_callbacks_def thread_timer_tick_def on_sched_def insert_timer_in_queue_def Let_def)
  have "timers_ok (S\<lparr>env := ?s, timer_queue := ?q, tmr := ?tm\<rparr>)"
    using n q unfolding timers_ok_def by (simp add: preempt_timer_def)
  then show ?thesis using f s by (simp add: kernel_inv_def)
qed

lemma fire_thread:
  assumes inv: "kernel_inv S" and q: "timer_queue S = Suc u # q"
  shows "\<exists>r S'. fire_head kernel_callbacks S now (Suc u) = Ret (r, S') \<and> kernel_inv S'"
proof -
  note tok = kernel_invD(2) [OF inv]
  have p: "periodic_time (tmr S (Suc u)) = 0" "arg (tmr S (Suc u)) = u" "Suc u \<notin> set q"
    using tok q by (auto simp: timers_ok_def)
  have mg: "magic (thr (env S) u)" using alive_magic [OF inv, of u] tok q by (auto simp: timers_ok_def)
  consider (wait) "callback (tmr S (Suc u)) = Some CB_WAIT_QUEUE_TIMEOUT"
    | (sleep) "callback (tmr S (Suc u)) = Some CB_THREAD_SLEEP_HANDLER" "state (thr (env S) u) = THREAD_SLEEPING"
    using tok q by (auto simp: timers_ok_def)
  then show ?thesis
  proof cases
    case wait
    have ns: "state (thr (env S) u) \<noteq> THREAD_SLEEPING"
      using tok wait by (auto simp: timers_ok_def CB_WAIT_QUEUE_TIMEOUT_def CB_THREAD_SLEEP_HANDLER_def)
    have tq: "timers_ok (S\<lparr>timer_queue := q\<rparr>)"
      using tok q ns unfolding timers_ok_def by (auto simp: preempt_timer_def)
    let ?w = "wait_queue_timeout_handler u (S\<lparr>timer_queue := q\<rparr>)"
    have k: "kernel_inv (snd ?w)"
    proof (cases "state (thr (env S) u) = THREAD_BLOCKED")
      case False
      then show ?thesis using tq kernel_invD(1) [OF inv] mg
        by (simp add: wait_queue_timeout_handler_def thread_unblock_from_wait_queue_def kernel_inv_def)
    next
      case True
      then obtain wqi where wq: "blocking_wait_queue (thr (env S) u) = Some wqi"
        using sched_invD(8) [OF kernel_invD(1) [OF inv], of u] by auto
      have m: "u \<in> set (wlist (wq (env S) wqi))"
        using True wq sched_invD(7) [OF kernel_invD(1) [OF inv]] by blast
      have "snd ?w = S\<lparr>timer_queue := q, env := wake wqi ERR_TIMED_OUT u (env S)\<rparr>"
        using True wq mg by (simp add: wait_queue_timeout_handler_def thread_unblock_from_wait_queue_def
            wake_def unqueue_def in_list_def Let_def)
      then show ?thesis
        using wake_inv [OF kernel_invD(1) [OF inv] m] timers_ok_neutral [OF tq, of "wake wqi ERR_TIMED_OUT u (env S)"]
          wake_neutral [OF True] by (simp add: kernel_inv_def)
    qed
    have "fire_head kernel_callbacks S now (Suc u) = Ret ?w"
      using wait p q by (simp add: fire_head_def kernel_callbacks_def Let_def requeue_periodic_def
          CB_WAIT_QUEUE_TIMEOUT_def CB_THREAD_SLEEP_HANDLER_def CB_THREAD_TIMER_TICK_def split: prod.split)
    then show ?thesis using k by (cases ?w) simp
  next
    case sleep
    let ?s = "insert_at False u (upd_thr u (\<lambda>th. th\<lparr>state := THREAD_READY\<rparr>) (env S))"
    have c: "current (env S) \<noteq> u" "u \<noteq> idle_thread"
      using running_state [OF inv] sleep(2) sched_invD(11) [OF kernel_invD(1) [OF inv]] by auto
    have "sched_inv (Some (current (env S))) ?s"
      using make_ready [where f="\<lambda>th. th\<lparr>state := THREAD_READY\<rparr>", OF kernel_invD(1) [OF inv] c(2)]
        sleep(2) c(1) mg priority_lt [OF inv] by simp
    moreover have "timers_ok (S\<lparr>timer_queue := q, env := ?s\<rparr>)"
      using tok q c(1) unfolding timers_ok_def
      by (auto simp: preempt_timer_def upd_thr_def)
    moreover have "fire_head kernel_callbacks S now (Suc u) = Ret (True, S\<lparr>timer_queue := q, env := ?s\<rparr>)"
      using sleep p q mg by (simp add: fire_head_def kernel_callbacks_def Let_def requeue_periodic_def
          CB_THREAD_SLEEP_HANDLER_def CB_THREAD_TIMER_TICK_def thread_sleep_handler_def on_sched_def
          insert_at_def set_state_def)
    ultimately show ?thesis by (auto simp: kernel_inv_def insert_at_def)
  qed
qed

lemma fire_kernel:
  assumes "kernel_inv S" and "timer_queue S = t # q"
  shows "\<exists>r S'. fire_head kernel_callbacks S now t = Ret (r, S') \<and> kernel_inv S'"
  using fire_preempt [OF assms(1), of q now] fire_thread [OF assms(1), of _ q now] assms(2)
  by (cases t) (auto simp: preempt_timer_def)

lemma timer_tick_kernel:
  assumes "timer_tick kernel_callbacks now S = Some (Ret (r, S'))" and "kernel_inv S"
  shows "kernel_inv S'"
proof -
  obtain out1 where l: "tick_loop kernel_callbacks now False S = Some out1"
    using assms(1) by (auto simp: timer_tick_def split: option.splits)
  then obtain r1 S1 where "out1 = Ret (r1, S1)" "kernel_inv S1" using tick_loop_preserves [where I=kernel_inv, OF _ l assms(2)] fire_kernel
    by blast
  then show ?thesis using assms(1) l
    by (auto simp: timer_tick_def kernel_inv_def timers_ok_def split: list.splits if_splits)
qed

section \<open>Creating, joining and detaching\<close>

lemma timers_ok_frame:
  assumes "timers_ok S"
    and "\<And>t. state (f t) = state t \<and> fl_real_time (f t) = fl_real_time t \<and> fl_idle (f t) = fl_idle t"
  shows "timers_ok (S\<lparr>env := (upd_thr t f (env S))\<lparr>thread_list := l\<rparr>\<rparr>)"
  using assms(1)
  by (rule timers_ok_neutral) (auto simp: timer_neutral_def upd_thr_def thread_is_real_time_or_idle_def assms(2))

lemma kernel_inv_frame:
  assumes "kernel_inv S"
    and "\<And>t. state (f t) = state t \<and> priority (f t) = priority t \<and> fl_idle (f t) = fl_idle t
      \<and> blocking_wait_queue (f t) = blocking_wait_queue t \<and> fl_real_time (f t) = fl_real_time t
      \<and> magic (f t) = magic t"
  shows "kernel_inv (S\<lparr>env := (upd_thr t f (env S))\<lparr>thread_list := l\<rparr>\<rparr>)"
proof -
  have "current (upd_thr t f (env S)) = current (env S)" by simp
  moreover have "sched_inv (Some (current (env S))) (upd_thr t f (env S))"
    by (rule sched_inv_frame [OF kernel_invD(1) [OF assms(1)]]) (simp_all add: assms(2))
  moreover have "timers_ok (S\<lparr>env := (upd_thr t f (env S))\<lparr>thread_list := l\<rparr>\<rparr>)"
    by (rule timers_ok_frame [OF kernel_invD(2) [OF assms(1)]]) (simp add: assms(2))
  ultimately show ?thesis by (simp add: kernel_inv_def)
qed

lemma kernel_inv_upd:
  assumes "kernel_inv S"
    and "\<And>t. state (f t) = state t \<and> priority (f t) = priority t \<and> fl_idle (f t) = fl_idle t
      \<and> blocking_wait_queue (f t) = blocking_wait_queue t \<and> fl_real_time (f t) = fl_real_time t
      \<and> magic (f t) = magic t"
  shows "kernel_inv (on_sched (upd_thr t f) S)"
  using kernel_inv_frame [where f=f and t=t and l="thread_list (env S)", OF assms] by (simp add: on_sched_def upd_thr_def)

lemma reap_inv:
  assumes "kernel_inv S" and "reap t (env S) = Ret (rc, s)"
  shows "kernel_inv (S\<lparr>env := s\<rparr>)"
proof -
  let ?f = "\<lambda>th. if state th = THREAD_DEATH then th\<lparr>magic := False\<rparr> else th"
  have s: "s = (upd_thr t ?f (env S))\<lparr>thread_list := remove1 t (thread_list (env S))\<rparr>"
    using assms(2) by (auto simp: reap_def upd_thr_def split: if_splits)
  have "sched_inv (Some (current (env S))) (upd_thr t ?f (env S))"
    by (rule sched_inv_frame [OF kernel_invD(1) [OF assms(1)]]) auto
  moreover have "timers_ok (S\<lparr>env := s\<rparr>)"
    unfolding s by (rule timers_ok_frame [OF kernel_invD(2) [OF assms(1)]]) simp
  ultimately show ?thesis by (simp add: kernel_inv_def s)
qed

text \<open>A dead thread with a live structure is reaped: it is in no queue.\<close>

lemma reap_returns:
  assumes "kernel_inv S" and "magic (thr (env S) t)" and "state (thr (env S) t) = THREAD_DEATH"
  shows "\<exists>s. reap t (env S) = Ret (retcode (thr (env S) t), s)"
proof -
  note i = sched_invD [OF kernel_invD(1) [OF assms(1)]]
  have b: "blocking_wait_queue (thr (env S) t) = None"
    using not_waiting [OF kernel_invD(1) [OF assms(1)]] assms(3) by simp
  have "\<not> in_list t (env S)" using i(2) [of t] b assms(3) by (auto simp: in_list_def list_ex_iff)
  then show ?thesis using assms b by (simp add: reap_def)
qed

text \<open>The address of a new thread is not in use and nobody waits on it.\<close>

definition unused_thread :: "kst \<Rightarrow> nat \<Rightarrow> bool" where
  "unused_thread S t \<longleftrightarrow> t \<noteq> idle_thread \<and> wlist (wq (env S) (RetQ t)) = []
     \<and> state (thr (env S) t) \<in> {THREAD_SUSPENDED, THREAD_DEATH}"

lemma thread_create_inv:
  assumes inv: "kernel_inv S" and t: "unused_thread S t" and p: "p < NUM_PRIORITIES"
  shows "kernel_inv (S\<lparr>env := snd (thread_create_etc t mem p (env S))\<rparr>)"
proof -
  let ?s = "snd (thread_create_etc t True p (env S))"
  note i = sched_invD [OF kernel_invD(1) [OF inv]]
  have c: "current (env S) \<noteq> t" using t running_state [OF inv] by (auto simp: unused_thread_def)
  have nin: "\<And>p. t \<notin> set (run_queue (env S) p)" and nw: "\<And>q. t \<notin> set (wlist (wq (env S) q))"
    using i(2,7) t by (auto simp: unused_thread_def)
  have f: "run_queue ?s = run_queue (env S)" "run_queue_bitmap ?s = run_queue_bitmap (env S)"
    "thr ?s = (thr (env S))(t := fresh_thread p)" "current ?s = current (env S)"
    "wq ?s = (wq (env S))(RetQ t := \<lparr>wlist = [], wcount = 0\<rparr>)" "panicked ?s = panicked (env S)"
    by (simp_all add: thread_create_etc_def wait_queue_init_def upd_thr_def upd_wq_def Let_def)
  have w: "wq ?s = wq (env S)"
    using t i(6) [of "RetQ t"] unfolding f by (auto simp: unused_thread_def intro!: ext)
  have "sched_inv (Some (current (env S))) ?s"
    using i(1-8,10,11) i(9,12-14) nin nw t p c unfolding sched_inv_def f(1-4,6) w
    by (auto simp: unused_thread_def fresh_thread_def NUM_PRIORITIES_def)
  moreover have "timer_neutral (env S) ?s"
    using t c unfolding timer_neutral_def f by (auto simp: fresh_thread_def unused_thread_def)
  ultimately have "kernel_inv (S\<lparr>env := ?s\<rparr>)"
    using timers_ok_neutral [OF kernel_invD(2) [OF inv], of ?s] by (simp add: kernel_inv_def f)
  then show ?thesis using inv by (cases mem) (simp_all add: thread_create_etc_def)
qed

lemma thread_join_inv:
  assumes inv: "kernel_inv S" and r: "thread_join now t timeout S = Ret (p, rc, S')"
    and c: "current (env S) \<noteq> idle_thread" and q: "Suc (current (env S)) \<notin> set (timer_queue S)"
  shows "kernel_inv S'"
proof (cases "fl_detached (thr (env S) t) \<or> state (thr (env S) t) = THREAD_DEATH \<or> timeout = 0")
  case True
  then show ?thesis
    using inv r reap_inv [OF inv, of t]
    by (auto simp: thread_join_def wait_queue_block_def split: if_splits prod.splits outcome.splits)
next
  case False
  then show ?thesis
    using r wait_queue_block_inv [OF inv c q, of timeout now "RetQ t"]
    by (auto simp: thread_join_def split: if_splits)
qed

lemma thread_join_finish_inv:
  assumes inv: "kernel_inv S" and r: "thread_join_finish now t timeout S = Ret (err, rc, S')"
  shows "kernel_inv S'"
proof -
  obtain e S1 where f: "wait_queue_block_finish now timeout S = (e, S1)" by fastforce
  then have "kernel_inv S1" using wait_queue_block_finish_inv [OF inv] by blast
  then show ?thesis using r f reap_inv [of S1 t]
    by (auto simp: thread_join_finish_def split: if_splits prod.splits outcome.splits)
qed

lemma thread_detach_inv:
  assumes inv: "kernel_inv S" and m: "magic (thr (env S) t)"
  shows "\<exists>S'. thread_detach now t S = Ret (NO_ERROR, S') \<and> kernel_inv S'"
proof -
  let ?q = "RetQ t"
  obtain S1 where S1: "wait_queue_wake_all now ?q False ERR_THREAD_DETACHED S
      = Ret (int (length (wlist (wq (env S) ?q))), S1)" "kernel_inv S1"
    "\<forall>u \<in> set (wlist (wq (env S) ?q)). state (thr (env S1) u) \<in> {THREAD_READY, THREAD_RUNNING}"
    "\<forall>u. u \<notin> set (wlist (wq (env S) ?q)) \<longrightarrow> thr (env S1) u = thr (env S) u"
    using wait_queue_wake_all_inv [OF inv, of False now ?q ERR_THREAD_DETACHED] by auto
  have m1: "magic (thr (env S1) t)"
    using S1(3,4) m alive_magic [OF S1(2), of t] by (cases "t \<in> set (wlist (wq (env S) ?q))") auto
  let ?S2 = "on_sched (upd_thr t (\<lambda>th. th\<lparr>fl_detached := False\<rparr>)) S1"
  have k2: "kernel_inv ?S2" "kernel_inv (on_sched (upd_thr t (\<lambda>th. th\<lparr>fl_detached := True\<rparr>)) S1)"
    using S1(2) by (auto intro: kernel_inv_upd)
  have t2: "\<not> fl_detached (thr (env ?S2) t)" "state (thr (env ?S2) t) = state (thr (env S1) t)"
    "magic (thr (env ?S2) t)"
    using m1 by (simp_all add: on_sched_def upd_thr_def)
  show ?thesis
  proof (cases "state (thr (env S1) t) = THREAD_DEATH")
    case False
    then show ?thesis using S1 m k2 by (auto simp: thread_detach_def)
  next
    case True
    then obtain rc s where "reap t (env ?S2) = Ret (rc, s)" using reap_returns [OF k2(1) t2(3)] t2(2) by auto
    then show ?thesis using S1 m True t2 reap_inv [OF k2(1), of t]
      by (auto simp: thread_detach_def thread_join_def)
  qed
qed

end
