(* ===== verification/Sched_Steps.thy ===== *)
theory Sched_Steps
  imports Sched_Safe
begin

text \<open>
  The kernel as a labelled transition system: one rule for every scheduler call a thread can
  make and for the timer interrupt, with the conditions its callers meet. Every state
  reached from the end of \<^verbatim>\<open>lk_main\<close> satisfies the kernel invariant, no call panics, the
  thread on the processor has the highest priority of the ready ones, and a sleeper is woken
  by the interrupt that follows its expiry.
\<close>

datatype kop =
  Yield | Preempt | Resume bool nat | Sleep u32 | Block wqid u32 | Finish u32
| WakeOne wqid bool status | WakeAll wqid bool status | Exit int | SetPriority int
| SetRealTime nat | Create nat bool nat | Join nat u32 | JoinFinish nat u32 | Detach nat | Tick

text \<open>
  Only the idle thread never blocks, exits or gives its priority away, and a thread starts a
  wait, or ends its life, only when its previous wait is over.
\<close>

definition may_block :: "kst \<Rightarrow> bool" where
  "may_block S \<longleftrightarrow> current (env S) \<noteq> idle_thread \<and> Suc (current (env S)) \<notin> set (timer_queue S)"

definition not_idle :: "kst \<Rightarrow> bool" where
  "not_idle S \<longleftrightarrow> current (env S) \<noteq> idle_thread"

inductive kstep :: "u32 \<Rightarrow> kop \<Rightarrow> kst \<Rightarrow> kst \<Rightarrow> bool" where
  yield: "thread_yield now S = Ret S' \<Longrightarrow> kstep now Yield S S'"
| preempt: "thread_preempt now S = Ret S' \<Longrightarrow> kstep now Preempt S S'"
| resume: "t \<noteq> idle_thread \<Longrightarrow> thread_resume now dis t S = Ret (r, S') \<Longrightarrow> kstep now (Resume dis t) S S'"
| sleep: "may_block S \<Longrightarrow> thread_sleep now d S = Ret S' \<Longrightarrow> kstep now (Sleep d) S S'"
| block: "may_block S \<Longrightarrow> wait_queue_block now q d S = Ret (p, S') \<Longrightarrow> kstep now (Block q d) S S'"
| finish: "wait_queue_block_finish now d S = (r, S') \<Longrightarrow> kstep now (Finish d) S S'"
| wake_one: "(b \<longrightarrow> not_idle S) \<Longrightarrow> wait_queue_wake_one now q b err S = Ret (n, S')
    \<Longrightarrow> kstep now (WakeOne q b err) S S'"
| wake_all: "(b \<longrightarrow> not_idle S) \<Longrightarrow> wait_queue_wake_all now q b err S = Ret (n, S')
    \<Longrightarrow> kstep now (WakeAll q b err) S S'"
| exit: "may_block S \<Longrightarrow> thread_exit now rc S = Ret S' \<Longrightarrow> kstep now (Exit rc) S S'"
| set_priority: "not_idle S \<Longrightarrow> thread_set_priority now p S = Ret S' \<Longrightarrow> kstep now (SetPriority p) S S'"
| set_real_time: "thread_set_real_time now (Some t) S = Ret (r, S') \<Longrightarrow> kstep now (SetRealTime t) S S'"
| create: "unused_thread S t \<Longrightarrow> p < NUM_PRIORITIES \<Longrightarrow> thread_create_etc t mem p (env S) = (r, s')
    \<Longrightarrow> kstep now (Create t mem p) S (S\<lparr>env := s'\<rparr>)"
| join: "may_block S \<Longrightarrow> thread_join now t d S = Ret (p, rc, S') \<Longrightarrow> kstep now (Join t d) S S'"
| join_finish: "thread_join_finish now t d S = Ret (r, rc, S') \<Longrightarrow> kstep now (JoinFinish t d) S S'"
| detach: "thread_detach now t S = Ret (r, S') \<Longrightarrow> kstep now (Detach t) S S'"
| tick: "timer_tick kernel_callbacks now S = Some (Ret (r, S')) \<Longrightarrow> kstep now Tick S S'"

inductive_cases kstepE: "kstep now op S S'"

text \<open>Runs, each step at its own time.\<close>

inductive kreach :: "kst \<Rightarrow> kst \<Rightarrow> bool" for S0 where
  start: "kreach S0 S0"
| step: "kreach S0 S \<Longrightarrow> kstep now op S S' \<Longrightarrow> kreach S0 S'"

lemma wake_one_inv:
  assumes "kernel_inv S" and "b \<longrightarrow> not_idle S" and "wait_queue_wake_one now q b err S = Ret (n, S')"
  shows "kernel_inv S'"
proof (cases "wlist (wq (env S) q)")
  case Nil
  then show ?thesis using assms by (simp add: wait_queue_wake_one_def)
next
  case (Cons t ts)
  then show ?thesis
    using wait_queue_wake_one_inv [OF assms(1) _ Cons, of b now err] assms(2,3) by (auto simp: not_idle_def)
qed

lemma wake_all_inv:
  assumes "kernel_inv S" and "b \<longrightarrow> not_idle S" and "wait_queue_wake_all now q b err S = Ret (n, S')"
  shows "kernel_inv S'"
  using wait_queue_wake_all_inv [OF assms(1), of b now q err] assms(2,3) by (auto simp: not_idle_def)

lemma block_inv:
  assumes "kernel_inv S" and "may_block S" and "wait_queue_block now q d S = Ret (p, S')"
  shows "kernel_inv S'"
  using wait_queue_block_inv [OF assms(1), of d now q] assms running_state [OF assms(1)]
  by (cases "d = 0") (auto simp: may_block_def wait_queue_block_def)

lemma kstep_inv: "kstep now op S S' \<Longrightarrow> kernel_inv S \<Longrightarrow> kernel_inv S'"
proof (induction rule: kstep.induct)
  case (yield now S S')
  then show ?case using thread_yield_inv [of S now] by auto
next
  case (preempt now S S')
  then show ?case using thread_preempt_inv [of S now] by auto
next
  case (resume t now dis S r S')
  then show ?case using thread_resume_inv [of S t now dis] by (auto simp: thread_resume_def split: if_splits)
next
  case (sleep S now d S')
  then show ?case using thread_sleep_inv [of S now d] by (auto simp: may_block_def)
next
  case (block S now q d p S')
  then show ?case using block_inv by blast
next
  case (finish now d S r S')
  then show ?case using wait_queue_block_finish_inv by blast
next
  case (wake_one b S now q err n S')
  then show ?case using wake_one_inv by blast
next
  case (wake_all b S now q err n S')
  then show ?case using wake_all_inv by blast
next
  case (exit S now rc S')
  then show ?case using thread_exit_inv [of S now rc] by (auto simp: may_block_def)
next
  case (set_priority S now p S')
  then show ?case using thread_set_priority_inv [of S now p] by (auto simp: not_idle_def)
next
  case (set_real_time now t S r S')
  then show ?case using thread_set_real_time_inv [of S t now] by (auto simp: thread_set_real_time_def split: if_splits)
next
  case (create S t p mem r s' now)
  then show ?case using thread_create_inv [of S t p mem] by simp
next
  case (join S now t d p rc S')
  then show ?case using thread_join_inv by (auto simp: may_block_def)
next
  case (join_finish now t d S r rc S')
  then show ?case using thread_join_finish_inv by blast
next
  case (detach now t S r S')
  then show ?case using thread_detach_inv [of S t now] by (auto simp: thread_detach_def split: if_splits)
next
  case (tick now S r S')
  then show ?case using timer_tick_kernel by blast
qed

section \<open>Boot\<close>

text \<open>The state in which the boot thread, now the idle thread, first gives up the processor.\<close>

definition boot_state :: "nat \<Rightarrow> kst" where
  "boot_state t = zero_kernel\<lparr>env :=
     \<lparr>thr = (\<lambda>_. zero_thread)
        (idle_thread := (fresh_thread IDLE_PRIORITY)\<lparr>state := THREAD_READY, fl_detached := True, fl_idle := True\<rparr>,
         t := (fresh_thread DEFAULT_PRIORITY)\<lparr>state := THREAD_READY, fl_detached := True\<rparr>),
      thread_list = [t, idle_thread], run_queue = (\<lambda>_. [])(DEFAULT_PRIORITY := [t]),
      run_queue_bitmap = push_bit DEFAULT_PRIORITY 1, wq = (\<lambda>_. \<lparr>wlist = [], wcount = 0\<rparr>),
      current = idle_thread, panicked = False\<rparr>\<rparr>"

lemma const_upd: "(\<lambda>_. w)(x := w) = (\<lambda>_. w)"
  by (rule ext) simp

lemma lk_main_boot:
  assumes "t \<noteq> idle_thread"
  shows "lk_main now t = thread_resched now (boot_state t)"
  using assms
    by (simp add: lk_main_def kernel_init_def thread_init_def timer_init_def timer_initialize_def
        thread_init_early_def zero_kernel_def on_sched_def upd_thr_def upd_wq_def wait_queue_init_def
        thread_create_etc_def thread_detach_def wait_queue_wake_all_def thread_resume_def fresh_thread_def
        thread_become_idle_def thread_yield_def thread_is_idle_def boot_state_def set_state_def
        insert_in_run_queue_head_def insertable_def in_list_def list_ex_iff running_ok_def Let_def fun_upd_twist const_upd
        del: push_bit_of_1)

lemma boot_bit: "bit (push_bit DEFAULT_PRIORITY 1 :: u32) p \<longleftrightarrow> p = DEFAULT_PRIORITY"
  using bit_set_or [of 0 DEFAULT_PRIORITY p] by (auto simp: DEFAULT_PRIORITY_def NUM_PRIORITIES_def)

lemma lk_main_kernel_inv:
  assumes "t \<noteq> idle_thread"
  shows "\<exists>S. lk_main now t = Ret S \<and> kernel_inv S \<and> current (env S) = t"
proof -
  have "sched_inv None (env (boot_state t))"
    unfolding sched_inv_def boot_state_def
    using assms boot_bit
    by (auto simp: zero_thread_def fresh_thread_def idle_thread_def IDLE_PRIORITY_def DEFAULT_PRIORITY_def NUM_PRIORITIES_def
        simp del: push_bit_of_1)
  moreover have "timers_ok (boot_state t)"
    using assms unfolding timers_ok_def boot_state_def
    by (auto simp: zero_kernel_def thread_is_real_time_or_idle_def zero_thread_def fresh_thread_def idle_thread_def)
  ultimately obtain S where S: "thread_resched now (boot_state t) = Ret S" "kernel_inv S"
    "best_choice (env (boot_state t)) (current (env S))"
    using thread_resched_ok by blast
  have "runnable (env (boot_state t)) u \<longleftrightarrow> u = t" for u
    using assms by (auto simp: runnable_def boot_state_def zero_thread_def fresh_thread_def)
  then have "current (env S) = t" using S(3) by (auto simp: best_choice_def split: if_splits)
  then show ?thesis using S lk_main_boot [OF assms] by simp
qed

lemma kreach_inv: "kreach S0 S \<Longrightarrow> kernel_inv S0 \<Longrightarrow> kernel_inv S"
  by (induction rule: kreach.induct) (auto intro: kstep_inv)

text \<open>Claim C24: after \<^verbatim>\<open>lk_main\<close> has started the scheduler, with \<^verbatim>\<open>bootstrap2\<close> on the
processor, every sequence of scheduler calls and timer interrupts keeps the kernel
invariant: the run queues hold exactly the ready threads, each once and at its priority, the
bitmap marks exactly the non-empty queues, each wait queue holds exactly the threads blocked
on it and counts them, one thread runs, the preemption timer is queued exactly while that
thread is neither real-time nor idle, every sleeping thread has its timer queued, no timer is queued
for a thread that is over, and no assertion in the run-queue and wake-up helpers or in a timer
callback has failed.\<close>

theorem scheduler_invariant:
  assumes "t \<noteq> idle_thread"
  shows "\<exists>S0. lk_main now t = Ret S0 \<and> current (env S0) = t \<and> (\<forall>S. kreach S0 S \<longrightarrow> kernel_inv S)"
  using lk_main_kernel_inv [OF assms, of now] kreach_inv by blast

theorem scheduler_invariant_witness:
  "\<exists>S0. lk_main 0 1 = Ret S0 \<and> current (env S0) = 1 \<and> (\<forall>S. kreach S0 S \<longrightarrow> kernel_inv S)"
  using scheduler_invariant [of 1 0] by (simp add: idle_thread_def)

section \<open>Progress\<close>

text \<open>
  The conditions under which a call may be made. The calls on a named thread need its structure to be
  live, a thread that is over cannot be resumed, and a join that ended without an error finds the
  thread dead and not yet freed by somebody else.
\<close>

definition join_ready :: "nat \<Rightarrow> kst \<Rightarrow> bool" where
  "join_ready t S \<longleftrightarrow> wait_queue_block_ret (thr (env S) (current (env S))) < 0
     \<or> magic (thr (env S) t) \<and> state (thr (env S) t) = THREAD_DEATH"

fun enabled :: "u32 \<Rightarrow> kop \<Rightarrow> kst \<Rightarrow> bool" where
  "enabled now (Resume dis t) S =
     (t \<noteq> idle_thread \<and> magic (thr (env S) t) \<and> state (thr (env S) t) \<noteq> THREAD_DEATH)"
| "enabled now (Sleep d) S = may_block S"
| "enabled now (Block q d) S = may_block S"
| "enabled now (Join t d) S = (may_block S \<and> magic (thr (env S) t))"
| "enabled now (JoinFinish t d) S = join_ready t S"
| "enabled now (Detach t) S = magic (thr (env S) t)"
| "enabled now (SetRealTime t) S = magic (thr (env S) t)"
| "enabled now (WakeOne q b err) S = (b \<longrightarrow> not_idle S)"
| "enabled now (WakeAll q b err) S = (b \<longrightarrow> not_idle S)"
| "enabled now (Exit rc) S = may_block S"
| "enabled now (SetPriority p) S = not_idle S"
| "enabled now (Create t mem p) S = (unused_thread S t \<and> p < NUM_PRIORITIES)"
| "enabled now Tick S = (\<exists>base. tick_pre base now S \<and> since base now < 2 ^ 31)"
| "enabled now _ S = True"

lemma block_returns:
  assumes "kernel_inv S" and "may_block S"
  shows "\<exists>p S'. wait_queue_block now q d S = Ret (p, S')"
  using wait_queue_block_inv [OF assms(1), of d now q] assms(2)
  by (cases "d = 0") (auto simp: may_block_def wait_queue_block_def running_state [OF assms(1)])

lemma join_returns:
  assumes "kernel_inv S" and "may_block S" and "magic (thr (env S) t)"
  shows "\<exists>p rc S'. thread_join now t d S = Ret (p, rc, S')"
  using block_returns [OF assms(1,2), of now "RetQ t" d] reap_returns [OF assms(1,3)] assms(3)
  by (auto simp: thread_join_def)

lemma join_finish_returns:
  assumes k: "kernel_inv S" and j: "join_ready t S"
  shows "\<exists>r rc S'. thread_join_finish now t d S = Ret (r, rc, S')"
proof -
  obtain e S1 where f: "wait_queue_block_finish now d S = (e, S1)" by fastforce
  have S1: "kernel_inv S1" "env S1 = env S" "e = wait_queue_block_ret (thr (env S) (current (env S)))"
    using wait_queue_block_finish_inv [OF k f] by auto
  show ?thesis using j f S1 reap_returns [OF S1(1), of t] by (auto simp: thread_join_finish_def join_ready_def)
qed

lemma wake_one_returns:
  assumes "kernel_inv S" and "b \<longrightarrow> not_idle S"
  shows "\<exists>n S'. wait_queue_wake_one now q b err S = Ret (n, S')"
proof (cases "wlist (wq (env S) q)")
  case Nil
  then show ?thesis by (simp add: wait_queue_wake_one_def)
next
  case (Cons t ts)
  then show ?thesis using wait_queue_wake_one_inv [OF assms(1) _ Cons, of b now err] assms(2)
    by (auto simp: not_idle_def)
qed

lemma kstep_progress:
  assumes k: "kernel_inv S" and e: "enabled now op S"
  shows "\<exists>S'. kstep now op S S'"
proof (cases op)
  case Yield
  then show ?thesis using thread_yield_inv [OF k, of now] kstep.yield by blast
next
  case Preempt
  then show ?thesis using thread_preempt_inv [OF k, of now] kstep.preempt by blast
next
  case (Resume dis t)
  then show ?thesis using thread_resume_inv [OF k, of t now dis] e by (auto intro: kstep.resume)
next
  case (Sleep d)
  then show ?thesis using thread_sleep_inv [OF k, of now d] e kstep.sleep [of S now d] by (auto simp: may_block_def)
next
  case (Block q d)
  then show ?thesis using block_returns [OF k, of now q d] e by (auto intro: kstep.block)
next
  case (Finish d)
  then show ?thesis by (metis kstep.finish surj_pair)
next
  case (WakeOne q b err)
  then show ?thesis using wake_one_returns [OF k, of b now q err] e by (auto intro: kstep.wake_one)
next
  case (WakeAll q b err)
  then show ?thesis using wait_queue_wake_all_inv [OF k, of b now q err] e kstep.wake_all [of b S now q err]
    by (auto simp: not_idle_def)
next
  case (Exit rc)
  then show ?thesis using thread_exit_inv [OF k, of now rc] e kstep.exit [of S now rc] by (auto simp: may_block_def)
next
  case (SetPriority p)
  then show ?thesis using thread_set_priority_inv [OF k, of now p] e kstep.set_priority [of S now p]
    by (auto simp: not_idle_def)
next
  case (SetRealTime t)
  then show ?thesis using thread_set_real_time_inv [OF k, of t now] e by (auto intro: kstep.set_real_time)
next
  case (Create t mem p)
  obtain r s' where "thread_create_etc t mem p (env S) = (r, s')" by fastforce
  then show ?thesis using Create e by (auto intro: kstep.create)
next
  case (Join t d)
  then show ?thesis using join_returns [where t=t and now=now and d=d, OF k] e by (auto intro: kstep.join)
next
  case (JoinFinish t d)
  then show ?thesis using join_finish_returns [where t=t and now=now and d=d, OF k] e by (auto intro: kstep.join_finish)
next
  case (Detach t)
  then show ?thesis using thread_detach_inv [OF k, of t now] e by (auto intro: kstep.detach)
next
  case Tick
  then obtain base where b: "tick_pre base now S" "since base now < 2 ^ 31" using e by auto
  then obtain r S' where "tick_loop kernel_callbacks now False S = Some (Ret (r, S'))" "tick_pre base now S'"
    "\<forall>t \<in> set (timer_queue S'). \<not> due now (tmr S') t"
    using tick_loop_ends [OF kernel_callbacks_quiet] by blast
  then have "\<exists>x. timer_tick kernel_callbacks now S = Some (Ret (r, S'\<lparr>oneshot := x\<rparr>))"
    using timer_tick_ends [of kernel_callbacks now S r S' base] b(2) by (simp add: tick_pre_def)
  then show ?thesis using Tick kstep.tick by blast
qed

text \<open>Claim C25: no scheduler call panics or fails to return when its caller meets its conditions. In a
state with the kernel invariant, every call whose conditions hold, and the timer interrupt when the
clock is within half a turn of the queued timers, takes the kernel to a state, which again has the
invariant; on the way none of the modelled assertions fails, neither those of the call nor those of
the helpers and timer callbacks it runs. The conditions are the callers' obligations: only a thread
other than the idle thread, with no wait in progress, blocks, sleeps, joins or exits; only such a thread
reschedules while it wakes others or changes its priority; the thread that is resumed, joined, detached
or made real-time has a live structure, and the resumed one is not dead; the thread whose join ended
without an error is dead and has not been freed by a second joiner; a new thread gets an unused address
and a valid priority. Not represented are the assertions that a lock is held or interrupts are off, and
those on the magic numbers of timers and wait queues.\<close>

theorem scheduler_calls_return:
  assumes "kernel_inv S" and "enabled now op S"
  shows "\<exists>S'. kstep now op S S' \<and> kernel_inv S'"
  using kstep_progress [OF assms] kstep_inv assms(1) by blast

theorem scheduler_calls_return_witness:
  "\<exists>S S'. kernel_inv S \<and> kstep 0 (Sleep 20) S S' \<and> kernel_inv S'"
proof -
  obtain S where S: "lk_main 0 1 = Ret S" "kernel_inv S" "current (env S) = 1"
    using lk_main_kernel_inv [of 1 0] by (auto simp: idle_thread_def)
  have "state (thr (env S) 1) = THREAD_RUNNING" using running_state [OF S(2)] S(3) by simp
  have "set (timer_queue S) \<subseteq> {preempt_timer}"
    using S(1) lk_main_boot [of 1 0] by (auto simp: idle_thread_def thread_resched_def boot_state_def zero_kernel_def
      timer_set_periodic_def timer_set_def insert_timer_in_queue_def timer_cancel_def Let_def
      split: prod.splits if_splits option.splits)
  then have "enabled 0 (Sleep 20) S" using S(3) by (auto simp: may_block_def idle_thread_def preempt_timer_def)
  then show ?thesis using scheduler_calls_return [OF S(2)] S(2) by blast
qed

section \<open>Who runs\<close>

text \<open>The calls that end in \<^verbatim>\<open>thread_resched\<close>.\<close>

fun reschedules :: "kop \<Rightarrow> kst \<Rightarrow> bool" where
  "reschedules Yield S = True"
| "reschedules Preempt S = True"
| "reschedules (Sleep d) S = True"
| "reschedules (Block q d) S = (d \<noteq> 0)"
| "reschedules (WakeOne q b err) S = (b \<and> wlist (wq (env S) q) \<noteq> [])"
| "reschedules (WakeAll q b err) S = (b \<and> wlist (wq (env S) q) \<noteq> [])"
| "reschedules (Exit rc) S = True"
| "reschedules (SetPriority p) S = True"
| "reschedules (Resume dis t) S = (\<not> dis \<and> state (thr (env S) t) = THREAD_SUSPENDED)"
| "reschedules _ S = False"

lemma resume_highest:
  assumes "kernel_inv S" and "t \<noteq> idle_thread" and "thread_resume now False t S = Ret (r, S')"
    and "state (thr (env S) t) = THREAD_SUSPENDED"
  shows "highest_running (env S')"
  using thread_yield_inv [OF ready_other [OF assms(1,2,4)], of now] assms(3,4)
  by (auto simp: thread_resume_def Let_def split: if_splits)

text \<open>Claim C26: whenever a scheduler call reschedules, the thread that then has the processor
has the highest priority of all ready threads, and the idle thread has it only when no other
thread is ready.\<close>

theorem highest_priority_runs:
  assumes "kernel_inv S" and "kstep now op S S'" and "reschedules op S"
  shows "highest_running (env S')"
  using assms(2,1,3)
proof (induction rule: kstep.induct)
  case (wake_one b S now q err n S')
  then obtain t ts where "wlist (wq (env S) q) = t # ts" by (cases "wlist (wq (env S) q)") auto
  then show ?case using wake_one wait_queue_wake_one_inv [of S b q t ts now err] by (auto simp: not_idle_def)
next
  case (block S now q d p S')
  then show ?case using wait_queue_block_inv [of S d now q] by (auto simp: may_block_def)
next
  case (resume t now dis S r S')
  then show ?case using resume_highest by auto
next
  case (yield now S S')
  then show ?case using thread_yield_inv [of S now] by auto
next
  case (preempt now S S')
  then show ?case using thread_preempt_inv [of S now] by auto
next
  case (sleep S now d S')
  then show ?case using thread_sleep_inv [of S now d] by (auto simp: may_block_def)
next
  case (exit S now rc S')
  then show ?case using thread_exit_inv [of S now rc] by (auto simp: may_block_def)
next
  case (set_priority S now p S')
  then show ?case using thread_set_priority_inv [of S now p] by (auto simp: not_idle_def)
next
  case (wake_all b S now q err n S')
  then show ?case using wait_queue_wake_all_inv [of S b now q err] by (auto simp: not_idle_def)
qed simp_all

theorem highest_priority_runs_witness:
  "\<exists>S S'. kstep 0 Yield S S' \<and> highest_running (env S') \<and> kernel_inv S'"
proof -
  obtain S where "kernel_inv S" using lk_main_kernel_inv [of 1 0] by (auto simp: idle_thread_def)
  moreover obtain S' where "kstep 0 Yield S S'" using kstep_progress [OF \<open>kernel_inv S\<close>, of 0 Yield] by auto
  ultimately show ?thesis using highest_priority_runs [of S 0 Yield S'] kstep_inv [of 0 Yield S S']
    by auto
qed

section \<open>Sleepers\<close>

text \<open>A timer callback leaves a thread's state alone or makes the thread ready.\<close>

lemma callback_state:
  assumes "kernel_callbacks cb t now a S = (r, S')"
  shows "state (thr (env S') u) \<in> {state (thr (env S) u), THREAD_READY}"
  using assms
  by (auto simp: kernel_callbacks_def thread_timer_tick_def thread_sleep_handler_def on_sched_def Let_def
      upd_thr_def set_state_def insert_in_run_queue_head_def wait_queue_timeout_handler_def
      thread_unblock_from_wait_queue_def wake_thread_def upd_wq_def split: if_splits)

lemma fire_state:
  assumes "fire_head kernel_callbacks S now t = Ret (r, S')"
  shows "state (thr (env S') u) \<in> {state (thr (env S) u), THREAD_READY}"
proof -
  let ?S = "S\<lparr>timer_queue := remove1 t (timer_queue S)\<rparr>"
  obtain cb r' S1 where c: "kernel_callbacks cb t now (arg (tmr S t)) ?S = (r', S1)" "env S' = env S1"
    using assms
    by (auto simp: fire_head_def Let_def requeue_periodic_def insert_timer_in_queue_def
        split: option.splits prod.splits if_splits)
  then show ?thesis using callback_state [OF c(1), of u] by simp
qed

text \<open>Claim C27: a thread that called \<^verbatim>\<open>thread_sleep\<close> does not sleep past its time: the first
timer interrupt at or after the expiry of its timer ends and leaves the thread ready to run.\<close>

theorem sleeper_wakes:
  assumes k: "kernel_inv S" and s: "state (thr (env S) t) = THREAD_SLEEPING"
    and due: "due now (tmr S) (Suc t)" and pre: "tick_pre base now S" "since base now < 2 ^ 31"
  shows "\<exists>r S'. timer_tick kernel_callbacks now S = Some (Ret (r, S')) \<and> kernel_inv S'
    \<and> state (thr (env S') t) = THREAD_READY"
proof -
  let ?I = "\<lambda>S. kernel_inv S \<and> state (thr (env S) t) \<in> {THREAD_SLEEPING, THREAD_READY}"
  obtain r S1 where l: "tick_loop kernel_callbacks now False S = Some (Ret (r, S1))"
    "set (timer_queue S1) = {u \<in> set (timer_queue S). \<not> due now (tmr S) u \<or> periodic_time (tmr S u) \<noteq> 0}"
    "tick_pre base now S1" "\<forall>u \<in> set (timer_queue S1). \<not> due now (tmr S1) u"
    using tick_loop_ends [OF kernel_callbacks_quiet pre] by blast
  have "?I S1"
  proof -
    have "\<exists>r s'. fire_head kernel_callbacks X now u = Ret (r, s') \<and> ?I s'"
      if "?I X" "timer_queue X = u # q" for X u q
      using fire_kernel [of X u q now] fire_state [of X now u _ _ t] that by fastforce
    from tick_loop_preserves [where I="?I", OF this l(1)] show ?thesis using k s by auto
  qed
  moreover have "Suc t \<notin> set (timer_queue S1)"
    using l(2) due kernel_invD(2) [OF k] by (auto simp: timers_ok_def)
  ultimately have "kernel_inv S1" "state (thr (env S1) t) = THREAD_READY"
    using kernel_invD(2) [of S1] by (auto simp: timers_ok_def)
  moreover obtain x where "timer_tick kernel_callbacks now S = Some (Ret (r, S1\<lparr>oneshot := x\<rparr>))"
    using timer_tick_ends [OF l(1) _ pre(2) l(4)] l(3) by (auto simp: tick_pre_def)
  ultimately show ?thesis by (auto simp: kernel_inv_def timers_ok_def)
qed

text \<open>Thread 1 asleep until time 20, the idle thread on the processor.\<close>

definition asleep_state :: kst where
  "asleep_state = zero_kernel\<lparr>timer_queue := [2],
     tmr := (tmr zero_kernel)(2 := \<lparr>scheduled_time = 20, periodic_time = 0,
       callback = Some CB_THREAD_SLEEP_HANDLER, arg = 1\<rparr>), oneshot := Some 20,
     env := (env zero_kernel)\<lparr>thr := (\<lambda>_. zero_thread)
        (0 := (fresh_thread 0)\<lparr>state := THREAD_RUNNING, fl_idle := True\<rparr>,
         1 := (fresh_thread 16)\<lparr>state := THREAD_SLEEPING\<rparr>)\<rparr>\<rparr>"

lemma asleep_state_inv: "kernel_inv asleep_state"
proof -
  have "sched_inv (Some 0) (env asleep_state)"
    unfolding sched_inv_def asleep_state_def zero_kernel_def
    by (auto simp: zero_thread_def fresh_thread_def idle_thread_def)
  moreover have "timers_ok asleep_state"
    unfolding timers_ok_def asleep_state_def zero_kernel_def
    by (auto simp: zero_thread_def fresh_thread_def idle_thread_def preempt_timer_def
        thread_is_real_time_or_idle_def numeral_2_eq_2)
  ultimately show ?thesis by (simp add: kernel_inv_def) (simp add: asleep_state_def zero_kernel_def idle_thread_def)
qed

theorem sleeper_wakes_witness:
  "\<exists>r S'. timer_tick kernel_callbacks 30 asleep_state = Some (Ret (r, S')) \<and> kernel_inv S'
    \<and> state (thr (env S') 1) = THREAD_READY"
  by (rule sleeper_wakes [where base=0, OF asleep_state_inv])
     (simp_all add: asleep_state_def due_def TIME_LT_def tick_pre_def queue_ok_def key_def since_def
      zero_kernel_def)

section \<open>Round robin\<close>

lemma resched_env: "thread_resched now S = Ret S' \<Longrightarrow> env S' = snd (pick_next (env S))"
  by (auto simp: thread_resched_def Let_def timer_set_periodic_def timer_set_def insert_timer_in_queue_def
      split: prod.splits if_splits)

lemma pick_next_queue:
  "run_queue (snd (pick_next s)) = run_queue (snd (get_top_thread s))"
  by (simp add: pick_next_def upd_thr_def Let_def split: prod.split)

lemma pick_next_current: "current (snd (pick_next s)) = fst (get_top_thread s)"
proof -
  have "current (snd (top_of s b)) = current s" for b
    by (induction s b rule: top_of.induct) (subst top_of.simps, auto simp: Let_def split: list.splits)
  then show ?thesis by (auto simp: pick_next_def get_top_thread_def upd_thr_def Let_def split: prod.split)
qed

text \<open>Threads of one priority take turns. When the running thread yields and another
thread of its priority is ready, with none of higher priority, the processor goes to the one
that waited longest, the first of the run queue, and the yielding thread goes to the end of
the queue.\<close>

theorem yield_round_robin:
  assumes k: "kernel_inv S" and c: "current (env S) \<noteq> idle_thread"
    and q: "run_queue (env S) (priority (thr (env S) (current (env S)))) = u # us"
    and top: "\<forall>t. runnable (env S) t \<longrightarrow> priority (thr (env S) t) \<le> priority (thr (env S) (current (env S)))"
  shows "\<exists>S'. thread_yield now S = Ret S' \<and> current (env S') = u
    \<and> run_queue (env S') (priority (thr (env S) (current (env S)))) = us @ [current (env S)]"
proof -
  let ?f = "\<lambda>t. t\<lparr>state := THREAD_READY, remaining_quantum := 0\<rparr>"
  let ?c = "current (env S)" and ?p = "priority (thr (env S) (current (env S)))"
  let ?s = "requeue_current True ?f (env S)"
  have sq: "run_queue ?s = (run_queue (env S))(?p := (u # us) @ [?c])"
    using c q by (simp add: requeue_current_def insert_at_def insert_in_run_queue_tail_def upd_thr_def Let_def)
  have si: "sched_inv None ?s"
    using requeue_current_ok [OF k, where f="?f" and tail=True] priority_lt [OF k] by simp
  have ne: "run_queue_bitmap ?s \<noteq> 0" using sched_invD(3) [OF si, of ?p] sq by auto
  obtain t ts p where g: "run_queue ?s p = t # ts"
    "get_top_thread ?s = (t, ?s\<lparr>run_queue := (run_queue ?s)(p := ts),
       run_queue_bitmap := (if ts = [] then run_queue_bitmap ?s AND NOT (push_bit p 1) else run_queue_bitmap ?s)\<rparr>)"
    and best: "\<And>v. v \<noteq> idle_thread \<Longrightarrow> state (thr ?s v) = THREAD_READY \<Longrightarrow> priority (thr ?s v) \<le> p"
    by (rule get_top_some [OF si ne]) blast
  have "u \<in> set (run_queue ?s ?p)" using sq by simp
  then have "?p \<le> p" using sched_invD(2) [OF si, of u ?p] best [of u] by simp
  moreover have "p \<le> ?p"
  proof (rule ccontr)
    assume "\<not> p \<le> ?p"
    then have "t \<in> set (run_queue (env S) p)" using g(1) sq by (auto split: if_splits)
    then show False using sched_invD(2) [OF kernel_invD(1) [OF k], of t p] top \<open>\<not> p \<le> ?p\<close>
      by (auto simp: runnable_def)
  qed
  ultimately have "p = ?p" by simp
  then have "t = u" "ts = us @ [?c]" using g(1) sq by simp_all
  moreover obtain S' where S': "thread_yield now S = Ret S'" using thread_yield_inv [OF k] by blast
  ultimately show ?thesis
    using resched_env [of now _ S'] g(2) \<open>p = ?p\<close> pick_next_queue [of ?s] pick_next_current [of ?s]
    by (simp add: thread_yield_eq [OF k])
qed

definition shared_state :: kst where
  "shared_state = zero_kernel\<lparr>timer_queue := [0],
     tmr := (tmr zero_kernel)(0 := \<lparr>scheduled_time = 10, periodic_time = 10,
       callback = Some CB_THREAD_TIMER_TICK, arg = 0\<rparr>), oneshot := Some 10,
     env := (env zero_kernel)\<lparr>thr := (\<lambda>_. zero_thread)
        (0 := (fresh_thread 0)\<lparr>state := THREAD_READY, fl_idle := True\<rparr>,
         1 := (fresh_thread 16)\<lparr>state := THREAD_RUNNING\<rparr>,
         2 := (fresh_thread 16)\<lparr>state := THREAD_READY\<rparr>),
       run_queue := (\<lambda>_. [])(16 := [2]), run_queue_bitmap := push_bit DEFAULT_PRIORITY 1, current := 1\<rparr>\<rparr>"

lemma shared_state_inv: "kernel_inv shared_state"
proof -
  have "sched_inv (Some 1) (env shared_state)"
    unfolding sched_inv_def shared_state_def zero_kernel_def using boot_bit
    by (auto simp: zero_thread_def fresh_thread_def idle_thread_def DEFAULT_PRIORITY_def NUM_PRIORITIES_def)
  moreover have "timers_ok shared_state"
    unfolding timers_ok_def shared_state_def zero_kernel_def
    by (auto simp: zero_thread_def fresh_thread_def preempt_timer_def thread_is_real_time_or_idle_def)
  ultimately show ?thesis by (simp add: kernel_inv_def) (simp add: shared_state_def zero_kernel_def)
qed

theorem yield_round_robin_witness:
  "\<exists>S'. thread_yield 5 shared_state = Ret S' \<and> current (env S') = 2
    \<and> run_queue (env S') (priority (thr (env shared_state) (current (env shared_state))))
        = [] @ [current (env shared_state)]"
  by (rule yield_round_robin [OF shared_state_inv])
     (auto simp: shared_state_def idle_thread_def fresh_thread_def zero_thread_def zero_kernel_def runnable_def)

end
