(* ===== verification/Sched_Frame.thy ===== *)
theory Sched_Frame
  imports Sched_Steps
begin

text \<open>
  What a scheduler step leaves alone, for clients that keep their own wait queues: a call on
  behalf of somebody else does not touch the client's queues, nor the result of a wait that
  one of its threads has in progress; the timer interrupt may only take a waiter out, with
  the result \<^verbatim>\<open>ERR_TIMED_OUT\<close>.
\<close>

definition active :: "thread_state \<Rightarrow> bool" where
  "active x \<longleftrightarrow> x \<in> {THREAD_READY, THREAD_RUNNING}"

text \<open>\<open>L\<close> are the client's queues, \<open>B\<close> the threads inside one of its waiting calls.\<close>

definition busy_ok :: "(wqid \<Rightarrow> bool) \<Rightarrow> nat set \<Rightarrow> sched \<Rightarrow> bool" where
  "busy_ok L B s \<longleftrightarrow> idle_thread \<notin> B
     \<and> (\<forall>t \<in> B. active (state (thr s t)) \<or> (\<exists>q. L q \<and> t \<in> set (wlist (wq s q))))"

definition busy_frame :: "(wqid \<Rightarrow> bool) \<Rightarrow> nat set \<Rightarrow> sched \<Rightarrow> sched \<Rightarrow> bool" where
  "busy_frame L B s s' \<longleftrightarrow> (\<forall>q. L q \<longrightarrow> wlist (wq s' q) = wlist (wq s q))
     \<and> (\<forall>t \<in> B. wait_queue_block_ret (thr s' t) = wait_queue_block_ret (thr s t)
         \<and> (state (thr s' t) = state (thr s t) \<or> active (state (thr s t)) \<and> active (state (thr s' t))))"

lemma busy_frame_refl [simp]: "busy_frame L B s s"
  by (simp add: busy_frame_def)

lemma busy_frame_trans: "busy_frame L B s s1 \<Longrightarrow> busy_frame L B s1 s2 \<Longrightarrow> busy_frame L B s s2"
  unfolding busy_frame_def by (metis (no_types, lifting))

lemma busy_ok_frame: "busy_ok L B s \<Longrightarrow> busy_frame L B s s' \<Longrightarrow> busy_ok L B s'"
  unfolding busy_ok_def busy_frame_def by (metis (no_types, lifting))

lemma busy_state:
  assumes "busy_ok L B s" and "sched_inv r s" and "t \<in> B"
  shows "state (thr s t) \<in> {THREAD_READY, THREAD_RUNNING, THREAD_BLOCKED}"
    and "t \<in> set (wlist (wq s q)) \<Longrightarrow> L q"
proof -
  have b: "active (state (thr s t)) \<or> (\<exists>q. L q \<and> t \<in> set (wlist (wq s q)))"
    using assms by (auto simp: busy_ok_def)
  then show "state (thr s t) \<in> {THREAD_READY, THREAD_RUNNING, THREAD_BLOCKED}"
    using blocked_waiter [OF assms(2)] by (auto simp: active_def)
  show "t \<in> set (wlist (wq s q)) \<Longrightarrow> L q"
    using b sched_invD(7) [OF assms(2)] by (auto simp: active_def)
qed

lemma busy_frame_upd:
  "t \<notin> B \<Longrightarrow> busy_frame L B s (upd_thr t f s)"
  by (auto simp: busy_frame_def upd_thr_def)

lemma busy_frame_upd_same:
  assumes "wait_queue_block_ret (f (thr s t)) = wait_queue_block_ret (thr s t)"
    and "state (f (thr s t)) = state (thr s t) \<or> active (state (thr s t)) \<and> active (state (f (thr s t)))"
  shows "busy_frame L B s (upd_thr t f s)"
  using assms by (auto simp: busy_frame_def upd_thr_def)

lemma busy_frame_insert: "busy_frame L B s (insert_at tail t s)"
  by (simp add: busy_frame_def)

lemma busy_frame_env: "thr s' = thr s \<Longrightarrow> wq s' = wq s \<Longrightarrow> busy_frame L B s s'"
  by (simp add: busy_frame_def)

lemma busy_frame_assert: "busy_frame L B s (debug_assert x s)"
  by (simp add: busy_frame_env)

lemma resched_frame:
  assumes inv: "sched_inv None (env S)" and r: "thread_resched now S = Ret S'" and B: "idle_thread \<notin> B"
  shows "busy_frame L B (env S) (env S')"
proof -
  obtain n where p: "current (env S') = n" "sched_inv (Some n) (env S')" "best_choice (env S) n"
    "\<forall>t. t \<noteq> n \<longrightarrow> thr (env S') t = thr (env S) t" "same_thread (thr (env S') n) (thr (env S) n)"
    "wq (env S') = wq (env S)"
    using pick_next_ok [OF inv] resched_env [OF r] by auto
  have "active (state (thr (env S) n)) \<and> active (state (thr (env S') n))" if "n \<in> B"
    using p(3) sched_invD(9) [OF p(2), of n] that B
    by (auto simp: active_def best_choice_def runnable_def split: if_splits)
  then show ?thesis using p(4-6) unfolding busy_frame_def same_thread_def by metis
qed

lemma switch_frame:
  assumes "sched_inv None s'" and "thread_resched now S1 = Ret S'" and "env S1 = s'"
    and "busy_frame L B s s'" and "idle_thread \<notin> B"
  shows "busy_frame L B s (env S')"
  using resched_frame [of S1 now S' B L] assms by (auto intro: busy_frame_trans)

section \<open>The calls\<close>

lemma requeue_frame:
  assumes k: "kernel_inv S" and r: "thread_resched now (S\<lparr>env := requeue_current tail f (env S)\<rparr>) = Ret S'"
    and B: "idle_thread \<notin> B"
    and f: "\<And>t. state (f t) = THREAD_READY" "\<And>t. priority t < 32 \<Longrightarrow> priority (f t) < 32"
      "\<And>t. fl_idle (f t) = fl_idle t" "\<And>t. fl_real_time (f t) = fl_real_time t"
      "\<And>t. magic (f t) = magic t" "\<And>t. blocking_wait_queue (f t) = blocking_wait_queue t"
      "\<And>t. wait_queue_block_ret (f t) = wait_queue_block_ret t"
  shows "busy_frame L B (env S) (env S')"
proof -
  have u: "busy_frame L B (env S) (upd_thr (current (env S)) f (env S))"
    using running_state [OF k] f by (intro busy_frame_upd_same) (simp_all add: active_def)
  have "busy_frame L B (env S) (requeue_current tail f (env S))"
    using busy_frame_trans [OF u busy_frame_insert] u by (auto simp: requeue_current_def Let_def)
  then show ?thesis
    using switch_frame [OF _ r refl _ B, of L "env S"]
      requeue_current_ok [where f=f and tail=tail, OF k f(1) f(2) [OF priority_lt [OF k]] f(3-6)] by simp
qed

lemma yield_frame:
  "kernel_inv S \<Longrightarrow> thread_yield now S = Ret S' \<Longrightarrow> idle_thread \<notin> B \<Longrightarrow> busy_frame L B (env S) (env S')"
  by (rule requeue_frame [where f="\<lambda>t. t\<lparr>state := THREAD_READY, remaining_quantum := 0\<rparr>"])
     (simp_all add: thread_yield_eq)

lemma preempt_frame:
  "kernel_inv S \<Longrightarrow> thread_preempt now S = Ret S' \<Longrightarrow> idle_thread \<notin> B \<Longrightarrow> busy_frame L B (env S) (env S')"
  by (rule requeue_frame [where f="\<lambda>t. t\<lparr>state := THREAD_READY\<rparr>"]) (simp_all add: thread_preempt_eq)

lemma set_priority_frame:
  "kernel_inv S \<Longrightarrow> current (env S) \<noteq> idle_thread \<Longrightarrow> thread_set_priority now p S = Ret S' \<Longrightarrow> idle_thread \<notin> B
   \<Longrightarrow> busy_frame L B (env S) (env S')"
  by (rule requeue_frame [where f="\<lambda>t. t\<lparr>priority := clamp_priority p, state := THREAD_READY\<rparr>"])
     (simp_all add: thread_set_priority_eq clamp_lt)

lemma resume_frame:
  assumes k: "kernel_inv S" and t: "t \<noteq> idle_thread" and r: "thread_resume now dis t S = Ret (x, S')"
    and b: "busy_ok L B (env S)"
  shows "busy_frame L B (env S) (env S')"
proof (cases "state (thr (env S) t) = THREAD_SUSPENDED")
  case True
  let ?S = "on_sched (\<lambda>s. insert_in_run_queue_head t (set_state t THREAD_READY s)) S"
  have nb: "t \<notin> B"
    using busy_state(1) [OF b kernel_invD(1) [OF k], of t] True by auto
  have i: "env ?S = insert_at False t (upd_thr t (\<lambda>th. th\<lparr>state := THREAD_READY\<rparr>) (env S))"
    by (simp add: on_sched_def insert_at_def set_state_def)
  have f: "busy_frame L B (env S) (env ?S)"
    unfolding i by (rule busy_frame_trans [OF busy_frame_upd [OF nb] busy_frame_insert])
  show ?thesis
  proof (cases dis)
    case True
    then show ?thesis using f r \<open>state (thr (env S) t) = THREAD_SUSPENDED\<close>
      by (auto simp: thread_resume_def Let_def split: if_splits)
  next
    case False
    then have "thread_yield now ?S = Ret S'"
      using r True by (auto simp: thread_resume_def Let_def split: outcome.splits if_splits)
    moreover have "magic (thr (env S) t)" using r by (auto simp: thread_resume_def split: if_splits)
    ultimately show ?thesis
      using yield_frame [OF ready_other [OF k t True], of now S' B L] busy_frame_trans [OF f] b
      by (simp add: busy_ok_def)
  qed
qed (use r in \<open>simp add: thread_resume_def split: if_splits\<close>)

lemma env_timer_set: "timer_set S now t d p cb a = Ret S' \<Longrightarrow> env S' = env S"
  by (auto simp: timer_set_def insert_timer_in_queue_def Let_def split: if_splits)

lemma env_timer_initialize [simp]: "env (timer_initialize S t) = env S"
  by (simp add: timer_initialize_def)

lemma sleep_frame:
  assumes k: "kernel_inv S" and m: "may_block S" and r: "thread_sleep now d S = Ret S'"
    and B: "idle_thread \<notin> B" "current (env S) \<notin> B"
  shows "busy_frame L B (env S) (env S')"
proof -
  let ?c = "current (env S)" and ?s = "set_state (current (env S)) THREAD_SLEEPING (env S)"
  obtain S1 where s1: "timer_set_oneshot (timer_initialize S (Suc ?c)) now (Suc ?c) d CB_THREAD_SLEEP_HANDLER ?c = Ret S1"
    and r1: "thread_resched now (on_sched (set_state ?c THREAD_SLEEPING) S1) = Ret S'"
    using r by (auto simp: thread_sleep_def Let_def split: outcome.splits if_splits)
  have e: "env (on_sched (set_state ?c THREAD_SLEEPING) S1) = ?s"
    using env_timer_set [OF s1 [unfolded timer_set_oneshot_def]] by (simp add: on_sched_def)
  have "sched_inv None ?s"
    unfolding set_state_def using make_other [OF kernel_invD(1) [OF k]] m priority_lt [OF k]
    by (simp add: may_block_def)
  then show ?thesis
    by (rule switch_frame [OF _ r1 e _ B(1)]) (simp add: set_state_def busy_frame_upd B(2))
qed

lemma enqueue_frame:
  assumes "current s \<notin> B" and "\<not> L q"
  shows "busy_frame L B s (enqueue_current q s)"
  using assms by (auto simp: busy_frame_def enqueue_current_def upd_thr_def upd_wq_def Let_def)

lemma block_resched:
  assumes "wait_queue_block now q d S = Ret (p, S')" and "d \<noteq> 0"
  obtains S1 where "env S1 = enqueue_current q (env S)" and "thread_resched now S1 = Ret S'" and "p = Blocked"
proof (cases "d = INFINITE_TIME")
  case True
  then show ?thesis using assms that [of "on_sched (enqueue_current q) S"]
    by (auto simp: wait_queue_block_def on_sched_def split: outcome.splits if_splits)
next
  case False
  let ?c = "current (env S)"
  let ?S = "timer_initialize (on_sched (enqueue_current q) S) (Suc ?c)"
  obtain S1 where st: "timer_set_oneshot ?S now (Suc ?c) d CB_WAIT_QUEUE_TIMEOUT ?c = Ret S1"
    and "thread_resched now S1 = Ret S'" "p = Blocked"
    using assms False by (auto simp: wait_queue_block_def Let_def split: outcome.splits if_splits)
  moreover have "env S1 = enqueue_current q (env S)"
    using env_timer_set [OF st [unfolded timer_set_oneshot_def]] by (simp add: on_sched_def)
  ultimately show ?thesis using that by blast
qed

lemma block_frame:
  assumes k: "kernel_inv S" and m: "may_block S" and r: "wait_queue_block now q d S = Ret (p, S')"
    and B: "idle_thread \<notin> B" "current (env S) \<notin> B" and q: "\<not> L q"
  shows "busy_frame L B (env S) (env S')"
proof (cases "d = 0")
  case False
  obtain S1 where S1: "env S1 = enqueue_current q (env S)" "thread_resched now S1 = Ret S'"
    using block_resched [OF r False] by blast
  have "sched_inv None (enqueue_current q (env S))"
    using block_current [OF kernel_invD(1) [OF k]] m by (simp add: may_block_def)
  then show ?thesis by (rule switch_frame [OF _ S1(2,1) enqueue_frame [of _ B L, OF B(2) q] B(1)])
qed (use r in \<open>simp add: wait_queue_block_def split: if_splits\<close>)

section \<open>Waking somebody else\<close>

lemma wake_frame: "t \<notin> B \<Longrightarrow> \<not> L q \<Longrightarrow> busy_frame L B s (wake q err t s)"
  by (auto simp: busy_frame_def wake_def unqueue_def wake_thread_def upd_thr_def upd_wq_def
      insert_in_run_queue_head_def Let_def)

lemma fold_wake_frame: "set ts \<inter> B = {} \<Longrightarrow> \<not> L q \<Longrightarrow> busy_frame L B s (fold (wake q err) ts s)"
proof (induction ts arbitrary: s)
  case (Cons t ts)
  then show ?case using wake_frame [of t B L q s err] busy_frame_trans by fastforce
qed simp

lemma not_busy: "busy_ok L B s \<Longrightarrow> sched_inv r s \<Longrightarrow> \<not> L q \<Longrightarrow> set (wlist (wq s q)) \<inter> B = {}"
  using busy_state(2) by blast

lemma maybe_requeue_frame: "kernel_inv S \<Longrightarrow> busy_frame L B (env S) (maybe_requeue b (env S))"
  by (auto simp: maybe_requeue_def set_state_def busy_frame_def upd_thr_def insert_in_run_queue_head_def
      active_def Let_def running_state)

lemma wake_one_frame:
  assumes k: "kernel_inv S" and c: "b \<longrightarrow> not_idle S" and r: "wait_queue_wake_one now q b err S = Ret (n, S')"
    and B: "busy_ok L B (env S)" and q: "\<not> L q"
  shows "busy_frame L B (env S) (env S')"
proof (cases "wlist (wq (env S) q)")
  case Nil
  then show ?thesis using r by (simp add: wait_queue_wake_one_def)
next
  case (Cons t ts)
  let ?s = "wake q err t (maybe_requeue b (env S))"
  have t: "t \<notin> B" using not_busy [OF B kernel_invD(1) [OF k] q] Cons by auto
  have f: "busy_frame L B (env S) ?s"
    by (rule busy_frame_trans [OF maybe_requeue_frame [OF k]]) (rule wake_frame [of _ _ L, OF t q])
  show ?thesis
  proof (cases b)
    case False
    then show ?thesis using f r Cons wake_one_state [OF k Cons, where err=err and b=b]
      by (auto simp: wait_queue_wake_one_def on_sched_def)
  next
    case True
    then have r1: "thread_resched now (S\<lparr>env := ?s\<rparr>) = Ret S'"
      using r Cons wake_one_state [OF k Cons, where err=err and b=b]
      by (auto simp: wait_queue_wake_one_def on_sched_def split: outcome.splits)
    have m: "sched_inv None (maybe_requeue b (env S))" "wq (maybe_requeue b (env S)) = wq (env S)"
      using maybe_requeue_ok [OF k, of b] c True by (auto simp: not_idle_def)
    have "sched_inv None ?s" using wake_inv [OF m(1), of t q err] m(2) Cons by simp
    then show ?thesis using switch_frame [OF _ r1 _ f] B by (simp add: busy_ok_def)
  qed
qed

lemma wake_all_state:
  assumes k: "kernel_inv S" and c: "b \<longrightarrow> not_idle S" and r: "wait_queue_wake_all now q b err S = Ret (n, S')"
  defines "ts \<equiv> wlist (wq (env S) q)"
  defines "s \<equiv> fold (wake q err) ts (maybe_requeue (b \<and> ts \<noteq> []) (env S))"
  shows "if b \<and> ts \<noteq> [] then thread_resched now (S\<lparr>env := s\<rparr>) = Ret S' else env S' = s"
proof -
  have w: "wq (maybe_requeue (b \<and> ts \<noteq> []) (env S)) = wq (env S)"
    by (simp add: maybe_requeue_def insert_in_run_queue_head_def set_state_def upd_thr_def Let_def)
  have "0 < wcount (wq (env S) q) \<longleftrightarrow> ts \<noteq> []"
    using sched_invD(6) [OF kernel_invD(1) [OF k], of q] by (simp add: ts_def)
  then have e: "wake_list ts err (upd_wq q (\<lambda>w. w\<lparr>wlist := [], wcount := wcount w - int (length ts)\<rparr>)
      (if b \<and> 0 < wcount (wq (env S) q) then insert_in_run_queue_head (current (env S))
         (set_state (current (env S)) THREAD_READY (env S)) else env S)) = s"
    using wake_list_fold [of "maybe_requeue (b \<and> ts \<noteq> []) (env S)" q ts err] w
    by (simp add: maybe_requeue_def s_def ts_def)
  have "sched_inv (if b \<and> ts \<noteq> [] then None else Some (current (env S))) (maybe_requeue (b \<and> ts \<noteq> []) (env S))"
    using maybe_requeue_ok [OF k, of "b \<and> ts \<noteq> []"] c by (simp add: not_idle_def)
  then have "sched_inv (if b \<and> ts \<noteq> [] then None else Some (current (env S))) s"
    unfolding s_def using w sched_invD(5) [OF kernel_invD(1) [OF k], of q] by (intro fold_wake_inv) (simp_all add: ts_def)
  then have "wcount (wq s q) = 0"
    using sched_invD(6) [of _ s q] fold_wake_wlist [of "maybe_requeue (b \<and> ts \<noteq> []) (env S)" q ts "[]" err] w
    by (simp add: s_def ts_def)
  then show ?thesis using r e
    by (auto simp: wait_queue_wake_all_def on_sched_def Let_def ts_def split: outcome.splits if_splits)
qed

lemma wake_all_frame:
  assumes k: "kernel_inv S" and c: "b \<longrightarrow> not_idle S" and r: "wait_queue_wake_all now q b err S = Ret (n, S')"
    and B: "busy_ok L B (env S)" and q: "\<not> L q"
  shows "busy_frame L B (env S) (env S')"
proof -
  let ?ts = "wlist (wq (env S) q)" and ?b = "b \<and> wlist (wq (env S) q) \<noteq> []"
  let ?s = "fold (wake q err) ?ts (maybe_requeue ?b (env S))"
  have nb: "set ?ts \<inter> B = {}" by (rule not_busy [OF B kernel_invD(1) [OF k] q])
  have f: "busy_frame L B (env S) ?s"
    by (rule busy_frame_trans [OF maybe_requeue_frame [OF k]]) (rule fold_wake_frame [of _ _ L, OF nb q])
  show ?thesis
  proof (cases ?b)
    case False
    then show ?thesis using f wake_all_state [OF k c r] by (simp split: if_splits)
  next
    case True
    then have r1: "thread_resched now (S\<lparr>env := ?s\<rparr>) = Ret S'" using wake_all_state [OF k c r] by simp
    have m: "sched_inv None (maybe_requeue ?b (env S))" "wq (maybe_requeue ?b (env S)) = wq (env S)"
      using maybe_requeue_ok [OF k, of ?b] c True by (auto simp: not_idle_def)
    have "distinct ?ts" using sched_invD(5) [OF kernel_invD(1) [OF k]] .
    then have "sched_inv None ?s" using fold_wake_inv [OF m(1), of ?ts q err] m(2) by simp
    then show ?thesis using switch_frame [OF _ r1 _ f] B by (simp add: busy_ok_def)
  qed
qed

section \<open>Life of a thread\<close>

lemma exit_frame:
  assumes k: "kernel_inv S" and c: "may_block S" and r: "thread_exit now rc S = Ret S'"
    and B: "busy_ok L B (env S)" "current (env S) \<notin> B" and q: "\<And>t. \<not> L (RetQ t)"
  shows "busy_frame L B (env S) (env S')"
proof -
  let ?c = "current (env S)"
  let ?s = "upd_thr ?c (\<lambda>t. t\<lparr>state := THREAD_DEATH, retcode := rc\<rparr>) (env S)"
  have i: "idle_thread \<notin> B" using B(1) by (simp add: busy_ok_def)
  have d: "sched_inv None ?s" using dead_current(1) [OF k] c by (simp add: may_block_def)
  have f: "busy_frame L B (env S) ?s" by (rule busy_frame_upd [OF B(2)])
  show ?thesis
  proof (cases "fl_detached (thr (env S) ?c)")
    case True
    let ?s' = "upd_thr ?c (\<lambda>t. t\<lparr>magic := False\<rparr>) (?s\<lparr>thread_list := remove1 ?c (thread_list ?s)\<rparr>)"
    have r1: "thread_resched now (S\<lparr>env := ?s'\<rparr>) = Ret S'"
      using r True by (simp add: thread_exit_def on_sched_def Let_def upd_thr_def split: if_splits)
    have "sched_inv None ?s'" using d by (intro sched_inv_frame) (simp_all add: upd_thr_def)
    moreover have "busy_frame L B (env S) ?s'"
      using B(2) by (auto simp: busy_frame_def upd_thr_def)
    ultimately show ?thesis using switch_frame [OF _ r1 _ _ i] by simp
  next
    case False
    let ?ts = "wlist (wq ?s (RetQ ?c))"
    let ?s' = "fold (wake (RetQ ?c) 0) ?ts ?s"
    have r1: "thread_resched now (S\<lparr>env := ?s'\<rparr>) = Ret S'"
      using r False wake_all_no_resched [of None "S\<lparr>env := ?s\<rparr>" now "RetQ ?c" 0] d
      by (simp add: thread_exit_def on_sched_def Let_def upd_thr_def split: if_splits)
    have nb: "set ?ts \<inter> B = {}" by (rule not_busy [OF busy_ok_frame [OF B(1) f] d q])
    have "busy_frame L B (env S) ?s'"
      by (rule busy_frame_trans [OF f]) (rule fold_wake_frame [of _ _ L, OF nb q])
    moreover have "sched_inv None ?s'" by (rule fold_wake_inv [OF d subset_refl sched_invD(5) [OF d]])
    ultimately show ?thesis using switch_frame [OF _ r1 _ _ i] by simp
  qed
qed

lemma create_frame:
  assumes "unused_thread S t" and "kernel_inv S" and "busy_ok L B (env S)" and "\<And>t. \<not> L (RetQ t)"
  shows "busy_frame L B (env S) (snd (thread_create_etc t mem p (env S)))"
proof -
  have "t \<notin> B" using assms(1) busy_state(1) [OF assms(3) kernel_invD(1) [OF assms(2)], of t]
    by (auto simp: unused_thread_def)
  then show ?thesis using assms(4)
    by (auto simp: thread_create_etc_def busy_frame_def wait_queue_init_def upd_thr_def upd_wq_def Let_def)
qed

lemma reap_frame: "reap t s = Ret (rc, s') \<Longrightarrow> busy_frame L B s s'"
  by (auto simp: reap_def busy_frame_def upd_thr_def split: if_splits)

lemma join_frame:
  assumes k: "kernel_inv S" and m: "may_block S" and r: "thread_join now t d S = Ret (p, rc, S')"
    and B: "idle_thread \<notin> B" "current (env S) \<notin> B" and q: "\<And>t. \<not> L (RetQ t)"
  shows "busy_frame L B (env S) (env S')"
  using r block_frame [where L=L and q="RetQ t", OF k m _ B q] reap_frame [of t "env S"]
  by (auto simp: thread_join_def split: if_splits outcome.splits prod.splits)

lemma join_finish_frame:
  assumes "thread_join_finish now t d S = Ret (err, rc, S')"
  shows "busy_frame L B (env S) (env S')"
proof -
  obtain e S1 where f: "wait_queue_block_finish now d S = (e, S1)" by fastforce
  then have "env S1 = env S" by (auto simp: wait_queue_block_finish_def Let_def)
  then show ?thesis using assms f reap_frame [of t "env S1"]
    by (auto simp: thread_join_finish_def split: if_splits prod.splits outcome.splits)
qed

lemma detach_frame:
  assumes k: "kernel_inv S" and r: "thread_detach now t S = Ret (x, S')"
    and B: "busy_ok L B (env S)" and q: "\<And>t. \<not> L (RetQ t)"
  shows "busy_frame L B (env S) (env S')"
proof -
  obtain n S1 where w: "wait_queue_wake_all now (RetQ t) False ERR_THREAD_DETACHED S = Ret (n, S1)"
    using r by (auto simp: thread_detach_def split: outcome.splits if_splits)
  have f: "busy_frame L B (env S) (env S1)" using wake_all_frame [OF k _ w B q] by simp
  have "busy_frame L B (env S1) (env S')"
    using r w reap_frame [of t "upd_thr t (\<lambda>th. th\<lparr>fl_detached := False\<rparr>) (env S1)"]
    by (auto simp: thread_detach_def thread_join_def on_sched_def reap_def busy_frame_def upd_thr_def
        split: if_splits)
  then show ?thesis by (rule busy_frame_trans [OF f])
qed

section \<open>The timer interrupt\<close>

definition kept :: "(wqid \<Rightarrow> bool) \<Rightarrow> sched \<Rightarrow> sched \<Rightarrow> nat \<Rightarrow> bool" where
  "kept L s s' t \<longleftrightarrow> (\<forall>q. L q \<longrightarrow> (t \<in> set (wlist (wq s' q)) \<longleftrightarrow> t \<in> set (wlist (wq s q))))
     \<and> wait_queue_block_ret (thr s' t) = wait_queue_block_ret (thr s t)
     \<and> (state (thr s' t) = state (thr s t) \<or> active (state (thr s t)) \<and> active (state (thr s' t)))"

definition timed_out :: "(wqid \<Rightarrow> bool) \<Rightarrow> sched \<Rightarrow> sched \<Rightarrow> nat \<Rightarrow> bool" where
  "timed_out L s s' t \<longleftrightarrow> (\<exists>q. L q \<and> t \<in> set (wlist (wq s q)) \<and> t \<notin> set (wlist (wq s' q)))
     \<and> wait_queue_block_ret (thr s' t) = ERR_TIMED_OUT \<and> active (state (thr s' t))"

definition expire_frame :: "(wqid \<Rightarrow> bool) \<Rightarrow> nat set \<Rightarrow> sched \<Rightarrow> sched \<Rightarrow> bool" where
  "expire_frame L B s s' \<longleftrightarrow> (\<forall>q. L q \<longrightarrow> (\<exists>P. wlist (wq s' q) = filter P (wlist (wq s q))))
     \<and> (\<forall>t \<in> B. kept L s s' t \<or> timed_out L s s' t)"

lemma expire_frame_busy: "busy_frame L B s s' \<Longrightarrow> expire_frame L B s s'"
  unfolding busy_frame_def expire_frame_def kept_def by (auto intro: exI [of _ "\<lambda>_. True"])

lemma expire_frame_sub:
  "expire_frame L B s s' \<Longrightarrow> L q \<Longrightarrow> t \<in> set (wlist (wq s' q)) \<Longrightarrow> t \<in> set (wlist (wq s q))"
  unfolding expire_frame_def by (metis filter_is_subset subsetD)

lemma kept_trans: "kept L s s1 t \<Longrightarrow> kept L s1 s2 t \<Longrightarrow> kept L s s2 t"
  unfolding kept_def by auto

lemma expire_frame_trans:
  assumes a: "expire_frame L B s s1" and b: "expire_frame L B s1 s2" and i: "sched_inv r s1"
  shows "expire_frame L B s s2"
proof -
  have "\<exists>P. wlist (wq s2 q) = filter P (wlist (wq s q))" if L: "L q" for q
  proof -
    obtain P Q where "wlist (wq s1 q) = filter P (wlist (wq s q))" "wlist (wq s2 q) = filter Q (wlist (wq s1 q))"
      using a b L unfolding expire_frame_def by blast
    then show ?thesis by (intro exI [of _ "\<lambda>t. P t \<and> Q t"]) simp
  qed
  moreover have "kept L s s2 t \<or> timed_out L s s2 t" if t: "t \<in> B" for t
  proof -
    consider "kept L s s1 t" "kept L s1 s2 t" | "kept L s s1 t" "timed_out L s1 s2 t"
      | "timed_out L s s1 t" "kept L s1 s2 t" | "timed_out L s s1 t" "timed_out L s1 s2 t"
      using a b t unfolding expire_frame_def by blast
    then show ?thesis
    proof cases
      case 1
      then show ?thesis using kept_trans by blast
    next
      case 2
      then show ?thesis unfolding kept_def timed_out_def by metis
    next
      case 3
      then show ?thesis unfolding kept_def timed_out_def by metis
    next
      case 4
      then have "active (state (thr s1 t))" "\<exists>q. t \<in> set (wlist (wq s1 q))" unfolding timed_out_def by blast+
      then show ?thesis using sched_invD(7) [OF i] by (auto simp: active_def)
    qed
  qed
  ultimately show ?thesis unfolding expire_frame_def by blast
qed

lemma wake_expire:
  assumes i: "sched_inv r s" and t: "t \<in> set (wlist (wq s q))" and B: "busy_ok L B s"
  shows "expire_frame L B s (wake q ERR_TIMED_OUT t s)"
proof (cases "L q")
  case False
  then have "t \<notin> B" using not_busy [OF B i, of q] t by auto
  then show ?thesis by (intro expire_frame_busy wake_frame [of _ _ L] False)
next
  case True
  let ?s = "wake q ERR_TIMED_OUT t s"
  have d: "distinct (wlist (wq s q))" using sched_invD(5) [OF i] .
  have w: "wlist (wq ?s q') = (if q' = q then filter (\<lambda>u. u \<noteq> t) (wlist (wq s q)) else wlist (wq s q'))" for q'
    using d by (auto simp: wake_def unqueue_def upd_wq_def distinct_remove1_removeAll removeAll_filter_not_eq
        intro: filter_cong)
  have o: "thr ?s u = thr s u" if "u \<noteq> t" for u
    using that by (simp add: wake_def unqueue_def wake_thread_def upd_thr_def upd_wq_def
        insert_in_run_queue_head_def Let_def)
  have n: "wait_queue_block_ret (thr ?s t) = ERR_TIMED_OUT" "active (state (thr ?s t))"
    by (simp_all add: wake_def unqueue_def wake_thread_def upd_thr_def upd_wq_def
        insert_in_run_queue_head_def Let_def active_def)
  have "\<exists>P. wlist (wq ?s q') = filter P (wlist (wq s q'))" for q'
    using w [of q'] by (cases "q' = q") (auto intro: exI [of _ "\<lambda>_. True"])
  moreover have "t \<in> set (wlist (wq s q)) \<and> t \<notin> set (wlist (wq ?s q))" using w [of q] t by simp
  moreover have "u \<in> set (wlist (wq ?s q')) \<longleftrightarrow> u \<in> set (wlist (wq s q'))" if "u \<noteq> t" for u q'
    using w [of q'] that by auto
  ultimately show ?thesis using True o n unfolding expire_frame_def kept_def timed_out_def by metis
qed

lemma callback_frame:
  assumes i: "sched_inv r (env S)" and B: "busy_ok L B (env S)" and c: "kernel_callbacks cb t now a S = (x, S')"
    and sl: "cb = CB_THREAD_SLEEP_HANDLER \<Longrightarrow> state (thr (env S) a) = THREAD_SLEEPING"
  shows "expire_frame L B (env S) (env S')"
proof -
  consider (tick) "cb = CB_THREAD_TIMER_TICK" | (sleep) "cb = CB_THREAD_SLEEP_HANDLER" "cb \<noteq> CB_THREAD_TIMER_TICK"
    | (wait) "cb = CB_WAIT_QUEUE_TIMEOUT" "cb \<noteq> CB_THREAD_TIMER_TICK" "cb \<noteq> CB_THREAD_SLEEP_HANDLER"
    | (none) "cb \<noteq> CB_THREAD_TIMER_TICK" "cb \<noteq> CB_THREAD_SLEEP_HANDLER" "cb \<noteq> CB_WAIT_QUEUE_TIMEOUT"
    by blast
  then show ?thesis
  proof cases
    case tick
    then show ?thesis using c
      by (auto simp: kernel_callbacks_def thread_timer_tick_def on_sched_def Let_def
          intro!: expire_frame_busy busy_frame_upd_same split: if_splits)
  next
    case sleep
    have nb: "a \<notin> B" using busy_state(1) [OF B i, of a] sl [OF sleep(1)] by auto
    have "busy_frame L B (env S) (insert_at False a (upd_thr a (\<lambda>th. th\<lparr>state := THREAD_READY\<rparr>)
        (debug_assert x (env S))))" for x
      by (rule busy_frame_trans [OF busy_frame_assert busy_frame_trans [OF busy_frame_upd [OF nb] busy_frame_insert]])
    then show ?thesis using c sleep
      by (auto simp: kernel_callbacks_def thread_sleep_handler_def on_sched_def insert_at_def set_state_def Let_def
          intro: expire_frame_busy)
  next
    case wait
    show ?thesis
    proof (cases "state (thr (env S) a) = THREAD_BLOCKED")
      case True
      then obtain q where q: "blocking_wait_queue (thr (env S) a) = Some q" using sched_invD(8) [OF i] by auto
      then have "a \<in> set (wlist (wq (env S) q))" using True sched_invD(7) [OF i] by blast
      from wake_expire [OF i this B] show ?thesis using c wait True q sched_invD(13) [OF i, of a]
        by (auto simp: kernel_callbacks_def wait_queue_timeout_handler_def thread_unblock_from_wait_queue_def
            wake_def unqueue_def in_list_def Let_def)
    qed (use c wait in \<open>auto simp: kernel_callbacks_def wait_queue_timeout_handler_def
           thread_unblock_from_wait_queue_def Let_def
           intro!: expire_frame_busy busy_frame_trans [OF busy_frame_assert busy_frame_assert]\<close>)
  qed (use c in \<open>auto simp: kernel_callbacks_def intro: expire_frame_busy\<close>)
qed

lemma fire_frame:
  assumes k: "kernel_inv S" and q: "timer_queue S = t # q" and f: "fire_head kernel_callbacks S now t = Ret (x, S')"
    and B: "busy_ok L B (env S)"
  shows "expire_frame L B (env S) (env S')"
proof -
  let ?S = "S\<lparr>timer_queue := remove1 t (timer_queue S)\<rparr>"
  obtain cb r' S1 where c: "callback (tmr S t) = Some cb" "kernel_callbacks cb t now (arg (tmr S t)) ?S = (r', S1)"
    "env S' = env S1"
    using f by (auto simp: fire_head_def Let_def requeue_periodic_def insert_timer_in_queue_def
        split: option.splits prod.splits if_splits)
  have "state (thr (env S) (arg (tmr S t))) = THREAD_SLEEPING" if "cb = CB_THREAD_SLEEP_HANDLER"
    using kernel_invD(2) [OF k] q c(1) that
    by (cases t) (auto simp: timers_ok_def preempt_timer_def CB_THREAD_TIMER_TICK_def CB_THREAD_SLEEP_HANDLER_def
        CB_WAIT_QUEUE_TIMEOUT_def)
  then show ?thesis using callback_frame [OF _ _ c(2), of "Some (current (env S))" L B] kernel_invD(1) [OF k] B c(3)
    by simp
qed

lemma busy_ok_expire: "busy_ok L B s \<Longrightarrow> expire_frame L B s s' \<Longrightarrow> busy_ok L B s'"
  unfolding busy_ok_def expire_frame_def kept_def timed_out_def by (metis (no_types, lifting))

lemma tick_frame:
  assumes k: "kernel_inv S" and r: "timer_tick kernel_callbacks now S = Some (Ret (x, S'))"
    and B: "busy_ok L B (env S)"
  shows "expire_frame L B (env S) (env S')"
proof -
  let ?I = "\<lambda>X. kernel_inv X \<and> busy_ok L B (env X) \<and> expire_frame L B (env S) (env X)"
  obtain y S1 where l: "tick_loop kernel_callbacks now False S = Some (Ret (y, S1))" "env S' = env S1"
    using r by (auto simp: timer_tick_def split: option.splits outcome.splits list.splits if_splits)
  have "\<exists>r s'. fire_head kernel_callbacks X now t = Ret (r, s') \<and> ?I s'"
    if X: "?I X" "timer_queue X = t # q" for X t q
  proof -
    obtain r s' where f: "fire_head kernel_callbacks X now t = Ret (r, s')" "kernel_inv s'"
      using fire_kernel [of X t q now] X by blast
    have e: "expire_frame L B (env X) (env s')" using fire_frame [OF _ X(2) f(1)] X(1) by blast
    then show ?thesis
      using f X(1) busy_ok_expire expire_frame_trans [OF _ e kernel_invD(1)] by blast
  qed
  from tick_loop_preserves [where I="?I", OF this l(1)] show ?thesis using k B l(2) expire_frame_busy by auto
qed

section \<open>Any step\<close>

text \<open>A step that does not address the client's queues.\<close>

fun foreign :: "(wqid \<Rightarrow> bool) \<Rightarrow> kop \<Rightarrow> bool" where
  "foreign L (Block q d) = (\<not> L q)"
| "foreign L (WakeOne q b err) = (\<not> L q)"
| "foreign L (WakeAll q b err) = (\<not> L q)"
| "foreign L op = True"

lemma kstep_busy_frame:
  assumes st: "kstep now op S S'" and k: "kernel_inv S" and B: "busy_ok L B (env S)"
    and f: "foreign L op" and q: "\<And>t. \<not> L (RetQ t)"
    and c: "op = Preempt \<or> current (env S) \<notin> B" and nt: "op \<noteq> Tick"
  shows "busy_frame L B (env S) (env S')"
proof -
  have i: "idle_thread \<notin> B" using B by (simp add: busy_ok_def)
  show ?thesis using st
  proof (cases rule: kstep.cases)
    case tick
    then show ?thesis using nt by simp
  next
    case preempt
    then show ?thesis using preempt_frame [OF k _ i] by blast
  next
    case yield
    then show ?thesis using yield_frame [OF k _ i] by blast
  next
    case (set_priority p)
    then show ?thesis using set_priority_frame [OF k _ _ i] by (auto simp: not_idle_def)
  next
    case (resume t dis r)
    then show ?thesis using resume_frame [OF k _ _ B] by blast
  next
    case (sleep d)
    then show ?thesis using sleep_frame [OF k _ _ i] c by blast
  next
    case (block q' d p)
    then show ?thesis using block_frame [OF k _ _ i, of now q' d p S' L] c f by auto
  next
    case (finish d r)
    then have "env S' = env S" by (auto simp: wait_queue_block_finish_def Let_def)
    then show ?thesis by simp
  next
    case (wake_one b q' err n)
    then show ?thesis using wake_one_frame [OF k _ _ B, of b now q' err n S'] f by auto
  next
    case (wake_all b q' err n)
    then show ?thesis using wake_all_frame [OF k _ _ B, of b now q' err n S'] f by auto
  next
    case (exit rc)
    then show ?thesis using exit_frame [OF k _ _ B, of now rc S'] c q by auto
  next
    case (set_real_time t r)
    then show ?thesis
      by (auto simp: thread_set_real_time_def on_sched_def Let_def intro!: busy_frame_upd_same split: if_splits)
  next
    case (create t p mem r s')
    then show ?thesis using create_frame [OF _ k B, of t mem p] q by auto
  next
    case (join t d p rc)
    then show ?thesis using join_frame [OF k _ _ i, of now t d p rc S' L] c q by auto
  next
    case (join_finish t d r rc)
    then show ?thesis using join_finish_frame by blast
  next
    case (detach t r)
    then show ?thesis using detach_frame [OF k _ B, of now t r S'] q by auto
  qed
qed

lemma kstep_frame:
  assumes st: "kstep now op S S'" and k: "kernel_inv S" and B: "busy_ok L B (env S)"
    and f: "foreign L op" and q: "\<And>t. \<not> L (RetQ t)"
    and c: "op = Tick \<or> op = Preempt \<or> current (env S) \<notin> B"
  shows "expire_frame L B (env S) (env S')"
proof (cases "op = Tick")
  case True
  then show ?thesis using st tick_frame [OF k _ B] by (auto elim: kstepE)
next
  case False
  then show ?thesis using kstep_busy_frame [OF st k B f q] c by (auto intro: expire_frame_busy)
qed

end
