(* ===== verification/Lock_Queue.thy ===== *)
theory Lock_Queue
  imports Sched_Frame
begin

text \<open>
  Bookkeeping for objects that hand out tokens through a wait queue, the common core of
  mutexes and semaphores. \<open>w\<close> tells which queue a thread waits for, from the first half of
  the call to the second. A waiting thread is in the queue; it leaves the queue granted, with
  result \<^verbatim>\<open>NO_ERROR\<close>, or expired, with result \<^verbatim>\<open>ERR_TIMED_OUT\<close>; one that waits without
  limit never expires.
\<close>

type_synonym wants = "nat \<Rightarrow> (wqid \<times> u32) option"

fun lock_q :: "wqid \<Rightarrow> bool" where
  "lock_q (MutexQ m) = True"
| "lock_q (SemQ q) = True"
| "lock_q _ = False"

definition pend :: "wants \<Rightarrow> wqid \<Rightarrow> nat set" where
  "pend w q = {t. \<exists>d. w t = Some (q, d)}"

definition granted :: "wants \<Rightarrow> sched \<Rightarrow> wqid \<Rightarrow> nat set" where
  "granted w s q = {t \<in> pend w q. t \<notin> set (wlist (wq s q)) \<and> wait_queue_block_ret (thr s t) = NO_ERROR}"

definition expired :: "wants \<Rightarrow> sched \<Rightarrow> wqid \<Rightarrow> nat set" where
  "expired w s q = {t \<in> pend w q. t \<notin> set (wlist (wq s q)) \<and> wait_queue_block_ret (thr s t) = ERR_TIMED_OUT}"

definition lock_inv :: "wants \<Rightarrow> sched \<Rightarrow> bool" where
  "lock_inv w s \<longleftrightarrow> finite (dom w) \<and> busy_ok lock_q (dom w) s
     \<and> (\<forall>t q d. w t = Some (q, d) \<longrightarrow> lock_q q)
     \<and> (\<forall>q. lock_q q \<longrightarrow> set (wlist (wq s q)) \<subseteq> pend w q)
     \<and> (\<forall>q. lock_q q \<longrightarrow> pend w q = set (wlist (wq s q)) \<union> granted w s q \<union> expired w s q)"

lemma lock_invD:
  assumes "lock_inv w s"
  shows "finite (dom w)" and "busy_ok lock_q (dom w) s" and "\<And>t q d. w t = Some (q, d) \<Longrightarrow> lock_q q"
    and "\<And>q. lock_q q \<Longrightarrow> set (wlist (wq s q)) \<subseteq> pend w q"
    and "\<And>q. lock_q q \<Longrightarrow> pend w q = set (wlist (wq s q)) \<union> granted w s q \<union> expired w s q"
  using assms unfolding lock_inv_def by blast+

lemma pend_dom: "pend w q \<subseteq> dom w"
  by (auto simp: pend_def)

lemma finite_pend [simp]: "lock_inv w s \<Longrightarrow> finite (pend w q)"
  by (rule finite_subset [OF pend_dom lock_invD(1)])

lemma finite_granted [simp]: "lock_inv w s \<Longrightarrow> finite (granted w s q)"
  by (rule finite_subset [OF _ finite_pend]) (auto simp: granted_def)

lemma pend_unique: "t \<in> pend w q \<Longrightarrow> t \<in> pend w q' \<Longrightarrow> q = q'"
  by (auto simp: pend_def)

section \<open>Steps of others\<close>

lemma expire_members:
  assumes i: "lock_inv w s" and f: "expire_frame lock_q (dom w) s s'" and t: "t \<in> pend w q" and q: "lock_q q"
  shows "kept lock_q s s' t
    \<or> t \<in> set (wlist (wq s q)) \<and> t \<notin> set (wlist (wq s' q)) \<and> wait_queue_block_ret (thr s' t) = ERR_TIMED_OUT"
proof -
  have "t \<in> dom w" using t pend_dom by auto
  then have "kept lock_q s s' t \<or> timed_out lock_q s s' t" using f by (simp add: expire_frame_def)
  moreover have "q' = q" if "lock_q q'" "t \<in> set (wlist (wq s q'))" for q'
    using lock_invD(4) [OF i that(1)] that(2) pend_unique t by blast
  ultimately show ?thesis unfolding timed_out_def by blast
qed

lemma lock_inv_expire:
  assumes i: "lock_inv w s" and f: "expire_frame lock_q (dom w) s s'"
  shows "lock_inv w s'" and "lock_q q \<Longrightarrow> granted w s' q = granted w s q"
    and "lock_q q \<Longrightarrow> expired w s q \<subseteq> expired w s' q"
proof -
  have m: "t \<in> pend w q \<Longrightarrow> kept lock_q s s' t
      \<or> t \<in> set (wlist (wq s q)) \<and> t \<notin> set (wlist (wq s' q)) \<and> wait_queue_block_ret (thr s' t) = ERR_TIMED_OUT"
    if "lock_q q" for t q using expire_members [OF i f _ that] .
  show g: "granted w s' q = granted w s q" if "lock_q q" for q
    using m [OF that] that unfolding granted_def kept_def by fastforce
  show e: "expired w s q \<subseteq> expired w s' q" if "lock_q q" for q
    using m [OF that] that unfolding expired_def kept_def by fastforce
  have sub: "set (wlist (wq s' q)) \<subseteq> set (wlist (wq s q))" if "lock_q q" for q
    using expire_frame_sub [OF f that] by blast
  have "pend w q = set (wlist (wq s' q)) \<union> granted w s' q \<union> expired w s' q" if q: "lock_q q" for q
  proof
    show "pend w q \<subseteq> set (wlist (wq s' q)) \<union> granted w s' q \<union> expired w s' q"
    proof
      fix t assume t: "t \<in> pend w q"
      then have "t \<in> set (wlist (wq s q)) \<or> t \<in> granted w s q \<or> t \<in> expired w s q"
        using lock_invD(5) [OF i q] by blast
      then show "t \<in> set (wlist (wq s' q)) \<union> granted w s' q \<union> expired w s' q"
        using m [OF q t] t q g [OF q] e [OF q] unfolding expired_def [of w s'] kept_def by blast
    qed
    show "set (wlist (wq s' q)) \<union> granted w s' q \<union> expired w s' q \<subseteq> pend w q"
      using sub [OF q] lock_invD(4) [OF i q] by (auto simp: granted_def expired_def)
  qed
  moreover have "busy_ok lock_q (dom w) s'" by (rule busy_ok_expire [OF lock_invD(2) [OF i] f])
  ultimately show "lock_inv w s'"
    using lock_invD(1,3,4) [OF i] sub unfolding lock_inv_def by blast
qed

section \<open>Joining the queue\<close>

lemma pend_upd:
  "t \<notin> dom w \<Longrightarrow> pend (w(t \<mapsto> (q, d))) q' = (if q' = q then insert t (pend w q) else pend w q')"
  by (auto simp: pend_def dom_def)

lemma enqueue_lock:
  fixes d :: u32
  assumes i: "lock_inv w s" and c: "current s \<notin> dom w" "current s \<noteq> idle_thread" and q: "lock_q q"
  defines "w' \<equiv> w(current s \<mapsto> (q, d))"
  shows "lock_inv w' (enqueue_current q s)"
    and "\<And>q'. granted w' (enqueue_current q s) q' = granted w s q'"
    and "\<And>q'. expired w' (enqueue_current q s) q' = expired w s q'"
proof -
  let ?c = "current s" and ?s = "enqueue_current q s"
  have wl: "wlist (wq ?s q') = (if q' = q then wlist (wq s q) @ [?c] else wlist (wq s q'))" for q'
    by (simp add: enqueue_current_def upd_thr_def upd_wq_def Let_def)
  have th: "t \<noteq> ?c \<Longrightarrow> thr ?s t = thr s t" for t
    by (simp add: enqueue_current_def upd_thr_def upd_wq_def Let_def)
  have p: "pend w' q' = (if q' = q then insert ?c (pend w q) else pend w q')" for q'
    unfolding w'_def by (rule pend_upd [OF c(1)])
  have n: "?c \<notin> pend w q'" for q' using c(1) pend_dom by blast
  have nc: "t \<in> pend w q' \<Longrightarrow> t \<noteq> ?c" for t q' using n by auto
  show g: "granted w' ?s q' = granted w s q'" for q'
    using th nc by (auto simp: granted_def p wl n)
  show e: "expired w' ?s q' = expired w s q'" for q'
    using th nc by (auto simp: expired_def p wl n)
  have "busy_ok lock_q (dom w') ?s"
    unfolding busy_ok_def
  proof (intro conjI ballI)
    show "idle_thread \<notin> dom w'" using lock_invD(2) [OF i] c(2) by (auto simp: busy_ok_def w'_def)
    fix t assume t: "t \<in> dom w'"
    show "active (state (thr ?s t)) \<or> (\<exists>q. lock_q q \<and> t \<in> set (wlist (wq ?s q)))"
    proof (cases "t = ?c")
      case True
      then show ?thesis using q wl [of q] by (intro disjI2 exI [of _ q]) simp
    next
      case False
      then have "active (state (thr s t)) \<or> (\<exists>q. lock_q q \<and> t \<in> set (wlist (wq s q)))"
        using t lock_invD(2) [OF i] by (auto simp: busy_ok_def w'_def)
      then show ?thesis using th [OF False] wl by (metis Un_iff set_append)
    qed
  qed
  moreover have "set (wlist (wq ?s q')) \<subseteq> pend w' q'" if "lock_q q'" for q'
    using lock_invD(4) [OF i that] by (auto simp: wl p)
  moreover have "pend w' q' = set (wlist (wq ?s q')) \<union> granted w' ?s q' \<union> expired w' ?s q'" if "lock_q q'" for q'
    using lock_invD(5) [OF i that] by (auto simp: g e wl p)
  moreover have "finite (dom w')" "\<And>t q d. w' t = Some (q, d) \<Longrightarrow> lock_q q"
    using lock_invD(1,3) [OF i] q by (auto simp: w'_def split: if_splits)
  ultimately show "lock_inv w' ?s" unfolding lock_inv_def by blast
qed

lemma busy_lock:
  assumes "lock_inv w s" and "busy_frame lock_q (dom w) s s'"
  shows "lock_inv w s'" and "lock_q q \<Longrightarrow> granted w s' q = granted w s q"
    and "lock_q q \<Longrightarrow> expired w s' q = expired w s q" and "lock_q q \<Longrightarrow> wlist (wq s' q) = wlist (wq s q)"
proof -
  show "lock_inv w s'" "lock_q q \<Longrightarrow> granted w s' q = granted w s q"
    using lock_inv_expire [OF assms(1) expire_frame_busy [OF assms(2)]] by blast+
  have "wait_queue_block_ret (thr s' t) = wait_queue_block_ret (thr s t)" if "t \<in> pend w q" for t
    using assms(2) pend_dom [of w q] that unfolding busy_frame_def by blast
  then show "lock_q q \<Longrightarrow> expired w s' q = expired w s q" "lock_q q \<Longrightarrow> wlist (wq s' q) = wlist (wq s q)"
    using assms(2) unfolding busy_frame_def expired_def by auto
qed

lemma block_lock:
  assumes k: "kernel_inv K" and m: "may_block K" and i: "lock_inv w (env K)" and c: "current (env K) \<notin> dom w"
    and q: "lock_q q" and r: "wait_queue_block now q d K = Ret (p, K')" and d: "d \<noteq> 0"
  defines "w' \<equiv> w(current (env K) \<mapsto> (q, d))"
  shows "lock_inv w' (env K')"
    and "\<And>q'. lock_q q' \<Longrightarrow> granted w' (env K') q' = granted w (env K) q'"
    and "\<And>q'. lock_q q' \<Longrightarrow> expired w' (env K') q' = expired w (env K) q'"
    and "\<And>q'. lock_q q' \<Longrightarrow> wlist (wq (env K') q')
      = wlist (wq (env K) q') @ (if q' = q then [current (env K)] else [])"
proof -
  let ?s = "enqueue_current q (env K)"
  have ni: "current (env K) \<noteq> idle_thread" using m by (simp add: may_block_def)
  obtain K1 where K1: "env K1 = ?s" "thread_resched now K1 = Ret K'" using block_resched [OF r d] by blast
  note e = enqueue_lock [OF i c ni q, of d, folded w'_def]
  have "sched_inv None (env K1)" using block_current [OF kernel_invD(1) [OF k] ni] K1(1) by simp
  moreover have "idle_thread \<notin> dom w'" using lock_invD(2) [OF e(1)] by (simp add: busy_ok_def)
  ultimately have f: "busy_frame lock_q (dom w') ?s (env K')" using resched_frame [OF _ K1(2)] K1(1) by simp
  have wl: "wlist (wq ?s q') = wlist (wq (env K) q') @ (if q' = q then [current (env K)] else [])" for q'
    by (simp add: enqueue_current_def upd_thr_def upd_wq_def Let_def)
  show "lock_inv w' (env K')"
    and "\<And>q'. lock_q q' \<Longrightarrow> granted w' (env K') q' = granted w (env K) q'"
    and "\<And>q'. lock_q q' \<Longrightarrow> expired w' (env K') q' = expired w (env K) q'"
    and "\<And>q'. lock_q q' \<Longrightarrow> wlist (wq (env K') q')
      = wlist (wq (env K) q') @ (if q' = q then [current (env K)] else [])"
    using busy_lock [OF e(1) f] e(2,3) wl by simp_all
qed

section \<open>Handing a token to the first waiter\<close>

lemma wake_lock:
  assumes si: "sched_inv r s" and i: "lock_inv w s" and q: "lock_q q" and t: "wlist (wq s q) = t # ts"
  shows "lock_inv w (wake q NO_ERROR t s)"
    and "\<And>q'. lock_q q' \<Longrightarrow> granted w (wake q NO_ERROR t s) q' = granted w s q' \<union> (if q' = q then {t} else {})"
    and "\<And>q'. lock_q q' \<Longrightarrow> expired w (wake q NO_ERROR t s) q' = expired w s q'"
    and "\<And>q'. wlist (wq (wake q NO_ERROR t s) q') = (if q' = q then ts else wlist (wq s q'))"
    and "t \<notin> granted w s q"
proof -
  let ?s = "wake q NO_ERROR t s"
  show wl: "wlist (wq ?s q') = (if q' = q then ts else wlist (wq s q'))" for q'
    using t by (simp add: wake_def unqueue_def upd_wq_def)
  have th: "u \<noteq> t \<Longrightarrow> thr ?s u = thr s u" for u
    by (simp add: wake_def unqueue_def wake_thread_def upd_thr_def upd_wq_def insert_in_run_queue_head_def Let_def)
  have n: "wait_queue_block_ret (thr ?s t) = NO_ERROR" "active (state (thr ?s t))"
    by (simp_all add: wake_def unqueue_def wake_thread_def upd_thr_def upd_wq_def insert_in_run_queue_head_def
        Let_def active_def)
  have d: "t \<notin> set ts" using sched_invD(5) [OF si, of q] t by simp
  have p: "t \<in> pend w q" using lock_invD(4) [OF i q] t by auto
  have np: "u \<noteq> t" if "u \<in> pend w q'" "q' \<noteq> q" for u q' using that p pend_unique by blast
  show "t \<notin> granted w s q" using t by (simp add: granted_def)
  show g: "granted w ?s q' = granted w s q' \<union> (if q' = q then {t} else {})" if "lock_q q'" for q'
  proof (cases "q' = q")
    case True
    then show ?thesis using th n(1) d p t by (force simp: granted_def wl)
  next
    case False
    then show ?thesis using th np [of _ q'] by (auto simp: granted_def wl)
  qed
  show e: "expired w ?s q' = expired w s q'" if "lock_q q'" for q'
  proof (cases "q' = q")
    case True
    have "u \<in> expired w ?s q \<longleftrightarrow> u \<in> expired w s q" for u
      using th [of u] n(1) t by (cases "u = t") (auto simp: expired_def wl)
    then show ?thesis using True by blast
  next
    case False
    then show ?thesis using th np [of _ q'] by (auto simp: expired_def wl)
  qed
  have "busy_ok lock_q (dom w) ?s"
    unfolding busy_ok_def
  proof (intro conjI ballI)
    show "idle_thread \<notin> dom w" using lock_invD(2) [OF i] by (simp add: busy_ok_def)
    fix u assume u: "u \<in> dom w"
    show "active (state (thr ?s u)) \<or> (\<exists>q. lock_q q \<and> u \<in> set (wlist (wq ?s q)))"
    proof (cases "u = t")
      case False
      have "active (state (thr s u)) \<or> (\<exists>q. lock_q q \<and> u \<in> set (wlist (wq s q)))"
        using u lock_invD(2) [OF i] by (auto simp: busy_ok_def)
      then show ?thesis using th [OF False] wl t False by (metis set_ConsD)
    qed (use n(2) in simp)
  qed
  moreover have "set (wlist (wq ?s q')) \<subseteq> pend w q'" if "lock_q q'" for q'
    using lock_invD(4) [OF i that] t by (auto simp: wl)
  moreover have "pend w q' = set (wlist (wq ?s q')) \<union> granted w ?s q' \<union> expired w ?s q'" if "lock_q q'" for q'
    using lock_invD(5) [OF i that] t p by (auto simp: g [OF that] e [OF that] wl)
  ultimately show "lock_inv w ?s" using lock_invD(1,3) [OF i] unfolding lock_inv_def by blast
qed

lemma wake_one_lock:
  assumes k: "kernel_inv K" and c: "b \<longrightarrow> not_idle K" and i: "lock_inv w (env K)" and q: "lock_q q"
    and r: "wait_queue_wake_one now q b NO_ERROR K = Ret (n, K')" and t: "wlist (wq (env K) q) = t # ts"
  shows "lock_inv w (env K')"
    and "\<And>q'. lock_q q' \<Longrightarrow> granted w (env K') q' = granted w (env K) q' \<union> (if q' = q then {t} else {})"
    and "\<And>q'. lock_q q' \<Longrightarrow> expired w (env K') q' = expired w (env K) q'"
    and "\<And>q'. lock_q q' \<Longrightarrow> wlist (wq (env K') q') = (if q' = q then ts else wlist (wq (env K) q'))"
    and "t \<notin> granted w (env K) q" and "n = 1"
proof -
  let ?r = "maybe_requeue b (env K)" and ?s = "wake q NO_ERROR t (maybe_requeue b (env K))"
  have m: "sched_inv (if b then None else Some (current (env K))) ?r" "wq ?r = wq (env K)"
    using maybe_requeue_ok [OF k, of b] c by (auto simp: not_idle_def)
  note f0 = busy_lock [OF i maybe_requeue_frame [OF k]]
  have t': "wlist (wq ?r q) = t # ts" using m(2) t by simp
  note e = wake_lock [OF m(1) f0(1) q t']
  have f: "busy_frame lock_q (dom w) ?s (env K')"
  proof (cases b)
    case False
    then show ?thesis using r t wake_one_state [OF k t, where err=NO_ERROR and b=b]
      by (auto simp: wait_queue_wake_one_def on_sched_def)
  next
    case True
    then have "thread_resched now (K\<lparr>env := ?s\<rparr>) = Ret K'"
      using r t wake_one_state [OF k t, where err=NO_ERROR and b=b]
      by (auto simp: wait_queue_wake_one_def on_sched_def split: outcome.splits)
    moreover have "sched_inv None ?s" using wake_inv [OF m(1), of t q NO_ERROR] t' True by simp
    moreover have "idle_thread \<notin> dom w" using lock_invD(2) [OF i] by (simp add: busy_ok_def)
    ultimately show ?thesis using resched_frame [of "K\<lparr>env := ?s\<rparr>" now K'] by simp
  qed
  note g = busy_lock [OF e(1) f]
  show "lock_inv w (env K')" by (rule g(1))
  show "granted w (env K') q' = granted w (env K) q' \<union> (if q' = q then {t} else {})" if "lock_q q'" for q'
    using g(2) e(2) f0(2) that by simp
  show "expired w (env K') q' = expired w (env K) q'" if "lock_q q'" for q'
    using g(3) e(3) f0(3) that by simp
  show "wlist (wq (env K') q') = (if q' = q then ts else wlist (wq (env K) q'))" if "lock_q q'" for q'
    using g(4) e(4) m(2) that by simp
  show "t \<notin> granted w (env K) q" using t by (simp add: granted_def)
  show "n = 1" using r t by (auto simp: wait_queue_wake_one_def Let_def split: outcome.splits if_splits)
qed

section \<open>Leaving the wait\<close>

lemma finish_lock:
  assumes k: "kernel_inv K" and i: "lock_inv w (env K)" and c: "w (current (env K)) = Some (q, d)"
    and r: "wait_queue_block_finish now d K = (ret, K')"
  defines "w' \<equiv> w(current (env K) := None)"
  shows "lock_inv w' (env K')" and "env K' = env K"
    and "ret = NO_ERROR \<and> current (env K) \<in> granted w (env K) q
      \<or> ret = ERR_TIMED_OUT \<and> current (env K) \<in> expired w (env K) q"
    and "\<And>q'. granted w' (env K') q' = granted w (env K) q' - {current (env K)}"
    and "\<And>q'. expired w' (env K') q' = expired w (env K) q' - {current (env K)}"
    and "\<And>q'. pend w' q' = pend w q' - {current (env K)}"
proof -
  let ?c = "current (env K)" and ?s = "env K"
  have f: "env K' = ?s" "ret = wait_queue_block_ret (thr ?s ?c)"
    using wait_queue_block_finish_inv [OF k r] by auto
  show "env K' = ?s" by (rule f(1))
  have q: "lock_q q" using lock_invD(3) [OF i c] .
  have nw: "?c \<notin> set (wlist (wq ?s q'))" for q'
    using blocked_waiter [OF kernel_invD(1) [OF k], of ?c q'] running_state [OF k] by auto
  have "?c \<in> pend w q" using c by (auto simp: pend_def)
  then have "?c \<in> granted w ?s q \<or> ?c \<in> expired w ?s q" using lock_invD(5) [OF i q] nw by blast
  then show "ret = NO_ERROR \<and> ?c \<in> granted w ?s q \<or> ret = ERR_TIMED_OUT \<and> ?c \<in> expired w ?s q"
    using f(2) by (auto simp: granted_def expired_def)
  show p: "pend w' q' = pend w q' - {?c}" for q' by (auto simp: pend_def w'_def)
  show g: "granted w' (env K') q' = granted w ?s q' - {?c}" and e: "expired w' (env K') q' = expired w ?s q' - {?c}"
    for q' unfolding f(1) granted_def expired_def p by auto
  have "busy_ok lock_q (dom w') (env K')"
    using lock_invD(2) [OF i] unfolding f(1) busy_ok_def w'_def by auto
  moreover have "set (wlist (wq (env K') q')) \<subseteq> pend w' q'" if "lock_q q'" for q'
    using lock_invD(4) [OF i that] nw unfolding f(1) p by auto
  moreover have "pend w' q' = set (wlist (wq (env K') q')) \<union> granted w' (env K') q' \<union> expired w' (env K') q'"
    if "lock_q q'" for q' using lock_invD(5) [OF i that] nw unfolding g e p unfolding f(1) by blast
  ultimately show "lock_inv w' (env K')"
    using lock_invD(1,3) [OF i] unfolding lock_inv_def w'_def by (auto split: if_splits)
qed

section \<open>Waits without limit\<close>

text \<open>
  A thread's own timer enters the queue only when the thread itself sleeps, or waits with a limit.
  The timer interrupt ends no wait of a thread whose timer is not queued, so a wait without limit
  does not time out.
\<close>

lemma timer_queue_cancel [simp]: "timer_queue (timer_cancel S now t) = remove1 t (timer_queue S)"
  by (simp add: timer_cancel_def Let_def split: option.splits)

lemma timer_queue_on_sched [simp]: "timer_queue (on_sched f S) = timer_queue S"
  by (simp add: on_sched_def)

lemma timer_queue_initialize [simp]: "timer_queue (timer_initialize S t) = timer_queue S"
  by (simp add: timer_initialize_def)

lemma timer_queue_set: "timer_set S now t d p cb a = Ret S' \<Longrightarrow> set (timer_queue S') = insert t (set (timer_queue S))"
  by (auto simp: timer_set_def insert_timer_in_queue_def Let_def split: if_splits)

lemma resched_timers:
  assumes "thread_resched now S = Ret S'" and "Suc t \<in> set (timer_queue S')"
  shows "Suc t \<in> set (timer_queue S)"
proof -
  obtain n s where p: "pick_next (env S) = (n, s)" by fastforce
  have "S' = S\<lparr>env := s\<rparr> \<or> S' = timer_cancel (S\<lparr>env := s\<rparr>) now preempt_timer
    \<or> timer_set (S\<lparr>env := s\<rparr>) now preempt_timer 10 10 CB_THREAD_TIMER_TICK 0 = Ret S'"
    using assms(1) p by (simp add: thread_resched_def timer_set_periodic_def Let_def split: if_splits)
  then consider "S' = S\<lparr>env := s\<rparr>" | "S' = timer_cancel (S\<lparr>env := s\<rparr>) now preempt_timer"
    | "timer_set (S\<lparr>env := s\<rparr>) now preempt_timer 10 10 CB_THREAD_TIMER_TICK 0 = Ret S'" by blast
  then show ?thesis
  proof cases
    case 2
    then show ?thesis using assms(2) set_remove1_subset [of preempt_timer "timer_queue S"] by auto
  next
    case 3
    then show ?thesis using assms(2) timer_queue_set [OF 3] by (simp add: preempt_timer_def)
  qed (use assms(2) in simp)
qed

lemma yield_timers: "thread_yield now S = Ret S' \<Longrightarrow> Suc t \<in> set (timer_queue S') \<Longrightarrow> Suc t \<in> set (timer_queue S)"
  by (auto simp: thread_yield_def Let_def split: if_splits dest: resched_timers)

lemma block_timers:
  assumes "wait_queue_block now q d S = Ret (p, S')" and "Suc t \<in> set (timer_queue S')"
  shows "Suc t \<in> set (timer_queue S) \<or> t = current (env S) \<and> d \<noteq> INFINITE_TIME"
  using assms
  by (auto simp: wait_queue_block_def timer_set_oneshot_def Let_def split: if_splits outcome.splits
      dest!: resched_timers dest: timer_queue_set)

lemma wake_one_timers:
  "wait_queue_wake_one now q b err S = Ret (n, S') \<Longrightarrow> Suc t \<in> set (timer_queue S') \<Longrightarrow> Suc t \<in> set (timer_queue S)"
  by (auto simp: wait_queue_wake_one_def Let_def split: list.splits if_splits outcome.splits dest!: resched_timers)

lemma wake_all_timers:
  "wait_queue_wake_all now q b err S = Ret (n, S') \<Longrightarrow> Suc t \<in> set (timer_queue S') \<Longrightarrow> Suc t \<in> set (timer_queue S)"
  by (auto simp: wait_queue_wake_all_def Let_def split: if_splits outcome.splits dest!: resched_timers)

lemma block_finish_timers:
  "wait_queue_block_finish now d S = (r, S') \<Longrightarrow> Suc t \<in> set (timer_queue S') \<Longrightarrow> Suc t \<in> set (timer_queue S)"
  by (auto simp: wait_queue_block_finish_def Let_def split: if_splits dest: subsetD [OF set_remove1_subset])

lemma join_timers:
  assumes "thread_join now u d S = Ret (p, rc, S')" and "Suc t \<in> set (timer_queue S')"
  shows "Suc t \<in> set (timer_queue S) \<or> t = current (env S) \<and> d \<noteq> 0"
  using assms block_timers [of now "RetQ u" d S p S' t]
  by (cases "d = 0") (auto simp: thread_join_def wait_queue_block_def split: if_splits outcome.splits prod.splits)

lemma detach_timers:
  assumes "thread_detach now u S = Ret (r, S')" and "Suc t \<in> set (timer_queue S')"
  shows "Suc t \<in> set (timer_queue S)"
proof -
  obtain n S1 where w: "wait_queue_wake_all now (RetQ u) False ERR_THREAD_DETACHED S = Ret (n, S1)"
    using assms(1) by (auto simp: thread_detach_def split: outcome.splits if_splits)
  have "Suc t \<in> set (timer_queue S1)"
    using assms w by (auto simp: thread_detach_def split: if_splits outcome.splits prod.splits progress.splits
        dest!: join_timers)
  then show ?thesis by (rule wake_all_timers [OF w])
qed

lemma kstep_timers:
  assumes st: "kstep now op S S'" and nt: "op \<noteq> Tick" and t: "Suc t \<in> set (timer_queue S')"
  shows "Suc t \<in> set (timer_queue S) \<or> t = current (env S) \<and> op \<noteq> Preempt"
  using st
proof (cases rule: kstep.cases)
  case yield
  then show ?thesis using yield_timers t by blast
next
  case preempt
  then show ?thesis using t by (auto simp: thread_preempt_def Let_def split: if_splits dest: resched_timers)
next
  case (resume u dis r)
  then show ?thesis using t
    by (auto simp: thread_resume_def Let_def split: if_splits outcome.splits dest!: yield_timers)
next
  case (sleep d)
  then show ?thesis using t
    by (auto simp: thread_sleep_def timer_set_oneshot_def Let_def split: if_splits outcome.splits
        dest!: resched_timers dest: timer_queue_set)
next
  case (block q d p)
  then show ?thesis using block_timers t by blast
next
  case (finish d r)
  then show ?thesis using block_finish_timers t by blast
next
  case (wake_one b q err n)
  then show ?thesis using wake_one_timers t by blast
next
  case (wake_all b q err n)
  then show ?thesis using wake_all_timers t by blast
next
  case (exit rc)
  then show ?thesis using t
    by (auto simp: thread_exit_def Let_def split: if_splits outcome.splits dest!: resched_timers wake_all_timers)
next
  case (set_priority p)
  then show ?thesis using t by (auto simp: thread_set_priority_def Let_def dest!: resched_timers)
next
  case (set_real_time u r)
  then show ?thesis using t
    by (auto simp: thread_set_real_time_def Let_def split: if_splits dest: subsetD [OF set_remove1_subset])
next
  case (join u d p rc)
  then show ?thesis using join_timers t by blast
next
  case (join_finish u d r rc)
  obtain e S1 where f: "wait_queue_block_finish now d S = (e, S1)" by fastforce
  then have "Suc t \<in> set (timer_queue S1)" using join_finish t
    by (auto simp: thread_join_finish_def split: if_splits outcome.splits)
  then show ?thesis using block_finish_timers [OF f] by blast
next
  case (detach u r)
  then show ?thesis using detach_timers t by blast
qed (use nt t in simp_all)

definition untouched :: "nat \<Rightarrow> sched \<Rightarrow> sched \<Rightarrow> bool" where
  "untouched t s s' \<longleftrightarrow> (\<forall>q. t \<in> set (wlist (wq s' q)) \<longleftrightarrow> t \<in> set (wlist (wq s q)))
     \<and> wait_queue_block_ret (thr s' t) = wait_queue_block_ret (thr s t)"

lemma callback_untouched:
  assumes "kernel_callbacks cb u now a S = (r, S')" and "cb = CB_THREAD_TIMER_TICK \<or> a \<noteq> t"
  shows "untouched t (env S) (env S')"
  using assms
  by (auto simp: untouched_def kernel_callbacks_def thread_timer_tick_def thread_sleep_handler_def
      wait_queue_timeout_handler_def thread_unblock_from_wait_queue_def on_sched_def set_state_def upd_thr_def
      upd_wq_def wake_thread_def insert_in_run_queue_head_def Let_def split: if_splits)

lemma fire_untouched:
  assumes k: "kernel_inv S" and q: "timer_queue S = u # us" and f: "fire_head kernel_callbacks S now u = Ret (x, S')"
    and t: "Suc t \<notin> set (timer_queue S)"
  shows "untouched t (env S) (env S')" and "Suc t \<notin> set (timer_queue S')"
proof -
  let ?S = "S\<lparr>timer_queue := remove1 u (timer_queue S)\<rparr>"
  obtain cb where cb: "callback (tmr S u) = Some cb" using f by (auto simp: fire_head_def Let_def split: option.splits)
  obtain r e where c: "kernel_callbacks cb u now (arg (tmr S u)) ?S = (r, ?S\<lparr>env := e\<rparr>)"
    using kernel_callbacks_quiet unfolding quiet_def by blast
  have "cb = CB_THREAD_TIMER_TICK \<or> arg (tmr S u) \<noteq> t"
    using kernel_invD(2) [OF k] q cb t by (cases u) (auto simp: timers_ok_def preempt_timer_def)
  from callback_untouched [OF c this] have "untouched t (env S) e" by simp
  moreover have S': "S' = requeue_periodic (?S\<lparr>env := e\<rparr>) now (0 < periodic_time (tmr S u)) u"
    using f cb c by (auto simp: fire_head_def Let_def)
  moreover have "env S' = e" unfolding S' by (auto simp: requeue_periodic_def insert_timer_in_queue_def Let_def)
  ultimately show "untouched t (env S) (env S')" by simp
  have "Suc t \<noteq> u" using t q by auto
  then show "Suc t \<notin> set (timer_queue S')" unfolding S' using t q
    by (auto simp: requeue_periodic_def insert_timer_in_queue_def Let_def)
qed

lemma tick_untouched:
  assumes k: "kernel_inv S" and r: "timer_tick kernel_callbacks now S = Some (Ret (x, S'))"
    and t: "Suc t \<notin> set (timer_queue S)"
  shows "untouched t (env S) (env S') \<and> Suc t \<notin> set (timer_queue S')"
proof -
  let ?I = "\<lambda>X. kernel_inv X \<and> Suc t \<notin> set (timer_queue X) \<and> untouched t (env S) (env X)"
  obtain y S1 where l: "tick_loop kernel_callbacks now False S = Some (Ret (y, S1))" "env S' = env S1"
    "timer_queue S' = timer_queue S1"
    using r by (auto simp: timer_tick_def split: option.splits outcome.splits list.splits if_splits)
  have "\<exists>r s'. fire_head kernel_callbacks X now u = Ret (r, s') \<and> ?I s'"
    if X: "?I X" "timer_queue X = u # q" for X u q
  proof -
    obtain r s' where f: "fire_head kernel_callbacks X now u = Ret (r, s')" "kernel_inv s'"
      using fire_kernel [of X u q now] X by blast
    then show ?thesis using X fire_untouched [OF _ X(2) f(1), of t] by (auto simp: untouched_def)
  qed
  from tick_loop_preserves [where I="?I", OF this l(1)] show ?thesis using k t l(2,3) by (auto simp: untouched_def)
qed

text \<open>The threads that wait without limit have no timer queued and have not timed out.\<close>

definition patient :: "wants \<Rightarrow> kst \<Rightarrow> bool" where
  "patient w K \<longleftrightarrow> (\<forall>t q. w t = Some (q, INFINITE_TIME) \<longrightarrow>
     Suc t \<notin> set (timer_queue K) \<and> t \<notin> expired w (env K) q)"

lemma patientD:
  assumes "patient w K" and "w t = Some (q, INFINITE_TIME)"
  shows "Suc t \<notin> set (timer_queue K)" and "t \<notin> expired w (env K) q"
  using assms unfolding patient_def by blast+

lemma patient_kstep:
  assumes st: "kstep now op K K'" and k: "kernel_inv K" and i: "lock_inv w (env K)" and p: "patient w K"
    and o: "op = Tick \<or> op = Preempt \<or> current (env K) \<notin> dom w" "foreign lock_q op"
  shows "patient w K'"
proof -
  have "Suc t \<notin> set (timer_queue K') \<and> t \<notin> expired w (env K') q" if w: "w t = Some (q, INFINITE_TIME)" for t q
  proof (cases "op = Tick")
    case True
    then obtain x where "timer_tick kernel_callbacks now K = Some (Ret (x, K'))" using st by (auto elim: kstepE)
    from tick_untouched [OF k this patientD(1) [OF p w]] show ?thesis
      using patientD(2) [OF p w] by (auto simp: untouched_def expired_def)
  next
    case False
    have "busy_frame lock_q (dom w) (env K) (env K')"
      using o False by (intro kstep_busy_frame [OF st k lock_invD(2) [OF i]]) auto
    then have "expired w (env K') q = expired w (env K) q" using busy_lock(3) [OF i] lock_invD(3) [OF i w] by blast
    moreover have "t = current (env K) \<Longrightarrow> op = Preempt" using o(1) False w by auto
    ultimately show ?thesis using kstep_timers [OF st False, of t] patientD [OF p w] by auto
  qed
  then show ?thesis unfolding patient_def by blast
qed

lemma patient_block:
  assumes k: "kernel_inv K" and m: "may_block K" and i: "lock_inv w (env K)" and c: "current (env K) \<notin> dom w"
    and q: "lock_q q" and r: "wait_queue_block now q d K = Ret (p, K')" and d: "d \<noteq> 0" and pt: "patient w K"
  shows "patient (w(current (env K) \<mapsto> (q, d))) K'"
proof -
  let ?w = "w(current (env K) \<mapsto> (q, d))"
  note b = block_lock(1,3) [OF k m i c q r d]
  have "Suc t \<notin> set (timer_queue K') \<and> t \<notin> expired ?w (env K') q'" if w: "?w t = Some (q', INFINITE_TIME)" for t q'
  proof (cases "t = current (env K)")
    case True
    then have "q' = q" "d = INFINITE_TIME" using w by auto
    moreover have "t \<notin> expired w (env K) q" using True c pend_dom by (auto simp: expired_def)
    ultimately show ?thesis using True m block_timers [OF r, of t] b(2) [OF q] by (auto simp: may_block_def)
  next
    case False
    then have w0: "w t = Some (q', INFINITE_TIME)" using w by simp
    show ?thesis using patientD [OF pt w0] block_timers [OF r, of t] b(2) [of q'] lock_invD(3) [OF i w0] False by auto
  qed
  then show ?thesis unfolding patient_def by blast
qed

lemma patient_wake:
  assumes k: "kernel_inv K" and c: "b \<longrightarrow> not_idle K" and i: "lock_inv w (env K)" and q: "lock_q q"
    and r: "wait_queue_wake_one now q b NO_ERROR K = Ret (n, K')" and p: "patient w K"
  shows "patient w K'"
proof (cases "wlist (wq (env K) q)")
  case Nil
  then show ?thesis using r p by (simp add: wait_queue_wake_one_def)
next
  case (Cons t ts)
  have "Suc u \<notin> set (timer_queue K') \<and> u \<notin> expired w (env K') q'" if w: "w u = Some (q', INFINITE_TIME)" for u q'
    using wake_one_timers [OF r, of u] wake_one_lock(3) [OF k c i q r Cons, of q'] lock_invD(3) [OF i w]
      patientD [OF p w] by auto
  then show ?thesis unfolding patient_def by blast
qed

lemma patient_finish:
  assumes k: "kernel_inv K" and i: "lock_inv w (env K)" and c: "w (current (env K)) = Some (q, d)"
    and r: "wait_queue_block_finish now d K = (ret, K')" and p: "patient w K"
  shows "patient (w(current (env K) := None)) K'" and "d = INFINITE_TIME \<Longrightarrow> ret = NO_ERROR"
proof -
  let ?w = "w(current (env K) := None)"
  note f = finish_lock(3,5) [OF k i c r]
  have "Suc t \<notin> set (timer_queue K') \<and> t \<notin> expired ?w (env K') q'" if w: "?w t = Some (q', INFINITE_TIME)" for t q'
  proof -
    have w0: "w t = Some (q', INFINITE_TIME)" using w by (auto split: if_splits)
    show ?thesis using patientD [OF p w0] block_finish_timers [OF r, of t] f(2) [of q'] by auto
  qed
  then show "patient ?w K'" unfolding patient_def by blast
  show "ret = NO_ERROR" if "d = INFINITE_TIME"
    using f(1) patientD(2) [OF p, of "current (env K)" q] c that by auto
qed

end
