(* ===== verification/Sync_Correct.thy ===== *)
theory Sync_Correct
  imports Sync Lock_Queue
begin

text \<open>
  Mutexes and semaphores as used by the threads of a system: mutual exclusion, no semaphore
  token spent twice, no wake-up lost while nobody times out, and the run in which a timeout
  does lose one. The ghost part of \<open>client\<close> records which threads are inside a waiting call,
  which have acquired each mutex and not released it, and how many tokens of each object are
  free.
\<close>

record client =
  sy :: sync
  wnt :: wants
  tok :: "wqid \<Rightarrow> int"
  holds :: "nat \<Rightarrow> nat set"

abbreviation kern :: "client \<Rightarrow> kst" where "kern G \<equiv> ks (sy G)"

definition gain :: "wqid \<Rightarrow> nat \<Rightarrow> client \<Rightarrow> client" where
  "gain q c G = G\<lparr>tok := (tok G)(q := tok G q - 1),
     holds := (case q of MutexQ m \<Rightarrow> (holds G)(m := insert c (holds G m)) | _ \<Rightarrow> holds G)\<rparr>"

definition give :: "wqid \<Rightarrow> nat \<Rightarrow> client \<Rightarrow> client" where
  "give q c G = G\<lparr>tok := (tok G)(q := tok G q + 1),
     holds := (case q of MutexQ m \<Rightarrow> (holds G)(m := holds G m - {c}) | _ \<Rightarrow> holds G)\<rparr>"

definition after_call :: "wqid \<Rightarrow> nat \<Rightarrow> u32 \<Rightarrow> progress \<Rightarrow> client \<Rightarrow> client" where
  "after_call q c d p G =
     (case p of Blocked \<Rightarrow> G\<lparr>wnt := (wnt G)(c \<mapsto> (q, d))\<rparr>
      | Done r \<Rightarrow> if r = NO_ERROR then gain q c G else G)"

definition after_finish :: "wqid \<Rightarrow> nat \<Rightarrow> status \<Rightarrow> client \<Rightarrow> client" where
  "after_finish q c r G =
     (let G = G\<lparr>wnt := (wnt G)(c := None)\<rparr> in if r = NO_ERROR then gain q c G else G)"

inductive cstep :: "client \<Rightarrow> client \<Rightarrow> bool" where
  acquire: "wnt G (cur (sy G)) = None \<Longrightarrow> may_block (kern G)
    \<Longrightarrow> mutex_acquire_timeout now m d (sy G) = Ret (p, S')
    \<Longrightarrow> cstep G ((after_call (MutexQ m) (cur (sy G)) d p G)\<lparr>sy := S'\<rparr>)"
| acquire_finish: "wnt G (cur (sy G)) = Some (MutexQ m, d)
    \<Longrightarrow> mutex_acquire_finish now m d (sy G) = (r, S')
    \<Longrightarrow> cstep G ((after_finish (MutexQ m) (cur (sy G)) r G)\<lparr>sy := S'\<rparr>)"
| release: "wnt G (cur (sy G)) = None \<Longrightarrow> not_idle (kern G) \<Longrightarrow> mutex_release now m (sy G) = Ret (r, S')
    \<Longrightarrow> cstep G ((give (MutexQ m) (cur (sy G)) G)\<lparr>sy := S'\<rparr>)"
| timedwait: "wnt G (cur (sy G)) = None \<Longrightarrow> may_block (kern G)
    \<Longrightarrow> sem_timedwait now q d (sy G) = Ret (p, S')
    \<Longrightarrow> cstep G ((after_call (SemQ q) (cur (sy G)) d p G)\<lparr>sy := S'\<rparr>)"
| timedwait_finish: "wnt G (cur (sy G)) = Some (SemQ q, d)
    \<Longrightarrow> sem_timedwait_finish now q d (sy G) = Ret (r, S')
    \<Longrightarrow> cstep G ((after_finish (SemQ q) (cur (sy G)) r G)\<lparr>sy := S'\<rparr>)"
| wait: "wnt G (cur (sy G)) = None \<Longrightarrow> may_block (kern G) \<Longrightarrow> sem_wait now q (sy G) = Ret (p, S')
    \<Longrightarrow> cstep G ((after_call (SemQ q) (cur (sy G)) INFINITE_TIME p G)\<lparr>sy := S'\<rparr>)"
| wait_finish: "wnt G (cur (sy G)) = Some (SemQ q, INFINITE_TIME) \<Longrightarrow> sem_wait_finish now (sy G) = (r, S')
    \<Longrightarrow> cstep G ((after_finish (SemQ q) (cur (sy G)) r G)\<lparr>sy := S'\<rparr>)"
| trywait: "sem_trywait q (sy G) = (r, S')
    \<Longrightarrow> cstep G ((after_call (SemQ q) (cur (sy G)) 0 (Done r) G)\<lparr>sy := S'\<rparr>)"
| post: "(b \<longrightarrow> wnt G (cur (sy G)) = None \<and> not_idle (kern G)) \<Longrightarrow> sem_post now q b (sy G) = Ret (n, S')
    \<Longrightarrow> cstep G ((give (SemQ q) (cur (sy G)) G)\<lparr>sy := S'\<rparr>)"
| kernel: "op = Tick \<or> op = Preempt \<or> wnt G (cur (sy G)) = None \<Longrightarrow> foreign lock_q op
    \<Longrightarrow> kstep now op (kern G) K' \<Longrightarrow> cstep G (G\<lparr>sy := (sy G)\<lparr>ks := K'\<rparr>\<rparr>)"

section \<open>Counting\<close>

text \<open>
  The counter of an object: its free tokens less the threads inside a waiting call. A mutex
  is a semaphore with one token whose counter runs the other way.
\<close>

fun avail :: "sync \<Rightarrow> wqid \<Rightarrow> int" where
  "avail S (MutexQ m) = 1 - mcount (mtx S m)"
| "avail S (SemQ q) = scount (sema S q)"
| "avail S _ = 0"

definition counted :: "wants \<Rightarrow> sched \<Rightarrow> (wqid \<Rightarrow> int) \<Rightarrow> (wqid \<Rightarrow> int) \<Rightarrow> bool" where
  "counted w s av tk \<longleftrightarrow> (\<forall>q. lock_q q \<longrightarrow> av q = tk q - int (card (pend w q)) \<and> int (card (granted w s q)) \<le> tk q)"

definition served :: "wants \<Rightarrow> sched \<Rightarrow> (wqid \<Rightarrow> int) \<Rightarrow> bool" where
  "served w s tk \<longleftrightarrow> (\<forall>q. lock_q q \<and> wlist (wq s q) \<noteq> [] \<longrightarrow> tk q = int (card (granted w s q)))"

definition no_timeout :: "wants \<Rightarrow> sched \<Rightarrow> bool" where
  "no_timeout w s \<longleftrightarrow> (\<forall>q. lock_q q \<longrightarrow> expired w s q = {})"

text \<open>The holder field of a mutex is the thread that acquired it.\<close>

definition holders_ok :: "client \<Rightarrow> bool" where
  "holders_ok G \<longleftrightarrow> (\<forall>m. holds G m = set_option (holder (mtx (sy G) m))
     \<and> tok G (MutexQ m) = 1 - int (card (holds G m)))"

text \<open>The counters fit their type.\<close>

definition counts_fit :: "sync \<Rightarrow> bool" where
  "counts_fit S \<longleftrightarrow> (\<forall>q. INT_MIN \<le> scount (sema S q) \<and> scount (sema S q) \<le> INT_MAX)"

text \<open>A step of a semaphore call that succeeds changes one counter by one within its range.\<close>

lemma counts_fit_upd:
  assumes "counts_fit S" and "INT_MIN \<le> scount (f (sema S q))" and "scount (f (sema S q)) \<le> INT_MAX"
  shows "counts_fit (upd_sem q f S)"
  using assms by (auto simp: counts_fit_def upd_sem_def)

lemma counts_fit_same [simp]: "counts_fit (S\<lparr>ks := K\<rparr>) = counts_fit S" "counts_fit (upd_mtx m g S) = counts_fit S"
  by (simp_all add: counts_fit_def upd_mtx_def)

definition client_inv :: "client \<Rightarrow> bool" where
  "client_inv G \<longleftrightarrow> kernel_inv (kern G) \<and> lock_inv (wnt G) (env (kern G))
     \<and> counted (wnt G) (env (kern G)) (avail (sy G)) (tok G) \<and> holders_ok G"

lemma client_invD:
  assumes "client_inv G"
  shows "kernel_inv (kern G)" and "lock_inv (wnt G) (env (kern G))"
    and "counted (wnt G) (env (kern G)) (avail (sy G)) (tok G)" and "holders_ok G"
  using assms by (auto simp: client_inv_def)

lemma card_granted_pend: "lock_inv w s \<Longrightarrow> card (granted w s q) \<le> card (pend w q)"
  by (rule card_mono [OF finite_pend]) (auto simp: granted_def)

lemma counted_avail: "counted w s av tk \<Longrightarrow> lock_q q \<Longrightarrow> av q \<le> tk q"
  by (auto simp: counted_def)

text \<open>With nobody timed out, the pending threads are the queue and the granted ones.\<close>

lemma card_pend:
  assumes si: "sched_inv r s" and i: "lock_inv w s" and n: "no_timeout w s" and q: "lock_q q"
  shows "card (pend w q) = length (wlist (wq s q)) + card (granted w s q)"
proof -
  have "pend w q = set (wlist (wq s q)) \<union> granted w s q"
    using lock_invD(5) [OF i q] n q by (simp add: no_timeout_def)
  moreover have "set (wlist (wq s q)) \<inter> granted w s q = {}" by (auto simp: granted_def)
  moreover have "card (set (wlist (wq s q))) = length (wlist (wq s q))"
    using sched_invD(5) [OF si] by (rule distinct_card)
  ultimately show ?thesis using card_Un_disjoint [OF finite_set finite_granted [OF i]] by metis
qed

section \<open>Generic steps\<close>

lemma lock_take:
  assumes i: "lock_inv w s" and c: "counted w s av tk" and q: "lock_q q" and a: "1 \<le> av q"
  shows "counted w s (av(q := av q - 1)) (tk(q := tk q - 1))"
    and "no_timeout w s \<Longrightarrow> sched_inv r s \<Longrightarrow> served w s tk \<Longrightarrow> served w s (tk(q := tk q - 1))"
proof -
  have le: "card (granted w s q) \<le> card (pend w q)" by (rule card_granted_pend [OF i])
  show "counted w s (av(q := av q - 1)) (tk(q := tk q - 1))"
    using c q a le unfolding counted_def by auto
  show "served w s (tk(q := tk q - 1))" if "no_timeout w s" "sched_inv r s" "served w s tk"
    using that(3) c q a le unfolding served_def counted_def by auto
qed

lemma lock_block:
  assumes k: "kernel_inv K" and m: "may_block K" and i: "lock_inv w (env K)" and n: "current (env K) \<notin> dom w"
    and q: "lock_q q" and r: "wait_queue_block now q d K = Ret (p, K')" and d: "d \<noteq> 0"
    and c: "counted w (env K) av tk" and a: "av q \<le> 0"
  shows "counted (w(current (env K) \<mapsto> (q, d))) (env K') (av(q := av q - 1)) tk"
    and "no_timeout w (env K) \<Longrightarrow> served w (env K) tk \<Longrightarrow> served (w(current (env K) \<mapsto> (q, d))) (env K') tk"
proof -
  let ?w = "w(current (env K) \<mapsto> (q, d))"
  note b = block_lock [OF k m i n q r d]
  have np: "current (env K) \<notin> pend w q" using n pend_dom by blast
  have p: "card (pend ?w q') = (if q' = q then Suc (card (pend w q)) else card (pend w q'))" for q'
    using pend_upd [OF n, of q d q'] finite_pend [OF i, of q] np by simp
  show "counted ?w (env K') (av(q := av q - 1)) tk"
    using c b(2) unfolding counted_def p by auto
  assume nt: "no_timeout w (env K)" and s: "served w (env K) tk"
  have "tk q' = int (card (granted w (env K) q'))"
    if q': "lock_q q'" and ne: "wlist (wq (env K') q') \<noteq> []" for q'
  proof (cases "q' = q \<and> wlist (wq (env K) q) = []")
    case True
    then have "int (card (pend w q)) = int (card (granted w (env K) q))"
      using card_pend [OF kernel_invD(1) [OF k] i nt q] by simp
    then show ?thesis using c a q True unfolding counted_def by force
  next
    case False
    then have "wlist (wq (env K) q') \<noteq> []" using ne b(4) [OF q'] by (auto split: if_splits)
    then show ?thesis using s q' unfolding served_def by blast
  qed
  then show "served ?w (env K') tk" using b(2) unfolding served_def by simp
qed

lemma lock_give:
  assumes k: "sched_inv r s" and i: "lock_inv w s" and c: "counted w s av tk" and q: "lock_q q"
  shows "counted w s (av(q := av q + 1)) (tk(q := tk q + 1))"
    and "no_timeout w s \<Longrightarrow> served w s tk \<Longrightarrow> 0 < av q + 1 \<or> wlist (wq s q) = [] \<Longrightarrow> served w s (tk(q := tk q + 1))"
proof -
  show "counted w s (av(q := av q + 1)) (tk(q := tk q + 1))" using c unfolding counted_def by force
  assume nt: "no_timeout w s" and s: "served w s tk" and a: "0 < av q + 1 \<or> wlist (wq s q) = []"
  have "wlist (wq s q) = []"
  proof (rule ccontr)
    assume ne: "wlist (wq s q) \<noteq> []"
    then have "tk q = int (card (granted w s q))" using s q unfolding served_def by blast
    then show False using a ne c q card_pend [OF k i nt q] unfolding counted_def by (cases "wlist (wq s q)") force+
  qed
  then show "served w s (tk(q := tk q + 1))" using s unfolding served_def by auto
qed

lemma lock_wake:
  assumes k: "kernel_inv K" and b: "b \<longrightarrow> not_idle K" and i: "lock_inv w (env K)" and c: "counted w (env K) av tk"
    and q: "lock_q q" and r: "wait_queue_wake_one now q b NO_ERROR K = Ret (n, K')"
  shows "lock_inv w (env K')" and "counted w (env K') (av(q := av q + 1)) (tk(q := tk q + 1))"
    and "no_timeout w (env K) \<Longrightarrow> no_timeout w (env K')"
    and "no_timeout w (env K) \<Longrightarrow> served w (env K) tk \<Longrightarrow> served w (env K') (tk(q := tk q + 1))"
proof -
  have "lock_inv w (env K') \<and> counted w (env K') (av(q := av q + 1)) (tk(q := tk q + 1))
    \<and> (no_timeout w (env K) \<longrightarrow> no_timeout w (env K')
        \<and> (served w (env K) tk \<longrightarrow> served w (env K') (tk(q := tk q + 1))))"
  proof (cases "wlist (wq (env K) q)")
    case Nil
    then have "K' = K" using r by (simp add: wait_queue_wake_one_def)
    then show ?thesis using i Nil lock_give [OF kernel_invD(1) [OF k] i c q] by simp
  next
    case (Cons t ts)
    note w = wake_one_lock [OF k b i q r Cons]
    have g: "card (granted w (env K') q') = card (granted w (env K) q') + (if q' = q then 1 else 0)"
      if "lock_q q'" for q' using w(2) [OF that] w(5) finite_granted [OF i] by auto
    have "counted w (env K') (av(q := av q + 1)) (tk(q := tk q + 1))"
      using c g unfolding counted_def by auto
    moreover have "no_timeout w (env K) \<longrightarrow> no_timeout w (env K')" using w(3) by (simp add: no_timeout_def)
    moreover have "served w (env K') (tk(q := tk q + 1))" if s: "served w (env K) tk"
    proof -
      have "tk q = int (card (granted w (env K) q))" using s q Cons unfolding served_def by auto
      then show ?thesis using s g w(4) unfolding served_def by auto
    qed
    ultimately show ?thesis using w(1) by blast
  qed
  then show "lock_inv w (env K')" and "counted w (env K') (av(q := av q + 1)) (tk(q := tk q + 1))"
    and "no_timeout w (env K) \<Longrightarrow> no_timeout w (env K')"
    and "no_timeout w (env K) \<Longrightarrow> served w (env K) tk \<Longrightarrow> served w (env K') (tk(q := tk q + 1))" by blast+
qed

lemma lock_finish:
  assumes k: "kernel_inv K" and i: "lock_inv w (env K)" and t: "w (current (env K)) = Some (q, d)"
    and r: "wait_queue_block_finish now d K = (ret, K')" and c: "counted w (env K) av tk"
  defines "w' \<equiv> w(current (env K) := None)"
  shows "ret = NO_ERROR \<Longrightarrow> 1 \<le> tk q \<and> counted w' (env K') av (tk(q := tk q - 1))"
    and "ret = NO_ERROR \<Longrightarrow> served w (env K) tk \<Longrightarrow> served w' (env K') (tk(q := tk q - 1))"
    and "ret \<noteq> NO_ERROR \<Longrightarrow> ret = ERR_TIMED_OUT \<and> counted w' (env K') (av(q := av q + 1)) tk"
    and "no_timeout w (env K) \<Longrightarrow> ret = NO_ERROR \<and> no_timeout w' (env K')"
proof -
  let ?c = "current (env K)"
  note f = finish_lock [OF k i t r, folded w'_def]
  have q: "lock_q q" using lock_invD(3) [OF i t] .
  have cp: "?c \<in> pend w q" using t by (auto simp: pend_def)
  have np: "?c \<notin> pend w q'" if "q' \<noteq> q" for q' using that cp pend_unique by blast
  have p: "int (card (pend w' q')) = int (card (pend w q')) - (if q' = q then 1 else 0)" for q'
  proof (cases "q' = q")
    case True
    have "0 < card (pend w q)" using cp finite_pend [OF i, of q] card_gt_0_iff by blast
    then show ?thesis using True f(6) [of q] cp card_Diff_singleton [of ?c "pend w q"] by auto
  next
    case False
    then show ?thesis using f(6) [of q'] np by simp
  qed
  have g: "int (card (granted w' (env K') q')) = int (card (granted w (env K) q'))
      - (if q' = q \<and> ?c \<in> granted w (env K) q then 1 else 0)" for q'
  proof (cases "q' = q \<and> ?c \<in> granted w (env K) q")
    case True
    then have "0 < card (granted w (env K) q)" using finite_granted [OF i, of q] card_gt_0_iff by blast
    then show ?thesis using True f(4) [of q] card_Diff_singleton [of ?c "granted w (env K) q"] by auto
  next
    case False
    then have "?c \<notin> granted w (env K) q'" using np [of q'] by (auto simp: granted_def)
    then show ?thesis using f(4) [of q'] False by simp
  qed
  have ok: "?c \<in> granted w (env K) q" if "ret = NO_ERROR" using f(3) that by auto
  have bad: "?c \<notin> granted w (env K) q" "ret = ERR_TIMED_OUT" if "ret \<noteq> NO_ERROR"
    using f(3) that by (auto simp: granted_def expired_def)
  have c1: "1 \<le> card (granted w (env K) q)" if "ret = NO_ERROR"
    using ok [OF that] finite_granted [OF i, of q] by (metis One_nat_def Suc_leI card_gt_0_iff empty_iff)
  have cq: "av q' = tk q' - int (card (pend w q'))" "int (card (granted w (env K) q')) \<le> tk q'" if "lock_q q'" for q'
    using c that unfolding counted_def by blast+
  show "1 \<le> tk q \<and> counted w' (env K') av (tk(q := tk q - 1))" if "ret = NO_ERROR"
    using cq c1 [OF that] q ok [OF that] unfolding counted_def p g by force
  show "served w' (env K') (tk(q := tk q - 1))" if "ret = NO_ERROR" "served w (env K) tk"
    using that(2) ok [OF that(1)] f(2) unfolding served_def g by auto
  show "ret = ERR_TIMED_OUT \<and> counted w' (env K') (av(q := av q + 1)) tk" if "ret \<noteq> NO_ERROR"
    using cq bad [OF that] unfolding counted_def p g by auto
  show "ret = NO_ERROR \<and> no_timeout w' (env K')" if "no_timeout w (env K)"
    using that f(3,5) q by (auto simp: no_timeout_def)
qed

section \<open>The calls\<close>

lemma avail_mtx: "avail (upd_mtx m f S) = (avail S)(MutexQ m := 1 - mcount (f (mtx S m)))"
proof
  show "avail (upd_mtx m f S) q = ((avail S)(MutexQ m := 1 - mcount (f (mtx S m)))) q" for q
    by (cases q) (auto simp: upd_mtx_def)
qed

lemma avail_sem: "avail (upd_sem i f S) = (avail S)(SemQ i := scount (f (sema S i)))"
proof
  show "avail (upd_sem i f S) q = ((avail S)(SemQ i := scount (f (sema S i)))) q" for q
    by (cases q) (auto simp: upd_sem_def)
qed

lemma avail_ks [simp]: "avail (S\<lparr>ks := K\<rparr>) = avail S"
proof
  show "avail (S\<lparr>ks := K\<rparr>) q = avail S q" for q by (cases q) auto
qed

lemma upd_fields [simp]:
  "ks (upd_mtx m f S) = ks S" "ks (upd_sem i g S) = ks S" "sema (upd_mtx m f S) = sema S" "mtx (upd_sem i g S) = mtx S"
  "mtx (upd_mtx m f S) = (mtx S)(m := f (mtx S m))" "sema (upd_sem i g S) = (sema S)(i := g (sema S i))"
  "cur (upd_mtx m f S) = cur S" "cur (upd_sem i g S) = cur S"
  by (simp_all add: upd_mtx_def upd_sem_def cur_def)

lemma free_mutex:
  assumes "holders_ok G" and "1 \<le> tok G (MutexQ m)"
  shows "holds G m = {}" and "holder (mtx (sy G) m) = None" and "tok G (MutexQ m) = 1"
proof -
  have "finite (holds G m)" "card (holds G m) = 0" using assms by (auto simp: holders_ok_def)
  then show h: "holds G m = {}" by simp
  then show "holder (mtx (sy G) m) = None" "tok G (MutexQ m) = 1"
    using assms(1) by (auto simp: holders_ok_def)
qed

lemma gain_mutex:
  assumes "holders_ok G" and "1 \<le> tok G (MutexQ m)"
    and "\<And>m'. holder (mtx S' m') = (if m' = m then Some c else holder (mtx (sy G) m'))"
  shows "holders_ok ((gain (MutexQ m) c G)\<lparr>sy := S'\<rparr>)"
  using free_mutex [OF assms(1,2)] assms(1,3) by (auto simp: holders_ok_def gain_def)

lemma gain_sem:
  assumes "holders_ok G" and "\<And>m. holder (mtx S' m) = holder (mtx (sy G) m)"
  shows "holders_ok ((gain (SemQ i) c G)\<lparr>sy := S'\<rparr>)" and "holders_ok ((give (SemQ i) c G)\<lparr>sy := S'\<rparr>)"
  using assms by (auto simp: holders_ok_def gain_def give_def)

lemma give_mutex:
  assumes "holders_ok G" and "holder (mtx (sy G) m) = Some c"
    and "\<And>m'. holder (mtx S' m') = (if m' = m then None else holder (mtx (sy G) m'))"
  shows "holders_ok ((give (MutexQ m) c G)\<lparr>sy := S'\<rparr>)"
  using assms by (auto simp: holders_ok_def give_def)

lemma gain_fields [simp]:
  "wnt (gain q c G) = wnt G" "tok (gain q c G) = (tok G)(q := tok G q - 1)" "sy (gain q c G) = sy G"
  "wnt (give q c G) = wnt G" "tok (give q c G) = (tok G)(q := tok G q + 1)" "sy (give q c G) = sy G"
  by (simp_all add: gain_def give_def)

abbreviation all_served :: "client \<Rightarrow> bool" where
  "all_served G \<equiv> served (wnt G) (env (kern G)) (tok G)"

abbreviation nobody_expired :: "client \<Rightarrow> bool" where
  "nobody_expired G \<equiv> no_timeout (wnt G) (env (kern G))"

definition good_step :: "client \<Rightarrow> client \<Rightarrow> bool" where
  "good_step G G' \<longleftrightarrow> client_inv G' \<and> (nobody_expired G \<longrightarrow> all_served G \<longrightarrow> all_served G')"

lemma mutex_taken:
  assumes g: "client_inv G" and a: "mutex_acquire_timeout now m d (sy G) = Ret (p, S')" and f: "1 \<le> avail (sy G) (MutexQ m)"
  shows "good_step G ((after_call (MutexQ m) (cur (sy G)) d p G)\<lparr>sy := S'\<rparr>)"
proof -
  note inv = client_invD [OF g]
  let ?m = "upd_mtx m (\<lambda>x. x\<lparr>mcount := mcount x + 1\<rparr>) (sy G)"
  have S': "p = Done NO_ERROR" "S' = upd_mtx m (\<lambda>x. x\<lparr>holder := Some (cur (sy G))\<rparr>) ?m"
    using a f by (auto simp: mutex_acquire_timeout_def Let_def split: if_splits)
  note t = lock_take [OF inv(2,3) _ f]
  have av: "avail S' = (avail (sy G))(MutexQ m := avail (sy G) (MutexQ m) - 1)"
    unfolding S'(2) by (simp add: avail_mtx)
  have "1 \<le> tok G (MutexQ m)" using counted_avail [OF inv(3), of "MutexQ m"] f by simp
  then have "holders_ok ((gain (MutexQ m) (cur (sy G)) G)\<lparr>sy := S'\<rparr>)"
    by (intro gain_mutex [OF inv(4)]) (auto simp: S'(2))
  then show ?thesis
    using t(1) t(2) [OF _ _ kernel_invD(1) [OF inv(1)]] inv(1,2)
    by (simp add: good_step_def client_inv_def after_call_def S'(1) av) (simp add: S'(2))
qed

lemma mutex_contended:
  assumes g: "client_inv G" and w: "wnt G (cur (sy G)) = None" and mb: "may_block (kern G)"
    and a: "mutex_acquire_timeout now m d (sy G) = Ret (p, S')" and f: "avail (sy G) (MutexQ m) \<le> 0"
  shows "good_step G ((after_call (MutexQ m) (cur (sy G)) d p G)\<lparr>sy := S'\<rparr>)"
proof -
  note inv = client_invD [OF g]
  let ?m = "upd_mtx m (\<lambda>x. x\<lparr>mcount := mcount x + 1\<rparr>) (sy G)"
  have n: "current (env (kern G)) \<notin> dom (wnt G)" using w by (auto simp: cur_def)
  show ?thesis
  proof (cases "d = 0")
    case True
    have S': "p = Done ERR_TIMED_OUT" "S' = (upd_mtx m (\<lambda>x. x\<lparr>mcount := mcount x - 1\<rparr>) ?m)\<lparr>ks := kern G\<rparr>"
      using a f True by (auto simp: mutex_acquire_timeout_def mutex_after_block_def wait_queue_block_def Let_def
          upd_mtx_def split: if_splits)
    have "avail S' = avail (sy G)" "holder (mtx S' m') = holder (mtx (sy G) m')" for m'
      unfolding S'(2) by (auto simp: avail_mtx fun_eq_iff)
    then show ?thesis using inv S' by (simp add: good_step_def client_inv_def after_call_def holders_ok_def)
  next
    case False
    then obtain K' where b: "wait_queue_block now (MutexQ m) d (kern G) = Ret (Blocked, K')"
        "kernel_inv K'" using wait_queue_block_inv [OF inv(1), of d now "MutexQ m"] mb by (auto simp: may_block_def)
    have S': "p = Blocked" "S' = ?m\<lparr>ks := K'\<rparr>"
      using a f b(1) by (auto simp: mutex_acquire_timeout_def Let_def split: if_splits)
    note l = lock_block [OF inv(1) mb inv(2) n _ b(1) False inv(3) f]
      block_lock [OF inv(1) mb inv(2) n _ b(1) False]
    have av: "avail S' = (avail (sy G))(MutexQ m := avail (sy G) (MutexQ m) - 1)"
      unfolding S'(2) by (simp add: avail_mtx)
    have "holder (mtx S' m') = holder (mtx (sy G) m')" "ks S' = K'" for m' unfolding S'(2) by simp_all
    then show ?thesis using inv(4) b(2) l(1-3) S'(1)
      by (simp add: good_step_def client_inv_def after_call_def holders_ok_def av cur_def)
  qed
qed

lemma mutex_finished:
  assumes g: "client_inv G" and w: "wnt G (cur (sy G)) = Some (MutexQ m, d)"
    and a: "mutex_acquire_finish now m d (sy G) = (r, S')"
  shows "good_step G ((after_finish (MutexQ m) (cur (sy G)) r G)\<lparr>sy := S'\<rparr>)"
proof -
  note inv = client_invD [OF g]
  obtain K' where b: "wait_queue_block_finish now d (kern G) = (r, K')" and ab: "mutex_after_block m r ((sy G)\<lparr>ks := K'\<rparr>) = (r, S')"
    using a by (auto simp: mutex_acquire_finish_def mutex_after_block_def split: prod.splits if_splits)
  have k: "kernel_inv K'" "env K' = env (kern G)" using wait_queue_block_finish_inv [OF inv(1) b] by auto
  have w': "wnt G (current (env (kern G))) = Some (MutexQ m, d)" using w by (simp add: cur_def)
  note l = lock_finish [OF inv(1,2) w' b inv(3)] finish_lock(1) [OF inv(1,2) w' b]
  show ?thesis
  proof (cases "r = NO_ERROR")
    case True
    have S': "S' = upd_mtx m (\<lambda>x. x\<lparr>holder := Some (cur (sy G))\<rparr>) ((sy G)\<lparr>ks := K'\<rparr>)"
      using ab True k(2) by (auto simp: mutex_after_block_def cur_def)
    let ?G = "G\<lparr>wnt := (wnt G)(cur (sy G) := None)\<rparr>"
    have "avail S' = avail (sy G)" unfolding S' by (auto simp: avail_mtx fun_eq_iff)
    moreover have "ks S' = K'" unfolding S' by simp
    moreover have "holders_ok ((gain (MutexQ m) (cur (sy G)) ?G)\<lparr>sy := S'\<rparr>)"
      using inv(4) l(1) [OF True] by (intro gain_mutex) (auto simp: S' holders_ok_def)
    ultimately show ?thesis using l(1,2) [OF True] l(5) k(1) True
      by (simp add: good_step_def client_inv_def after_finish_def cur_def)
  next
    case False
    then have r: "r = ERR_TIMED_OUT" using l(3) by blast
    then have S': "S' = upd_mtx m (\<lambda>x. x\<lparr>mcount := mcount x - 1\<rparr>) ((sy G)\<lparr>ks := K'\<rparr>)"
      using ab by (auto simp: mutex_after_block_def)
    have "avail S' = (avail (sy G))(MutexQ m := avail (sy G) (MutexQ m) + 1)" unfolding S' by (simp add: avail_mtx)
    moreover have "ks S' = K'" "holder (mtx S' m') = holder (mtx (sy G) m')" for m' unfolding S' by simp_all
    ultimately show ?thesis using l(3) [OF False] l(4,5) k(1) inv(4) False
      by (auto simp: good_step_def client_inv_def after_finish_def cur_def holders_ok_def)
  qed
qed

lemma mutex_released:
  assumes g: "client_inv G" and ni: "not_idle (kern G)" and a: "mutex_release now m (sy G) = Ret (r, S')"
  shows "good_step G ((give (MutexQ m) (cur (sy G)) G)\<lparr>sy := S'\<rparr>)"
proof -
  note inv = client_invD [OF g]
  let ?m = "upd_mtx m (\<lambda>x. x\<lparr>holder := None, mcount := mcount x - 1\<rparr>) (sy G)"
  have h: "holder (mtx (sy G) m) = Some (cur (sy G))" using a by (auto simp: mutex_release_def split: if_splits)
  have fin: ?thesis if K: "S' = ?m\<lparr>ks := K'\<rparr>" "kernel_inv K'" "lock_inv (wnt G) (env K')"
    "counted (wnt G) (env K') ((avail (sy G))(MutexQ m := avail (sy G) (MutexQ m) + 1)) ((tok G)(MutexQ m := tok G (MutexQ m) + 1))"
    "nobody_expired G \<Longrightarrow> all_served G \<Longrightarrow> served (wnt G) (env K') ((tok G)(MutexQ m := tok G (MutexQ m) + 1))" for K'
  proof -
    have "avail S' = (avail (sy G))(MutexQ m := avail (sy G) (MutexQ m) + 1)" unfolding K(1) by (simp add: avail_mtx)
    moreover have "holders_ok ((give (MutexQ m) (cur (sy G)) G)\<lparr>sy := S'\<rparr>)"
      by (rule give_mutex [OF inv(4) h]) (simp add: K(1))
    moreover have "ks S' = K'" unfolding K(1) by simp
    ultimately show ?thesis using K(2-5) by (simp add: good_step_def client_inv_def)
  qed
  show ?thesis
  proof (cases "1 \<le> mcount (mtx ?m m)")
    case True
    then obtain n K' where w: "wait_queue_wake_one now (MutexQ m) True NO_ERROR (kern G) = Ret (n, K')" "S' = ?m\<lparr>ks := K'\<rparr>"
      using a h by (auto simp: mutex_release_def Let_def split: outcome.splits if_splits)
    have "True \<longrightarrow> not_idle (kern G)" using ni by simp
    note l = lock_wake [OF inv(1) this inv(2,3) _ w(1)]
    show ?thesis using fin [OF w(2) wake_one_inv [OF inv(1) _ w(1)]] l ni by simp
  next
    case False
    then have S': "S' = ?m\<lparr>ks := kern G\<rparr>" using a h by (auto simp: mutex_release_def Let_def upd_mtx_def split: if_splits)
    note l = lock_give [OF kernel_invD(1) [OF inv(1)] inv(2,3), of "MutexQ m"]
    show ?thesis using fin [OF S' inv(1,2)] l False by simp
  qed
qed

text \<open>Semaphores. A successful call takes a token; the counter is below zero for waiters.\<close>

lemma sem_taken:
  assumes g: "client_inv G" and f: "1 \<le> scount (sema (sy G) q)"
    and S': "S' = upd_sem q (\<lambda>x. x\<lparr>scount := scount x - 1\<rparr>) (sy G)"
  shows "good_step G ((gain (SemQ q) (cur (sy G)) G)\<lparr>sy := S'\<rparr>)"
proof -
  note inv = client_invD [OF g]
  have "1 \<le> avail (sy G) (SemQ q)" using f by simp
  note t = lock_take [OF inv(2,3) _ this]
  have av: "avail S' = (avail (sy G))(SemQ q := avail (sy G) (SemQ q) - 1)" unfolding S' by (simp add: avail_sem)
  have "holders_ok ((gain (SemQ q) (cur (sy G)) G)\<lparr>sy := S'\<rparr>)" by (rule gain_sem(1) [OF inv(4)]) (simp add: S')
  then show ?thesis using t(1) t(2) [OF _ _ kernel_invD(1) [OF inv(1)]] inv(1,2)
    by (simp add: good_step_def client_inv_def av) (simp add: S')
qed

lemma good_step_same: "client_inv G \<Longrightarrow> good_step G G"
  by (simp add: good_step_def)

lemma sem_tried:
  assumes g: "client_inv G" and a: "sem_trywait q (sy G) = (r, S')"
  shows "good_step G ((after_call (SemQ q) (cur (sy G)) d (Done r) G)\<lparr>sy := S'\<rparr>)"
proof (cases "scount (sema (sy G) q) \<le> 0")
  case True
  then have "(after_call (SemQ q) (cur (sy G)) d (Done r) G)\<lparr>sy := S'\<rparr> = G"
    using a by (simp add: sem_trywait_def after_call_def)
  then show ?thesis using good_step_same [OF g] by simp
next
  case False
  then show ?thesis using a sem_taken [OF g, of q] by (simp add: sem_trywait_def after_call_def)
qed

lemma sem_waited:
  assumes g: "client_inv G" and w: "wnt G (cur (sy G)) = None" and mb: "may_block (kern G)"
    and a: "sem_timedwait now q d (sy G) = Ret (p, S')"
  shows "good_step G ((after_call (SemQ q) (cur (sy G)) d p G)\<lparr>sy := S'\<rparr>)"
proof (cases "1 \<le> scount (sema (sy G) q)")
  case True
  then show ?thesis using a sem_taken [OF g True] by (auto simp: sem_timedwait_def after_call_def Let_def split: if_splits)
next
  case f: False
  note inv = client_invD [OF g]
  let ?m = "upd_sem q (\<lambda>x. x\<lparr>scount := scount x - 1\<rparr>) (sy G)"
  have n: "current (env (kern G)) \<notin> dom (wnt G)" using w by (auto simp: cur_def)
  have f': "avail (sy G) (SemQ q) \<le> 0" using f by simp
  show ?thesis
  proof (cases "d = 0")
    case True
    have S': "p = Done ERR_TIMED_OUT" "S' = (upd_sem q (\<lambda>x. x\<lparr>scount := scount x + 1\<rparr>) ?m)\<lparr>ks := kern G\<rparr>"
      using a f True running_state [OF inv(1)] by (auto simp: sem_timedwait_def sem_after_block_def wait_queue_block_def
          Let_def upd_sem_def split: if_splits)
    have "avail S' = avail (sy G)" "mtx S' = mtx (sy G)" unfolding S'(2) by (auto simp: avail_sem fun_eq_iff)
    then show ?thesis using inv S' by (simp add: good_step_def client_inv_def after_call_def holders_ok_def)
  next
    case False
    then obtain K' where b: "wait_queue_block now (SemQ q) d (kern G) = Ret (Blocked, K')"
        "kernel_inv K'" using wait_queue_block_inv [OF inv(1), of d now "SemQ q"] mb by (auto simp: may_block_def)
    have S': "p = Blocked" "S' = ?m\<lparr>ks := K'\<rparr>"
      using a f b(1) by (auto simp: sem_timedwait_def Let_def split: if_splits)
    note l = lock_block [OF inv(1) mb inv(2) n _ b(1) False inv(3) f']
      block_lock [OF inv(1) mb inv(2) n _ b(1) False]
    have av: "avail S' = (avail (sy G))(SemQ q := avail (sy G) (SemQ q) - 1)"
      unfolding S'(2) by (simp add: avail_sem)
    have "mtx S' = mtx (sy G)" "ks S' = K'" unfolding S'(2) by simp_all
    then show ?thesis using inv(4) b(2) l(1-3) S'(1)
      by (simp add: good_step_def client_inv_def after_call_def holders_ok_def av cur_def)
  qed
qed

lemma sem_finished:
  assumes g: "client_inv G" and w: "wnt G (cur (sy G)) = Some (SemQ q, d)"
    and a: "sem_timedwait_finish now q d (sy G) = Ret (r, S')"
  shows "good_step G ((after_finish (SemQ q) (cur (sy G)) r G)\<lparr>sy := S'\<rparr>)"
proof -
  note inv = client_invD [OF g]
  obtain K' where b: "wait_queue_block_finish now d (kern G) = (r, K')" and ab: "sem_after_block q r ((sy G)\<lparr>ks := K'\<rparr>) = Ret (r, S')"
    using a by (auto simp: sem_timedwait_finish_def sem_after_block_def split: prod.splits if_splits)
  have k: "kernel_inv K'" using wait_queue_block_finish_inv [OF inv(1) b] by auto
  have w': "wnt G (current (env (kern G))) = Some (SemQ q, d)" using w by (simp add: cur_def)
  note l = lock_finish [OF inv(1,2) w' b inv(3)] finish_lock(1) [OF inv(1,2) w' b]
  show ?thesis
  proof (cases "r = NO_ERROR")
    case True
    have S': "S' = (sy G)\<lparr>ks := K'\<rparr>" using ab True by (simp add: sem_after_block_def)
    let ?G = "G\<lparr>wnt := (wnt G)(cur (sy G) := None)\<rparr>"
    have "holders_ok ((gain (SemQ q) (cur (sy G)) ?G)\<lparr>sy := S'\<rparr>)"
      using inv(4) by (intro gain_sem) (auto simp: S' holders_ok_def)
    then show ?thesis using l(1,2) [OF True] l(5) k True S'
      by (simp add: good_step_def client_inv_def after_finish_def cur_def)
  next
    case False
    then have r: "r = ERR_TIMED_OUT" using l(3) by blast
    then have S': "S' = upd_sem q (\<lambda>x. x\<lparr>scount := scount x + 1\<rparr>) ((sy G)\<lparr>ks := K'\<rparr>)"
      using ab by (auto simp: sem_after_block_def split: if_splits)
    have "avail S' = (avail (sy G))(SemQ q := avail (sy G) (SemQ q) + 1)" unfolding S' by (simp add: avail_sem)
    moreover have "ks S' = K'" "mtx S' = mtx (sy G)" unfolding S' by simp_all
    ultimately show ?thesis using l(3) [OF False] l(4,5) k inv(4) False
      by (auto simp: good_step_def client_inv_def after_finish_def cur_def holders_ok_def)
  qed
qed

lemma sem_posted:
  assumes g: "client_inv G" and ni: "b \<longrightarrow> not_idle (kern G)" and a: "sem_post now q b (sy G) = Ret (n, S')"
  shows "good_step G ((give (SemQ q) (cur (sy G)) G)\<lparr>sy := S'\<rparr>)"
proof -
  note inv = client_invD [OF g]
  let ?m = "upd_sem q (\<lambda>x. x\<lparr>scount := scount x + 1\<rparr>) (sy G)"
  have fin: ?thesis if K: "S' = ?m\<lparr>ks := K'\<rparr>" "kernel_inv K'" "lock_inv (wnt G) (env K')"
    "counted (wnt G) (env K') ((avail (sy G))(SemQ q := avail (sy G) (SemQ q) + 1)) ((tok G)(SemQ q := tok G (SemQ q) + 1))"
    "nobody_expired G \<Longrightarrow> all_served G \<Longrightarrow> served (wnt G) (env K') ((tok G)(SemQ q := tok G (SemQ q) + 1))" for K'
  proof -
    have "avail S' = (avail (sy G))(SemQ q := avail (sy G) (SemQ q) + 1)" unfolding K(1) by (simp add: avail_sem)
    moreover have "holders_ok ((give (SemQ q) (cur (sy G)) G)\<lparr>sy := S'\<rparr>)"
      by (rule gain_sem(2) [OF inv(4)]) (simp add: K(1))
    moreover have "ks S' = K'" unfolding K(1) by simp
    ultimately show ?thesis using K(2-5) by (simp add: good_step_def client_inv_def)
  qed
  show ?thesis
  proof (cases "scount (sema ?m q) \<le> 0")
    case True
    then obtain n K' where w: "wait_queue_wake_one now (SemQ q) b NO_ERROR (kern G) = Ret (n, K')" "S' = ?m\<lparr>ks := K'\<rparr>"
      using a by (auto simp: sem_post_def Let_def split: outcome.splits if_splits)
    note l = lock_wake [OF inv(1) ni inv(2,3) _ w(1)]
    show ?thesis using fin [OF w(2) wake_one_inv [OF inv(1) ni w(1)]] l by simp
  next
    case False
    then have S': "S' = ?m\<lparr>ks := kern G\<rparr>" using a by (auto simp: sem_post_def Let_def upd_sem_def split: if_splits)
    note l = lock_give [OF kernel_invD(1) [OF inv(1)] inv(2,3), of "SemQ q"]
    show ?thesis using fin [OF S' inv(1,2)] l False by simp
  qed
qed

lemma kernel_stepped:
  assumes g: "client_inv G" and o: "op = Tick \<or> op = Preempt \<or> wnt G (cur (sy G)) = None" "foreign lock_q op"
    and st: "kstep now op (kern G) K'"
  shows "good_step G (G\<lparr>sy := (sy G)\<lparr>ks := K'\<rparr>\<rparr>)"
proof -
  note inv = client_invD [OF g]
  have f: "expire_frame lock_q (dom (wnt G)) (env (kern G)) (env K')"
    using o by (intro kstep_frame [OF st inv(1) lock_invD(2) [OF inv(2)]]) (auto simp: cur_def)
  note l = lock_inv_expire [OF inv(2) f]
  have "counted (wnt G) (env K') (avail (sy G)) (tok G)" using inv(3) l(2) unfolding counted_def by simp
  moreover have "served (wnt G) (env K') (tok G)" if "all_served G"
  proof -
    have "wlist (wq (env (kern G)) q) \<noteq> []" if "lock_q q" "wlist (wq (env K') q) \<noteq> []" for q
      using f that unfolding expire_frame_def by (metis filter.simps(1))
    then show ?thesis using that l(2) unfolding served_def by simp
  qed
  moreover have "holders_ok (G\<lparr>sy := (sy G)\<lparr>ks := K'\<rparr>\<rparr>)" using inv(4) by (simp add: holders_ok_def)
  ultimately show ?thesis using kstep_inv [OF st inv(1)] l(1) by (simp add: good_step_def client_inv_def)
qed

text \<open>
  \<^verbatim>\<open>sem_wait\<close> is the timed wait without limit, except that it does not back out of a timeout;
  it never has to.
\<close>

lemma sem_wait_blocks:
  assumes "kernel_inv (ks S)" and "may_block (ks S)"
  shows "sem_wait now q S = sem_timedwait now q INFINITE_TIME S"
  using wait_queue_block_inv [OF assms(1), of INFINITE_TIME now "SemQ q"] assms(2)
  by (auto simp: sem_wait_def sem_timedwait_def may_block_def INFINITE_TIME_def Let_def)

lemma sem_wait_finished:
  assumes g: "client_inv G" and p: "patient (wnt G) (kern G)" and w: "wnt G (cur (sy G)) = Some (SemQ q, INFINITE_TIME)"
    and a: "sem_wait_finish now (sy G) = (r, S')"
  shows "r = NO_ERROR" and "sem_timedwait_finish now q INFINITE_TIME (sy G) = Ret (r, S')"
proof -
  note inv = client_invD [OF g]
  obtain K' where b: "wait_queue_block_finish now INFINITE_TIME (kern G) = (r, K')" "S' = (sy G)\<lparr>ks := K'\<rparr>"
    using a by (auto simp: sem_wait_finish_def split: prod.splits)
  show r: "r = NO_ERROR" using patient_finish(2) [OF inv(1,2) _ b(1) p] w by (simp add: cur_def)
  show "sem_timedwait_finish now q INFINITE_TIME (sy G) = Ret (r, S')"
    using b r by (simp add: sem_timedwait_finish_def sem_after_block_def)
qed

lemma cstep_good: "cstep G G' \<Longrightarrow> client_inv G \<Longrightarrow> patient (wnt G) (kern G) \<Longrightarrow> good_step G G'"
proof (induction rule: cstep.induct)
  case (acquire G now m d p S')
  then show ?case using mutex_taken mutex_contended by (cases "1 \<le> avail (sy G) (MutexQ m)") auto
next
  case (wait G now q p S')
  then show ?case using sem_wait_blocks [OF client_invD(1), of G now q] sem_waited by simp
next
  case (wait_finish G q now r S')
  then show ?case using sem_wait_finished(2) sem_finished by blast
qed (auto intro: mutex_finished mutex_released sem_waited sem_finished sem_tried sem_posted kernel_stepped)

text \<open>Waits without limit stay without a timeout.\<close>

lemma patient_call:
  assumes g: "client_inv G" and p: "patient (wnt G) (kern G)" and w: "wnt G (cur (sy G)) = None"
    and m: "may_block (kern G)" and q: "lock_q q"
    and K: "pr = Blocked \<and> wait_queue_block now q d (kern G) = Ret (Blocked, ks S') \<or> pr \<noteq> Blocked \<and> ks S' = kern G"
  shows "patient (wnt (after_call q (cur (sy G)) d pr G)) (ks S')"
proof (cases pr)
  case (Done r)
  then show ?thesis using K p by (simp add: after_call_def)
next
  case Blocked
  then have b: "wait_queue_block now q d (kern G) = Ret (Blocked, ks S')" using K by simp
  then have "d \<noteq> 0" by (auto simp: wait_queue_block_def split: if_splits)
  then show ?thesis
    using patient_block [OF client_invD(1) [OF g] m client_invD(2) [OF g] _ q b _ p] w Blocked
    by (auto simp: after_call_def cur_def)
qed

lemma acquire_kernel:
  "mutex_acquire_timeout now m d S = Ret (p, S') \<Longrightarrow>
   p = Blocked \<and> wait_queue_block now (MutexQ m) d (ks S) = Ret (Blocked, ks S') \<or> p \<noteq> Blocked \<and> ks S' = ks S"
  by (auto simp: mutex_acquire_timeout_def mutex_after_block_def wait_queue_block_def upd_mtx_def Let_def
      split: if_splits outcome.splits prod.splits progress.splits)

lemma timedwait_kernel:
  "sem_timedwait now q d S = Ret (p, S') \<Longrightarrow>
   p = Blocked \<and> wait_queue_block now (SemQ q) d (ks S) = Ret (Blocked, ks S') \<or> p \<noteq> Blocked \<and> ks S' = ks S"
  by (auto simp: sem_timedwait_def sem_after_block_def wait_queue_block_def upd_sem_def Let_def
      split: if_splits outcome.splits prod.splits progress.splits)

lemma patient_end:
  assumes g: "client_inv G" and p: "patient (wnt G) (kern G)" and w: "wnt G (cur (sy G)) = Some (q, d)"
    and f: "wait_queue_block_finish now d (kern G) = (ret, ks S')"
  shows "patient (wnt (after_finish q (cur (sy G)) r G)) (ks S')"
  using patient_finish(1) [OF client_invD(1,2) [OF g] _ f p] w
  by (simp add: after_finish_def cur_def Let_def)

lemma patient_give:
  assumes g: "client_inv G" and p: "patient (wnt G) (kern G)" and q: "lock_q q" and b: "b \<longrightarrow> not_idle (kern G)"
    and K: "ks S' = kern G \<or> (\<exists>n. wait_queue_wake_one now q b NO_ERROR (kern G) = Ret (n, ks S'))"
  shows "patient (wnt (give q c G)) (ks S')"
  using K patient_wake [OF client_invD(1) [OF g] b client_invD(2) [OF g] q _ p] p by auto

lemma cstep_patient:
  assumes "cstep G G'" and "client_inv G" and "patient (wnt G) (kern G)"
  shows "patient (wnt G') (kern G')"
  using assms
proof (induction rule: cstep.induct)
  case (acquire G now m d p S')
  then show ?case using patient_call [OF acquire(4,5,1,2) _ acquire_kernel [OF acquire(3)]] by simp
next
  case (timedwait G now q d p S')
  then show ?case using patient_call [OF timedwait(4,5,1,2) _ timedwait_kernel [OF timedwait(3)]] by simp
next
  case (wait G now q p S')
  then have "sem_timedwait now q INFINITE_TIME (sy G) = Ret (p, S')"
    using sem_wait_blocks [OF client_invD(1), of G now q] by simp
  then show ?case using patient_call [OF wait(4,5,1,2) _ timedwait_kernel] by simp
next
  case (acquire_finish G m d now r S')
  obtain ret K' where f: "wait_queue_block_finish now d (kern G) = (ret, K')" by fastforce
  then have "ks S' = K'" using acquire_finish(2)
    by (auto simp: mutex_acquire_finish_def mutex_after_block_def split: if_splits)
  then show ?case using patient_end [OF acquire_finish(3,4,1), of now ret S'] f by simp
next
  case (timedwait_finish G q d now r S')
  obtain ret K' where f: "wait_queue_block_finish now d (kern G) = (ret, K')" by fastforce
  then have "ks S' = K'" using timedwait_finish(2)
    by (auto simp: sem_timedwait_finish_def sem_after_block_def split: if_splits)
  then show ?case using patient_end [OF timedwait_finish(3,4,1), of now ret S'] f by simp
next
  case (wait_finish G q now r S')
  obtain ret K' where f: "wait_queue_block_finish now INFINITE_TIME (kern G) = (ret, K')" by fastforce
  then have "ks S' = K'" using wait_finish(2) by (auto simp: sem_wait_finish_def)
  then show ?case using patient_end [OF wait_finish(3,4,1), of now ret S'] f by simp
next
  case (release G now m r S')
  then have "ks S' = kern G \<or> (\<exists>n. wait_queue_wake_one now (MutexQ m) True NO_ERROR (kern G) = Ret (n, ks S'))"
    by (auto simp: mutex_release_def Let_def split: if_splits outcome.splits)
  then show ?case using patient_give [of G "MutexQ m" True S' now] release by simp
next
  case (post b G now q n S')
  then have "ks S' = kern G \<or> (\<exists>n. wait_queue_wake_one now (SemQ q) b NO_ERROR (kern G) = Ret (n, ks S'))"
    by (auto simp: sem_post_def Let_def split: if_splits outcome.splits)
  then show ?case using patient_give [of G "SemQ q" b S' now] post by simp
next
  case (trywait q G r S')
  then have "ks S' = kern G" by (auto simp: sem_trywait_def split: if_splits)
  then show ?case using trywait by (simp add: after_call_def)
next
  case (kernel op G now K')
  then show ?case using patient_kstep [OF kernel(3) client_invD(1,2) [OF kernel(4)] kernel(5)] by (auto simp: cur_def)
qed

text \<open>Every call that returns leaves the counters of the semaphores in the range of their type.\<close>

lemma increment_fit:
  assumes "counts_fit S" and "\<not> INT_MAX \<le> scount (sema S q)"
  shows "counts_fit (upd_sem q (\<lambda>x. x\<lparr>scount := scount x + 1\<rparr>) S)"
proof -
  have "INT_MIN \<le> scount (sema S q)" using assms(1) by (simp add: counts_fit_def)
  then show ?thesis using assms by (intro counts_fit_upd) simp_all
qed

lemma after_block_fit: "sem_after_block q r S = Ret (x, S') \<Longrightarrow> counts_fit S \<Longrightarrow> counts_fit S'"
  by (auto simp: sem_after_block_def increment_fit split: if_splits)

lemma timedwait_fit: "sem_timedwait now q d S = Ret (p, S') \<Longrightarrow> counts_fit S \<Longrightarrow> counts_fit S'"
proof -
  assume r: "sem_timedwait now q d S = Ret (p, S')" and c: "counts_fit S"
  let ?S = "upd_sem q (\<lambda>x. x\<lparr>scount := scount x - 1\<rparr>) S"
  have "INT_MIN < scount (sema S q)" using r by (auto simp: sem_timedwait_def split: if_splits)
  moreover have "scount (sema S q) \<le> INT_MAX" using c by (simp add: counts_fit_def)
  ultimately have "counts_fit ?S" using c by (intro counts_fit_upd) simp_all
  then show ?thesis using r after_block_fit [of q]
    by (auto simp: sem_timedwait_def Let_def split: if_splits outcome.splits prod.splits progress.splits)
qed

lemma post_fit: "sem_post now q b S = Ret (n, S') \<Longrightarrow> counts_fit S \<Longrightarrow> counts_fit S'"
  using increment_fit [of S q] by (auto simp: sem_post_def Let_def split: if_splits outcome.splits)

lemma cstep_fit:
  assumes "cstep G G'" and "client_inv G" and "counts_fit (sy G)"
  shows "counts_fit (sy G')"
  using assms
proof (induction rule: cstep.induct)
  case (acquire G now m d p S')
  then show ?case
    by (auto simp: mutex_acquire_timeout_def mutex_after_block_def Let_def
        split: if_splits outcome.splits prod.splits progress.splits)
next
  case (acquire_finish G m d now r S')
  then show ?case by (auto simp: mutex_acquire_finish_def mutex_after_block_def split: if_splits prod.splits)
next
  case (release G now m r S')
  then show ?case by (auto simp: mutex_release_def Let_def split: if_splits outcome.splits)
next
  case (timedwait G now q d p S')
  then show ?case using timedwait_fit by auto
next
  case (timedwait_finish G q d now r S')
  then show ?case using after_block_fit by (auto simp: sem_timedwait_finish_def split: prod.splits)
next
  case (wait G now q p S')
  then show ?case using sem_wait_blocks [OF client_invD(1), of G now q] timedwait_fit by auto
next
  case (wait_finish G q now r S')
  then show ?case by (auto simp: sem_wait_finish_def split: prod.splits)
next
  case (trywait q G r S')
  moreover have "INT_MIN \<le> scount (sema (sy G) q) - 1" if "0 < scount (sema (sy G) q)"
    using that by (simp add: INT_MIN_def)
  moreover have "scount (sema (sy G) q) \<le> INT_MAX" using trywait(3) by (simp add: counts_fit_def)
  ultimately show ?case by (auto simp: sem_trywait_def intro!: counts_fit_upd split: if_splits)
next
  case (post b G now q n S')
  then show ?case using post_fit by auto
qed auto

section \<open>Runs\<close>

inductive creach :: "client \<Rightarrow> client \<Rightarrow> bool" for G0 where
  start: "creach G0 G0"
| step: "creach G0 G \<Longrightarrow> cstep G G' \<Longrightarrow> creach G0 G'"

text \<open>Runs in which no waiter of a mutex or semaphore ever times out.\<close>

inductive creach_nt :: "client \<Rightarrow> client \<Rightarrow> bool" for G0 where
  start: "creach_nt G0 G0"
| step: "creach_nt G0 G \<Longrightarrow> cstep G G' \<Longrightarrow> nobody_expired G' \<Longrightarrow> creach_nt G0 G'"

text \<open>Freshly initialised objects in a kernel where nobody waits on them.\<close>

definition client_init :: "client \<Rightarrow> bool" where
  "client_init G \<longleftrightarrow> kernel_inv (kern G) \<and> wnt G = (\<lambda>_. None)
     \<and> (\<forall>q. lock_q q \<longrightarrow> wlist (wq (env (kern G)) q) = [])
     \<and> (\<forall>m. mtx (sy G) m = \<lparr>mmagic = True, holder = None, mcount = 0\<rparr> \<and> holds G m = {} \<and> tok G (MutexQ m) = 1)
     \<and> (\<forall>q. 0 \<le> scount (sema (sy G) q) \<and> scount (sema (sy G) q) \<le> INT_MAX
          \<and> tok G (SemQ q) = scount (sema (sy G) q))"

lemma client_init_inv:
  assumes "client_init G"
  shows "client_inv G" and "nobody_expired G" and "all_served G" and "patient (wnt G) (kern G)"
    and "counts_fit (sy G)"
proof -
  have e: "pend (wnt G) q = {}" "granted (wnt G) s q = {}" "expired (wnt G) s q = {}" for q s
    using assms by (auto simp: client_init_def pend_def granted_def expired_def)
  have "lock_inv (wnt G) (env (kern G))"
    using assms e by (auto simp: lock_inv_def client_init_def busy_ok_def)
  moreover have "avail (sy G) q = tok G q \<and> 0 \<le> tok G q" if "lock_q q" for q
    using assms that by (cases q) (auto simp: client_init_def)
  ultimately show "client_inv G"
    using assms e by (auto simp: client_inv_def counted_def holders_ok_def client_init_def)
  show "nobody_expired G" "all_served G"
    using e assms by (auto simp: no_timeout_def served_def client_init_def)
  show "patient (wnt G) (kern G)" using assms by (simp add: client_init_def patient_def)
  have "INT_MIN \<le> scount (sema (sy G) q)" for q
    using assms by (auto simp: client_init_def INT_MIN_def intro: order_trans [of _ 0])
  then show "counts_fit (sy G)" using assms by (simp add: client_init_def counts_fit_def)
qed

lemma creach_invs:
  "creach G0 G \<Longrightarrow> client_init G0 \<Longrightarrow> client_inv G \<and> patient (wnt G) (kern G) \<and> counts_fit (sy G)"
proof (induction rule: creach.induct)
  case (step G G')
  then show ?case using cstep_good [of G G'] cstep_patient [of G G'] cstep_fit [of G G'] by (simp add: good_step_def)
qed (simp add: client_init_inv)

lemma creach_inv: "creach G0 G \<Longrightarrow> client_init G0 \<Longrightarrow> client_inv G"
  using creach_invs by blast

lemma creach_nt_inv:
  "creach_nt G0 G \<Longrightarrow> client_init G0 \<Longrightarrow>
   client_inv G \<and> patient (wnt G) (kern G) \<and> nobody_expired G \<and> all_served G"
proof (induction rule: creach_nt.induct)
  case (step G G')
  then show ?case using cstep_good [of G G'] cstep_patient [of G G'] by (simp add: good_step_def)
qed (simp add: client_init_inv)

definition client0 :: client where
  "client0 = \<lparr>sy = \<lparr>ks = shared_state, mtx = (\<lambda>_. \<lparr>mmagic = True, holder = None, mcount = 0\<rparr>),
      evt = (\<lambda>_. \<lparr>emagic = True, signaled = False, autounsignal = True\<rparr>), sema = (\<lambda>_. \<lparr>scount = 1\<rparr>)\<rparr>,
    wnt = (\<lambda>_. None), tok = (\<lambda>_. 1), holds = (\<lambda>_. {})\<rparr>"

lemma client0_init: "client_init client0"
  using shared_state_inv
  by (auto simp: client_init_def client0_def shared_state_def zero_kernel_def INT_MAX_def)

end
