(* ===== verification/Sync_Runs.thy ===== *)
theory Sync_Runs
  imports Sync_Correct
begin

text \<open>
  What the counting invariant means for mutexes and semaphores, the run in which a timeout
  makes a mutex unusable, and the behaviour of events.
\<close>

text \<open>Claim C29: mutual exclusion. Whatever the threads do, with timeouts and preemption, at most
one thread is between a successful acquire of a mutex and its release; the holder field names
it; and a waiter is granted the mutex only while nobody holds it, one waiter at a time.\<close>

theorem mutex_mutual_exclusion:
  assumes "client_init G0" and "creach G0 G"
  shows "card (holds G m) \<le> 1 \<and> holds G m = set_option (holder (mtx (sy G) m))
    \<and> card (holds G m) + card (granted (wnt G) (env (kern G)) (MutexQ m)) \<le> 1"
proof -
  note inv = client_invD [OF creach_inv [OF assms(2,1)]]
  have "int (card (granted (wnt G) (env (kern G)) (MutexQ m))) \<le> tok G (MutexQ m)"
    using inv(3) unfolding counted_def by (meson lock_q.simps(1))
  then show ?thesis using inv(4) by (auto simp: holders_ok_def)
qed

text \<open>Claim C30: a semaphore never hands out more than it has. Whatever the threads do, with
\<^verbatim>\<open>sem_wait\<close>, \<^verbatim>\<open>sem_timedwait\<close>, \<^verbatim>\<open>sem_trywait\<close>, \<^verbatim>\<open>sem_post\<close>, timeouts and
preemption, its counter is the number of free tokens (initial value plus posts less completed waits)
less the threads inside a waiting call, the free tokens cover the waiters already woken, so they
never go negative, the counter is in the range of its type, and a \<^verbatim>\<open>sem_wait\<close>, which could
not back out of a timeout, never times out. A call that would take the counter out of its range is
undefined and is not a step of a run.\<close>

theorem semaphore_never_overspent:
  assumes "client_init G0" and "creach G0 G"
  shows "scount (sema (sy G) q) = tok G (SemQ q) - int (card (pend (wnt G) (SemQ q)))
    \<and> int (card (granted (wnt G) (env (kern G)) (SemQ q))) \<le> tok G (SemQ q)
    \<and> INT_MIN \<le> scount (sema (sy G) q) \<and> scount (sema (sy G) q) \<le> INT_MAX
    \<and> (wnt G t = Some (SemQ q, INFINITE_TIME) \<longrightarrow> t \<notin> expired (wnt G) (env (kern G)) (SemQ q))"
proof -
  have i: "client_inv G" "counts_fit (sy G)" "patient (wnt G) (kern G)" using creach_invs [OF assms(2,1)] by blast+
  have "avail (sy G) p = tok G p - int (card (pend (wnt G) p))
      \<and> int (card (granted (wnt G) (env (kern G)) p)) \<le> tok G p" if "lock_q p" for p
    using client_invD(3) [OF i(1)] that unfolding counted_def by blast
  moreover have "INT_MIN \<le> scount (sema (sy G) q)" "scount (sema (sy G) q) \<le> INT_MAX"
    using i(2) unfolding counts_fit_def by blast+
  ultimately show ?thesis using patientD(2) [OF i(3)] by (metis avail.simps(2) lock_q.simps(2))
qed

text \<open>Claim C31: no wake-up is lost as long as nobody times out. While threads wait for a mutex,
it is held or granted to a woken thread; while threads wait for a semaphore, in \<^verbatim>\<open>sem_wait\<close> or
\<^verbatim>\<open>sem_timedwait\<close>, every free token is granted to a woken thread.\<close>

theorem no_lost_wakeup:
  assumes "client_init G0" and "creach_nt G0 G"
  shows "(wlist (wq (env (kern G)) (MutexQ m)) \<noteq> [] \<longrightarrow>
      holder (mtx (sy G) m) \<noteq> None \<or> granted (wnt G) (env (kern G)) (MutexQ m) \<noteq> {})
    \<and> (wlist (wq (env (kern G)) (SemQ q)) \<noteq> [] \<longrightarrow>
      tok G (SemQ q) = int (card (granted (wnt G) (env (kern G)) (SemQ q))))"
proof -
  have inv: "client_inv G" "all_served G" using creach_nt_inv [OF assms(2,1)] by blast+
  have s: "tok G p = int (card (granted (wnt G) (env (kern G)) p))"
    if "lock_q p" "wlist (wq (env (kern G)) p) \<noteq> []" for p
    using inv(2) that unfolding served_def by blast
  show ?thesis using s [of "MutexQ m"] s [of "SemQ q"] client_invD(4) [OF inv(1)]
    by (auto simp: holders_ok_def)
qed

section \<open>A timeout that loses a wake-up\<close>

declare tick_loop.simps [code]

text \<open>The state after a call, each call evaluated once.\<close>

definition run_call :: "('s \<Rightarrow> ('p \<times> 's) outcome) \<Rightarrow> 's \<Rightarrow> 's" where
  "run_call f S = (case f S of Ret y \<Rightarrow> snd y | Fault \<Rightarrow> S | Hang \<Rightarrow> S)"

definition ret_is :: "'a \<Rightarrow> ('a \<times> 'b) outcome \<Rightarrow> bool" where
  "ret_is p x \<longleftrightarrow> (case x of Ret y \<Rightarrow> fst y = p | Fault \<Rightarrow> False | Hang \<Rightarrow> False)"

lemma run_call_eq: "ret_is p (f S) \<Longrightarrow> f S = Ret (p, run_call f S)"
  by (auto simp: ret_is_def run_call_def split: outcome.splits)

definition sync_yield :: "u32 \<Rightarrow> sync \<Rightarrow> (unit \<times> sync) outcome" where
  "sync_yield now S = (case thread_yield now (ks S) of Ret K \<Rightarrow> Ret ((), S\<lparr>ks := K\<rparr>) | Fault \<Rightarrow> Fault | Hang \<Rightarrow> Hang)"

definition sync_tick :: "u32 \<Rightarrow> sync \<Rightarrow> (bool \<times> sync) outcome" where
  "sync_tick now S = (case timer_tick kernel_callbacks now (ks S) of
     Some (Ret (r, K)) \<Rightarrow> Ret (r, S\<lparr>ks := K\<rparr>) | Some Fault \<Rightarrow> Fault | Some Hang \<Rightarrow> Hang | None \<Rightarrow> Hang)"

lemma sync_yieldD: "sync_yield now S = Ret (u, S') \<Longrightarrow> thread_yield now (ks S) = Ret (ks S') \<and> S\<lparr>ks := ks S'\<rparr> = S'"
  by (auto simp: sync_yield_def split: outcome.splits)

lemma sync_tickD: "sync_tick now S = Ret (r, S') \<Longrightarrow>
    timer_tick kernel_callbacks now (ks S) = Some (Ret (r, ks S')) \<and> S\<lparr>ks := ks S'\<rparr> = S'"
  by (auto simp: sync_tick_def split: outcome.splits option.splits)

text \<open>
  Threads 1 and 2 and mutex 0. Thread 1 takes the mutex and yields; thread 2 waits for it for
  100 ms; the timer interrupt at 200 ms makes thread 2 ready again; before it runs, thread 1
  releases the mutex and at once wants it back; then thread 2 sees its timeout.
\<close>

definition d1 :: sync where "d1 = run_call (mutex_acquire_timeout 0 0 INFINITE_TIME) (sy client0)"
definition d2 :: sync where "d2 = run_call (sync_yield 0) d1"
definition d3 :: sync where "d3 = run_call (mutex_acquire_timeout 0 0 100) d2"
definition d4 :: sync where "d4 = run_call (sync_tick 200) d3"
definition d5 :: sync where "d5 = run_call (mutex_release 200 0) d4"
definition d6 :: sync where "d6 = run_call (mutex_acquire_timeout 200 0 INFINITE_TIME) d5"
definition d7 :: sync where "d7 = snd (mutex_acquire_finish 200 0 100 d6)"

lemma d1_eq: "mutex_acquire_timeout 0 0 INFINITE_TIME (sy client0) = Ret (Done NO_ERROR, d1)"
  unfolding d1_def by (rule run_call_eq) code_simp

lemma d2_eq: "sync_yield 0 d1 = Ret ((), d2)"
  unfolding d2_def by (rule run_call_eq) code_simp

lemma d3_eq: "mutex_acquire_timeout 0 0 100 d2 = Ret (Blocked, d3)"
  unfolding d3_def by (rule run_call_eq) code_simp

lemma d4_eq: "sync_tick 200 d3 = Ret (True, d4)"
  unfolding d4_def by (rule run_call_eq) code_simp

lemma d5_eq: "mutex_release 200 0 d4 = Ret (NO_ERROR, d5)"
  unfolding d5_def by (rule run_call_eq) code_simp

lemma d6_eq: "mutex_acquire_timeout 200 0 INFINITE_TIME d5 = Ret (Blocked, d6)"
  unfolding d6_def by (rule run_call_eq) code_simp

lemma d_steps: "thread_yield 0 (ks d1) = Ret (ks d2)" "timer_tick kernel_callbacks 200 (ks d3) = Some (Ret (True, ks d4))"
  using sync_yieldD [OF d2_eq] sync_tickD [OF d4_eq] by blast+

text \<open>The second half of thread 2's call, on what thread 1's second call left.\<close>

lemma d6_fields:
  "holder (mtx d6 0) = None" "mcount (mtx d6 0) = 2" "wlist (wq (env (ks d6)) (MutexQ 0)) = [1]" "cur d6 = 2"
  "wait_queue_block_ret (thr (env (ks d6)) 2) = ERR_TIMED_OUT"
proof -
  have "(holder (mtx d6 0), mcount (mtx d6 0), wlist (wq (env (ks d6)) (MutexQ 0)), cur d6,
      wait_queue_block_ret (thr (env (ks d6)) 2)) = (None, 2, [1], 2, ERR_TIMED_OUT)"
    by code_simp
  then show "holder (mtx d6 0) = None" "mcount (mtx d6 0) = 2" "wlist (wq (env (ks d6)) (MutexQ 0)) = [1]"
    "cur d6 = 2" "wait_queue_block_ret (thr (env (ks d6)) 2) = ERR_TIMED_OUT" by simp_all
qed

lemma d7_form: "mutex_acquire_finish 200 0 100 d6 = (ERR_TIMED_OUT,
  upd_mtx 0 (\<lambda>x. x\<lparr>mcount := mcount x - 1\<rparr>) (d6\<lparr>ks := timer_cancel (ks d6) 200 3\<rparr>))"
  using d6_fields(4,5)
  by (simp add: mutex_acquire_finish_def wait_queue_block_finish_def Let_def mutex_after_block_def cur_def
      INFINITE_TIME_def)

lemma d7_eq: "mutex_acquire_finish 200 0 100 d6 = (ERR_TIMED_OUT, d7)"
  by (simp add: d7_def d7_form)

lemma d_threads: "cur (sy client0) = 1" "cur d1 = 1" "cur d2 = 2" "cur d3 = 1" "cur d4 = 1" "cur d5 = 1" "cur d6 = 2"
  by (code_simp, code_simp, code_simp, code_simp, code_simp, code_simp, rule d6_fields)

lemma d_guards: "may_block (ks (sy client0))" "may_block (ks d2)" "not_idle (ks d4)" "may_block (ks d5)"
  by code_simp+

lemma d7_final:
  "holder (mtx d7 0) = None" "mcount (mtx d7 0) = 1" "wlist (wq (env (ks d7)) (MutexQ 0)) = [1]" "cur d7 = 2"
  using d6_fields by (simp_all add: d7_def d7_form upd_mtx_def cur_def)

text \<open>The same run with the ghost state of \<open>client\<close>.\<close>

definition g1 :: client where
  "g1 = (after_call (MutexQ 0) 1 INFINITE_TIME (Done NO_ERROR) client0)\<lparr>sy := d1\<rparr>"
definition g3 :: client where
  "g3 = (after_call (MutexQ 0) 2 100 Blocked (g1\<lparr>sy := d2\<rparr>))\<lparr>sy := d3\<rparr>"
definition g5 :: client where
  "g5 = (give (MutexQ 0) 1 (g3\<lparr>sy := d4\<rparr>))\<lparr>sy := d5\<rparr>"
definition g7 :: client where
  "g7 = (after_finish (MutexQ 0) 2 ERR_TIMED_OUT
     ((after_call (MutexQ 0) 1 INFINITE_TIME Blocked g5)\<lparr>sy := d6\<rparr>))\<lparr>sy := d7\<rparr>"

lemma g_wnt: "wnt client0 = (\<lambda>_. None)" "wnt g1 = (\<lambda>_. None)" "wnt g3 = [2 \<mapsto> (MutexQ 0, 100)]"
  "wnt g5 = [2 \<mapsto> (MutexQ 0, 100)]" "wnt g7 = [1 \<mapsto> (MutexQ 0, INFINITE_TIME)]"
  by (auto simp: client0_def g1_def g3_def g5_def g7_def after_call_def after_finish_def gain_def give_def)

lemma d_ks: "d1\<lparr>ks := ks d2\<rparr> = d2" "d3\<lparr>ks := ks d4\<rparr> = d4"
  using sync_yieldD [OF d2_eq] sync_tickD [OF d4_eq] by blast+

lemma g1_reached: "creach client0 g1"
  using creach.step [OF creach.start cstep.acquire [OF _ _ d1_eq]] d_guards(1) d_threads(1)
  by (simp add: g_wnt g1_def)

lemma g3_steps: "cstep g1 (g1\<lparr>sy := d2\<rparr>)" "cstep (g1\<lparr>sy := d2\<rparr>) g3"
proof -
  have s: "sy g1 = d1" by (simp add: g1_def)
  have "cstep g1 (g1\<lparr>sy := (sy g1)\<lparr>ks := ks d2\<rparr>\<rparr>)"
    by (rule cstep.kernel [where op=Yield and now=0]) (simp_all add: g_wnt s kstep.yield d_steps(1))
  then show "cstep g1 (g1\<lparr>sy := d2\<rparr>)" by (simp add: s d_ks)
  show "cstep (g1\<lparr>sy := d2\<rparr>) g3"
    using cstep.acquire [of "g1\<lparr>sy := d2\<rparr>" 0 0 100 Blocked d3] d3_eq d_guards(2) d_threads(3) g_wnt(2)
    by (simp add: g3_def)
qed

lemma g3_reached: "creach client0 g3"
  using creach.step [OF creach.step [OF g1_reached g3_steps(1)] g3_steps(2)] .

lemma g5_reached: "creach client0 g5"
proof -
  have s: "sy g3 = d3" by (simp add: g3_def)
  have "cstep g3 (g3\<lparr>sy := (sy g3)\<lparr>ks := ks d4\<rparr>\<rparr>)"
    by (rule cstep.kernel [where op=Tick and now=200]) (simp_all add: s kstep.tick [OF d_steps(2)])
  then have "creach client0 (g3\<lparr>sy := d4\<rparr>)" using creach.step [OF g3_reached] by (simp add: s d_ks)
  moreover have "cstep (g3\<lparr>sy := d4\<rparr>) g5"
    using cstep.release [of "g3\<lparr>sy := d4\<rparr>" 200 0 NO_ERROR d5] d5_eq d_guards(3) d_threads(5) g_wnt(3)
    by (simp add: g5_def)
  ultimately show ?thesis by (rule creach.step)
qed

lemma g7_reached: "creach client0 g7"
proof -
  let ?g6 = "(after_call (MutexQ 0) 1 INFINITE_TIME Blocked g5)\<lparr>sy := d6\<rparr>"
  have s: "sy g5 = d5" by (simp add: g5_def)
  have "cstep g5 ?g6"
    using cstep.acquire [of g5 200 0 INFINITE_TIME Blocked d6] d6_eq d_guards(4) d_threads(6) g_wnt(4) s by simp
  then have "creach client0 ?g6" by (rule creach.step [OF g5_reached])
  moreover have "cstep ?g6 g7"
    using cstep.acquire_finish [of ?g6 0 100 200 ERR_TIMED_OUT d7] d7_eq d_threads(7) g_wnt(4)
    by (simp add: g7_def after_call_def)
  ultimately show ?thesis by (rule creach.step)
qed

text \<open>Claim C32: a timed-out acquire can lose a wake-up. There is a run after which nobody holds
the mutex, nobody was granted it and no other thread is inside an acquire, yet its count is 1
and a thread waits for it without limit: the release counted the timed-out thread as a
waiter and woke nobody, so the mutex stays unusable.\<close>

theorem mutex_timeout_loses_wakeup:
  "\<exists>G. creach client0 G \<and> holder (mtx (sy G) 0) = None \<and> holds G 0 = {} \<and> mcount (mtx (sy G) 0) = 1
    \<and> wlist (wq (env (kern G)) (MutexQ 0)) = [1] \<and> wnt G = [1 \<mapsto> (MutexQ 0, INFINITE_TIME)]"
proof -
  have "sy g7 = d7" by (simp add: g7_def)
  moreover have "holds g7 0 = {}"
    by (simp add: g7_def g5_def g3_def g1_def after_call_def after_finish_def gain_def give_def client0_def Let_def)
  ultimately show ?thesis using g7_reached g_wnt(5) d7_final by (intro exI [of _ g7]) simp
qed

lemma g1_holds: "holds g1 0 = {1}"
  by (simp add: g1_def after_call_def gain_def client0_def)

theorem mutex_mutual_exclusion_witness:
  "holds g1 0 = {1} \<and> card (holds g1 0) \<le> 1 \<and> holds g1 0 = set_option (holder (mtx (sy g1) 0))
    \<and> card (holds g1 0) + card (granted (wnt g1) (env (kern g1)) (MutexQ 0)) \<le> 1"
  using mutex_mutual_exclusion [OF client0_init g1_reached, of 0] g1_holds by blast

text \<open>Semaphore 0 has one token: thread 1 takes it and yields, thread 2 has to wait.\<close>

definition s1 :: sync where "s1 = run_call (sem_wait 0 0) (sy client0)"
definition s2 :: sync where "s2 = run_call (sync_yield 0) s1"
definition s3 :: sync where "s3 = run_call (sem_wait 0 0) s2"

lemma s1_eq: "sem_wait 0 0 (sy client0) = Ret (Done NO_ERROR, s1)"
  unfolding s1_def by (rule run_call_eq) code_simp

lemma s2_eq: "sync_yield 0 s1 = Ret ((), s2)"
  unfolding s2_def by (rule run_call_eq) code_simp

lemma s3_eq: "sem_wait 0 0 s2 = Ret (Blocked, s3)"
  unfolding s3_def by (rule run_call_eq) code_simp

lemma s_fields: "cur s1 = 1" "cur s2 = 2" "may_block (ks s2)" "scount (sema s3 0) = - 1"
  "wlist (wq (env (ks s3)) (SemQ 0)) = [2]"
  by code_simp+

definition h1 :: client where
  "h1 = (after_call (SemQ 0) 1 INFINITE_TIME (Done NO_ERROR) client0)\<lparr>sy := s1\<rparr>"
definition h3 :: client where
  "h3 = (after_call (SemQ 0) 2 INFINITE_TIME Blocked (h1\<lparr>sy := s2\<rparr>))\<lparr>sy := s3\<rparr>"

lemma h_wnt: "wnt h1 = (\<lambda>_. None)" "wnt h3 = [2 \<mapsto> (SemQ 0, INFINITE_TIME)]" "sy h1 = s1" "sy h3 = s3"
  by (auto simp: client0_def h1_def h3_def after_call_def gain_def)

lemma h3_steps: "cstep client0 h1" "cstep h1 (h1\<lparr>sy := s2\<rparr>)" "cstep (h1\<lparr>sy := s2\<rparr>) h3"
proof -
  show "cstep client0 h1"
    using cstep.wait [OF _ _ s1_eq] d_guards(1) d_threads(1) by (simp add: g_wnt h1_def)
  have y: "thread_yield 0 (ks s1) = Ret (ks s2)" "s1\<lparr>ks := ks s2\<rparr> = s2" using sync_yieldD [OF s2_eq] by blast+
  have "cstep h1 (h1\<lparr>sy := (sy h1)\<lparr>ks := ks s2\<rparr>\<rparr>)"
    by (rule cstep.kernel [where op=Yield and now=0]) (simp_all add: h_wnt kstep.yield y(1))
  then show "cstep h1 (h1\<lparr>sy := s2\<rparr>)" by (simp add: h_wnt y(2))
  show "cstep (h1\<lparr>sy := s2\<rparr>) h3"
    using cstep.wait [of "h1\<lparr>sy := s2\<rparr>" 0 0 Blocked s3] s3_eq s_fields(2,3) h_wnt(1) by (simp add: h3_def)
qed

lemma h3_reached: "creach client0 h3"
  using creach.step [OF creach.step [OF creach.step [OF creach.start h3_steps(1)] h3_steps(2)] h3_steps(3)] .

lemma h3_reached_nt: "creach_nt client0 h3"
proof -
  have "nobody_expired h1" "nobody_expired (h1\<lparr>sy := s2\<rparr>)"
    by (simp_all add: no_timeout_def expired_def pend_def h_wnt)
  moreover have "nobody_expired h3"
    using s_fields(5) by (auto simp: no_timeout_def expired_def pend_def h_wnt)
  ultimately show ?thesis using h3_steps creach_nt.intros by metis
qed

theorem semaphore_never_overspent_witness:
  "scount (sema (sy h3) 0) = - 1 \<and> tok h3 (SemQ 0) = 0 \<and> pend (wnt h3) (SemQ 0) = {2}
    \<and> scount (sema (sy h3) 0) = tok h3 (SemQ 0) - int (card (pend (wnt h3) (SemQ 0)))
    \<and> int (card (granted (wnt h3) (env (kern h3)) (SemQ 0))) \<le> tok h3 (SemQ 0)
    \<and> INT_MIN \<le> scount (sema (sy h3) 0) \<and> scount (sema (sy h3) 0) \<le> INT_MAX
    \<and> 2 \<notin> expired (wnt h3) (env (kern h3)) (SemQ 0)"
proof -
  have "scount (sema (sy h3) 0) = - 1" using s_fields(4) by (simp add: h_wnt)
  moreover have "pend (wnt h3) (SemQ 0) = {2}" by (auto simp: pend_def h_wnt)
  moreover have "tok h3 (SemQ 0) = 0"
    by (simp add: h3_def h1_def after_call_def gain_def client0_def)
  moreover have "wnt h3 2 = Some (SemQ 0, INFINITE_TIME)" by (simp add: h_wnt)
  ultimately show ?thesis using semaphore_never_overspent [OF client0_init h3_reached, of 0 2] by simp
qed

lemma d3_waits: "wlist (wq (env (ks d3)) (MutexQ 0)) = [2]"
  by code_simp

lemma g3_reached_nt: "creach_nt client0 g3"
proof -
  have "cstep client0 g1"
    using cstep.acquire [OF _ _ d1_eq] d_guards(1) d_threads(1) by (simp add: g_wnt g1_def)
  moreover have "nobody_expired g1" "nobody_expired (g1\<lparr>sy := d2\<rparr>)"
    by (simp_all add: no_timeout_def expired_def pend_def g_wnt)
  moreover have "nobody_expired g3"
    using d3_waits by (auto simp: no_timeout_def expired_def pend_def g_wnt) (simp add: g3_def)
  ultimately show ?thesis using g3_steps creach_nt.intros by metis
qed

theorem no_lost_wakeup_witness:
  "wlist (wq (env (kern g3)) (MutexQ 0)) = [2]
    \<and> set_option (holder (mtx (sy g3) 0)) \<union> granted (wnt g3) (env (kern g3)) (MutexQ 0) \<noteq> {}
    \<and> wlist (wq (env (kern h3)) (SemQ 0)) = [2]
    \<and> tok h3 (SemQ 0) = int (card (granted (wnt h3) (env (kern h3)) (SemQ 0)))"
proof -
  have w: "wlist (wq (env (kern g3)) (MutexQ 0)) = [2]" using d3_waits by (simp add: g3_def)
  have v: "wlist (wq (env (kern h3)) (SemQ 0)) = [2]" using s_fields(5) by (simp add: h_wnt)
  show ?thesis using no_lost_wakeup [OF client0_init g3_reached_nt, of 0 0] w
      no_lost_wakeup [OF client0_init h3_reached_nt, of 0 0] v by auto
qed

section \<open>Events\<close>

text \<open>Signalling an initialised, unsignalled event. With the auto-unsignal flag the longest waiting
thread is released with \<^verbatim>\<open>NO_ERROR\<close> and the event stays unsignalled; if nobody waits, the
event becomes signalled and nothing else happens. Without the flag every waiter is released
and the event stays signalled. The kernel invariant is kept.\<close>

theorem event_signal_releases:
  assumes k: "kernel_inv (ks S)" and b: "b \<longrightarrow> not_idle (ks S)" and u: "\<not> signaled (evt S e)"
    and m: "emagic (evt S e)"
  defines "ws \<equiv> wlist (wq (env (ks S)) (EventQ e))"
  shows "\<exists>S'. event_signal now e b S = Ret (NO_ERROR, S') \<and> kernel_inv (ks S')
    \<and> (let released = (\<lambda>t. wait_queue_block_ret (thr (env (ks S')) t) = NO_ERROR
             \<and> state (thr (env (ks S')) t) \<in> {THREAD_READY, THREAD_RUNNING}) in
       if autounsignal (evt S e)
       then (if ws = [] then signaled (evt S' e) \<and> ks S' = ks S
             else \<not> signaled (evt S' e) \<and> released (hd ws)
               \<and> wlist (wq (env (ks S')) (EventQ e)) = tl ws)
       else signaled (evt S' e) \<and> wlist (wq (env (ks S')) (EventQ e)) = [] \<and> list_all released ws)"
proof (cases "autounsignal (evt S e)")
  case auto: True
  show ?thesis
  proof (cases ws)
    case Nil
    then have "wait_queue_wake_one now (EventQ e) b NO_ERROR (ks S) = Ret (0, ks S)"
      by (simp add: wait_queue_wake_one_def ws_def)
    then show ?thesis using auto u m k Nil by (simp add: event_signal_def Let_def upd_evt_def)
  next
    case (Cons t ts)
    obtain K' where "wait_queue_wake_one now (EventQ e) b NO_ERROR (ks S) = Ret (1, K')" "kernel_inv K'"
      "wlist (wq (env K') (EventQ e)) = ts" "wait_queue_block_ret (thr (env K') t) = NO_ERROR"
      "state (thr (env K') t) \<in> {THREAD_READY, THREAD_RUNNING}"
      using wait_queue_wake_one_inv [OF k _ Cons [unfolded ws_def], of b now NO_ERROR] b by (auto simp: not_idle_def)
    then show ?thesis using auto u m Cons by (simp add: event_signal_def Let_def)
  qed
next
  case False
  obtain K' where "wait_queue_wake_all now (EventQ e) b NO_ERROR (ks S) = Ret (int (length ws), K')" "kernel_inv K'"
    "wlist (wq (env K') (EventQ e)) = []" "\<forall>t \<in> set ws. wait_queue_block_ret (thr (env K') t) = NO_ERROR
      \<and> state (thr (env K') t) \<in> {THREAD_READY, THREAD_RUNNING}"
    using wait_queue_wake_all_inv [OF k, of b now "EventQ e" NO_ERROR] b by (auto simp: not_idle_def ws_def)
  then show ?thesis using False u m by (simp add: event_signal_def Let_def upd_evt_def list_all_iff)
qed

text \<open>Thread 1 waits for event 0, thread 2 signals it.\<close>

definition e1 :: sync where
  "e1 = run_call (event_wait_timeout 0 0 INFINITE_TIME) (sy client0)"

lemma e1_inv: "kernel_inv (ks e1)"
proof -
  obtain K' where b: "wait_queue_block 0 (EventQ 0) INFINITE_TIME shared_state = Ret (Blocked, K')" "kernel_inv K'"
    using wait_queue_block_inv [OF shared_state_inv, of INFINITE_TIME 0 "EventQ 0"] d_guards(1)
    by (auto simp: may_block_def client0_def INFINITE_TIME_def)
  then show ?thesis by (simp add: e1_def client0_def event_wait_timeout_def run_call_def)
qed

theorem event_signal_releases_witness:
  "\<exists>S'. event_signal 5 0 True e1 = Ret (NO_ERROR, S') \<and> kernel_inv (ks S')
    \<and> wait_queue_block_ret (thr (env (ks S')) 1) = NO_ERROR
    \<and> wlist (wq (env (ks S')) (EventQ 0)) = [] \<and> \<not> signaled (evt S' 0)"
proof -
  have f: "wlist (wq (env (ks e1)) (EventQ 0)) = [1]" "\<not> signaled (evt e1 0)" "autounsignal (evt e1 0)"
    "True \<longrightarrow> not_idle (ks e1)" "emagic (evt e1 0)"
    by code_simp+
  show ?thesis using event_signal_releases [OF e1_inv f(4,2,5), of 5] f(1,3) by (auto simp: Let_def)
qed

end
