(* ===== verification/Port_Buf.thy ===== *)
theory Port_Buf
  imports Pow2
begin

text \<open>
  The packet buffers of the ports (\<^verbatim>\<open>kernel/port.c\<close>): rings of 8 or 64 packets with a count of
  the free slots, and the proof that they are bounded queues (locale \<open>packet_fifo\<close>). A packet is
  the 16 bytes of its \<^verbatim>\<open>value\<close>.
\<close>

type_synonym port_packet = "byte list"

definition PORT_BUFF_SIZE :: nat where "PORT_BUFF_SIZE = 8"
definition PORT_BUFF_SIZE_BIG :: nat where "PORT_BUFF_SIZE_BIG = 64"

record port_buf =
  pb_log2 :: nat
  pb_avail :: u32
  pb_head :: u32
  pb_tail :: u32
  packet :: "port_packet list"

text \<open>\<open>mem\<close> is what \<^verbatim>\<open>malloc\<close> gives: nothing, or slots with arbitrary content.\<close>

definition make_buf :: "(nat \<Rightarrow> port_packet) option \<Rightarrow> bool \<Rightarrow> port_buf option" where
  "make_buf mem big =
     (let pk_count = (if big then PORT_BUFF_SIZE_BIG else PORT_BUFF_SIZE) in
      case mem of
        None \<Rightarrow> None
      | Some slots \<Rightarrow> Some \<lparr>pb_log2 = log2_uint (word_of_nat pk_count), pb_avail = word_of_nat pk_count,
          pb_head = 0, pb_tail = 0, packet = map slots [0..<pk_count]\<rparr>)"

definition buf_is_empty :: "port_buf \<Rightarrow> bool" where
  "buf_is_empty buf \<longleftrightarrow> pb_avail buf = valpow2 (pb_log2 buf)"

fun buf_put :: "port_packet list \<Rightarrow> port_buf \<Rightarrow> port_buf" where
  "buf_put [] buf = buf"
| "buf_put (p # ps) buf =
     buf_put ps (buf\<lparr>packet := (packet buf)[unat (pb_tail buf) := p],
                     pb_tail := modpow2 (pb_tail buf + 1) (pb_log2 buf)\<rparr>)"

definition buf_write :: "port_packet list \<Rightarrow> port_buf \<Rightarrow> status \<times> port_buf" where
  "buf_write packets buf =
     (if unat (pb_avail buf) < length packets then (ERR_NOT_ENOUGH_BUFFER, buf)
      else (let buf = buf_put packets buf in
            (NO_ERROR, buf\<lparr>pb_avail := pb_avail buf - word_of_nat (length packets)\<rparr>)))"

definition buf_read :: "port_buf \<Rightarrow> status \<times> port_packet option \<times> port_buf" where
  "buf_read buf =
     (if buf_is_empty buf then (ERR_NO_MSG, None, buf)
      else (NO_ERROR, Some (packet buf ! unat (pb_head buf)),
            buf\<lparr>pb_head := modpow2 (pb_head buf + 1) (pb_log2 buf), pb_avail := pb_avail buf + 1\<rparr>))"

section \<open>The ring as a queue\<close>

definition ring :: "nat \<Rightarrow> 'a list \<Rightarrow> nat \<Rightarrow> 'a list" where
  "ring h xs n = map (\<lambda>i. xs ! ((h + i) mod length xs)) [0..<n]"

lemma ring_0 [simp]: "ring h xs 0 = []"
  by (simp add: ring_def)

lemma length_ring [simp]: "length (ring h xs n) = n"
  by (simp add: ring_def)

lemma ring_Suc_head: "ring h xs (Suc n) = xs ! (h mod length xs) # ring (Suc h) xs n"
  by (simp add: ring_def upt_conv_Cons map_Suc_upt [symmetric] comp_def del: upt_Suc)

lemma ring_mod: "ring (h mod length xs) xs n = ring h xs n"
  by (simp add: ring_def mod_add_left_eq)

lemma ring_snoc:
  assumes "n < length xs"
  shows "ring h (xs[(h + n) mod length xs := x]) (Suc n) = ring h xs n @ [x]"
proof -
  let ?k = "length xs"
  have "(h + n) mod ?k \<noteq> (h + i) mod ?k" if "i < n" for i
  proof
    assume "(h + n) mod ?k = (h + i) mod ?k"
    then have "?k dvd (h + n) - (h + i)"
      using that mod_eq_dvd_iff_nat [of "h + i" "h + n" ?k] by simp
    then have "?k dvd n - i" by simp
    then show False using that assms by (auto dest: dvd_imp_le)
  qed
  moreover have "(h + n) mod ?k < ?k" using assms by (intro mod_less_divisor) linarith
  ultimately show ?thesis by (simp add: ring_def nth_list_update)
qed

definition buf_cap :: "port_buf \<Rightarrow> nat" where
  "buf_cap buf = 2 ^ pb_log2 buf"

definition buf_used :: "port_buf \<Rightarrow> nat" where
  "buf_used buf = buf_cap buf - unat (pb_avail buf)"

definition buf_queue :: "port_buf \<Rightarrow> port_packet list" where
  "buf_queue buf = ring (unat (pb_head buf)) (packet buf) (buf_used buf)"

definition buf_ok :: "port_buf \<Rightarrow> bool" where
  "buf_ok buf \<longleftrightarrow> pb_log2 buf < 32 \<and> length (packet buf) = buf_cap buf
     \<and> unat (pb_avail buf) \<le> buf_cap buf \<and> unat (pb_head buf) < buf_cap buf
     \<and> unat (pb_tail buf) = (unat (pb_head buf) + buf_used buf) mod buf_cap buf"

lemma buf_okD:
  assumes "buf_ok buf"
  shows "pb_log2 buf < 32" and "length (packet buf) = buf_cap buf" and "unat (pb_avail buf) \<le> buf_cap buf"
    and "unat (pb_head buf) < buf_cap buf"
    and "unat (pb_tail buf) = (unat (pb_head buf) + buf_used buf) mod buf_cap buf"
    and "buf_cap buf < 2 ^ 32" and "0 < buf_cap buf" and "unat (pb_avail buf) + buf_used buf = buf_cap buf"
proof -
  show f: "pb_log2 buf < 32" "length (packet buf) = buf_cap buf" "unat (pb_avail buf) \<le> buf_cap buf"
    "unat (pb_head buf) < buf_cap buf" "unat (pb_tail buf) = (unat (pb_head buf) + buf_used buf) mod buf_cap buf"
    using assms by (simp_all add: buf_ok_def)
  show "buf_cap buf < 2 ^ 32" unfolding buf_cap_def using f(1) by (intro power_strict_increasing) simp_all
  show "0 < buf_cap buf" by (simp add: buf_cap_def)
  show "unat (pb_avail buf) + buf_used buf = buf_cap buf" using f(3) by (simp add: buf_used_def)
qed

lemma next_slot:
  assumes "k < 32" and "unat p < 2 ^ k"
  shows "unat (modpow2 (p + 1) k) = (unat p + 1) mod 2 ^ k"
proof -
  have "(2::nat) ^ k \<le> 2 ^ 31" using assms(1) by (intro power_increasing) simp_all
  then have "unat p + 1 < 2 ^ 32" using assms(2) by simp
  then have "unat (p + 1) = unat p + 1" by (simp add: unat_word_ariths)
  then show ?thesis using assms(1) by (simp add: unat_modpow2)
qed

text \<open>Storing packets behind the queue, before the count is brought up to date.\<close>

lemma buf_put_ring:
  assumes "pb_log2 buf < 32" and "length (packet buf) = buf_cap buf"
    and "unat (pb_tail buf) = (h + n) mod buf_cap buf" and "n + length ps \<le> buf_cap buf"
  shows "pb_log2 (buf_put ps buf) = pb_log2 buf \<and> pb_avail (buf_put ps buf) = pb_avail buf
    \<and> pb_head (buf_put ps buf) = pb_head buf \<and> length (packet (buf_put ps buf)) = buf_cap buf
    \<and> unat (pb_tail (buf_put ps buf)) = (h + n + length ps) mod buf_cap buf
    \<and> ring h (packet (buf_put ps buf)) (n + length ps) = ring h (packet buf) n @ ps"
  using assms
proof (induction ps buf arbitrary: n rule: buf_put.induct)
  case (2 p ps buf)
  let ?b = "buf\<lparr>packet := (packet buf)[unat (pb_tail buf) := p],
                pb_tail := modpow2 (pb_tail buf + 1) (pb_log2 buf)\<rparr>"
  have c: "buf_cap ?b = buf_cap buf" by (simp add: buf_cap_def)
  have lt: "unat (pb_tail buf) < 2 ^ pb_log2 buf" using 2(4) by (simp add: buf_cap_def)
  have "unat (pb_tail ?b) = (h + Suc n) mod buf_cap ?b"
    using next_slot [OF 2(2) lt] 2(4) by (simp add: buf_cap_def mod_Suc_eq)
  moreover have "ring h (packet ?b) (Suc n) = ring h (packet buf) n @ [p]"
    using ring_snoc [of n "packet buf" h p] 2(3,4,5) by simp
  ultimately show ?case using 2(1) [of "Suc n"] 2(2,3,5) c by simp
qed simp

lemma buf_write_ok:
  assumes b: "buf_ok buf" and l: "length ps \<le> buf_cap buf - buf_used buf"
  shows "\<exists>buf'. buf_write ps buf = (NO_ERROR, buf') \<and> buf_ok buf' \<and> buf_queue buf' = buf_queue buf @ ps
    \<and> buf_cap buf' = buf_cap buf"
proof -
  note d = buf_okD [OF b]
  let ?h = "unat (pb_head buf)" and ?b = "buf_put ps buf"
  have l': "length ps \<le> unat (pb_avail buf)" using l d(8) by simp
  then have n: "buf_used buf + length ps \<le> buf_cap buf" using d(8) by simp
  note p = buf_put_ring [OF d(1,2,5) n]
  define buf' where "buf' = ?b\<lparr>pb_avail := pb_avail ?b - word_of_nat (length ps)\<rparr>"
  have lw: "length ps < 2 ^ 32" using n d(6) by linarith
  have av: "unat (pb_avail buf') = unat (pb_avail buf) - length ps"
  proof -
    have u: "unat (word_of_nat (length ps) :: u32) = length ps" using lw by (simp add: unat_of_nat)
    then have "word_of_nat (length ps) \<le> pb_avail buf" using l' by (simp add: word_le_nat_alt)
    then show ?thesis using p u by (simp add: buf'_def unat_sub)
  qed
  have c: "buf_cap buf' = buf_cap buf" using p by (simp add: buf'_def buf_cap_def)
  have us: "buf_used buf' = buf_used buf + length ps"
    using av l' d(8) by (simp add: buf_used_def c)
  have "buf_ok buf'"
    unfolding buf_ok_def c us using p d av l' by (simp add: buf'_def add.assoc)
  moreover have "buf_queue buf' = buf_queue buf @ ps"
    unfolding buf_queue_def us using p by (simp add: buf'_def)
  moreover have "buf_write ps buf = (NO_ERROR, buf')"
    using l' by (simp add: buf_write_def buf'_def Let_def)
  ultimately show ?thesis using c by blast
qed

lemma buf_write_full:
  assumes "buf_ok buf" and "buf_cap buf - buf_used buf < length ps"
  shows "buf_write ps buf = (ERR_NOT_ENOUGH_BUFFER, buf)"
proof -
  have "unat (pb_avail buf) < length ps" using buf_okD(8) [OF assms(1)] assms(2) by linarith
  then show ?thesis by (simp add: buf_write_def)
qed

lemma buf_is_empty_iff:
  assumes "buf_ok buf"
  shows "buf_is_empty buf \<longleftrightarrow> buf_queue buf = []"
proof -
  note d = buf_okD [OF assms]
  have "unat (valpow2 (pb_log2 buf)) = buf_cap buf"
    using d(1) by (simp add: buf_cap_def pow2_simps)
  then have "buf_is_empty buf \<longleftrightarrow> unat (pb_avail buf) = buf_cap buf"
    by (metis buf_is_empty_def word_unat_eq_iff)
  also have "\<dots> \<longleftrightarrow> buf_used buf = 0" using d(8) by linarith
  finally show ?thesis by (metis buf_queue_def length_0_conv length_ring)
qed

lemma buf_read_empty:
  "buf_ok buf \<Longrightarrow> buf_queue buf = [] \<Longrightarrow> buf_read buf = (ERR_NO_MSG, None, buf)"
  by (simp add: buf_read_def buf_is_empty_iff)

lemma buf_read_ok:
  assumes b: "buf_ok buf" and q: "buf_queue buf = p # ps"
  shows "\<exists>buf'. buf_read buf = (NO_ERROR, Some p, buf') \<and> buf_ok buf' \<and> buf_queue buf' = ps
    \<and> buf_cap buf' = buf_cap buf"
proof -
  note d = buf_okD [OF b]
  let ?h = "unat (pb_head buf)"
  define buf' where "buf' = buf\<lparr>pb_head := modpow2 (pb_head buf + 1) (pb_log2 buf), pb_avail := pb_avail buf + 1\<rparr>"
  have "buf_used buf = length (buf_queue buf)" by (simp add: buf_queue_def)
  then have u: "buf_used buf = Suc (length ps)" using q by simp
  have h': "unat (pb_head buf') = Suc ?h mod buf_cap buf"
    using next_slot [OF d(1), of "pb_head buf"] d(4) by (simp add: buf'_def buf_cap_def)
  have "unat (pb_avail buf) + 1 < 2 ^ 32" using u d(6,8) by linarith
  then have av: "unat (pb_avail buf') = unat (pb_avail buf) + 1"
    by (simp add: buf'_def unat_word_ariths)
  have c: "buf_cap buf' = buf_cap buf" by (simp add: buf'_def buf_cap_def)
  have us: "buf_used buf' = length ps" using av u by (simp add: buf_used_def c)
  have "(?h + buf_used buf) mod buf_cap buf = (unat (pb_head buf') + length ps) mod buf_cap buf"
    by (simp add: h' u mod_add_left_eq)
  then have "unat (pb_tail buf') = (unat (pb_head buf') + buf_used buf') mod buf_cap buf'"
    using d(5) us c by (simp add: buf'_def)
  moreover have "unat (pb_avail buf') \<le> buf_cap buf'" using av u d(8) c by linarith
  moreover have "unat (pb_head buf') < buf_cap buf'" using h' d(7) c by simp
  ultimately have "buf_ok buf'" unfolding buf_ok_def using d(1,2) c by (simp add: buf'_def)
  moreover have r: "p # ps = packet buf ! ?h # ring (Suc ?h) (packet buf) (length ps)"
    using q d(2,4) unfolding buf_queue_def u ring_Suc_head by simp
  moreover have "buf_queue buf' = ps"
    unfolding buf_queue_def us h' using r ring_mod [of "Suc ?h" "packet buf" "length ps"] d(2)
    by (simp add: buf'_def)
  moreover have "\<not> buf_is_empty buf" using buf_is_empty_iff [OF b] q by simp
  ultimately show ?thesis using c unfolding buf_read_def buf'_def by auto
qed

lemma make_buf_ok:
  assumes "make_buf mem big = Some buf"
  shows "buf_ok buf" and "buf_queue buf = []" and "buf_cap buf = (if big then 64 else 8)"
proof -
  have l: "log2_uint 8 = 3" "log2_uint 64 = 6" using log2_uint_pow2 [of 8 3] log2_uint_pow2 [of 64 6] by simp_all
  show "buf_ok buf" "buf_queue buf = []" "buf_cap buf = (if big then 64 else 8)"
    using assms
    by (auto simp: make_buf_def PORT_BUFF_SIZE_def PORT_BUFF_SIZE_BIG_def Let_def l buf_ok_def buf_cap_def
        buf_used_def buf_queue_def split: option.splits)
qed

section \<open>The contract of a packet queue\<close>

text \<open>A write is all or nothing, and packets leave in the order they came.\<close>

locale packet_fifo =
  fixes inv :: "'b \<Rightarrow> bool" and queue :: "'b \<Rightarrow> 'p list" and cap :: "'b \<Rightarrow> nat"
    and wr :: "'p list \<Rightarrow> 'b \<Rightarrow> status \<times> 'b" and rd :: "'b \<Rightarrow> status \<times> 'p option \<times> 'b"
  assumes write_fits: "inv b \<Longrightarrow> length ps \<le> cap b - length (queue b) \<Longrightarrow>
      \<exists>b'. wr ps b = (NO_ERROR, b') \<and> inv b' \<and> queue b' = queue b @ ps \<and> cap b' = cap b"
    and write_full: "inv b \<Longrightarrow> cap b - length (queue b) < length ps \<Longrightarrow> wr ps b = (ERR_NOT_ENOUGH_BUFFER, b)"
    and read_one: "inv b \<Longrightarrow> queue b = p # ps \<Longrightarrow>
      \<exists>b'. rd b = (NO_ERROR, Some p, b') \<and> inv b' \<and> queue b' = ps \<and> cap b' = cap b"
    and read_none: "inv b \<Longrightarrow> queue b = [] \<Longrightarrow> rd b = (ERR_NO_MSG, None, b)"
begin

primrec reads :: "nat \<Rightarrow> 'b \<Rightarrow> 'p list \<times> 'b" where
  "reads 0 b = ([], b)"
| "reads (Suc n) b = (case rd b of (r, Some p, b') \<Rightarrow> (case reads n b' of (ps, b'') \<Rightarrow> (p # ps, b''))
     | (r, None, b') \<Rightarrow> ([], b'))"

lemma reads_all:
  assumes "inv b" and "queue b = ps @ qs"
  shows "\<exists>b'. reads (length ps) b = (ps, b') \<and> inv b' \<and> queue b' = qs"
  using assms
proof (induction ps arbitrary: b)
  case (Cons p ps)
  then obtain b1 where b1: "rd b = (NO_ERROR, Some p, b1)" "inv b1" "queue b1 = ps @ qs"
    using read_one [of b p "ps @ qs"] by auto
  then obtain b' where "reads (length ps) b1 = (ps, b')" "inv b'" "queue b' = qs" using Cons.IH by blast
  then show ?case using b1 by simp
qed simp

text \<open>What is written comes out behind what was there.\<close>

lemma write_then_read:
  assumes "inv b" and "length ps \<le> cap b - length (queue b)"
  shows "\<exists>b1 b2. wr ps b = (NO_ERROR, b1) \<and> reads (length (queue b) + length ps) b1 = (queue b @ ps, b2)
    \<and> inv b2 \<and> queue b2 = []"
proof -
  obtain b1 where b1: "wr ps b = (NO_ERROR, b1)" "inv b1" "queue b1 = queue b @ ps"
    using write_fits [OF assms] by blast
  then show ?thesis using reads_all [of b1 "queue b @ ps" "[]"] by auto
qed

lemma write_status:
  assumes "inv b"
  shows "fst (wr ps b) < 0 \<longleftrightarrow> cap b - length (queue b) < length ps"
    and "inv (snd (wr ps b))" and "cap (snd (wr ps b)) = cap b"
    and "queue (snd (wr ps b)) = (if length ps \<le> cap b - length (queue b) then queue b @ ps else queue b)"
  using write_fits [OF assms, of ps] write_full [OF assms, of ps] assms
  by (cases "length ps \<le> cap b - length (queue b)"; auto simp: not_le)+

end

lemma length_buf_queue: "length (buf_queue buf) = buf_used buf"
  by (simp add: buf_queue_def)

interpretation pbuf: packet_fifo buf_ok buf_queue buf_cap buf_write buf_read
  by unfold_locales
     (simp_all add: length_buf_queue buf_write_ok buf_write_full buf_read_ok buf_read_empty)

end
