(* ===== verification/Ports.thy ===== *)
theory Ports
  imports Port_Buf Sched_Steps
begin

text \<open>
  The ports of \<^verbatim>\<open>kernel/port.c\<close>: named write ports, read ports attached to them, and groups of
  read ports, with packets passed through ring buffers and waiting through wait queues. Objects
  live in a store indexed by address; the magic number of an object is its constructor, and an
  address without an object is memory that was never allocated or has been freed, so reading it
  is a \<open>Fault\<close>. The list nodes \<^verbatim>\<open>w_node\<close> and \<^verbatim>\<open>g_node\<close> are represented by the lists they are linked
  into. The wait queue of a read port or group at address \<open>a\<close> is \<open>PortQ a\<close>.

  A null handle is \<open>None\<close>; the results of the allocations are arguments. A call that may block,
  or be switched away from, is cut in two like the scheduler's. \<open>lock_left\<close> records that a call
  returned without releasing the thread lock.
\<close>

section \<open>Objects\<close>

type_synonym port_mode = u32

definition PORT_NAME_LEN :: nat where "PORT_NAME_LEN = 12"
definition MAX_PORT_GROUP_COUNT :: nat where "MAX_PORT_GROUP_COUNT = 256"
definition PORT_MODE_BROADCAST :: port_mode where "PORT_MODE_BROADCAST = 0"
definition PORT_MODE_UNICAST :: port_mode where "PORT_MODE_UNICAST = 1"
definition PORT_MODE_BIG_BUFFER :: port_mode where "PORT_MODE_BIG_BUFFER = 2"

text \<open>\<open>wopen\<close> tells \<^verbatim>\<open>WRITEPORT_MAGIC_W\<close> from \<^verbatim>\<open>WRITEPORT_MAGIC_X\<close>.\<close>

record write_port =
  wopen :: bool
  wbuf :: "port_buf option"
  wreaders :: "nat list"
  wmode :: port_mode
  wname :: string

record read_port =
  rbuf :: "port_buf option"
  rctx :: nat
  wport :: "nat option"
  gport :: "nat option"

datatype port_obj = WritePort write_port | ReadPort read_port | PortGroup "nat list"

record pstate =
  krn :: kst
  obj :: "nat \<Rightarrow> port_obj option"
  write_port_list :: "nat list"
  lock_left :: bool

definition set_obj :: "nat \<Rightarrow> port_obj option \<Rightarrow> pstate \<Rightarrow> pstate" where
  "set_obj a x st = st\<lparr>obj := (obj st)(a := x)\<rparr>"

definition upd_rport :: "nat \<Rightarrow> (read_port \<Rightarrow> read_port) \<Rightarrow> pstate \<Rightarrow> pstate" where
  "upd_rport a f st =
     (case obj st a of Some (ReadPort rp) \<Rightarrow> set_obj a (Some (ReadPort (f rp))) st | _ \<Rightarrow> st)"

definition name_of :: "pstate \<Rightarrow> nat \<Rightarrow> string option" where
  "name_of st a = (case obj st a of Some (WritePort wp) \<Rightarrow> Some (wname wp) | _ \<Rightarrow> None)"

definition port_init :: "pstate \<Rightarrow> pstate" where
  "port_init st = st\<lparr>write_port_list := []\<rparr>"

section \<open>Creating and opening\<close>

text \<open>\<open>out\<close> is false when the result pointer is null.\<close>

definition port_create ::
    "nat option \<Rightarrow> (nat \<Rightarrow> port_packet) option \<Rightarrow> string option \<Rightarrow> port_mode \<Rightarrow> bool \<Rightarrow> pstate
     \<Rightarrow> status \<times> nat option \<times> pstate" where
  "port_create wmem bmem name mode out st =
     (case name of None \<Rightarrow> (ERR_INVALID_ARGS, None, st)
      | Some nm \<Rightarrow>
          if \<not> out then (ERR_INVALID_ARGS, None, st)
          else if mode AND PORT_MODE_BROADCAST \<noteq> 0 \<and> mode AND PORT_MODE_BIG_BUFFER \<noteq> 0
            then (ERR_INVALID_ARGS, None, st)
          else if PORT_NAME_LEN \<le> length nm then (ERR_INVALID_ARGS, None, st)
          else
            case find (\<lambda>a. name_of st a = Some nm) (write_port_list st) of
              Some a \<Rightarrow>
                (case obj st a of
                   Some (WritePort wp) \<Rightarrow>
                     if wopen wp then (ERR_ALREADY_EXISTS, Some a, st) else (ERR_BUSY, None, st)
                 | _ \<Rightarrow> (ERR_BUSY, None, st))
            | None \<Rightarrow>
                (case wmem of None \<Rightarrow> (ERR_NO_MEMORY, None, st)
                 | Some a \<Rightarrow>
                     (case make_buf bmem (mode AND PORT_MODE_BIG_BUFFER \<noteq> 0) of
                        None \<Rightarrow> (ERR_NO_MEMORY, None, st)
                      | Some buf \<Rightarrow>
                          (NO_ERROR, Some a,
                           (set_obj a (Some (WritePort \<lparr>wopen = True, wbuf = Some buf, wreaders = [],
                                                     wmode = mode, wname = nm\<rparr>)) st)
                             \<lparr>write_port_list := write_port_list st @ [a]\<rparr>))))"

definition port_open ::
    "nat option \<Rightarrow> (nat \<Rightarrow> port_packet) option \<Rightarrow> string option \<Rightarrow> nat \<Rightarrow> bool \<Rightarrow> pstate
     \<Rightarrow> status \<times> nat option \<times> pstate" where
  "port_open rmem bmem name ctx out st =
     (case name of None \<Rightarrow> (ERR_INVALID_ARGS, None, st)
      | Some nm \<Rightarrow>
          if \<not> out then (ERR_INVALID_ARGS, None, st)
          else
            case rmem of None \<Rightarrow> (ERR_NO_MEMORY, None, st)
            | Some r \<Rightarrow>
                (case make_buf bmem False of None \<Rightarrow> (ERR_NO_MEMORY, None, st)
                 | Some buf \<Rightarrow>
                     (let st = st\<lparr>krn := on_sched (wait_queue_init (PortQ r)) (krn st)\<rparr>;
                          rp = \<lparr>rbuf = None, rctx = ctx, wport = None, gport = None\<rparr> in
                      case find (\<lambda>a. name_of st a = Some nm) (write_port_list st) of
                        None \<Rightarrow> (ERR_NOT_FOUND, None, st)
                      | Some w \<Rightarrow>
                          (case obj st w of
                             Some (WritePort wp) \<Rightarrow>
                               (case wbuf wp of
                                  Some b \<Rightarrow>
                                    (NO_ERROR, Some r,
                                     set_obj r (Some (ReadPort (rp\<lparr>wport := Some w, rbuf := Some b\<rparr>)))
                                       (set_obj w (Some (WritePort
                                          (wp\<lparr>wbuf := None, wreaders := wreaders wp @ [r]\<rparr>))) st))
                                | None \<Rightarrow>
                                    if wmode wp AND PORT_MODE_UNICAST \<noteq> 0 then (ERR_NOT_ALLOWED, None, st)
                                    else
                                      (NO_ERROR, Some r,
                                       set_obj r (Some (ReadPort (rp\<lparr>wport := Some w, rbuf := Some buf\<rparr>)))
                                         (set_obj w (Some (WritePort
                                            (wp\<lparr>wreaders := wreaders wp @ [r]\<rparr>))) st)))
                           | _ \<Rightarrow> (ERR_NOT_FOUND, None, st)))))"

section \<open>Groups\<close>

fun clear_gports :: "nat list \<Rightarrow> pstate \<Rightarrow> pstate" where
  "clear_gports [] st = st"
| "clear_gports (r # rs) st = clear_gports rs (upd_rport r (\<lambda>rp. rp\<lparr>gport := None\<rparr>) st)"

definition link_port :: "nat \<Rightarrow> nat \<Rightarrow> pstate \<Rightarrow> pstate" where
  "link_port g r st =
     (let st = upd_rport r (\<lambda>rp. rp\<lparr>gport := Some g\<rparr>) st in
      case obj st g of Some (PortGroup rs) \<Rightarrow> set_obj g (Some (PortGroup (rs @ [r]))) st | _ \<Rightarrow> st)"

text \<open>The loop of \<^verbatim>\<open>port_group\<close>; \<open>done\<close> are the ports linked so far.\<close>

fun link_ports :: "nat \<Rightarrow> nat list \<Rightarrow> nat list \<Rightarrow> pstate \<Rightarrow> (status \<times> pstate) outcome" where
  "link_ports g done [] st = Ret (NO_ERROR, st)"
| "link_ports g done (r # rs) st =
     (case obj st r of
        None \<Rightarrow> Fault
      | Some (ReadPort rp) \<Rightarrow>
          if gport rp \<noteq> None then Ret (ERR_BAD_HANDLE, clear_gports done st)
          else link_ports g (done @ [r]) rs (link_port g r st)
      | Some x \<Rightarrow> Ret (ERR_BAD_HANDLE, clear_gports done st))"

definition port_group ::
    "nat option \<Rightarrow> nat list option \<Rightarrow> nat \<Rightarrow> bool \<Rightarrow> pstate \<Rightarrow> (status \<times> nat option \<times> pstate) outcome" where
  "port_group gmem ports cnt out st =
     (if MAX_PORT_GROUP_COUNT < cnt then Ret (ERR_TOO_BIG, None, st)
      else if cnt \<noteq> 0 \<and> ports = None then Ret (ERR_INVALID_ARGS, None, st)
      else if \<not> out then Ret (ERR_INVALID_ARGS, None, st)
      else
        case gmem of None \<Rightarrow> Ret (ERR_NO_MEMORY, None, st)
        | Some g \<Rightarrow>
            (let st = st\<lparr>krn := on_sched (wait_queue_init (PortQ g)) (krn st)\<rparr>;
                 st = set_obj g (Some (PortGroup [])) st;
                 rs = take cnt (case ports of None \<Rightarrow> [] | Some rs \<Rightarrow> rs) in
             case link_ports g [] rs st of
               Ret (rc, st) \<Rightarrow>
                 if rc = NO_ERROR then Ret (rc, Some g, st) else Ret (rc, None, set_obj g None st)
             | Fault \<Rightarrow> Fault | Hang \<Rightarrow> Hang))"

definition port_group_add :: "u32 \<Rightarrow> nat option \<Rightarrow> nat option \<Rightarrow> pstate \<Rightarrow> (status \<times> pstate) outcome" where
  "port_group_add now grp port st =
     (case (grp, port) of
        (Some g, Some r) \<Rightarrow>
          (case obj st g of
             None \<Rightarrow> Fault
           | Some (PortGroup rs) \<Rightarrow>
               (case obj st r of
                  None \<Rightarrow> Fault
                | Some (ReadPort rp) \<Rightarrow>
                    if gport rp \<noteq> None then Ret (ERR_BAD_HANDLE, st)
                    else if length rs = MAX_PORT_GROUP_COUNT then Ret (ERR_TOO_BIG, st)
                    else
                      (let st = link_port g r st in
                       case rbuf rp of
                         None \<Rightarrow> Fault
                       | Some b \<Rightarrow>
                           if \<not> buf_is_empty b then
                             (case wait_queue_wake_one now (PortQ g) False NO_ERROR (krn st) of
                                Ret (n, K) \<Rightarrow> Ret (NO_ERROR, st\<lparr>krn := K\<rparr>) | Fault \<Rightarrow> Fault | Hang \<Rightarrow> Hang)
                           else Ret (NO_ERROR, st))
                | Some x \<Rightarrow> Ret (ERR_BAD_HANDLE, st))
           | Some x \<Rightarrow> Ret (ERR_INVALID_ARGS, st))
      | _ \<Rightarrow> Ret (ERR_INVALID_ARGS, st))"

text \<open>The port is taken off the list of the group and keeps its pointer to the group.\<close>

definition port_group_remove :: "nat option \<Rightarrow> nat option \<Rightarrow> pstate \<Rightarrow> (status \<times> pstate) outcome" where
  "port_group_remove grp port st =
     (case (grp, port) of
        (Some g, Some r) \<Rightarrow>
          (case obj st g of
             None \<Rightarrow> Fault
           | Some (PortGroup rs) \<Rightarrow>
               (case obj st r of
                  None \<Rightarrow> Fault
                | Some (ReadPort rp) \<Rightarrow>
                    if gport rp \<noteq> Some g then Ret (ERR_BAD_HANDLE, st)
                    else if r \<notin> set rs then Ret (ERR_BAD_HANDLE, st\<lparr>lock_left := True\<rparr>)
                    else Ret (NO_ERROR, set_obj g (Some (PortGroup (remove1 r rs))) st)
                | Some x \<Rightarrow> Ret (ERR_BAD_HANDLE, st))
           | Some x \<Rightarrow> Ret (ERR_INVALID_ARGS, st))
      | _ \<Rightarrow> Ret (ERR_INVALID_ARGS, st))"

section \<open>Writing\<close>

text \<open>
  Waking a reader: first somebody who waits for the group, then somebody who waits for the port.
\<close>

definition wake_reader :: "u32 \<Rightarrow> nat \<Rightarrow> read_port \<Rightarrow> pstate \<Rightarrow> (int \<times> pstate) outcome" where
  "wake_reader now r rp st =
     (case (case gport rp of
              None \<Rightarrow> Ret (0, krn st)
            | Some g \<Rightarrow> if obj st g = None then Fault
                        else wait_queue_wake_one now (PortQ g) False NO_ERROR (krn st)) of
        Ret (awaken, K) \<Rightarrow>
          if awaken = 0 then
            (case wait_queue_wake_one now (PortQ r) False NO_ERROR K of
               Ret (awaken, K) \<Rightarrow> Ret (awaken, st\<lparr>krn := K\<rparr>) | Fault \<Rightarrow> Fault | Hang \<Rightarrow> Hang)
          else Ret (awaken, st\<lparr>krn := K\<rparr>)
      | Fault \<Rightarrow> Fault | Hang \<Rightarrow> Hang)"

fun write_readers ::
    "u32 \<Rightarrow> port_packet list \<Rightarrow> nat list \<Rightarrow> status \<Rightarrow> int \<Rightarrow> pstate \<Rightarrow> (status \<times> int \<times> pstate) outcome" where
  "write_readers now pk [] status awake_count st = Ret (status, awake_count, st)"
| "write_readers now pk (r # rs) status awake_count st =
     (case obj st r of
        Some (ReadPort rp) \<Rightarrow>
          (case rbuf rp of
             None \<Rightarrow> Fault
           | Some b \<Rightarrow>
               (case buf_write pk b of (e, b') \<Rightarrow>
                  if e < 0 then write_readers now pk rs ERR_PARTIAL_WRITE awake_count st
                  else
                    let rp' = rp\<lparr>rbuf := Some b'\<rparr> in
                    (case wake_reader now r rp' (set_obj r (Some (ReadPort rp')) st) of
                       Ret (awaken, st) \<Rightarrow> write_readers now pk rs status (awake_count + awaken) st
                     | Fault \<Rightarrow> Fault | Hang \<Rightarrow> Hang)))
      | _ \<Rightarrow> Fault)"

definition port_write ::
    "u32 \<Rightarrow> nat option \<Rightarrow> port_packet list option \<Rightarrow> pstate \<Rightarrow> (status \<times> pstate) outcome" where
  "port_write now port pk st =
     (case (port, pk) of
        (Some w, Some ps) \<Rightarrow>
          (case obj st w of
             None \<Rightarrow> Fault
           | Some (WritePort wp) \<Rightarrow>
               if \<not> wopen wp then Ret (ERR_BAD_HANDLE, st)
               else
                 (case wbuf wp of
                    Some b \<Rightarrow>
                      (case buf_write ps b of (e, b') \<Rightarrow>
                         Ret (e, set_obj w (Some (WritePort (wp\<lparr>wbuf := Some b'\<rparr>))) st))
                  | None \<Rightarrow>
                      (case write_readers now ps (wreaders wp) NO_ERROR 0 st of
                         Ret (status, awake_count, st) \<Rightarrow>
                           if awake_count \<noteq> 0 then
                             (case thread_yield now (krn st) of
                                Ret K \<Rightarrow> Ret (status, st\<lparr>krn := K\<rparr>) | Fault \<Rightarrow> Fault | Hang \<Rightarrow> Hang)
                           else Ret (status, st)
                       | Fault \<Rightarrow> Fault | Hang \<Rightarrow> Hang))
           | Some x \<Rightarrow> Ret (ERR_BAD_HANDLE, st))
      | _ \<Rightarrow> Ret (ERR_INVALID_ARGS, st))"

section \<open>Reading\<close>

text \<open>
  The result of a read is the context and, when a packet was read, the packet.
  \<open>read_now\<close> is \<^verbatim>\<open>read_no_lock\<close> up to the wait, and all of it when the timeout is zero.
\<close>

type_synonym port_result = "nat \<times> port_packet option"

definition read_now :: "nat \<Rightarrow> read_port \<Rightarrow> pstate \<Rightarrow> (status \<times> port_result \<times> pstate) outcome" where
  "read_now r rp st =
     (case rbuf rp of
        None \<Rightarrow> Fault
      | Some b \<Rightarrow>
          (case buf_read b of (status, p, b') \<Rightarrow>
             let st = set_obj r (Some (ReadPort (rp\<lparr>rbuf := Some b'\<rparr>))) st in
             Ret (if status \<noteq> ERR_NO_MSG then status else ERR_TIMED_OUT, (rctx rp, p), st)))"

text \<open>One round over the members of a group: the first that has a packet.\<close>

fun read_group :: "nat list \<Rightarrow> port_result option \<Rightarrow> pstate \<Rightarrow> (status \<times> port_result option \<times> pstate) outcome" where
  "read_group [] res st = Ret (ERR_TIMED_OUT, res, st)"
| "read_group (r # rs) res st =
     (case obj st r of
        Some (ReadPort rp) \<Rightarrow>
          (case read_now r rp st of
             Ret (rc, res, st) \<Rightarrow>
               if rc \<noteq> ERR_TIMED_OUT then Ret (rc, Some res, st) else read_group rs (Some res) st
           | Fault \<Rightarrow> Fault | Hang \<Rightarrow> Hang)
      | _ \<Rightarrow> Fault)"

definition block_on :: "u32 \<Rightarrow> nat \<Rightarrow> u32 \<Rightarrow> port_result option \<Rightarrow> pstate
    \<Rightarrow> (progress \<times> port_result option \<times> pstate) outcome" where
  "block_on now a timeout res st =
     (case wait_queue_block now (PortQ a) timeout (krn st) of
        Ret (p, K) \<Rightarrow> Ret (p, res, st\<lparr>krn := K\<rparr>) | Fault \<Rightarrow> Fault | Hang \<Rightarrow> Hang)"

definition port_read :: "u32 \<Rightarrow> nat option \<Rightarrow> u32 \<Rightarrow> bool \<Rightarrow> pstate
    \<Rightarrow> (progress \<times> port_result option \<times> pstate) outcome" where
  "port_read now port timeout out st =
     (case port of
        None \<Rightarrow> Ret (Done ERR_INVALID_ARGS, None, st)
      | Some a \<Rightarrow>
          if \<not> out then Ret (Done ERR_INVALID_ARGS, None, st)
          else
            case obj st a of
              None \<Rightarrow> Fault
            | Some (ReadPort rp) \<Rightarrow>
                (case read_now a rp st of
                   Ret (rc, res, st) \<Rightarrow>
                     if rc \<noteq> ERR_TIMED_OUT \<or> timeout = 0 then Ret (Done rc, Some res, st)
                     else block_on now a timeout (Some res) st
                 | Fault \<Rightarrow> Fault | Hang \<Rightarrow> Hang)
            | Some (PortGroup rs) \<Rightarrow>
                (case read_group rs None st of
                   Ret (rc, res, st) \<Rightarrow>
                     if rc \<noteq> ERR_TIMED_OUT then Ret (Done rc, res, st)
                     else block_on now a timeout res st
                 | Fault \<Rightarrow> Fault | Hang \<Rightarrow> Hang)
            | Some (WritePort wp) \<Rightarrow> Ret (Done ERR_BAD_HANDLE, None, st))"

text \<open>After the wait: a failed wait is the result, otherwise the read starts over.\<close>

definition port_read_finish :: "u32 \<Rightarrow> nat \<Rightarrow> u32 \<Rightarrow> pstate
    \<Rightarrow> (progress \<times> port_result option \<times> pstate) outcome" where
  "port_read_finish now a timeout st =
     (case wait_queue_block_finish now timeout (krn st) of (wr, K) \<Rightarrow>
        let st = st\<lparr>krn := K\<rparr> in
        if wr \<noteq> NO_ERROR then Ret (Done wr, None, st) else port_read now (Some a) timeout True st)"

section \<open>Destroying and closing\<close>

fun cancel_readers :: "u32 \<Rightarrow> nat list \<Rightarrow> pstate \<Rightarrow> pstate outcome" where
  "cancel_readers now [] st = Ret st"
| "cancel_readers now (r # rs) st =
     (case obj st r of
        Some (ReadPort rp) \<Rightarrow>
          (case wait_queue_wake_all now (PortQ r) False ERR_CANCELLED (krn st) of
             Ret (n, K) \<Rightarrow>
               (case (case gport rp of
                        None \<Rightarrow> Ret (0, K)
                      | Some g \<Rightarrow> if obj st g = None then Fault
                                  else wait_queue_wake_all now (PortQ g) False ERR_CANCELLED K) of
                  Ret (n, K) \<Rightarrow>
                    cancel_readers now rs (upd_rport r (\<lambda>rp. rp\<lparr>wport := None\<rparr>) (st\<lparr>krn := K\<rparr>))
                | Fault \<Rightarrow> Fault | Hang \<Rightarrow> Hang)
           | Fault \<Rightarrow> Fault | Hang \<Rightarrow> Hang)
      | _ \<Rightarrow> Fault)"

definition port_destroy :: "u32 \<Rightarrow> nat option \<Rightarrow> pstate \<Rightarrow> (status \<times> pstate) outcome" where
  "port_destroy now port st =
     (case port of
        None \<Rightarrow> Ret (ERR_INVALID_ARGS, st)
      | Some w \<Rightarrow>
          (case obj st w of
             None \<Rightarrow> Fault
           | Some (WritePort wp) \<Rightarrow>
               if wopen wp then Ret (ERR_BAD_HANDLE, st)
               else
                 (let st = st\<lparr>write_port_list := remove1 w (write_port_list st)\<rparr> in
                  case (case wbuf wp of Some b \<Rightarrow> Ret st | None \<Rightarrow> cancel_readers now (wreaders wp) st) of
                    Ret st \<Rightarrow> Ret (NO_ERROR, set_obj w None st) | Fault \<Rightarrow> Fault | Hang \<Rightarrow> Hang)
           | Some x \<Rightarrow> Ret (ERR_BAD_HANDLE, st)))"

text \<open>
  Unlinking a read port from its write port, which gets the buffer back from its last reader,
  and from its group. Deleting a node that is in no list dereferences null.
\<close>

definition leave_wport :: "nat \<Rightarrow> read_port \<Rightarrow> pstate \<Rightarrow> pstate outcome" where
  "leave_wport r rp st =
     (case wport rp of
        None \<Rightarrow> Ret st
      | Some w \<Rightarrow>
          (case obj st w of
             Some (WritePort wp) \<Rightarrow>
               if r \<notin> set (wreaders wp) then Fault
               else
                 (let rs = remove1 r (wreaders wp) in
                  if rs = [] then
                    Ret (set_obj r (Some (ReadPort (rp\<lparr>rbuf := None\<rparr>)))
                      (set_obj w (Some (WritePort (wp\<lparr>wreaders := rs, wbuf := rbuf rp\<rparr>))) st))
                  else Ret (set_obj w (Some (WritePort (wp\<lparr>wreaders := rs\<rparr>))) st))
           | _ \<Rightarrow> Fault))"

definition leave_group :: "nat \<Rightarrow> read_port \<Rightarrow> pstate \<Rightarrow> pstate outcome" where
  "leave_group r rp st =
     (case gport rp of
        None \<Rightarrow> Ret st
      | Some g \<Rightarrow>
          (case obj st g of
             Some (PortGroup rs) \<Rightarrow>
               if r \<notin> set rs then Fault else Ret (set_obj g (Some (PortGroup (remove1 r rs))) st)
           | _ \<Rightarrow> Fault))"

text \<open>
  What is left when the waiters have been woken: a group lets go of its members, and the
  object is freed. It runs at once, or when the closing thread is scheduled again.
\<close>

definition port_close_finish :: "nat \<Rightarrow> pstate \<Rightarrow> status \<times> pstate" where
  "port_close_finish a st =
     (let st = (case obj st a of Some (PortGroup rs) \<Rightarrow> clear_gports rs st | _ \<Rightarrow> st) in
      (NO_ERROR, set_obj a None st))"

definition close_waiters :: "u32 \<Rightarrow> nat \<Rightarrow> pstate \<Rightarrow> (progress \<times> pstate) outcome" where
  "close_waiters now a st =
     (case wait_queue_destroy now (PortQ a) True (krn st) of
        Ret K \<Rightarrow>
          if current (env K) = current (env (krn st)) then
            (case port_close_finish a (st\<lparr>krn := K\<rparr>) of (r, st) \<Rightarrow> Ret (Done r, st))
          else Ret (Blocked, st\<lparr>krn := K\<rparr>)
      | Fault \<Rightarrow> Fault | Hang \<Rightarrow> Hang)"

definition port_close :: "u32 \<Rightarrow> nat option \<Rightarrow> pstate \<Rightarrow> (progress \<times> pstate) outcome" where
  "port_close now port st =
     (case port of
        None \<Rightarrow> Ret (Done ERR_INVALID_ARGS, st)
      | Some a \<Rightarrow>
          (case obj st a of
             None \<Rightarrow> Fault
           | Some (ReadPort rp) \<Rightarrow>
               (case leave_wport a rp st of
                  Ret st \<Rightarrow>
                    (case leave_group a rp st of
                       Ret st \<Rightarrow> close_waiters now a st | Fault \<Rightarrow> Fault | Hang \<Rightarrow> Hang)
                | Fault \<Rightarrow> Fault | Hang \<Rightarrow> Hang)
           | Some (PortGroup rs) \<Rightarrow> close_waiters now a st
           | Some (WritePort wp) \<Rightarrow>
               if wopen wp then Ret (Done NO_ERROR, set_obj a (Some (WritePort (wp\<lparr>wopen := False\<rparr>))) st)
               else Ret (Done ERR_BAD_HANDLE, st)))"

end
