(* ===== verification/Ports_Correct.thy ===== *)
theory Ports_Correct
  imports Ports
begin

text \<open>
  The links between port objects. \<open>ports_ok X st\<close> is the invariant of the store, where \<open>X\<close> are the
  objects that are being closed: the list of write ports, the reader lists and the group lists
  agree with the pointers of the read ports, every buffer is a proper ring, a write port has a
  buffer of its own exactly when it has no readers, and a unicast port has at most one.
\<close>

definition wport_ok :: "nat set \<Rightarrow> pstate \<Rightarrow> nat \<Rightarrow> write_port \<Rightarrow> bool" where
  "wport_ok X st w wp \<longleftrightarrow> distinct (wreaders wp) \<and> (wbuf wp = None \<longleftrightarrow> wreaders wp \<noteq> [])
     \<and> (\<forall>b. wbuf wp = Some b \<longrightarrow> buf_ok b)
     \<and> (wmode wp AND PORT_MODE_UNICAST \<noteq> 0 \<longrightarrow> length (wreaders wp) \<le> 1)
     \<and> (\<forall>r\<in>set (wreaders wp). r \<notin> X \<and> (\<exists>rp. obj st r = Some (ReadPort rp) \<and> wport rp = Some w))"

definition rport_ok :: "pstate \<Rightarrow> nat \<Rightarrow> read_port \<Rightarrow> bool" where
  "rport_ok st r rp \<longleftrightarrow> (\<exists>b. rbuf rp = Some b \<and> buf_ok b)
     \<and> (\<forall>w. wport rp = Some w \<longrightarrow> (\<exists>wp. obj st w = Some (WritePort wp) \<and> r \<in> set (wreaders wp)))
     \<and> (\<forall>g. gport rp = Some g \<longrightarrow> (\<exists>rs. obj st g = Some (PortGroup rs) \<and> r \<in> set rs))"

definition group_ok :: "nat set \<Rightarrow> pstate \<Rightarrow> nat \<Rightarrow> nat list \<Rightarrow> bool" where
  "group_ok X st g rs \<longleftrightarrow> distinct rs \<and> length rs \<le> MAX_PORT_GROUP_COUNT
     \<and> (\<forall>r\<in>set rs. r \<notin> X \<and> (\<exists>rp. obj st r = Some (ReadPort rp) \<and> gport rp = Some g))"

definition ports_ok :: "nat set \<Rightarrow> pstate \<Rightarrow> bool" where
  "ports_ok X st \<longleftrightarrow> distinct (write_port_list st)
     \<and> (\<forall>a. a \<in> set (write_port_list st) \<longleftrightarrow> (\<exists>wp. obj st a = Some (WritePort wp)))
     \<and> inj_on (name_of st) (set (write_port_list st))
     \<and> (\<forall>w wp. obj st w = Some (WritePort wp) \<longrightarrow> wport_ok X st w wp)
     \<and> (\<forall>r rp. obj st r = Some (ReadPort rp) \<longrightarrow> r \<notin> X \<longrightarrow> rport_ok st r rp)
     \<and> (\<forall>g rs. obj st g = Some (PortGroup rs) \<longrightarrow> group_ok X st g rs)"

lemma ports_okD:
  assumes "ports_ok X st"
  shows "distinct (write_port_list st)"
    and "a \<in> set (write_port_list st) \<longleftrightarrow> (\<exists>wp. obj st a = Some (WritePort wp))"
    and "inj_on (name_of st) (set (write_port_list st))"
    and "obj st w = Some (WritePort wp) \<Longrightarrow> wport_ok X st w wp"
    and "obj st r = Some (ReadPort rp) \<Longrightarrow> r \<notin> X \<Longrightarrow> rport_ok st r rp"
    and "obj st g = Some (PortGroup rs) \<Longrightarrow> group_ok X st g rs"
  using assms unfolding ports_ok_def by blast+

lemmas port_ok_defs = wport_ok_def rport_ok_def group_ok_def

lemma krn_irrelevant [simp]: "ports_ok X (st\<lparr>krn := K\<rparr>) = ports_ok X st"
  by (simp add: ports_ok_def port_ok_defs name_of_def [abs_def])

lemma set_obj_simps [simp]:
  "obj (set_obj a x st) = (obj st)(a := x)" "krn (set_obj a x st) = krn st"
  "write_port_list (set_obj a x st) = write_port_list st" "lock_left (set_obj a x st) = lock_left st"
  by (simp_all add: set_obj_def)

lemma name_of_set_obj: "name_of (set_obj a x st) b =
    (if b = a then (case x of Some (WritePort wp) \<Rightarrow> Some (wname wp) | _ \<Rightarrow> None) else name_of st b)"
  by (simp add: name_of_def)

lemma inj_name_set_obj:
  "(case x of Some (WritePort wp) \<Rightarrow> Some (wname wp) | _ \<Rightarrow> None) = name_of st a \<Longrightarrow>
   name_of (set_obj a x st) = name_of st"
  by (auto simp: name_of_set_obj)

section \<open>Changes of one object\<close>

text \<open>A read port with the same links and another proper buffer.\<close>

lemma ports_ok_rbuf:
  assumes i: "ports_ok X st" and r: "obj st r = Some (ReadPort rp)" and b: "buf_ok b"
  shows "ports_ok X (set_obj r (Some (ReadPort (rp\<lparr>rbuf := Some b\<rparr>))) st)"
proof -
  let ?st = "set_obj r (Some (ReadPort (rp\<lparr>rbuf := Some b\<rparr>))) st"
  have n: "name_of ?st = name_of st" using r by (intro inj_name_set_obj) (simp add: name_of_def)
  have w: "obj ?st a = Some (WritePort wp) \<longleftrightarrow> obj st a = Some (WritePort wp)"
    and g: "obj ?st a = Some (PortGroup rs) \<longleftrightarrow> obj st a = Some (PortGroup rs)" for a wp rs
    using r by auto
  have l: "(\<exists>rp'. obj ?st a = Some (ReadPort rp') \<and> wport rp' = x) \<longleftrightarrow> (\<exists>rp'. obj st a = Some (ReadPort rp') \<and> wport rp' = x)"
    "(\<exists>rp'. obj ?st a = Some (ReadPort rp') \<and> gport rp' = x) \<longleftrightarrow> (\<exists>rp'. obj st a = Some (ReadPort rp') \<and> gport rp' = x)"
    for a x using r by auto
  show ?thesis
    unfolding ports_ok_def n
    using ports_okD [OF i] r b unfolding port_ok_defs l w g by auto
qed

text \<open>A write port with the same links, readers and name.\<close>

lemma ports_ok_wport:
  assumes i: "ports_ok X st" and w: "obj st w = Some (WritePort wp)"
    and same: "wreaders wp' = wreaders wp" "wmode wp' = wmode wp" "wname wp' = wname wp"
    and b: "wbuf wp' = None \<longleftrightarrow> wbuf wp = None" "\<And>b. wbuf wp' = Some b \<Longrightarrow> buf_ok b"
  shows "ports_ok X (set_obj w (Some (WritePort wp')) st)"
proof -
  let ?st = "set_obj w (Some (WritePort wp')) st"
  have n: "name_of ?st = name_of st" using w same by (intro inj_name_set_obj) (simp add: name_of_def)
  have r: "obj ?st a = Some (ReadPort rp) \<longleftrightarrow> obj st a = Some (ReadPort rp)"
    and g: "obj ?st a = Some (PortGroup rs) \<longleftrightarrow> obj st a = Some (PortGroup rs)" for a rp rs
    using w by auto
  have l: "(\<exists>wp. obj ?st a = Some (WritePort wp) \<and> x \<in> set (wreaders wp))
      \<longleftrightarrow> (\<exists>wp. obj st a = Some (WritePort wp) \<and> x \<in> set (wreaders wp))"
    "(\<exists>wp. obj ?st a = Some (WritePort wp)) \<longleftrightarrow> (\<exists>wp. obj st a = Some (WritePort wp))" for a x
    using w same by auto
  have "wport_ok X st w wp" using ports_okD(4) [OF i w] .
  then have "wport_ok X st w wp'" using same b unfolding wport_ok_def by auto
  then show ?thesis
    unfolding ports_ok_def n using ports_okD [OF i] unfolding port_ok_defs r g l by auto
qed

text \<open>Nothing points to an address without an object.\<close>

lemma unreferenced:
  assumes i: "ports_ok X st" and a: "obj st a = None"
  shows "obj st w = Some (WritePort wp) \<Longrightarrow> a \<notin> set (wreaders wp)"
    and "obj st g = Some (PortGroup rs) \<Longrightarrow> a \<notin> set rs"
    and "obj st r = Some (ReadPort rp) \<Longrightarrow> r \<notin> X \<Longrightarrow> wport rp \<noteq> Some a \<and> gport rp \<noteq> Some a"
    and "a \<notin> set (write_port_list st)"
  using ports_okD [OF i] a unfolding port_ok_defs by fastforce+

lemma create_ok:
  assumes i: "ports_ok X st" and a: "obj st a = None" and b: "buf_ok b"
    and n: "find (\<lambda>a. name_of st a = Some nm) (write_port_list st) = None"
  shows "ports_ok X ((set_obj a (Some (WritePort \<lparr>wopen = True, wbuf = Some b, wreaders = [], wmode = mode,
    wname = nm\<rparr>)) st)\<lparr>write_port_list := write_port_list st @ [a]\<rparr>)" (is "ports_ok X ?st")
proof -
  note u = unreferenced [OF i a]
  have "name_of ?st x = (if x = a then Some nm else name_of st x)" for x by (simp add: name_of_def)
  moreover have "\<forall>x\<in>set (write_port_list st). name_of st x \<noteq> Some nm" using n by (auto simp: find_None_iff)
  ultimately have "inj_on (name_of ?st) (set (write_port_list ?st))"
    using ports_okD(3) [OF i] u(4) by (auto simp: inj_on_def)
  moreover have "distinct (write_port_list ?st)" using ports_okD(1) [OF i] u(4) by simp
  moreover have "x \<in> set (write_port_list ?st) \<longleftrightarrow> (\<exists>wp. obj ?st x = Some (WritePort wp))" for x
    using ports_okD(2) [OF i, of x] by auto
  moreover have "wport_ok X ?st w wp" if "obj ?st w = Some (WritePort wp)" for w wp
  proof (cases "w = a")
    case True
    then show ?thesis using that b by (auto simp: wport_ok_def)
  next
    case False
    then have "wport_ok X st w wp" "a \<notin> set (wreaders wp)" using ports_okD(4) [OF i] u(1) that by auto
    then show ?thesis unfolding wport_ok_def by auto
  qed
  moreover have "rport_ok ?st r rp" if "obj ?st r = Some (ReadPort rp)" "r \<notin> X" for r rp
  proof -
    have "obj st r = Some (ReadPort rp)" using that by (auto split: if_splits)
    then show ?thesis using ports_okD(5) [OF i _ that(2)] u(3) that(2) by (fastforce simp: rport_ok_def)
  qed
  moreover have "group_ok X ?st g rs" if "obj ?st g = Some (PortGroup rs)" for g rs
  proof -
    have "obj st g = Some (PortGroup rs)" using that by (auto split: if_splits)
    then show ?thesis using ports_okD(6) [OF i] u(2) by (fastforce simp: group_ok_def)
  qed
  ultimately show ?thesis unfolding ports_ok_def by blast
qed

lemma reader_opens_ok:
  assumes i: "ports_ok X st" and a: "obj st r = None" "r \<notin> X" and w: "obj st w = Some (WritePort wp)"
    and b: "buf_ok b" and m: "wbuf wp = None \<Longrightarrow> wmode wp AND PORT_MODE_UNICAST = 0"
  shows "ports_ok X (set_obj r (Some (ReadPort \<lparr>rbuf = Some b, rctx = c, wport = Some w, gport = None\<rparr>))
    (set_obj w (Some (WritePort (wp\<lparr>wbuf := None, wreaders := wreaders wp @ [r]\<rparr>))) st))" (is "ports_ok X ?st")
proof -
  note u = unreferenced [OF i a(1)]
  have rw: "r \<noteq> w" using a w by auto
  have n: "name_of ?st = name_of st" using a(1) w rw by (auto simp: name_of_def)
  have wo: "wport_ok X st w wp" using ports_okD(4) [OF i w] .
  have "a \<in> set (write_port_list ?st) \<longleftrightarrow> (\<exists>wp. obj ?st a = Some (WritePort wp))" for a
    using ports_okD(2) [OF i, of a] a w rw by auto
  moreover have "wport_ok X ?st v wp'" if "obj ?st v = Some (WritePort wp')" for v wp'
  proof (cases "v = w")
    case True
    then have "wp' = wp\<lparr>wbuf := None, wreaders := wreaders wp @ [r]\<rparr>" using that rw by auto
    then show ?thesis using True wo u(1) [OF w] a(2) m w rw unfolding wport_ok_def by auto
  next
    case False
    then have o: "obj st v = Some (WritePort wp')" using that by (auto split: if_splits)
    then show ?thesis using ports_okD(4) [OF i o] u(1) [OF o] w unfolding wport_ok_def by fastforce
  qed
  moreover have "rport_ok ?st x rp" if "obj ?st x = Some (ReadPort rp)" "x \<notin> X" for x rp
  proof (cases "x = r")
    case True
    then show ?thesis using that b rw by (auto simp: rport_ok_def)
  next
    case False
    then have o: "obj st x = Some (ReadPort rp)" using that rw by (auto split: if_splits)
    then show ?thesis using ports_okD(5) [OF i o that(2)] u(3) [OF o that(2)] w rw a(1)
      unfolding rport_ok_def by fastforce
  qed
  moreover have "group_ok X ?st g rs" if "obj ?st g = Some (PortGroup rs)" for g rs
  proof -
    have o: "obj st g = Some (PortGroup rs)" using that by (auto split: if_splits)
    then show ?thesis using ports_okD(6) [OF i o] u(2) [OF o] w unfolding group_ok_def by fastforce
  qed
  ultimately show ?thesis unfolding ports_ok_def n using ports_okD(1,3) [OF i] by auto
qed

lemma new_group_ok:
  assumes i: "ports_ok X st" and a: "obj st g = None"
  shows "ports_ok X (set_obj g (Some (PortGroup [])) st)" (is "ports_ok X ?st")
proof -
  note u = unreferenced [OF i a]
  have n: "name_of ?st = name_of st" using a by (intro inj_name_set_obj) (simp add: name_of_def)
  have w: "obj ?st x = Some (WritePort wp) \<longleftrightarrow> obj st x = Some (WritePort wp)"
    and r: "obj ?st x = Some (ReadPort rp) \<longleftrightarrow> obj st x = Some (ReadPort rp)" for x wp rp using a by auto
  have "rport_ok ?st x rp" if "obj st x = Some (ReadPort rp)" "x \<notin> X" for x rp
    using ports_okD(5) [OF i that] a unfolding rport_ok_def w by fastforce
  moreover have "group_ok X ?st x rs" if "obj ?st x = Some (PortGroup rs)" for x rs
    using ports_okD(6) [OF i, of x rs] that unfolding group_ok_def r by (auto split: if_splits)
  moreover have "wport_ok X ?st x wp" if "obj st x = Some (WritePort wp)" for x wp
    using ports_okD(4) [OF i that] unfolding wport_ok_def r by auto
  ultimately show ?thesis unfolding ports_ok_def n w r using ports_okD(1-3) [OF i] by auto
qed

definition map_rport :: "(read_port \<Rightarrow> read_port) \<Rightarrow> port_obj option \<Rightarrow> port_obj option" where
  "map_rport f x = (case x of Some (ReadPort rp) \<Rightarrow> Some (ReadPort (f rp)) | _ \<Rightarrow> x)"

lemma upd_rport_eq: "upd_rport a f st = set_obj a (map_rport f (obj st a)) st"
  by (cases st) (auto simp: upd_rport_def map_rport_def set_obj_def fun_upd_idem split: option.splits port_obj.splits)

lemma link_ok:
  assumes i: "ports_ok X st" and r: "obj st r = Some (ReadPort rp)" "r \<notin> X" "gport rp = None"
    and g: "obj st g = Some (PortGroup rs)" "length rs < MAX_PORT_GROUP_COUNT"
  shows "ports_ok X (link_port g r st)"
    and "link_port g r st = set_obj g (Some (PortGroup (rs @ [r]))) (set_obj r (Some (ReadPort (rp\<lparr>gport := Some g\<rparr>))) st)"
proof -
  let ?st = "set_obj g (Some (PortGroup (rs @ [r]))) (set_obj r (Some (ReadPort (rp\<lparr>gport := Some g\<rparr>))) st)"
  have ne: "r \<noteq> g" using r g by auto
  show e: "link_port g r st = ?st" using r g ne by (simp add: link_port_def upd_rport_def)
  have n: "name_of ?st = name_of st" using r g ne by (auto simp: name_of_def)
  have w: "obj ?st x = Some (WritePort wp) \<longleftrightarrow> obj st x = Some (WritePort wp)" for x wp using r g by auto
  have l: "(\<exists>rp'. obj ?st x = Some (ReadPort rp') \<and> wport rp' = y) \<longleftrightarrow> (\<exists>rp'. obj st x = Some (ReadPort rp') \<and> wport rp' = y)"
    for x y using r g ne by auto
  have nr: "r \<notin> set rs'" if "obj st x = Some (PortGroup rs')" for x rs'
    using ports_okD(6) [OF i that] r(1,3) unfolding group_ok_def by fastforce
  have "rport_ok ?st x rp'" if o: "obj ?st x = Some (ReadPort rp')" and x: "x \<notin> X" for x rp'
  proof (cases "x = r")
    case True
    then show ?thesis using that ports_okD(5) [OF i r(1,2)] ne unfolding rport_ok_def w by auto
  next
    case False
    then have o: "obj st x = Some (ReadPort rp')" using that g by (auto split: if_splits)
    then show ?thesis using ports_okD(5) [OF i o x] g r ne unfolding rport_ok_def w by fastforce
  qed
  moreover have "group_ok X ?st x rs'" if o: "obj ?st x = Some (PortGroup rs')" for x rs'
  proof (cases "x = g")
    case True
    have "g \<notin> set rs" using ports_okD(6) [OF i g(1)] g(1) unfolding group_ok_def by auto
    then show ?thesis using True that ports_okD(6) [OF i g(1)] nr [OF g(1)] g(2) r ne
      unfolding group_ok_def by auto
  next
    case False
    then have o: "obj st x = Some (PortGroup rs')" using that by (auto split: if_splits)
    then show ?thesis using ports_okD(6) [OF i o] nr [OF o] g ne unfolding group_ok_def by fastforce
  qed
  moreover have "wport_ok X ?st x wp" if "obj st x = Some (WritePort wp)" for x wp
    using ports_okD(4) [OF i that] unfolding wport_ok_def l by auto
  ultimately show "ports_ok X (link_port g r st)"
    unfolding e ports_ok_def n w using ports_okD(1-3) [OF i] by auto
qed

section \<open>Changes of many read ports\<close>

lemma clear_gports_obj:
  "obj (clear_gports rs st) = (\<lambda>a. if a \<in> set rs then map_rport (\<lambda>rp. rp\<lparr>gport := None\<rparr>) (obj st a) else obj st a)"
  "krn (clear_gports rs st) = krn st" "write_port_list (clear_gports rs st) = write_port_list st"
  "lock_left (clear_gports rs st) = lock_left st"
  by (induction rs st rule: clear_gports.induct)
     (auto simp: upd_rport_eq map_rport_def split: option.splits port_obj.splits)

text \<open>A group that lets go of its members and is freed.\<close>

lemma drop_group_ok:
  assumes i: "ports_ok X st" and g: "obj st g = Some (PortGroup rs)"
  shows "ports_ok (X - {g}) (set_obj g None (clear_gports rs st))" (is "ports_ok ?X ?st")
proof -
  have mem: "\<forall>r\<in>set rs. r \<notin> X \<and> (\<exists>rp. obj st r = Some (ReadPort rp) \<and> gport rp = Some g)"
    using ports_okD(6) [OF i g] by (simp add: group_ok_def)
  have o: "obj ?st x = (if x = g then None else map_rport (if x \<in> set rs then (\<lambda>rp. rp\<lparr>gport := None\<rparr>) else id) (obj st x))"
    for x using mem by (auto simp: clear_gports_obj map_rport_def split: option.splits port_obj.splits)
  have w: "obj ?st x = Some (WritePort wp) \<longleftrightarrow> obj st x = Some (WritePort wp)" for x wp
    using g unfolding o by (auto simp: map_rport_def split: option.splits port_obj.splits)
  have p: "obj ?st x = Some (PortGroup rs') \<longleftrightarrow> x \<noteq> g \<and> obj st x = Some (PortGroup rs')" for x rs'
    unfolding o by (auto simp: map_rport_def split: option.splits port_obj.splits)
  have r: "obj ?st x = Some (ReadPort rp) \<longleftrightarrow>
      (\<exists>rp'. obj st x = Some (ReadPort rp') \<and> rp = (if x \<in> set rs then rp'\<lparr>gport := None\<rparr> else rp'))" for x rp
    using g unfolding o by (auto simp: map_rport_def split: option.splits port_obj.splits)
  have n: "name_of ?st = name_of st"
    using g unfolding name_of_def [abs_def] o by (auto simp: map_rport_def split: option.splits port_obj.splits)
  have "wport_ok ?X ?st v wp" if "obj st v = Some (WritePort wp)" for v wp
    using ports_okD(4) [OF i that] unfolding wport_ok_def r by fastforce
  moreover have "rport_ok ?st x rp" if x: "obj ?st x = Some (ReadPort rp)" "x \<notin> ?X" for x rp
  proof -
    obtain rp' where rp': "obj st x = Some (ReadPort rp')" "rp = (if x \<in> set rs then rp'\<lparr>gport := None\<rparr> else rp')"
      using x(1) unfolding r by blast
    then have "x \<notin> X" using x(2) g by auto
    note k = ports_okD(5) [OF i rp'(1) this]
    have "gport rp' = Some g \<longrightarrow> x \<in> set rs" using k g unfolding rport_ok_def by auto
    then show ?thesis using k rp'(2) unfolding rport_ok_def w p by (cases "x \<in> set rs") auto
  qed
  moreover have "group_ok ?X ?st x rs'" if x: "obj ?st x = Some (PortGroup rs')" for x rs'
  proof -
    have k: "x \<noteq> g" "group_ok X st x rs'" using x ports_okD(6) [OF i] unfolding p by auto
    have "y \<notin> set rs" if "y \<in> set rs'" for y using k mem that unfolding group_ok_def by fastforce
    then show ?thesis using k unfolding group_ok_def r by fastforce
  qed
  ultimately show ?thesis
    unfolding ports_ok_def n w using ports_okD(1-3) [OF i] by (simp add: clear_gports_obj)
qed

text \<open>A write port that lets go of its readers and is freed.\<close>

definition orphan :: "nat \<Rightarrow> nat list \<Rightarrow> pstate \<Rightarrow> pstate" where
  "orphan w rs st = set_obj w None
     (st\<lparr>write_port_list := remove1 w (write_port_list st),
         obj := (\<lambda>a. if a \<in> set rs then map_rport (\<lambda>rp. rp\<lparr>wport := None\<rparr>) (obj st a) else obj st a)\<rparr>)"

lemma orphan_ok:
  assumes i: "ports_ok X st" and ow: "obj st w = Some (WritePort wp)"
  shows "ports_ok X (orphan w (wreaders wp) st)"
proof -
  let ?rs = "set (wreaders wp)" and ?st = "orphan w (wreaders wp) st"
  have mem: "\<forall>r\<in>?rs. r \<notin> X \<and> (\<exists>rp. obj st r = Some (ReadPort rp) \<and> wport rp = Some w)"
    using ports_okD(4) [OF i ow] by (simp add: wport_ok_def)
  have o: "obj ?st x = (if x = w then None else map_rport (if x \<in> ?rs then (\<lambda>rp. rp\<lparr>wport := None\<rparr>) else id) (obj st x))"
    for x by (auto simp: orphan_def map_rport_def split: option.splits port_obj.splits)
  have wr: "obj ?st x = Some (WritePort wp') \<longleftrightarrow> x \<noteq> w \<and> obj st x = Some (WritePort wp')" for x wp'
    unfolding o by (auto simp: map_rport_def split: option.splits port_obj.splits)
  have p: "obj ?st x = Some (PortGroup rs') \<longleftrightarrow> obj st x = Some (PortGroup rs')" for x rs'
    using ow unfolding o by (auto simp: map_rport_def split: option.splits port_obj.splits)
  have r: "obj ?st x = Some (ReadPort rp) \<longleftrightarrow>
      (\<exists>rp'. obj st x = Some (ReadPort rp') \<and> rp = (if x \<in> ?rs then rp'\<lparr>wport := None\<rparr> else rp'))" for x rp
    using ow unfolding o by (auto simp: map_rport_def split: option.splits port_obj.splits)
  have n: "name_of ?st x = (if x = w then None else name_of st x)" for x
    unfolding name_of_def o by (auto simp: map_rport_def split: option.splits port_obj.splits)
  have l: "set (write_port_list ?st) = set (write_port_list st) - {w}" "distinct (write_port_list ?st)"
    using ports_okD(1) [OF i] by (simp_all add: orphan_def)
  have "inj_on (name_of ?st) (set (write_port_list ?st))"
    using ports_okD(3) [OF i] unfolding l(1) inj_on_def n by auto
  moreover have "wport_ok X ?st v wp'" if x: "obj ?st v = Some (WritePort wp')" for v wp'
  proof -
    have k: "v \<noteq> w" "wport_ok X st v wp'" using x ports_okD(4) [OF i] unfolding wr by auto
    have "y \<notin> ?rs" if "y \<in> set (wreaders wp')" for y using k mem that unfolding wport_ok_def by fastforce
    then show ?thesis using k unfolding wport_ok_def r by fastforce
  qed
  moreover have "rport_ok ?st x rp" if x: "obj ?st x = Some (ReadPort rp)" "x \<notin> X" for x rp
  proof -
    obtain rp' where rp': "obj st x = Some (ReadPort rp')" "rp = (if x \<in> ?rs then rp'\<lparr>wport := None\<rparr> else rp')"
      using x(1) unfolding r by blast
    note k = ports_okD(5) [OF i rp'(1) x(2)]
    have "wport rp' = Some w \<longrightarrow> x \<in> ?rs" using k ow unfolding rport_ok_def by auto
    then show ?thesis using k rp'(2) unfolding rport_ok_def wr p by (cases "x \<in> ?rs") auto
  qed
  moreover have "group_ok X ?st x rs'" if x: "obj ?st x = Some (PortGroup rs')" for x rs'
    using ports_okD(6) [OF i, of x rs'] x unfolding p group_ok_def r by fastforce
  ultimately show ?thesis
    unfolding ports_ok_def using l ports_okD(2) [OF i] unfolding wr by auto
qed

section \<open>Closing a read port\<close>

text \<open>A read port that is being closed is in no list; what it holds does not matter any more.\<close>

lemma closing_irrelevant:
  assumes i: "ports_ok X st" and r: "r \<in> X" "obj st r = Some (ReadPort rp)"
    and x: "x = None \<and> Y = X - {r} \<or> (\<exists>rp'. x = Some (ReadPort rp')) \<and> Y = X"
  shows "ports_ok Y (set_obj r x st)"
proof -
  let ?st = "set_obj r x st"
  have n: "name_of ?st = name_of st" using r x by (intro inj_name_set_obj) (auto simp: name_of_def)
  have w: "obj ?st a = Some (WritePort wp) \<longleftrightarrow> obj st a = Some (WritePort wp)"
    and g: "obj ?st a = Some (PortGroup rs) \<longleftrightarrow> obj st a = Some (PortGroup rs)" for a wp rs using r x by auto
  have "wport_ok Y ?st a wp" if "obj st a = Some (WritePort wp)" for a wp
    using ports_okD(4) [OF i that] r x unfolding wport_ok_def by fastforce
  moreover have "group_ok Y ?st a rs" if "obj st a = Some (PortGroup rs)" for a rs
    using ports_okD(6) [OF i that] r x unfolding group_ok_def by fastforce
  moreover have "rport_ok ?st a rp'" if "obj ?st a = Some (ReadPort rp')" "a \<notin> Y" for a rp'
    using that ports_okD(5) [OF i, of a rp'] r x unfolding rport_ok_def w g by (auto split: if_splits)
  ultimately show ?thesis unfolding ports_ok_def n w g using ports_okD(1-3) [OF i] by auto
qed

text \<open>Leaving the group properly, with the pointer cleared.\<close>

lemma unlink_group_ok:
  assumes i: "ports_ok X st" and r: "obj st r = Some (ReadPort rp)" "r \<notin> X"
    and g: "gport rp = Some g" "obj st g = Some (PortGroup rs)"
  shows "ports_ok X (set_obj r (Some (ReadPort (rp\<lparr>gport := None\<rparr>))) (set_obj g (Some (PortGroup (remove1 r rs))) st))"
    (is "ports_ok X ?st")
proof -
  have ne: "r \<noteq> g" using r g by auto
  have go: "group_ok X st g rs" using ports_okD(6) [OF i g(2)] .
  have n: "name_of ?st = name_of st" using r g ne by (auto simp: name_of_def)
  have w: "obj ?st a = Some (WritePort wp) \<longleftrightarrow> obj st a = Some (WritePort wp)" for a wp using r g ne by auto
  have l: "(\<exists>rp'. obj ?st a = Some (ReadPort rp') \<and> wport rp' = y) \<longleftrightarrow> (\<exists>rp'. obj st a = Some (ReadPort rp') \<and> wport rp' = y)"
    for a y using r g ne by auto
  have "rport_ok ?st a rp'" if a: "obj ?st a = Some (ReadPort rp')" "a \<notin> X" for a rp'
  proof (cases "a = r")
    case True
    then show ?thesis using a ports_okD(5) [OF i r] unfolding rport_ok_def w by auto
  next
    case False
    then have o: "obj st a = Some (ReadPort rp')" using a by (auto split: if_splits)
    then show ?thesis using ports_okD(5) [OF i o a(2)] False g ne r unfolding rport_ok_def w by fastforce
  qed
  moreover have "group_ok X ?st a rs'" if a: "obj ?st a = Some (PortGroup rs')" for a rs'
  proof (cases "a = g")
    case True
    have "g \<notin> set rs" using go g(2) unfolding group_ok_def by auto
    moreover have "length (remove1 r rs) \<le> length rs" by (simp add: length_remove1)
    ultimately show ?thesis using a True go ne unfolding group_ok_def by auto
  next
    case False
    then have o: "obj st a = Some (PortGroup rs')" using a by (auto split: if_splits)
    have "r \<notin> set rs'" using ports_okD(6) [OF i o] r g(1) False unfolding group_ok_def by auto
    then show ?thesis using ports_okD(6) [OF i o] g unfolding group_ok_def by fastforce
  qed
  moreover have "wport_ok X ?st a wp" if "obj st a = Some (WritePort wp)" for a wp
    using ports_okD(4) [OF i that] unfolding wport_ok_def l by auto
  ultimately show ?thesis unfolding ports_ok_def n w using ports_okD(1-3) [OF i] by auto
qed

text \<open>Leaving the write port; the buffer goes back with the last reader.\<close>

definition without_reader :: "nat \<Rightarrow> read_port \<Rightarrow> write_port \<Rightarrow> write_port" where
  "without_reader r rp wp = wp\<lparr>wreaders := remove1 r (wreaders wp),
     wbuf := (if remove1 r (wreaders wp) = [] then rbuf rp else wbuf wp)\<rparr>"

lemma unlink_wport_ok:
  assumes i: "ports_ok X st" and r: "obj st r = Some (ReadPort rp)" "r \<notin> X" "gport rp = None"
    and w: "wport rp = Some w" "obj st w = Some (WritePort wp)"
  shows "ports_ok (insert r X) (set_obj w (Some (WritePort (without_reader r rp wp))) st)" (is "ports_ok ?X ?st")
proof -
  have ne: "r \<noteq> w" using r w by auto
  have wo: "wport_ok X st w wp" "r \<in> set (wreaders wp)" and b: "\<exists>b. rbuf rp = Some b \<and> buf_ok b"
    using ports_okD(4) [OF i w(2)] ports_okD(5) [OF i r(1,2)] w by (auto simp: rport_ok_def)
  have n: "name_of ?st = name_of st"
    using w by (intro inj_name_set_obj) (simp add: name_of_def without_reader_def)
  have ro: "obj ?st a = Some (ReadPort rp') \<longleftrightarrow> obj st a = Some (ReadPort rp')"
    and g: "obj ?st a = Some (PortGroup rs) \<longleftrightarrow> obj st a = Some (PortGroup rs)" for a rp' rs using w by auto
  have "wport_ok ?X ?st v wp'" if v: "obj ?st v = Some (WritePort wp')" for v wp'
  proof (cases "v = w")
    case True
    have "length (remove1 r (wreaders wp)) \<le> length (wreaders wp)" by (simp add: length_remove1)
    then show ?thesis using v True wo b unfolding wport_ok_def ro
      by (auto simp: without_reader_def split: if_splits)
  next
    case False
    then have o: "obj st v = Some (WritePort wp')" using v by (auto split: if_splits)
    have "r \<notin> set (wreaders wp')" using ports_okD(4) [OF i o] r(1) w(1) False unfolding wport_ok_def by auto
    then show ?thesis using ports_okD(4) [OF i o] unfolding wport_ok_def ro by auto
  qed
  moreover have "rport_ok ?st a rp'" if a: "obj st a = Some (ReadPort rp')" "a \<notin> ?X" for a rp'
    using ports_okD(5) [OF i a(1)] a w unfolding rport_ok_def g by (fastforce simp: without_reader_def)
  moreover have "group_ok ?X ?st a rs" if o: "obj st a = Some (PortGroup rs)" for a rs
  proof -
    have "r \<notin> set rs" using ports_okD(6) [OF i o] r(1,3) unfolding group_ok_def by auto
    then show ?thesis using ports_okD(6) [OF i o] unfolding group_ok_def ro by auto
  qed
  ultimately show ?thesis
    unfolding ports_ok_def n ro g using ports_okD(1-3) [OF i] w(2) by (auto split: if_splits)
qed

lemma unlink_orphan_ok:
  assumes i: "ports_ok X st" and r: "obj st r = Some (ReadPort rp)" "r \<notin> X" "gport rp = None" "wport rp = None"
  shows "ports_ok (insert r X) st"
proof -
  have "r \<notin> set (wreaders wp)" if "obj st w = Some (WritePort wp)" for w wp
    using ports_okD(4) [OF i that] r unfolding wport_ok_def by auto
  moreover have "r \<notin> set rs" if "obj st g = Some (PortGroup rs)" for g rs
    using ports_okD(6) [OF i that] r unfolding group_ok_def by auto
  ultimately show ?thesis using i unfolding ports_ok_def port_ok_defs by auto
qed

lemma set_obj_twice [simp]: "set_obj a x (set_obj a y st) = set_obj a x st"
  by (simp add: set_obj_def)

lemma set_obj_swap: "a \<noteq> b \<Longrightarrow> set_obj a x (set_obj b y st) = set_obj b y (set_obj a x st)"
  by (simp add: set_obj_def fun_upd_twist)

lemma set_obj_same: "obj st a = x \<Longrightarrow> set_obj a x st = st"
  by (cases st) (auto simp: set_obj_def fun_upd_idem)

lemma leave_wport_ok:
  assumes i: "ports_ok X st" and r: "obj st r = Some (ReadPort rp)" "r \<notin> X" "gport rp = None"
  shows "\<exists>st' rp'. leave_wport r rp st = Ret st' \<and> ports_ok (insert r X) st' \<and> obj st' r = Some (ReadPort rp')
    \<and> krn st' = krn st"
proof (cases "wport rp")
  case None
  then show ?thesis using unlink_orphan_ok [OF i r None] r(1) by (simp add: leave_wport_def)
next
  case (Some w)
  then obtain wp where w: "obj st w = Some (WritePort wp)" "r \<in> set (wreaders wp)"
    using ports_okD(5) [OF i r(1,2)] by (auto simp: rport_ok_def)
  then have ne: "r \<noteq> w" using r(1) by auto
  let ?st = "set_obj w (Some (WritePort (without_reader r rp wp))) st"
  have k: "ports_ok (insert r X) ?st" using unlink_wport_ok [OF i r Some w(1)] .
  then have k': "ports_ok (insert r X) (set_obj r (Some (ReadPort (rp\<lparr>rbuf := None\<rparr>))) ?st)"
    using closing_irrelevant [OF k, of r rp] r(1) ne by simp
  show ?thesis
  proof (cases "remove1 r (wreaders wp) = []")
    case True
    then have "leave_wport r rp st = Ret (set_obj r (Some (ReadPort (rp\<lparr>rbuf := None\<rparr>))) ?st)"
      using Some w by (simp add: leave_wport_def without_reader_def)
    then show ?thesis using k' by auto
  next
    case False
    then have "leave_wport r rp st = Ret ?st"
      using Some w by (simp add: leave_wport_def without_reader_def)
    then show ?thesis using k r(1) ne by auto
  qed
qed

lemma leave_ok:
  assumes i: "ports_ok X st" and r: "obj st r = Some (ReadPort rp)" "r \<notin> X"
  shows "\<exists>st1 st2. leave_wport r rp st = Ret st1 \<and> leave_group r rp st1 = Ret st2
    \<and> ports_ok (insert r X) st2 \<and> (\<exists>rp'. obj st2 r = Some (ReadPort rp')) \<and> krn st2 = krn st"
proof (cases "gport rp")
  case None
  then show ?thesis using leave_wport_ok [OF i r None] by (auto simp: leave_group_def)
next
  case (Some g)
  then obtain rs where g: "obj st g = Some (PortGroup rs)" "r \<in> set rs"
    using ports_okD(5) [OF i r] by (auto simp: rport_ok_def)
  let ?rp = "rp\<lparr>gport := None\<rparr>" and ?G = "Some (PortGroup (remove1 r rs))"
  let ?st = "set_obj r (Some (ReadPort ?rp)) (set_obj g ?G st)"
  have ne: "r \<noteq> g" using r g by auto
  have k: "ports_ok X ?st" using unlink_group_ok [OF i r Some g(1)] .
  obtain st' rp' where l: "leave_wport r ?rp ?st = Ret st'" "ports_ok (insert r X) st'"
      "obj st' r = Some (ReadPort rp')" "krn st' = krn st"
    using leave_wport_ok [OF k, of r ?rp] r(2) by auto
  show ?thesis
  proof (cases "wport rp")
    case None
    then have "leave_wport r rp st = Ret st" "leave_group r rp st = Ret (set_obj g ?G st)" "st' = ?st"
      using l(1) Some g by (simp_all add: leave_wport_def leave_group_def)
    moreover have "ports_ok (insert r X) (set_obj r (Some (ReadPort rp)) ?st)"
      using closing_irrelevant [OF l(2) _ l(3)] calculation(3) by simp
    moreover have "set_obj r (Some (ReadPort rp)) ?st = set_obj g ?G st"
      using r(1) ne by (simp add: set_obj_same)
    ultimately show ?thesis using r(1) ne by auto
  next
    case (Some w)
    then obtain wp where w: "obj st w = Some (WritePort wp)" "r \<in> set (wreaders wp)"
      using ports_okD(5) [OF i r] by (auto simp: rport_ok_def)
    have d: "r \<noteq> w" "g \<noteq> w" using r g w by auto
    let ?W = "Some (WritePort (without_reader r rp wp))"
    let ?R = "if remove1 r (wreaders wp) = [] then Some (ReadPort (rp\<lparr>rbuf := None\<rparr>)) else Some (ReadPort rp)"
    have "leave_wport r rp st = Ret (set_obj r ?R (set_obj w ?W st))"
      using Some w r(1) d by (simp add: leave_wport_def without_reader_def set_obj_same)
    moreover have "leave_group r rp (set_obj r ?R (set_obj w ?W st)) = Ret (set_obj g ?G (set_obj r ?R (set_obj w ?W st)))"
      using \<open>gport rp = Some g\<close> g ne d by (simp add: leave_group_def)
    moreover have "ports_ok (insert r X) (set_obj r ?R st')"
      using closing_irrelevant [OF l(2) _ l(3), of ?R "insert r X"] by auto
    moreover have "set_obj r ?R st' = set_obj g ?G (set_obj r ?R (set_obj w ?W st))"
    proof -
      have "st' = set_obj r (if remove1 r (wreaders wp) = [] then Some (ReadPort (?rp\<lparr>rbuf := None\<rparr>)) else Some (ReadPort ?rp))
          (set_obj w ?W (set_obj g ?G st))"
        using l(1) Some w d
        by (auto simp: leave_wport_def without_reader_def set_obj_def fun_upd_twist [OF d(1)] split: if_splits)
      then show ?thesis using d ne by (cases st) (auto simp: set_obj_def fun_eq_iff)
    qed
    ultimately show ?thesis using ne d by (auto split: if_splits)
  qed
qed

end
