(* ===== verification/Ports_Runs.thy ===== *)
theory Ports_Runs
  imports Ports_Correct
begin

text \<open>
  Port calls in a running system: every legal call returns and keeps the links between the
  objects and the invariant of the scheduler (all but \<^verbatim>\<open>port_group_remove\<close>), what a write delivers,
  in which order packets are read, and the run in which \<^verbatim>\<open>port_group_remove\<close> leads to a fault.
\<close>

section \<open>Scheduler calls made by ports\<close>

lemma wake_one_safe:
  assumes "kernel_inv K"
  shows "\<exists>n K'. wait_queue_wake_one now q False err K = Ret (n, K') \<and> kernel_inv K'"
  using wake_one_returns [OF assms, of False now q err] wake_one_inv [OF assms, of False now q err] by auto

lemma wake_all_safe:
  assumes "kernel_inv K" and "b \<longrightarrow> not_idle K"
  shows "\<exists>n K'. wait_queue_wake_all now q b err K = Ret (n, K') \<and> kernel_inv K'"
  using wait_queue_wake_all_inv [OF assms(1), of b now q err] assms(2) by (auto simp: not_idle_def)

lemma init_queue_same:
  assumes "kernel_inv K" and "wlist (wq (env K) q) = []"
  shows "on_sched (wait_queue_init q) K = K"
proof -
  have "wcount (wq (env K) q) = 0" using sched_invD(6) [OF kernel_invD(1) [OF assms(1)], of q] assms(2) by simp
  then have "wq (env K) q = \<lparr>wlist = [], wcount = 0\<rparr>" using assms(2) by (cases "wq (env K) q") simp
  then show ?thesis by (simp add: on_sched_def wait_queue_init_def upd_wq_def fun_upd_idem)
qed

lemma wake_reader_safe:
  assumes k: "kernel_inv (krn st)" and g: "\<And>g. gport rp = Some g \<Longrightarrow> obj st g \<noteq> None"
  shows "\<exists>n K. wake_reader now r rp st = Ret (n, st\<lparr>krn := K\<rparr>) \<and> kernel_inv K"
proof -
  have "\<exists>n K. (case gport rp of None \<Rightarrow> Ret (0, krn st)
      | Some g \<Rightarrow> if obj st g = None then Fault else wait_queue_wake_one now (PortQ g) False NO_ERROR (krn st))
      = Ret (n, K) \<and> kernel_inv K"
    using wake_one_safe [OF k, of now _ NO_ERROR] g k by (cases "gport rp") auto
  then obtain n K where "(case gport rp of None \<Rightarrow> Ret (0, krn st)
      | Some g \<Rightarrow> if obj st g = None then Fault else wait_queue_wake_one now (PortQ g) False NO_ERROR (krn st))
      = Ret (n, K)" "kernel_inv K" by blast
  then show ?thesis
    using wake_one_safe [of K now "PortQ r" NO_ERROR] unfolding wake_reader_def by (cases "n = 0") auto
qed

section \<open>Delivery\<close>

text \<open>What a write does to a reader, and whether it has room.\<close>

definition deliver :: "port_packet list \<Rightarrow> port_obj option \<Rightarrow> port_obj option" where
  "deliver pk = map_rport (\<lambda>rp. rp\<lparr>rbuf := map_option (\<lambda>b. snd (buf_write pk b)) (rbuf rp)\<rparr>)"

definition room :: "port_obj option \<Rightarrow> nat" where
  "room x = (case x of
     Some (ReadPort rp) \<Rightarrow> (case rbuf rp of Some b \<Rightarrow> buf_cap b - length (buf_queue b) | None \<Rightarrow> 0)
   | _ \<Rightarrow> 0)"

lemma write_readers_ok:
  assumes "ports_ok X st" and "kernel_inv (krn st)" and "distinct rs"
    and "\<forall>r\<in>set rs. r \<notin> X \<and> (\<exists>rp. obj st r = Some (ReadPort rp))"
  shows "\<exists>n st'. write_readers now pk rs status awake st
      = Ret (if \<exists>r\<in>set rs. room (obj st r) < length pk then ERR_PARTIAL_WRITE else status, n, st')
    \<and> ports_ok X st' \<and> kernel_inv (krn st') \<and> write_port_list st' = write_port_list st
    \<and> obj st' = (\<lambda>a. if a \<in> set rs then deliver pk (obj st a) else obj st a)"
  using assms
proof (induction rs arbitrary: status awake st)
  case (Cons r rs)
  obtain rp where rp: "obj st r = Some (ReadPort rp)" "r \<notin> X" using Cons.prems(4) by auto
  obtain b where b: "rbuf rp = Some b" "buf_ok b"
    using ports_okD(5) [OF Cons.prems(1) rp] by (auto simp: rport_ok_def)
  obtain e b' where e: "buf_write pk b = (e, b')" by fastforce
  note w = pbuf.write_status [OF b(2), of pk, unfolded e fst_conv snd_conv]
  have room: "room (obj st r) = buf_cap b - length (buf_queue b)" using rp b by (simp add: room_def)
  let ?rp = "rp\<lparr>rbuf := Some b'\<rparr>"
  let ?st = "set_obj r (Some (ReadPort ?rp)) st"
  have del: "deliver pk (obj st r) = Some (ReadPort ?rp)" using rp b e by (simp add: deliver_def map_rport_def)
  show ?case
  proof (cases "e < 0")
    case True
    then have "b' = b" using pbuf.write_full [OF b(2), of pk] w(1) e by simp
    then have "rp\<lparr>rbuf := Some b'\<rparr> = rp" using b(1) by simp
    then have "deliver pk (obj st r) = obj st r" using del rp by simp
    moreover obtain n st' where "write_readers now pk rs ERR_PARTIAL_WRITE awake st
        = Ret (ERR_PARTIAL_WRITE, n, st')"
      "ports_ok X st' \<and> kernel_inv (krn st') \<and> write_port_list st' = write_port_list st"
      "obj st' = (\<lambda>a. if a \<in> set rs then deliver pk (obj st a) else obj st a)"
      using Cons.IH [of st ERR_PARTIAL_WRITE awake] Cons.prems by auto
    ultimately show ?thesis
      using rp b e True w(1) room by auto
  next
    case False
    have "ports_ok X ?st" using ports_ok_rbuf [OF Cons.prems(1) rp(1) w(2)] .
    moreover have g: "obj ?st g \<noteq> None" if "gport ?rp = Some g" for g
      using that ports_okD(5) [OF Cons.prems(1) rp] by (auto simp: rport_ok_def)
    obtain n K where K: "wake_reader now r ?rp ?st = Ret (n, ?st\<lparr>krn := K\<rparr>)" "kernel_inv K"
      using wake_reader_safe [of ?st ?rp now r, OF _ g] Cons.prems(2) by auto
    moreover have "\<forall>x\<in>set rs. x \<notin> X \<and> (\<exists>rp. obj (?st\<lparr>krn := K\<rparr>) x = Some (ReadPort rp))" "distinct rs"
      using Cons.prems(3,4) by auto
    ultimately obtain m st' where st': "write_readers now pk rs status (awake + n) (?st\<lparr>krn := K\<rparr>)
        = Ret (if \<exists>r\<in>set rs. room (obj (?st\<lparr>krn := K\<rparr>) r) < length pk then ERR_PARTIAL_WRITE else status, m, st')"
      "ports_ok X st' \<and> kernel_inv (krn st') \<and> write_port_list st' = write_port_list (?st\<lparr>krn := K\<rparr>)"
      "obj st' = (\<lambda>a. if a \<in> set rs then deliver pk (obj (?st\<lparr>krn := K\<rparr>) a) else obj (?st\<lparr>krn := K\<rparr>) a)"
      using Cons.IH [of "?st\<lparr>krn := K\<rparr>" status "awake + n"] by auto
    have nr: "r \<notin> set rs" using Cons.prems(3) by simp
    have "\<not> room (obj st r) < length pk" using w(1) False room by simp
    moreover have "(\<exists>x\<in>set rs. room (obj (?st\<lparr>krn := K\<rparr>) x) < length pk) \<longleftrightarrow> (\<exists>x\<in>set rs. room (obj st x) < length pk)"
      using nr by (intro bex_cong) auto
    moreover have "obj st' = (\<lambda>a. if a \<in> set (r # rs) then deliver pk (obj st a) else obj st a)"
      unfolding st'(3) using nr del by auto
    ultimately show ?thesis
      using rp b e False K(1) st'(1,2) by (simp add: Let_def)
  qed
qed auto

section \<open>Taking a packet\<close>

definition queue_at :: "pstate \<Rightarrow> nat \<Rightarrow> port_packet list" where
  "queue_at st r = (case obj st r of
     Some (ReadPort rp) \<Rightarrow> (case rbuf rp of Some b \<Rightarrow> buf_queue b | None \<Rightarrow> [])
   | _ \<Rightarrow> [])"

text \<open>The state without the packet at the head of a read port's queue.\<close>

definition taken :: "nat \<Rightarrow> pstate \<Rightarrow> pstate" where
  "taken r st = upd_rport r (\<lambda>rp. rp\<lparr>rbuf := map_option (\<lambda>b. snd (snd (buf_read b))) (rbuf rp)\<rparr>) st"

lemma read_now_ok:
  assumes i: "ports_ok X st" and r: "obj st r = Some (ReadPort rp)" "r \<notin> X"
  shows "read_now r rp st = (case queue_at st r of
      [] \<Rightarrow> Ret (ERR_TIMED_OUT, (rctx rp, None), st)
    | p # ps \<Rightarrow> Ret (NO_ERROR, (rctx rp, Some p), taken r st))"
    and "ports_ok X (taken r st)" and "krn (taken r st) = krn st"
    and "queue_at (taken r st) r = tl (queue_at st r)"
    and "x \<noteq> r \<Longrightarrow> obj (taken r st) x = obj st x"
proof -
  obtain b where b: "rbuf rp = Some b" "buf_ok b" using ports_okD(5) [OF i r] by (auto simp: rport_ok_def)
  obtain e p b' where e: "buf_read b = (e, p, b')" by (cases "buf_read b")
  have q: "queue_at st r = buf_queue b" using r b by (simp add: queue_at_def)
  have t: "taken r st = set_obj r (Some (ReadPort (rp\<lparr>rbuf := Some b'\<rparr>))) st"
    using r b e by (simp add: taken_def upd_rport_def)
  have ok: "buf_ok b' \<and> buf_queue b' = tl (buf_queue b)
      \<and> (case buf_queue b of [] \<Rightarrow> (e, p) = (ERR_NO_MSG, None) \<and> b' = b | p' # ps \<Rightarrow> (e, p) = (NO_ERROR, Some p'))"
    using pbuf.read_none [OF b(2)] pbuf.read_one [OF b(2)] b(2) e by (cases "buf_queue b") auto
  show "ports_ok X (taken r st)" unfolding t using ports_ok_rbuf [OF i r(1)] ok by blast
  show "krn (taken r st) = krn st" "x \<noteq> r \<Longrightarrow> obj (taken r st) x = obj st x" unfolding t by simp_all
  show "queue_at (taken r st) r = tl (queue_at st r)" unfolding q t using ok by (simp add: queue_at_def)
  have "set_obj r (Some (ReadPort (rp\<lparr>rbuf := Some b\<rparr>))) st = st" using r(1) b(1) by (simp add: set_obj_same)
  then show "read_now r rp st = (case queue_at st r of
      [] \<Rightarrow> Ret (ERR_TIMED_OUT, (rctx rp, None), st)
    | p # ps \<Rightarrow> Ret (NO_ERROR, (rctx rp, Some p), taken r st))"
    unfolding q t using ok b e by (auto simp: read_now_def Let_def split: list.splits)
qed

text \<open>A group gives the packet of its first member that has one.\<close>

lemma read_group_ok:
  assumes "ports_ok X st" and "\<forall>r\<in>set rs. r \<notin> X \<and> (\<exists>rp. obj st r = Some (ReadPort rp))"
  shows "case find (\<lambda>r. queue_at st r \<noteq> []) rs of
      None \<Rightarrow> (\<exists>res'. read_group rs res st = Ret (ERR_TIMED_OUT, res', st))
    | Some r \<Rightarrow> (\<exists>rp. obj st r = Some (ReadPort rp)
        \<and> read_group rs res st = Ret (NO_ERROR, Some (rctx rp, Some (hd (queue_at st r))), taken r st))"
  using assms
proof (induction rs arbitrary: res)
  case (Cons r rs)
  obtain rp where rp: "obj st r = Some (ReadPort rp)" "r \<notin> X" using Cons.prems(2) by auto
  note n = read_now_ok(1) [OF Cons.prems(1) rp]
  show ?case
  proof (cases "queue_at st r")
    case Nil
    then have e: "read_group (r # rs) res st = read_group rs (Some (rctx rp, None)) st" using n rp by simp
    have "find (\<lambda>r. queue_at st r \<noteq> []) (r # rs) = find (\<lambda>r. queue_at st r \<noteq> []) rs" using Nil by simp
    then show ?thesis using Cons.IH [of "Some (rctx rp, None)"] Cons.prems unfolding e by simp
  next
    case (Cons p ps)
    then show ?thesis using n rp by simp
  qed
qed simp

section \<open>Cancelling readers\<close>

lemma cancel_readers_ok:
  assumes "kernel_inv (krn st)" and "distinct rs"
    and "\<forall>r\<in>set rs. \<exists>rp. obj st r = Some (ReadPort rp) \<and> (\<forall>g. gport rp = Some g \<longrightarrow> (\<exists>gs. obj st g = Some (PortGroup gs)))"
  shows "\<exists>K. cancel_readers now rs st = Ret (st\<lparr>krn := K,
      obj := (\<lambda>a. if a \<in> set rs then map_rport (\<lambda>rp. rp\<lparr>wport := None\<rparr>) (obj st a) else obj st a)\<rparr>) \<and> kernel_inv K"
  using assms
proof (induction rs arbitrary: st)
  case Nil
  then show ?case by (intro exI [of _ "krn st"]) simp
next
  case (Cons r rs)
  let ?f = "map_rport (\<lambda>rp. rp\<lparr>wport := None\<rparr>)"
  obtain rp where rp: "obj st r = Some (ReadPort rp)" "\<And>g. gport rp = Some g \<Longrightarrow> \<exists>gs. obj st g = Some (PortGroup gs)"
    using Cons.prems(3) by auto
  obtain n K1 where K1: "wait_queue_wake_all now (PortQ r) False ERR_CANCELLED (krn st) = Ret (n, K1)" "kernel_inv K1"
    using wake_all_safe [OF Cons.prems(1), of False now "PortQ r" ERR_CANCELLED] by auto
  have "\<exists>n K. (case gport rp of None \<Rightarrow> Ret (0, K1)
      | Some g \<Rightarrow> if obj st g = None then Fault else wait_queue_wake_all now (PortQ g) False ERR_CANCELLED K1)
      = Ret (n, K) \<and> kernel_inv K"
    using wake_all_safe [OF K1(2), of False now _ ERR_CANCELLED] rp(2) K1(2) by (cases "gport rp") auto
  then obtain m K where K: "(case gport rp of None \<Rightarrow> Ret (0, K1)
      | Some g \<Rightarrow> if obj st g = None then Fault else wait_queue_wake_all now (PortQ g) False ERR_CANCELLED K1)
      = Ret (m, K)" "kernel_inv K" by blast
  let ?st = "upd_rport r (\<lambda>rp. rp\<lparr>wport := None\<rparr>) (st\<lparr>krn := K\<rparr>)"
  have o: "obj ?st = (obj st)(r := ?f (obj st r))" "krn ?st = K" by (simp_all add: upd_rport_eq)
  have "\<exists>rp. obj ?st x = Some (ReadPort rp) \<and> (\<forall>g. gport rp = Some g \<longrightarrow> (\<exists>gs. obj ?st g = Some (PortGroup gs)))"
    if "x \<in> set rs" for x
  proof -
    obtain rp' where rp': "obj st x = Some (ReadPort rp')" "\<forall>g. gport rp' = Some g \<longrightarrow> (\<exists>gs. obj st g = Some (PortGroup gs))"
      using Cons.prems(3) \<open>x \<in> set rs\<close> by auto
    have "x \<noteq> r" using Cons.prems(2) that by auto
    then show ?thesis using rp' rp(1) unfolding o by (auto simp: map_rport_def)
  qed
  then obtain K' where K': "cancel_readers now rs ?st = Ret (?st\<lparr>krn := K',
      obj := (\<lambda>a. if a \<in> set rs then ?f (obj ?st a) else obj ?st a)\<rparr>)" "kernel_inv K'"
    using Cons.IH [of ?st] K(2) Cons.prems(2) o(2) by auto
  have "r \<notin> set rs" using Cons.prems(2) by simp
  then have "(\<lambda>a. if a \<in> set rs then ?f (obj ?st a) else obj ?st a)
      = (\<lambda>a. if a \<in> set (r # rs) then ?f (obj st a) else obj st a)" unfolding o by auto
  then show ?case using K'(1,2) rp(1) K1(1) K(1) by (auto simp: upd_rport_eq set_obj_def)
qed

section \<open>Linking a list of ports into a new group\<close>

lemma link_ports_ok:
  assumes "ports_ok X st" and "obj st g = Some (PortGroup done)" and "length done + length rs \<le> MAX_PORT_GROUP_COUNT"
    and "\<forall>r\<in>set rs. obj st r \<noteq> None \<and> r \<notin> X"
  shows "\<exists>st'. krn st' = krn st \<and> (link_ports g done rs st = Ret (NO_ERROR, st') \<and> ports_ok X st'
    \<or> link_ports g done rs st = Ret (ERR_BAD_HANDLE, st') \<and> ports_ok (X - {g}) (set_obj g None st'))"
  using assms
proof (induction g "done" rs st rule: link_ports.induct)
  case (2 g "done" r rs st)
  have bad: ?case if "link_ports g done (r # rs) st = Ret (ERR_BAD_HANDLE, clear_gports done st)"
    using that drop_group_ok [OF 2(2,3)] by (auto simp: clear_gports_obj)
  obtain x where x: "obj st r = Some x" "r \<notin> X" using 2(5) by auto
  show ?case
  proof (cases x)
    case (ReadPort rp)
    show ?thesis
    proof (cases "gport rp")
      case None
      have l: "length done < MAX_PORT_GROUP_COUNT" using 2(4) by simp
      note k = link_ok [OF 2(2) _ x(2) None 2(3) l]
      have o: "obj st r = Some (ReadPort rp)" using x ReadPort by simp
      have ne: "r \<noteq> g" using o 2(3) by auto
      have "\<exists>st'. krn st' = krn (link_port g r st) \<and> (link_ports g (done @ [r]) rs (link_port g r st) = Ret (NO_ERROR, st') \<and> ports_ok X st'
          \<or> link_ports g (done @ [r]) rs (link_port g r st) = Ret (ERR_BAD_HANDLE, st') \<and> ports_ok (X - {g}) (set_obj g None st'))"
        by (rule 2(1) [OF o refl]) (use None k [OF o] 2(3,4,5) ne in auto)
      then show ?thesis using o None k(2) [OF o] by simp
    next
      case (Some g')
      then show ?thesis using bad x ReadPort by simp
    qed
  qed (use bad x in simp_all)
qed auto

section \<open>Calls\<close>

text \<open>
  The port calls of a client. A client uses null or the handle of an object it has not begun to
  close (\<open>X\<close> are those being closed), allocation gives unused memory, only a thread that may block
  reads, and the idle thread closes nothing. \<^verbatim>\<open>port_group_remove\<close> is not among them.
\<close>

datatype pop =
  PCreate "nat option" "(nat \<Rightarrow> port_packet) option" "string option" port_mode bool
| POpen "nat option" "(nat \<Rightarrow> port_packet) option" "string option" nat bool
| PGroup "nat option" "nat list option" nat bool
| PAdd "nat option" "nat option"
| PWrite "nat option" "port_packet list option"
| PRead "nat option" u32 bool
| PReadFinish nat u32
| PDestroy "nat option"
| PClose "nat option"
| PCloseFinish nat

definition usable :: "pstate \<Rightarrow> nat set \<Rightarrow> nat option \<Rightarrow> bool" where
  "usable st X h = (case h of None \<Rightarrow> True | Some a \<Rightarrow> obj st a \<noteq> None \<and> a \<notin> X)"

definition unused :: "pstate \<Rightarrow> nat set \<Rightarrow> nat option \<Rightarrow> bool" where
  "unused st X h = (case h of None \<Rightarrow> True
     | Some a \<Rightarrow> obj st a = None \<and> a \<notin> X \<and> wlist (wq (env (krn st)) (PortQ a)) = [])"

fun legal :: "u32 \<Rightarrow> pop \<Rightarrow> pstate \<times> nat set \<Rightarrow> bool" where
  "legal now (PCreate wmem bmem name mode out) (st, X) = unused st X wmem"
| "legal now (POpen rmem bmem name ctx out) (st, X) = unused st X rmem"
| "legal now (PGroup gmem ports cnt out) (st, X) =
     (unused st X gmem \<and> (\<forall>r\<in>set (case ports of None \<Rightarrow> [] | Some rs \<Rightarrow> rs). usable st X (Some r)))"
| "legal now (PAdd g r) (st, X) = (usable st X g \<and> usable st X r)"
| "legal now (PWrite w pk) (st, X) = usable st X w"
| "legal now (PRead p timeout out) (st, X) = (usable st X p \<and> may_block (krn st))"
| "legal now (PReadFinish a timeout) (st, X) =
     (usable st X (Some a) \<and> may_block (snd (wait_queue_block_finish now timeout (krn st))))"
| "legal now (PDestroy p) (st, X) = usable st X p"
| "legal now (PClose p) (st, X) = (usable st X p \<and> not_idle (krn st))"
| "legal now (PCloseFinish a) (st, X) = (a \<in> X)"

definition omap :: "('a \<Rightarrow> 'b) \<Rightarrow> 'a outcome \<Rightarrow> 'b outcome" where
  "omap f x = (case x of Ret y \<Rightarrow> Ret (f y) | Fault \<Rightarrow> Fault | Hang \<Rightarrow> Hang)"

text \<open>A call that did not complete the closing of its port leaves it in \<open>X\<close>.\<close>

fun pcall :: "u32 \<Rightarrow> pop \<Rightarrow> pstate \<times> nat set \<Rightarrow> (pstate \<times> nat set) outcome" where
  "pcall now (PCreate wmem bmem name mode out) (st, X) = Ret (snd (snd (port_create wmem bmem name mode out st)), X)"
| "pcall now (POpen rmem bmem name ctx out) (st, X) = Ret (snd (snd (port_open rmem bmem name ctx out st)), X)"
| "pcall now (PGroup gmem ports cnt out) (st, X) = omap (\<lambda>(r, p, st). (st, X)) (port_group gmem ports cnt out st)"
| "pcall now (PAdd g r) (st, X) = omap (\<lambda>(e, st). (st, X)) (port_group_add now g r st)"
| "pcall now (PWrite w pk) (st, X) = omap (\<lambda>(e, st). (st, X)) (port_write now w pk st)"
| "pcall now (PRead p timeout out) (st, X) = omap (\<lambda>(e, res, st). (st, X)) (port_read now p timeout out st)"
| "pcall now (PReadFinish a timeout) (st, X) = omap (\<lambda>(e, res, st). (st, X)) (port_read_finish now a timeout st)"
| "pcall now (PDestroy p) (st, X) = omap (\<lambda>(e, st). (st, X)) (port_destroy now p st)"
| "pcall now (PClose p) (st, X) = omap (\<lambda>(e, st). (st, if e = Blocked then X \<union> set_option p else X)) (port_close now p st)"
| "pcall now (PCloseFinish a) (st, X) = Ret (snd (port_close_finish a st), X - {a})"

definition closing_ok :: "pstate \<Rightarrow> nat set \<Rightarrow> bool" where
  "closing_ok st X \<longleftrightarrow> (\<forall>a\<in>X. (\<exists>rp. obj st a = Some (ReadPort rp)) \<or> (\<exists>rs. obj st a = Some (PortGroup rs)))"

definition port_inv :: "pstate \<times> nat set \<Rightarrow> bool" where
  "port_inv = (\<lambda>(st, X). ports_ok X st \<and> kernel_inv (krn st) \<and> closing_ok st X)"

lemma port_inv_krn: "port_inv (st, X) \<Longrightarrow> kernel_inv K \<Longrightarrow> port_inv (st\<lparr>krn := K\<rparr>, X)"
  by (simp add: port_inv_def closing_ok_def)

text \<open>Objects keep their kind.\<close>

lemma closing_ok_set:
  "closing_ok st X \<Longrightarrow> a \<notin> X \<or> (\<exists>rp. x = Some (ReadPort rp)) \<or> (\<exists>rs. x = Some (PortGroup rs)) \<Longrightarrow> closing_ok (set_obj a x st) X"
  by (auto simp: closing_ok_def)

lemma create_safe:
  assumes i: "port_inv (st, X)" and u: "unused st X wmem"
  shows "port_inv (snd (snd (port_create wmem bmem name mode out st)), X)"
proof -
  have "port_inv ((set_obj a (Some (WritePort \<lparr>wopen = True, wbuf = Some b, wreaders = [], wmode = mode, wname = nm\<rparr>)) st)
      \<lparr>write_port_list := write_port_list st @ [a]\<rparr>, X)"
    if "wmem = Some a" "make_buf bmem big = Some b" "find (\<lambda>a. name_of st a = Some nm) (write_port_list st) = None"
    for a b big nm
    using create_ok [of X st a b nm mode] make_buf_ok(1) [OF that(2)] i u that(1,3)
    by (auto simp: port_inv_def unused_def closing_ok_def)
  then show ?thesis using i by (auto simp: port_create_def split: option.splits port_obj.splits)
qed

lemma find_port:
  assumes "ports_ok X st" and "obj st w = Some (WritePort wp)"
  shows "find (\<lambda>a. name_of st a = Some (wname wp)) (write_port_list st) = Some w"
proof -
  have m: "w \<in> set (write_port_list st)" "name_of st w = Some (wname wp)"
    using ports_okD(2) [OF assms(1), of w] assms(2) by (auto simp: name_of_def)
  show ?thesis
  proof (cases "find (\<lambda>a. name_of st a = Some (wname wp)) (write_port_list st)")
    case None
    then show ?thesis using m by (auto simp: find_None_iff)
  next
    case (Some v)
    then have "v \<in> set (write_port_list st)" "name_of st v = name_of st w" using m by (auto simp: find_Some_iff)
    then show ?thesis using Some m(1) inj_onD [OF ports_okD(3) [OF assms(1)], of v w] by simp
  qed
qed

lemma open_safe:
  assumes i: "port_inv (st, X)" and u: "unused st X rmem"
  shows "port_inv (snd (snd (port_open rmem bmem name ctx out st)), X)"
proof -
  have k: "st\<lparr>krn := on_sched (wait_queue_init (PortQ r)) (krn st)\<rparr> = st" if "rmem = Some r" for r
    using init_queue_same [of "krn st" "PortQ r"] i u that by (simp add: port_inv_def unused_def)
  have one: "port_inv (set_obj r (Some (ReadPort \<lparr>rbuf = Some b, rctx = ctx, wport = Some w, gport = None\<rparr>))
      (set_obj w (Some (WritePort (wp\<lparr>wbuf := None, wreaders := wreaders wp @ [r]\<rparr>))) st), X)"
    if r: "rmem = Some r" and w: "obj st w = Some (WritePort wp)"
      and b: "wbuf wp = Some b \<or> wbuf wp = None \<and> wmode wp AND PORT_MODE_UNICAST = 0 \<and> make_buf bmem False = Some b"
    for r w wp b
  proof -
    have "buf_ok b" using b make_buf_ok(1) ports_okD(4) [of X st w wp] i w by (auto simp: port_inv_def wport_ok_def)
    then show ?thesis
      using reader_opens_ok [of X st r w wp b ctx] i u r w b
      by (auto simp: port_inv_def unused_def closing_ok_def)
  qed
  have two: "port_inv (set_obj r (Some (ReadPort \<lparr>rbuf = Some b, rctx = ctx, wport = Some w, gport = None\<rparr>))
      (set_obj w (Some (WritePort (wp\<lparr>wreaders := wreaders wp @ [r]\<rparr>))) st), X)"
    if "rmem = Some r" "obj st w = Some (WritePort wp)"
      "wbuf wp = None" "wmode wp AND PORT_MODE_UNICAST = 0" "make_buf bmem False = Some b"
    for r w wp b
  proof -
    have "wp\<lparr>wbuf := None, wreaders := wreaders wp @ [r]\<rparr> = wp\<lparr>wreaders := wreaders wp @ [r]\<rparr>"
      using that(3) by (cases wp) simp
    then show ?thesis using one [OF that(1,2), of b] that(3-5) by metis
  qed
  show ?thesis
    using i k one two by (auto simp: port_open_def Let_def split: option.splits port_obj.splits)
qed

text \<open>Linking changes no kind of object.\<close>

definition same_kind :: "port_obj option \<Rightarrow> port_obj option \<Rightarrow> bool" where
  "same_kind x y \<longleftrightarrow> (case x of None \<Rightarrow> y = None
     | Some (WritePort wp) \<Rightarrow> (\<exists>wp'. y = Some (WritePort wp'))
     | Some (ReadPort rp) \<Rightarrow> (\<exists>rp'. y = Some (ReadPort rp'))
     | Some (PortGroup rs) \<Rightarrow> (\<exists>rs'. y = Some (PortGroup rs')))"

lemma same_kind_refl [simp]: "same_kind x x"
  by (auto simp: same_kind_def split: option.splits port_obj.splits)

lemma same_kind_trans: "same_kind x y \<Longrightarrow> same_kind y z \<Longrightarrow> same_kind x z"
  by (auto simp: same_kind_def split: option.splits port_obj.splits)

lemma same_kind_map [simp]: "same_kind x (map_rport f x)"
  by (auto simp: same_kind_def map_rport_def split: option.splits port_obj.splits)

lemma closing_ok_kind:
  assumes "closing_ok st X" and "\<And>a. a \<in> X \<Longrightarrow> same_kind (obj st a) (obj st' a)"
  shows "closing_ok st' X"
  unfolding closing_ok_def
proof
  fix a assume "a \<in> X"
  then show "(\<exists>rp. obj st' a = Some (ReadPort rp)) \<or> (\<exists>rs. obj st' a = Some (PortGroup rs))"
    using assms(1) assms(2) [OF \<open>a \<in> X\<close>] unfolding closing_ok_def same_kind_def by fastforce
qed

lemma link_port_kind: "same_kind (obj st a) (obj (link_port g r st) a)"
proof -
  let ?u = "upd_rport r (\<lambda>rp. rp\<lparr>gport := Some g\<rparr>) st"
  have "same_kind (obj st a) (obj ?u a)" by (simp add: upd_rport_eq)
  moreover have "same_kind (obj ?u a) (obj (link_port g r st) a)"
    by (auto simp: link_port_def Let_def same_kind_def split: option.splits port_obj.splits)
  ultimately show ?thesis by (rule same_kind_trans)
qed

lemma link_ports_kind:
  "link_ports g done rs st = Ret (rc, st') \<Longrightarrow> same_kind (obj st a) (obj st' a)"
proof (induction g "done" rs st rule: link_ports.induct)
  case (2 g "done" r rs st)
  show ?case
  proof (cases "\<exists>rp. obj st r = Some (ReadPort rp) \<and> gport rp = None")
    case True
    then obtain rp where rp: "obj st r = Some (ReadPort rp)" "gport rp = None" by blast
    then have "same_kind (obj (link_port g r st) a) (obj st' a)" using 2(1) [OF rp(1) refl] 2(2) by simp
    then show ?thesis using same_kind_trans [OF link_port_kind] by blast
  next
    case False
    then have "st' = clear_gports done st"
      using 2(2) by (auto split: option.splits port_obj.splits if_splits)
    then show ?thesis by (simp add: clear_gports_obj)
  qed
qed simp

lemma group_safe:
  assumes i: "port_inv (st, X)" and l: "legal now (PGroup gmem ports cnt out) (st, X)"
  shows "\<exists>r p st'. port_group gmem ports cnt out st = Ret (r, p, st') \<and> port_inv (st', X)"
proof -
  let ?rs = "take cnt (case ports of None \<Rightarrow> [] | Some rs \<Rightarrow> rs)"
  have main: "\<exists>r p st'. (case link_ports g [] ?rs (set_obj g (Some (PortGroup [])) st) of
         Ret (rc, st) \<Rightarrow> if rc = NO_ERROR then Ret (rc, Some g, st) else Ret (rc, None, set_obj g None st)
       | Fault \<Rightarrow> Fault | Hang \<Rightarrow> Hang) = Ret (r, p, st') \<and> port_inv (st', X)"
    if g: "gmem = Some g" and c: "cnt \<le> MAX_PORT_GROUP_COUNT" for g
  proof -
    let ?st = "set_obj g (Some (PortGroup [])) st"
    have f: "obj st g = None" "g \<notin> X" using l g by (simp_all add: unused_def)
    have p: "ports_ok X ?st" using new_group_ok [OF _ f(1)] i by (simp add: port_inv_def)
    have "\<forall>r\<in>set ?rs. obj ?st r \<noteq> None \<and> r \<notin> X" using l by (auto simp: usable_def dest: in_set_takeD)
    then obtain st' where st': "krn st' = krn st"
        "link_ports g [] ?rs ?st = Ret (NO_ERROR, st') \<and> ports_ok X st'
          \<or> link_ports g [] ?rs ?st = Ret (ERR_BAD_HANDLE, st') \<and> ports_ok (X - {g}) (set_obj g None st')"
      using link_ports_ok [OF p, of g "[]" ?rs] min.coboundedI2 [OF c, of "length (case ports of None \<Rightarrow> [] | Some rs \<Rightarrow> rs)"]
      by auto
    have "X - {g} = X" using f(2) by simp
    moreover have "closing_ok st X" using i by (simp add: port_inv_def)
    moreover have "closing_ok st' X" if "link_ports g [] ?rs ?st = Ret (rc, st')" for rc
      using closing_ok_kind [OF closing_ok_set [of st X g] link_ports_kind [OF that]] calculation(2) f by blast
    ultimately show ?thesis using st' i f(2) by (auto simp: port_inv_def closing_ok_set)
  qed
  have k: "st\<lparr>krn := on_sched (wait_queue_init (PortQ g)) (krn st)\<rparr> = st" if "gmem = Some g" for g
    using init_queue_same [of "krn st" "PortQ g"] i l that by (simp add: port_inv_def unused_def)
  show ?thesis
    using i main k by (cases gmem) (auto simp: port_group_def Let_def)
qed

lemma add_safe:
  assumes i: "port_inv (st, X)" and l: "usable st X grp" "usable st X port"
  shows "\<exists>e st'. port_group_add now grp port st = Ret (e, st') \<and> port_inv (st', X)"
proof -
  have main: "\<exists>K. port_group_add now (Some g) (Some r) st = Ret (NO_ERROR, (link_port g r st)\<lparr>krn := K\<rparr>)
      \<and> port_inv ((link_port g r st)\<lparr>krn := K\<rparr>, X)"
    if h: "grp = Some g" "port = Some r" and g: "obj st g = Some (PortGroup rs)" and r: "obj st r = Some (ReadPort rp)"
      and c: "gport rp = None" "length rs \<noteq> MAX_PORT_GROUP_COUNT" for g r rs rp
  proof -
    have p: "ports_ok X st" "kernel_inv (krn st)" "closing_ok st X" "r \<notin> X"
      using i l(2) h by (simp_all add: port_inv_def usable_def)
    have "length rs < MAX_PORT_GROUP_COUNT"
      using ports_okD(6) [OF p(1) g] c(2) by (simp add: group_ok_def)
    note k = link_ok [OF p(1) r p(4) c(1) g this]
    obtain b where b: "rbuf rp = Some b" using ports_okD(5) [OF p(1) r p(4)] by (auto simp: rport_ok_def)
    have kr: "krn (link_port g r st) = krn st" using k(2) by simp
    have inv: "port_inv ((link_port g r st)\<lparr>krn := K\<rparr>, X)" if "kernel_inv K" for K
      using k(1) that closing_ok_kind [OF p(3) link_port_kind] by (simp add: port_inv_def closing_ok_def)
    obtain n K where K: "wait_queue_wake_one now (PortQ g) False NO_ERROR (krn st) = Ret (n, K)" "kernel_inv K"
      using wake_one_safe [OF p(2), of now "PortQ g" NO_ERROR] by blast
    show ?thesis
    proof (cases "buf_is_empty b")
      case True
      then show ?thesis using g r c b inv [OF p(2)] kr
        by (intro exI [of _ "krn st"]) (simp add: port_group_add_def Let_def)
    next
      case False
      then show ?thesis using g r c b inv [OF K(2)] kr K(1)
        by (intro exI [of _ K]) (simp add: port_group_add_def Let_def)
    qed
  qed
  show ?thesis
  proof (cases grp)
    case (Some g)
    then obtain x where x: "obj st g = Some x" using l(1) by (auto simp: usable_def)
    show ?thesis
    proof (cases port)
      case (Some r)
      then obtain y where y: "obj st r = Some y" using l(2) by (auto simp: usable_def)
      show ?thesis
        using main [OF \<open>grp = Some g\<close> Some] x y i \<open>grp = Some g\<close> Some
        by (cases x; cases y) (force simp: port_group_add_def)+
    qed (use i \<open>grp = Some g\<close> in \<open>simp add: port_group_add_def\<close>)
  qed (use i in \<open>simp add: port_group_add_def\<close>)
qed

lemma deliver_kind: "same_kind x (deliver pk x)"
  by (simp add: deliver_def)

lemma write_safe:
  assumes i: "port_inv (st, X)" and l: "usable st X port"
  shows "\<exists>e st'. port_write now port pk st = Ret (e, st') \<and> port_inv (st', X)"
proof (cases "port = None \<or> pk = None \<or> (\<forall>w wp. port = Some w \<longrightarrow> obj st w = Some (WritePort wp) \<longrightarrow> \<not> wopen wp)")
  case True
  then show ?thesis using i l
    by (auto simp: port_write_def usable_def split: option.splits port_obj.splits)
next
  case False
  then obtain w wp ps where w: "port = Some w" "obj st w = Some (WritePort wp)" "wopen wp" "pk = Some ps" by auto
  have p: "ports_ok X st" "kernel_inv (krn st)" "closing_ok st X" and nx: "w \<notin> X"
    using i l w by (auto simp: port_inv_def usable_def)
  note wo = ports_okD(4) [OF p(1) w(2)]
  show ?thesis
  proof (cases "wbuf wp")
    case None
    have "\<forall>r\<in>set (wreaders wp). r \<notin> X \<and> (\<exists>rp. obj st r = Some (ReadPort rp))" "distinct (wreaders wp)"
      using wo by (auto simp: wport_ok_def)
    from write_readers_ok [OF p(1,2) this(2,1), of now ps NO_ERROR 0]
    obtain e n st' where st': "write_readers now ps (wreaders wp) NO_ERROR 0 st = Ret (e, n, st')"
        "ports_ok X st'" "kernel_inv (krn st')"
        "obj st' = (\<lambda>a. if a \<in> set (wreaders wp) then deliver ps (obj st a) else obj st a)"
      by blast
    have "closing_ok st' X" using closing_ok_kind [OF p(3), of st'] unfolding st'(4) by (simp add: deliver_kind)
    then have inv: "port_inv (st', X)" using st' by (simp add: port_inv_def)
    obtain K where "thread_yield now (krn st') = Ret K" "kernel_inv K" using thread_yield_inv [OF st'(3)] by blast
    then show ?thesis
      using w None st'(1) inv port_inv_krn [OF inv] by (cases "n = 0") (auto simp: port_write_def)
  next
    case (Some b)
    obtain e b' where e: "buf_write ps b = (e, b')" by fastforce
    have "buf_ok b" using wo Some by (simp add: wport_ok_def)
    then have "buf_ok b'" using pbuf.write_status(2) [of b ps] e by simp
    then have "ports_ok X (set_obj w (Some (WritePort (wp\<lparr>wbuf := Some b'\<rparr>))) st)"
      by (intro ports_ok_wport [OF p(1) w(2)]) (use Some in auto)
    then show ?thesis
      using w Some e p(2) closing_ok_set [OF p(3)] nx by (simp add: port_write_def port_inv_def)
  qed
qed

lemma taken_kind: "same_kind (obj st a) (obj (taken r st) a)"
  by (simp add: taken_def upd_rport_eq)

lemma block_on_safe:
  assumes i: "port_inv (st, X)" and m: "may_block (krn st)"
  shows "\<exists>e res' st'. block_on now a timeout res st = Ret (e, res', st') \<and> port_inv (st', X)"
proof -
  have k: "kernel_inv (krn st)" using i by (simp add: port_inv_def)
  obtain p K where K: "wait_queue_block now (PortQ a) timeout (krn st) = Ret (p, K)" "kernel_inv K"
    using block_returns [OF k m, of now "PortQ a" timeout] block_inv [OF k m] by blast
  then show ?thesis using port_inv_krn [OF i] by (simp add: block_on_def)
qed

lemma taken_safe:
  assumes "port_inv (st, X)" and "obj st r = Some (ReadPort rp)" and "r \<notin> X"
  shows "port_inv (taken r st, X)"
  using assms read_now_ok(2,3) [of X st r rp] closing_ok_kind [OF _ taken_kind, of st X r]
  by (simp add: port_inv_def)

lemma read_safe:
  assumes i: "port_inv (st, X)" and l: "usable st X port" and m: "may_block (krn st)"
  shows "\<exists>e res st'. port_read now port timeout out st = Ret (e, res, st') \<and> port_inv (st', X)"
proof (cases "port = None \<or> \<not> out \<or> (\<exists>a wp. port = Some a \<and> obj st a = Some (WritePort wp))")
  case True
  then show ?thesis using i by (auto simp: port_read_def split: option.splits)
next
  case False
  then obtain a x where a: "port = Some a" "out" "obj st a = Some x" "a \<notin> X" "\<And>wp. x \<noteq> WritePort wp"
    using l by (auto simp: usable_def)
  have p: "ports_ok X st" using i by (simp add: port_inv_def)
  show ?thesis
  proof (cases x)
    case (ReadPort rp)
    then have o: "obj st a = Some (ReadPort rp)" using a by simp
    note n = read_now_ok(1) [OF p o a(4)] and t = taken_safe [OF i o a(4)]
    show ?thesis
      using a(1,2) o n t i block_on_safe [OF i m, of now a timeout "Some (rctx rp, None)"]
      by (cases "queue_at st a"; cases "timeout = 0") (auto simp: port_read_def)
  next
    case (PortGroup rs)
    then have o: "obj st a = Some (PortGroup rs)" using a by simp
    then have "\<forall>r\<in>set rs. r \<notin> X \<and> (\<exists>rp. obj st r = Some (ReadPort rp))"
      using ports_okD(6) [OF p o] by (auto simp: group_ok_def)
    note g = read_group_ok [OF p this, of None]
    show ?thesis
    proof (cases "find (\<lambda>r. queue_at st r \<noteq> []) rs")
      case None
      then obtain res where "read_group rs None st = Ret (ERR_TIMED_OUT, res, st)" using g by auto
      then show ?thesis using a(1,2) o block_on_safe [OF i m, of now a timeout res] by (simp add: port_read_def)
    next
      case (Some r)
      then have "r \<in> set rs" by (auto simp: find_Some_iff)
      then have "r \<notin> X" using ports_okD(6) [OF p o] by (auto simp: group_ok_def)
      then show ?thesis using g Some a(1,2) o taken_safe [OF i] by (auto simp: port_read_def)
    qed
  qed (use a in simp)
qed

lemma read_finish_safe:
  assumes i: "port_inv (st, X)" and l: "usable st X (Some a)"
    and m: "may_block (snd (wait_queue_block_finish now timeout (krn st)))"
  shows "\<exists>e res st'. port_read_finish now a timeout st = Ret (e, res, st') \<and> port_inv (st', X)"
proof -
  obtain wr K where K: "wait_queue_block_finish now timeout (krn st) = (wr, K)" by fastforce
  then have "kernel_inv K" using wait_queue_block_finish_inv i by (auto simp: port_inv_def)
  note j = port_inv_krn [OF i this]
  have "usable (st\<lparr>krn := K\<rparr>) X (Some a)" using l by (simp add: usable_def)
  then show ?thesis
    using K j m read_safe [OF j, of "Some a" now timeout True] by (simp add: port_read_finish_def Let_def)
qed

lemma orphan_kind: "a \<noteq> w \<Longrightarrow> same_kind (obj st a) (obj (orphan w rs st) a)"
  by (simp add: orphan_def)

lemma destroy_safe:
  assumes i: "port_inv (st, X)" and l: "usable st X port"
  shows "\<exists>e st'. port_destroy now port st = Ret (e, st') \<and> port_inv (st', X)"
proof (cases "port = None \<or> (\<forall>w wp. port = Some w \<longrightarrow> obj st w = Some (WritePort wp) \<longrightarrow> wopen wp)")
  case True
  then show ?thesis using i l by (auto simp: port_destroy_def usable_def split: option.splits port_obj.splits)
next
  case False
  then obtain w wp where w: "port = Some w" "obj st w = Some (WritePort wp)" "\<not> wopen wp" by auto
  have p: "ports_ok X st" "kernel_inv (krn st)" "closing_ok st X" and nx: "w \<notin> X"
    using i l w by (auto simp: port_inv_def usable_def)
  let ?rs = "wreaders wp"
  let ?st = "st\<lparr>write_port_list := remove1 w (write_port_list st)\<rparr>"
  note wo = ports_okD(4) [OF p(1) w(2)]
  have "\<exists>rp. obj st r = Some (ReadPort rp) \<and> (\<forall>g. gport rp = Some g \<longrightarrow> (\<exists>gs. obj st g = Some (PortGroup gs)))"
    if "r \<in> set ?rs" for r
  proof -
    obtain rp where rp: "obj st r = Some (ReadPort rp)" "r \<notin> X" using wo \<open>r \<in> set ?rs\<close> by (auto simp: wport_ok_def)
    then show ?thesis using ports_okD(5) [OF p(1) rp] by (auto simp: rport_ok_def)
  qed
  moreover have "distinct ?rs" "wbuf wp = None \<or> ?rs = []" using wo by (auto simp: wport_ok_def)
  moreover have o: "obj ?st = obj st" "krn ?st = krn st" by simp_all
  ultimately obtain K where K: "cancel_readers now ?rs ?st = Ret (?st\<lparr>krn := K,
      obj := (\<lambda>a. if a \<in> set ?rs then map_rport (\<lambda>rp. rp\<lparr>wport := None\<rparr>) (obj st a) else obj st a)\<rparr>)" "kernel_inv K"
    using cancel_readers_ok [of ?st ?rs now, unfolded o] p(2) by blast
  have "closing_ok (orphan w ?rs st) X"
    by (rule closing_ok_kind [OF p(3)], rule orphan_kind) (use nx in auto)
  then have "port_inv (orphan w ?rs st, X)"
    using orphan_ok [OF p(1) w(2)] p(2) by (simp add: port_inv_def orphan_def)
  note inv = this port_inv_krn [OF this K(2)]
  show ?thesis
  proof (cases "wbuf wp")
    case None
    then have "port_destroy now port st = Ret (NO_ERROR, (orphan w ?rs st)\<lparr>krn := K\<rparr>)"
      using w K(1) by (simp add: port_destroy_def orphan_def set_obj_def Let_def)
    then show ?thesis using inv(2) by blast
  next
    case (Some b)
    then have "?rs = []" using wo by (simp add: wport_ok_def)
    then have "port_destroy now port st = Ret (NO_ERROR, orphan w ?rs st)"
      using w Some by (simp add: port_destroy_def orphan_def set_obj_def Let_def)
    then show ?thesis using inv(1) by blast
  qed
qed

lemma close_finish_safe:
  assumes i: "port_inv (st, X)" and a: "a \<in> X \<or> (\<exists>rs. obj st a = Some (PortGroup rs))"
  shows "port_inv (snd (port_close_finish a st), X - {a})"
proof (cases "\<exists>rs. obj st a = Some (PortGroup rs)")
  case True
  then obtain rs where rs: "obj st a = Some (PortGroup rs)" by blast
  have "closing_ok (set_obj a None (clear_gports rs st)) (X - {a})"
    using i unfolding port_inv_def closing_ok_def by (auto simp: clear_gports_obj map_rport_def split: option.splits port_obj.splits)
  then show ?thesis using i rs drop_group_ok [of X st a rs]
    by (simp add: port_close_finish_def port_inv_def clear_gports_obj)
next
  case False
  then obtain rp where rp: "obj st a = Some (ReadPort rp)" "a \<in> X" using i a by (auto simp: port_inv_def closing_ok_def)
  have "closing_ok (set_obj a None st) (X - {a})" using i by (auto simp: port_inv_def closing_ok_def)
  then show ?thesis using i rp closing_irrelevant [of X st a rp None "X - {a}"]
    by (simp add: port_close_finish_def port_inv_def)
qed

lemma close_waiters_safe:
  assumes i: "port_inv (st, insert a X)" and n: "not_idle (krn st)" and a: "a \<notin> X"
  shows "\<exists>e st'. close_waiters now a st = Ret (e, st') \<and> port_inv (st', if e = Blocked then insert a X else X)"
proof -
  obtain m K where K: "wait_queue_wake_all now (PortQ a) True ERR_OBJECT_DESTROYED (krn st) = Ret (m, K)" "kernel_inv K"
    using wake_all_safe [of "krn st" True now "PortQ a" ERR_OBJECT_DESTROYED] i n by (auto simp: port_inv_def)
  note j = port_inv_krn [OF i K(2)]
  have "port_inv (snd (port_close_finish a (st\<lparr>krn := K\<rparr>)), X)" using close_finish_safe [OF j, of a] a by simp
  then show ?thesis
    using K(1) j by (auto simp: close_waiters_def wait_queue_destroy_def port_close_finish_def Let_def)
qed

lemma leave_kind:
  assumes "leave_wport r rp st = Ret st1" and "leave_group r rp st1 = Ret st2" and "obj st r = Some (ReadPort rp)"
  shows "same_kind (obj st a) (obj st2 a)"
proof -
  have "same_kind (obj st a) (obj st1 a)"
    using assms(1,3) by (auto simp: leave_wport_def same_kind_def Let_def split: option.splits port_obj.splits if_splits)
  moreover have "same_kind (obj st1 a) (obj st2 a)"
    using assms(2) by (auto simp: leave_group_def same_kind_def split: option.splits port_obj.splits if_splits)
  ultimately show ?thesis by (rule same_kind_trans)
qed

lemma group_closing:
  assumes i: "ports_ok X st" and g: "obj st g = Some (PortGroup rs)"
  shows "ports_ok (insert g X) st"
  using i g unfolding ports_ok_def port_ok_defs by fastforce

lemma close_safe:
  assumes i: "port_inv (st, X)" and l: "usable st X port" and n: "not_idle (krn st)"
  shows "\<exists>e st'. port_close now port st = Ret (e, st') \<and> port_inv (st', if e = Blocked then X \<union> set_option port else X)"
proof (cases port)
  case None
  then show ?thesis using i by (simp add: port_close_def)
next
  case (Some a)
  then obtain x where x: "obj st a = Some x" "a \<notin> X" using l by (auto simp: usable_def)
  have p: "ports_ok X st" "kernel_inv (krn st)" "closing_ok st X" using i by (simp_all add: port_inv_def)
  show ?thesis
  proof (cases x)
    case (WritePort wp)
    have "ports_ok X (set_obj a (Some (WritePort (wp\<lparr>wopen := False\<rparr>))) st)"
      by (rule ports_ok_wport [OF p(1)]) (use x WritePort ports_okD(4) [OF p(1), of a wp] in \<open>auto simp: wport_ok_def\<close>)
    then show ?thesis using Some x WritePort i p closing_ok_set [OF p(3), of a]
      by (auto simp: port_close_def port_inv_def)
  next
    case (ReadPort rp)
    then obtain st1 st2 where s: "leave_wport a rp st = Ret st1" "leave_group a rp st1 = Ret st2"
        "ports_ok (insert a X) st2" "\<exists>rp'. obj st2 a = Some (ReadPort rp')" "krn st2 = krn st"
      using leave_ok [OF p(1) _ x(2)] x(1) by blast
    have "closing_ok st2 X" using closing_ok_kind [OF p(3) leave_kind [OF s(1,2)]] x(1) ReadPort by blast
    then have "port_inv (st2, insert a X)" using s p(2) by (auto simp: port_inv_def closing_ok_def)
    from close_waiters_safe [OF this _ x(2), of now] n s(5)
    obtain e st' where "close_waiters now a st2 = Ret (e, st')" "port_inv (st', if e = Blocked then insert a X else X)"
      by auto
    then show ?thesis using s(1,2) x Some ReadPort by (intro exI [of _ e] exI [of _ st']) (simp add: port_close_def split: if_splits)
  next
    case (PortGroup rs)
    have "port_inv (st, insert a X)"
      using group_closing [OF p(1)] x PortGroup p by (auto simp: port_inv_def closing_ok_def)
    from close_waiters_safe [OF this n x(2), of now]
    obtain e st' where "close_waiters now a st = Ret (e, st')" "port_inv (st', if e = Blocked then insert a X else X)"
      by auto
    then show ?thesis using x Some PortGroup by (intro exI [of _ e] exI [of _ st']) (simp add: port_close_def split: if_splits)
  qed
qed

lemma port_call_returns:
  assumes "port_inv S" and "legal now op S"
  shows "\<exists>S'. pcall now op S = Ret S' \<and> port_inv S'"
proof (cases S)
  case (Pair st X)
  note i = assms(1) [unfolded Pair] and l = assms(2) [unfolded Pair]
  show ?thesis
  proof (cases op)
    case (PCreate wmem bmem name mode out)
    then show ?thesis using create_safe [OF i] l Pair by simp
  next
    case (POpen rmem bmem name ctx out)
    then show ?thesis using open_safe [OF i] l Pair by simp
  next
    case (PGroup gmem ports cnt out)
    then show ?thesis using group_safe [OF i l [unfolded PGroup]] Pair by (auto simp: omap_def)
  next
    case (PAdd g r)
    then show ?thesis using add_safe [OF i, of g r now] l Pair by (auto simp: omap_def)
  next
    case (PWrite w pk)
    then show ?thesis using write_safe [OF i, of w now pk] l Pair by (auto simp: omap_def)
  next
    case (PRead p timeout out)
    then show ?thesis using read_safe [OF i, of p now timeout out] l Pair by (auto simp: omap_def)
  next
    case (PReadFinish a timeout)
    then show ?thesis using read_finish_safe [OF i, of a now timeout] l Pair by (auto simp: omap_def)
  next
    case (PDestroy p)
    then show ?thesis using destroy_safe [OF i, of p now] l Pair by (auto simp: omap_def)
  next
    case (PClose p)
    then show ?thesis using close_safe [OF i, of p now] l Pair by (auto simp: omap_def)
  next
    case (PCloseFinish a)
    then show ?thesis using close_finish_safe [OF i, of a] l Pair by simp
  qed
qed

section \<open>Runs\<close>

text \<open>The calls of the clients mixed with whatever else happens in the kernel.\<close>

inductive port_run :: "pstate \<Rightarrow> pstate \<times> nat set \<Rightarrow> bool" for st0 where
  start: "port_run st0 (port_init st0, {})"
| call: "port_run st0 S \<Longrightarrow> legal now op S \<Longrightarrow> pcall now op S = Ret S' \<Longrightarrow> port_run st0 S'"
| kernel: "port_run st0 (st, X) \<Longrightarrow> kstep now op (krn st) K \<Longrightarrow> port_run st0 (st\<lparr>krn := K\<rparr>, X)"

lemma port_run_inv:
  assumes "port_run st0 S" and "obj st0 = (\<lambda>_. None)" and "kernel_inv (krn st0)"
  shows "port_inv S"
  using assms
proof (induction rule: port_run.induct)
  case start
  then show ?case by (simp add: port_inv_def port_init_def ports_ok_def closing_ok_def)
next
  case (call S now op S')
  then show ?case using port_call_returns [of S now op] by auto
next
  case (kernel st X now op K)
  then show ?case using port_inv_krn [of st X K] kstep_inv by (auto simp: port_inv_def)
qed

text \<open>
  Claim C33: no port call faults. After \<^verbatim>\<open>port_init\<close>, whatever sequence of legal port calls and of
  other scheduler calls and interrupts has happened, every legal call to create, open, group, add,
  write, read, destroy or close, and the second half of a read or close, returns; and it keeps the
  invariants of the port objects (the links between write ports, read ports and groups agree in
  both directions, every buffer is a well-formed ring, names are unique, a unicast port has at most
  one reader) and of the scheduler.
\<close>

theorem port_calls_safe:
  assumes "obj st0 = (\<lambda>_. None)" and "kernel_inv (krn st0)" and "port_run st0 S" and "legal now op S"
  shows "\<exists>S'. pcall now op S = Ret S' \<and> port_inv S'"
  using port_call_returns [OF port_run_inv [OF assms(3,1,2)] assms(4)] .

definition ports0 :: pstate where
  "ports0 = \<lparr>krn = shared_state, obj = (\<lambda>_. None), write_port_list = [], lock_left = False\<rparr>"

theorem port_calls_safe_witness:
  "\<exists>S'. pcall 0 (PCreate (Some 8) (Some (\<lambda>_. [])) (Some ''p'') PORT_MODE_UNICAST True) (port_init ports0, {}) = Ret S'
    \<and> port_inv S'"
  by (rule port_calls_safe [of ports0, OF _ _ port_run.start])
     (simp_all add: ports0_def shared_state_inv port_init_def unused_def, simp add: shared_state_def zero_kernel_def)

section \<open>What a write delivers\<close>

lemma queue_at_deliver:
  assumes "rport_ok st r rp" and "obj st r = Some (ReadPort rp)" and "obj st' r = deliver ps (obj st r)"
  shows "queue_at st' r = queue_at st r @ (if length ps \<le> room (obj st r) then ps else [])"
proof -
  obtain b where b: "rbuf rp = Some b" "buf_ok b" using assms(1) by (auto simp: rport_ok_def)
  show ?thesis using assms(2,3) b pbuf.write_status(4) [OF b(2), of ps]
    by (simp add: queue_at_def deliver_def map_rport_def room_def)
qed

text \<open>
  Claim C34: a write to an open port with readers appends the packets, all or none, to the queue of
  every reader that has room for them and changes no other object; the result is success when all
  readers had room, and \<^verbatim>\<open>ERR_PARTIAL_WRITE\<close> otherwise.
\<close>

theorem port_write_delivers:
  assumes "port_inv (st, X)" and "obj st w = Some (WritePort wp)" and "wopen wp" and "wreaders wp \<noteq> []"
  shows "\<exists>st'. port_write now (Some w) (Some ps) st
      = Ret (if \<exists>r\<in>set (wreaders wp). room (obj st r) < length ps then ERR_PARTIAL_WRITE else NO_ERROR, st')
    \<and> list_all (\<lambda>r. queue_at st' r = queue_at st r @ (if length ps \<le> room (obj st r) then ps else [])) (wreaders wp)
    \<and> obj st' |` (- set (wreaders wp)) = obj st |` (- set (wreaders wp))"
proof -
  have p: "ports_ok X st" "kernel_inv (krn st)" using assms(1) by (simp_all add: port_inv_def)
  note wo = ports_okD(4) [OF p(1) assms(2)]
  have m: "\<forall>r\<in>set (wreaders wp). r \<notin> X \<and> (\<exists>rp. obj st r = Some (ReadPort rp))" "distinct (wreaders wp)" "wbuf wp = None"
    using wo assms(4) by (auto simp: wport_ok_def)
  from write_readers_ok [OF p(1,2) m(2,1), of now ps NO_ERROR 0]
  obtain e n st' where st': "write_readers now ps (wreaders wp) NO_ERROR 0 st = Ret (e, n, st')"
      "e = (if \<exists>r\<in>set (wreaders wp). room (obj st r) < length ps then ERR_PARTIAL_WRITE else NO_ERROR)"
      "kernel_inv (krn st')" "obj st' = (\<lambda>a. if a \<in> set (wreaders wp) then deliver ps (obj st a) else obj st a)"
    by blast
  obtain K where K: "thread_yield now (krn st') = Ret K" using thread_yield_inv [OF st'(3)] by blast
  define st2 where "st2 = (if n = 0 then st' else st'\<lparr>krn := K\<rparr>)"
  have r: "port_write now (Some w) (Some ps) st = Ret (e, st2)"
    using assms(2,3) m(3) st'(1) K by (simp add: port_write_def st2_def)
  have o: "obj st2 = obj st'" by (simp add: st2_def)
  have q: "queue_at st2 r = queue_at st r @ (if length ps \<le> room (obj st r) then ps else [])"
    if mem: "r \<in> set (wreaders wp)" for r
  proof -
    obtain rp where rp: "r \<notin> X" "obj st r = Some (ReadPort rp)" using m(1) mem by blast
    show ?thesis by (rule queue_at_deliver [OF ports_okD(5) [OF p(1) rp(2,1)] rp(2)]) (use o st'(4) mem in simp)
  qed
  have "obj st2 |` (- set (wreaders wp)) = obj st |` (- set (wreaders wp))"
    unfolding o st'(4) by (auto simp: restrict_map_def)
  then show ?thesis using r q unfolding st'(2) list_all_iff by blast
qed

section \<open>From the writer to the first reader\<close>

text \<open>Reading without waiting until the packets asked for have been read.\<close>

fun port_reads :: "u32 \<Rightarrow> nat \<Rightarrow> nat \<Rightarrow> pstate \<Rightarrow> (port_packet list \<times> pstate) outcome" where
  "port_reads now r 0 st = Ret ([], st)"
| "port_reads now r (Suc n) st =
     (case port_read now (Some r) 0 True st of
        Ret (e, Some (c, Some p), st) \<Rightarrow> omap (\<lambda>(ps, st). (p # ps, st)) (port_reads now r n st)
      | Ret (e, res, st) \<Rightarrow> Ret ([], st)
      | Fault \<Rightarrow> Fault | Hang \<Rightarrow> Hang)"

lemma port_read_fifo:
  assumes "port_inv (st, X)" and "obj st r = Some (ReadPort rp)" and "r \<notin> X" and "queue_at st r = p # ps"
  shows "port_read now (Some r) timeout True st = Ret (Done NO_ERROR, Some (rctx rp, Some p), taken r st)"
    and "port_inv (taken r st, X)" and "\<exists>rp'. obj (taken r st) r = Some (ReadPort rp')"
    and "queue_at (taken r st) r = ps"
proof -
  have p: "ports_ok X st" using assms(1) by (simp add: port_inv_def)
  note n = read_now_ok [OF p assms(2,3)]
  show "port_read now (Some r) timeout True st = Ret (Done NO_ERROR, Some (rctx rp, Some p), taken r st)"
    using n(1) assms(2,4) by (simp add: port_read_def)
  show "port_inv (taken r st, X)" using taken_safe assms by blast
  show "\<exists>rp'. obj (taken r st) r = Some (ReadPort rp')" using assms(2) by (simp add: taken_def upd_rport_def)
  show "queue_at (taken r st) r = ps" using n(4) assms(4) by simp
qed

lemma port_reads_fifo:
  assumes "port_inv (st, X)" and "obj st r = Some (ReadPort rp)" and "r \<notin> X" and "queue_at st r = ps @ qs"
  shows "\<exists>st'. port_reads now r (length ps) st = Ret (ps, st') \<and> queue_at st' r = qs"
  using assms
proof (induction ps arbitrary: st rp)
  case (Cons p ps)
  have q: "queue_at st r = p # (ps @ qs)" using Cons.prems(4) by simp
  note f = port_read_fifo [OF Cons.prems(1-3) q]
  obtain rp' where "obj (taken r st) r = Some (ReadPort rp')" using f(3) by blast
  then obtain st' where "port_reads now r (length ps) (taken r st) = Ret (ps, st')" "queue_at st' r = qs"
    using Cons.IH [OF f(2) _ Cons.prems(3) f(4)] by blast
  then show ?case using f(1) [of now 0] by (simp add: omap_def)
qed simp

text \<open>
  Packets written to a port before it has a reader are not lost: when they fit, the write
  succeeds, the first reader to open the port by its name gets the buffer, and reading returns
  what was queued before followed by the packets written, in order.
\<close>

theorem port_roundtrip:
  assumes "port_inv (st, X)" and "obj st w = Some (WritePort wp)" and "wopen wp" and "wbuf wp = Some b"
    and "length ps \<le> buf_cap b - length (buf_queue b)" and "unused st X (Some r)" and "make_buf mem False \<noteq> None"
  shows "\<exists>st1 st2 st3. port_write now (Some w) (Some ps) st = Ret (NO_ERROR, st1)
    \<and> port_open (Some r) mem (Some (wname wp)) ctx True st1 = (NO_ERROR, Some r, st2)
    \<and> port_reads now r (length (buf_queue b) + length ps) st2 = Ret (buf_queue b @ ps, st3)
    \<and> queue_at st3 r = []"
proof -
  have p: "ports_ok X st" "kernel_inv (krn st)" using assms(1) by (simp_all add: port_inv_def)
  note wo = ports_okD(4) [OF p(1) assms(2)]
  have bo: "buf_ok b" "wreaders wp = []" using wo assms(4) by (auto simp: wport_ok_def)
  obtain b' where b': "buf_write ps b = (NO_ERROR, b')" "buf_ok b'" "buf_queue b' = buf_queue b @ ps"
    using pbuf.write_fits [OF bo(1) assms(5)] by blast
  let ?wp = "wp\<lparr>wbuf := Some b'\<rparr>"
  define st1 where "st1 = set_obj w (Some (WritePort ?wp)) st"
  have w1: "port_write now (Some w) (Some ps) st = Ret (NO_ERROR, st1)"
    using assms(2-4) b'(1) by (simp add: port_write_def st1_def)
  have rw: "r \<noteq> w" using assms(2,6) by (auto simp: unused_def)
  have nw: "w \<notin> X" using assms(1,2) by (auto simp: port_inv_def closing_ok_def)
  have u: "unused st1 X (Some r)" using assms(6) rw by (simp add: unused_def st1_def)
  have i1: "port_inv (st1, X)"
    using write_safe [OF assms(1), of "Some w" now "Some ps"] w1 assms(2) nw by (auto simp: usable_def)
  have o1: "obj st1 w = Some (WritePort ?wp)" by (simp add: st1_def)
  have p1: "ports_ok X st1" using i1 by (simp add: port_inv_def)
  have f: "find (\<lambda>a. name_of st1 a = Some (wname wp)) (write_port_list st1) = Some w"
    using find_port [OF p1 o1] by simp
  obtain sm where sm: "make_buf mem False = Some sm" using assms(7) by blast
  have k: "st1\<lparr>krn := on_sched (wait_queue_init (PortQ r)) (krn st1)\<rparr> = st1"
    using init_queue_same [of "krn st1" "PortQ r"] i1 u by (simp add: port_inv_def unused_def)
  define rp where "rp = \<lparr>rbuf = Some b', rctx = ctx, wport = Some w, gport = None\<rparr>"
  define st2 where "st2 = set_obj r (Some (ReadPort rp)) (set_obj w (Some (WritePort (?wp\<lparr>wbuf := None, wreaders := [r]\<rparr>))) st1)"
  have w2: "port_open (Some r) mem (Some (wname wp)) ctx True st1 = (NO_ERROR, Some r, st2)"
    using sm k f o1 bo(2) by (simp add: port_open_def Let_def st2_def rp_def)
  have i2: "port_inv (st2, X)" using open_safe [OF i1 u, of mem "Some (wname wp)" ctx True] w2 by simp
  have "queue_at st2 r = (buf_queue b @ ps) @ []" using b'(3) by (simp add: queue_at_def st2_def rp_def)
  moreover have "r \<notin> X" using u by (simp add: unused_def)
  moreover have "obj st2 r = Some (ReadPort rp)" by (simp add: st2_def)
  ultimately have "\<exists>st3. port_reads now r (length (buf_queue b @ ps)) st2 = Ret (buf_queue b @ ps, st3) \<and> queue_at st3 r = []"
    using port_reads_fifo [OF i2] by blast
  then show ?thesis using w1 w2 by auto
qed

section \<open>Example runs\<close>

definition slots0 :: "(nat \<Rightarrow> port_packet) option" where "slots0 = Some (\<lambda>_. [])"

definition ring0 :: port_buf where
  "ring0 = \<lparr>pb_log2 = 3, pb_avail = 8, pb_head = 0, pb_tail = 0, packet = replicate 8 []\<rparr>"

definition wp0 :: write_port where
  "wp0 = \<lparr>wopen = True, wbuf = Some ring0, wreaders = [], wmode = PORT_MODE_BROADCAST, wname = ''p''\<rparr>"

definition created :: pstate where
  "created = ports0\<lparr>obj := [8 \<mapsto> WritePort wp0], write_port_list := [8]\<rparr>"

definition opened :: pstate where
  "opened = ports0\<lparr>obj := [8 \<mapsto> WritePort (wp0\<lparr>wbuf := None, wreaders := [9]\<rparr>),
     9 \<mapsto> ReadPort \<lparr>rbuf = Some ring0, rctx = 5, wport = Some 8, gport = None\<rparr>], write_port_list := [8]\<rparr>"

lemma ring0_made: "make_buf slots0 False = Some ring0"
  using log2_uint_pow2 [of 8 3]
  by (simp add: make_buf_def slots0_def ring0_def PORT_BUFF_SIZE_def map_replicate_const)

lemma no_port_waiters: "wlist (wq (env shared_state) (PortQ a)) = []"
  by (simp add: shared_state_def zero_kernel_def)

lemma ports0_inv: "port_inv (ports0, {})"
  using port_run_inv [OF port_run.start [of ports0]] shared_state_inv by (simp add: port_init_def ports0_def)

lemma created_inv: "port_inv (created, {})"
proof -
  have "port_create (Some 8) slots0 (Some ''p'') PORT_MODE_BROADCAST True ports0 = (NO_ERROR, Some 8, created)"
    using ring0_made
    by (simp add: port_create_def PORT_MODE_BROADCAST_def PORT_NAME_LEN_def created_def wp0_def ports0_def set_obj_def)
  then show ?thesis
    using create_safe [OF ports0_inv, of "Some 8" slots0 "Some ''p''" PORT_MODE_BROADCAST True] no_port_waiters
    by (simp add: unused_def ports0_def)
qed

lemma opened_inv: "port_inv (opened, {})"
proof -
  have k: "krn created = shared_state" by (simp add: created_def ports0_def)
  have "on_sched (wait_queue_init (PortQ 9)) shared_state = shared_state"
    by (rule init_queue_same [OF shared_state_inv no_port_waiters])
  then have "created\<lparr>krn := on_sched (wait_queue_init (PortQ 9)) (krn created)\<rparr> = created" using k by simp
  then have "port_open (Some 9) slots0 (Some ''p'') 5 True created = (NO_ERROR, Some 9, opened)"
    using ring0_made
    by (simp add: port_open_def Let_def opened_def created_def name_of_def wp0_def ports0_def set_obj_def)
  then show ?thesis
    using open_safe [OF created_inv, of "Some 9" slots0 "Some ''p''" 5 True] no_port_waiters k
    by (simp add: unused_def created_def)
qed

theorem port_write_delivers_witness:
  "\<exists>st'. port_write 0 (Some 8) (Some [[1], [2]]) opened
      = Ret (if \<exists>r\<in>set (wreaders (wp0\<lparr>wbuf := None, wreaders := [9]\<rparr>)). room (obj opened r) < length [[1::byte], [2]]
             then ERR_PARTIAL_WRITE else NO_ERROR, st')
    \<and> list_all (\<lambda>r. queue_at st' r = queue_at opened r
        @ (if length [[1::byte], [2]] \<le> room (obj opened r) then [[1], [2]] else [])) (wreaders (wp0\<lparr>wbuf := None, wreaders := [9]\<rparr>))
    \<and> obj st' |` (- set (wreaders (wp0\<lparr>wbuf := None, wreaders := [9]\<rparr>)))
      = obj opened |` (- set (wreaders (wp0\<lparr>wbuf := None, wreaders := [9]\<rparr>)))"
  by (rule port_write_delivers [OF opened_inv]) (simp_all add: opened_def wp0_def)

theorem port_roundtrip_witness:
  "\<exists>st1 st2 st3. port_write 0 (Some 8) (Some [[1], [2]]) created = Ret (NO_ERROR, st1)
    \<and> port_open (Some 9) slots0 (Some (wname wp0)) 5 True st1 = (NO_ERROR, Some 9, st2)
    \<and> port_reads 0 9 (length (buf_queue ring0) + length [[1::byte], [2]]) st2 = Ret (buf_queue ring0 @ [[1], [2]], st3)
    \<and> queue_at st3 9 = []"
  by (rule port_roundtrip [OF created_inv])
     (simp_all add: created_def wp0_def ring0_made ring0_def buf_cap_def buf_queue_def buf_used_def unused_def
       no_port_waiters ports0_def)

section \<open>Removing a port from a group\<close>

lemma leave_wport_total: "leave_wport r rp st \<noteq> Hang"
  by (simp add: leave_wport_def Let_def split: option.splits port_obj.splits)

text \<open>
  \<^verbatim>\<open>port_group_remove\<close> leaves the pointer of the read port to the group in place. After
  removing a member, closing that port deletes a list node that is in no list and faults, and
  removing it again returns an error with the thread lock held.
\<close>

theorem group_remove_breaks_close:
  assumes "port_inv (st, X)" and "obj st g = Some (PortGroup rs)" and "r \<in> set rs"
  shows "\<exists>st'. port_group_remove (Some g) (Some r) st = Ret (NO_ERROR, st')
    \<and> port_close now (Some r) st' = Fault
    \<and> port_group_remove (Some g) (Some r) st' = Ret (ERR_BAD_HANDLE, st'\<lparr>lock_left := True\<rparr>)"
proof -
  have p: "ports_ok X st" using assms(1) by (simp add: port_inv_def)
  note go = ports_okD(6) [OF p assms(2)]
  obtain rp where rp: "r \<notin> X" "obj st r = Some (ReadPort rp)" "gport rp = Some g"
    using go assms(3) by (auto simp: group_ok_def)
  have ne: "r \<noteq> g" using rp(2) assms(2) by auto
  let ?st = "set_obj g (Some (PortGroup (remove1 r rs))) st"
  have m: "r \<notin> set (remove1 r rs)" using go by (simp add: group_ok_def)
  have "port_group_remove (Some g) (Some r) st = Ret (NO_ERROR, ?st)"
    using assms(2,3) rp by (simp add: port_group_remove_def)
  moreover have "port_group_remove (Some g) (Some r) ?st = Ret (ERR_BAD_HANDLE, ?st\<lparr>lock_left := True\<rparr>)"
    using rp ne m by (simp add: port_group_remove_def)
  moreover have "leave_group r rp st1 = Fault" if "leave_wport r rp ?st = Ret st1" for st1
  proof -
    have "obj st1 g = Some (PortGroup (remove1 r rs))"
      using that ne by (auto simp: leave_wport_def Let_def split: option.splits port_obj.splits if_splits)
    then show ?thesis using rp(3) m by (simp add: leave_group_def)
  qed
  then have "port_close now (Some r) ?st = Fault"
    using rp(2) ne leave_wport_total [of r rp ?st]
    by (auto simp: port_close_def split: outcome.splits)
  ultimately show ?thesis by blast
qed

definition grouped :: pstate where
  "grouped = ports0\<lparr>obj := [8 \<mapsto> WritePort (wp0\<lparr>wbuf := None, wreaders := [9]\<rparr>),
     9 \<mapsto> ReadPort \<lparr>rbuf = Some ring0, rctx = 5, wport = Some 8, gport = Some 10\<rparr>,
     10 \<mapsto> PortGroup [9]], write_port_list := [8]\<rparr>"

lemma grouped_inv: "port_inv (grouped, {})"
proof -
  have k: "krn opened = shared_state" by (simp add: opened_def ports0_def)
  have "on_sched (wait_queue_init (PortQ 10)) shared_state = shared_state"
    by (rule init_queue_same [OF shared_state_inv no_port_waiters])
  then have "opened\<lparr>krn := on_sched (wait_queue_init (PortQ 10)) (krn opened)\<rparr> = opened" using k by simp
  then have "port_group (Some 10) (Some [9]) 1 True opened = Ret (NO_ERROR, Some 10, grouped)"
    by (simp add: port_group_def MAX_PORT_GROUP_COUNT_def Let_def opened_def grouped_def ports0_def set_obj_def
        link_port_def upd_rport_def fun_upd_twist)
  then show ?thesis
    using group_safe [OF opened_inv, of 0 "Some 10" "Some [9]" 1 True] no_port_waiters k
    by (simp add: unused_def usable_def opened_def)
qed

theorem group_remove_breaks_close_witness:
  "\<exists>st'. port_group_remove (Some 10) (Some 9) grouped = Ret (NO_ERROR, st')
    \<and> port_close 0 (Some 9) st' = Fault
    \<and> port_group_remove (Some 10) (Some 9) st' = Ret (ERR_BAD_HANDLE, st'\<lparr>lock_left := True\<rparr>)"
  by (rule group_remove_breaks_close [OF grouped_inv, of _ "[9]"]) (simp_all add: grouped_def)

end
