(* ===== verification/Cbuf.thy ===== *)
theory Cbuf
  imports Pow2
begin

text \<open>
  The circular buffer \<^verbatim>\<open>lib/cbuf/cbuf.c\<close>, which carries console and USB input. Head and
  tail are 32-bit indices below a power of two; one byte of the buffer always stays free, so
  that equal indices mean empty. The event is represented by its signalled flag (it is
  created without auto-unsignal), the spin lock not at all: each call is atomic. The buffer
  refines a bounded queue of bytes (locale \<open>byte_fifo\<close>).
\<close>

section \<open>Model\<close>

record cbuf =
  head :: u32
  tail :: u32
  len_pow2 :: nat
  cdata :: "byte list"
  event_signaled :: bool

definition INC_POINTER :: "cbuf \<Rightarrow> u32 \<Rightarrow> nat \<Rightarrow> u32" where
  "INC_POINTER cb ptr inc = modpow2 (word_of_nat (unat ptr + inc)) (len_pow2 cb)"

text \<open>A failed debug assertion stops the machine (\<open>Fault\<close>).\<close>

definition cbuf_initialize_etc :: "nat \<Rightarrow> byte list \<Rightarrow> cbuf outcome" where
  "cbuf_initialize_etc len buf =
     (if 0 < len \<and> ispow2 (word_of_nat len) then
        Ret \<lparr>head = 0, tail = 0, len_pow2 = log2_uint (word_of_nat len), cdata = buf, event_signaled = False\<rparr>
      else Fault)"

definition cbuf_initialize :: "(nat \<Rightarrow> byte list) \<Rightarrow> nat \<Rightarrow> cbuf outcome" where
  "cbuf_initialize malloc len = cbuf_initialize_etc len (malloc len)"

definition cbuf_size :: "cbuf \<Rightarrow> nat" where
  "cbuf_size cb = 2 ^ len_pow2 cb"

definition cbuf_space_avail :: "cbuf \<Rightarrow> nat" where
  "cbuf_space_avail cb =
     (let consumed = modpow2 (head cb - tail cb) (len_pow2 cb) in
      unat (valpow2 (len_pow2 cb) - consumed - 1))"

definition cbuf_space_used :: "cbuf \<Rightarrow> nat" where
  "cbuf_space_used cb = unat (modpow2 (head cb - tail cb) (len_pow2 cb))"

text \<open>The length of one copy of the write loop, before it is cut to what is left to write.\<close>

definition write_room :: "cbuf \<Rightarrow> nat" where
  "write_room cb =
     (if head cb \<ge> tail cb then
        if tail cb = 0 then unat (valpow2 (len_pow2 cb) - head cb - 1)
        else unat (valpow2 (len_pow2 cb) - head cb)
      else unat (tail cb - head cb - 1))"

text \<open>A null source writes zeros.\<close>

definition source_bytes :: "byte list option \<Rightarrow> nat \<Rightarrow> nat \<Rightarrow> byte list" where
  "source_bytes buf pos n = (case buf of None \<Rightarrow> replicate n 0 | Some b \<Rightarrow> slice_at pos n b)"

function cbuf_write_loop :: "byte list option \<Rightarrow> nat \<Rightarrow> nat \<Rightarrow> cbuf \<Rightarrow> nat \<times> cbuf" where
  "cbuf_write_loop buf len pos cb =
     (if pos < len \<and> 0 < cbuf_space_avail cb then
        let write_len = min (write_room cb) (len - pos) in
        if write_len = 0 then (pos, cb)
        else
          let cb = cb\<lparr>cdata := splice_at (cdata cb) (unat (head cb)) (source_bytes buf pos write_len)\<rparr>;
              cb = cb\<lparr>head := INC_POINTER cb (head cb) write_len\<rparr> in
          cbuf_write_loop buf len (pos + write_len) cb
      else (pos, cb))"
  by pat_completeness auto
termination
  by (relation "measure (\<lambda>(buf, len, pos, cb). len - pos)") auto

declare cbuf_write_loop.simps [simp del]

definition signal_if_data :: "cbuf \<Rightarrow> cbuf" where
  "signal_if_data cb = (if head cb \<noteq> tail cb then cb\<lparr>event_signaled := True\<rparr> else cb)"

text \<open>
  The whole write; \<^verbatim>\<open>canreschedule\<close> only decides whether the caller is preempted afterwards,
  which leaves the buffer as it is.
\<close>

definition cbuf_write :: "cbuf \<Rightarrow> byte list option \<Rightarrow> nat \<Rightarrow> (nat \<times> cbuf) outcome" where
  "cbuf_write cb buf len =
     (if len < unat (valpow2 (len_pow2 cb)) then
        Ret (case cbuf_write_loop buf len 0 cb of (pos, cb) \<Rightarrow> (pos, signal_if_data cb))
      else Fault)"

definition read_room :: "cbuf \<Rightarrow> nat" where
  "read_room cb =
     (if head cb > tail cb then unat (head cb - tail cb) else unat (valpow2 (len_pow2 cb) - tail cb))"

text \<open>
  The loop of \<^verbatim>\<open>cbuf_read\<close>; \<open>out\<close> collects what is copied out. A pass that moves nothing
  would repeat for ever: the recursion stops there with \<open>None\<close>.
\<close>

function cbuf_read_loop :: "nat \<Rightarrow> nat \<Rightarrow> byte list \<Rightarrow> cbuf \<Rightarrow> (nat \<times> byte list \<times> cbuf) option" where
  "cbuf_read_loop buflen pos out cb =
     (if pos < buflen \<and> tail cb \<noteq> head cb then
        let read_len = min (read_room cb) (buflen - pos) in
        if read_len = 0 then None
        else
          let out = out @ slice_at (unat (tail cb)) read_len (cdata cb);
              cb = cb\<lparr>tail := INC_POINTER cb (tail cb) read_len\<rparr> in
          cbuf_read_loop buflen (pos + read_len) out cb
      else Some (pos, out, cb))"
  by pat_completeness auto
termination
  by (relation "measure (\<lambda>(buflen, pos, out, cb). buflen - pos)") auto

declare cbuf_read_loop.simps [simp del]

text \<open>The part of \<^verbatim>\<open>cbuf_read\<close> under the lock.\<close>

definition cbuf_try_read :: "cbuf \<Rightarrow> nat \<Rightarrow> (nat \<times> byte list \<times> cbuf) option" where
  "cbuf_try_read cb buflen =
     (if tail cb \<noteq> head cb then
        (case cbuf_read_loop buflen 0 [] cb of
           None \<Rightarrow> None
         | Some (pos, out, cb) \<Rightarrow>
             Some (pos, out, if tail cb = head cb then cb\<lparr>event_signaled := False\<rparr> else cb))
      else Some (0, [], cb))"

text \<open>
  With \<open>block\<close> the call first waits for the event and starts over when it found nothing: it
  waits while the event is not signalled, and spins (\<open>Spins\<close>) when it is signalled and the
  locked part returns nothing.
\<close>

datatype 'a read_result = Got 'a cbuf | Waits | Spins

definition cbuf_read :: "cbuf \<Rightarrow> nat \<Rightarrow> bool \<Rightarrow> (nat \<times> byte list) read_result" where
  "cbuf_read cb buflen block =
     (if block \<and> \<not> event_signaled cb then Waits
      else
        case cbuf_try_read cb buflen of
          None \<Rightarrow> Spins
        | Some (ret, out, cb) \<Rightarrow>
            if block \<and> ret = 0 then (if event_signaled cb then Spins else Waits) else Got (ret, out) cb)"

definition cbuf_reset :: "cbuf \<Rightarrow> cbuf" where
  "cbuf_reset cb = (case cbuf_read cb (cbuf_size cb) False of Got _ cb \<Rightarrow> cb | Waits \<Rightarrow> cb | Spins \<Rightarrow> cb)"

text \<open>\<^verbatim>\<open>cbuf_peek\<close>: up to two regions of the buffer, as offset and length; \<open>None\<close> is null.\<close>

definition cbuf_peek :: "cbuf \<Rightarrow> nat \<times> (nat option \<times> nat) \<times> (nat option \<times> nat)" where
  "cbuf_peek cb =
     (let ret = cbuf_space_used cb; sz = cbuf_size cb; t = unat (tail cb);
          base = (if ret \<noteq> 0 then Some t else None) in
      if ret + t > sz then (ret, (base, sz - t), (Some 0, ret - (sz - t)))
      else (ret, (base, ret), (None, 0)))"

definition cbuf_write_char :: "cbuf \<Rightarrow> byte \<Rightarrow> nat \<times> cbuf" where
  "cbuf_write_char cb c =
     (if 0 < cbuf_space_avail cb then
        let cb = cb\<lparr>cdata := (cdata cb)[unat (head cb) := c]\<rparr>;
            cb = cb\<lparr>head := INC_POINTER cb (head cb) 1\<rparr> in
        (1, signal_if_data cb)
      else (0, cb))"

definition cbuf_read_char :: "cbuf \<Rightarrow> bool \<Rightarrow> byte option read_result" where
  "cbuf_read_char cb block =
     (if block \<and> \<not> event_signaled cb then Waits
      else if tail cb \<noteq> head cb then
        let c = cdata cb ! unat (tail cb);
            cb = cb\<lparr>tail := INC_POINTER cb (tail cb) 1\<rparr>;
            cb = (if tail cb = head cb then cb\<lparr>event_signaled := False\<rparr> else cb) in
        Got (Some c) cb
      else if block then Spins
      else Got None cb)"

section \<open>Invariant and contents\<close>

definition cbuf_inv :: "cbuf \<Rightarrow> bool" where
  "cbuf_inv cb \<longleftrightarrow> len_pow2 cb < 32 \<and> length (cdata cb) = cbuf_size cb
     \<and> unat (head cb) < cbuf_size cb \<and> unat (tail cb) < cbuf_size cb
     \<and> (event_signaled cb \<longleftrightarrow> head cb \<noteq> tail cb)"

text \<open>The first four conditions, which hold inside the loops too.\<close>

definition cbuf_ok :: "cbuf \<Rightarrow> bool" where
  "cbuf_ok cb \<longleftrightarrow> len_pow2 cb < 32 \<and> length (cdata cb) = cbuf_size cb
     \<and> unat (head cb) < cbuf_size cb \<and> unat (tail cb) < cbuf_size cb"

definition contents :: "cbuf \<Rightarrow> byte list" where
  "contents cb = map (\<lambda>i. cdata cb ! ((unat (tail cb) + i) mod cbuf_size cb)) [0..<cbuf_space_used cb]"

lemma size_pos: "0 < cbuf_size cb" and size_u32: "len_pow2 cb < 32 \<Longrightarrow> cbuf_size cb < 2 ^ 32"
proof -
  show "0 < cbuf_size cb" by (simp add: cbuf_size_def)
  show "len_pow2 cb < 32 \<Longrightarrow> cbuf_size cb < 2 ^ 32"
    unfolding cbuf_size_def by (rule power_strict_increasing) simp_all
qed

lemma length_contents [simp]: "length (contents cb) = cbuf_space_used cb"
  by (simp add: contents_def)

lemma used_eq:
  assumes "cbuf_ok cb"
  shows "cbuf_space_used cb = (if tail cb \<le> head cb then unat (head cb) - unat (tail cb)
      else cbuf_size cb + unat (head cb) - unat (tail cb))"
proof -
  let ?N = "cbuf_size cb" and ?h = "unat (head cb)" and ?t = "unat (tail cb)"
  have p: "len_pow2 cb < 32" "?h < ?N" "?t < ?N" using assms by (auto simp: cbuf_ok_def)
  have u: "cbuf_space_used cb = unat (head cb - tail cb) mod ?N"
    using p(1) by (simp add: cbuf_space_used_def cbuf_size_def unat_modpow2)
  show ?thesis
  proof (cases "tail cb \<le> head cb")
    case True
    then have "unat (head cb - tail cb) = ?h - ?t" by (rule unat_sub)
    then show ?thesis using True u p by simp
  next
    case False
    have d: "?N dvd 2 ^ 32" unfolding cbuf_size_def using p(1) by (intro le_imp_power_dvd) simp
    have "unat (head cb - tail cb) = (2 ^ 32 + ?h - ?t)"
      using False by (simp add: unat_sub_if_size word_size word_le_nat_alt)
    moreover have "(2 ^ 32 + ?h - ?t) mod ?N = (?N + ?h - ?t) mod ?N"
    proof -
      obtain k where k: "(2 ^ 32 :: nat) = ?N * k" using d by (rule dvdE)
      then have "0 < k" by (cases k) auto
      then have "(2 ^ 32 :: nat) + ?h - ?t = (?N + ?h - ?t) + ?N * (k - 1)"
        using k p(3) by (cases k) (auto simp: algebra_simps)
      then show ?thesis by (simp only: mod_mult_self2)
    qed
    moreover have "?N + ?h - ?t < ?N" using False p by (simp add: word_le_nat_alt)
    ultimately show ?thesis using u False by simp
  qed
qed

lemma avail_eq:
  assumes "cbuf_ok cb"
  shows "cbuf_space_avail cb = cbuf_size cb - 1 - cbuf_space_used cb"
proof -
  let ?c = "modpow2 (head cb - tail cb) (len_pow2 cb)"
  have p: "len_pow2 cb < 32" using assms by (simp add: cbuf_ok_def)
  have c: "unat ?c < cbuf_size cb" using p by (simp add: unat_modpow2 cbuf_size_def)
  have v: "unat (valpow2 (len_pow2 cb)) = cbuf_size cb" using p by (simp add: unat_valpow2 cbuf_size_def)
  have "unat (valpow2 (len_pow2 cb) - ?c) = cbuf_size cb - unat ?c"
    using c v by (subst unat_sub) (simp_all add: word_le_nat_alt)
  then have "unat (valpow2 (len_pow2 cb) - ?c - 1) = cbuf_size cb - unat ?c - 1"
    using c by (subst unat_sub) (simp_all add: word_le_nat_alt)
  then show ?thesis by (simp add: cbuf_space_avail_def cbuf_space_used_def)
qed

lemma used_mod:
  assumes "cbuf_ok cb"
  shows "cbuf_space_used cb = (unat (head cb) + (cbuf_size cb - unat (tail cb))) mod cbuf_size cb"
    and "(unat (tail cb) + cbuf_space_used cb) mod cbuf_size cb = unat (head cb)"
    and "cbuf_space_used cb < cbuf_size cb"
proof -
  have p: "unat (head cb) < cbuf_size cb" "unat (tail cb) < cbuf_size cb" using assms by (auto simp: cbuf_ok_def)
  show "cbuf_space_used cb = (unat (head cb) + (cbuf_size cb - unat (tail cb))) mod cbuf_size cb"
    using used_eq [OF assms] p by (auto simp: word_le_nat_alt mod_if)
  show "(unat (tail cb) + cbuf_space_used cb) mod cbuf_size cb = unat (head cb)"
    using used_eq [OF assms] p by (auto simp: word_le_nat_alt mod_if)
  show "cbuf_space_used cb < cbuf_size cb" using used_eq [OF assms] p by (auto simp: word_le_nat_alt)
qed

lemma unat_INC:
  assumes "len_pow2 cb < 32" and "unat ptr + n < 2 ^ 32"
  shows "unat (INC_POINTER cb ptr n) = (unat ptr + n) mod cbuf_size cb"
proof -
  have "unat (word_of_nat (unat ptr + n) :: u32) = unat ptr + n"
    using assms(2) by (simp only: unat_of_nat) simp
  then show ?thesis using assms(1) unfolding INC_POINTER_def cbuf_size_def by (subst unat_modpow2) simp_all
qed

lemma mod_ring:
  fixes N :: nat
  assumes "t < N" and "u + n < N" and "(t + u) mod N = h"
  shows "((h + n) mod N + (N - t)) mod N = u + n"
proof -
  have "((h + n) mod N + (N - t)) mod N = ((t + u) mod N + n + (N - t)) mod N"
    using assms(3) by (simp add: mod_simps)
  also have "\<dots> = (t + u + n + (N - t)) mod N" by (metis mod_add_left_eq add.assoc)
  also have "t + u + n + (N - t) = u + n + N" using assms(1) by simp
  finally show ?thesis using assms(2) by simp
qed

text \<open>One copy into the buffer.\<close>

definition push :: "byte list \<Rightarrow> cbuf \<Rightarrow> cbuf" where
  "push bs cb = (let cb = cb\<lparr>cdata := splice_at (cdata cb) (unat (head cb)) bs\<rparr> in
     cb\<lparr>head := INC_POINTER cb (head cb) (length bs)\<rparr>)"

lemma push_fields [simp]: "tail (push bs cb) = tail cb" "len_pow2 (push bs cb) = len_pow2 cb"
  "cbuf_size (push bs cb) = cbuf_size cb" "event_signaled (push bs cb) = event_signaled cb"
  by (simp_all add: push_def cbuf_size_def Let_def)

lemma push_ok:
  assumes ok: "cbuf_ok cb" and room: "unat (head cb) + length bs \<le> cbuf_size cb"
    "cbuf_space_used cb + length bs < cbuf_size cb"
  shows "cbuf_ok (push bs cb)" and "cbuf_space_used (push bs cb) = cbuf_space_used cb + length bs"
    and "contents (push bs cb) = contents cb @ bs"
proof -
  let ?N = "cbuf_size cb" and ?h = "unat (head cb)" and ?t = "unat (tail cb)" and ?u = "cbuf_space_used cb"
  have p: "len_pow2 cb < 32" "?h < ?N" "?t < ?N" "length (cdata cb) = ?N" using ok by (auto simp: cbuf_ok_def)
  have lt: "?h + length bs < 2 ^ 32" using room(1) size_u32 [OF p(1)] by simp
  have h: "unat (head (push bs cb)) = (?h + length bs) mod ?N"
    using unat_INC [OF p(1) lt] by (simp add: push_def INC_POINTER_def Let_def)
  have d: "cdata (push bs cb) = splice_at (cdata cb) ?h bs" by (simp add: push_def Let_def)
  show ok': "cbuf_ok (push bs cb)"
    using p h room(1) size_pos [of cb] by (simp add: cbuf_ok_def d length_splice)
  have u: "cbuf_space_used (push bs cb) = ?u + length bs"
    using used_mod(1) [OF ok'] mod_ring [OF p(3) room(2) used_mod(2) [OF ok]] by (simp add: h)
  then show "cbuf_space_used (push bs cb) = ?u + length bs" .
  show "contents (push bs cb) = contents cb @ bs"
  proof (rule nth_equalityI)
    show "length (contents (push bs cb)) = length (contents cb @ bs)" by (simp add: u)
    fix i assume "i < length (contents (push bs cb))"
    then have i: "i < ?u + length bs" by (simp add: u)
    let ?j = "(?t + i) mod ?N"
    have jN: "?j < ?N" using size_pos [of cb] by simp
    have c: "contents (push bs cb) ! i = splice_at (cdata cb) ?h bs ! ?j" using i by (simp add: contents_def u d)
    show "contents (push bs cb) ! i = (contents cb @ bs) ! i"
    proof (cases "i < ?u")
      case True
      have "?j < ?h \<or> ?h + length bs \<le> ?j"
        using used_eq [OF ok] True p(2,3) room by (auto simp: word_le_nat_alt mod_if split: if_splits)
      then show ?thesis using c True p(4) room(1) jN by (auto simp: nth_splice contents_def nth_append)
    next
      case False
      then obtain k where k: "i = ?u + k" "k < length bs" using i le_Suc_ex by (metis add_less_cancel_left not_less)
      have "?j = (?h + k) mod ?N" unfolding k(1) using used_mod(2) [OF ok] by (metis add.assoc mod_add_left_eq)
      then have "?j = ?h + k" using k(2) room(1) by simp
      then show ?thesis using c k p(4) room(1) jN by (simp add: nth_splice nth_append)
    qed
  qed
qed

lemma write_room_ok:
  assumes ok: "cbuf_ok cb" and a: "0 < cbuf_space_avail cb"
  shows "0 < write_room cb" and "unat (head cb) + write_room cb \<le> cbuf_size cb"
    and "cbuf_space_used cb + write_room cb < cbuf_size cb"
proof -
  let ?N = "cbuf_size cb"
  have p: "len_pow2 cb < 32" "unat (head cb) < ?N" "unat (tail cb) < ?N" using ok by (auto simp: cbuf_ok_def)
  have v: "unat (valpow2 (len_pow2 cb)) = ?N" using p(1) by (simp add: unat_valpow2 cbuf_size_def)
  have v1: "unat (valpow2 (len_pow2 cb) - head cb) = ?N - unat (head cb)"
    using v p(2) by (subst unat_sub) (simp_all add: word_le_nat_alt)
  have v2: "unat (valpow2 (len_pow2 cb) - head cb - 1) = ?N - unat (head cb) - 1"
    using v1 p(2) by (subst unat_sub) (simp_all add: word_le_nat_alt)
  have v3: "unat (tail cb - head cb - 1) = unat (tail cb) - unat (head cb) - 1" if "\<not> tail cb \<le> head cb"
  proof -
    have "unat (tail cb - head cb) = unat (tail cb) - unat (head cb)" using that by (subst unat_sub) auto
    then show ?thesis using that by (subst unat_sub) (simp_all add: word_le_nat_alt)
  qed
  have "0 < write_room cb \<and> unat (head cb) + write_room cb \<le> ?N \<and> cbuf_space_used cb + write_room cb < ?N"
    using a avail_eq [OF ok] used_eq [OF ok] p v1 v2 v3 unat_gt_0 [of "tail cb"]
    by (auto simp: write_room_def word_le_nat_alt)
  then show "0 < write_room cb" "unat (head cb) + write_room cb \<le> ?N" "cbuf_space_used cb + write_room cb < ?N"
    by blast+
qed

section \<open>Writing\<close>

lemma source_length: "length (source_bytes None pos n) = n"
  "pos + n \<le> length b \<Longrightarrow> length (source_bytes (Some b) pos n) = n"
  by (simp_all add: source_bytes_def)

definition source_ok :: "byte list option \<Rightarrow> nat \<Rightarrow> bool" where
  "source_ok buf len \<longleftrightarrow> (case buf of None \<Rightarrow> True | Some b \<Rightarrow> len \<le> length b)"

lemma source_bytes_split:
  "source_bytes buf pos (m + n) = source_bytes buf pos m @ source_bytes buf (pos + m) n"
  by (cases buf) (simp_all add: source_bytes_def slice_add replicate_add)

lemma source_len: "source_ok buf len \<Longrightarrow> pos + n \<le> len \<Longrightarrow> length (source_bytes buf pos n) = n"
  by (cases buf) (auto simp: source_bytes_def source_ok_def)

text \<open>The loop writes as much as fits, at most two copies.\<close>

lemma write_loop:
  assumes "cbuf_ok cb" and "source_ok buf len" and "pos \<le> len"
  defines "n \<equiv> min (len - pos) (cbuf_size cb - 1 - cbuf_space_used cb)"
  shows "\<exists>cb'. cbuf_write_loop buf len pos cb = (pos + n, cb') \<and> cbuf_ok cb'
    \<and> contents cb' = contents cb @ source_bytes buf pos n
    \<and> tail cb' = tail cb \<and> len_pow2 cb' = len_pow2 cb \<and> event_signaled cb' = event_signaled cb"
  using assms(1-3) unfolding n_def
proof (induction "len - pos" arbitrary: pos cb rule: less_induct)
  case less
  note ok = \<open>cbuf_ok cb\<close> and src = \<open>source_ok buf len\<close>
  let ?a = "cbuf_space_avail cb" and ?w = "min (write_room cb) (len - pos)"
  show ?case
  proof (cases "pos < len \<and> 0 < ?a")
    case False
    then have "min (len - pos) (cbuf_size cb - 1 - cbuf_space_used cb) = 0" using avail_eq [OF ok] by auto
    moreover have "cbuf_write_loop buf len pos cb = (pos, cb)"
      using False by (subst cbuf_write_loop.simps) auto
    ultimately show ?thesis using ok by (auto simp: source_bytes_def slice_at_def split: option.splits)
  next
    case True
    define W where "W = ?w"
    let ?bs = "source_bytes buf pos W"
    have w: "W \<noteq> 0" "pos + W \<le> len" "W \<le> write_room cb"
      using write_room_ok(1) [OF ok] True unfolding W_def by linarith+
    have lb: "length ?bs = W" by (rule source_len [OF src w(2)])
    note p = push_ok [OF ok, of ?bs, unfolded lb]
    have room: "unat (head cb) + W \<le> cbuf_size cb" "cbuf_space_used cb + W < cbuf_size cb"
      using write_room_ok(2,3) [OF ok] True w(3) by linarith+
    have pe: "push ?bs cb = (let cb = cb\<lparr>cdata := splice_at (cdata cb) (unat (head cb)) ?bs\<rparr> in
        cb\<lparr>head := INC_POINTER cb (head cb) W\<rparr>)" by (simp add: push_def lb Let_def)
    have step: "cbuf_write_loop buf len pos cb = cbuf_write_loop buf len (pos + W) (push ?bs cb)"
      using True w(1) by (subst cbuf_write_loop.simps) (simp add: pe Let_def flip: W_def)
    define M where "M = min (len - (pos + W)) (cbuf_size cb - 1 - (cbuf_space_used cb + W))"
    have n: "min (len - pos) (cbuf_size cb - 1 - cbuf_space_used cb) = W + M"
      using room(2) w(2) unfolding M_def by linarith
    have "\<exists>cb'. cbuf_write_loop buf len (pos + W) (push ?bs cb) = (pos + W + M, cb') \<and> cbuf_ok cb'
      \<and> contents cb' = contents cb @ ?bs @ source_bytes buf (pos + W) M
      \<and> tail cb' = tail cb \<and> len_pow2 cb' = len_pow2 cb \<and> event_signaled cb' = event_signaled cb"
      using less(1) [of "pos + W" "push ?bs cb"] p [OF room] src w(1,2) by (simp add: M_def)
    then show ?thesis unfolding step n source_bytes_split by (simp add: add.assoc)
  qed
qed

section \<open>Reading\<close>

definition pop :: "nat \<Rightarrow> cbuf \<Rightarrow> cbuf" where
  "pop n cb = cb\<lparr>tail := INC_POINTER cb (tail cb) n\<rparr>"

lemma pop_fields [simp]: "head (pop n cb) = head cb" "len_pow2 (pop n cb) = len_pow2 cb" "cdata (pop n cb) = cdata cb"
  "cbuf_size (pop n cb) = cbuf_size cb" "event_signaled (pop n cb) = event_signaled cb"
  by (simp_all add: pop_def cbuf_size_def)

lemma pop_ok:
  assumes ok: "cbuf_ok cb" and n: "n \<le> cbuf_space_used cb" "unat (tail cb) + n \<le> cbuf_size cb"
  shows "cbuf_ok (pop n cb)" and "cbuf_space_used (pop n cb) = cbuf_space_used cb - n"
    and "contents (pop n cb) = drop n (contents cb)"
    and "slice_at (unat (tail cb)) n (cdata cb) = take n (contents cb)"
proof -
  let ?N = "cbuf_size cb" and ?h = "unat (head cb)" and ?t = "unat (tail cb)" and ?u = "cbuf_space_used cb"
  have p: "len_pow2 cb < 32" "?h < ?N" "?t < ?N" "length (cdata cb) = ?N" using ok by (auto simp: cbuf_ok_def)
  have lt: "?t + n < 2 ^ 32" using n(2) size_u32 [OF p(1)] by simp
  have t: "unat (tail (pop n cb)) = (?t + n) mod ?N" using unat_INC [OF p(1) lt] by (simp add: pop_def)
  show ok': "cbuf_ok (pop n cb)" using p t size_pos [of cb] by (simp add: cbuf_ok_def)
  have u: "cbuf_space_used (pop n cb) = ?u - n"
    using used_mod(1) [OF ok'] used_eq [OF ok] p n by (auto simp: t word_le_nat_alt mod_if split: if_splits)
  then show "cbuf_space_used (pop n cb) = ?u - n" .
  show "contents (pop n cb) = drop n (contents cb)"
  proof (rule nth_equalityI)
    show "length (contents (pop n cb)) = length (drop n (contents cb))" by (simp add: u)
    fix i assume "i < length (contents (pop n cb))"
    then have i: "i < ?u - n" "n + i < ?u" by (simp_all add: u)
    have "((?t + n) mod ?N + i) mod ?N = (?t + (n + i)) mod ?N" by (metis add.assoc mod_add_left_eq)
    then show "contents (pop n cb) ! i = drop n (contents cb) ! i" using i by (simp add: contents_def u t)
  qed
  show "slice_at ?t n (cdata cb) = take n (contents cb)"
  proof (rule nth_equalityI)
    show "length (slice_at ?t n (cdata cb)) = length (take n (contents cb))" using n p(4) by simp
    fix i assume "i < length (slice_at ?t n (cdata cb))"
    then have "i < n" by simp
    then show "slice_at ?t n (cdata cb) ! i = take n (contents cb) ! i"
      using n p(4) by (simp add: nth_slice contents_def)
  qed
qed

lemma nonempty_used: "cbuf_ok cb \<Longrightarrow> tail cb \<noteq> head cb \<longleftrightarrow> 0 < cbuf_space_used cb"
  using used_eq [of cb] by (auto simp: cbuf_ok_def word_le_nat_alt word_unat_eq_iff)

lemma read_room_ok:
  assumes ok: "cbuf_ok cb" and ne: "tail cb \<noteq> head cb"
  shows "0 < read_room cb" and "unat (tail cb) + read_room cb \<le> cbuf_size cb" and "read_room cb \<le> cbuf_space_used cb"
proof -
  let ?N = "cbuf_size cb"
  have p: "len_pow2 cb < 32" "unat (head cb) < ?N" "unat (tail cb) < ?N" using ok by (auto simp: cbuf_ok_def)
  have v: "unat (valpow2 (len_pow2 cb)) = ?N" using p(1) by (simp add: unat_valpow2 cbuf_size_def)
  have v1: "unat (valpow2 (len_pow2 cb) - tail cb) = ?N - unat (tail cb)"
    using v p(3) by (subst unat_sub) (simp_all add: word_le_nat_alt)
  have v2: "unat (head cb - tail cb) = unat (head cb) - unat (tail cb)" if "tail cb < head cb"
    using that by (subst unat_sub) auto
  have "unat (tail cb) \<noteq> unat (head cb)" using ne by (simp add: word_unat_eq_iff)
  then have "0 < read_room cb \<and> unat (tail cb) + read_room cb \<le> ?N \<and> read_room cb \<le> cbuf_space_used cb"
    using used_eq [OF ok] p v1 v2 by (auto simp: read_room_def word_le_nat_alt word_less_nat_alt)
  then show "0 < read_room cb" "unat (tail cb) + read_room cb \<le> ?N" "read_room cb \<le> cbuf_space_used cb" by blast+
qed

lemma read_loop:
  assumes "cbuf_ok cb" and "pos \<le> buflen"
  defines "n \<equiv> min (buflen - pos) (cbuf_space_used cb)"
  shows "\<exists>cb'. cbuf_read_loop buflen pos out cb = Some (pos + n, out @ take n (contents cb), cb') \<and> cbuf_ok cb'
    \<and> contents cb' = drop n (contents cb) \<and> event_signaled cb' = event_signaled cb \<and> len_pow2 cb' = len_pow2 cb
    \<and> cdata cb' = cdata cb"
  using assms(1,2) unfolding n_def
proof (induction "buflen - pos" arbitrary: pos out cb rule: less_induct)
  case less
  note ok = \<open>cbuf_ok cb\<close>
  show ?case
  proof (cases "pos < buflen \<and> tail cb \<noteq> head cb")
    case False
    then have "min (buflen - pos) (cbuf_space_used cb) = 0" using nonempty_used [OF ok] by auto
    moreover have "cbuf_read_loop buflen pos out cb = Some (pos, out, cb)"
      using False by (subst cbuf_read_loop.simps) auto
    ultimately show ?thesis using ok by simp
  next
    case True
    define R where "R = min (read_room cb) (buflen - pos)"
    have r: "R \<noteq> 0" "pos + R \<le> buflen" "R \<le> read_room cb"
      using read_room_ok(1) [OF ok] True unfolding R_def by linarith+
    have rr: "R \<le> cbuf_space_used cb" "unat (tail cb) + R \<le> cbuf_size cb"
      using read_room_ok(2,3) [OF ok] True r(3) by linarith+
    note p = pop_ok [OF ok rr]
    let ?out = "out @ take R (contents cb)"
    have step: "cbuf_read_loop buflen pos out cb = cbuf_read_loop buflen (pos + R) ?out (pop R cb)"
      using True r(1) p(4) by (subst cbuf_read_loop.simps) (simp add: pop_def Let_def flip: R_def)
    define M where "M = min (buflen - (pos + R)) (cbuf_space_used cb - R)"
    have n: "min (buflen - pos) (cbuf_space_used cb) = R + M" using rr(1) r(2) unfolding M_def by linarith
    have "\<exists>cb'. cbuf_read_loop buflen (pos + R) ?out (pop R cb)
        = Some (pos + R + M, ?out @ take M (drop R (contents cb)), cb') \<and> cbuf_ok cb'
      \<and> contents cb' = drop M (drop R (contents cb)) \<and> event_signaled cb' = event_signaled cb \<and> len_pow2 cb' = len_pow2 cb
      \<and> cdata cb' = cdata cb"
      using less(1) [of "pos + R" "pop R cb" ?out] p r(1,2) by (simp add: M_def)
    moreover have "drop M (drop R xs) = drop (R + M) xs" for xs :: "byte list" by (simp add: add.commute)
    ultimately show ?thesis unfolding step n take_add by (simp add: add.assoc)
  qed
qed

section \<open>A bounded queue of bytes\<close>

text \<open>
  What a client of a byte queue relies on: a write takes as many bytes as there is room for
  and appends them, a read takes as many as there are and removes them from the front.
\<close>

locale byte_fifo =
  fixes inv :: "'q \<Rightarrow> bool" and queue :: "'q \<Rightarrow> byte list" and capacity :: "'q \<Rightarrow> nat"
    and put :: "'q \<Rightarrow> byte list \<Rightarrow> (nat \<times> 'q) outcome" and get :: "'q \<Rightarrow> nat \<Rightarrow> (byte list \<times> 'q) option"
  assumes put_spec: "inv q \<Longrightarrow> length bs \<le> capacity q
    \<Longrightarrow> \<exists>q'. put q bs = Ret (min (length bs) (capacity q - length (queue q)), q') \<and> inv q'
      \<and> queue q' = queue q @ take (capacity q - length (queue q)) bs \<and> capacity q' = capacity q"
    and get_spec: "inv q \<Longrightarrow> \<exists>q'. get q n = Some (take n (queue q), q') \<and> inv q'
      \<and> queue q' = drop n (queue q) \<and> capacity q' = capacity q"
    and bounded: "inv q \<Longrightarrow> length (queue q) \<le> capacity q"
begin

text \<open>Bytes come out in the order they went in, none lost, as long as they fit.\<close>

lemma put_get:
  assumes "inv q" and "length (queue q) + length bs \<le> capacity q"
  shows "\<exists>q1 q2. put q bs = Ret (length bs, q1) \<and> get q1 (length (queue q) + length bs) = Some (queue q @ bs, q2)
    \<and> inv q2 \<and> queue q2 = []"
proof -
  obtain q1 where q1: "put q bs = Ret (length bs, q1)" "inv q1" "queue q1 = queue q @ bs"
    using put_spec [OF assms(1), of bs] assms(2) by auto
  then show ?thesis using get_spec [OF q1(2), of "length (queue q) + length bs"] by auto
qed

lemma put_put:
  assumes "inv q" and "length (queue q) + length as + length bs \<le> capacity q"
  shows "\<exists>q1 q2. put q as = Ret (length as, q1) \<and> put q1 bs = Ret (length bs, q2) \<and> queue q2 = queue q @ as @ bs \<and> inv q2"
proof -
  obtain q1 where q1: "put q as = Ret (length as, q1)" "inv q1" "queue q1 = queue q @ as" "capacity q1 = capacity q"
    using put_spec [OF assms(1), of as] assms(2) by auto
  then show ?thesis using put_spec [OF q1(2), of bs] assms(2) by auto
qed

end

lemma inv_ok: "cbuf_inv cb \<longleftrightarrow> cbuf_ok cb \<and> (event_signaled cb \<longleftrightarrow> head cb \<noteq> tail cb)"
  by (auto simp: cbuf_inv_def cbuf_ok_def)

lemma contents_event [simp]: "contents (cb\<lparr>event_signaled := b\<rparr>) = contents cb"
  "cbuf_ok (cb\<lparr>event_signaled := b\<rparr>) = cbuf_ok cb" "cbuf_size (cb\<lparr>event_signaled := b\<rparr>) = cbuf_size cb"
  by (simp_all add: contents_def cbuf_ok_def cbuf_size_def cbuf_space_used_def)

lemma size_len: "len_pow2 cb' = len_pow2 cb \<Longrightarrow> cbuf_size cb' = cbuf_size cb"
  by (simp add: cbuf_size_def)

lemma nonempty_contents: "cbuf_ok cb \<Longrightarrow> head cb \<noteq> tail cb \<longleftrightarrow> contents cb \<noteq> []"
  using nonempty_used [of cb] by (auto simp: contents_def)

lemma cbuf_write_ok:
  assumes inv: "cbuf_inv cb" and src: "source_ok buf len" and len: "len < cbuf_size cb"
  defines "n \<equiv> min len (cbuf_size cb - 1 - length (contents cb))"
  shows "\<exists>cb'. cbuf_write cb buf len = Ret (n, cb') \<and> cbuf_inv cb' \<and> contents cb' = contents cb @ source_bytes buf 0 n
    \<and> cbuf_size cb' = cbuf_size cb"
proof -
  obtain cb1 where l: "cbuf_write_loop buf len 0 cb = (n, cb1)" "cbuf_ok cb1"
    "contents cb1 = contents cb @ source_bytes buf 0 n" "tail cb1 = tail cb" "len_pow2 cb1 = len_pow2 cb"
    "event_signaled cb1 = event_signaled cb"
    using write_loop [of cb buf len 0] inv src by (auto simp: inv_ok n_def)
  have ok: "cbuf_ok cb" and ev: "event_signaled cb \<longleftrightarrow> head cb \<noteq> tail cb" using inv by (auto simp: inv_ok)
  have "\<not> event_signaled cb1" if "head cb1 = tail cb1"
  proof -
    have "contents cb1 = []" using nonempty_contents [OF l(2)] that by blast
    then have "contents cb = []" using l(3) by simp
    then show ?thesis using nonempty_contents [OF ok] ev l(6) by blast
  qed
  then have "cbuf_inv (signal_if_data cb1)" using l(2) by (simp add: signal_if_data_def inv_ok)
  moreover have "contents (signal_if_data cb1) = contents cb1" "cbuf_size (signal_if_data cb1) = cbuf_size cb"
    using size_len [OF l(5)] by (simp_all add: signal_if_data_def)
  ultimately show ?thesis using l(1,3) len inv
    by (simp add: cbuf_write_def cbuf_inv_def unat_valpow2) (simp add: cbuf_size_def)
qed

lemma cbuf_try_read_ok:
  assumes inv: "cbuf_inv cb"
  shows "\<exists>cb'. cbuf_try_read cb n = Some (min n (length (contents cb)), take n (contents cb), cb') \<and> cbuf_inv cb'
    \<and> contents cb' = drop n (contents cb) \<and> cbuf_size cb' = cbuf_size cb"
proof (cases "tail cb = head cb")
  case True
  then have "contents cb = []" using nonempty_contents [of cb] inv by (auto simp: inv_ok)
  then show ?thesis using True inv by (simp add: cbuf_try_read_def)
next
  case False
  let ?n = "min n (cbuf_space_used cb)"
  obtain cb1 where l: "cbuf_read_loop n 0 [] cb = Some (?n, take ?n (contents cb), cb1)" "cbuf_ok cb1"
    "contents cb1 = drop ?n (contents cb)" "event_signaled cb1 = event_signaled cb" "len_pow2 cb1 = len_pow2 cb"
    using read_loop [of cb 0 n "[]"] inv by (auto simp: inv_ok)
  let ?cb = "if tail cb1 = head cb1 then cb1\<lparr>event_signaled := False\<rparr> else cb1"
  have "cbuf_inv ?cb" using l(2,4) inv False by (auto simp: inv_ok)
  moreover have "contents ?cb = drop n (contents cb)" "take ?n (contents cb) = take n (contents cb)"
    using l(3) by (auto simp: min_def)
  moreover have "cbuf_size ?cb = cbuf_size cb" using size_len [OF l(5)] by simp
  ultimately show ?thesis using False l(1) by (simp add: cbuf_try_read_def)
qed

definition cbuf_put :: "cbuf \<Rightarrow> byte list \<Rightarrow> (nat \<times> cbuf) outcome" where
  "cbuf_put cb bs = cbuf_write cb (Some bs) (length bs)"

definition cbuf_get :: "cbuf \<Rightarrow> nat \<Rightarrow> (byte list \<times> cbuf) option" where
  "cbuf_get cb n = (case cbuf_read cb n False of Got (ret, out) cb \<Rightarrow> Some (out, cb) | Waits \<Rightarrow> None | Spins \<Rightarrow> None)"

interpretation cb: byte_fifo cbuf_inv contents "\<lambda>cb. cbuf_size cb - 1" cbuf_put cbuf_get
proof
  fix cb and bs :: "byte list" assume inv: "cbuf_inv cb" and "length bs \<le> cbuf_size cb - 1"
  then have len: "length bs < cbuf_size cb" using size_pos [of cb] by linarith
  have "source_bytes (Some bs) 0 (min (length bs) m) = take m bs" for m
    by (simp add: source_bytes_def slice_at_def min_def)
  then show "\<exists>cb'. cbuf_put cb bs = Ret (min (length bs) (cbuf_size cb - 1 - length (contents cb)), cb') \<and> cbuf_inv cb'
      \<and> contents cb' = contents cb @ take (cbuf_size cb - 1 - length (contents cb)) bs
      \<and> cbuf_size cb' - 1 = cbuf_size cb - 1"
    using cbuf_write_ok [OF inv, of "Some bs" "length bs"] len by (auto simp: cbuf_put_def source_ok_def)
next
  fix cb n assume inv: "cbuf_inv cb"
  show "\<exists>cb'. cbuf_get cb n = Some (take n (contents cb), cb') \<and> cbuf_inv cb' \<and> contents cb' = drop n (contents cb)
      \<and> cbuf_size cb' - 1 = cbuf_size cb - 1"
    using cbuf_try_read_ok [OF inv, of n] by (auto simp: cbuf_get_def cbuf_read_def)
next
  fix cb assume "cbuf_inv cb"
  then show "length (contents cb) \<le> cbuf_size cb - 1" using used_mod(3) [of cb] by (simp add: inv_ok)
qed

section \<open>Properties\<close>

lemma cbuf_init_inv:
  assumes "k < 32" and "length buf = 2 ^ k"
  shows "\<exists>cb. cbuf_initialize_etc (2 ^ k) buf = Ret cb \<and> cbuf_inv cb \<and> contents cb = [] \<and> cbuf_size cb = 2 ^ k"
proof -
  let ?w = "word_of_nat (2 ^ k) :: u32" and ?cb = "\<lparr>head = 0, tail = 0, len_pow2 = k, cdata = buf, event_signaled = False\<rparr>"
  have "(2 ^ k :: nat) < 2 ^ 32" using assms(1) by (intro power_strict_increasing) simp_all
  then have "unat ?w = 2 ^ k" by (simp only: unat_of_nat) simp
  then have "log2_uint ?w = k" using assms(1) by (rule log2_uint_pow2)
  moreover have "ispow2 ?w"
    by (simp add: ispow2_def mask_eq_exp_minus_1 [symmetric] and.commute [of "mask k"] take_bit_eq_mask [symmetric] take_bit_eq_mod)
  ultimately have "cbuf_initialize_etc (2 ^ k) buf = Ret ?cb" by (simp add: cbuf_initialize_etc_def)
  moreover have inv: "cbuf_inv ?cb" using assms by (simp add: cbuf_inv_def cbuf_size_def)
  moreover have "contents ?cb = []" using inv nonempty_contents [of ?cb] by (simp add: inv_ok)
  ultimately show ?thesis by (auto simp: cbuf_size_def)
qed

text \<open>Claim C40: the circular buffer is a bounded queue. A write of less than the length
of the buffer (of data, or of zeros for a null source) appends as many bytes as fit into the length less one and returns their number; a
non-blocking read returns the oldest bytes, as many as asked for and available, and removes
them; a blocking read of at least one byte does the same when there is data and waits for the
event when there is none. The event stays signalled exactly while there is data.\<close>

theorem cbuf_is_bounded_queue:
  assumes "cbuf_inv cb" and "source_ok buf len" and "len < cbuf_size cb"
  shows "(\<exists>cb'. cbuf_write cb buf len = Ret (min len (cbuf_size cb - 1 - length (contents cb)), cb') \<and> cbuf_inv cb'
      \<and> contents cb' = contents cb @ source_bytes buf 0 (min len (cbuf_size cb - 1 - length (contents cb))))
    \<and> (\<exists>cb'. cbuf_read cb n False = Got (min n (length (contents cb)), take n (contents cb)) cb' \<and> cbuf_inv cb'
      \<and> contents cb' = drop n (contents cb))
    \<and> cbuf_read cb (Suc n) True = (if contents cb = [] then Waits else cbuf_read cb (Suc n) False)"
proof -
  obtain cb' where r: "cbuf_try_read cb (Suc n) = Some (min (Suc n) (length (contents cb)), take (Suc n) (contents cb), cb')"
    using cbuf_try_read_ok [OF assms(1)] by blast
  have "event_signaled cb \<longleftrightarrow> contents cb \<noteq> []"
    using assms(1) nonempty_contents [of cb] by (auto simp: inv_ok)
  then have "cbuf_read cb (Suc n) True = (if contents cb = [] then Waits else cbuf_read cb (Suc n) False)"
    using r by (cases "contents cb") (auto simp: cbuf_read_def)
  moreover have "\<exists>cb'. cbuf_read cb n False = Got (min n (length (contents cb)), take n (contents cb)) cb' \<and> cbuf_inv cb'
      \<and> contents cb' = drop n (contents cb)"
    using cbuf_try_read_ok [OF assms(1), of n] by (auto simp: cbuf_read_def)
  ultimately show ?thesis using cbuf_write_ok [OF assms] by blast
qed

definition small_cbuf :: cbuf where
  "small_cbuf = \<lparr>head = 2, tail = 1, len_pow2 = 2, cdata = [5, 6, 7, 8], event_signaled = True\<rparr>"

lemma small_cbuf_inv: "cbuf_inv small_cbuf" "contents small_cbuf = [6]" "cbuf_size small_cbuf = 4"
proof -
  show inv: "cbuf_inv small_cbuf" "cbuf_size small_cbuf = 4" by (simp_all add: cbuf_inv_def small_cbuf_def cbuf_size_def)
  have "cbuf_space_used small_cbuf = 1" using inv by (simp add: inv_ok used_eq) (simp add: small_cbuf_def)
  then show "contents small_cbuf = [6]" by (simp add: contents_def) (simp add: small_cbuf_def cbuf_size_def)
qed

theorem cbuf_is_bounded_queue_witness:
  "\<exists>cb'. cbuf_write small_cbuf (Some [1, 2, 3]) 3 = Ret (2, cb') \<and> cbuf_inv cb' \<and> contents cb' = [6, 1, 2]"
  using cbuf_is_bounded_queue [OF small_cbuf_inv(1), of "Some [1, 2, 3]" 3 0] small_cbuf_inv
  by (simp add: source_ok_def source_bytes_def slice_at_def numeral_2_eq_2)

text \<open>What is written to the circular buffer comes out unchanged and in order, wherever
head and tail are: after a write that fits, a read of everything returns the old contents
followed by the new data and leaves the buffer empty.\<close>

theorem cbuf_roundtrip:
  assumes "cbuf_inv cb" and "length (contents cb) + length bs \<le> cbuf_size cb - 1"
  shows "\<exists>cb1 cb2. cbuf_write cb (Some bs) (length bs) = Ret (length bs, cb1)
    \<and> cbuf_read cb1 (length (contents cb) + length bs) False
        = Got (length (contents cb) + length bs, contents cb @ bs) cb2
    \<and> cbuf_inv cb2 \<and> contents cb2 = []"
proof -
  obtain cb1 cb2 where p: "cbuf_put cb bs = Ret (length bs, cb1)"
    "cbuf_get cb1 (length (contents cb) + length bs) = Some (contents cb @ bs, cb2)" "cbuf_inv cb2" "contents cb2 = []"
    using cb.put_get [OF assms] by blast
  have c1: "cbuf_inv cb1" "contents cb1 = contents cb @ bs"
    using cb.put_spec [OF assms(1), of bs] p(1) assms(2) by auto
  then have "cbuf_read cb1 (length (contents cb) + length bs) False
      = Got (length (contents cb) + length bs, contents cb @ bs) cb2"
    using cbuf_try_read_ok [OF c1(1), of "length (contents cb) + length bs"] p(2)
    by (auto simp: cbuf_get_def cbuf_read_def)
  then show ?thesis using p by (simp add: cbuf_put_def)
qed

theorem cbuf_roundtrip_witness:
  "\<exists>cb1 cb2. cbuf_write small_cbuf (Some [7, 8]) 2 = Ret (2, cb1) \<and> cbuf_read cb1 3 False = Got (3, [6, 7, 8]) cb2
    \<and> cbuf_inv cb2 \<and> contents cb2 = []"
  using cbuf_roundtrip [OF small_cbuf_inv(1), of "[7, 8]"] small_cbuf_inv by (simp add: numeral_2_eq_2 numeral_3_eq_3)

text \<open>A blocking read of zero bytes never returns while there is data.\<close>

lemma blocking_read_of_nothing_spins:
  assumes "cbuf_inv cb" and "contents cb \<noteq> []"
  shows "cbuf_read cb 0 True = Spins"
proof -
  have ne: "head cb \<noteq> tail cb" using nonempty_contents [of cb] assms by (simp add: inv_ok)
  have "cbuf_read_loop 0 0 [] cb = Some (0, [], cb)" by (subst cbuf_read_loop.simps) simp
  then show ?thesis using assms(1) ne by (auto simp: cbuf_read_def cbuf_try_read_def inv_ok)
qed

section \<open>Single characters and peeking\<close>

lemma write_char_eq:
  assumes inv: "cbuf_inv cb" and big: "1 < cbuf_size cb"
  shows "cbuf_write cb (Some [c]) 1 = Ret (cbuf_write_char cb c)"
proof -
  have len: "1 < unat (valpow2 (len_pow2 cb))"
    using inv big by (simp add: cbuf_inv_def unat_valpow2) (simp add: cbuf_size_def)
  show ?thesis
  proof (cases "0 < cbuf_space_avail cb")
    case True
    have ok: "cbuf_ok cb" using inv by (simp add: inv_ok)
    have "unat (head cb) < length (cdata cb)" using ok by (simp add: cbuf_ok_def)
    then have "(cdata cb)[unat (head cb) := c] = splice_at (cdata cb) (unat (head cb)) [c]"
      by (simp add: splice_at_def upd_conv_take_nth_drop)
    moreover have "min (write_room cb) 1 = 1" using write_room_ok(1) [OF ok True] by simp
    moreover have "cbuf_write_loop (Some [c]) 1 1 x = (1, x)" for x by (subst cbuf_write_loop.simps) simp
    moreover have "source_bytes (Some [c]) 0 1 = [c]" by (simp add: source_bytes_def slice_at_def)
    ultimately have "cbuf_write_loop (Some [c]) 1 0 cb
        = (1, let cb = cb\<lparr>cdata := (cdata cb)[unat (head cb) := c]\<rparr> in cb\<lparr>head := INC_POINTER cb (head cb) 1\<rparr>)"
      using True by (subst cbuf_write_loop.simps) (simp add: Let_def)
    then show ?thesis using True len by (simp add: cbuf_write_char_def cbuf_write_def Let_def)
  next
    case False
    then have "cbuf_write_loop (Some [c]) 1 0 cb = (0, cb)" by (subst cbuf_write_loop.simps) auto
    moreover have "signal_if_data cb = cb" using inv by (cases cb) (auto simp: signal_if_data_def inv_ok)
    ultimately show ?thesis using False len by (simp add: cbuf_write_char_def cbuf_write_def)
  qed
qed

lemma read_char_eq:
  assumes inv: "cbuf_inv cb"
  shows "cbuf_read_char cb block = (case cbuf_read cb 1 block of
     Got (n, out) cb' \<Rightarrow> Got (if n = 0 then None else Some (hd out)) cb' | Waits \<Rightarrow> Waits | Spins \<Rightarrow> Spins)"
proof (cases "tail cb = head cb")
  case True
  then show ?thesis using inv by (simp add: cbuf_read_char_def cbuf_read_def cbuf_try_read_def inv_ok)
next
  case False
  have ok: "cbuf_ok cb" using inv by (simp add: inv_ok)
  have "min (read_room cb) 1 = 1" using read_room_ok(1) [OF ok False] by simp
  moreover have "slice_at (unat (tail cb)) 1 (cdata cb) = [cdata cb ! unat (tail cb)]"
    using ok by (simp add: slice_at_def cbuf_ok_def Cons_nth_drop_Suc [symmetric])
  moreover have "cbuf_read_loop 1 1 out x = Some (1, out, x)" for out x by (subst cbuf_read_loop.simps) simp
  ultimately have "cbuf_read_loop 1 0 [] cb
      = Some (1, [cdata cb ! unat (tail cb)], cb\<lparr>tail := INC_POINTER cb (tail cb) 1\<rparr>)"
    using False by (subst cbuf_read_loop.simps) (simp add: Let_def)
  then show ?thesis using False by (simp add: cbuf_read_char_def cbuf_read_def cbuf_try_read_def Let_def)
qed

text \<open>The bytes of a region.\<close>

definition region :: "cbuf \<Rightarrow> nat option \<times> nat \<Rightarrow> byte list" where
  "region cb r = (case r of (None, n) \<Rightarrow> [] | (Some off, n) \<Rightarrow> slice_at off n (cdata cb))"

lemma peek_regions:
  assumes inv: "cbuf_inv cb"
  shows "\<exists>r0 r1. cbuf_peek cb = (length (contents cb), r0, r1) \<and> region cb r0 @ region cb r1 = contents cb"
proof -
  have ok: "cbuf_ok cb" using inv by (simp add: inv_ok)
  let ?N = "cbuf_size cb" and ?t = "unat (tail cb)" and ?u = "cbuf_space_used cb"
  have p: "?t < ?N" "length (cdata cb) = ?N" using ok by (auto simp: cbuf_ok_def)
  have c: "contents cb = slice_at ?t (min ?u (?N - ?t)) (cdata cb) @ slice_at 0 (?u - (?N - ?t)) (cdata cb)"
  proof (rule nth_equalityI)
    show "length (contents cb) = length (slice_at ?t (min ?u (?N - ?t)) (cdata cb) @ slice_at 0 (?u - (?N - ?t)) (cdata cb))"
      using p used_mod(3) [OF ok] by simp
    fix i assume "i < length (contents cb)"
    then have i: "i < ?u" by simp
    show "contents cb ! i = (slice_at ?t (min ?u (?N - ?t)) (cdata cb) @ slice_at 0 (?u - (?N - ?t)) (cdata cb)) ! i"
      using i p used_mod(3) [OF ok] by (auto simp: contents_def nth_append nth_slice mod_if add.commute)
  qed
  show ?thesis
  proof (cases "?u + ?t > ?N")
    case True
    then have "min ?u (?N - ?t) = ?N - ?t" "0 < ?u" using p by linarith+
    then show ?thesis using c [symmetric] True by (auto simp: cbuf_peek_def region_def Let_def)
  next
    case False
    then have "?u - (?N - ?t) = 0" "min ?u (?N - ?t) = ?u" by linarith+
    then show ?thesis using c [symmetric] False by (auto simp: cbuf_peek_def region_def Let_def slice_at_def)
  qed
qed

text \<open>The single-character calls are the general ones at length one, state included, and
the one or two regions that a peek returns are, one after the other, the contents of the
buffer.\<close>

theorem cbuf_shortcuts_agree:
  assumes "cbuf_inv cb" and "1 < cbuf_size cb"
  shows "cbuf_write cb (Some [c]) 1 = Ret (cbuf_write_char cb c)
    \<and> cbuf_read_char cb block = (case cbuf_read cb 1 block of
        Got (n, out) cb' \<Rightarrow> Got (if n = 0 then None else Some (hd out)) cb' | Waits \<Rightarrow> Waits | Spins \<Rightarrow> Spins)
    \<and> (\<exists>r0 r1. cbuf_peek cb = (length (contents cb), r0, r1) \<and> region cb r0 @ region cb r1 = contents cb)"
  using write_char_eq [OF assms] read_char_eq [OF assms(1)] peek_regions [OF assms(1)] by blast

theorem cbuf_shortcuts_agree_witness:
  "cbuf_write small_cbuf (Some [9]) 1 = Ret (cbuf_write_char small_cbuf 9)"
  using cbuf_shortcuts_agree [OF small_cbuf_inv(1)] small_cbuf_inv(3) by simp

end
