(* ===== verification/Novm.thy ===== *)
theory Novm
  imports Lk_Prelude
begin

text \<open>
  The page allocator \<^verbatim>\<open>kernel/novm/novm.c\<close> with its wrapper \<^verbatim>\<open>lib/heap/page_alloc.c\<close>, in the
  configuration of this platform: one arena (\<^verbatim>\<open>NOVM_MAX_ARENAS\<close> is 1) and 4 KiB pages. A byte
  per page records whether it is in use. Addresses are natural numbers below \<open>2 ^ 64\<close>, 0 is
  the null pointer, and the arithmetic on them wraps. The mutex of the arena is not
  represented: each locked section is one step. A write outside the map is a \<open>Fault\<close>.
\<close>

section \<open>Model\<close>

definition PAGE_SIZE :: nat where
  "PAGE_SIZE = 4096"

text \<open>
  The macro \<^verbatim>\<open>ROUNDUP\<close> on 64-bit operands: the addition wraps, and masking with a power of two
  less one is rounding down.
\<close>

definition roundup64 :: "nat \<Rightarrow> nat \<Rightarrow> nat" where
  "roundup64 a b = rounddown (add64 a (b - 1)) b"

record novm_arena =
  pages :: nat
  map_addr :: nat
  pmap :: "byte list"
  pbase :: nat
  psize :: nat
  unaligned_area :: nat
  unaligned_size :: nat

definition zero_arena :: novm_arena where
  "zero_arena = \<lparr>pages = 0, map_addr = 0, pmap = [], pbase = 0, psize = 0, unaligned_area = 0, unaligned_size = 0\<rparr>"

text \<open>The loop that makes room for the page map at the start of the arena.\<close>

fun grab_map :: "nat \<Rightarrow> nat \<Rightarrow> nat \<Rightarrow> nat \<Rightarrow> nat \<times> nat \<times> nat" where
  "grab_map arena_start start sz 0 = (start, sz, 0)"
| "grab_map arena_start start sz (Suc n) =
     (if sub64 start arena_start < Suc n
      then grab_map arena_start (add64 start PAGE_SIZE) (sub64 sz PAGE_SIZE) n
      else (start, sz, Suc n))"

text \<open>
  \<^verbatim>\<open>novm_init_helper\<close>; a null \<open>default_map\<close> is 0. The first test of the remaining space
  compares a signed pointer difference, the second an unsigned one.
\<close>

definition novm_init_helper :: "nat \<Rightarrow> nat \<Rightarrow> nat \<Rightarrow> nat \<Rightarrow> novm_arena \<Rightarrow> novm_arena" where
  "novm_init_helper arena_start arena_size default_map default_map_size n =
     (let start = roundup64 arena_start PAGE_SIZE;
          sz = sub64 (rounddown (add64 arena_start arena_size) PAGE_SIZE) start;
          map_size = sz div PAGE_SIZE in
      if default_map = 0 \<or> default_map_size < map_size then
        (case grab_map arena_start start sz map_size of (start, sz, map_size) \<Rightarrow>
           let free = add64 arena_start (roundup64 map_size 4);
               n = (if int start - int free \<ge> 64
                    then n\<lparr>unaligned_area := free, unaligned_size := sub64 start free\<rparr> else n) in
           n\<lparr>map_addr := arena_start, pmap := replicate map_size 0, pages := map_size, pbase := start, psize := sz\<rparr>)
      else
        let n = (if sub64 start arena_start \<ge> 64
                 then n\<lparr>unaligned_area := arena_start, unaligned_size := sub64 start arena_start\<rparr> else n) in
        n\<lparr>map_addr := default_map, pmap := replicate map_size 0, pages := map_size, pbase := start, psize := sz\<rparr>)"

text \<open>\<open>end_addr\<close> is the linker's \<^verbatim>\<open>_end\<close>, \<open>mp\<close> the address of the static map.\<close>

definition novm_init :: "nat \<Rightarrow> nat \<Rightarrow> nat \<Rightarrow> nat \<Rightarrow> novm_arena" where
  "novm_init end_addr membase memsize mp =
     novm_init_helper end_addr (sub64 (add64 membase memsize) end_addr) mp (memsize div PAGE_SIZE) zero_arena"

definition novm_add_arena :: "nat \<Rightarrow> nat \<Rightarrow> novm_arena \<Rightarrow> novm_arena outcome" where
  "novm_add_arena arena_start arena_size n =
     (if pages n = 0 then Ret (novm_init_helper arena_start arena_size 0 0 n) else Fault)"

text \<open>The inner loop of \<^verbatim>\<open>novm_alloc_helper\<close>: the first page in use among those from \<open>i + j\<close> on.\<close>

function first_used :: "byte list \<Rightarrow> nat \<Rightarrow> nat \<Rightarrow> nat \<Rightarrow> nat option" where
  "first_used mp i j n =
     (if j < n then (if mp ! (i + j) \<noteq> 0 then Some j else first_used mp i (j + 1) n) else None)"
  by pat_completeness auto
termination
  by (relation "measure (\<lambda>(mp, i, j, n). n - j)") auto

declare first_used.simps [simp del]

function novm_scan :: "byte list \<Rightarrow> nat \<Rightarrow> nat \<Rightarrow> nat \<Rightarrow> nat option" where
  "novm_scan mp np n i =
     (if i \<le> np - n then
        (case first_used mp i 0 n of
           None \<Rightarrow> Some i
         | Some j \<Rightarrow> novm_scan mp np n (i + j + 1))
      else None)"
  by pat_completeness auto
termination
  by (relation "measure (\<lambda>(mp, np, n, i). Suc np - i)") auto

declare novm_scan.simps [simp del]

definition novm_alloc_helper :: "nat \<Rightarrow> novm_arena \<Rightarrow> nat \<times> novm_arena" where
  "novm_alloc_helper n a =
     (if n = 0 \<or> n > pages a then (0, a)
      else
        case novm_scan (pmap a) (pages a) n 0 of
          Some i \<Rightarrow> (add64 (pbase a) (mul64 i PAGE_SIZE), a\<lparr>pmap := splice_at (pmap a) i (replicate n 1)\<rparr>)
        | None \<Rightarrow> (0, a))"

definition novm_alloc_pages :: "nat \<Rightarrow> u32 \<Rightarrow> novm_arena \<Rightarrow> nat \<times> novm_arena" where
  "novm_alloc_pages n arena_bitmap a =
     (if bit arena_bitmap 0 then novm_alloc_helper n a else (0, a))"

definition novm_alloc_unaligned :: "novm_arena \<Rightarrow> nat \<times> nat \<times> novm_arena" where
  "novm_alloc_unaligned a =
     (if unaligned_area a \<noteq> 0
      then (unaligned_area a, unaligned_size a, a\<lparr>unaligned_area := 0, unaligned_size := 0\<rparr>)
      else case novm_alloc_pages 1 (- 1) a of (p, a) \<Rightarrow> (p, PAGE_SIZE, a))"

definition in_arena :: "novm_arena \<Rightarrow> nat \<Rightarrow> bool" where
  "in_arena a p \<longleftrightarrow> psize a \<noteq> 0 \<and> pbase a \<le> p \<and> p < add64 (pbase a) (psize a)"

definition novm_free_pages :: "nat \<Rightarrow> nat \<Rightarrow> novm_arena \<Rightarrow> novm_arena outcome" where
  "novm_free_pages address n a =
     (if \<not> in_arena a address then Ret a
      else
        let index = (address - pbase a) div PAGE_SIZE in
        if index + n \<le> length (pmap a) then Ret (a\<lparr>pmap := splice_at (pmap a) index (replicate n 0)\<rparr>) else Fault)"

text \<open>The first loop of \<^verbatim>\<open>novm_alloc_specific_pages\<close>; it reads the map up to the first page in use.\<close>

function all_unused :: "byte list \<Rightarrow> nat \<Rightarrow> nat \<Rightarrow> nat \<Rightarrow> status outcome" where
  "all_unused mp index i n =
     (if i < n then
        if index + i < length mp
        then (if mp ! (index + i) \<noteq> 0 then Ret ERR_NO_MEMORY else all_unused mp index (i + 1) n)
        else Fault
      else Ret NO_ERROR)"
  by pat_completeness auto
termination
  by (relation "measure (\<lambda>(mp, index, i, n). n - i)") auto

declare all_unused.simps [simp del]

definition novm_alloc_specific_pages :: "nat \<Rightarrow> nat \<Rightarrow> novm_arena \<Rightarrow> (status \<times> novm_arena) outcome" where
  "novm_alloc_specific_pages address n a =
     (if \<not> in_arena a address then Ret (ERR_NOT_FOUND, a)
      else
        let index = (address - pbase a) div PAGE_SIZE in
        case all_unused (pmap a) index 0 n of
          Fault \<Rightarrow> Fault
        | Hang \<Rightarrow> Hang
        | Ret err \<Rightarrow>
            Ret (err, if err = NO_ERROR then a\<lparr>pmap := splice_at (pmap a) index (replicate n 1)\<rparr> else a))"

text \<open>\<^verbatim>\<open>novm_get_arenas\<close>: the number of ranges found and the ranges filled in.\<close>

definition novm_get_arenas :: "nat \<Rightarrow> novm_arena \<Rightarrow> nat \<times> (nat \<times> nat) list" where
  "novm_get_arenas number_of_ranges a =
     (if 0 < number_of_ranges
      then (if pages a > 0 then 1 else 0, [(pbase a, mul64 (pages a) PAGE_SIZE)]) else (0, []))"

text \<open>The wrapper; \<^verbatim>\<open>PAGE_ALLOC_ANY_ARENA\<close> is -1.\<close>

definition page_alloc :: "nat \<Rightarrow> u32 \<Rightarrow> novm_arena \<Rightarrow> nat \<times> novm_arena" where
  "page_alloc n arena_mask a = novm_alloc_pages n arena_mask a"

definition page_free :: "nat \<Rightarrow> nat \<Rightarrow> novm_arena \<Rightarrow> novm_arena outcome" where
  "page_free ptr n a = novm_free_pages ptr n a"

definition page_get_arenas :: "nat \<Rightarrow> novm_arena \<Rightarrow> nat \<times> (nat \<times> nat) list" where
  "page_get_arenas number_of_ranges a = novm_get_arenas number_of_ranges a"

definition page_first_alloc :: "novm_arena \<Rightarrow> nat \<times> nat \<times> novm_arena" where
  "page_first_alloc a = novm_alloc_unaligned a"

section \<open>Searching the map\<close>

definition run_free :: "byte list \<Rightarrow> nat \<Rightarrow> nat \<Rightarrow> bool" where
  "run_free mp n i \<longleftrightarrow> (\<forall>k<n. mp ! (i + k) = 0)"

lemma first_used_None: "first_used mp i j n = None \<longleftrightarrow> (\<forall>k. j \<le> k \<and> k < n \<longrightarrow> mp ! (i + k) = 0)"
proof (induction mp i j n rule: first_used.induct)
  case (1 mp i j n)
  show ?case
  proof (cases "j < n \<and> mp ! (i + j) = 0")
    case True
    then have "first_used mp i j n = first_used mp i (j + 1) n" by (simp add: first_used.simps)
    also have "\<dots> = None \<longleftrightarrow> (\<forall>k. j + 1 \<le> k \<and> k < n \<longrightarrow> mp ! (i + k) = 0)" using 1 True by blast
    also have "\<dots> \<longleftrightarrow> (\<forall>k. j \<le> k \<and> k < n \<longrightarrow> mp ! (i + k) = 0)"
      using True by (metis Suc_eq_plus1 le_eq_less_or_eq less_eq_Suc_le)
    finally show ?thesis .
  next
    case False
    then show ?thesis by (auto simp: first_used.simps [of mp i j n])
  qed
qed

lemma first_used_Some: "first_used mp i j n = Some k \<Longrightarrow> j \<le> k \<and> k < n \<and> mp ! (i + k) \<noteq> 0"
proof (induction mp i j n rule: first_used.induct)
  case (1 mp i j n)
  then show ?case by (subst (asm) (2) first_used.simps) (force split: if_splits)
qed

lemma novm_scan_Some:
  assumes "novm_scan mp np n i = Some r"
  shows "i \<le> r \<and> r \<le> np - n \<and> run_free mp n r \<and> (\<forall>s. i \<le> s \<and> s < r \<longrightarrow> \<not> run_free mp n s)"
  using assms
proof (induction mp np n i rule: novm_scan.induct)
  case (1 mp np n i)
  show ?case
  proof (cases "first_used mp i 0 n")
    case None
    then show ?thesis using 1(2) first_used_None [of mp i 0 n]
      by (subst (asm) novm_scan.simps) (auto simp: run_free_def split: if_splits)
  next
    case (Some j)
    then have rec: "i \<le> np - n" "novm_scan mp np n (i + j + 1) = Some r"
      using 1(2) novm_scan.simps [of mp np n i] by (simp_all split: if_splits)
    have j: "j < n" "mp ! (i + j) \<noteq> 0" using first_used_Some [OF Some] by auto
    have "\<not> run_free mp n s" if "i \<le> s" "s \<le> i + j" for s
    proof -
      have "s + (i + j - s) = i + j" "i + j - s < n" using that j(1) by linarith+
      then show ?thesis using j(2) unfolding run_free_def by metis
    qed
    moreover have "s \<le> i + j \<or> i + j + 1 \<le> s" for s by linarith
    ultimately show ?thesis using 1(1) [OF rec(1) Some rec(2)] by (meson add_leD1 le_trans)
  qed
qed

lemma novm_scan_None:
  assumes "novm_scan mp np n i = None" and "i \<le> s" and "s \<le> np - n"
  shows "\<not> run_free mp n s"
  using assms
proof (induction mp np n i rule: novm_scan.induct)
  case (1 mp np n i)
  have le: "i \<le> np - n" using 1(3,4) by linarith
  then obtain j where j: "first_used mp i 0 n = Some j" "novm_scan mp np n (i + j + 1) = None"
    using 1(2) novm_scan.simps [of mp np n i] by (cases "first_used mp i 0 n") simp_all
  have u: "j < n" "mp ! (i + j) \<noteq> 0" using first_used_Some [OF j(1)] by auto
  show ?case
  proof (cases "s \<le> i + j")
    case True
    then have "s + (i + j - s) = i + j" "i + j - s < n" using 1(3) u(1) by linarith+
    then show ?thesis using u(2) unfolding run_free_def by metis
  next
    case False
    then show ?thesis using 1(1) [OF le j] 1(4) by simp
  qed
qed

section \<open>Pages in use\<close>

text \<open>The state of the arena between calls: one map byte per page, no address wraps.\<close>

definition arena_ok :: "novm_arena \<Rightarrow> bool" where
  "arena_ok a \<longleftrightarrow> length (pmap a) = pages a \<and> psize a = pages a * PAGE_SIZE
     \<and> 0 < pbase a \<and> PAGE_SIZE dvd pbase a \<and> pbase a + psize a < 2 ^ 64"

definition arena_range :: "novm_arena \<Rightarrow> nat set" where
  "arena_range a = {pbase a ..< pbase a + psize a}"

text \<open>The addresses of the pages in use.\<close>

definition in_use :: "novm_arena \<Rightarrow> nat set" where
  "in_use a = {x \<in> arena_range a. pmap a ! ((x - pbase a) div PAGE_SIZE) \<noteq> 0}"

definition page_run :: "novm_arena \<Rightarrow> nat \<Rightarrow> nat \<Rightarrow> nat set" where
  "page_run a i n = {pbase a + i * PAGE_SIZE ..< pbase a + (i + n) * PAGE_SIZE}"

lemma page_index:
  assumes "x \<in> arena_range a" and "arena_ok a"
  shows "(x - pbase a) div PAGE_SIZE < pages a"
    and "x \<in> page_run a i n \<longleftrightarrow> i \<le> (x - pbase a) div PAGE_SIZE \<and> (x - pbase a) div PAGE_SIZE < i + n"
proof -
  let ?d = "x - pbase a"
  have x: "x = pbase a + ?d" "?d < pages a * PAGE_SIZE"
    using assms by (auto simp: arena_range_def arena_ok_def)
  show "?d div PAGE_SIZE < pages a" using x(2) by (simp add: less_mult_imp_div_less)
  have "i \<le> ?d div PAGE_SIZE \<longleftrightarrow> i * PAGE_SIZE \<le> ?d" "?d div PAGE_SIZE < i + n \<longleftrightarrow> ?d < (i + n) * PAGE_SIZE"
    by (simp_all add: PAGE_SIZE_def less_eq_div_iff_mult_less_eq div_less_iff_less_mult)
  then show "x \<in> page_run a i n \<longleftrightarrow> i \<le> ?d div PAGE_SIZE \<and> ?d div PAGE_SIZE < i + n"
    using x(1) unfolding page_run_def by auto
qed

lemma page_run_in_arena:
  assumes "arena_ok a" and "i + n \<le> pages a"
  shows "page_run a i n \<subseteq> arena_range a"
proof -
  have "(i + n) * PAGE_SIZE \<le> pages a * PAGE_SIZE" using assms(2) by (rule mult_le_mono1)
  then show ?thesis using assms(1) by (auto simp: page_run_def arena_range_def arena_ok_def)
qed

lemma nth_splice_rep:
  assumes "i + n \<le> length xs" and "k < length xs"
  shows "splice_at xs i (replicate n v) ! k = (if i \<le> k \<and> k < i + n then v else xs ! k)"
  using assms by (auto simp: splice_at_def nth_append min_def)

text \<open>Writing the map of a run of pages changes the use of exactly these.\<close>

lemma arena_set_run:
  fixes v :: byte
  assumes "arena_ok a" and "i + n \<le> pages a"
  defines "a' \<equiv> a\<lparr>pmap := splice_at (pmap a) i (replicate n v)\<rparr>"
  shows "arena_ok a'" and "arena_range a' = arena_range a"
    and "in_use a' = (if v = 0 then in_use a - page_run a i n else in_use a \<union> page_run a i n)"
proof -
  have len: "length (pmap a) = pages a" using assms(1) by (simp add: arena_ok_def)
  show "arena_ok a'" using assms(1,2) len by (simp add: a'_def arena_ok_def length_splice)
  show r: "arena_range a' = arena_range a" by (simp add: a'_def arena_range_def)
  have "x \<in> in_use a' \<longleftrightarrow> (if x \<in> page_run a i n then v \<noteq> 0 else x \<in> in_use a)" if x: "x \<in> arena_range a" for x
    using x page_index [OF x assms(1)] nth_splice_rep [of i n "pmap a" "(x - pbase a) div PAGE_SIZE" v] assms(2) len r
    by (simp add: in_use_def a'_def)
  moreover have "in_use a \<subseteq> arena_range a" "in_use a' \<subseteq> arena_range a" using r by (auto simp: in_use_def)
  ultimately show "in_use a' = (if v = 0 then in_use a - page_run a i n else in_use a \<union> page_run a i n)"
    using page_run_in_arena [OF assms(1,2)] by (auto split: if_splits)
qed

lemma page_addr:
  assumes "arena_ok a" and "i \<le> pages a"
  shows "add64 (pbase a) (mul64 i PAGE_SIZE) = pbase a + i * PAGE_SIZE"
proof -
  have "i * PAGE_SIZE \<le> pages a * PAGE_SIZE" using assms(2) by (rule mult_le_mono1)
  moreover have "pbase a + pages a * PAGE_SIZE < 2 ^ 64" using assms(1) by (simp add: arena_ok_def)
  ultimately have "pbase a + i * PAGE_SIZE < 2 ^ 64" "i * PAGE_SIZE < 2 ^ 64" by linarith+
  then show ?thesis by (simp add: wrap_simps)
qed

lemma run_free_iff:
  assumes ok: "arena_ok a" and i: "i + n \<le> pages a"
  shows "run_free (pmap a) n i \<longleftrightarrow> page_run a i n \<inter> in_use a = {}"
proof
  assume free: "run_free (pmap a) n i"
  show "page_run a i n \<inter> in_use a = {}"
  proof (rule ccontr)
    assume "page_run a i n \<inter> in_use a \<noteq> {}"
    then obtain x where x: "x \<in> page_run a i n" "x \<in> arena_range a" "pmap a ! ((x - pbase a) div PAGE_SIZE) \<noteq> 0"
      by (auto simp: in_use_def)
    let ?k = "(x - pbase a) div PAGE_SIZE"
    have "i + (?k - i) = ?k" "?k - i < n" using page_index(2) [OF x(2) ok, of i n] x(1) by auto
    then show False using free x(3) unfolding run_free_def by metis
  qed
next
  assume none: "page_run a i n \<inter> in_use a = {}"
  show "run_free (pmap a) n i" unfolding run_free_def
  proof (intro allI impI)
    fix k assume k: "k < n"
    let ?x = "pbase a + (i + k) * PAGE_SIZE"
    have "(i + k) * PAGE_SIZE < (i + n) * PAGE_SIZE" using k by (simp add: PAGE_SIZE_def)
    then have "?x \<in> page_run a i n" by (auto simp: page_run_def)
    moreover have "(?x - pbase a) div PAGE_SIZE = i + k" by (simp add: PAGE_SIZE_def)
    ultimately show "pmap a ! (i + k) = 0" using none page_run_in_arena [OF ok i] unfolding in_use_def by fastforce
  qed
qed

section \<open>Allocating and freeing pages\<close>

lemma page_alloc_found:
  assumes ok: "arena_ok a" and m: "bit am 0" and n: "0 < n" and i: "i + n \<le> pages a"
    and free: "page_run a i n \<inter> in_use a = {}"
    and least: "\<And>j. j < i \<Longrightarrow> page_run a j n \<inter> in_use a \<noteq> {}"
  shows "page_alloc n am a = (pbase a + i * PAGE_SIZE, a\<lparr>pmap := splice_at (pmap a) i (replicate n 1)\<rparr>)"
proof -
  have i': "i \<le> pages a - n" and f: "run_free (pmap a) n i" using i free run_free_iff [OF ok i] by auto
  have "novm_scan (pmap a) (pages a) n 0 \<noteq> None" using novm_scan_None [of "pmap a" "pages a" n 0 i] i' f by blast
  then obtain r where r: "novm_scan (pmap a) (pages a) n 0 = Some r" by blast
  have s: "r \<le> pages a - n" "run_free (pmap a) n r" "\<forall>s<r. \<not> run_free (pmap a) n s"
    using novm_scan_Some [OF r] by auto
  have "\<not> r < i" using least [of r] run_free_iff [OF ok, of r n] s(1,2) i by auto
  then have "r = i" using s(3) f by (meson linorder_neqE_nat)
  then show ?thesis using r n i m page_addr [OF ok, of i]
    by (simp add: page_alloc_def novm_alloc_pages_def novm_alloc_helper_def)
qed

lemma page_alloc_none:
  assumes ok: "arena_ok a" and none: "\<And>i. i + n \<le> pages a \<Longrightarrow> page_run a i n \<inter> in_use a \<noteq> {}"
  shows "page_alloc n am a = (0, a)"
proof (cases "novm_scan (pmap a) (pages a) n 0")
  case None
  then show ?thesis by (simp add: page_alloc_def novm_alloc_pages_def novm_alloc_helper_def)
next
  case (Some r)
  then have "r \<le> pages a - n" "run_free (pmap a) n r" using novm_scan_Some [OF Some] by auto
  then have "pages a < n" using none [of r] run_free_iff [OF ok, of r n] by fastforce
  then show ?thesis by (simp add: page_alloc_def novm_alloc_pages_def novm_alloc_helper_def)
qed

lemma page_alloc_cases:
  assumes ok: "arena_ok a" and m: "bit am 0"
  obtains "page_alloc n am a = (0, a)" "n = 0 \<or> (\<nexists>i. i + n \<le> pages a \<and> page_run a i n \<inter> in_use a = {})"
  | i a' where "page_alloc n am a = (pbase a + i * PAGE_SIZE, a')" "0 < n" "i + n \<le> pages a"
    "page_run a i n \<inter> in_use a = {}" "\<nexists>j. j < i \<and> page_run a j n \<inter> in_use a = {}"
    "arena_ok a'" "in_use a' = in_use a \<union> page_run a i n" "pbase a' = pbase a" "arena_range a' = arena_range a"
proof (cases "0 < n \<and> (\<exists>i. i + n \<le> pages a \<and> page_run a i n \<inter> in_use a = {})")
  case True
  define i where "i = (LEAST i. i + n \<le> pages a \<and> page_run a i n \<inter> in_use a = {})"
  have i: "i + n \<le> pages a" "page_run a i n \<inter> in_use a = {}"
    using True LeastI_ex [of "\<lambda>i. i + n \<le> pages a \<and> page_run a i n \<inter> in_use a = {}"] unfolding i_def by blast+
  have l: "page_run a j n \<inter> in_use a \<noteq> {}" if "j < i" for j
    using not_less_Least [of j "\<lambda>i. i + n \<le> pages a \<and> page_run a i n \<inter> in_use a = {}"] that i(1)
    unfolding i_def by auto
  show ?thesis
    using that(2) page_alloc_found [OF ok m _ i l] arena_set_run [OF ok i(1), of 1] True i l by fastforce
next
  case False
  show ?thesis
  proof (cases "n = 0")
    case True
    then show ?thesis using that(1) by (simp add: page_alloc_def novm_alloc_pages_def novm_alloc_helper_def)
  next
    case ne: False
    then show ?thesis using that(1) page_alloc_none [OF ok, of n am] False by blast
  qed
qed

text \<open>The page allocator is first fit and complete. It returns the lowest run of pages
none of which is in use, and marks exactly these as used; if there is no such run (or no page
is asked for) it returns null and changes nothing. Two live allocations never overlap,
because a run is only handed out while unused.\<close>

theorem page_alloc_first_fit:
  assumes "arena_ok a" and "bit am 0"
  shows "if 0 < n \<and> (\<exists>i. i + n \<le> pages a \<and> page_run a i n \<inter> in_use a = {})
    then \<exists>i a'. page_alloc n am a = (pbase a + i * PAGE_SIZE, a') \<and> i + n \<le> pages a
      \<and> page_run a i n \<inter> in_use a = {} \<and> (\<nexists>j. j < i \<and> page_run a j n \<inter> in_use a = {})
      \<and> arena_ok a' \<and> in_use a' = in_use a \<union> page_run a i n
    else page_alloc n am a = (0, a)"
proof (cases rule: page_alloc_cases [OF assms, of n])
  case 1
  then have "\<not> (0 < n \<and> (\<exists>i. i + n \<le> pages a \<and> page_run a i n \<inter> in_use a = {}))" by auto
  then show ?thesis using 1(1) by (simp only: if_False)
next
  case (2 i a')
  then have "0 < n \<and> (\<exists>i. i + n \<le> pages a \<and> page_run a i n \<inter> in_use a = {})" by blast
  then show ?thesis using 2(1,3-7) by (subst if_P) blast+
qed

definition small_arena :: novm_arena where
  "small_arena = \<lparr>pages = 4, map_addr = 64, pmap = [1, 0, 0, 1], pbase = 8192, psize = 16384,
     unaligned_area = 0, unaligned_size = 0\<rparr>"

lemma small_arena_ok: "arena_ok small_arena"
  by (simp add: arena_ok_def small_arena_def PAGE_SIZE_def)

lemma small_arena_run: "page_run small_arena 1 2 \<inter> in_use small_arena = {}"
proof -
  have "run_free (pmap small_arena) 2 1"
    by (simp add: run_free_def small_arena_def numeral_2_eq_2 less_Suc_eq)
  then show ?thesis using run_free_iff [OF small_arena_ok, of 1 2] by (simp add: small_arena_def)
qed

theorem page_alloc_first_fit_witness:
  "\<exists>i a'. page_alloc 2 (- 1) small_arena = (8192 + i * PAGE_SIZE, a') \<and> i + 2 \<le> 4
    \<and> arena_ok a' \<and> in_use a' = in_use small_arena \<union> page_run small_arena i 2"
proof -
  have "1 + 2 \<le> pages small_arena" "pages small_arena = 4" "pbase small_arena = 8192" "bit (- 1 :: u32) 0"
    by (simp_all add: small_arena_def bit_minus_1_iff)
  then show ?thesis
    using page_alloc_first_fit [OF small_arena_ok, of "- 1" 2] small_arena_run by (simp split: if_splits) blast
qed

text \<open>Freeing a run of whole pages of the arena.\<close>

lemma page_free_run:
  assumes ok: "arena_ok a" and i: "i + n \<le> pages a" and n: "0 < n"
  shows "\<exists>a'. page_free (pbase a + i * PAGE_SIZE) n a = Ret a' \<and> arena_ok a' \<and> arena_range a' = arena_range a
    \<and> pbase a' = pbase a \<and> in_use a' = in_use a - page_run a i n"
proof -
  have "i < pages a" using i n by linarith
  then have "i * PAGE_SIZE < pages a * PAGE_SIZE" by (simp add: PAGE_SIZE_def)
  then have "in_arena a (pbase a + i * PAGE_SIZE)" using ok by (auto simp: in_arena_def arena_ok_def wrap_simps)
  moreover have "i * PAGE_SIZE div PAGE_SIZE = i" by (simp add: PAGE_SIZE_def)
  moreover have "i + n \<le> length (pmap a)" using i ok by (simp add: arena_ok_def)
  ultimately show ?thesis using arena_set_run [OF ok i, of 0] by (simp add: page_free_def novm_free_pages_def)
qed

text \<open>An allocation at a given place succeeds exactly when all pages of the run are unused.\<close>

lemma all_unused_spec:
  "index + n \<le> length mp \<Longrightarrow> i \<le> n \<Longrightarrow> all_unused mp index i n
    = Ret (if \<forall>k. i \<le> k \<and> k < n \<longrightarrow> mp ! (index + k) = 0 then NO_ERROR else ERR_NO_MEMORY)"
proof (induction mp index i n rule: all_unused.induct)
  case (1 mp index i n)
  show ?case
  proof (cases "i < n \<and> mp ! (index + i) = 0")
    case True
    then have "all_unused mp index i n = all_unused mp index (i + 1) n"
      using 1(2) by (simp add: all_unused.simps [of mp index i n])
    moreover have "(\<forall>k. i + 1 \<le> k \<and> k < n \<longrightarrow> mp ! (index + k) = 0) \<longleftrightarrow> (\<forall>k. i \<le> k \<and> k < n \<longrightarrow> mp ! (index + k) = 0)"
      using True by (metis Suc_eq_plus1 le_eq_less_or_eq less_eq_Suc_le)
    ultimately show ?thesis using 1 True by simp
  next
    case False
    then show ?thesis using 1(2,3) by (auto simp: all_unused.simps [of mp index i n])
  qed
qed

lemma alloc_specific_run:
  assumes ok: "arena_ok a" and i: "i + n \<le> pages a" and n: "0 < n"
  shows "\<exists>err a'. novm_alloc_specific_pages (pbase a + i * PAGE_SIZE) n a = Ret (err, a') \<and> arena_ok a'
    \<and> (if page_run a i n \<inter> in_use a = {} then err = NO_ERROR \<and> in_use a' = in_use a \<union> page_run a i n
        else err = ERR_NO_MEMORY \<and> a' = a)"
proof -
  have "i < pages a" using i n by linarith
  then have "i * PAGE_SIZE < pages a * PAGE_SIZE" by (simp add: PAGE_SIZE_def)
  then have a: "in_arena a (pbase a + i * PAGE_SIZE)" using ok by (auto simp: in_arena_def arena_ok_def wrap_simps)
  have x: "i * PAGE_SIZE div PAGE_SIZE = i" by (simp add: PAGE_SIZE_def)
  have "i + n \<le> length (pmap a)" using i ok by (simp add: arena_ok_def)
  then have "all_unused (pmap a) i 0 n
      = Ret (if page_run a i n \<inter> in_use a = {} then NO_ERROR else ERR_NO_MEMORY)"
    using all_unused_spec [of i n "pmap a" 0] run_free_iff [OF ok i] by (simp add: run_free_def)
  then show ?thesis using arena_set_run [OF ok i, of 1] a x ok by (simp add: novm_alloc_specific_pages_def)
qed

section \<open>Boot\<close>

lemma roundup64_eq: "a + (b - 1) < 2 ^ 64 \<Longrightarrow> roundup64 a b = roundup a b"
  by (simp add: roundup64_def wrap_simps roundup_def rounddown_def minus_mod_eq_div_mult)

text \<open>
  The state after boot: all pages between the end of the image and the end of memory are
  unused, and the piece before the first whole page is left for the heap.
\<close>

lemma novm_init_ok:
  assumes "0 < end_addr" and "membase \<le> end_addr" and "membase + memsize < 2 ^ 64" and "mp \<noteq> 0"
    and room: "roundup end_addr PAGE_SIZE \<le> rounddown (membase + memsize) PAGE_SIZE"
  defines "a \<equiv> novm_init end_addr membase memsize mp"
  shows "arena_ok a" and "in_use a = {}" and "arena_range a \<subseteq> {end_addr ..< membase + memsize}"
    and "unaligned_area a = 0 \<or> unaligned_area a = end_addr \<and> 64 \<le> unaligned_size a
      \<and> end_addr + unaligned_size a = pbase a \<and> unaligned_size a < PAGE_SIZE"
    and "pbase a = roundup end_addr PAGE_SIZE" and "psize a = rounddown (membase + memsize) PAGE_SIZE - roundup end_addr PAGE_SIZE"
proof -
  let ?s = "roundup end_addr PAGE_SIZE" and ?e = "rounddown (membase + memsize) PAGE_SIZE"
  have P: "0 < PAGE_SIZE" by (simp add: PAGE_SIZE_def)
  have b: "end_addr \<le> ?s" "?s < end_addr + PAGE_SIZE" "?e \<le> membase + memsize"
    using roundup_ge [OF P] roundup_less [OF P] by auto
  have le: "end_addr \<le> membase + memsize" using b room by linarith
  obtain k j where kj: "?s = PAGE_SIZE * k" "?e = PAGE_SIZE * j" using roundup_dvd rounddown_dvd by (meson dvdE)
  then have "PAGE_SIZE * k < 2 ^ 64" using b room assms(3) by linarith
  then have "k < 2 ^ 52" by (simp add: PAGE_SIZE_def)
  then have "end_addr + (PAGE_SIZE - 1) < 2 ^ 64" using b(1) kj(1) by (simp add: PAGE_SIZE_def)
  then have s: "roundup64 end_addr PAGE_SIZE = ?s" by (rule roundup64_eq)
  have lt: "?e < 2 ^ 64" "?s < 2 ^ 64" using b room assms(3) by linarith+
  then have sz: "sub64 ?e ?s = ?e - ?s" and un: "sub64 ?s end_addr = ?s - end_addr"
    using room b(1) by (auto intro: sub64_id)
  have end_eq: "add64 end_addr (sub64 (add64 membase memsize) end_addr) = membase + memsize"
    using le assms(3) by (simp add: wrap_simps)
  have "?e - ?s \<le> memsize" using b assms(2) by linarith
  then have "(?e - ?s) div PAGE_SIZE \<le> memsize div PAGE_SIZE" by (rule div_le_mono)
  then have "a = (let n = (if 64 \<le> ?s - end_addr
        then zero_arena\<lparr>unaligned_area := end_addr, unaligned_size := ?s - end_addr\<rparr> else zero_arena) in
      n\<lparr>map_addr := mp, pmap := replicate ((?e - ?s) div PAGE_SIZE) 0, pages := (?e - ?s) div PAGE_SIZE,
        pbase := ?s, psize := ?e - ?s\<rparr>)"
    using assms(4) by (simp add: a_def novm_init_def novm_init_helper_def s sz end_eq un Let_def)
  then have f: "pmap a = replicate (pages a) 0" "pages a = (?e - ?s) div PAGE_SIZE" "pbase a = ?s" "psize a = ?e - ?s"
    "unaligned_area a = (if 64 \<le> ?s - end_addr then end_addr else 0)"
    "unaligned_size a = (if 64 \<le> ?s - end_addr then ?s - end_addr else 0)"
    by (simp_all add: Let_def zero_arena_def split: if_splits)
  have "PAGE_SIZE dvd ?e - ?s" using kj by simp
  then have "psize a = pages a * PAGE_SIZE" using f(2,4) by simp
  then show ok: "arena_ok a" using f(1,3,4) b(1) assms(1) room lt by (simp add: arena_ok_def)
  show "in_use a = {}" using page_index(1) [OF _ ok] f(1) by (auto simp: in_use_def)
  show "arena_range a \<subseteq> {end_addr ..< membase + memsize}" using f(3,4) b room by (auto simp: arena_range_def)
  show "unaligned_area a = 0 \<or> unaligned_area a = end_addr \<and> 64 \<le> unaligned_size a
      \<and> end_addr + unaligned_size a = pbase a \<and> unaligned_size a < PAGE_SIZE"
    using f(3,5,6) b by auto
  show "pbase a = ?s" "psize a = ?e - ?s" using f by simp_all
qed

end
