(* ===== verification/Miniheap.thy ===== *)
theory Miniheap
  imports Novm
begin

text \<open>
  The heap: \<^verbatim>\<open>lib/heap/miniheap/miniheap.c\<close> and the wrapper \<^verbatim>\<open>lib/heap/heap_wrapper.c\<close> with the
  miniheap selected (\<^verbatim>\<open>DEBUG_HEAP\<close> and \<^verbatim>\<open>MINIHEAP_AUTOTRIM\<close> are 0). The free list is kept as
  the list of its chunks (address and length) in list order; the structures that precede the
  allocations are a map from the address handed out. Memory contents are a function of the
  address, without the list nodes and headers, which are in these two fields. \<open>head_addr\<close> is the
  address of \<^verbatim>\<open>theheap.free_list\<close>: walking off the end of the list leaves
  \<^verbatim>\<open>next_chunk\<close> pointing there. A failed debug assertion or an access to memory that is none
  of the heap's is a \<open>Fault\<close>. Each call is one step; the mutex is not represented.
\<close>

section \<open>Model\<close>

type_synonym chunk = "nat \<times> nat"

record alloc_struct_begin =
  magic :: u32
  aptr :: nat
  asize :: nat

record heap =
  hbase :: nat
  hlen :: nat
  remaining :: nat
  low_watermark :: nat
  head_addr :: nat
  free_list :: "chunk list"
  headers :: "nat \<rightharpoonup> alloc_struct_begin"
  mem :: "nat \<Rightarrow> byte"
  arena :: novm_arena
  delayed_free_list :: "nat list"

definition HEAP_MAGIC :: u32 where
  "HEAP_MAGIC = 0x48454150"

text \<open>\<^verbatim>\<open>sizeof (struct free_heap_chunk)\<close> and \<^verbatim>\<open>sizeof (struct alloc_struct_begin)\<close> are both 24.\<close>

abbreviation CHUNK_HDR :: nat where "CHUNK_HDR \<equiv> 24"
abbreviation ALLOC_HDR :: nat where "ALLOC_HDR \<equiv> 24"

subsection \<open>The free list\<close>

definition chunk_end :: "chunk \<Rightarrow> nat" where
  "chunk_end c = add64 (fst c) (snd c)"

text \<open>Merging with the previous chunk: what is left before the chunk, and the chunk it became.\<close>

definition merge_last :: "chunk list \<Rightarrow> chunk \<Rightarrow> chunk list \<times> chunk" where
  "merge_last pre c =
     (if pre \<noteq> [] \<and> chunk_end (last pre) = fst c
      then (butlast pre, (fst (last pre), add64 (snd (last pre)) (snd c)))
      else (pre, c))"

text \<open>
  Merging with the next chunk. Past the last chunk the code compares with the list head and
  would merge with that.
\<close>

definition merge_next :: "nat \<Rightarrow> chunk \<Rightarrow> chunk list \<Rightarrow> chunk list outcome" where
  "merge_next head c post =
     (case post of
        [] \<Rightarrow> if chunk_end c = head then Fault else Ret [c]
      | next # rest \<Rightarrow>
          if chunk_end c = fst next then Ret ((fst c, add64 (snd c) (snd next)) # rest) else Ret (c # post))"

text \<open>The list part of \<^verbatim>\<open>heap_insert_free_chunk\<close>, with the base of the chunk it became.\<close>

definition insert_chunk :: "nat \<Rightarrow> chunk \<Rightarrow> chunk list \<Rightarrow> (nat \<times> chunk list) outcome" where
  "insert_chunk head c fl =
     (let pre = takeWhile (\<lambda>next. \<not> fst c < fst next) fl;
          post = dropWhile (\<lambda>next. \<not> fst c < fst next) fl in
      if post \<noteq> [] \<and> \<not> chunk_end c \<le> fst (hd post) then Fault
      else
        case merge_last pre c of (pre, c) \<Rightarrow>
          (case merge_next head c post of
             Ret post \<Rightarrow> Ret (fst c, pre @ post)
           | Fault \<Rightarrow> Fault
           | Hang \<Rightarrow> Hang))"

definition heap_insert_free_chunk :: "chunk \<Rightarrow> heap \<Rightarrow> (nat \<times> heap) outcome" where
  "heap_insert_free_chunk c h =
     (let h = h\<lparr>remaining := add64 (remaining h) (snd c)\<rparr> in
      case insert_chunk (head_addr h) c (free_list h) of
        Ret (a, fl) \<Rightarrow> Ret (a, h\<lparr>free_list := fl\<rparr>)
      | Fault \<Rightarrow> Fault
      | Hang \<Rightarrow> Hang)"

definition heap_create_free_chunk :: "nat \<Rightarrow> nat \<Rightarrow> chunk outcome" where
  "heap_create_free_chunk ptr len = (if len mod 8 = 0 \<and> CHUNK_HDR \<le> len then Ret (ptr, len) else Fault)"

definition create_and_insert :: "nat \<Rightarrow> nat \<Rightarrow> heap \<Rightarrow> heap outcome" where
  "create_and_insert ptr len h =
     (case heap_create_free_chunk ptr len of
        Ret c \<Rightarrow>
          (case heap_insert_free_chunk c h of Ret (_, h) \<Rightarrow> Ret h | Fault \<Rightarrow> Fault | Hang \<Rightarrow> Hang)
      | Fault \<Rightarrow> Fault
      | Hang \<Rightarrow> Hang)"

subsection \<open>Allocation\<close>

text \<open>The walk of \<^verbatim>\<open>miniheap_alloc\<close> to the first chunk that is big enough.\<close>

fun find_fit :: "nat \<Rightarrow> chunk list \<Rightarrow> chunk list \<Rightarrow> (chunk list \<times> chunk \<times> chunk list) option outcome" where
  "find_fit sz pre [] = Ret None"
| "find_fit sz pre (c # post) =
     (if snd c mod 8 \<noteq> 0 then Fault
      else if sz \<le> snd c then Ret (Some (pre, c, post))
      else find_fit sz (pre @ [c]) post)"

text \<open>Splitting the chunk: its length after that and the new free list.\<close>

definition split_chunk :: "nat \<Rightarrow> chunk list \<Rightarrow> chunk \<Rightarrow> chunk list \<Rightarrow> (nat \<times> chunk list) outcome" where
  "split_chunk sz pre c post =
     (if snd c > add64 sz CHUNK_HDR then
        (case heap_create_free_chunk (add64 (fst c) sz) (sub64 (snd c) sz) of
           Ret newchunk \<Rightarrow> Ret (sub64 (snd c) (sub64 (snd c) sz), pre @ newchunk # post)
         | Fault \<Rightarrow> Fault
         | Hang \<Rightarrow> Hang)
      else Ret (snd c, pre @ post))"

definition take_chunk :: "nat \<Rightarrow> nat \<Rightarrow> chunk list \<Rightarrow> chunk \<Rightarrow> chunk list \<Rightarrow> heap \<Rightarrow> (nat \<times> heap) outcome" where
  "take_chunk sz alignment pre c post h =
     (case split_chunk sz pre c post of
        Ret (len, fl) \<Rightarrow>
          if len < sz then Fault
          else
            let ptr = add64 (fst c) ALLOC_HDR;
                ptr = (if alignment > 0 then roundup64 ptr alignment else ptr);
                h = h\<lparr>free_list := fl, headers := (headers h)(ptr \<mapsto> \<lparr>magic = HEAP_MAGIC, aptr = fst c, asize = len\<rparr>),
                  remaining := sub64 (remaining h) len\<rparr>;
                h = (if remaining h < low_watermark h then h\<lparr>low_watermark := remaining h\<rparr> else h) in
            Ret (ptr, h)
      | Fault \<Rightarrow> Fault
      | Hang \<Rightarrow> Hang)"

text \<open>One pass over the list, from the label \<^verbatim>\<open>retry\<close> to the release of the lock.\<close>

definition alloc_pass :: "nat \<Rightarrow> nat \<Rightarrow> heap \<Rightarrow> (nat \<times> heap) outcome" where
  "alloc_pass sz alignment h =
     (case find_fit sz [] (free_list h) of
        Ret None \<Rightarrow> Ret (0, h)
      | Ret (Some (pre, c, post)) \<Rightarrow> take_chunk sz alignment pre c post h
      | Fault \<Rightarrow> Fault
      | Hang \<Rightarrow> Hang)"

text \<open>\<^verbatim>\<open>heap_grow\<close>; the size is returned as a signed number.\<close>

definition heap_grow :: "nat \<Rightarrow> heap \<Rightarrow> (int \<times> heap) outcome" where
  "heap_grow sz h =
     (let sz = roundup64 sz PAGE_SIZE in
      case page_alloc (sz div PAGE_SIZE) (- 1) (arena h) of (ptr, ar) \<Rightarrow>
        if ptr = 0 then Ret (ERR_NO_MEMORY, h\<lparr>arena := ar\<rparr>)
        else
          (case create_and_insert ptr sz (h\<lparr>arena := ar\<rparr>) of
             Ret h \<Rightarrow>
               let h = (if ptr < hbase h \<or> hbase h = 0 then h\<lparr>hbase := ptr\<rparr> else h);
                   endptr = add64 ptr sz;
                   h = (if endptr > add64 (hbase h) (hlen h) then h\<lparr>hlen := sub64 endptr (hbase h)\<rparr> else h) in
               Ret (if sz < 2 ^ 63 then int sz else int sz - 2 ^ 64, h)
           | Fault \<Rightarrow> Fault
           | Hang \<Rightarrow> Hang))"

text \<open>The size of the chunk to look for, and the alignment in force.\<close>

definition alloc_request :: "nat \<Rightarrow> u32 \<Rightarrow> nat \<times> nat" where
  "alloc_request sz alignment =
     (let sz = add64 sz ALLOC_HDR;
          sz = (if sz < CHUNK_HDR then CHUNK_HDR else sz);
          sz = roundup64 sz 8;
          al = unat alignment in
      if al > 0 then (let al = (if al < 16 then 16 else al) in (add64 sz al, al)) else (sz, al))"

definition miniheap_alloc :: "nat \<Rightarrow> u32 \<Rightarrow> heap \<Rightarrow> (nat \<times> heap) outcome" where
  "miniheap_alloc sz alignment h =
     (if alignment AND (alignment - 1) \<noteq> 0 then Ret (0, h)
      else
        case alloc_request sz alignment of (sz, al) \<Rightarrow>
          (case alloc_pass sz al h of
             Ret (ptr, h) \<Rightarrow>
               if ptr = 0 then
                 (case heap_grow sz h of
                    Ret (err, h) \<Rightarrow> if err \<ge> 0 then alloc_pass sz al h else Ret (0, h)
                  | Fault \<Rightarrow> Fault
                  | Hang \<Rightarrow> Hang)
               else Ret (ptr, h)
           | Fault \<Rightarrow> Fault
           | Hang \<Rightarrow> Hang))"

text \<open>
  \<^verbatim>\<open>miniheap_free\<close>. The list node written into the chunk may overlay the old header, so it is
  gone afterwards; an address without a header is a \<open>Fault\<close>.
\<close>

definition miniheap_free :: "nat \<Rightarrow> heap \<Rightarrow> heap outcome" where
  "miniheap_free ptr h =
     (if ptr = 0 then Ret h
      else
        case headers h ptr of
          None \<Rightarrow> Fault
        | Some as \<Rightarrow>
            if magic as \<noteq> HEAP_MAGIC then Fault
            else create_and_insert (aptr as) (asize as) (h\<lparr>headers := (headers h)(ptr := None)\<rparr>))"

definition copy_mem :: "nat \<Rightarrow> nat \<Rightarrow> nat \<Rightarrow> heap \<Rightarrow> heap" where
  "copy_mem dst src n h = h\<lparr>mem := (\<lambda>x. if dst \<le> x \<and> x < dst + n then mem h (src + (x - dst)) else mem h x)\<rparr>"

definition miniheap_realloc :: "nat \<Rightarrow> nat \<Rightarrow> heap \<Rightarrow> (nat \<times> heap) outcome" where
  "miniheap_realloc ptr sz h =
     (if ptr = 0 then miniheap_alloc sz 0 h
      else if sz = 0 then
        (case miniheap_free ptr h of Ret h \<Rightarrow> Ret (0, h) | Fault \<Rightarrow> Fault | Hang \<Rightarrow> Hang)
      else
        case miniheap_alloc sz 0 h of
          Ret (p, h) \<Rightarrow>
            if p = 0 then Ret (0, h)
            else (case miniheap_free ptr (copy_mem p ptr sz h) of Ret h \<Rightarrow> Ret (p, h) | Fault \<Rightarrow> Fault | Hang \<Rightarrow> Hang)
        | Fault \<Rightarrow> Fault
        | Hang \<Rightarrow> Hang)"

subsection \<open>Trimming\<close>

text \<open>The part of a free chunk that can go back: the loop around the label \<^verbatim>\<open>retry\<close>.\<close>

function trim_range :: "nat \<Rightarrow> nat \<Rightarrow> nat \<Rightarrow> nat \<Rightarrow> (nat \<times> nat) option" where
  "trim_range start fin start_page end_page =
     (if end_page > start_page then
        if start_page = start \<and> end_page = fin then Some (start_page, end_page)
        else if start_page \<noteq> start \<and> start_page - start < CHUNK_HDR
          then trim_range start fin (start_page + PAGE_SIZE) end_page
        else if end_page < fin \<and> fin - end_page < CHUNK_HDR
          then trim_range start fin start_page (end_page - PAGE_SIZE)
        else Some (start_page, end_page)
      else None)"
  by pat_completeness auto
termination
  by (relation "measure (\<lambda>(s, e, sp, ep). ep - sp)") (auto simp: PAGE_SIZE_def)

declare trim_range.simps [simp del]

text \<open>What is left of the chunk: nothing or the part before the pages, and the part after them.\<close>

definition trim_pieces :: "chunk \<Rightarrow> nat \<Rightarrow> nat \<Rightarrow> nat \<Rightarrow> chunk list outcome" where
  "trim_pieces c fin start_page end_page =
     (let start = fst c in
      if start_page = start \<and> end_page = fin then Ret []
      else if end_page < fin then
        (case heap_create_free_chunk end_page (fin - end_page) of
           Ret newchunk \<Rightarrow>
             (let len = snd c - (fin - end_page) in
              if start_page = start then Ret [newchunk]
              else Ret [(start, len - (end_page - start_page)), newchunk])
         | Fault \<Rightarrow> Fault
         | Hang \<Rightarrow> Hang)
      else Ret [(start, snd c - (end_page - start_page))])"

fun trim_loop :: "chunk list \<Rightarrow> chunk list \<Rightarrow> heap \<Rightarrow> heap outcome" where
  "trim_loop acc [] h = Ret (h\<lparr>free_list := acc\<rparr>)"
| "trim_loop acc (c # cs) h =
     (let start = fst c; fin = chunk_end c;
          start_page = roundup64 start PAGE_SIZE; end_page = rounddown fin PAGE_SIZE in
      if \<not> (start < fin \<and> start \<le> start_page) then Fault
      else
        case trim_range start fin start_page end_page of
          None \<Rightarrow> trim_loop (acc @ [c]) cs h
        | Some (start_page, end_page) \<Rightarrow>
            (case trim_pieces c fin start_page end_page of
               Ret pieces \<Rightarrow>
                 (case page_free start_page ((end_page - start_page) div PAGE_SIZE) (arena h) of
                    Ret ar \<Rightarrow>
                      trim_loop (acc @ pieces) cs
                        (h\<lparr>arena := ar, remaining := sub64 (remaining h) (end_page - start_page)\<rparr>)
                  | Fault \<Rightarrow> Fault
                  | Hang \<Rightarrow> Hang)
             | Fault \<Rightarrow> Fault
             | Hang \<Rightarrow> Hang))"

definition miniheap_trim :: "heap \<Rightarrow> heap outcome" where
  "miniheap_trim h = trim_loop [] (free_list h) h"

subsection \<open>Statistics and initialisation\<close>

record miniheap_stats =
  heap_start :: nat
  heap_len :: nat
  heap_free :: nat
  heap_max_chunk :: nat
  heap_low_watermark :: nat

definition miniheap_get_stats :: "heap \<Rightarrow> miniheap_stats" where
  "miniheap_get_stats h =
     \<lparr>heap_start = hbase h, heap_len = hlen h,
      heap_free = foldl (\<lambda>n c. add64 n (snd c)) 0 (free_list h),
      heap_max_chunk = foldl (\<lambda>n c. if snd c > n then snd c else n) 0 (free_list h),
      heap_low_watermark = low_watermark h\<rparr>"

definition miniheap_init :: "nat \<Rightarrow> nat \<Rightarrow> heap \<Rightarrow> heap outcome" where
  "miniheap_init ptr len h =
     (let h = h\<lparr>free_list := []\<rparr>; aligned_ptr = roundup64 ptr 8; slack = sub64 aligned_ptr ptr in
      if ptr mod 8 > 0 \<and> \<not> slack < len then Fault
      else
        let (ptr, len) = (if ptr mod 8 > 0 then (aligned_ptr, sub64 len slack) else (ptr, len));
            h = h\<lparr>hbase := ptr, hlen := len, remaining := 0, low_watermark := 0\<rparr> in
        if len > 0 then create_and_insert ptr len h else Ret h)"

section \<open>The wrapper\<close>

fun free_all :: "nat list \<Rightarrow> heap \<Rightarrow> heap outcome" where
  "free_all [] h = Ret h"
| "free_all (p # ps) h =
     (case miniheap_free p h of Ret h \<Rightarrow> free_all ps h | Fault \<Rightarrow> Fault | Hang \<Rightarrow> Hang)"

text \<open>\<^verbatim>\<open>heap_free_delayed_list\<close> moves the nodes one by one to the head of a local list, then frees them.\<close>

definition heap_free_delayed_list :: "heap \<Rightarrow> heap outcome" where
  "heap_free_delayed_list h = free_all (rev (delayed_free_list h)) (h\<lparr>delayed_free_list := []\<rparr>)"

definition flush_delayed :: "heap \<Rightarrow> heap outcome" where
  "flush_delayed h = (if delayed_free_list h \<noteq> [] then heap_free_delayed_list h else Ret h)"

definition heap_init :: "heap \<Rightarrow> heap outcome" where
  "heap_init h =
     (case page_first_alloc (arena h) of (ptr, len, ar) \<Rightarrow> miniheap_init ptr len (h\<lparr>arena := ar\<rparr>))"

definition heap_trim :: "heap \<Rightarrow> heap outcome" where
  "heap_trim h = (case flush_delayed h of Ret h \<Rightarrow> miniheap_trim h | Fault \<Rightarrow> Fault | Hang \<Rightarrow> Hang)"

definition malloc :: "nat \<Rightarrow> heap \<Rightarrow> (nat \<times> heap) outcome" where
  "malloc sz h = (case flush_delayed h of Ret h \<Rightarrow> miniheap_alloc sz 0 h | Fault \<Rightarrow> Fault | Hang \<Rightarrow> Hang)"

text \<open>The boundary is a \<^verbatim>\<open>size_t\<close>, the parameter it is passed to an \<^verbatim>\<open>unsigned int\<close>.\<close>

definition memalign :: "nat \<Rightarrow> nat \<Rightarrow> heap \<Rightarrow> (nat \<times> heap) outcome" where
  "memalign boundary sz h =
     (case flush_delayed h of Ret h \<Rightarrow> miniheap_alloc sz (word_of_nat boundary) h | Fault \<Rightarrow> Fault | Hang \<Rightarrow> Hang)"

definition HEAP_CALLOC :: "nat \<Rightarrow> nat \<Rightarrow> heap \<Rightarrow> (nat \<times> heap) outcome" where
  "HEAP_CALLOC n s h =
     (let realsize = mul64 n s in
      case miniheap_alloc realsize 0 h of
        Ret (ptr, h) \<Rightarrow>
          Ret (ptr, if ptr \<noteq> 0 then h\<lparr>mem := (\<lambda>x. if ptr \<le> x \<and> x < ptr + realsize then 0 else mem h x)\<rparr> else h)
      | Fault \<Rightarrow> Fault
      | Hang \<Rightarrow> Hang)"

definition calloc :: "nat \<Rightarrow> nat \<Rightarrow> heap \<Rightarrow> (nat \<times> heap) outcome" where
  "calloc n s h = (case flush_delayed h of Ret h \<Rightarrow> HEAP_CALLOC n s h | Fault \<Rightarrow> Fault | Hang \<Rightarrow> Hang)"

definition realloc :: "nat \<Rightarrow> nat \<Rightarrow> heap \<Rightarrow> (nat \<times> heap) outcome" where
  "realloc ptr sz h = (case flush_delayed h of Ret h \<Rightarrow> miniheap_realloc ptr sz h | Fault \<Rightarrow> Fault | Hang \<Rightarrow> Hang)"

definition free :: "nat \<Rightarrow> heap \<Rightarrow> heap outcome" where
  "free ptr h = miniheap_free ptr h"

text \<open>
  \<^verbatim>\<open>heap_delayed_free\<close>: the first bytes of the block become the list node, two pointers. They are
  written wherever the address points to; a block with less room than that loses the header of
  its neighbour, which is a fault here.
\<close>

abbreviation LIST_NODE :: nat where "LIST_NODE \<equiv> 16"

definition block_room :: "heap \<Rightarrow> nat \<Rightarrow> nat" where
  "block_room h ptr = (case headers h ptr of None \<Rightarrow> 0 | Some as \<Rightarrow> aptr as + asize as - ptr)"

definition heap_delayed_free :: "nat \<Rightarrow> heap \<Rightarrow> heap outcome" where
  "heap_delayed_free ptr h =
     (if block_room h ptr < LIST_NODE then Fault
      else Ret (h\<lparr>delayed_free_list := ptr # delayed_free_list h\<rparr>))"

end
