(* ===== verification/Free_List.thy ===== *)
theory Free_List
  imports Miniheap
begin

text \<open>
  The free list of the heap as a sorted list of chunks with a gap between any two. Such a
  list is determined by the addresses it covers (\<open>coalesced_unique\<close>); inserting a chunk adds
  its addresses, cutting one out removes them, and both keep the form.
\<close>

section \<open>Coalesced lists of chunks\<close>

definition range_of :: "chunk \<Rightarrow> nat set" where
  "range_of c = {fst c ..< fst c + snd c}"

definition covers :: "chunk list \<Rightarrow> nat set" where
  "covers fl = (\<Union>c\<in>set fl. range_of c)"

definition chunk_ok :: "chunk \<Rightarrow> bool" where
  "chunk_ok c \<longleftrightarrow> 0 < fst c \<and> 8 dvd fst c \<and> 8 dvd snd c \<and> CHUNK_HDR \<le> snd c \<and> fst c + snd c < 2 ^ 64"

definition gap :: "chunk \<Rightarrow> chunk \<Rightarrow> bool" where
  "gap c d \<longleftrightarrow> fst c + snd c < fst d"

definition coalesced :: "chunk list \<Rightarrow> bool" where
  "coalesced fl \<longleftrightarrow> (\<forall>c\<in>set fl. chunk_ok c) \<and> sorted_wrt gap fl"

definition total_len :: "chunk list \<Rightarrow> nat" where
  "total_len fl = (\<Sum>c\<leftarrow>fl. snd c)"

named_theorems chunk_simps \<open>coalesced lists\<close>

lemma covers_simps [chunk_simps]: "covers [] = {}" "covers (c # fl) = range_of c \<union> covers fl"
  "covers (xs @ ys) = covers xs \<union> covers ys"
  by (auto simp: covers_def)

lemma total_simps [chunk_simps]: "total_len [] = 0" "total_len (c # fl) = snd c + total_len fl"
  "total_len (xs @ ys) = total_len xs + total_len ys"
  by (simp_all add: total_len_def)

lemma coalesced_simps [chunk_simps]: "coalesced []"
  "coalesced (c # fl) \<longleftrightarrow> chunk_ok c \<and> (\<forall>d\<in>set fl. gap c d) \<and> coalesced fl"
  "coalesced (xs @ ys) \<longleftrightarrow> coalesced xs \<and> coalesced ys \<and> (\<forall>c\<in>set xs. \<forall>d\<in>set ys. gap c d)"
  by (auto simp: coalesced_def sorted_wrt_append)

lemma range_mem [simp]: "x \<in> range_of c \<longleftrightarrow> fst c \<le> x \<and> x < fst c + snd c"
  by (simp add: range_of_def)

lemma range_nonempty: "chunk_ok c \<Longrightarrow> fst c \<in> range_of c"
  by (simp add: chunk_ok_def)

lemma chunk_end_ok [chunk_simps]: "chunk_ok c \<Longrightarrow> chunk_end c = fst c + snd c"
  by (simp add: chunk_ok_def chunk_end_def wrap_simps)

lemma gap_trans: "gap c d \<Longrightarrow> gap d e \<Longrightarrow> gap c e"
  by (simp add: gap_def)

text \<open>Disjoint chunks, ordered by their addresses.\<close>

lemma disjoint_before:
  assumes "chunk_ok c" "chunk_ok d" "range_of c \<inter> range_of d = {}" "fst c \<le> fst d"
  shows "fst c + snd c \<le> fst d"
proof (rule ccontr)
  assume "\<not> fst c + snd c \<le> fst d"
  then have "fst d \<in> range_of c" "fst d \<in> range_of d" using assms(2,4) by (auto simp: chunk_ok_def)
  then show False using assms(3) by blast
qed

lemma gap_disjoint: "gap c d \<Longrightarrow> range_of c \<inter> range_of d = {}"
  by (auto simp: gap_def range_of_def)

lemma covers_disjoint_gap: "(\<forall>d\<in>set fl. gap c d) \<Longrightarrow> range_of c \<inter> covers fl = {}"
  using gap_disjoint by (fastforce simp: covers_def)

lemma total_len_bound:
  assumes "coalesced fl" and "\<forall>c\<in>set fl. b \<le> fst c" and "b < 2 ^ 64"
  shows "b + total_len fl < 2 ^ 64"
  using assms
proof (induction fl arbitrary: b)
  case Nil
  then show ?case by (simp add: chunk_simps)
next
  case (Cons c fl)
  have "fst c + snd c + total_len fl < 2 ^ 64"
    using Cons.prems(1) by (intro Cons.IH) (auto simp: chunk_simps gap_def chunk_ok_def)
  then show ?case using Cons.prems(2) by (auto simp: chunk_simps)
qed

lemma total_len_less: "coalesced fl \<Longrightarrow> total_len fl < 2 ^ 64"
  using total_len_bound [of fl 0] by simp

lemma member_total: "c \<in> set fl \<Longrightarrow> snd c \<le> total_len fl"
  by (induction fl) (auto simp: chunk_simps)

text \<open>A coalesced list is determined by the addresses it covers.\<close>

lemma end_not_covered:
  assumes "coalesced (c # fl)"
  shows "fst c + snd c \<notin> covers (c # fl)"
  using assms by (auto simp: chunk_simps covers_def gap_def)

lemma first_is_least:
  assumes "coalesced (c # fl)" and "x \<in> covers (c # fl)"
  shows "fst c \<le> x"
  using assms by (fastforce simp: chunk_simps covers_def gap_def)

lemma first_chunk_unique:
  assumes "coalesced (c # fl)" and "coalesced (d # fm)" and "covers (c # fl) = covers (d # fm)"
  shows "c = d"
proof -
  have "fst c \<in> covers (c # fl)" "fst d \<in> covers (d # fm)"
    using assms(1,2) range_nonempty by (auto simp: chunk_simps simp del: range_mem)
  then have f: "fst c = fst d"
    using first_is_least [OF assms(1)] first_is_least [OF assms(2)] assms(3) by (metis antisym)
  have "fst c + snd c \<notin> range_of d" "fst d + snd d \<notin> range_of c"
    using end_not_covered [OF assms(1)] end_not_covered [OF assms(2)] assms(3)
    by (auto simp: chunk_simps simp del: range_mem)
  then have "snd c = snd d" using f by simp
  then show ?thesis using f by (simp add: prod_eq_iff)
qed

lemma coalesced_unique:
  "coalesced fl \<Longrightarrow> coalesced fm \<Longrightarrow> covers fl = covers fm \<Longrightarrow> fl = fm"
proof (induction fl arbitrary: fm)
  case Nil
  then show ?case using range_nonempty by (cases fm) (auto simp: chunk_simps simp del: range_mem)
next
  case (Cons c fl)
  have "fst c \<in> covers (c # fl)" using Cons.prems(1) range_nonempty [of c] by (simp add: chunk_simps)
  then have "covers fm \<noteq> {}" using Cons.prems(3) by blast
  then obtain d fm' where fm: "fm = d # fm'" by (cases fm) (auto simp: covers_def)
  have cd: "c = d" using first_chunk_unique Cons.prems fm by blast
  have "range_of c \<inter> covers fl = {}" "range_of c \<inter> covers fm' = {}"
    using Cons.prems fm cd covers_disjoint_gap by (auto simp: chunk_simps simp del: range_mem)
  then have "covers fl = covers fm'" using Cons.prems(3) fm cd by (auto simp: chunk_simps simp del: range_mem)
  then show ?case using Cons fm cd by (auto simp: chunk_simps)
qed

section \<open>Inserting a chunk\<close>

lemma merge_last_ok:
  assumes pre: "coalesced pre" and c: "chunk_ok c" and before: "\<forall>d\<in>set pre. fst d + snd d \<le> fst c"
  obtains pre' c' where "merge_last pre c = (pre', c')" "coalesced (pre' @ [c'])" "covers pre' \<union> range_of c' = covers pre \<union> range_of c"
    "total_len pre' + snd c' = total_len pre + snd c" "fst c' + snd c' = fst c + snd c" "range_of c \<subseteq> range_of c'"
proof (cases "pre \<noteq> [] \<and> fst (last pre) + snd (last pre) = fst c")
  case True
  then obtain xs d where p: "pre = xs @ [d]" "fst d + snd d = fst c" by (metis append_butlast_last_id)
  have d: "chunk_ok d" using pre p by (simp add: chunk_simps)
  let ?c = "(fst d, snd d + snd c)"
  have ok: "chunk_ok ?c" using d c p(2) by (auto simp: chunk_ok_def)
  have "merge_last pre c = (xs, ?c)"
    using p d ok by (simp add: merge_last_def chunk_simps chunk_ok_def wrap_simps)
  moreover have "coalesced (xs @ [?c])" using pre p ok by (auto simp: chunk_simps gap_def)
  moreover have "range_of ?c = range_of d \<union> range_of c" using p(2) by (auto simp: range_of_def)
  ultimately show ?thesis using p by (intro that [of xs ?c]) (auto simp: chunk_simps)
next
  case False
  have strict: "gap d c" if mem: "d \<in> set pre" for d
  proof (cases "d = last pre")
    case True
    then show ?thesis using False before that unfolding gap_def by (metis empty_iff empty_set le_neq_implies_less)
  next
    case neq: False
    then obtain xs e where p: "pre = xs @ [e]" "d \<in> set xs" using mem by (cases pre rule: rev_cases) auto
    then have "gap d e" "fst e + snd e \<le> fst c" using pre before by (auto simp: chunk_simps)
    then show ?thesis by (simp add: gap_def)
  qed
  have "merge_last pre c = (pre, c)"
    using False pre by (auto simp: merge_last_def chunk_simps coalesced_def)
  then show ?thesis using pre c strict by (intro that [of pre c]) (auto simp: chunk_simps)
qed

lemma merge_next_ok:
  assumes post: "coalesced post" and c: "chunk_ok c" and after: "\<forall>d\<in>set post. fst c + snd c \<le> fst d"
    and head: "head < fst c"
  obtains c' post' where "merge_next head c post = Ret (c' # post')" "coalesced (c' # post')"
    "range_of c' \<union> covers post' = range_of c \<union> covers post" "snd c' + total_len post' = snd c + total_len post"
    "fst c' = fst c" "range_of c \<subseteq> range_of c'"
proof (cases post)
  case Nil
  have "chunk_end c \<noteq> head" using c head by (simp add: chunk_simps)
  then show ?thesis using Nil c by (intro that [of c "[]"]) (auto simp: merge_next_def chunk_simps)
next
  case (Cons d rest)
  have d: "chunk_ok d" "\<forall>e\<in>set rest. gap d e" using post Cons by (auto simp: chunk_simps)
  show ?thesis
  proof (cases "fst c + snd c = fst d")
    case True
    let ?c = "(fst c, snd c + snd d)"
    have ok: "chunk_ok ?c" using d c True by (auto simp: chunk_ok_def)
    have "merge_next head c post = Ret (?c # rest)"
      using Cons c True ok by (simp add: merge_next_def chunk_simps chunk_ok_def wrap_simps)
    moreover have "coalesced (?c # rest)" using post Cons ok True d(2) by (auto simp: chunk_simps gap_def)
    moreover have "range_of ?c = range_of c \<union> range_of d" using True by (auto simp: range_of_def)
    ultimately show ?thesis using Cons by (intro that [of ?c rest]) (auto simp: chunk_simps)
  next
    case False
    then have "gap c d" using after Cons by (simp add: gap_def)
    then have "\<forall>e\<in>set post. gap c e" using Cons d(2) gap_trans by (metis set_ConsD)
    then show ?thesis using Cons c post False
      by (intro that [of c post]) (auto simp: merge_next_def chunk_simps)
  qed
qed

lemma walk_ok:
  assumes fl: "coalesced fl" and c: "chunk_ok c" and dis: "range_of c \<inter> covers fl = {}"
  defines "pre \<equiv> takeWhile (\<lambda>d. \<not> fst c < fst d) fl" and "post \<equiv> dropWhile (\<lambda>d. \<not> fst c < fst d) fl"
  shows "fl = pre @ post" and "\<forall>d\<in>set pre. fst d + snd d \<le> fst c" and "\<forall>d\<in>set post. fst c + snd c \<le> fst d"
proof -
  show f: "fl = pre @ post" by (simp add: pre_def post_def)
  have d: "range_of d \<inter> range_of c = {}" "chunk_ok d" if "d \<in> set fl" for d
    using dis that fl by (auto simp: covers_def coalesced_def simp del: range_mem)
  show "\<forall>d\<in>set pre. fst d + snd d \<le> fst c"
  proof
    fix d assume m: "d \<in> set pre"
    then have "fst d \<le> fst c" using set_takeWhileD [of d] unfolding pre_def by fastforce
    then show "fst d + snd d \<le> fst c" using disjoint_before [of d c] d [of d] c m f by auto
  qed
  show "\<forall>d\<in>set post. fst c + snd c \<le> fst d"
  proof (cases post)
    case (Cons e rest)
    then have "fst c < fst e" unfolding post_def by (metis hd_dropWhile list.distinct(1) list.sel(1))
    then have e: "fst c + snd c \<le> fst e" using disjoint_before [of c e] d [of e] c Cons f by (auto simp: Int_commute)
    moreover have "fst e \<le> fst d" if "d \<in> set post" for d
      using that fl f Cons by (auto simp: chunk_simps gap_def)
    ultimately show ?thesis by (meson le_trans)
  qed simp
qed

lemma insert_chunk_ok:
  assumes fl: "coalesced fl" and c: "chunk_ok c" and dis: "range_of c \<inter> covers fl = {}"
    and head: "\<forall>x\<in>covers fl \<union> range_of c. head < x"
  obtains a fl' where "insert_chunk head c fl = Ret (a, fl')" "coalesced fl'" "covers fl' = covers fl \<union> range_of c"
    "total_len fl' = total_len fl + snd c" "\<exists>d\<in>set fl'. range_of c \<subseteq> range_of d"
proof -
  let ?pre = "takeWhile (\<lambda>d. \<not> fst c < fst d) fl" and ?post = "dropWhile (\<lambda>d. \<not> fst c < fst d) fl"
  note w = walk_ok [OF fl c dis]
  have co: "coalesced ?pre" "coalesced ?post" using fl w(1) by (metis coalesced_simps(3))+
  obtain pre' c1 where m1: "merge_last ?pre c = (pre', c1)" "coalesced (pre' @ [c1])"
    "covers pre' \<union> range_of c1 = covers ?pre \<union> range_of c" "total_len pre' + snd c1 = total_len ?pre + snd c"
    "fst c1 + snd c1 = fst c + snd c" "range_of c \<subseteq> range_of c1"
    using merge_last_ok [OF co(1) c w(2)] by blast
  have c1: "chunk_ok c1" using m1(2) by (simp add: chunk_simps)
  have cov: "covers fl = covers ?pre \<union> covers ?post" "total_len fl = total_len ?pre + total_len ?post"
    using w(1) by (metis covers_simps(3), metis total_simps(3))
  have "fst c1 \<in> covers fl \<union> range_of c" using m1(3) cov(1) range_nonempty [OF c1] by blast
  then have h1: "head < fst c1" using head by blast
  have "\<forall>d\<in>set ?post. fst c1 + snd c1 \<le> fst d" using w(3) m1(5) by simp
  then obtain c2 post' where m2: "merge_next head c1 ?post = Ret (c2 # post')" "coalesced (c2 # post')"
    "range_of c2 \<union> covers post' = range_of c1 \<union> covers ?post" "snd c2 + total_len post' = snd c1 + total_len ?post"
    "fst c2 = fst c1" "range_of c1 \<subseteq> range_of c2"
    using merge_next_ok [OF co(2) c1 _ h1] by blast
  have "\<not> (?post \<noteq> [] \<and> \<not> chunk_end c \<le> fst (hd ?post))" using w(3) chunk_end_ok [OF c] by (metis hd_in_set)
  then have "insert_chunk head c fl = Ret (fst c2, pre' @ c2 # post')"
    by (simp only: insert_chunk_def Let_def if_False m1(1) m2(1) prod.case outcome.case) (simp add: m2(5))
  moreover have "gap d e" if "d \<in> set pre'" "e \<in> set (c2 # post')" for d e
  proof -
    have "gap d c1" "e = c2 \<or> gap c2 e" using that m1(2) m2(2) by (auto simp: chunk_simps)
    then show ?thesis using m2(5) by (auto simp: gap_def)
  qed
  then have "coalesced (pre' @ c2 # post')" using m1(2) m2(2) unfolding coalesced_simps(3) by (auto simp: chunk_simps)
  moreover have "covers (pre' @ c2 # post') = covers fl \<union> range_of c"
    using m1(3) m2(3) cov(1) by (simp only: chunk_simps) blast
  moreover have "total_len (pre' @ c2 # post') = total_len fl + snd c"
    using m1(4) m2(4) cov(2) by (simp add: chunk_simps)
  moreover have "\<exists>d\<in>set (pre' @ c2 # post'). range_of c \<subseteq> range_of d" using m1(6) m2(6) by auto
  ultimately show ?thesis by (rule that)
qed

section \<open>Cutting from a chunk\<close>

lemma find_fit_ok:
  "(\<forall>c\<in>set fl. chunk_ok c) \<Longrightarrow> find_fit sz pre fl =
    (case dropWhile (\<lambda>c. snd c < sz) fl of [] \<Rightarrow> Ret None
     | c # post \<Rightarrow> Ret (Some (pre @ takeWhile (\<lambda>c. snd c < sz) fl, c, post)))"
proof (induction sz pre fl rule: find_fit.induct)
  case (2 sz pre c post)
  then show ?case by (cases "snd c < sz") (auto simp: chunk_ok_def cong: list.case_cong)
qed simp

lemma find_fit_cases:
  assumes "coalesced fl"
  obtains "find_fit sz [] fl = Ret None" "\<forall>c\<in>set fl. snd c < sz"
  | pre c post where "find_fit sz [] fl = Ret (Some (pre, c, post))" "fl = pre @ c # post" "sz \<le> snd c"
proof (cases "dropWhile (\<lambda>c. snd c < sz) fl")
  case Nil
  moreover have "find_fit sz [] fl = Ret None"
    using find_fit_ok [of fl sz "[]"] assms by (simp add: coalesced_def Nil)
  ultimately show ?thesis using that(1) by (simp add: dropWhile_eq_Nil_conv)
next
  case (Cons c post)
  then have "\<not> snd c < sz" by (metis hd_dropWhile list.distinct(1) list.sel(1))
  moreover have "fl = takeWhile (\<lambda>c. snd c < sz) fl @ c # post" using Cons by (metis takeWhile_dropWhile_id)
  moreover have "find_fit sz [] fl = Ret (Some (takeWhile (\<lambda>c. snd c < sz) fl, c, post))"
    using find_fit_ok [of fl sz "[]"] assms by (simp add: coalesced_def Cons)
  ultimately show ?thesis using that(2) [of "takeWhile (\<lambda>c. snd c < sz) fl" c post] by (simp only: not_less)
qed

lemma middle_disjoint:
  assumes "coalesced (pre @ c # post)"
  shows "range_of c \<inter> covers pre = {}" and "range_of c \<inter> covers post = {}"
proof -
  have "\<forall>d\<in>set pre. gap d c" "\<forall>d\<in>set post. gap c d" using assms by (auto simp: chunk_simps)
  then show "range_of c \<inter> covers pre = {}" "range_of c \<inter> covers post = {}"
    using gap_disjoint covers_disjoint_gap unfolding covers_def by blast+
qed

lemma split_chunk_ok:
  assumes fl: "coalesced (pre @ c # post)" and sz: "CHUNK_HDR \<le> sz" "8 dvd sz" "sz \<le> snd c" "sz + CHUNK_HDR < 2 ^ 64"
  obtains len fl' where "split_chunk sz pre c post = Ret (len, fl')" "sz \<le> len" "len \<le> snd c" "8 dvd len" "coalesced fl'"
    "covers fl' = covers (pre @ c # post) - range_of (fst c, len)" "total_len fl' + len = total_len (pre @ c # post)"
proof -
  have c: "chunk_ok c" using fl by (simp add: chunk_simps)
  note out = middle_disjoint [OF fl]
  show ?thesis
  proof (cases "sz + CHUNK_HDR < snd c")
    case True
    let ?n = "(fst c + sz, snd c - sz)"
    have "split_chunk sz pre c post = Ret (sz, pre @ ?n # post)"
      using True sz c by (auto simp: split_chunk_def wrap_simps heap_create_free_chunk_def chunk_ok_def dvd_diff_nat)
    moreover have "coalesced (pre @ ?n # post)"
      using fl sz True c by (auto simp: chunk_simps gap_def chunk_ok_def)
    moreover have "range_of c = range_of (fst c, sz) \<union> range_of ?n" "range_of (fst c, sz) \<inter> range_of ?n = {}"
      using sz(3) by (auto simp: range_of_def)
    then have "covers (pre @ ?n # post) = covers (pre @ c # post) - range_of (fst c, sz)"
      using out unfolding chunk_simps by blast
    ultimately show ?thesis using sz by (intro that [of sz "pre @ ?n # post"]) (auto simp: chunk_simps)
  next
    case False
    then have "split_chunk sz pre c post = Ret (snd c, pre @ post)" using sz by (simp add: split_chunk_def wrap_simps)
    moreover have "coalesced (pre @ post)" using fl by (auto simp: chunk_simps)
    moreover have "covers (pre @ post) = covers (pre @ c # post) - range_of (fst c, snd c)"
      using out unfolding chunk_simps prod.collapse by blast
    ultimately show ?thesis using sz c by (intro that [of "snd c" "pre @ post"]) (auto simp: chunk_simps chunk_ok_def)
  qed
qed

end
