(* ===== verification/Heap_Correct.thy ===== *)
theory Heap_Correct
  imports Free_List Pow2
begin

text \<open>
  The invariant of the heap and what allocation, release and growth do to it. The live blocks
  and the free list are disjoint pieces of memory that the page allocator has handed out (or
  that lie below its arena).
\<close>

section \<open>The invariant\<close>

definition block :: "alloc_struct_begin \<Rightarrow> nat set" where
  "block as = range_of (aptr as, asize as)"

definition live :: "heap \<Rightarrow> nat set" where
  "live h = (\<Union>as\<in>ran (headers h). block as)"

definition header_ok :: "nat \<Rightarrow> alloc_struct_begin \<Rightarrow> bool" where
  "header_ok p as \<longleftrightarrow> magic as = HEAP_MAGIC \<and> chunk_ok (aptr as, asize as)
     \<and> aptr as + ALLOC_HDR \<le> p \<and> p \<le> aptr as + asize as \<and> 8 dvd p"

definition blocks_ok :: "heap \<Rightarrow> bool" where
  "blocks_ok h \<longleftrightarrow> (\<forall>p as. headers h p = Some as \<longrightarrow> header_ok p as)
     \<and> (\<forall>p q as bs. headers h p = Some as \<longrightarrow> headers h q = Some bs \<longrightarrow> p \<noteq> q \<longrightarrow> block as \<inter> block bs = {})"

definition free_ok :: "heap \<Rightarrow> bool" where
  "free_ok h \<longleftrightarrow> coalesced (free_list h) \<and> remaining h = total_len (free_list h) \<and> live h \<inter> covers (free_list h) = {}"

definition memory_ok :: "heap \<Rightarrow> bool" where
  "memory_ok h \<longleftrightarrow> arena_ok (arena h) \<and> head_addr h < pbase (arena h)
     \<and> (\<forall>x\<in>live h \<union> covers (free_list h). head_addr h < x \<and> (x < pbase (arena h) \<or> x \<in> in_use (arena h)))"

definition delayed_ok :: "heap \<Rightarrow> bool" where
  "delayed_ok h \<longleftrightarrow> distinct (delayed_free_list h) \<and> set (delayed_free_list h) \<subseteq> dom (headers h)"

definition heap_inv :: "heap \<Rightarrow> bool" where
  "heap_inv h \<longleftrightarrow> blocks_ok h \<and> free_ok h \<and> memory_ok h \<and> delayed_ok h"

lemma heap_invD:
  assumes "heap_inv h"
  shows "blocks_ok h" "free_ok h" "memory_ok h" "delayed_ok h"
  using assms by (auto simp: heap_inv_def)

lemma block_live: "headers h p = Some as \<Longrightarrow> block as \<subseteq> live h"
  by (auto simp: live_def ran_def)

lemma blocks_okD:
  assumes "blocks_ok h" "headers h p = Some as"
  shows "header_ok p as" "headers h q = Some bs \<Longrightarrow> q \<noteq> p \<Longrightarrow> block as \<inter> block bs = {}"
  using assms unfolding blocks_ok_def by metis+

lemma header_last: "header_ok p as \<Longrightarrow> p - 1 \<in> block as"
  by (auto simp: header_ok_def block_def)

lemma live_remove:
  assumes "blocks_ok h" and "headers h p = Some as"
  shows "live (h\<lparr>headers := (headers h)(p := None)\<rparr>) = live h - block as"
proof
  show "live (h\<lparr>headers := (headers h)(p := None)\<rparr>) \<subseteq> live h - block as"
  proof
    fix x assume "x \<in> live (h\<lparr>headers := (headers h)(p := None)\<rparr>)"
    then obtain q bs where "headers h q = Some bs" "q \<noteq> p" "x \<in> block bs"
      by (auto simp: live_def ran_def split: if_splits)
    then show "x \<in> live h - block as" using blocks_okD(2) [OF assms] block_live by blast
  qed
  show "live h - block as \<subseteq> live (h\<lparr>headers := (headers h)(p := None)\<rparr>)"
  proof
    fix x assume x: "x \<in> live h - block as"
    then obtain q bs where q: "headers h q = Some bs" "x \<in> block bs" by (auto simp: live_def ran_def)
    then have "((headers h)(p := None)) q = Some bs" using x assms(2) by auto
    then have "bs \<in> ran ((headers h)(p := None))" by (rule ranI)
    then show "x \<in> live (h\<lparr>headers := (headers h)(p := None)\<rparr>)" using q(2) unfolding live_def by auto
  qed
qed

lemma live_add: "headers h p = None \<Longrightarrow> live (h\<lparr>headers := (headers h)(p \<mapsto> as)\<rparr>) = live h \<union> block as"
  by (auto simp: live_def)

text \<open>The invariant only looks at some fields.\<close>

lemma live_upd [simp]: "live (h\<lparr>free_list := a\<rparr>) = live h" "live (h\<lparr>remaining := b\<rparr>) = live h"
  "live (h\<lparr>arena := c\<rparr>) = live h" "live (h\<lparr>mem := d\<rparr>) = live h" "live (h\<lparr>hbase := b\<rparr>) = live h"
  "live (h\<lparr>hlen := b\<rparr>) = live h" "live (h\<lparr>low_watermark := b\<rparr>) = live h" "live (h\<lparr>delayed_free_list := e\<rparr>) = live h"
  by (simp_all add: live_def)

lemma heap_inv_upd [simp]: "heap_inv (h\<lparr>mem := d\<rparr>) = heap_inv h" "heap_inv (h\<lparr>hbase := b\<rparr>) = heap_inv h"
  "heap_inv (h\<lparr>hlen := b\<rparr>) = heap_inv h" "heap_inv (h\<lparr>low_watermark := b\<rparr>) = heap_inv h"
  by (simp_all add: heap_inv_def blocks_ok_def free_ok_def memory_ok_def delayed_ok_def)

section \<open>Returning memory to the free list\<close>

lemma create_and_insert_ok:
  assumes fl: "coalesced (free_list h)" "remaining h = total_len (free_list h)" and c: "chunk_ok (p, l)"
    and dis: "range_of (p, l) \<inter> covers (free_list h) = {}"
    and head: "\<forall>x\<in>covers (free_list h) \<union> range_of (p, l). head_addr h < x"
  obtains fl' where "create_and_insert p l h = Ret (h\<lparr>remaining := total_len fl', free_list := fl'\<rparr>)"
    "coalesced fl'" "covers fl' = covers (free_list h) \<union> range_of (p, l)"
    "\<exists>d\<in>set fl'. range_of (p, l) \<subseteq> range_of d" "total_len fl' = total_len (free_list h) + l"
proof -
  obtain a fl' where i: "insert_chunk (head_addr h) (p, l) (free_list h) = Ret (a, fl')" "coalesced fl'"
    "covers fl' = covers (free_list h) \<union> range_of (p, l)" "total_len fl' = total_len (free_list h) + snd (p, l)"
    "\<exists>d\<in>set fl'. range_of (p, l) \<subseteq> range_of d"
    using insert_chunk_ok [OF fl(1) c dis head] by blast
  have "add64 (remaining h) l = total_len fl'" using i(4) fl(2) total_len_less [OF i(2)] by (simp add: wrap_simps)
  moreover have "heap_create_free_chunk p l = Ret (p, l)" using c by (auto simp: heap_create_free_chunk_def chunk_ok_def)
  ultimately have "create_and_insert p l h = Ret (h\<lparr>remaining := total_len fl', free_list := fl'\<rparr>)"
    using i(1) by (simp add: create_and_insert_def heap_insert_free_chunk_def)
  then show ?thesis using that i by simp
qed

lemma miniheap_free_ok:
  assumes inv: "heap_inv h" and p: "headers h p = Some as" "p \<notin> set (delayed_free_list h)"
  obtains fl' where "miniheap_free p h
      = Ret (h\<lparr>headers := (headers h)(p := None), remaining := total_len fl', free_list := fl'\<rparr>)"
    "heap_inv (h\<lparr>headers := (headers h)(p := None), remaining := total_len fl', free_list := fl'\<rparr>)"
    "coalesced fl'" "covers fl' = covers (free_list h) \<union> block as"
proof -
  note i = heap_invD [OF inv]
  let ?h = "h\<lparr>headers := (headers h)(p := None)\<rparr>"
  have hd: "header_ok p as" using blocks_okD(1) [OF i(1) p(1)] .
  have sub: "block as \<subseteq> live h" using block_live [OF p(1)] .
  have c: "chunk_ok (aptr as, asize as)" "range_of (aptr as, asize as) = block as" "magic as = HEAP_MAGIC" "p \<noteq> 0"
    using hd by (auto simp: header_ok_def block_def)
  have dis: "range_of (aptr as, asize as) \<inter> covers (free_list ?h) = {}" using sub c(2) i(2) by (auto simp: free_ok_def)
  have head: "\<forall>x\<in>covers (free_list ?h) \<union> range_of (aptr as, asize as). head_addr ?h < x"
    using sub c(2) i(3) by (auto simp: memory_ok_def)
  have fl: "coalesced (free_list ?h)" "remaining ?h = total_len (free_list ?h)" using i(2) by (auto simp: free_ok_def)
  obtain fl' where f: "create_and_insert (aptr as) (asize as) ?h = Ret (?h\<lparr>remaining := total_len fl', free_list := fl'\<rparr>)"
    "coalesced fl'" "covers fl' = covers (free_list h) \<union> block as"
    using create_and_insert_ok [OF fl c(1) dis head] unfolding c(2) by simp metis
  let ?h' = "?h\<lparr>remaining := total_len fl', free_list := fl'\<rparr>"
  have "miniheap_free p h = Ret ?h'" using f(1) p(1) c(3,4) by (simp add: miniheap_free_def)
  moreover have l: "live ?h' = live h - block as" using live_remove [OF i(1) p(1)] by simp
  then have "free_ok ?h'" "memory_ok ?h'" using i(2,3) f(2,3) sub by (auto simp: free_ok_def memory_ok_def)
  moreover have "blocks_ok ?h'" using i(1) by (auto simp: blocks_ok_def split: if_splits)
  moreover have "delayed_ok ?h'" using i(4) p(2) by (auto simp: delayed_ok_def)
  ultimately show ?thesis using that f by (simp add: heap_inv_def)
qed

section \<open>Allocating\<close>

text \<open>An alignment accepted by \<^verbatim>\<open>miniheap_alloc\<close> is zero or a power of two.\<close>

lemma and_pred_pow2:
  assumes "v AND (v - 1) = 0" and "v \<noteq> (0 :: u32)"
  obtains k where "k < 32" "unat v = 2 ^ k"
proof -
  obtain k where k: "k < 32" "bit v k" "\<And>m. bit v m \<Longrightarrow> m \<le> k" using ex_top_bit [OF assms(2)] by blast
  have b: "2 ^ k \<le> unat v" "unat v < 2 ^ (k + 1)" using top_bit_bounds [OF k(2,3)] by auto
  have "unat v = 2 ^ k"
  proof (rule ccontr)
    assume "unat v \<noteq> 2 ^ k"
    then have "2 ^ k \<le> unat (v - 1)" "unat (v - 1) < 2 * 2 ^ k"
      using b assms(2) by (simp_all add: unat_minus_one)
    then have "unat (v - 1) div 2 ^ k = 1" by (simp add: div_nat_eqI)
    then have "bit (unat (v - 1)) k" by (simp add: bit_iff_odd)
    then have "bit (v - 1) k" by (simp only: bit_unsigned_iff)
    then have "bit (v AND (v - 1)) k" using k(2) by (simp add: bit_and_iff)
    then show False using assms(1) by simp
  qed
  then show ?thesis using that k(1) by blast
qed

definition align_ok :: "nat \<Rightarrow> bool" where
  "align_ok al \<longleftrightarrow> al = 0 \<or> 16 \<le> al \<and> 8 dvd al \<and> al \<le> 2 ^ 31"

lemma alloc_request_ok:
  assumes "sz \<le> 2 ^ 63" and "alignment AND (alignment - 1) = 0"
  obtains rs al where "alloc_request sz alignment = (rs, al)" "align_ok al" "unat alignment dvd al"
    "sz + ALLOC_HDR + al \<le> rs" "rs \<le> sz + 32 + al" "8 dvd rs"
proof -
  let ?r = "roundup (sz + ALLOC_HDR) 8" and ?u = "unat alignment"
  have r: "sz + ALLOC_HDR \<le> ?r" "?r < sz + ALLOC_HDR + 8" using roundup_ge [of 8 "sz + ALLOC_HDR"] roundup_less [of 8 "sz + ALLOC_HDR"] by simp_all
  have "roundup64 (add64 sz ALLOC_HDR) 8 = ?r" using assms(1) by (simp add: wrap_simps roundup64_eq)
  moreover have "\<not> add64 sz ALLOC_HDR < CHUNK_HDR" using assms(1) by (simp add: wrap_simps)
  ultimately have q: "alloc_request sz alignment = (if ?u > 0 then (let al = (if ?u < 16 then 16 else ?u) in (add64 ?r al, al)) else (?r, ?u))"
    by (simp add: alloc_request_def Let_def)
  show ?thesis
  proof (cases "alignment = 0")
    case True
    then show ?thesis using q r by (intro that [of ?r 0]) (auto simp: align_ok_def)
  next
    case False
    obtain k where k: "k < 32" "?u = 2 ^ k" using and_pred_pow2 [OF assms(2) False] by blast
    let ?al = "if ?u < 16 then 16 else ?u"
    have "?u \<le> 2 ^ 31" using k by (simp only: k(2)) (rule power_increasing, simp_all)
    then have al: "16 \<le> ?al" "?al \<le> 2 ^ 31" by auto
    have d: "8 dvd ?al" "?u dvd ?al"
    proof -
      have "k < 4" if "?u < 16" using that k(2) power_strict_increasing_iff [of "2::nat" k 4] by simp
      moreover have "4 \<le> k" if "\<not> ?u < 16" using that k(2) power_strict_increasing_iff [of "2::nat" k 4] by simp
      ultimately show "8 dvd ?al" "?u dvd ?al"
        using k(2) le_imp_power_dvd [of 3 k "2::nat"] le_imp_power_dvd [of k 4 "2::nat"] by auto
    qed
    have "add64 ?r ?al = ?r + ?al" using r al assms(1) by (intro add64_id) auto
    then have "alloc_request sz alignment = (?r + ?al, ?al)" using q False by (simp add: Let_def unat_gt_0)
    moreover have "8 dvd ?r + ?al" using d(1) by (intro dvd_add) simp_all
    ultimately show ?thesis using al d r by (intro that [of "?r + ?al" ?al]) (auto simp: align_ok_def)
  qed
qed

text \<open>What an allocation hands out, and what it leaves alone.\<close>

definition fresh_block :: "heap \<Rightarrow> nat \<Rightarrow> alloc_struct_begin \<Rightarrow> heap \<Rightarrow> bool" where
  "fresh_block h p as h' \<longleftrightarrow> headers h p = None \<and> headers h' = (headers h)(p \<mapsto> as) \<and> header_ok p as \<and> block as \<inter> live h = {}"

definition same_rest :: "heap \<Rightarrow> heap \<Rightarrow> bool" where
  "same_rest h h' \<longleftrightarrow> mem h' = mem h \<and> delayed_free_list h' = delayed_free_list h \<and> head_addr h' = head_addr h"

lemma block_ptr:
  assumes c: "chunk_ok c" and len: "sz \<le> len" "len \<le> snd c" and al: "align_ok al" and sz: "ALLOC_HDR + al \<le> sz"
  defines "p \<equiv> (if al > 0 then roundup64 (add64 (fst c) ALLOC_HDR) al else add64 (fst c) ALLOC_HDR)"
  shows "fst c + ALLOC_HDR \<le> p" and "p + (sz - ALLOC_HDR - al) \<le> fst c + len" and "8 dvd p" and "al > 0 \<Longrightarrow> al dvd p"
proof -
  have c': "8 dvd fst c" "fst c + snd c < 2 ^ 64" using c by (auto simp: chunk_ok_def)
  have a: "add64 (fst c) ALLOC_HDR = fst c + ALLOC_HDR" using c'(2) len sz by (simp add: wrap_simps)
  have r: "roundup64 (fst c + ALLOC_HDR) al = roundup (fst c + ALLOC_HDR) al"
    using c'(2) len sz by (intro roundup64_eq) linarith
  have "p = (if al > 0 then roundup (fst c + ALLOC_HDR) al else fst c + ALLOC_HDR)" using a r by (simp add: p_def)
  then have p: "al > 0 \<Longrightarrow> p = roundup (fst c + ALLOC_HDR) al" "al = 0 \<Longrightarrow> p = fst c + ALLOC_HDR" by simp_all
  then show g: "fst c + ALLOC_HDR \<le> p" using roundup_ge [of al "fst c + ALLOC_HDR"] by (cases "al = 0") auto
  have "p \<le> fst c + ALLOC_HDR + al" using p roundup_less [of al "fst c + ALLOC_HDR"] by (cases "al = 0") auto
  then show "p + (sz - ALLOC_HDR - al) \<le> fst c + len" using len(1) sz by linarith
  show "al > 0 \<Longrightarrow> al dvd p" using p by simp
  then show "8 dvd p" using p(2) c'(1) al by (cases "al = 0") (auto simp: align_ok_def intro: dvd_trans)
qed

lemma take_chunk_ok:
  assumes inv: "heap_inv h" and fl: "free_list h = pre @ c # post" and sz: "8 dvd sz" "sz \<le> snd c"
    and al: "align_ok al" "ALLOC_HDR + al \<le> sz" and bound: "sz + CHUNK_HDR < 2 ^ 64"
  obtains p as h' where "take_chunk sz al pre c post h = Ret (p, h')" "heap_inv h'" "fresh_block h p as h'" "same_rest h h'"
    "arena h' = arena h" "covers (free_list h') = covers (free_list h) - block as" "block as \<subseteq> covers (free_list h)"
    "al > 0 \<Longrightarrow> al dvd p" "p + (sz - ALLOC_HDR - al) \<le> aptr as + asize as"
proof -
  note i = heap_invD [OF inv]
  have co: "coalesced (pre @ c # post)" using i(2) fl by (simp add: free_ok_def)
  have c: "chunk_ok c" using co by (simp add: chunk_simps)
  obtain len fl' where s: "split_chunk sz pre c post = Ret (len, fl')" "sz \<le> len" "len \<le> snd c" "8 dvd len" "coalesced fl'"
    "covers fl' = covers (pre @ c # post) - range_of (fst c, len)" "total_len fl' + len = total_len (pre @ c # post)"
    using split_chunk_ok [OF co _ sz bound] al by auto
  define p where "p = (if al > 0 then roundup64 (add64 (fst c) ALLOC_HDR) al else add64 (fst c) ALLOC_HDR)"
  define as where "as = \<lparr>magic = HEAP_MAGIC, aptr = fst c, asize = len\<rparr>"
  note bp = block_ptr [OF c s(2,3) al, folded p_def]
  have blk: "block as = range_of (fst c, len)" by (simp add: as_def block_def)
  have "range_of (fst c, len) \<subseteq> range_of c" using s(3) by (auto simp: range_of_def)
  then have sub: "block as \<subseteq> covers (free_list h)" using fl blk by (auto simp: chunk_simps simp del: range_mem)
  then have dis: "block as \<inter> live h = {}" using i(2) by (auto simp: free_ok_def)
  have hok: "header_ok p as" using bp(1-3) s(2-4) c al by (auto simp: header_ok_def as_def chunk_ok_def)
  have none: "headers h p = None"
  proof (rule ccontr)
    assume "headers h p \<noteq> None"
    then obtain bs where b: "headers h p = Some bs" by blast
    then have "p - 1 \<in> live h" using header_last [OF blocks_okD(1) [OF i(1) b]] block_live [OF b] by blast
    then show False using header_last [OF hok] dis by blast
  qed
  define h1 where "h1 = h\<lparr>free_list := fl', headers := (headers h)(p \<mapsto> as), remaining := total_len fl'\<rparr>"
  define h' where "h' = (if remaining h1 < low_watermark h1 then h1\<lparr>low_watermark := remaining h1\<rparr> else h1)"
  have rem: "sub64 (remaining h) len = total_len fl'"
    using i(2) s(7) fl total_len_less [OF co] by (simp add: free_ok_def wrap_simps)
  then have t: "take_chunk sz al pre c post h = Ret (p, h')"
    using s(1,2) by (simp add: take_chunk_def h'_def h1_def p_def as_def Let_def not_less)
  have l: "live h1 = live h \<union> block as" using live_add [OF none] by (simp add: h1_def live_def)
  have f: "free_list h1 = fl'" "headers h1 = (headers h)(p \<mapsto> as)" "remaining h1 = total_len fl'" "arena h1 = arena h"
    "head_addr h1 = head_addr h" "mem h1 = mem h" "delayed_free_list h1 = delayed_free_list h" by (simp_all add: h1_def)
  have cov: "covers fl' = covers (free_list h) - block as" using s(6) fl blk by simp
  have "free_ok h1" "memory_ok h1" using i(2,3) s(5) f l cov sub by (auto simp: free_ok_def memory_ok_def)
  moreover have "blocks_ok h1"
  proof -
    have "block as \<inter> block bs = {}" if "headers h q = Some bs" for q bs using dis block_live [OF that] by blast
    then show ?thesis using i(1) f(2) hok unfolding blocks_ok_def by (auto split: if_splits)
  qed
  moreover have "delayed_ok h1" using i(4) f by (auto simp: delayed_ok_def)
  ultimately have "heap_inv h1" by (simp add: heap_inv_def)
  then have inv': "heap_inv h'" by (simp add: h'_def)
  have f': "free_list h' = fl'" "headers h' = (headers h)(p \<mapsto> as)" "arena h' = arena h" "same_rest h h'"
    using f by (simp_all add: h'_def same_rest_def)
  have "fresh_block h p as h'" using none f'(2) hok dis by (simp add: fresh_block_def)
  then show ?thesis using that [of p h' as] t inv' f' cov sub bp(2,4) by (simp add: as_def)
qed

lemma alloc_pass_cases:
  assumes inv: "heap_inv h" and sz: "8 dvd sz" and al: "align_ok al" "ALLOC_HDR + al \<le> sz" and bound: "sz + CHUNK_HDR < 2 ^ 64"
  obtains "alloc_pass sz al h = Ret (0, h)" "\<forall>c\<in>set (free_list h). snd c < sz"
  | p as h' where "alloc_pass sz al h = Ret (p, h')" "heap_inv h'" "fresh_block h p as h'" "same_rest h h'"
    "arena h' = arena h" "covers (free_list h') = covers (free_list h) - block as" "block as \<subseteq> covers (free_list h)"
    "al > 0 \<Longrightarrow> al dvd p" "p + (sz - ALLOC_HDR - al) \<le> aptr as + asize as"
proof -
  have co: "coalesced (free_list h)" using heap_invD(2) [OF inv] by (simp add: free_ok_def)
  show ?thesis
  proof (cases rule: find_fit_cases [OF co, of sz])
    case 1
    then show ?thesis using that(1) by (simp add: alloc_pass_def)
  next
    case (2 pre c post)
    then have "alloc_pass sz al h = take_chunk sz al pre c post h" by (simp add: alloc_pass_def)
    then show ?thesis using take_chunk_ok [OF inv 2(2) sz 2(3) al bound] that(2) by metis
  qed
qed

lemma heap_grow_cases:
  assumes inv: "heap_inv h" and sz: "0 < sz" "sz + PAGE_SIZE \<le> 2 ^ 63"
  obtains "heap_grow sz h = Ret (ERR_NO_MEMORY, h)"
  | err h' where "heap_grow sz h = Ret (err, h')" "0 \<le> err" "heap_inv h'" "headers h' = headers h" "same_rest h h'"
    "\<exists>c\<in>set (free_list h'). sz \<le> snd c" "arena h' \<noteq> arena h"
proof -
  note i = heap_invD [OF inv]
  let ?r = "roundup sz PAGE_SIZE" and ?a = "arena h"
  have P: "0 < PAGE_SIZE" "PAGE_SIZE = 4096" by (simp_all add: PAGE_SIZE_def)
  have r64: "roundup64 sz PAGE_SIZE = ?r" using sz(2) P by (intro roundup64_eq) simp
  have r: "sz \<le> ?r" "?r < sz + PAGE_SIZE" "?r div PAGE_SIZE * PAGE_SIZE = ?r"
    using roundup_ge [OF P(1)] roundup_less [OF P(1)] by auto
  have ok: "arena_ok ?a" and m: "bit (- 1 :: u32) 0" using i(3) by (auto simp: memory_ok_def bit_minus_1_iff)
  show ?thesis
  proof (cases rule: page_alloc_cases [OF ok m, of "?r div PAGE_SIZE"])
    case 1
    then show ?thesis using that(1) r64 by (simp add: heap_grow_def)
  next
    case (2 k a')
    let ?p = "pbase ?a + k * PAGE_SIZE"
    have run: "page_run ?a k (?r div PAGE_SIZE) = range_of (?p, ?r)"
      using r(3) by (simp add: page_run_def range_of_def add_mult_distrib add.assoc)
    then have arena: "range_of (?p, ?r) \<subseteq> arena_range ?a" using page_run_in_arena [OF ok 2(3)] by simp
    have "(k + ?r div PAGE_SIZE) * PAGE_SIZE \<le> pages ?a * PAGE_SIZE" using 2(3) by (rule mult_le_mono1)
    then have top: "?p + ?r < 2 ^ 64" "?r \<le> psize ?a" using ok r(3) by (auto simp: arena_ok_def add_mult_distrib)
    have "8 dvd PAGE_SIZE" by (simp add: P(2))
    moreover have "PAGE_SIZE dvd ?p" using ok by (simp add: arena_ok_def)
    ultimately have "8 dvd ?p" "8 dvd ?r" using roundup_dvd dvd_trans by blast+
    moreover have "PAGE_SIZE \<le> ?r" using r(1) sz(1) by (intro dvd_imp_le roundup_dvd) linarith
    ultimately have c: "chunk_ok (?p, ?r)" using ok top(1) P(2) by (auto simp: chunk_ok_def arena_ok_def)
    let ?h = "h\<lparr>arena := a'\<rparr>"
    have new: "range_of (?p, ?r) \<inter> (live h \<union> covers (free_list h)) = {}"
    proof (rule ccontr)
      assume "\<not> ?thesis"
      then obtain x where x: "x \<in> range_of (?p, ?r)" "x \<in> live h \<union> covers (free_list h)" by blast
      then have "x < pbase ?a \<or> x \<in> in_use ?a" using i(3) unfolding memory_ok_def by blast
      then show False using x(1) arena run 2(4) by (auto simp: arena_range_def simp del: range_mem)
    qed
    then have dis: "range_of (?p, ?r) \<inter> covers (free_list ?h) = {}" by auto
    have fl: "coalesced (free_list ?h)" "remaining ?h = total_len (free_list ?h)" using i(2) by (auto simp: free_ok_def)
    have head: "\<forall>x\<in>covers (free_list ?h) \<union> range_of (?p, ?r). head_addr ?h < x"
      using i(3) by (auto simp: memory_ok_def)
    obtain fl' where f: "create_and_insert ?p ?r ?h = Ret (?h\<lparr>remaining := total_len fl', free_list := fl'\<rparr>)"
      "coalesced fl'" "covers fl' = covers (free_list ?h) \<union> range_of (?p, ?r)"
      "\<exists>d\<in>set fl'. range_of (?p, ?r) \<subseteq> range_of d"
      using create_and_insert_ok [OF fl c dis head] by metis
    let ?h1 = "?h\<lparr>remaining := total_len fl', free_list := fl'\<rparr>"
    have "free_ok ?h1" using i(2) f(2,3) new by (auto simp: free_ok_def)
    moreover have "memory_ok ?h1" using i(3) f(3) 2(6-8) run head unfolding memory_ok_def by (auto simp del: range_mem)
    moreover have "blocks_ok ?h1" "delayed_ok ?h1" using i(1,4) by (auto simp: blocks_ok_def delayed_ok_def)
    ultimately have inv1: "heap_inv ?h1" by (simp add: heap_inv_def)
    define h2 where "h2 = (if ?p < hbase ?h1 \<or> hbase ?h1 = 0 then ?h1\<lparr>hbase := ?p\<rparr> else ?h1)"
    define h3 where "h3 = (if add64 ?p ?r > add64 (hbase h2) (hlen h2) then h2\<lparr>hlen := sub64 (add64 ?p ?r) (hbase h2)\<rparr> else h2)"
    have "?p \<noteq> 0" "?r < 2 ^ 63" using ok r(2) sz(2) by (auto simp: arena_ok_def)
    then have "heap_grow sz h = Ret (int ?r, h3)"
      using 2(1) f(1) r64 unfolding h3_def h2_def heap_grow_def Let_def by (simp only: prod.case outcome.case if_False if_True)
    moreover have "heap_inv h3" "headers h3 = headers h" "same_rest h h3" "free_list h3 = fl'" "arena h3 = a'"
      using inv1 by (simp_all add: h3_def h2_def same_rest_def)
    moreover have "?p \<in> page_run ?a k (?r div PAGE_SIZE)" using run range_nonempty [OF c] by simp
    then have "?p \<in> in_use a'" "?p \<notin> in_use ?a" using 2(4,7) by auto
    then have "a' \<noteq> ?a" by auto
    moreover obtain d where d: "d \<in> set fl'" "range_of (?p, ?r) \<subseteq> range_of d" using f(4) by blast
    have "?p \<in> range_of d" "?p + (?r - 1) \<in> range_of d" using d(2) r(1) sz(1) by (auto simp: range_of_def subset_iff)
    then have "sz \<le> snd d" using r(1) by simp
    ultimately show ?thesis using that(2) d(1) by (metis of_nat_0_le_iff)
  qed
qed

lemma miniheap_alloc_cases:
  assumes inv: "heap_inv h" and sz: "sz \<le> 2 ^ 62"
  obtains "miniheap_alloc sz al h = Ret (0, h)"
  | p as h' where "miniheap_alloc sz al h = Ret (p, h')" "p \<noteq> 0" "heap_inv h'" "fresh_block h p as h'" "same_rest h h'"
    "al \<noteq> 0 \<Longrightarrow> unat al dvd p" "p + sz \<le> aptr as + asize as"
    "arena h' = arena h \<Longrightarrow> covers (free_list h') = covers (free_list h) - block as \<and> block as \<subseteq> covers (free_list h)"
proof (cases "al AND (al - 1) = 0")
  case False
  then show ?thesis using that(1) by (simp add: miniheap_alloc_def)
next
  case True
  obtain rs a where q: "alloc_request sz al = (rs, a)" "align_ok a" "unat al dvd a" "sz + ALLOC_HDR + a \<le> rs" "rs \<le> sz + 32 + a" "8 dvd rs"
    using alloc_request_ok [OF _ True, of sz] sz by auto
  have a31: "a \<le> 2 ^ 31" using q(2) by (auto simp: align_ok_def)
  have b: "ALLOC_HDR + a \<le> rs" "rs + CHUNK_HDR < 2 ^ 64" "0 < rs" "rs + PAGE_SIZE \<le> 2 ^ 63"
    using q(4,5) sz a31 by (simp_all add: PAGE_SIZE_def)
  have fits: "p + sz \<le> e" if "p + (rs - ALLOC_HDR - a) \<le> e" for p e using that q(4) by linarith
  have "a > 0" if "al \<noteq> 0" using that q(1) by (auto simp: alloc_request_def Let_def unat_gt_0 split: if_splits)
  then have dvd: "unat al dvd p" if "a > 0 \<Longrightarrow> a dvd p" "al \<noteq> 0" for p
    using that q(3) dvd_trans by blast
  have nz: "p \<noteq> 0" if "fresh_block k p as h'" for k p as h' using that by (auto simp: fresh_block_def header_ok_def)
  show ?thesis
  proof (cases rule: alloc_pass_cases [OF inv q(6,2) b(1,2)])
    case (2 p as h')
    then have "miniheap_alloc sz al h = Ret (p, h')" using nz [OF 2(3)] True q(1) by (simp add: miniheap_alloc_def)
    then show ?thesis using that(2) 2 nz [OF 2(3)] fits dvd by metis
  next
    case 1
    show ?thesis
    proof (cases rule: heap_grow_cases [OF inv b(3,4)])
      assume "heap_grow rs h = Ret (ERR_NO_MEMORY, h)"
      then show ?thesis using that(1) 1(1) True q(1) by (simp add: miniheap_alloc_def)
    next
      fix err h1 assume g: "heap_grow rs h = Ret (err, h1)" "0 \<le> err" "heap_inv h1" "headers h1 = headers h" "same_rest h h1"
        "\<exists>c\<in>set (free_list h1). rs \<le> snd c" "arena h1 \<noteq> arena h"
      have e: "miniheap_alloc sz al h = alloc_pass rs a h1" using g(1,2) 1(1) True q(1) by (simp add: miniheap_alloc_def)
      show ?thesis
      proof (cases rule: alloc_pass_cases [OF g(3) q(6,2) b(1,2)])
        assume "\<forall>c\<in>set (free_list h1). snd c < rs"
        then show ?thesis using g(6) by fastforce
      next
        fix p as h' assume f: "alloc_pass rs a h1 = Ret (p, h')" "heap_inv h'" "fresh_block h1 p as h'" "same_rest h1 h'"
          "arena h' = arena h1" "a > 0 \<Longrightarrow> a dvd p" "p + (rs - ALLOC_HDR - a) \<le> aptr as + asize as"
        have "fresh_block h p as h'" "same_rest h h'" using f(3,4) g(4,5) by (auto simp: fresh_block_def same_rest_def live_def)
        then show ?thesis using that(2) f nz [OF f(3)] fits dvd e g(7) by metis
      qed
    qed
  qed
qed

end
