(* ===== verification/Heap_Trim.thy ===== *)
theory Heap_Trim
  imports Heap_Correct
begin

text \<open>
  Trimming: whole pages inside free chunks go back to the page allocator, and what remains of
  the chunk stays on the list. The invariant of the heap holds throughout the walk.
\<close>

lemma page_bounds: "0 < PAGE_SIZE" "8 dvd PAGE_SIZE" "CHUNK_HDR < PAGE_SIZE"
  by (simp_all add: PAGE_SIZE_def)

lemma trim_range_ok:
  assumes "trim_range s e sp ep = Some (sp', ep')"
    and "s \<le> sp" "ep \<le> e" "PAGE_SIZE dvd sp" "PAGE_SIZE dvd ep"
  shows "s \<le> sp' \<and> sp' < ep' \<and> ep' \<le> e \<and> PAGE_SIZE dvd sp' \<and> PAGE_SIZE dvd ep'
    \<and> (sp' = s \<or> CHUNK_HDR \<le> sp' - s) \<and> (ep' = e \<or> CHUNK_HDR \<le> e - ep')"
  using assms
proof (induction s e sp ep rule: trim_range.induct)
  case (1 s e sp ep)
  note eq = trim_range.simps [of s e sp ep]
  have gt: "sp < ep" using 1(3) eq by (auto split: if_splits)
  consider "sp = s \<and> ep = e" | "\<not> (sp = s \<and> ep = e)" "sp \<noteq> s \<and> sp - s < CHUNK_HDR"
    | "\<not> (sp = s \<and> ep = e)" "\<not> (sp \<noteq> s \<and> sp - s < CHUNK_HDR)" "ep < e \<and> e - ep < CHUNK_HDR"
    | "\<not> (sp = s \<and> ep = e)" "\<not> (sp \<noteq> s \<and> sp - s < CHUNK_HDR)" "\<not> (ep < e \<and> e - ep < CHUNK_HDR)" by blast
  then show ?case
  proof cases
    case 1
    then show ?thesis using \<open>trim_range s e sp ep = Some (sp', ep')\<close> eq gt "1.prems" by auto
  next
    case 2
    then have "trim_range s e (sp + PAGE_SIZE) ep = Some (sp', ep')" using "1.prems"(1) eq gt by simp
    then show ?thesis using "1.IH"(1) [OF gt 2] "1.prems" by auto
  next
    case 3
    then have "trim_range s e sp (ep - PAGE_SIZE) = Some (sp', ep')" using "1.prems"(1) eq gt by (auto split: if_splits)
    then show ?thesis using "1.IH"(2) [OF gt 3] "1.prems" by (auto intro: dvd_diff_nat)
  next
    case 4
    then have "sp' = sp" "ep' = ep" using "1.prems"(1) eq gt by auto
    then show ?thesis using 4 gt "1.prems" by auto
  qed
qed

lemma trim_pieces_ok:
  assumes c: "chunk_ok c" and r: "fst c \<le> sp" "sp < ep" "ep \<le> fst c + snd c" "PAGE_SIZE dvd sp" "PAGE_SIZE dvd ep"
    "sp = fst c \<or> CHUNK_HDR \<le> sp - fst c" "ep = fst c + snd c \<or> CHUNK_HDR \<le> fst c + snd c - ep"
  obtains ps where "trim_pieces c (fst c + snd c) sp ep = Ret ps" "coalesced ps" "covers ps = range_of c - {sp..<ep}"
    "total_len ps + (ep - sp) = snd c" "\<forall>d\<in>set ps. fst c \<le> fst d \<and> fst d + snd d \<le> fst c + snd c"
proof -
  let ?e = "fst c + snd c"
  have d: "8 dvd sp" "8 dvd ep" using r(4,5) page_bounds(2) dvd_trans by blast+
  have cc: "8 dvd fst c" "8 dvd snd c" "?e < 2 ^ 64" "0 < fst c" using c by (auto simp: chunk_ok_def)
  define before where "before = (if sp = fst c then [] else [(fst c, sp - fst c)])"
  define after where "after = (if ep = ?e then [] else [(ep, ?e - ep)])"
  have "heap_create_free_chunk ep (?e - ep) = Ret (ep, ?e - ep)" if "ep \<noteq> ?e"
    using that r(7) d(2) cc by (auto simp: heap_create_free_chunk_def intro: dvd_diff_nat dvd_add)
  moreover have "snd c - (?e - ep) - (ep - sp) = sp - fst c" "?e - fst c = snd c" using r by linarith+
  ultimately have "trim_pieces c ?e sp ep = Ret (before @ after)"
    using r(3) unfolding trim_pieces_def Let_def before_def after_def by auto
  moreover have "chunk_ok x" if "x \<in> set (before @ after)" for x
    using that r d cc by (auto simp: before_def after_def chunk_ok_def dvd_diff_nat split: if_splits)
  then have "coalesced (before @ after)" using r by (auto simp: before_def after_def coalesced_def gap_def)
  moreover have "covers (before @ after) = range_of c - {sp..<ep}"
    using r by (auto simp: before_def after_def chunk_simps range_of_def)
  moreover have "total_len (before @ after) + (ep - sp) = snd c" using r by (auto simp: before_def after_def chunk_simps)
  moreover have "\<forall>d\<in>set (before @ after). fst c \<le> fst d \<and> fst d + snd d \<le> ?e" using r by (auto simp: before_def after_def)
  ultimately show ?thesis by (rule that)
qed

text \<open>Giving back pages that lie in memory the heap owns.\<close>

lemma page_free_owned:
  assumes ok: "arena_ok a" and r: "sp < ep" "PAGE_SIZE dvd sp" "PAGE_SIZE dvd ep"
    and owned: "\<forall>x\<in>{sp..<ep}. x < pbase a \<or> x \<in> in_use a"
  obtains a' where "page_free sp ((ep - sp) div PAGE_SIZE) a = Ret a'" "arena_ok a'" "pbase a' = pbase a"
    "in_use a - {sp..<ep} \<subseteq> in_use a'"
proof (cases "sp < pbase a")
  case True
  then have "page_free sp ((ep - sp) div PAGE_SIZE) a = Ret a" by (simp add: page_free_def novm_free_pages_def in_arena_def)
  then show ?thesis using that ok by auto
next
  case False
  define i where "i = (sp - pbase a) div PAGE_SIZE"
  define n where "n = (ep - sp) div PAGE_SIZE"
  have "PAGE_SIZE dvd sp - pbase a" "PAGE_SIZE dvd ep - sp" using r ok by (auto simp: arena_ok_def intro: dvd_diff_nat)
  then have i: "pbase a + i * PAGE_SIZE = sp" and n: "n * PAGE_SIZE = ep - sp" using False by (simp_all add: i_def n_def)
  have "ep - 1 \<in> {sp..<ep}" "\<not> ep - 1 < pbase a" using r(1) False by auto
  then have "ep - 1 \<in> in_use a" using owned by blast
  then have "ep \<le> pbase a + pages a * PAGE_SIZE" using ok by (auto simp: in_use_def arena_range_def arena_ok_def)
  then have "(i + n) * PAGE_SIZE \<le> pages a * PAGE_SIZE" using i n r(1) by (simp add: add_mult_distrib)
  then have le: "i + n \<le> pages a" using page_bounds(1) by simp
  have "0 < n" using n r(1) by (cases n) auto
  then obtain a' where a': "page_free (pbase a + i * PAGE_SIZE) n a = Ret a'" "arena_ok a'" "pbase a' = pbase a"
    "in_use a' = in_use a - page_run a i n"
    using page_free_run [OF ok le] by blast
  have "pbase a + (i + n) * PAGE_SIZE = sp + n * PAGE_SIZE" using i by (simp add: add_mult_distrib)
  then have "page_run a i n = {sp..<ep}" using i n r(1) by (simp add: page_run_def)
  then show ?thesis using that [of a'] a' i by (simp add: n_def)
qed

lemma arena_top:
  assumes "arena_ok a"
  shows "pbase a + psize a + PAGE_SIZE \<le> 2 ^ 64"
proof -
  have "PAGE_SIZE dvd pbase a + psize a" "pbase a + psize a < 2 ^ 64" using assms by (auto simp: arena_ok_def)
  then obtain k where k: "pbase a + psize a = PAGE_SIZE * k" "PAGE_SIZE * k < 2 ^ 64" by (metis dvdE)
  then have "k < 2 ^ 52" by (simp add: PAGE_SIZE_def)
  then show ?thesis using k(1) by (simp add: PAGE_SIZE_def)
qed

lemma owned_below_top:
  assumes "memory_ok h" and "x \<in> live h \<union> covers (free_list h)"
  shows "x + PAGE_SIZE \<le> 2 ^ 64"
proof -
  have "x < pbase (arena h) + psize (arena h)"
  proof -
    have "x < pbase (arena h) \<or> x \<in> in_use (arena h)" using assms by (auto simp: memory_ok_def)
    then show ?thesis by (auto simp: in_use_def arena_range_def)
  qed
  then show ?thesis using arena_top [of "arena h"] assms(1) by (auto simp: memory_ok_def)
qed

lemma replace_chunk:
  assumes co: "coalesced (acc @ c # cs)" and ps: "coalesced ps"
    and inside: "\<forall>d\<in>set ps. fst c \<le> fst d \<and> fst d + snd d \<le> fst c + snd c"
  shows "coalesced (acc @ ps @ cs)"
proof -
  have "gap d e" if "d \<in> set acc" "e \<in> set ps" for d e using that co inside by (fastforce simp: chunk_simps gap_def)
  moreover have "gap d e" if "d \<in> set ps" "e \<in> set cs" for d e using that co inside by (fastforce simp: chunk_simps gap_def)
  ultimately show ?thesis using co ps by (auto simp: chunk_simps)
qed

lemma trim_step_inv:
  assumes inv: "heap_inv (h\<lparr>free_list := acc @ c # cs\<rparr>)" and ps: "coalesced ps" "covers ps = range_of c - {sp..<ep}"
    "total_len ps + (ep - sp) = snd c" "\<forall>d\<in>set ps. fst c \<le> fst d \<and> fst d + snd d \<le> fst c + snd c"
    and a': "arena_ok a'" "pbase a' = pbase (arena h)" "in_use (arena h) - {sp..<ep} \<subseteq> in_use a'"
    and sub: "{sp..<ep} \<subseteq> range_of c"
  shows "heap_inv (h\<lparr>arena := a', remaining := sub64 (remaining h) (ep - sp), free_list := acc @ ps @ cs\<rparr>)"
proof -
  let ?h = "h\<lparr>arena := a', remaining := sub64 (remaining h) (ep - sp), free_list := acc @ ps @ cs\<rparr>"
  note i = heap_invD [OF inv]
  have co: "coalesced (acc @ c # cs)" and rem: "remaining h = total_len (acc @ c # cs)"
    and dis: "live h \<inter> covers (acc @ c # cs) = {}" using i(2) by (auto simp: free_ok_def)
  have "sub64 (remaining h) (ep - sp) = remaining h - (ep - sp)"
    using total_len_less [OF co] rem ps(3) by (intro sub64_id) (auto simp: chunk_simps)
  then have rem': "sub64 (remaining h) (ep - sp) = total_len (acc @ ps @ cs)" using rem ps(3) by (simp add: chunk_simps)
  have cov: "covers (acc @ ps @ cs) = covers (acc @ c # cs) - {sp..<ep}" using sub ps(2) middle_disjoint [OF co] unfolding covers_simps by blast
  have "{sp..<ep} \<subseteq> covers (acc @ c # cs)" using sub unfolding covers_simps by blast
  then have out: "{sp..<ep} \<inter> live h = {}" using dis by blast
  have "free_ok ?h" using replace_chunk [OF co ps(1,4)] rem' dis cov by (auto simp: free_ok_def)
  moreover have "memory_ok ?h"
  proof -
    have m: "head_addr h < x \<and> (x < pbase (arena h) \<or> x \<in> in_use (arena h))" if "x \<in> live h \<union> covers (acc @ c # cs)" for x
      using i(3) that by (simp add: memory_ok_def)
    have "head_addr h < x \<and> (x < pbase a' \<or> x \<in> in_use a')" if x: "x \<in> live h \<union> covers (acc @ ps @ cs)" for x
    proof -
      have "x \<notin> {sp..<ep}" "x \<in> live h \<union> covers (acc @ c # cs)" using x cov out by auto
      then show ?thesis using m [of x] a'(2,3) by auto
    qed
    then show ?thesis using a'(1,2) i(3) by (simp add: memory_ok_def)
  qed
  moreover have "blocks_ok ?h" "delayed_ok ?h" using i(1,4) by (simp_all add: blocks_ok_def delayed_ok_def)
  ultimately show ?thesis by (simp add: heap_inv_def)
qed

lemma trim_loop_ok:
  "heap_inv (h\<lparr>free_list := acc @ cs\<rparr>) \<Longrightarrow> \<exists>h'. trim_loop acc cs h = Ret h' \<and> heap_inv h' \<and> headers h' = headers h
     \<and> same_rest h h' \<and> covers (free_list h') \<subseteq> covers (acc @ cs)"
proof (induction cs arbitrary: acc h)
  case Nil
  then show ?case by (auto simp: same_rest_def)
next
  case (Cons c cs)
  note i = heap_invD [OF Cons.prems]
  let ?sp = "roundup64 (fst c) PAGE_SIZE" and ?e = "fst c + snd c"
  have co: "coalesced (acc @ c # cs)" using i(2) by (simp add: free_ok_def)
  have c: "chunk_ok c" "chunk_end c = ?e" using co chunk_end_ok by (auto simp: chunk_simps)
  have inc: "range_of c \<subseteq> covers (acc @ c # cs)" unfolding covers_simps by blast
  have "fst c + PAGE_SIZE \<le> 2 ^ 64" using owned_below_top [OF i(3), of "fst c"] range_nonempty [OF c(1)] subsetD [OF inc] by simp
  then have sp: "?sp = roundup (fst c) PAGE_SIZE" using page_bounds(1) by (intro roundup64_eq) linarith
  have g: "fst c < ?e" "fst c \<le> ?sp" using c(1) roundup_ge [OF page_bounds(1)] sp by (auto simp: chunk_ok_def)
  show ?case
  proof (cases "trim_range (fst c) ?e ?sp (rounddown ?e PAGE_SIZE)")
    case None
    then have "trim_loop acc (c # cs) h = trim_loop (acc @ [c]) cs h" using g c(2) by (simp add: Let_def)
    then show ?thesis using Cons.IH [of "acc @ [c]" h] Cons.prems by simp
  next
    case (Some r)
    obtain s e where r: "r = (s, e)" by (cases r)
    have t: "fst c \<le> s" "s < e" "e \<le> ?e" "PAGE_SIZE dvd s" "PAGE_SIZE dvd e"
      "s = fst c \<or> CHUNK_HDR \<le> s - fst c" "e = ?e \<or> CHUNK_HDR \<le> ?e - e"
      using trim_range_ok [OF Some [unfolded r] g(2) rounddown_le] sp by auto
    obtain ps where ps: "trim_pieces c ?e s e = Ret ps" "coalesced ps" "covers ps = range_of c - {s..<e}"
      "total_len ps + (e - s) = snd c" "\<forall>d\<in>set ps. fst c \<le> fst d \<and> fst d + snd d \<le> ?e"
      using trim_pieces_ok [OF c(1) t] by blast
    have sub: "{s..<e} \<subseteq> range_of c" using t(1,3) by (auto simp: range_of_def)
    then have owned: "\<forall>x\<in>{s..<e}. x < pbase (arena h) \<or> x \<in> in_use (arena h)"
      using i(3) inc unfolding memory_ok_def by auto
    have "arena_ok (arena h)" using i(3) by (simp add: memory_ok_def)
    then obtain a' where a': "page_free s ((e - s) div PAGE_SIZE) (arena h) = Ret a'" "arena_ok a'"
      "pbase a' = pbase (arena h)" "in_use (arena h) - {s..<e} \<subseteq> in_use a'"
      using page_free_owned [OF _ t(2,4,5) owned] by blast
    let ?h = "h\<lparr>arena := a', remaining := sub64 (remaining h) (e - s)\<rparr>"
    have "trim_loop acc (c # cs) h = trim_loop (acc @ ps) cs ?h" using g c(2) Some r ps(1) a'(1) by (simp add: Let_def)
    moreover have "heap_inv (?h\<lparr>free_list := (acc @ ps) @ cs\<rparr>)"
      using trim_step_inv [OF Cons.prems ps(2-5) a'(2-4) sub] by simp
    moreover have "covers ((acc @ ps) @ cs) \<subseteq> covers (acc @ c # cs)" using ps(3) unfolding covers_simps by blast
    ultimately show ?thesis using Cons.IH [of "acc @ ps" ?h] by (fastforce simp: same_rest_def)
  qed
qed

lemma miniheap_trim_ok:
  assumes "heap_inv h"
  obtains h' where "miniheap_trim h = Ret h'" "heap_inv h'" "headers h' = headers h" "same_rest h h'"
    "covers (free_list h') \<subseteq> covers (free_list h)"
  using trim_loop_ok [of "[]" "free_list h" h] assms by (auto simp: miniheap_trim_def)

end
