(* ===== verification/Heap_Runs.thy ===== *)
theory Heap_Runs
  imports Heap_Trim
begin

text \<open>
  The heap as its clients see it: what \<^verbatim>\<open>malloc\<close>, \<^verbatim>\<open>free\<close> and the other calls of the wrapper
  promise (locale \<open>allocator\<close>), and that no sequence of legal calls after boot breaks the
  invariant or faults.
\<close>

section \<open>An allocator\<close>

text \<open>
  The interface: the blocks handed out and not yet released, as a map from the address to the
  memory reserved for it, and the contents of memory.
\<close>

locale allocator =
  fixes inv :: "'s \<Rightarrow> bool" and region :: "'s \<Rightarrow> nat \<rightharpoonup> nat set" and content :: "'s \<Rightarrow> nat \<Rightarrow> byte" and limit :: nat
    and alloc :: "nat \<Rightarrow> 's \<Rightarrow> (nat \<times> 's) outcome" and release :: "nat \<Rightarrow> 's \<Rightarrow> 's outcome"
  assumes alloc_law: "inv s \<Longrightarrow> n \<le> limit \<Longrightarrow> \<exists>p s'. alloc n s = Ret (p, s') \<and> inv s' \<and> content s' = content s
      \<and> (if p = 0 then region s' = region s
         else region s p = None \<and> (\<exists>R. region s' = (region s)(p \<mapsto> R) \<and> {p ..< p + n} \<subseteq> R))"
    and release_law: "inv s \<Longrightarrow> region s p = Some R \<Longrightarrow> \<exists>s'. release p s = Ret s' \<and> inv s' \<and> content s' = content s
      \<and> region s' = (region s)(p := None)"
    and disjoint: "inv s \<Longrightarrow> region s p = Some P \<Longrightarrow> region s q = Some Q \<Longrightarrow> p \<noteq> q \<Longrightarrow> P \<inter> Q = {}"
begin

text \<open>Two allocations never overlap.\<close>

lemma alloc_alloc_disjoint:
  assumes "inv s" and "m \<le> limit" "n \<le> limit"
  shows "\<exists>p q s1 s2. alloc m s = Ret (p, s1) \<and> alloc n s1 = Ret (q, s2) \<and> inv s2
    \<and> (p = 0 \<or> q = 0 \<or> p \<noteq> q \<and> {p ..< p + m} \<inter> {q ..< q + n} = {})"
proof -
  obtain p s1 where 1: "alloc m s = Ret (p, s1)" "inv s1"
    "if p = 0 then region s1 = region s else region s p = None \<and> (\<exists>R. region s1 = (region s)(p \<mapsto> R) \<and> {p ..< p + m} \<subseteq> R)"
    using alloc_law [OF assms(1,2)] by blast
  obtain q s2 where 2: "alloc n s1 = Ret (q, s2)" "inv s2"
    "if q = 0 then region s2 = region s1 else region s1 q = None \<and> (\<exists>R. region s2 = (region s1)(q \<mapsto> R) \<and> {q ..< q + n} \<subseteq> R)"
    using alloc_law [OF 1(2) assms(3)] by blast
  have "p \<noteq> q \<and> {p ..< p + m} \<inter> {q ..< q + n} = {}" if nz: "p \<noteq> 0" "q \<noteq> 0"
  proof -
    obtain P Q where P: "region s1 = (region s)(p \<mapsto> P)" "{p ..< p + m} \<subseteq> P"
      and Q: "region s1 q = None" "region s2 = (region s1)(q \<mapsto> Q)" "{q ..< q + n} \<subseteq> Q"
      using 1(3) 2(3) nz by auto
    then have "p \<noteq> q" "region s2 p = Some P" "region s2 q = Some Q" by auto
    then show ?thesis using disjoint [OF 2(2)] P(2) Q(3) by blast
  qed
  then have "p = 0 \<or> q = 0 \<or> p \<noteq> q \<and> {p ..< p + m} \<inter> {q ..< q + n} = {}" by metis
  with 1(1) 2(1,2) show ?thesis by (intro exI conjI)
qed

text \<open>Releasing what was just allocated leaves the other blocks and the contents as they were.\<close>

lemma alloc_release:
  assumes "inv s" "n \<le> limit" and "alloc n s = Ret (p, s1)" "p \<noteq> 0"
  shows "\<exists>s2. release p s1 = Ret s2 \<and> inv s2 \<and> region s2 = region s \<and> content s2 = content s"
proof -
  obtain R where a: "inv s1" "content s1 = content s" "region s p = None" "region s1 = (region s)(p \<mapsto> R)"
    using alloc_law [OF assms(1,2)] assms(3,4) by auto
  then obtain s2 where s2: "release p s1 = Ret s2" "inv s2" "content s2 = content s1" "region s2 = (region s1)(p := None)"
    using release_law [OF a(1), of p R] by auto
  have "(region s)(p := None) = region s" using a(3) by (simp add: fun_upd_idem)
  then show ?thesis using s2 a(2,4) by simp
qed

end

section \<open>The delayed free list\<close>

lemma free_all_ok:
  "heap_inv h \<Longrightarrow> delayed_free_list h = [] \<Longrightarrow> distinct ps \<Longrightarrow> set ps \<subseteq> dom (headers h) \<Longrightarrow>
    \<exists>h'. free_all ps h = Ret h' \<and> heap_inv h' \<and> headers h' = headers h |` (- set ps) \<and> same_rest h h' \<and> arena h' = arena h"
proof (induction ps arbitrary: h)
  case Nil
  then show ?case by (simp add: same_rest_def)
next
  case (Cons p ps)
  obtain as where p: "headers h p = Some as" using Cons.prems(4) by auto
  obtain fl where f: "miniheap_free p h = Ret (h\<lparr>headers := (headers h)(p := None), remaining := total_len fl, free_list := fl\<rparr>)"
    "heap_inv (h\<lparr>headers := (headers h)(p := None), remaining := total_len fl, free_list := fl\<rparr>)"
    using miniheap_free_ok [OF Cons.prems(1) p] Cons.prems(2) by auto
  let ?h = "h\<lparr>headers := (headers h)(p := None), remaining := total_len fl, free_list := fl\<rparr>"
  obtain h' where h': "free_all ps ?h = Ret h'" "heap_inv h'" "headers h' = headers ?h |` (- set ps)" "same_rest ?h h'" "arena h' = arena ?h"
  proof -
    have "set ps \<subseteq> dom (headers ?h)" "distinct ps" using Cons.prems(3,4) by auto
    then show ?thesis using Cons.IH [OF f(2)] Cons.prems(2) that by fastforce
  qed
  have "headers ?h |` (- set ps) = headers h |` (- set (p # ps))" by (auto simp: restrict_map_def)
  then show ?case using h' f(1) by (auto simp: same_rest_def)
qed

lemma flush_delayed_ok:
  assumes inv: "heap_inv h"
  obtains h' where "flush_delayed h = Ret h'" "heap_inv h'" "delayed_free_list h' = []"
    "headers h' = headers h |` (- set (delayed_free_list h))" "mem h' = mem h" "arena h' = arena h" "delayed_free_list h = [] \<Longrightarrow> h' = h"
proof (cases "delayed_free_list h = []")
  case True
  then have "headers h = headers h |` (- set (delayed_free_list h))" by (simp add: restrict_map_def)
  then show ?thesis using that [of h] True inv by (simp add: flush_delayed_def)
next
  case False
  let ?h = "h\<lparr>delayed_free_list := []\<rparr>"
  have "heap_inv ?h" using inv by (simp add: heap_inv_def blocks_ok_def free_ok_def memory_ok_def delayed_ok_def)
  moreover have "distinct (rev (delayed_free_list h))" "set (rev (delayed_free_list h)) \<subseteq> dom (headers ?h)"
    using heap_invD(4) [OF inv] by (auto simp: delayed_ok_def)
  ultimately show ?thesis
    using free_all_ok [of ?h "rev (delayed_free_list h)"] that False
    by (auto simp: flush_delayed_def heap_free_delayed_list_def same_rest_def)
qed

section \<open>The client's view\<close>

definition region :: "heap \<Rightarrow> nat \<rightharpoonup> nat set" where
  "region h p = (if p \<in> set (delayed_free_list h) then None else map_option block (headers h p))"

definition max_request :: nat where
  "max_request = 2 ^ 62"

lemma region_flushed: "delayed_free_list h = [] \<Longrightarrow> region h p = map_option block (headers h p)"
  by (simp add: region_def)

lemma region_flush:
  "delayed_free_list h' = [] \<Longrightarrow> headers h' = headers h |` (- set (delayed_free_list h)) \<Longrightarrow> region h' = region h"
  by (rule ext) (simp add: region_def restrict_map_def)

lemma region_disjoint:
  assumes "heap_inv h" "region h p = Some P" "region h q = Some Q" "p \<noteq> q"
  shows "P \<inter> Q = {}"
proof -
  obtain as bs where "headers h p = Some as" "block as = P" "headers h q = Some bs" "block bs = Q"
    using assms(2,3) by (auto simp: region_def split: if_splits)
  then show ?thesis using blocks_okD(2) [OF heap_invD(1) [OF assms(1)]] assms(4) by metis
qed

text \<open>What one allocating call does to the client's view.\<close>

definition allocated :: "nat \<Rightarrow> nat \<Rightarrow> nat \<Rightarrow> heap \<Rightarrow> heap \<Rightarrow> bool" where
  "allocated n al p h h' \<longleftrightarrow> heap_inv h' \<and> delayed_free_list h' = []
     \<and> (if p = 0 then region h' = region h
        else region h p = None \<and> (\<exists>R. region h' = (region h)(p \<mapsto> R) \<and> {p ..< p + n} \<subseteq> R) \<and> 8 dvd p \<and> (al \<noteq> 0 \<longrightarrow> al dvd p))"

lemma miniheap_alloc_client:
  assumes inv: "heap_inv h" "delayed_free_list h = []" and n: "n \<le> max_request"
  shows "\<exists>p h'. miniheap_alloc n al h = Ret (p, h') \<and> allocated n (unat al) p h h' \<and> mem h' = mem h"
proof (cases rule: miniheap_alloc_cases [OF inv(1) n [unfolded max_request_def], of al])
  case 1
  then show ?thesis using inv by (auto simp: allocated_def)
next
  case (2 p as h')
  have h: "headers h' = (headers h)(p \<mapsto> as)" "headers h p = None" "header_ok p as" "mem h' = mem h" "delayed_free_list h' = []"
    using 2(4,5) inv(2) by (auto simp: fresh_block_def same_rest_def)
  have "region h' = (region h)(p \<mapsto> block as)" "region h p = None" using h inv(2) by (auto simp: region_def)
  moreover have "{p ..< p + n} \<subseteq> block as" "8 dvd p" using 2(7) h(3) by (auto simp: header_ok_def block_def range_of_def)
  ultimately show ?thesis using 2 h(4,5) by (auto simp: allocated_def unat_eq_0)
qed

lemma malloc_client:
  assumes "heap_inv h" and "n \<le> max_request"
  shows "\<exists>p h'. malloc n h = Ret (p, h') \<and> allocated n 0 p h h' \<and> mem h' = mem h"
proof -
  obtain h1 where h1: "flush_delayed h = Ret h1" "heap_inv h1" "delayed_free_list h1 = []"
    "headers h1 = headers h |` (- set (delayed_free_list h))" "mem h1 = mem h"
    using flush_delayed_ok [OF assms(1)] by metis
  obtain p h' where a: "miniheap_alloc n 0 h1 = Ret (p, h')" "allocated n 0 p h1 h'" "mem h' = mem h1"
    using miniheap_alloc_client [OF h1(2,3) assms(2), of 0] by auto
  have "malloc n h = Ret (p, h')" using h1(1) a(1) by (simp add: malloc_def)
  moreover have "allocated n 0 p h h'" using a(2) unfolding allocated_def region_flush [OF h1(3,4)] .
  ultimately show ?thesis using a(3) h1(5) by simp
qed

lemma free_client:
  assumes inv: "heap_inv h" and p: "region h p = Some R"
  shows "\<exists>h'. free p h = Ret h' \<and> heap_inv h' \<and> mem h' = mem h \<and> region h' = (region h)(p := None)
    \<and> delayed_free_list h' = delayed_free_list h"
proof -
  obtain as where as: "headers h p = Some as" "p \<notin> set (delayed_free_list h)" using p by (auto simp: region_def split: if_splits)
  obtain fl where f: "miniheap_free p h = Ret (h\<lparr>headers := (headers h)(p := None), remaining := total_len fl, free_list := fl\<rparr>)"
    "heap_inv (h\<lparr>headers := (headers h)(p := None), remaining := total_len fl, free_list := fl\<rparr>)"
    using miniheap_free_ok [OF inv as] by metis
  have "region (h\<lparr>headers := (headers h)(p := None), remaining := total_len fl, free_list := fl\<rparr>) = (region h)(p := None)"
    by (rule ext) (simp add: region_def)
  then show ?thesis using f by (simp add: free_def)
qed

interpretation heap: allocator heap_inv region mem max_request malloc free
proof
  fix s n assume "heap_inv s" "n \<le> max_request"
  then show "\<exists>p s'. malloc n s = Ret (p, s') \<and> heap_inv s' \<and> mem s' = mem s
      \<and> (if p = 0 then region s' = region s
         else region s p = None \<and> (\<exists>R. region s' = (region s)(p \<mapsto> R) \<and> {p ..< p + n} \<subseteq> R))"
    using malloc_client [of s n] unfolding allocated_def by (metis (full_types))
next
  fix s p R assume "heap_inv s" "region s p = Some R"
  then show "\<exists>s'. free p s = Ret s' \<and> heap_inv s' \<and> mem s' = mem s \<and> region s' = (region s)(p := None)"
    using free_client by blast
next
  fix s p P q Q assume "heap_inv s" "region s p = Some P" "region s q = Some Q" "p \<noteq> q"
  then show "P \<inter> Q = {}" by (rule region_disjoint)
qed




lemma region_mem [simp]: "region (h\<lparr>mem := m\<rparr>) = region h"
  by (rule ext) (simp add: region_def)



section \<open>Runs of calls\<close>

datatype hop = Malloc nat | Memalign nat nat | Calloc nat nat | Realloc nat nat | Free nat | Delayed_Free nat | Trim



text \<open>A client passes sane sizes and, to the releasing calls, addresses of blocks it holds; to the
delayed one only blocks with room for its list node.\<close>

fun hop_ok :: "hop \<Rightarrow> heap \<Rightarrow> bool" where
  "hop_ok (Malloc n) h \<longleftrightarrow> n \<le> max_request"
| "hop_ok (Memalign b n) h \<longleftrightarrow> n \<le> max_request \<and> b < 2 ^ 32"
| "hop_ok (Calloc n s) h \<longleftrightarrow> n * s \<le> max_request"
| "hop_ok (Realloc p n) h \<longleftrightarrow> (p = 0 \<or> region h p \<noteq> None) \<and> n \<le> max_request"
| "hop_ok (Free p) h \<longleftrightarrow> p = 0 \<or> region h p \<noteq> None"
| "hop_ok (Delayed_Free p) h \<longleftrightarrow> region h p \<noteq> None \<and> LIST_NODE \<le> block_room h p"
| "hop_ok Trim h \<longleftrightarrow> True"



lemma allocated_inv: "allocated n al p h h' \<Longrightarrow> heap_inv h'"
  by (simp add: allocated_def)



section \<open>Boot\<close>

text \<open>The state before \<^verbatim>\<open>heap_init\<close>: the page allocator is set up, the heap's own memory is zero.\<close>

definition heap0 :: "nat \<Rightarrow> novm_arena \<Rightarrow> (nat \<Rightarrow> byte) \<Rightarrow> heap" where
  "heap0 head a m = \<lparr>hbase = 0, hlen = 0, remaining = 0, low_watermark = 0, head_addr = head, free_list = [],
     headers = Map.empty, mem = m, arena = a, delayed_free_list = []\<rparr>"


lemma arena_unaligned [simp]:
  "arena_ok (a\<lparr>unaligned_area := x, unaligned_size := y\<rparr>) = arena_ok a" "in_use (a\<lparr>unaligned_area := x, unaligned_size := y\<rparr>) = in_use a"
  by (simp_all add: arena_ok_def in_use_def arena_range_def)


section \<open>Properties\<close>



text \<open>Claim C36: what \<^verbatim>\<open>malloc\<close> promises. For a request of at most \<open>2 ^ 62\<close> bytes it returns; a null
result leaves the blocks as they were; otherwise the address is a multiple of 8, was not in
use, the bytes from it on belong to the new block, and no byte of the new block belongs to any
other block. Contents of memory are untouched. A second allocation is disjoint from the first.\<close>

theorem malloc_fresh_block:
  assumes "heap_inv h" and "n \<le> max_request" and "k \<le> max_request"
  shows "\<exists>p h1. malloc n h = Ret (p, h1) \<and> heap_inv h1 \<and> mem h1 = mem h
    \<and> (if p = 0 then region h1 = region h
       else 8 dvd p \<and> region h p = None
         \<and> (\<exists>R. region h1 = (region h)(p \<mapsto> R) \<and> {p ..< p + n} \<subseteq> R \<and> (\<forall>Q\<in>ran (region h). Q \<inter> R = {})))
    \<and> (\<exists>q h2. malloc k h1 = Ret (q, h2) \<and> heap_inv h2
         \<and> (p = 0 \<or> q = 0 \<or> p \<noteq> q \<and> {p ..< p + n} \<inter> {q ..< q + k} = {}))"
proof -
  obtain p h1 where a: "malloc n h = Ret (p, h1)" "allocated n 0 p h h1" "mem h1 = mem h"
    using malloc_client [OF assms(1,2)] by blast
  have inv: "heap_inv h1" using a(2) by (rule allocated_inv)
  have "if p = 0 then region h1 = region h
       else 8 dvd p \<and> region h p = None
         \<and> (\<exists>R. region h1 = (region h)(p \<mapsto> R) \<and> {p ..< p + n} \<subseteq> R \<and> (\<forall>Q\<in>ran (region h). Q \<inter> R = {}))"
  proof (cases "p = 0")
    case False
    then obtain R where R: "region h p = None" "region h1 = (region h)(p \<mapsto> R)" "{p ..< p + n} \<subseteq> R" "8 dvd p"
      using a(2) by (auto simp: allocated_def)
    have "Q \<inter> R = {}" if Q: "Q \<in> ran (region h)" for Q
    proof -
      obtain q where "region h q = Some Q" using Q by (auto simp: ran_def)
      then have "q \<noteq> p" "region h1 q = Some Q" "region h1 p = Some R" using R(1,2) by auto
      then show ?thesis using region_disjoint [OF inv] by blast
    qed
    then show ?thesis using False R by auto
  qed (use a(2) in \<open>simp add: allocated_def\<close>)
  moreover obtain q h2 where "malloc k h1 = Ret (q, h2)" "heap_inv h2"
    "p = 0 \<or> q = 0 \<or> p \<noteq> q \<and> {p ..< p + n} \<inter> {q ..< q + k} = {}"
    using heap.alloc_alloc_disjoint [OF assms] a(1) by auto
  ultimately show ?thesis using a(1,3) inv by blast
qed

definition tiny_heap :: heap where
  "tiny_heap = (heap0 4096 small_arena (\<lambda>_. 0))\<lparr>free_list := [(8192, 4096)], remaining := 4096\<rparr>"

lemma tiny_heap_inv: "heap_inv tiny_heap" "delayed_free_list tiny_heap = []"
proof -
  have "x \<in> in_use small_arena" if "8192 \<le> x" "x < 12288" for x
    using that by (simp add: in_use_def arena_range_def small_arena_def PAGE_SIZE_def div_less)
  then show "heap_inv tiny_heap"
    using small_arena_ok
    by (auto simp: heap_inv_def blocks_ok_def free_ok_def memory_ok_def delayed_ok_def tiny_heap_def heap0_def
        live_def chunk_simps chunk_ok_def small_arena_def)
  show "delayed_free_list tiny_heap = []" by (simp add: tiny_heap_def heap0_def)
qed

theorem malloc_fresh_block_witness:
  "\<exists>p h1. malloc 100 tiny_heap = Ret (p, h1) \<and> heap_inv h1 \<and> mem h1 = mem tiny_heap"
  using malloc_fresh_block [OF tiny_heap_inv(1), of 100 100] by (auto simp: max_request_def)

text \<open>Releasing undoes allocating. A block that was carved out of the free list without
growing the heap, once freed, leaves exactly the free list, the count of remaining bytes and
the other blocks of before: the pieces are merged back with their neighbours.\<close>

theorem malloc_free_restores:
  assumes inv: "heap_inv h" "delayed_free_list h = []" and n: "n \<le> max_request"
    and p: "malloc n h = Ret (p, h1)" "p \<noteq> 0" "arena h1 = arena h"
  shows "\<exists>h2. free p h1 = Ret h2 \<and> heap_inv h2 \<and> free_list h2 = free_list h \<and> remaining h2 = remaining h
    \<and> headers h2 = headers h \<and> mem h2 = mem h"
proof -
  have m: "malloc n h = miniheap_alloc n 0 h" using inv(2) by (simp add: malloc_def flush_delayed_def)
  show ?thesis
  proof (cases rule: miniheap_alloc_cases [OF inv(1) n [unfolded max_request_def], of 0])
    case 1
    then show ?thesis using m p by simp
  next
    case (2 q as h')
    then have e: "q = p" "h' = h1" using m p(1) by auto
    note a = 2 [unfolded e]
    have f: "headers h1 = (headers h)(p \<mapsto> as)" "headers h p = None" "mem h1 = mem h" "delayed_free_list h1 = []"
      using a(4,5) inv(2) by (auto simp: fresh_block_def same_rest_def)
    have cov: "covers (free_list h1) \<union> block as = covers (free_list h)" using a(8) p(3) by auto
    obtain fl where fl: "miniheap_free p h1 = Ret (h1\<lparr>headers := (headers h1)(p := None), remaining := total_len fl, free_list := fl\<rparr>)"
      "heap_inv (h1\<lparr>headers := (headers h1)(p := None), remaining := total_len fl, free_list := fl\<rparr>)"
      "coalesced fl" "covers fl = covers (free_list h1) \<union> block as"
      using miniheap_free_ok [OF a(3), of p as] f by auto
    have old: "coalesced (free_list h)" "remaining h = total_len (free_list h)" using heap_invD(2) [OF inv(1)] by (auto simp: free_ok_def)
    have "fl = free_list h" using coalesced_unique [OF fl(3) old(1)] fl(4) cov by simp
    moreover have "(headers h1)(p := None) = headers h" using f(1,2) by (simp add: fun_upd_idem)
    ultimately show ?thesis using fl(1,2) f(3) old(2) by (simp add: free_def)
  qed
qed

lemma tiny_heap_malloc: "\<exists>h1. malloc 100 tiny_heap = Ret (8216, h1) \<and> arena h1 = arena tiny_heap"
proof -
  have "alloc_request 100 0 = (128, 0)" by (simp add: alloc_request_def add64_def roundup64_def rounddown_def)
  then show ?thesis
    by (simp add: malloc_def flush_delayed_def miniheap_alloc_def tiny_heap_def heap0_def alloc_pass_def take_chunk_def
        split_chunk_def heap_create_free_chunk_def wrap_simps Let_def)
qed

theorem malloc_free_restores_witness:
  "\<exists>h1 h2. malloc 100 tiny_heap = Ret (8216, h1) \<and> free 8216 h1 = Ret h2 \<and> free_list h2 = free_list tiny_heap"
proof -
  obtain h1 where h1: "malloc 100 tiny_heap = Ret (8216, h1)" "arena h1 = arena tiny_heap" using tiny_heap_malloc by blast
  then show ?thesis using malloc_free_restores [OF tiny_heap_inv, of 100 8216 h1] by (auto simp: max_request_def)
qed

text \<open>
  A block from \<^verbatim>\<open>malloc\<close> of 9 bytes or more can be released later; the smallest blocks are too short
  for the list node, which then overwrites what follows.
\<close>

lemma malloc_room:
  assumes "heap_inv h" and "malloc n h = Ret (p, h1)" and "p \<noteq> 0" and "9 \<le> n" and "n \<le> max_request"
  shows "hop_ok (Delayed_Free p) h1"
proof -
  have al: "allocated n 0 p h h1" using malloc_client [OF assms(1,5)] assms(2) by auto
  then obtain R where R: "region h1 p = Some R" "{p ..< p + n} \<subseteq> R" and inv: "heap_inv h1" and d: "8 dvd p"
    using assms(3) by (auto simp: allocated_def)
  then obtain as where as: "headers h1 p = Some as" "R = block as" by (auto simp: region_def split: if_splits)
  have "8 dvd aptr as + asize as"
    using blocks_okD(1) [OF heap_invD(1) [OF inv] as(1)] by (auto simp: header_ok_def chunk_ok_def)
  moreover have "p + n \<le> aptr as + asize as"
    using R(2) as(2) assms(4) by (auto simp: block_def range_of_def)
  ultimately obtain a b where "aptr as + asize as = 8 * a" "p = 8 * b" "8 * b + 9 \<le> 8 * a"
    using d assms(4) by (auto elim!: dvdE)
  moreover from this(3) have "b + 2 \<le> a" by presburger
  ultimately have "p + 16 \<le> aptr as + asize as" by simp
  then show ?thesis using R(1) as(1) by (simp add: block_room_def)
qed

lemma delayed_free_needs_room:
  "\<exists>h1. malloc 0 tiny_heap = Ret (8216, h1) \<and> heap_delayed_free 8216 h1 = Fault"
proof -
  have "alloc_request 0 0 = (24, 0)" by (simp add: alloc_request_def add64_def roundup64_def rounddown_def)
  then show ?thesis
    by (simp add: malloc_def flush_delayed_def miniheap_alloc_def tiny_heap_def heap0_def alloc_pass_def take_chunk_def
        split_chunk_def heap_create_free_chunk_def wrap_simps Let_def heap_delayed_free_def block_room_def)
qed

text \<open>
  A request close to the largest size wraps around: the size with its header becomes small, and
  a block of 24 bytes, with no room for data at all, is handed out.
\<close>

lemma alloc_request_wraps: "alloc_request (2 ^ 64 - 8) 0 = (24, 0)"
  by (simp add: alloc_request_def add64_def roundup64_def rounddown_def)

text \<open>The low-water mark starts at zero and is only ever lowered: it never records anything.\<close>

lemma low_watermark_stays_0:
  assumes "low_watermark h = 0" and "take_chunk sz al pre c post h = Ret (p, h')"
  shows "low_watermark h' = 0"
  using assms by (auto simp: take_chunk_def Let_def split: outcome.splits prod.splits if_splits)

end
