(* ===== verification/Qsort.thy ===== *)
theory Qsort
  imports Lk_Prelude "HOL-Library.Multiset"
begin

text \<open>
  \<^verbatim>\<open>lib/libc/qsort.c\<close>: quicksort with a three-way partition in place that gathers the elements
  equal to the pivot at both ends of the range and swaps them to the middle afterwards.

  The array is a list, and a pointer into it the index of the element it points to: every
  pointer of the code is the start of an element, and \<^verbatim>\<open>swapfunc\<close> exchanges whole elements,
  by \<^verbatim>\<open>long\<close> or by \<^verbatim>\<open>char\<close>. A call works on the \<open>n\<close> elements of \<open>es\<close> bytes from index
  \<open>a\<close> on. The code keeps distances in bytes in an \<^verbatim>\<open>int\<close>; where they do not fit (\<open>2 ^ 31\<close> bytes and
  more) the model gives no result. With elements of no size no pointer ever moves: the insertion sort
  ends at once, and the partition loop never. The comparison function is an argument.
\<close>

type_synonym 'a cmp_fn = "'a \<Rightarrow> 'a \<Rightarrow> int"

definition swap_elems :: "nat \<Rightarrow> nat \<Rightarrow> 'a list \<Rightarrow> 'a list" where
  "swap_elems i j xs = xs[i := xs ! j, j := xs ! i]"

fun swapcode :: "nat \<Rightarrow> nat \<Rightarrow> nat \<Rightarrow> 'a list \<Rightarrow> 'a list" where
  "swapcode i j 0 xs = xs"
| "swapcode i j (Suc n) xs = swapcode (Suc i) (Suc j) n (swap_elems i j xs)"

definition vecswap :: "nat \<Rightarrow> nat \<Rightarrow> nat \<Rightarrow> 'a list \<Rightarrow> 'a list" where
  "vecswap i j n xs = (if 0 < n then swapcode i j n xs else xs)"

definition med3 :: "'a cmp_fn \<Rightarrow> 'a list \<Rightarrow> nat \<Rightarrow> nat \<Rightarrow> nat \<Rightarrow> nat" where
  "med3 cmp xs a b c =
     (if cmp (xs ! a) (xs ! b) < 0 then
        (if cmp (xs ! b) (xs ! c) < 0 then b else if cmp (xs ! a) (xs ! c) < 0 then c else a)
      else
        (if cmp (xs ! b) (xs ! c) > 0 then b else if cmp (xs ! a) (xs ! c) < 0 then a else c))"

section \<open>Insertion sort of short ranges\<close>

fun sink :: "'a cmp_fn \<Rightarrow> nat \<Rightarrow> nat \<Rightarrow> 'a list \<Rightarrow> 'a list" where
  "sink cmp a pl xs =
     (if a < pl \<and> cmp (xs ! (pl - 1)) (xs ! pl) > 0
      then sink cmp a (pl - 1) (swap_elems pl (pl - 1) xs) else xs)"

function insertion :: "'a cmp_fn \<Rightarrow> nat \<Rightarrow> nat \<Rightarrow> nat \<Rightarrow> 'a list \<Rightarrow> 'a list" where
  "insertion cmp a n pm xs =
     (if pm < a + n then insertion cmp a n (Suc pm) (sink cmp a pm xs) else xs)"
  by pat_completeness auto
termination by (relation "measure (\<lambda>(cmp, a, n, pm, xs). a + n - pm)") auto

declare sink.simps [simp del] insertion.simps [simp del]

section \<open>Partition\<close>

text \<open>
  The state of the partition: \<open>(xs, pa, pb, pc, pd, swap_cnt)\<close>. The guard \<open>0 < pb\<close> of the second
  loop always holds, as \<open>pb\<close> starts behind the pivot.
\<close>

type_synonym 'a part_state = "'a list \<times> nat \<times> nat \<times> nat \<times> nat \<times> bool"

function part_up :: "'a cmp_fn \<Rightarrow> nat \<Rightarrow> 'a part_state \<Rightarrow> 'a part_state" where
  "part_up cmp a (xs, pa, pb, pc, pd, cnt) =
     (if pb \<le> pc \<and> cmp (xs ! pb) (xs ! a) \<le> 0 then
        if cmp (xs ! pb) (xs ! a) = 0
        then part_up cmp a (swap_elems pa pb xs, Suc pa, Suc pb, pc, pd, True)
        else part_up cmp a (xs, pa, Suc pb, pc, pd, cnt)
      else (xs, pa, pb, pc, pd, cnt))"
  by pat_completeness auto
termination by (relation "measure (\<lambda>(cmp, a, xs, pa, pb, pc, pd, cnt). Suc pc - pb)") auto

function part_down :: "'a cmp_fn \<Rightarrow> nat \<Rightarrow> 'a part_state \<Rightarrow> 'a part_state" where
  "part_down cmp a (xs, pa, pb, pc, pd, cnt) =
     (if 0 < pb \<and> pb \<le> pc \<and> cmp (xs ! pc) (xs ! a) \<ge> 0 then
        if cmp (xs ! pc) (xs ! a) = 0
        then part_down cmp a (swap_elems pc pd xs, pa, pb, pc - 1, pd - 1, True)
        else part_down cmp a (xs, pa, pb, pc - 1, pd, cnt)
      else (xs, pa, pb, pc, pd, cnt))"
  by pat_completeness auto
termination by (relation "measure (\<lambda>(cmp, a, xs, pa, pb, pc, pd, cnt). pc)") auto

declare part_up.simps [simp del] part_down.simps [simp del]

partial_function (option) part_loop :: "'a cmp_fn \<Rightarrow> nat \<Rightarrow> 'a part_state \<Rightarrow> 'a part_state option" where
  "part_loop cmp a st =
     (case part_down cmp a (part_up cmp a st) of (xs, pa, pb, pc, pd, cnt) \<Rightarrow>
        if pc < pb then Some (xs, pa, pb, pc, pd, cnt)
        else part_loop cmp a (swap_elems pb pc xs, pa, Suc pb, pc - 1, pd, True))"

definition choose_pivot :: "'a cmp_fn \<Rightarrow> nat \<Rightarrow> nat \<Rightarrow> 'a list \<Rightarrow> nat" where
  "choose_pivot cmp a n xs =
     (let pm = a + n div 2 in
      if 7 < n then
        (let pl = a; pn = a + (n - 1) in
         if 40 < n then
           (let d = n div 8;
                pl = med3 cmp xs pl (pl + d) (pl + 2 * d);
                pm = med3 cmp xs (pm - d) pm (pm + d);
                pn = med3 cmp xs (pn - 2 * d) (pn - d) pn
            in med3 cmp xs pl pm pn)
         else med3 cmp xs pl pm pn)
      else pm)"

text \<open>The two blocks of equal elements are swapped to the middle.\<close>

definition gather :: "nat \<Rightarrow> nat \<Rightarrow> 'a part_state \<Rightarrow> 'a list" where
  "gather a n st = (case st of (xs, pa, pb, pc, pd, cnt) \<Rightarrow>
     (let pn = a + n;
          r = min (pa - a) (pb - pa);
          xs = vecswap a (pb - r) r xs;
          r = min (pd - pc) (pn - pd - 1)
      in vecswap pb (pn - r) r xs))"

partial_function (option) qsort ::
    "'a cmp_fn \<Rightarrow> nat \<Rightarrow> nat \<Rightarrow> nat \<Rightarrow> 'a list \<Rightarrow> 'a list option" where
  "qsort cmp es a n xs =
     (if es = 0 then (if n < 7 then Some xs else None)
      else if 2 ^ 31 \<le> n * es then None
      else if n < 7 then Some (insertion cmp a n (Suc a) xs)
      else
        (let xs = swap_elems a (choose_pivot cmp a n xs) xs in
         case part_loop cmp a (xs, Suc a, Suc a, a + (n - 1), a + (n - 1), False) of
           None \<Rightarrow> None
         | Some (xs, pa, pb, pc, pd, cnt) \<Rightarrow>
             if \<not> cnt then Some (insertion cmp a n (Suc a) xs)
             else
               (let pn = a + n; ys = gather a n (xs, pa, pb, pc, pd, cnt) in
                Option.bind (if 1 < pb - pa then qsort cmp es a (pb - pa) ys else Some ys)
                  (\<lambda>ys. if 1 < pd - pc then qsort cmp es (pn - (pd - pc)) (pd - pc) ys else Some ys))))"

end
