(* ===== verification/Qsort_Correct.thy ===== *)
theory Qsort_Correct
  imports Qsort Cstr
begin

text \<open>
  \<^verbatim>\<open>qsort\<close> returns, permutes the range it is given, leaves everything outside it as it was and
  leaves the range in order, for every comparison function that orders the elements (the locale
  \<open>comparator\<close>).
\<close>

section \<open>Changes within a range\<close>

definition perm_in :: "nat \<Rightarrow> nat \<Rightarrow> 'a list \<Rightarrow> 'a list \<Rightarrow> bool" where
  "perm_in i j xs ys \<longleftrightarrow> length ys = length xs \<and> mset ys = mset xs \<and>
     (\<forall>k < length xs. k < i \<or> j \<le> k \<longrightarrow> ys ! k = xs ! k)"

definition seg :: "('a \<Rightarrow> bool) \<Rightarrow> nat \<Rightarrow> nat \<Rightarrow> 'a list \<Rightarrow> bool" where
  "seg P i j xs \<longleftrightarrow> (\<forall>k. i \<le> k \<and> k < j \<longrightarrow> P (xs ! k))"

lemma perm_in_refl [simp]: "perm_in i j xs xs"
  by (simp add: perm_in_def)

lemma perm_in_trans [trans]: "perm_in i j xs ys \<Longrightarrow> perm_in i j ys zs \<Longrightarrow> perm_in i j xs zs"
  by (simp add: perm_in_def)

lemma perm_in_mono: "perm_in i j xs ys \<Longrightarrow> i' \<le> i \<Longrightarrow> j \<le> j' \<Longrightarrow> perm_in i' j' xs ys"
  by (simp add: perm_in_def)

lemma perm_in_length: "perm_in i j xs ys \<Longrightarrow> length ys = length xs"
  by (simp add: perm_in_def)

lemma perm_in_nth: "perm_in i j xs ys \<Longrightarrow> k < length xs \<Longrightarrow> k < i \<or> j \<le> k \<Longrightarrow> ys ! k = xs ! k"
  by (auto simp: perm_in_def)

lemma perm_in_swap:
  "i \<le> k \<Longrightarrow> k < j \<Longrightarrow> i \<le> l \<Longrightarrow> l < j \<Longrightarrow> j \<le> length xs \<Longrightarrow> perm_in i j xs (swap_elems k l xs)"
  by (auto simp: perm_in_def swap_elems_def mset_swap nth_list_update)

lemma swap_nth:
  "i < length xs \<Longrightarrow> j < length xs \<Longrightarrow> k < length xs \<Longrightarrow>
   swap_elems i j xs ! k = (if k = j then xs ! i else if k = i then xs ! j else xs ! k)"
  by (auto simp: swap_elems_def nth_list_update)

lemma swap_length [simp]: "length (swap_elems i j xs) = length xs"
  by (simp add: swap_elems_def)

text \<open>A permutation of a range keeps what holds of all its elements.\<close>

lemma perm_in_slice:
  assumes "perm_in i j xs ys" and "i \<le> j" and "j \<le> length xs"
  shows "mset (take (j - i) (drop i ys)) = mset (take (j - i) (drop i xs))"
proof -
  have len: "length ys = length xs" using assms(1) by (simp add: perm_in_def)
  have split: "zs = take i zs @ take (j - i) (drop i zs) @ drop j zs" for zs :: "'a list"
    using assms(2) by (metis append_take_drop_id drop_drop le_add_diff_inverse2)
  have "take i ys = take i xs" using assms len by (intro nth_equalityI) (auto simp: perm_in_def)
  moreover have "drop j ys = drop j xs" using assms len by (intro nth_equalityI) (auto simp: perm_in_def)
  moreover have "mset ys = mset xs" using assms(1) by (simp add: perm_in_def)
  ultimately show ?thesis
    by (metis add_left_cancel add_right_cancel mset_append split)
qed

lemma perm_in_seg:
  assumes "perm_in i j xs ys" and "seg P i j xs" and "j \<le> length xs"
  shows "seg P i j ys"
proof (cases "i \<le> j")
  case True
  have s: "seg P i j zs \<longleftrightarrow> (\<forall>x \<in> set (take (j - i) (drop i zs)). P x)" if "j \<le> length zs" for zs
  proof
    assume "seg P i j zs"
    then show "\<forall>x \<in> set (take (j - i) (drop i zs)). P x"
      using that by (auto simp: seg_def in_set_conv_nth)
  next
    assume r: "\<forall>x \<in> set (take (j - i) (drop i zs)). P x"
    show "seg P i j zs" unfolding seg_def
    proof (intro allI impI)
      fix k assume "i \<le> k \<and> k < j"
      then have "take (j - i) (drop i zs) ! (k - i) = zs ! k" "k - i < length (take (j - i) (drop i zs))"
        using that by auto
      then show "P (zs ! k)" using r by (metis nth_mem)
    qed
  qed
  have "set (take (j - i) (drop i ys)) = set (take (j - i) (drop i xs))"
    using perm_in_slice [OF assms(1) True assms(3)] by (rule mset_eq_setD)
  then show ?thesis using s [of xs] s [of ys] assms perm_in_length [OF assms(1)] by simp
qed (auto simp: seg_def)

lemma perm_in_seg_outside:
  assumes "perm_in i j xs ys" and "seg P k l xs" and "l \<le> i \<or> j \<le> k" and "l \<le> length xs"
  shows "seg P k l ys"
  using assms unfolding seg_def perm_in_def by (metis le_trans not_le order_less_le_trans)

lemma seg_simps:
  "seg P i i xs" "j \<le> i \<Longrightarrow> seg P i j xs"
  "i \<le> j \<Longrightarrow> seg P i (Suc j) xs \<longleftrightarrow> seg P i j xs \<and> P (xs ! j)"
  "i < j \<Longrightarrow> seg P i j xs \<longleftrightarrow> P (xs ! i) \<and> seg P (Suc i) j xs"
proof -
  assume "i \<le> j"
  then show "seg P i (Suc j) xs \<longleftrightarrow> seg P i j xs \<and> P (xs ! j)" by (auto simp: seg_def less_Suc_eq)
next
  assume "i < j"
  then show "seg P i j xs \<longleftrightarrow> P (xs ! i) \<and> seg P (Suc i) j xs"
    by (auto simp: seg_def le_eq_less_or_eq [of i] Suc_le_eq)
qed (auto simp: seg_def)

lemma swapcode_nth:
  assumes "i + n \<le> j" and "j + n \<le> length xs" and "k < length xs"
  shows "swapcode i j n xs ! k =
    (if i \<le> k \<and> k < i + n then xs ! (j + (k - i))
     else if j \<le> k \<and> k < j + n then xs ! (i + (k - j)) else xs ! k)"
  using assms
proof (induction n arbitrary: i j xs)
  case (Suc n)
  have "swapcode i j (Suc n) xs ! k = swapcode (Suc i) (Suc j) n (swap_elems i j xs) ! k" by simp
  also have "\<dots> = (if Suc i \<le> k \<and> k < Suc i + n then swap_elems i j xs ! (Suc j + (k - Suc i))
     else if Suc j \<le> k \<and> k < Suc j + n then swap_elems i j xs ! (Suc i + (k - Suc j))
     else swap_elems i j xs ! k)"
    using Suc.prems by (intro Suc.IH) auto
  also have "\<dots> = (if i \<le> k \<and> k < i + Suc n then xs ! (j + (k - i))
     else if j \<le> k \<and> k < j + Suc n then xs ! (i + (k - j)) else xs ! k)"
    using Suc.prems by (auto simp: swap_nth Suc_diff_Suc not_le less_Suc_eq)
  finally show ?case .
qed auto

lemma vecswap_eq: "vecswap i j n xs = swapcode i j n xs"
  by (cases n) (simp_all add: vecswap_def)

lemma swapcode_perm:
  "i + n \<le> j \<Longrightarrow> j + n \<le> length xs \<Longrightarrow> perm_in i (j + n) xs (swapcode i j n xs)"
proof (induction n arbitrary: i j xs)
  case (Suc n)
  have "perm_in i (j + Suc n) xs (swap_elems i j xs)" using Suc.prems by (intro perm_in_swap) auto
  moreover have "perm_in i (j + Suc n) (swap_elems i j xs) (swapcode (Suc i) (Suc j) n (swap_elems i j xs))"
    using Suc.prems by (intro perm_in_mono [OF Suc.IH]) auto
  ultimately show ?case using perm_in_trans by (metis swapcode.simps(2))
qed simp

text \<open>Two adjacent blocks are exchanged by swapping the shorter length.\<close>

lemma block_swap:
  assumes "i \<le> m" and "m \<le> j" and "j \<le> length xs" and "seg P i m xs" and "seg Q m j xs"
  defines "ys \<equiv> vecswap i (j - min (m - i) (j - m)) (min (m - i) (j - m)) xs"
  shows "perm_in i j xs ys \<and> seg Q i (i + (j - m)) ys \<and> seg P (i + (j - m)) j ys"
proof -
  let ?r = "min (m - i) (j - m)"
  have ys: "ys = swapcode i (j - ?r) ?r xs" by (simp add: ys_def vecswap_eq)
  have r: "i + ?r \<le> j - ?r" "j - ?r + ?r = j" "?r \<le> j" using assms(1,2) by linarith+
  have nth: "ys ! k = (if i \<le> k \<and> k < i + ?r then xs ! (j - ?r + (k - i))
      else if j - ?r \<le> k \<and> k < j then xs ! (i + (k - (j - ?r))) else xs ! k)" if "k < length xs" for k
    using swapcode_nth [OF r(1), of xs k] r(2,3) assms(3) that by (simp add: ys)
  have "perm_in i j xs ys" using swapcode_perm [OF r(1), of xs] r(2) assms(3) by (simp add: ys)
  moreover have "seg Q i (i + (j - m)) ys" unfolding seg_def
  proof (intro allI impI)
    fix k assume k: "i \<le> k \<and> k < i + (j - m)"
    show "Q (ys ! k)"
    proof (cases "k < i + ?r")
      case True
      then have "ys ! k = xs ! (j - ?r + (k - i))" using nth [of k] k assms(2,3) by auto
      moreover have "m \<le> j - ?r + (k - i)" "j - ?r + (k - i) < j" using True k assms(1,2) by linarith+
      ultimately show ?thesis using assms(5) unfolding seg_def by metis
    next
      case False
      then have "m \<le> k" "k < j - ?r" using k assms(1,2) by linarith+
      then show ?thesis using nth [of k] False assms(3,5) by (auto simp: seg_def)
    qed
  qed
  moreover have "seg P (i + (j - m)) j ys" unfolding seg_def
  proof (intro allI impI)
    fix k assume k: "i + (j - m) \<le> k \<and> k < j"
    show "P (ys ! k)"
    proof (cases "j - ?r \<le> k")
      case True
      have "\<not> k < i + ?r" using True k r(1) by linarith
      then have "ys ! k = xs ! (i + (k - (j - ?r)))" using nth [of k] True k assms(3) by auto
      moreover have "i + (k - (j - ?r)) < m" using True k assms(1,2) by linarith
      ultimately show ?thesis using assms(4) unfolding seg_def by (metis le_add1)
    next
      case False
      then have "\<not> k < i + ?r" "i \<le> k" "k < m" using k assms(1,2) by linarith+
      then show ?thesis using nth [of k] False k assms(3,4) by (auto simp: seg_def)
    qed
  qed
  ultimately show ?thesis by blast
qed

lemma seg_same: "seg P i j xs \<Longrightarrow> (\<And>k. i \<le> k \<Longrightarrow> k < j \<Longrightarrow> ys ! k = xs ! k) \<Longrightarrow> seg P i j ys"
  by (simp add: seg_def)

section \<open>Orders\<close>

locale comparator =
  fixes cmp :: "'a cmp_fn"
  assumes flip: "cmp x y > 0 \<longleftrightarrow> cmp y x < 0"
    and cmp_trans: "cmp x y \<le> 0 \<Longrightarrow> cmp y z \<le> 0 \<Longrightarrow> cmp x z \<le> 0"
begin

lemma not_le: "\<not> cmp x y \<le> 0 \<Longrightarrow> cmp y x \<le> 0"
  using flip [of x y] by linarith

lemma cmp_refl: "cmp x x \<le> 0"
  using flip [of x x] by linarith

definition sorted_in :: "nat \<Rightarrow> nat \<Rightarrow> 'a list \<Rightarrow> bool" where
  "sorted_in i j xs \<longleftrightarrow> (\<forall>k l. i \<le> k \<and> k < l \<and> l < j \<longrightarrow> cmp (xs ! k) (xs ! l) \<le> 0)"

lemma sorted_in_trivial: "j \<le> Suc i \<Longrightarrow> sorted_in i j xs"
  by (auto simp: sorted_in_def)

text \<open>Insertion: all elements but the one at \<open>pl\<close> are in order, and it is not above those behind it.\<close>

lemma sink_ok:
  assumes "a \<le> pl" and "pl \<le> pm" and "pm < length xs"
    and "\<And>k l. a \<le> k \<Longrightarrow> k < l \<Longrightarrow> l \<le> pm \<Longrightarrow> k \<noteq> pl \<Longrightarrow> l \<noteq> pl \<Longrightarrow> cmp (xs ! k) (xs ! l) \<le> 0"
    and "\<And>l. pl < l \<Longrightarrow> l \<le> pm \<Longrightarrow> cmp (xs ! pl) (xs ! l) \<le> 0"
  shows "sorted_in a (Suc pm) (sink cmp a pl xs) \<and> perm_in a (Suc pm) xs (sink cmp a pl xs)"
  using assms
proof (induction pl arbitrary: xs)
  case 0
  then have "sink cmp a 0 xs = xs" by (subst sink.simps) simp
  moreover have "sorted_in a (Suc pm) xs"
    unfolding sorted_in_def using "0.prems" by (metis less_Suc_eq_le not_less_zero le_zero_eq neq0_conv)
  ultimately show ?case by simp
next
  case (Suc pl)
  let ?ys = "swap_elems (Suc pl) pl xs"
  show ?case
  proof (cases "a < Suc pl \<and> cmp (xs ! pl) (xs ! Suc pl) > 0")
    case True
    have nth: "?ys ! k = (if k = pl then xs ! Suc pl else if k = Suc pl then xs ! pl else xs ! k)"
      if "k \<le> pm" for k
      using that Suc.prems(2,3) by (simp add: swap_nth)
    have ind: "sorted_in a (Suc pm) (sink cmp a pl ?ys) \<and> perm_in a (Suc pm) ?ys (sink cmp a pl ?ys)"
    proof (rule Suc.IH)
      show "cmp (?ys ! k) (?ys ! l) \<le> 0" if "a \<le> k" "k < l" "l \<le> pm" "k \<noteq> pl" "l \<noteq> pl" for k l
        using that Suc.prems(2) Suc.prems(4) [of k l] Suc.prems(4) [of pl l] Suc.prems(4) [of k pl] True
        by (auto simp: nth)
      show "cmp (?ys ! pl) (?ys ! l) \<le> 0" if "pl < l" "l \<le> pm" for l
        using that Suc.prems(2) Suc.prems(5) [of l] True flip [of "xs ! pl" "xs ! Suc pl"]
        by (auto simp: nth)
    qed (use True Suc.prems in auto)
    moreover have "perm_in a (Suc pm) xs ?ys" using True Suc.prems by (intro perm_in_swap) auto
    moreover have "sink cmp a (Suc pl) xs = sink cmp a pl ?ys"
      using True by (subst sink.simps) simp
    ultimately show ?thesis using perm_in_trans by metis
  next
    case False
    then have eq: "sink cmp a (Suc pl) xs = xs" by (subst sink.simps) auto
    have below: "cmp (xs ! k) (xs ! Suc pl) \<le> 0" if "a \<le> k" "k < Suc pl" for k
    proof (cases "k = pl")
      case True
      then show ?thesis using False that by auto
    next
      case k: False
      have "cmp (xs ! k) (xs ! pl) \<le> 0" using Suc.prems(2) Suc.prems(4) [of k pl] that k by simp
      moreover have "cmp (xs ! pl) (xs ! Suc pl) \<le> 0" using False that by auto
      ultimately show ?thesis by (rule cmp_trans)
    qed
    have "sorted_in a (Suc pm) xs" unfolding sorted_in_def
    proof (intro allI impI)
      fix k l assume kl: "a \<le> k \<and> k < l \<and> l < Suc pm"
      then show "cmp (xs ! k) (xs ! l) \<le> 0"
        using below [of k] Suc.prems(4) [of k l] Suc.prems(5) [of l] by (cases "l = Suc pl"; cases "k = Suc pl") auto
    qed
    then show ?thesis by (simp add: eq)
  qed
qed

lemma insertion_ok:
  assumes "a < pm" and "a + n \<le> length xs" and "sorted_in a pm xs" and "pm \<le> a + n"
  shows "sorted_in a (a + n) (insertion cmp a n pm xs) \<and> perm_in a (a + n) xs (insertion cmp a n pm xs)"
  using assms
proof (induction "a + n - pm" arbitrary: pm xs)
  case 0
  then have "pm = a + n" by simp
  moreover have "insertion cmp a n pm xs = xs" using calculation by (subst insertion.simps) simp
  ultimately show ?case using "0.prems" by simp
next
  case (Suc m)
  let ?ys = "sink cmp a pm xs"
  have pm: "pm < a + n" using Suc.hyps(2) by simp
  have s: "sorted_in a (Suc pm) ?ys \<and> perm_in a (Suc pm) xs ?ys"
    using Suc.prems pm by (intro sink_ok) (auto simp: sorted_in_def)
  then have p: "perm_in a (a + n) xs ?ys" using pm by (auto elim: perm_in_mono)
  have "sorted_in a (a + n) (insertion cmp a n (Suc pm) ?ys)
      \<and> perm_in a (a + n) ?ys (insertion cmp a n (Suc pm) ?ys)"
    using Suc.hyps(2) Suc.prems s pm perm_in_length [OF p] by (intro Suc.hyps(1)) auto
  moreover have "insertion cmp a n pm xs = insertion cmp a n (Suc pm) ?ys"
    using pm by (subst insertion.simps) simp
  ultimately show ?case using p perm_in_trans by metis
qed

text \<open>The partition: equal, smaller, not yet seen, larger, equal.\<close>

definition part_inv :: "nat \<Rightarrow> nat \<Rightarrow> 'a list \<Rightarrow> 'a part_state \<Rightarrow> bool" where
  "part_inv a n xs0 st \<longleftrightarrow> (case st of (xs, pa, pb, pc, pd, cnt) \<Rightarrow>
     a < pa \<and> pa \<le> pb \<and> pb \<le> Suc pc \<and> pc \<le> pd \<and> pd < a + n \<and> a + n \<le> length xs
     \<and> perm_in a (a + n) xs0 xs
     \<and> seg (\<lambda>x. cmp x (xs ! a) = 0) a pa xs \<and> seg (\<lambda>x. cmp x (xs ! a) < 0) pa pb xs
     \<and> seg (\<lambda>x. 0 < cmp x (xs ! a)) (Suc pc) (Suc pd) xs
     \<and> seg (\<lambda>x. cmp x (xs ! a) = 0) (Suc pd) (a + n) xs)"

lemma cmp_self: "cmp x x = 0"
  using cmp_refl [of x] flip [of x x] by linarith

lemma part_start:
  assumes "1 < n" and "a + n \<le> length xs"
  shows "part_inv a n xs (xs, Suc a, Suc a, a + (n - 1), a + (n - 1), cnt)"
  using assms by (simp add: part_inv_def seg_simps(1,2,3) cmp_self)

lemma part_up_step:
  assumes "part_inv a n xs0 (xs, pa, pb, pc, pd, cnt)" and "pb \<le> pc" and "cmp (xs ! pb) (xs ! a) \<le> 0"
  shows "cmp (xs ! pb) (xs ! a) = 0 \<Longrightarrow> part_inv a n xs0 (swap_elems pa pb xs, Suc pa, Suc pb, pc, pd, c)"
    and "cmp (xs ! pb) (xs ! a) \<noteq> 0 \<Longrightarrow> part_inv a n xs0 (xs, pa, Suc pb, pc, pd, c)"
proof -
  from assms(1) have i: "a < pa" "pa \<le> pb" "pc \<le> pd" "pd < a + n" "a + n \<le> length xs"
      "perm_in a (a + n) xs0 xs" "seg (\<lambda>x. cmp x (xs ! a) = 0) a pa xs"
      "seg (\<lambda>x. cmp x (xs ! a) < 0) pa pb xs" "seg (\<lambda>x. 0 < cmp x (xs ! a)) (Suc pc) (Suc pd) xs"
      "seg (\<lambda>x. cmp x (xs ! a) = 0) (Suc pd) (a + n) xs"
    by (auto simp: part_inv_def)
  show "part_inv a n xs0 (xs, pa, Suc pb, pc, pd, c)" if "cmp (xs ! pb) (xs ! a) \<noteq> 0"
    using i assms(2,3) that by (simp add: part_inv_def seg_simps(3))
  let ?ys = "swap_elems pa pb xs"
  have nth: "?ys ! k = (if k = pb then xs ! pa else if k = pa then xs ! pb else xs ! k)"
    if "k < a + n" for k
    using that i assms(2) by (simp add: swap_nth)
  have "perm_in a (a + n) xs ?ys" using i assms(2) by (intro perm_in_swap) auto
  then have "perm_in a (a + n) xs0 ?ys" using i(6) perm_in_trans by metis
  moreover have "?ys ! a = xs ! a" using nth [of a] i(1-4) assms(2) by simp
  moreover have "seg (\<lambda>x. cmp x (xs ! a) = 0) a (Suc pa) ?ys" if "cmp (xs ! pb) (xs ! a) = 0"
    using i(1-4) assms(2) that nth [of pa] seg_same [OF i(7), of ?ys]
    by (auto simp: seg_simps(3) nth)
  moreover have "seg (\<lambda>x. cmp x (xs ! a) < 0) (Suc pa) (Suc pb) ?ys"
  proof (cases "pa = pb")
    case False
    then have "cmp (xs ! pa) (xs ! a) < 0" "seg (\<lambda>x. cmp x (xs ! a) < 0) (Suc pa) pb xs"
      using i(2,8) by (simp_all add: seg_simps(4))
    then show ?thesis using False i(1-4) assms(2) nth [of pb] seg_same [of _ "Suc pa" pb xs ?ys]
      by (auto simp: seg_simps(3) nth)
  qed (simp add: seg_simps)
  moreover have "seg (\<lambda>x. 0 < cmp x (xs ! a)) (Suc pc) (Suc pd) ?ys"
    using i(1-4) assms(2) by (intro seg_same [OF i(9)]) (simp add: nth)
  moreover have "seg (\<lambda>x. cmp x (xs ! a) = 0) (Suc pd) (a + n) ?ys"
    using i(1-4) assms(2) by (intro seg_same [OF i(10)]) (simp add: nth)
  ultimately show "part_inv a n xs0 (?ys, Suc pa, Suc pb, pc, pd, c)" if "cmp (xs ! pb) (xs ! a) = 0"
    using i(1-5) assms(2) that by (simp add: part_inv_def)
qed

lemma part_down_step:
  assumes "part_inv a n xs0 (xs, pa, pb, pc, pd, cnt)" and "pb \<le> pc" and "0 \<le> cmp (xs ! pc) (xs ! a)"
  shows "cmp (xs ! pc) (xs ! a) = 0
      \<Longrightarrow> part_inv a n xs0 (swap_elems pc pd xs, pa, pb, pc - 1, pd - 1, c)"
    and "cmp (xs ! pc) (xs ! a) \<noteq> 0 \<Longrightarrow> part_inv a n xs0 (xs, pa, pb, pc - 1, pd, c)"
proof -
  from assms(1) have i: "a < pa" "pa \<le> pb" "pc \<le> pd" "pd < a + n" "a + n \<le> length xs"
      "perm_in a (a + n) xs0 xs" "seg (\<lambda>x. cmp x (xs ! a) = 0) a pa xs"
      "seg (\<lambda>x. cmp x (xs ! a) < 0) pa pb xs" "seg (\<lambda>x. 0 < cmp x (xs ! a)) (Suc pc) (Suc pd) xs"
      "seg (\<lambda>x. cmp x (xs ! a) = 0) (Suc pd) (a + n) xs"
    by (auto simp: part_inv_def)
  have pc: "Suc (pc - 1) = pc" "Suc (pd - 1) = pd" "pc - 1 \<le> pd - 1" "pd - 1 < a + n"
    using i(1-4) assms(2) by linarith+
  show "part_inv a n xs0 (xs, pa, pb, pc - 1, pd, c)" if "cmp (xs ! pc) (xs ! a) \<noteq> 0"
    using i assms(2,3) that by (simp add: part_inv_def pc seg_simps(4) [of pc])
  let ?ys = "swap_elems pc pd xs"
  have nth: "?ys ! k = (if k = pd then xs ! pc else if k = pc then xs ! pd else xs ! k)"
    if "k < a + n" for k
    using that i assms(2) by (simp add: swap_nth)
  have "perm_in a (a + n) xs ?ys" using i assms(2) by (intro perm_in_swap) auto
  then have "perm_in a (a + n) xs0 ?ys" using i(6) perm_in_trans by metis
  moreover have "?ys ! a = xs ! a" using nth [of a] i(1-4) assms(2) by simp
  moreover have "seg (\<lambda>x. cmp x (xs ! a) = 0) a pa ?ys"
    using i(1-4) assms(2) by (intro seg_same [OF i(7)]) (simp add: nth)
  moreover have "seg (\<lambda>x. cmp x (xs ! a) < 0) pa pb ?ys"
    using i(1-4) assms(2) by (intro seg_same [OF i(8)]) (simp add: nth)
  moreover have "seg (\<lambda>x. 0 < cmp x (xs ! a)) pc pd ?ys"
  proof (cases "pc = pd")
    case False
    then have "0 < cmp (xs ! pd) (xs ! a)" "seg (\<lambda>x. 0 < cmp x (xs ! a)) (Suc pc) pd xs"
      using i(3,9) by (simp_all add: seg_simps(3))
    then show ?thesis using False i(1-4) assms(2) nth [of pc] seg_same [of _ "Suc pc" pd xs ?ys]
      by (auto simp: seg_simps(4) [of pc] nth)
  qed (simp add: seg_simps)
  moreover have "seg (\<lambda>x. cmp x (xs ! a) = 0) pd (a + n) ?ys" if "cmp (xs ! pc) (xs ! a) = 0"
    using i(1-4) assms(2) that nth [of pd] seg_same [OF i(10), of ?ys]
    by (auto simp: seg_simps(4) [of pd] nth)
  ultimately show "part_inv a n xs0 (?ys, pa, pb, pc - 1, pd - 1, c)" if "cmp (xs ! pc) (xs ! a) = 0"
    using i(1-5) assms(2) pc(3,4) that by (simp add: part_inv_def pc(1,2) del: One_nat_def)
qed

lemma part_up_ok:
  assumes "part_inv a n xs0 (xs, pa, pb, pc, pd, cnt)"
  shows "\<exists>xs' pa' pb' cnt'. part_up cmp a (xs, pa, pb, pc, pd, cnt) = (xs', pa', pb', pc, pd, cnt')
    \<and> part_inv a n xs0 (xs', pa', pb', pc, pd, cnt') \<and> pb \<le> pb'
    \<and> (pb' \<le> pc \<longrightarrow> 0 < cmp (xs' ! pb') (xs' ! a))"
  using assms
proof (induction "Suc pc - pb" arbitrary: xs pa pb cnt rule: less_induct)
  case less
  show ?case
  proof (cases "pb \<le> pc \<and> cmp (xs ! pb) (xs ! a) \<le> 0")
    case False
    then have "part_up cmp a (xs, pa, pb, pc, pd, cnt) = (xs, pa, pb, pc, pd, cnt)"
      by (subst part_up.simps) auto
    then show ?thesis using less.prems False by auto
  next
    case True
    show ?thesis
    proof (cases "cmp (xs ! pb) (xs ! a) = 0")
      case eq: True
      have "part_up cmp a (xs, pa, pb, pc, pd, cnt)
          = part_up cmp a (swap_elems pa pb xs, Suc pa, Suc pb, pc, pd, True)"
        using True eq by (subst part_up.simps) simp
      then show ?thesis
        using less.hyps [OF _ part_up_step(1) [OF less.prems conjunct1 [OF True] conjunct2 [OF True] eq]] True
        by (fastforce dest: Suc_leD)
    next
      case ne: False
      have "part_up cmp a (xs, pa, pb, pc, pd, cnt) = part_up cmp a (xs, pa, Suc pb, pc, pd, cnt)"
        using True ne by (subst part_up.simps) simp
      then show ?thesis
        using less.hyps [OF _ part_up_step(2) [OF less.prems conjunct1 [OF True] conjunct2 [OF True] ne]] True
        by (fastforce dest: Suc_leD)
    qed
  qed
qed

lemma part_down_ok:
  assumes "part_inv a n xs0 (xs, pa, pb, pc, pd, cnt)" and "pb \<le> pc \<longrightarrow> 0 < cmp (xs ! pb) (xs ! a)"
  shows "\<exists>xs' pc' pd' cnt'. part_down cmp a (xs, pa, pb, pc, pd, cnt) = (xs', pa, pb, pc', pd', cnt')
    \<and> part_inv a n xs0 (xs', pa, pb, pc', pd', cnt') \<and> pc' \<le> pc
    \<and> (pb \<le> pc' \<longrightarrow> 0 < cmp (xs' ! pb) (xs' ! a) \<and> cmp (xs' ! pc') (xs' ! a) < 0)"
  using assms
proof (induction pc arbitrary: xs pd cnt rule: less_induct)
  case (less pc)
  have pb: "0 < pb" and bnd: "pc \<le> pd" "pd < length xs" "a < pb"
    using less.prems(1) by (auto simp: part_inv_def)
  show ?case
  proof (cases "pb \<le> pc \<and> cmp (xs ! pc) (xs ! a) \<ge> 0")
    case False
    then have "part_down cmp a (xs, pa, pb, pc, pd, cnt) = (xs, pa, pb, pc, pd, cnt)"
      by (subst part_down.simps) auto
    then show ?thesis using less.prems False by auto
  next
    case True
    then have pc: "pc - 1 < pc" using pb by linarith
    show ?thesis
    proof (cases "cmp (xs ! pc) (xs ! a) = 0")
      case eq: True
      let ?ys = "swap_elems pc pd xs"
      have "pb \<noteq> pc" using less.prems(2) True eq by auto
      then have keep: "pb \<le> pc - 1 \<longrightarrow> 0 < cmp (?ys ! pb) (?ys ! a)"
        using less.prems(2) True bnd by (auto simp: swap_nth)
      have "part_down cmp a (xs, pa, pb, pc, pd, cnt) = part_down cmp a (?ys, pa, pb, pc - 1, pd - 1, True)"
        using True eq pb by (subst part_down.simps) simp
      then show ?thesis
        using less.IH [OF pc part_down_step(1) [OF less.prems(1) conjunct1 [OF True] conjunct2 [OF True] eq] keep]
        by (fastforce intro: le_trans)
    next
      case ne: False
      have "pb \<le> pc - 1 \<longrightarrow> 0 < cmp (xs ! pb) (xs ! a)" using less.prems(2) True by auto
      moreover have "part_down cmp a (xs, pa, pb, pc, pd, cnt) = part_down cmp a (xs, pa, pb, pc - 1, pd, cnt)"
        using True ne pb by (subst part_down.simps) simp
      ultimately show ?thesis
        using less.IH [OF pc part_down_step(2) [OF less.prems(1) conjunct1 [OF True] conjunct2 [OF True] ne]]
        by (fastforce intro: le_trans)
    qed
  qed
qed

lemma part_loop_ok:
  assumes "part_inv a n xs0 (xs, pa, pb, pc, pd, cnt)"
  shows "\<exists>xs' pa' pc' pd' cnt'. part_loop cmp a (xs, pa, pb, pc, pd, cnt)
        = Some (xs', pa', Suc pc', pc', pd', cnt')
    \<and> part_inv a n xs0 (xs', pa', Suc pc', pc', pd', cnt')"
  using assms
proof (induction "Suc pc - pb" arbitrary: xs pa pb pc pd cnt rule: less_induct)
  case less
  obtain xs1 pa1 pb1 c1 where up: "part_up cmp a (xs, pa, pb, pc, pd, cnt) = (xs1, pa1, pb1, pc, pd, c1)"
      "part_inv a n xs0 (xs1, pa1, pb1, pc, pd, c1)" "pb \<le> pb1"
      "pb1 \<le> pc \<longrightarrow> 0 < cmp (xs1 ! pb1) (xs1 ! a)"
    using part_up_ok [OF less.prems] by blast
  obtain xs2 pc2 pd2 c2 where dn: "part_down cmp a (xs1, pa1, pb1, pc, pd, c1) = (xs2, pa1, pb1, pc2, pd2, c2)"
      "part_inv a n xs0 (xs2, pa1, pb1, pc2, pd2, c2)" "pc2 \<le> pc"
      "pb1 \<le> pc2 \<longrightarrow> 0 < cmp (xs2 ! pb1) (xs2 ! a) \<and> cmp (xs2 ! pc2) (xs2 ! a) < 0"
    using part_down_ok [OF up(2,4)] by blast
  from dn(2) have i: "a < pa1" "pa1 \<le> pb1" "pb1 \<le> Suc pc2" "pc2 \<le> pd2" "pd2 < a + n" "a + n \<le> length xs2"
      "perm_in a (a + n) xs0 xs2" "seg (\<lambda>x. cmp x (xs2 ! a) = 0) a pa1 xs2"
      "seg (\<lambda>x. cmp x (xs2 ! a) < 0) pa1 pb1 xs2" "seg (\<lambda>x. 0 < cmp x (xs2 ! a)) (Suc pc2) (Suc pd2) xs2"
      "seg (\<lambda>x. cmp x (xs2 ! a) = 0) (Suc pd2) (a + n) xs2"
    by (auto simp: part_inv_def)
  show ?case
  proof (cases "pc2 < pb1")
    case True
    then have "part_loop cmp a (xs, pa, pb, pc, pd, cnt) = Some (xs2, pa1, pb1, pc2, pd2, c2)"
      by (subst part_loop.simps) (simp add: up(1) dn(1))
    moreover have "pb1 = Suc pc2" using i(3) True by simp
    ultimately show ?thesis using dn(2) by blast
  next
    case False
    let ?ys = "swap_elems pb1 pc2 xs2"
    have ne: "pb1 < pc2" using dn(4) False by (cases "pb1 = pc2") auto
    have nth: "?ys ! k = (if k = pc2 then xs2 ! pb1 else if k = pb1 then xs2 ! pc2 else xs2 ! k)"
      if "k < a + n" for k
      using that i ne by (simp add: swap_nth)
    have "perm_in a (a + n) xs2 ?ys" using i ne by (intro perm_in_swap) auto
    then have p: "perm_in a (a + n) xs0 ?ys" using i(7) perm_in_trans by metis
    have a: "?ys ! a = xs2 ! a" using nth [of a] i ne by simp
    have s: "seg (\<lambda>x. cmp x (xs2 ! a) = 0) a pa1 ?ys" "seg (\<lambda>x. cmp x (xs2 ! a) = 0) (Suc pd2) (a + n) ?ys"
        "seg (\<lambda>x. cmp x (xs2 ! a) < 0) pa1 pb1 ?ys" "seg (\<lambda>x. 0 < cmp x (xs2 ! a)) (Suc pc2) (Suc pd2) ?ys"
      using i(1-5) ne by (intro seg_same [OF i(8)] seg_same [OF i(9)] seg_same [OF i(10)] seg_same [OF i(11)];
        simp add: nth)+
    have pc: "Suc (pc2 - 1) = pc2" "pc2 - 1 \<le> pd2" "Suc pb1 \<le> pc2" using ne i(4) by linarith+
    have lt: "seg (\<lambda>x. cmp x (xs2 ! a) < 0) pa1 (Suc pb1) ?ys"
      using s(3) i(2) dn(4) False ne i(4,5) by (simp add: seg_simps(3) nth)
    have gt: "seg (\<lambda>x. 0 < cmp x (xs2 ! a)) pc2 (Suc pd2) ?ys"
      using s(4) i(4) dn(4) False ne i(4,5) by (simp add: seg_simps(4) [of pc2] nth)
    have inv: "part_inv a n xs0 (?ys, pa1, Suc pb1, pc2 - 1, pd2, True)"
      using p s(1,2) lt gt i(1-6) pc by (simp add: part_inv_def a pc(1) del: One_nat_def)
    have "Suc (pc2 - 1) - Suc pb1 < Suc pc - pb" using pc dn(3) up(3) ne by linarith
    note IH = less.hyps [OF this inv]
    have "part_loop cmp a (xs, pa, pb, pc, pd, cnt)
        = part_loop cmp a (?ys, pa1, Suc pb1, pc2 - 1, pd2, True)"
      using False by (subst part_loop.simps) (simp add: up(1) dn(1))
    then show ?thesis using IH by simp
  qed
qed

lemma gather_ok:
  assumes "part_inv a n xs0 (xs, pa, Suc pc, pc, pd, cnt)"
  defines "ys \<equiv> gather a n (xs, pa, Suc pc, pc, pd, cnt)"
    and "l \<equiv> Suc pc - pa" and "g \<equiv> pd - pc"
  shows "perm_in a (a + n) xs0 ys" and "seg (\<lambda>x. cmp x (xs ! a) < 0) a (a + l) ys"
    and "seg (\<lambda>x. cmp x (xs ! a) = 0) (a + l) (a + n - g) ys"
    and "seg (\<lambda>x. 0 < cmp x (xs ! a)) (a + n - g) (a + n) ys"
    and "l + g < n" and "length ys = length xs0"
proof -
  let ?p = "xs ! a"
  from assms(1) have i: "a < pa" "pa \<le> Suc pc" "pc \<le> pd" "pd < a + n" "a + n \<le> length xs"
      "perm_in a (a + n) xs0 xs" "seg (\<lambda>x. cmp x ?p = 0) a pa xs"
      "seg (\<lambda>x. cmp x ?p < 0) pa (Suc pc) xs" "seg (\<lambda>x. 0 < cmp x ?p) (Suc pc) (Suc pd) xs"
      "seg (\<lambda>x. cmp x ?p = 0) (Suc pd) (a + n) xs"
    by (auto simp: part_inv_def)
  define zs where "zs = vecswap a (Suc pc - min (pa - a) (Suc pc - pa)) (min (pa - a) (Suc pc - pa)) xs"
  have z: "perm_in a (Suc pc) xs zs" "seg (\<lambda>x. cmp x ?p < 0) a (a + (Suc pc - pa)) zs"
      "seg (\<lambda>x. cmp x ?p = 0) (a + (Suc pc - pa)) (Suc pc) zs"
    using block_swap [of a pa "Suc pc" xs, OF _ _ _ i(7,8)] i(1-5) unfolding zs_def by auto
  have zl: "length zs = length xs" using z(1) by (simp add: perm_in_def)
  have zo: "seg (\<lambda>x. 0 < cmp x ?p) (Suc pc) (Suc pd) zs" "seg (\<lambda>x. cmp x ?p = 0) (Suc pd) (a + n) zs"
    using i(3-5) by (intro perm_in_seg_outside [OF z(1) i(9)] perm_in_seg_outside [OF z(1) i(10)]; simp)+
  have d: "Suc pd - Suc pc = pd - pc" "a + n - Suc pd = a + n - pd - 1" by simp_all
  have ys: "ys = vecswap (Suc pc) (a + n - min (Suc pd - Suc pc) (a + n - Suc pd))
      (min (Suc pd - Suc pc) (a + n - Suc pd)) zs"
    by (simp add: ys_def gather_def zs_def Let_def)
  have y: "perm_in (Suc pc) (a + n) zs ys"
      "seg (\<lambda>x. cmp x ?p = 0) (Suc pc) (Suc pc + (a + n - Suc pd)) ys"
      "seg (\<lambda>x. 0 < cmp x ?p) (Suc pc + (a + n - Suc pd)) (a + n) ys"
    using block_swap [of "Suc pc" "Suc pd" "a + n" zs, OF _ _ _ zo] i(3-5) zl unfolding ys by auto
  have g: "Suc pc + (a + n - Suc pd) = a + n - g" "a + l \<le> Suc pc" "Suc pc \<le> a + n - g"
    using i(1-4) by (simp_all add: g_def l_def)
  show "l + g < n" using i(1-4) by (simp add: g_def l_def)
  have "perm_in a (a + n) xs zs" "perm_in a (a + n) zs ys"
    using z(1) y(1) i(1-4) by (auto elim!: perm_in_mono)
  then show p: "perm_in a (a + n) xs0 ys" using i(6) perm_in_trans by metis
  then show "length ys = length xs0" by (rule perm_in_length)
  show "seg (\<lambda>x. cmp x ?p < 0) a (a + l) ys"
    using g(2) i(3-5) zl by (intro perm_in_seg_outside [OF y(1) z(2) [folded l_def]]) auto
  have "seg (\<lambda>x. cmp x ?p = 0) (a + l) (Suc pc) ys"
    using i(3-5) zl by (intro perm_in_seg_outside [OF y(1) z(3) [folded l_def]]) auto
  then show "seg (\<lambda>x. cmp x ?p = 0) (a + l) (a + n - g) ys"
    using y(2) unfolding g(1) seg_def by (metis not_le_imp_less)
  show "seg (\<lambda>x. 0 < cmp x ?p) (a + n - g) (a + n) ys" using y(3) unfolding g(1) .
qed

text \<open>The pivot lies in the range.\<close>

lemma med3_in: "a \<in> S \<Longrightarrow> b \<in> S \<Longrightarrow> c \<in> S \<Longrightarrow> med3 cmp xs a b c \<in> S"
  by (simp add: med3_def)

lemma choose_pivot_in:
  assumes "6 < n"
  shows "choose_pivot cmp a n xs \<in> {a ..< a + n}"
proof -
  have "a \<in> {a ..< a + n}" "a + n div 2 \<in> {a ..< a + n}" "a + (n - 1) \<in> {a ..< a + n}"
      "a + n div 8 \<in> {a ..< a + n}" "a + 2 * (n div 8) \<in> {a ..< a + n}"
      "a + n div 2 - n div 8 \<in> {a ..< a + n}" "a + n div 2 + n div 8 \<in> {a ..< a + n}"
      "a + (n - 1) - 2 * (n div 8) \<in> {a ..< a + n}" "a + (n - 1) - n div 8 \<in> {a ..< a + n}"
    using assms unfolding atLeastLessThan_iff by linarith+
  then show ?thesis unfolding choose_pivot_def Let_def by (cases "7 < n"; cases "40 < n") (simp_all only: if_True if_False med3_in)
qed

text \<open>Three sorted parts around the pivot value make a sorted range.\<close>

lemma sorted_parts:
  assumes "sorted_in a (a + l) ys" and "sorted_in (a + n - g) (a + n) ys" and "l + g < n"
    and "seg (\<lambda>x. cmp x p < 0) a (a + l) ys" and "seg (\<lambda>x. cmp x p = 0) (a + l) (a + n - g) ys"
    and "seg (\<lambda>x. 0 < cmp x p) (a + n - g) (a + n) ys"
  shows "sorted_in a (a + n) ys"
  unfolding sorted_in_def
proof (intro allI impI)
  fix k m assume km: "a \<le> k \<and> k < m \<and> m < a + n"
  have le: "cmp (ys ! k) p \<le> 0" if "k < a + n - g"
  proof (cases "k < a + l")
    case True
    then show ?thesis using km assms(4) by (auto simp: seg_def intro: less_imp_le)
  next
    case False
    then show ?thesis using that assms(5) by (auto simp: seg_def)
  qed
  have ge: "cmp p (ys ! m) \<le> 0" if "a + l \<le> m"
  proof (cases "m < a + n - g")
    case True
    then have "cmp (ys ! m) p = 0" using that assms(5) by (simp add: seg_def)
    then show ?thesis using flip [of p "ys ! m"] by linarith
  next
    case False
    then have "0 < cmp (ys ! m) p" using km assms(6) by (simp add: seg_def)
    then show ?thesis using flip [of "ys ! m" p] by linarith
  qed
  consider "m < a + l" | "a + n - g \<le> k" | "k < a + n - g" "a + l \<le> m" by linarith
  then show "cmp (ys ! k) (ys ! m) \<le> 0"
  proof cases
    case 1
    then show ?thesis using km assms(1) by (simp add: sorted_in_def)
  next
    case 2
    then show ?thesis using km assms(2) by (simp add: sorted_in_def)
  next
    case 3
    then show ?thesis using cmp_trans [OF le ge] by simp
  qed
qed

lemma sorted_in_outside:
  assumes "perm_in i j xs ys" and "sorted_in k l xs" and "l \<le> i \<or> j \<le> k" and "l \<le> length xs"
  shows "sorted_in k l ys"
proof -
  have "ys ! m = xs ! m" if "k \<le> m" "m < l" for m
    using perm_in_nth [OF assms(1), of m] assms(3,4) that by linarith
  then show ?thesis using assms(2) unfolding sorted_in_def by (metis le_trans less_imp_le order.strict_trans)
qed

theorem qsort_ok:
  assumes es: "0 < es" and "n * es < 2 ^ 31" and "a + n \<le> length xs"
  shows "\<exists>ys. qsort cmp es a n xs = Some ys \<and> perm_in a (a + n) xs ys \<and> sorted_in a (a + n) ys"
  using assms(2,3)
proof (induction n arbitrary: a xs rule: less_induct)
  case (less n)
  show ?case
  proof (cases "n < 7")
    case True
    have eq: "qsort cmp es a n xs = Some (insertion cmp a n (Suc a) xs)"
      using es less.prems(1) True by (subst qsort.simps) simp
    show ?thesis
    proof (cases "n = 0")
      case True
      then have "insertion cmp a n (Suc a) xs = xs" by (subst insertion.simps) simp
      then show ?thesis using eq True by (simp add: sorted_in_trivial)
    next
      case False
      then show ?thesis using eq insertion_ok [of a "Suc a" n xs] less.prems(2)
        by (simp add: sorted_in_trivial)
    qed
  next
    case False
    let ?xs = "swap_elems a (choose_pivot cmp a n xs) xs"
    have pv: "choose_pivot cmp a n xs \<in> {a ..< a + n}" using False by (intro choose_pivot_in) simp
    then have p0: "perm_in a (a + n) xs ?xs" using less.prems(2) by (intro perm_in_swap) auto
    have "part_inv a n ?xs (?xs, Suc a, Suc a, a + (n - 1), a + (n - 1), False)"
      using False less.prems(2) by (intro part_start) simp_all
    then obtain xs1 pa pc pd cnt where lp: "part_loop cmp a
          (?xs, Suc a, Suc a, a + (n - 1), a + (n - 1), False) = Some (xs1, pa, Suc pc, pc, pd, cnt)"
        "part_inv a n ?xs (xs1, pa, Suc pc, pc, pd, cnt)"
      using part_loop_ok by blast
    have p1: "perm_in a (a + n) xs xs1" using lp(2) p0 perm_in_trans by (auto simp: part_inv_def)
    show ?thesis
    proof (cases cnt)
      case False
      then have "qsort cmp es a n xs = Some (insertion cmp a n (Suc a) xs1)"
        using es less.prems(1) \<open>\<not> n < 7\<close> lp(1) by (subst qsort.simps) simp
      moreover have "sorted_in a (a + n) (insertion cmp a n (Suc a) xs1)
          \<and> perm_in a (a + n) xs1 (insertion cmp a n (Suc a) xs1)"
        using less.prems(2) perm_in_length [OF p1] \<open>\<not> n < 7\<close>
        by (intro insertion_ok) (auto simp: sorted_in_trivial)
      ultimately show ?thesis using p1 perm_in_trans by metis
    next
      case True
      let ?l = "Suc pc - pa" and ?g = "pd - pc" and ?p = "xs1 ! a"
      define ys where "ys = gather a n (xs1, pa, Suc pc, pc, pd, cnt)"
      note g = gather_ok [OF lp(2), folded ys_def]
      have step: "qsort cmp es a n xs
          = Option.bind (if 1 < ?l then qsort cmp es a ?l ys else Some ys)
              (\<lambda>ys. if 1 < ?g then qsort cmp es (a + n - ?g) ?g ys else Some ys)"
        using es less.prems(1) False True lp(1) by (subst qsort.simps) (simp add: ys_def Let_def)
      have sz: "?l < n" "?g < n" "?l * es < 2 ^ 31" "?g * es < 2 ^ 31"
        using g(5) less.prems(1) le_less_trans [OF mult_le_mono1 [of ?l n es]]
          le_less_trans [OF mult_le_mono1 [of ?g n es]] by auto
      have ly: "length ys = length xs" using g(6) by simp
      have out: "a + ?l \<le> a + n - ?g" "a + ?l \<le> length ys" "a + n \<le> length ys"
        using g(5) less.prems(2) ly by linarith+
      have end_g: "a + n - ?g + ?g = a + n" using g(5) by linarith
      obtain ys1 where 1: "(if 1 < ?l then qsort cmp es a ?l ys else Some ys) = Some ys1"
          "perm_in a (a + ?l) ys ys1" "sorted_in a (a + ?l) ys1"
      proof (cases "1 < ?l")
        case True
        then show thesis using that less.IH [OF sz(1,3) out(2)] by (metis (full_types))
      next
        case False
        then show thesis using that [of ys] by (simp add: sorted_in_trivial)
      qed
      have l1: "length ys1 = length xs" using perm_in_length [OF 1(2)] ly by simp
      obtain ys2 where 2: "(if 1 < ?g then qsort cmp es (a + n - ?g) ?g ys1 else Some ys1) = Some ys2"
          "perm_in (a + n - ?g) (a + n) ys1 ys2" "sorted_in (a + n - ?g) (a + n) ys2"
      proof (cases "1 < ?g")
        case True
        then show thesis using that less.IH [OF sz(2,4), of "a + n - ?g" ys1, unfolded end_g] out(3) l1 ly by metis
      next
        case False
        then show thesis using that [of ys1] by (simp add: sorted_in_trivial)
      qed
      have s1: "seg (\<lambda>x. cmp x ?p < 0) a (a + ?l) ys1" "seg (\<lambda>x. cmp x ?p = 0) (a + ?l) (a + n - ?g) ys1"
          "seg (\<lambda>x. 0 < cmp x ?p) (a + n - ?g) (a + n) ys1"
        using perm_in_seg [OF 1(2) g(2)] perm_in_seg_outside [OF 1(2) g(3)] perm_in_seg_outside [OF 1(2) g(4)] out
        by auto
      have s2: "seg (\<lambda>x. cmp x ?p < 0) a (a + ?l) ys2" "seg (\<lambda>x. cmp x ?p = 0) (a + ?l) (a + n - ?g) ys2"
          "seg (\<lambda>x. 0 < cmp x ?p) (a + n - ?g) (a + n) ys2" "sorted_in a (a + ?l) ys2"
        using perm_in_seg [OF 2(2) s1(3)] perm_in_seg_outside [OF 2(2) s1(1)] perm_in_seg_outside [OF 2(2) s1(2)]
          sorted_in_outside [OF 2(2) 1(3)] out l1 ly
        by auto
      have "sorted_in a (a + n) ys2" by (rule sorted_parts [OF s2(4) 2(3) g(5) s2(1-3)])
      moreover have "perm_in a (a + n) xs ys2"
      proof -
        have "perm_in a (a + n) ys ys1" "perm_in a (a + n) ys1 ys2"
          using 1(2) 2(2) out(1) by (auto elim!: perm_in_mono)
        then show ?thesis using p0 g(1) perm_in_trans by metis
      qed
      ultimately show ?thesis using step 1(1) 2(1) by simp
    qed
  qed
qed

end

section \<open>Arrays of names\<close>

text \<open>Elements that hold C strings, compared without regard to case, are a case of this.\<close>

lemma strcicmp_flip: "strcicmp a b = - strcicmp b a"
  by (induction a b rule: strcicmp.induct) (auto simp: Let_def)

lemma strcicmp_trans:
  "c_string a \<Longrightarrow> c_string b \<Longrightarrow> c_string c \<Longrightarrow> strcicmp a b \<le> 0 \<Longrightarrow> strcicmp b c \<le> 0 \<Longrightarrow>
   strcicmp a c \<le> 0"
proof (induction a b arbitrary: c rule: strcicmp.induct)
  case (1 c)
  then show ?case by simp
next
  case (2 y bs)
  then show ?case by (cases c) (auto simp: tolower_def)
next
  case (3 x as)
  then have "0 < code x" using code_nonneg [of x] by (auto simp: c_string_def order_less_le)
  then show ?case using 3 by (auto simp: tolower_def split: if_splits)
next
  case (4 x as y bs)
  show ?case
  proof (cases c)
    case Nil
    have "0 < code y" using 4(3) code_nonneg [of y] by (auto simp: c_string_def order_less_le)
    then show ?thesis using 4(6) Nil by (auto simp: tolower_def split: if_splits)
  next
    case (Cons z cs)
    then show ?thesis using 4
      by (auto simp: Let_def c_string_def split: if_splits)
  qed
qed

interpretation by_name: comparator "\<lambda>a b. strcicmp (cstr_at a) (cstr_at b)"
proof
  show "0 < strcicmp (cstr_at x) (cstr_at y) \<longleftrightarrow> strcicmp (cstr_at y) (cstr_at x) < 0" for x y
    using strcicmp_flip [of "cstr_at x" "cstr_at y"] by linarith
  show "strcicmp (cstr_at x) (cstr_at y) \<le> 0 \<Longrightarrow> strcicmp (cstr_at y) (cstr_at z) \<le> 0
      \<Longrightarrow> strcicmp (cstr_at x) (cstr_at z) \<le> 0" for x y z
    by (rule strcicmp_trans [OF cstr_at_c_string cstr_at_c_string cstr_at_c_string])
qed

text \<open>Claim C37: \<^verbatim>\<open>qsort\<close> returns for every range of an array of elements of at least one byte and
every comparison function that orders the elements, as long as the range is shorter than \<open>2 ^ 31\<close>
bytes. Afterwards the array is a permutation of what it was, the elements outside the range are untouched,
and no element of the range compares greater than a later one. With an element size of zero it does not
return from a range of seven elements or more.\<close>

theorem qsort_sorts:
  assumes "comparator cmp" and "n * es < 2 ^ 31" and "a + n \<le> length xs"
  shows "(0 < es \<longrightarrow> (\<exists>ys. qsort cmp es a n xs = Some ys \<and> mset ys = mset xs
      \<and> take a ys = take a xs \<and> drop (a + n) ys = drop (a + n) xs
      \<and> sorted_wrt (\<lambda>x y. cmp x y \<le> 0) (take n (drop a ys))))
    \<and> (es = 0 \<and> 7 \<le> n \<longrightarrow> qsort cmp es a n xs = None)"
proof (intro conjI impI)
  assume es: "0 < es"
  obtain ys where q: "qsort cmp es a n xs = Some ys" "perm_in a (a + n) xs ys"
      "comparator.sorted_in cmp a (a + n) ys"
    using comparator.qsort_ok [OF assms(1) es assms(2,3)] by blast
  have len: "length ys = length xs" by (rule perm_in_length [OF q(2)])
  have "take a ys = take a xs"
    using q(2) assms(3) len by (intro nth_equalityI) (auto simp: perm_in_nth)
  moreover have "drop (a + n) ys = drop (a + n) xs"
    using q(2) assms(3) len by (intro nth_equalityI) (auto simp: perm_in_nth)
  moreover have "sorted_wrt (\<lambda>x y. cmp x y \<le> 0) (take n (drop a ys))"
    using q(3) assms(3) len unfolding comparator.sorted_in_def [OF assms(1)]
    by (auto simp: sorted_wrt_iff_nth_less)
  ultimately show "\<exists>ys. qsort cmp es a n xs = Some ys \<and> mset ys = mset xs
      \<and> take a ys = take a xs \<and> drop (a + n) ys = drop (a + n) xs
      \<and> sorted_wrt (\<lambda>x y. cmp x y \<le> 0) (take n (drop a ys))" using q(1,2) by (auto simp: perm_in_def)
qed (subst qsort.simps, simp)

theorem qsort_sorts_witness:
  "\<exists>ys. qsort (\<lambda>a b. strcicmp (cstr_at a) (cstr_at b)) 2 1 3 [[65, 0], [67, 0], [97, 0], [66, 0]] = Some ys
    \<and> mset ys = {#[65, 0], [67, 0], [97, 0], [66, 0 :: byte]#}
    \<and> take 1 ys = [[65, 0]] \<and> drop 4 ys = []
    \<and> sorted_wrt (\<lambda>a b. strcicmp (cstr_at a) (cstr_at b) \<le> 0) (take 3 (drop 1 ys))"
  using qsort_sorts [OF by_name.comparator_axioms, of 3 2 1 "[[65, 0], [67, 0], [97, 0], [66, 0 :: byte]]"]
  by simp

end
