(* ===== verification/Bsearch.thy ===== *)
theory Bsearch
  imports Lk_Prelude
begin

text \<open>
  \<^verbatim>\<open>lib/libc/bsearch.c\<close>. The array is the list of its elements of \<open>sz\<close> bytes, a pointer to an
  element its byte offset in the array, computed in 64 bits as the code does. An access that
  does not hit an element is a fault. The comparison with the key is an argument. When the
  range becomes empty from above, \<open>high - low\<close> wraps, and the next index is \<open>low + 2 ^ 63 - 1\<close>.
\<close>

definition elem_at :: "nat \<Rightarrow> 'a list \<Rightarrow> nat \<Rightarrow> 'a option" where
  "elem_at sz xs off =
     (if off mod sz = 0 \<and> off div sz < length xs then Some (xs ! (off div sz)) else None)"

partial_function (option) bsearch_loop ::
    "('a \<Rightarrow> int) \<Rightarrow> nat \<Rightarrow> 'a list \<Rightarrow> nat \<Rightarrow> nat \<Rightarrow> nat option outcome option" where
  "bsearch_loop compare sz xs low high =
     (let mid = add64 low (sub64 high low div 2); mid_elem = mul64 mid sz in
      case elem_at sz xs mid_elem of
        None \<Rightarrow> Some Fault
      | Some x \<Rightarrow>
          (let r = compare x in
           if r < 0 then
             if mid = 0 then Some (Ret None) else bsearch_loop compare sz xs low (mid - 1)
           else if 0 < r then
             (let low = add64 mid 1 in
              if low < mid \<or> high < low then Some (Ret None) else bsearch_loop compare sz xs low high)
           else Some (Ret (Some mid_elem))))"

text \<open>\<open>None\<close> stands for a loop that does not end.\<close>

definition bsearch :: "('a \<Rightarrow> int) \<Rightarrow> 'a list \<Rightarrow> nat \<Rightarrow> nat option outcome option" where
  "bsearch compare xs sz =
     (let low = 0; high = sub64 (length xs) 1 in
      if length xs = 0 then Some (Ret None) else bsearch_loop compare sz xs low high)"

section \<open>Correctness\<close>

text \<open>The comparisons with the key fall along the array, as they do when it is sorted.\<close>

definition ordered_for :: "('a \<Rightarrow> int) \<Rightarrow> 'a list \<Rightarrow> bool" where
  "ordered_for compare xs \<longleftrightarrow>
     (\<forall>i j. i < j \<and> j < length xs \<longrightarrow> sgn (compare (xs ! j)) \<le> sgn (compare (xs ! i)))"

definition found :: "('a \<Rightarrow> int) \<Rightarrow> nat \<Rightarrow> 'a list \<Rightarrow> nat option outcome option \<Rightarrow> bool" where
  "found compare sz xs res \<longleftrightarrow>
     (\<exists>i < length xs. compare (xs ! i) = 0 \<and> res = Some (Ret (Some (i * sz))))
     \<or> (\<forall>x \<in> set xs. compare x \<noteq> 0) \<and> (res = Some (Ret None) \<or> odd sz \<and> res = Some Fault)"

lemma elem_at_index: "0 < sz \<Longrightarrow> i < length xs \<Longrightarrow> elem_at sz xs (i * sz) = Some (xs ! i)"
  by (simp add: elem_at_def)

text \<open>The range is empty: the index wraps, and only for an even element size the offset wraps
back to the element below.\<close>

lemma bsearch_empty_range:
  assumes "0 < sz" and "length xs * sz < 2 ^ 63" and "0 < low" and "low \<le> length xs"
    and "\<And>i. i < low \<Longrightarrow> 0 < compare (xs ! i)"
  shows "bsearch_loop compare sz xs low (low - 1) = (if odd sz then Some Fault else Some (Ret None))"
proof -
  have len: "length xs < 2 ^ 63"
    using le_less_trans [OF mult_le_mono2 [of 1 sz "length xs"] assms(2)] assms(1) by simp
  define M :: nat where "M = low + (2 ^ 63 - 1)"
  have "sub64 (low - 1) low = 2 ^ 64 - 1"
    using assms(3,4) len by (simp add: sub64_def)
  then have mid: "add64 low (sub64 (low - 1) low div 2) = M" and M: "add64 M 1 = M + 1" "low - 1 < M + 1"
    using assms(4) len by (simp_all add: add64_def M_def)
  have "low - 1 < length xs" using assms(3,4) by linarith
  then have lo2: "(low - 1) * sz < length xs * sz" using assms(1) by simp
  then have lo: "(low - 1) * sz < 2 ^ 63" using assms(2) by linarith
  have "M = (low - 1) + 2 ^ 63" using assms(3) by (simp add: M_def)
  then have split: "M * sz = (low - 1) * sz + 2 ^ 63 * sz" by (simp add: add_mult_distrib)
  show ?thesis
  proof (cases "odd sz")
    case True
    then obtain k where "sz = 2 * k + 1" by (rule oddE)
    then have "M * sz = (low - 1) * sz + 2 ^ 63 + 2 ^ 64 * k"
      using split by simp
    then have off: "mul64 M sz = (low - 1) * sz + 2 ^ 63"
      using lo by (simp add: mul64_def)
    have "length xs * sz \<le> (low - 1) * sz + 2 ^ 63" using assms(2) by linarith
    then have "length xs \<le> ((low - 1) * sz + 2 ^ 63) div sz"
      using assms(1) by (metis div_le_mono nonzero_mult_div_cancel_right neq0_conv)
    then have "elem_at sz xs ((low - 1) * sz + 2 ^ 63) = None" by (simp add: elem_at_def)
    then show ?thesis using True by (subst bsearch_loop.simps) (simp only: mid off Let_def option.case if_True not_False_eq_True)
  next
    case False
    then obtain k where "sz = 2 * k" by (auto elim: evenE)
    then have "M * sz = (low - 1) * sz + 2 ^ 64 * k" using split by simp
    then have off: "mul64 M sz = (low - 1) * sz"
      using lo by (simp add: mul64_def)
    have "elem_at sz xs ((low - 1) * sz) = Some (xs ! (low - 1))"
      using assms(1,3,4) by (intro elem_at_index) linarith+
    moreover have "0 < compare (xs ! (low - 1))" using assms(3,5) by simp
    ultimately show ?thesis using False
      by (subst bsearch_loop.simps) (simp add: mid off M Let_def del: One_nat_def)
  qed
qed

lemma bsearch_loop_ok:
  assumes "0 < sz" and "length xs * sz < 2 ^ 63" and "ordered_for compare xs"
    and "low \<le> high" and "high < length xs"
    and "\<And>i. i < low \<Longrightarrow> 0 < compare (xs ! i)"
    and "\<And>i. high < i \<Longrightarrow> i < length xs \<Longrightarrow> compare (xs ! i) < 0"
  shows "found compare sz xs (bsearch_loop compare sz xs low high)"
  using assms(4-7)
proof (induction "high - low" arbitrary: low high rule: less_induct)
  case less
  define m where "m = low + (high - low) div 2"
  have len: "length xs < 2 ^ 63"
    using le_less_trans [OF mult_le_mono2 [of 1 sz "length xs"] assms(2)] assms(1) by simp
  have mb: "low \<le> m" "m \<le> high" "m < length xs" using less.prems(1,2) unfolding m_def by linarith+
  have "m * sz < length xs * sz" using mb(3) assms(1) by simp
  then have "m * sz < 2 ^ 63" using assms(2) by linarith
  then have off: "mul64 m sz = m * sz"
    by (intro mul64_id) (erule order.strict_trans, simp)
  have mid: "add64 low (sub64 high low div 2) = m" "add64 m 1 = m + 1"
    using less.prems(1,2) mb(3) len by (simp_all add: m_def sub64_id add64_id)
  let ?r = "compare (xs ! m)"
  have body: "bsearch_loop compare sz xs low high =
      (if ?r < 0 then if m = 0 then Some (Ret None) else bsearch_loop compare sz xs low (m - 1)
       else if 0 < ?r then if high < m + 1 then Some (Ret None) else bsearch_loop compare sz xs (m + 1) high
       else Some (Ret (Some (m * sz))))"
    by (subst bsearch_loop.simps) (simp add: mid off elem_at_index [OF assms(1) mb(3)] Let_def del: One_nat_def)
  have below: "0 < compare (xs ! i)" if "0 < ?r" "i \<le> m" for i
  proof (cases "i = m")
    case False
    then have "sgn ?r \<le> sgn (compare (xs ! i))" using assms(3) that(2) mb(3) by (simp add: ordered_for_def)
    then show ?thesis using that(1) by (simp add: sgn_if split: if_splits)
  qed (use that in simp)
  have above: "compare (xs ! i) < 0" if "?r < 0" "m \<le> i" "i < length xs" for i
  proof (cases "i = m")
    case False
    then have "sgn (compare (xs ! i)) \<le> sgn ?r" using assms(3) that(2,3) by (simp add: ordered_for_def)
    then show ?thesis using that(1) by (simp add: sgn_if split: if_splits)
  qed (use that in simp)
  consider "?r < 0" | "0 < ?r" | "?r = 0" by linarith
  then show ?case
  proof cases
    case neg: 1
    consider "m = 0" | "low \<le> m - 1" "m \<noteq> 0" | "m = low" "0 < low" using mb(1) by linarith
    then show ?thesis
    proof cases
      case 1
      then have "bsearch_loop compare sz xs low high = Some (Ret None)" using body neg by simp
      moreover have "\<forall>x \<in> set xs. compare x \<noteq> 0" using above [OF neg] 1 by (fastforce simp: in_set_conv_nth)
      ultimately show ?thesis by (simp add: found_def)
    next
      case 2
      then have eq: "bsearch_loop compare sz xs low high = bsearch_loop compare sz xs low (m - 1)"
        using body neg by simp
      have "m - 1 - low < high - low" using 2 mb by linarith
      then have "found compare sz xs (bsearch_loop compare sz xs low (m - 1))"
        using 2 mb less.prems(3) above [OF neg] by (intro less.hyps) auto
      then show ?thesis by (simp only: eq)
    next
      case 3
      then have eq: "bsearch_loop compare sz xs low high = (if odd sz then Some Fault else Some (Ret None))"
        using body neg bsearch_empty_range [OF assms(1,2) 3(2), of compare] less.prems mb(3) by simp
      have "compare (xs ! i) \<noteq> 0" if "i < length xs" for i
        using that less.prems(3) [of i] above [OF neg, of i] 3(1) by (cases "i < low") auto
      then have "\<forall>x \<in> set xs. compare x \<noteq> 0" by (auto simp: in_set_conv_nth)
      then show ?thesis by (simp add: eq found_def)
    qed
  next
    case pos: 2
    show ?thesis
    proof (cases "high < m + 1")
      case True
      then have "bsearch_loop compare sz xs low high = Some (Ret None)" using body pos by simp
      moreover have "compare (xs ! i) \<noteq> 0" if "i < length xs" for i
        using that below [OF pos, of i] less.prems(4) [of i] True mb(2) by (cases "i \<le> m") auto
      ultimately show ?thesis by (auto simp: found_def in_set_conv_nth)
    next
      case False
      then have eq: "bsearch_loop compare sz xs low high = bsearch_loop compare sz xs (m + 1) high"
        using body pos by simp
      have "found compare sz xs (bsearch_loop compare sz xs (m + 1) high)"
        using False mb less.prems below [OF pos] by (intro less.hyps) auto
      then show ?thesis by (simp only: eq)
    qed
  next
    case 3
    then show ?thesis using body mb(3) by (auto simp: found_def)
  qed
qed

text \<open>On an array in order that takes less than half of the address space, \<^verbatim>\<open>bsearch\<close>
finds an element that equals the key if there is one. If there is none it returns null, except
that for elements of odd size it may instead read far outside the array, which cannot
happen for elements of even size.\<close>

theorem bsearch_finds:
  assumes "0 < sz" and "length xs * sz < 2 ^ 63" and "ordered_for compare xs"
  shows "(\<exists>i < length xs. compare (xs ! i) = 0 \<and> bsearch compare xs sz = Some (Ret (Some (i * sz))))
    \<or> (\<forall>x \<in> set xs. compare x \<noteq> 0)
      \<and> (bsearch compare xs sz = Some (Ret None) \<or> odd sz \<and> bsearch compare xs sz = Some Fault)"
proof (cases "length xs = 0")
  case True
  then show ?thesis by (simp add: bsearch_def)
next
  case False
  have len: "length xs < 2 ^ 63"
    using le_less_trans [OF mult_le_mono2 [of 1 sz "length xs"] assms(2)] assms(1) by simp
  have "sub64 (length xs) 1 = length xs - 1" using False len by (intro sub64_id) (simp_all add: Suc_le_eq)
  moreover have "found compare sz xs (bsearch_loop compare sz xs 0 (length xs - 1))"
    using False by (intro bsearch_loop_ok [OF assms]) auto
  ultimately show ?thesis using False by (simp add: bsearch_def found_def)
qed

theorem bsearch_finds_witness:
  "bsearch (\<lambda>x. 5 - x) [2, 5, 8 :: int] 4 = Some (Ret (Some 4))"
proof -
  have "ordered_for (\<lambda>x. 5 - x) [2, 5, 8 :: int]"
    unfolding ordered_for_def by (auto simp: less_Suc_eq numeral_3_eq_3)
  then show ?thesis using bsearch_finds [of 4 "[2, 5, 8 :: int]" "\<lambda>x. 5 - x"]
    by (auto simp: less_Suc_eq numeral_3_eq_3)
qed

text \<open>The fault happens: a key between two single-byte elements.\<close>

lemma bsearch_out_of_bounds: "bsearch (\<lambda>x. 2 - x) [1, 3 :: int] 1 = Some Fault"
proof -
  let ?l = "bsearch_loop (\<lambda>x. 2 - x) 1 [1, 3 :: int]"
  have "?l 0 1 = ?l 1 1"
    by (subst bsearch_loop.simps) (simp add: elem_at_def add64_def mul64_def sub64_def Let_def)
  also have "\<dots> = ?l 1 0"
    by (subst bsearch_loop.simps) (simp add: elem_at_def add64_def mul64_def sub64_def Let_def)
  also have "\<dots> = Some Fault"
    using bsearch_empty_range [of 1 "[1, 3 :: int]" 1 "\<lambda>x. 2 - x"] by simp
  finally show ?thesis by (simp add: bsearch_def sub64_def)
qed

end
