(* ===== verification/Libc_Mem.thy ===== *)
theory Libc_Mem
  imports Lk_Prelude
begin

unbundle bit_operations_syntax

text \<open>
  \<^verbatim>\<open>memcpy\<close>, \<^verbatim>\<open>memmove\<close> and \<^verbatim>\<open>memset\<close> of \<^verbatim>\<open>lib/libc/string\<close>, which work word by word where the
  addresses allow it. Memory is a function from addresses to bytes; \<^verbatim>\<open>lsize\<close> is 8. The bits
  \<^verbatim>\<open>(d | s) & lmask\<close> and \<^verbatim>\<open>(d ^ s) & lmask\<close> are written as remainders of the addresses by 8. The
  counter \<^verbatim>\<open>len\<close> is an \<^verbatim>\<open>int\<close>, so a count of \<open>2 ^ 31\<close> and more is cut off when it is assigned.
\<close>

type_synonym mem = "nat \<Rightarrow> byte"

definition i32 :: "nat \<Rightarrow> int" where
  "i32 n = signed_take_bit 31 (int n)"

definition slong :: "nat \<Rightarrow> int" where
  "slong a = signed_take_bit 63 (int a)"

text \<open>\<^verbatim>\<open>count -= len\<close>: the counter is extended to 64 bits.\<close>

definition minus_len :: "nat \<Rightarrow> int \<Rightarrow> nat" where
  "minus_len count len = nat ((int count - len) mod 2 ^ 64)"

definition store_word :: "nat \<Rightarrow> nat \<Rightarrow> mem \<Rightarrow> mem" where
  "store_word d s m = (\<lambda>a. if d \<le> a \<and> a < d + 8 then m (s + (a - d)) else m a)"

fun bytes_up :: "nat \<Rightarrow> nat \<Rightarrow> nat \<Rightarrow> mem \<Rightarrow> nat \<times> nat \<times> mem" where
  "bytes_up 0 d s m = (d, s, m)"
| "bytes_up (Suc len) d s m = bytes_up len (d + 1) (s + 1) (m(d := m s))"

fun words_up :: "nat \<Rightarrow> nat \<Rightarrow> nat \<Rightarrow> mem \<Rightarrow> nat \<times> nat \<times> mem" where
  "words_up 0 d s m = (d, s, m)"
| "words_up (Suc len) d s m = words_up len (d + 8) (s + 8) (store_word d s m)"

fun bytes_down :: "nat \<Rightarrow> nat \<Rightarrow> nat \<Rightarrow> mem \<Rightarrow> nat \<times> nat \<times> mem" where
  "bytes_down 0 d s m = (d, s, m)"
| "bytes_down (Suc len) d s m = bytes_down len (d - 1) (s - 1) (m(d - 1 := m (s - 1)))"

fun words_down :: "nat \<Rightarrow> nat \<Rightarrow> nat \<Rightarrow> mem \<Rightarrow> nat \<times> nat \<times> mem" where
  "words_down 0 d s m = (d, s, m)"
| "words_down (Suc len) d s m = words_down len (d - 8) (s - 8) (store_word (d - 8) (s - 8) m)"

section \<open>Copying upwards and downwards\<close>

definition copy_up :: "nat \<Rightarrow> nat \<Rightarrow> nat \<Rightarrow> mem \<Rightarrow> mem" where
  "copy_up d s count m =
     (let (d, s, count, m) =
        (if d mod 8 \<noteq> 0 \<or> s mod 8 \<noteq> 0 then
           (let len = (if d mod 8 \<noteq> s mod 8 \<or> count < 8 then i32 count else 8 - int (d mod 8));
                (d', s', m') = bytes_up (nat len) d s m
            in (d', s', minus_len count len, m'))
         else (d, s, count, m));
        (d, s, m) = words_up (nat (i32 (count div 8))) d s m;
        (d, s, m) = bytes_up (count mod 8) d s m
      in m)"

definition copy_down :: "nat \<Rightarrow> nat \<Rightarrow> nat \<Rightarrow> mem \<Rightarrow> mem" where
  "copy_down d s count m =
     (let d = d + count; s = s + count;
        (d, s, count, m) =
        (if d mod 8 \<noteq> 0 \<or> s mod 8 \<noteq> 0 then
           (let len = (if d mod 8 \<noteq> s mod 8 \<or> count \<le> 8 then i32 count else int (d mod 8));
                (d', s', m') = bytes_down (nat len) d s m
            in (d', s', minus_len count len, m'))
         else (d, s, count, m));
        (d, s, m) = words_down (nat (i32 (count div 8))) d s m;
        (d, s, m) = bytes_down (count mod 8) d s m
      in m)"

definition memcpy :: "nat \<Rightarrow> nat \<Rightarrow> nat \<Rightarrow> mem \<Rightarrow> mem" where
  "memcpy dest src count m =
     (if count = 0 \<or> dest = src then m else copy_up dest src count m)"

definition memmove :: "nat \<Rightarrow> nat \<Rightarrow> nat \<Rightarrow> mem \<Rightarrow> mem" where
  "memmove dest src count m =
     (if count = 0 \<or> dest = src then m
      else if slong dest < slong src then copy_up dest src count m
      else copy_down dest src count m)"

section \<open>What a copy does\<close>

text \<open>The bytes from offset \<open>i\<close> to \<open>j\<close> have been copied.\<close>

definition copied :: "nat \<Rightarrow> nat \<Rightarrow> nat \<Rightarrow> nat \<Rightarrow> mem \<Rightarrow> mem" where
  "copied d s i j m = (\<lambda>a. if d + i \<le> a \<and> a < d + j then m (s + (a - d)) else m a)"

lemma copied_none [simp]: "copied d s i i m = m"
  by (auto simp: copied_def fun_eq_iff)

lemma bytes_up_copied:
  assumes "d < s \<or> s + (i + len) \<le> d"
  shows "bytes_up len (d + i) (s + i) (copied d s 0 i m)
    = (d + (i + len), s + (i + len), copied d s 0 (i + len) m)"
  using assms
proof (induction len arbitrary: i)
  case (Suc len)
  have "(copied d s 0 i m)(d + i := copied d s 0 i m (s + i)) = copied d s 0 (Suc i) m"
    using Suc.prems by (auto simp: copied_def fun_eq_iff)
  then show ?case using Suc.IH [of "Suc i"] Suc.prems by simp
qed simp

lemma words_up_copied:
  assumes "d < s \<or> s + (i + len * 8) \<le> d"
  shows "words_up len (d + i) (s + i) (copied d s 0 i m)
    = (d + (i + len * 8), s + (i + len * 8), copied d s 0 (i + len * 8) m)"
  using assms
proof (induction len arbitrary: i)
  case (Suc len)
  have "store_word (d + i) (s + i) (copied d s 0 i m) = copied d s 0 (i + 8) m"
    using Suc.prems by (auto simp: copied_def store_word_def fun_eq_iff)
  then show ?case using Suc.IH [of "i + 8"] Suc.prems by (simp add: algebra_simps)
qed simp

lemma bytes_down_copied:
  assumes "s < d" and "len \<le> i" and "i \<le> n"
  shows "bytes_down len (d + i) (s + i) (copied d s i n m)
    = (d + (i - len), s + (i - len), copied d s (i - len) n m)"
  using assms
proof (induction len arbitrary: i)
  case (Suc len)
  then obtain k where k: "i = Suc k" by (cases i) auto
  have "(copied d s i n m)(d + k := copied d s i n m (s + k)) = copied d s k n m"
    using Suc.prems k by (auto simp: copied_def fun_eq_iff)
  then show ?case using Suc.IH [of k] Suc.prems k by simp
qed simp

lemma words_down_copied:
  assumes "s < d" and "len * 8 \<le> i" and "i \<le> n"
  shows "words_down len (d + i) (s + i) (copied d s i n m)
    = (d + (i - len * 8), s + (i - len * 8), copied d s (i - len * 8) n m)"
  using assms
proof (induction len arbitrary: i)
  case (Suc len)
  define k where "k = i - 8"
  have k: "i = k + 8" using Suc.prems by (simp add: k_def)
  have "store_word (d + k) (s + k) (copied d s i n m) = copied d s k n m"
    using Suc.prems k by (auto simp: copied_def store_word_def fun_eq_iff)
  then show ?case using Suc.IH [of k] Suc.prems k by simp
qed simp

lemma i32_id: "n < 2 ^ 31 \<Longrightarrow> i32 n = int n"
  by (simp add: i32_def signed_take_bit_int_eq_self)

lemma slong_id: "a < 2 ^ 63 \<Longrightarrow> slong a = int a"
  by (simp add: slong_def signed_take_bit_int_eq_self)

lemma minus_len_id: "len \<le> count \<Longrightarrow> count < 2 ^ 31 \<Longrightarrow> minus_len count (int len) = count - len"
  by (simp add: minus_len_def of_nat_diff flip: zdiff_int_split)

text \<open>Whole words, then the bytes left over.\<close>

lemma up_rest:
  assumes "d < s \<or> s + (i + c) \<le> d" and "c < 2 ^ 31"
  shows "(case words_up (nat (i32 (c div 8))) (d + i) (s + i) (copied d s 0 i m) of
      (d', s', m') \<Rightarrow> (case bytes_up (c mod 8) d' s' m' of (d'', s'', m'') \<Rightarrow> m''))
    = copied d s 0 (i + c) m"
proof -
  have n: "nat (i32 (c div 8)) = c div 8" using assms(2) by (simp add: i32_id)
  have c: "i + c div 8 * 8 + c mod 8 = i + c" by simp
  have "d < s \<or> s + (i + c div 8 * 8) \<le> d" using assms(1) c by linarith
  note w = words_up_copied [OF this]
  have "d < s \<or> s + (i + c div 8 * 8 + c mod 8) \<le> d" using assms(1) by (simp only: c)
  from bytes_up_copied [OF this] show ?thesis by (simp only: n w c prod.case)
qed

lemma down_rest:
  assumes "s < d" and "c < 2 ^ 31" and "c \<le> n"
  shows "(case words_down (nat (i32 (c div 8))) (d + c) (s + c) (copied d s c n m) of
      (d', s', m') \<Rightarrow> (case bytes_down (c mod 8) d' s' m' of (d'', s'', m'') \<Rightarrow> m''))
    = copied d s 0 n m"
proof -
  have n: "nat (i32 (c div 8)) = c div 8" using assms(2) by (simp add: i32_id)
  have c: "c div 8 * 8 \<le> c" "c - c div 8 * 8 = c mod 8" by (simp_all add: minus_div_mult_eq_mod)
  note w = words_down_copied [OF assms(1) c(1) assms(3), unfolded c(2)]
  have "c mod 8 \<le> n" using assms(3) mod_less_eq_dividend [of c 8] by linarith
  note b = bytes_down_copied [OF assms(1) order_refl this]
  show ?thesis by (simp only: n w b prod.case diff_self_eq_0)
qed

lemma copy_up_ok:
  assumes "d < s \<or> s + count \<le> d" and "count < 2 ^ 31"
  shows "copy_up d s count m = copied d s 0 count m"
proof (cases "d mod 8 \<noteq> 0 \<or> s mod 8 \<noteq> 0")
  case True
  define len where "len = (if d mod 8 \<noteq> s mod 8 \<or> count < 8 then count else 8 - d mod 8)"
  have len: "(if d mod 8 \<noteq> s mod 8 \<or> count < 8 then i32 count else 8 - int (d mod 8)) = int len"
    using assms(2) mod_less_divisor [of 8 d] by (simp add: len_def i32_id of_nat_diff)
  have le: "len \<le> count" by (auto simp: len_def intro: order_trans [of _ 8])
  have rest: "len + (count - len) = count" using le by simp
  have cond: "d < s \<or> s + (0 + len) \<le> d" "d < s \<or> s + (len + (count - len)) \<le> d"
    using assms(1) le by auto
  have b: "bytes_up len d s m = (d + len, s + len, copied d s 0 len m)"
    using bytes_up_copied [OF cond(1), of m] by simp
  have "count - len < 2 ^ 31" using assms(2) by linarith
  note r = up_rest [OF cond(2) this, unfolded rest]
  show ?thesis
    unfolding copy_up_def using True
    by (simp only: if_True len nat_int b Let_def prod.case minus_len_id [OF le assms(2)] r)
next
  case False
  then show ?thesis using up_rest [of d s 0 count m] assms by (simp add: copy_up_def)
qed

lemma copy_down_ok:
  assumes "s < d" and "count < 2 ^ 31"
  shows "copy_down d s count m = copied d s 0 count m"
proof (cases "(d + count) mod 8 \<noteq> 0 \<or> (s + count) mod 8 \<noteq> 0")
  case True
  define len where "len = (if (d + count) mod 8 \<noteq> (s + count) mod 8 \<or> count \<le> 8 then count
      else (d + count) mod 8)"
  have len: "(if (d + count) mod 8 \<noteq> (s + count) mod 8 \<or> count \<le> 8 then i32 count
      else int ((d + count) mod 8)) = int len"
    using assms(2) by (simp add: len_def i32_id)
  have "(d + count) mod 8 \<le> 8" using mod_less_divisor [of 8 "d + count"] by linarith
  then have le: "len \<le> count" by (auto simp: len_def intro: order_trans [of _ 8])
  note b = bytes_down_copied [OF assms(1) le order_refl, of m, unfolded copied_none]
  have "count - len < 2 ^ 31" "count - len \<le> count" using assms(2) by linarith+
  note r = down_rest [OF assms(1) this, of m]
  show ?thesis
    unfolding copy_down_def using True
    by (simp only: if_True len nat_int b Let_def prod.case minus_len_id [OF le assms(2)] r)
next
  case False
  then show ?thesis using down_rest [of s d count count m] assms by (simp add: copy_down_def)
qed

text \<open>Claim C38: for buffers in one half of the address space and counts below \<open>2 ^ 31\<close>,
\<^verbatim>\<open>memmove\<close> leaves in the destination what the source held before, overlapping or not and whatever
the alignment, and changes no other byte; so does \<^verbatim>\<open>memcpy\<close> when the source does not start
before the destination and reach into it.\<close>

theorem memmove_copies:
  assumes "dest + count < 2 ^ 63" and "src + count < 2 ^ 63" and "count < 2 ^ 31"
  shows "memmove dest src count m
      = (\<lambda>a. if dest \<le> a \<and> a < dest + count then m (src + (a - dest)) else m a)
    \<and> (dest \<le> src \<or> src + count \<le> dest
       \<longrightarrow> memcpy dest src count m = memmove dest src count m)"
proof -
  have s: "slong dest < slong src \<longleftrightarrow> dest < src" using assms(1,2) by (simp add: slong_id)
  have "memmove dest src count m = copied dest src 0 count m"
  proof (cases "count = 0 \<or> dest = src")
    case True
    then show ?thesis by (auto simp: memmove_def copied_def fun_eq_iff)
  next
    case False
    then show ?thesis using assms(3) copy_up_ok [of dest src count m] copy_down_ok [of src dest count m]
      by (cases "dest < src") (simp_all add: memmove_def s)
  qed
  moreover have "memcpy dest src count m = copied dest src 0 count m"
    if "dest \<le> src \<or> src + count \<le> dest"
  proof (cases "count = 0 \<or> dest = src")
    case True
    then show ?thesis by (auto simp: memcpy_def copied_def fun_eq_iff)
  next
    case False
    then show ?thesis using that assms(3) copy_up_ok [of dest src count m] by (auto simp: memcpy_def)
  qed
  ultimately show ?thesis by (simp add: copied_def)
qed

theorem memmove_copies_witness:
  "memmove 1003 1000 20 (\<lambda>a. word_of_nat a) 1005 = word_of_nat 1002
    \<and> memmove 1003 1000 20 (\<lambda>a. word_of_nat a) 1023 = word_of_nat 1023
    \<and> memcpy 1000 1003 20 (\<lambda>a. word_of_nat a) = memmove 1000 1003 20 (\<lambda>a. word_of_nat a)"
  using memmove_copies [of 1003 20 1000 "\<lambda>a. word_of_nat a"]
    memmove_copies [of 1000 20 1003 "\<lambda>a. word_of_nat a"] by simp

section \<open>Filling\<close>

text \<open>The fill byte is spread over a 64-bit word, which is stored with its lowest byte first.\<close>

definition spread :: "byte \<Rightarrow> u64" where
  "spread c =
     (let cc = ucast c :: u64;
          cc = cc OR push_bit 8 cc;
          cc = cc OR push_bit 16 cc
      in cc OR push_bit 32 cc)"

definition put_word :: "nat \<Rightarrow> u64 \<Rightarrow> mem \<Rightarrow> mem" where
  "put_word d w m = (\<lambda>a. if d \<le> a \<and> a < d + 8 then ucast (drop_bit (8 * (a - d)) w) else m a)"

fun fill_bytes :: "nat \<Rightarrow> byte \<Rightarrow> nat \<Rightarrow> mem \<Rightarrow> nat \<times> mem" where
  "fill_bytes 0 c d m = (d, m)"
| "fill_bytes (Suc len) c d m = fill_bytes len c (d + 1) (m(d := c))"

fun fill_words :: "nat \<Rightarrow> u64 \<Rightarrow> nat \<Rightarrow> mem \<Rightarrow> nat \<times> mem" where
  "fill_words 0 w d m = (d, m)"
| "fill_words (Suc len) w d m = fill_words len w (d + 8) (put_word d w m)"

definition memset :: "nat \<Rightarrow> byte \<Rightarrow> nat \<Rightarrow> mem \<Rightarrow> mem" where
  "memset s c count m =
     (let len = (2 ^ 64 - s mod 2 ^ 64) mod 8;
        (xs, count, m) =
          (if len < count then
             (let count = count - len;
                  (xs, m) = fill_bytes len c s m;
                  (xs, m) = fill_words (count div 8) (spread c) xs m
              in (xs, count mod 8, m))
           else (s, count, m));
        (xs, m) = fill_bytes count c xs m
      in m)"

definition filled :: "nat \<Rightarrow> nat \<Rightarrow> byte \<Rightarrow> mem \<Rightarrow> mem" where
  "filled s n c m = (\<lambda>a. if s \<le> a \<and> a < s + n then c else m a)"

lemma spread_byte: "k < 8 \<Longrightarrow> (ucast (drop_bit (8 * k) (spread c)) :: byte) = c"
proof -
  assume k: "k < 8"
  show ?thesis
  proof (rule bit_word_eqI)
    fix n assume "n < LENGTH(8)"
    then have n: "n < 8" by simp
    consider "k = 0" | "k = 1" | "k = 2" | "k = 3" | "k = 4" | "k = 5" | "k = 6" | "k = 7"
      using k by linarith
    then show "bit (ucast (drop_bit (8 * k) (spread c)) :: byte) n = bit c n"
      using n by cases (auto simp: spread_def Let_def bit_simps dest: bit_imp_le_length)
  qed
qed

lemma fill_bytes_filled:
  "fill_bytes len c (s + i) (filled s i c m) = (s + (i + len), filled s (i + len) c m)"
proof (induction len arbitrary: i)
  case (Suc len)
  have "(filled s i c m)(s + i := c) = filled s (Suc i) c m" by (auto simp: filled_def fun_eq_iff)
  then show ?case using Suc.IH [of "Suc i"] by simp
qed simp

lemma fill_words_filled:
  "fill_words len (spread c) (s + i) (filled s i c m) = (s + (i + len * 8), filled s (i + len * 8) c m)"
proof (induction len arbitrary: i)
  case (Suc len)
  have "put_word (s + i) (spread c) (filled s i c m) = filled s (i + 8) c m"
    by (auto simp: filled_def put_word_def fun_eq_iff spread_byte)
  then show ?case using Suc.IH [of "i + 8"] by (simp add: algebra_simps)
qed simp

text \<open>\<^verbatim>\<open>memset\<close> fills the range, whatever its alignment, and nothing else.\<close>

theorem memset_fills: "memset s c count m = (\<lambda>a. if s \<le> a \<and> a < s + count then c else m a)"
proof -
  define len where "len = (2 ^ 64 - s mod 2 ^ 64) mod (8 :: nat)"
  have "filled s 0 c m = m" by (auto simp: filled_def fun_eq_iff)
  then have b: "fill_bytes n c s m = (s + n, filled s n c m)" for n
    using fill_bytes_filled [of n c s 0 m] by simp
  have "memset s c count m = filled s count c m"
  proof (cases "len < count")
    case True
    have e: "len + (count - len) div 8 * 8 + (count - len) mod 8 = count" using True by simp
    show ?thesis using True fill_bytes_filled [of "(count - len) mod 8" c s "len + (count - len) div 8 * 8" m]
      unfolding memset_def len_def [symmetric] by (simp add: b fill_words_filled e Let_def)
  next
    case False
    then show ?thesis unfolding memset_def len_def [symmetric] by (simp add: b)
  qed
  then show ?thesis by (simp add: filled_def)
qed

end
