(* ===== verification/Spec2Isabelle.thy ===== *)
theory Spec2Isabelle
  imports Fastboot_Runs Block Bcache_Correct Sync_Runs Ports_Runs Cbuf Heap_Runs Qsort_Correct Bsearch Libc_Mem
    Libc_String
begin

text \<open>
  Verification of the core of \<^emph>\<open>lk3rd\<close>, a boot loader based on Little Kernel for Exynos 990
  devices (64-bit ARM, one CPU, PIT partition table, UFS storage, dynamic timer, miniheap).

  \<^bold>\<open>The program.\<close> The kernel (\<^verbatim>\<open>kernel/\<close>) gives threads, wait queues, timers, mutexes, events,
  semaphores and ports; the heap (\<^verbatim>\<open>lib/heap/\<close>) takes pages from the page allocator (\<^verbatim>\<open>kernel/novm/\<close>).
  Storage is a stack: the SCSI layer (\<^verbatim>\<open>dev/scsi/scsi.c\<close>) publishes logical units as block
  devices; the block layer (\<^verbatim>\<open>lib/bio/\<close>) registers devices by name and cuts requests to their
  native blocks; the PIT table (\<^verbatim>\<open>lib/gpt/pit.c\<close>) maps partition names to ranges of a unit; the
  partition interface (\<^verbatim>\<open>lib/gpt/part.c\<close>), the sparse-image writer of fastboot
  (\<^verbatim>\<open>lib/fastboot/decompress_ext4.c\<close>) and the persistent settings (\<^verbatim>\<open>lib/lk3rd/\<close>) sit on top, and the
  fastboot commands (\<^verbatim>\<open>lib/fastboot/fastboot_cmd.c\<close>) use them on behalf of a host that sends its
  commands over USB (\<^verbatim>\<open>dev/usb/device/fastboot/fastboot-device.c\<close>). The
  circular buffer (\<^verbatim>\<open>lib/cbuf/\<close>) carries console input, the block cache (\<^verbatim>\<open>lib/bcache/\<close>) keeps blocks
  of a device for file systems, and the C library (\<^verbatim>\<open>lib/libc/\<close>) has the string, memory, sorting and
  searching functions that all parts call.

  \<^bold>\<open>Conventions.\<close> \<open>Lk_Prelude\<close> has the status codes, arithmetic that wraps at 32 and 64 bits
  (\<open>add32\<close>, \<open>sub64\<close>, ...; the collection \<open>wrap_simps\<close> removes it where nothing wraps), reading and
  replacing a range of a byte list (\<open>slice_at\<close>, \<open>splice_at\<close>), and \<open>outcome\<close>: a call returns
  (\<open>Ret\<close>), stops the machine or does something undefined (\<open>Fault\<close>: failed assertion, panic, null
  or out-of-bounds access), or never returns (\<open>Hang\<close>). State is passed explicitly. Code that
  is not in the repository or that drives hardware is an argument: the execution of a SCSI
  command, the clock, the timer callbacks, the strings and lock state that fastboot reports.

  \<^bold>\<open>Assertions.\<close> \<^verbatim>\<open>LK_DEBUGLEVEL\<close> is 2, so that \<^verbatim>\<open>DEBUG_ASSERT\<close> stops the machine. Of the kernel
  calls, a \<open>Fault\<close> is the result when an assertion of the call itself fails; the helpers and timer
  callbacks of the scheduler set the flag \<open>panicked\<close>, which the kernel invariant excludes. Left out are
  the assertions that a lock is held or interrupts are off, those on the magic numbers of timers and wait
  queues, and those of the block layer on null pointers and on the reference count of a device that is
  in use.

  \<^bold>\<open>Storage.\<close>
  \<^item> \<open>Pow2\<close>: \<^verbatim>\<open>include/lk/pow2.h\<close> on 32-bit words.
  \<^item> \<open>Bio\<close>, \<open>Bio_New\<close>, \<open>Bio_Registry\<close>: \<^verbatim>\<open>lib/bio/bio.c\<close>, the device object with its hooks, the
    byte path, the sector path and the device list with reference counts. \<open>Bio_Correct\<close> and
    \<open>Bio_New_Correct\<close> prove both paths exact over any driver that meets the locale \<open>block_device\<close> or
    \<open>native_device\<close>; \<open>Bio_Mem\<close> (\<^verbatim>\<open>lib/bio/mem.c\<close>) and \<open>Scsi_Correct\<close> interpret these locales.
  \<^item> \<open>Bio_Byte\<close>: the byte-sized requests of \<^verbatim>\<open>lib/bio/bio.c\<close>. \<open>Bio_Byte_Correct\<close> shows, over any
    \<open>native_device\<close>, that they move what was asked and nothing behind the last sector, that they
    agree with the sector path, and where the count, the buffer and termination go wrong. \<open>Block\<close>
    has the \<^verbatim>\<open>blk_*\<close> calls of \<^verbatim>\<open>lib/block/block.c\<close>, which reach them by unit number.
  \<^item> \<open>Bio_Subdev\<close>: \<^verbatim>\<open>lib/bio/subdev.c\<close>. A sub-device of a block device is a block device on its slice
    of the image and cannot write outside it; reference counts stay exact along chains of parents.
  \<^item> \<open>Bcache\<close>, \<open>Bcache_Correct\<close>: \<^verbatim>\<open>lib/bcache/bcache.c\<close>. Over any device whose byte path is exact (locale
    \<open>byte_medium\<close>, interpreted by the memory device) the cache refines a plain store of blocks; a
    failed read leaves it broken.
  \<^item> \<open>Scsi\<close>, \<open>Scsi_Correct\<close>: the command blocks of \<^verbatim>\<open>dev/scsi/scsi.c\<close> and the unit scan; a unit that
    executes the standard commands on an image is a native device.
  \<^item> \<open>Cstr\<close>: the case-insensitive comparisons of \<^verbatim>\<open>lib/libc\<close>.
  \<^item> \<open>Storage\<close>: the registry together with the units, and what open, read, write and erase
    through a name do to the images.
  \<^item> \<open>Sparse\<close>: the sparse-image writer implements the meaning of the chunk list as long as its FILL
    chunks fit between the fixed buffer and the boot loader; its size check does not bound the chunks.
  \<^item> \<open>Pit\<close>, \<open>Pit_Correct\<close>: table parsing, the virtual partitions \<open>BOOT\<close> and \<open>LK3RD\<close>, partial
    ranges; accesses stay inside their partition and round-trip, but for a \<^verbatim>\<open>userdata\<close> of fewer than 40
    blocks and for sparse file system types, for which the theorems say what happens instead.
  \<^item> \<open>Part\<close>: the partition interface and the persistent settings; flashing the virtual boot
    partition leaves the boot loader in place.
  \<^item> \<open>Ab_Update\<close>: the A/B slot information of \<^verbatim>\<open>lib/ab_update/ab_update.c\<close> in the partition \<open>misc\<close>.
  \<^item> \<open>Fastboot\<close>, \<open>Fastboot_Correct\<close>: the commands of \<^verbatim>\<open>lib/fastboot/fastboot_cmd.c\<close> that write to the storage.
    Blocked partitions cannot be written, nor anything when the user declines; flashing a boot image
    changes of the boot loader only its version, an update of the boot loader keeps its settings, an image
    that does not fit is refused.
  \<^item> \<open>Fastboot_Cmds\<close>: the other commands and the dispatch, in which at most one handler runs for a
    command. \<open>Fastboot_Answers\<close> shows which answers each command sends.
  \<^item> \<open>Fastboot_Usb\<close>: the USB function as a step relation of its thread and the interrupts of the
    endpoints. \<open>Fastboot_Ready\<close> has its invariant and the measure by which it comes to rest;
    \<open>Fastboot_Runs\<close> shows that it listens again after every known command, that a download delivers
    the data, that an unknown command makes it deaf, and two runs that go wrong.

  \<^bold>\<open>Kernel.\<close>
  \<^item> \<open>Timer\<close>: \<^verbatim>\<open>kernel/timer.c\<close>, the sorted timer queue across the wrap-around of the 32-bit clock,
    the interrupt loop, and the hardware timer that follows the head.
  \<^item> \<open>Sched\<close>: \<^verbatim>\<open>kernel/thread.c\<close> and the boot sequence. A call that blocks is split: its first half
    leaves the thread blocked, a \<open>finish\<close> definition is the rest, run when the thread is next
    scheduled. \<open>Sched_Correct\<close> has the invariant, \<open>Sched_Safe\<close> that each call keeps it and
    returns, \<open>Sched_Steps\<close> the step relation of calls and interrupts with its reachable states and the
    conditions under which no assertion fails (\<open>enabled\<close>), \<open>Sched_Frame\<close> what each step leaves alone.
  \<^item> \<open>Sync\<close>: mutexes, events and semaphores. \<open>Lock_Queue\<close> is the common bookkeeping of waiters, with
    the proof that a wait without limit never times out, \<open>Sync_Correct\<close> the step relation of threads that use the objects with its invariant, \<open>Sync_Runs\<close>
    mutual exclusion, token accounting, wake-ups, and a run in which a timeout loses a wake-up.
  \<^item> \<open>Port_Buf\<close>, \<open>Ports\<close>: the packet rings and the calls of \<^verbatim>\<open>kernel/port.c\<close>. The ring refines a bounded
    queue (locale \<open>packet_fifo\<close>); \<open>Ports_Correct\<close> has the invariant of the links between port objects
    and that each change of an object keeps it; \<open>Ports_Runs\<close> shows that no legal call faults, what a
    write delivers and in which order it is read, and that \<^verbatim>\<open>port_group_remove\<close> breaks the invariant.

  \<^bold>\<open>Memory.\<close>
  \<^item> \<open>Novm\<close>: the page allocator is first fit and complete.
  \<^item> \<open>Miniheap\<close>: \<^verbatim>\<open>lib/heap/miniheap/miniheap.c\<close> and \<^verbatim>\<open>lib/heap/heap_wrapper.c\<close>. \<open>Free_List\<close> shows that
    a coalesced free list is determined by the addresses it covers, \<open>Heap_Correct\<close> and \<open>Heap_Trim\<close>
    that allocation, release, growth and trimming keep the heap's invariant, \<open>Heap_Runs\<close> that no
    legal sequence of calls after boot faults, what \<^verbatim>\<open>malloc\<close> promises (locale \<open>allocator\<close>), and
    that releasing undoes allocating. A delayed release puts a list node into the block and is legal
    only where it fits.
  \<^item> \<open>Cbuf\<close>: the circular buffer refines a bounded queue (locale \<open>byte_fifo\<close>).

  \<^bold>\<open>C library.\<close>
  \<^item> \<open>Qsort\<close>, \<open>Qsort_Correct\<close>: \<^verbatim>\<open>lib/libc/qsort.c\<close> sorts for every consistent comparison (locale
    \<open>comparator\<close>, interpreted by the string comparison). \<open>Bsearch\<close>: \<^verbatim>\<open>lib/libc/bsearch.c\<close>, with the
    wrap-around of its bounds.
  \<^item> \<open>Libc_Mem\<close>: the word-wise \<^verbatim>\<open>memcpy\<close>, \<^verbatim>\<open>memmove\<close> and \<^verbatim>\<open>memset\<close> agree with byte-wise definitions.
  \<^item> \<open>Strtol\<close>: \<^verbatim>\<open>lib/libc/strtol.c\<close> returns the value of the digits it finds in base 0 or any base
    from 2 on, cut to the range of the type, and where they end.
  \<^item> \<open>Libc_String\<close>: string functions over bounded objects; what they return, which of them stay
    inside their buffers, and that \<^verbatim>\<open>strlcat\<close> does not.

  \<^bold>\<open>Bounds.\<close> No definition uses fuel. Loops that the code could run for ever on some input are
  \<open>partial_function (option)\<close> or end in \<open>Hang\<close>, and the theorems show that they return. Requests
  to the heap are bounded by \<open>2 ^ 62\<close> bytes, far beyond any memory, because larger ones wrap
  (\<open>alloc_request_wraps\<close>); sorted arrays and copies by \<open>2 ^ 31\<close> bytes, because offsets and counts are
  \<^verbatim>\<open>int\<close>; the counters of semaphores are in the range of an \<^verbatim>\<open>int\<close>. Interrupts are taken between calls, and each section of code under a lock
  is one step.

  \<^bold>\<open>Not modelled.\<close> Register-level drivers (UFS, MMC, USB, displays, power), the context switch and
  other assembly; printing, tracing and console commands; the GPT code, which this platform does
  not select; the SMP branches; vendored libraries (\<^verbatim>\<open>external/\<close>, \<^verbatim>\<open>lib/libavb\<close>, \<^verbatim>\<open>lib/libdeflate\<close>);
  the network stack and the test applications.
\<close>

end
